(* ===== verification/Go_Prelude.thy ===== *)
theory Go_Prelude
  imports Main "HOL-Library.Word" "HOL-Library.AList" "HOL-Library.Multiset"
begin

text \<open>
  What the components share: the Go types the sources use (fixed-width integers as words, addresses
  and pool keys as byte lists, \<^verbatim>\<open>float64\<close> as its bit pattern), results of fallible functions as
  sums, Go maps that the code ranges over as association lists with an explicit iteration order,
  \<^verbatim>\<open>sort.Search\<close>, the division rules of \<^verbatim>\<open>math/big\<close>, and the struct-of-arrays layout with its
  index map and swap-and-pop deletion that four registries of the repository use.
\<close>

unbundle bit_operations_syntax

named_theorems soa_simps \<open>facts on struct-of-arrays columns and their index maps\<close>
named_theorems result_simps \<open>facts on results of fallible functions\<close>
named_theorems gomap_simps \<open>facts on Go maps and on ranging over them\<close>

section \<open>Types of the sources\<close>

type_synonym uint8 = "8 word"
type_synonym uint16 = "16 word"
type_synonym uint64 = "64 word"
type_synonym byte = "8 word"
type_synonym address = "byte list"
type_synonym float64 = "64 word"
type_synonym bigint = int
type_synonym ('k, 'v) gomap = "('k \<times> 'v) list"
type_synonym ('k, 'v) range_order = "('k, 'v) gomap \<Rightarrow> ('k, 'v) gomap"

text \<open>
  A \<^verbatim>\<open>float64\<close> is only copied and compared by the modelled code. It is its IEEE 754 bit pattern;
  \<open>float_eq\<close> is Go's \<^verbatim>\<open>==\<close>: no NaN equals anything, and the two zeros are equal.
\<close>

definition float_is_nan :: "float64 \<Rightarrow> bool" where
  "float_is_nan x \<longleftrightarrow> take_bit 11 (drop_bit 52 x) = 2047 \<and> take_bit 52 x \<noteq> 0"

definition float_is_zero :: "float64 \<Rightarrow> bool" where
  "float_is_zero x \<longleftrightarrow> take_bit 63 x = 0"

definition float_eq :: "float64 \<Rightarrow> float64 \<Rightarrow> bool" where
  "float_eq x y \<longleftrightarrow> \<not> float_is_nan x \<and> \<not> float_is_nan y \<and> (x = y \<or> float_is_zero x \<and> float_is_zero y)"

section \<open>Results\<close>

definition bind_result :: "'e + 'a \<Rightarrow> ('a \<Rightarrow> 'e + 'b) \<Rightarrow> 'e + 'b" where
  "bind_result r f = (case r of Inl e \<Rightarrow> Inl e | Inr x \<Rightarrow> f x)"

lemma bind_result_simps [simp, result_simps]:
  "bind_result (Inl e) f = Inl e"
  "bind_result (Inr x) f = f x"
  by (simp_all add: bind_result_def)

lemma bind_result_Inr [result_simps]:
  "bind_result r f = Inr y \<longleftrightarrow> (\<exists>x. r = Inr x \<and> f x = Inr y)"
  by (cases r) simp_all

lemma bind_result_Inl [result_simps]:
  "bind_result r f = Inl e \<longleftrightarrow> r = Inl e \<or> (\<exists>x. r = Inr x \<and> f x = Inl e)"
  by (cases r) simp_all

definition option_result :: "'e \<Rightarrow> 'a option \<Rightarrow> 'e + 'a" where
  "option_result e x = (case x of None \<Rightarrow> Inl e | Some y \<Rightarrow> Inr y)"

lemma option_result_simps [simp, result_simps]:
  "option_result e None = Inl e"
  "option_result e (Some y) = Inr y"
  by (simp_all add: option_result_def)

lemma option_result_eq_iff [result_simps]:
  "option_result e x = Inr y \<longleftrightarrow> x = Some y"
  "option_result e x = Inl e' \<longleftrightarrow> x = None \<and> e' = e"
  by (cases x; auto)+

section \<open>Go maps\<close>

text \<open>
  A Go map that the code only looks up and stores into is a map \<open>'k \<rightharpoonup> 'v\<close>. A map the code ranges
  over is an association list with distinct keys. Go leaves the order of \<^verbatim>\<open>for k, v := range m\<close>
  unspecified: each such loop takes its order as an argument, a function that returns some
  permutation of the entries.
\<close>

definition range_order :: "('k, 'v) range_order \<Rightarrow> bool" where
  "range_order ord \<longleftrightarrow> (\<forall>m. mset (ord m) = mset m)"

lemma range_order_id [simp]: "range_order (\<lambda>m. m)" and range_order_rev [simp]: "range_order rev"
  by (simp_all add: range_order_def)

lemma range_order_set [gomap_simps]: "range_order ord \<Longrightarrow> set (ord m) = set m"
  unfolding range_order_def by (metis set_mset_mset)

lemma range_order_distinct [gomap_simps]:
  assumes "range_order ord"
  shows "distinct (map fst (ord m)) \<longleftrightarrow> distinct (map fst m)"
proof -
  have "mset (ord m) = mset m" using assms by (simp add: range_order_def)
  then have "mset (map fst (ord m)) = mset (map fst m)" by simp
  then show ?thesis by (metis mset_eq_imp_distinct_iff)
qed

lemma range_order_map_of: "range_order ord \<Longrightarrow> distinct (map fst m) \<Longrightarrow> map_of (ord m) = map_of m"
  by (rule map_of_inject_set [THEN iffD2]) (simp_all add: range_order_distinct range_order_set)

lemma range_order_length [gomap_simps]: "range_order ord \<Longrightarrow> length (ord m) = length m"
  unfolding range_order_def by (metis size_mset)

text \<open>The loop \<^verbatim>\<open>for _, v := range vs { m[id(v)] = v }\<close>.\<close>

definition mapByID :: "('v \<Rightarrow> 'k) \<Rightarrow> 'v list \<Rightarrow> ('k, 'v) gomap" where
  "mapByID vid vs = foldl (\<lambda>m v. AList.update (vid v) v m) [] vs"

text \<open>The finite map that a list of keyed values stands for.\<close>

definition keyed :: "('v \<Rightarrow> 'k) \<Rightarrow> 'v list \<Rightarrow> ('k \<rightharpoonup> 'v)" where
  "keyed vid vs = map_of (map (\<lambda>v. (vid v, v)) vs)"

lemma keyed_Nil [simp]: "keyed vid [] = Map.empty"
  by (simp add: keyed_def)

lemma keyed_Cons [simp]: "keyed vid (v # vs) = (keyed vid vs)(vid v \<mapsto> v)"
  by (simp add: keyed_def)

lemma keyed_SomeD: "keyed vid vs k = Some v \<Longrightarrow> v \<in> set vs \<and> vid v = k"
  by (auto simp: keyed_def dest: map_of_SomeD)

lemma keyed_None_iff: "keyed vid vs k = None \<longleftrightarrow> k \<notin> vid ` set vs"
  by (auto simp: keyed_def map_of_eq_None_iff image_image)

lemma dom_keyed [simp]: "dom (keyed vid vs) = vid ` set vs"
  using keyed_None_iff [of vid vs] by (auto simp: dom_def)

lemma keyed_Some_iff:
  "distinct (map vid vs) \<Longrightarrow> keyed vid vs k = Some v \<longleftrightarrow> v \<in> set vs \<and> vid v = k"
  by (auto simp: keyed_def map_of_eq_Some_iff comp_def)

lemma distinct_keys_foldl_update:
  "distinct (map fst m) \<Longrightarrow> distinct (map fst (foldl (\<lambda>m v. AList.update (vid v) v m) m vs))"
  by (induction vs arbitrary: m) (simp_all add: distinct_update)

lemma distinct_mapByID [simp, gomap_simps]: "distinct (map fst (mapByID vid vs))"
  unfolding mapByID_def by (rule distinct_keys_foldl_update) simp

lemma map_of_foldl_update:
  "map_of (foldl (\<lambda>m v. AList.update (vid v) v m) m vs) = map_of m ++ keyed vid (rev vs)"
proof (induction vs rule: rev_induct)
  case Nil
  then show ?case by simp
next
  case (snoc v vs)
  then show ?case by (simp add: update_conv' fun_eq_iff map_add_def)
qed

lemma map_of_mapByID [gomap_simps]: "map_of (mapByID vid vs) = keyed vid (rev vs)"
  by (simp add: mapByID_def map_of_foldl_update)

lemma keyed_cong_distinct:
  assumes "distinct (map vid vs)" and "set ws = set vs" and "distinct (map vid ws)"
  shows "keyed vid ws = keyed vid vs"
proof
  fix k
  show "keyed vid ws k = keyed vid vs k"
  proof (cases "keyed vid vs k")
    case None
    then show ?thesis using assms(2) by (metis keyed_None_iff)
  next
    case (Some v)
    then have "v \<in> set ws" "vid v = k" using assms by (simp_all add: keyed_Some_iff)
    then have "keyed vid ws k = Some v" using assms(3) by (simp add: keyed_Some_iff)
    with Some show ?thesis by simp
  qed
qed

lemma keyed_rev: "distinct (map vid vs) \<Longrightarrow> keyed vid (rev vs) = keyed vid vs"
  by (rule keyed_cong_distinct) (simp_all add: rev_map [symmetric])

lemma map_of_mapByID_distinct [gomap_simps]:
  "distinct (map vid vs) \<Longrightarrow> map_of (mapByID vid vs) = keyed vid vs"
  by (simp add: map_of_mapByID keyed_rev)

lemma set_map_of_distinct: "distinct (map fst m) \<Longrightarrow> (k, v) \<in> set m \<longleftrightarrow> map_of m k = Some v"
  by simp

lemma distinct_map_eqD: "distinct (map f xs) \<Longrightarrow> x \<in> set xs \<Longrightarrow> y \<in> set xs \<Longrightarrow> f x = f y \<Longrightarrow> x = y"
  by (simp add: distinct_map inj_on_def)

section \<open>Struct-of-arrays registries\<close>

text \<open>
  \<open>index_inv ks m\<close>: the index map \<open>m\<close> is exactly the inverse of the key column \<open>ks\<close>. It implies
  that keys are distinct and that every index the map returns is in range.
\<close>

definition index_inv :: "'k list \<Rightarrow> ('k \<rightharpoonup> nat) \<Rightarrow> bool" where
  "index_inv ks m \<longleftrightarrow> (\<forall>k i. m k = Some i \<longleftrightarrow> i < length ks \<and> ks ! i = k)"

lemma index_invD [soa_simps]: "index_inv ks m \<Longrightarrow> m k = Some i \<Longrightarrow> i < length ks \<and> ks ! i = k"
  by (simp add: index_inv_def)

lemma index_inv_nth: "index_inv ks m \<Longrightarrow> i < length ks \<Longrightarrow> m (ks ! i) = Some i"
  by (simp add: index_inv_def)

lemma index_inv_distinct: "index_inv ks m \<Longrightarrow> distinct ks"
  unfolding distinct_conv_nth by (metis index_inv_nth option.inject)

lemma index_inv_None_iff: "index_inv ks m \<Longrightarrow> m k = None \<longleftrightarrow> k \<notin> set ks"
  unfolding index_inv_def in_set_conv_nth by (metis option.exhaust option.distinct(1))

lemma index_inv_empty [simp, soa_simps]: "index_inv [] Map.empty"
  by (simp add: index_inv_def)

lemma index_inv_append [soa_simps]:
  assumes "index_inv ks m" and "m k = None"
  shows "index_inv (ks @ [k]) (m(k \<mapsto> length ks))"
proof -
  have "k \<notin> set ks" using assms by (simp add: index_inv_None_iff)
  with assms(1) show ?thesis
    unfolding index_inv_def by (auto simp: nth_append less_Suc_eq)
qed

text \<open>The lookup map of a slice, built by assigning each element its index from left to right.\<close>

definition lookup_map :: "'k list \<Rightarrow> ('k \<rightharpoonup> nat)" where
  "lookup_map ids = map_of (rev (zip ids [0..<length ids]))"

lemma lookup_map_inv: "distinct ids \<Longrightarrow> index_inv ids (lookup_map ids)"
proof -
  assume d: "distinct ids"
  then have "distinct (map fst (rev (zip ids [0..<length ids])))" by (simp flip: rev_map)
  then have "lookup_map ids k = Some i \<longleftrightarrow> (k, i) \<in> set (zip ids [0..<length ids])" for k i
    by (simp add: lookup_map_def)
  then show ?thesis by (auto simp: index_inv_def in_set_zip)
qed

text \<open>\<^verbatim>\<open>xs[i] = xs[last]; xs = xs[:last]\<close>\<close>

definition swap_pop :: "nat \<Rightarrow> nat \<Rightarrow> 'a list \<Rightarrow> 'a list" where
  "swap_pop i l xs = take l (xs[i := xs ! l])"

lemma length_swap_pop [simp, soa_simps]: "length (swap_pop i l xs) = min (length xs) l"
  by (simp add: swap_pop_def)

lemma nth_swap_pop [simp, soa_simps]:
  "j < l \<Longrightarrow> j < length xs \<Longrightarrow> swap_pop i l xs ! j = (if j = i then xs ! l else xs ! j)"
  by (auto simp: swap_pop_def nth_list_update)

lemma nth_swap_pop_reindex:
  "j < l \<Longrightarrow> l < length xs \<Longrightarrow> swap_pop i l xs ! j = xs ! (if j = i then l else j)"
  by simp

lemma ex_swap_pop_reindex:
  assumes "(i :: nat) \<le> l"
  shows "(\<exists>j < l. P (if j = i then l else j)) \<longleftrightarrow> (\<exists>j \<le> l. j \<noteq> i \<and> P j)"
proof
  assume "\<exists>j < l. P (if j = i then l else j)"
  then obtain j where j: "j < l" "P (if j = i then l else j)" by blast
  then have "(if j = i then l else j) \<le> l" "(if j = i then l else j) \<noteq> i" by auto
  with j(2) show "\<exists>j \<le> l. j \<noteq> i \<and> P j" by blast
next
  assume "\<exists>j \<le> l. j \<noteq> i \<and> P j"
  then obtain j where j: "j \<le> l" "j \<noteq> i" "P j" by blast
  show "\<exists>j < l. P (if j = i then l else j)"
  proof (cases "j = l")
    case True
    with j assms have "i < l \<and> P (if i = i then l else i)" by simp
    then show ?thesis by blast
  next
    case False
    with j have "j < l \<and> P (if j = i then l else j)" by simp
    then show ?thesis by blast
  qed
qed

lemma set_swap_pop:
  assumes "distinct xs" and "i < length xs" and "l = length xs - 1"
  shows "set (swap_pop i l xs) = set xs - {xs ! i}"
proof (rule set_eqI)
  fix x
  have l: "l < length xs" "i \<le> l" using assms by linarith+
  have "x \<in> set (swap_pop i l xs) \<longleftrightarrow> (\<exists>j < l. xs ! (if j = i then l else j) = x)"
    using l by (auto simp: in_set_conv_nth nth_swap_pop_reindex)
  also have "\<dots> \<longleftrightarrow> (\<exists>j \<le> l. j \<noteq> i \<and> xs ! j = x)" by (rule ex_swap_pop_reindex [OF l(2)])
  also have "\<dots> \<longleftrightarrow> (\<exists>j < length xs. xs ! j = x \<and> xs ! j \<noteq> xs ! i)"
  proof (rule ex_cong1)
    fix j
    have "j \<le> l \<longleftrightarrow> j < length xs" using l assms(3) by linarith
    then show "(j \<le> l \<and> j \<noteq> i \<and> xs ! j = x) = (j < length xs \<and> xs ! j = x \<and> xs ! j \<noteq> xs ! i)"
      using assms(1,2) by (auto simp: nth_eq_iff_index_eq)
  qed
  also have "\<dots> \<longleftrightarrow> x \<in> set xs - {xs ! i}" by (auto simp: in_set_conv_nth)
  finally show "x \<in> set (swap_pop i l xs) \<longleftrightarrow> x \<in> set xs - {xs ! i}" .
qed

text \<open>A second key column with a map from its keys to the first column, as \<^verbatim>\<open>addressToID\<close>.\<close>

definition link_inv :: "'a list \<Rightarrow> 'k list \<Rightarrow> ('a \<rightharpoonup> 'k) \<Rightarrow> bool" where
  "link_inv as ks m \<longleftrightarrow> (\<forall>a k. m a = Some k \<longleftrightarrow> (\<exists>j < length ks. as ! j = a \<and> ks ! j = k))"

lemma link_inv_empty [simp]: "link_inv [] [] Map.empty"
  by (simp add: link_inv_def)

lemma link_invD: "link_inv as ks m \<Longrightarrow> m a = Some k \<longleftrightarrow> (\<exists>j < length ks. as ! j = a \<and> ks ! j = k)"
  by (simp add: link_inv_def)

lemma link_inv_distinct:
  assumes "link_inv as ks m" and "distinct ks" and "length as = length ks"
  shows "distinct as"
  unfolding distinct_conv_nth
proof (intro allI impI)
  fix i j assume ij: "i < length as" "j < length as" "i \<noteq> j"
  then have "m (as ! i) = Some (ks ! i)" "m (as ! j) = Some (ks ! j)"
    using assms(1,3) by (auto simp: link_inv_def)
  moreover have "ks ! i \<noteq> ks ! j" using ij assms(2,3) by (simp add: nth_eq_iff_index_eq)
  ultimately show "as ! i \<noteq> as ! j" by auto
qed

lemma link_inv_None_iff:
  assumes "link_inv as ks m" and "length as = length ks"
  shows "m a = None \<longleftrightarrow> a \<notin> set as"
proof -
  have "m a \<noteq> None \<longleftrightarrow> (\<exists>j < length as. as ! j = a)"
    using assms by (auto simp: link_inv_def)
  then show ?thesis by (auto simp: in_set_conv_nth)
qed

lemma link_inv_append:
  assumes "link_inv as ks m" and "length as = length ks" and "m a = None"
  shows "link_inv (as @ [a]) (ks @ [k]) (m(a \<mapsto> k))"
proof -
  have "a \<notin> set as" using assms by (simp add: link_inv_None_iff)
  then have "as ! j \<noteq> a" if "j < length ks" for j using that assms(2) by (metis nth_mem)
  then show ?thesis
    using assms(1,2) unfolding link_inv_def
    by (auto simp: nth_append less_Suc_eq split: if_splits)
qed

lemma link_inv_swap_pop:
  assumes inv: "link_inv as ks m" and len: "length as = length ks" and d: "distinct ks"
    and i: "i < length ks" and l: "l = length ks - 1"
  shows "link_inv (swap_pop i l as) (swap_pop i l ks) (m(as ! i := None))"
proof -
  have l': "l < length ks" "l < length as" "i \<le> l" using i l len by linarith+
  have da: "distinct as" by (rule link_inv_distinct [OF inv d len])
  show ?thesis
    unfolding link_inv_def
  proof (intro allI)
    fix a k
    have "(\<exists>j < length (swap_pop i l ks). swap_pop i l as ! j = a \<and> swap_pop i l ks ! j = k) \<longleftrightarrow>
        (\<exists>j < l. as ! (if j = i then l else j) = a \<and> ks ! (if j = i then l else j) = k)"
      using l' by (intro ex_cong1) (auto simp: nth_swap_pop_reindex)
    also have "\<dots> \<longleftrightarrow> (\<exists>j \<le> l. j \<noteq> i \<and> as ! j = a \<and> ks ! j = k)"
      by (rule ex_swap_pop_reindex [OF l'(3), where P = "\<lambda>j. as ! j = a \<and> ks ! j = k"])
    also have "\<dots> \<longleftrightarrow> (\<exists>j < length ks. j \<noteq> i \<and> as ! j = a \<and> ks ! j = k)"
      using l l' by (intro ex_cong1) auto
    also have "\<dots> \<longleftrightarrow> a \<noteq> as ! i \<and> (\<exists>j < length ks. as ! j = a \<and> ks ! j = k)"
      using da i len by (auto simp: nth_eq_iff_index_eq)
    also have "\<dots> \<longleftrightarrow> (m(as ! i := None)) a = Some k"
      using inv by (auto simp: link_inv_def)
    finally show "(m(as ! i := None)) a = Some k \<longleftrightarrow>
        (\<exists>j < length (swap_pop i l ks). swap_pop i l as ! j = a \<and> swap_pop i l ks ! j = k)" ..
  qed
qed

lemma swap_pop_last: "i = l \<Longrightarrow> swap_pop i l xs = take l xs"
  by (simp add: swap_pop_def)

lemma set_swap_pop_subset: "l < length xs \<Longrightarrow> set (swap_pop i l xs) \<subseteq> set xs"
  unfolding swap_pop_def using set_take_subset set_update_subsetI by (metis nth_mem subset_refl subset_trans)

lemma map_swap_pop: "l < length xs \<Longrightarrow> map f (swap_pop i l xs) = swap_pop i l (map f xs)"
  by (simp add: swap_pop_def map_update flip: take_map)

lemma index_inv_swap_pop [soa_simps]:
  assumes inv: "index_inv ks m" and k: "m k = Some i" and l: "l = length ks - 1"
  shows "index_inv (swap_pop i l ks) ((m(ks ! l \<mapsto> i))(k := None))"
proof -
  have i: "i < length ks" "ks ! i = k" using index_invD [OF inv k] by auto
  then have l': "l < length ks" using l by linarith
  have d: "distinct ks" using inv by (rule index_inv_distinct)
  show ?thesis
    unfolding index_inv_def
  proof (intro allI iffI)
    fix k' j
    assume "((m(ks ! l \<mapsto> i))(k := None)) k' = Some j"
    then have kk: "k' \<noteq> k" and c: "(if k' = ks ! l then Some i else m k') = Some j"
      by (auto split: if_splits)
    show "j < length (swap_pop i l ks) \<and> swap_pop i l ks ! j = k'"
    proof (cases "k' = ks ! l")
      case True
      with c kk i l l' have "j = i" "i < l" by (auto simp: le_less_Suc_eq nat_less_le)
      with True l' show ?thesis by simp
    next
      case False
      with c have j: "j < length ks" "ks ! j = k'" using index_invD [OF inv] by auto
      with False kk i have "j \<noteq> l" "j \<noteq> i" by auto
      with j l show ?thesis by simp
    qed
  next
    fix k' j
    assume a: "j < length (swap_pop i l ks) \<and> swap_pop i l ks ! j = k'"
    then have j: "j < l" "j < length ks" by simp_all
    show "((m(ks ! l \<mapsto> i))(k := None)) k' = Some j"
    proof (cases "j = i")
      case True
      with a j have "k' = ks ! l" by simp
      moreover have "ks ! l \<noteq> k" using d i l' j True by (metis nat_less_le nth_eq_iff_index_eq)
      ultimately show ?thesis using True by simp
    next
      case False
      with a j have "k' = ks ! j" by simp
      moreover from this have "k' \<noteq> k" "k' \<noteq> ks ! l"
        using d i l' j False by (auto simp: nth_eq_iff_index_eq)
      ultimately show ?thesis using index_inv_nth [OF inv j(2)] by simp
    qed
  qed
qed

lemma index_swap_cond:
  assumes "index_inv ks m" and "m k = Some i" and "l = length ks - 1"
  shows "(if i \<noteq> l then m(ks ! l \<mapsto> i) else m)(k := None) = m(ks ! l \<mapsto> i, k := None)"
  using index_invD [OF assms(1,2)] assms(3) by auto

text \<open>The same three operations on the list of rows, read as a map from keys to rows.\<close>

lemma index_inv_rowD:
  "index_inv (map vid vs) m \<Longrightarrow> m k = Some i \<Longrightarrow> i < length vs \<and> vid (vs ! i) = k"
  by (metis index_invD length_map nth_map)

lemma keyed_index:
  assumes "index_inv (map vid vs) m"
  shows "keyed vid vs k = map_option (nth vs) (m k)"
proof (cases "m k")
  case None
  then show ?thesis using index_inv_None_iff [OF assms, of k] by (simp add: keyed_None_iff)
next
  case (Some i)
  then have i: "i < length vs" "vid (vs ! i) = k" using index_inv_rowD [OF assms] by auto
  have "distinct (map vid vs)" using assms by (rule index_inv_distinct)
  then show ?thesis using i Some by (simp add: keyed_Some_iff)
qed

lemma keyed_append:
  "vid v \<notin> vid ` set vs \<Longrightarrow> keyed vid (vs @ [v]) = (keyed vid vs)(vid v \<mapsto> v)"
  by (induction vs) (auto simp: fun_upd_twist)

lemma keyed_append_None: "keyed vid vs (vid v) = None \<Longrightarrow> keyed vid (vs @ [v]) = (keyed vid vs)(vid v \<mapsto> v)"
  by (simp add: keyed_append keyed_None_iff)

lemma keyed_update:
  assumes inv: "index_inv (map vid vs) m" and k: "m k = Some i" and v: "vid v = k"
  shows "keyed vid (vs[i := v]) = (keyed vid vs)(k \<mapsto> v)"
proof -
  have i: "i < length vs" "vid (vs ! i) = k" using index_inv_rowD [OF inv k] by auto
  have "map vid (vs[i := v]) = (map vid vs)[i := (map vid vs) ! i]"
    using i v by (simp add: map_update)
  then have col: "map vid (vs[i := v]) = map vid vs" by simp
  show ?thesis
  proof
    fix k'
    show "keyed vid (vs[i := v]) k' = ((keyed vid vs)(k \<mapsto> v)) k'"
    proof (cases "k' = k")
      case True
      then show ?thesis using k i inv by (simp add: keyed_index [of vid _ m] col)
    next
      case False
      then have "j \<noteq> i" if "m k' = Some j" for j
        using index_inv_rowD [OF inv that] i by auto
      with False show ?thesis
        using inv by (cases "m k'") (simp_all add: keyed_index [of vid _ m] col)
    qed
  qed
qed

lemma keyed_swap_pop:
  assumes inv: "index_inv (map vid vs) m" and k: "m k = Some i" and l: "l = length vs - 1"
  shows "keyed vid (swap_pop i l vs) = (keyed vid vs)(k := None)"
proof -
  have i: "i < length vs" "vid (vs ! i) = k" using index_inv_rowD [OF inv k] by auto
  then have l': "l < length vs" using l by linarith
  let ?m = "(m(map vid vs ! l \<mapsto> i))(k := None)"
  have inv': "index_inv (map vid (swap_pop i l vs)) ?m"
    using index_inv_swap_pop [OF inv k] l l' by (simp add: map_swap_pop)
  show ?thesis
  proof
    fix k'
    show "keyed vid (swap_pop i l vs) k' = ((keyed vid vs)(k := None)) k'"
    proof (cases "?m k'")
      case None
      then show ?thesis
        using i by (auto simp: keyed_index [OF inv'] keyed_index [OF inv] split: if_splits)
    next
      case (Some j)
      then have j: "j < l" using index_invD [OF inv'] l' by simp
      have "k' \<noteq> k" using Some by auto
      show ?thesis
      proof (cases "k' = vid (vs ! l)")
        case True
        then have "m k' = Some l" using index_inv_nth [OF inv, of l] l' by simp
        moreover have "j = i" using True Some \<open>k' \<noteq> k\<close> l' by simp
        ultimately show ?thesis
          using Some j l' \<open>k' \<noteq> k\<close> by (simp add: keyed_index [OF inv'] keyed_index [OF inv])
      next
        case False
        then have mk: "m k' = Some j" using Some \<open>k' \<noteq> k\<close> l' by simp
        then have "j \<noteq> i" using index_inv_rowD [OF inv mk] i \<open>k' \<noteq> k\<close> by auto
        with mk Some j l' \<open>k' \<noteq> k\<close> show ?thesis
          by (simp add: keyed_index [OF inv'] keyed_index [OF inv])
      qed
    qed
  qed
qed

section \<open>Counters\<close>

lemma word_less_succ: "n + 1 \<noteq> 0 \<Longrightarrow> (n :: 'a::len word) < n + 1"
  by (metis add.commute lessI unatSuc word_less_nat_alt)

lemma word_less_succ_neq_0: "(m :: 'a::len word) < n \<Longrightarrow> m + 1 \<noteq> 0"
  using inc_less_eq_triv_imp [of m] by (metis add_eq_0_iff2 word_order.extremum_strict)

lemma word_less_imp_less_succ: "i < n \<Longrightarrow> n + 1 \<noteq> 0 \<Longrightarrow> (i :: 'a::len word) < n + 1"
  using word_less_succ less_trans by blast

lemma foldl_max_ge: "(m :: 'a::linorder) \<le> foldl max m xs"
  by (induction xs arbitrary: m) (simp, metis foldl_Cons max.boundedE)

lemma foldl_max_ge_mem: "x \<in> set xs \<Longrightarrow> x \<le> foldl max (m :: 'a::linorder) xs"
proof (induction xs arbitrary: m)
  case (Cons y ys)
  then show ?case using foldl_max_ge [of "max m y" ys] by auto
qed simp

lemma foldl_max_in: "foldl max (m :: 'a::linorder) xs \<in> insert m (set xs)"
proof (induction xs arbitrary: m)
  case (Cons y ys)
  then show ?case using Cons [of "max m y"] by (auto simp: max_def split: if_splits)
qed simp

section \<open>\<^verbatim>\<open>sort.Search\<close>\<close>

text \<open>
  The binary search of Go's \<^verbatim>\<open>sort\<close> package:
  \<^verbatim>\<open>i, j := 0, n; for i < j { h := (i+j)/2; if !f(h) { i = h+1 } else { j = h } }; return i\<close>.
\<close>

function search_loop :: "(nat \<Rightarrow> bool) \<Rightarrow> nat \<Rightarrow> nat \<Rightarrow> nat" where
  "search_loop f i j =
     (if i < j
      then let h = (i + j) div 2 in if \<not> f h then search_loop f (h + 1) j else search_loop f i h
      else i)"
  by pat_completeness auto
termination
  by (relation "measure (\<lambda>(f, i, j). j - i)") auto

declare search_loop.simps [simp del]

definition sort_Search :: "nat \<Rightarrow> (nat \<Rightarrow> bool) \<Rightarrow> nat" where
  "sort_Search n f = search_loop f 0 n"

lemma search_loop_correct:
  assumes "i \<le> j" and "\<And>a b. a \<le> b \<Longrightarrow> b < n \<Longrightarrow> f a \<Longrightarrow> f b" and "j \<le> n"
    and "\<forall>a < i. \<not> f a" and "\<forall>a. j \<le> a \<and> a < n \<longrightarrow> f a"
  shows "search_loop f i j \<le> n \<and> (\<forall>a < search_loop f i j. \<not> f a)
       \<and> (\<forall>a. search_loop f i j \<le> a \<and> a < n \<longrightarrow> f a)"
  using assms
proof (induction f i j rule: search_loop.induct)
  case (1 f i j)
  let ?h = "(i + j) div 2"
  show ?case
  proof (cases "i < j")
    case False
    then have "search_loop f i j = i" by (simp add: search_loop.simps [of f i j])
    with False "1.prems" show ?thesis by simp
  next
    case ij: True
    then have h: "i \<le> ?h" "?h < j" by auto
    show ?thesis
    proof (cases "f ?h")
      case True
      have "search_loop f i ?h \<le> n \<and> (\<forall>a < search_loop f i ?h. \<not> f a)
          \<and> (\<forall>a. search_loop f i ?h \<le> a \<and> a < n \<longrightarrow> f a)"
      proof (rule "1.IH"(2) [OF ij refl])
        show "\<not> \<not> f ?h" "i \<le> ?h" "?h \<le> n" "\<forall>a<i. \<not> f a"
          using True h "1.prems"(3,4) by auto
        show "\<forall>a. ?h \<le> a \<and> a < n \<longrightarrow> f a" using "1.prems"(2) True by blast
      qed (rule "1.prems"(2))
      then show ?thesis using ij True by (simp add: search_loop.simps [of f i j] Let_def)
    next
      case False
      have "search_loop f (?h + 1) j \<le> n \<and> (\<forall>a < search_loop f (?h + 1) j. \<not> f a)
          \<and> (\<forall>a. search_loop f (?h + 1) j \<le> a \<and> a < n \<longrightarrow> f a)"
      proof (rule "1.IH"(1) [OF ij refl])
        show "\<not> f ?h" "?h + 1 \<le> j" "j \<le> n" "\<forall>a. j \<le> a \<and> a < n \<longrightarrow> f a"
          using False h "1.prems"(3,5) by auto
        show "\<forall>a < ?h + 1. \<not> f a"
        proof (intro allI impI)
          fix a assume "a < ?h + 1"
          then have "a \<le> ?h" "?h < n" using h "1.prems"(3) by simp_all
          with False show "\<not> f a" using "1.prems"(2) by blast
        qed
      qed (rule "1.prems"(2))
      then show ?thesis using ij False by (simp add: search_loop.simps [of f i j] Let_def)
    qed
  qed
qed

lemma sort_Search_correct:
  assumes mono: "\<And>a b. a \<le> b \<Longrightarrow> b < n \<Longrightarrow> f a \<Longrightarrow> f b"
  shows "sort_Search n f \<le> n" and "a < sort_Search n f \<Longrightarrow> \<not> f a"
    and "sort_Search n f \<le> a \<Longrightarrow> a < n \<Longrightarrow> f a"
proof -
  have "search_loop f 0 n \<le> n \<and> (\<forall>a < search_loop f 0 n. \<not> f a)
       \<and> (\<forall>a. search_loop f 0 n \<le> a \<and> a < n \<longrightarrow> f a)"
  proof (rule search_loop_correct)
    show "\<forall>a. n \<le> a \<and> a < n \<longrightarrow> f a" by auto
  qed (auto intro: mono)
  then show "sort_Search n f \<le> n" and "a < sort_Search n f \<Longrightarrow> \<not> f a"
    and "sort_Search n f \<le> a \<Longrightarrow> a < n \<Longrightarrow> f a"
    by (simp_all add: sort_Search_def)
qed

section \<open>Integer division of \<^verbatim>\<open>math/big\<close> and of Go\<close>

text \<open>
  \<^verbatim>\<open>big.Int.Div\<close> is Euclidean division (the remainder is never negative), \<^verbatim>\<open>big.Int.Rem\<close> and Go's
  \<^verbatim>\<open>/\<close> and \<^verbatim>\<open>%\<close> on machine integers truncate towards zero. Callers check the divisor first: a zero
  divisor panics in Go.
\<close>

definition big_Div :: "int \<Rightarrow> int \<Rightarrow> int" where
  "big_Div a b = (if b > 0 then a div b else - (a div (- b)))"

definition big_Rem :: "int \<Rightarrow> int \<Rightarrow> int" where
  "big_Rem a b = sgn a * (\<bar>a\<bar> mod \<bar>b\<bar>)"

definition go_quot :: "int \<Rightarrow> int \<Rightarrow> int" where
  "go_quot a b = sgn a * sgn b * (\<bar>a\<bar> div \<bar>b\<bar>)"

definition go_rem :: "int \<Rightarrow> int \<Rightarrow> int" where
  "go_rem a b = sgn a * (\<bar>a\<bar> mod \<bar>b\<bar>)"

lemma big_Div_pos [simp]: "0 < b \<Longrightarrow> big_Div a b = a div b"
  by (simp add: big_Div_def)

lemma big_Rem_nonneg [simp]: "0 \<le> a \<Longrightarrow> 0 < b \<Longrightarrow> big_Rem a b = a mod b"
  by (cases "a = 0") (simp_all add: big_Rem_def)

lemma big_Div_euclid:
  "b \<noteq> 0 \<Longrightarrow> 0 \<le> a - b * big_Div a b \<and> a - b * big_Div a b < \<bar>b\<bar>"
proof (cases "b > 0")
  case True
  then show ?thesis by (simp add: minus_mult_div_eq_mod)
next
  case False
  assume "b \<noteq> 0"
  then have b: "0 < - b" using False by simp
  have "a - b * big_Div a b = a - (- b) * (a div (- b))" using False by (simp add: big_Div_def)
  also have "\<dots> = a mod (- b)" by (rule minus_mult_div_eq_mod)
  finally have e: "a - b * big_Div a b = a mod (- b)" .
  show ?thesis unfolding e using pos_mod_bound [OF b, of a] pos_mod_sign [OF b, of a] b by simp
qed

lemma go_quot_rem:
  assumes "b \<noteq> 0"
  shows "b * go_quot a b + go_rem a b = a"
proof -
  have m: "\<bar>b\<bar> * (\<bar>a\<bar> div \<bar>b\<bar>) + \<bar>a\<bar> mod \<bar>b\<bar> = \<bar>a\<bar>" by simp
  consider "a = 0" | "a > 0" | "a < 0" by linarith
  then show ?thesis
  proof cases
    case 1
    then show ?thesis by (simp add: go_quot_def go_rem_def)
  next
    case 2
    then have "b * go_quot a b = \<bar>b\<bar> * (\<bar>a\<bar> div \<bar>b\<bar>)" using assms by (auto simp: go_quot_def sgn_if)
    then show ?thesis using m 2 by (simp add: go_rem_def)
  next
    case 3
    then have "b * go_quot a b = - (\<bar>b\<bar> * (\<bar>a\<bar> div \<bar>b\<bar>))" using assms by (auto simp: go_quot_def sgn_if)
    moreover have "go_rem a b = - (\<bar>a\<bar> mod \<bar>b\<bar>)" using 3 by (simp add: go_rem_def)
    ultimately show ?thesis using m 3 by linarith
  qed
qed

text \<open>Division rounded up, for the comparison with \<^verbatim>\<open>mulDivRoundingUp\<close> and its kin.\<close>

definition ceil_div :: "int \<Rightarrow> int \<Rightarrow> int" where
  "ceil_div a b = (if a mod b > 0 then a div b + 1 else a div b)"

lemma ceil_div_bounds:
  assumes b: "0 < b"
  shows "a \<le> ceil_div a b * b" and "ceil_div a b * b < a + b"
proof -
  have e: "a = a div b * b + a mod b" by simp
  have m: "0 \<le> a mod b" "a mod b < b" using b by simp_all
  have "ceil_div a b * b = a div b * b + (if a mod b > 0 then b else 0)"
    by (simp add: ceil_div_def distrib_right)
  moreover have "a mod b \<le> (if a mod b > 0 then b else 0)" "(if a mod b > 0 then b else 0) < a mod b + b"
    using b m by auto
  ultimately show "a \<le> ceil_div a b * b" and "ceil_div a b * b < a + b"
    using e by linarith+
qed

lemmas ceil_div_ge = ceil_div_bounds(1) and ceil_div_less = ceil_div_bounds(2)

lemma ceil_div_le_iff: "0 < b \<Longrightarrow> ceil_div a b \<le> c \<longleftrightarrow> a \<le> c * b"
proof
  assume b: "0 < b" and "ceil_div a b \<le> c"
  then have "ceil_div a b * b \<le> c * b" by (simp add: mult_right_mono)
  then show "a \<le> c * b" using ceil_div_ge [OF b, of a] by linarith
next
  assume b: "0 < b" and a: "a \<le> c * b"
  show "ceil_div a b \<le> c"
  proof (rule ccontr)
    assume "\<not> ceil_div a b \<le> c"
    then have "(c + 1) * b \<le> ceil_div a b * b" using b by (simp add: mult_right_mono)
    then show False using ceil_div_less [OF b, of a] a by (simp add: distrib_right)
  qed
qed

lemma ceil_div_nonneg: "0 \<le> a \<Longrightarrow> 0 < b \<Longrightarrow> 0 \<le> ceil_div a b"
  by (simp add: ceil_div_def pos_imp_zdiv_nonneg_iff)

lemma floor_le_ceil_div: "0 < b \<Longrightarrow> a div b \<le> ceil_div a b"
  by (simp add: ceil_div_def)

lemma ceil_div_mono: "0 < b \<Longrightarrow> a \<le> a' \<Longrightarrow> ceil_div a b \<le> ceil_div a' b"
  using ceil_div_ge [of b a'] by (simp add: ceil_div_le_iff)

lemma le_div_iff_mult:
  assumes "0 < (b :: int)"
  shows "c \<le> a div b \<longleftrightarrow> c * b \<le> a"
proof
  assume "c \<le> a div b"
  then have "c * b \<le> a div b * b" using assms by (simp add: mult_right_mono)
  moreover have "a div b * b \<le> a"
    using assms minus_mod_eq_div_mult [of a b] pos_mod_sign [of b a] by linarith
  ultimately show "c * b \<le> a" by linarith
next
  assume "c * b \<le> a"
  then have "c * b div b \<le> a div b" using assms by (rule zdiv_mono1)
  then show "c \<le> a div b" using assms by simp
qed

end
