(* ===== verification/Interfaces.thy ===== *)
theory Interfaces
  imports Go_Prelude
begin

text \<open>
  The two contracts the components share. \<open>id_store\<close>: a registry with permanent identifiers, seen
  from outside as the finite map from identifiers to views. \<open>diff_patch\<close>: a pair of functions that
  compute the difference of two snapshots and apply it, as the differs and patchers under
  \<^verbatim>\<open>src/protocols\<close> do. The differs and patchers of the token system and of the Uniswap systems are
  the same loops over different views; the loops are the functions \<open>diff_additions\<close>,
  \<open>diff_updates\<close>, \<open>diff_deletions\<close> and \<open>patch_map\<close> below.
\<close>

section \<open>The loops of the differs and patchers\<close>

definition diff_additions :: "('k, 'v) gomap \<Rightarrow> ('k, 'w) gomap \<Rightarrow> 'v list" where
  "diff_additions entries oldMap = map snd (filter (\<lambda>(k, v). map_of oldMap k = None) entries)"

definition diff_updates :: "('w \<Rightarrow> 'v \<Rightarrow> bool) \<Rightarrow> ('k, 'v) gomap \<Rightarrow> ('k, 'w) gomap \<Rightarrow> 'v list" where
  "diff_updates changed entries oldMap =
     map snd (filter (\<lambda>(k, v). case map_of oldMap k of None \<Rightarrow> False | Some w \<Rightarrow> changed w v) entries)"

definition diff_deletions :: "('k, 'w) gomap \<Rightarrow> ('k, 'v) gomap \<Rightarrow> 'k list" where
  "diff_deletions entries newMap = map fst (filter (\<lambda>(k, w). map_of newMap k = None) entries)"

definition patch_map :: "('v \<Rightarrow> 'k) \<Rightarrow> ('v \<Rightarrow> 'v) \<Rightarrow> 'v list \<Rightarrow> 'k list \<Rightarrow> 'v list \<Rightarrow> 'v list \<Rightarrow> ('k, 'v) gomap" where
  "patch_map vid deepCopy prevState deletions updates additions =
     (let m0 = foldl (\<lambda>m v. AList.update (vid v) (deepCopy v) m) [] prevState;
          m1 = foldl (\<lambda>m k. AList.delete k m) m0 deletions;
          m2 = foldl (\<lambda>m v. AList.update (vid v) (deepCopy v) m) m1 updates
      in foldl (\<lambda>m v. AList.update (vid v) (deepCopy v) m) m2 additions)"

lemma mapByID_entry:
  assumes "range_order ord" and "distinct (map vid vs)"
  shows "(k, v) \<in> set (ord (mapByID vid vs)) \<longleftrightarrow> v \<in> set vs \<and> vid v = k"
proof -
  have "(k, v) \<in> set (ord (mapByID vid vs)) \<longleftrightarrow> map_of (mapByID vid vs) k = Some v"
    using assms(1) by (simp add: range_order_set)
  then show ?thesis using assms(2) by (simp add: map_of_mapByID_distinct keyed_Some_iff)
qed

lemma mapByID_None:
  "distinct (map vid vs) \<Longrightarrow> map_of (mapByID vid vs) k = None \<longleftrightarrow> k \<notin> vid ` set vs"
  by (simp add: map_of_mapByID_distinct keyed_None_iff)

lemma in_map_snd_filter:
  "v \<in> set (map snd (filter P es)) \<longleftrightarrow> (\<exists>k. (k, v) \<in> set es \<and> P (k, v))"
  by force

lemma set_diff_additions:
  assumes "range_order ord" and "distinct (map vid old)" and "distinct (map vid new)"
  shows "set (diff_additions (ord (mapByID vid new)) (mapByID vid old)) = {v \<in> set new. vid v \<notin> vid ` set old}"
proof (rule set_eqI)
  fix v
  have "v \<in> set (diff_additions (ord (mapByID vid new)) (mapByID vid old)) \<longleftrightarrow>
      (\<exists>k. (k, v) \<in> set (ord (mapByID vid new)) \<and> map_of (mapByID vid old) k = None)"
    by (force simp: diff_additions_def)
  then show "v \<in> set (diff_additions (ord (mapByID vid new)) (mapByID vid old)) \<longleftrightarrow>
      v \<in> {v \<in> set new. vid v \<notin> vid ` set old}"
    using assms by (auto simp: mapByID_entry mapByID_None)
qed

lemma set_diff_updates:
  assumes "range_order ord" and "distinct (map vid old)" and "distinct (map vid new)"
  shows "set (diff_updates changed (ord (mapByID vid new)) (mapByID vid old)) =
      {v \<in> set new. \<exists>w \<in> set old. vid w = vid v \<and> changed w v}"
proof (rule set_eqI)
  fix v
  have "v \<in> set (diff_updates changed (ord (mapByID vid new)) (mapByID vid old)) \<longleftrightarrow>
      (\<exists>k. (k, v) \<in> set (ord (mapByID vid new)) \<and> (\<exists>w. map_of (mapByID vid old) k = Some w \<and> changed w v))"
    unfolding diff_updates_def in_map_snd_filter
    by (rule ex_cong1) (auto split: option.split simp del: map_of_eq_Some_iff)
  then show "v \<in> set (diff_updates changed (ord (mapByID vid new)) (mapByID vid old)) \<longleftrightarrow>
      v \<in> {v \<in> set new. \<exists>w \<in> set old. vid w = vid v \<and> changed w v}"
    using assms by (auto simp: mapByID_entry map_of_mapByID_distinct keyed_Some_iff)
qed

lemma set_diff_deletions:
  assumes "range_order ord" and "distinct (map vid old)" and "distinct (map vid new)"
  shows "set (diff_deletions (ord (mapByID vid old)) (mapByID vid new)) = vid ` set old - vid ` set new"
proof (rule set_eqI)
  fix k
  have "k \<in> set (diff_deletions (ord (mapByID vid old)) (mapByID vid new)) \<longleftrightarrow>
      (\<exists>w. (k, w) \<in> set (ord (mapByID vid old)) \<and> map_of (mapByID vid new) k = None)"
    by (force simp: diff_deletions_def)
  then show "k \<in> set (diff_deletions (ord (mapByID vid old)) (mapByID vid new)) \<longleftrightarrow>
      k \<in> vid ` set old - vid ` set new"
    using assms by (auto simp: mapByID_entry mapByID_None)
qed

lemma distinct_map_snd_filter:
  assumes "distinct (map fst es)" and "\<And>k v. (k, v) \<in> set es \<Longrightarrow> vid v = k"
  shows "distinct (map vid (map snd (filter P es)))"
  using assms
proof (induction es)
  case (Cons e es)
  have "vid (snd e) = fst e" using Cons.prems(2) [of "fst e" "snd e"] by simp
  moreover have "vid (snd e') = fst e'" if "e' \<in> set es" for e'
    using that Cons.prems(2) [of "fst e'" "snd e'"] by simp
  ultimately have "vid (snd e) \<notin> vid ` snd ` set es"
    using Cons.prems(1) by (force simp: image_iff)
  moreover have "distinct (map vid (map snd (filter P es)))"
    using Cons.IH Cons.prems by simp
  ultimately show ?case by auto
qed simp

lemma distinct_diff:
  assumes "range_order ord" and "distinct (map vid vs)"
  shows "distinct (map vid (diff_additions (ord (mapByID vid vs)) m))"
    and "distinct (map vid (diff_updates changed (ord (mapByID vid vs)) m'))"
proof -
  have d: "distinct (map fst (ord (mapByID vid vs)))" using assms(1) by (simp add: range_order_distinct)
  have e: "\<And>k v. (k, v) \<in> set (ord (mapByID vid vs)) \<Longrightarrow> vid v = k"
    using assms by (simp add: mapByID_entry)
  show "distinct (map vid (diff_additions (ord (mapByID vid vs)) m))"
    and "distinct (map vid (diff_updates changed (ord (mapByID vid vs)) m'))"
    unfolding diff_additions_def diff_updates_def
    by (rule distinct_map_snd_filter [OF d], erule e)+
qed

lemma map_of_foldl_delete:
  "map_of (foldl (\<lambda>m k. AList.delete k m) m ks) = (map_of m) |` (- set ks)"
proof (induction ks arbitrary: m)
  case (Cons k ks)
  have "map_of (AList.delete k m) |` (- set ks) = map_of m |` (- set (k # ks))"
    by (auto simp: delete_conv' restrict_map_def fun_eq_iff)
  then show ?case using Cons by simp
qed (simp add: restrict_map_def)

lemma distinct_foldl_delete:
  "distinct (map fst m) \<Longrightarrow> distinct (map fst (foldl (\<lambda>m k. AList.delete k m) m ks))"
  by (induction ks arbitrary: m) (simp_all add: distinct_delete)

lemma map_of_patch_map:
  "map_of (patch_map vid (\<lambda>v. v) prev dels upds adds) =
     (((keyed vid (rev prev)) |` (- set dels)) ++ keyed vid (rev upds)) ++ keyed vid (rev adds)"
  by (simp add: patch_map_def map_of_foldl_update map_of_foldl_delete)

lemma distinct_patch_map: "distinct (map fst (patch_map vid (\<lambda>v. v) prev dels upds adds))"
  by (simp add: patch_map_def distinct_keys_foldl_update distinct_foldl_delete)

lemma keyed_entries:
  assumes "distinct (map fst m)" and "\<And>k v. (k, v) \<in> set m \<Longrightarrow> vid v = k"
  shows "distinct (map vid (map snd m))" and "keyed vid (map snd m) = map_of m"
proof -
  have "map vid (map snd m) = map fst m" using assms(2) by (induction m) auto
  then show "distinct (map vid (map snd m))" using assms(1) by (simp only:)
  have "map (\<lambda>v. (vid v, v)) (map snd m) = m" using assms(2) by (induction m) auto
  then show "keyed vid (map snd m) = map_of m" by (simp add: keyed_def)
qed

lemma keyed_range:
  assumes "range_order ord" and "distinct (map fst m)" and "\<And>k v. map_of m k = Some v \<Longrightarrow> vid v = k"
  shows "distinct (map vid (map snd (ord m)))" and "keyed vid (map snd (ord m)) = map_of m"
proof -
  have d: "distinct (map fst (ord m))" using assms(1,2) by (simp add: range_order_distinct)
  have e: "vid v = k" if "(k, v) \<in> set (ord m)" for k v
    using that assms by (simp add: range_order_set)
  show "distinct (map vid (map snd (ord m)))" using keyed_entries(1) [OF d e] by simp
  have "map_of (ord m) = map_of m"
    using assms(1,2) d by (metis map_of_inject_set range_order_set)
  then show "keyed vid (map snd (ord m)) = map_of m" using keyed_entries(2) [OF d e] by simp
qed

lemma map_of_patch_map_vid:
  "map_of (patch_map vid (\<lambda>v. v) prev dels upds adds) k = Some v \<Longrightarrow> vid v = k"
  by (auto simp: map_of_patch_map map_add_Some_iff restrict_map_def
      split: if_splits dest!: keyed_SomeD)

lemma patch_range:
  assumes "range_order ord"
  shows "distinct (map vid (map snd (ord (patch_map vid (\<lambda>v. v) prev dels upds adds))))"
    and "distinct (map vid prev) \<Longrightarrow>
      keyed vid (map snd (ord (patch_map vid (\<lambda>v. v) prev dels upds adds))) =
      ((keyed vid prev |` (- set dels)) ++ keyed vid (rev upds)) ++ keyed vid (rev adds)"
proof -
  note kr = keyed_range [OF assms distinct_patch_map [of vid prev dels upds adds] map_of_patch_map_vid [of vid prev dels upds adds]]
  show "distinct (map vid (map snd (ord (patch_map vid (\<lambda>v. v) prev dels upds adds))))"
    by (rule kr(1))
  show "keyed vid (map snd (ord (patch_map vid (\<lambda>v. v) prev dels upds adds))) =
      ((keyed vid prev |` (- set dels)) ++ keyed vid (rev upds)) ++ keyed vid (rev adds)"
    if "distinct (map vid prev)"
    using that by (simp only: kr(2)) (simp add: map_of_patch_map keyed_rev)
qed

section \<open>The contract of a differ and a patcher\<close>

locale diff_patch =
  fixes vid :: "'v \<Rightarrow> 'k"
    and changed :: "'v \<Rightarrow> 'v \<Rightarrow> bool"
    and differ :: "('k, 'v) range_order \<Rightarrow> ('k, 'v) range_order \<Rightarrow> 'v list \<Rightarrow> 'v list \<Rightarrow> 'd"
    and patcher :: "('k, 'v) range_order \<Rightarrow> 'v list \<Rightarrow> 'd \<Rightarrow> 'v list"
    and additions :: "'d \<Rightarrow> 'v list"
    and updates :: "'d \<Rightarrow> 'v list"
    and deletions :: "'d \<Rightarrow> 'k list"
  assumes differ_distinct:
      "\<lbrakk>range_order o1; range_order o2; distinct (map vid old); distinct (map vid new)\<rbrakk> \<Longrightarrow>
       distinct (map vid (additions (differ o1 o2 old new))) \<and>
       distinct (map vid (updates (differ o1 o2 old new)))"
    and differ_additions:
      "\<lbrakk>range_order o1; range_order o2; distinct (map vid old); distinct (map vid new)\<rbrakk> \<Longrightarrow>
       set (additions (differ o1 o2 old new)) = {v \<in> set new. vid v \<notin> vid ` set old}"
    and differ_updates:
      "\<lbrakk>range_order o1; range_order o2; distinct (map vid old); distinct (map vid new)\<rbrakk> \<Longrightarrow>
       set (updates (differ o1 o2 old new)) = {v \<in> set new. \<exists>w \<in> set old. vid w = vid v \<and> changed w v}"
    and differ_deletions:
      "\<lbrakk>range_order o1; range_order o2; distinct (map vid old); distinct (map vid new)\<rbrakk> \<Longrightarrow>
       set (deletions (differ o1 o2 old new)) = vid ` set old - vid ` set new"
    and patcher_distinct:
      "range_order o3 \<Longrightarrow> distinct (map vid (patcher o3 prev d))"
    and patcher_keyed:
      "range_order o3 \<Longrightarrow> distinct (map vid prev) \<Longrightarrow> keyed vid (patcher o3 prev d) =
       ((keyed vid prev |` (- set (deletions d))) ++ keyed vid (rev (updates d))) ++ keyed vid (rev (additions d))"
begin

text \<open>
  What a subscriber sees after applying the difference: exactly the identifiers of the new
  snapshot; under each identifier the new value, but for a value the differ does not regard as
  changed, for which the old one is kept.
\<close>

lemma patch_differ_keyed:
  assumes o: "range_order o1" "range_order o2" "range_order o3"
    and d: "distinct (map vid old)" "distinct (map vid new)"
  shows "keyed vid (patcher o3 old (differ o1 o2 old new)) k =
     (case keyed vid new k of
        None \<Rightarrow> None
      | Some v \<Rightarrow> (case keyed vid old k of None \<Rightarrow> Some v | Some w \<Rightarrow> Some (if changed w v then v else w)))"
proof -
  let ?d = "differ o1 o2 old new"
  have da: "distinct (map vid (rev (additions ?d)))" "distinct (map vid (rev (updates ?d)))"
    using differ_distinct [OF o(1,2) d] by (simp_all flip: rev_map)
  have add: "keyed vid (rev (additions ?d)) k = Some v \<longleftrightarrow> keyed vid new k = Some v \<and> keyed vid old k = None" for v
    using da d by (auto simp: keyed_Some_iff keyed_None_iff differ_additions [OF o(1,2) d])
  have upd: "keyed vid (rev (updates ?d)) k = Some v \<longleftrightarrow>
      keyed vid new k = Some v \<and> (\<exists>w. keyed vid old k = Some w \<and> changed w v)" for v
    using da d by (auto simp: keyed_Some_iff differ_updates [OF o(1,2) d])
  have del: "k \<in> set (deletions ?d) \<longleftrightarrow> keyed vid old k \<noteq> None \<and> keyed vid new k = None"
    by (auto simp: differ_deletions [OF o(1,2) d] keyed_None_iff)
  note p = patcher_keyed [OF o(3) d(1), of ?d]
  show ?thesis
  proof (cases "keyed vid new k")
    case None
    then have "keyed vid (rev (additions ?d)) k = None" "keyed vid (rev (updates ?d)) k = None"
      using add upd by (auto simp: not_Some_eq [symmetric] simp del: not_Some_eq)
    with None del show ?thesis by (auto simp: p map_add_def restrict_map_def)
  next
    case (Some v)
    show ?thesis
    proof (cases "keyed vid old k")
      case None
      with Some have "keyed vid (rev (additions ?d)) k = Some v" using add by blast
      with Some None show ?thesis by (simp add: p map_add_def)
    next
      case old: (Some w)
      have a: "keyed vid (rev (additions ?d)) k = None"
        by (metis add old option.exhaust option.distinct(1))
      have u: "keyed vid (rev (updates ?d)) k = (if changed w v then Some v else None)"
        by (metis upd old Some option.exhaust option.inject)
      from a u Some old del show ?thesis by (simp add: p map_add_def restrict_map_def)
    qed
  qed
qed

lemma patch_differ_ids:
  assumes "range_order o1" "range_order o2" "range_order o3"
    and "distinct (map vid old)" "distinct (map vid new)"
  shows "vid ` set (patcher o3 old (differ o1 o2 old new)) = vid ` set new"
proof -
  have "dom (keyed vid (patcher o3 old (differ o1 o2 old new))) = dom (keyed vid new)"
    using patch_differ_keyed [OF assms] by (auto simp: dom_def split: option.splits)
  then show ?thesis by simp
qed

lemma patch_differ_exact:
  assumes o: "range_order o1" "range_order o2" "range_order o3"
    and d: "distinct (map vid old)" "distinct (map vid new)"
    and same: "\<And>w v. w \<in> set old \<Longrightarrow> v \<in> set new \<Longrightarrow> vid w = vid v \<Longrightarrow> \<not> changed w v \<Longrightarrow> w = v"
  shows "mset (patcher o3 old (differ o1 o2 old new)) = mset new"
proof -
  let ?p = "patcher o3 old (differ o1 o2 old new)"
  have k: "keyed vid ?p k = keyed vid new k" for k
    using patch_differ_keyed [OF o d, of k] same
    by (auto split: option.splits dest!: keyed_SomeD)
  have dp: "distinct (map vid ?p)" by (rule patcher_distinct [OF o(3)])
  have "v \<in> set ?p \<longleftrightarrow> v \<in> set new" for v
    using k [of "vid v"] keyed_Some_iff [OF dp, of "vid v" v] keyed_Some_iff [OF d(2), of "vid v" v] by simp
  then have "set ?p = set new" by blast
  then show ?thesis using dp d(2) by (metis distinct_map set_eq_iff_mset_eq_distinct)
qed

lemma differ_same_empty:
  assumes "range_order o1" "range_order o2" "distinct (map vid vs)" and "\<And>v. v \<in> set vs \<Longrightarrow> \<not> changed v v"
  shows "additions (differ o1 o2 vs vs) = []" and "updates (differ o1 o2 vs vs) = []"
    and "deletions (differ o1 o2 vs vs) = []"
proof -
  have "w = v" if "w \<in> set vs" "v \<in> set vs" "vid w = vid v" for v w
    using that assms(3) by (auto dest: distinct_map [THEN iffD1] inj_onD)
  then have "set (updates (differ o1 o2 vs vs)) = {}"
    using differ_updates [OF assms(1,2,3,3)] assms(4) by auto
  then show "updates (differ o1 o2 vs vs) = []" by simp
  have "set (additions (differ o1 o2 vs vs)) = {}"
    unfolding differ_additions [OF assms(1,2,3,3)] by auto
  then show "additions (differ o1 o2 vs vs) = []" by simp
  show "deletions (differ o1 o2 vs vs) = []" using differ_deletions [OF assms(1,2,3,3)] by simp
qed

end

section \<open>The contract of a registry with permanent identifiers\<close>

locale id_store =
  fixes inv :: "'r \<Rightarrow> bool"
    and view :: "'r \<Rightarrow> 'v list"
    and vid :: "'v \<Rightarrow> 'k"
    and get :: "'k \<Rightarrow> 'r \<Rightarrow> 'e + 'v"
    and del :: "'k \<Rightarrow> 'r \<Rightarrow> 'e + 'r"
    and notFound :: "'e"
  assumes view_distinct: "inv r \<Longrightarrow> distinct (map vid (view r))"
    and get_keyed: "inv r \<Longrightarrow> get k r = option_result notFound (keyed vid (view r) k)"
    and del_missing: "inv r \<Longrightarrow> keyed vid (view r) k = None \<Longrightarrow> del k r = Inl notFound"
    and del_present: "inv r \<Longrightarrow> keyed vid (view r) k = Some v \<Longrightarrow>
      \<exists>r'. del k r = Inr r' \<and> inv r' \<and> keyed vid (view r') = (keyed vid (view r))(k := None)"
begin

lemma del_InrD:
  assumes "inv r" and "del k r = Inr r'"
  shows "inv r'" and "keyed vid (view r') = (keyed vid (view r))(k := None)"
    and "keyed vid (view r) k \<noteq> None"
proof -
  show ne: "keyed vid (view r) k \<noteq> None" using del_missing [OF assms(1), of k] assms(2) by auto
  then obtain v where "keyed vid (view r) k = Some v" by auto
  then obtain r'' where "del k r = Inr r''" "inv r''" "keyed vid (view r'') = (keyed vid (view r))(k := None)"
    using del_present [OF assms(1)] by blast
  then show "inv r'" and "keyed vid (view r') = (keyed vid (view r))(k := None)"
    using assms(2) by simp_all
qed

lemma get_after_del:
  "inv r \<Longrightarrow> del k r = Inr r' \<Longrightarrow> get k' r' = (if k' = k then Inl notFound else get k' r)"
  by (simp add: get_keyed del_InrD)

lemma del_twice: "inv r \<Longrightarrow> del k r = Inr r' \<Longrightarrow> del k r' = Inl notFound"
  by (rule del_missing) (simp_all add: del_InrD(1,2))

lemma view_length: "inv r \<Longrightarrow> length (view r) = card (dom (keyed vid (view r)))"
  using view_distinct by (simp flip: set_map add: distinct_card)

lemma view_length_del:
  assumes "inv r" and "del k r = Inr r'"
  shows "Suc (length (view r')) = length (view r)"
proof -
  note d = del_InrD [OF assms]
  have "length (view r') = card (dom (keyed vid (view r)) - {k})"
    using view_length [OF d(1)] d(2) by simp
  moreover have "k \<in> dom (keyed vid (view r))" using d(3) by blast
  moreover have "finite (dom (keyed vid (view r)))" by simp
  ultimately show ?thesis using view_length [OF assms(1)] by (metis card_Suc_Diff1)
qed

text \<open>A best-effort batch: failures are recorded, the rest of the batch goes on.\<close>

fun del_batch :: "'k list \<Rightarrow> 'r \<Rightarrow> 'e option list \<times> 'r" where
  "del_batch [] r = ([], r)"
| "del_batch (k # ks) r =
     (case del k r of
        Inl e \<Rightarrow> (let (errs, r') = del_batch ks r in (Some e # errs, r'))
      | Inr r1 \<Rightarrow> (let (errs, r') = del_batch ks r1 in (None # errs, r')))"

lemma del_batch_spec:
  "inv r \<Longrightarrow> inv (snd (del_batch ks r)) \<and>
     keyed vid (view (snd (del_batch ks r))) = (keyed vid (view r)) |` (- set ks)"
proof (induction ks arbitrary: r)
  case Nil
  then show ?case by simp
next
  case (Cons k ks)
  show ?case
  proof (cases "keyed vid (view r) k")
    case None
    then have "keyed vid (view r) |` (- set ks) = keyed vid (view r) |` (- set (k # ks))"
      by (auto simp: restrict_map_def fun_eq_iff)
    with Cons None show ?thesis by (simp add: del_missing case_prod_beta Let_def)
  next
    case (Some v)
    then obtain r1 where r1: "del k r = Inr r1" "inv r1"
      "keyed vid (view r1) = (keyed vid (view r))(k := None)"
      using del_present [OF Cons.prems] by blast
    have "keyed vid (view r1) |` (- set ks) = keyed vid (view r) |` (- set (k # ks))"
      by (auto simp: r1(3) restrict_map_def fun_eq_iff)
    with Cons.IH [OF r1(2)] r1(1) show ?thesis by (simp add: case_prod_beta Let_def)
  qed
qed

lemma del_batch_errors:
  "inv r \<Longrightarrow> distinct ks \<Longrightarrow>
   fst (del_batch ks r) = map (\<lambda>k. if keyed vid (view r) k = None then Some notFound else None) ks"
proof (induction ks arbitrary: r)
  case Nil
  then show ?case by simp
next
  case (Cons k ks)
  show ?case
  proof (cases "keyed vid (view r) k")
    case None
    with Cons show ?thesis by (simp add: del_missing case_prod_beta Let_def)
  next
    case (Some v)
    then obtain r1 where r1: "del k r = Inr r1" "inv r1"
      "keyed vid (view r1) = (keyed vid (view r))(k := None)"
      using del_present [OF Cons.prems(1)] by blast
    have "map (\<lambda>k. if keyed vid (view r1) k = None then Some notFound else None) ks =
        map (\<lambda>k. if keyed vid (view r) k = None then Some notFound else None) ks"
      using Cons.prems(2) by (auto simp: r1(3))
    with Cons r1 Some show ?thesis by (simp add: case_prod_beta Let_def)
  qed
qed

end

section \<open>Graphs of tokens and pools\<close>

text \<open>The ordered pairs of positions of a list, as \<^verbatim>\<open>add\<close> visits them.\<close>

definition clique :: "uint64 list \<Rightarrow> (uint64 \<times> uint64) set" where
  "clique ts = {(ts ! i, ts ! j) | i j. i < length ts \<and> j < length ts \<and> i \<noteq> j}"

lemma clique_Nil [simp]: "clique [] = {}"
  by (simp add: clique_def)

lemma cliqueI: "i < length ts \<Longrightarrow> j < length ts \<Longrightarrow> i \<noteq> j \<Longrightarrow> (ts ! i, ts ! j) \<in> clique ts"
  unfolding clique_def by blast

lemma clique_Cons: "clique (a # ts) = {(a, b) | b. b \<in> set ts} \<union> {(b, a) | b. b \<in> set ts} \<union> clique ts"
proof (intro equalityI subsetI)
  fix x assume "x \<in> clique (a # ts)"
  then obtain i j where x: "x = ((a # ts) ! i, (a # ts) ! j)" "i < Suc (length ts)" "j < Suc (length ts)" "i \<noteq> j"
    by (auto simp: clique_def)
  show "x \<in> {(a, b) | b. b \<in> set ts} \<union> {(b, a) | b. b \<in> set ts} \<union> clique ts"
    using x by (cases i; cases j) (auto simp: clique_def)
next
  have cl: "((a # ts) ! i, (a # ts) ! j) \<in> clique (a # ts)"
    if "i < Suc (length ts)" "j < Suc (length ts)" "i \<noteq> j" for i j
    using cliqueI [of i "a # ts" j] that by simp
  fix x assume "x \<in> {(a, b) | b. b \<in> set ts} \<union> {(b, a) | b. b \<in> set ts} \<union> clique ts"
  then consider k where "k < length ts" "x = (a, ts ! k)" | k where "k < length ts" "x = (ts ! k, a)"
    | i j where "i < length ts" "j < length ts" "i \<noteq> j" "x = (ts ! i, ts ! j)"
    by (auto simp: clique_def in_set_conv_nth)
  then show "x \<in> clique (a # ts)"
  proof cases
    case 1 with cl [of 0 "Suc k"] show ?thesis by simp
  next
    case 2 with cl [of "Suc k" 0] show ?thesis by simp
  next
    case 3 with cl [of "Suc i" "Suc j"] show ?thesis by simp
  qed
qed


text \<open>
  What the users of the token--pool graph rely on: adding a pool inserts the clique of its tokens,
  removing a pool or token deletes exactly its triples, and the pools of a token are read off the
  triples. Batches and the interplay of the operations follow.
\<close>

locale edge_graph =
  fixes inv :: "'g \<Rightarrow> bool"
    and edges :: "'g \<Rightarrow> (uint64 \<times> uint64 \<times> uint64) set"
    and add :: "uint64 list \<Rightarrow> uint64 \<Rightarrow> 'g \<Rightarrow> 'g"
    and rmPool :: "uint64 \<Rightarrow> 'g \<Rightarrow> 'g"
    and rmToken :: "uint64 \<Rightarrow> 'g \<Rightarrow> 'g"
    and poolsFor :: "(uint64, unit) range_order \<Rightarrow> uint64 \<Rightarrow> 'g \<Rightarrow> uint64 list"
  assumes add_inv: "inv g \<Longrightarrow> inv (add ts p g)"
    and add_edges: "inv g \<Longrightarrow> edges (add ts p g) = edges g \<union> {(a, b, p) | a b. (a, b) \<in> clique ts}"
    and rmPool_inv: "inv g \<Longrightarrow> inv (rmPool p g)"
    and rmPool_edges: "inv g \<Longrightarrow> edges (rmPool p g) = {x \<in> edges g. snd (snd x) \<noteq> p}"
    and rmToken_inv: "inv g \<Longrightarrow> inv (rmToken t g)"
    and rmToken_edges: "inv g \<Longrightarrow> edges (rmToken t g) = {x \<in> edges g. fst x \<noteq> t \<and> fst (snd x) \<noteq> t}"
    and poolsFor_edges: "inv g \<Longrightarrow> range_order ord \<Longrightarrow>
      set (poolsFor ord t g) = {p. \<exists>b. (t, b, p) \<in> edges g} \<and> distinct (poolsFor ord t g)"
begin

lemma add_batch:
  "inv g \<Longrightarrow> inv (foldl (\<lambda>g (p, ts). add ts p g) g ps) \<and>
   edges (foldl (\<lambda>g (p, ts). add ts p g) g ps) = edges g \<union> {(a, b, p) | a b p. \<exists>ts. (p, ts) \<in> set ps \<and> (a, b) \<in> clique ts}"
proof (induction ps arbitrary: g)
  case (Cons x ps)
  obtain p ts where x: "x = (p, ts)" by (cases x)
  from Cons.IH [OF add_inv [OF Cons.prems]] show ?case by (auto simp: x add_edges [OF Cons.prems])
qed simp

lemma rmPool_batch:
  "inv g \<Longrightarrow> inv (foldl (\<lambda>g p. rmPool p g) g ps) \<and> edges (foldl (\<lambda>g p. rmPool p g) g ps) = {x \<in> edges g. snd (snd x) \<notin> set ps}"
proof (induction ps arbitrary: g)
  case (Cons p ps)
  from Cons.IH [OF rmPool_inv [OF Cons.prems]] show ?case by (auto simp: rmPool_edges [OF Cons.prems])
qed simp

lemma rmToken_batch:
  "inv g \<Longrightarrow> inv (foldl (\<lambda>g t. rmToken t g) g ts) \<and>
   edges (foldl (\<lambda>g t. rmToken t g) g ts) = {x \<in> edges g. fst x \<notin> set ts \<and> fst (snd x) \<notin> set ts}"
proof (induction ts arbitrary: g)
  case (Cons t ts)
  from Cons.IH [OF rmToken_inv [OF Cons.prems]] show ?case by (auto simp: rmToken_edges [OF Cons.prems])
qed simp

lemma remove_undoes_add:
  assumes "inv g" and "\<And>x. x \<in> edges g \<Longrightarrow> snd (snd x) \<noteq> p"
  shows "edges (rmPool p (add ts p g)) = edges g"
  using assms(2) by (auto simp: rmPool_edges add_inv [OF assms(1)] add_edges [OF assms(1)])

lemma poolsFor_after_add:
  assumes "inv g" and "range_order ord" and "range_order ord'"
  shows "set (poolsFor ord t (add ts p g)) = set (poolsFor ord' t g) \<union> (if \<exists>b. (t, b) \<in> clique ts then {p} else {})"
  using poolsFor_edges [OF assms(1,3), of t] poolsFor_edges [OF add_inv [OF assms(1)] assms(2), of t ts p]
  by (auto simp: add_edges [OF assms(1)])

end

end
