(* ===== verification/Token_Registry.thy ===== *)
theory Token_Registry
  imports Interfaces
begin

text \<open>
  The ERC20 token system, \<^verbatim>\<open>src/protocols/erc20-token-system\<close>: the registry of
  \<^verbatim>\<open>token.go\<close> with its struct-of-arrays layout, the lock-protected system of \<^verbatim>\<open>system.go\<close> as a
  state with atomic operations, and the differ and patcher of \<^verbatim>\<open>differ.go\<close> and \<^verbatim>\<open>patcher.go\<close>.
  Identifiers are \<^verbatim>\<open>uint64\<close> words; the counter \<^verbatim>\<open>nextID\<close> wraps as in Go, so the facts about fresh
  identifiers say when it has not been exhausted.
\<close>

section \<open>Data\<close>

datatype token_error =
    ErrTokenNotFound
  | ErrAlreadyExists
  | ErrDuplicateID uint64
  | ErrDuplicateAddress address

record TokenView =
  tvID :: uint64
  tvAddress :: address
  tvName :: string
  tvSymbol :: string
  tvDecimals :: uint8
  tvFeeOnTransferPercent :: float64
  tvGasForTransfer :: uint64

record TokenRegistry =
  trAddress :: "address list"
  trName :: "string list"
  trSymbol :: "string list"
  trDecimals :: "uint8 list"
  trFeeOnTransferPercent :: "float64 list"
  trGasForTransfer :: "uint64 list"
  trID :: "uint64 list"
  trNextID :: uint64
  trIdToIndex :: "uint64 \<rightharpoonup> nat"
  trAddressToID :: "address \<rightharpoonup> uint64"

section \<open>Operations of \<^verbatim>\<open>token.go\<close>\<close>

definition NewTokenRegistry :: TokenRegistry where
  "NewTokenRegistry = \<lparr>trAddress = [], trName = [], trSymbol = [], trDecimals = [],
     trFeeOnTransferPercent = [], trGasForTransfer = [], trID = [], trNextID = 1,
     trIdToIndex = Map.empty, trAddressToID = Map.empty\<rparr>"

text \<open>
  The loop of \<^verbatim>\<open>NewTokenRegistryFromViews\<close>. The Go code preallocates the slices and stores at index
  \<open>i\<close> in the \<open>i\<close>-th iteration; appending gives the same slices when the loop ends, and on an error
  the registry is dropped.
\<close>

fun loadTokenViews :: "TokenView list \<Rightarrow> TokenRegistry \<Rightarrow> uint64 \<Rightarrow> token_error + TokenRegistry" where
  "loadTokenViews [] registry maxID = Inr (registry\<lparr>trNextID := maxID + 1\<rparr>)"
| "loadTokenViews (view # views) registry maxID =
     (if trIdToIndex registry (tvID view) \<noteq> None then Inl (ErrDuplicateID (tvID view))
      else if trAddressToID registry (tvAddress view) \<noteq> None then Inl (ErrDuplicateAddress (tvAddress view))
      else loadTokenViews views
        (registry\<lparr>trAddress := trAddress registry @ [tvAddress view],
           trName := trName registry @ [tvName view],
           trSymbol := trSymbol registry @ [tvSymbol view],
           trDecimals := trDecimals registry @ [tvDecimals view],
           trFeeOnTransferPercent := trFeeOnTransferPercent registry @ [tvFeeOnTransferPercent view],
           trGasForTransfer := trGasForTransfer registry @ [tvGasForTransfer view],
           trID := trID registry @ [tvID view],
           trIdToIndex := (trIdToIndex registry)(tvID view \<mapsto> length (trID registry)),
           trAddressToID := (trAddressToID registry)(tvAddress view \<mapsto> tvID view)\<rparr>)
        (if tvID view > maxID then tvID view else maxID))"

definition NewTokenRegistryFromViews :: "TokenView list \<Rightarrow> token_error + TokenRegistry" where
  "NewTokenRegistryFromViews views = loadTokenViews views NewTokenRegistry 0"

definition addToken ::
  "address \<Rightarrow> string \<Rightarrow> string \<Rightarrow> uint8 \<Rightarrow> TokenRegistry \<Rightarrow> token_error + (uint64 \<times> TokenRegistry)" where
  "addToken addr name symbol decimals registry =
     (if trAddressToID registry addr \<noteq> None then Inl ErrAlreadyExists
      else let newID = trNextID registry; newIndex = length (trAddress registry) in
        Inr (newID, registry
          \<lparr>trNextID := trNextID registry + 1,
           trAddress := trAddress registry @ [addr],
           trName := trName registry @ [name],
           trSymbol := trSymbol registry @ [symbol],
           trDecimals := trDecimals registry @ [decimals],
           trFeeOnTransferPercent := trFeeOnTransferPercent registry @ [0],
           trGasForTransfer := trGasForTransfer registry @ [0],
           trID := trID registry @ [newID],
           trIdToIndex := (trIdToIndex registry)(newID \<mapsto> newIndex),
           trAddressToID := (trAddressToID registry)(addr \<mapsto> newID)\<rparr>))"

definition deleteToken :: "uint64 \<Rightarrow> TokenRegistry \<Rightarrow> token_error + TokenRegistry" where
  "deleteToken idToDelete registry =
     (case trIdToIndex registry idToDelete of
        None \<Rightarrow> Inl ErrTokenNotFound
      | Some indexToDelete \<Rightarrow>
          let addressToDelete = trAddress registry ! indexToDelete;
              lastIndex = length (trAddress registry) - 1;
              lastID = trID registry ! lastIndex
          in Inr (registry
            \<lparr>trAddress := swap_pop indexToDelete lastIndex (trAddress registry),
             trName := swap_pop indexToDelete lastIndex (trName registry),
             trSymbol := swap_pop indexToDelete lastIndex (trSymbol registry),
             trDecimals := swap_pop indexToDelete lastIndex (trDecimals registry),
             trFeeOnTransferPercent := swap_pop indexToDelete lastIndex (trFeeOnTransferPercent registry),
             trGasForTransfer := swap_pop indexToDelete lastIndex (trGasForTransfer registry),
             trID := swap_pop indexToDelete lastIndex (trID registry),
             trIdToIndex :=
               (if indexToDelete \<noteq> lastIndex then (trIdToIndex registry)(lastID \<mapsto> indexToDelete)
                else trIdToIndex registry)(idToDelete := None),
             trAddressToID := (trAddressToID registry)(addressToDelete := None)\<rparr>))"

definition updateToken :: "uint64 \<Rightarrow> float64 \<Rightarrow> uint64 \<Rightarrow> TokenRegistry \<Rightarrow> token_error + TokenRegistry" where
  "updateToken i feeOnTransferPercent gasForTransfer registry =
     (case trIdToIndex registry i of
        None \<Rightarrow> Inl ErrTokenNotFound
      | Some index \<Rightarrow> Inr (registry
          \<lparr>trFeeOnTransferPercent := (trFeeOnTransferPercent registry)[index := feeOnTransferPercent],
           trGasForTransfer := (trGasForTransfer registry)[index := gasForTransfer]\<rparr>))"

definition tokenViewAt :: "TokenRegistry \<Rightarrow> uint64 \<Rightarrow> nat \<Rightarrow> TokenView" where
  "tokenViewAt registry i index =
     \<lparr>tvID = i, tvAddress = trAddress registry ! index, tvName = trName registry ! index,
      tvSymbol = trSymbol registry ! index, tvDecimals = trDecimals registry ! index,
      tvFeeOnTransferPercent = trFeeOnTransferPercent registry ! index,
      tvGasForTransfer = trGasForTransfer registry ! index\<rparr>"

definition getTokenByID :: "uint64 \<Rightarrow> TokenRegistry \<Rightarrow> token_error + TokenView" where
  "getTokenByID i registry =
     (case trIdToIndex registry i of
        None \<Rightarrow> Inl ErrTokenNotFound
      | Some index \<Rightarrow> Inr (tokenViewAt registry i index))"

text \<open>
  A lookup in \<^verbatim>\<open>idToIndex\<close> without the \<^verbatim>\<open>ok\<close> flag yields index 0 for a missing key, as in Go.
\<close>

definition getTokenByAddress :: "address \<Rightarrow> TokenRegistry \<Rightarrow> token_error + TokenView" where
  "getTokenByAddress addr registry =
     (case trAddressToID registry addr of
        None \<Rightarrow> Inl ErrTokenNotFound
      | Some i \<Rightarrow> Inr (tokenViewAt registry i (case trIdToIndex registry i of None \<Rightarrow> 0 | Some j \<Rightarrow> j)))"

definition token_viewRegistry :: "TokenRegistry \<Rightarrow> TokenView list" where
  "token_viewRegistry registry =
     map (\<lambda>i. tokenViewAt registry (trID registry ! i) i) [0..<length (trAddress registry)]"

section \<open>Invariant\<close>

text \<open>
  The columns are aligned, \<^verbatim>\<open>idToIndex\<close> is the inverse of the identifier column, \<^verbatim>\<open>addressToID\<close>
  links the address column to it, and every identifier is below the counter.
\<close>

definition token_layout :: "TokenRegistry \<Rightarrow> bool" where
  "token_layout r \<longleftrightarrow>
     length (trAddress r) = length (trID r) \<and> length (trName r) = length (trID r) \<and>
     length (trSymbol r) = length (trID r) \<and> length (trDecimals r) = length (trID r) \<and>
     length (trFeeOnTransferPercent r) = length (trID r) \<and> length (trGasForTransfer r) = length (trID r) \<and>
     index_inv (trID r) (trIdToIndex r) \<and>
     link_inv (trAddress r) (trID r) (trAddressToID r)"

definition token_inv :: "TokenRegistry \<Rightarrow> bool" where
  "token_inv r \<longleftrightarrow> token_layout r \<and> trNextID r \<noteq> 0 \<and> (\<forall>i \<in> set (trID r). i < trNextID r)"

lemma token_layoutD:
  assumes "token_layout r"
  shows "length (trAddress r) = length (trID r)" "length (trName r) = length (trID r)"
    "length (trSymbol r) = length (trID r)" "length (trDecimals r) = length (trID r)"
    "length (trFeeOnTransferPercent r) = length (trID r)" "length (trGasForTransfer r) = length (trID r)"
    "index_inv (trID r) (trIdToIndex r)"
    "link_inv (trAddress r) (trID r) (trAddressToID r)"
  using assms by (simp_all add: token_layout_def)

lemma token_inv_layout: "token_inv r \<Longrightarrow> token_layout r"
  by (simp add: token_inv_def)

lemma token_inv_less: "token_inv r \<Longrightarrow> k \<in> set (trID r) \<Longrightarrow> k < trNextID r"
  by (simp add: token_inv_def)

lemmas token_invD = token_layoutD [OF token_inv_layout] token_inv_less

lemma token_inv_new: "token_inv NewTokenRegistry"
  by (simp add: token_inv_def token_layout_def NewTokenRegistry_def)

lemma length_token_view: "length (token_viewRegistry r) = length (trAddress r)"
  by (simp add: token_viewRegistry_def)

lemma tvID_tokenViewAt [simp]: "tvID (tokenViewAt r i j) = i"
  by (simp add: tokenViewAt_def)

lemma token_view_ids: "token_layout r \<Longrightarrow> map tvID (token_viewRegistry r) = trID r"
  by (rule nth_equalityI) (simp_all add: token_viewRegistry_def token_layoutD)

lemma token_view_addresses: "token_layout r \<Longrightarrow> map tvAddress (token_viewRegistry r) = trAddress r"
  by (rule nth_equalityI) (simp_all add: token_viewRegistry_def token_layoutD tokenViewAt_def)

lemma token_view_index: "token_layout r \<Longrightarrow> index_inv (map tvID (token_viewRegistry r)) (trIdToIndex r)"
  by (simp add: token_view_ids token_layoutD)

lemma nth_token_view:
  "i < length (trAddress r) \<Longrightarrow> token_viewRegistry r ! i = tokenViewAt r (trID r ! i) i"
  by (simp add: token_viewRegistry_def)

lemma token_address_distinct: "token_layout r \<Longrightarrow> distinct (trAddress r)"
  using link_inv_distinct index_inv_distinct token_layoutD by metis

section \<open>Effect of each operation on the view\<close>

lemma addToken_spec:
  assumes inv: "token_inv r" and fresh: "trAddressToID r addr = None" and cnt: "trNextID r + 1 \<noteq> 0"
  obtains r' where "addToken addr name symbol decimals r = Inr (trNextID r, r')" and "token_inv r'"
    and "token_viewRegistry r' = token_viewRegistry r @
      [\<lparr>tvID = trNextID r, tvAddress = addr, tvName = name, tvSymbol = symbol, tvDecimals = decimals,
        tvFeeOnTransferPercent = 0, tvGasForTransfer = 0\<rparr>]"
    and "trNextID r' = trNextID r + 1"
proof
  let ?r = "r\<lparr>trAddress := trAddress r @ [addr], trName := trName r @ [name], trSymbol := trSymbol r @ [symbol],
     trDecimals := trDecimals r @ [decimals], trFeeOnTransferPercent := trFeeOnTransferPercent r @ [0],
     trGasForTransfer := trGasForTransfer r @ [0], trID := trID r @ [trNextID r], trNextID := trNextID r + 1,
     trIdToIndex := (trIdToIndex r)(trNextID r \<mapsto> length (trAddress r)),
     trAddressToID := (trAddressToID r)(addr \<mapsto> trNextID r)\<rparr>"
  note i = token_invD [OF inv]
  show "addToken addr name symbol decimals r = Inr (trNextID r, ?r)"
    using fresh by (simp add: addToken_def Let_def)
  have "trNextID r \<notin> set (trID r)" using i(9) by blast
  then have "trIdToIndex r (trNextID r) = None" using i(7) by (simp add: index_inv_None_iff)
  then show "token_inv ?r"
    using i fresh cnt unfolding token_inv_def token_layout_def
    by (auto simp: index_inv_append link_inv_append word_less_succ intro: word_less_imp_less_succ)
  show "token_viewRegistry ?r = token_viewRegistry r @
      [\<lparr>tvID = trNextID r, tvAddress = addr, tvName = name, tvSymbol = symbol, tvDecimals = decimals,
        tvFeeOnTransferPercent = 0, tvGasForTransfer = 0\<rparr>]"
    using i(1-6) by (simp add: token_viewRegistry_def) (simp add: tokenViewAt_def nth_append)
  show "trNextID ?r = trNextID r + 1" by simp
qed

lemma deleteToken_spec:
  assumes inv: "token_inv r" and k: "trIdToIndex r k = Some i"
  obtains r' where "deleteToken k r = Inr r'" and "token_inv r'" and "trNextID r' = trNextID r"
    and "token_viewRegistry r' = swap_pop i (length (token_viewRegistry r) - 1) (token_viewRegistry r)"
proof -
  note t = token_invD [OF inv]
  obtain r' where del: "deleteToken k r = Inr r'" using k by (simp add: deleteToken_def Let_def)
  define l where "l = length (trID r) - 1"
  have ik: "i < length (trID r)" "trID r ! i = k" using index_invD [OF t(7) k] by auto
  then have l: "l < length (trID r)" "i \<le> l" unfolding l_def by linarith+
  note idx = index_swap_cond [OF t(7) k l_def]
  have r': "r' = r\<lparr>trAddress := swap_pop i l (trAddress r), trName := swap_pop i l (trName r),
       trSymbol := swap_pop i l (trSymbol r), trDecimals := swap_pop i l (trDecimals r),
       trFeeOnTransferPercent := swap_pop i l (trFeeOnTransferPercent r),
       trGasForTransfer := swap_pop i l (trGasForTransfer r), trID := swap_pop i l (trID r),
       trIdToIndex := (trIdToIndex r)(trID r ! l \<mapsto> i, k := None),
       trAddressToID := (trAddressToID r)(trAddress r ! i := None)\<rparr>"
    using del k by (simp add: deleteToken_def Let_def idx t(1) l_def [symmetric] del: One_nat_def)
  have d: "distinct (trID r)" using t(7) by (rule index_inv_distinct)
  have "set (swap_pop i l (trID r)) \<subseteq> set (trID r)" using set_swap_pop [OF d ik(1)] l_def by auto
  moreover have "trNextID r \<noteq> 0" using inv by (simp add: token_inv_def)
  ultimately have "token_inv r'"
    using t(1-6,9) index_inv_swap_pop [OF t(7) k l_def] link_inv_swap_pop [OF t(8) t(1) d ik(1) l_def]
    unfolding token_inv_def token_layout_def r' by auto
  moreover have "length (token_viewRegistry r) - 1 = l" by (simp add: length_token_view t(1) l_def)
  then have "token_viewRegistry r' = swap_pop i (length (token_viewRegistry r) - 1) (token_viewRegistry r)"
    using t(1-6) l by (intro nth_equalityI) (auto simp: r' token_viewRegistry_def tokenViewAt_def)
  moreover have "trNextID r' = trNextID r" by (simp add: r')
  ultimately show thesis using that del by blast
qed

lemma updateToken_spec:
  assumes inv: "token_inv r" and k: "trIdToIndex r k = Some i"
  obtains r' where "updateToken k fee gas r = Inr r'" and "token_inv r'" and "trNextID r' = trNextID r"
    and "token_viewRegistry r' = (token_viewRegistry r)
      [i := (token_viewRegistry r ! i)\<lparr>tvFeeOnTransferPercent := fee, tvGasForTransfer := gas\<rparr>]"
proof
  let ?r = "r\<lparr>trFeeOnTransferPercent := (trFeeOnTransferPercent r)[i := fee],
              trGasForTransfer := (trGasForTransfer r)[i := gas]\<rparr>"
  note t = token_invD [OF inv]
  have ik: "i < length (trID r)" using index_invD [OF t(7) k] by auto
  show "updateToken k fee gas r = Inr ?r" using k by (simp add: updateToken_def)
  show "token_inv ?r" using inv by (simp add: token_inv_def token_layout_def)
  show "trNextID ?r = trNextID r" by simp
  show "token_viewRegistry ?r = (token_viewRegistry r)
      [i := (token_viewRegistry r ! i)\<lparr>tvFeeOnTransferPercent := fee, tvGasForTransfer := gas\<rparr>]"
    using t(1-6) ik by (intro nth_equalityI)
      (auto simp: token_viewRegistry_def tokenViewAt_def nth_list_update)
qed

section \<open>The registry is a store of views\<close>

lemma token_get_keyed:
  assumes "token_inv r"
  shows "getTokenByID k r = option_result ErrTokenNotFound (keyed tvID (token_viewRegistry r) k)"
proof (cases "trIdToIndex r k")
  case None
  then show ?thesis by (simp add: getTokenByID_def keyed_index [OF token_view_index [OF token_inv_layout [OF assms]]])
next
  case (Some i)
  then have "i < length (trAddress r)" "trID r ! i = k"
    using index_invD [OF token_invD(7) [OF assms]] token_invD(1) [OF assms] by auto
  with Some show ?thesis
    by (simp add: getTokenByID_def keyed_index [OF token_view_index [OF token_inv_layout [OF assms]]] nth_token_view)
qed

lemma token_delete_present:
  assumes "token_inv r" and "keyed tvID (token_viewRegistry r) k = Some v"
  shows "\<exists>r'. deleteToken k r = Inr r' \<and> token_inv r' \<and>
     keyed tvID (token_viewRegistry r') = (keyed tvID (token_viewRegistry r))(k := None)"
proof -
  obtain i where i: "trIdToIndex r k = Some i"
    using assms by (auto simp: keyed_index [OF token_view_index [OF token_inv_layout [OF assms(1)]]])
  show ?thesis
    by (rule deleteToken_spec [OF assms(1) i])
       (auto simp: keyed_swap_pop [OF token_view_index [OF token_inv_layout [OF assms(1)]] i])
qed

interpretation tokens: id_store token_inv token_viewRegistry tvID getTokenByID deleteToken ErrTokenNotFound
proof unfold_locales
  fix r :: TokenRegistry and k
  assume inv: "token_inv r"
  show "distinct (map tvID (token_viewRegistry r))"
    using index_inv_distinct [OF token_view_index [OF token_inv_layout [OF inv]]] .
  show "getTokenByID k r = option_result ErrTokenNotFound (keyed tvID (token_viewRegistry r) k)"
    by (rule token_get_keyed [OF inv])
  show "deleteToken k r = Inl ErrTokenNotFound" if "keyed tvID (token_viewRegistry r) k = None"
    using that by (simp add: deleteToken_def keyed_index [OF token_view_index [OF token_inv_layout [OF inv]]])
  show "\<exists>r'. deleteToken k r = Inr r' \<and> token_inv r' \<and>
     keyed tvID (token_viewRegistry r') = (keyed tvID (token_viewRegistry r))(k := None)"
    if "keyed tvID (token_viewRegistry r) k = Some v" for v
    by (rule token_delete_present [OF inv that])
qed

lemma token_get_address:
  assumes inv: "token_inv r"
  shows "getTokenByAddress a r = option_result ErrTokenNotFound (keyed tvAddress (token_viewRegistry r) a)"
proof (cases "trAddressToID r a")
  case None
  then have "a \<notin> tvAddress ` set (token_viewRegistry r)"
    using link_inv_None_iff [OF token_invD(8) [OF inv] token_invD(1) [OF inv]] token_view_addresses [OF token_inv_layout [OF inv]]
    by (metis list.set_map)
  then have "keyed tvAddress (token_viewRegistry r) a = None" by (simp only: keyed_None_iff not_False_eq_True)
  with None show ?thesis by (simp add: getTokenByAddress_def)
next
  case (Some i)
  then obtain j where j: "j < length (trID r)" "trAddress r ! j = a" "trID r ! j = i"
    using link_invD [OF token_invD(8) [OF inv]] by blast
  then have idx: "trIdToIndex r i = Some j" using index_inv_nth [OF token_invD(7) [OF inv]] by blast
  have v: "token_viewRegistry r ! j = tokenViewAt r i j"
    using j token_invD(1) [OF inv] by (simp add: nth_token_view)
  have "tokenViewAt r i j \<in> set (token_viewRegistry r)"
    using v j(1) token_invD(1) [OF inv] by (metis length_token_view nth_mem)
  moreover have "tvAddress (tokenViewAt r i j) = a" using j by (simp add: tokenViewAt_def)
  moreover have "distinct (map tvAddress (token_viewRegistry r))"
    using token_inv_layout [OF inv] by (simp add: token_view_addresses token_address_distinct)
  ultimately have "keyed tvAddress (token_viewRegistry r) a = Some (tokenViewAt r i j)"
    by (simp add: keyed_Some_iff)
  then show ?thesis using Some idx by (simp add: getTokenByAddress_def)
qed

section \<open>Restoring a registry from views\<close>

definition token_append :: "TokenView \<Rightarrow> TokenRegistry \<Rightarrow> TokenRegistry" where
  "token_append view registry = registry
     \<lparr>trAddress := trAddress registry @ [tvAddress view],
      trName := trName registry @ [tvName view],
      trSymbol := trSymbol registry @ [tvSymbol view],
      trDecimals := trDecimals registry @ [tvDecimals view],
      trFeeOnTransferPercent := trFeeOnTransferPercent registry @ [tvFeeOnTransferPercent view],
      trGasForTransfer := trGasForTransfer registry @ [tvGasForTransfer view],
      trID := trID registry @ [tvID view],
      trIdToIndex := (trIdToIndex registry)(tvID view \<mapsto> length (trID registry)),
      trAddressToID := (trAddressToID registry)(tvAddress view \<mapsto> tvID view)\<rparr>"

lemma token_append_layout:
  assumes "token_layout r" and "trIdToIndex r (tvID v) = None" and "trAddressToID r (tvAddress v) = None"
  shows "token_layout (token_append v r)" and "token_viewRegistry (token_append v r) = token_viewRegistry r @ [v]"
proof -
  note t = token_layoutD [OF assms(1)]
  show "token_layout (token_append v r)"
    using t assms(2,3) by (simp add: token_layout_def token_append_def index_inv_append link_inv_append)
  show "token_viewRegistry (token_append v r) = token_viewRegistry r @ [v]"
    using t(1-6) by (simp add: token_viewRegistry_def token_append_def) (simp add: tokenViewAt_def nth_append)
qed

lemma token_layout_fresh:
  assumes "token_layout r"
  shows "trIdToIndex r i = None \<longleftrightarrow> i \<notin> tvID ` set (token_viewRegistry r)"
    and "trAddressToID r a = None \<longleftrightarrow> a \<notin> tvAddress ` set (token_viewRegistry r)"
proof -
  note t = token_layoutD [OF assms]
  show "trIdToIndex r i = None \<longleftrightarrow> i \<notin> tvID ` set (token_viewRegistry r)"
    using index_inv_None_iff [OF t(7)] token_view_ids [OF assms] by (metis list.set_map)
  show "trAddressToID r a = None \<longleftrightarrow> a \<notin> tvAddress ` set (token_viewRegistry r)"
    using link_inv_None_iff [OF t(8) t(1)] token_view_addresses [OF assms] by (metis list.set_map)
qed

lemma loadTokenViews_Cons:
  "loadTokenViews (v # vs) r m =
     (if trIdToIndex r (tvID v) \<noteq> None then Inl (ErrDuplicateID (tvID v))
      else if trAddressToID r (tvAddress v) \<noteq> None then Inl (ErrDuplicateAddress (tvAddress v))
      else loadTokenViews vs (token_append v r) (max m (tvID v)))"
proof -
  have "(if tvID v > m then tvID v else m) = max m (tvID v)" by (auto simp: max_def)
  then show ?thesis by (simp add: token_append_def)
qed

lemma loadTokenViews_spec:
  assumes "token_layout r"
  shows "(\<exists>r'. loadTokenViews vs r m = Inr r') \<longleftrightarrow>
      distinct (map tvID vs) \<and> distinct (map tvAddress vs) \<and>
      tvID ` set vs \<inter> tvID ` set (token_viewRegistry r) = {} \<and>
      tvAddress ` set vs \<inter> tvAddress ` set (token_viewRegistry r) = {}"
    and "loadTokenViews vs r m = Inr r' \<Longrightarrow>
      token_layout r' \<and> token_viewRegistry r' = token_viewRegistry r @ vs \<and>
      trNextID r' = foldl max m (map tvID vs) + 1"
proof -
  have "((\<exists>r'. loadTokenViews vs r m = Inr r') \<longleftrightarrow>
      distinct (map tvID vs) \<and> distinct (map tvAddress vs) \<and>
      tvID ` set vs \<inter> tvID ` set (token_viewRegistry r) = {} \<and>
      tvAddress ` set vs \<inter> tvAddress ` set (token_viewRegistry r) = {}) \<and>
      (\<forall>r'. loadTokenViews vs r m = Inr r' \<longrightarrow> token_layout r' \<and>
        token_viewRegistry r' = token_viewRegistry r @ vs \<and> trNextID r' = foldl max m (map tvID vs) + 1)"
    using assms
  proof (induction vs arbitrary: r m)
    case Nil
    then show ?case by (auto simp: token_layout_def token_viewRegistry_def tokenViewAt_def)
  next
    case (Cons v vs)
    note fr = token_layout_fresh [OF Cons.prems]
    show ?case
    proof (cases "trIdToIndex r (tvID v) = None \<and> trAddressToID r (tvAddress v) = None")
      case False
      then show ?thesis using fr(1) [of "tvID v"] fr(2) [of "tvAddress v"] unfolding loadTokenViews_Cons by auto
    next
      case True
      note ap = token_append_layout [OF Cons.prems True [THEN conjunct1] True [THEN conjunct2]]
      have ld: "loadTokenViews (v # vs) r m = loadTokenViews vs (token_append v r) (max m (tvID v))"
        using True unfolding loadTokenViews_Cons by simp
      show ?thesis
        using Cons.IH [OF ap(1), of "max m (tvID v)"] True fr unfolding ld ap(2) by auto
    qed
  qed
  then show "(\<exists>r'. loadTokenViews vs r m = Inr r') \<longleftrightarrow>
      distinct (map tvID vs) \<and> distinct (map tvAddress vs) \<and>
      tvID ` set vs \<inter> tvID ` set (token_viewRegistry r) = {} \<and>
      tvAddress ` set vs \<inter> tvAddress ` set (token_viewRegistry r) = {}"
    and "loadTokenViews vs r m = Inr r' \<Longrightarrow>
      token_layout r' \<and> token_viewRegistry r' = token_viewRegistry r @ vs \<and>
      trNextID r' = foldl max m (map tvID vs) + 1"
    by blast+
qed

end
