(* ===== verification/Token_System.thy ===== *)
theory Token_System
  imports Token_Registry
begin

text \<open>
  The lock-protected token system of \<^verbatim>\<open>system.go\<close> and its differ and patcher. Every method takes the
  mutex for its whole body, so a concurrent execution is a sequence of the atomic operations below;
  \<open>token_step\<close> is that interleaving. The theorems show that the registry invariant holds in every
  reachable state, what each method returns, that a snapshot restores the registry, and that a
  subscriber who applies the differ's output to an older snapshot has the newer one.
\<close>

section \<open>\<^verbatim>\<open>system.go\<close>\<close>

record TokenSystem =
  tsRegistry :: TokenRegistry

definition NewTokenSystem :: TokenSystem where
  "NewTokenSystem = \<lparr>tsRegistry = NewTokenRegistry\<rparr>"

definition NewTokenSystemFromViews :: "TokenView list \<Rightarrow> token_error + TokenSystem" where
  "NewTokenSystemFromViews views =
     bind_result (NewTokenRegistryFromViews views) (\<lambda>registry. Inr \<lparr>tsRegistry = registry\<rparr>)"

definition ts_AddToken ::
  "address \<Rightarrow> string \<Rightarrow> string \<Rightarrow> uint8 \<Rightarrow> TokenSystem \<Rightarrow> (token_error + uint64) \<times> TokenSystem" where
  "ts_AddToken addr name symbol decimals ts =
     (case addToken addr name symbol decimals (tsRegistry ts) of
        Inl e \<Rightarrow> (Inl e, ts)
      | Inr (i, registry) \<Rightarrow> (Inr i, ts\<lparr>tsRegistry := registry\<rparr>))"

definition ts_DeleteToken :: "uint64 \<Rightarrow> TokenSystem \<Rightarrow> (token_error + unit) \<times> TokenSystem" where
  "ts_DeleteToken idToDelete ts =
     (case deleteToken idToDelete (tsRegistry ts) of
        Inl e \<Rightarrow> (Inl e, ts)
      | Inr registry \<Rightarrow> (Inr (), ts\<lparr>tsRegistry := registry\<rparr>))"

definition ts_UpdateToken :: "uint64 \<Rightarrow> float64 \<Rightarrow> uint64 \<Rightarrow> TokenSystem \<Rightarrow> (token_error + unit) \<times> TokenSystem" where
  "ts_UpdateToken i fee gas ts =
     (case updateToken i fee gas (tsRegistry ts) of
        Inl e \<Rightarrow> (Inl e, ts)
      | Inr registry \<Rightarrow> (Inr (), ts\<lparr>tsRegistry := registry\<rparr>))"

definition ts_View :: "TokenSystem \<Rightarrow> TokenView list" where
  "ts_View ts = token_viewRegistry (tsRegistry ts)"

definition ts_GetTokenByID :: "uint64 \<Rightarrow> TokenSystem \<Rightarrow> token_error + TokenView" where
  "ts_GetTokenByID i ts = getTokenByID i (tsRegistry ts)"

definition ts_GetTokenByAddress :: "address \<Rightarrow> TokenSystem \<Rightarrow> token_error + TokenView" where
  "ts_GetTokenByAddress addr ts = getTokenByAddress addr (tsRegistry ts)"

text \<open>
  One step of a concurrent execution. \<open>AddToken\<close> is taken while the 64-bit counter is not exhausted:
  the step that would wrap it to 0 is left out.
\<close>

inductive token_step :: "TokenSystem \<Rightarrow> TokenSystem \<Rightarrow> bool" where
  step_add: "trNextID (tsRegistry ts) + 1 \<noteq> 0 \<Longrightarrow>
     ts_AddToken addr name symbol decimals ts = (res, ts') \<Longrightarrow> token_step ts ts'"
| step_delete: "ts_DeleteToken i ts = (res', ts') \<Longrightarrow> token_step ts ts'"
| step_update: "ts_UpdateToken i fee gas ts = (res', ts') \<Longrightarrow> token_step ts ts'"

inductive token_run :: "TokenSystem \<Rightarrow> TokenSystem \<Rightarrow> bool" where
  run_refl: "token_run ts ts"
| run_step: "token_run ts ts1 \<Longrightarrow> token_step ts1 ts2 \<Longrightarrow> token_run ts ts2"

lemma step_addI: "trNextID (tsRegistry ts) + 1 \<noteq> 0 \<Longrightarrow> token_step ts (snd (ts_AddToken addr name symbol decimals ts))"
  by (rule step_add [OF _ prod.collapse [symmetric]])

lemma step_deleteI: "token_step ts (snd (ts_DeleteToken i ts))"
  by (rule step_delete [OF prod.collapse [symmetric]])

lemma step_updateI: "token_step ts (snd (ts_UpdateToken i fee gas ts))"
  by (rule step_update [OF prod.collapse [symmetric]])

text \<open>A system with two tokens, for concrete instances.\<close>

definition two_tokens :: TokenSystem where
  "two_tokens = snd (ts_AddToken [2] ''B'' ''B'' 6 (snd (ts_AddToken [1] ''A'' ''A'' 18 NewTokenSystem)))"

lemmas token_eval = NewTokenSystem_def NewTokenRegistry_def ts_AddToken_def addToken_def ts_DeleteToken_def
  deleteToken_def ts_UpdateToken_def updateToken_def ts_View_def token_viewRegistry_def tokenViewAt_def
  ts_GetTokenByID_def getTokenByID_def ts_GetTokenByAddress_def getTokenByAddress_def swap_pop_def Let_def

lemma token_run_two_tokens: "token_run NewTokenSystem two_tokens"
  unfolding two_tokens_def
  by (rule run_step [OF run_step [OF run_refl step_addI] step_addI]) (simp_all add: token_eval)

section \<open>\<^verbatim>\<open>differ.go\<close> and \<^verbatim>\<open>patcher.go\<close>\<close>

record TokenSystemDiff =
  tdAdditions :: "TokenView list"
  tdUpdates :: "TokenView list"
  tdDeletions :: "uint64 list"

definition token_IsEmpty :: "TokenSystemDiff \<Rightarrow> bool" where
  "token_IsEmpty d \<longleftrightarrow> length (tdAdditions d) = 0 \<and> length (tdUpdates d) = 0 \<and> length (tdDeletions d) = 0"

definition token_changed :: "TokenView \<Rightarrow> TokenView \<Rightarrow> bool" where
  "token_changed oldToken newToken \<longleftrightarrow>
     \<not> float_eq (tvFeeOnTransferPercent oldToken) (tvFeeOnTransferPercent newToken) \<or>
     tvGasForTransfer oldToken \<noteq> tvGasForTransfer newToken"

definition token_Differ ::
  "(uint64, TokenView) range_order \<Rightarrow> (uint64, TokenView) range_order \<Rightarrow>
   TokenView list \<Rightarrow> TokenView list \<Rightarrow> TokenSystemDiff" where
  "token_Differ ord_new ord_old old new =
     (let oldTokensMap = mapByID tvID old; newTokensMap = mapByID tvID new in
      \<lparr>tdAdditions = diff_additions (ord_new newTokensMap) oldTokensMap,
       tdUpdates = diff_updates token_changed (ord_new newTokensMap) oldTokensMap,
       tdDeletions = diff_deletions (ord_old oldTokensMap) newTokensMap\<rparr>)"

text \<open>The error of the Go function is always nil.\<close>

definition token_Patcher ::
  "(uint64, TokenView) range_order \<Rightarrow> TokenView list \<Rightarrow> TokenSystemDiff \<Rightarrow> TokenView list" where
  "token_Patcher ord prevState diff =
     map snd (ord (patch_map tvID (\<lambda>token. token) prevState (tdDeletions diff) (tdUpdates diff) (tdAdditions diff)))"

interpretation token_diff: diff_patch tvID token_changed token_Differ token_Patcher
  tdAdditions tdUpdates tdDeletions
proof unfold_locales
  fix o3 :: "(uint64, TokenView) range_order" and prev d
  assume o3: "range_order o3"
  show "distinct (map tvID (token_Patcher o3 prev d))"
    unfolding token_Patcher_def by (rule patch_range(1) [OF o3])
  show "distinct (map tvID prev) \<Longrightarrow> keyed tvID (token_Patcher o3 prev d) =
      ((keyed tvID prev |` (- set (tdDeletions d))) ++ keyed tvID (rev (tdUpdates d))) ++ keyed tvID (rev (tdAdditions d))"
    unfolding token_Patcher_def by (rule patch_range(2) [OF o3])
qed (simp_all add: token_Differ_def Let_def distinct_diff set_diff_additions set_diff_updates set_diff_deletions)

section \<open>The invariant along executions\<close>

lemma ts_AddToken_cases:
  assumes "token_inv (tsRegistry ts)" and "trNextID (tsRegistry ts) + 1 \<noteq> 0"
    and "ts_AddToken addr name symbol decimals ts = (res, ts')"
  obtains (exists) "ts' = ts" and "res = Inl ErrAlreadyExists" and "trAddressToID (tsRegistry ts) addr \<noteq> None"
  | (added) "token_inv (tsRegistry ts')" and "res = Inr (trNextID (tsRegistry ts))"
      and "trAddressToID (tsRegistry ts) addr = None"
      and "ts_View ts' = ts_View ts @
        [\<lparr>tvID = trNextID (tsRegistry ts), tvAddress = addr, tvName = name, tvSymbol = symbol,
          tvDecimals = decimals, tvFeeOnTransferPercent = 0, tvGasForTransfer = 0\<rparr>]"
      and "trNextID (tsRegistry ts') = trNextID (tsRegistry ts) + 1"
proof (cases "trAddressToID (tsRegistry ts) addr")
  case None
  show thesis
    by (rule addToken_spec [OF assms(1) None assms(2), of name symbol decimals])
       (use assms(3) None added in \<open>auto simp: ts_AddToken_def ts_View_def\<close>)
next
  case (Some i)
  then show thesis using assms(3) exists by (auto simp: ts_AddToken_def addToken_def)
qed

text \<open>
  How the registry may evolve: the counter does not go down, and an identifier below the old
  counter still names the same token, with its immutable fields.
\<close>

definition token_static :: "TokenView \<Rightarrow> address \<times> string \<times> string \<times> uint8" where
  "token_static v = (tvAddress v, tvName v, tvSymbol v, tvDecimals v)"

definition token_evolves :: "TokenSystem \<Rightarrow> TokenSystem \<Rightarrow> bool" where
  "token_evolves ts ts' \<longleftrightarrow> trNextID (tsRegistry ts) \<le> trNextID (tsRegistry ts') \<and>
     (\<forall>v \<in> set (ts_View ts'). tvID v < trNextID (tsRegistry ts) \<longrightarrow>
        (\<exists>w \<in> set (ts_View ts). tvID w = tvID v \<and> token_static w = token_static v))"

lemma token_evolves_refl: "token_evolves ts ts"
  by (auto simp: token_evolves_def)

lemma token_evolves_trans:
  assumes "token_evolves a b" and "token_evolves b c" shows "token_evolves a c"
  unfolding token_evolves_def
proof (intro conjI ballI impI)
  show "trNextID (tsRegistry a) \<le> trNextID (tsRegistry c)"
    using assms by (auto simp: token_evolves_def)
  fix v assume v: "v \<in> set (ts_View c)" "tvID v < trNextID (tsRegistry a)"
  then have "tvID v < trNextID (tsRegistry b)" using assms(1) by (auto simp: token_evolves_def)
  then obtain w where w: "w \<in> set (ts_View b)" "tvID w = tvID v" "token_static w = token_static v"
    using assms(2) v(1) by (auto simp: token_evolves_def)
  then show "\<exists>w \<in> set (ts_View a). tvID w = tvID v \<and> token_static w = token_static v"
    using assms(1) v(2) by (fastforce simp: token_evolves_def)
qed

lemma token_evolves_delete:
  assumes "token_inv (tsRegistry ts)" and "deleteToken i (tsRegistry ts) = Inr registry"
  shows "token_inv registry \<and> token_evolves ts (ts\<lparr>tsRegistry := registry\<rparr>)"
proof -
  obtain j where j: "trIdToIndex (tsRegistry ts) i = Some j"
    using assms(2) by (auto simp: deleteToken_def split: option.splits)
  have inv: "token_inv registry" using tokens.del_InrD(1) [OF assms] .
  have "set (token_viewRegistry registry) \<subseteq> set (token_viewRegistry (tsRegistry ts))"
  proof
    fix v assume v: "v \<in> set (token_viewRegistry registry)"
    then have "keyed tvID (token_viewRegistry registry) (tvID v) = Some v"
      using tokens.view_distinct [OF inv] by (simp add: keyed_Some_iff)
    then show "v \<in> set (token_viewRegistry (tsRegistry ts))"
      using tokens.del_InrD(2) [OF assms] by (auto split: if_splits dest: keyed_SomeD)
  qed
  moreover have "trNextID registry = trNextID (tsRegistry ts)"
    using assms(2) by (auto simp: deleteToken_def Let_def split: option.splits)
  ultimately show ?thesis using inv by (auto simp: token_evolves_def ts_View_def)
qed

lemma token_evolves_update:
  assumes "token_inv (tsRegistry ts)" and "updateToken i fee gas (tsRegistry ts) = Inr registry"
  shows "token_inv registry \<and> token_evolves ts (ts\<lparr>tsRegistry := registry\<rparr>)"
proof -
  obtain j where j: "trIdToIndex (tsRegistry ts) i = Some j"
    using assms(2) by (auto simp: updateToken_def split: option.splits)
  let ?v = "token_viewRegistry (tsRegistry ts)"
  have jl: "j < length ?v"
    using index_inv_rowD [OF token_view_index [OF token_inv_layout [OF assms(1)]] j] by simp
  obtain r' where r': "updateToken i fee gas (tsRegistry ts) = Inr r'" "token_inv r'"
    "trNextID r' = trNextID (tsRegistry ts)"
    "token_viewRegistry r' = ?v[j := (?v ! j)\<lparr>tvFeeOnTransferPercent := fee, tvGasForTransfer := gas\<rparr>]"
    by (rule updateToken_spec [OF assms(1) j])
  have "\<exists>w \<in> set ?v. tvID w = tvID v \<and> token_static w = token_static v"
    if "v \<in> set (token_viewRegistry r')" for v
  proof -
    from that consider "v \<in> set ?v" | "v = (?v ! j)\<lparr>tvFeeOnTransferPercent := fee, tvGasForTransfer := gas\<rparr>"
      using r'(4) set_update_subset_insert by fastforce
    then show ?thesis
    proof cases
      case 2
      have "?v ! j \<in> set ?v" using jl by (rule nth_mem)
      then show ?thesis using 2 by (auto simp: token_static_def intro!: bexI [of _ "?v ! j"])
    qed blast
  qed
  with r' assms(2) show ?thesis by (auto simp: token_evolves_def ts_View_def)
qed

lemma token_step_preserves:
  assumes "token_step ts ts'" and inv: "token_inv (tsRegistry ts)"
  shows "token_inv (tsRegistry ts') \<and> token_evolves ts ts'"
  using assms(1)
proof cases
  case (step_add addr name symbol decimals res)
  show ?thesis
  proof (rule ts_AddToken_cases [OF inv step_add])
    assume "ts' = ts"
    then show ?thesis using inv token_evolves_refl by simp
  next
    assume a: "token_inv (tsRegistry ts')"
      "ts_View ts' = ts_View ts @ [\<lparr>tvID = trNextID (tsRegistry ts), tvAddress = addr, tvName = name,
        tvSymbol = symbol, tvDecimals = decimals, tvFeeOnTransferPercent = 0, tvGasForTransfer = 0\<rparr>]"
      "trNextID (tsRegistry ts') = trNextID (tsRegistry ts) + 1"
    then show ?thesis using word_less_succ [OF step_add(1)] by (auto simp: token_evolves_def)
  qed
next
  case (step_delete i res')
  then show ?thesis
    using token_evolves_delete [OF inv] inv token_evolves_refl
    by (auto simp: ts_DeleteToken_def split: sum.splits)
next
  case (step_update i fee gas res')
  then show ?thesis
    using token_evolves_update [OF inv] inv token_evolves_refl
    by (auto simp: ts_UpdateToken_def split: sum.splits)
qed

lemma token_run_preserves:
  assumes "token_run ts ts'" and "token_inv (tsRegistry ts)"
  shows "token_inv (tsRegistry ts') \<and> token_evolves ts ts'"
  using assms
proof (induction rule: token_run.induct)
  case (run_refl ts)
  then show ?case using token_evolves_refl by blast
next
  case (run_step ts ts1 ts2)
  then show ?case using token_step_preserves token_evolves_trans by blast
qed

section \<open>Properties\<close>

lemma token_inv_consistent:
  assumes "token_inv (tsRegistry ts)"
  shows "distinct (map tvID (ts_View ts))" and "distinct (map tvAddress (ts_View ts))"
    and "v \<in> set (ts_View ts) \<longleftrightarrow> ts_GetTokenByID (tvID v) ts = Inr v"
    and "v \<in> set (ts_View ts) \<longleftrightarrow> ts_GetTokenByAddress (tvAddress v) ts = Inr v"
proof -
  show d: "distinct (map tvID (ts_View ts))" unfolding ts_View_def by (rule tokens.view_distinct [OF assms])
  show a: "distinct (map tvAddress (ts_View ts))"
    using token_inv_layout [OF assms] by (simp add: ts_View_def token_view_addresses token_address_distinct)
  show "v \<in> set (ts_View ts) \<longleftrightarrow> ts_GetTokenByID (tvID v) ts = Inr v"
    using d by (simp add: ts_GetTokenByID_def tokens.get_keyed [OF assms] ts_View_def option_result_eq_iff keyed_Some_iff)
  show "v \<in> set (ts_View ts) \<longleftrightarrow> ts_GetTokenByAddress (tvAddress v) ts = Inr v"
    using a by (simp add: ts_GetTokenByAddress_def token_get_address [OF assms] ts_View_def option_result_eq_iff keyed_Some_iff)
qed

lemma token_inv_NewTokenSystem: "token_inv (tsRegistry NewTokenSystem)"
  by (simp add: NewTokenSystem_def token_inv_new)

text \<open>
  C11: In every state that any interleaving of \<^verbatim>\<open>AddToken\<close>, \<^verbatim>\<open>DeleteToken\<close> and \<^verbatim>\<open>UpdateToken\<close> reaches
  from a new token system, the registry invariant holds, identifiers and addresses are unique, no
  token has identifier 0, and a token is in the view exactly if both lookups return it.
\<close>

theorem token_system_consistent:
  assumes "token_run NewTokenSystem ts"
  shows "token_inv (tsRegistry ts) \<and> distinct (map tvID (ts_View ts)) \<and> distinct (map tvAddress (ts_View ts)) \<and>
    (\<forall>v. (v \<in> set (ts_View ts) \<longleftrightarrow> ts_GetTokenByID (tvID v) ts = Inr v) \<and>
         (v \<in> set (ts_View ts) \<longleftrightarrow> ts_GetTokenByAddress (tvAddress v) ts = Inr v) \<and>
         (v \<in> set (ts_View ts) \<longrightarrow> tvID v \<noteq> 0))"
proof -
  from token_run_preserves [OF assms token_inv_NewTokenSystem]
  have inv: "token_inv (tsRegistry ts)" and ev: "token_evolves NewTokenSystem ts" by auto
  have "tvID v \<noteq> 0" if "v \<in> set (ts_View ts)" for v
    using ev that by (auto simp: token_evolves_def NewTokenSystem_def NewTokenRegistry_def ts_View_def token_viewRegistry_def)
  with inv token_inv_consistent [OF inv] show ?thesis by blast
qed

theorem token_system_consistent_witness:
  "let ts = snd (ts_DeleteToken 1 two_tokens)
   in token_inv (tsRegistry ts) \<and> map tvID (ts_View ts) = [2] \<and> distinct (map tvAddress (ts_View ts))"
proof -
  have "token_run NewTokenSystem (snd (ts_DeleteToken 1 two_tokens))"
    by (rule run_step [OF token_run_two_tokens step_deleteI])
  from token_system_consistent [OF this] show ?thesis
    by (simp add: Let_def) (simp add: two_tokens_def token_eval)
qed

text \<open>
  \<^verbatim>\<open>AddToken\<close> of an address that is not registered returns the counter as the new identifier;
  afterwards both lookups of that token return its data with fee and gas 0, and every other
  lookup, by identifier or by address, is unchanged.
\<close>

theorem AddToken_lookups:
  assumes inv: "token_inv (tsRegistry ts)" and cnt: "trNextID (tsRegistry ts) + 1 \<noteq> 0"
    and fresh: "ts_GetTokenByAddress addr ts = Inl ErrTokenNotFound"
    and call: "ts_AddToken addr name symbol decimals ts = (res, ts')"
  shows "res = Inr (trNextID (tsRegistry ts)) \<and>
    (let v = \<lparr>tvID = trNextID (tsRegistry ts), tvAddress = addr, tvName = name, tvSymbol = symbol,
              tvDecimals = decimals, tvFeeOnTransferPercent = 0, tvGasForTransfer = 0\<rparr>
     in \<forall>i a. ts_GetTokenByID i ts' = (if i = tvID v then Inr v else ts_GetTokenByID i ts) \<and>
              ts_GetTokenByAddress a ts' = (if a = addr then Inr v else ts_GetTokenByAddress a ts))"
proof (rule ts_AddToken_cases [OF inv cnt call])
  assume "trAddressToID (tsRegistry ts) addr \<noteq> None"
  then show ?thesis using fresh by (auto simp: ts_GetTokenByAddress_def getTokenByAddress_def)
next
  let ?v = "\<lparr>tvID = trNextID (tsRegistry ts), tvAddress = addr, tvName = name, tvSymbol = symbol,
              tvDecimals = decimals, tvFeeOnTransferPercent = 0, tvGasForTransfer = 0\<rparr>"
  assume a: "token_inv (tsRegistry ts')" "res = Inr (trNextID (tsRegistry ts))"
    "trAddressToID (tsRegistry ts) addr = None" "ts_View ts' = ts_View ts @ [?v]"
  have i: "tvID ?v \<notin> tvID ` set (ts_View ts)"
    using token_invD(9) [OF inv] token_view_ids [OF token_inv_layout [OF inv]]
    by (metis TokenView.select_convs(1) less_irrefl list.set_map ts_View_def)
  have ad: "tvAddress ?v \<notin> tvAddress ` set (ts_View ts)"
    using a(3) token_layout_fresh(2) [OF token_inv_layout [OF inv]] by (simp add: ts_View_def)
  have "keyed tvID (ts_View ts') = (keyed tvID (ts_View ts))(tvID ?v \<mapsto> ?v)"
    "keyed tvAddress (ts_View ts') = (keyed tvAddress (ts_View ts))(tvAddress ?v \<mapsto> ?v)"
    unfolding a(4) by (rule keyed_append [OF i], rule keyed_append [OF ad])
  then show ?thesis
    using a(2) by (simp add: ts_GetTokenByID_def ts_GetTokenByAddress_def tokens.get_keyed [OF inv]
        tokens.get_keyed [OF a(1)] token_get_address [OF inv] token_get_address [OF a(1)] flip: ts_View_def)
qed

theorem AddToken_lookups_witness:
  "let ts' = snd (ts_AddToken [7] ''USD Coin'' ''USDC'' 6 NewTokenSystem)
   in ts_GetTokenByID 1 ts' = Inr \<lparr>tvID = 1, tvAddress = [7], tvName = ''USD Coin'', tvSymbol = ''USDC'',
        tvDecimals = 6, tvFeeOnTransferPercent = 0, tvGasForTransfer = 0\<rparr> \<and>
      ts_GetTokenByID 2 ts' = Inl ErrTokenNotFound"
proof -
  let ?res = "ts_AddToken [7] ''USD Coin'' ''USDC'' 6 NewTokenSystem"
  have c: "trNextID (tsRegistry NewTokenSystem) = 1" by (simp add: NewTokenSystem_def NewTokenRegistry_def)
  have f: "ts_GetTokenByAddress [7] NewTokenSystem = Inl ErrTokenNotFound"
    "ts_GetTokenByID 2 NewTokenSystem = Inl ErrTokenNotFound"
    by (simp_all add: NewTokenSystem_def NewTokenRegistry_def ts_GetTokenByAddress_def getTokenByAddress_def
        ts_GetTokenByID_def getTokenByID_def)
  show ?thesis
    using AddToken_lookups [OF token_inv_NewTokenSystem, of "[7]" "''USD Coin''" "''USDC''" 6 "fst ?res" "snd ?res"] f
    by (simp add: c Let_def)
qed

text \<open>
  \<^verbatim>\<open>DeleteToken\<close> fails with \<^verbatim>\<open>ErrTokenNotFound\<close> and changes nothing if the identifier is unknown;
  otherwise the identifier is gone, every other identifier still returns the same token, although
  swap-and-pop has moved rows, the view is one shorter and the invariant is kept.
\<close>

theorem DeleteToken_spec:
  assumes inv: "token_inv (tsRegistry ts)" and call: "ts_DeleteToken i ts = (res, ts')"
  shows "(if ts_GetTokenByID i ts = Inl ErrTokenNotFound then res = Inl ErrTokenNotFound \<and> ts' = ts
     else res = Inr () \<and> token_inv (tsRegistry ts') \<and> Suc (length (ts_View ts')) = length (ts_View ts) \<and>
       (\<forall>j. ts_GetTokenByID j ts' = (if j = i then Inl ErrTokenNotFound else ts_GetTokenByID j ts)))"
proof (cases "keyed tvID (ts_View ts) i")
  case None
  then have "ts_GetTokenByID i ts = Inl ErrTokenNotFound" "deleteToken i (tsRegistry ts) = Inl ErrTokenNotFound"
    by (simp_all add: ts_GetTokenByID_def tokens.get_keyed [OF inv] tokens.del_missing [OF inv] ts_View_def)
  then show ?thesis using call by (simp add: ts_DeleteToken_def)
next
  case (Some v)
  then have g: "ts_GetTokenByID i ts = Inr v"
    by (simp add: ts_GetTokenByID_def tokens.get_keyed [OF inv] ts_View_def)
  obtain registry where r: "deleteToken i (tsRegistry ts) = Inr registry"
    using tokens.del_present [OF inv] Some by (auto simp: ts_View_def)
  then have c: "res = Inr ()" "ts' = ts\<lparr>tsRegistry := registry\<rparr>" using call by (simp_all add: ts_DeleteToken_def)
  show ?thesis
    using tokens.del_InrD(1) [OF inv r] tokens.view_length_del [OF inv r] tokens.get_after_del [OF inv r] g
    by (simp add: c ts_View_def ts_GetTokenByID_def)
qed

theorem DeleteToken_spec_witness:
  "ts_GetTokenByID 2 (snd (ts_DeleteToken 1 two_tokens)) = ts_GetTokenByID 2 two_tokens \<and>
   ts_GetTokenByID 1 (snd (ts_DeleteToken 1 two_tokens)) = Inl ErrTokenNotFound"
proof -
  have "token_inv (tsRegistry two_tokens)"
    using token_run_preserves [OF token_run_two_tokens token_inv_NewTokenSystem] by blast
  from DeleteToken_spec [OF this, of 1 "fst (ts_DeleteToken 1 two_tokens)" "snd (ts_DeleteToken 1 two_tokens)"]
  have "if ts_GetTokenByID 1 two_tokens = Inl ErrTokenNotFound then snd (ts_DeleteToken 1 two_tokens) = two_tokens
    else \<forall>j. ts_GetTokenByID j (snd (ts_DeleteToken 1 two_tokens)) =
      (if j = 1 then Inl ErrTokenNotFound else ts_GetTokenByID j two_tokens)"
    by (auto split: if_splits)
  moreover have "ts_GetTokenByID 1 two_tokens \<noteq> Inl ErrTokenNotFound"
    by (simp add: two_tokens_def token_eval)
  ultimately show ?thesis by simp
qed

text \<open>
  C12: \<^verbatim>\<open>NewTokenSystemFromViews\<close> accepts a list of views exactly if it has no two equal identifiers and
  no two equal addresses; the restored system then shows exactly that list.
\<close>

theorem FromViews_accepts:
  "((\<exists>ts. NewTokenSystemFromViews views = Inr ts) \<longleftrightarrow>
      distinct (map tvID views) \<and> distinct (map tvAddress views)) \<and>
   (\<forall>ts. NewTokenSystemFromViews views = Inr ts \<longrightarrow> ts_View ts = views \<and> token_layout (tsRegistry ts))"
proof -
  have lay: "token_layout NewTokenRegistry" by (rule token_inv_layout [OF token_inv_new])
  have e: "token_viewRegistry NewTokenRegistry = []" by (simp add: token_eval)
  show ?thesis
    using loadTokenViews_spec [OF lay, of views 0]
    by (auto simp: e NewTokenSystemFromViews_def NewTokenRegistryFromViews_def bind_result_Inr ts_View_def)
qed

theorem FromViews_accepts_witness:
  "(\<exists>ts. NewTokenSystemFromViews (ts_View two_tokens) = Inr ts) \<and>
   \<not> (\<exists>ts. NewTokenSystemFromViews (ts_View two_tokens @ ts_View two_tokens) = Inr ts)"
  using FromViews_accepts [of "ts_View two_tokens"] FromViews_accepts [of "ts_View two_tokens @ ts_View two_tokens"]
  by (simp add: two_tokens_def token_eval)

text \<open>
  Restoring from the snapshot of a system that satisfies the invariant succeeds and gives a system
  with the same view that satisfies the invariant again; its counter is one above the largest live
  identifier, hence never above the old counter.
\<close>

theorem token_restore_roundtrip:
  assumes inv: "token_inv (tsRegistry ts)"
  shows "\<exists>ts'. NewTokenSystemFromViews (ts_View ts) = Inr ts' \<and> ts_View ts' = ts_View ts \<and>
     token_inv (tsRegistry ts') \<and> trNextID (tsRegistry ts') = foldl max 0 (map tvID (ts_View ts)) + 1 \<and>
     trNextID (tsRegistry ts') \<le> trNextID (tsRegistry ts)"
proof -
  have lay: "token_layout NewTokenRegistry" by (rule token_inv_layout [OF token_inv_new])
  have e: "token_viewRegistry NewTokenRegistry = []" by (simp add: token_eval)
  let ?m = "foldl max 0 (map tvID (ts_View ts))"
  have ids: "map tvID (ts_View ts) = trID (tsRegistry ts)"
    unfolding ts_View_def by (rule token_view_ids [OF token_inv_layout [OF inv]])
  obtain r where r: "loadTokenViews (ts_View ts) NewTokenRegistry 0 = Inr r"
    using loadTokenViews_spec(1) [OF lay, of "ts_View ts" 0] token_inv_consistent [OF inv] e by auto
  have sp: "token_layout r" "token_viewRegistry r = ts_View ts" "trNextID r = ?m + 1"
    using loadTokenViews_spec(2) [OF lay r] e by simp_all
  have m: "?m < trNextID (tsRegistry ts)"
    using foldl_max_in [of 0 "map tvID (ts_View ts)"] inv by (auto simp: ids token_inv_def word_gt_0)
  have "i < ?m + 1" if "i \<in> set (trID r)" for i
  proof -
    have "trID r = map tvID (ts_View ts)" using token_view_ids [OF sp(1)] sp(2) by simp
    then have "i \<le> ?m" using that by (simp add: foldl_max_ge_mem)
    then show ?thesis using word_less_succ [OF word_less_succ_neq_0 [OF m]] by simp
  qed
  then have "token_inv r" using sp word_less_succ_neq_0 [OF m] by (simp add: token_inv_def)
  then show ?thesis
    using r sp inc_le [OF m]
    by (simp add: NewTokenSystemFromViews_def NewTokenRegistryFromViews_def ts_View_def)
qed

theorem token_restore_roundtrip_witness:
  "\<exists>ts'. NewTokenSystemFromViews (ts_View two_tokens) = Inr ts' \<and> ts_View ts' = ts_View two_tokens \<and>
     trNextID (tsRegistry ts') = 3"
proof -
  have "token_inv (tsRegistry two_tokens)"
    using token_run_preserves [OF token_run_two_tokens token_inv_NewTokenSystem] by blast
  moreover have "foldl max 0 (map tvID (ts_View two_tokens)) + 1 = (3 :: uint64)"
    by (simp add: two_tokens_def token_eval)
  ultimately show ?thesis using token_restore_roundtrip [of two_tokens] by auto
qed

text \<open>
  Identifiers are permanent only for the life of one registry: after the newest token is deleted, a
  restored registry gives its identifier to the next token, while the original one does not.
\<close>

lemma restore_reuses_identifier:
  "\<exists>ts'. NewTokenSystemFromViews (ts_View (snd (ts_DeleteToken 2 two_tokens))) = Inr ts' \<and>
     fst (ts_AddToken [3] ''C'' ''C'' 8 ts') = Inr 2 \<and>
     fst (ts_AddToken [3] ''C'' ''C'' 8 (snd (ts_DeleteToken 2 two_tokens))) = Inr 3"
  by (simp add: two_tokens_def token_eval NewTokenSystemFromViews_def NewTokenRegistryFromViews_def)

definition token_same :: "TokenView \<Rightarrow> TokenView \<Rightarrow> bool" where
  "token_same v w \<longleftrightarrow> v = w \<or>
     (float_is_zero (tvFeeOnTransferPercent v) \<and> float_is_zero (tvFeeOnTransferPercent w) \<and>
      v\<lparr>tvFeeOnTransferPercent := tvFeeOnTransferPercent w\<rparr> = w)"

lemma token_unchanged_same:
  assumes "token_inv (tsRegistry ts)" and "token_evolves ts ts'"
    and "w \<in> set (ts_View ts)" and "v \<in> set (ts_View ts')" and "tvID w = tvID v" and "\<not> token_changed w v"
  shows "token_same w v"
proof -
  have "tvID v < trNextID (tsRegistry ts)"
    using assms(1,3,5) token_invD(9) [OF assms(1)] token_view_ids [OF token_inv_layout [OF assms(1)]]
    by (metis image_eqI list.set_map ts_View_def)
  then obtain w' where w': "w' \<in> set (ts_View ts)" "tvID w' = tvID v" "token_static w' = token_static v"
    using assms(2,4) by (auto simp: token_evolves_def)
  have "w' = w" by (rule distinct_map_eqD [OF token_inv_consistent(1) [OF assms(1)]]) (simp_all add: w' assms)
  with w'(3) assms(5,6) show ?thesis
    by (auto simp: token_same_def token_static_def token_changed_def float_eq_def)
qed

text \<open>
  Between any two states of one execution, the patcher applied to the older snapshot and the
  differ's output yields the newer snapshot: the same identifiers, each once, and under each
  identifier the same token, with the fee possibly a zero of the other sign, whatever the
  iteration orders of the maps.
\<close>

theorem token_stream_correct:
  assumes run: "token_run NewTokenSystem ts" "token_run ts ts'"
    and ord: "range_order o1" "range_order o2" "range_order o3"
  shows "let p = token_Patcher o3 (ts_View ts) (token_Differ o1 o2 (ts_View ts) (ts_View ts'))
     in distinct (map tvID p) \<and> tvID ` set p = tvID ` set (ts_View ts') \<and>
        (\<forall>i. rel_option token_same (keyed tvID p i) (keyed tvID (ts_View ts') i))"
proof -
  have inv: "token_inv (tsRegistry ts)" using token_run_preserves [OF run(1) token_inv_NewTokenSystem] by blast
  from token_run_preserves [OF run(2) inv]
  have inv': "token_inv (tsRegistry ts')" and ev: "token_evolves ts ts'" by auto
  note d = token_inv_consistent(1) [OF inv] token_inv_consistent(1) [OF inv']
  let ?p = "token_Patcher o3 (ts_View ts) (token_Differ o1 o2 (ts_View ts) (ts_View ts'))"
  have "rel_option token_same (keyed tvID ?p i) (keyed tvID (ts_View ts') i)" for i
  proof (cases "keyed tvID (ts_View ts') i")
    case None
    then show ?thesis by (simp add: token_diff.patch_differ_keyed [OF ord d])
  next
    case (Some v)
    show ?thesis
    proof (cases "keyed tvID (ts_View ts) i")
      case None
      with Some show ?thesis by (simp add: token_diff.patch_differ_keyed [OF ord d] token_same_def)
    next
      case old: (Some w)
      have "token_same (if token_changed w v then v else w) v"
        using token_unchanged_same [OF inv ev] keyed_SomeD [OF old] keyed_SomeD [OF Some]
        by (auto simp: token_same_def)
      with Some old show ?thesis by (simp add: token_diff.patch_differ_keyed [OF ord d])
    qed
  qed
  with token_diff.patcher_distinct [OF ord(3)] token_diff.patch_differ_ids [OF ord d]
  show ?thesis by (simp add: Let_def)
qed

theorem token_stream_correct_witness:
  "let old = ts_View two_tokens;
       new = ts_View (snd (ts_DeleteToken 1 (snd (ts_UpdateToken 2 4607182418800017408 65000 two_tokens))));
       p = token_Patcher rev old (token_Differ rev (\<lambda>m. m) old new)
   in distinct (map tvID p) \<and> tvID ` set p = {2} \<and> old \<noteq> new"
proof -
  let ?t = "snd (ts_DeleteToken 1 (snd (ts_UpdateToken 2 4607182418800017408 65000 two_tokens)))"
  have "token_run two_tokens ?t"
    by (rule run_step [OF run_step [OF run_refl step_updateI] step_deleteI])
  from token_stream_correct [OF token_run_two_tokens this range_order_rev range_order_id range_order_rev]
  show ?thesis
    by (simp add: Let_def) (simp add: two_tokens_def token_eval)
qed

end
