(* ===== verification/Pool_Registry.thy ===== *)
theory Pool_Registry
  imports Interfaces
begin

text \<open>
  The pool registry, \<^verbatim>\<open>src/protocols/pool-registry\<close>: the 32-byte keys of \<^verbatim>\<open>pool_key.go\<close> and the
  struct-of-arrays registry of \<^verbatim>\<open>pool_registry.go\<close> with its dictionary encoding of protocols in
  \<^verbatim>\<open>uint16\<close> and its block list. Keys and addresses are byte lists; \<open>is_key\<close> and \<open>is_address\<close> fix
  their lengths, which Go's array types do.
\<close>

section \<open>\<^verbatim>\<open>pool_key.go\<close>\<close>

type_synonym PoolKey = "byte list"
type_synonym ProtocolID = string

definition is_key :: "byte list \<Rightarrow> bool" where
  "is_key k \<longleftrightarrow> length k = 32"

definition is_address :: "byte list \<Rightarrow> bool" where
  "is_address a \<longleftrightarrow> length a = 20"

datatype key_error = ErrNotAddress | ErrKeyTooLong | ErrHex

text \<open>\<^verbatim>\<open>encoding/hex\<close>: two lower-case digits per byte; decoding takes either case and an even length.\<close>

definition hex_digit :: "nat \<Rightarrow> char" where
  "hex_digit n = ''0123456789abcdef'' ! n"

fun hex_value :: "char \<Rightarrow> nat option" where
  "hex_value c =
     (let n = of_char c :: nat in
      if 48 \<le> n \<and> n \<le> 57 then Some (n - 48)
      else if 97 \<le> n \<and> n \<le> 102 then Some (n - 97 + 10)
      else if 65 \<le> n \<and> n \<le> 70 then Some (n - 65 + 10)
      else None)"

fun hex_EncodeToString :: "byte list \<Rightarrow> string" where
  "hex_EncodeToString [] = []"
| "hex_EncodeToString (b # bs) = hex_digit (unat b div 16) # hex_digit (unat b mod 16) # hex_EncodeToString bs"

fun hex_DecodeString :: "string \<Rightarrow> key_error + byte list" where
  "hex_DecodeString [] = Inr []"
| "hex_DecodeString [c] = Inl ErrHex"
| "hex_DecodeString (c # d # s) =
     (case (hex_value c, hex_value d) of
        (Some h, Some l) \<Rightarrow> bind_result (hex_DecodeString s) (\<lambda>bs. Inr (word_of_nat (h * 16 + l) # bs))
      | _ \<Rightarrow> Inl ErrHex)"

definition PoolKey_String :: "PoolKey \<Rightarrow> string" where
  "PoolKey_String p = ''0x'' @ hex_EncodeToString p"

definition TrimPrefix0x :: "string \<Rightarrow> string" where
  "TrimPrefix0x s = (if take 2 s = ''0x'' then drop 2 s else s)"

text \<open>
  \<^verbatim>\<open>UnmarshalJSON\<close> after the string has been taken out of its JSON quotes; \<^verbatim>\<open>copy(p[:], b)\<close> into a
  zeroed array pads on the right.
\<close>

definition UnmarshalPoolKey :: "string \<Rightarrow> key_error + PoolKey" where
  "UnmarshalPoolKey s =
     bind_result (hex_DecodeString (TrimPrefix0x s))
       (\<lambda>b. if length b > 32 then Inl ErrKeyTooLong else Inr (b @ replicate (32 - length b) 0))"

definition AddressToPoolKey :: "address \<Rightarrow> PoolKey" where
  "AddressToPoolKey addr = replicate 12 0 @ addr"

definition PoolKey_ToAddress :: "PoolKey \<Rightarrow> key_error + address" where
  "PoolKey_ToAddress p = (if \<exists>b \<in> set (take 12 p). b \<noteq> 0 then Inl ErrNotAddress else Inr (drop 12 p))"

definition Bytes32ToPoolKey :: "byte list \<Rightarrow> PoolKey" where
  "Bytes32ToPoolKey b = b"

section \<open>Data of \<^verbatim>\<open>pool_registry.go\<close>\<close>

datatype pool_error =
    ErrPoolNotFound
  | ErrPoolBlocked
  | ErrDuplicatePoolID
  | ErrDuplicateKey
  | ErrProtocolOverflow
  | ErrProtocolMappingNotFound

record PoolView =
  pvID :: uint64
  pvKey :: PoolKey
  pvProtocol :: uint16

record PoolRegistryView =
  prvPools :: "PoolView list"
  prvProtocols :: "(uint16, ProtocolID) gomap"

record PoolRegistry =
  prID :: "uint64 list"
  prKey :: "PoolKey list"
  prProtocol :: "uint16 list"
  prIdToIndex :: "uint64 \<rightharpoonup> nat"
  prKeyToIndex :: "PoolKey \<rightharpoonup> nat"
  prProtocolToInternal :: "ProtocolID \<rightharpoonup> uint16"
  prInternalToProtocol :: "(uint16, ProtocolID) gomap"
  prBlockList :: "PoolKey set"
  prNextID :: uint64
  prNextProto :: uint16

section \<open>Operations of \<^verbatim>\<open>pool_registry.go\<close>\<close>

definition NewPoolRegistry :: PoolRegistry where
  "NewPoolRegistry = \<lparr>prID = [], prKey = [], prProtocol = [], prIdToIndex = Map.empty,
     prKeyToIndex = Map.empty, prProtocolToInternal = Map.empty, prInternalToProtocol = [],
     prBlockList = {}, prNextID = 1, prNextProto = 0\<rparr>"

text \<open>
  Step 1 of \<^verbatim>\<open>NewPoolRegistryFromView\<close>, over the entries of the protocol map in iteration order.
\<close>

fun restoreProtocols :: "(uint16, ProtocolID) gomap \<Rightarrow> PoolRegistry \<Rightarrow> uint16 \<Rightarrow> PoolRegistry \<times> uint16" where
  "restoreProtocols [] r maxProto = (r, maxProto)"
| "restoreProtocols ((i, name) # es) r maxProto =
     restoreProtocols es
       (r\<lparr>prInternalToProtocol := AList.update i name (prInternalToProtocol r),
          prProtocolToInternal := (prProtocolToInternal r)(name \<mapsto> i)\<rparr>)
       (if i > maxProto then i else maxProto)"

text \<open>Step 3, the loop over the pools with its early returns.\<close>

fun restorePools :: "PoolView list \<Rightarrow> PoolRegistry \<Rightarrow> uint64 \<Rightarrow> pool_error + PoolRegistry" where
  "restorePools [] r maxID = Inr (r\<lparr>prNextID := maxID + 1\<rparr>)"
| "restorePools (poolData # ps) r maxID =
     (if prIdToIndex r (pvID poolData) \<noteq> None then Inl ErrDuplicatePoolID
      else if prKeyToIndex r (pvKey poolData) \<noteq> None then Inl ErrDuplicateKey
      else if map_of (prInternalToProtocol r) (pvProtocol poolData) = None then Inl ErrProtocolMappingNotFound
      else restorePools ps
        (r\<lparr>prID := prID r @ [pvID poolData],
           prKey := prKey r @ [pvKey poolData],
           prProtocol := prProtocol r @ [pvProtocol poolData],
           prIdToIndex := (prIdToIndex r)(pvID poolData \<mapsto> length (prID r)),
           prKeyToIndex := (prKeyToIndex r)(pvKey poolData \<mapsto> length (prID r))\<rparr>)
        (if pvID poolData > maxID then pvID poolData else maxID))"

definition NewPoolRegistryFromView ::
  "(uint16, ProtocolID) range_order \<Rightarrow> PoolRegistryView \<Rightarrow> pool_error + PoolRegistry" where
  "NewPoolRegistryFromView ord view =
     (let (r, maxProto) = restoreProtocols (ord (prvProtocols view)) NewPoolRegistry 0;
          r1 = (if length (prvProtocols view) > 0 then r\<lparr>prNextProto := maxProto + 1\<rparr> else r)
      in restorePools (prvPools view) r1 0)"

definition registerProtocol :: "ProtocolID \<Rightarrow> PoolRegistry \<Rightarrow> pool_error + (uint16 \<times> PoolRegistry)" where
  "registerProtocol pID r =
     (case prProtocolToInternal r pID of
        Some internalID \<Rightarrow> Inr (internalID, r)
      | None \<Rightarrow>
          if prNextProto r = 65535 then Inl ErrProtocolOverflow
          else let newInternalID = prNextProto r in
            Inr (newInternalID, r\<lparr>prNextProto := prNextProto r + 1,
              prProtocolToInternal := (prProtocolToInternal r)(pID \<mapsto> newInternalID),
              prInternalToProtocol := AList.update newInternalID pID (prInternalToProtocol r)\<rparr>))"

definition isOnBlockList :: "PoolKey \<Rightarrow> PoolRegistry \<Rightarrow> bool" where
  "isOnBlockList key r \<longleftrightarrow> key \<in> prBlockList r"

definition pr_addPool :: "PoolKey \<Rightarrow> ProtocolID \<Rightarrow> PoolRegistry \<Rightarrow> pool_error + (uint64 \<times> PoolRegistry)" where
  "pr_addPool key pID r =
     (if isOnBlockList key r then Inl ErrPoolBlocked
      else case prKeyToIndex r key of
        Some index \<Rightarrow> Inr (prID r ! index, r)
      | None \<Rightarrow>
          bind_result (registerProtocol pID r) (\<lambda>(internalProtoID, r1).
            let poolID = prNextID r1; newIndex = length (prID r1) in
            Inr (poolID, r1\<lparr>prNextID := prNextID r1 + 1,
              prID := prID r1 @ [poolID],
              prKey := prKey r1 @ [key],
              prProtocol := prProtocol r1 @ [internalProtoID],
              prIdToIndex := (prIdToIndex r1)(poolID \<mapsto> newIndex),
              prKeyToIndex := (prKeyToIndex r1)(key \<mapsto> newIndex)\<rparr>)))"

definition pr_deletePool :: "uint64 \<Rightarrow> PoolRegistry \<Rightarrow> pool_error + PoolRegistry" where
  "pr_deletePool poolID r =
     (case prIdToIndex r poolID of
        None \<Rightarrow> Inl ErrPoolNotFound
      | Some indexToDelete \<Rightarrow>
          let keyToDelete = prKey r ! indexToDelete;
              lastIndex = length (prID r) - 1;
              lastElementKey = prKey r ! lastIndex;
              lastElementID = prID r ! lastIndex
          in Inr (r\<lparr>prID := swap_pop indexToDelete lastIndex (prID r),
               prKey := swap_pop indexToDelete lastIndex (prKey r),
               prProtocol := swap_pop indexToDelete lastIndex (prProtocol r),
               prIdToIndex := ((prIdToIndex r)(lastElementID \<mapsto> indexToDelete))(poolID := None),
               prKeyToIndex := ((prKeyToIndex r)(lastElementKey \<mapsto> indexToDelete))(keyToDelete := None)\<rparr>))"

definition pr_addToBlockList :: "PoolKey \<Rightarrow> PoolRegistry \<Rightarrow> PoolRegistry" where
  "pr_addToBlockList key r = r\<lparr>prBlockList := insert key (prBlockList r)\<rparr>"

definition pr_removeFromBlockList :: "PoolKey \<Rightarrow> PoolRegistry \<Rightarrow> PoolRegistry" where
  "pr_removeFromBlockList key r = r\<lparr>prBlockList := prBlockList r - {key}\<rparr>"

definition poolViewAt :: "PoolRegistry \<Rightarrow> nat \<Rightarrow> PoolView" where
  "poolViewAt r i = \<lparr>pvID = prID r ! i, pvKey = prKey r ! i, pvProtocol = prProtocol r ! i\<rparr>"

definition pr_pools :: "PoolRegistry \<Rightarrow> PoolView list" where
  "pr_pools r = map (poolViewAt r) [0..<length (prID r)]"

definition pr_view :: "PoolRegistry \<Rightarrow> PoolRegistryView" where
  "pr_view r = \<lparr>prvPools = pr_pools r, prvProtocols = prInternalToProtocol r\<rparr>"

definition pr_getID :: "PoolKey \<Rightarrow> PoolRegistry \<Rightarrow> pool_error + uint64" where
  "pr_getID key r = (case prKeyToIndex r key of None \<Rightarrow> Inl ErrPoolNotFound | Some index \<Rightarrow> Inr (prID r ! index))"

definition pr_getKey :: "uint64 \<Rightarrow> PoolRegistry \<Rightarrow> pool_error + PoolKey" where
  "pr_getKey i r = (case prIdToIndex r i of None \<Rightarrow> Inl ErrPoolNotFound | Some index \<Rightarrow> Inr (prKey r ! index))"

definition pr_getProtocolID :: "uint64 \<Rightarrow> PoolRegistry \<Rightarrow> pool_error + ProtocolID" where
  "pr_getProtocolID poolID r =
     (case prIdToIndex r poolID of
        None \<Rightarrow> Inl ErrPoolNotFound
      | Some index \<Rightarrow> option_result ErrProtocolMappingNotFound (map_of (prInternalToProtocol r) (prProtocol r ! index)))"

definition pr_getByID :: "uint64 \<Rightarrow> PoolRegistry \<Rightarrow> pool_error + PoolView" where
  "pr_getByID i r = (case prIdToIndex r i of None \<Rightarrow> Inl ErrPoolNotFound | Some index \<Rightarrow> Inr (poolViewAt r index))"

section \<open>Invariant\<close>

text \<open>
  The columns are aligned and both index maps are inverse to their columns; the two protocol maps are
  inverse to each other and hold exactly the internal identifiers below \<^verbatim>\<open>nextProto\<close>; every pool's
  protocol is known; identifiers are below the counter.
\<close>

definition pool_layout :: "PoolRegistry \<Rightarrow> bool" where
  "pool_layout r \<longleftrightarrow> length (prKey r) = length (prID r) \<and> length (prProtocol r) = length (prID r) \<and>
     index_inv (prID r) (prIdToIndex r) \<and> index_inv (prKey r) (prKeyToIndex r)"

definition proto_inv :: "PoolRegistry \<Rightarrow> bool" where
  "proto_inv r \<longleftrightarrow> distinct (map fst (prInternalToProtocol r)) \<and>
     (\<forall>p i. prProtocolToInternal r p = Some i \<longleftrightarrow> map_of (prInternalToProtocol r) i = Some p) \<and>
     (\<forall>i. map_of (prInternalToProtocol r) i \<noteq> None \<longrightarrow> i < prNextProto r)"

definition pool_inv :: "PoolRegistry \<Rightarrow> bool" where
  "pool_inv r \<longleftrightarrow> pool_layout r \<and> proto_inv r \<and>
     (\<forall>i \<in> set (prProtocol r). map_of (prInternalToProtocol r) i \<noteq> None) \<and>
     prNextID r \<noteq> 0 \<and> (\<forall>i \<in> set (prID r). i \<noteq> 0 \<and> i < prNextID r)"

lemma pool_layoutD:
  assumes "pool_layout r"
  shows "length (prKey r) = length (prID r)" "length (prProtocol r) = length (prID r)"
    "index_inv (prID r) (prIdToIndex r)" "index_inv (prKey r) (prKeyToIndex r)"
  using assms by (simp_all add: pool_layout_def)

lemma pool_invD:
  assumes "pool_inv r"
  shows "pool_layout r" "proto_inv r" "i \<in> set (prProtocol r) \<Longrightarrow> map_of (prInternalToProtocol r) i \<noteq> None"
    "prNextID r \<noteq> 0" "k \<in> set (prID r) \<Longrightarrow> k \<noteq> 0 \<and> k < prNextID r"
  using assms by (auto simp: pool_inv_def)

lemma pool_inv_new: "pool_inv NewPoolRegistry"
  by (simp add: pool_inv_def pool_layout_def proto_inv_def NewPoolRegistry_def)

lemma length_pr_pools [simp]: "length (pr_pools r) = length (prID r)"
  by (simp add: pr_pools_def)

lemma pr_pools_ids: "pool_layout r \<Longrightarrow> map pvID (pr_pools r) = prID r"
  by (rule nth_equalityI) (simp_all add: pr_pools_def poolViewAt_def)

lemma pr_pools_keys: "pool_layout r \<Longrightarrow> map pvKey (pr_pools r) = prKey r"
  by (rule nth_equalityI) (simp_all add: pr_pools_def poolViewAt_def pool_layoutD)

lemma pr_pools_protocols: "pool_layout r \<Longrightarrow> map pvProtocol (pr_pools r) = prProtocol r"
  by (rule nth_equalityI) (simp_all add: pr_pools_def poolViewAt_def pool_layoutD)

lemma pr_pools_index: "pool_layout r \<Longrightarrow> index_inv (map pvID (pr_pools r)) (prIdToIndex r)"
  by (simp add: pr_pools_ids pool_layoutD)

lemma pr_pools_key_index: "pool_layout r \<Longrightarrow> index_inv (map pvKey (pr_pools r)) (prKeyToIndex r)"
  by (simp add: pr_pools_keys pool_layoutD)

lemma nth_pr_pools [simp]: "i < length (prID r) \<Longrightarrow> pr_pools r ! i = poolViewAt r i"
  by (simp add: pr_pools_def)

section \<open>Effect of each operation\<close>

lemma registerProtocol_spec:
  assumes "proto_inv r" and "registerProtocol pID r = Inr (i, r')"
  shows "proto_inv r'" and "map_of (prInternalToProtocol r') i = Some pID"
    and "map_of (prInternalToProtocol r) j = Some p \<Longrightarrow> map_of (prInternalToProtocol r') j = Some p"
    and "pr_pools r' = pr_pools r" and "pool_layout r \<Longrightarrow> pool_layout r'"
    and "prNextID r' = prNextID r" "prID r' = prID r" "prKey r' = prKey r" "prProtocol r' = prProtocol r"
    "prIdToIndex r' = prIdToIndex r" "prKeyToIndex r' = prKeyToIndex r" "prBlockList r' = prBlockList r"
proof -
  have d: "distinct (map fst (prInternalToProtocol r))"
    and bi: "\<And>p i. prProtocolToInternal r p = Some i \<longleftrightarrow> map_of (prInternalToProtocol r) i = Some p"
    and lt: "\<And>i. map_of (prInternalToProtocol r) i \<noteq> None \<Longrightarrow> i < prNextProto r"
    using assms(1) by (auto simp: proto_inv_def)
  have "proto_inv r' \<and> map_of (prInternalToProtocol r') i = Some pID \<and>
      (map_of (prInternalToProtocol r) j = Some p \<longrightarrow> map_of (prInternalToProtocol r') j = Some p)"
  proof (cases "prProtocolToInternal r pID")
    case (Some k)
    then have "r' = r" "i = k" using assms(2) by (simp_all add: registerProtocol_def)
    then show ?thesis using assms(1) Some bi by simp
  next
    case None
    with assms(2) have np: "prNextProto r \<noteq> 65535" and i: "i = prNextProto r"
      and r': "r' = r\<lparr>prNextProto := prNextProto r + 1,
              prProtocolToInternal := (prProtocolToInternal r)(pID \<mapsto> prNextProto r),
              prInternalToProtocol := AList.update (prNextProto r) pID (prInternalToProtocol r)\<rparr>"
      by (auto simp: registerProtocol_def Let_def split: if_splits)
    have fresh: "map_of (prInternalToProtocol r) (prNextProto r) = None" using lt by blast
    have nz: "prNextProto r + 1 \<noteq> 0"
    proof
      assume "prNextProto r + 1 = 0"
      then have "prNextProto r = - 1" by (simp add: eq_neg_iff_add_eq_0)
      then show False using np by simp
    qed
    have "prProtocolToInternal r' q = Some k \<longleftrightarrow> map_of (prInternalToProtocol r') k = Some q" for q k
      using bi [of q k] bi [of pID k] None fresh bi [of q "prNextProto r"] by (auto simp: r' update_conv')
    moreover have "k < prNextProto r'" if "map_of (prInternalToProtocol r') k \<noteq> None" for k
      using that lt [of k] word_less_succ [OF nz] word_less_imp_less_succ [OF _ nz]
      by (auto simp: r' update_conv' split: if_splits)
    ultimately have "proto_inv r'" using d by (auto simp: proto_inv_def r' distinct_update)
    then show ?thesis using fresh by (auto simp: r' i update_conv')
  qed
  then show "proto_inv r'" and "map_of (prInternalToProtocol r') i = Some pID"
    and "map_of (prInternalToProtocol r) j = Some p \<Longrightarrow> map_of (prInternalToProtocol r') j = Some p"
    by blast+
  show "prNextID r' = prNextID r" "prID r' = prID r" "prKey r' = prKey r" "prProtocol r' = prProtocol r"
    "prIdToIndex r' = prIdToIndex r" "prKeyToIndex r' = prKeyToIndex r" "prBlockList r' = prBlockList r"
    using assms(2) by (auto simp: registerProtocol_def Let_def split: option.splits if_splits)
  then show "pr_pools r' = pr_pools r" and "pool_layout r \<Longrightarrow> pool_layout r'"
    by (simp_all add: pr_pools_def poolViewAt_def pool_layout_def)
qed

lemma pr_addPool_spec:
  assumes inv: "pool_inv r" and cnt: "prNextID r + 1 \<noteq> 0" and call: "pr_addPool key pID r = Inr (i, r')"
  obtains (known) "r' = r" and "\<not> isOnBlockList key r"
      and "\<exists>v. keyed pvKey (pr_pools r) key = Some v \<and> pvID v = i"
  | (added) p where "\<not> isOnBlockList key r" and "keyed pvKey (pr_pools r) key = None" and "i = prNextID r"
      and "pool_inv r'" and "prNextID r' = prNextID r + 1"
      and "pr_pools r' = pr_pools r @ [\<lparr>pvID = prNextID r, pvKey = key, pvProtocol = p\<rparr>]"
      and "map_of (prInternalToProtocol r') p = Some pID"
      and "\<And>j q. map_of (prInternalToProtocol r) j = Some q \<Longrightarrow> map_of (prInternalToProtocol r') j = Some q"
      and "prBlockList r' = prBlockList r"
proof (cases "prKeyToIndex r key")
  case (Some index)
  note lay = pool_invD(1) [OF inv]
  have "keyed pvKey (pr_pools r) key = Some (pr_pools r ! index)"
    using Some by (simp add: keyed_index [OF pr_pools_key_index [OF lay]])
  moreover have "index < length (prID r)"
    using index_invD [OF pool_layoutD(4) [OF lay] Some] pool_layoutD(1) [OF lay] by simp
  ultimately show thesis
    using call Some known by (auto simp: pr_addPool_def poolViewAt_def split: if_splits)
next
  case None
  note lay = pool_invD(1) [OF inv]
  have nb: "\<not> isOnBlockList key r" using call by (auto simp: pr_addPool_def split: if_splits)
  obtain p r1 where reg: "registerProtocol pID r = Inr (p, r1)"
    using call None nb by (auto simp: pr_addPool_def bind_result_Inr)
  note sp = registerProtocol_spec [OF pool_invD(2) [OF inv] reg]
  have i: "i = prNextID r" and r': "r' = r1\<lparr>prNextID := prNextID r1 + 1, prID := prID r1 @ [prNextID r1],
      prKey := prKey r1 @ [key], prProtocol := prProtocol r1 @ [p],
      prIdToIndex := (prIdToIndex r1)(prNextID r1 \<mapsto> length (prID r1)),
      prKeyToIndex := (prKeyToIndex r1)(key \<mapsto> length (prID r1))\<rparr>"
    using call None nb reg sp(6) by (auto simp: pr_addPool_def Let_def)
  have fresh: "prIdToIndex r (prNextID r) = None"
    using index_inv_None_iff [OF pool_layoutD(3) [OF lay]] pool_invD(5) [OF inv] by (metis less_irrefl)
  have kidx: "index_inv (prKey r @ [key]) ((prKeyToIndex r)(key \<mapsto> length (prID r)))"
    using index_inv_append [OF pool_layoutD(4) [OF lay] None] pool_layoutD(1) [OF lay] by simp
  have lay': "pool_layout r'"
    using pool_layoutD [OF lay] kidx fresh by (simp add: pool_layout_def r' sp(6-11) index_inv_append)
  have "proto_inv r'" using sp(1) by (simp add: proto_inv_def r')
  moreover have "\<forall>j \<in> set (prProtocol r'). map_of (prInternalToProtocol r') j \<noteq> None"
    using sp(2,3,9) pool_invD(3) [OF inv] by (auto simp: r') blast
  moreover have "\<forall>j \<in> set (prID r'). j \<noteq> 0 \<and> j < prNextID r'" "prNextID r' \<noteq> 0"
    using pool_invD(4,5) [OF inv] cnt word_less_succ [OF cnt] word_less_imp_less_succ [OF _ cnt]
    by (auto simp: r' sp)
  ultimately have inv': "pool_inv r'" using lay' by (simp add: pool_inv_def)
  have "pr_pools r' = pr_pools r @ [\<lparr>pvID = prNextID r, pvKey = key, pvProtocol = p\<rparr>]"
    using pool_layoutD(1,2) [OF lay]
    by (intro nth_equalityI) (auto simp: pr_pools_def poolViewAt_def r' sp nth_append less_Suc_eq)
  moreover have "keyed pvKey (pr_pools r) key = None"
    using None by (simp add: keyed_index [OF pr_pools_key_index [OF lay]])
  ultimately show thesis
    using added [OF nb _ i inv', of p] sp(2,3,6,12) by (simp add: r')
qed

lemma pr_addPool_errors:
  "pr_addPool key pID r = Inl e \<longleftrightarrow>
     (isOnBlockList key r \<and> e = ErrPoolBlocked) \<or>
     (\<not> isOnBlockList key r \<and> prKeyToIndex r key = None \<and> prProtocolToInternal r pID = None \<and>
      prNextProto r = 65535 \<and> e = ErrProtocolOverflow)"
  by (auto simp: pr_addPool_def registerProtocol_def Let_def bind_result_Inl split: option.splits if_splits)

lemma pr_deletePool_spec:
  assumes inv: "pool_inv r" and k: "prIdToIndex r poolID = Some i"
  obtains r' where "pr_deletePool poolID r = Inr r'" and "pool_inv r'" and "prNextID r' = prNextID r"
    and "pr_pools r' = swap_pop i (length (pr_pools r) - 1) (pr_pools r)"
    and "prInternalToProtocol r' = prInternalToProtocol r" and "prBlockList r' = prBlockList r"
proof -
  note lay = pool_invD(1) [OF inv]
  note t = pool_layoutD [OF lay]
  obtain r' where del: "pr_deletePool poolID r = Inr r'" using k by (simp add: pr_deletePool_def Let_def)
  define l where "l = length (prID r) - 1"
  have r': "r' = r\<lparr>prID := swap_pop i l (prID r), prKey := swap_pop i l (prKey r),
      prProtocol := swap_pop i l (prProtocol r), prIdToIndex := (prIdToIndex r)(prID r ! l \<mapsto> i, poolID := None),
      prKeyToIndex := (prKeyToIndex r)(prKey r ! l \<mapsto> i, prKey r ! i := None)\<rparr>"
    using del k by (simp add: pr_deletePool_def Let_def l_def [symmetric] del: One_nat_def)
  have ik: "i < length (prID r)" using index_invD [OF t(3) k] by simp
  then have l: "l < length (prID r)" "i \<le> l" unfolding l_def by linarith+
  have ki: "prKeyToIndex r (prKey r ! i) = Some i" using index_inv_nth [OF t(4)] ik t(1) by simp
  have lk: "l = length (prKey r) - 1" using t(1) l_def by simp
  have "pool_layout r'"
    using t index_inv_swap_pop [OF t(3) k l_def] index_inv_swap_pop [OF t(4) ki lk] l
    by (simp add: pool_layout_def r')
  moreover have "set (swap_pop i l (prID r)) \<subseteq> set (prID r)"
    using set_swap_pop [OF index_inv_distinct [OF t(3)] ik l_def] by auto
  moreover have "set (swap_pop i l (prProtocol r)) \<subseteq> set (prProtocol r)"
    using l t(2) by (simp add: set_swap_pop_subset)
  ultimately have "pool_inv r'"
    using inv unfolding pool_inv_def by (auto simp: r' proto_inv_def)
  moreover have "length (pr_pools r) - 1 = l" by (simp add: l_def)
  then have "pr_pools r' = swap_pop i (length (pr_pools r) - 1) (pr_pools r)"
    using t(1,2) l by (intro nth_equalityI) (auto simp: r' pr_pools_def poolViewAt_def)
  ultimately show thesis using that del by (simp add: r')
qed

section \<open>The registry is a store of views\<close>

interpretation pools: id_store pool_inv pr_pools pvID pr_getByID pr_deletePool ErrPoolNotFound
proof unfold_locales
  fix r :: PoolRegistry and k
  assume inv: "pool_inv r"
  note idx = pr_pools_index [OF pool_invD(1) [OF inv]]
  show "distinct (map pvID (pr_pools r))" by (rule index_inv_distinct [OF idx])
  show "pr_getByID k r = option_result ErrPoolNotFound (keyed pvID (pr_pools r) k)"
  proof (cases "prIdToIndex r k")
    case None
    then show ?thesis by (simp add: pr_getByID_def keyed_index [OF idx])
  next
    case (Some i)
    then show ?thesis
      using index_invD [OF pool_layoutD(3) [OF pool_invD(1) [OF inv]] Some]
      by (simp add: pr_getByID_def keyed_index [OF idx])
  qed
  show "pr_deletePool k r = Inl ErrPoolNotFound" if "keyed pvID (pr_pools r) k = None"
    using that by (simp add: pr_deletePool_def keyed_index [OF idx])
  show "\<exists>r'. pr_deletePool k r = Inr r' \<and> pool_inv r' \<and> keyed pvID (pr_pools r') = (keyed pvID (pr_pools r))(k := None)"
    if v: "keyed pvID (pr_pools r) k = Some v" for v
  proof -
    obtain i where i: "prIdToIndex r k = Some i" using v by (auto simp: keyed_index [OF idx])
    show ?thesis by (rule pr_deletePool_spec [OF inv i]) (auto simp: keyed_swap_pop [OF idx i])
  qed
qed

lemma pr_getID_keyed:
  assumes inv: "pool_inv r"
  shows "pr_getID key r = option_result ErrPoolNotFound (map_option pvID (keyed pvKey (pr_pools r) key))"
proof -
  note lay = pool_invD(1) [OF inv]
  show ?thesis
  proof (cases "prKeyToIndex r key")
    case None
    then show ?thesis by (simp add: pr_getID_def keyed_index [OF pr_pools_key_index [OF lay]])
  next
    case (Some i)
    then show ?thesis
      using index_invD [OF pool_layoutD(4) [OF lay] Some] pool_layoutD(1) [OF lay]
      by (simp add: pr_getID_def keyed_index [OF pr_pools_key_index [OF lay]] poolViewAt_def)
  qed
qed

lemma pr_getters_keyed:
  assumes inv: "pool_inv r"
  shows "pr_getKey i r = option_result ErrPoolNotFound (map_option pvKey (keyed pvID (pr_pools r) i))"
    and "pr_getProtocolID i r = option_result ErrPoolNotFound
      (map_option (\<lambda>v. the (map_of (prInternalToProtocol r) (pvProtocol v))) (keyed pvID (pr_pools r) i))"
proof -
  note lay = pool_invD(1) [OF inv]
  note idx = pr_pools_index [OF lay]
  have "pr_getKey i r = option_result ErrPoolNotFound (map_option pvKey (keyed pvID (pr_pools r) i)) \<and>
     pr_getProtocolID i r = option_result ErrPoolNotFound
      (map_option (\<lambda>v. the (map_of (prInternalToProtocol r) (pvProtocol v))) (keyed pvID (pr_pools r) i))"
  proof (cases "prIdToIndex r i")
    case None
    then show ?thesis by (simp add: pr_getKey_def pr_getProtocolID_def keyed_index [OF idx])
  next
    case (Some j)
    have j: "j < length (prID r)" using index_invD [OF pool_layoutD(3) [OF lay] Some] by simp
    then obtain p where "map_of (prInternalToProtocol r) (prProtocol r ! j) = Some p"
      using pool_invD(3) [OF inv, of "prProtocol r ! j"] pool_layoutD(2) [OF lay] by auto
    with Some j show ?thesis
      by (simp add: pr_getKey_def pr_getProtocolID_def keyed_index [OF idx] poolViewAt_def del: map_of_eq_Some_iff)
  qed
  then show "pr_getKey i r = option_result ErrPoolNotFound (map_option pvKey (keyed pvID (pr_pools r) i))"
    and "pr_getProtocolID i r = option_result ErrPoolNotFound
      (map_option (\<lambda>v. the (map_of (prInternalToProtocol r) (pvProtocol v))) (keyed pvID (pr_pools r) i))"
    by blast+
qed

section \<open>Round trips of the keys\<close>

lemma hex_value_digit: "n < 16 \<Longrightarrow> hex_value (hex_digit n) = Some n"
proof -
  have "\<forall>n \<in> set [0..<16]. hex_value (hex_digit n) = Some n" by code_simp
  then show "n < 16 \<Longrightarrow> ?thesis" by simp
qed

lemma hex_Decode_Encode: "hex_DecodeString (hex_EncodeToString bs) = Inr bs"
proof (induction bs)
  case (Cons b bs)
  have "unat b < 2 ^ 8" using unsigned_less [of b] by simp
  then have "unat b div 16 < 16" by simp
  moreover have "unat b div 16 * 16 + unat b mod 16 = unat b" by simp
  ultimately show ?case
    using Cons by (simp add: hex_value_digit del: hex_value.simps)
qed simp

text \<open>
  Pool keys survive their encodings: the JSON text of a 32-byte key decodes to the key, an address
  packed into a key is recovered from it, and a key whose first twelve bytes are not all zero is
  refused as an address.
\<close>

theorem pool_key_roundtrip:
  assumes "is_key k" and "is_address a"
  shows "UnmarshalPoolKey (PoolKey_String k) = Inr k \<and>
     UnmarshalPoolKey (hex_EncodeToString k) = Inr k \<and>
     is_key (AddressToPoolKey a) \<and> PoolKey_ToAddress (AddressToPoolKey a) = Inr a \<and>
     (\<forall>b. PoolKey_ToAddress k = Inr b \<longrightarrow> is_address b \<and> AddressToPoolKey b = k) \<and>
     (PoolKey_ToAddress k = Inl ErrNotAddress \<longleftrightarrow> take 12 k \<noteq> replicate 12 0)"
proof -
  have x: "hex_digit n \<noteq> CHR ''x''" if "n < 16" for n
  proof
    assume "hex_digit n = CHR ''x''"
    with hex_value_digit [OF that] show False by (simp add: Let_def of_char_def)
  qed
  have t: "TrimPrefix0x (hex_EncodeToString k) = hex_EncodeToString k"
  proof (cases k)
    case (Cons b bs)
    have "unat b mod 16 < 16" by simp
    from x [OF this] show ?thesis by (simp add: Cons TrimPrefix0x_def)
  qed (simp add: TrimPrefix0x_def)
  have z: "(\<exists>b \<in> set (take 12 k). b \<noteq> 0) \<longleftrightarrow> take 12 k \<noteq> replicate 12 0"
  proof -
    have "length (take 12 k) = 12" using assms(1) by (simp add: is_key_def)
    then show ?thesis using replicate_eqI [of "take 12 k" 12 0] by (metis in_set_replicate)
  qed
  have "AddressToPoolKey (drop 12 k) = k" if "take 12 k = replicate 12 0"
    using append_take_drop_id [of 12 k] that by (simp add: AddressToPoolKey_def)
  then have "\<forall>b. PoolKey_ToAddress k = Inr b \<longrightarrow> is_address b \<and> AddressToPoolKey b = k"
    using assms(1) z by (auto simp: PoolKey_ToAddress_def is_key_def is_address_def simp del: take_replicate split: if_splits)
  moreover have "UnmarshalPoolKey (PoolKey_String k) = Inr k" "UnmarshalPoolKey (hex_EncodeToString k) = Inr k"
    using assms(1) by (simp_all add: UnmarshalPoolKey_def t hex_Decode_Encode is_key_def)
      (simp add: PoolKey_String_def TrimPrefix0x_def hex_Decode_Encode)
  moreover have "is_key (AddressToPoolKey a)" "PoolKey_ToAddress (AddressToPoolKey a) = Inr a"
    using assms(2) by (simp_all add: is_key_def is_address_def AddressToPoolKey_def PoolKey_ToAddress_def)
  moreover have "PoolKey_ToAddress k = Inl ErrNotAddress \<longleftrightarrow> take 12 k \<noteq> replicate 12 0"
    unfolding PoolKey_ToAddress_def z by simp
  ultimately show ?thesis by blast
qed

theorem pool_key_roundtrip_witness:
  "UnmarshalPoolKey (PoolKey_String (replicate 32 171)) = Inr (replicate 32 171) \<and>
   PoolKey_ToAddress (AddressToPoolKey (replicate 20 5)) = Inr (replicate 20 5)"
  using pool_key_roundtrip [of "replicate 32 171" "replicate 20 5"] by (simp add: is_key_def is_address_def)

text \<open>
  A key written without its leading zeros is not recovered: the decoded bytes go to the left end of
  the array.
\<close>

lemma unmarshal_pads_right: "UnmarshalPoolKey ''0x01'' = Inr (1 # replicate 31 0)"
  by (simp add: UnmarshalPoolKey_def TrimPrefix0x_def Let_def of_char_def)

end
