(* ===== verification/Pool_System.thy ===== *)
theory Pool_System
  imports Pool_Registry
begin

text \<open>
  The concurrency-safe pool system of \<^verbatim>\<open>pool_system.go\<close> with its cached view, and the differ and
  patcher of \<^verbatim>\<open>pool_registry_differ.go\<close> and \<^verbatim>\<open>pool_registry_patcher.go\<close>. Writers hold the mutex for
  their whole body, so executions are sequences of the operations; \<open>pool_step\<close> is one of them. A
  mismatch of slice lengths, where Go panics, is \<open>None\<close>. A nil slice is the empty list.
\<close>

section \<open>\<^verbatim>\<open>pool_system.go\<close>\<close>

datatype pool_sys_error = PoolErr PoolKey pool_error | PoolIDErr uint64 pool_error

record PoolSystem =
  psRegistry :: PoolRegistry
  psCachedView :: PoolRegistryView

definition NewPoolSystem :: PoolSystem where
  "NewPoolSystem = \<lparr>psRegistry = NewPoolRegistry, psCachedView = pr_view NewPoolRegistry\<rparr>"

definition NewPoolSystemFromView ::
  "(uint16, ProtocolID) range_order \<Rightarrow> PoolRegistryView \<Rightarrow> pool_error + PoolSystem" where
  "NewPoolSystemFromView ord view =
     bind_result (NewPoolRegistryFromView ord view)
       (\<lambda>registry. Inr \<lparr>psRegistry = registry, psCachedView = pr_view registry\<rparr>)"

definition ps_updateCachedView :: "PoolSystem \<Rightarrow> PoolSystem" where
  "ps_updateCachedView s = s\<lparr>psCachedView := pr_view (psRegistry s)\<rparr>"

definition ps_AddPool :: "PoolKey \<Rightarrow> ProtocolID \<Rightarrow> PoolSystem \<Rightarrow> (pool_error + uint64) \<times> PoolSystem" where
  "ps_AddPool key pID s =
     (case pr_addPool key pID (psRegistry s) of
        Inl e \<Rightarrow> (Inl e, s)
      | Inr (i, registry) \<Rightarrow> (Inr i, ps_updateCachedView (s\<lparr>psRegistry := registry\<rparr>)))"

text \<open>
  The loop of \<^verbatim>\<open>AddPools\<close>: identifiers (0 for a failed one), errors, \<^verbatim>\<open>changed\<close>, \<^verbatim>\<open>hasErrors\<close> and the
  registry after the loop.
\<close>

fun addPools_loop ::
  "(PoolKey \<times> ProtocolID) list \<Rightarrow> PoolRegistry \<Rightarrow>
   uint64 list \<times> pool_sys_error option list \<times> bool \<times> bool \<times> PoolRegistry" where
  "addPools_loop [] r = ([], [], False, False, r)"
| "addPools_loop ((key, pID) # rest) r =
     (case pr_addPool key pID r of
        Inl e \<Rightarrow> (let (ids, errs, changed, hasErrors, r') = addPools_loop rest r
                  in (0 # ids, Some (PoolErr key e) # errs, changed, True, r'))
      | Inr (i, r1) \<Rightarrow> (let (ids, errs, changed, hasErrors, r') = addPools_loop rest r1
                  in (i # ids, None # errs, True, hasErrors, r')))"

definition ps_AddPools ::
  "PoolKey list \<Rightarrow> ProtocolID list \<Rightarrow> PoolSystem \<Rightarrow>
   ((uint64 list \<times> pool_sys_error option list) \<times> PoolSystem) option" where
  "ps_AddPools keys pIDs s =
     (if length keys \<noteq> length pIDs then None
      else if length keys = 0 then Some (([], []), s)
      else let (ids, errs, changed, hasErrors, r) = addPools_loop (zip keys pIDs) (psRegistry s);
               s1 = s\<lparr>psRegistry := r\<rparr>;
               s2 = (if changed then ps_updateCachedView s1 else s1)
           in Some ((ids, if \<not> hasErrors then [] else errs), s2))"

definition ps_DeletePool :: "uint64 \<Rightarrow> PoolSystem \<Rightarrow> (pool_error + unit) \<times> PoolSystem" where
  "ps_DeletePool poolID s =
     (case pr_deletePool poolID (psRegistry s) of
        Inl e \<Rightarrow> (Inl e, s)
      | Inr registry \<Rightarrow> (Inr (), ps_updateCachedView (s\<lparr>psRegistry := registry\<rparr>)))"

fun deletePools_loop ::
  "uint64 list \<Rightarrow> PoolRegistry \<Rightarrow> pool_sys_error option list \<times> bool \<times> bool \<times> PoolRegistry" where
  "deletePools_loop [] r = ([], False, False, r)"
| "deletePools_loop (poolID # rest) r =
     (case pr_deletePool poolID r of
        Inl e \<Rightarrow> (let (errs, changed, hasError, r') = deletePools_loop rest r
                  in (Some (PoolIDErr poolID e) # errs, changed, True, r'))
      | Inr r1 \<Rightarrow> (let (errs, changed, hasError, r') = deletePools_loop rest r1
                  in (None # errs, True, hasError, r')))"

definition ps_DeletePools :: "uint64 list \<Rightarrow> PoolSystem \<Rightarrow> pool_sys_error option list \<times> PoolSystem" where
  "ps_DeletePools poolIDs s =
     (if length poolIDs = 0 then ([], s)
      else let (errs, changed, hasError, r) = deletePools_loop poolIDs (psRegistry s);
               s1 = s\<lparr>psRegistry := r\<rparr>;
               s2 = (if changed then ps_updateCachedView s1 else s1)
           in (if hasError then errs else [], s2))"

definition ps_AddToBlockList :: "PoolKey \<Rightarrow> PoolSystem \<Rightarrow> PoolSystem" where
  "ps_AddToBlockList key s = ps_updateCachedView (s\<lparr>psRegistry := pr_addToBlockList key (psRegistry s)\<rparr>)"

definition ps_AddManyToBlockList :: "PoolKey list \<Rightarrow> PoolSystem \<Rightarrow> PoolSystem" where
  "ps_AddManyToBlockList keys s =
     (if length keys = 0 then s
      else ps_updateCachedView (s\<lparr>psRegistry := foldl (\<lambda>r key. pr_addToBlockList key r) (psRegistry s) keys\<rparr>))"

definition ps_RemoveFromBlockList :: "PoolKey \<Rightarrow> PoolSystem \<Rightarrow> PoolSystem" where
  "ps_RemoveFromBlockList key s = ps_updateCachedView (s\<lparr>psRegistry := pr_removeFromBlockList key (psRegistry s)\<rparr>)"

definition ps_RemoveManyFromBlockList :: "PoolKey list \<Rightarrow> PoolSystem \<Rightarrow> PoolSystem" where
  "ps_RemoveManyFromBlockList keys s =
     (if length keys = 0 then s
      else ps_updateCachedView (s\<lparr>psRegistry := foldl (\<lambda>r key. pr_removeFromBlockList key r) (psRegistry s) keys\<rparr>))"

definition ps_IsOnBlockList :: "PoolKey \<Rightarrow> PoolSystem \<Rightarrow> bool" where
  "ps_IsOnBlockList key s \<longleftrightarrow> isOnBlockList key (psRegistry s)"

definition ps_View :: "PoolSystem \<Rightarrow> PoolRegistryView" where
  "ps_View s = \<lparr>prvPools = prvPools (psCachedView s), prvProtocols = prvProtocols (psCachedView s)\<rparr>"

definition ps_GetID :: "PoolKey \<Rightarrow> PoolSystem \<Rightarrow> pool_error + uint64" where
  "ps_GetID key s = pr_getID key (psRegistry s)"

definition ps_GetKey :: "uint64 \<Rightarrow> PoolSystem \<Rightarrow> pool_error + PoolKey" where
  "ps_GetKey i s = pr_getKey i (psRegistry s)"

definition ps_GetProtocolID :: "uint64 \<Rightarrow> PoolSystem \<Rightarrow> pool_error + ProtocolID" where
  "ps_GetProtocolID i s = pr_getProtocolID i (psRegistry s)"

definition ps_GetByID :: "uint64 \<Rightarrow> PoolSystem \<Rightarrow> pool_error + PoolView" where
  "ps_GetByID i s =
     (case List.find (\<lambda>pool. pvID pool = i) (prvPools (psCachedView s)) of
        Some pool \<Rightarrow> Inr pool
      | None \<Rightarrow> pr_getByID i (psRegistry s))"

definition ps_AddPoolFromAddress :: "address \<Rightarrow> ProtocolID \<Rightarrow> PoolSystem \<Rightarrow> (pool_error + uint64) \<times> PoolSystem" where
  "ps_AddPoolFromAddress addr pID s = ps_AddPool (AddressToPoolKey addr) pID s"

definition ps_GetIDFromAddress :: "address \<Rightarrow> PoolSystem \<Rightarrow> pool_error + uint64" where
  "ps_GetIDFromAddress addr s = ps_GetID (AddressToPoolKey addr) s"

section \<open>\<^verbatim>\<open>pool_registry_differ.go\<close> and \<^verbatim>\<open>pool_registry_patcher.go\<close>\<close>

record PoolRegistryDiff =
  pdPoolAdditions :: "PoolView list"
  pdPoolDeletions :: "uint64 list"
  pdProtocolAdditions :: "(uint16, ProtocolID) gomap"
  pdProtocolDeletions :: "uint16 list"

definition pool_IsEmpty :: "PoolRegistryDiff \<Rightarrow> bool" where
  "pool_IsEmpty d \<longleftrightarrow> length (pdPoolAdditions d) = 0 \<and> length (pdPoolDeletions d) = 0 \<and>
     length (pdProtocolAdditions d) = 0 \<and> length (pdProtocolDeletions d) = 0"

definition diffPools ::
  "(uint64, PoolView) range_order \<Rightarrow> (uint64, PoolView) range_order \<Rightarrow>
   PoolView list \<Rightarrow> PoolView list \<Rightarrow> PoolView list \<times> uint64 list" where
  "diffPools ord_new ord_old old new =
     (let oldPoolsMap = mapByID pvID old; newPoolsMap = mapByID pvID new in
      (diff_additions (ord_new newPoolsMap) oldPoolsMap, diff_deletions (ord_old oldPoolsMap) newPoolsMap))"

definition diffProtocols ::
  "(uint16, ProtocolID) range_order \<Rightarrow> (uint16, ProtocolID) range_order \<Rightarrow>
   (uint16, ProtocolID) gomap \<Rightarrow> (uint16, ProtocolID) gomap \<Rightarrow> (uint16, ProtocolID) gomap \<times> uint16 list" where
  "diffProtocols ord_new ord_old old new =
     (filter (\<lambda>(i, name). map_of old i \<noteq> Some name) (ord_new new),
      map fst (filter (\<lambda>(i, name). map_of new i = None) (ord_old old)))"

definition pool_Differ ::
  "(uint64, PoolView) range_order \<Rightarrow> (uint64, PoolView) range_order \<Rightarrow>
   (uint16, ProtocolID) range_order \<Rightarrow> (uint16, ProtocolID) range_order \<Rightarrow>
   PoolRegistryView \<Rightarrow> PoolRegistryView \<Rightarrow> PoolRegistryDiff" where
  "pool_Differ ord_new ord_old pord_new pord_old old new =
     (let (poolAdditions, poolDeletions) = diffPools ord_new ord_old (prvPools old) (prvPools new);
          (protocolAdditions, protocolDeletions) = diffProtocols pord_new pord_old (prvProtocols old) (prvProtocols new)
      in \<lparr>pdPoolAdditions = poolAdditions, pdPoolDeletions = poolDeletions,
          pdProtocolAdditions = protocolAdditions, pdProtocolDeletions = protocolDeletions\<rparr>)"

definition patchPools ::
  "(uint64, PoolView) range_order \<Rightarrow> PoolView list \<Rightarrow> PoolView list \<times> uint64 list \<Rightarrow> PoolView list" where
  "patchPools ord prev d = map snd (ord (patch_map pvID (\<lambda>pool. pool) prev (snd d) [] (fst d)))"

definition patchProtocols ::
  "(uint16, ProtocolID) range_order \<Rightarrow> (uint16, ProtocolID) gomap \<Rightarrow>
   (uint16, ProtocolID) gomap \<times> uint16 list \<Rightarrow> (uint16, ProtocolID) gomap" where
  "patchProtocols ord prev d =
     foldl (\<lambda>m (i, name). AList.update i name m) (foldl (\<lambda>m i. AList.delete i m) prev (snd d)) (ord (fst d))"

definition pool_Patcher ::
  "(uint64, PoolView) range_order \<Rightarrow> (uint16, ProtocolID) range_order \<Rightarrow>
   PoolRegistryView \<Rightarrow> PoolRegistryDiff \<Rightarrow> PoolRegistryView" where
  "pool_Patcher ord pord prevState diff =
     \<lparr>prvPools = patchPools ord (prvPools prevState) (pdPoolAdditions diff, pdPoolDeletions diff),
      prvProtocols = patchProtocols pord (prvProtocols prevState) (pdProtocolAdditions diff, pdProtocolDeletions diff)\<rparr>"

interpretation pool_diff: diff_patch pvID "\<lambda>_ _. False" diffPools patchPools fst "\<lambda>_. []" snd
proof unfold_locales
  fix o3 :: "(uint64, PoolView) range_order" and prev d
  assume o3: "range_order o3"
  show "distinct (map pvID (patchPools o3 prev d))"
    unfolding patchPools_def by (rule patch_range(1) [OF o3])
  show "distinct (map pvID prev) \<Longrightarrow> keyed pvID (patchPools o3 prev d) =
      ((keyed pvID prev |` (- set (snd d))) ++ keyed pvID (rev [])) ++ keyed pvID (rev (fst d))"
    unfolding patchPools_def by (rule patch_range(2) [OF o3])
qed (simp_all add: diffPools_def Let_def distinct_diff set_diff_additions set_diff_deletions)

lemma map_of_foldl_pairs:
  "map_of (foldl (\<lambda>m (i, v). AList.update i v m) m es) = map_of m ++ map_of (rev es)"
proof (induction es arbitrary: m)
  case (Cons e es)
  obtain i v where e: "e = (i, v)" by (cases e)
  have "(map_of m)(i \<mapsto> v) ++ map_of (rev es) = map_of m ++ map_of (rev es @ [(i, v)])"
    by (auto simp: fun_eq_iff map_add_def split: option.splits)
  then show ?case using Cons by (simp add: e update_conv' fun_upd_def)
qed simp

lemma merge_option:
  assumes "\<And>p. a = Some p \<longleftrightarrow> n = Some p \<and> q \<noteq> Some p" and "del \<longleftrightarrow> q \<noteq> None \<and> n = None"
  shows "(case a of None \<Rightarrow> if del then None else q | Some x \<Rightarrow> Some x) = n"
proof (cases a)
  case (Some x)
  then show ?thesis using assms(1) [of x] by simp
next
  case None
  then show ?thesis using assms(1) assms(2) by (cases n) auto
qed

lemma patchProtocols_diffProtocols:
  assumes o: "range_order o1" "range_order o2" "range_order o3"
    and d: "distinct (map fst old)" "distinct (map fst new)"
  shows "map_of (patchProtocols o3 old (diffProtocols o1 o2 old new)) = map_of new"
proof
  fix i
  let ?adds = "filter (\<lambda>(i, name). map_of old i \<noteq> Some name) (o1 new)"
  let ?dels = "map fst (filter (\<lambda>(i, name). map_of new i = None) (o2 old))"
  have dn: "distinct (map fst (o1 new))" using o(1) d(2) by (simp add: range_order_distinct)
  then have da: "distinct (map fst ?adds)" by (simp add: distinct_map_filter)
  then have "distinct (map fst (o3 ?adds))" using o(3) by (simp add: range_order_distinct)
  then have "distinct (map fst (rev (o3 ?adds)))" by (simp flip: rev_map)
  then have adds: "map_of (rev (o3 ?adds)) i = Some p \<longleftrightarrow> map_of new i = Some p \<and> map_of old i \<noteq> Some p" for p
    using o d by (auto simp: range_order_set)
  have dels: "i \<in> set ?dels \<longleftrightarrow> map_of old i \<noteq> None \<and> map_of new i = None"
    using o(2) by (force simp: range_order_set map_of_eq_None_iff image_iff)
  define A where "A = map_of (rev (o3 ?adds))"
  define D where "D = set ?dels"
  have A: "A i = Some p \<longleftrightarrow> map_of new i = Some p \<and> map_of old i \<noteq> Some p" for p
    unfolding A_def by (rule adds)
  have D: "i \<in> D \<longleftrightarrow> map_of old i \<noteq> None \<and> map_of new i = None" unfolding D_def by (rule dels)
  have "map_of (patchProtocols o3 old (diffProtocols o1 o2 old new)) = map_of old |` (- D) ++ A"
    unfolding patchProtocols_def diffProtocols_def fst_conv snd_conv map_of_foldl_pairs map_of_foldl_delete A_def D_def ..
  moreover have "(map_of old |` (- D) ++ A) i = map_of new i"
  proof -
    have "(map_of old |` (- D) ++ A) i = (case A i of None \<Rightarrow> if i \<in> D then None else map_of old i | Some x \<Rightarrow> Some x)"
      by (simp add: map_add_def restrict_map_def)
    also have "\<dots> = map_of new i" by (rule merge_option [OF A D])
    finally show ?thesis .
  qed
  ultimately show "map_of (patchProtocols o3 old (diffProtocols o1 o2 old new)) i = map_of new i" by simp
qed

section \<open>The invariant along executions\<close>

text \<open>The cached view is what the registry shows, and the registry satisfies its invariant.\<close>

definition pool_sys_inv :: "PoolSystem \<Rightarrow> bool" where
  "pool_sys_inv s \<longleftrightarrow> pool_inv (psRegistry s) \<and> psCachedView s = pr_view (psRegistry s)"

lemma pool_sys_inv_new: "pool_sys_inv NewPoolSystem"
  by (simp add: pool_sys_inv_def NewPoolSystem_def pool_inv_new)

lemma pool_sys_inv_update: "pool_inv r \<Longrightarrow> pool_sys_inv (ps_updateCachedView (s\<lparr>psRegistry := r\<rparr>))"
  by (simp add: pool_sys_inv_def ps_updateCachedView_def)

lemma ps_updateCachedView_registry [simp]: "psRegistry (ps_updateCachedView s) = psRegistry s"
  by (simp add: ps_updateCachedView_def)

text \<open>
  How a registry may evolve: the counter does not go down, the protocol dictionary only grows, and an
  identifier below the old counter still names the same pool.
\<close>

definition pool_evolves :: "PoolRegistry \<Rightarrow> PoolRegistry \<Rightarrow> bool" where
  "pool_evolves r r' \<longleftrightarrow> prNextID r \<le> prNextID r' \<and>
     (\<forall>i p. map_of (prInternalToProtocol r) i = Some p \<longrightarrow> map_of (prInternalToProtocol r') i = Some p) \<and>
     (\<forall>v \<in> set (pr_pools r'). pvID v < prNextID r \<longrightarrow> v \<in> set (pr_pools r))"

lemma pool_evolves_refl [simp]: "pool_evolves r r"
  by (simp add: pool_evolves_def)

lemma pool_evolves_trans: "pool_evolves a b \<Longrightarrow> pool_evolves b c \<Longrightarrow> pool_evolves a c"
  unfolding pool_evolves_def by (meson order_trans order_less_le_trans)

lemma pr_addPool_preserves:
  assumes "pool_inv r" and "prNextID r + 1 \<noteq> 0" and "pr_addPool key pID r = Inr (i, r')"
  shows "pool_inv r' \<and> pool_evolves r r' \<and> prNextID r' \<le> prNextID r + 1"
proof (rule pr_addPool_spec [OF assms])
  assume "r' = r"
  then show ?thesis using assms(1) word_less_succ [OF assms(2)] by simp
next
  fix p assume a: "pool_inv r'" "prNextID r' = prNextID r + 1"
    "pr_pools r' = pr_pools r @ [\<lparr>pvID = prNextID r, pvKey = key, pvProtocol = p\<rparr>]"
    "\<And>j q. map_of (prInternalToProtocol r) j = Some q \<Longrightarrow> map_of (prInternalToProtocol r') j = Some q"
  then show ?thesis using word_less_succ [OF assms(2)] unfolding pool_evolves_def by auto
qed

lemma pr_deletePool_preserves:
  assumes "pool_inv r" and "pr_deletePool poolID r = Inr r'"
  shows "pool_inv r' \<and> pool_evolves r r'"
proof -
  obtain i where i: "prIdToIndex r poolID = Some i"
    using assms(2) by (auto simp: pr_deletePool_def split: option.splits)
  show ?thesis
  proof (rule pr_deletePool_spec [OF assms(1) i])
    fix r'' assume a: "pr_deletePool poolID r = Inr r''" "pool_inv r''" "prNextID r'' = prNextID r"
      "pr_pools r'' = swap_pop i (length (pr_pools r) - 1) (pr_pools r)"
      "prInternalToProtocol r'' = prInternalToProtocol r"
    have "i < length (prID r)" using index_invD [OF pool_layoutD(3) [OF pool_invD(1) [OF assms(1)]] i] by simp
    then have "set (pr_pools r'') \<subseteq> set (pr_pools r)" unfolding a(4) by (intro set_swap_pop_subset) simp
    with a assms(2) show ?thesis by (auto simp: pool_evolves_def)
  qed
qed

lemma pr_blockList_preserves:
  "pool_inv r \<Longrightarrow> pool_inv (pr_addToBlockList key r) \<and> pool_evolves r (pr_addToBlockList key r)"
  "pool_inv r \<Longrightarrow> pool_inv (pr_removeFromBlockList key r) \<and> pool_evolves r (pr_removeFromBlockList key r)"
  by (auto simp: pool_inv_def pool_layout_def proto_inv_def pr_addToBlockList_def pr_removeFromBlockList_def
      pool_evolves_def pr_pools_def poolViewAt_def)

lemma foldl_preserves:
  assumes "\<And>x r. pool_inv r \<Longrightarrow> pool_inv (f r x) \<and> pool_evolves r (f r x)" and "pool_inv r"
  shows "pool_inv (foldl f r xs) \<and> pool_evolves r (foldl f r xs)"
  using assms(2)
proof (induction xs arbitrary: r)
  case (Cons x xs)
  then show ?case using assms(1) [OF Cons.prems] by (auto intro: pool_evolves_trans)
qed simp

lemma unat_succ_le: "unat (n :: uint64) + Suc k < 2 ^ 64 \<Longrightarrow> n + 1 \<noteq> 0 \<and> unat (n + 1) + k < 2 ^ 64"
proof -
  assume a: "unat n + Suc k < 2 ^ 64"
  have "unat (n + 1) = (unat n + 1) mod 2 ^ 64" by (simp add: unat_word_ariths)
  also have "\<dots> = unat n + 1" using a by simp
  finally have u: "unat (n + 1) = unat n + 1" .
  then show ?thesis using a by (auto simp: unat_eq_zero [symmetric])
qed

lemma addPools_loop_preserves:
  assumes "pool_inv r" and "unat (prNextID r) + length ps < 2 ^ 64"
  shows "case addPools_loop ps r of (ids, errs, changed, hasErrors, r') \<Rightarrow>
     pool_inv r' \<and> pool_evolves r r' \<and> length ids = length ps \<and> length errs = length ps \<and>
     (hasErrors \<longleftrightarrow> (\<exists>e \<in> set errs. e \<noteq> None)) \<and> (\<not> changed \<longrightarrow> r' = r)"
  using assms
proof (induction ps arbitrary: r)
  case (Cons p ps)
  obtain key pID where p: "p = (key, pID)" by (cases p)
  have n: "unat (prNextID r) + Suc (length ps) < 2 ^ 64" using Cons.prems(2) by simp
  show ?case
  proof (cases "pr_addPool key pID r")
    case (Inl e)
    then show ?thesis using Cons.IH [OF Cons.prems(1)] n by (auto simp: p Let_def split: prod.splits)
  next
    case (Inr x)
    obtain i r1 where x: "x = (i, r1)" by (cases x)
    have pr: "pool_inv r1" "pool_evolves r r1" "prNextID r1 \<le> prNextID r + 1"
      using pr_addPool_preserves [OF Cons.prems(1)] unat_succ_le [OF n] Inr x by auto
    have "unat (prNextID r1) + length ps < 2 ^ 64"
      using pr(3) unat_succ_le [OF n] by (simp add: word_le_nat_alt)
    from Cons.IH [OF pr(1) this] show ?thesis
      using Inr x pr(2) by (auto simp: p Let_def split: prod.splits intro: pool_evolves_trans)
  qed
qed simp

lemma deletePools_loop_batch:
  "deletePools_loop ids r = (let (errs, r') = pools.del_batch ids r in
     (map2 (\<lambda>i e. map_option (PoolIDErr i) e) ids errs, \<exists>e \<in> set errs. e = None, \<exists>e \<in> set errs. e \<noteq> None, r'))"
  by (induction ids arbitrary: r) (auto simp: Let_def split: sum.splits prod.splits)

lemma pools_del_batch_evolves: "pool_inv r \<Longrightarrow> pool_evolves r (snd (pools.del_batch ids r))"
proof (induction ids arbitrary: r)
  case (Cons i ids)
  show ?case
  proof (cases "pr_deletePool i r")
    case (Inl e)
    then show ?thesis using Cons by (simp add: Let_def case_prod_beta)
  next
    case (Inr r1)
    then show ?thesis
      using Cons pr_deletePool_preserves [OF Cons.prems Inr]
      by (auto simp: Let_def case_prod_beta intro: pool_evolves_trans)
  qed
qed simp

lemma pools_del_batch_unchanged: "\<forall>e \<in> set (fst (pools.del_batch ids r)). e \<noteq> None \<Longrightarrow> snd (pools.del_batch ids r) = r"
  by (induction ids arbitrary: r) (auto simp: Let_def case_prod_beta split: sum.splits)

lemma ps_DeletePools_state:
  obtains "snd (ps_DeletePools ids s) = s" and "snd (pools.del_batch ids (psRegistry s)) = psRegistry s"
  | "snd (ps_DeletePools ids s) = ps_updateCachedView (s\<lparr>psRegistry := snd (pools.del_batch ids (psRegistry s))\<rparr>)"
proof -
  define changed where "changed = (None \<in> set (fst (pools.del_batch ids (psRegistry s))))"
  have st: "snd (ps_DeletePools ids s) = (if ids = [] \<or> \<not> changed then s\<lparr>psRegistry := snd (pools.del_batch ids (psRegistry s))\<rparr>
      else ps_updateCachedView (s\<lparr>psRegistry := snd (pools.del_batch ids (psRegistry s))\<rparr>))"
    by (simp add: ps_DeletePools_def deletePools_loop_batch Let_def case_prod_beta changed_def [symmetric])
  show thesis
  proof (cases changed)
    case True
    then have "ids \<noteq> []" by (auto simp: changed_def)
    with True show thesis using st that(2) by simp
  next
    case False
    then have "snd (pools.del_batch ids (psRegistry s)) = psRegistry s"
      unfolding changed_def by (metis pools_del_batch_unchanged)
    with False show thesis using st that(1) by simp
  qed
qed

inductive pool_step :: "PoolSystem \<Rightarrow> PoolSystem \<Rightarrow> bool" where
  step_AddPool: "prNextID (psRegistry s) + 1 \<noteq> 0 \<Longrightarrow> pool_step s (snd (ps_AddPool key pID s))"
| step_AddPools: "unat (prNextID (psRegistry s)) + length keys < 2 ^ 64 \<Longrightarrow>
     ps_AddPools keys pIDs s = Some (res, s') \<Longrightarrow> pool_step s s'"
| step_DeletePool: "pool_step s (snd (ps_DeletePool poolID s))"
| step_DeletePools: "pool_step s (snd (ps_DeletePools poolIDs s))"
| step_AddToBlockList: "pool_step s (ps_AddToBlockList key s)"
| step_AddManyToBlockList: "pool_step s (ps_AddManyToBlockList keys s)"
| step_RemoveFromBlockList: "pool_step s (ps_RemoveFromBlockList key s)"
| step_RemoveManyFromBlockList: "pool_step s (ps_RemoveManyFromBlockList keys s)"

lemma pool_step_preserves:
  assumes "pool_step s s'" and "pool_sys_inv s"
  shows "pool_sys_inv s' \<and> pool_evolves (psRegistry s) (psRegistry s')"
  using assms
proof (induction rule: pool_step.induct)
  case (step_AddPool s key pID)
  then have inv: "pool_inv (psRegistry s)" by (simp add: pool_sys_inv_def)
  show ?case
  proof (cases "pr_addPool key pID (psRegistry s)")
    case (Inl e)
    then show ?thesis using step_AddPool by (simp add: ps_AddPool_def)
  next
    case (Inr x)
    obtain i r1 where x: "x = (i, r1)" by (cases x)
    then show ?thesis
      using pr_addPool_preserves [OF inv step_AddPool(1)] Inr by (simp add: ps_AddPool_def pool_sys_inv_update)
  qed
next
  case (step_AddPools s keys pIDs res s')
  then have inv: "pool_inv (psRegistry s)" by (simp add: pool_sys_inv_def)
  have l: "length keys = length pIDs" using step_AddPools(2) by (auto simp: ps_AddPools_def split: if_splits)
  obtain ids errs changed hasErrors r where lp: "addPools_loop (zip keys pIDs) (psRegistry s) = (ids, errs, changed, hasErrors, r)"
    by (metis prod_cases5)
  then have "pool_inv r \<and> pool_evolves (psRegistry s) r \<and> (\<not> changed \<longrightarrow> r = psRegistry s)"
    using addPools_loop_preserves [OF inv, of "zip keys pIDs"] step_AddPools(1) l by simp
  note r = this
  show ?case
  proof (cases "keys = []")
    case True
    then show ?thesis using step_AddPools(2,3) l by (simp add: ps_AddPools_def)
  next
    case False
    then have "pIDs \<noteq> []" using l by auto
    then have s': "s' = (if changed then ps_updateCachedView (s\<lparr>psRegistry := r\<rparr>) else s\<lparr>psRegistry := r\<rparr>)"
      using step_AddPools(2) lp l by (auto simp: ps_AddPools_def Let_def)
    show ?thesis
    proof (cases changed)
      case True
      then show ?thesis using r by (simp add: s' pool_sys_inv_update)
    next
      case False
      then show ?thesis using r step_AddPools(3) by (simp add: s')
    qed
  qed
next
  case (step_DeletePool s poolID)
  then have inv: "pool_inv (psRegistry s)" by (simp add: pool_sys_inv_def)
  show ?case
    using pr_deletePool_preserves [OF inv] step_DeletePool
    by (auto simp: ps_DeletePool_def pool_sys_inv_update split: sum.splits)
next
  case (step_DeletePools s poolIDs)
  then have inv: "pool_inv (psRegistry s)" by (simp add: pool_sys_inv_def)
  show ?case
  proof (cases rule: ps_DeletePools_state [of poolIDs s])
    case 1
    then show ?thesis using step_DeletePools by simp
  next
    case 2
    then show ?thesis
      using pools.del_batch_spec [OF inv, of poolIDs] pools_del_batch_evolves [OF inv, of poolIDs]
      by (simp add: pool_sys_inv_update)
  qed
next
  case (step_AddToBlockList s key)
  then show ?case
    using pr_blockList_preserves(1) by (simp add: ps_AddToBlockList_def pool_sys_inv_update pool_sys_inv_def ps_updateCachedView_def)
next
  case (step_AddManyToBlockList s keys)
  then have inv: "pool_inv (psRegistry s)" by (simp add: pool_sys_inv_def)
  show ?case
    using foldl_preserves [OF pr_blockList_preserves(1) inv, where xs = keys] step_AddManyToBlockList
    by (simp add: ps_AddManyToBlockList_def pool_sys_inv_update)
next
  case (step_RemoveFromBlockList s key)
  then show ?case
    using pr_blockList_preserves(2) by (simp add: ps_RemoveFromBlockList_def pool_sys_inv_update pool_sys_inv_def ps_updateCachedView_def)
next
  case (step_RemoveManyFromBlockList s keys)
  then have inv: "pool_inv (psRegistry s)" by (simp add: pool_sys_inv_def)
  show ?case
    using foldl_preserves [OF pr_blockList_preserves(2) inv, where xs = keys] step_RemoveManyFromBlockList
    by (simp add: ps_RemoveManyFromBlockList_def pool_sys_inv_update)
qed

inductive pool_run :: "PoolSystem \<Rightarrow> PoolSystem \<Rightarrow> bool" where
  prun_refl: "pool_run s s"
| prun_step: "pool_run s s1 \<Longrightarrow> pool_step s1 s2 \<Longrightarrow> pool_run s s2"

lemma pool_run_preserves:
  assumes "pool_run s s'" and "pool_sys_inv s"
  shows "pool_sys_inv s' \<and> pool_evolves (psRegistry s) (psRegistry s')"
  using assms
proof (induction rule: pool_run.induct)
  case (prun_step s s1 s2)
  then show ?case using pool_step_preserves pool_evolves_trans by blast
qed simp

text \<open>Every state an execution reaches from the empty system is consistent.\<close>

lemma pool_run_inv: "pool_run NewPoolSystem s \<Longrightarrow> pool_sys_inv s"
  using pool_run_preserves pool_sys_inv_new by blast

lemma pool_sys_invD:
  assumes "pool_sys_inv s"
  shows "pool_inv (psRegistry s)" and "prvPools (ps_View s) = pr_pools (psRegistry s)"
    and "prvProtocols (ps_View s) = prInternalToProtocol (psRegistry s)"
  using assms by (simp_all add: pool_sys_inv_def ps_View_def pr_view_def)

lemma find_keyed: "distinct (map f xs) \<Longrightarrow> List.find (\<lambda>x. f x = i) xs = keyed f xs i"
  by (induction xs) (auto simp: keyed_def)

lemma ps_GetByID_keyed:
  assumes "pool_sys_inv s"
  shows "ps_GetByID i s = option_result ErrPoolNotFound (keyed pvID (prvPools (ps_View s)) i)"
proof -
  note inv = pool_sys_invD(1) [OF assms]
  have "psCachedView s = pr_view (psRegistry s)" using assms by (simp add: pool_sys_inv_def)
  then have "List.find (\<lambda>p. pvID p = i) (prvPools (psCachedView s)) = keyed pvID (pr_pools (psRegistry s)) i"
    by (simp add: pr_view_def find_keyed [OF pools.view_distinct [OF inv]])
  then show ?thesis
    by (simp add: ps_GetByID_def pools.get_keyed [OF inv] pool_sys_invD(2) [OF assms] split: option.split)
qed

section \<open>Restoring from a snapshot\<close>

lemma max_if: "(if i > m then i else m) = max m (i :: 'a :: linorder)"
  by (auto simp: max_def)

lemma restoreProtocols_spec:
  assumes "restoreProtocols es r m = (r', m')" and "distinct (map fst es)" and "distinct (map snd es)"
    and "fst ` set es \<inter> fst ` set (prInternalToProtocol r) = {}"
    and "snd ` set es \<inter> dom (prProtocolToInternal r) = {}"
    and "distinct (map fst (prInternalToProtocol r))"
    and "\<And>p i. prProtocolToInternal r p = Some i \<longleftrightarrow> map_of (prInternalToProtocol r) i = Some p"
  shows "m' = foldl max m (map fst es) \<and> distinct (map fst (prInternalToProtocol r')) \<and>
    (\<forall>p i. prProtocolToInternal r' p = Some i \<longleftrightarrow> map_of (prInternalToProtocol r') i = Some p) \<and>
    map_of (prInternalToProtocol r') = map_of (prInternalToProtocol r) ++ map_of es \<and>
    prID r' = prID r \<and> prKey r' = prKey r \<and> prProtocol r' = prProtocol r \<and> prIdToIndex r' = prIdToIndex r \<and>
    prKeyToIndex r' = prKeyToIndex r \<and> prBlockList r' = prBlockList r \<and> prNextID r' = prNextID r \<and> prNextProto r' = prNextProto r"
  using assms
proof (induction es arbitrary: r m)
  case Nil
  then show ?case by simp
next
  case (Cons e es)
  obtain i name where e: "e = (i, name)" by (cases e)
  let ?r1 = "r\<lparr>prInternalToProtocol := AList.update i name (prInternalToProtocol r),
          prProtocolToInternal := (prProtocolToInternal r)(name \<mapsto> i)\<rparr>"
  have fresh: "map_of (prInternalToProtocol r) i = None" "prProtocolToInternal r name = None"
    using Cons.prems(4,5) by (auto simp: e map_of_eq_None_iff)
  have bi: "prProtocolToInternal ?r1 p = Some k \<longleftrightarrow> map_of (prInternalToProtocol ?r1) k = Some p" for p k
    using Cons.prems(7) [of p k] Cons.prems(7) [of p i] Cons.prems(7) [of name k] fresh
    by (auto simp: update_conv' simp del: map_of_eq_Some_iff)
  have a1: "restoreProtocols es ?r1 (max m i) = (r', m')" using Cons.prems(1) by (simp add: e max_if)
  have a2: "fst ` set es \<inter> fst ` set (prInternalToProtocol ?r1) = {}"
    using Cons.prems(2,4) by (auto simp: e dom_update)
  have a3: "snd ` set es \<inter> dom (prProtocolToInternal ?r1) = {}"
    using Cons.prems(3,5) by (auto simp: e)
  have a4: "distinct (map fst (prInternalToProtocol ?r1))" using Cons.prems(6) by (simp add: distinct_update)
  have d: "distinct (map fst es)" "distinct (map snd es)" using Cons.prems(2,3) by simp_all
  have "m' = foldl max (max m i) (map fst es) \<and> distinct (map fst (prInternalToProtocol r')) \<and>
    (\<forall>p i. prProtocolToInternal r' p = Some i \<longleftrightarrow> map_of (prInternalToProtocol r') i = Some p) \<and>
    map_of (prInternalToProtocol r') = map_of (prInternalToProtocol ?r1) ++ map_of es \<and>
    prID r' = prID ?r1 \<and> prKey r' = prKey ?r1 \<and> prProtocol r' = prProtocol ?r1 \<and> prIdToIndex r' = prIdToIndex ?r1 \<and>
    prKeyToIndex r' = prKeyToIndex ?r1 \<and> prBlockList r' = prBlockList ?r1 \<and> prNextID r' = prNextID ?r1 \<and> prNextProto r' = prNextProto ?r1"
    by (rule Cons.IH [OF a1 d a2 a3 a4 bi])
  then have IH: "m' = foldl max (max m i) (map fst es)"
    "distinct (map fst (prInternalToProtocol r'))"
    "\<forall>p i. prProtocolToInternal r' p = Some i \<longleftrightarrow> map_of (prInternalToProtocol r') i = Some p"
    "map_of (prInternalToProtocol r') = map_of (prInternalToProtocol ?r1) ++ map_of es"
    "prID r' = prID r \<and> prKey r' = prKey r \<and> prProtocol r' = prProtocol r \<and> prIdToIndex r' = prIdToIndex r \<and>
    prKeyToIndex r' = prKeyToIndex r \<and> prBlockList r' = prBlockList r \<and> prNextID r' = prNextID r \<and> prNextProto r' = prNextProto r"
    by simp_all
  have "map_of es i = None" using Cons.prems(2) by (auto simp: e map_of_eq_None_iff)
  then have "map_of (prInternalToProtocol ?r1) ++ map_of es = map_of (prInternalToProtocol r) ++ map_of (e # es)"
    by (auto simp: e update_conv' map_add_def fun_eq_iff split: option.splits)
  with IH(4) have "map_of (prInternalToProtocol r') = map_of (prInternalToProtocol r) ++ map_of (e # es)" by (rule trans)
  moreover have "m' = foldl max m (map fst (e # es))" by (simp add: e IH(1))
  ultimately show ?case using IH(2,3,5) by blast
qed

definition pool_append :: "PoolView \<Rightarrow> PoolRegistry \<Rightarrow> PoolRegistry" where
  "pool_append v r = r\<lparr>prID := prID r @ [pvID v], prKey := prKey r @ [pvKey v],
     prProtocol := prProtocol r @ [pvProtocol v],
     prIdToIndex := (prIdToIndex r)(pvID v \<mapsto> length (prID r)),
     prKeyToIndex := (prKeyToIndex r)(pvKey v \<mapsto> length (prID r))\<rparr>"

lemma pool_append_layout:
  assumes "pool_layout r" and "prIdToIndex r (pvID v) = None" and "prKeyToIndex r (pvKey v) = None"
  shows "pool_layout (pool_append v r)" and "pr_pools (pool_append v r) = pr_pools r @ [v]"
proof -
  have "index_inv (prKey r @ [pvKey v]) ((prKeyToIndex r)(pvKey v \<mapsto> length (prID r)))"
    using index_inv_append [OF pool_layoutD(4) [OF assms(1)] assms(3)] pool_layoutD(1) [OF assms(1)] by simp
  then show "pool_layout (pool_append v r)"
    using pool_layoutD [OF assms(1)] assms(2) by (simp add: pool_layout_def pool_append_def index_inv_append)
  show "pr_pools (pool_append v r) = pr_pools r @ [v]"
    using pool_layoutD(1,2) [OF assms(1)]
    by (intro nth_equalityI) (auto simp: pr_pools_def poolViewAt_def pool_append_def nth_append less_Suc_eq)
qed

lemma restorePools_spec:
  assumes "pool_layout r" and "distinct (map pvID vs)" and "distinct (map pvKey vs)"
    and "\<And>v. v \<in> set vs \<Longrightarrow> prIdToIndex r (pvID v) = None \<and> prKeyToIndex r (pvKey v) = None \<and>
      map_of (prInternalToProtocol r) (pvProtocol v) \<noteq> None"
  shows "\<exists>r'. restorePools vs r m = Inr r' \<and> pool_layout r' \<and> pr_pools r' = pr_pools r @ vs \<and>
    prNextID r' = foldl max m (map pvID vs) + 1 \<and> prInternalToProtocol r' = prInternalToProtocol r \<and>
    prProtocolToInternal r' = prProtocolToInternal r \<and> prNextProto r' = prNextProto r \<and> prBlockList r' = prBlockList r"
  using assms
proof (induction vs arbitrary: r m)
  case Nil
  then show ?case by (simp add: pool_layout_def pr_pools_def poolViewAt_def)
next
  case (Cons v vs)
  note v = Cons.prems(4) [of v, simplified]
  have v1: "prIdToIndex r (pvID v) = None" "prKeyToIndex r (pvKey v) = None" using v by auto
  note ap = pool_append_layout [OF Cons.prems(1) v1]
  have *: "restorePools (v # vs) r m = restorePools vs (pool_append v r) (max m (pvID v))"
    using v by (auto simp: max_if pool_append_def)
  have "\<exists>r'. restorePools vs (pool_append v r) (max m (pvID v)) = Inr r' \<and> pool_layout r' \<and>
    pr_pools r' = pr_pools (pool_append v r) @ vs \<and>
    prNextID r' = foldl max (max m (pvID v)) (map pvID vs) + 1 \<and> prInternalToProtocol r' = prInternalToProtocol (pool_append v r) \<and>
    prProtocolToInternal r' = prProtocolToInternal (pool_append v r) \<and> prNextProto r' = prNextProto (pool_append v r) \<and>
    prBlockList r' = prBlockList (pool_append v r)"
  proof (rule Cons.IH [OF ap(1)])
    fix w assume "w \<in> set vs"
    then have "pvID w \<noteq> pvID v" "pvKey w \<noteq> pvKey v" using Cons.prems(2,3) by (metis imageI distinct.simps(2) list.simps(9) list.set_map)+
    with \<open>w \<in> set vs\<close> show "prIdToIndex (pool_append v r) (pvID w) = None \<and> prKeyToIndex (pool_append v r) (pvKey w) = None \<and>
      map_of (prInternalToProtocol (pool_append v r)) (pvProtocol w) \<noteq> None"
      using Cons.prems(4) [of w] by (auto simp: pool_append_def)
  qed (use Cons.prems in auto)
  then show ?case unfolding * by (simp add: ap(2)) (simp add: pool_append_def)
qed

lemma proto_inv_names: "proto_inv r \<Longrightarrow> distinct (map snd (prInternalToProtocol r))"
proof -
  assume p: "proto_inv r"
  then have d: "distinct (map fst (prInternalToProtocol r))" by (simp add: proto_inv_def)
  have *: "prProtocolToInternal r n = Some i" if "(i, n) \<in> set (prInternalToProtocol r)" for i n
    using p map_of_is_SomeI [OF d that] by (simp add: proto_inv_def del: map_of_eq_Some_iff)
  have "i = j" if "(i, n) \<in> set (prInternalToProtocol r)" "(j, n) \<in> set (prInternalToProtocol r)" for i j n
    using * [OF that(1)] * [OF that(2)] by simp
  then have "inj_on snd (set (prInternalToProtocol r))" by (auto simp: inj_on_def)
  then show ?thesis using d by (simp add: distinct_map)
qed

lemma restoreProtocols_own:
  assumes pi: "proto_inv r0" and ord: "range_order ord"
  obtains r1 m1 r2 where "restoreProtocols (ord (prInternalToProtocol r0)) NewPoolRegistry 0 = (r1, m1)"
    and "r2 = (if length (prInternalToProtocol r0) > 0 then r1\<lparr>prNextProto := m1 + 1\<rparr> else r1)"
    and "proto_inv r2" and "pool_layout r2" and "pr_pools r2 = []" and "prBlockList r2 = {}"
    and "map_of (prInternalToProtocol r2) = map_of (prInternalToProtocol r0)"
    and "prIdToIndex r2 = Map.empty" and "prKeyToIndex r2 = Map.empty"
proof -
  let ?es = "ord (prInternalToProtocol r0)"
  obtain r1 m1 where r1: "restoreProtocols ?es NewPoolRegistry 0 = (r1, m1)" by fastforce
  have d: "distinct (map fst (prInternalToProtocol r0))" using pi by (simp add: proto_inv_def)
  have des: "distinct (map fst ?es)" using d ord by (simp add: range_order_distinct)
  have ses: "set ?es = set (prInternalToProtocol r0)" using ord by (simp add: range_order_set)
  have "inj_on snd (set ?es)" using proto_inv_names [OF pi] ses by (simp add: distinct_map)
  then have dsn: "distinct (map snd ?es)" using des by (simp add: distinct_map)
  have mes: "map_of ?es = map_of (prInternalToProtocol r0)"
    using des d ses by (simp add: map_of_inject_set)
  have "m1 = foldl max 0 (map fst ?es) \<and> distinct (map fst (prInternalToProtocol r1)) \<and>
    (\<forall>p i. prProtocolToInternal r1 p = Some i \<longleftrightarrow> map_of (prInternalToProtocol r1) i = Some p) \<and>
    map_of (prInternalToProtocol r1) = map_of (prInternalToProtocol NewPoolRegistry) ++ map_of ?es \<and>
    prID r1 = prID NewPoolRegistry \<and> prKey r1 = prKey NewPoolRegistry \<and> prProtocol r1 = prProtocol NewPoolRegistry \<and>
    prIdToIndex r1 = prIdToIndex NewPoolRegistry \<and> prKeyToIndex r1 = prKeyToIndex NewPoolRegistry \<and>
    prBlockList r1 = prBlockList NewPoolRegistry \<and> prNextID r1 = prNextID NewPoolRegistry \<and> prNextProto r1 = prNextProto NewPoolRegistry"
    by (rule restoreProtocols_spec [OF r1 des dsn]) (simp_all add: NewPoolRegistry_def)
  then have m1: "m1 = foldl max 0 (map fst ?es)" and d1: "distinct (map fst (prInternalToProtocol r1))"
    and bi: "\<forall>p i. prProtocolToInternal r1 p = Some i \<longleftrightarrow> map_of (prInternalToProtocol r1) i = Some p"
    and mo: "map_of (prInternalToProtocol r1) = map_of (prInternalToProtocol r0)"
    and rest: "prID r1 = []" "prKey r1 = []" "prProtocol r1 = []" "prIdToIndex r1 = Map.empty" "prKeyToIndex r1 = Map.empty"
      "prBlockList r1 = {}"
    by (simp_all add: NewPoolRegistry_def mes)
  define r2 where "r2 = (if length (prInternalToProtocol r0) > 0 then r1\<lparr>prNextProto := m1 + 1\<rparr> else r1)"
  have ip: "prInternalToProtocol r2 = prInternalToProtocol r1" "prProtocolToInternal r2 = prProtocolToInternal r1"
    by (simp_all add: r2_def)
  have "i < prNextProto r2" if i: "map_of (prInternalToProtocol r2) i \<noteq> None" for i
  proof -
    have lt: "k < prNextProto r0" if "k \<in> set (map fst ?es)" for k
      using pi that ses by (simp add: proto_inv_def map_of_eq_None_iff)
    have im: "i \<in> set (map fst ?es)" using i ses by (simp add: ip mo map_of_eq_None_iff)
    have le: "i \<le> m1" using im by (simp add: foldl_max_ge_mem m1)
    have "m1 \<in> set (map fst ?es) \<or> m1 = 0" using m1 foldl_max_in [of 0 "map fst ?es"] by auto
    then have "m1 < prNextProto r0" using lt [OF im] lt le by (metis word_le_0_iff)
    then have "m1 < m1 + 1" by (rule word_less_succ [OF word_less_succ_neq_0])
    moreover have "prInternalToProtocol r0 \<noteq> []" using im ses by auto
    ultimately show ?thesis using le by (simp add: r2_def)
  qed
  then have "proto_inv r2" using bi d1 by (simp add: proto_inv_def ip)
  then show thesis
    using that [OF r1 r2_def] rest mo by (simp add: r2_def pool_layout_def pr_pools_def)
qed

lemma NewPoolRegistryFromView_own:
  assumes inv: "pool_inv r0" and ord: "range_order ord"
  obtains r where "NewPoolRegistryFromView ord (pr_view r0) = Inr r" and "pool_inv r" and "pr_pools r = pr_pools r0"
    and "map_of (prInternalToProtocol r) = map_of (prInternalToProtocol r0)"
    and "prNextID r = foldl max 0 (map pvID (pr_pools r0)) + 1" and "prNextID r \<le> prNextID r0" and "prBlockList r = {}"
proof -
  note lay = pool_invD(1) [OF inv]
  obtain r1 m1 r2 where r1: "restoreProtocols (ord (prInternalToProtocol r0)) NewPoolRegistry 0 = (r1, m1)"
    and r2_eq: "r2 = (if length (prInternalToProtocol r0) > 0 then r1\<lparr>prNextProto := m1 + 1\<rparr> else r1)"
    and p2: "proto_inv r2" and r2: "pool_layout r2" "pr_pools r2 = []" "prBlockList r2 = {}"
      "map_of (prInternalToProtocol r2) = map_of (prInternalToProtocol r0)"
      "prIdToIndex r2 = Map.empty" "prKeyToIndex r2 = Map.empty"
    by (rule restoreProtocols_own [OF pool_invD(2) [OF inv] ord]) metis
  have "v \<in> set (pr_pools r0) \<Longrightarrow> map_of (prInternalToProtocol r0) (pvProtocol v) \<noteq> None" for v
    using pool_invD(3) [OF inv] pr_pools_protocols [OF lay] by (metis image_eqI list.set_map)
  then obtain r where r: "restorePools (pr_pools r0) r2 0 = Inr r" "pool_layout r" "pr_pools r = pr_pools r0"
    "prNextID r = foldl max 0 (map pvID (pr_pools r0)) + 1" "prInternalToProtocol r = prInternalToProtocol r2"
    "prProtocolToInternal r = prProtocolToInternal r2" "prNextProto r = prNextProto r2" "prBlockList r = prBlockList r2"
    using restorePools_spec [OF r2(1), of "pr_pools r0" 0] r2 index_inv_distinct [OF pr_pools_index [OF lay]]
      index_inv_distinct [OF pr_pools_key_index [OF lay]] by (auto simp del: map_of_eq_None_iff)
  let ?m = "foldl max 0 (map pvID (pr_pools r0))"
  have m: "?m < prNextID r0"
    using foldl_max_in [of 0 "map pvID (pr_pools r0)"] pool_invD(4,5) [OF inv] by (auto simp: pr_pools_ids [OF lay] word_gt_0)
  have ids: "prID r = prID r0" "prProtocol r = prProtocol r0"
    using pr_pools_ids [OF r(2)] pr_pools_ids [OF lay] pr_pools_protocols [OF r(2)] pr_pools_protocols [OF lay] r(3) by simp_all
  have "i < ?m + 1" if "i \<in> set (prID r0)" for i
  proof -
    have "i \<le> ?m" using that by (simp add: foldl_max_ge_mem pr_pools_ids [OF lay])
    then show ?thesis using word_less_succ [OF word_less_succ_neq_0 [OF m]] by simp
  qed
  then have "pool_inv r"
    using r(2) p2 r(4-7) ids word_less_succ_neq_0 [OF m] pool_invD(3,5) [OF inv] r2(4)
    by (simp add: pool_inv_def proto_inv_def)
  moreover have "NewPoolRegistryFromView ord (pr_view r0) = Inr r"
    using r(1) r2_eq by (simp add: NewPoolRegistryFromView_def pr_view_def r1)
  moreover have "prNextID r \<le> prNextID r0" using r(4) inc_le [OF m] by simp
  ultimately show thesis using that r r2 by simp
qed

section \<open>Properties of the pool system\<close>

lemmas pool_eval = ps_AddPool_def pr_addPool_def registerProtocol_def isOnBlockList_def ps_updateCachedView_def
  pr_view_def pr_pools_def poolViewAt_def NewPoolSystem_def NewPoolRegistry_def ps_View_def ps_GetID_def
  pr_getID_def ps_GetProtocolID_def pr_getProtocolID_def ps_GetByID_def pr_getByID_def ps_DeletePools_def
  pr_deletePool_def ps_IsOnBlockList_def Let_def swap_pop_def

text \<open>A system with two pools of two protocols, for the witnesses.\<close>

definition two_pools :: PoolSystem where
  "two_pools = snd (ps_AddPool [2] ''v3'' (snd (ps_AddPool [1] ''v2'' NewPoolSystem)))"

lemma pool_run_two_pools: "pool_run NewPoolSystem two_pools"
  unfolding two_pools_def
  by (intro prun_step [OF prun_step [OF prun_refl step_AddPool] step_AddPool]) (simp_all add: pool_eval)

text \<open>
  C13: In every reachable state of the pool system the cached view that readers load is the registry's
  own view, identifiers and keys are unique in it, no pool has identifier 0, and each lookup
  (\<^verbatim>\<open>GetByID\<close> with its cached fast path, \<^verbatim>\<open>GetKey\<close>, \<^verbatim>\<open>GetID\<close>, \<^verbatim>\<open>GetProtocolID\<close>) answers exactly what the
  view says; \<^verbatim>\<open>GetProtocolID\<close> never reports a missing protocol mapping.
\<close>

theorem pool_system_consistent:
  assumes "pool_run NewPoolSystem s"
  shows "ps_View s = pr_view (psRegistry s) \<and>
    distinct (map pvID (prvPools (ps_View s))) \<and> distinct (map pvKey (prvPools (ps_View s))) \<and>
    0 \<notin> pvID ` set (prvPools (ps_View s)) \<and>
    ps_GetByID i s = option_result ErrPoolNotFound (keyed pvID (prvPools (ps_View s)) i) \<and>
    ps_GetKey i s = option_result ErrPoolNotFound (map_option pvKey (keyed pvID (prvPools (ps_View s)) i)) \<and>
    ps_GetID key s = option_result ErrPoolNotFound (map_option pvID (keyed pvKey (prvPools (ps_View s)) key)) \<and>
    ps_GetProtocolID i s = option_result ErrPoolNotFound (map_option
      (\<lambda>v. the (map_of (prvProtocols (ps_View s)) (pvProtocol v))) (keyed pvID (prvPools (ps_View s)) i))"
proof -
  have si: "pool_sys_inv s" by (rule pool_run_inv [OF assms])
  note inv = pool_sys_invD(1) [OF si] and v = pool_sys_invD(2,3) [OF si]
  note lay = pool_invD(1) [OF inv]
  have "0 \<notin> pvID ` set (pr_pools (psRegistry s))"
    using pool_invD(5) [OF inv] pr_pools_ids [OF lay] by (metis list.set_map)
  moreover have "ps_View s = pr_view (psRegistry s)" using si by (simp add: pool_sys_inv_def ps_View_def)
  ultimately show ?thesis
    using index_inv_distinct [OF pr_pools_index [OF lay]] index_inv_distinct [OF pr_pools_key_index [OF lay]]
    by (simp add: v ps_GetByID_keyed [OF si] ps_GetKey_def ps_GetID_def ps_GetProtocolID_def
        pr_getters_keyed [OF inv] pr_getID_keyed [OF inv] pr_view_def)
qed

theorem pool_system_consistent_witness:
  "distinct (map pvKey (prvPools (ps_View two_pools))) \<and> length (prvPools (ps_View two_pools)) = 2 \<and>
   ps_GetID [2] two_pools = Inr 2"
  using pool_system_consistent [OF pool_run_two_pools, of 2 "[2]"]
  by (simp add: two_pools_def pool_eval)

text \<open>
  \<^verbatim>\<open>AddPool\<close> on a reachable state. It fails exactly when the key is on the block list, or when the
  pool is new, its protocol is new and all 65535 internal protocol identifiers are taken; then nothing
  changes. Otherwise the returned identifier is the pool's: a known key gives its old identifier and
  leaves the state alone, a new one gets \<^verbatim>\<open>nextID\<close>, is listed under the given protocol, and no other
  pool is affected.
\<close>

theorem AddPool_spec:
  assumes run: "pool_run NewPoolSystem s" and cnt: "prNextID (psRegistry s) + 1 \<noteq> 0"
  shows "case ps_AddPool key pID s of
     (Inl e, s') \<Rightarrow> s' = s \<and> (if ps_IsOnBlockList key s then e = ErrPoolBlocked
        else e = ErrProtocolOverflow \<and> ps_GetID key s = Inl ErrPoolNotFound \<and>
          pID \<notin> snd ` set (prvProtocols (ps_View s)) \<and> prNextProto (psRegistry s) = 65535)
   | (Inr i, s') \<Rightarrow> \<not> ps_IsOnBlockList key s \<and> ps_GetID key s' = Inr i \<and>
        (if ps_GetID key s = Inl ErrPoolNotFound
         then i = prNextID (psRegistry s) \<and> ps_GetProtocolID i s' = Inr pID \<and> ps_GetKey i s' = Inr key \<and>
           (\<forall>j. j \<noteq> i \<longrightarrow> ps_GetByID j s' = ps_GetByID j s)
         else ps_GetID key s = Inr i \<and> ps_View s' = ps_View s)"
proof -
  have si: "pool_sys_inv s" by (rule pool_run_inv [OF run])
  note inv = pool_sys_invD(1) [OF si] and v = pool_sys_invD(2,3) [OF si]
  have bi: "\<And>p i. prProtocolToInternal (psRegistry s) p = Some i \<longleftrightarrow> map_of (prInternalToProtocol (psRegistry s)) i = Some p"
    and d: "distinct (map fst (prInternalToProtocol (psRegistry s)))"
    using pool_invD(2) [OF inv] by (simp_all add: proto_inv_def)
  show ?thesis
  proof (cases "pr_addPool key pID (psRegistry s)")
    case (Inl e)
    have "pID \<notin> snd ` set (prInternalToProtocol (psRegistry s))" if none: "prProtocolToInternal (psRegistry s) pID = None"
    proof
      assume "pID \<in> snd ` set (prInternalToProtocol (psRegistry s))"
      then obtain k where "(k, pID) \<in> set (prInternalToProtocol (psRegistry s))" by auto
      from map_of_is_SomeI [OF d this] none show False using bi [of pID k] by simp
    qed
    then show ?thesis using Inl pr_addPool_errors [of key pID "psRegistry s" e]
      by (auto simp: ps_AddPool_def ps_IsOnBlockList_def ps_GetID_def pr_getID_def v)
  next
    case (Inr x)
    obtain i r' where x: "x = (i, r')" by (cases x)
    let ?s = "ps_updateCachedView (s\<lparr>psRegistry := r'\<rparr>)"
    have call: "ps_AddPool key pID s = (Inr i, ?s)" using Inr x by (simp add: ps_AddPool_def)
    show ?thesis
    proof (rule pr_addPool_spec [OF inv cnt Inr [unfolded x]])
      assume "r' = psRegistry s" "\<not> isOnBlockList key (psRegistry s)"
        "\<exists>v. keyed pvKey (pr_pools (psRegistry s)) key = Some v \<and> pvID v = i"
      moreover have "s\<lparr>psCachedView := pr_view (psRegistry s)\<rparr> = s" using si by (simp add: pool_sys_inv_def)
      ultimately show ?thesis
        by (auto simp: call ps_IsOnBlockList_def ps_GetID_def pr_getID_keyed [OF inv] ps_updateCachedView_def)
    next
      fix p assume a: "\<not> isOnBlockList key (psRegistry s)" "keyed pvKey (pr_pools (psRegistry s)) key = None"
        "i = prNextID (psRegistry s)" "pool_inv r'"
        "pr_pools r' = pr_pools (psRegistry s) @ [\<lparr>pvID = prNextID (psRegistry s), pvKey = key, pvProtocol = p\<rparr>]"
        "map_of (prInternalToProtocol r') p = Some pID"
      have si': "pool_sys_inv ?s" using a(4) by (rule pool_sys_inv_update)
      have nf: "keyed pvID (pr_pools (psRegistry s)) i = None"
        using pool_invD(5) [OF inv] pr_pools_ids [OF pool_invD(1) [OF inv]]
        by (metis a(3) keyed_None_iff less_irrefl list.set_map)
      show ?thesis
        using a nf
        by (simp add: call ps_IsOnBlockList_def ps_GetID_def ps_GetKey_def ps_GetProtocolID_def
            pr_getID_keyed [OF inv] pr_getID_keyed [OF a(4)] pr_getters_keyed [OF a(4)]
            ps_GetByID_keyed [OF si] ps_GetByID_keyed [OF si'] pool_sys_invD(2) [OF si'] v keyed_append_None
            del: map_of_eq_Some_iff)
    qed
  qed
qed

theorem AddPool_spec_witness:
  "fst (ps_AddPool [3] ''v2'' two_pools) = Inr 3 \<and>
   ps_GetProtocolID 3 (snd (ps_AddPool [3] ''v2'' two_pools)) = Inr ''v2'' \<and>
   ps_GetByID 1 (snd (ps_AddPool [3] ''v2'' two_pools)) = ps_GetByID 1 two_pools"
proof -
  have "prNextID (psRegistry two_pools) + 1 \<noteq> 0" by (simp add: two_pools_def pool_eval)
  moreover have "fst (ps_AddPool [3] ''v2'' two_pools) = Inr 3" "ps_GetID [3] two_pools = Inl ErrPoolNotFound"
    by (simp_all add: two_pools_def pool_eval)
  ultimately show ?thesis
    using AddPool_spec [OF pool_run_two_pools, of "[3]" "''v2''"] by (auto split: prod.splits)
qed

text \<open>
  \<^verbatim>\<open>DeletePools\<close> with any list of identifiers, on a reachable state, removes exactly the listed pools
  and no other, keeps the protocol dictionary, refreshes the cached view, and (for identifiers
  without repetition) returns no errors when all were present, and otherwise one entry per identifier
  that is nil exactly for those that were present.
\<close>

theorem DeletePools_spec:
  assumes run: "pool_run NewPoolSystem s"
  shows "let (errs, s') = ps_DeletePools ids s in
     keyed pvID (prvPools (ps_View s')) = keyed pvID (prvPools (ps_View s)) |` (- set ids) \<and>
     ps_View s' = pr_view (psRegistry s') \<and>
     (distinct ids \<longrightarrow> errs = (if set ids \<subseteq> pvID ` set (prvPools (ps_View s)) then []
        else map (\<lambda>i. if i \<in> pvID ` set (prvPools (ps_View s)) then None else Some (PoolIDErr i ErrPoolNotFound)) ids))"
proof -
  have si: "pool_sys_inv s" by (rule pool_run_inv [OF run])
  note inv = pool_sys_invD(1) [OF si] and v = pool_sys_invD(2,3) [OF si]
  let ?b = "pools.del_batch ids (psRegistry s)"
  have "pool_sys_inv (snd (ps_DeletePools ids s))" using pool_step_preserves [OF step_DeletePools si] by blast
  note si' = this
  have "psRegistry (snd (ps_DeletePools ids s)) = snd ?b"
    by (cases rule: ps_DeletePools_state [of ids s]) auto
  then have k: "keyed pvID (prvPools (ps_View (snd (ps_DeletePools ids s)))) = keyed pvID (prvPools (ps_View s)) |` (- set ids)"
    using pools.del_batch_spec [OF inv, of ids] by (simp add: pool_sys_invD(2) [OF si'] v)
  have "fst (ps_DeletePools ids s) = (if set ids \<subseteq> pvID ` set (pr_pools (psRegistry s)) then []
        else map (\<lambda>i. if i \<in> pvID ` set (pr_pools (psRegistry s)) then None else Some (PoolIDErr i ErrPoolNotFound)) ids)"
    if "distinct ids"
  proof -
    let ?V = "pvID ` set (pr_pools (psRegistry s))"
    have e: "fst ?b = map (\<lambda>i. if i \<in> ?V then None else Some ErrPoolNotFound) ids"
      using pools.del_batch_errors [OF inv that] by (simp add: keyed_None_iff)
    have "map2 (\<lambda>i. map_option (PoolIDErr i)) ids (fst ?b) =
        map (\<lambda>i. if i \<in> ?V then None else Some (PoolIDErr i ErrPoolNotFound)) ids"
      by (rule nth_equalityI) (simp_all add: e)
    moreover have "(\<exists>e \<in> set (fst ?b). e \<noteq> None) \<longleftrightarrow> \<not> set ids \<subseteq> ?V" by (auto simp: e)
    ultimately show ?thesis
      by (simp add: ps_DeletePools_def deletePools_loop_batch Let_def case_prod_beta del: not_None_eq)
  qed
  moreover have "ps_View (snd (ps_DeletePools ids s)) = pr_view (psRegistry (snd (ps_DeletePools ids s)))"
    using si' by (simp add: pool_sys_inv_def ps_View_def)
  ultimately show ?thesis using k by (simp add: case_prod_beta v)
qed

theorem DeletePools_spec_witness:
  "prvPools (ps_View (snd (ps_DeletePools [1, 9] two_pools))) = [\<lparr>pvID = 2, pvKey = [2], pvProtocol = 1\<rparr>] \<and>
   fst (ps_DeletePools [1, 9] two_pools) = [None, Some (PoolIDErr 9 ErrPoolNotFound)]"
proof
  show "fst (ps_DeletePools [1, 9] two_pools) = [None, Some (PoolIDErr 9 ErrPoolNotFound)]"
    using DeletePools_spec [OF pool_run_two_pools, of "[1, 9]"]
    by (simp add: Let_def case_prod_beta) (simp add: two_pools_def pool_eval)
  show "prvPools (ps_View (snd (ps_DeletePools [1, 9] two_pools))) = [\<lparr>pvID = 2, pvKey = [2], pvProtocol = 1\<rparr>]"
    by (simp add: two_pools_def pool_eval)
qed

text \<open>
  Between two states of one execution, patching the older snapshot with the differ's output gives
  the newer one: the same pools, each identifier once, and the same protocol dictionary, for
  every iteration order of the maps involved.
\<close>

theorem pool_stream_correct:
  assumes run: "pool_run NewPoolSystem s" "pool_run s s'"
    and ord: "range_order o1" "range_order o2" "range_order o3" "range_order q1" "range_order q2" "range_order q3"
  shows "let p = pool_Patcher o3 q3 (ps_View s) (pool_Differ o1 o2 q1 q2 (ps_View s) (ps_View s'))
     in distinct (map pvID (prvPools p)) \<and> mset (prvPools p) = mset (prvPools (ps_View s')) \<and>
        map_of (prvProtocols p) = map_of (prvProtocols (ps_View s'))"
proof -
  have si: "pool_sys_inv s" by (rule pool_run_inv [OF run(1)])
  with pool_run_preserves [OF run(2)] have si': "pool_sys_inv s'" and ev: "pool_evolves (psRegistry s) (psRegistry s')" by auto
  note inv = pool_sys_invD [OF si] and inv' = pool_sys_invD [OF si']
  note d = pools.view_distinct [OF inv(1)] pools.view_distinct [OF inv'(1)]
  let ?old = "pr_pools (psRegistry s)" and ?new = "pr_pools (psRegistry s')"
  have "mset (patchPools o3 ?old (diffPools o1 o2 ?old ?new)) = mset ?new"
  proof (rule pool_diff.patch_differ_exact [OF ord(1-3) d])
    fix v w assume "v \<in> set ?old" "w \<in> set ?new" "pvID v = pvID w"
    moreover have "pvID v < prNextID (psRegistry s)" if "v \<in> set ?old" for v
      using that pool_invD(5) [OF inv(1)] pr_pools_ids [OF pool_invD(1) [OF inv(1)]] by (metis image_eqI list.set_map)
    ultimately have "w \<in> set ?old" using ev unfolding pool_evolves_def by metis
    with \<open>v \<in> set ?old\<close> \<open>pvID v = pvID w\<close> show "v = w" using distinct_map_eqD [OF d(1)] by blast
  qed
  moreover have "map_of (patchProtocols q3 (prInternalToProtocol (psRegistry s))
      (diffProtocols q1 q2 (prInternalToProtocol (psRegistry s)) (prInternalToProtocol (psRegistry s')))) =
      map_of (prInternalToProtocol (psRegistry s'))"
    using pool_invD(2) [OF inv(1)] pool_invD(2) [OF inv'(1)]
    by (intro patchProtocols_diffProtocols ord) (simp_all add: proto_inv_def)
  moreover have "distinct (map pvID (patchPools o3 ?old (diffPools o1 o2 ?old ?new)))"
    by (rule pool_diff.patcher_distinct [OF ord(3)])
  ultimately show ?thesis
    by (simp add: Let_def pool_Patcher_def pool_Differ_def case_prod_beta inv(2,3) inv'(2,3))
qed

theorem pool_stream_correct_witness:
  "let new = ps_View (snd (ps_DeletePools [1] two_pools));
       p = pool_Patcher rev rev (ps_View two_pools) (pool_Differ rev rev rev rev (ps_View two_pools) new)
   in mset (prvPools p) = {#\<lparr>pvID = 2, pvKey = [2], pvProtocol = 1\<rparr>#} \<and> map_of (prvProtocols p) 0 = Some ''v2''"
proof -
  have "pool_run two_pools (snd (ps_DeletePools [1] two_pools))"
    by (rule prun_step [OF prun_refl step_DeletePools])
  from pool_stream_correct [OF pool_run_two_pools this range_order_rev range_order_rev range_order_rev
      range_order_rev range_order_rev range_order_rev]
  show ?thesis by (simp add: Let_def) (simp add: two_pools_def pool_eval)
qed

text \<open>
  Restoring a pool system from the snapshot of any reachable state succeeds, whatever the iteration
  order of the protocol map, and yields a consistent system with the same pools and the same protocol
  dictionary; its counter is one above the largest live identifier, and its block list is empty.
\<close>

theorem pool_restore_roundtrip:
  assumes run: "pool_run NewPoolSystem s" and ord: "range_order ord"
  shows "\<exists>s'. NewPoolSystemFromView ord (ps_View s) = Inr s' \<and> pool_sys_inv s' \<and>
     prvPools (ps_View s') = prvPools (ps_View s) \<and>
     map_of (prvProtocols (ps_View s')) = map_of (prvProtocols (ps_View s)) \<and>
     prNextID (psRegistry s') = foldl max 0 (map pvID (prvPools (ps_View s))) + 1 \<and>
     prNextID (psRegistry s') \<le> prNextID (psRegistry s) \<and> prBlockList (psRegistry s') = {}"
proof -
  have si: "pool_sys_inv s" by (rule pool_run_inv [OF run])
  note inv = pool_sys_invD [OF si]
  have "ps_View s = pr_view (psRegistry s)" using si by (simp add: pool_sys_inv_def ps_View_def)
  then show ?thesis
    by (rule_tac NewPoolRegistryFromView_own [OF inv(1) ord])
      (simp add: NewPoolSystemFromView_def pool_sys_inv_def ps_View_def pr_view_def)
qed

theorem pool_restore_roundtrip_witness:
  "\<exists>s'. NewPoolSystemFromView rev (ps_View two_pools) = Inr s' \<and> prNextID (psRegistry s') = 3 \<and>
     prvPools (ps_View s') = prvPools (ps_View two_pools)"
proof -
  have "foldl max 0 (map pvID (prvPools (ps_View two_pools))) + 1 = (3 :: uint64)"
    by (simp add: two_pools_def pool_eval)
  then show ?thesis using pool_restore_roundtrip [OF pool_run_two_pools range_order_rev] by auto
qed

text \<open>
  A dictionary that holds the internal identifier 65535 makes the restored \<^verbatim>\<open>nextProto\<close> wrap to 0, so
  the next protocol overwrites the one with identifier 0. No reachable state has such a dictionary.
\<close>

lemma restore_nextProto_wraps:
  "\<exists>s'. NewPoolSystemFromView (\<lambda>m. m) \<lparr>prvPools = [], prvProtocols = [(0, ''a''), (65535, ''b'')]\<rparr> = Inr s' \<and>
     prNextProto (psRegistry s') = 0 \<and>
     map_of (prvProtocols (ps_View (snd (ps_AddPool [7] ''c'' s')))) 0 = Some ''c''"
  by (simp add: NewPoolSystemFromView_def NewPoolRegistryFromView_def pool_eval)

end
