(* ===== verification/Token_Pools_Graph.thy ===== *)
theory Token_Pools_Graph
  imports Interfaces
begin

text \<open>
  The token--pool graph, \<^verbatim>\<open>src/protocols/pool-registry/token_pools_registry.go\<close>: tokens are vertices, an
  edge carries the list of pools that trade its two tokens, and vertices, edges and pools are rows of
  slices addressed by index. Deletion only empties pool lists; \<open>compact\<close> rebuilds the slices once
  enough edges dangle. Indices are \<open>nat\<close> (they are lengths of slices); an index that Go would find out
  of range is ruled out by \<open>graph_inv\<close>. The abstraction \<open>graph_edges\<close> reads the graph as a set of
  triples, and every operation is shown to act on that set as its name says.
\<close>

section \<open>Data\<close>

record TokenPoolsRegistryView =
  gvTokens :: "uint64 list"
  gvPools :: "uint64 list"
  gvAdjacency :: "nat list list"
  gvEdgeTargets :: "nat list"
  gvEdgePools :: "nat list list"

record TokenPoolsRegistry =
  tgTokenToIndex :: "uint64 \<rightharpoonup> nat"
  tgPoolToIndex :: "uint64 \<rightharpoonup> nat"
  tgTokens :: "uint64 list"
  tgPools :: "uint64 list"
  tgAdjacency :: "nat list list"
  tgEdgeTargets :: "nat list"
  tgEdgePools :: "nat list list"
  tgDanglingEdgeCount :: nat
  tgCompactionThreshold :: nat

text \<open>A threshold that is not positive is replaced by 1000.\<close>

definition norm_threshold :: "int \<Rightarrow> nat" where
  "norm_threshold compactionThreshold = (if compactionThreshold \<le> 0 then 1000 else nat compactionThreshold)"

section \<open>Operations\<close>

definition NewTokenPoolsRegistry :: "int \<Rightarrow> TokenPoolsRegistry" where
  "NewTokenPoolsRegistry compactionThreshold =
     \<lparr>tgTokenToIndex = Map.empty, tgPoolToIndex = Map.empty, tgTokens = [], tgPools = [], tgAdjacency = [],
      tgEdgeTargets = [], tgEdgePools = [], tgDanglingEdgeCount = 0,
      tgCompactionThreshold = norm_threshold compactionThreshold\<rparr>"

definition NewTokenPoolsRegistryFromView :: "TokenPoolsRegistryView \<Rightarrow> int \<Rightarrow> TokenPoolsRegistry" where
  "NewTokenPoolsRegistryFromView view compactionThreshold =
     \<lparr>tgTokenToIndex = lookup_map (gvTokens view), tgPoolToIndex = lookup_map (gvPools view),
      tgTokens = gvTokens view, tgPools = gvPools view, tgAdjacency = gvAdjacency view,
      tgEdgeTargets = gvEdgeTargets view, tgEdgePools = gvEdgePools view, tgDanglingEdgeCount = 0,
      tgCompactionThreshold = norm_threshold compactionThreshold\<rparr>"

text \<open>The first three blocks of \<^verbatim>\<open>addEdge\<close>: the index of a token or pool, appended if new.\<close>

definition internToken :: "uint64 \<Rightarrow> TokenPoolsRegistry \<Rightarrow> nat \<times> TokenPoolsRegistry" where
  "internToken tokenID r =
     (case tgTokenToIndex r tokenID of
        Some i \<Rightarrow> (i, r)
      | None \<Rightarrow> (length (tgTokens r),
          r\<lparr>tgTokens := tgTokens r @ [tokenID],
            tgTokenToIndex := (tgTokenToIndex r)(tokenID \<mapsto> length (tgTokens r)),
            tgAdjacency := tgAdjacency r @ [[]]\<rparr>))"

definition internPool :: "uint64 \<Rightarrow> TokenPoolsRegistry \<Rightarrow> nat \<times> TokenPoolsRegistry" where
  "internPool poolID r =
     (case tgPoolToIndex r poolID of
        Some i \<Rightarrow> (i, r)
      | None \<Rightarrow> (length (tgPools r),
          r\<lparr>tgPools := tgPools r @ [poolID],
            tgPoolToIndex := (tgPoolToIndex r)(poolID \<mapsto> length (tgPools r))\<rparr>))"

text \<open>The search for an edge and its update, on indices.\<close>

definition linkIndices :: "nat \<Rightarrow> nat \<Rightarrow> nat \<Rightarrow> TokenPoolsRegistry \<Rightarrow> TokenPoolsRegistry" where
  "linkIndices fromIndex toTokenIndex poolIndex r =
     (case List.find (\<lambda>edgeIndex. tgEdgeTargets r ! edgeIndex = toTokenIndex) (tgAdjacency r ! fromIndex) of
        Some edgeIndex \<Rightarrow>
          if poolIndex \<in> set (tgEdgePools r ! edgeIndex) then r
          else r\<lparr>tgEdgePools := (tgEdgePools r)[edgeIndex := tgEdgePools r ! edgeIndex @ [poolIndex]]\<rparr>
      | None \<Rightarrow>
          let newEdgeIndex = length (tgEdgeTargets r) in
          r\<lparr>tgEdgeTargets := tgEdgeTargets r @ [toTokenIndex],
            tgEdgePools := tgEdgePools r @ [[poolIndex]],
            tgAdjacency := (tgAdjacency r)[fromIndex := tgAdjacency r ! fromIndex @ [newEdgeIndex]]\<rparr>)"

definition addEdge :: "uint64 \<Rightarrow> uint64 \<Rightarrow> uint64 \<Rightarrow> TokenPoolsRegistry \<Rightarrow> TokenPoolsRegistry" where
  "addEdge fromTokenID toTokenID poolID r =
     (let (fromIndex, r1) = internToken fromTokenID r;
          (toTokenIndex, r2) = internToken toTokenID r1;
          (poolIndex, r3) = internPool poolID r2
      in linkIndices fromIndex toTokenIndex poolIndex r3)"

text \<open>\<^verbatim>\<open>add\<close>: the double loop over \<^verbatim>\<open>i < j\<close>.\<close>

fun graph_add :: "uint64 list \<Rightarrow> uint64 \<Rightarrow> TokenPoolsRegistry \<Rightarrow> TokenPoolsRegistry" where
  "graph_add [] poolID r = r"
| "graph_add (tokenA # rest) poolID r =
     graph_add rest poolID (foldl (\<lambda>r tokenB. addEdge tokenB tokenA poolID (addEdge tokenA tokenB poolID r)) r rest)"

text \<open>The old indices that are kept, in order, numbered from 0.\<close>

definition renumber :: "nat list \<Rightarrow> (nat \<rightharpoonup> nat)" where
  "renumber keep = map_of (zip keep [0..<length keep])"

text \<open>A Go map read with a missing key gives the zero value.\<close>

definition map_read :: "('a \<rightharpoonup> nat) \<Rightarrow> 'a \<Rightarrow> nat" where
  "map_read m k = (case m k of Some v \<Rightarrow> v | None \<Rightarrow> 0)"

definition live_edges :: "TokenPoolsRegistry \<Rightarrow> nat list" where
  "live_edges r = filter (\<lambda>e. length (tgEdgePools r ! e) > 0) [0..<length (tgEdgePools r)]"

text \<open>
  Steps 2 to 4 of \<^verbatim>\<open>compact\<close>: the old indices of the tokens that are a target of a live edge or have a
  live outgoing edge, and of the pools on a live edge.
\<close>

definition kept_tokens :: "TokenPoolsRegistry \<Rightarrow> nat list" where
  "kept_tokens r =
     (let newEdgeTargets = map (\<lambda>e. tgEdgeTargets r ! e) (live_edges r);
          usedTokens = (\<lambda>i. i \<in> set newEdgeTargets \<or>
            (i < length (tgAdjacency r) \<and> (\<exists>e \<in> set (tgAdjacency r ! i). renumber (live_edges r) e \<noteq> None)))
      in filter usedTokens [0..<length (tgTokens r)])"

definition kept_pools :: "TokenPoolsRegistry \<Rightarrow> nat list" where
  "kept_pools r =
     (let newEdgePools = map (\<lambda>e. tgEdgePools r ! e) (live_edges r);
          usedPools = (\<lambda>p. \<exists>poolList \<in> set newEdgePools. p \<in> set poolList)
      in filter usedPools [0..<length (tgPools r)])"

definition compact :: "TokenPoolsRegistry \<Rightarrow> TokenPoolsRegistry" where
  "compact r =
     (if tgDanglingEdgeCount r = 0 then r
      else let
        oldToNewEdgeIndex = renumber (live_edges r);
        newEdgeTargets = map (\<lambda>e. tgEdgeTargets r ! e) (live_edges r);
        newEdgePools = map (\<lambda>e. tgEdgePools r ! e) (live_edges r);
        oldToNewTokenIndex = renumber (kept_tokens r);
        finalTokens = map (\<lambda>i. tgTokens r ! i) (kept_tokens r);
        oldToNewPoolIndex = renumber (kept_pools r);
        finalPools = map (\<lambda>i. tgPools r ! i) (kept_pools r);
        finalEdgeTargets = map (map_read oldToNewTokenIndex) newEdgeTargets;
        finalEdgePools = map (map (map_read oldToNewPoolIndex)) newEdgePools;
        finalAdjacency = map (\<lambda>old. if old < length (tgAdjacency r)
            then List.map_filter oldToNewEdgeIndex (tgAdjacency r ! old) else []) (kept_tokens r)
      in r\<lparr>tgTokens := finalTokens, tgTokenToIndex := lookup_map finalTokens,
           tgPools := finalPools, tgPoolToIndex := lookup_map finalPools,
           tgEdgeTargets := finalEdgeTargets, tgEdgePools := finalEdgePools,
           tgAdjacency := finalAdjacency, tgDanglingEdgeCount := 0\<rparr>)"

definition compact_if_needed :: "TokenPoolsRegistry \<Rightarrow> TokenPoolsRegistry" where
  "compact_if_needed r = (if tgDanglingEdgeCount r > tgCompactionThreshold r then compact r else r)"

text \<open>
  The body of the loop of \<^verbatim>\<open>removePool\<close> on one pool list: the new list, and whether the edge became
  dangling.
\<close>

definition removeFromList :: "nat \<Rightarrow> nat list \<Rightarrow> nat list \<times> bool" where
  "removeFromList poolIndexToRemove poolList =
     (if length poolList = 0 then (poolList, False)
      else let newPoolList = filter (\<lambda>pIndex. pIndex \<noteq> poolIndexToRemove) poolList;
               wasRemoved = (poolIndexToRemove \<in> set poolList)
           in if wasRemoved then (newPoolList, length newPoolList = 0) else (poolList, False))"

definition removePool :: "uint64 \<Rightarrow> TokenPoolsRegistry \<Rightarrow> TokenPoolsRegistry" where
  "removePool poolID r =
     (case tgPoolToIndex r poolID of
        None \<Rightarrow> r
      | Some poolIndexToRemove \<Rightarrow>
          let res = map (removeFromList poolIndexToRemove) (tgEdgePools r)
          in compact_if_needed
               (r\<lparr>tgEdgePools := map fst res,
                  tgDanglingEdgeCount := tgDanglingEdgeCount r + length (filter snd res)\<rparr>))"

definition clearEdge :: "TokenPoolsRegistry \<Rightarrow> nat \<Rightarrow> TokenPoolsRegistry" where
  "clearEdge r edgeIndex =
     (if length (tgEdgePools r ! edgeIndex) > 0
      then r\<lparr>tgEdgePools := (tgEdgePools r)[edgeIndex := []],
             tgDanglingEdgeCount := tgDanglingEdgeCount r + 1\<rparr>
      else r)"

definition removeToken :: "uint64 \<Rightarrow> TokenPoolsRegistry \<Rightarrow> TokenPoolsRegistry" where
  "removeToken tokenID r =
     (case tgTokenToIndex r tokenID of
        None \<Rightarrow> r
      | Some tokenIndexToRemove \<Rightarrow>
          let r1 = foldl clearEdge r (tgAdjacency r ! tokenIndexToRemove);
              r2 = r1\<lparr>tgAdjacency := (tgAdjacency r1)[tokenIndexToRemove := []]\<rparr>;
              incoming = filter (\<lambda>edgeIndex. tgEdgeTargets r2 ! edgeIndex = tokenIndexToRemove)
                [0..<length (tgEdgeTargets r2)];
              r3 = foldl clearEdge r2 incoming
          in compact_if_needed r3)"

text \<open>The order of the result is the iteration order of a Go map.\<close>

definition poolsForToken :: "(uint64, unit) range_order \<Rightarrow> uint64 \<Rightarrow> TokenPoolsRegistry \<Rightarrow> uint64 list" where
  "poolsForToken ord tokenID r =
     (case tgTokenToIndex r tokenID of
        None \<Rightarrow> []
      | Some tokenIndex \<Rightarrow>
          let found = [tgPools r ! poolIndex. edgeIndex \<leftarrow> tgAdjacency r ! tokenIndex,
                         poolIndex \<leftarrow> tgEdgePools r ! edgeIndex, poolIndex < length (tgPools r)]
          in map fst (ord (map (\<lambda>p. (p, ())) (remdups found))))"

definition graph_view :: "TokenPoolsRegistry \<Rightarrow> TokenPoolsRegistryView" where
  "graph_view r = \<lparr>gvTokens = tgTokens r, gvPools = tgPools r, gvAdjacency = tgAdjacency r,
     gvEdgeTargets = tgEdgeTargets r, gvEdgePools = tgEdgePools r\<rparr>"

section \<open>Invariant and abstraction\<close>

definition graph_layout :: "TokenPoolsRegistry \<Rightarrow> bool" where
  "graph_layout r \<longleftrightarrow> index_inv (tgTokens r) (tgTokenToIndex r) \<and> index_inv (tgPools r) (tgPoolToIndex r) \<and>
     length (tgAdjacency r) = length (tgTokens r) \<and> length (tgEdgePools r) = length (tgEdgeTargets r) \<and>
     (\<forall>e < length (tgEdgeTargets r). tgEdgeTargets r ! e < length (tgTokens r)) \<and>
     (\<forall>e < length (tgEdgePools r). distinct (tgEdgePools r ! e) \<and> set (tgEdgePools r ! e) \<subseteq> {..<length (tgPools r)})"

text \<open>
  Each adjacency list is within range; an edge leaves one token only; a token has one edge to each
  target; an edge that carries pools belongs to some token.
\<close>

definition graph_adj :: "TokenPoolsRegistry \<Rightarrow> bool" where
  "graph_adj r \<longleftrightarrow>
     (\<forall>i < length (tgAdjacency r). distinct (tgAdjacency r ! i) \<and>
       (\<forall>e \<in> set (tgAdjacency r ! i). e < length (tgEdgeTargets r)) \<and>
       inj_on (\<lambda>e. tgEdgeTargets r ! e) (set (tgAdjacency r ! i))) \<and>
     (\<forall>i < length (tgAdjacency r). \<forall>j < length (tgAdjacency r). \<forall>e.
       e \<in> set (tgAdjacency r ! i) \<and> e \<in> set (tgAdjacency r ! j) \<longrightarrow> i = j) \<and>
     (\<forall>e < length (tgEdgePools r). tgEdgePools r ! e \<noteq> [] \<longrightarrow>
       (\<exists>i < length (tgAdjacency r). e \<in> set (tgAdjacency r ! i)))"

definition graph_inv :: "TokenPoolsRegistry \<Rightarrow> bool" where
  "graph_inv r \<longleftrightarrow> graph_layout r \<and> graph_adj r"

definition index_edges :: "TokenPoolsRegistry \<Rightarrow> (nat \<times> nat \<times> nat) set" where
  "index_edges r = {(i, t, p). i < length (tgAdjacency r) \<and>
     (\<exists>e \<in> set (tgAdjacency r ! i). tgEdgeTargets r ! e = t \<and> p \<in> set (tgEdgePools r ! e))}"

definition graph_edges :: "TokenPoolsRegistry \<Rightarrow> (uint64 \<times> uint64 \<times> uint64) set" where
  "graph_edges r = (\<lambda>(i, t, p). (tgTokens r ! i, tgTokens r ! t, tgPools r ! p)) ` index_edges r"

lemma graph_layoutD:
  assumes "graph_layout r"
  shows "index_inv (tgTokens r) (tgTokenToIndex r)" "index_inv (tgPools r) (tgPoolToIndex r)"
    "length (tgAdjacency r) = length (tgTokens r)" "length (tgEdgePools r) = length (tgEdgeTargets r)"
    "e < length (tgEdgeTargets r) \<Longrightarrow> tgEdgeTargets r ! e < length (tgTokens r)"
    "e < length (tgEdgePools r) \<Longrightarrow> distinct (tgEdgePools r ! e)"
    "e < length (tgEdgePools r) \<Longrightarrow> p \<in> set (tgEdgePools r ! e) \<Longrightarrow> p < length (tgPools r)"
  using assms unfolding graph_layout_def by auto

lemma graph_adjD:
  assumes "graph_adj r" and "i < length (tgAdjacency r)"
  shows "distinct (tgAdjacency r ! i)" "e \<in> set (tgAdjacency r ! i) \<Longrightarrow> e < length (tgEdgeTargets r)"
    "inj_on (\<lambda>e. tgEdgeTargets r ! e) (set (tgAdjacency r ! i))"
    "j < length (tgAdjacency r) \<Longrightarrow> e \<in> set (tgAdjacency r ! i) \<Longrightarrow> e \<in> set (tgAdjacency r ! j) \<Longrightarrow> i = j"
  using assms unfolding graph_adj_def by blast+

lemma graph_adj_live:
  assumes "graph_adj r" and "e < length (tgEdgePools r)" and "tgEdgePools r ! e \<noteq> []"
  obtains i where "i < length (tgAdjacency r)" and "e \<in> set (tgAdjacency r ! i)"
  using assms unfolding graph_adj_def by blast

lemma graph_invD: "graph_inv r \<Longrightarrow> graph_layout r" "graph_inv r \<Longrightarrow> graph_adj r"
  by (simp_all add: graph_inv_def)

lemma index_edges_iff:
  "(i, t, p) \<in> index_edges r \<longleftrightarrow> i < length (tgAdjacency r) \<and>
     (\<exists>e \<in> set (tgAdjacency r ! i). tgEdgeTargets r ! e = t \<and> p \<in> set (tgEdgePools r ! e))"
  by (simp add: index_edges_def)

lemma index_edges_range:
  assumes inv: "graph_inv r" and m: "(i, t, p) \<in> index_edges r"
  shows "i < length (tgTokens r)" "t < length (tgTokens r)" "p < length (tgPools r)"
proof -
  note lay = graph_layoutD [OF graph_invD(1) [OF inv]]
  obtain e where e: "i < length (tgAdjacency r)" "e \<in> set (tgAdjacency r ! i)" "tgEdgeTargets r ! e = t"
    "p \<in> set (tgEdgePools r ! e)" using m by (auto simp: index_edges_iff)
  have el: "e < length (tgEdgeTargets r)" using graph_adjD(2) [OF graph_invD(2) [OF inv] e(1,2)] .
  show "i < length (tgTokens r)" using e(1) lay(3) by simp
  show "t < length (tgTokens r)" using lay(5) [OF el] e(3) by simp
  show "p < length (tgPools r)" using lay(7) [of e p] el lay(4) e(4) by simp
qed

lemma graph_inv_new: "graph_inv (NewTokenPoolsRegistry c)"
  by (simp add: graph_inv_def graph_layout_def graph_adj_def NewTokenPoolsRegistry_def)

lemma graph_edges_new: "graph_edges (NewTokenPoolsRegistry c) = {}"
  by (simp add: graph_edges_def index_edges_def NewTokenPoolsRegistry_def)

section \<open>Adding\<close>

text \<open>Appending a token or a pool extends the columns and leaves the edges alone.\<close>

lemma internToken_spec:
  assumes inv: "graph_inv r" and call: "internToken t r = (i, r')"
  shows "graph_inv r'" and "i < length (tgTokens r')" and "tgTokens r' ! i = t"
    and "index_edges r' = index_edges r" and "\<exists>ts. tgTokens r' = tgTokens r @ ts"
    and "tgPools r' = tgPools r" "tgPoolToIndex r' = tgPoolToIndex r" "tgEdgePools r' = tgEdgePools r"
      "tgDanglingEdgeCount r' = tgDanglingEdgeCount r" "tgCompactionThreshold r' = tgCompactionThreshold r"
proof -
  note lay = graph_layoutD [OF graph_invD(1) [OF inv]] and adj = graph_adjD [OF graph_invD(2) [OF inv]]
  have "graph_inv r' \<and> i < length (tgTokens r') \<and> tgTokens r' ! i = t \<and> index_edges r' = index_edges r \<and>
    (\<exists>ts. tgTokens r' = tgTokens r @ ts) \<and> tgPools r' = tgPools r \<and> tgPoolToIndex r' = tgPoolToIndex r \<and>
    tgEdgePools r' = tgEdgePools r \<and> tgDanglingEdgeCount r' = tgDanglingEdgeCount r \<and>
    tgCompactionThreshold r' = tgCompactionThreshold r"
  proof (cases "tgTokenToIndex r t")
    case (Some k)
    then show ?thesis using call inv index_invD [OF lay(1) Some] by (simp add: internToken_def)
  next
    case None
    then have r': "r' = r\<lparr>tgTokens := tgTokens r @ [t], tgTokenToIndex := (tgTokenToIndex r)(t \<mapsto> length (tgTokens r)),
            tgAdjacency := tgAdjacency r @ [[]]\<rparr>" and i: "i = length (tgTokens r)"
      using call by (auto simp: internToken_def)
    have "graph_layout r'" using graph_invD(1) [OF inv] None
      by (auto simp: graph_layout_def r' index_inv_append)
    moreover have "graph_adj r'"
      unfolding graph_adj_def r' using graph_invD(2) [OF inv, unfolded graph_adj_def]
      by (auto simp: nth_append less_Suc_eq)
    moreover have "index_edges r' = index_edges r"
      by (auto simp: index_edges_def r' nth_append less_Suc_eq)
    ultimately show ?thesis by (simp add: graph_inv_def i) (simp add: r')
  qed
  then show "graph_inv r'" and "i < length (tgTokens r')" and "tgTokens r' ! i = t"
    and "index_edges r' = index_edges r" and "\<exists>ts. tgTokens r' = tgTokens r @ ts"
    and "tgPools r' = tgPools r" "tgPoolToIndex r' = tgPoolToIndex r" "tgEdgePools r' = tgEdgePools r"
      "tgDanglingEdgeCount r' = tgDanglingEdgeCount r" "tgCompactionThreshold r' = tgCompactionThreshold r"
    by blast+
qed

lemma internPool_spec:
  assumes inv: "graph_inv r" and call: "internPool p r = (i, r')"
  shows "graph_inv r'" and "i < length (tgPools r')" and "tgPools r' ! i = p"
    and "index_edges r' = index_edges r" and "\<exists>ps. tgPools r' = tgPools r @ ps"
    and "tgTokens r' = tgTokens r" "tgTokenToIndex r' = tgTokenToIndex r" "tgEdgePools r' = tgEdgePools r"
      "tgDanglingEdgeCount r' = tgDanglingEdgeCount r" "tgCompactionThreshold r' = tgCompactionThreshold r"
proof -
  note lay = graph_layoutD [OF graph_invD(1) [OF inv]]
  have "graph_inv r' \<and> i < length (tgPools r') \<and> tgPools r' ! i = p \<and> index_edges r' = index_edges r \<and>
    (\<exists>ps. tgPools r' = tgPools r @ ps) \<and> tgTokens r' = tgTokens r \<and> tgTokenToIndex r' = tgTokenToIndex r \<and>
    tgEdgePools r' = tgEdgePools r \<and> tgDanglingEdgeCount r' = tgDanglingEdgeCount r \<and>
    tgCompactionThreshold r' = tgCompactionThreshold r"
  proof (cases "tgPoolToIndex r p")
    case (Some k)
    then show ?thesis using call inv index_invD [OF lay(2) Some] by (simp add: internPool_def)
  next
    case None
    then have r': "r' = r\<lparr>tgPools := tgPools r @ [p], tgPoolToIndex := (tgPoolToIndex r)(p \<mapsto> length (tgPools r))\<rparr>"
      and i: "i = length (tgPools r)"
      using call by (auto simp: internPool_def)
    have "graph_layout r'" using graph_invD(1) [OF inv] None
      by (auto simp: graph_layout_def r' index_inv_append less_Suc_eq subset_iff)
    moreover have "graph_adj r'" using graph_invD(2) [OF inv] by (simp add: graph_adj_def r')
    ultimately show ?thesis by (simp add: graph_inv_def i) (simp add: r' index_edges_def)
  qed
  then show "graph_inv r'" and "i < length (tgPools r')" and "tgPools r' ! i = p"
    and "index_edges r' = index_edges r" and "\<exists>ps. tgPools r' = tgPools r @ ps"
    and "tgTokens r' = tgTokens r" "tgTokenToIndex r' = tgTokenToIndex r" "tgEdgePools r' = tgEdgePools r"
      "tgDanglingEdgeCount r' = tgDanglingEdgeCount r" "tgCompactionThreshold r' = tgCompactionThreshold r"
    by blast+
qed

lemma graph_edges_extend:
  assumes "graph_inv r" and "index_edges r' = index_edges r"
    and "\<exists>ts. tgTokens r' = tgTokens r @ ts" and "\<exists>ps. tgPools r' = tgPools r @ ps"
  shows "graph_edges r' = graph_edges r"
proof -
  have "(tgTokens r' ! i, tgTokens r' ! t, tgPools r' ! p) = (tgTokens r ! i, tgTokens r ! t, tgPools r ! p)"
    if "(i, t, p) \<in> index_edges r" for i t p
    using index_edges_range [OF assms(1) that] assms(3,4) by (auto simp: nth_append)
  then show ?thesis
    unfolding graph_edges_def assms(2) by (intro image_cong refl) auto
qed

text \<open>The two outcomes of the search in \<^verbatim>\<open>addEdge\<close>.\<close>

lemma linkIndices_known:
  assumes inv: "graph_inv r" and f: "f < length (tgTokens r)" and p: "p < length (tgPools r)"
    and e: "e \<in> set (tgAdjacency r ! f)" "tgEdgeTargets r ! e = t"
    and ps: "set ps = insert p (set (tgEdgePools r ! e))" "distinct ps"
    and r': "r' = r\<lparr>tgEdgePools := (tgEdgePools r)[e := ps]\<rparr>"
  shows "graph_inv r'" and "index_edges r' = insert (f, t, p) (index_edges r)"
proof -
  note lay = graph_layoutD [OF graph_invD(1) [OF inv]] and adj = graph_adjD [OF graph_invD(2) [OF inv]]
  have fl: "f < length (tgAdjacency r)" using f lay(3) by simp
  have el: "e < length (tgEdgePools r)" using adj(2) [OF fl e(1)] lay(4) by simp
  have "graph_layout r'" using graph_invD(1) [OF inv] ps p el by (auto simp: graph_layout_def r' nth_list_update)
  moreover have "graph_adj r'" using graph_invD(2) [OF inv] fl e(1) el unfolding graph_adj_def r'
    by (auto simp: nth_list_update)
  ultimately show "graph_inv r'" by (simp add: graph_inv_def)
  show "index_edges r' = insert (f, t, p) (index_edges r)"
  proof (rule set_eqI, clarify)
    fix i u q
    have own: "i = f" if "i < length (tgAdjacency r)" "e \<in> set (tgAdjacency r ! i)"
      using adj(4) [OF that(1) fl that(2) e(1)] .
    show "(i, u, q) \<in> index_edges r' \<longleftrightarrow> (i, u, q) \<in> insert (f, t, p) (index_edges r)"
      using own fl e el ps(1) by (auto simp: index_edges_iff r' nth_list_update split: if_splits)
  qed
qed

lemma linkIndices_new:
  assumes inv: "graph_inv r" and f: "f < length (tgTokens r)" and t: "t < length (tgTokens r)" and p: "p < length (tgPools r)"
    and none: "\<And>e. e \<in> set (tgAdjacency r ! f) \<Longrightarrow> tgEdgeTargets r ! e \<noteq> t"
    and r': "r' = r\<lparr>tgEdgeTargets := tgEdgeTargets r @ [t], tgEdgePools := tgEdgePools r @ [[p]],
       tgAdjacency := (tgAdjacency r)[f := tgAdjacency r ! f @ [length (tgEdgeTargets r)]]\<rparr>"
  shows "graph_inv r'" and "index_edges r' = insert (f, t, p) (index_edges r)"
proof -
  let ?n = "length (tgEdgeTargets r)"
  note lay = graph_layoutD [OF graph_invD(1) [OF inv]] and adj = graph_adjD [OF graph_invD(2) [OF inv]]
  have fl: "f < length (tgAdjacency r)" using f lay(3) by simp
  have nin: "?n \<notin> set (tgAdjacency r ! i)" if "i < length (tgAdjacency r)" for i using adj(2) [OF that] by blast
  have lt: "e < ?n" if "i < length (tgAdjacency r)" "e \<in> set (tgAdjacency r ! i)" for i e using adj(2) [OF that] .
  have A: "tgAdjacency r' ! i = (if i = f then tgAdjacency r ! f @ [?n] else tgAdjacency r ! i)"
    if "i < length (tgAdjacency r)" for i using that by (simp add: r' nth_list_update)
  have T: "tgEdgeTargets r' ! e = tgEdgeTargets r ! e" if "e < ?n" for e using that by (simp add: r' nth_append)
  have P: "tgEdgePools r' ! e = tgEdgePools r ! e" if "e < ?n" for e using that lay(4) by (simp add: r' nth_append)
  have N: "tgEdgeTargets r' ! ?n = t" "tgEdgePools r' ! ?n = [p]" "length (tgAdjacency r') = length (tgAdjacency r)"
    "length (tgEdgeTargets r') = Suc ?n" "length (tgEdgePools r') = Suc ?n"
    using lay(4) by (simp_all add: r' nth_append)
  have "graph_layout r'" using graph_invD(1) [OF inv] t p by (auto simp: graph_layout_def r' nth_append less_Suc_eq)
  moreover have "distinct (tgAdjacency r' ! i) \<and> (\<forall>e \<in> set (tgAdjacency r' ! i). e < Suc ?n) \<and>
      inj_on (\<lambda>e. tgEdgeTargets r' ! e) (set (tgAdjacency r' ! i))" if i: "i < length (tgAdjacency r)" for i
  proof -
    have "inj_on (\<lambda>e. tgEdgeTargets r' ! e) (set (tgAdjacency r ! i))"
      using adj(3) [OF i] lt [OF i] T by (auto simp: inj_on_def)
    moreover have "t \<notin> (\<lambda>e. tgEdgeTargets r' ! e) ` set (tgAdjacency r ! f)"
      using none lt [OF fl] T by auto
    ultimately show ?thesis
      using adj(1) [OF i] lt [OF i] nin [OF i] N(1) by (auto simp: A [OF i] less_Suc_eq intro!: inj_on_insert [THEN iffD2])
  qed
  moreover have "i = j" if "i < length (tgAdjacency r)" "j < length (tgAdjacency r)"
      "e \<in> set (tgAdjacency r' ! i)" "e \<in> set (tgAdjacency r' ! j)" for i j e
    using that(3,4) adj(4) [OF that(1,2)] nin [OF that(1)] nin [OF that(2)]
    by (auto simp: A [OF that(1)] A [OF that(2)] split: if_splits)
  moreover have "\<exists>i < length (tgAdjacency r). e \<in> set (tgAdjacency r' ! i)"
    if "e < Suc ?n" "tgEdgePools r' ! e \<noteq> []" for e
  proof (cases "e = ?n")
    case True
    then show ?thesis using fl A [OF fl] by auto
  next
    case False
    then have "e < length (tgEdgePools r)" "tgEdgePools r ! e \<noteq> []" using that P lay(4) by auto
    from graph_adj_live [OF graph_invD(2) [OF inv] this] obtain i where "i < length (tgAdjacency r)" "e \<in> set (tgAdjacency r ! i)" .
    then show ?thesis using A [of i] by auto
  qed
  ultimately show "graph_inv r'" unfolding graph_inv_def graph_adj_def N by blast
  show "index_edges r' = insert (f, t, p) (index_edges r)"
  proof (rule set_eqI, clarify)
    fix i u q
    have "(i, u, q) \<in> index_edges r' \<longleftrightarrow> (i, u, q) = (f, t, p) \<or> (i, u, q) \<in> index_edges r" if i: "i < length (tgAdjacency r)"
      using lt [OF i] T P N i by (auto simp: index_edges_iff A [OF i])
    then show "(i, u, q) \<in> index_edges r' \<longleftrightarrow> (i, u, q) \<in> insert (f, t, p) (index_edges r)"
      using fl by (cases "i < length (tgAdjacency r)") (auto simp: index_edges_iff N(3))
  qed
qed

lemma linkIndices_spec:
  assumes inv: "graph_inv r" and f: "f < length (tgTokens r)" and t: "t < length (tgTokens r)" and p: "p < length (tgPools r)"
  shows "graph_inv (linkIndices f t p r)" and "index_edges (linkIndices f t p r) = insert (f, t, p) (index_edges r)"
proof -
  have "graph_inv (linkIndices f t p r) \<and> index_edges (linkIndices f t p r) = insert (f, t, p) (index_edges r)"
  proof (cases "List.find (\<lambda>e. tgEdgeTargets r ! e = t) (tgAdjacency r ! f)")
    case None
    then have "\<And>e. e \<in> set (tgAdjacency r ! f) \<Longrightarrow> tgEdgeTargets r ! e \<noteq> t" by (simp add: find_None_iff)
    then show ?thesis using linkIndices_new [OF inv f t p] None by (simp add: linkIndices_def Let_def)
  next
    case (Some e)
    then have e: "e \<in> set (tgAdjacency r ! f)" "tgEdgeTargets r ! e = t" by (auto simp: find_Some_iff)
    have "e < length (tgEdgePools r)"
      using graph_adjD(2) [OF graph_invD(2) [OF inv] _ e(1)] graph_layoutD(3,4) [OF graph_invD(1) [OF inv]] f by simp
    then have d: "distinct (tgEdgePools r ! e)" using graph_layoutD(6) [OF graph_invD(1) [OF inv]] by simp
    show ?thesis
    proof (cases "p \<in> set (tgEdgePools r ! e)")
      case True
      then have "linkIndices f t p r = r\<lparr>tgEdgePools := (tgEdgePools r)[e := tgEdgePools r ! e]\<rparr>"
        using Some by (simp add: linkIndices_def)
      from linkIndices_known [OF inv f p e _ d this] True show ?thesis by blast
    next
      case False
      then have "linkIndices f t p r = r\<lparr>tgEdgePools := (tgEdgePools r)[e := tgEdgePools r ! e @ [p]]\<rparr>"
        using Some by (simp add: linkIndices_def)
      from linkIndices_known [OF inv f p e _ _ this] False d show ?thesis by simp
    qed
  qed
  then show "graph_inv (linkIndices f t p r)" and "index_edges (linkIndices f t p r) = insert (f, t, p) (index_edges r)"
    by blast+
qed

lemma addEdge_spec:
  assumes inv: "graph_inv r"
  shows "graph_inv (addEdge a b p r)" and "graph_edges (addEdge a b p r) = insert (a, b, p) (graph_edges r)"
proof -
  obtain fi r1 where 1: "internToken a r = (fi, r1)" by fastforce
  note s1 = internToken_spec [OF inv 1]
  obtain ti r2 where 2: "internToken b r1 = (ti, r2)" by fastforce
  note s2 = internToken_spec [OF s1(1) 2]
  obtain pi r3 where 3: "internPool p r2 = (pi, r3)" by fastforce
  note s3 = internPool_spec [OF s2(1) 3]
  have f: "fi < length (tgTokens r3)" "tgTokens r3 ! fi = a" using s1(2,3) s2(5) s3(6) by (auto simp: nth_append)
  have t: "ti < length (tgTokens r3)" "tgTokens r3 ! ti = b" using s2(2,3) s3(6) by auto
  note l = linkIndices_spec [OF s3(1) f(1) t(1) s3(2)]
  have e: "addEdge a b p r = linkIndices fi ti pi r3" by (simp add: addEdge_def 1 2 3)
  show "graph_inv (addEdge a b p r)" using l(1) by (simp add: e)
  have cols: "tgTokens (linkIndices fi ti pi r3) = tgTokens r3" "tgPools (linkIndices fi ti pi r3) = tgPools r3"
    by (simp_all add: linkIndices_def Let_def split: option.split)
  have "graph_edges r3 = graph_edges r"
    using s1(4,5,6) s2(4,5,6) s3(4,5,6) by (intro graph_edges_extend [OF inv]) auto
  then show "graph_edges (addEdge a b p r) = insert (a, b, p) (graph_edges r)"
    unfolding e using f(2) t(2) s3(3) by (simp add: graph_edges_def cols l(2))
qed

lemma addEdges_loop:
  assumes "graph_inv r"
  shows "graph_inv (foldl (\<lambda>r b. addEdge b a p (addEdge a b p r)) r bs) \<and>
    graph_edges (foldl (\<lambda>r b. addEdge b a p (addEdge a b p r)) r bs) =
      graph_edges r \<union> {(a, b, p) | b. b \<in> set bs} \<union> {(b, a, p) | b. b \<in> set bs}"
  using assms
proof (induction bs arbitrary: r)
  case (Cons b bs)
  note 1 = addEdge_spec [OF Cons.prems, of a b p]
  note 2 = addEdge_spec [OF 1(1), of b a p]
  from Cons.IH [OF 2(1)] show ?case by (auto simp: 1(2) 2(2))
qed simp

lemma graph_add_spec:
  assumes "graph_inv r"
  shows "graph_inv (graph_add ts p r)"
    and "graph_edges (graph_add ts p r) = graph_edges r \<union> {(a, b, p) | a b. (a, b) \<in> clique ts}"
proof -
  have "graph_inv (graph_add ts p r) \<and> graph_edges (graph_add ts p r) = graph_edges r \<union> {(a, b, p) | a b. (a, b) \<in> clique ts}"
    using assms
  proof (induction ts p r rule: graph_add.induct)
    case (2 a ts p r)
    note l = addEdges_loop [OF 2(2), of a p ts]
    from 2(1) l show ?case by (auto simp: clique_Cons)
  qed simp
  then show "graph_inv (graph_add ts p r)"
    and "graph_edges (graph_add ts p r) = graph_edges r \<union> {(a, b, p) | a b. (a, b) \<in> clique ts}" by blast+
qed

section \<open>Compaction\<close>

lemma renumber_inv: "distinct keep \<Longrightarrow> index_inv keep (renumber keep)"
  unfolding index_inv_def renumber_def by (auto simp: in_set_zip)

lemma map_read_renumber:
  assumes "distinct keep" and "k \<in> set keep"
  shows "map_read (renumber keep) k < length keep" and "keep ! map_read (renumber keep) k = k"
proof -
  obtain i where "renumber keep k = Some i"
    using index_inv_None_iff [OF renumber_inv [OF assms(1)]] assms(2) by fastforce
  then show "map_read (renumber keep) k < length keep" and "keep ! map_read (renumber keep) k = k"
    using index_invD [OF renumber_inv [OF assms(1)]] by (simp_all add: map_read_def)
qed

lemma map_read_renumber_inj: "distinct keep \<Longrightarrow> inj_on (map_read (renumber keep)) (set keep)"
  by (metis inj_on_inverseI map_read_renumber(2))

lemma set_map_filter_renumber:
  "distinct keep \<Longrightarrow> m \<in> set (List.map_filter (renumber keep) xs) \<longleftrightarrow> m < length keep \<and> keep ! m \<in> set xs"
proof -
  assume d: "distinct keep"
  have "m \<in> set (List.map_filter (renumber keep) xs) \<longleftrightarrow> (\<exists>x \<in> set xs. renumber keep x = Some m)"
    by (force simp: List.map_filter_def)
  then show ?thesis using renumber_inv [OF d] by (auto simp: index_inv_def)
qed

lemma distinct_map_filter_renumber:
  "distinct keep \<Longrightarrow> distinct xs \<Longrightarrow> distinct (List.map_filter (renumber keep) xs)"
proof -
  assume d: "distinct keep" and x: "distinct xs"
  have "a = b" if "renumber keep a = Some i" "renumber keep b = Some i" for a b i
    using index_invD [OF renumber_inv [OF d] that(1)] index_invD [OF renumber_inv [OF d] that(2)] by simp
  then show ?thesis using x
    by (auto simp: List.map_filter_def distinct_map inj_on_def)
qed

lemma distinct_live_edges [simp]: "distinct (live_edges r)"
  by (simp add: live_edges_def)

lemma distinct_kept [simp]: "distinct (kept_tokens r)" "distinct (kept_pools r)"
  by (simp_all add: kept_tokens_def kept_pools_def Let_def)

lemma live_edges_iff: "e \<in> set (live_edges r) \<longleftrightarrow> e < length (tgEdgePools r) \<and> tgEdgePools r ! e \<noteq> []"
  by (auto simp: live_edges_def)

lemma renumber_None_iff: "distinct keep \<Longrightarrow> renumber keep k = None \<longleftrightarrow> k \<notin> set keep"
  by (rule index_inv_None_iff [OF renumber_inv])

lemma kept_tokens_iff:
  assumes "graph_layout r"
  shows "i \<in> set (kept_tokens r) \<longleftrightarrow> i < length (tgTokens r) \<and>
     ((\<exists>e \<in> set (live_edges r). tgEdgeTargets r ! e = i) \<or> (\<exists>e \<in> set (tgAdjacency r ! i). e \<in> set (live_edges r)))"
  using graph_layoutD(3) [OF assms] by (auto simp: kept_tokens_def Let_def renumber_None_iff simp del: not_None_eq)

lemma kept_pools_iff:
  "p \<in> set (kept_pools r) \<longleftrightarrow> p < length (tgPools r) \<and> (\<exists>e \<in> set (live_edges r). p \<in> set (tgEdgePools r ! e))"
  by (auto simp: kept_pools_def Let_def)

text \<open>
  Rebuilding the slices from any selection of edges, tokens and pools that is closed under the
  references between them and keeps every live edge.
\<close>

definition rebuild :: "nat list \<Rightarrow> nat list \<Rightarrow> nat list \<Rightarrow> TokenPoolsRegistry \<Rightarrow> TokenPoolsRegistry" where
  "rebuild E T P r = r\<lparr>tgTokens := map (\<lambda>i. tgTokens r ! i) T, tgTokenToIndex := lookup_map (map (\<lambda>i. tgTokens r ! i) T),
      tgPools := map (\<lambda>i. tgPools r ! i) P, tgPoolToIndex := lookup_map (map (\<lambda>i. tgPools r ! i) P),
      tgEdgeTargets := map (\<lambda>e. map_read (renumber T) (tgEdgeTargets r ! e)) E,
      tgEdgePools := map (\<lambda>e. map (map_read (renumber P)) (tgEdgePools r ! e)) E,
      tgAdjacency := map (\<lambda>old. List.map_filter (renumber E) (tgAdjacency r ! old)) T, tgDanglingEdgeCount := 0\<rparr>"

definition selection :: "nat list \<Rightarrow> nat list \<Rightarrow> nat list \<Rightarrow> TokenPoolsRegistry \<Rightarrow> bool" where
  "selection E T P r \<longleftrightarrow> distinct E \<and> distinct T \<and> distinct P \<and>
     (\<forall>e \<in> set E. e < length (tgEdgeTargets r) \<and> tgEdgeTargets r ! e \<in> set T \<and> set (tgEdgePools r ! e) \<subseteq> set P) \<and>
     (\<forall>i \<in> set T. i < length (tgTokens r)) \<and> (\<forall>p \<in> set P. p < length (tgPools r)) \<and>
     (\<forall>i e. i < length (tgTokens r) \<and> e \<in> set (tgAdjacency r ! i) \<and> tgEdgePools r ! e \<noteq> [] \<longrightarrow> e \<in> set E \<and> i \<in> set T)"

lemma rebuild_adj:
  "selection E T P r \<Longrightarrow> n < length T \<Longrightarrow>
   m \<in> set (tgAdjacency (rebuild E T P r) ! n) \<longleftrightarrow> m < length E \<and> E ! m \<in> set (tgAdjacency r ! (T ! n))"
  by (simp add: rebuild_def selection_def set_map_filter_renumber)

lemma rebuild_layout:
  assumes inv: "graph_inv r" and sel: "selection E T P r"
  shows "graph_layout (rebuild E T P r)"
proof -
  note lay = graph_layoutD [OF graph_invD(1) [OF inv]]
  have d: "distinct E" "distinct T" "distinct P" and T: "\<And>i. i \<in> set T \<Longrightarrow> i < length (tgTokens r)"
    and P: "\<And>p. p \<in> set P \<Longrightarrow> p < length (tgPools r)"
    and E: "\<And>e. e \<in> set E \<Longrightarrow> e < length (tgEdgeTargets r) \<and> tgEdgeTargets r ! e \<in> set T \<and> set (tgEdgePools r ! e) \<subseteq> set P"
    using sel by (simp_all add: selection_def)
  have "distinct (map (\<lambda>i. tgTokens r ! i) T)"
    using d(2) T index_inv_distinct [OF lay(1)] by (simp add: distinct_map inj_on_def nth_eq_iff_index_eq)
  moreover have "distinct (map (\<lambda>i. tgPools r ! i) P)"
    using d(3) P index_inv_distinct [OF lay(2)] by (simp add: distinct_map inj_on_def nth_eq_iff_index_eq)
  moreover have "distinct (map (map_read (renumber P)) (tgEdgePools r ! e)) \<and>
      set (map (map_read (renumber P)) (tgEdgePools r ! e)) \<subseteq> {..<length P}" if "e \<in> set E" for e
    using E [OF that] lay(4,6) map_read_renumber(1) [OF d(3)] inj_on_subset [OF map_read_renumber_inj [OF d(3)]]
    by (auto simp: distinct_map)
  moreover have "map_read (renumber T) (tgEdgeTargets r ! e) < length T" if "e \<in> set E" for e
    using E [OF that] map_read_renumber(1) [OF d(2)] by blast
  ultimately show ?thesis by (simp add: graph_layout_def rebuild_def lookup_map_inv)
qed

lemma rebuild_graph_adj:
  assumes inv: "graph_inv r" and sel: "selection E T P r"
  shows "graph_adj (rebuild E T P r)"
proof -
  let ?r = "rebuild E T P r"
  note lay = graph_layoutD [OF graph_invD(1) [OF inv]] and adj = graph_adjD [OF graph_invD(2) [OF inv]]
  have d: "distinct E" "distinct T" and T: "\<And>n. n < length T \<Longrightarrow> T ! n < length (tgAdjacency r)"
    and E: "\<And>m. m < length E \<Longrightarrow> E ! m < length (tgEdgeTargets r) \<and> tgEdgeTargets r ! (E ! m) \<in> set T"
    using sel lay(3) by (simp_all add: selection_def)
  note A = rebuild_adj [OF sel]
  have inj: "inj_on (\<lambda>m. tgEdgeTargets ?r ! m) (set (tgAdjacency ?r ! n))" if n: "n < length T" for n
  proof (rule inj_onI)
    fix x y assume m: "x \<in> set (tgAdjacency ?r ! n)" "y \<in> set (tgAdjacency ?r ! n)"
      and eq: "tgEdgeTargets ?r ! x = tgEdgeTargets ?r ! y"
    then have xy: "x < length E" "y < length E" "E ! x \<in> set (tgAdjacency r ! (T ! n))" "E ! y \<in> set (tgAdjacency r ! (T ! n))"
      using A [OF n] by simp_all
    then have "tgEdgeTargets r ! (E ! x) = tgEdgeTargets r ! (E ! y)"
      using eq E inj_onD [OF map_read_renumber_inj [OF d(2)]] by (simp add: rebuild_def)
    then have "E ! x = E ! y" using inj_onD [OF adj(3) [OF T [OF n]]] xy(3,4) by blast
    then show "x = y" using d(1) xy(1,2) by (simp add: nth_eq_iff_index_eq)
  qed
  have dis: "distinct (tgAdjacency ?r ! n)" if n: "n < length T" for n
    using n adj(1) [OF T [OF n]] d(1) by (simp add: rebuild_def distinct_map_filter_renumber)
  have own: "n = n'" if "n < length T" "n' < length T" "m \<in> set (tgAdjacency ?r ! n)" "m \<in> set (tgAdjacency ?r ! n')" for n n' m
    using adj(4) [OF T [OF that(1)] T [OF that(2)]] that(3,4) A [OF that(1)] A [OF that(2)] d(2) that(1,2)
    by (metis nth_eq_iff_index_eq)
  have live: "\<exists>n < length T. m \<in> set (tgAdjacency ?r ! n)" if m: "m < length E" "tgEdgePools ?r ! m \<noteq> []" for m
  proof -
    have "E ! m < length (tgEdgePools r)" "tgEdgePools r ! (E ! m) \<noteq> []" using m E lay(4) by (auto simp: rebuild_def)
    then obtain i where i: "i < length (tgAdjacency r)" "E ! m \<in> set (tgAdjacency r ! i)"
      by (rule graph_adj_live [OF graph_invD(2) [OF inv]])
    then have "i \<in> set T" using sel \<open>tgEdgePools r ! (E ! m) \<noteq> []\<close> lay(3) unfolding selection_def by metis
    then obtain n where "n < length T" "T ! n = i" by (auto simp: in_set_conv_nth)
    then show ?thesis using A i(2) m(1) by metis
  qed
  have l: "length (tgAdjacency ?r) = length T" "length (tgEdgeTargets ?r) = length E" "length (tgEdgePools ?r) = length E"
    by (simp_all add: rebuild_def)
  show ?thesis unfolding graph_adj_def l using inj dis own live A by metis
qed

lemma rebuild_edges:
  assumes inv: "graph_inv r" and sel: "selection E T P r"
  shows "graph_edges (rebuild E T P r) = graph_edges r"
proof -
  let ?r = "rebuild E T P r"
  note lay = graph_layoutD [OF graph_invD(1) [OF inv]]
  have d: "distinct E" "distinct T" "distinct P" and T: "\<And>n. n < length T \<Longrightarrow> T ! n < length (tgAdjacency r)"
    and E: "\<And>e. e \<in> set E \<Longrightarrow> tgEdgeTargets r ! e \<in> set T \<and> set (tgEdgePools r ! e) \<subseteq> set P"
    using sel lay(3) by (simp_all add: selection_def)
  note A = rebuild_adj [OF sel]
  have tok: "tgTokens ?r ! map_read (renumber T) t = tgTokens r ! t" if "t \<in> set T" for t
    using map_read_renumber [OF d(2) that] by (simp add: rebuild_def)
  have pool: "tgPools ?r ! map_read (renumber P) p = tgPools r ! p" if "p \<in> set P" for p
    using map_read_renumber [OF d(3) that] by (simp add: rebuild_def)
  show ?thesis
  proof (intro equalityI subsetI)
    fix x assume "x \<in> graph_edges ?r"
    then obtain n m p where nm: "n < length T" "m \<in> set (tgAdjacency ?r ! n)" "p \<in> set (tgEdgePools ?r ! m)"
      "x = (tgTokens ?r ! n, tgTokens ?r ! (tgEdgeTargets ?r ! m), tgPools ?r ! p)"
      by (auto simp: graph_edges_def index_edges_def rebuild_def)
    then have m: "m < length E" "E ! m \<in> set (tgAdjacency r ! (T ! n))" using A by simp_all
    then obtain q where q: "q \<in> set (tgEdgePools r ! (E ! m))" "p = map_read (renumber P) q"
      using nm(3) by (auto simp: rebuild_def)
    have "E ! m \<in> set E" using m(1) by simp
    then have "x = (tgTokens r ! (T ! n), tgTokens r ! (tgEdgeTargets r ! (E ! m)), tgPools r ! q)"
      using nm(1,4) m(1) q(2) tok [of "tgEdgeTargets r ! (E ! m)"] pool [of q] E [of "E ! m"] q(1)
      by (auto simp: rebuild_def)
    moreover have "(T ! n, tgEdgeTargets r ! (E ! m), q) \<in> index_edges r"
      using T [OF nm(1)] m(2) q(1) by (auto simp: index_edges_iff)
    ultimately show "x \<in> graph_edges r" unfolding graph_edges_def by force
  next
    fix x assume "x \<in> graph_edges r"
    then obtain i e p where e: "i < length (tgAdjacency r)" "e \<in> set (tgAdjacency r ! i)" "p \<in> set (tgEdgePools r ! e)"
      "x = (tgTokens r ! i, tgTokens r ! (tgEdgeTargets r ! e), tgPools r ! p)"
      by (auto simp: graph_edges_def index_edges_def)
    then have "tgEdgePools r ! e \<noteq> []" "i < length (tgTokens r)" using lay(3) by auto
    with e(2) have "e \<in> set E" "i \<in> set T" using sel unfolding selection_def by blast+
    then obtain n m where nm: "n < length T" "T ! n = i" "m < length E" "E ! m = e" by (auto simp: in_set_conv_nth)
    have "(n, tgEdgeTargets ?r ! m, map_read (renumber P) p) \<in> index_edges ?r"
    proof -
      have "m \<in> set (tgAdjacency ?r ! n)" using nm e(2) A [OF nm(1), of m] by simp
      moreover have "map_read (renumber P) p \<in> set (tgEdgePools ?r ! m)" using nm(3,4) e(3) by (simp add: rebuild_def)
      moreover have "n < length (tgAdjacency ?r)" using nm(1) by (simp add: rebuild_def)
      ultimately show ?thesis unfolding index_edges_iff by blast
    qed
    moreover have "x = (tgTokens ?r ! n, tgTokens ?r ! (tgEdgeTargets ?r ! m), tgPools ?r ! map_read (renumber P) p)"
      using e(3,4) nm E [OF \<open>e \<in> set E\<close>] tok [of "tgEdgeTargets r ! e"] pool [of p] by (auto simp: rebuild_def)
    ultimately show "x \<in> graph_edges ?r" unfolding graph_edges_def by force
  qed
qed

lemma compact_rebuild:
  assumes inv: "graph_inv r"
  shows "selection (live_edges r) (kept_tokens r) (kept_pools r) r"
    and "compact r = (if tgDanglingEdgeCount r = 0 then r else rebuild (live_edges r) (kept_tokens r) (kept_pools r) r)"
proof -
  note lay = graph_layoutD [OF graph_invD(1) [OF inv]] and adj = graph_adjD [OF graph_invD(2) [OF inv]]
  note kt = kept_tokens_iff [OF graph_invD(1) [OF inv]]
  have "i < length (tgTokens r) \<and> e \<in> set (tgAdjacency r ! i) \<and> tgEdgePools r ! e \<noteq> [] \<longrightarrow> e \<in> set (live_edges r) \<and> i \<in> set (kept_tokens r)" for i e
    using adj(2) [of i e] lay(3,4) by (auto simp: live_edges_iff kt)
  moreover have "e < length (tgEdgeTargets r) \<and> tgEdgeTargets r ! e \<in> set (kept_tokens r) \<and> set (tgEdgePools r ! e) \<subseteq> set (kept_pools r)"
    if e: "e \<in> set (live_edges r)" for e
  proof -
    have "e < length (tgEdgeTargets r)" using e lay(4) by (simp add: live_edges_iff)
    then show ?thesis using e lay(4,5,7) by (auto simp: kt kept_pools_iff)
  qed
  moreover have "\<forall>i \<in> set (kept_tokens r). i < length (tgTokens r)" "\<forall>p \<in> set (kept_pools r). p < length (tgPools r)"
    by (simp_all add: kt kept_pools_iff)
  ultimately show "selection (live_edges r) (kept_tokens r) (kept_pools r) r"
    unfolding selection_def by (intro conjI distinct_live_edges distinct_kept ballI allI) blast+
  have "i < length (tgAdjacency r)" if "i \<in> set (kept_tokens r)" for i using that lay(3) by (simp add: kt)
  then show "compact r = (if tgDanglingEdgeCount r = 0 then r else rebuild (live_edges r) (kept_tokens r) (kept_pools r) r)"
    by (auto simp: compact_def Let_def rebuild_def intro!: map_cong)
qed

lemma compact_spec:
  assumes inv: "graph_inv r"
  shows "graph_inv (compact r)" and "graph_edges (compact r) = graph_edges r"
  using compact_rebuild [OF inv] rebuild_layout [OF inv] rebuild_graph_adj [OF inv] rebuild_edges [OF inv] inv
  by (simp_all add: graph_inv_def)

section \<open>Counting dangling edges\<close>

definition dangling_edges :: "TokenPoolsRegistry \<Rightarrow> nat" where
  "dangling_edges r = length (filter (\<lambda>ps. ps = []) (tgEdgePools r))"

text \<open>The counter never undercounts, and never exceeds the threshold between two operations.\<close>

definition dangling_ok :: "TokenPoolsRegistry \<Rightarrow> bool" where
  "dangling_ok r \<longleftrightarrow> dangling_edges r \<le> tgDanglingEdgeCount r"

definition dangling_bound :: "TokenPoolsRegistry \<Rightarrow> bool" where
  "dangling_bound r \<longleftrightarrow> dangling_ok r \<and> tgDanglingEdgeCount r \<le> tgCompactionThreshold r"

lemma length_filter_update:
  assumes "i < length xs"
  shows "length (filter Q (xs[i := x])) + (if Q (xs ! i) then 1 else 0) = length (filter Q xs) + (if Q x then 1 else 0)"
proof -
  have "filter Q xs = filter Q (take i xs @ xs ! i # drop (Suc i) xs)"
    by (rule arg_cong [OF id_take_nth_drop [OF assms]])
  moreover have "xs[i := x] = take i xs @ x # drop (Suc i) xs" using assms by (simp add: upd_conv_take_nth_drop)
  ultimately show ?thesis unfolding filter_append by simp
qed

lemma clearEdges_dangling: "dangling_ok r \<Longrightarrow> dangling_ok (foldl clearEdge r es)"
proof (induction es arbitrary: r)
  case (Cons e es)
  have "dangling_ok (clearEdge r e)"
    using Cons.prems length_filter_update [of e "tgEdgePools r" "\<lambda>ps. ps = []" "[]"]
    by (cases "e < length (tgEdgePools r)") (auto simp: clearEdge_def dangling_ok_def dangling_edges_def not_less list_update_beyond)
  then show ?case using Cons.IH by simp
qed simp

section \<open>Removing\<close>

text \<open>Shrinking pool lists, and emptying the adjacency of a token whose edges carry no pool.\<close>

lemma graph_inv_shrink:
  assumes inv: "graph_inv r" and len: "length ps = length (tgEdgePools r)"
    and sub: "\<And>e. e < length (tgEdgePools r) \<Longrightarrow> set (ps ! e) \<subseteq> set (tgEdgePools r ! e) \<and> distinct (ps ! e)"
  shows "graph_inv (r\<lparr>tgEdgePools := ps, tgDanglingEdgeCount := n\<rparr>)"
proof -
  have "graph_layout (r\<lparr>tgEdgePools := ps, tgDanglingEdgeCount := n\<rparr>)"
    using graph_invD(1) [OF inv] len sub by (fastforce simp: graph_layout_def)
  moreover have "ps ! e \<noteq> [] \<Longrightarrow> tgEdgePools r ! e \<noteq> []" if "e < length (tgEdgePools r)" for e
    using sub [OF that] by auto
  then have "graph_adj (r\<lparr>tgEdgePools := ps, tgDanglingEdgeCount := n\<rparr>)"
    using graph_invD(2) [OF inv] len by (simp add: graph_adj_def)
  ultimately show ?thesis by (simp add: graph_inv_def)
qed

lemma graph_inv_drop_adjacency:
  assumes inv: "graph_inv r" and i: "i < length (tgAdjacency r)" and dead: "\<And>e. e \<in> set (tgAdjacency r ! i) \<Longrightarrow> tgEdgePools r ! e = []"
  shows "graph_inv (r\<lparr>tgAdjacency := (tgAdjacency r)[i := []]\<rparr>)"
proof -
  let ?r = "r\<lparr>tgAdjacency := (tgAdjacency r)[i := []]\<rparr>"
  have "graph_layout ?r" using graph_invD(1) [OF inv] by (simp add: graph_layout_def)
  moreover have "\<exists>j < length (tgAdjacency r). e \<in> set ((tgAdjacency r)[i := []] ! j)"
    if e: "e < length (tgEdgePools r)" "tgEdgePools r ! e \<noteq> []" for e
  proof -
    obtain j where j: "j < length (tgAdjacency r)" "e \<in> set (tgAdjacency r ! j)"
      by (rule graph_adj_live [OF graph_invD(2) [OF inv] e])
    then have "j \<noteq> i" using dead e(2) by auto
    then show ?thesis using j by auto
  qed
  then have "graph_adj ?r"
    using graph_invD(2) [OF inv] i by (auto simp: graph_adj_def nth_list_update)
  ultimately show ?thesis by (simp add: graph_inv_def)
qed

lemma compact_if_needed_spec:
  assumes "graph_inv r"
  shows "graph_inv (compact_if_needed r)" and "graph_edges (compact_if_needed r) = graph_edges r"
  using assms compact_spec [OF assms] by (simp_all add: compact_if_needed_def)

lemma fst_removeFromList: "fst (removeFromList i ps) = filter (\<lambda>p. p \<noteq> i) ps"
  by (auto simp: removeFromList_def Let_def intro!: filter_True [symmetric])

lemma graph_edges_restrict:
  assumes "tgTokens r1 = tgTokens r" and "tgPools r1 = tgPools r" and "index_edges r1 = {x \<in> index_edges r. R x}"
    and "\<And>i t q. (i, t, q) \<in> index_edges r \<Longrightarrow> R (i, t, q) \<longleftrightarrow> Q (tgTokens r ! i, tgTokens r ! t, tgPools r ! q)"
  shows "graph_edges r1 = {x \<in> graph_edges r. Q x}"
proof -
  let ?f = "\<lambda>(i, t, p). (tgTokens r ! i, tgTokens r ! t, tgPools r ! p)"
  have "\<forall>x \<in> index_edges r. R x \<longleftrightarrow> Q (?f x)" using assms(4) by (simp add: split_paired_all)
  then have "?f ` {x \<in> index_edges r. R x} = {y \<in> ?f ` index_edges r. Q y}" by blast
  then show ?thesis unfolding graph_edges_def assms(1-3) .
qed

lemma removePool_spec:
  assumes inv: "graph_inv r"
  shows "graph_inv (removePool p r)" and "graph_edges (removePool p r) = {x \<in> graph_edges r. snd (snd x) \<noteq> p}"
proof -
  note lay = graph_layoutD [OF graph_invD(1) [OF inv]]
  have "graph_inv (removePool p r) \<and> graph_edges (removePool p r) = {x \<in> graph_edges r. snd (snd x) \<noteq> p}"
  proof (cases "tgPoolToIndex r p")
    case None
    then have "p \<notin> set (tgPools r)" using index_inv_None_iff [OF lay(2)] by simp
    then have "snd (snd x) \<noteq> p" if "x \<in> graph_edges r" for x
      using index_edges_range(3) [OF inv] that by (auto simp: graph_edges_def)
    then show ?thesis using None inv by (auto simp: removePool_def)
  next
    case (Some k)
    define n where "n = tgDanglingEdgeCount r + length (filter snd (map (removeFromList k) (tgEdgePools r)))"
    define r1 where "r1 = r\<lparr>tgEdgePools := map (filter (\<lambda>q. q \<noteq> k)) (tgEdgePools r), tgDanglingEdgeCount := n\<rparr>"
    have rp: "removePool p r = compact_if_needed r1"
      using Some by (simp add: removePool_def Let_def r1_def n_def fst_removeFromList comp_def)
    have inv1: "graph_inv r1" unfolding r1_def by (rule graph_inv_shrink [OF inv]) (auto simp: lay(6))
    have ie: "index_edges r1 = {x \<in> index_edges r. snd (snd x) \<noteq> k}"
      using graph_adjD(2) [OF graph_invD(2) [OF inv]] lay(4)
      by (fastforce simp: index_edges_def r1_def)
    have k: "k < length (tgPools r)" "tgPools r ! k = p" using index_invD [OF lay(2) Some] by auto
    have "tgPools r ! q = p \<longleftrightarrow> q = k" if "q < length (tgPools r)" for q
      using that k index_inv_distinct [OF lay(2)] by (auto simp: nth_eq_iff_index_eq)
    then have "graph_edges r1 = {x \<in> graph_edges r. snd (snd x) \<noteq> p}"
      using index_edges_range(3) [OF inv] graph_edges_restrict [OF _ _ ie, where Q = "\<lambda>x. snd (snd x) \<noteq> p"]
      by (simp add: r1_def)
    then show ?thesis using compact_if_needed_spec [OF inv1] by (simp add: rp)
  qed
  then show "graph_inv (removePool p r)" and "graph_edges (removePool p r) = {x \<in> graph_edges r. snd (snd x) \<noteq> p}" by blast+
qed

lemma clearEdges:
  "\<forall>e \<in> set es. e < length (tgEdgePools r) \<Longrightarrow>
   \<exists>n. foldl clearEdge r es = r\<lparr>tgEdgePools := map (\<lambda>e. if e \<in> set es then [] else tgEdgePools r ! e) [0..<length (tgEdgePools r)],
     tgDanglingEdgeCount := n\<rparr>"
proof (induction es arbitrary: r)
  case Nil
  have "map (\<lambda>e. if e \<in> set [] then [] else tgEdgePools r ! e) [0..<length (tgEdgePools r)] = tgEdgePools r"
    by (simp add: map_nth)
  then show ?case by (intro exI [of _ "tgDanglingEdgeCount r"]) simp
next
  case (Cons e es)
  have "length (tgEdgePools (clearEdge r e)) = length (tgEdgePools r)" by (simp add: clearEdge_def)
  then obtain n where n: "foldl clearEdge (clearEdge r e) es = (clearEdge r e)\<lparr>tgEdgePools :=
      map (\<lambda>x. if x \<in> set es then [] else tgEdgePools (clearEdge r e) ! x) [0..<length (tgEdgePools r)], tgDanglingEdgeCount := n\<rparr>"
    using Cons.IH [of "clearEdge r e"] Cons.prems by auto
  have "map (\<lambda>x. if x \<in> set es then [] else tgEdgePools (clearEdge r e) ! x) [0..<length (tgEdgePools r)] =
      map (\<lambda>x. if x \<in> set (e # es) then [] else tgEdgePools r ! x) [0..<length (tgEdgePools r)]"
    using Cons.prems by (auto simp: clearEdge_def nth_list_update)
  moreover have "(clearEdge r e)\<lparr>tgEdgePools := X, tgDanglingEdgeCount := n\<rparr> = r\<lparr>tgEdgePools := X, tgDanglingEdgeCount := n\<rparr>" for X
    by (simp add: clearEdge_def)
  ultimately show ?case unfolding foldl_Cons n by metis
qed

lemma removeToken_shape:
  assumes inv: "graph_inv r" and Some: "tgTokenToIndex r t = Some k"
  obtains r3 where "removeToken t r = compact_if_needed r3" and "graph_inv r3"
    and "index_edges r3 = {x \<in> index_edges r. fst x \<noteq> k \<and> fst (snd x) \<noteq> k}"
    and "tgTokens r3 = tgTokens r" and "tgPools r3 = tgPools r" and "dangling_ok r \<Longrightarrow> dangling_ok r3"
proof -
  note lay = graph_layoutD [OF graph_invD(1) [OF inv]] and adj = graph_adjD [OF graph_invD(2) [OF inv]]
  have k: "k < length (tgTokens r)" "tgTokens r ! k = t" using index_invD [OF lay(1) Some] by auto
  then have ka: "k < length (tgAdjacency r)" using lay(3) by simp
  let ?len = "length (tgEdgePools r)"
  let ?clear = "\<lambda>S ps. map (\<lambda>e. if e \<in> S then [] else ps ! e) [0..<?len]"
  have "\<forall>e \<in> set (tgAdjacency r ! k). e < ?len" using adj(2) [OF ka] lay(4) by auto
  from clearEdges [OF this] obtain n1 where r1: "foldl clearEdge r (tgAdjacency r ! k) =
    r\<lparr>tgEdgePools := ?clear (set (tgAdjacency r ! k)) (tgEdgePools r), tgDanglingEdgeCount := n1\<rparr>" by blast
  define r1 where "r1 = r\<lparr>tgEdgePools := ?clear (set (tgAdjacency r ! k)) (tgEdgePools r), tgDanglingEdgeCount := n1\<rparr>"
  define r2 where "r2 = r1\<lparr>tgAdjacency := (tgAdjacency r1)[k := []]\<rparr>"
  define inc where "inc = filter (\<lambda>e. tgEdgeTargets r1 ! e = k) [0..<length (tgEdgeTargets r1)]"
  have i1: "graph_inv r1" unfolding r1_def by (rule graph_inv_shrink [OF inv]) (auto simp: lay(6))
  have i2: "graph_inv r2" unfolding r2_def
    by (rule graph_inv_drop_adjacency [OF i1]) (use ka adj(2) [OF ka] lay(4) in \<open>auto simp: r1_def\<close>)
  have l2: "length (tgEdgePools r2) = ?len" "tgEdgeTargets r1 = tgEdgeTargets r" by (simp_all add: r2_def r1_def)
  have "\<forall>e \<in> set inc. e < length (tgEdgePools r2)" by (simp add: inc_def l2 lay(4))
  from clearEdges [OF this] obtain n3 where "foldl clearEdge r2 inc =
    r2\<lparr>tgEdgePools := ?clear (set inc) (tgEdgePools r2), tgDanglingEdgeCount := n3\<rparr>" unfolding l2 by blast
  note r3 = this
  define r3 where "r3 = r2\<lparr>tgEdgePools := ?clear (set inc) (tgEdgePools r2), tgDanglingEdgeCount := n3\<rparr>"
  have i3: "graph_inv r3" unfolding r3_def
    by (rule graph_inv_shrink [OF i2]) (auto simp: l2 graph_layoutD(6) [OF graph_invD(1) [OF i2]])
  have rt: "removeToken t r = compact_if_needed r3"
    using Some by (simp add: removeToken_def Let_def r1 r1_def [symmetric] r2_def [symmetric] inc_def [symmetric] r3 r3_def)
  have A: "tgAdjacency r3 ! i = (if i = k then [] else tgAdjacency r ! i)" if "i < length (tgAdjacency r)" for i
    using that by (simp add: r3_def r2_def r1_def)
  have P: "tgEdgePools r3 ! e = (if tgEdgeTargets r ! e = k then [] else tgEdgePools r ! e)"
    if "i < length (tgAdjacency r)" "i \<noteq> k" "e \<in> set (tgAdjacency r ! i)" for i e
  proof -
    have "e < ?len" using adj(2) [OF that(1,3)] lay(4) by simp
    moreover have "e \<notin> set (tgAdjacency r ! k)" using adj(4) [OF that(1) ka that(3)] that(2) by blast
    ultimately show ?thesis by (auto simp: r3_def inc_def l2 lay(4)) (auto simp: r2_def r1_def lay(4))
  qed
  have "x \<in> index_edges r3 \<longleftrightarrow> x \<in> index_edges r \<and> fst x \<noteq> k \<and> fst (snd x) \<noteq> k" for x
  proof -
    obtain i u q where x: "x = (i, u, q)" by (cases x)
    have "length (tgAdjacency r3) = length (tgAdjacency r)" "tgEdgeTargets r3 = tgEdgeTargets r"
      by (simp_all add: r3_def r2_def r1_def)
    then show ?thesis
      by (cases "i < length (tgAdjacency r) \<and> i \<noteq> k") (auto simp: x index_edges_iff A P split: if_splits)
  qed
  then have ie: "index_edges r3 = {x \<in> index_edges r. fst x \<noteq> k \<and> fst (snd x) \<noteq> k}" by blast
  have "dangling_ok r3" if d: "dangling_ok r"
  proof -
    have "dangling_ok r1" using clearEdges_dangling [OF d, of "tgAdjacency r ! k"] by (simp add: r1 r1_def)
    then have "dangling_ok r2" by (simp add: r2_def dangling_ok_def dangling_edges_def)
    from clearEdges_dangling [OF this, of inc] show ?thesis by (simp add: r3 r3_def)
  qed
  moreover have "tgTokens r3 = tgTokens r" "tgPools r3 = tgPools r" by (simp_all add: r3_def r2_def r1_def)
  ultimately show thesis using that [OF rt i3 ie] by blast
qed

lemma removeToken_spec:
  assumes inv: "graph_inv r"
  shows "graph_inv (removeToken t r)"
    and "graph_edges (removeToken t r) = {x \<in> graph_edges r. fst x \<noteq> t \<and> fst (snd x) \<noteq> t}"
proof -
  note lay = graph_layoutD [OF graph_invD(1) [OF inv]]
  have "graph_inv (removeToken t r) \<and> graph_edges (removeToken t r) = {x \<in> graph_edges r. fst x \<noteq> t \<and> fst (snd x) \<noteq> t}"
  proof (cases "tgTokenToIndex r t")
    case None
    then have "t \<notin> set (tgTokens r)" using index_inv_None_iff [OF lay(1)] by simp
    then have "fst x \<noteq> t \<and> fst (snd x) \<noteq> t" if "x \<in> graph_edges r" for x
      using index_edges_range(1,2) [OF inv] that by (auto simp: graph_edges_def)
    then show ?thesis using None inv by (auto simp: removeToken_def)
  next
    case (Some k)
    have k: "k < length (tgTokens r)" "tgTokens r ! k = t" using index_invD [OF lay(1) Some] by auto
    obtain r3 where r3: "removeToken t r = compact_if_needed r3" "graph_inv r3"
      "index_edges r3 = {x \<in> index_edges r. fst x \<noteq> k \<and> fst (snd x) \<noteq> k}"
      "tgTokens r3 = tgTokens r" "tgPools r3 = tgPools r" by (rule removeToken_shape [OF inv Some])
    have "tgTokens r ! i = t \<longleftrightarrow> i = k" if "i < length (tgTokens r)" for i
      using that k index_inv_distinct [OF lay(1)] by (auto simp: nth_eq_iff_index_eq)
    then have "graph_edges r3 = {x \<in> graph_edges r. fst x \<noteq> t \<and> fst (snd x) \<noteq> t}"
      using index_edges_range(1,2) [OF inv] by (intro graph_edges_restrict [OF r3(4,5,3)]) auto
    then show ?thesis using compact_if_needed_spec [OF r3(2)] by (simp add: r3(1))
  qed
  then show "graph_inv (removeToken t r)"
    and "graph_edges (removeToken t r) = {x \<in> graph_edges r. fst x \<noteq> t \<and> fst (snd x) \<noteq> t}" by blast+
qed

lemma poolsForToken_spec:
  assumes inv: "graph_inv r" and ord: "range_order ord"
  shows "set (poolsForToken ord t r) = {p. \<exists>b. (t, b, p) \<in> graph_edges r}" and "distinct (poolsForToken ord t r)"
proof -
  note lay = graph_layoutD [OF graph_invD(1) [OF inv]] and adj = graph_adjD [OF graph_invD(2) [OF inv]]
  have "set (poolsForToken ord t r) = {p. \<exists>b. (t, b, p) \<in> graph_edges r} \<and> distinct (poolsForToken ord t r)"
  proof (cases "tgTokenToIndex r t")
    case None
    then have "t \<notin> set (tgTokens r)" using index_inv_None_iff [OF lay(1)] by simp
    then have "(t, b, p) \<notin> graph_edges r" for b p
      using index_edges_range(1) [OF inv] by (auto simp: graph_edges_def)
    then show ?thesis using None by (simp add: poolsForToken_def)
  next
    case (Some k)
    have k: "k < length (tgTokens r)" "tgTokens r ! k = t" using index_invD [OF lay(1) Some] by auto
    define found where "found = [tgPools r ! p. e \<leftarrow> tgAdjacency r ! k, p \<leftarrow> tgEdgePools r ! e, p < length (tgPools r)]"
    have ka: "k < length (tgAdjacency r)" using k(1) lay(3) by simp
    have found: "set found = {p. \<exists>b. (t, b, p) \<in> graph_edges r}"
    proof (intro equalityI subsetI CollectI)
      fix p assume "p \<in> set found"
      then obtain e q where e: "e \<in> set (tgAdjacency r ! k)" "q \<in> set (tgEdgePools r ! e)" "p = tgPools r ! q"
        by (auto simp: found_def)
      then have "(k, tgEdgeTargets r ! e, q) \<in> index_edges r" using ka by (auto simp: index_edges_iff)
      then show "\<exists>b. (t, b, p) \<in> graph_edges r" unfolding graph_edges_def e(3) k(2) [symmetric] by force
    next
      fix p assume "p \<in> {p. \<exists>b. (t, b, p) \<in> graph_edges r}"
      then obtain i u q where iu: "(i, u, q) \<in> index_edges r" "tgTokens r ! i = t" "p = tgPools r ! q"
        by (auto simp: graph_edges_def)
      note rg = index_edges_range [OF inv iu(1)]
      have "i = k" using rg(1) iu(2) k index_inv_distinct [OF lay(1)] by (metis nth_eq_iff_index_eq)
      then show "p \<in> set found" using iu(1,3) rg(3) by (auto simp: found_def index_edges_iff)
    qed
    have d: "distinct (map fst (map (\<lambda>p. (p, ())) (remdups found)))" by (simp add: comp_def)
    have "poolsForToken ord t r = map fst (ord (map (\<lambda>p. (p, ())) (remdups found)))"
      using Some by (simp add: poolsForToken_def found_def Let_def)
    then show ?thesis using range_order_set [OF ord] range_order_distinct [OF ord] d found
      by (auto simp: image_image comp_def)
  qed
  then show "set (poolsForToken ord t r) = {p. \<exists>b. (t, b, p) \<in> graph_edges r}" and "distinct (poolsForToken ord t r)" by blast+
qed

section \<open>The bound on dangling edges\<close>

lemma linkIndices_dangling:
  assumes "graph_inv r" and "f < length (tgTokens r)"
  shows "dangling_edges (linkIndices f t p r) \<le> dangling_edges r"
    and "tgDanglingEdgeCount (linkIndices f t p r) = tgDanglingEdgeCount r"
    and "tgCompactionThreshold (linkIndices f t p r) = tgCompactionThreshold r"
proof -
  show "dangling_edges (linkIndices f t p r) \<le> dangling_edges r"
  proof (cases "List.find (\<lambda>e. tgEdgeTargets r ! e = t) (tgAdjacency r ! f)")
    case None
    then show ?thesis by (simp add: linkIndices_def dangling_edges_def Let_def)
  next
    case (Some e)
    then have "e \<in> set (tgAdjacency r ! f)" by (auto simp: find_Some_iff)
    then have "e < length (tgEdgePools r)"
      using graph_adjD(2) [OF graph_invD(2) [OF assms(1)]] graph_layoutD(3,4) [OF graph_invD(1) [OF assms(1)]] assms(2) by simp
    from length_filter_update [OF this, of "\<lambda>ps. ps = []" "tgEdgePools r ! e @ [p]"] show ?thesis
      using Some by (auto simp: linkIndices_def dangling_edges_def split: if_splits)
  qed
qed (simp_all add: linkIndices_def Let_def split: option.split)

lemma addEdge_dangling:
  assumes "graph_inv r" and "dangling_bound r"
  shows "dangling_bound (addEdge a b p r)"
proof -
  obtain fi r1 where 1: "internToken a r = (fi, r1)" by fastforce
  note s1 = internToken_spec [OF assms(1) 1]
  obtain ti r2 where 2: "internToken b r1 = (ti, r2)" by fastforce
  note s2 = internToken_spec [OF s1(1) 2]
  obtain pi r3 where 3: "internPool p r2 = (pi, r3)" by fastforce
  note s3 = internPool_spec [OF s2(1) 3]
  have f: "fi < length (tgTokens r3)" using s1(2) s2(5) s3(6) by auto
  note l = linkIndices_dangling [OF s3(1) f, of ti pi]
  have "dangling_edges r3 = dangling_edges r" using s1(8) s2(8) s3(8) by (simp add: dangling_edges_def)
  then show ?thesis
    using assms(2) l s1(9,10) s2(9,10) s3(9,10) by (simp add: dangling_bound_def dangling_ok_def addEdge_def 1 2 3)
qed

lemma graph_add_dangling:
  assumes "graph_inv r" and "dangling_bound r"
  shows "dangling_bound (graph_add ts p r)"
proof -
  have loop: "graph_inv (foldl (\<lambda>r b. addEdge b a p (addEdge a b p r)) r bs) \<and> dangling_bound (foldl (\<lambda>r b. addEdge b a p (addEdge a b p r)) r bs)"
    if "graph_inv r" "dangling_bound r" for a bs p r
    using that by (induction bs arbitrary: r) (simp_all add: addEdge_spec(1) addEdge_dangling)
  show ?thesis using assms
    by (induction ts p r rule: graph_add.induct) (simp_all add: loop)
qed

lemma compact_dangling:
  assumes "graph_inv r" and "dangling_ok r"
  shows "dangling_bound (compact_if_needed r)"
proof -
  have "dangling_edges (rebuild (live_edges r) (kept_tokens r) (kept_pools r) r) = 0"
    by (auto simp: dangling_edges_def rebuild_def filter_empty_conv live_edges_iff)
  then show ?thesis
    using assms(2) compact_rebuild(2) [OF assms(1)]
    by (auto simp: compact_if_needed_def dangling_bound_def dangling_ok_def rebuild_def)
qed

lemma removePool_dangling:
  assumes inv: "graph_inv r" and b: "dangling_bound r"
  shows "dangling_bound (removePool p r)"
proof (cases "tgPoolToIndex r p")
  case None
  then show ?thesis using b by (simp add: removePool_def)
next
  case (Some k)
  define n where "n = tgDanglingEdgeCount r + length (filter snd (map (removeFromList k) (tgEdgePools r)))"
  define r1 where "r1 = r\<lparr>tgEdgePools := map (filter (\<lambda>q. q \<noteq> k)) (tgEdgePools r), tgDanglingEdgeCount := n\<rparr>"
  have el: "ps = [] \<or> snd (removeFromList k ps)" if "filter (\<lambda>q. q \<noteq> k) ps = []" for ps
    using that by (cases ps) (simp_all add: removeFromList_def Let_def split: if_splits)
  have le: "length (filter (\<lambda>ps. ps = []) (map (filter (\<lambda>q. q \<noteq> k)) pss)) \<le>
      length (filter (\<lambda>ps. ps = []) pss) + length (filter snd (map (removeFromList k) pss))" for pss
  proof (induction pss)
    case (Cons ps pss)
    then show ?case using el [of ps] by (cases "filter (\<lambda>q. q \<noteq> k) ps = []") auto
  qed simp
  have "dangling_edges r1 = length (filter (\<lambda>ps. ps = []) (map (filter (\<lambda>q. q \<noteq> k)) (tgEdgePools r)))"
    by (simp add: dangling_edges_def r1_def)
  moreover have "tgDanglingEdgeCount r1 = n" by (simp add: r1_def)
  ultimately have "dangling_ok r1" using b le [of "tgEdgePools r"]
    unfolding dangling_ok_def dangling_bound_def dangling_edges_def n_def by linarith
  moreover have "graph_inv r1" unfolding r1_def
    by (rule graph_inv_shrink [OF inv]) (auto simp: graph_layoutD(6) [OF graph_invD(1) [OF inv]])
  ultimately show ?thesis
    using Some compact_dangling [of r1] by (simp add: removePool_def Let_def r1_def n_def fst_removeFromList comp_def)
qed

lemma removeToken_dangling:
  assumes inv: "graph_inv r" and b: "dangling_bound r"
  shows "dangling_bound (removeToken t r)"
proof (cases "tgTokenToIndex r t")
  case None
  then show ?thesis using b by (simp add: removeToken_def)
next
  case (Some k)
  have "dangling_ok r" using b by (simp add: dangling_bound_def)
  then show ?thesis
    by (rule_tac removeToken_shape [OF inv Some]) (simp add: compact_dangling)
qed

section \<open>The registry as a graph of triples\<close>

interpretation graph: edge_graph graph_inv graph_edges graph_add removePool removeToken poolsForToken
  by unfold_locales
    (simp_all add: graph_add_spec removePool_spec removeToken_spec poolsForToken_spec)

end
