(* ===== verification/Token_Pools_System.thy ===== *)
theory Token_Pools_System
  imports Token_Pools_Graph
begin

text \<open>
  The lock-protected \<^verbatim>\<open>TokenPoolSystem\<close> of \<^verbatim>\<open>token_pools_system.go\<close> with its cached view, and the
  differ and patcher of the graph (\<^verbatim>\<open>token_pools_registry_differ.go\<close>, \<^verbatim>\<open>token_pools_registry_patcher.go\<close>),
  which send and take the whole view. Writers hold the mutex for their whole body, so an execution is
  a sequence of \<open>graph_step\<close>s. Copies of slices are the slices themselves, a nil slice is the empty
  list, and a panic on mismatched lengths is \<open>None\<close>.
\<close>

section \<open>\<^verbatim>\<open>token_pools_system.go\<close>\<close>

record TokenPoolSystem =
  gsRegistry :: TokenPoolsRegistry
  gsCachedView :: TokenPoolsRegistryView

definition NewTokenPoolSystem :: "int \<Rightarrow> TokenPoolSystem" where
  "NewTokenPoolSystem compactionThreshold =
     (let registry = NewTokenPoolsRegistry compactionThreshold
      in \<lparr>gsRegistry = registry, gsCachedView = graph_view registry\<rparr>)"

definition NewTokenPoolSystemFromView :: "TokenPoolsRegistryView \<Rightarrow> int \<Rightarrow> TokenPoolSystem" where
  "NewTokenPoolSystemFromView view compactionThreshold =
     (let registry = NewTokenPoolsRegistryFromView view compactionThreshold
      in \<lparr>gsRegistry = registry, gsCachedView = graph_view registry\<rparr>)"

definition gs_updateCachedView :: "TokenPoolSystem \<Rightarrow> TokenPoolSystem" where
  "gs_updateCachedView s = s\<lparr>gsCachedView := graph_view (gsRegistry s)\<rparr>"

definition gs_AddPool :: "uint64 list \<Rightarrow> uint64 \<Rightarrow> TokenPoolSystem \<Rightarrow> TokenPoolSystem" where
  "gs_AddPool tokenIDs poolID s = gs_updateCachedView (s\<lparr>gsRegistry := graph_add tokenIDs poolID (gsRegistry s)\<rparr>)"

definition gs_AddPools :: "uint64 list \<Rightarrow> uint64 list list \<Rightarrow> TokenPoolSystem \<Rightarrow> TokenPoolSystem option" where
  "gs_AddPools poolIDs tokenIDSets s =
     (if length poolIDs \<noteq> length tokenIDSets then None
      else if length poolIDs = 0 then Some s
      else Some (gs_updateCachedView (s\<lparr>gsRegistry :=
        foldl (\<lambda>r (poolID, tokenIDs). graph_add tokenIDs poolID r) (gsRegistry s) (zip poolIDs tokenIDSets)\<rparr>)))"

definition gs_RemovePool :: "uint64 \<Rightarrow> TokenPoolSystem \<Rightarrow> TokenPoolSystem" where
  "gs_RemovePool poolID s = gs_updateCachedView (s\<lparr>gsRegistry := removePool poolID (gsRegistry s)\<rparr>)"

definition gs_RemovePools :: "uint64 list \<Rightarrow> TokenPoolSystem \<Rightarrow> TokenPoolSystem" where
  "gs_RemovePools poolIDs s =
     (if length poolIDs = 0 then s
      else gs_updateCachedView (s\<lparr>gsRegistry := foldl (\<lambda>r poolID. removePool poolID r) (gsRegistry s) poolIDs\<rparr>))"

definition gs_RemoveToken :: "uint64 \<Rightarrow> TokenPoolSystem \<Rightarrow> TokenPoolSystem" where
  "gs_RemoveToken tokenID s = gs_updateCachedView (s\<lparr>gsRegistry := removeToken tokenID (gsRegistry s)\<rparr>)"

definition gs_RemoveTokens :: "uint64 list \<Rightarrow> TokenPoolSystem \<Rightarrow> TokenPoolSystem" where
  "gs_RemoveTokens tokenIDs s =
     (if length tokenIDs = 0 then s
      else gs_updateCachedView (s\<lparr>gsRegistry := foldl (\<lambda>r tokenID. removeToken tokenID r) (gsRegistry s) tokenIDs\<rparr>))"

definition gs_PoolsForToken :: "(uint64, unit) range_order \<Rightarrow> uint64 \<Rightarrow> TokenPoolSystem \<Rightarrow> uint64 list" where
  "gs_PoolsForToken ord tokenID s = poolsForToken ord tokenID (gsRegistry s)"

definition gs_View :: "TokenPoolSystem \<Rightarrow> TokenPoolsRegistryView" where
  "gs_View s =
     \<lparr>gvTokens = gvTokens (gsCachedView s), gvPools = gvPools (gsCachedView s),
      gvAdjacency = gvAdjacency (gsCachedView s), gvEdgeTargets = gvEdgeTargets (gsCachedView s),
      gvEdgePools = gvEdgePools (gsCachedView s)\<rparr>"

section \<open>Differ and patcher\<close>

record TokenPoolRegistryDiff =
  gdData :: "TokenPoolsRegistryView option"

definition graph_IsEmpty :: "TokenPoolRegistryDiff \<Rightarrow> bool" where
  "graph_IsEmpty d \<longleftrightarrow> gdData d = None"

definition TokenPoolsRegistryDiffer :: "TokenPoolsRegistryView \<Rightarrow> TokenPoolsRegistryView \<Rightarrow> TokenPoolRegistryDiff" where
  "TokenPoolsRegistryDiffer old new = \<lparr>gdData = Some new\<rparr>"

definition deepCopyView :: "TokenPoolsRegistryView option \<Rightarrow> TokenPoolsRegistryView option" where
  "deepCopyView v = map_option (\<lambda>v. \<lparr>gvTokens = gvTokens v, gvPools = gvPools v, gvAdjacency = gvAdjacency v,
     gvEdgeTargets = gvEdgeTargets v, gvEdgePools = gvEdgePools v\<rparr>) v"

definition TokenPoolRegistryPatcher ::
  "TokenPoolsRegistryView option \<Rightarrow> TokenPoolRegistryDiff \<Rightarrow> TokenPoolsRegistryView option" where
  "TokenPoolRegistryPatcher prevState diff = deepCopyView (gdData diff)"

section \<open>Executions\<close>

inductive graph_step :: "TokenPoolSystem \<Rightarrow> TokenPoolSystem \<Rightarrow> bool" where
  gstep_AddPool: "graph_step s (gs_AddPool ts p s)"
| gstep_AddPools: "gs_AddPools ps tss s = Some s' \<Longrightarrow> graph_step s s'"
| gstep_RemovePool: "graph_step s (gs_RemovePool p s)"
| gstep_RemovePools: "graph_step s (gs_RemovePools ps s)"
| gstep_RemoveToken: "graph_step s (gs_RemoveToken t s)"
| gstep_RemoveTokens: "graph_step s (gs_RemoveTokens ts s)"

definition graph_sys_inv :: "TokenPoolSystem \<Rightarrow> bool" where
  "graph_sys_inv s \<longleftrightarrow> graph_inv (gsRegistry s) \<and> gsCachedView s = graph_view (gsRegistry s)"

definition graph_sys_bound :: "TokenPoolSystem \<Rightarrow> bool" where
  "graph_sys_bound s \<longleftrightarrow> graph_sys_inv s \<and> dangling_bound (gsRegistry s)"

lemma graph_sys_inv_update: "graph_inv r \<Longrightarrow> graph_sys_inv (gs_updateCachedView (s\<lparr>gsRegistry := r\<rparr>))"
  by (simp add: graph_sys_inv_def gs_updateCachedView_def)

lemma gs_updateCachedView_registry [simp]: "gsRegistry (gs_updateCachedView s) = gsRegistry s"
  by (simp add: gs_updateCachedView_def)

lemma graph_sys_new: "graph_sys_bound (NewTokenPoolSystem c)"
  by (simp add: graph_sys_bound_def graph_sys_inv_def NewTokenPoolSystem_def Let_def graph_inv_new)
    (simp add: NewTokenPoolsRegistry_def dangling_bound_def dangling_ok_def dangling_edges_def)

lemma fold_dangling:
  assumes "\<And>x r. graph_inv r \<Longrightarrow> dangling_bound r \<Longrightarrow> graph_inv (f r x) \<and> dangling_bound (f r x)"
  shows "graph_inv r \<Longrightarrow> dangling_bound r \<Longrightarrow> dangling_bound (foldl f r xs)"
  by (induction xs arbitrary: r) (simp_all add: assms)

text \<open>What every step keeps: the invariant, and the bound when it holds.\<close>

lemma graph_step_inv: "graph_step s s' \<Longrightarrow> graph_sys_inv s \<Longrightarrow> graph_sys_inv s'"
proof (induction rule: graph_step.induct)
  case (gstep_AddPool s ts p)
  then show ?case by (simp add: gs_AddPool_def graph_sys_inv_update graph.add_inv graph_sys_inv_def gs_updateCachedView_def)
next
  case (gstep_AddPools ps tss s s')
  have "graph_inv (gsRegistry s)" using gstep_AddPools by (simp add: graph_sys_inv_def)
  from graph.add_batch [OF this] gstep_AddPools show ?case
    by (auto simp: gs_AddPools_def graph_sys_inv_update split: if_splits)
next
  case (gstep_RemovePool s p)
  then show ?case by (simp add: gs_RemovePool_def graph.rmPool_inv graph_sys_inv_def gs_updateCachedView_def)
next
  case (gstep_RemovePools s ps)
  have "graph_inv (gsRegistry s)" using gstep_RemovePools by (simp add: graph_sys_inv_def)
  from graph.rmPool_batch [OF this] gstep_RemovePools show ?case by (simp add: gs_RemovePools_def graph_sys_inv_update)
next
  case (gstep_RemoveToken s t)
  then show ?case by (simp add: gs_RemoveToken_def graph.rmToken_inv graph_sys_inv_def gs_updateCachedView_def)
next
  case (gstep_RemoveTokens s ts)
  have "graph_inv (gsRegistry s)" using gstep_RemoveTokens by (simp add: graph_sys_inv_def)
  from graph.rmToken_batch [OF this] gstep_RemoveTokens show ?case by (simp add: gs_RemoveTokens_def graph_sys_inv_update)
qed

lemma graph_step_dangling: "graph_step s s' \<Longrightarrow> graph_inv (gsRegistry s) \<Longrightarrow> dangling_bound (gsRegistry s) \<Longrightarrow> dangling_bound (gsRegistry s')"
proof (induction rule: graph_step.induct)
  case (gstep_AddPools ps tss s s')
  then show ?case
    by (auto simp: gs_AddPools_def graph.add_inv graph_add_dangling split: if_splits intro!: fold_dangling)
next
  case (gstep_RemovePools s ps)
  then show ?case
    by (simp add: gs_RemovePools_def fold_dangling removePool_dangling graph.rmPool_inv)
next
  case (gstep_RemoveTokens s ts)
  then show ?case
    by (simp add: gs_RemoveTokens_def fold_dangling removeToken_dangling graph.rmToken_inv)
qed (simp_all add: gs_AddPool_def gs_RemovePool_def gs_RemoveToken_def graph_add_dangling removePool_dangling removeToken_dangling)

lemma graph_run_bound: "graph_step\<^sup>*\<^sup>* s s' \<Longrightarrow> graph_sys_bound s \<Longrightarrow> graph_sys_bound s'"
proof (induction rule: rtranclp.induct)
  case (rtrancl_into_rtrancl a b c)
  then show ?case using graph_step_inv graph_step_dangling by (auto simp: graph_sys_bound_def graph_sys_inv_def)
qed simp

lemma graph_run_inv: "graph_step\<^sup>*\<^sup>* (NewTokenPoolSystem c) s \<Longrightarrow> graph_sys_inv s"
  using graph_run_bound [OF _ graph_sys_new] by (simp add: graph_sys_bound_def)

lemma graph_edges_iff:
  "(a, b, p) \<in> graph_edges r \<longleftrightarrow> (\<exists>i j q. (i, j, q) \<in> index_edges r \<and> a = tgTokens r ! i \<and> b = tgTokens r ! j \<and> p = tgPools r ! q)"
  by (force simp: graph_edges_def)

text \<open>The triples of a view: what a client that traverses it sees.\<close>

definition view_edges :: "TokenPoolsRegistryView \<Rightarrow> (uint64 \<times> uint64 \<times> uint64) set" where
  "view_edges v = {(gvTokens v ! i, gvTokens v ! (gvEdgeTargets v ! e), gvPools v ! p) | i e p.
     i < length (gvAdjacency v) \<and> e \<in> set (gvAdjacency v ! i) \<and> p \<in> set (gvEdgePools v ! e)}"

lemma view_edges_graph: "view_edges (graph_view r) = graph_edges r"
  by (force simp: view_edges_def graph_view_def graph_edges_def index_edges_def)

lemma gs_View_registry: "graph_sys_inv s \<Longrightarrow> gs_View s = graph_view (gsRegistry s)"
  by (simp add: gs_View_def graph_sys_inv_def)

lemma gs_View_edges: "graph_sys_inv s \<Longrightarrow> view_edges (gs_View s) = graph_edges (gsRegistry s)"
  by (simp add: gs_View_registry view_edges_graph)

section \<open>Properties of the graph\<close>

lemmas graph_eval = gs_AddPool_def gs_RemovePool_def gs_RemoveToken_def NewTokenPoolSystem_def NewTokenPoolsRegistry_def
  norm_threshold_def addEdge_def internToken_def internPool_def linkIndices_def removePool_def removeFromList_def
  removeToken_def clearEdge_def compact_if_needed_def compact_def gs_updateCachedView_def gs_View_def graph_view_def Let_def
  live_edges_def kept_tokens_def kept_pools_def renumber_def map_read_def lookup_map_def List.map_filter_def
  poolsForToken_def gs_PoolsForToken_def

text \<open>Two pools that share token 2, with a threshold of one dangling edge.\<close>

definition two_edges :: TokenPoolSystem where
  "two_edges = gs_AddPool [2, 3] 20 (gs_AddPool [1, 2] 10 (NewTokenPoolSystem 1))"

lemma two_edges_run: "graph_step\<^sup>*\<^sup>* (NewTokenPoolSystem 1) two_edges"
  unfolding two_edges_def by (meson rtranclp.rtrancl_refl rtranclp.rtrancl_into_rtrancl gstep_AddPool)

text \<open>Each batch method is the fold of the single one; the view follows the registry.\<close>

lemma gs_AddPools_edges:
  assumes si: "graph_sys_inv s" and l: "length ps = length tss"
  obtains s' where "gs_AddPools ps tss s = Some s'"
    and "view_edges (gs_View s') = view_edges (gs_View s) \<union> {(a, b, p) | a b p. \<exists>ts. (p, ts) \<in> set (zip ps tss) \<and> (a, b) \<in> clique ts}"
proof -
  have inv: "graph_inv (gsRegistry s)" using si by (simp add: graph_sys_inv_def)
  obtain s' where s': "gs_AddPools ps tss s = Some s'" using l by (cases "tss = []") (auto simp: gs_AddPools_def)
  have "graph_edges (gsRegistry s') = graph_edges (gsRegistry s) \<union> {(a, b, p) | a b p. \<exists>ts. (p, ts) \<in> set (zip ps tss) \<and> (a, b) \<in> clique ts}"
    using s' l graph.add_batch [OF inv, of "zip ps tss"] by (auto simp: gs_AddPools_def split: if_splits)
  with that s' gs_View_edges [OF si] gs_View_edges [OF graph_step_inv [OF gstep_AddPools [OF s'] si]] show ?thesis by simp
qed

lemma gs_RemovePools_edges:
  assumes si: "graph_sys_inv s"
  shows "view_edges (gs_View (gs_RemovePools ps s)) = {x \<in> view_edges (gs_View s). snd (snd x) \<notin> set ps}"
proof -
  have "graph_edges (gsRegistry (gs_RemovePools ps s)) = {x \<in> graph_edges (gsRegistry s). snd (snd x) \<notin> set ps}"
    using si graph.rmPool_batch [of "gsRegistry s" ps] by (auto simp: gs_RemovePools_def graph_sys_inv_def)
  then show ?thesis using gs_View_edges [OF si] gs_View_edges [OF graph_step_inv [OF gstep_RemovePools si]] by simp
qed

lemma gs_RemoveTokens_edges:
  assumes si: "graph_sys_inv s"
  shows "view_edges (gs_View (gs_RemoveTokens ts s)) = {x \<in> view_edges (gs_View s). fst x \<notin> set ts \<and> fst (snd x) \<notin> set ts}"
proof -
  have "graph_edges (gsRegistry (gs_RemoveTokens ts s)) = {x \<in> graph_edges (gsRegistry s). fst x \<notin> set ts \<and> fst (snd x) \<notin> set ts}"
    using si graph.rmToken_batch [of "gsRegistry s" ts] by (auto simp: gs_RemoveTokens_def graph_sys_inv_def)
  then show ?thesis using gs_View_edges [OF si] gs_View_edges [OF graph_step_inv [OF gstep_RemoveTokens si]] by simp
qed

text \<open>
  C8: On every reachable state of the token--pool system, the graph that clients read through \<^verbatim>\<open>View\<close>
  changes as a set of (token, token, pool) triples: \<^verbatim>\<open>AddPool\<close> inserts the triples of all ordered
  pairs of positions of its token list, \<^verbatim>\<open>RemovePool\<close> and \<^verbatim>\<open>RemoveToken\<close> delete exactly the triples of
  that pool or token, whether or not the operation compacts; the batch methods \<^verbatim>\<open>AddPools\<close> (which
  panics exactly on slices of different lengths), \<^verbatim>\<open>RemovePools\<close> and \<^verbatim>\<open>RemoveTokens\<close> do so for all their
  pools and tokens; and \<^verbatim>\<open>PoolsForToken\<close> lists, without repetition, the pools of the token's triples.
\<close>

theorem graph_system_refines:
  assumes run: "graph_step\<^sup>*\<^sup>* (NewTokenPoolSystem c) s" and ord: "range_order ord"
  shows "view_edges (gs_View (gs_AddPool ts p s)) = view_edges (gs_View s) \<union> {(a, b, p) | a b. (a, b) \<in> clique ts} \<and>
    view_edges (gs_View (gs_RemovePool p s)) = {x \<in> view_edges (gs_View s). snd (snd x) \<noteq> p} \<and>
    view_edges (gs_View (gs_RemoveToken t s)) = {x \<in> view_edges (gs_View s). fst x \<noteq> t \<and> fst (snd x) \<noteq> t} \<and>
    (case gs_AddPools ps tss s of
       None \<Rightarrow> length ps \<noteq> length tss
     | Some s' \<Rightarrow> length ps = length tss \<and> view_edges (gs_View s') = view_edges (gs_View s) \<union>
         {(a, b, q) | a b q. \<exists>us. (q, us) \<in> set (zip ps tss) \<and> (a, b) \<in> clique us}) \<and>
    view_edges (gs_View (gs_RemovePools ps s)) = {x \<in> view_edges (gs_View s). snd (snd x) \<notin> set ps} \<and>
    view_edges (gs_View (gs_RemoveTokens ts s)) = {x \<in> view_edges (gs_View s). fst x \<notin> set ts \<and> fst (snd x) \<notin> set ts} \<and>
    set (gs_PoolsForToken ord t s) = {q. \<exists>b. (t, b, q) \<in> view_edges (gs_View s)} \<and> distinct (gs_PoolsForToken ord t s)"
proof -
  have si: "graph_sys_inv s" by (rule graph_run_inv [OF run])
  then have inv: "graph_inv (gsRegistry s)" by (simp add: graph_sys_inv_def)
  note step = graph_step_inv [OF _ si]
  have "view_edges (gs_View (gs_AddPool ts p s)) = graph_edges (graph_add ts p (gsRegistry s))"
    unfolding gs_View_edges [OF step [OF gstep_AddPool]] by (simp add: gs_AddPool_def)
  moreover have "view_edges (gs_View (gs_RemovePool p s)) = graph_edges (removePool p (gsRegistry s))"
    unfolding gs_View_edges [OF step [OF gstep_RemovePool]] by (simp add: gs_RemovePool_def)
  moreover have "view_edges (gs_View (gs_RemoveToken t s)) = graph_edges (removeToken t (gsRegistry s))"
    unfolding gs_View_edges [OF step [OF gstep_RemoveToken]] by (simp add: gs_RemoveToken_def)
  moreover have "case gs_AddPools ps tss s of None \<Rightarrow> length ps \<noteq> length tss
     | Some s' \<Rightarrow> length ps = length tss \<and> view_edges (gs_View s') = view_edges (gs_View s) \<union>
         {(a, b, q) | a b q. \<exists>us. (q, us) \<in> set (zip ps tss) \<and> (a, b) \<in> clique us}"
  proof (cases "length ps = length tss")
    case True
    from gs_AddPools_edges [OF si True] obtain s' where s': "gs_AddPools ps tss s = Some s'"
        "view_edges (gs_View s') = view_edges (gs_View s) \<union> {(a, b, q) | a b q. \<exists>us. (q, us) \<in> set (zip ps tss) \<and> (a, b) \<in> clique us}" .
    show ?thesis using True s'(2) by (simp add: s'(1))
  qed (simp add: gs_AddPools_def)
  ultimately show ?thesis
    using graph.poolsFor_edges [OF inv ord, of t] gs_RemovePools_edges [OF si, of ps] gs_RemoveTokens_edges [OF si, of ts]
    by (simp add: gs_View_edges [OF si] gs_PoolsForToken_def
        graph.add_edges [OF inv] graph.rmPool_edges [OF inv] graph.rmToken_edges [OF inv])
qed

theorem graph_system_refines_witness:
  "view_edges (gs_View (gs_RemovePool 10 two_edges)) = {x \<in> view_edges (gs_View two_edges). snd (snd x) \<noteq> 10} \<and>
   gvTokens (gs_View (gs_RemovePool 10 two_edges)) = [2, 3] \<and>
   view_edges (gs_View (gs_RemovePools [10, 20] two_edges)) = {x \<in> view_edges (gs_View two_edges). snd (snd x) \<notin> {10, 20}} \<and>
   view_edges (gs_View (gs_RemoveTokens [3, 9] two_edges)) = {x \<in> view_edges (gs_View two_edges). fst x \<notin> {3, 9} \<and> fst (snd x) \<notin> {3, 9}}"
proof -
  note th = graph_system_refines [OF two_edges_run range_order_id, of "[3, 9]" 10 0 "[10, 20]" "[]"]
  have "gvTokens (gs_View (gs_RemovePool 10 two_edges)) = [2, 3]" by (simp add: two_edges_def graph_eval upt_rec)
  with th show ?thesis by simp
qed

text \<open>
  C14: Compaction is invisible in the graph and leaves no garbage: on every registry satisfying the
  invariant it keeps the triples and the invariant, and when it rebuilds, every remaining edge carries
  a pool and every remaining token and pool occurs in some triple.
\<close>

theorem compact_correct:
  assumes inv: "graph_inv r"
  shows "graph_inv (compact r) \<and> graph_edges (compact r) = graph_edges r \<and>
    (tgDanglingEdgeCount r > 0 \<longrightarrow> tgDanglingEdgeCount (compact r) = 0 \<and>
       (\<forall>ps \<in> set (tgEdgePools (compact r)). ps \<noteq> []) \<and>
       set (tgTokens (compact r)) = {t. \<exists>u p. (t, u, p) \<in> graph_edges r \<or> (u, t, p) \<in> graph_edges r} \<and>
       set (tgPools (compact r)) = {p. \<exists>t u. (t, u, p) \<in> graph_edges r})"
proof -
  note lay = graph_layoutD [OF graph_invD(1) [OF inv]] and adj = graph_adjD [OF graph_invD(2) [OF inv]]
  note kt = kept_tokens_iff [OF graph_invD(1) [OF inv]]
  have live: "e \<in> set (live_edges r) \<longleftrightarrow> (\<exists>p. p \<in> set (tgEdgePools r ! e))" if "i < length (tgTokens r)" "e \<in> set (tgAdjacency r ! i)" for i e
    using adj(2) [of i e] that lay(3,4) by (simp add: live_edges_iff ex_in_conv)
  have own: "\<exists>i p. i < length (tgTokens r) \<and> e \<in> set (tgAdjacency r ! i) \<and> p \<in> set (tgEdgePools r ! e)" if e: "e \<in> set (live_edges r)" for e
  proof -
    have le: "e < length (tgEdgePools r)" "tgEdgePools r ! e \<noteq> []" using e by (simp_all add: live_edges_iff)
    obtain i where "i < length (tgAdjacency r)" "e \<in> set (tgAdjacency r ! i)" by (rule graph_adj_live [OF graph_invD(2) [OF inv] le])
    then show ?thesis using le(2) lay(3) by (metis list.set_intros(1) neq_Nil_conv)
  qed
  have ie: "(i, j, p) \<in> index_edges r \<longleftrightarrow> i < length (tgTokens r) \<and>
      (\<exists>e \<in> set (tgAdjacency r ! i). e \<in> set (live_edges r) \<and> tgEdgeTargets r ! e = j \<and> p \<in> set (tgEdgePools r ! e))" for i j p
    using live [of i] lay(3) by (auto simp: index_edges_iff)
  have KT: "i \<in> set (kept_tokens r) \<longleftrightarrow> (\<exists>j p. (i, j, p) \<in> index_edges r \<or> (j, i, p) \<in> index_edges r)" for i
  proof
    assume "i \<in> set (kept_tokens r)"
    then consider e where "e \<in> set (live_edges r)" "tgEdgeTargets r ! e = i"
      | e where "i < length (tgTokens r)" "e \<in> set (tgAdjacency r ! i)" "e \<in> set (live_edges r)" by (auto simp: kt)
    then show "\<exists>j p. (i, j, p) \<in> index_edges r \<or> (j, i, p) \<in> index_edges r"
      by cases (metis own ie, metis live ie)
  next
    assume "\<exists>j p. (i, j, p) \<in> index_edges r \<or> (j, i, p) \<in> index_edges r"
    then show "i \<in> set (kept_tokens r)" using index_edges_range(1,2) [OF inv] unfolding kt ie by blast
  qed
  have T: "set (map (\<lambda>i. tgTokens r ! i) (kept_tokens r)) = {t. \<exists>u p. (t, u, p) \<in> graph_edges r \<or> (u, t, p) \<in> graph_edges r}"
    unfolding set_map graph_edges_iff image_def Bex_def KT by blast
  have KP: "p \<in> set (kept_pools r) \<longleftrightarrow> (\<exists>i j. (i, j, p) \<in> index_edges r)" for p
    using index_edges_range(3) [OF inv] own unfolding kept_pools_iff by (metis ie)
  have P: "set (map (\<lambda>i. tgPools r ! i) (kept_pools r)) = {p. \<exists>t u. (t, u, p) \<in> graph_edges r}"
    unfolding set_map graph_edges_iff image_def Bex_def KP by blast
  show ?thesis
    using compact_spec [OF inv] T P
    by (auto simp: compact_rebuild(2) [OF inv] rebuild_def live_edges_iff)
qed

theorem compact_correct_witness:
  "let r = (gsRegistry two_edges)\<lparr>tgEdgePools := [[], [], [1], [1]], tgDanglingEdgeCount := 2\<rparr>
   in graph_edges (compact r) = graph_edges r \<and> tgTokens (compact r) = [2, 3] \<and> tgPools (compact r) = [20]"
proof -
  let ?r = "(gsRegistry two_edges)\<lparr>tgEdgePools := [[], [], [1], [1]], tgDanglingEdgeCount := 2\<rparr>"
  have "graph_inv (gsRegistry two_edges)" using graph_run_inv [OF two_edges_run] by (simp add: graph_sys_inv_def)
  moreover have "tgEdgePools (gsRegistry two_edges) = [[0], [0], [1], [1]]" by (simp add: two_edges_def graph_eval)
  ultimately have "graph_inv ?r" by (intro graph_inv_shrink) (auto simp: less_Suc_eq numeral_eq_Suc)
  from compact_correct [OF this] show ?thesis
    by (simp add: Let_def) (simp add: two_edges_def graph_eval upt_rec)
qed

text \<open>
  In every reachable state the number of edges that carry no pool is at most the dangling counter,
  and the counter is at most the compaction threshold, so the garbage a view can hold is bounded by
  the threshold (1000 when the given one is not positive).
\<close>

theorem dangling_bounded:
  assumes run: "graph_step\<^sup>*\<^sup>* (NewTokenPoolSystem c) s"
  shows "length (filter (\<lambda>ps. ps = []) (gvEdgePools (gs_View s))) \<le> tgDanglingEdgeCount (gsRegistry s) \<and>
    tgDanglingEdgeCount (gsRegistry s) \<le> tgCompactionThreshold (gsRegistry s)"
proof -
  have b: "graph_sys_bound s" by (rule graph_run_bound [OF run graph_sys_new])
  then have "gs_View s = graph_view (gsRegistry s)" by (intro gs_View_registry) (simp add: graph_sys_bound_def)
  then show ?thesis using b
    by (simp add: graph_sys_bound_def dangling_bound_def dangling_ok_def dangling_edges_def graph_view_def)
qed

theorem dangling_bounded_witness:
  "length (filter (\<lambda>ps. ps = []) (gvEdgePools (gs_View (gs_RemovePool 10 two_edges)))) \<le> 1"
proof -
  have "graph_step\<^sup>*\<^sup>* (NewTokenPoolSystem 1) (gs_RemovePool 10 two_edges)"
    by (rule rtranclp.rtrancl_into_rtrancl [OF two_edges_run gstep_RemovePool])
  from dangling_bounded [OF this] show ?thesis by (simp add: two_edges_def graph_eval upt_rec)
qed

text \<open>
  Restoring the graph from the view of a reachable state gives a system with the same view and the
  invariant; the registry differs from the original one only in its counter and threshold. The
  differ and patcher transfer a view unchanged.
\<close>

theorem graph_restore_roundtrip:
  assumes run: "graph_step\<^sup>*\<^sup>* (NewTokenPoolSystem c) s"
  shows "let s' = NewTokenPoolSystemFromView (gs_View s) c' in
    graph_sys_inv s' \<and> gs_View s' = gs_View s \<and>
    gsRegistry s' = (gsRegistry s)\<lparr>tgDanglingEdgeCount := 0, tgCompactionThreshold := norm_threshold c'\<rparr> \<and>
    TokenPoolRegistryPatcher (Some old) (TokenPoolsRegistryDiffer old (gs_View s)) = Some (gs_View s)"
proof -
  have si: "graph_sys_inv s" by (rule graph_run_inv [OF run])
  then have inv: "graph_inv (gsRegistry s)" by (simp add: graph_sys_inv_def)
  note lay = graph_layoutD [OF graph_invD(1) [OF inv]]
  have lk: "lookup_map xs = m" if "index_inv xs m" for xs m
  proof
    fix k
    have "index_inv xs (lookup_map xs)" by (rule lookup_map_inv [OF index_inv_distinct [OF that]])
    with that show "lookup_map xs k = m k" unfolding index_inv_def by (metis not_None_eq)
  qed
  let ?s = "NewTokenPoolSystemFromView (gs_View s) c'"
  have r: "gsRegistry ?s = (gsRegistry s)\<lparr>tgDanglingEdgeCount := 0, tgCompactionThreshold := norm_threshold c'\<rparr>"
    unfolding gs_View_registry [OF si]
    by (simp add: NewTokenPoolSystemFromView_def NewTokenPoolsRegistryFromView_def graph_view_def Let_def lk [OF lay(1)] lk [OF lay(2)])
  have "graph_layout (gsRegistry ?s) = graph_layout (gsRegistry s)" "graph_adj (gsRegistry ?s) = graph_adj (gsRegistry s)"
    unfolding r by (simp_all add: graph_layout_def graph_adj_def)
  then have "graph_inv (gsRegistry ?s)" using inv by (simp add: graph_inv_def)
  then have si': "graph_sys_inv ?s" by (simp add: graph_sys_inv_def NewTokenPoolSystemFromView_def Let_def)
  have "gs_View ?s = graph_view (gsRegistry ?s)" by (rule gs_View_registry [OF si'])
  also have "\<dots> = graph_view (gsRegistry s)" unfolding r by (simp add: graph_view_def)
  also have "\<dots> = gs_View s" by (rule gs_View_registry [OF si, symmetric])
  finally show ?thesis using si' r
    by (simp add: Let_def TokenPoolRegistryPatcher_def TokenPoolsRegistryDiffer_def deepCopyView_def)
qed

theorem graph_restore_roundtrip_witness:
  "gs_View (NewTokenPoolSystemFromView (gs_View two_edges) 5) = gs_View two_edges"
  using graph_restore_roundtrip [OF two_edges_run, of 5 "gs_View two_edges"] by (simp add: Let_def)

text \<open>
  The counter overcounts: an edge that dangles and is used again is not taken off the counter, and is
  counted a second time when it dangles again. Compaction then runs although fewer edges dangle than
  the threshold allows.
\<close>

lemma readd_overcounts:
  "let s = gs_AddPool [1, 2] 11 (gs_RemovePool 10 (gs_AddPool [1, 2] 10 (NewTokenPoolSystem 5)))
   in tgDanglingEdgeCount (gsRegistry s) = 2 \<and> dangling_edges (gsRegistry s) = 0"
  by (simp add: graph_eval dangling_edges_def)

text \<open>A view that is restored keeps its dangling edges while the counter restarts at 0.\<close>

lemma restore_undercounts:
  "let s = NewTokenPoolSystemFromView (gs_View (gs_RemovePool 10 (gs_AddPool [1, 2] 10 (NewTokenPoolSystem 5)))) 5
   in tgDanglingEdgeCount (gsRegistry s) = 0 \<and> dangling_edges (gsRegistry s) = 2"
  by (simp add: graph_eval dangling_edges_def NewTokenPoolSystemFromView_def NewTokenPoolsRegistryFromView_def)

end
