(* ===== verification/Registry_Manager.thy ===== *)
theory Registry_Manager
  imports Token_System Pool_System Token_Pools_System
begin

text \<open>
  The \<^verbatim>\<open>RegistryManager\<close> of \<^verbatim>\<open>src/protocols/pool-registry/registry_manager.go\<close>, which registers and
  deletes pools across the token system (only read), the pool system and the token--pool graph. The
  callback \<^verbatim>\<open>beforeRegisterPoolFunc\<close> is the caller's code: the model records the keys it is called with
  in order. A panic is \<open>None\<close>.
\<close>

section \<open>\<^verbatim>\<open>registry_manager.go\<close>\<close>

datatype manager_error =
    ManagerErrTokenNotFound
  | ErrPreflight address
  | ErrAddPool pool_error
  | ErrAddPools pool_sys_error
  | ErrConsistency PoolKey

record RegistryManager =
  rmTokenSystem :: TokenSystem
  rmPoolSystem :: PoolSystem
  rmTokenPoolSystem :: TokenPoolSystem
  rmHasBeforeRegister :: bool
  rmBeforeRegisterCalls :: "PoolKey list"

definition NewRegistryManager :: "TokenSystem \<Rightarrow> PoolSystem \<Rightarrow> TokenPoolSystem \<Rightarrow> RegistryManager" where
  "NewRegistryManager ts ps gs = \<lparr>rmTokenSystem = ts, rmPoolSystem = ps, rmTokenPoolSystem = gs,
     rmHasBeforeRegister = False, rmBeforeRegisterCalls = []\<rparr>"

definition rm_SetBeforeRegisterPoolFunc :: "bool \<Rightarrow> RegistryManager \<Rightarrow> RegistryManager" where
  "rm_SetBeforeRegisterPoolFunc f rm = rm\<lparr>rmHasBeforeRegister := f\<rparr>"

definition rm_before :: "PoolKey list \<Rightarrow> RegistryManager \<Rightarrow> RegistryManager" where
  "rm_before keys rm =
     (if rmHasBeforeRegister rm then rm\<lparr>rmBeforeRegisterCalls := rmBeforeRegisterCalls rm @ keys\<rparr> else rm)"

text \<open>Step 1 of \<^verbatim>\<open>RegisterPool\<close>, with its early return.\<close>

fun lookup_tokens :: "TokenSystem \<Rightarrow> address list \<Rightarrow> manager_error + uint64 list" where
  "lookup_tokens ts [] = Inr []"
| "lookup_tokens ts (tokenAddr # rest) =
     (case ts_GetTokenByAddress tokenAddr ts of
        Inl e \<Rightarrow> Inl ManagerErrTokenNotFound
      | Inr existingToken \<Rightarrow> bind_result (lookup_tokens ts rest) (\<lambda>ids. Inr (tvID existingToken # ids)))"

definition rm_RegisterPool ::
  "PoolKey \<Rightarrow> address list \<Rightarrow> ProtocolID \<Rightarrow> RegistryManager \<Rightarrow> (manager_error + (uint64 \<times> uint64 list)) \<times> RegistryManager" where
  "rm_RegisterPool poolKey tokenAddrs protocolID rm0 =
     (let rm = rm_before [poolKey] rm0 in
      case lookup_tokens (rmTokenSystem rm) tokenAddrs of
        Inl e \<Rightarrow> (Inl e, rm)
      | Inr tokenIDs \<Rightarrow>
          (case ps_AddPool poolKey protocolID (rmPoolSystem rm) of
             (Inl e, ps) \<Rightarrow> (Inl (ErrAddPool e), rm\<lparr>rmPoolSystem := ps\<rparr>)
           | (Inr poolID, ps) \<Rightarrow>
               (Inr (poolID, tokenIDs),
                rm\<lparr>rmPoolSystem := ps, rmTokenPoolSystem := gs_AddPool tokenIDs poolID (rmTokenPoolSystem rm)\<rparr>)))"

text \<open>
  \<^verbatim>\<open>RegisterPools\<close>. The pre-flight check finds the first token of a set that the token system does not
  know; \<^verbatim>\<open>tokenIDMap\<close> reads 0 for an address it does not hold.
\<close>

definition first_missing :: "TokenSystem \<Rightarrow> address list \<Rightarrow> address option" where
  "first_missing ts tokenSet = List.find (\<lambda>addr. isl (ts_GetTokenByAddress addr ts)) tokenSet"

definition tokenIDMap :: "TokenSystem \<Rightarrow> address \<Rightarrow> uint64" where
  "tokenIDMap ts addr = (case ts_GetTokenByAddress addr ts of Inr t \<Rightarrow> tvID t | Inl e \<Rightarrow> 0)"

type_synonym pool_request = "PoolKey \<times> address list \<times> ProtocolID"
type_synonym pool_result = "uint64 \<times> uint64 list \<times> manager_error option"

text \<open>Step 4 for one valid pool: its identifier, token identifiers and error.\<close>

definition finish_pool :: "TokenSystem \<Rightarrow> pool_request \<Rightarrow> uint64 \<Rightarrow> pool_sys_error option \<Rightarrow> pool_result" where
  "finish_pool ts item poolID err =
     (case err of
        Some e \<Rightarrow> (0, [], Some (ErrAddPools e))
      | None \<Rightarrow> if poolID = 0 then (0, [], Some (ErrConsistency (fst item)))
               else (poolID, map (tokenIDMap ts) (fst (snd item)), None))"

text \<open>
  The results of the valid pools go back to their original indices (\<^verbatim>\<open>validOriginalIndices\<close>); a pool that
  failed the pre-flight check keeps that error.
\<close>

fun scatter :: "TokenSystem \<Rightarrow> pool_request list \<Rightarrow> pool_result list \<Rightarrow> pool_result list" where
  "scatter ts [] results = []"
| "scatter ts (item # items) results =
     (case first_missing ts (fst (snd item)) of
        Some addr \<Rightarrow> (0, [], Some (ErrPreflight addr)) # scatter ts items results
      | None \<Rightarrow> (case results of
            [] \<Rightarrow> (0, [], None) # scatter ts items []
          | res # rest \<Rightarrow> res # scatter ts items rest))"

definition rm_RegisterPools ::
  "PoolKey list \<Rightarrow> address list list \<Rightarrow> ProtocolID list \<Rightarrow> RegistryManager \<Rightarrow>
   ((uint64 list \<times> uint64 list list \<times> manager_error option list) \<times> RegistryManager) option" where
  "rm_RegisterPools poolKeys tokenAddrSets protocolIDs rm0 =
     (let rm = rm_before poolKeys rm0 in
      if length poolKeys \<noteq> length tokenAddrSets \<or> length poolKeys \<noteq> length protocolIDs then None
      else let
        ts = rmTokenSystem rm;
        items = zip poolKeys (zip tokenAddrSets protocolIDs);
        valid = filter (\<lambda>item. first_missing ts (fst (snd item)) = None) items
      in if length valid = 0 then
           (if items = [] then Some (([], [], []), rm)
            else let final = scatter ts items [] in
              Some ((map fst final, map (fst \<circ> snd) final, map (snd \<circ> snd) final), rm))
         else (case ps_AddPools (map fst valid) (map (snd \<circ> snd) valid) (rmPoolSystem rm) of
           None \<Rightarrow> None
         | Some ((newPoolIDs, addErrs), ps) \<Rightarrow>
             let errs = (if addErrs = [] then replicate (length newPoolIDs) None else addErrs);
                 results = map (\<lambda>(item, poolID, err). finish_pool ts item poolID err) (zip valid (zip newPoolIDs errs));
                 final = scatter ts items results;
                 successful = filter (\<lambda>res. snd (snd res) = None) results;
                 rm1 = rm\<lparr>rmPoolSystem := ps\<rparr>;
                 rm2 = (if length successful > 0
                   then (case gs_AddPools (map fst successful) (map (fst \<circ> snd) successful) (rmTokenPoolSystem rm1) of
                           Some gs \<Rightarrow> rm1\<lparr>rmTokenPoolSystem := gs\<rparr> | None \<Rightarrow> rm1)
                   else rm1);
                 finalErrs = map (snd \<circ> snd) final;
                 hasErrors = (\<exists>e \<in> set finalErrs. e \<noteq> None)
             in Some ((map fst final, map (fst \<circ> snd) final, if hasErrors then finalErrs else []), rm2)))"

definition rm_DeletePool :: "uint64 \<Rightarrow> RegistryManager \<Rightarrow> (pool_error + unit) \<times> RegistryManager" where
  "rm_DeletePool poolID rm =
     (case ps_DeletePool poolID (rmPoolSystem rm) of
        (Inl e, ps) \<Rightarrow> (Inl e, rm\<lparr>rmPoolSystem := ps\<rparr>)
      | (Inr u, ps) \<Rightarrow> (Inr u, rm\<lparr>rmPoolSystem := ps, rmTokenPoolSystem := gs_RemovePool poolID (rmTokenPoolSystem rm)\<rparr>))"

definition rm_DeletePools :: "uint64 list \<Rightarrow> RegistryManager \<Rightarrow> pool_sys_error option list \<times> RegistryManager" where
  "rm_DeletePools poolIDs rm =
     (let gs = gs_RemovePools poolIDs (rmTokenPoolSystem rm);
          (errs, ps) = ps_DeletePools poolIDs (rmPoolSystem rm)
      in (errs, rm\<lparr>rmTokenPoolSystem := gs, rmPoolSystem := ps\<rparr>))"

section \<open>Invariant\<close>

text \<open>Each system is consistent, and every pool on an edge of the graph is a live pool.\<close>

definition manager_inv :: "RegistryManager \<Rightarrow> bool" where
  "manager_inv rm \<longleftrightarrow> token_inv (tsRegistry (rmTokenSystem rm)) \<and> pool_sys_inv (rmPoolSystem rm) \<and>
     graph_sys_inv (rmTokenPoolSystem rm) \<and>
     (\<forall>x \<in> view_edges (gs_View (rmTokenPoolSystem rm)). snd (snd x) \<in> pvID ` set (prvPools (ps_View (rmPoolSystem rm))))"

lemma pool_ids: "pool_sys_inv ps \<Longrightarrow> pvID ` set (prvPools (ps_View ps)) = set (prID (psRegistry ps))"
  using pr_pools_ids [OF pool_invD(1) [OF pool_sys_invD(1)]] pool_sys_invD(2) by (metis list.set_map)

lemma manager_inv_iff:
  "manager_inv rm \<longleftrightarrow> token_inv (tsRegistry (rmTokenSystem rm)) \<and> pool_sys_inv (rmPoolSystem rm) \<and>
     graph_sys_inv (rmTokenPoolSystem rm) \<and>
     (\<forall>x \<in> graph_edges (gsRegistry (rmTokenPoolSystem rm)). snd (snd x) \<in> set (prID (psRegistry (rmPoolSystem rm))))"
  by (simp add: manager_inv_def pool_ids gs_View_edges cong: conj_cong)

lemma pr_addPool_ids:
  assumes inv: "pool_inv r" and cnt: "prNextID r + 1 \<noteq> 0" and call: "pr_addPool key pID r = Inr (i, r')"
  shows "set (prID r') = insert i (set (prID r))" and "i \<noteq> 0"
proof -
  note lay = pool_invD(1) [OF inv]
  have "set (prID r') = insert i (set (prID r)) \<and> i \<noteq> 0"
  proof (rule pr_addPool_spec [OF inv cnt call])
    assume "r' = r" "\<exists>v. keyed pvKey (pr_pools r) key = Some v \<and> pvID v = i"
    moreover then have "i \<in> set (prID r)" using pr_pools_ids [OF lay] by (metis image_eqI keyed_SomeD list.set_map)
    ultimately show ?thesis using pool_invD(5) [OF inv] by auto
  next
    fix p assume a: "i = prNextID r" "pool_inv r'" "pr_pools r' = pr_pools r @ [\<lparr>pvID = prNextID r, pvKey = key, pvProtocol = p\<rparr>]"
    have "prID r' = map pvID (pr_pools r')" by (simp add: pr_pools_ids [OF pool_invD(1) [OF a(2)]])
    then show ?thesis using pool_invD(4) [OF inv] pr_pools_ids [OF lay] a(1) by (simp add: a(3))
  qed
  then show "set (prID r') = insert i (set (prID r))" and "i \<noteq> 0" by blast+
qed

lemma del_batch_ids: "pool_inv r \<Longrightarrow> set (prID (snd (pools.del_batch ids r))) = set (prID r) - set ids"
proof -
  assume inv: "pool_inv r"
  let ?r = "snd (pools.del_batch ids r)"
  note sp = pools.del_batch_spec [OF inv, of ids]
  have "dom (keyed pvID (pr_pools ?r)) = dom (keyed pvID (pr_pools r)) - set ids" using sp by auto
  then show ?thesis
    using pr_pools_ids [OF pool_invD(1) [OF inv]] pr_pools_ids [OF pool_invD(1)] sp
    by (metis dom_keyed list.set_map)
qed

lemma del_one_ids: "pool_inv r \<Longrightarrow> pr_deletePool i r = Inr r' \<Longrightarrow> set (prID r') = set (prID r) - {i}"
  using del_batch_ids [of r "[i]"] by simp

lemma lookup_tokens_eq:
  "lookup_tokens ts addrs = (if first_missing ts addrs = None then Inr (map (tokenIDMap ts) addrs) else Inl ManagerErrTokenNotFound)"
  by (induction addrs) (auto simp: first_missing_def tokenIDMap_def split: sum.split)

section \<open>The batch is the sequence\<close>

text \<open>Registering the pools one after the other, as the reference for \<^verbatim>\<open>RegisterPools\<close>.\<close>

definition strip_result :: "manager_error + (uint64 \<times> uint64 list) \<Rightarrow> uint64 \<times> uint64 list \<times> bool" where
  "strip_result res = (case res of Inl e \<Rightarrow> (0, [], False) | Inr (i, ts) \<Rightarrow> (i, ts, True))"

fun registerEach :: "pool_request list \<Rightarrow> RegistryManager \<Rightarrow> (uint64 \<times> uint64 list \<times> bool) list \<times> RegistryManager" where
  "registerEach [] rm = ([], rm)"
| "registerEach ((key, addrs, pID) # rest) rm =
     (let (res, rm1) = rm_RegisterPool key addrs pID rm; (out, rm2) = registerEach rest rm1
      in (strip_result res # out, rm2))"

text \<open>The same on the bare registries.\<close>

fun each :: "TokenSystem \<Rightarrow> pool_request list \<Rightarrow> PoolRegistry \<Rightarrow> TokenPoolsRegistry \<Rightarrow>
    (uint64 \<times> uint64 list \<times> bool) list \<times> PoolRegistry \<times> TokenPoolsRegistry" where
  "each ts [] r g = ([], r, g)"
| "each ts ((key, addrs, pID) # rest) r g =
     (if first_missing ts addrs \<noteq> None then (let (out, r', g') = each ts rest r g in ((0, [], False) # out, r', g'))
      else case pr_addPool key pID r of
        Inl e \<Rightarrow> (let (out, r', g') = each ts rest r g in ((0, [], False) # out, r', g'))
      | Inr (i, r1) \<Rightarrow> (let (out, r', g') = each ts rest r1 (graph_add (map (tokenIDMap ts) addrs) i g)
                       in ((i, map (tokenIDMap ts) addrs, True) # out, r', g')))"

lemma registerEach_each:
  assumes "each (rmTokenSystem rm) items (psRegistry (rmPoolSystem rm)) (gsRegistry (rmTokenPoolSystem rm)) = (out, r, g)"
  shows "\<exists>rm'. registerEach items rm = (out, rm') \<and> psRegistry (rmPoolSystem rm') = r \<and>
    gsRegistry (rmTokenPoolSystem rm') = g \<and> rmTokenSystem rm' = rmTokenSystem rm \<and>
    rmHasBeforeRegister rm' = rmHasBeforeRegister rm \<and>
    rmBeforeRegisterCalls rm' = rmBeforeRegisterCalls (rm_before (map fst items) rm)"
  using assms
proof (induction items arbitrary: rm out)
  case Nil
  then show ?case by (simp add: rm_before_def)
next
  case (Cons item items)
  obtain key addrs pID where item: "item = (key, addrs, pID)" by (cases item)
  obtain res rm1 where res: "rm_RegisterPool key addrs pID rm = (res, rm1)" by fastforce
  let ?ts = "rmTokenSystem rm" and ?r = "psRegistry (rmPoolSystem rm)" and ?g = "gsRegistry (rmTokenPoolSystem rm)"
  have "rmTokenSystem rm1 = ?ts \<and> rmHasBeforeRegister rm1 = rmHasBeforeRegister rm \<and>
     rmBeforeRegisterCalls rm1 = rmBeforeRegisterCalls (rm_before [key] rm) \<and>
     each ?ts (item # items) ?r ?g =
       (let (o', r', g') = each ?ts items (psRegistry (rmPoolSystem rm1)) (gsRegistry (rmTokenPoolSystem rm1))
        in (strip_result res # o', r', g'))"
    using res
    by (auto simp: item rm_RegisterPool_def rm_before_def lookup_tokens_eq ps_AddPool_def gs_AddPool_def strip_result_def Let_def
        split: if_splits sum.splits)
  then show ?case
    using Cons.IH [of rm1] Cons.prems res
    by (cases "each ?ts items (psRegistry (rmPoolSystem rm1)) (gsRegistry (rmTokenPoolSystem rm1))")
      (auto simp: item rm_before_def)
qed

definition strip_final :: "pool_result \<Rightarrow> uint64 \<times> uint64 list \<times> bool" where
  "strip_final res = (fst res, fst (snd res), snd (snd res) = None)"

definition batch_results :: "TokenSystem \<Rightarrow> pool_request list \<Rightarrow> uint64 list \<Rightarrow> pool_sys_error option list \<Rightarrow> pool_result list" where
  "batch_results ts valid ids errs = map (\<lambda>(item, poolID, err). finish_pool ts item poolID err) (zip valid (zip ids errs))"

lemma batch_each:
  assumes "pool_inv r" and "unat (prNextID r) + length items < 2 ^ 64"
    and "addPools_loop (map (\<lambda>(key, addrs, pID). (key, pID)) (filter (\<lambda>item. first_missing ts (fst (snd item)) = None) items)) r
      = (ids, errs, changed, hasErrors, r')"
  shows "each ts items r g =
    (map strip_final (scatter ts items (batch_results ts (filter (\<lambda>item. first_missing ts (fst (snd item)) = None) items) ids errs)), r',
     foldl (\<lambda>g (p, tids). graph_add tids p g) g
       (map (\<lambda>res. (fst res, fst (snd res)))
         (filter (\<lambda>res. snd (snd res) = None)
           (batch_results ts (filter (\<lambda>item. first_missing ts (fst (snd item)) = None) items) ids errs))))"
  using assms
proof (induction items arbitrary: r g ids errs changed hasErrors r')
  case Nil
  then show ?case by (simp add: batch_results_def)
next
  case (Cons item items)
  obtain key addrs pID where item: "item = (key, addrs, pID)" by (cases item)
  let ?V = "filter (\<lambda>item. first_missing ts (fst (snd item)) = None)"
  let ?M = "map (\<lambda>(key, addrs, pID). (key, pID))"
  have n: "unat (prNextID r) + Suc (length items) < 2 ^ 64" using Cons.prems(2) by simp
  have n': "unat (prNextID r) + length items < 2 ^ 64" using n by simp
  show ?case
  proof (cases "first_missing ts addrs")
    case (Some a)
    then have "addPools_loop (?M (?V items)) r = (ids, errs, changed, hasErrors, r')"
      using Cons.prems(3) by (simp add: item)
    from Cons.IH [OF Cons.prems(1) n' this, of g] Some show ?thesis by (simp add: item strip_final_def)
  next
    case None
    show ?thesis
    proof (cases "pr_addPool key pID r")
      case (Inl e)
      obtain ids1 errs1 ch1 he1 r1 where rc: "addPools_loop (?M (?V items)) r = (ids1, errs1, ch1, he1, r1)" by (metis prod_cases5)
      then have "ids = 0 # ids1" "errs = Some (PoolErr key e) # errs1" "r' = r1"
        using Cons.prems(3) None Inl by (simp_all add: item)
      with Cons.IH [OF Cons.prems(1) n' rc, of g] None Inl show ?thesis
        by (simp add: item batch_results_def finish_pool_def strip_final_def)
    next
      case (Inr x)
      obtain i q where x: "x = (i, q)" by (cases x)
      have c: "prNextID r + 1 \<noteq> 0" using unat_succ_le [OF n] by blast
      note pr = pr_addPool_preserves [OF Cons.prems(1) c Inr [unfolded x]]
      have nq: "unat (prNextID q) + length items < 2 ^ 64"
        using pr unat_succ_le [OF n] by (simp add: word_le_nat_alt)
      have i: "i \<noteq> 0" by (rule pr_addPool_ids(2) [OF Cons.prems(1) c Inr [unfolded x]])
      obtain ids1 errs1 ch1 he1 r1 where rc: "addPools_loop (?M (?V items)) q = (ids1, errs1, ch1, he1, r1)" by (metis prod_cases5)
      then have "ids = i # ids1" "errs = None # errs1" "r' = r1"
        using Cons.prems(3) None Inr x by (simp_all add: item)
      with Cons.IH [OF _ nq rc, of "graph_add (map (tokenIDMap ts) addrs) i g"] pr None Inr x i show ?thesis
        by (simp add: item batch_results_def finish_pool_def strip_final_def)
    qed
  qed
qed

lemma zip_map_requests:
  "zip (map fst items) (map (snd \<circ> snd) items) = map (\<lambda>(key, addrs, pID). (key, pID)) (items :: pool_request list)"
  by (induction items) auto

lemma map_fst_requests: "length ks = length as \<Longrightarrow> length ks = length ps \<Longrightarrow> map fst (zip ks (zip as ps)) = ks"
  by simp

lemma scatter_no_valid:
  "filter (\<lambda>item. first_missing ts (fst (snd item)) = None) items = [] \<Longrightarrow>
   each ts items r g = (map strip_final (scatter ts items []), r, g) \<and>
   (\<forall>res \<in> set (scatter ts items []). snd (snd res) \<noteq> None)"
  by (induction items) (auto simp: strip_final_def split: if_splits)

text \<open>The call of \<^verbatim>\<open>AddPools\<close> on the pool system, and the final call on the graph.\<close>

lemma ps_AddPools_loop:
  fixes valid :: "pool_request list"
  assumes si: "pool_sys_inv ps" and room: "unat (prNextID (psRegistry ps)) + length valid < 2 ^ 64" and ne: "valid \<noteq> []"
    and lp: "addPools_loop (map (\<lambda>(key, addrs, pID). (key, pID)) valid) (psRegistry ps) = (ids, errs, ch, he, r')"
  obtains addErrs ps' where "ps_AddPools (map fst valid) (map (snd \<circ> snd) valid) ps = Some ((ids, addErrs), ps')"
    and "(if addErrs = [] then replicate (length ids) None else addErrs) = errs"
    and "psRegistry ps' = r'" and "pool_sys_inv ps'"
proof -
  let ?ps = "if ch then ps_updateCachedView (ps\<lparr>psRegistry := r'\<rparr>) else ps\<lparr>psRegistry := r'\<rparr>"
  have call: "ps_AddPools (map fst valid) (map (snd \<circ> snd) valid) ps = Some ((ids, if \<not> he then [] else errs), ?ps)"
    using lp ne by (simp add: ps_AddPools_def zip_map_requests Let_def)
  have "length ids = length errs \<and> (he \<longleftrightarrow> (\<exists>e \<in> set errs. e \<noteq> None))"
    using addPools_loop_preserves [OF pool_sys_invD(1) [OF si], of "map (\<lambda>(key, addrs, pID). (key, pID)) valid"] lp room by auto
  then have "(if (if \<not> he then [] else errs) = [] then replicate (length ids) None else (if \<not> he then [] else errs)) = errs"
    by (auto intro!: replicate_eqI [symmetric])
  moreover have "pool_sys_inv ?ps"
    using pool_step_preserves [OF step_AddPools [OF _ call] si] room by simp
  moreover have "psRegistry ?ps = r'" by simp
  ultimately show thesis using that [OF call] by blast
qed

lemma gs_AddPools_loop:
  assumes "graph_sys_inv gs" and "linked \<noteq> []"
  obtains gs' where "gs_AddPools (map fst linked) (map (fst \<circ> snd) linked) gs = Some gs'" and "graph_sys_inv gs'"
    and "gsRegistry gs' = foldl (\<lambda>g (p, tids). graph_add tids p g) (gsRegistry gs) (map (\<lambda>res. (fst res, fst (snd res))) linked)"
proof -
  have z: "zip (map fst linked) (map (fst \<circ> snd) linked) = map (\<lambda>res. (fst res, fst (snd res))) linked" by (induction linked) auto
  obtain gs' where gs': "gs_AddPools (map fst linked) (map (fst \<circ> snd) linked) gs = Some gs'" using assms(2) by (simp add: gs_AddPools_def)
  then have "graph_sys_inv gs'" using graph_step_inv [OF gstep_AddPools assms(1)] by blast
  with gs' assms(2) show thesis using that by (auto simp: gs_AddPools_def z)
qed

definition flags_ok :: "manager_error option list \<Rightarrow> (uint64 \<times> uint64 list \<times> bool) list \<Rightarrow> bool" where
  "flags_ok errs out \<longleftrightarrow> (if errs = [] then \<forall>x \<in> set out. snd (snd x) else map (\<lambda>e. e = None) errs = map (snd \<circ> snd) out)"

text \<open>What \<^verbatim>\<open>RegisterPools\<close> leaves in the registries and returns, in terms of \<open>each\<close>.\<close>

definition batch_outcome ::
  "RegistryManager \<Rightarrow> PoolKey list \<Rightarrow> address list list \<Rightarrow> ProtocolID list \<Rightarrow> (uint64 \<times> uint64 list \<times> bool) list \<Rightarrow>
   PoolRegistry \<Rightarrow> TokenPoolsRegistry \<Rightarrow> bool" where
  "batch_outcome rm keys sets protos out r g \<longleftrightarrow>
     (\<exists>errs rm'. rm_RegisterPools keys sets protos rm = Some ((map fst out, map (fst \<circ> snd) out, errs), rm') \<and>
       flags_ok errs out \<and> psRegistry (rmPoolSystem rm') = r \<and> gsRegistry (rmTokenPoolSystem rm') = g \<and>
       pool_sys_inv (rmPoolSystem rm') \<and> graph_sys_inv (rmTokenPoolSystem rm') \<and> rmTokenSystem rm' = rmTokenSystem rm \<and>
       rmHasBeforeRegister rm' = rmHasBeforeRegister rm \<and> rmBeforeRegisterCalls rm' = rmBeforeRegisterCalls (rm_before keys rm))"

lemma rm_before_fields:
  "rmTokenSystem (rm_before keys rm) = rmTokenSystem rm" "rmPoolSystem (rm_before keys rm) = rmPoolSystem rm"
  "rmTokenPoolSystem (rm_before keys rm) = rmTokenPoolSystem rm" "rmHasBeforeRegister (rm_before keys rm) = rmHasBeforeRegister rm"
  by (simp_all add: rm_before_def)

lemma strip_final_simps:
  "map fst (map strip_final xs) = map fst xs" "map (fst \<circ> snd) (map strip_final xs) = map (fst \<circ> snd) xs"
  "map (snd \<circ> snd) (map strip_final xs) = map (\<lambda>x. snd (snd x) = None) xs"
  by (simp_all add: strip_final_def comp_def)

lemma RegisterPools_each:
  assumes inv: "manager_inv rm" and len: "length sets = length keys" "length protos = length keys"
    and room: "unat (prNextID (psRegistry (rmPoolSystem rm))) + length keys < 2 ^ 64"
    and e: "each (rmTokenSystem rm) (zip keys (zip sets protos)) (psRegistry (rmPoolSystem rm)) (gsRegistry (rmTokenPoolSystem rm)) = (out, r, g)"
  shows "batch_outcome rm keys sets protos out r g"
proof -
  let ?ts = "rmTokenSystem rm" and ?items = "zip keys (zip sets protos)" and ?ps = "rmPoolSystem rm" and ?gs = "rmTokenPoolSystem rm"
  let ?rm = "rm_before keys rm"
  have si: "pool_sys_inv ?ps" "graph_sys_inv ?gs" using inv by (simp_all add: manager_inv_def)
  define valid where "valid = filter (\<lambda>item. first_missing ?ts (fst (snd item)) = None) ?items"
  have li: "length ?items = length keys" using len by simp
  show ?thesis
  proof (cases "valid = []")
    case True
    let ?final = "scatter ?ts ?items []"
    have sc: "each ?ts ?items (psRegistry ?ps) (gsRegistry ?gs) = (map strip_final ?final, psRegistry ?ps, gsRegistry ?gs)"
      "\<forall>res \<in> set ?final. snd (snd res) \<noteq> None"
      using scatter_no_valid [of ?ts ?items] True unfolding valid_def by blast+
    then have o: "out = map strip_final ?final" "r = psRegistry ?ps" "g = gsRegistry ?gs" using e by auto
    have "rm_RegisterPools keys sets protos rm = Some ((map fst ?final, map (fst \<circ> snd) ?final, map (snd \<circ> snd) ?final), ?rm)"
      using True len by (auto simp: rm_RegisterPools_def Let_def rm_before_fields valid_def)
    moreover have "flags_ok (map (snd \<circ> snd) ?final) out"
      unfolding o(1) flags_ok_def strip_final_simps by (simp add: comp_def)
    ultimately show ?thesis
      using si unfolding batch_outcome_def o strip_final_simps
      by (intro exI [of _ "map (snd \<circ> snd) ?final"] exI [of _ ?rm]) (simp add: rm_before_fields o)
  next
    case False
    obtain ids errs ch he r' where lp: "addPools_loop (map (\<lambda>(key, addrs, pID). (key, pID)) valid) (psRegistry ?ps) = (ids, errs, ch, he, r')"
      by (metis prod_cases5)
    have lv: "length valid \<le> length keys" using li length_filter_le [of _ ?items] by (simp add: valid_def)
    define results where "results = batch_results ?ts valid ids errs"
    define final where "final = scatter ?ts ?items results"
    define linked where "linked = filter (\<lambda>res. snd (snd res) = None) results"
    have bt: "out = map strip_final final" "r = r'"
      "g = foldl (\<lambda>g (p, tids). graph_add tids p g) (gsRegistry ?gs) (map (\<lambda>res. (fst res, fst (snd res))) linked)"
      using batch_each [OF pool_sys_invD(1) [OF si(1)] _ lp [unfolded valid_def]] e room li
      by (simp_all add: valid_def final_def results_def linked_def)
    have rv: "unat (prNextID (psRegistry ?ps)) + length valid < 2 ^ 64" using room lv by linarith
    obtain addErrs ps' where ps': "ps_AddPools (map fst valid) (map (snd \<circ> snd) valid) ?ps = Some ((ids, addErrs), ps')"
      "(if addErrs = [] then replicate (length ids) None else addErrs) = errs" "psRegistry ps' = r'" "pool_sys_inv ps'"
      by (rule ps_AddPools_loop [OF si(1) rv False lp])
    obtain gs' where gs': "graph_sys_inv gs'" "gsRegistry gs' = g"
      "linked \<noteq> [] \<Longrightarrow> gs_AddPools (map fst linked) (map (fst \<circ> snd) linked) ?gs = Some gs'" "linked = [] \<Longrightarrow> gs' = ?gs"
    proof (cases "linked = []")
      case True
      with that [of ?gs] bt(3) si(2) show thesis by simp
    next
      case False
      show thesis by (rule gs_AddPools_loop [OF si(2) False]) (use that bt(3) False in auto)
    qed
    let ?fe = "map (snd \<circ> snd) final"
    let ?errs = "if \<exists>e \<in> set ?fe. e \<noteq> None then ?fe else []"
    have res: "map (\<lambda>(item, poolID, err). finish_pool ?ts item poolID err) (zip valid (zip ids errs)) = results"
      by (simp add: results_def batch_results_def)
    have "rm_RegisterPools keys sets protos rm = Some ((map fst final, map (fst \<circ> snd) final, ?errs), ?rm\<lparr>rmPoolSystem := ps', rmTokenPoolSystem := gs'\<rparr>)"
      using False len
      by (cases "linked = []")
        (simp_all add: rm_RegisterPools_def rm_before_fields valid_def [symmetric] ps'(1) ps'(2) Let_def res
          final_def [symmetric] linked_def [symmetric] gs'(3,4) del: filter_empty_conv)
    moreover have "flags_ok ?errs out"
      unfolding bt(1) flags_ok_def strip_final_simps by (auto simp: strip_final_def)
    ultimately show ?thesis
      using ps'(3,4) gs'(1,2) bt(2) unfolding batch_outcome_def bt(1) strip_final_simps
      by (intro exI [of _ ?errs] exI [of _ "?rm\<lparr>rmPoolSystem := ps', rmTokenPoolSystem := gs'\<rparr>"])
        (simp add: rm_before_fields bt(1))
  qed
qed

section \<open>Properties of the manager\<close>

lemma each_length: "each ts items r g = (out, r', g') \<Longrightarrow> length out = length items"
proof (induction items arbitrary: r g out)
  case (Cons item items)
  obtain key addrs pID where item: "item = (key, addrs, pID)" by (cases item)
  show ?case using Cons by (auto simp: item Let_def split: if_splits sum.splits prod.splits)
qed simp

text \<open>The registries along the sequence keep the link between graph and pools.\<close>

lemma each_preserves:
  assumes "pool_inv r" and "graph_inv g" and "unat (prNextID r) + length items < 2 ^ 64"
    and "\<forall>x \<in> graph_edges g. snd (snd x) \<in> set (prID r)" and "each ts items r g = (out, r', g')"
  shows "pool_inv r' \<and> graph_inv g' \<and> (\<forall>x \<in> graph_edges g'. snd (snd x) \<in> set (prID r'))"
  using assms
proof (induction items arbitrary: r g out)
  case (Cons item items)
  obtain key addrs pID where item: "item = (key, addrs, pID)" by (cases item)
  have n: "unat (prNextID r) + Suc (length items) < 2 ^ 64" using Cons.prems(3) by simp
  then have n': "unat (prNextID r) + length items < 2 ^ 64" by simp
  show ?case
  proof (cases "first_missing ts addrs = None \<and> (\<exists>x. pr_addPool key pID r = Inr x)")
    case False
    then obtain out' where "each ts items r g = (out', r', g')"
      using Cons.prems(5) by (auto simp: item Let_def split: if_splits sum.splits prod.splits)
    then show ?thesis using Cons.IH [OF Cons.prems(1,2) n' Cons.prems(4)] by blast
  next
    case True
    then obtain i q where q: "pr_addPool key pID r = Inr (i, q)" by auto
    have c: "prNextID r + 1 \<noteq> 0" using unat_succ_le [OF n] by blast
    note pr = pr_addPool_preserves [OF Cons.prems(1) c q] and ids = pr_addPool_ids [OF Cons.prems(1) c q]
    have nq: "unat (prNextID q) + length items < 2 ^ 64" using pr unat_succ_le [OF n] by (simp add: word_le_nat_alt)
    let ?g = "graph_add (map (tokenIDMap ts) addrs) i g"
    obtain out' where "each ts items q ?g = (out', r', g')"
      using Cons.prems(5) True q by (auto simp: item Let_def split: prod.splits)
    moreover have "\<forall>x \<in> graph_edges ?g. snd (snd x) \<in> set (prID q)"
      using Cons.prems(4) ids(1) by (auto simp: graph.add_edges [OF Cons.prems(2)])
    ultimately show ?thesis
      using Cons.IH [OF _ graph.add_inv [OF Cons.prems(2)] nq] pr by blast
  qed
qed simp

inductive manager_step :: "RegistryManager \<Rightarrow> RegistryManager \<Rightarrow> bool" where
  mstep_RegisterPool: "prNextID (psRegistry (rmPoolSystem rm)) + 1 \<noteq> 0 \<Longrightarrow> manager_step rm (snd (rm_RegisterPool key addrs pID rm))"
| mstep_RegisterPools: "unat (prNextID (psRegistry (rmPoolSystem rm))) + length keys < 2 ^ 64 \<Longrightarrow>
     rm_RegisterPools keys sets protos rm = Some (res, rm') \<Longrightarrow> manager_step rm rm'"
| mstep_DeletePool: "manager_step rm (snd (rm_DeletePool poolID rm))"
| mstep_DeletePools: "manager_step rm (snd (rm_DeletePools poolIDs rm))"
| mstep_SetBefore: "manager_step rm (rm_SetBeforeRegisterPoolFunc f rm)"
| mstep_Token: "token_step (rmTokenSystem rm) ts \<Longrightarrow> manager_step rm (rm\<lparr>rmTokenSystem := ts\<rparr>)"
| mstep_AddToBlockList: "manager_step rm (rm\<lparr>rmPoolSystem := ps_AddToBlockList key (rmPoolSystem rm)\<rparr>)"
| mstep_RemoveFromBlockList: "manager_step rm (rm\<lparr>rmPoolSystem := ps_RemoveFromBlockList key (rmPoolSystem rm)\<rparr>)"

lemma RegisterPool_inv:
  assumes inv: "manager_inv rm" and c: "prNextID (psRegistry (rmPoolSystem rm)) + 1 \<noteq> 0"
  shows "manager_inv (snd (rm_RegisterPool key addrs pID rm))"
proof -
  let ?ps = "rmPoolSystem rm" and ?gs = "rmTokenPoolSystem rm"
  have si: "pool_sys_inv ?ps" "graph_sys_inv ?gs" and ti: "token_inv (tsRegistry (rmTokenSystem rm))"
    and lk: "\<forall>x \<in> graph_edges (gsRegistry ?gs). snd (snd x) \<in> set (prID (psRegistry ?ps))"
    using inv by (simp_all add: manager_inv_iff)
  have gi: "graph_inv (gsRegistry ?gs)" using si(2) by (simp add: graph_sys_inv_def)
  show ?thesis
  proof (cases "first_missing (rmTokenSystem rm) addrs = None \<and> (\<exists>x. pr_addPool key pID (psRegistry ?ps) = Inr x)")
    case False
    then have "rmPoolSystem (snd (rm_RegisterPool key addrs pID rm)) = ?ps \<and> rmTokenPoolSystem (snd (rm_RegisterPool key addrs pID rm)) = ?gs
      \<and> rmTokenSystem (snd (rm_RegisterPool key addrs pID rm)) = rmTokenSystem rm"
      by (auto simp: rm_RegisterPool_def Let_def lookup_tokens_eq rm_before_fields ps_AddPool_def split: sum.split)
    then show ?thesis using inv by (simp add: manager_inv_def)
  next
    case True
    then obtain i q where q: "pr_addPool key pID (psRegistry ?ps) = Inr (i, q)" by auto
    note ids = pr_addPool_ids [OF pool_sys_invD(1) [OF si(1)] c q]
    have sn: "snd (rm_RegisterPool key addrs pID rm) = (rm_before [key] rm)\<lparr>rmPoolSystem := snd (ps_AddPool key pID ?ps),
        rmTokenPoolSystem := gs_AddPool (map (tokenIDMap (rmTokenSystem rm)) addrs) i ?gs\<rparr>"
      using True q by (simp add: rm_RegisterPool_def Let_def lookup_tokens_eq rm_before_fields ps_AddPool_def)
    have "psRegistry (snd (ps_AddPool key pID ?ps)) = q" using q by (simp add: ps_AddPool_def)
    moreover have "pool_sys_inv (snd (ps_AddPool key pID ?ps))" using pool_step_preserves [OF step_AddPool [OF c] si(1)] by blast
    moreover have "graph_sys_inv (gs_AddPool ts i ?gs)" for ts by (rule graph_step_inv [OF gstep_AddPool si(2)])
    ultimately show ?thesis
      using ti lk ids(1) by (auto simp: manager_inv_iff sn rm_before_fields gs_AddPool_def graph.add_edges [OF gi])
  qed
qed

lemma RegisterPools_inv:
  assumes inv: "manager_inv rm" and room: "unat (prNextID (psRegistry (rmPoolSystem rm))) + length keys < 2 ^ 64"
    and call: "rm_RegisterPools keys sets protos rm = Some (res, rm')"
  shows "manager_inv rm'"
proof -
  have len: "length sets = length keys" "length protos = length keys"
    using call by (auto simp: rm_RegisterPools_def Let_def split: if_splits)
  obtain out r g where e: "each (rmTokenSystem rm) (zip keys (zip sets protos)) (psRegistry (rmPoolSystem rm))
      (gsRegistry (rmTokenPoolSystem rm)) = (out, r, g)" by (metis prod_cases3)
  have i: "token_inv (tsRegistry (rmTokenSystem rm))" "pool_sys_inv (rmPoolSystem rm)" "graph_inv (gsRegistry (rmTokenPoolSystem rm))"
    "\<forall>x \<in> graph_edges (gsRegistry (rmTokenPoolSystem rm)). snd (snd x) \<in> set (prID (psRegistry (rmPoolSystem rm)))"
    using inv by (simp_all add: manager_inv_iff graph_sys_inv_def)
  have "\<forall>x \<in> graph_edges g. snd (snd x) \<in> set (prID r)"
    using each_preserves [OF pool_sys_invD(1) [OF i(2)] i(3) _ i(4) e] room len by simp
  then show ?thesis
    using RegisterPools_each [OF inv len room e] call i(1) by (auto simp: batch_outcome_def manager_inv_iff)
qed

lemma Delete_inv:
  assumes inv: "manager_inv rm"
  shows "manager_inv (snd (rm_DeletePool poolID rm))" and "manager_inv (snd (rm_DeletePools poolIDs rm))"
proof -
  let ?ps = "rmPoolSystem rm" and ?gs = "rmTokenPoolSystem rm"
  have si: "pool_sys_inv ?ps" "graph_sys_inv ?gs" and ti: "token_inv (tsRegistry (rmTokenSystem rm))"
    and lk: "\<forall>x \<in> graph_edges (gsRegistry ?gs). snd (snd x) \<in> set (prID (psRegistry ?ps))"
    using inv by (simp_all add: manager_inv_iff)
  have gi: "graph_inv (gsRegistry ?gs)" and pi: "pool_inv (psRegistry ?ps)"
    using si pool_sys_invD(1) by (simp_all add: graph_sys_inv_def)
  have d1: "pool_sys_inv (snd (ps_DeletePool poolID ?ps))" and d2: "pool_sys_inv (snd (ps_DeletePools poolIDs ?ps))"
    using pool_step_preserves [OF step_DeletePool si(1)] pool_step_preserves [OF step_DeletePools si(1)] by blast+
  have g1: "graph_sys_inv (gs_RemovePool poolID ?gs)" and g2: "graph_sys_inv (gs_RemovePools poolIDs ?gs)"
    using graph_step_inv [OF gstep_RemovePool si(2)] graph_step_inv [OF gstep_RemovePools si(2)] by blast+
  show "manager_inv (snd (rm_DeletePool poolID rm))"
  proof (cases "pr_deletePool poolID (psRegistry ?ps)")
    case (Inl e)
    then show ?thesis using inv by (simp add: rm_DeletePool_def ps_DeletePool_def manager_inv_def)
  next
    case (Inr r)
    then show ?thesis
      using ti d1 g1 lk del_one_ids [OF pi Inr]
      by (auto simp: rm_DeletePool_def ps_DeletePool_def manager_inv_iff gs_RemovePool_def graph.rmPool_edges [OF gi])
  qed
  have "psRegistry (snd (ps_DeletePools poolIDs ?ps)) = snd (pools.del_batch poolIDs (psRegistry ?ps))"
    by (cases rule: ps_DeletePools_state [of poolIDs ?ps]) auto
  then have "set (prID (psRegistry (snd (ps_DeletePools poolIDs ?ps)))) = set (prID (psRegistry ?ps)) - set poolIDs"
    by (simp add: del_batch_ids [OF pi])
  moreover have "graph_edges (gsRegistry (gs_RemovePools poolIDs ?gs)) = {x \<in> graph_edges (gsRegistry ?gs). snd (snd x) \<notin> set poolIDs}"
    using graph.rmPool_batch [OF gi, of poolIDs] by (simp add: gs_RemovePools_def)
  ultimately show "manager_inv (snd (rm_DeletePools poolIDs rm))"
    using ti d2 g2 lk by (auto simp: rm_DeletePools_def Let_def case_prod_beta manager_inv_iff)
qed

lemma manager_step_inv: "manager_step rm rm' \<Longrightarrow> manager_inv rm \<Longrightarrow> manager_inv rm'"
proof (induction rule: manager_step.induct)
  case (mstep_RegisterPool rm key addrs pID)
  then show ?case by (simp add: RegisterPool_inv)
next
  case (mstep_RegisterPools rm keys sets protos res rm')
  then show ?case by (simp add: RegisterPools_inv)
next
  case (mstep_Token rm ts)
  then show ?case using token_step_preserves by (auto simp: manager_inv_iff)
next
  case (mstep_AddToBlockList rm key)
  have "pool_sys_inv (ps_AddToBlockList key (rmPoolSystem rm))"
    using pool_step_preserves [OF step_AddToBlockList] mstep_AddToBlockList by (simp add: manager_inv_def)
  then show ?case using mstep_AddToBlockList by (simp add: manager_inv_iff ps_AddToBlockList_def pr_addToBlockList_def)
next
  case (mstep_RemoveFromBlockList rm key)
  have "pool_sys_inv (ps_RemoveFromBlockList key (rmPoolSystem rm))"
    using pool_step_preserves [OF step_RemoveFromBlockList] mstep_RemoveFromBlockList by (simp add: manager_inv_def)
  then show ?case using mstep_RemoveFromBlockList by (simp add: manager_inv_iff ps_RemoveFromBlockList_def pr_removeFromBlockList_def)
next
  case (mstep_SetBefore rm f)
  then show ?case by (simp add: rm_SetBeforeRegisterPoolFunc_def manager_inv_def)
qed (simp_all add: Delete_inv)

text \<open>A manager over fresh systems, and the runs from it.\<close>

definition fresh_manager :: "int \<Rightarrow> RegistryManager" where
  "fresh_manager c = NewRegistryManager NewTokenSystem NewPoolSystem (NewTokenPoolSystem c)"

lemma manager_inv_fresh: "manager_inv (fresh_manager c)"
proof -
  have "graph_edges (gsRegistry (NewTokenPoolSystem c)) = {}" by (simp add: NewTokenPoolSystem_def Let_def graph_edges_new)
  then show ?thesis
    using token_inv_NewTokenSystem pool_sys_inv_new graph_sys_new [of c]
    by (simp add: manager_inv_iff fresh_manager_def NewRegistryManager_def graph_sys_bound_def)
qed

lemma manager_run_inv: "manager_step\<^sup>*\<^sup>* (fresh_manager c) rm \<Longrightarrow> manager_inv rm"
  by (induction rule: rtranclp_induct) (auto simp: manager_inv_fresh intro: manager_step_inv)

text \<open>The two tokens of the token system's example, and a pool that trades them.\<close>

definition sample_manager :: RegistryManager where
  "sample_manager = (fresh_manager 1000)\<lparr>rmTokenSystem := two_tokens\<rparr>"

definition sample_pool :: RegistryManager where
  "sample_pool = snd (rm_RegisterPool [9] [[1], [2]] ''v2'' sample_manager)"

lemma sample_manager_run: "manager_step\<^sup>*\<^sup>* (fresh_manager 1000) sample_manager"
proof -
  have "token_run ts ts' \<Longrightarrow> rmTokenSystem rm = ts \<Longrightarrow> manager_step\<^sup>*\<^sup>* rm (rm\<lparr>rmTokenSystem := ts'\<rparr>)" for ts ts' rm
  proof (induction rule: token_run.induct)
    case (run_step ts ts1 ts2)
    then have "manager_step (rm\<lparr>rmTokenSystem := ts1\<rparr>) (rm\<lparr>rmTokenSystem := ts1, rmTokenSystem := ts2\<rparr>)"
      using mstep_Token [of "rm\<lparr>rmTokenSystem := ts1\<rparr>" ts2] by simp
    then show ?case using run_step by auto
  qed auto
  from this [OF token_run_two_tokens, of "fresh_manager 1000"] show ?thesis
    by (simp add: sample_manager_def fresh_manager_def NewRegistryManager_def)
qed

lemma sample_pool_run: "manager_step\<^sup>*\<^sup>* (fresh_manager 1000) sample_pool"
  unfolding sample_pool_def
  by (rule rtranclp.rtrancl_into_rtrancl [OF sample_manager_run mstep_RegisterPool])
    (simp add: sample_manager_def fresh_manager_def NewRegistryManager_def NewPoolSystem_def NewPoolRegistry_def)

lemmas manager_eval = sample_pool_def sample_manager_def fresh_manager_def NewRegistryManager_def rm_RegisterPool_def
  rm_before_def first_missing_def tokenIDMap_def two_tokens_def token_eval



text \<open>
  \<^verbatim>\<open>RegisterPool\<close> in a state of the manager that satisfies the invariant. It fails with
  \<^verbatim>\<open>ErrTokenNotFound\<close> exactly when a token address is unknown, and otherwise with the error of \<^verbatim>\<open>AddPool\<close>;
  on failure neither pools nor graph change. On success it returns the identifiers the token system
  has for the addresses and the pool's identifier, under which the key can be looked up, and the graph
  gains exactly the edges between the pool's tokens.
\<close>

theorem RegisterPool_spec:
  assumes inv: "manager_inv rm" and c: "prNextID (psRegistry (rmPoolSystem rm)) + 1 \<noteq> 0"
  shows "case rm_RegisterPool key addrs pID rm of
     (Inl e, rm') \<Rightarrow> rmPoolSystem rm' = rmPoolSystem rm \<and> rmTokenPoolSystem rm' = rmTokenPoolSystem rm \<and>
       (e = ManagerErrTokenNotFound \<longleftrightarrow> (\<exists>a \<in> set addrs. \<forall>v \<in> set (ts_View (rmTokenSystem rm)). tvAddress v \<noteq> a)) \<and>
       (e = ManagerErrTokenNotFound \<or> (\<exists>pe. e = ErrAddPool pe \<and> fst (ps_AddPool key pID (rmPoolSystem rm)) = Inl pe))
   | (Inr (poolID, tokenIDs), rm') \<Rightarrow>
       list_all2 (\<lambda>a i. \<exists>v \<in> set (ts_View (rmTokenSystem rm)). tvAddress v = a \<and> tvID v = i) addrs tokenIDs \<and>
       ps_GetID key (rmPoolSystem rm') = Inr poolID \<and>
       view_edges (gs_View (rmTokenPoolSystem rm')) =
         view_edges (gs_View (rmTokenPoolSystem rm)) \<union> {(a, b, poolID) | a b. (a, b) \<in> clique tokenIDs}"
proof -
  let ?ts = "rmTokenSystem rm" and ?ps = "rmPoolSystem rm" and ?gs = "rmTokenPoolSystem rm"
  have si: "pool_sys_inv ?ps" "graph_sys_inv ?gs" and ti: "token_inv (tsRegistry ?ts)" using inv by (simp_all add: manager_inv_def)
  have gi: "graph_inv (gsRegistry ?gs)" using si(2) by (simp add: graph_sys_inv_def)
  note get = token_get_address [OF ti]
  have known: "ts_GetTokenByAddress a ?ts = option_result ErrTokenNotFound (keyed tvAddress (ts_View ?ts) a)" for a
    by (simp add: ts_GetTokenByAddress_def get ts_View_def)
  have miss: "first_missing ?ts addrs = None \<longleftrightarrow> \<not> (\<exists>a \<in> set addrs. \<forall>v \<in> set (ts_View ?ts). tvAddress v \<noteq> a)"
  proof -
    have "isl (ts_GetTokenByAddress a ?ts) \<longleftrightarrow> (\<forall>v \<in> set (ts_View ?ts). tvAddress v \<noteq> a)" for a
    proof (cases "keyed tvAddress (ts_View ?ts) a")
      case None
      then show ?thesis by (auto simp: known keyed_None_iff [THEN iffD1, OF None] dest: keyed_None_iff [THEN iffD1])
    next
      case (Some v)
      then show ?thesis using keyed_SomeD [OF Some] by (auto simp: known)
    qed
    then show ?thesis by (auto simp: first_missing_def find_None_iff)
  qed
  show ?thesis
  proof (cases "first_missing ?ts addrs")
    case (Some a)
    then show ?thesis using miss by (simp add: rm_RegisterPool_def Let_def lookup_tokens_eq rm_before_fields)
  next
    case None
    note ok = miss [THEN iffD1, OF None]
    show ?thesis
    proof (cases "pr_addPool key pID (psRegistry ?ps)")
      case (Inl e)
      then show ?thesis using None ok by (simp add: rm_RegisterPool_def Let_def lookup_tokens_eq rm_before_fields ps_AddPool_def)
    next
      case (Inr x)
      obtain i q where x: "x = (i, q)" by (cases x)
      let ?ids = "map (tokenIDMap ?ts) addrs"
      have "\<exists>v \<in> set (ts_View ?ts). tvAddress v = a \<and> tvID v = tokenIDMap ?ts a" if "a \<in> set addrs" for a
      proof -
        have "a \<in> tvAddress ` set (ts_View ?ts)" using ok that by auto
        then obtain v where "keyed tvAddress (ts_View ?ts) a = Some v"
          by (cases "keyed tvAddress (ts_View ?ts) a") (auto simp: keyed_None_iff)
        then show ?thesis using keyed_SomeD by (fastforce simp: tokenIDMap_def known)
      qed
      then have l: "list_all2 (\<lambda>a i. \<exists>v \<in> set (ts_View ?ts). tvAddress v = a \<and> tvID v = i) addrs ?ids"
        by (simp add: list_all2_conv_all_nth)
      let ?ps' = "ps_updateCachedView (?ps\<lparr>psRegistry := q\<rparr>)"
      have "graph_sys_inv (gs_AddPool ?ids i ?gs)" by (rule graph_step_inv [OF gstep_AddPool si(2)])
      then have ve: "view_edges (gs_View (gs_AddPool ?ids i ?gs)) = view_edges (gs_View ?gs) \<union> {(a, b, i) | a b. (a, b) \<in> clique ?ids}"
        using graph.add_edges [OF gi, of ?ids i] by (simp add: gs_View_edges si(2)) (simp add: gs_AddPool_def)
      have "pr_getID key q = Inr i"
      proof (rule pr_addPool_spec [OF pool_sys_invD(1) [OF si(1)] c Inr [unfolded x]])
        assume "q = psRegistry ?ps" "\<exists>v. keyed pvKey (pr_pools (psRegistry ?ps)) key = Some v \<and> pvID v = i"
        then show ?thesis by (auto simp: pr_getID_keyed [OF pool_sys_invD(1) [OF si(1)]])
      next
        fix p assume "keyed pvKey (pr_pools (psRegistry ?ps)) key = None" "i = prNextID (psRegistry ?ps)" "pool_inv q"
          "pr_pools q = pr_pools (psRegistry ?ps) @ [\<lparr>pvID = prNextID (psRegistry ?ps), pvKey = key, pvProtocol = p\<rparr>]"
        then show ?thesis by (simp add: pr_getID_keyed keyed_append_None)
      qed
      then show ?thesis using None Inr x l ve
        by (simp add: rm_RegisterPool_def Let_def lookup_tokens_eq rm_before_fields ps_AddPool_def ps_GetID_def)
    qed
  qed
qed

theorem RegisterPool_spec_witness:
  "fst (rm_RegisterPool [9] [[1], [2]] ''v2'' sample_manager) = Inr (1, [1, 2]) \<and>
   view_edges (gs_View (rmTokenPoolSystem sample_pool)) =
     view_edges (gs_View (rmTokenPoolSystem sample_manager)) \<union> {(a, b, 1) | a b. (a, b) \<in> clique [1, 2]}"
proof -
  have "prNextID (psRegistry (rmPoolSystem sample_manager)) + 1 \<noteq> 0" by (simp add: manager_eval pool_eval)
  from RegisterPool_spec [OF manager_run_inv [OF sample_manager_run] this, where key = "[9]" and addrs = "[[1], [2]]" and pID = "''v2''"]
  have *: "case rm_RegisterPool [9] [[1], [2]] ''v2'' sample_manager of (Inr (poolID, tokenIDs), rm') \<Rightarrow>
     view_edges (gs_View (rmTokenPoolSystem rm')) = view_edges (gs_View (rmTokenPoolSystem sample_manager)) \<union>
       {(a, b, poolID) | a b. (a, b) \<in> clique tokenIDs} | _ \<Rightarrow> True"
    by (auto split: prod.splits sum.splits)
  have r: "fst (rm_RegisterPool [9] [[1], [2]] ''v2'' sample_manager) = Inr (1, [1, 2])"
    by (simp add: manager_eval pool_eval)
  then show ?thesis using * unfolding sample_pool_def
    by (cases "rm_RegisterPool [9] [[1], [2]] ''v2'' sample_manager") simp
qed

text \<open>
  The batch \<^verbatim>\<open>RegisterPools\<close>, with its pre-flight check, its filtered call of \<^verbatim>\<open>AddPools\<close> and its
  single update of the graph, is the sequence of \<^verbatim>\<open>RegisterPool\<close> calls on the same requests in order:
  it never panics on slices of equal length, every system ends in the same state, the hook has been
  called with the same keys, each request gets the same identifier and token identifiers, and errors
  are reported at exactly the requests where the single call fails (the error slice is empty when none
  does).
\<close>

theorem RegisterPools_sequential:
  assumes inv: "manager_inv rm" and len: "length sets = length keys" "length protos = length keys"
    and room: "unat (prNextID (psRegistry (rmPoolSystem rm))) + length keys < 2 ^ 64"
  shows "\<exists>errs rm'. rm_RegisterPools keys sets protos rm =
       Some ((map fst (fst (registerEach (zip keys (zip sets protos)) rm)),
              map (fst \<circ> snd) (fst (registerEach (zip keys (zip sets protos)) rm)), errs), rm') \<and>
     flags_ok errs (fst (registerEach (zip keys (zip sets protos)) rm)) \<and>
     psRegistry (rmPoolSystem rm') = psRegistry (rmPoolSystem (snd (registerEach (zip keys (zip sets protos)) rm))) \<and>
     gsRegistry (rmTokenPoolSystem rm') = gsRegistry (rmTokenPoolSystem (snd (registerEach (zip keys (zip sets protos)) rm))) \<and>
     ps_View (rmPoolSystem rm') = pr_view (psRegistry (rmPoolSystem rm')) \<and>
     gs_View (rmTokenPoolSystem rm') = graph_view (gsRegistry (rmTokenPoolSystem rm')) \<and>
     rmTokenSystem rm' = rmTokenSystem rm \<and>
     rmBeforeRegisterCalls rm' = rmBeforeRegisterCalls (snd (registerEach (zip keys (zip sets protos)) rm))"
proof -
  let ?items = "zip keys (zip sets protos)"
  obtain out r g where e: "each (rmTokenSystem rm) ?items (psRegistry (rmPoolSystem rm))
      (gsRegistry (rmTokenPoolSystem rm)) = (out, r, g)" by (metis prod_cases3)
  obtain rm1 where rm1: "registerEach ?items rm = (out, rm1)" "psRegistry (rmPoolSystem rm1) = r"
    "gsRegistry (rmTokenPoolSystem rm1) = g" "rmBeforeRegisterCalls rm1 = rmBeforeRegisterCalls (rm_before (map fst ?items) rm)"
    using registerEach_each [OF e] by blast
  have k: "map fst ?items = keys" using len by simp
  obtain errs rm' where b: "rm_RegisterPools keys sets protos rm = Some ((map fst out, map (fst \<circ> snd) out, errs), rm')"
    "flags_ok errs out" "psRegistry (rmPoolSystem rm') = r" "gsRegistry (rmTokenPoolSystem rm') = g"
    "pool_sys_inv (rmPoolSystem rm')" "graph_sys_inv (rmTokenPoolSystem rm')" "rmTokenSystem rm' = rmTokenSystem rm"
    "rmBeforeRegisterCalls rm' = rmBeforeRegisterCalls (rm_before keys rm)"
    using RegisterPools_each [OF inv len room e] unfolding batch_outcome_def by blast
  have "ps_View (rmPoolSystem rm') = pr_view (psRegistry (rmPoolSystem rm'))"
    using b(5) by (simp add: pool_sys_inv_def ps_View_def)
  then show ?thesis using b rm1 k gs_View_registry [OF b(6)] by (intro exI [of _ errs] exI [of _ rm']) simp
qed

theorem RegisterPools_sequential_witness:
  "\<exists>errs rm'. rm_RegisterPools [[9], [8], [7]] [[[1], [2]], [[1], [5]], [[2], [1]]] [''v2'', ''v2'', ''v3''] sample_manager
     = Some (([1, 0, 2], [[1, 2], [], [2, 1]], errs), rm') \<and> map (\<lambda>e. e = None) errs = [True, False, True]"
proof -
  let ?items = "zip [[9], [8], [7]] (zip [[[1], [2]], [[1], [5]], [[2], [1]]] [''v2'', ''v2'', ''v3''])"
  have room: "unat (prNextID (psRegistry (rmPoolSystem sample_manager))) + length [[9 :: byte], [8], [7]] < 2 ^ 64"
    by (simp add: manager_eval pool_eval)
  have out: "fst (registerEach ?items sample_manager) = [(1, [1, 2], True), (0, [], False), (2, [2, 1], True)]"
    by (simp add: manager_eval pool_eval graph_eval strip_result_def)
  show ?thesis
    using RegisterPools_sequential [OF manager_run_inv [OF sample_manager_run] _ _ room,
        where sets = "[[[1], [2]], [[1], [5]], [[2], [1]]]" and protos = "[''v2'', ''v2'', ''v3'']"]
    by (auto simp: out flags_ok_def simp del: zip_Cons_Cons split: if_splits)
qed

text \<open>
  \<^verbatim>\<open>DeletePools\<close> takes the listed pools out of every system at once: afterwards none of them is in the
  pool system or on an edge of the graph, every other pool and edge is untouched, and \<^verbatim>\<open>DeletePool\<close> of
  an unknown identifier reports \<^verbatim>\<open>ErrPoolNotFound\<close> and changes nothing.
\<close>

theorem manager_deletes:
  assumes inv: "manager_inv rm"
  shows "let rm' = snd (rm_DeletePools ids rm) in
     keyed pvID (prvPools (ps_View (rmPoolSystem rm'))) = keyed pvID (prvPools (ps_View (rmPoolSystem rm))) |` (- set ids) \<and>
     view_edges (gs_View (rmTokenPoolSystem rm')) = {x \<in> view_edges (gs_View (rmTokenPoolSystem rm)). snd (snd x) \<notin> set ids} \<and>
     (ps_GetByID i (rmPoolSystem rm) = Inl ErrPoolNotFound \<longrightarrow> rm_DeletePool i rm = (Inl ErrPoolNotFound, rm))"
proof -
  let ?ps = "rmPoolSystem rm" and ?gs = "rmTokenPoolSystem rm"
  have si: "pool_sys_inv ?ps" "graph_sys_inv ?gs" using inv by (simp_all add: manager_inv_def)
  note pi = pool_sys_invD(1) [OF si(1)]
  have gi: "graph_inv (gsRegistry ?gs)" using si(2) by (simp add: graph_sys_inv_def)
  have si': "pool_sys_inv (snd (ps_DeletePools ids ?ps))" "graph_sys_inv (gs_RemovePools ids ?gs)"
    using pool_step_preserves [OF step_DeletePools si(1)] graph_step_inv [OF gstep_RemovePools si(2)] by blast+
  have "psRegistry (snd (ps_DeletePools ids ?ps)) = snd (pools.del_batch ids (psRegistry ?ps))"
    by (cases rule: ps_DeletePools_state [of ids ?ps]) auto
  then have k: "keyed pvID (prvPools (ps_View (snd (ps_DeletePools ids ?ps)))) = keyed pvID (prvPools (ps_View ?ps)) |` (- set ids)"
    using pools.del_batch_spec [OF pi, of ids] by (simp add: pool_sys_invD(2) [OF si'(1)] pool_sys_invD(2) [OF si(1)])
  have "graph_edges (gsRegistry (gs_RemovePools ids ?gs)) = {x \<in> graph_edges (gsRegistry ?gs). snd (snd x) \<notin> set ids}"
    using graph.rmPool_batch [OF gi, of ids] by (simp add: gs_RemovePools_def)
  moreover have "rm_DeletePool i rm = (Inl ErrPoolNotFound, rm)" if "ps_GetByID i ?ps = Inl ErrPoolNotFound"
  proof -
    have "pr_deletePool i (psRegistry ?ps) = Inl ErrPoolNotFound"
      using that pools.del_missing [OF pi] by (simp add: ps_GetByID_keyed [OF si(1)] pool_sys_invD(2) [OF si(1)] option_result_eq_iff)
    then show ?thesis by (simp add: rm_DeletePool_def ps_DeletePool_def)
  qed
  ultimately show ?thesis
    using k by (simp add: rm_DeletePools_def Let_def case_prod_beta gs_View_edges si(2) si'(2))
qed

theorem manager_deletes_witness:
  "keyed pvID (prvPools (ps_View (rmPoolSystem (snd (rm_DeletePools [1] sample_pool))))) 1 = None \<and>
   rm_DeletePool 7 sample_pool = (Inl ErrPoolNotFound, sample_pool)"
proof -
  note d = manager_deletes [OF manager_run_inv [OF sample_pool_run], of "[1]" 7]
  have "ps_GetByID 7 (rmPoolSystem sample_pool) = Inl ErrPoolNotFound" by (simp add: manager_eval pool_eval)
  with d show ?thesis by (simp add: Let_def)
qed

end
