(* ===== verification/UniswapV2_Registry.thy ===== *)
theory UniswapV2_Registry
  imports Interfaces
begin

text \<open>
  The Uniswap V2 pool registry of \<^verbatim>\<open>src/protocols/uniswap-v2/registry.go\<close> with its differ and patcher.
  Reserves are \<^verbatim>\<open>*big.Int\<close>: every view copies them and the registry never holds a nil one, so they are
  integers here. The functions that resolve addresses to identifiers belong to other components and
  are arguments, as in the code.
\<close>

section \<open>Data\<close>

datatype v2_error =
    V2ErrPoolExists
  | V2ErrPoolNotFound
  | V2DependencyError string address

record V2PoolView =
  v2ID :: uint64
  v2Token0 :: uint64
  v2Token1 :: uint64
  v2Reserve0 :: int
  v2Reserve1 :: int
  v2Type :: uint8
  v2FeeBps :: uint16

record UniswapV2Registry =
  u2ID :: "uint64 list"
  u2Token0 :: "uint64 list"
  u2Token1 :: "uint64 list"
  u2Reserve0 :: "int list"
  u2Reserve1 :: "int list"
  u2PoolType :: "uint8 list"
  u2Fee :: "uint16 list"
  u2LastUpdatedAt :: "uint64 list"
  u2IdToIndex :: "uint64 \<rightharpoonup> nat"

section \<open>\<^verbatim>\<open>registry.go\<close>\<close>

definition NewUniswapV2Registry :: UniswapV2Registry where
  "NewUniswapV2Registry = \<lparr>u2ID = [], u2Token0 = [], u2Token1 = [], u2Reserve0 = [], u2Reserve1 = [],
     u2PoolType = [], u2Fee = [], u2LastUpdatedAt = [], u2IdToIndex = Map.empty\<rparr>"

definition NewUniswapV2RegistryFromViews :: "V2PoolView list \<Rightarrow> UniswapV2Registry" where
  "NewUniswapV2RegistryFromViews views =
     (if length views = 0 then NewUniswapV2Registry
      else \<lparr>u2ID = map v2ID views, u2Token0 = map v2Token0 views, u2Token1 = map v2Token1 views,
        u2Reserve0 = map v2Reserve0 views, u2Reserve1 = map v2Reserve1 views, u2PoolType = map v2Type views,
        u2Fee = map v2FeeBps views, u2LastUpdatedAt = replicate (length views) 0,
        u2IdToIndex = lookup_map (map v2ID views)\<rparr>)"

definition v2_addPool ::
  "address \<Rightarrow> address \<Rightarrow> address \<Rightarrow> uint8 \<Rightarrow> uint16 \<Rightarrow> (address \<Rightarrow> uint64 option) \<Rightarrow> (address \<Rightarrow> uint64 option) \<Rightarrow>
   UniswapV2Registry \<Rightarrow> v2_error + UniswapV2Registry" where
  "v2_addPool token0 token1 pool poolType feeBps tokenAddressToID poolAddressToID registry =
     bind_result (option_result (V2DependencyError ''poolAddressToID'' pool) (poolAddressToID pool)) (\<lambda>poolID.
       if u2IdToIndex registry poolID \<noteq> None then Inl V2ErrPoolExists
       else bind_result (option_result (V2DependencyError ''tokenAddressToID'' token0) (tokenAddressToID token0)) (\<lambda>tokenID0.
         bind_result (option_result (V2DependencyError ''tokenAddressToID'' token1) (tokenAddressToID token1)) (\<lambda>tokenID1.
           Inr (registry\<lparr>u2ID := u2ID registry @ [poolID], u2Token0 := u2Token0 registry @ [tokenID0],
             u2Token1 := u2Token1 registry @ [tokenID1], u2Reserve0 := u2Reserve0 registry @ [0],
             u2Reserve1 := u2Reserve1 registry @ [0], u2PoolType := u2PoolType registry @ [poolType],
             u2Fee := u2Fee registry @ [feeBps], u2LastUpdatedAt := u2LastUpdatedAt registry @ [0],
             u2IdToIndex := (u2IdToIndex registry)(poolID \<mapsto> length (u2ID registry))\<rparr>))))"

definition v2_updatePool :: "int \<Rightarrow> int \<Rightarrow> uint64 \<Rightarrow> UniswapV2Registry \<Rightarrow> v2_error + UniswapV2Registry" where
  "v2_updatePool reserve0 reserve1 poolID registry =
     (case u2IdToIndex registry poolID of
        None \<Rightarrow> Inl V2ErrPoolNotFound
      | Some index \<Rightarrow> Inr (registry\<lparr>u2Reserve0 := (u2Reserve0 registry)[index := reserve0],
          u2Reserve1 := (u2Reserve1 registry)[index := reserve1]\<rparr>))"

definition v2_setLastUpdatedAt :: "uint64 \<Rightarrow> uint64 \<Rightarrow> UniswapV2Registry \<Rightarrow> v2_error + UniswapV2Registry" where
  "v2_setLastUpdatedAt poolID time registry =
     (case u2IdToIndex registry poolID of
        None \<Rightarrow> Inl V2ErrPoolNotFound
      | Some index \<Rightarrow> Inr (registry\<lparr>u2LastUpdatedAt := (u2LastUpdatedAt registry)[index := time]\<rparr>))"

definition v2_getLastUpdatedAt :: "uint64 \<Rightarrow> UniswapV2Registry \<Rightarrow> v2_error + uint64" where
  "v2_getLastUpdatedAt poolID registry =
     (case u2IdToIndex registry poolID of
        None \<Rightarrow> Inl V2ErrPoolNotFound | Some index \<Rightarrow> Inr (u2LastUpdatedAt registry ! index))"

definition v2_getLastUpdatedAtMap :: "UniswapV2Registry \<Rightarrow> (uint64, uint64) gomap" where
  "v2_getLastUpdatedAtMap registry =
     foldl (\<lambda>m i. AList.update (u2ID registry ! i) (u2LastUpdatedAt registry ! i) m) [] [0..<length (u2ID registry)]"

definition v2_deletePool :: "uint64 \<Rightarrow> UniswapV2Registry \<Rightarrow> v2_error + UniswapV2Registry" where
  "v2_deletePool poolID registry =
     (case u2IdToIndex registry poolID of
        None \<Rightarrow> Inl V2ErrPoolNotFound
      | Some indexToDelete \<Rightarrow>
          let lastIndex = length (u2ID registry) - 1;
              lastPoolID = u2ID registry ! lastIndex
          in Inr (registry\<lparr>u2ID := swap_pop indexToDelete lastIndex (u2ID registry),
               u2Token0 := swap_pop indexToDelete lastIndex (u2Token0 registry),
               u2Token1 := swap_pop indexToDelete lastIndex (u2Token1 registry),
               u2Reserve0 := swap_pop indexToDelete lastIndex (u2Reserve0 registry),
               u2Reserve1 := swap_pop indexToDelete lastIndex (u2Reserve1 registry),
               u2PoolType := swap_pop indexToDelete lastIndex (u2PoolType registry),
               u2Fee := swap_pop indexToDelete lastIndex (u2Fee registry),
               u2LastUpdatedAt := swap_pop indexToDelete lastIndex (u2LastUpdatedAt registry),
               u2IdToIndex := (if indexToDelete \<noteq> lastIndex then (u2IdToIndex registry)(lastPoolID \<mapsto> indexToDelete)
                 else u2IdToIndex registry)(poolID := None)\<rparr>))"

definition v2ViewAt :: "UniswapV2Registry \<Rightarrow> nat \<Rightarrow> V2PoolView" where
  "v2ViewAt registry i =
     \<lparr>v2ID = u2ID registry ! i, v2Token0 = u2Token0 registry ! i, v2Token1 = u2Token1 registry ! i,
      v2Reserve0 = u2Reserve0 registry ! i, v2Reserve1 = u2Reserve1 registry ! i,
      v2Type = u2PoolType registry ! i, v2FeeBps = u2Fee registry ! i\<rparr>"

definition v2_viewRegistry :: "UniswapV2Registry \<Rightarrow> V2PoolView list" where
  "v2_viewRegistry registry = map (v2ViewAt registry) [0..<length (u2ID registry)]"

definition v2_getPoolById :: "uint64 \<Rightarrow> UniswapV2Registry \<Rightarrow> v2_error + V2PoolView" where
  "v2_getPoolById poolID registry =
     (case u2IdToIndex registry poolID of
        None \<Rightarrow> Inl V2ErrPoolNotFound | Some index \<Rightarrow> Inr (v2ViewAt registry index))"

definition v2_hasPool :: "uint64 \<Rightarrow> UniswapV2Registry \<Rightarrow> bool" where
  "v2_hasPool poolID registry \<longleftrightarrow> u2IdToIndex registry poolID \<noteq> None"

section \<open>\<^verbatim>\<open>differ.go\<close> and \<^verbatim>\<open>patcher.go\<close>\<close>

record UniswapV2SystemDiff =
  v2dAdditions :: "V2PoolView list"
  v2dUpdates :: "V2PoolView list"
  v2dDeletions :: "uint64 list"

definition v2_IsEmpty :: "UniswapV2SystemDiff \<Rightarrow> bool" where
  "v2_IsEmpty d \<longleftrightarrow> length (v2dAdditions d) = 0 \<and> length (v2dUpdates d) = 0 \<and> length (v2dDeletions d) = 0"

definition v2_changed :: "V2PoolView \<Rightarrow> V2PoolView \<Rightarrow> bool" where
  "v2_changed oldPool newPool \<longleftrightarrow> v2Reserve0 oldPool \<noteq> v2Reserve0 newPool \<or> v2Reserve1 oldPool \<noteq> v2Reserve1 newPool"

definition v2_Differ ::
  "(uint64, V2PoolView) range_order \<Rightarrow> (uint64, V2PoolView) range_order \<Rightarrow>
   V2PoolView list \<Rightarrow> V2PoolView list \<Rightarrow> UniswapV2SystemDiff" where
  "v2_Differ ord_new ord_old old new =
     (let oldPoolsMap = mapByID v2ID old; newPoolsMap = mapByID v2ID new in
      \<lparr>v2dAdditions = diff_additions (ord_new newPoolsMap) oldPoolsMap,
       v2dUpdates = diff_updates v2_changed (ord_new newPoolsMap) oldPoolsMap,
       v2dDeletions = diff_deletions (ord_old oldPoolsMap) newPoolsMap\<rparr>)"

definition v2_deepCopyPool :: "V2PoolView \<Rightarrow> V2PoolView" where
  "v2_deepCopyPool p = p\<lparr>v2Reserve0 := v2Reserve0 p, v2Reserve1 := v2Reserve1 p\<rparr>"

definition v2_Patcher ::
  "(uint64, V2PoolView) range_order \<Rightarrow> V2PoolView list \<Rightarrow> UniswapV2SystemDiff \<Rightarrow> V2PoolView list" where
  "v2_Patcher ord prevState diff =
     map snd (ord (patch_map v2ID v2_deepCopyPool prevState (v2dDeletions diff) (v2dUpdates diff) (v2dAdditions diff)))"

lemma v2_deepCopyPool_id: "v2_deepCopyPool = (\<lambda>p. p)"
  by (simp add: fun_eq_iff v2_deepCopyPool_def)

interpretation v2_diff: diff_patch v2ID v2_changed v2_Differ v2_Patcher v2dAdditions v2dUpdates v2dDeletions
proof unfold_locales
  fix o3 :: "(uint64, V2PoolView) range_order" and prev d
  assume o3: "range_order o3"
  show "distinct (map v2ID (v2_Patcher o3 prev d))"
    unfolding v2_Patcher_def v2_deepCopyPool_id by (rule patch_range(1) [OF o3])
  show "distinct (map v2ID prev) \<Longrightarrow> keyed v2ID (v2_Patcher o3 prev d) =
      ((keyed v2ID prev |` (- set (v2dDeletions d))) ++ keyed v2ID (rev (v2dUpdates d))) ++ keyed v2ID (rev (v2dAdditions d))"
    unfolding v2_Patcher_def v2_deepCopyPool_id by (rule patch_range(2) [OF o3])
qed (simp_all add: v2_Differ_def Let_def distinct_diff set_diff_additions set_diff_updates set_diff_deletions)

section \<open>Invariant\<close>

definition v2_inv :: "UniswapV2Registry \<Rightarrow> bool" where
  "v2_inv r \<longleftrightarrow> length (u2Token0 r) = length (u2ID r) \<and> length (u2Token1 r) = length (u2ID r) \<and>
     length (u2Reserve0 r) = length (u2ID r) \<and> length (u2Reserve1 r) = length (u2ID r) \<and>
     length (u2PoolType r) = length (u2ID r) \<and> length (u2Fee r) = length (u2ID r) \<and>
     length (u2LastUpdatedAt r) = length (u2ID r) \<and> index_inv (u2ID r) (u2IdToIndex r)"

lemma v2_invD:
  assumes "v2_inv r"
  shows "length (u2Token0 r) = length (u2ID r)" "length (u2Token1 r) = length (u2ID r)"
    "length (u2Reserve0 r) = length (u2ID r)" "length (u2Reserve1 r) = length (u2ID r)"
    "length (u2PoolType r) = length (u2ID r)" "length (u2Fee r) = length (u2ID r)"
    "length (u2LastUpdatedAt r) = length (u2ID r)" "index_inv (u2ID r) (u2IdToIndex r)"
  using assms by (simp_all add: v2_inv_def)

lemma v2_view_nth [simp]: "i < length (u2ID r) \<Longrightarrow> v2_viewRegistry r ! i = v2ViewAt r i"
  by (simp add: v2_viewRegistry_def)

lemma v2_view_length [simp]: "length (v2_viewRegistry r) = length (u2ID r)"
  by (simp add: v2_viewRegistry_def)

lemma v2_view_ids: "map v2ID (v2_viewRegistry r) = u2ID r"
  by (rule nth_equalityI) (simp_all add: v2ViewAt_def)

lemma v2_view_index: "v2_inv r \<Longrightarrow> index_inv (map v2ID (v2_viewRegistry r)) (u2IdToIndex r)"
  by (simp add: v2_view_ids v2_invD(8))

lemma v2_inv_new: "v2_inv NewUniswapV2Registry"
  by (simp add: v2_inv_def NewUniswapV2Registry_def)

text \<open>The pool that \<^verbatim>\<open>addPool\<close> appends.\<close>

definition v2_new_pool :: "uint64 \<Rightarrow> uint64 \<Rightarrow> uint64 \<Rightarrow> uint8 \<Rightarrow> uint16 \<Rightarrow> V2PoolView" where
  "v2_new_pool i t0 t1 ty fee = \<lparr>v2ID = i, v2Token0 = t0, v2Token1 = t1, v2Reserve0 = 0, v2Reserve1 = 0, v2Type = ty, v2FeeBps = fee\<rparr>"

lemma v2_addPool_spec:
  assumes inv: "v2_inv r" and call: "v2_addPool token0 token1 pool ty fee tokID poolID r = Inr r'"
  obtains i t0 t1 where "poolID pool = Some i" "tokID token0 = Some t0" "tokID token1 = Some t1"
    "keyed v2ID (v2_viewRegistry r) i = None" "v2_inv r'"
    "v2_viewRegistry r' = v2_viewRegistry r @ [v2_new_pool i t0 t1 ty fee]"
proof -
  obtain i t0 t1 where c: "poolID pool = Some i" "tokID token0 = Some t0" "tokID token1 = Some t1" "u2IdToIndex r i = None"
    and r': "r' = r\<lparr>u2ID := u2ID r @ [i], u2Token0 := u2Token0 r @ [t0], u2Token1 := u2Token1 r @ [t1],
      u2Reserve0 := u2Reserve0 r @ [0], u2Reserve1 := u2Reserve1 r @ [0], u2PoolType := u2PoolType r @ [ty],
      u2Fee := u2Fee r @ [fee], u2LastUpdatedAt := u2LastUpdatedAt r @ [0], u2IdToIndex := (u2IdToIndex r)(i \<mapsto> length (u2ID r))\<rparr>"
    using call by (auto simp: v2_addPool_def bind_result_Inr option_result_eq_iff split: if_splits)
  note d = v2_invD [OF inv]
  have "v2_inv r'" using d index_inv_append [OF d(8) c(4)] by (simp add: v2_inv_def r')
  moreover have "v2_viewRegistry r' = v2_viewRegistry r @ [v2_new_pool i t0 t1 ty fee]"
    using d by (intro nth_equalityI)
      (auto simp: v2_viewRegistry_def v2ViewAt_def v2_new_pool_def r' nth_append less_Suc_eq)
  ultimately show thesis using that c by (simp add: keyed_index [OF v2_view_index [OF inv]])
qed

lemma v2_updatePool_spec:
  assumes inv: "v2_inv r" and call: "v2_updatePool a b k r = Inr r'"
  obtains v where "keyed v2ID (v2_viewRegistry r) k = Some v" "v2_inv r'"
    "keyed v2ID (v2_viewRegistry r') = (keyed v2ID (v2_viewRegistry r))(k \<mapsto> v\<lparr>v2Reserve0 := a, v2Reserve1 := b\<rparr>)"
    "u2ID r' = u2ID r"
proof -
  obtain i where i: "u2IdToIndex r k = Some i"
    and r': "r' = r\<lparr>u2Reserve0 := (u2Reserve0 r)[i := a], u2Reserve1 := (u2Reserve1 r)[i := b]\<rparr>"
    using call by (auto simp: v2_updatePool_def split: option.splits)
  note d = v2_invD [OF inv]
  have il: "i < length (u2ID r)" "u2ID r ! i = k" using index_invD [OF d(8) i] by auto
  let ?v = "(v2ViewAt r i)\<lparr>v2Reserve0 := a, v2Reserve1 := b\<rparr>"
  have inv': "v2_inv r'" using d by (simp add: v2_inv_def r')
  have "v2_viewRegistry r' = (v2_viewRegistry r)[i := ?v]"
    using d il by (intro nth_equalityI) (auto simp: r' nth_list_update v2ViewAt_def)
  then have "keyed v2ID (v2_viewRegistry r') = (keyed v2ID (v2_viewRegistry r))(k \<mapsto> ?v)"
    using keyed_update [OF v2_view_index [OF inv] i, of ?v] il by (simp add: v2ViewAt_def)
  moreover have "keyed v2ID (v2_viewRegistry r) k = Some (v2ViewAt r i)"
    using i il by (simp add: keyed_index [OF v2_view_index [OF inv]])
  moreover have "u2ID r' = u2ID r" by (simp add: r')
  ultimately show thesis using that inv' by blast
qed

lemma v2_setLastUpdatedAt_spec:
  assumes "v2_inv r" and "v2_setLastUpdatedAt k t r = Inr r'"
  shows "v2_inv r'" and "v2_viewRegistry r' = v2_viewRegistry r" and "v2_getLastUpdatedAt k r' = Inr t"
    and "j \<noteq> k \<Longrightarrow> v2_getLastUpdatedAt j r' = v2_getLastUpdatedAt j r"
proof -
  obtain i where i: "u2IdToIndex r k = Some i" and r': "r' = r\<lparr>u2LastUpdatedAt := (u2LastUpdatedAt r)[i := t]\<rparr>"
    using assms(2) by (auto simp: v2_setLastUpdatedAt_def split: option.splits)
  note d = v2_invD [OF assms(1)]
  have il: "i < length (u2ID r)" "u2ID r ! i = k" using index_invD [OF d(8) i] by auto
  show "v2_inv r'" using d by (simp add: v2_inv_def r')
  show "v2_viewRegistry r' = v2_viewRegistry r" by (simp add: v2_viewRegistry_def v2ViewAt_def r')
  show "v2_getLastUpdatedAt k r' = Inr t" using i il d(7) by (simp add: v2_getLastUpdatedAt_def r')
  show "v2_getLastUpdatedAt j r' = v2_getLastUpdatedAt j r" if "j \<noteq> k"
  proof (cases "u2IdToIndex r j")
    case (Some m)
    then have "m \<noteq> i" using index_invD [OF d(8) Some] il that by auto
    then show ?thesis using Some by (simp add: v2_getLastUpdatedAt_def r')
  qed (simp add: v2_getLastUpdatedAt_def r')
qed

lemma v2_deletePool_spec:
  assumes inv: "v2_inv r" and i: "u2IdToIndex r k = Some i"
  obtains r' where "v2_deletePool k r = Inr r'" "v2_inv r'"
    "v2_viewRegistry r' = swap_pop i (length (v2_viewRegistry r) - 1) (v2_viewRegistry r)"
proof -
  obtain r' where del: "v2_deletePool k r = Inr r'" using i by (simp add: v2_deletePool_def Let_def)
  note d = v2_invD [OF inv]
  define l where "l = length (u2ID r) - 1"
  have r': "r' = r\<lparr>u2ID := swap_pop i l (u2ID r), u2Token0 := swap_pop i l (u2Token0 r), u2Token1 := swap_pop i l (u2Token1 r),
      u2Reserve0 := swap_pop i l (u2Reserve0 r), u2Reserve1 := swap_pop i l (u2Reserve1 r), u2PoolType := swap_pop i l (u2PoolType r),
      u2Fee := swap_pop i l (u2Fee r), u2LastUpdatedAt := swap_pop i l (u2LastUpdatedAt r),
      u2IdToIndex := (u2IdToIndex r)(u2ID r ! l \<mapsto> i, k := None)\<rparr>"
    using del i index_swap_cond [OF d(8) i l_def]
    by (simp add: v2_deletePool_def Let_def l_def [symmetric] del: One_nat_def)
  have il: "i < length (u2ID r)" using index_invD [OF d(8) i] by simp
  then have l: "l < length (u2ID r)" "i \<le> l" unfolding l_def by linarith+
  have "v2_inv r'" using d index_inv_swap_pop [OF d(8) i l_def] l by (simp add: v2_inv_def r')
  moreover have ll: "length (v2_viewRegistry r) - 1 = l" by (simp add: l_def)
  moreover have "v2_viewRegistry r' = swap_pop i l (v2_viewRegistry r)"
    using d l by (intro nth_equalityI) (auto simp: r' v2_viewRegistry_def v2ViewAt_def)
  ultimately show thesis using that del by simp
qed

interpretation v2pools: id_store v2_inv v2_viewRegistry v2ID v2_getPoolById v2_deletePool V2ErrPoolNotFound
proof unfold_locales
  fix r :: UniswapV2Registry and k
  assume inv: "v2_inv r"
  note idx = v2_view_index [OF inv]
  show "distinct (map v2ID (v2_viewRegistry r))" by (rule index_inv_distinct [OF idx])
  show "v2_getPoolById k r = option_result V2ErrPoolNotFound (keyed v2ID (v2_viewRegistry r) k)"
    using index_invD [OF v2_invD(8) [OF inv]]
    by (cases "u2IdToIndex r k") (simp_all add: v2_getPoolById_def keyed_index [OF idx])
  show "v2_deletePool k r = Inl V2ErrPoolNotFound" if "keyed v2ID (v2_viewRegistry r) k = None"
    using that by (simp add: v2_deletePool_def keyed_index [OF idx])
  show "\<exists>r'. v2_deletePool k r = Inr r' \<and> v2_inv r' \<and> keyed v2ID (v2_viewRegistry r') = (keyed v2ID (v2_viewRegistry r))(k := None)"
    if v: "keyed v2ID (v2_viewRegistry r) k = Some v" for v
  proof -
    obtain i where i: "u2IdToIndex r k = Some i" using v by (auto simp: keyed_index [OF idx])
    show ?thesis by (rule v2_deletePool_spec [OF inv i]) (auto simp: keyed_swap_pop [OF idx i])
  qed
qed

section \<open>Executions\<close>

text \<open>
  The tokens, type and fee of a pool are read from its contract and do not change; \<open>meta\<close> is what the
  chain says of each pool identifier, and a pool is added with that data.
\<close>

definition v2_static :: "V2PoolView \<Rightarrow> uint64 \<times> uint64 \<times> uint8 \<times> uint16" where
  "v2_static v = (v2Token0 v, v2Token1 v, v2Type v, v2FeeBps v)"

inductive v2_step :: "(uint64 \<Rightarrow> uint64 \<times> uint64 \<times> uint8 \<times> uint16) \<Rightarrow> UniswapV2Registry \<Rightarrow> UniswapV2Registry \<Rightarrow> bool"
  for meta where
  v2step_add: "v2_addPool token0 token1 pool ty fee tokID poolID r = Inr r' \<Longrightarrow>
     poolID pool = Some i \<Longrightarrow> tokID token0 = Some t0 \<Longrightarrow> tokID token1 = Some t1 \<Longrightarrow> meta i = (t0, t1, ty, fee) \<Longrightarrow>
     v2_step meta r r'"
| v2step_update: "v2_updatePool a b k r = Inr r' \<Longrightarrow> v2_step meta r r'"
| v2step_time: "v2_setLastUpdatedAt k t r = Inr r' \<Longrightarrow> v2_step meta r r'"
| v2step_delete: "v2_deletePool k r = Inr r' \<Longrightarrow> v2_step meta r r'"

definition v2_ok :: "(uint64 \<Rightarrow> uint64 \<times> uint64 \<times> uint8 \<times> uint16) \<Rightarrow> UniswapV2Registry \<Rightarrow> bool" where
  "v2_ok meta r \<longleftrightarrow> v2_inv r \<and> (\<forall>k v. keyed v2ID (v2_viewRegistry r) k = Some v \<longrightarrow> v2_static v = meta k)"

lemma v2_step_ok: "v2_step meta r r' \<Longrightarrow> v2_ok meta r \<Longrightarrow> v2_ok meta r'"
proof (induction rule: v2_step.induct)
  case (v2step_add token0 token1 pool ty fee tokID poolID r r' i t0 t1)
  then have inv: "v2_inv r" by (simp add: v2_ok_def)
  show ?case
    by (rule v2_addPool_spec [OF inv v2step_add(1)])
      (use v2step_add in \<open>auto simp: v2_ok_def keyed_append_None v2_new_pool_def v2_static_def split: if_splits\<close>)
next
  case (v2step_update a b k r r')
  then have inv: "v2_inv r" by (simp add: v2_ok_def)
  show ?case
    by (rule v2_updatePool_spec [OF inv v2step_update(1)])
      (use v2step_update(2) in \<open>auto simp: v2_ok_def v2_static_def split: if_splits\<close>)
next
  case (v2step_time k t r r')
  then show ?case using v2_setLastUpdatedAt_spec(1,2) by (auto simp: v2_ok_def)
next
  case (v2step_delete k r r')
  then have inv: "v2_inv r" by (simp add: v2_ok_def)
  from v2pools.del_InrD [OF inv v2step_delete(1)] v2step_delete(2) show ?case
    by (auto simp: v2_ok_def split: if_splits)
qed

lemma v2_run_ok: "(v2_step meta)\<^sup>*\<^sup>* r r' \<Longrightarrow> v2_ok meta r \<Longrightarrow> v2_ok meta r'"
  by (induction rule: rtranclp_induct) (auto intro: v2_step_ok)

lemma v2_ok_new: "v2_ok meta NewUniswapV2Registry"
  by (simp add: v2_ok_def v2_inv_new) (simp add: NewUniswapV2Registry_def v2_viewRegistry_def)

section \<open>Properties of the registry\<close>

lemmas v2_eval = NewUniswapV2Registry_def v2_addPool_def v2_updatePool_def v2_viewRegistry_def v2ViewAt_def
  v2_deletePool_def v2_getPoolById_def swap_pop_def Let_def

definition one_pool :: UniswapV2Registry where
  "one_pool = \<lparr>u2ID = [7], u2Token0 = [1], u2Token1 = [2], u2Reserve0 = [0], u2Reserve1 = [0], u2PoolType = [0], u2Fee = [30],
     u2LastUpdatedAt = [0], u2IdToIndex = [7 \<mapsto> 0]\<rparr>"

lemma one_pool_step: "v2_step (\<lambda>_. (1, 2, 0, 30)) NewUniswapV2Registry one_pool"
  by (rule v2step_add [of "[1]" "[2]" "[7]" 0 30 "\<lambda>a. Some (if a = [1] then 1 else 2)" "\<lambda>_. Some 7" _ _ 7 1 2])
    (simp_all add: v2_eval one_pool_def)

text \<open>
  Between two states of one execution of the Uniswap V2 registry, in which a pool's tokens, type and
  fee are those the chain has for it, the patcher applied to the older view and the differ's output
  gives exactly the newer view, for all iteration orders, although the differ compares reserves only.
\<close>

theorem v2_stream_correct:
  assumes run: "(v2_step meta)\<^sup>*\<^sup>* NewUniswapV2Registry r" "(v2_step meta)\<^sup>*\<^sup>* r r'"
    and ord: "range_order o1" "range_order o2" "range_order o3"
  shows "mset (v2_Patcher o3 (v2_viewRegistry r) (v2_Differ o1 o2 (v2_viewRegistry r) (v2_viewRegistry r'))) = mset (v2_viewRegistry r')"
proof -
  have ok: "v2_ok meta r" by (rule v2_run_ok [OF run(1) v2_ok_new])
  have ok': "v2_ok meta r'" by (rule v2_run_ok [OF run(2) ok])
  then have inv: "v2_inv r" "v2_inv r'" using ok by (simp_all add: v2_ok_def)
  note d = v2pools.view_distinct [OF inv(1)] v2pools.view_distinct [OF inv(2)]
  show ?thesis
  proof (rule v2_diff.patch_differ_exact [OF ord d])
    fix w v assume a: "w \<in> set (v2_viewRegistry r)" "v \<in> set (v2_viewRegistry r')" "v2ID w = v2ID v" "\<not> v2_changed w v"
    have "v2_static w = meta (v2ID w)" "v2_static v = meta (v2ID v)"
      using ok ok' a(1,2) keyed_Some_iff [OF d(1)] keyed_Some_iff [OF d(2)] by (auto simp: v2_ok_def)
    then have "v2_static w = v2_static v" using a(3) by simp
    then show "w = v" using a(3,4) by (simp add: v2_static_def v2_changed_def)
  qed
qed

theorem v2_stream_correct_witness:
  "\<exists>r'. v2_updatePool 100 200 7 one_pool = Inr r' \<and>
     mset (v2_Patcher rev (v2_viewRegistry one_pool) (v2_Differ rev rev (v2_viewRegistry one_pool) (v2_viewRegistry r'))) =
     {#\<lparr>v2ID = 7, v2Token0 = 1, v2Token1 = 2, v2Reserve0 = 100, v2Reserve1 = 200, v2Type = 0, v2FeeBps = 30\<rparr>#}"
proof -
  obtain r' where r': "v2_updatePool 100 200 7 one_pool = Inr r'" by (simp add: one_pool_def v2_eval)
  have "mset (v2_Patcher rev (v2_viewRegistry one_pool) (v2_Differ rev rev (v2_viewRegistry one_pool) (v2_viewRegistry r'))) = mset (v2_viewRegistry r')"
    by (rule v2_stream_correct [OF _ _ range_order_rev range_order_rev range_order_rev, of "\<lambda>_. (1, 2, 0, 30)"])
      (rule r_into_rtranclp, rule one_pool_step, rule r_into_rtranclp, rule v2step_update [OF r'])
  then show ?thesis using r' by (auto simp: one_pool_def v2_eval)
qed

text \<open>
  Operations of the Uniswap V2 registry on a registry that satisfies the invariant. \<^verbatim>\<open>addPool\<close> either
  fails without effect (unknown pool or token address, or a pool that is present) or appends the pool
  with zero reserves; \<^verbatim>\<open>updatePool\<close> changes the reserves of exactly the given pool; \<^verbatim>\<open>deletePool\<close> removes
  exactly it; lookups agree with the view throughout.
\<close>

theorem v2_registry_spec:
  assumes inv: "v2_inv r"
  shows "(case v2_addPool token0 token1 pool ty fee tokID poolID r of
       Inl e \<Rightarrow> (e = V2ErrPoolExists \<and> (\<exists>i \<in> v2ID ` set (v2_viewRegistry r). poolID pool = Some i)) \<or>
         (e = V2DependencyError ''poolAddressToID'' pool \<and> poolID pool = None) \<or>
         (\<exists>t \<in> {token0, token1}. e = V2DependencyError ''tokenAddressToID'' t \<and> tokID t = None)
     | Inr r' \<Rightarrow> v2_inv r' \<and> (\<exists>i t0 t1. poolID pool = Some i \<and> tokID token0 = Some t0 \<and> tokID token1 = Some t1 \<and>
         v2_viewRegistry r' = v2_viewRegistry r @ [v2_new_pool i t0 t1 ty fee])) \<and>
    (case v2_updatePool a b k r of
       Inl e \<Rightarrow> e = V2ErrPoolNotFound \<and> v2_getPoolById k r = Inl e
     | Inr r' \<Rightarrow> v2_inv r' \<and> (\<forall>j. v2_getPoolById j r' = (if j = k
         then Inr ((case v2_getPoolById k r of Inr v \<Rightarrow> v)\<lparr>v2Reserve0 := a, v2Reserve1 := b\<rparr>) else v2_getPoolById j r))) \<and>
    (case v2_deletePool k r of
       Inl e \<Rightarrow> e = V2ErrPoolNotFound \<and> v2_getPoolById k r = Inl e
     | Inr r' \<Rightarrow> v2_inv r' \<and> (\<forall>j. v2_getPoolById j r' = (if j = k then Inl V2ErrPoolNotFound else v2_getPoolById j r)))"
proof (intro conjI)
  show "case v2_addPool token0 token1 pool ty fee tokID poolID r of
       Inl e \<Rightarrow> (e = V2ErrPoolExists \<and> (\<exists>i \<in> v2ID ` set (v2_viewRegistry r). poolID pool = Some i)) \<or>
         (e = V2DependencyError ''poolAddressToID'' pool \<and> poolID pool = None) \<or>
         (\<exists>t \<in> {token0, token1}. e = V2DependencyError ''tokenAddressToID'' t \<and> tokID t = None)
     | Inr r' \<Rightarrow> v2_inv r' \<and> (\<exists>i t0 t1. poolID pool = Some i \<and> tokID token0 = Some t0 \<and> tokID token1 = Some t1 \<and>
         v2_viewRegistry r' = v2_viewRegistry r @ [v2_new_pool i t0 t1 ty fee])"
  proof (cases "v2_addPool token0 token1 pool ty fee tokID poolID r")
    case (Inl e)
    have "i \<in> v2ID ` set (v2_viewRegistry r)" if "u2IdToIndex r i \<noteq> None" for i
      using that index_inv_None_iff [OF v2_view_index [OF inv], of i] by auto
    then show ?thesis using Inl
      by (auto simp: v2_addPool_def bind_result_Inl option_result_eq_iff split: if_splits)
  next
    case (Inr r')
    show ?thesis by (rule v2_addPool_spec [OF inv Inr]) (auto simp: Inr)
  qed
  show "case v2_updatePool a b k r of
       Inl e \<Rightarrow> e = V2ErrPoolNotFound \<and> v2_getPoolById k r = Inl e
     | Inr r' \<Rightarrow> v2_inv r' \<and> (\<forall>j. v2_getPoolById j r' = (if j = k
         then Inr ((case v2_getPoolById k r of Inr v \<Rightarrow> v)\<lparr>v2Reserve0 := a, v2Reserve1 := b\<rparr>) else v2_getPoolById j r))"
  proof (cases "v2_updatePool a b k r")
    case (Inl e)
    then show ?thesis by (auto simp: v2_updatePool_def v2_getPoolById_def split: option.splits)
  next
    case (Inr r')
    show ?thesis
      by (rule v2_updatePool_spec [OF inv Inr]) (auto simp: Inr v2pools.get_keyed [OF inv] v2pools.get_keyed)
  qed
  show "case v2_deletePool k r of
       Inl e \<Rightarrow> e = V2ErrPoolNotFound \<and> v2_getPoolById k r = Inl e
     | Inr r' \<Rightarrow> v2_inv r' \<and> (\<forall>j. v2_getPoolById j r' = (if j = k then Inl V2ErrPoolNotFound else v2_getPoolById j r))"
  proof (cases "v2_deletePool k r")
    case (Inl e)
    then show ?thesis by (auto simp: v2_deletePool_def v2_getPoolById_def Let_def split: option.splits)
  next
    case (Inr r')
    then show ?thesis
      using v2pools.del_InrD [OF inv Inr] v2pools.get_after_del [OF inv Inr] by simp
  qed
qed

theorem v2_registry_spec_witness:
  "\<exists>r'. v2_updatePool 5 6 7 one_pool = Inr r' \<and> v2_inv r' \<and>
     v2_getPoolById 7 r' = Inr \<lparr>v2ID = 7, v2Token0 = 1, v2Token1 = 2, v2Reserve0 = 5, v2Reserve1 = 6, v2Type = 0, v2FeeBps = 30\<rparr>"
proof -
  have "v2_inv one_pool" using v2_step_ok [OF one_pool_step v2_ok_new] by (simp add: v2_ok_def)
  from v2_registry_spec [OF this, where k = 7 and a = 5 and b = 6] show ?thesis
    by (simp add: one_pool_def v2_eval)
qed

text \<open>
  Rebuilding a Uniswap V2 registry from the view of a registry that satisfies the invariant gives the
  same view and the invariant, with every last-updated time reset to 0.
\<close>

theorem v2_restore_roundtrip:
  assumes inv: "v2_inv r"
  shows "v2_inv (NewUniswapV2RegistryFromViews (v2_viewRegistry r)) \<and>
    v2_viewRegistry (NewUniswapV2RegistryFromViews (v2_viewRegistry r)) = v2_viewRegistry r \<and>
    (\<forall>k. v2_hasPool k r \<longrightarrow> v2_getLastUpdatedAt k (NewUniswapV2RegistryFromViews (v2_viewRegistry r)) = Inr 0)"
proof -
  let ?r = "NewUniswapV2RegistryFromViews (v2_viewRegistry r)"
  have d: "distinct (map v2ID (v2_viewRegistry r))" by (rule v2pools.view_distinct [OF inv])
  have idx: "index_inv (map v2ID (v2_viewRegistry r)) (u2IdToIndex ?r)"
  proof (cases "v2_viewRegistry r = []")
    case True
    then show ?thesis by (simp add: NewUniswapV2RegistryFromViews_def NewUniswapV2Registry_def)
  next
    case False
    then have "length (v2_viewRegistry r) \<noteq> 0" by blast
    then show ?thesis using lookup_map_inv [OF d] by (simp add: NewUniswapV2RegistryFromViews_def del: v2_view_length)
  qed
  have ids: "u2ID ?r = map v2ID (v2_viewRegistry r)"
    by (simp add: NewUniswapV2RegistryFromViews_def NewUniswapV2Registry_def) (simp add: v2_viewRegistry_def)
  have inv': "v2_inv ?r" using idx unfolding v2_inv_def ids
    by (simp add: NewUniswapV2RegistryFromViews_def NewUniswapV2Registry_def)
  moreover have "v2_viewRegistry ?r = v2_viewRegistry r"
    by (rule nth_equalityI) (auto simp: ids v2ViewAt_def NewUniswapV2RegistryFromViews_def NewUniswapV2Registry_def)
  moreover have "v2_getLastUpdatedAt k ?r = Inr 0" if "v2_hasPool k r" for k
  proof -
    have "k \<in> set (map v2ID (v2_viewRegistry r))"
      using that index_inv_None_iff [OF v2_view_index [OF inv], of k] by (simp add: v2_hasPool_def)
    then obtain i where i: "u2IdToIndex ?r k = Some i" using index_inv_None_iff [OF idx, of k] by auto
    then have "i < length (v2_viewRegistry r)" using index_invD [OF idx] by fastforce
    then show ?thesis using i by (auto simp: v2_getLastUpdatedAt_def NewUniswapV2RegistryFromViews_def NewUniswapV2Registry_def split: if_splits)
  qed
  ultimately show ?thesis by blast
qed

theorem v2_restore_roundtrip_witness:
  "v2_viewRegistry (NewUniswapV2RegistryFromViews (v2_viewRegistry one_pool)) = v2_viewRegistry one_pool"
proof -
  have "v2_inv one_pool" using v2_step_ok [OF one_pool_step v2_ok_new] by (simp add: v2_ok_def)
  from v2_restore_roundtrip [OF this] show ?thesis by blast
qed

end
