(* ===== verification/UniswapV2_Math.thy ===== *)
theory UniswapV2_Math
  imports UniswapV2_Registry
begin

text \<open>
  The Uniswap V2 calculator, \<^verbatim>\<open>src/protocols/uniswap-v2/math/calculator.go\<close>: exact swap amounts on
  unbounded integers with the fee in basis points. A nil amount is \<open>None\<close>; the reusable \<^verbatim>\<open>big.Int\<close>
  temporaries and the object pools hold no state between calls. \<^verbatim>\<open>big.Int.Div\<close> is Euclidean division.
\<close>

section \<open>\<^verbatim>\<open>calculator.go\<close>\<close>

datatype v2_math_error =
    V2ErrInvalidAmount
  | V2ErrNilAmount
  | V2ErrTokenMismatch uint64 uint64 uint64
  | V2ErrInvalidState
  | V2ErrInsufficientLiquidity int int
  | V2ErrZeroReserve0
  | V2ErrZeroReserve1
  | V2ErrTokenNotInPool
  | V2ErrZeroAmountIn

definition basisPointDivisor :: int where
  "basisPointDivisor = 10000"

text \<open>\<^verbatim>\<open>precomputedScales\<close> as \<^verbatim>\<open>init\<close> fills it.\<close>

fun precompute_scales :: "nat \<Rightarrow> int list" where
  "precompute_scales 0 = [1]"
| "precompute_scales (Suc n) = precompute_scales n @ [last (precompute_scales n) * 10]"

definition precomputedScales :: "int list" where
  "precomputedScales = precompute_scales 18"

definition GetScaledDecimal :: "uint8 \<Rightarrow> int" where
  "GetScaledDecimal dec =
     (if unat dec < length precomputedScales then precomputedScales ! unat dec else 10 ^ unat dec)"

definition v2_GetReserves :: "uint64 \<Rightarrow> uint64 \<Rightarrow> V2PoolView \<Rightarrow> v2_math_error + (int \<times> int)" where
  "v2_GetReserves tokenInID tokenOutID pool =
     (if tokenInID = v2Token0 pool \<and> tokenOutID = v2Token1 pool then Inr (v2Reserve0 pool, v2Reserve1 pool)
      else if tokenInID = v2Token1 pool \<and> tokenOutID = v2Token0 pool then Inr (v2Reserve1 pool, v2Reserve0 pool)
      else Inl (V2ErrTokenMismatch (v2ID pool) tokenInID tokenOutID))"

definition v2_getAmountOut :: "int option \<Rightarrow> uint64 \<Rightarrow> uint64 \<Rightarrow> V2PoolView \<Rightarrow> v2_math_error + int" where
  "v2_getAmountOut amountIn tokenIn tokenOut pool =
     (case amountIn of
        None \<Rightarrow> Inl V2ErrNilAmount
      | Some amount \<Rightarrow>
          if amount < 0 then Inl V2ErrInvalidAmount
          else bind_result (v2_GetReserves tokenIn tokenOut pool) (\<lambda>(reserveIn, reserveOut).
            if reserveIn \<le> 0 \<or> reserveOut \<le> 0 then Inr 0
            else let
              feeMultiplier = basisPointDivisor - uint (v2FeeBps pool);
              amountInWithFee = amount * feeMultiplier;
              numerator = reserveOut * amountInWithFee;
              denominator = reserveIn * basisPointDivisor + amountInWithFee
            in if denominator = 0 then Inl V2ErrInvalidState else Inr (big_Div numerator denominator)))"

definition v2_getAmountIn :: "int option \<Rightarrow> uint64 \<Rightarrow> uint64 \<Rightarrow> V2PoolView \<Rightarrow> v2_math_error + int" where
  "v2_getAmountIn amountOut tokenIn tokenOut pool =
     (case amountOut of
        None \<Rightarrow> Inl V2ErrNilAmount
      | Some amount \<Rightarrow>
          if amount < 0 then Inl V2ErrInvalidAmount
          else bind_result (v2_GetReserves tokenIn tokenOut pool) (\<lambda>(reserveIn, reserveOut).
            if reserveIn \<le> 0 \<or> reserveOut \<le> 0 \<or> amount \<ge> reserveOut then Inl (V2ErrInsufficientLiquidity amount reserveOut)
            else let
              numeratorIn = reserveIn * amount * basisPointDivisor;
              feeMultiplier = basisPointDivisor - uint (v2FeeBps pool);
              denominatorIn = (reserveOut - amount) * feeMultiplier
            in if denominatorIn = 0 then Inl V2ErrInvalidState else Inr (big_Div numeratorIn denominatorIn + 1)))"

text \<open>
  \<^verbatim>\<open>GetAmountOut\<close>, \<^verbatim>\<open>GetAmountIn\<close> and \<^verbatim>\<open>SimulateSwap\<close> run the methods on a calculator of the pool.
\<close>

definition v2_simulateSwap ::
  "int option \<Rightarrow> uint64 \<Rightarrow> uint64 \<Rightarrow> V2PoolView \<Rightarrow> v2_math_error + (int \<times> V2PoolView)" where
  "v2_simulateSwap amountIn tokenInID tokenOutID pool =
     bind_result (v2_getAmountOut amountIn tokenInID tokenOutID pool) (\<lambda>amountOut.
       let amount = the amountIn in
       if tokenInID = v2Token0 pool
       then Inr (amountOut, pool\<lparr>v2Reserve0 := v2Reserve0 pool + amount, v2Reserve1 := v2Reserve1 pool - amountOut\<rparr>)
       else Inr (amountOut, pool\<lparr>v2Reserve0 := v2Reserve0 pool - amountOut, v2Reserve1 := v2Reserve1 pool + amount\<rparr>))"

definition v2_GetExchangeRate :: "uint64 \<Rightarrow> uint64 \<Rightarrow> uint8 \<Rightarrow> uint8 \<Rightarrow> V2PoolView \<Rightarrow> v2_math_error + int" where
  "v2_GetExchangeRate tokenInID tokenOutID decimalsIn decimalsOut pool =
     bind_result
       (if tokenInID = v2Token0 pool then
          (if v2Reserve0 pool = 0 then Inl V2ErrZeroReserve0 else Inr (big_Div (v2Reserve0 pool) 100))
        else if tokenInID = v2Token1 pool then
          (if v2Reserve1 pool = 0 then Inl V2ErrZeroReserve1 else Inr (big_Div (v2Reserve1 pool) 100))
        else Inl V2ErrTokenNotInPool)
       (\<lambda>amountIn. if amountIn = 0 then Inl V2ErrZeroAmountIn
         else bind_result (v2_getAmountOut (Some amountIn) tokenInID tokenOutID pool) (\<lambda>amountOut.
           Inr (big_Div (GetScaledDecimal decimalsIn * amountOut) amountIn)))"

section \<open>Lemmas\<close>

lemma precompute_scales_eq: "precompute_scales n = map (\<lambda>i. 10 ^ i) [0..<Suc n]"
  by (induction n) auto

lemma GetScaledDecimal_eq: "GetScaledDecimal dec = 10 ^ unat dec"
  by (simp add: GetScaledDecimal_def precomputedScales_def precompute_scales_eq del: precompute_scales.simps upt_Suc)

text \<open>The closed form of the output, on positive reserves.\<close>

definition out_formula :: "int \<Rightarrow> int \<Rightarrow> int \<Rightarrow> int \<Rightarrow> int" where
  "out_formula fee amount rin rout = (rout * (amount * (10000 - fee))) div (rin * 10000 + amount * (10000 - fee))"

lemma out_formula_bounds:
  assumes "0 \<le> fee" "fee \<le> 10000" "0 \<le> amount" "0 < rin" "0 < rout"
  defines "D \<equiv> rin * 10000 + amount * (10000 - fee)"
  shows "0 \<le> out_formula fee amount rin rout" and "out_formula fee amount rin rout < rout"
    and "rin * 10000 * rout \<le> D * (rout - out_formula fee amount rin rout)"
    and "D * (rout - (out_formula fee amount rin rout + 1)) < rin * 10000 * rout"
    and "rin * rout \<le> (rin + amount) * (rout - out_formula fee amount rin rout)"
proof -
  let ?x = "amount * (10000 - fee)" and ?o = "out_formula fee amount rin rout"
  have x: "0 \<le> ?x" using assms by simp
  have D: "0 < D" "D = rin * 10000 + ?x" using assms x by (simp_all add: D_def add_pos_nonneg)
  have o: "?o = (rout * ?x) div D" by (simp add: out_formula_def D_def)
  have lo: "?o * D \<le> rout * ?x" unfolding o using le_div_iff_mult [OF D(1)] by blast
  have hi: "rout * ?x < (?o + 1) * D"
  proof (rule ccontr)
    assume "\<not> rout * ?x < (?o + 1) * D"
    then have "?o + 1 \<le> (rout * ?x) div D" using le_div_iff_mult [OF D(1)] by simp
    then show False by (simp add: o)
  qed
  show nn: "0 \<le> ?o" unfolding o using x assms(5) D(1) by (simp add: pos_imp_zdiv_nonneg_iff)
  have "rout * ?x < rout * D" using assms(4,5) D(2) by simp
  then have "?o * D < rout * D" using lo by linarith
  then show lt: "?o < rout" using D(1) by (simp add: mult_less_cancel_right)
  show k: "rin * 10000 * rout \<le> D * (rout - ?o)"
    using lo unfolding D_def by (simp add: algebra_simps)
  show "D * (rout - (?o + 1)) < rin * 10000 * rout"
    using hi unfolding D_def by (simp add: algebra_simps)
  have "D \<le> (rin + amount) * 10000" using mult_nonneg_nonneg [OF assms(3,1)] D(2) by (simp add: algebra_simps)
  then have "D * (rout - ?o) \<le> (rin + amount) * 10000 * (rout - ?o)" using lt by (simp add: mult_right_mono)
  then have "(rin * rout) * 10000 \<le> ((rin + amount) * (rout - ?o)) * 10000" using k by (simp only: mult_ac)
  then show "rin * rout \<le> (rin + amount) * (rout - ?o)" by simp
qed

lemma uint_fee_nonneg: "0 \<le> uint (v2FeeBps pool)"
  by simp

lemma getAmountOut_formula:
  assumes "v2_GetReserves ti to pool = Inr (rin, rout)" and "0 < rin" "0 < rout" and "0 \<le> a"
    and "v2FeeBps pool \<le> 10000"
  shows "v2_getAmountOut (Some a) ti to pool = Inr (out_formula (uint (v2FeeBps pool)) a rin rout)"
proof -
  have "uint (v2FeeBps pool) \<le> 10000" using assms(5) by (simp add: word_le_def)
  then have "0 \<le> a * (10000 - uint (v2FeeBps pool))" using assms(4) by simp
  then have "0 < rin * 10000 + a * (10000 - uint (v2FeeBps pool))" using assms(2) by linarith
  then show ?thesis using assms by (simp add: v2_getAmountOut_def out_formula_def basisPointDivisor_def Let_def)
qed

text \<open>A pool that can be traded on: positive reserves, a fee of at most 100 per cent, two distinct tokens.\<close>

definition v2_tradable :: "V2PoolView \<Rightarrow> bool" where
  "v2_tradable pool \<longleftrightarrow> 0 < v2Reserve0 pool \<and> 0 < v2Reserve1 pool \<and> v2FeeBps pool \<le> 10000 \<and> v2Token0 pool \<noteq> v2Token1 pool"

lemma v2_tradable_reserves:
  assumes "v2_tradable pool" and "v2_GetReserves ti to pool = Inr (rin, rout)"
  shows "0 < rin" "0 < rout" "v2FeeBps pool \<le> 10000" "uint (v2FeeBps pool) \<le> 10000"
  using assms by (auto simp: v2_tradable_def v2_GetReserves_def word_le_def split: if_splits)

lemma v2_simulate_reserves:
  assumes "v2_tradable pool" and "v2_GetReserves ti to pool = Inr (rin, rout)" and "0 \<le> a"
  obtains out pool' where "v2_simulateSwap (Some a) ti to pool = Inr (out, pool')"
    and "v2_getAmountOut (Some a) ti to pool = Inr out" and "out = out_formula (uint (v2FeeBps pool)) a rin rout"
    and "v2_GetReserves ti to pool' = Inr (rin + a, rout - out)" and "v2_GetReserves to ti pool' = Inr (rout - out, rin + a)"
    and "v2_tradable pool'" and "v2_static pool' = v2_static pool" and "v2ID pool' = v2ID pool"
proof -
  note r = v2_tradable_reserves [OF assms(1,2)]
  let ?o = "out_formula (uint (v2FeeBps pool)) a rin rout"
  have out: "v2_getAmountOut (Some a) ti to pool = Inr ?o" by (rule getAmountOut_formula [OF assms(2) r(1,2) assms(3) r(3)])
  note b = out_formula_bounds [OF uint_fee_nonneg r(4) assms(3) r(1,2)]
  have nt: "v2Token0 pool \<noteq> v2Token1 pool" using assms(1) by (simp add: v2_tradable_def)
  show thesis
  proof (cases "ti = v2Token0 pool")
    case True
    then have t: "to = v2Token1 pool" "rin = v2Reserve0 pool" "rout = v2Reserve1 pool"
      using assms(2) nt by (auto simp: v2_GetReserves_def split: if_splits)
    show thesis
      by (rule that [of ?o "pool\<lparr>v2Reserve0 := v2Reserve0 pool + a, v2Reserve1 := v2Reserve1 pool - ?o\<rparr>"])
        (use True t nt out b(1,2) assms(1,3) in \<open>simp_all add: v2_simulateSwap_def v2_GetReserves_def v2_tradable_def v2_static_def\<close>)
  next
    case False
    then have t: "ti = v2Token1 pool" "to = v2Token0 pool" "rin = v2Reserve1 pool" "rout = v2Reserve0 pool"
      using assms(2) by (auto simp: v2_GetReserves_def split: if_splits)
    show thesis
      by (rule that [of ?o "pool\<lparr>v2Reserve0 := v2Reserve0 pool - ?o, v2Reserve1 := v2Reserve1 pool + a\<rparr>"])
        (use False t nt out b(1,2) assms(1,3) in \<open>simp_all add: v2_simulateSwap_def v2_GetReserves_def v2_tradable_def v2_static_def\<close>)
  qed
qed

section \<open>Properties of the calculator\<close>

definition sample_v2 :: V2PoolView where
  "sample_v2 = \<lparr>v2ID = 1, v2Token0 = 10, v2Token1 = 20, v2Reserve0 = 1000000, v2Reserve1 = 2000000, v2Type = 0, v2FeeBps = 30\<rparr>"

lemma sample_v2_ok: "v2_tradable sample_v2" "v2_GetReserves 10 20 sample_v2 = Inr (1000000, 2000000)"
  by (simp_all add: sample_v2_def v2_tradable_def v2_GetReserves_def)

text \<open>
  On a tradable pool, \<^verbatim>\<open>GetAmountOut\<close> of a non-negative amount succeeds with the exact output of the
  constant-product rule: a non-negative amount below the output reserve, the largest one for which
  the product of the fee-adjusted input reserve and the remaining output reserve does not fall.
\<close>

theorem GetAmountOut_exact:
  assumes ok: "v2_tradable pool" and res: "v2_GetReserves ti to pool = Inr (rin, rout)" and a: "0 \<le> a"
  shows "\<exists>out. v2_getAmountOut (Some a) ti to pool = Inr out \<and> 0 \<le> out \<and> out < rout \<and>
    (\<forall>y. (rin * 10000 + a * (10000 - uint (v2FeeBps pool))) * (rout - y) \<ge> rin * 10000 * rout \<longleftrightarrow> y \<le> out)"
proof -
  note r = v2_tradable_reserves [OF ok res]
  let ?o = "out_formula (uint (v2FeeBps pool)) a rin rout"
  let ?D = "rin * 10000 + a * (10000 - uint (v2FeeBps pool))"
  note b = out_formula_bounds [OF uint_fee_nonneg r(4) a r(1,2)]
  have D: "0 < ?D" using r a by (simp add: add_pos_nonneg)
  have "?D * (rout - y) \<ge> rin * 10000 * rout \<longleftrightarrow> y \<le> ?o" for y
  proof
    assume k: "?D * (rout - y) \<ge> rin * 10000 * rout"
    show "y \<le> ?o"
    proof (rule ccontr)
      assume "\<not> y \<le> ?o"
      then have "?D * (rout - y) \<le> ?D * (rout - (?o + 1))" using D by (intro mult_left_mono) simp_all
      then show False using k b(4) by linarith
    qed
  next
    assume "y \<le> ?o"
    then have "?D * (rout - ?o) \<le> ?D * (rout - y)" using D by (intro mult_left_mono) simp_all
    then show "?D * (rout - y) \<ge> rin * 10000 * rout" using b(3) by linarith
  qed
  then show ?thesis
    using getAmountOut_formula [OF res r(1,2) a r(3)] b(1,2) by (intro exI [of _ ?o]) simp
qed

theorem GetAmountOut_exact_witness:
  "v2_getAmountOut (Some 1000) 10 20 sample_v2 = Inr 1992 \<and> (1992 :: int) < 2000000 \<and>
   (1000000 * 10000 + 1000 * (10000 - 30)) * (2000000 - (1993 :: int)) < 1000000 * 10000 * 2000000"
  using GetAmountOut_exact [OF sample_v2_ok, of 1000]
  by (simp add: sample_v2_def v2_getAmountOut_def v2_GetReserves_def basisPointDivisor_def)

text \<open>
  C15: \<^verbatim>\<open>SimulateSwap\<close> on a tradable pool returns the amount of \<^verbatim>\<open>GetAmountOut\<close> and the pool after the swap:
  the input reserve grows by the amount, the output reserve shrinks by the output and stays positive,
  everything else is unchanged, and the product of the reserves does not decrease.
\<close>

theorem SimulateSwap_constant_product:
  assumes ok: "v2_tradable pool" and res: "v2_GetReserves ti to pool = Inr (rin, rout)" and a: "0 \<le> a"
  shows "\<exists>out pool'. v2_simulateSwap (Some a) ti to pool = Inr (out, pool') \<and> v2_getAmountOut (Some a) ti to pool = Inr out \<and>
    v2_GetReserves ti to pool' = Inr (rin + a, rout - out) \<and> v2_tradable pool' \<and> v2_static pool' = v2_static pool \<and>
    v2ID pool' = v2ID pool \<and> v2Reserve0 pool' * v2Reserve1 pool' \<ge> v2Reserve0 pool * v2Reserve1 pool"
proof -
  obtain out pool' where s: "v2_simulateSwap (Some a) ti to pool = Inr (out, pool')"
    "v2_getAmountOut (Some a) ti to pool = Inr out" "out = out_formula (uint (v2FeeBps pool)) a rin rout"
    "v2_GetReserves ti to pool' = Inr (rin + a, rout - out)" "v2_tradable pool'" "v2_static pool' = v2_static pool" "v2ID pool' = v2ID pool"
    by (rule v2_simulate_reserves [OF ok res a])
  note r = v2_tradable_reserves [OF ok res]
  have "rin * rout \<le> (rin + a) * (rout - out)"
    using out_formula_bounds(5) [OF uint_fee_nonneg r(4) a r(1,2)] by (simp add: s(3))
  moreover have "v2Reserve0 p * v2Reserve1 p = x * y" if "v2_GetReserves ti to p = Inr (x, y)" for p x y
    using that by (auto simp: v2_GetReserves_def split: if_splits)
  ultimately have "v2Reserve0 pool' * v2Reserve1 pool' \<ge> v2Reserve0 pool * v2Reserve1 pool" using res s(4) by metis
  with s show ?thesis by blast
qed

theorem SimulateSwap_constant_product_witness:
  "\<exists>pool'. v2_simulateSwap (Some 1000) 10 20 sample_v2 = Inr (1992, pool') \<and>
     v2Reserve0 pool' * v2Reserve1 pool' \<ge> 1000000 * 2000000"
  using SimulateSwap_constant_product [OF sample_v2_ok, of 1000]
  by (auto simp: sample_v2_def v2_getAmountOut_def v2_GetReserves_def basisPointDivisor_def)

text \<open>
  C10: \<^verbatim>\<open>GetAmountIn\<close> of an amount below the output reserve, on a tradable pool with a fee below 100 per
  cent, returns an input that buys at least that amount, and at most one unit more than any other
  input that does.
\<close>

theorem GetAmountIn_sufficient:
  assumes ok: "v2_tradable pool" and res: "v2_GetReserves ti to pool = Inr (rin, rout)"
    and fee: "v2FeeBps pool < 10000" and w: "0 \<le> want" "want < rout"
  shows "\<exists>amount got. v2_getAmountIn (Some want) ti to pool = Inr amount \<and> 0 < amount \<and>
    v2_getAmountOut (Some amount) ti to pool = Inr got \<and> want \<le> got \<and>
    (\<forall>b other. 0 \<le> b \<and> v2_getAmountOut (Some b) ti to pool = Inr other \<and> want \<le> other \<longrightarrow> amount \<le> b + 1)"
proof -
  note r = v2_tradable_reserves [OF ok res]
  define F where "F = 10000 - uint (v2FeeBps pool)"
  have lt: "uint (v2FeeBps pool) < 10000" using fee by (simp add: word_less_def)
  then have F: "0 < F" by (simp add: F_def)
  define N M where "N = rin * want * 10000" and "M = (rout - want) * F"
  have M: "0 < M" using F w by (simp add: M_def)
  have N: "0 \<le> N" using r w by (simp add: N_def)
  let ?in = "N div M + 1"
  have amt: "v2_getAmountIn (Some want) ti to pool = Inr ?in"
    using res r w M lt by (simp add: v2_getAmountIn_def basisPointDivisor_def Let_def F_def N_def M_def)
  have pos: "0 < ?in" using N M by (simp add: pos_imp_zdiv_nonneg_iff add_nonneg_pos)
  have buys: "want \<le> out_formula (uint (v2FeeBps pool)) b rin rout \<longleftrightarrow> N \<le> b * M" if b: "0 \<le> b" for b
  proof -
    have "0 < rin * 10000 + b * F" using r F b by (simp add: add_pos_nonneg)
    then have "want \<le> out_formula (uint (v2FeeBps pool)) b rin rout \<longleftrightarrow> want * (rin * 10000 + b * F) \<le> rout * (b * F)"
      unfolding out_formula_def F_def by (rule le_div_iff_mult)
    also have "\<dots> \<longleftrightarrow> N \<le> b * M" unfolding N_def M_def by (simp add: algebra_simps)
    finally show ?thesis .
  qed
  note out = getAmountOut_formula [OF res r(1,2) _ r(3)]
  have "N < ?in * M"
  proof (rule ccontr)
    assume "\<not> N < ?in * M"
    then have "?in \<le> N div M" using le_div_iff_mult [OF M] by simp
    then show False by simp
  qed
  then have "want \<le> out_formula (uint (v2FeeBps pool)) ?in rin rout" using buys [of ?in] pos by simp
  moreover have "?in \<le> b + 1" if "0 \<le> b" "v2_getAmountOut (Some b) ti to pool = Inr other" "want \<le> other" for b other
  proof -
    have "N \<le> b * M" using buys [OF that(1)] out [OF that(1)] that(2,3) by simp
    then have "N div M \<le> (b * M) div M" using M by (intro zdiv_mono1)
    then show ?thesis using M by simp
  qed
  ultimately show ?thesis using amt pos out [of ?in] 
    by (intro exI [of _ ?in] exI [of _ "out_formula (uint (v2FeeBps pool)) ?in rin rout"]) auto
qed

theorem GetAmountIn_sufficient_witness:
  "v2_getAmountIn (Some 1992) 10 20 sample_v2 = Inr 1000 \<and> (\<exists>got. v2_getAmountOut (Some 1000) 10 20 sample_v2 = Inr got \<and> 1992 \<le> got)"
proof -
  have "v2FeeBps sample_v2 < 10000" by (simp add: sample_v2_def)
  moreover have "v2_getAmountIn (Some 1992) 10 20 sample_v2 = Inr 1000"
    by (simp add: sample_v2_def v2_getAmountIn_def v2_GetReserves_def basisPointDivisor_def)
  ultimately show ?thesis using GetAmountIn_sufficient [OF sample_v2_ok, of 1992] by auto
qed

text \<open>
  C16: No profit from trading back and forth: on a tradable pool, swapping an amount and swapping the whole
  output back in the resulting pool returns at most the amount put in.
\<close>

theorem v2_no_round_trip_profit:
  assumes ok: "v2_tradable pool" and res: "v2_GetReserves ti to pool = Inr (rin, rout)" and a: "0 \<le> a"
  shows "\<exists>out pool' ret pool''. v2_simulateSwap (Some a) ti to pool = Inr (out, pool') \<and>
    v2_simulateSwap (Some out) to ti pool' = Inr (ret, pool'') \<and> ret \<le> a"
proof -
  note r = v2_tradable_reserves [OF ok res]
  obtain out pool' where s: "v2_simulateSwap (Some a) ti to pool = Inr (out, pool')"
    "out = out_formula (uint (v2FeeBps pool)) a rin rout"
    "v2_GetReserves to ti pool' = Inr (rout - out, rin + a)" "v2_tradable pool'"
    by (rule v2_simulate_reserves [OF ok res a])
  note b = out_formula_bounds [OF uint_fee_nonneg r(4) a r(1,2), folded s(2)]
  obtain ret pool'' where t: "v2_simulateSwap (Some out) to ti pool' = Inr (ret, pool'')"
    "ret = out_formula (uint (v2FeeBps pool')) out (rout - out) (rin + a)"
    by (rule v2_simulate_reserves [OF s(4,3) b(1)])
  note r' = v2_tradable_reserves [OF s(4,3)]
  have "(rout - out) * (rin + a) \<le> (rout - out + out) * (rin + a - ret)"
    using out_formula_bounds(5) [OF uint_fee_nonneg r'(4) b(1) r'(1,2)] by (simp add: t(2))
  then have "rout * rin \<le> rout * (rin + a - ret)" using b(5) by (simp add: mult.commute)
  then have "rin \<le> rin + a - ret" using r(2) by simp
  then show ?thesis using s(1) t(1) by auto
qed

theorem v2_no_round_trip_profit_witness:
  "\<exists>pool' ret pool''. v2_simulateSwap (Some 1000) 10 20 sample_v2 = Inr (1992, pool') \<and>
     v2_simulateSwap (Some 1992) 20 10 pool' = Inr (ret, pool'') \<and> ret \<le> 1000"
proof -
  have "v2_getAmountOut (Some 1000) 10 20 sample_v2 = Inr 1992"
    by (simp add: sample_v2_def v2_getAmountOut_def v2_GetReserves_def basisPointDivisor_def)
  then show ?thesis using v2_no_round_trip_profit [OF sample_v2_ok, of 1000]
    by (auto simp: v2_simulateSwap_def Let_def split: if_splits)
qed

text \<open>
  The error paths of the calculator: a nil amount, a negative amount, and a token pair the pool does
  not hold are refused with their own errors, in that order; a request for the whole output reserve
  or more is refused as insufficient liquidity; a pool with an empty reserve quotes 0.
\<close>

theorem v2_calculator_errors:
  "v2_getAmountOut None ti to pool = Inl V2ErrNilAmount \<and> v2_getAmountIn None ti to pool = Inl V2ErrNilAmount \<and>
   (a < 0 \<longrightarrow> v2_getAmountOut (Some a) ti to pool = Inl V2ErrInvalidAmount \<and>
     v2_getAmountIn (Some a) ti to pool = Inl V2ErrInvalidAmount) \<and>
   (0 \<le> a \<and> {ti, to} \<noteq> {v2Token0 pool, v2Token1 pool} \<longrightarrow>
     v2_getAmountOut (Some a) ti to pool = Inl (V2ErrTokenMismatch (v2ID pool) ti to) \<and>
     v2_getAmountIn (Some a) ti to pool = Inl (V2ErrTokenMismatch (v2ID pool) ti to)) \<and>
   (0 \<le> a \<and> v2_GetReserves ti to pool = Inr (rin, rout) \<and> rout \<le> a \<longrightarrow>
     v2_getAmountIn (Some a) ti to pool = Inl (V2ErrInsufficientLiquidity a rout)) \<and>
   (0 \<le> a \<and> v2_GetReserves ti to pool = Inr (rin, rout) \<and> (rin \<le> 0 \<or> rout \<le> 0) \<longrightarrow>
     v2_getAmountOut (Some a) ti to pool = Inr 0)"
  by (auto simp: v2_getAmountOut_def v2_getAmountIn_def v2_GetReserves_def split: if_splits)

theorem v2_calculator_errors_witness:
  "v2_getAmountOut (Some (- 1)) 10 20 sample_v2 = Inl V2ErrInvalidAmount \<and>
   v2_getAmountOut (Some 1) 10 30 sample_v2 = Inl (V2ErrTokenMismatch 1 10 30) \<and>
   v2_getAmountIn (Some 2000000) 10 20 sample_v2 = Inl (V2ErrInsufficientLiquidity 2000000 2000000)"
  using v2_calculator_errors [of 10 20 sample_v2 "- 1" 1000000 2000000] v2_calculator_errors [of 10 30 sample_v2 1 0 0]
    v2_calculator_errors [of 10 20 sample_v2 2000000 1000000 2000000] sample_v2_ok(2)
  by (simp add: sample_v2_def doubleton_eq_iff)

end
