(* ===== verification/Pool_Upkeep.thy ===== *)
theory Pool_Upkeep
  imports Interfaces
begin

text \<open>
  What the Uniswap V2 and V3 systems share: the loop that deletes pools from a registry (\<^verbatim>\<open>deletePools\<close> of
  \<^verbatim>\<open>src/protocols/uniswap-v2/system.go\<close> and \<^verbatim>\<open>src/protocols/uniswap-v3/system.go\<close>), the queue of discovered pools and the
  test for inactivity. The lemmas on the loop hold for every registry that is an \<^verbatim>\<open>id_store\<close>.
\<close>

section \<open>Deletion\<close>

text \<open>Errors in the order of the arguments, the pools that were deleted, and the registry.\<close>

fun delete_loop :: "('k \<Rightarrow> 'r \<Rightarrow> 'e + 'r) \<Rightarrow> 'k list \<Rightarrow> 'r \<Rightarrow> 'e option list \<times> 'k list \<times> 'r" where
  "delete_loop deletePool [] r = ([], [], r)"
| "delete_loop deletePool (poolID # ids) r =
     (case deletePool poolID r of
        Inl err \<Rightarrow> (let (errs, deleted, r') = delete_loop deletePool ids r in (Some err # errs, deleted, r'))
      | Inr r1 \<Rightarrow> (let (errs, deleted, r') = delete_loop deletePool ids r1 in (None # errs, poolID # deleted, r')))"

lemma delete_loop_run:
  "delete_loop del ids r = (errs, deleted, r') \<Longrightarrow> (\<lambda>a b. \<exists>k. del k a = Inr b)\<^sup>*\<^sup>* r r' \<and> (deleted = [] \<longrightarrow> r' = r)"
proof (induction del ids r arbitrary: errs deleted r' rule: delete_loop.induct)
  case (2 del k ids r)
  show ?case
  proof (cases "del k r")
    case (Inl err)
    then obtain es where d: "delete_loop del ids r = (es, deleted, r')" using 2(3) by (auto split: prod.splits)
    show ?thesis by (rule 2(1) [OF Inl d])
  next
    case (Inr r1)
    then obtain es ds where d: "delete_loop del ids r1 = (es, ds, r')" "deleted = k # ds" using 2(3) by (auto split: prod.splits)
    with 2(2) [OF Inr d(1)] have "(\<lambda>a b. \<exists>k. del k a = Inr b)\<^sup>*\<^sup>* r1 r'" by simp
    moreover have "\<exists>k. del k r = Inr r1" using Inr by blast
    ultimately show ?thesis using d(2) by (simp add: converse_rtranclp_into_rtranclp)
  qed
qed simp

context id_store
begin

lemma delete_loop_spec:
  assumes "inv r" and "delete_loop del ids r = (errs, deleted, r')"
  shows "inv r' \<and> length errs = length ids \<and>
     (\<forall>k. keyed vid (view r') k = (if k \<in> set ids then None else keyed vid (view r) k)) \<and>
     set deleted = {k \<in> set ids. keyed vid (view r) k \<noteq> None} \<and> distinct deleted"
  using assms
proof (induction ids arbitrary: r errs deleted r')
  case (Cons k ids)
  show ?case
  proof (cases "del k r")
    case (Inl err)
    then obtain es where d: "delete_loop del ids r = (es, deleted, r')" "errs = Some err # es"
      using Cons.prems(2) by (auto split: prod.splits)
    have "keyed vid (view r) k = None" using del_present [OF Cons.prems(1), of k] Inl by (cases "keyed vid (view r) k") auto
    then show ?thesis using Cons.IH [OF Cons.prems(1) d(1)] d by auto
  next
    case (Inr r1)
    then obtain es ds where d: "delete_loop del ids r1 = (es, ds, r')" "errs = None # es" "deleted = k # ds"
      using Cons.prems(2) by (auto split: prod.splits)
    note i = del_InrD [OF Cons.prems(1) Inr]
    show ?thesis using Cons.IH [OF i(1) d(1)] d i(2,3) by auto
  qed
qed simp

end

section \<open>Discovery\<close>

text \<open>The keys of \<^verbatim>\<open>pendingInit\<close>, in the order of their insertion.\<close>

definition queue_discovered :: "(address \<Rightarrow> uint64 option) \<Rightarrow> address list \<Rightarrow> address list \<Rightarrow> address list" where
  "queue_discovered poolAddressToID discovered pendingInit =
     foldl (\<lambda>pending addr. if poolAddressToID addr \<noteq> None \<or> addr \<in> set pending then pending else pending @ [addr]) pendingInit discovered"

lemma queue_discovered_spec:
  "distinct pending \<Longrightarrow> distinct (queue_discovered idOf disc pending) \<and>
   set (queue_discovered idOf disc pending) = set pending \<union> {a \<in> set disc. idOf a = None}"
  unfolding queue_discovered_def by (induction disc arbitrary: pending) auto

section \<open>Inactivity\<close>

text \<open>\<^verbatim>\<open>now.Sub\<close> of a time given in seconds; a \<^verbatim>\<open>Duration\<close> is a number of nanoseconds and the difference saturates.\<close>

definition time_Sub :: "int \<Rightarrow> int \<Rightarrow> int" where
  "time_Sub t u = max (- (2 ^ 63)) (min (2 ^ 63 - 1) (t - u))"

definition prune_due :: "int \<Rightarrow> int \<Rightarrow> uint64 \<Rightarrow> bool" where
  "prune_due now maxInactive lastUpdatedAt \<longleftrightarrow> lastUpdatedAt > 0 \<and> time_Sub now (sint lastUpdatedAt * 1000000000) > maxInactive"

definition prune_selection :: "(uint64, uint64) range_order \<Rightarrow> int \<Rightarrow> int \<Rightarrow> (uint64, uint64) gomap \<Rightarrow> uint64 list" where
  "prune_selection ord now maxInactive poolsLastUpdatedAt =
     map fst (filter (\<lambda>(pid, lastUpdatedAt). prune_due now maxInactive lastUpdatedAt) (ord poolsLastUpdatedAt))"

end
