(* ===== verification/UniswapV3_Registry.thy ===== *)
theory UniswapV3_Registry
  imports Interfaces
begin

text \<open>
  The Uniswap V3 pool registry of \<^verbatim>\<open>src/protocols/uniswap-v3/registry.go\<close>, the tick-enriched pool view of
  \<^verbatim>\<open>system.go\<close>, and \<^verbatim>\<open>differ.go\<close> and \<^verbatim>\<open>patcher.go\<close>. A tick is an \<^verbatim>\<open>int64\<close> that is only stored and compared here.
  \<^verbatim>\<open>sort.Slice\<close> is not stable; the sorter is an argument, any function that returns a sorted permutation.
\<close>

section \<open>Data\<close>

datatype v3_error = V3ErrPoolExists | V3ErrPoolNotFound

record TickInfo =
  tiIndex :: int
  tiLiquidityGross :: int
  tiLiquidityNet :: int

record PoolViewMinimal =
  v3ID :: uint64
  v3Token0 :: uint64
  v3Token1 :: uint64
  v3Fee :: uint64
  v3TickSpacing :: uint64
  v3Tick :: int
  v3Liquidity :: int
  v3SqrtPriceX96 :: int

record V3PoolView = PoolViewMinimal +
  v3Ticks :: "TickInfo list"

record UniswapV3Registry =
  u3ID :: "uint64 list"
  u3Token0 :: "uint64 list"
  u3Token1 :: "uint64 list"
  u3Fee :: "uint64 list"
  u3TickSpacing :: "uint64 list"
  u3Tick :: "int list"
  u3Liquidity :: "int list"
  u3SqrtPriceX96 :: "int list"
  u3LastUpdatedAt :: "uint64 list"
  u3IdToIndex :: "uint64 \<rightharpoonup> nat"

section \<open>\<^verbatim>\<open>registry.go\<close>\<close>

definition NewUniswapV3Registry :: UniswapV3Registry where
  "NewUniswapV3Registry = \<lparr>u3ID = [], u3Token0 = [], u3Token1 = [], u3Fee = [], u3TickSpacing = [], u3Tick = [],
     u3Liquidity = [], u3SqrtPriceX96 = [], u3LastUpdatedAt = [], u3IdToIndex = Map.empty\<rparr>"

definition NewUniswapV3RegistryFromViews :: "PoolViewMinimal list \<Rightarrow> UniswapV3Registry" where
  "NewUniswapV3RegistryFromViews views =
     (if length views = 0 then NewUniswapV3Registry
      else \<lparr>u3ID = map v3ID views, u3Token0 = map v3Token0 views, u3Token1 = map v3Token1 views,
        u3Fee = map v3Fee views, u3TickSpacing = map v3TickSpacing views, u3Tick = map v3Tick views,
        u3Liquidity = map v3Liquidity views, u3SqrtPriceX96 = map v3SqrtPriceX96 views,
        u3LastUpdatedAt = replicate (length views) 0, u3IdToIndex = lookup_map (map v3ID views)\<rparr>)"

definition v3_addPool ::
  "uint64 \<Rightarrow> uint64 \<Rightarrow> uint64 \<Rightarrow> uint64 \<Rightarrow> uint64 \<Rightarrow> UniswapV3Registry \<Rightarrow> v3_error + UniswapV3Registry" where
  "v3_addPool poolID token0ID token1ID fee tickSpacing registry =
     (if u3IdToIndex registry poolID \<noteq> None then Inl V3ErrPoolExists
      else Inr (registry\<lparr>u3ID := u3ID registry @ [poolID], u3Token0 := u3Token0 registry @ [token0ID],
        u3Token1 := u3Token1 registry @ [token1ID], u3Fee := u3Fee registry @ [fee],
        u3TickSpacing := u3TickSpacing registry @ [tickSpacing], u3Tick := u3Tick registry @ [0],
        u3Liquidity := u3Liquidity registry @ [0], u3SqrtPriceX96 := u3SqrtPriceX96 registry @ [0],
        u3LastUpdatedAt := u3LastUpdatedAt registry @ [0],
        u3IdToIndex := (u3IdToIndex registry)(poolID \<mapsto> length (u3ID registry))\<rparr>))"

definition v3_updatePool ::
  "uint64 \<Rightarrow> uint64 \<Rightarrow> int \<Rightarrow> int \<Rightarrow> int \<Rightarrow> UniswapV3Registry \<Rightarrow> v3_error + UniswapV3Registry" where
  "v3_updatePool poolID fee tick liquidity sqrtPriceX96 registry =
     (case u3IdToIndex registry poolID of
        None \<Rightarrow> Inl V3ErrPoolNotFound
      | Some index \<Rightarrow> Inr (registry\<lparr>u3Fee := (u3Fee registry)[index := fee], u3Tick := (u3Tick registry)[index := tick],
          u3Liquidity := (u3Liquidity registry)[index := liquidity],
          u3SqrtPriceX96 := (u3SqrtPriceX96 registry)[index := sqrtPriceX96]\<rparr>))"

definition v3_deletePool :: "uint64 \<Rightarrow> UniswapV3Registry \<Rightarrow> v3_error + UniswapV3Registry" where
  "v3_deletePool poolID registry =
     (case u3IdToIndex registry poolID of
        None \<Rightarrow> Inl V3ErrPoolNotFound
      | Some indexToDelete \<Rightarrow>
          let lastIndex = length (u3ID registry) - 1;
              lastPoolID = u3ID registry ! lastIndex
          in Inr (registry\<lparr>u3ID := swap_pop indexToDelete lastIndex (u3ID registry),
               u3Token0 := swap_pop indexToDelete lastIndex (u3Token0 registry),
               u3Token1 := swap_pop indexToDelete lastIndex (u3Token1 registry),
               u3Fee := swap_pop indexToDelete lastIndex (u3Fee registry),
               u3TickSpacing := swap_pop indexToDelete lastIndex (u3TickSpacing registry),
               u3Tick := swap_pop indexToDelete lastIndex (u3Tick registry),
               u3Liquidity := swap_pop indexToDelete lastIndex (u3Liquidity registry),
               u3SqrtPriceX96 := swap_pop indexToDelete lastIndex (u3SqrtPriceX96 registry),
               u3LastUpdatedAt := swap_pop indexToDelete lastIndex (u3LastUpdatedAt registry),
               u3IdToIndex := (if indexToDelete \<noteq> lastIndex then (u3IdToIndex registry)(lastPoolID \<mapsto> indexToDelete)
                 else u3IdToIndex registry)(poolID := None)\<rparr>))"

definition v3ViewAt :: "UniswapV3Registry \<Rightarrow> nat \<Rightarrow> PoolViewMinimal" where
  "v3ViewAt registry i =
     \<lparr>v3ID = u3ID registry ! i, v3Token0 = u3Token0 registry ! i, v3Token1 = u3Token1 registry ! i,
      v3Fee = u3Fee registry ! i, v3TickSpacing = u3TickSpacing registry ! i, v3Tick = u3Tick registry ! i,
      v3Liquidity = u3Liquidity registry ! i, v3SqrtPriceX96 = u3SqrtPriceX96 registry ! i\<rparr>"

definition v3_getPoolById :: "uint64 \<Rightarrow> UniswapV3Registry \<Rightarrow> v3_error + PoolViewMinimal" where
  "v3_getPoolById poolID registry =
     (case u3IdToIndex registry poolID of
        None \<Rightarrow> Inl V3ErrPoolNotFound | Some index \<Rightarrow> Inr (v3ViewAt registry index))"

definition v3_viewRegistry :: "UniswapV3Registry \<Rightarrow> PoolViewMinimal list" where
  "v3_viewRegistry registry = map (v3ViewAt registry) [0..<length (u3ID registry)]"

definition v3_hasPool :: "uint64 \<Rightarrow> UniswapV3Registry \<Rightarrow> bool" where
  "v3_hasPool poolID registry \<longleftrightarrow> u3IdToIndex registry poolID \<noteq> None"

definition v3_setLastUpdatedAt :: "uint64 \<Rightarrow> uint64 \<Rightarrow> UniswapV3Registry \<Rightarrow> v3_error + UniswapV3Registry" where
  "v3_setLastUpdatedAt poolID time registry =
     (case u3IdToIndex registry poolID of
        None \<Rightarrow> Inl V3ErrPoolNotFound
      | Some index \<Rightarrow> Inr (registry\<lparr>u3LastUpdatedAt := (u3LastUpdatedAt registry)[index := time]\<rparr>))"

definition v3_getLastUpdatedAt :: "uint64 \<Rightarrow> UniswapV3Registry \<Rightarrow> v3_error + uint64" where
  "v3_getLastUpdatedAt poolID registry =
     (case u3IdToIndex registry poolID of
        None \<Rightarrow> Inl V3ErrPoolNotFound | Some index \<Rightarrow> Inr (u3LastUpdatedAt registry ! index))"

definition v3_getLastUpdatedAtMap :: "UniswapV3Registry \<Rightarrow> (uint64, uint64) gomap" where
  "v3_getLastUpdatedAtMap registry =
     foldl (\<lambda>m i. AList.update (u3ID registry ! i) (u3LastUpdatedAt registry ! i) m) [] [0..<length (u3ID registry)]"

section \<open>\<^verbatim>\<open>differ.go\<close> and \<^verbatim>\<open>patcher.go\<close>\<close>

definition slice_sorter :: "('a \<Rightarrow> int) \<Rightarrow> ('a list \<Rightarrow> 'a list) \<Rightarrow> bool" where
  "slice_sorter key srt \<longleftrightarrow> (\<forall>xs. mset (srt xs) = mset xs \<and> sorted (map key (srt xs)))"

record UniswapV3SystemDiff =
  v3dAdditions :: "V3PoolView list"
  v3dUpdates :: "V3PoolView list"
  v3dDeletions :: "uint64 list"

definition v3_IsEmpty :: "UniswapV3SystemDiff \<Rightarrow> bool" where
  "v3_IsEmpty d \<longleftrightarrow> length (v3dAdditions d) = 0 \<and> length (v3dUpdates d) = 0 \<and> length (v3dDeletions d) = 0"

definition tick_differs :: "TickInfo \<Rightarrow> TickInfo \<Rightarrow> bool" where
  "tick_differs old new \<longleftrightarrow> tiIndex old \<noteq> tiIndex new \<or> tiLiquidityNet old \<noteq> tiLiquidityNet new \<or>
     tiLiquidityGross old \<noteq> tiLiquidityGross new"

definition poolChanged :: "(TickInfo list \<Rightarrow> TickInfo list) \<Rightarrow> V3PoolView \<Rightarrow> V3PoolView \<Rightarrow> bool" where
  "poolChanged srt old new =
     (if v3Tick old \<noteq> v3Tick new \<or> v3Fee old \<noteq> v3Fee new then True
      else if v3SqrtPriceX96 old \<noteq> v3SqrtPriceX96 new then True
      else if v3Liquidity old \<noteq> v3Liquidity new then True
      else if length (v3Ticks old) \<noteq> length (v3Ticks new) then True
      else let oldTicks = srt (v3Ticks old); newTicks = srt (v3Ticks new)
           in list_ex (\<lambda>i. tick_differs (oldTicks ! i) (newTicks ! i)) [0..<length oldTicks])"

definition v3_Differ ::
  "(TickInfo list \<Rightarrow> TickInfo list) \<Rightarrow> (uint64, V3PoolView) range_order \<Rightarrow> (uint64, V3PoolView) range_order \<Rightarrow>
   V3PoolView list \<Rightarrow> V3PoolView list \<Rightarrow> UniswapV3SystemDiff" where
  "v3_Differ srt ord_new ord_old old new =
     (let oldPoolsMap = mapByID v3ID old; newPoolsMap = mapByID v3ID new in
      \<lparr>v3dAdditions = diff_additions (ord_new newPoolsMap) oldPoolsMap,
       v3dUpdates = diff_updates (poolChanged srt) (ord_new newPoolsMap) oldPoolsMap,
       v3dDeletions = diff_deletions (ord_old oldPoolsMap) newPoolsMap\<rparr>)"

definition copyTickInfo :: "TickInfo \<Rightarrow> TickInfo" where
  "copyTickInfo t = t\<lparr>tiLiquidityNet := tiLiquidityNet t, tiLiquidityGross := tiLiquidityGross t\<rparr>"

definition v3_deepCopyPool :: "V3PoolView \<Rightarrow> V3PoolView" where
  "v3_deepCopyPool p = p\<lparr>v3Liquidity := v3Liquidity p, v3SqrtPriceX96 := v3SqrtPriceX96 p,
     v3Ticks := map copyTickInfo (v3Ticks p)\<rparr>"

definition v3_Patcher ::
  "(uint64, V3PoolView) range_order \<Rightarrow> V3PoolView list \<Rightarrow> UniswapV3SystemDiff \<Rightarrow> V3PoolView list" where
  "v3_Patcher ord prevState diff =
     map snd (ord (patch_map v3ID v3_deepCopyPool prevState (v3dDeletions diff) (v3dUpdates diff) (v3dAdditions diff)))"

lemma v3_deepCopyPool_id: "v3_deepCopyPool = (\<lambda>p. p)"
proof -
  have "map copyTickInfo ts = ts" for ts by (rule map_idI) (simp add: copyTickInfo_def)
  then show ?thesis by (simp add: fun_eq_iff v3_deepCopyPool_def)
qed

interpretation v3_diff: diff_patch v3ID "poolChanged srt" "v3_Differ srt" v3_Patcher v3dAdditions v3dUpdates v3dDeletions for srt
proof unfold_locales
  fix o3 :: "(uint64, V3PoolView) range_order" and prev d
  assume o3: "range_order o3"
  show "distinct (map v3ID (v3_Patcher o3 prev d))"
    unfolding v3_Patcher_def v3_deepCopyPool_id by (rule patch_range(1) [OF o3])
  show "distinct (map v3ID prev) \<Longrightarrow> keyed v3ID (v3_Patcher o3 prev d) =
      ((keyed v3ID prev |` (- set (v3dDeletions d))) ++ keyed v3ID (rev (v3dUpdates d))) ++ keyed v3ID (rev (v3dAdditions d))"
    unfolding v3_Patcher_def v3_deepCopyPool_id by (rule patch_range(2) [OF o3])
qed (simp_all add: v3_Differ_def Let_def distinct_diff set_diff_additions set_diff_updates set_diff_deletions)

section \<open>Invariant\<close>

definition v3_inv :: "UniswapV3Registry \<Rightarrow> bool" where
  "v3_inv r \<longleftrightarrow> length (u3Token0 r) = length (u3ID r) \<and> length (u3Token1 r) = length (u3ID r) \<and>
     length (u3Fee r) = length (u3ID r) \<and> length (u3TickSpacing r) = length (u3ID r) \<and> length (u3Tick r) = length (u3ID r) \<and>
     length (u3Liquidity r) = length (u3ID r) \<and> length (u3SqrtPriceX96 r) = length (u3ID r) \<and>
     length (u3LastUpdatedAt r) = length (u3ID r) \<and> index_inv (u3ID r) (u3IdToIndex r)"

lemma v3_invD:
  assumes "v3_inv r"
  shows "length (u3Token0 r) = length (u3ID r)" "length (u3Token1 r) = length (u3ID r)"
    "length (u3Fee r) = length (u3ID r)" "length (u3TickSpacing r) = length (u3ID r)" "length (u3Tick r) = length (u3ID r)"
    "length (u3Liquidity r) = length (u3ID r)" "length (u3SqrtPriceX96 r) = length (u3ID r)"
    "length (u3LastUpdatedAt r) = length (u3ID r)" "index_inv (u3ID r) (u3IdToIndex r)"
  using assms by (simp_all add: v3_inv_def)

lemma v3_view_nth [simp]: "i < length (u3ID r) \<Longrightarrow> v3_viewRegistry r ! i = v3ViewAt r i"
  by (simp add: v3_viewRegistry_def)

lemma v3_view_length [simp]: "length (v3_viewRegistry r) = length (u3ID r)"
  by (simp add: v3_viewRegistry_def)

lemma v3_view_ids: "map v3ID (v3_viewRegistry r) = u3ID r"
  by (rule nth_equalityI) (simp_all add: v3ViewAt_def)

lemma v3_view_index: "v3_inv r \<Longrightarrow> index_inv (map v3ID (v3_viewRegistry r)) (u3IdToIndex r)"
  by (simp add: v3_view_ids v3_invD(9))

lemma v3_inv_new: "v3_inv NewUniswapV3Registry"
  by (simp add: v3_inv_def NewUniswapV3Registry_def)

lemma v3_view_new [simp]: "v3_viewRegistry NewUniswapV3Registry = []"
  by (simp add: v3_viewRegistry_def NewUniswapV3Registry_def)

lemma v3_hasPool_iff: "v3_inv r \<Longrightarrow> v3_hasPool k r \<longleftrightarrow> k \<in> v3ID ` set (v3_viewRegistry r)"
  using index_inv_None_iff [OF v3_view_index, of r k] by (auto simp: v3_hasPool_def)

text \<open>The pool that \<^verbatim>\<open>addPool\<close> appends.\<close>

definition v3_new_pool :: "uint64 \<Rightarrow> uint64 \<Rightarrow> uint64 \<Rightarrow> uint64 \<Rightarrow> uint64 \<Rightarrow> PoolViewMinimal" where
  "v3_new_pool i t0 t1 fee sp = \<lparr>v3ID = i, v3Token0 = t0, v3Token1 = t1, v3Fee = fee, v3TickSpacing = sp, v3Tick = 0,
     v3Liquidity = 0, v3SqrtPriceX96 = 0\<rparr>"

lemma v3_addPool_spec:
  assumes inv: "v3_inv r" and call: "v3_addPool i t0 t1 fee sp r = Inr r'"
  shows "keyed v3ID (v3_viewRegistry r) i = None" and "v3_inv r'"
    and "v3_viewRegistry r' = v3_viewRegistry r @ [v3_new_pool i t0 t1 fee sp]"
proof -
  have c: "u3IdToIndex r i = None"
    and r': "r' = r\<lparr>u3ID := u3ID r @ [i], u3Token0 := u3Token0 r @ [t0], u3Token1 := u3Token1 r @ [t1], u3Fee := u3Fee r @ [fee],
      u3TickSpacing := u3TickSpacing r @ [sp], u3Tick := u3Tick r @ [0], u3Liquidity := u3Liquidity r @ [0],
      u3SqrtPriceX96 := u3SqrtPriceX96 r @ [0], u3LastUpdatedAt := u3LastUpdatedAt r @ [0],
      u3IdToIndex := (u3IdToIndex r)(i \<mapsto> length (u3ID r))\<rparr>"
    using call by (auto simp: v3_addPool_def split: if_splits)
  note d = v3_invD [OF inv]
  show "v3_inv r'" using d index_inv_append [OF d(9) c] by (simp add: v3_inv_def r')
  show "v3_viewRegistry r' = v3_viewRegistry r @ [v3_new_pool i t0 t1 fee sp]"
    using d by (intro nth_equalityI)
      (auto simp: v3_viewRegistry_def v3ViewAt_def v3_new_pool_def r' nth_append less_Suc_eq)
  show "keyed v3ID (v3_viewRegistry r) i = None" using c by (simp add: keyed_index [OF v3_view_index [OF inv]])
qed

lemma v3_updatePool_spec:
  assumes inv: "v3_inv r" and call: "v3_updatePool k fee tick liq price r = Inr r'"
  obtains v where "keyed v3ID (v3_viewRegistry r) k = Some v" "v3_inv r'"
    "keyed v3ID (v3_viewRegistry r') = (keyed v3ID (v3_viewRegistry r))
       (k \<mapsto> v\<lparr>v3Fee := fee, v3Tick := tick, v3Liquidity := liq, v3SqrtPriceX96 := price\<rparr>)"
    "u3ID r' = u3ID r"
proof -
  obtain i where i: "u3IdToIndex r k = Some i"
    and r': "r' = r\<lparr>u3Fee := (u3Fee r)[i := fee], u3Tick := (u3Tick r)[i := tick], u3Liquidity := (u3Liquidity r)[i := liq],
      u3SqrtPriceX96 := (u3SqrtPriceX96 r)[i := price]\<rparr>"
    using call by (auto simp: v3_updatePool_def split: option.splits)
  note d = v3_invD [OF inv]
  have il: "i < length (u3ID r)" "u3ID r ! i = k" using index_invD [OF d(9) i] by auto
  let ?v = "(v3ViewAt r i)\<lparr>v3Fee := fee, v3Tick := tick, v3Liquidity := liq, v3SqrtPriceX96 := price\<rparr>"
  have inv': "v3_inv r'" using d by (simp add: v3_inv_def r')
  have "v3_viewRegistry r' = (v3_viewRegistry r)[i := ?v]"
    using d il by (intro nth_equalityI) (auto simp: r' nth_list_update v3ViewAt_def)
  then have "keyed v3ID (v3_viewRegistry r') = (keyed v3ID (v3_viewRegistry r))(k \<mapsto> ?v)"
    using keyed_update [OF v3_view_index [OF inv] i, of ?v] il by (simp add: v3ViewAt_def)
  moreover have "keyed v3ID (v3_viewRegistry r) k = Some (v3ViewAt r i)"
    using i il by (simp add: keyed_index [OF v3_view_index [OF inv]])
  moreover have "u3ID r' = u3ID r" by (simp add: r')
  ultimately show thesis using that inv' by blast
qed

lemma v3_setLastUpdatedAt_spec:
  assumes "v3_inv r" and "v3_setLastUpdatedAt k t r = Inr r'"
  shows "v3_inv r'" and "v3_viewRegistry r' = v3_viewRegistry r" and "v3_getLastUpdatedAt k r' = Inr t"
    and "j \<noteq> k \<Longrightarrow> v3_getLastUpdatedAt j r' = v3_getLastUpdatedAt j r"
proof -
  obtain i where i: "u3IdToIndex r k = Some i" and r': "r' = r\<lparr>u3LastUpdatedAt := (u3LastUpdatedAt r)[i := t]\<rparr>"
    using assms(2) by (auto simp: v3_setLastUpdatedAt_def split: option.splits)
  note d = v3_invD [OF assms(1)]
  have il: "i < length (u3ID r)" "u3ID r ! i = k" using index_invD [OF d(9) i] by auto
  show "v3_inv r'" using d by (simp add: v3_inv_def r')
  show "v3_viewRegistry r' = v3_viewRegistry r" by (simp add: v3_viewRegistry_def v3ViewAt_def r')
  show "v3_getLastUpdatedAt k r' = Inr t" using i il d(8) by (simp add: v3_getLastUpdatedAt_def r')
  show "v3_getLastUpdatedAt j r' = v3_getLastUpdatedAt j r" if "j \<noteq> k"
  proof (cases "u3IdToIndex r j")
    case (Some m)
    then have "m \<noteq> i" using index_invD [OF d(9) Some] il that by auto
    then show ?thesis using Some by (simp add: v3_getLastUpdatedAt_def r')
  qed (simp add: v3_getLastUpdatedAt_def r')
qed

lemma v3_deletePool_spec:
  assumes inv: "v3_inv r" and i: "u3IdToIndex r k = Some i"
  obtains r' where "v3_deletePool k r = Inr r'" "v3_inv r'"
    "v3_viewRegistry r' = swap_pop i (length (v3_viewRegistry r) - 1) (v3_viewRegistry r)"
proof -
  obtain r' where del: "v3_deletePool k r = Inr r'" using i by (simp add: v3_deletePool_def Let_def)
  note d = v3_invD [OF inv]
  define l where "l = length (u3ID r) - 1"
  have r': "r' = r\<lparr>u3ID := swap_pop i l (u3ID r), u3Token0 := swap_pop i l (u3Token0 r), u3Token1 := swap_pop i l (u3Token1 r),
      u3Fee := swap_pop i l (u3Fee r), u3TickSpacing := swap_pop i l (u3TickSpacing r), u3Tick := swap_pop i l (u3Tick r),
      u3Liquidity := swap_pop i l (u3Liquidity r), u3SqrtPriceX96 := swap_pop i l (u3SqrtPriceX96 r),
      u3LastUpdatedAt := swap_pop i l (u3LastUpdatedAt r),
      u3IdToIndex := (u3IdToIndex r)(u3ID r ! l \<mapsto> i, k := None)\<rparr>"
    using del i index_swap_cond [OF d(9) i l_def]
    by (simp add: v3_deletePool_def Let_def l_def [symmetric] del: One_nat_def)
  have il: "i < length (u3ID r)" using index_invD [OF d(9) i] by simp
  then have l: "l < length (u3ID r)" "i \<le> l" unfolding l_def by linarith+
  have "v3_inv r'" using d index_inv_swap_pop [OF d(9) i l_def] l by (simp add: v3_inv_def r')
  moreover have ll: "length (v3_viewRegistry r) - 1 = l" by (simp add: l_def)
  moreover have "v3_viewRegistry r' = swap_pop i l (v3_viewRegistry r)"
    using d l by (intro nth_equalityI) (auto simp: r' v3_viewRegistry_def v3ViewAt_def)
  ultimately show thesis using that del by simp
qed

interpretation v3pools: id_store v3_inv v3_viewRegistry v3ID v3_getPoolById v3_deletePool V3ErrPoolNotFound
proof unfold_locales
  fix r :: UniswapV3Registry and k
  assume inv: "v3_inv r"
  note idx = v3_view_index [OF inv]
  show "distinct (map v3ID (v3_viewRegistry r))" by (rule index_inv_distinct [OF idx])
  show "v3_getPoolById k r = option_result V3ErrPoolNotFound (keyed v3ID (v3_viewRegistry r) k)"
    using index_invD [OF v3_invD(9) [OF inv]]
    by (cases "u3IdToIndex r k") (simp_all add: v3_getPoolById_def keyed_index [OF idx])
  show "v3_deletePool k r = Inl V3ErrPoolNotFound" if "keyed v3ID (v3_viewRegistry r) k = None"
    using that by (simp add: v3_deletePool_def keyed_index [OF idx])
  show "\<exists>r'. v3_deletePool k r = Inr r' \<and> v3_inv r' \<and> keyed v3ID (v3_viewRegistry r') = (keyed v3ID (v3_viewRegistry r))(k := None)"
    if v: "keyed v3ID (v3_viewRegistry r) k = Some v" for v
  proof -
    obtain i where i: "u3IdToIndex r k = Some i" using v by (auto simp: keyed_index [OF idx])
    show ?thesis by (rule v3_deletePool_spec [OF inv i]) (auto simp: keyed_swap_pop [OF idx i])
  qed
qed

section \<open>What the differ regards as unchanged\<close>

lemma slice_sorter_sort_key: "slice_sorter key (sort_key key)"
  by (simp add: slice_sorter_def)

lemma slice_sorter_sorted:
  assumes "slice_sorter key srt" and "sorted (map key xs)" and "distinct (map key xs)"
  shows "srt xs = xs"
proof -
  have s: "mset (srt xs) = mset xs" "sorted (map key (srt xs))" using assms(1) by (simp_all add: slice_sorter_def)
  have "map key (srt xs) = map key xs"
    using s assms(2) by (metis mset_map properties_for_sort)
  moreover have "inj_on key (set (srt xs) \<union> set xs)"
    using assms(3) mset_eq_setD [OF s(1)] by (simp add: distinct_map)
  ultimately show ?thesis by (metis map_inj_on)
qed

lemma poolChanged_False:
  assumes "\<not> poolChanged srt w v" and "slice_sorter tiIndex srt"
  shows "v3Tick w = v3Tick v" "v3Fee w = v3Fee v" "v3SqrtPriceX96 w = v3SqrtPriceX96 v" "v3Liquidity w = v3Liquidity v"
    "srt (v3Ticks w) = srt (v3Ticks v)"
proof -
  show "v3Tick w = v3Tick v" "v3Fee w = v3Fee v" "v3SqrtPriceX96 w = v3SqrtPriceX96 v" "v3Liquidity w = v3Liquidity v"
    using assms(1) by (auto simp: poolChanged_def split: if_splits)
  have len: "length (srt xs) = length xs" for xs using assms(2) by (metis size_mset slice_sorter_def)
  have "length (v3Ticks w) = length (v3Ticks v)"
    and same: "\<not> tick_differs (srt (v3Ticks w) ! i) (srt (v3Ticks v) ! i)" if "i < length (srt (v3Ticks w))" for i
    using assms(1) that by (auto simp: poolChanged_def Let_def list_ex_iff split: if_splits)
  moreover have "length (v3Ticks w) = length (v3Ticks v)" using assms(1) by (auto simp: poolChanged_def split: if_splits)
  ultimately show "srt (v3Ticks w) = srt (v3Ticks v)"
    by (intro nth_equalityI) (auto simp: len tick_differs_def intro!: TickInfo.equality)
qed

definition sorted_ticks :: "V3PoolView \<Rightarrow> bool" where
  "sorted_ticks p \<longleftrightarrow> sorted (map tiIndex (v3Ticks p)) \<and> distinct (map tiIndex (v3Ticks p))"

definition v3_static :: "'a PoolViewMinimal_scheme \<Rightarrow> uint64 \<times> uint64 \<times> uint64" where
  "v3_static v = (v3Token0 v, v3Token1 v, v3TickSpacing v)"

lemma poolChanged_eq:
  assumes "\<not> poolChanged srt w v" and "slice_sorter tiIndex srt" and "sorted_ticks w" and "sorted_ticks v"
    and "v3ID w = v3ID v" and "v3_static w = v3_static v"
  shows "w = v"
  using poolChanged_False [OF assms(1,2)] slice_sorter_sorted [OF assms(2)] assms(3-6)
  by (auto simp: sorted_ticks_def v3_static_def)

end
