(* ===== verification/State_Sync.thy ===== *)
theory State_Sync
  imports Token_System Pool_System Token_Pools_System UniswapV2_Registry UniswapV3_Registry
begin

text \<open>
  The engine state and its synchronisation: the types of \<^verbatim>\<open>src/engine/types.go\<close>, the state differ of
  \<^verbatim>\<open>src/differ\<close>, the state patcher of \<^verbatim>\<open>src/patcher\<close>, and the differ and patcher tables of
  \<^verbatim>\<open>src/streams/jsonrpc/stateops\<close> (the tables of the seven chains have the same text). A value of type \<^verbatim>\<open>any\<close> is the
  sum of the types the tables know; a failed type assertion, which panics in Go, is an error value.
  The iteration orders of all maps and the sorter are one record of choices.
\<close>

section \<open>Types\<close>

type_synonym ProtocolSchema = string
type_synonym EngineProtocolID = string

record ProtocolMeta =
  pmName :: string
  pmTags :: "string list"

datatype protocol_data =
    NoData
  | TokenData "TokenView list"
  | PoolData PoolRegistryView
  | GraphData "TokenPoolsRegistryView option"
  | V2Data "V2PoolView list"
  | V3Data "V3PoolView list"

datatype protocol_diff =
    TokenDiff TokenSystemDiff
  | PoolDiff PoolRegistryDiff
  | GraphDiff TokenPoolRegistryDiff
  | V2Diff UniswapV2SystemDiff
  | V3Diff UniswapV3SystemDiff

record ProtocolState =
  stMeta :: ProtocolMeta
  stSyncedBlockNumber :: "uint64 option"
  stSchema :: ProtocolSchema
  stData :: protocol_data
  stError :: string

record BlockSummary =
  bsNumber :: int
  bsHash :: "byte list"
  bsTimestamp :: uint64
  bsReceivedAt :: int
  bsGasUsed :: uint64
  bsGasLimit :: uint64
  bsStateRoot :: "byte list"
  bsTxHash :: "byte list"
  bsReceiptHash :: "byte list"

record EngineState =
  esChainID :: uint64
  esTimestamp :: uint64
  esBlock :: BlockSummary
  esProtocols :: "(EngineProtocolID, ProtocolState) gomap"

text \<open>\<^verbatim>\<open>Block.Number.Uint64()\<close>.\<close>

definition block_number :: "BlockSummary \<Rightarrow> uint64" where
  "block_number b = word_of_int (bsNumber b)"

definition HasErrors :: "EngineState \<Rightarrow> bool" where
  "HasErrors state \<longleftrightarrow> list_ex (\<lambda>(id, pr). stError pr \<noteq> '''') (esProtocols state)"

record ProtocolDiff =
  pdfMeta :: ProtocolMeta
  pdfSyncedBlockNumber :: "uint64 option"
  pdfSchema :: ProtocolSchema
  pdfData :: protocol_diff
  pdfError :: string

record StateDiff =
  sdTimestamp :: uint64
  sdFromBlock :: uint64
  sdToBlock :: BlockSummary
  sdProtocols :: "(EngineProtocolID, ProtocolDiff) gomap"

datatype sync_error =
    ErrViewWithError
  | ErrNotInOldState EngineProtocolID
  | ErrNoDiffer ProtocolSchema
  | ErrFromBlockMismatch uint64 uint64
  | ErrNoPatcher ProtocolSchema EngineProtocolID
  | ErrSchemaMismatch EngineProtocolID
  | PanicTypeAssertion

section \<open>\<^verbatim>\<open>stateops\<close>\<close>

definition TokenProtocolSchema :: ProtocolSchema where
  "TokenProtocolSchema = ''defistate/token-registry@v1''"

definition PoolProtocolSchema :: ProtocolSchema where
  "PoolProtocolSchema = ''defistate/pool-registry@v1''"

definition TokenPoolProtocolSchema :: ProtocolSchema where
  "TokenPoolProtocolSchema = ''defistate/token-pool-registry@v1''"

definition UniswapV2ProtocolSchema :: ProtocolSchema where
  "UniswapV2ProtocolSchema = ''defistate/uniswap-v2@v1''"

definition UniswapV3ProtocolSchema :: ProtocolSchema where
  "UniswapV3ProtocolSchema = ''defistate/uniswap-v3@v1''"

record sync_env =
  ordToken :: "(uint64, TokenView) range_order"
  ordPool :: "(uint64, PoolView) range_order"
  ordProto :: "(uint16, ProtocolID) range_order"
  ordV2 :: "(uint64, V2PoolView) range_order"
  ordV3 :: "(uint64, V3PoolView) range_order"
  srtTicks :: "TickInfo list \<Rightarrow> TickInfo list"
  ordStates :: "(EngineProtocolID, ProtocolState) range_order"
  ordDiffs :: "(EngineProtocolID, ProtocolDiff) range_order"

definition env_ok :: "sync_env \<Rightarrow> bool" where
  "env_ok e \<longleftrightarrow> range_order (ordToken e) \<and> range_order (ordPool e) \<and> range_order (ordProto e) \<and> range_order (ordV2 e) \<and>
     range_order (ordV3 e) \<and> slice_sorter tiIndex (srtTicks e) \<and> range_order (ordStates e) \<and> range_order (ordDiffs e)"

definition protocolDiffers :: "sync_env \<Rightarrow> ProtocolSchema \<Rightarrow> (protocol_data \<Rightarrow> protocol_data \<Rightarrow> sync_error + protocol_diff) option" where
  "protocolDiffers e schema =
     (if schema = TokenProtocolSchema then Some (\<lambda>old new. case (old, new) of
        (TokenData o1, TokenData n1) \<Rightarrow> Inr (TokenDiff (token_Differ (ordToken e) (ordToken e) o1 n1)) | _ \<Rightarrow> Inl PanicTypeAssertion)
      else if schema = PoolProtocolSchema then Some (\<lambda>old new. case (old, new) of
        (PoolData o1, PoolData n1) \<Rightarrow> Inr (PoolDiff (pool_Differ (ordPool e) (ordPool e) (ordProto e) (ordProto e) o1 n1)) | _ \<Rightarrow> Inl PanicTypeAssertion)
      else if schema = TokenPoolProtocolSchema then Some (\<lambda>old new. case (old, new) of
        (GraphData o1, GraphData n1) \<Rightarrow> Inr (GraphDiff \<lparr>gdData = n1\<rparr>) | _ \<Rightarrow> Inl PanicTypeAssertion)
      else if schema = UniswapV2ProtocolSchema then Some (\<lambda>old new. case (old, new) of
        (V2Data o1, V2Data n1) \<Rightarrow> Inr (V2Diff (v2_Differ (ordV2 e) (ordV2 e) o1 n1)) | _ \<Rightarrow> Inl PanicTypeAssertion)
      else if schema = UniswapV3ProtocolSchema then Some (\<lambda>old new. case (old, new) of
        (V3Data o1, V3Data n1) \<Rightarrow> Inr (V3Diff (v3_Differ (srtTicks e) (ordV3 e) (ordV3 e) o1 n1)) | _ \<Rightarrow> Inl PanicTypeAssertion)
      else None)"

definition protocolPatchers :: "sync_env \<Rightarrow> ProtocolSchema \<Rightarrow> (protocol_data \<Rightarrow> protocol_diff \<Rightarrow> sync_error + protocol_data) option" where
  "protocolPatchers e schema =
     (if schema = TokenProtocolSchema then Some (\<lambda>prev diff. case (prev, diff) of
        (TokenData p, TokenDiff d) \<Rightarrow> Inr (TokenData (token_Patcher (ordToken e) p d)) | _ \<Rightarrow> Inl PanicTypeAssertion)
      else if schema = PoolProtocolSchema then Some (\<lambda>prev diff. case (prev, diff) of
        (PoolData p, PoolDiff d) \<Rightarrow> Inr (PoolData (pool_Patcher (ordPool e) (ordProto e) p d)) | _ \<Rightarrow> Inl PanicTypeAssertion)
      else if schema = TokenPoolProtocolSchema then Some (\<lambda>prev diff. case (prev, diff) of
        (GraphData p, GraphDiff d) \<Rightarrow> Inr (GraphData (TokenPoolRegistryPatcher p d)) | _ \<Rightarrow> Inl PanicTypeAssertion)
      else if schema = UniswapV2ProtocolSchema then Some (\<lambda>prev diff. case (prev, diff) of
        (V2Data p, V2Diff d) \<Rightarrow> Inr (V2Data (v2_Patcher (ordV2 e) p d)) | _ \<Rightarrow> Inl PanicTypeAssertion)
      else if schema = UniswapV3ProtocolSchema then Some (\<lambda>prev diff. case (prev, diff) of
        (V3Data p, V3Diff d) \<Rightarrow> Inr (V3Data (v3_Patcher (ordV3 e) p d)) | _ \<Rightarrow> Inl PanicTypeAssertion)
      else None)"

section \<open>\<^verbatim>\<open>differ.go\<close>\<close>

text \<open>The loop of \<^verbatim>\<open>Diff\<close> over the protocols of the new state, which stops at the first error.\<close>

fun diff_loop ::
  "sync_env \<Rightarrow> (EngineProtocolID, ProtocolState) gomap \<Rightarrow> (EngineProtocolID, ProtocolState) gomap \<Rightarrow>
   (EngineProtocolID, ProtocolDiff) gomap \<Rightarrow> sync_error + (EngineProtocolID, ProtocolDiff) gomap" where
  "diff_loop e old [] protocolDiffs = Inr protocolDiffs"
| "diff_loop e old ((protocolID, newProtocolState) # es) protocolDiffs =
     (case map_of old protocolID of
        None \<Rightarrow> Inl (ErrNotInOldState protocolID)
      | Some oldProtocolState \<Rightarrow>
          (case protocolDiffers e (stSchema newProtocolState) of
             None \<Rightarrow> Inl (ErrNoDiffer (stSchema newProtocolState))
           | Some differFunc \<Rightarrow>
               bind_result (differFunc (stData oldProtocolState) (stData newProtocolState)) (\<lambda>diffData.
                 diff_loop e old es (AList.update protocolID
                   \<lparr>pdfMeta = stMeta newProtocolState, pdfSyncedBlockNumber = stSyncedBlockNumber newProtocolState,
                    pdfSchema = stSchema newProtocolState, pdfData = diffData, pdfError = ''''\<rparr> protocolDiffs))))"

definition StateDiffer_Diff :: "sync_env \<Rightarrow> uint64 \<Rightarrow> EngineState \<Rightarrow> EngineState \<Rightarrow> sync_error + StateDiff" where
  "StateDiffer_Diff e now old new =
     (if HasErrors old \<or> HasErrors new then Inl ErrViewWithError
      else bind_result (diff_loop e (esProtocols old) (ordStates e (esProtocols new)) []) (\<lambda>protocolDiffs.
        Inr \<lparr>sdTimestamp = now, sdFromBlock = block_number (esBlock old), sdToBlock = esBlock new, sdProtocols = protocolDiffs\<rparr>))"

section \<open>\<^verbatim>\<open>patcher.go\<close>\<close>

fun patch_loop ::
  "sync_env \<Rightarrow> (EngineProtocolID, ProtocolState) gomap \<Rightarrow> (EngineProtocolID, ProtocolDiff) gomap \<Rightarrow>
   (EngineProtocolID, ProtocolState) gomap \<Rightarrow> sync_error + (EngineProtocolID, ProtocolState) gomap" where
  "patch_loop e old [] newProtocols = Inr newProtocols"
| "patch_loop e old ((protocolID, protocolDiff) # es) newProtocols =
     (case protocolPatchers e (pdfSchema protocolDiff) of
        None \<Rightarrow> Inl (ErrNoPatcher (pdfSchema protocolDiff) protocolID)
      | Some patcherFunc \<Rightarrow>
          bind_result
            (case map_of old protocolID of
               None \<Rightarrow> Inr NoData
             | Some oldResult \<Rightarrow>
                 if stSchema oldResult \<noteq> pdfSchema protocolDiff then Inl (ErrSchemaMismatch protocolID) else Inr (stData oldResult))
            (\<lambda>oldData. bind_result (patcherFunc oldData (pdfData protocolDiff)) (\<lambda>newData.
              patch_loop e old es (AList.update protocolID
                \<lparr>stMeta = pdfMeta protocolDiff, stSyncedBlockNumber = pdfSyncedBlockNumber protocolDiff,
                 stSchema = pdfSchema protocolDiff, stData = newData, stError = pdfError protocolDiff\<rparr> newProtocols))))"

definition StatePatcher_Patch :: "sync_env \<Rightarrow> EngineState \<Rightarrow> StateDiff \<Rightarrow> sync_error + EngineState" where
  "StatePatcher_Patch e oldState diff =
     (if block_number (esBlock oldState) \<noteq> sdFromBlock diff
      then Inl (ErrFromBlockMismatch (block_number (esBlock oldState)) (sdFromBlock diff))
      else bind_result (patch_loop e (esProtocols oldState) (ordDiffs e (sdProtocols diff)) (esProtocols oldState)) (\<lambda>newProtocols.
        Inr \<lparr>esChainID = esChainID oldState, esTimestamp = sdTimestamp diff, esBlock = sdToBlock diff, esProtocols = newProtocols\<rparr>))"

section \<open>Equal views\<close>

text \<open>
  Two snapshots are the same for a subscriber when they hold the same identifiers, each once, with related
  values: the order of a patched list is that of a map iteration.
\<close>

definition view_eq :: "('v \<Rightarrow> 'k) \<Rightarrow> ('v \<Rightarrow> 'v \<Rightarrow> bool) \<Rightarrow> 'v list \<Rightarrow> 'v list \<Rightarrow> bool" where
  "view_eq vid R p q \<longleftrightarrow> distinct (map vid p) \<and> distinct (map vid q) \<and> (\<forall>k. rel_option R (keyed vid p k) (keyed vid q k))"

definition view_compat :: "('v \<Rightarrow> 'k) \<Rightarrow> ('v \<Rightarrow> 'v \<Rightarrow> bool) \<Rightarrow> ('v \<Rightarrow> 'v \<Rightarrow> bool) \<Rightarrow> 'v list \<Rightarrow> 'v list \<Rightarrow> bool" where
  "view_compat vid R changed old new \<longleftrightarrow> distinct (map vid old) \<and> distinct (map vid new) \<and>
     (\<forall>w \<in> set old. \<forall>v \<in> set new. vid w = vid v \<and> \<not> changed w v \<longrightarrow> R w v)"

lemma view_eq_refl: "reflp R \<Longrightarrow> distinct (map vid p) \<Longrightarrow> view_eq vid R p p"
  by (simp add: view_eq_def option.rel_reflp reflpD [OF option.rel_reflp])

lemma view_eq_mset: "view_eq vid (=) p q \<Longrightarrow> mset p = mset q"
proof -
  assume e: "view_eq vid (=) p q"
  then have d: "distinct (map vid p)" "distinct (map vid q)" and k: "keyed vid p = keyed vid q"
    by (auto simp: view_eq_def option.rel_eq)
  have "v \<in> set p \<longleftrightarrow> v \<in> set q" for v
    using keyed_Some_iff [OF d(1), of "vid v" v] keyed_Some_iff [OF d(2), of "vid v" v] k by simp
  then show ?thesis using d by (metis distinct_map set_eq_iff_mset_eq_distinct subsetI subset_antisym)
qed

context diff_patch
begin

lemma patch_differ_rel:
  assumes o: "range_order o1" "range_order o2" "range_order o3"
    and R: "reflp R" "transp R" and eq: "view_eq vid R prev old" and c: "view_compat vid R changed old new"
  shows "view_eq vid R (patcher o3 prev (differ o1 o2 old new)) new"
proof -
  let ?d = "differ o1 o2 old new"
  have d: "distinct (map vid prev)" "distinct (map vid old)" "distinct (map vid new)"
    using eq c by (simp_all add: view_eq_def view_compat_def)
  have r: "rel_option R (keyed vid prev k) (keyed vid old k)" for k using eq by (simp add: view_eq_def)
  have da: "distinct (map vid (rev (additions ?d)))" "distinct (map vid (rev (updates ?d)))"
    using differ_distinct [OF o(1,2) d(2,3)] by (simp_all flip: rev_map)
  have add: "keyed vid (rev (additions ?d)) k = (if keyed vid old k = None then keyed vid new k else None)" for k
  proof (rule option.expand)
    show "(keyed vid (rev (additions ?d)) k = None) = ((if keyed vid old k = None then keyed vid new k else None) = None)"
      by (auto simp: keyed_None_iff differ_additions [OF o(1,2) d(2,3)] image_iff) (metis+)?
    assume "keyed vid (rev (additions ?d)) k \<noteq> None"
    then obtain v where "keyed vid (rev (additions ?d)) k = Some v" by blast
    then show "the (keyed vid (rev (additions ?d)) k) = the (if keyed vid old k = None then keyed vid new k else None)"
      using keyed_Some_iff [OF da(1), of k v] keyed_Some_iff [OF d(3), of k v]
      by (auto simp: differ_additions [OF o(1,2) d(2,3)] keyed_None_iff)
  qed
  have upd: "keyed vid (rev (updates ?d)) k = Some v \<longleftrightarrow>
      keyed vid new k = Some v \<and> (\<exists>w. keyed vid old k = Some w \<and> changed w v)" for k v
    using da d by (auto simp: keyed_Some_iff differ_updates [OF o(1,2) d(2,3)])
  have del: "k \<in> set (deletions ?d) \<longleftrightarrow> keyed vid old k \<noteq> None \<and> keyed vid new k = None" for k
    by (auto simp: differ_deletions [OF o(1,2) d(2,3)] keyed_None_iff)
  note p = patcher_keyed [OF o(3) d(1), of ?d]
  have "rel_option R (keyed vid (patcher o3 prev ?d) k) (keyed vid new k)" for k
  proof (cases "keyed vid old k")
    case None
    then have "keyed vid prev k = None" using r [of k] by (simp add: option_rel_Some2)
    moreover have "keyed vid (rev (updates ?d)) k = None" using upd [of k] None by (metis option.distinct(1) option.exhaust)
    ultimately show ?thesis using add [of k] None reflpD [OF R(1)]
      by (cases "keyed vid new k") (simp_all add: p map_add_def restrict_map_def)
  next
    case (Some w)
    then obtain x where x: "keyed vid prev k = Some x" "R x w" using r [of k] by (auto simp: option_rel_Some2)
    have a: "keyed vid (rev (additions ?d)) k = None" using add [of k] Some by simp
    show ?thesis
    proof (cases "keyed vid new k")
      case None
      then have "keyed vid (rev (updates ?d)) k = None" using upd [of k] by (metis option.distinct(1) option.exhaust)
      then show ?thesis using None a Some del [of k] by (simp add: p map_add_def restrict_map_def)
    next
      case new: (Some v)
      have kv: "w \<in> set old" "v \<in> set new" "vid w = vid v" using keyed_SomeD [OF Some] keyed_SomeD [OF new] by simp_all
      have "R x v" if "\<not> changed w v" using that kv c x(2) R(2) by (auto simp: view_compat_def dest: transpD)
      moreover have "keyed vid (rev (updates ?d)) k = (if changed w v then Some v else None)"
        using upd [of k] Some new by (metis option.exhaust option.inject)
      ultimately show ?thesis using a new x(1) del [of k] reflpD [OF R(1)] by (simp add: p map_add_def restrict_map_def)
    qed
  qed
  then show ?thesis using patcher_distinct [OF o(3)] d(3) by (simp add: view_eq_def)
qed

end

lemma reflp_token_same: "reflp token_same"
  by (simp add: reflp_def token_same_def)

lemma transp_token_same: "transp token_same"
proof (rule transpI)
  fix x y z
  assume "token_same x y" "token_same y z"
  then show "token_same x z"
    by (cases x; cases y; cases z) (auto simp: token_same_def)
qed

lemma map_of_patchProtocols_cong:
  "map_of prev = map_of old \<Longrightarrow> map_of (patchProtocols ord prev d) = map_of (patchProtocols ord old d)"
  unfolding patchProtocols_def map_of_foldl_pairs map_of_foldl_delete by simp

section \<open>Equal states\<close>

fun data_eq :: "protocol_data \<Rightarrow> protocol_data \<Rightarrow> bool" where
  "data_eq (TokenData p) (TokenData q) = view_eq tvID token_same p q"
| "data_eq (PoolData p) (PoolData q) = (view_eq pvID (=) (prvPools p) (prvPools q) \<and> map_of (prvProtocols p) = map_of (prvProtocols q))"
| "data_eq (GraphData p) (GraphData q) = (p = q)"
| "data_eq (V2Data p) (V2Data q) = view_eq v2ID (=) p q"
| "data_eq (V3Data p) (V3Data q) = view_eq v3ID (=) p q"
| "data_eq _ _ = False"

text \<open>Data of two successive states of a protocol: what its differ regards as unchanged is the same.\<close>

fun data_compat :: "sync_env \<Rightarrow> ProtocolSchema \<Rightarrow> protocol_data \<Rightarrow> protocol_data \<Rightarrow> bool" where
  "data_compat e s (TokenData p) (TokenData q) = (s = TokenProtocolSchema \<and> view_compat tvID token_same token_changed p q)"
| "data_compat e s (PoolData p) (PoolData q) = (s = PoolProtocolSchema \<and> view_compat pvID (=) (\<lambda>_ _. False) (prvPools p) (prvPools q) \<and>
     distinct (map fst (prvProtocols p)) \<and> distinct (map fst (prvProtocols q)))"
| "data_compat e s (GraphData p) (GraphData q) = (s = TokenPoolProtocolSchema)"
| "data_compat e s (V2Data p) (V2Data q) = (s = UniswapV2ProtocolSchema \<and> view_compat v2ID (=) v2_changed p q)"
| "data_compat e s (V3Data p) (V3Data q) = (s = UniswapV3ProtocolSchema \<and> view_compat v3ID (=) (poolChanged (srtTicks e)) p q)"
| "data_compat e s _ _ = False"

lemmas schema_defs = TokenProtocolSchema_def PoolProtocolSchema_def TokenPoolProtocolSchema_def UniswapV2ProtocolSchema_def
  UniswapV3ProtocolSchema_def

lemma schemas_distinct:
  "TokenProtocolSchema \<noteq> PoolProtocolSchema"
  "TokenProtocolSchema \<noteq> TokenPoolProtocolSchema"
  "TokenProtocolSchema \<noteq> UniswapV2ProtocolSchema"
  "TokenProtocolSchema \<noteq> UniswapV3ProtocolSchema"
  "PoolProtocolSchema \<noteq> TokenProtocolSchema"
  "PoolProtocolSchema \<noteq> TokenPoolProtocolSchema"
  "PoolProtocolSchema \<noteq> UniswapV2ProtocolSchema"
  "PoolProtocolSchema \<noteq> UniswapV3ProtocolSchema"
  "TokenPoolProtocolSchema \<noteq> TokenProtocolSchema"
  "TokenPoolProtocolSchema \<noteq> PoolProtocolSchema"
  "TokenPoolProtocolSchema \<noteq> UniswapV2ProtocolSchema"
  "TokenPoolProtocolSchema \<noteq> UniswapV3ProtocolSchema"
  "UniswapV2ProtocolSchema \<noteq> TokenProtocolSchema"
  "UniswapV2ProtocolSchema \<noteq> PoolProtocolSchema"
  "UniswapV2ProtocolSchema \<noteq> TokenPoolProtocolSchema"
  "UniswapV2ProtocolSchema \<noteq> UniswapV3ProtocolSchema"
  "UniswapV3ProtocolSchema \<noteq> TokenProtocolSchema"
  "UniswapV3ProtocolSchema \<noteq> PoolProtocolSchema"
  "UniswapV3ProtocolSchema \<noteq> TokenPoolProtocolSchema"
  "UniswapV3ProtocolSchema \<noteq> UniswapV2ProtocolSchema"
  by (simp_all add: schema_defs)

lemma data_patch_diff:
  assumes env: "env_ok e" "env_ok e'" and c: "data_compat e s old new" and eq: "data_eq prev old"
  shows "\<exists>df pf d n. protocolDiffers e s = Some df \<and> protocolPatchers e' s = Some pf \<and> df old new = Inr d \<and> pf prev d = Inr n \<and> data_eq n new"
proof -
  note o = env [unfolded env_ok_def]
  show ?thesis
    using c
  proof (cases rule: data_compat.elims(2))
    case (1 s0 q p)
    then obtain x where x: "prev = TokenData x" "view_eq tvID token_same x q" using eq by (cases prev) simp_all
    have "view_eq tvID token_same (token_Patcher (ordToken e') x (token_Differ (ordToken e) (ordToken e) q p)) p"
      by (rule token_diff.patch_differ_rel [OF _ _ _ reflp_token_same transp_token_same x(2)]) (use o 1 in simp_all)
    then show ?thesis using 1 x(1) by (simp add: schemas_distinct protocolDiffers_def protocolPatchers_def)
  next
    case (2 s0 q p)
    then obtain x where x: "prev = PoolData x" "view_eq pvID (=) (prvPools x) (prvPools q)" "map_of (prvProtocols x) = map_of (prvProtocols q)"
      using eq by (cases prev) simp_all
    have "view_eq pvID (=) (patchPools (ordPool e') (prvPools x) (diffPools (ordPool e) (ordPool e) (prvPools q) (prvPools p))) (prvPools p)"
      by (rule pool_diff.patch_differ_rel [OF _ _ _ _ _ x(2)]) (use o 2 in simp_all)
    moreover have "map_of (patchProtocols (ordProto e') (prvProtocols x) (diffProtocols (ordProto e) (ordProto e) (prvProtocols q) (prvProtocols p))) =
        map_of (prvProtocols p)"
      unfolding map_of_patchProtocols_cong [OF x(3)]
      by (rule patchProtocols_diffProtocols) (use o 2 in simp_all)
    ultimately show ?thesis using 2 x(1)
      by (simp add: schemas_distinct protocolDiffers_def protocolPatchers_def pool_Differ_def pool_Patcher_def case_prod_beta)
  next
    case (3 s0 q p)
    then obtain x where "prev = GraphData x" using eq by (cases prev) simp_all
    moreover have "deepCopyView p = p" by (cases p) (simp_all add: deepCopyView_def)
    ultimately show ?thesis using 3
      by (simp add: schemas_distinct protocolDiffers_def protocolPatchers_def TokenPoolRegistryPatcher_def)
  next
    case (4 s0 q p)
    then obtain x where x: "prev = V2Data x" "view_eq v2ID (=) x q" using eq by (cases prev) simp_all
    have "view_eq v2ID (=) (v2_Patcher (ordV2 e') x (v2_Differ (ordV2 e) (ordV2 e) q p)) p"
      by (rule v2_diff.patch_differ_rel [OF _ _ _ _ _ x(2)]) (use o 4 in simp_all)
    then show ?thesis using 4 x(1) by (simp add: schemas_distinct protocolDiffers_def protocolPatchers_def)
  next
    case (5 s0 q p)
    then obtain x where x: "prev = V3Data x" "view_eq v3ID (=) x q" using eq by (cases prev) simp_all
    have "view_eq v3ID (=) (v3_Patcher (ordV3 e') x (v3_Differ (srtTicks e) (ordV3 e) (ordV3 e) q p)) p"
      by (rule v3_diff.patch_differ_rel [OF _ _ _ _ _ x(2)]) (use o 5 in simp_all)
    then show ?thesis using 5 x(1) by (simp add: schemas_distinct protocolDiffers_def protocolPatchers_def)
  qed
qed

text \<open>Two states equal for a subscriber: the time at which a state was made is not compared.\<close>

definition protocol_eq :: "ProtocolState \<Rightarrow> ProtocolState \<Rightarrow> bool" where
  "protocol_eq a b \<longleftrightarrow> stMeta a = stMeta b \<and> stSyncedBlockNumber a = stSyncedBlockNumber b \<and> stSchema a = stSchema b \<and>
     stError a = stError b \<and> data_eq (stData a) (stData b)"

definition state_eq :: "EngineState \<Rightarrow> EngineState \<Rightarrow> bool" where
  "state_eq a b \<longleftrightarrow> esChainID a = esChainID b \<and> esBlock a = esBlock b \<and>
     (\<forall>i. rel_option protocol_eq (map_of (esProtocols a) i) (map_of (esProtocols b) i))"

definition state_compat :: "sync_env \<Rightarrow> EngineState \<Rightarrow> EngineState \<Rightarrow> bool" where
  "state_compat e old new \<longleftrightarrow> esChainID old = esChainID new \<and> \<not> HasErrors old \<and> \<not> HasErrors new \<and>
     distinct (map fst (esProtocols new)) \<and> dom (map_of (esProtocols old)) = dom (map_of (esProtocols new)) \<and>
     (\<forall>(i, n) \<in> set (esProtocols new). \<forall>m. map_of (esProtocols old) i = Some m \<longrightarrow>
        stSchema m = stSchema n \<and> data_compat e (stSchema n) (stData m) (stData n))"

text \<open>The entry the differ makes for one protocol, and the one the patcher makes.\<close>

definition entry_diff :: "ProtocolState \<Rightarrow> protocol_diff \<Rightarrow> ProtocolDiff" where
  "entry_diff n dd = \<lparr>pdfMeta = stMeta n, pdfSyncedBlockNumber = stSyncedBlockNumber n, pdfSchema = stSchema n, pdfData = dd, pdfError = ''''\<rparr>"

definition entry_patch :: "ProtocolDiff \<Rightarrow> protocol_data \<Rightarrow> ProtocolState" where
  "entry_patch d x = \<lparr>stMeta = pdfMeta d, stSyncedBlockNumber = pdfSyncedBlockNumber d, stSchema = pdfSchema d, stData = x, stError = pdfError d\<rparr>"

lemma diff_loop_ok:
  assumes "distinct (map fst es)" and "distinct (map fst acc)"
    and "\<And>i n. (i, n) \<in> set es \<Longrightarrow> \<exists>m df. map_of old i = Some m \<and> protocolDiffers e (stSchema n) = Some df \<and> df (stData m) (stData n) = Inr (dd i)"
  shows "\<exists>ds. diff_loop e old es acc = Inr ds \<and> distinct (map fst ds) \<and>
     (\<forall>i. map_of ds i = (case map_of es i of None \<Rightarrow> map_of acc i | Some n \<Rightarrow> Some (entry_diff n (dd i))))"
  using assms
proof (induction es arbitrary: acc)
  case (Cons x es)
  obtain i n where x: "x = (i, n)" by (cases x)
  obtain m df where m: "map_of old i = Some m" "protocolDiffers e (stSchema n) = Some df" "df (stData m) (stData n) = Inr (dd i)"
    using Cons.prems(3) [of i n] x by auto
  let ?acc = "AList.update i (entry_diff n (dd i)) acc"
  have "distinct (map fst ?acc)" using Cons.prems(2) by (rule distinct_update)
  then obtain ds where ds: "diff_loop e old es ?acc = Inr ds" "distinct (map fst ds)"
      "\<And>j. map_of ds j = (case map_of es j of None \<Rightarrow> map_of ?acc j | Some n \<Rightarrow> Some (entry_diff n (dd j)))"
    using Cons.IH [of ?acc] Cons.prems by auto
  have "map_of es i = None" using Cons.prems(1) x by (simp add: map_of_eq_None_iff)
  moreover have "diff_loop e old (x # es) acc = Inr ds" using m ds(1) by (simp add: x entry_diff_def)
  ultimately show ?case using ds by (intro exI [of _ ds]) (auto simp: x update_conv' split: option.splits)
qed simp

lemma patch_loop_ok:
  assumes "distinct (map fst es)"
    and "\<And>i d. (i, d) \<in> set es \<Longrightarrow> \<exists>m pf. map_of old i = Some m \<and> stSchema m = pdfSchema d \<and>
       protocolPatchers e (pdfSchema d) = Some pf \<and> pf (stData m) (pdfData d) = Inr (nd i)"
  shows "\<exists>ps. patch_loop e old es acc = Inr ps \<and>
     (\<forall>i. map_of ps i = (case map_of es i of None \<Rightarrow> map_of acc i | Some d \<Rightarrow> Some (entry_patch d (nd i))))"
  using assms
proof (induction es arbitrary: acc)
  case (Cons x es)
  obtain i d where x: "x = (i, d)" by (cases x)
  obtain m pf where m: "map_of old i = Some m" "stSchema m = pdfSchema d" "protocolPatchers e (pdfSchema d) = Some pf"
      "pf (stData m) (pdfData d) = Inr (nd i)"
    using Cons.prems(2) [of i d] x by auto
  let ?acc = "AList.update i (entry_patch d (nd i)) acc"
  obtain ps where ps: "patch_loop e old es ?acc = Inr ps"
      "\<And>j. map_of ps j = (case map_of es j of None \<Rightarrow> map_of ?acc j | Some d \<Rightarrow> Some (entry_patch d (nd j)))"
    using Cons.IH [of ?acc] Cons.prems by auto
  have "map_of es i = None" using Cons.prems(1) x by (simp add: map_of_eq_None_iff)
  moreover have "patch_loop e old (x # es) acc = Inr ps" using m ps(1) by (simp add: x entry_patch_def)
  ultimately show ?case using ps by (intro exI [of _ ps]) (auto simp: x update_conv' split: option.splits)
qed simp

lemma state_patch_diff_step:
  assumes env: "env_ok e" "env_ok e'" and c: "state_compat e old new" and eq: "state_eq client old"
    and n: "map_of (esProtocols new) i = Some n"
  shows "\<exists>d x m p df pf. map_of (esProtocols old) i = Some m \<and> map_of (esProtocols client) i = Some p \<and> stSchema p = stSchema n \<and>
     protocolDiffers e (stSchema n) = Some df \<and> df (stData m) (stData n) = Inr d \<and>
     protocolPatchers e' (stSchema n) = Some pf \<and> pf (stData p) d = Inr x \<and> data_eq x (stData n)"
proof -
  obtain m where m: "map_of (esProtocols old) i = Some m" using c domI [of "map_of (esProtocols new)", OF n] unfolding state_compat_def by (metis domD)
  obtain p where p: "map_of (esProtocols client) i = Some p" "protocol_eq p m"
    using eq m by (metis option_rel_Some2 state_eq_def)
  have s: "stSchema m = stSchema n" "data_compat e (stSchema n) (stData m) (stData n)"
    using c m map_of_SomeD [OF n] by (auto simp: state_compat_def)
  have "data_eq (stData p) (stData m)" "stSchema p = stSchema n" using p(2) s(1) by (simp_all add: protocol_eq_def)
  with data_patch_diff [OF env s(2)] m p(1) show ?thesis by metis
qed

lemma state_patch_diff_gen:
  assumes env: "env_ok e" "env_ok e'" and c: "state_compat e old new" and eq: "state_eq client old"
  shows "\<exists>ds. StateDiffer_Diff e now old new = Inr \<lparr>sdTimestamp = now, sdFromBlock = block_number (esBlock old), sdToBlock = esBlock new, sdProtocols = ds\<rparr> \<and>
     distinct (map fst ds) \<and>
     (\<forall>(i, x) \<in> set ds. \<exists>m n df. map_of (esProtocols old) i = Some m \<and> (i, n) \<in> set (esProtocols new) \<and> protocolDiffers e (stSchema n) = Some df \<and>
        df (stData m) (stData n) = Inr (pdfData x) \<and> x = entry_diff n (pdfData x)) \<and>
     (\<forall>ds'. distinct (map fst ds') \<and> map_of ds' = map_of ds \<longrightarrow>
        (\<exists>client'. StatePatcher_Patch e' client \<lparr>sdTimestamp = now, sdFromBlock = block_number (esBlock old), sdToBlock = esBlock new, sdProtocols = ds'\<rparr> = Inr client' \<and>
           state_eq client' new))"
proof -
  define P where "P i d x \<longleftrightarrow> (\<exists>n m p df pf. map_of (esProtocols new) i = Some n \<and> map_of (esProtocols old) i = Some m \<and>
     map_of (esProtocols client) i = Some p \<and> stSchema p = stSchema n \<and>
     protocolDiffers e (stSchema n) = Some df \<and> df (stData m) (stData n) = Inr d \<and>
     protocolPatchers e' (stSchema n) = Some pf \<and> pf (stData p) d = Inr x \<and> data_eq x (stData n))" for i d x
  have "\<forall>i \<in> dom (map_of (esProtocols new)). \<exists>y. P i (fst y) (snd y)"
    using state_patch_diff_step [OF env c eq] by (fastforce simp: P_def)
  from bchoice [OF this] obtain y where y: "\<And>i n. map_of (esProtocols new) i = Some n \<Longrightarrow> P i (fst (y i)) (snd (y i))" by blast
  let ?es = "ordStates e (esProtocols new)"
  have dist: "distinct (map fst (esProtocols new))" and dom: "dom (map_of (esProtocols old)) = dom (map_of (esProtocols new))" and err: "\<not> HasErrors old" "\<not> HasErrors new"
    using c by (simp_all add: state_compat_def)
  have o: "range_order (ordStates e)" "range_order (ordDiffs e')" using env by (simp_all add: env_ok_def)
  have es: "distinct (map fst ?es)" "map_of ?es = map_of (esProtocols new)"
    using o(1) dist by (simp_all add: range_order_distinct range_order_map_of)
  obtain ds where ds: "diff_loop e (esProtocols old) ?es [] = Inr ds" "distinct (map fst ds)"
      "\<And>i. map_of ds i = (case map_of (esProtocols new) i of None \<Rightarrow> None | Some n \<Rightarrow> Some (entry_diff n (fst (y i))))"
  proof -
    have "\<exists>m df. map_of (esProtocols old) i = Some m \<and> protocolDiffers e (stSchema n) = Some df \<and> df (stData m) (stData n) = Inr ((fst \<circ> y) i)"
      if "(i, n) \<in> set ?es" for i n
    proof -
      have "map_of (esProtocols new) i = Some n" using that dist o(1) by (simp add: range_order_set)
      from y [OF this] this show ?thesis by (auto simp: P_def)
    qed
    from diff_loop_ok [OF es(1) _ this, of "[]"] that show thesis unfolding es(2) comp_def map_of.simps by auto
  qed
  have entries: "\<exists>m n df. map_of (esProtocols old) i = Some m \<and> (i, n) \<in> set (esProtocols new) \<and> protocolDiffers e (stSchema n) = Some df \<and>
      df (stData m) (stData n) = Inr (pdfData x) \<and> x = entry_diff n (pdfData x)" if "(i, x) \<in> set ds" for i x
  proof -
    have "map_of ds i = Some x" using that ds(2) by simp
    then obtain n where n: "map_of (esProtocols new) i = Some n" "x = entry_diff n (fst (y i))" unfolding ds(3) by (auto split: option.splits)
    with y [of i n] map_of_SomeD [OF n(1)] show ?thesis by (auto simp: P_def entry_diff_def)
  qed
  have patch: "\<exists>client'. StatePatcher_Patch e' client \<lparr>sdTimestamp = now, sdFromBlock = block_number (esBlock old), sdToBlock = esBlock new, sdProtocols = ds'\<rparr> = Inr client' \<and>
           state_eq client' new" if ds': "distinct (map fst ds')" "map_of ds' = map_of ds" for ds'
  proof -
    let ?ds = "ordDiffs e' ds'"
    have dd: "distinct (map fst ?ds)" "map_of ?ds = map_of ds" using o(2) ds' by (simp_all add: range_order_distinct range_order_map_of)
    obtain ps where ps: "patch_loop e' (esProtocols client) ?ds (esProtocols client) = Inr ps"
        "\<And>i. map_of ps i = (case map_of ds i of None \<Rightarrow> map_of (esProtocols client) i | Some d \<Rightarrow> Some (entry_patch d (snd (y i))))"
    proof -
      have "\<exists>m pf. map_of (esProtocols client) i = Some m \<and> stSchema m = pdfSchema d \<and> protocolPatchers e' (pdfSchema d) = Some pf \<and>
          pf (stData m) (pdfData d) = Inr ((snd \<circ> y) i)" if "(i, d) \<in> set ?ds" for i d
      proof -
        have "map_of ds i = Some d" using that ds' o(2) by (simp add: range_order_set flip: ds'(2))
        then obtain n where "map_of (esProtocols new) i = Some n" "d = entry_diff n (fst (y i))"
          unfolding ds(3) by (auto split: option.splits)
        then show ?thesis using y [of i n] by (auto simp: P_def entry_diff_def)
      qed
      from patch_loop_ok [OF dd(1) this, of "esProtocols client"] that show thesis unfolding dd(2) comp_def by auto
    qed
    have "rel_option protocol_eq (map_of ps i) (map_of (esProtocols new) i)" for i
    proof (cases "map_of (esProtocols new) i")
      case None
      then have "map_of (esProtocols old) i = None" using domIff [of i "map_of (esProtocols old)"] domIff [of i "map_of (esProtocols new)"] dom by simp
      then have "map_of (esProtocols client) i = None" using spec [OF eq [unfolded state_eq_def, THEN conjunct2, THEN conjunct2], of i]
        by (cases "map_of (esProtocols client) i") simp_all
      then show ?thesis using None ps(2) [of i] ds(3) [of i] by simp
    next
      case (Some n)
      have "stError n = ''''" using err(2) map_of_SomeD [OF Some] by (auto simp: HasErrors_def list_ex_iff)
      moreover have "data_eq (snd (y i)) (stData n)" using y [OF Some] Some by (auto simp: P_def)
      ultimately show ?thesis using Some ps(2) [of i] ds(3) [of i] by (simp add: protocol_eq_def entry_patch_def entry_diff_def)
    qed
    then have "state_eq \<lparr>esChainID = esChainID client, esTimestamp = now, esBlock = esBlock new, esProtocols = ps\<rparr> new"
      using c eq by (simp add: state_eq_def state_compat_def)
    moreover have "esBlock client = esBlock old" using eq by (simp add: state_eq_def)
    ultimately show ?thesis using ps(1) by (simp add: StatePatcher_Patch_def)
  qed
  show ?thesis using err ds(1,2) entries patch by (intro exI [of _ ds]) (auto simp: StateDiffer_Diff_def)
qed

text \<open>
  C5: For two successive states of the engine over the same protocols, neither with an error, the state differ returns a diff,
  and the state patcher turns every state a subscriber may hold for the older one into one equal to the newer one: same
  chain, same block, and under each protocol the same metadata, schema and data, whatever the iteration orders of the maps
  on either side.
\<close>

theorem state_patch_diff:
  assumes "env_ok e" "env_ok e'" and "state_compat e old new" and "state_eq client old"
  shows "\<exists>d client'. StateDiffer_Diff e now old new = Inr d \<and> StatePatcher_Patch e' client d = Inr client' \<and> state_eq client' new"
  using state_patch_diff_gen [OF assms] by blast

definition wit_env :: sync_env where
  "wit_env = \<lparr>ordToken = rev, ordPool = rev, ordProto = rev, ordV2 = rev, ordV3 = rev, srtTicks = sort_key tiIndex, ordStates = rev, ordDiffs = rev\<rparr>"

definition wit_block :: "int \<Rightarrow> BlockSummary" where
  "wit_block n = \<lparr>bsNumber = n, bsHash = [1], bsTimestamp = 5, bsReceivedAt = 6, bsGasUsed = 7, bsGasLimit = 8, bsStateRoot = [2], bsTxHash = [3], bsReceiptHash = [4]\<rparr>"

definition wit_pool :: "uint64 \<Rightarrow> int \<Rightarrow> V2PoolView" where
  "wit_pool i a = \<lparr>v2ID = i, v2Token0 = 1, v2Token1 = 2, v2Reserve0 = a, v2Reserve1 = 9, v2Type = 0, v2FeeBps = 30\<rparr>"

definition wit_state :: "int \<Rightarrow> V2PoolView list \<Rightarrow> EngineState" where
  "wit_state n ps = \<lparr>esChainID = 1, esTimestamp = 0, esBlock = wit_block n, esProtocols =
     [(''g'', \<lparr>stMeta = \<lparr>pmName = ''graph'', pmTags = []\<rparr>, stSyncedBlockNumber = None, stSchema = TokenPoolProtocolSchema, stData = GraphData None, stError = ''''\<rparr>),
      (''u'', \<lparr>stMeta = \<lparr>pmName = ''univ2'', pmTags = []\<rparr>, stSyncedBlockNumber = Some (word_of_int n), stSchema = UniswapV2ProtocolSchema, stData = V2Data ps, stError = ''''\<rparr>)]\<rparr>"

lemma env_ok_wit: "env_ok wit_env"
  by (simp add: env_ok_def wit_env_def slice_sorter_sort_key)

lemma state_eq_refl:
  assumes "\<And>i p. map_of (esProtocols s) i = Some p \<Longrightarrow> data_eq (stData p) (stData p)"
  shows "state_eq s s"
  unfolding state_eq_def
proof (intro conjI allI)
  fix i show "rel_option protocol_eq (map_of (esProtocols s) i) (map_of (esProtocols s) i)"
    using assms [of i] by (cases "map_of (esProtocols s) i") (simp_all add: protocol_eq_def)
qed simp_all

lemma view_compat_v2I:
  assumes "distinct (map v2ID p)" and "distinct (map v2ID q)"
    and "\<And>w v. w \<in> set p \<Longrightarrow> v \<in> set q \<Longrightarrow> v2ID w = v2ID v \<Longrightarrow> \<not> v2_changed w v \<Longrightarrow> w = v"
  shows "view_compat v2ID (=) v2_changed p q"
  using assms by (simp add: view_compat_def)

theorem state_patch_diff_witness:
  "\<exists>d client'. StateDiffer_Diff wit_env 77 (wit_state 100 [wit_pool 4 10]) (wit_state 101 [wit_pool 5 3, wit_pool 4 20]) = Inr d \<and>
     StatePatcher_Patch wit_env (wit_state 100 [wit_pool 4 10]) d = Inr client' \<and> state_eq client' (wit_state 101 [wit_pool 5 3, wit_pool 4 20])"
proof (rule state_patch_diff [OF env_ok_wit env_ok_wit])
  show "state_compat wit_env (wit_state 100 [wit_pool 4 10]) (wit_state 101 [wit_pool 5 3, wit_pool 4 20])"
    by (auto simp: state_compat_def wit_state_def HasErrors_def wit_pool_def v2_changed_def intro!: view_compat_v2I)
  show "state_eq (wit_state 100 [wit_pool 4 10]) (wit_state 100 [wit_pool 4 10])"
    by (rule state_eq_refl) (auto simp: wit_state_def wit_pool_def intro!: view_eq_refl split: if_splits)
qed

text \<open>Every patcher of the tables panics on a protocol the old state does not have.\<close>

lemma patchers_refuse_nil: "protocolPatchers e schema = Some pf \<Longrightarrow> pf NoData d = Inl PanicTypeAssertion"
  by (auto simp: protocolPatchers_def split: if_splits)

end
