(* ===== verification/Engine.thy ===== *)
theory Engine
  imports State_Sync
begin

text \<open>
  The state engine (\<^verbatim>\<open>src/engine/engine.go\<close>): the validation of its configuration, the state it builds for a block from the
  protocols it polls, the wait for the synchronised ones, and its pipeline, as a step relation over the goroutines of the
  event loop, the broadcaster, the initial sends and the consumers. A protocol is a handle of any type, with a function that
  says what its interface returns at the time of the calls; a block is the part of a \<^verbatim>\<open>types.Block\<close> that is read.
\<close>

section \<open>Configuration\<close>

record Block =
  blNumber :: int
  blHash :: "byte list"
  blTime :: uint64
  blGasUsed :: uint64
  blGasLimit :: uint64
  blRoot :: "byte list"
  blTxHash :: "byte list"
  blReceiptHash :: "byte list"

definition NumberU64 :: "Block \<Rightarrow> uint64" where
  "NumberU64 b = word_of_int (blNumber b)"

record protocol_obs =
  obMeta :: ProtocolMeta
  obView :: "string + protocol_data \<times> ProtocolSchema"
  obSchema :: ProtocolSchema
  obLastUpdatedAtBlock :: uint64

text \<open>The maps of the configuration may hold nil.\<close>

record 'h EngineConfig =
  ecChainID :: "int option"
  ecNewBlockEventer :: bool
  ecRegistry :: bool
  ecProtocols :: "(EngineProtocolID, 'h option) gomap"
  ecBlockSynchronizedProtocols :: "(EngineProtocolID, 'h option) gomap"
  ecPollSyncInterval :: int
  ecMaxWaitUntilSync :: int
  ecBlockQueueSize :: int

datatype config_error =
    CfgChainIDNil
  | CfgNewBlockEventerNil
  | CfgRegistryNil
  | CfgProtocolNil EngineProtocolID
  | CfgBlockSynchronizedProtocolNil EngineProtocolID
  | CfgProtocolInBoth EngineProtocolID

fun validate_protocols :: "(EngineProtocolID \<times> 'h option) list \<Rightarrow> config_error + unit" where
  "validate_protocols [] = Inr ()"
| "validate_protocols ((pid, p) # ps) = (if p = None then Inl (CfgProtocolNil pid) else validate_protocols ps)"

fun validate_synchronized ::
  "(EngineProtocolID, 'h option) gomap \<Rightarrow> (EngineProtocolID \<times> 'h option) list \<Rightarrow> config_error + unit" where
  "validate_synchronized protocols [] = Inr ()"
| "validate_synchronized protocols ((pid, p) # ps) =
     (if p = None then Inl (CfgBlockSynchronizedProtocolNil pid)
      else if map_of protocols pid \<noteq> None then Inl (CfgProtocolInBoth pid)
      else validate_synchronized protocols ps)"

definition engine_validate :: "(EngineProtocolID, 'h option) range_order \<Rightarrow> ('h, 'x) EngineConfig_scheme \<Rightarrow> config_error + unit" where
  "engine_validate ord cfg =
     (if ecChainID cfg = None then Inl CfgChainIDNil
      else if \<not> ecNewBlockEventer cfg then Inl CfgNewBlockEventerNil
      else if \<not> ecRegistry cfg then Inl CfgRegistryNil
      else bind_result (validate_protocols (ord (ecProtocols cfg))) (\<lambda>_.
        validate_synchronized (ecProtocols cfg) (ord (ecBlockSynchronizedProtocols cfg))))"

definition DefaultBlockQueueSize :: int where "DefaultBlockQueueSize = 100"
definition DefaultPollSyncInterval :: int where "DefaultPollSyncInterval = 100000000"
definition DefaultMaxWaitUntilSync :: int where "DefaultMaxWaitUntilSync = 500000000"
definition DefaultSubscriptionChanBuffer :: nat where "DefaultSubscriptionChanBuffer = 10"

text \<open>The fields of the engine that stay as they are after construction.\<close>

record 'h Engine =
  enChainID :: int
  enPollSyncInterval :: int
  enMaxWaitUntilSync :: int
  enQueueSize :: int
  enProtocols :: "(EngineProtocolID, 'h) gomap"
  enBlockSynchronizedProtocols :: "(EngineProtocolID, 'h) gomap"

fun copy_protocols ::
  "(EngineProtocolID \<times> 'h option) list \<Rightarrow> (EngineProtocolID, 'h) gomap \<Rightarrow>
   config_error + (EngineProtocolID, 'h) gomap" where
  "copy_protocols [] acc = Inr acc"
| "copy_protocols ((protocolID, None) # ps) acc = Inl (CfgProtocolNil protocolID)"
| "copy_protocols ((protocolID, Some protocol) # ps) acc = copy_protocols ps (AList.update protocolID protocol acc)"

definition NewEngine :: "(EngineProtocolID, 'h option) range_order \<Rightarrow> ('h, 'x) EngineConfig_scheme \<Rightarrow> config_error + 'h Engine" where
  "NewEngine ord cfg = bind_result (engine_validate ord cfg) (\<lambda>_.
     bind_result (copy_protocols (ord (ecProtocols cfg)) []) (\<lambda>protocols.
     bind_result (copy_protocols (ord (ecBlockSynchronizedProtocols cfg)) []) (\<lambda>blockSynchronizedProtocols.
       Inr \<lparr>enChainID = the (ecChainID cfg),
            enPollSyncInterval = (if ecPollSyncInterval cfg \<le> 0 then DefaultPollSyncInterval else ecPollSyncInterval cfg),
            enMaxWaitUntilSync = (if ecMaxWaitUntilSync cfg \<le> 0 then DefaultMaxWaitUntilSync else ecMaxWaitUntilSync cfg),
            enQueueSize = (if ecBlockQueueSize cfg \<le> 0 then DefaultBlockQueueSize else ecBlockQueueSize cfg),
            enProtocols = protocols, enBlockSynchronizedProtocols = blockSynchronizedProtocols\<rparr>)))"

section \<open>Building a state\<close>

text \<open>The body of the loop over the protocols that do not know their block.\<close>

definition protocol_state :: "protocol_obs \<Rightarrow> ProtocolState" where
  "protocol_state protocol =
     (let ps = \<lparr>stMeta = obMeta protocol, stSyncedBlockNumber = None, stSchema = [], stData = NoData, stError = []\<rparr> in
      case obView protocol of
        Inl err \<Rightarrow> ps\<lparr>stError := err\<rparr>
      | Inr (data, schema) \<Rightarrow>
          if schema = [] then ps\<lparr>stError := ''protocol returned empty schema''\<rparr>
          else ps\<lparr>stSchema := schema, stData := data\<rparr>)"

text \<open>\<^verbatim>\<open>%d\<close> of an unsigned number.\<close>

fun show_nat :: "nat \<Rightarrow> string" where
  "show_nat n = (if n < 10 then [char_of (48 + n)] else show_nat (n div 10) @ [char_of (48 + n mod 10)])"

definition out_of_sync :: "uint64 \<Rightarrow> uint64 \<Rightarrow> string" where
  "out_of_sync synced target = ''protocol out of sync: synced='' @ show_nat (unat synced) @ '' target='' @ show_nat (unat target)"

text \<open>The body of the loop over the synchronised protocols.\<close>

definition synchronized_state :: "uint64 \<Rightarrow> protocol_obs \<Rightarrow> ProtocolState" where
  "synchronized_state targetBlockNum protocol =
     (let syncedBlockNumber = obLastUpdatedAtBlock protocol;
          ps = \<lparr>stMeta = obMeta protocol, stSyncedBlockNumber = Some syncedBlockNumber, stSchema = obSchema protocol, stData = NoData, stError = []\<rparr> in
      if syncedBlockNumber < targetBlockNum then ps\<lparr>stError := out_of_sync syncedBlockNumber targetBlockNum\<rparr>
      else case obView protocol of
        Inl err \<Rightarrow> ps\<lparr>stError := err\<rparr>
      | Inr (data, _) \<Rightarrow> ps\<lparr>stData := data\<rparr>)"

definition buildState :: "('h \<Rightarrow> protocol_obs) \<Rightarrow> (EngineProtocolID, 'h) range_order \<Rightarrow> 'h Engine \<Rightarrow> Block \<Rightarrow> int \<Rightarrow> uint64 \<Rightarrow> EngineState" where
  "buildState obs ord engine b receivedAt now =
     (let states = foldl (\<lambda>m (pid, p). AList.update pid (protocol_state (obs p)) m) [] (ord (enProtocols engine));
          states' = foldl (\<lambda>m (pid, p). AList.update pid (synchronized_state (NumberU64 b) (obs p)) m) states (ord (enBlockSynchronizedProtocols engine)) in
      \<lparr>esChainID = word_of_int (enChainID engine), esTimestamp = now,
       esBlock = \<lparr>bsNumber = blNumber b, bsHash = blHash b, bsTimestamp = blTime b, bsReceivedAt = receivedAt, bsGasUsed = blGasUsed b,
         bsGasLimit = blGasLimit b, bsStateRoot = blRoot b, bsTxHash = blTxHash b, bsReceiptHash = blReceiptHash b\<rparr>,
       esProtocols = states'\<rparr>)"

section \<open>Waiting\<close>

definition areProtocolsSynced :: "('h \<Rightarrow> protocol_obs) \<Rightarrow> (EngineProtocolID \<times> 'h) list \<Rightarrow> uint64 \<Rightarrow> bool" where
  "areProtocolsSynced obs protocols targetBlock \<longleftrightarrow> list_all (\<lambda>(pid, p). \<not> obLastUpdatedAtBlock (obs p) < targetBlock) protocols"

text \<open>
  The channels of the select of the wait loop, as the sequence of those that fire; a tick carries what the protocols return
  then.
\<close>

datatype 'h wait_event = TimerFired | Tick "'h \<Rightarrow> protocol_obs" | CtxDone

datatype wait_result = WaitSynced | WaitTimedOut | WaitCancelled | StillWaiting

fun wait_loop :: "(EngineProtocolID \<times> 'h) list \<Rightarrow> uint64 \<Rightarrow> 'h wait_event list \<Rightarrow> wait_result" where
  "wait_loop protocols target [] = StillWaiting"
| "wait_loop protocols target (TimerFired # es) = WaitTimedOut"
| "wait_loop protocols target (Tick obs # es) =
     (if areProtocolsSynced obs protocols target then WaitSynced else wait_loop protocols target es)"
| "wait_loop protocols target (CtxDone # es) = WaitCancelled"

definition waitForBlockSynchronizedProtocols :: "('h \<Rightarrow> protocol_obs) \<Rightarrow> 'h Engine \<Rightarrow> Block \<Rightarrow> 'h wait_event list \<Rightarrow> wait_result" where
  "waitForBlockSynchronizedProtocols obs engine targetBlock es =
     (if areProtocolsSynced obs (enBlockSynchronizedProtocols engine) (NumberU64 targetBlock) then WaitSynced
      else wait_loop (enBlockSynchronizedProtocols engine) (NumberU64 targetBlock) es)"

section \<open>What a built state says\<close>

lemma validate_protocols_iff: "validate_protocols ps = Inr () \<longleftrightarrow> (\<forall>(i, p) \<in> set ps. p \<noteq> None)"
  by (induction ps rule: validate_protocols.induct) auto

lemma validate_synchronized_iff:
  "validate_synchronized m ps = Inr () \<longleftrightarrow> (\<forall>(i, p) \<in> set ps. p \<noteq> None \<and> map_of m i = None)"
  by (induction m ps rule: validate_synchronized.induct) auto

lemma copy_protocols_map_of:
  "copy_protocols ps acc = Inr m \<Longrightarrow> distinct (map fst ps) \<Longrightarrow>
   map_of m i = (case map_of ps i of Some p \<Rightarrow> p | None \<Rightarrow> map_of acc i) \<and> (distinct (map fst acc) \<longrightarrow> distinct (map fst m))"
proof (induction ps acc rule: copy_protocols.induct)
  case (3 j p ps acc)
  then have "map_of ps j = None" by (simp add: map_of_eq_None_iff)
  then show ?case using 3 by (auto simp: update_conv' distinct_update split: option.splits)
qed simp_all

lemma map_of_foldl_apply:
  "distinct (map fst ps) \<Longrightarrow> map_of (foldl (\<lambda>m (i, p). AList.update i (f p) m) acc ps) k =
     (case map_of ps k of Some p \<Rightarrow> Some (f p) | None \<Rightarrow> map_of acc k)"
proof (induction ps arbitrary: acc)
  case (Cons x ps)
  obtain i p where x: "x = (i, p)" by (cases x)
  then have "map_of ps i = None" using Cons.prems by (simp add: map_of_eq_None_iff)
  then show ?case using Cons x by (auto simp: update_conv' split: option.splits)
qed simp

lemma distinct_foldl_apply:
  "distinct (map fst acc) \<Longrightarrow> distinct (map fst (foldl (\<lambda>m (i, p). AList.update i (f p) m) acc ps))"
  by (induction ps arbitrary: acc) (auto simp: distinct_update)

text \<open>The engine of a configuration: the same protocols, in two disjoint maps.\<close>

lemma NewEngine_ok:
  assumes o: "range_order ord" and d: "distinct (map fst (ecProtocols cfg))" "distinct (map fst (ecBlockSynchronizedProtocols cfg))"
    and n: "NewEngine ord cfg = Inr en"
  shows "map_option Some (map_of (enProtocols en) i) = map_of (ecProtocols cfg) i"
    and "map_option Some (map_of (enBlockSynchronizedProtocols en) i) = map_of (ecBlockSynchronizedProtocols cfg) i"
    and "map_of (enProtocols en) i = None \<or> map_of (enBlockSynchronizedProtocols en) i = None"
    and "distinct (map fst (enProtocols en))" and "distinct (map fst (enBlockSynchronizedProtocols en))"
proof -
  have v: "\<forall>(i, p) \<in> set (ecProtocols cfg). p \<noteq> None"
      "\<forall>(i, p) \<in> set (ecBlockSynchronizedProtocols cfg). p \<noteq> None \<and> map_of (ecProtocols cfg) i = None"
    and c: "copy_protocols (ord (ecProtocols cfg)) [] = Inr (enProtocols en)"
      "copy_protocols (ord (ecBlockSynchronizedProtocols cfg)) [] = Inr (enBlockSynchronizedProtocols en)"
    using n o by (auto simp: NewEngine_def engine_validate_def result_simps validate_protocols_iff validate_synchronized_iff range_order_set split: if_splits)
  have mo: "map_of (ord m) = map_of m" "distinct (map fst (ord m))" if "distinct (map fst m)" for m
    using o that by (simp_all add: range_order_map_of range_order_distinct)
  note e = copy_protocols_map_of [OF c(1) mo(2) [OF d(1)]] copy_protocols_map_of [OF c(2) mo(2) [OF d(2)]]
  show m1: "map_option Some (map_of (enProtocols en) i) = map_of (ecProtocols cfg) i"
    using e(1) [of i] bspec [OF v(1), OF map_of_SomeD, of i] by (cases "map_of (ecProtocols cfg) i") (auto simp: mo(1) [OF d(1)])
  show m2: "map_option Some (map_of (enBlockSynchronizedProtocols en) i) = map_of (ecBlockSynchronizedProtocols cfg) i"
    using e(2) [of i] bspec [OF v(2), OF map_of_SomeD, of i] by (cases "map_of (ecBlockSynchronizedProtocols cfg) i") (auto simp: mo(1) [OF d(2)])
  show "map_of (enProtocols en) i = None \<or> map_of (enBlockSynchronizedProtocols en) i = None"
    using m1 m2 bspec [OF v(2), OF map_of_SomeD, of i] by (cases "map_of (ecBlockSynchronizedProtocols cfg) i") auto
  show "distinct (map fst (enProtocols en))" "distinct (map fst (enBlockSynchronizedProtocols en))" using e by simp_all
qed

lemma map_of_buildState:
  assumes "range_order ord" and "distinct (map fst (enProtocols en))" and "distinct (map fst (enBlockSynchronizedProtocols en))"
  shows "map_of (esProtocols (buildState obs ord en b r now)) i =
     (case map_of (enBlockSynchronizedProtocols en) i of
        Some p \<Rightarrow> Some (synchronized_state (NumberU64 b) (obs p))
      | None \<Rightarrow> map_option (\<lambda>p. protocol_state (obs p)) (map_of (enProtocols en) i))"
    and "distinct (map fst (esProtocols (buildState obs ord en b r now)))"
proof -
  note o = assms(1) range_order_map_of range_order_distinct
  show "map_of (esProtocols (buildState obs ord en b r now)) i =
     (case map_of (enBlockSynchronizedProtocols en) i of
        Some p \<Rightarrow> Some (synchronized_state (NumberU64 b) (obs p))
      | None \<Rightarrow> map_option (\<lambda>p. protocol_state (obs p)) (map_of (enProtocols en) i))"
    using assms by (simp add: buildState_def Let_def map_of_foldl_apply range_order_map_of range_order_distinct split: option.splits)
  show "distinct (map fst (esProtocols (buildState obs ord en b r now)))"
    by (simp add: buildState_def Let_def distinct_foldl_apply)
qed

lemma HasErrors_map_of:
  "distinct (map fst (esProtocols s)) \<Longrightarrow> HasErrors s \<longleftrightarrow> (\<exists>i p. map_of (esProtocols s) i = Some p \<and> stError p \<noteq> [])"
  by (auto simp: HasErrors_def list_ex_iff)

text \<open>A protocol that reports an error reports a text.\<close>

definition errors_have_text :: "('h \<Rightarrow> protocol_obs) \<Rightarrow> bool" where
  "errors_have_text obs \<longleftrightarrow> (\<forall>p. obView (obs p) \<noteq> Inl [])"

definition view_fails :: "protocol_obs \<Rightarrow> bool" where
  "view_fails p \<longleftrightarrow> (\<exists>err. obView p = Inl err)"

lemma stError_protocol_state: "obView p \<noteq> Inl [] \<Longrightarrow>
    stError (protocol_state p) \<noteq> [] \<longleftrightarrow> view_fails p \<or> (\<exists>x. obView p = Inr (x, []))"
  by (auto simp: protocol_state_def view_fails_def Let_def split: sum.splits if_splits)

lemma stError_synchronized_state: "obView p \<noteq> Inl [] \<Longrightarrow>
    stError (synchronized_state n p) \<noteq> [] \<longleftrightarrow> obLastUpdatedAtBlock p < n \<or> view_fails p"
  by (auto simp: synchronized_state_def view_fails_def out_of_sync_def Let_def split: sum.splits if_splits)

text \<open>
  C6: The state an engine builds for a block. Every registered protocol has exactly one entry and nothing else has one; the entry
  of a protocol that does not know its block is its view, that of a synchronised one carries the block it is at and its view, and no
  data when it is behind. The state has an error exactly when some protocol's view failed, came without a schema, or some synchronised
  protocol is behind the block.
\<close>

theorem build_state_spec:
  assumes o: "range_order ord" "range_order ord'" and d: "distinct (map fst (ecProtocols cfg))" "distinct (map fst (ecBlockSynchronizedProtocols cfg))"
    and n: "NewEngine ord cfg = Inr en" and t: "errors_have_text obs"
  shows "let st = buildState obs ord' en b receivedAt now in distinct (map fst (esProtocols st)) \<and> block_number (esBlock st) = NumberU64 b \<and>
    (\<forall>i. map_of (esProtocols st) i =
       (case (map_of (ecProtocols cfg) i, map_of (ecBlockSynchronizedProtocols cfg) i) of
          (Some (Some p), _) \<Rightarrow> Some (protocol_state (obs p))
        | (_, Some (Some p)) \<Rightarrow> Some (synchronized_state (NumberU64 b) (obs p))
        | _ \<Rightarrow> None)) \<and>
    (HasErrors st \<longleftrightarrow>
       (\<exists>i p. map_of (ecProtocols cfg) i = Some (Some p) \<and> (view_fails (obs p) \<or> (\<exists>x. obView (obs p) = Inr (x, [])))) \<or>
       (\<exists>i p. map_of (ecBlockSynchronizedProtocols cfg) i = Some (Some p) \<and>
          (obLastUpdatedAtBlock (obs p) < NumberU64 b \<or> view_fails (obs p))))"
proof -
  define st where "st = buildState obs ord' en b receivedAt now"
  note en = NewEngine_ok [OF o(1) d n]
  note mo = map_of_buildState [OF o(2) en(4,5), of obs b receivedAt now, folded st_def]
  have m: "map_of (ecProtocols cfg) i = map_option Some (map_of (enProtocols en) i)"
    "map_of (ecBlockSynchronizedProtocols cfg) i = map_option Some (map_of (enBlockSynchronizedProtocols en) i)" for i using en(1,2) [of i] by simp_all
  have tt: "obView (obs p) \<noteq> Inl []" for p using t by (simp add: errors_have_text_def)
  have "map_of (esProtocols st) i = (case (map_of (ecProtocols cfg) i, map_of (ecBlockSynchronizedProtocols cfg) i) of
          (Some (Some p), _) \<Rightarrow> Some (protocol_state (obs p))
        | (_, Some (Some p)) \<Rightarrow> Some (synchronized_state (NumberU64 b) (obs p))
        | _ \<Rightarrow> None)" for i
    using en(3) [of i] by (auto simp: mo(1) m split: option.splits)
  moreover have "HasErrors st \<longleftrightarrow> (\<exists>i p. map_of (enProtocols en) i = Some p \<and> stError (protocol_state (obs p)) \<noteq> []) \<or>
      (\<exists>i p. map_of (enBlockSynchronizedProtocols en) i = Some p \<and> stError (synchronized_state (NumberU64 b) (obs p)) \<noteq> [])"
  proof -
    have "(\<exists>p. map_of (esProtocols st) i = Some p \<and> stError p \<noteq> []) \<longleftrightarrow>
        (\<exists>p. map_of (enProtocols en) i = Some p \<and> stError (protocol_state (obs p)) \<noteq> []) \<or>
        (\<exists>p. map_of (enBlockSynchronizedProtocols en) i = Some p \<and> stError (synchronized_state (NumberU64 b) (obs p)) \<noteq> [])" for i
      unfolding mo(1) using en(3) [of i] by (cases "map_of (enProtocols en) i"; cases "map_of (enBlockSynchronizedProtocols en) i") auto
    then show ?thesis unfolding HasErrors_map_of [OF mo(2)] ex_disj_distrib [symmetric] by blast
  qed
  moreover have "block_number (esBlock st) = NumberU64 b" by (simp add: st_def buildState_def Let_def block_number_def NumberU64_def)
  ultimately show ?thesis unfolding Let_def st_def [symmetric] using mo(2)
    by (simp add: m stError_protocol_state [OF tt] stError_synchronized_state [OF tt])
qed

definition wit_obs :: "nat \<Rightarrow> protocol_obs" where
  "wit_obs h = \<lparr>obMeta = \<lparr>pmName = ''p'', pmTags = []\<rparr>, obView = Inr (V2Data [], UniswapV2ProtocolSchema), obSchema = UniswapV2ProtocolSchema,
     obLastUpdatedAtBlock = of_nat h\<rparr>"

definition wit_cfg :: "nat EngineConfig" where
  "wit_cfg = \<lparr>ecChainID = Some 1, ecNewBlockEventer = True, ecRegistry = True, ecProtocols = [(''a'', Some 0)],
     ecBlockSynchronizedProtocols = [(''b'', Some 99), (''c'', Some 100)], ecPollSyncInterval = 0, ecMaxWaitUntilSync = 0, ecBlockQueueSize = 0\<rparr>"

definition wit_engine :: "nat Engine" where
  "wit_engine = \<lparr>enChainID = 1, enPollSyncInterval = 100000000, enMaxWaitUntilSync = 500000000, enQueueSize = 100,
     enProtocols = [(''a'', 0)], enBlockSynchronizedProtocols = [(''c'', 100), (''b'', 99)]\<rparr>"

definition wit_blk :: Block where
  "wit_blk = \<lparr>blNumber = 100, blHash = [1], blTime = 2, blGasUsed = 3, blGasLimit = 4, blRoot = [5], blTxHash = [6], blReceiptHash = [7]\<rparr>"

lemma NewEngine_wit: "NewEngine rev wit_cfg = Inr wit_engine"
  by (simp add: NewEngine_def wit_cfg_def engine_validate_def wit_engine_def DefaultPollSyncInterval_def DefaultMaxWaitUntilSync_def DefaultBlockQueueSize_def)

theorem build_state_spec_witness:
  "HasErrors (buildState wit_obs rev wit_engine wit_blk 8 9) \<and>
   map_of (esProtocols (buildState wit_obs rev wit_engine wit_blk 8 9)) ''c'' = Some (synchronized_state 100 (wit_obs 100))"
proof -
  have t: "errors_have_text wit_obs" by (simp add: errors_have_text_def wit_obs_def)
  have d: "distinct (map fst (ecProtocols wit_cfg))" "distinct (map fst (ecBlockSynchronizedProtocols wit_cfg))" by (simp_all add: wit_cfg_def)
  have n: "NumberU64 wit_blk = 100" by (simp add: NumberU64_def wit_blk_def)
  have "\<exists>i p. map_of (ecBlockSynchronizedProtocols wit_cfg) i = Some (Some p) \<and> (obLastUpdatedAtBlock (wit_obs p) < 100 \<or> view_fails (wit_obs p))"
    by (intro exI [of _ "''b''"] exI [of _ 99]) (simp add: wit_cfg_def wit_obs_def)
  moreover have "map_of (ecProtocols wit_cfg) ''c'' = None" "map_of (ecBlockSynchronizedProtocols wit_cfg) ''c'' = Some (Some 100)"
    by (simp_all add: wit_cfg_def)
  ultimately show ?thesis
    using build_state_spec [OF range_order_rev range_order_rev d NewEngine_wit t, of wit_blk 8 9] unfolding Let_def n by simp
qed

fun ticks :: "'h wait_event list \<Rightarrow> ('h \<Rightarrow> protocol_obs) list" where
  "ticks [] = []"
| "ticks (Tick obs # es) = obs # ticks es"
| "ticks (TimerFired # es) = ticks es"
| "ticks (CtxDone # es) = ticks es"

lemma wait_loop_synced: "wait_loop ps n es = WaitSynced \<Longrightarrow> \<exists>obs \<in> set (ticks es). areProtocolsSynced obs ps n"
  by (induction ps n es rule: wait_loop.induct) (auto split: if_splits)

lemma wait_loop_returns: "TimerFired \<in> set es \<or> CtxDone \<in> set es \<Longrightarrow> wait_loop ps n es \<noteq> StillWaiting"
  by (induction ps n es rule: wait_loop.induct) auto

lemma wait_loop_immediate: "areProtocolsSynced obs ps n \<Longrightarrow> wait_loop ps n (Tick obs # es) = WaitSynced"
  by simp



end
