(* ===== verification/UniswapV2_System.thy ===== *)
theory UniswapV2_System
  imports UniswapV2_Registry Pool_Upkeep Engine
begin

text \<open>
  The Uniswap V2 system (\<^verbatim>\<open>src/protocols/uniswap-v2/system.go\<close>, \<^verbatim>\<open>protocol.go\<close>): a registry behind a mutex with a cached view
  and a block number that are read without it, and the goroutines that work on it: the block handler, the handler of the
  logs, the initializer of pending pools and the pruner. Sections under the mutex are functions on the state; the step
  relation at the end interleaves them. Parallel slices of the dependencies are lists of records; the resolution
  of addresses, the RPC calls and the registration of pools are arguments.
\<close>

section \<open>State\<close>

datatype v2_sys_error =
    V2UpdateError uint64 v2_error address uint64 int int
  | V2InitializationError uint64 string address
  | V2InitAddError uint64 v2_error address
  | V2InitReservesError uint64 v2_error address
  | V2RegistrationError uint64 string address address address

record UniswapV2System =
  v2sRegistry :: UniswapV2Registry
  v2sCachedView :: "V2PoolView list"
  v2sLastUpdatedAtBlock :: uint64
  v2sPendingInit :: "address list"

definition NewUniswapV2SystemFromViews :: "V2PoolView list \<Rightarrow> UniswapV2System" where
  "NewUniswapV2SystemFromViews views =
     (let registry = NewUniswapV2RegistryFromViews views in
      \<lparr>v2sRegistry = registry, v2sCachedView = v2_viewRegistry registry, v2sLastUpdatedAtBlock = 0, v2sPendingInit = []\<rparr>)"

definition NewUniswapV2System :: UniswapV2System where
  "NewUniswapV2System = \<lparr>v2sRegistry = NewUniswapV2Registry, v2sCachedView = v2_viewRegistry NewUniswapV2Registry,
     v2sLastUpdatedAtBlock = 0, v2sPendingInit = []\<rparr>"

definition v2s_updateCachedView :: "UniswapV2System \<Rightarrow> UniswapV2System" where
  "v2s_updateCachedView s = s\<lparr>v2sCachedView := v2_viewRegistry (v2sRegistry s)\<rparr>"

definition v2s_View :: "UniswapV2System \<Rightarrow> V2PoolView list" where
  "v2s_View s = v2sCachedView s"

definition v2s_LastUpdatedAtBlock :: "UniswapV2System \<Rightarrow> uint64" where
  "v2s_LastUpdatedAtBlock s = v2sLastUpdatedAtBlock s"

text \<open>\<^verbatim>\<open>UniswapV2Protocol\<close>: what the engine sees.\<close>

definition v2_protocol :: "string \<Rightarrow> UniswapV2System \<Rightarrow> protocol_obs" where
  "v2_protocol systemName s = \<lparr>obMeta = \<lparr>pmName = systemName, pmTags = []\<rparr>, obView = Inr (V2Data (v2s_View s), UniswapV2ProtocolSchema),
     obSchema = UniswapV2ProtocolSchema, obLastUpdatedAtBlock = v2s_LastUpdatedAtBlock s\<rparr>"

section \<open>Updates\<close>

fun v2_applyUpdates ::
  "(address \<Rightarrow> uint64 option) \<Rightarrow> uint64 \<Rightarrow> (address \<times> int \<times> int) list \<Rightarrow> UniswapV2Registry \<Rightarrow> v2_sys_error list \<times> UniswapV2Registry" where
  "v2_applyUpdates poolAddressToID blockNumber [] r = ([], r)"
| "v2_applyUpdates poolAddressToID blockNumber ((poolAddr, reserve0, reserve1) # us) r =
     (case poolAddressToID poolAddr of
        None \<Rightarrow> v2_applyUpdates poolAddressToID blockNumber us r
      | Some poolID \<Rightarrow>
          if \<not> v2_hasPool poolID r then v2_applyUpdates poolAddressToID blockNumber us r
          else (case v2_updatePool reserve0 reserve1 poolID r of
                  Inl err \<Rightarrow> (let (errs, r') = v2_applyUpdates poolAddressToID blockNumber us r in
                     (V2UpdateError blockNumber err poolAddr poolID reserve0 reserve1 # errs, r'))
                | Inr r' \<Rightarrow> v2_applyUpdates poolAddressToID blockNumber us r'))"

text \<open>
  The part of \<^verbatim>\<open>handleNewBlock\<close> before the lock: the addresses of the pools of the cached view, and the reserves that could be
  fetched for them.
\<close>

definition v2_fetch :: "(uint64 \<Rightarrow> address option) \<Rightarrow> (address list \<Rightarrow> (string + int \<times> int) list) \<Rightarrow> V2PoolView list \<Rightarrow> (address \<times> int \<times> int) list" where
  "v2_fetch poolIDToAddress getReserves prevView =
     (let poolAddrs = List.map_filter (\<lambda>view. poolIDToAddress (v2ID view)) prevView in
      List.map_filter (\<lambda>(addr, res). case res of Inl err \<Rightarrow> None | Inr (r0, r1) \<Rightarrow> Some (addr, r0, r1)) (zip poolAddrs (getReserves poolAddrs)))"

text \<open>The locked part, up to and including the store of the block number, and the update of the cached view that follows.\<close>

definition v2_block_apply :: "(address \<Rightarrow> uint64 option) \<Rightarrow> uint64 \<Rightarrow> (address \<times> int \<times> int) list \<Rightarrow> UniswapV2System \<Rightarrow> UniswapV2System" where
  "v2_block_apply poolAddressToID blockNum us s =
     s\<lparr>v2sRegistry := snd (v2_applyUpdates poolAddressToID blockNum us (v2sRegistry s)), v2sLastUpdatedAtBlock := blockNum\<rparr>"

section \<open>Logs\<close>

fun v2_mark_updated :: "(address \<Rightarrow> uint64 option) \<Rightarrow> uint64 \<Rightarrow> address list \<Rightarrow> UniswapV2Registry \<Rightarrow> UniswapV2Registry" where
  "v2_mark_updated poolAddressToID blockTime [] r = r"
| "v2_mark_updated poolAddressToID blockTime (poolAddr # as) r =
     (case poolAddressToID poolAddr of
        None \<Rightarrow> v2_mark_updated poolAddressToID blockTime as r
      | Some poolID \<Rightarrow>
          if \<not> v2_hasPool poolID r then v2_mark_updated poolAddressToID blockTime as r
          else v2_mark_updated poolAddressToID blockTime as
                 (case v2_setLastUpdatedAt poolID blockTime r of Inl err \<Rightarrow> r | Inr r' \<Rightarrow> r'))"

definition v2_apply_logs :: "(address \<Rightarrow> uint64 option) \<Rightarrow> uint64 \<Rightarrow> address list \<Rightarrow> address list \<Rightarrow> UniswapV2System \<Rightarrow> UniswapV2System" where
  "v2_apply_logs poolAddressToID blockTime updatedInBlock discovered s =
     s\<lparr>v2sRegistry := v2_mark_updated poolAddressToID blockTime updatedInBlock (v2sRegistry s),
       v2sPendingInit := queue_discovered poolAddressToID discovered (v2sPendingInit s)\<rparr>"

text \<open>The whole handler: the client, the logs and the two parsers come first, and an error of any of them ends it before the lock.\<close>

definition v2_handleBlockLogs ::
  "(string + 'client) \<Rightarrow> ('client \<Rightarrow> string + 'log list) \<Rightarrow> ('log list \<Rightarrow> string + address list) \<Rightarrow> ('log list \<Rightarrow> string + address list) \<Rightarrow>
   (address \<Rightarrow> uint64 option) \<Rightarrow> uint64 \<Rightarrow> UniswapV2System \<Rightarrow> string option \<times> UniswapV2System" where
  "v2_handleBlockLogs getClient getLogs updatedInBlock discoverPools poolAddressToID blockTime s =
     (case getClient of
        Inl err \<Rightarrow> (Some err, s)
      | Inr client \<Rightarrow>
          (case getLogs client of
             Inl err \<Rightarrow> (Some err, s)
           | Inr logs \<Rightarrow>
               (case updatedInBlock logs of
                  Inl err \<Rightarrow> (Some err, s)
                | Inr updated \<Rightarrow>
                    (case discoverPools logs of
                       Inl err \<Rightarrow> (Some err, s)
                     | Inr discovered \<Rightarrow> (None, v2_apply_logs poolAddressToID blockTime updated discovered s)))))"

lemma v2_handleBlockLogs_cases:
  "v2_handleBlockLogs getClient getLogs updatedInBlock discoverPools idOf t s = (err, s') \<Longrightarrow>
   (if err = None then \<exists>updated discovered. s' = v2_apply_logs idOf t updated discovered s else s' = s)"
  by (auto simp: v2_handleBlockLogs_def split: sum.splits)

section \<open>Initialization\<close>

record init_item =
  iiToken0 :: address
  iiToken1 :: address
  iiPoolType :: uint8
  iiFeeBps :: uint16
  iiReserve0 :: int
  iiReserve1 :: int
  iiErr :: "string option"

text \<open>The first loop: the errors of the RPC call, and the pools without one.\<close>

fun init_filter :: "uint64 \<Rightarrow> (address \<times> init_item) list \<Rightarrow> v2_sys_error list \<times> (address \<times> init_item) list" where
  "init_filter blockNumber [] = ([], [])"
| "init_filter blockNumber ((poolAddr, it) # ps) =
     (let (errs, valid) = init_filter blockNumber ps in
      case iiErr it of
        Some err \<Rightarrow> (V2InitializationError blockNumber err poolAddr # errs, valid)
      | None \<Rightarrow> (errs, (poolAddr, it) # valid))"

text \<open>The errors of the registration, one result per valid pool.\<close>

fun init_registration_errors :: "uint64 \<Rightarrow> ((address \<times> init_item) \<times> uint64 \<times> string option) list \<Rightarrow> v2_sys_error list" where
  "init_registration_errors blockNumber [] = []"
| "init_registration_errors blockNumber (((poolAddr, it), poolID, regErr) # ps) =
     (case regErr of
        Some err \<Rightarrow> V2RegistrationError blockNumber err poolAddr (iiToken0 it) (iiToken1 it) # init_registration_errors blockNumber ps
      | None \<Rightarrow> init_registration_errors blockNumber ps)"

text \<open>The second loop over the valid pools: those that were registered are added, then their reserves set.\<close>

fun init_add ::
  "(address \<Rightarrow> uint64 option) \<Rightarrow> (address \<Rightarrow> uint64 option) \<Rightarrow> uint64 \<Rightarrow> ((address \<times> init_item) \<times> uint64 \<times> string option) list \<Rightarrow>
   UniswapV2Registry \<Rightarrow> v2_sys_error list \<times> UniswapV2Registry" where
  "init_add tokenAddressToID poolAddressToID blockNumber [] r = ([], r)"
| "init_add tokenAddressToID poolAddressToID blockNumber (((poolAddr, it), poolID, regErr) # ps) r =
     (if regErr \<noteq> None then init_add tokenAddressToID poolAddressToID blockNumber ps r
      else (case v2_addPool (iiToken0 it) (iiToken1 it) poolAddr (iiPoolType it) (iiFeeBps it) tokenAddressToID poolAddressToID r of
              Inl err \<Rightarrow> (let (errs, r') = init_add tokenAddressToID poolAddressToID blockNumber ps r in
                 (V2InitAddError blockNumber err poolAddr # errs, r'))
            | Inr r1 \<Rightarrow>
                (case v2_updatePool (iiReserve0 it) (iiReserve1 it) poolID r1 of
                   Inl err \<Rightarrow> (let (errs, r') = init_add tokenAddressToID poolAddressToID blockNumber ps r1 in
                      (V2InitReservesError blockNumber err poolAddr # errs, r'))
                 | Inr r2 \<Rightarrow> init_add tokenAddressToID poolAddressToID blockNumber ps r2)))"

definition v2_applyInitializations ::
  "(address \<Rightarrow> uint64 option) \<Rightarrow> (address \<Rightarrow> uint64 option) \<Rightarrow> ((address \<times> init_item) list \<Rightarrow> (uint64 \<times> string option) list) \<Rightarrow>
   uint64 \<Rightarrow> (address \<times> init_item) list \<Rightarrow> UniswapV2Registry \<Rightarrow> v2_sys_error list \<times> UniswapV2Registry" where
  "v2_applyInitializations tokenAddressToID poolAddressToID registerPools blockNumber pools r =
     (if pools = [] then ([], r)
      else let (errs, valid) = init_filter blockNumber pools in
        if valid = [] then (errs, r)
        else let regs = zip valid (registerPools valid);
                 (addErrs, r') = init_add tokenAddressToID poolAddressToID blockNumber regs r
             in (errs @ init_registration_errors blockNumber regs @ addErrs, r'))"

text \<open>\<^verbatim>\<open>runPendingInitializations\<close>: the queue is drained under the lock, and later the results applied under the lock.\<close>

definition v2_drainPending :: "UniswapV2System \<Rightarrow> address list \<times> UniswapV2System" where
  "v2_drainPending s = (v2sPendingInit s, s\<lparr>v2sPendingInit := []\<rparr>)"

definition v2_runInitializations ::
  "(address \<Rightarrow> uint64 option) \<Rightarrow> (address \<Rightarrow> uint64 option) \<Rightarrow> ((address \<times> init_item) list \<Rightarrow> (uint64 \<times> string option) list) \<Rightarrow>
   (address \<times> init_item) list \<Rightarrow> UniswapV2System \<Rightarrow> v2_sys_error list \<times> UniswapV2System" where
  "v2_runInitializations tokenAddressToID poolAddressToID registerPools pools s =
     (let (initErrors, r) = v2_applyInitializations tokenAddressToID poolAddressToID registerPools 0 pools (v2sRegistry s);
          s' = s\<lparr>v2sRegistry := r\<rparr>;
          successfulInits = int (length pools) - int (length initErrors) in
      (initErrors, if successfulInits > 0 then v2s_updateCachedView s' else s'))"

section \<open>Pruning\<close>

definition v2_poolsToDelete :: "(uint64, uint64) range_order \<Rightarrow> int \<Rightarrow> int \<Rightarrow> UniswapV2Registry \<Rightarrow> uint64 list" where
  "v2_poolsToDelete ord now maxInactive r = prune_selection ord now maxInactive (v2_getLastUpdatedAtMap r)"

text \<open>The third result is the argument with which \<^verbatim>\<open>onDeletePools\<close> is called, if it is called.\<close>

definition v2_deletePools :: "uint64 list \<Rightarrow> UniswapV2System \<Rightarrow> v2_error option list \<times> uint64 list option \<times> UniswapV2System" where
  "v2_deletePools poolIDs s =
     (if poolIDs = [] then ([], None, s)
      else let (errs, deletedPools, r) = delete_loop v2_deletePool poolIDs (v2sRegistry s);
               s' = s\<lparr>v2sRegistry := r\<rparr>;
               s'' = (if deletedPools \<noteq> [] then v2s_updateCachedView s' else s') in
           (if list_ex (\<lambda>e. e \<noteq> None) errs then errs else [], Some deletedPools, s''))"

section \<open>Updates on the view\<close>

text \<open>The last update in a batch for a pool identifier.\<close>

fun latest_update :: "(address \<Rightarrow> uint64 option) \<Rightarrow> (address \<times> int \<times> int) list \<Rightarrow> uint64 \<Rightarrow> (int \<times> int) option" where
  "latest_update idOf [] k = None"
| "latest_update idOf ((a, res) # us) k =
     (case latest_update idOf us k of Some x \<Rightarrow> Some x | None \<Rightarrow> if idOf a = Some k then Some res else None)"

definition with_reserves :: "(int \<times> int) option \<Rightarrow> V2PoolView \<Rightarrow> V2PoolView" where
  "with_reserves res v = (case res of None \<Rightarrow> v | Some (r0, r1) \<Rightarrow> v\<lparr>v2Reserve0 := r0, v2Reserve1 := r1\<rparr>)"

lemma with_reserves_None [simp]: "with_reserves None v = v"
  by (simp add: with_reserves_def)

lemma map_with_reserves_None [simp]: "map_option (with_reserves None) x = x"
  by (cases x) simp_all

lemma hasPool_iff: "v2_inv r \<Longrightarrow> v2_hasPool k r \<longleftrightarrow> keyed v2ID (v2_viewRegistry r) k \<noteq> None"
  by (simp add: v2_hasPool_def keyed_index [OF v2_view_index])

lemma updatePool_succeeds: "v2_hasPool k r \<Longrightarrow> \<exists>r'. v2_updatePool a b k r = Inr r'"
  by (auto simp: v2_hasPool_def v2_updatePool_def)

lemma applyUpdates_spec:
  assumes "v2_inv r" and "v2_applyUpdates idOf n us r = (errs, r')"
  shows "errs = [] \<and> v2_inv r' \<and> (v2_step meta)\<^sup>*\<^sup>* r r' \<and> u2ID r' = u2ID r \<and>
     (\<forall>k. keyed v2ID (v2_viewRegistry r') k = map_option (with_reserves (latest_update idOf us k)) (keyed v2ID (v2_viewRegistry r) k))"
  using assms
proof (induction idOf n us r arbitrary: errs r' rule: v2_applyUpdates.induct)
  case (1 idOf n r)
  then show ?case by (auto simp: option.map_ident)
next
  case (2 idOf n a r0 r1 us r)
  show ?case
  proof (cases "\<exists>i. idOf a = Some i \<and> v2_hasPool i r")
    case False
    then have skip: "v2_applyUpdates idOf n us r = (errs, r')" using "2.prems"(2) by (cases "idOf a") auto
    have same: "latest_update idOf ((a, r0, r1) # us) k = latest_update idOf us k" if "keyed v2ID (v2_viewRegistry r) k = Some v" for k v
    proof -
      have "idOf a \<noteq> Some k" using False that hasPool_iff [OF "2.prems"(1), of k] by auto
      then show ?thesis by (simp split: option.split)
    qed
    have ih: "errs = [] \<and> v2_inv r' \<and> (v2_step meta)\<^sup>*\<^sup>* r r' \<and> u2ID r' = u2ID r \<and>
        (\<forall>k. keyed v2ID (v2_viewRegistry r') k = map_option (with_reserves (latest_update idOf us k)) (keyed v2ID (v2_viewRegistry r) k))"
      using "2.IH"(1) [OF _ "2.prems"(1) skip] "2.IH"(2) [OF _ _ "2.prems"(1) skip] False by (cases "idOf a") auto
    have "map_option (with_reserves (latest_update idOf ((a, r0, r1) # us) k)) (keyed v2ID (v2_viewRegistry r) k) =
        map_option (with_reserves (latest_update idOf us k)) (keyed v2ID (v2_viewRegistry r) k)" for k
      using same by (cases "keyed v2ID (v2_viewRegistry r) k") (simp_all del: latest_update.simps)
    then show ?thesis using ih by (simp del: latest_update.simps)
  next
    case True
    then obtain i r1' where i: "idOf a = Some i" "v2_hasPool i r" "v2_updatePool r0 r1 i r = Inr r1'" using updatePool_succeeds by blast
    then have rest: "v2_applyUpdates idOf n us r1' = (errs, r')" using "2.prems"(2) by simp
    show ?thesis
    proof (rule v2_updatePool_spec [OF "2.prems"(1) i(3)])
      fix v assume v: "keyed v2ID (v2_viewRegistry r) i = Some v" "v2_inv r1'"
        "keyed v2ID (v2_viewRegistry r1') = (keyed v2ID (v2_viewRegistry r))(i \<mapsto> v\<lparr>v2Reserve0 := r0, v2Reserve1 := r1\<rparr>)" "u2ID r1' = u2ID r"
      have step: "(v2_step meta) r r1'" by (rule v2step_update [OF i(3)])
      have ih: "errs = [] \<and> v2_inv r' \<and> (v2_step meta)\<^sup>*\<^sup>* r1' r' \<and> u2ID r' = u2ID r1' \<and>
          (\<forall>k. keyed v2ID (v2_viewRegistry r') k = map_option (with_reserves (latest_update idOf us k)) (keyed v2ID (v2_viewRegistry r1') k))"
        using "2.IH"(4) [OF i(1) _ i(3) v(2) rest] i(2) by simp
      have "map_option (with_reserves (latest_update idOf us k)) (keyed v2ID (v2_viewRegistry r1') k) =
          map_option (with_reserves (latest_update idOf ((a, r0, r1) # us) k)) (keyed v2ID (v2_viewRegistry r) k)" for k
        using v(1,3) i(1) by (auto simp: with_reserves_def split: option.splits)
      then show ?thesis using ih step v(4) by (simp add: converse_rtranclp_into_rtranclp)
    qed
  qed
qed

section \<open>The other operations on the view\<close>

lemma mark_updated_spec:
  "v2_inv r \<Longrightarrow> v2_inv (v2_mark_updated idOf t as r) \<and> v2_viewRegistry (v2_mark_updated idOf t as r) = v2_viewRegistry r \<and>
     (v2_step meta)\<^sup>*\<^sup>* r (v2_mark_updated idOf t as r)"
proof (induction as arbitrary: r)
  case (Cons a as)
  define r1 where "r1 = (case idOf a of None \<Rightarrow> r | Some k \<Rightarrow> if v2_hasPool k r then (case v2_setLastUpdatedAt k t r of Inl err \<Rightarrow> r | Inr r' \<Rightarrow> r') else r)"
  have eq: "v2_mark_updated idOf t (a # as) r = v2_mark_updated idOf t as r1" by (simp add: r1_def split: option.split)
  have "v2_inv r1 \<and> v2_viewRegistry r1 = v2_viewRegistry r \<and> (v2_step meta)\<^sup>*\<^sup>* r r1"
    using Cons.prems v2_setLastUpdatedAt_spec(1,2) by (auto simp: r1_def split: option.splits sum.splits dest: v2step_time [of _ _ r _ meta, THEN r_into_rtranclp [of "v2_step meta"]])
  then show ?case using Cons.IH [of r1] unfolding eq by auto
qed simp

lemma deletePools_run:
  assumes "v2_deletePools ids s = (errs, cb, s')"
  shows "(v2_step meta)\<^sup>*\<^sup>* (v2sRegistry s) (v2sRegistry s') \<and>
     (v2sCachedView s = v2_viewRegistry (v2sRegistry s) \<longrightarrow> v2sCachedView s' = v2_viewRegistry (v2sRegistry s'))"
proof (cases "ids = []")
  case True
  then show ?thesis using assms by (simp add: v2_deletePools_def)
next
  case False
  obtain es deleted r where d: "delete_loop v2_deletePool ids (v2sRegistry s) = (es, deleted, r)" by (cases "delete_loop v2_deletePool ids (v2sRegistry s)")
  have "(\<lambda>a b. \<exists>k. v2_deletePool k a = Inr b)\<^sup>*\<^sup>* (v2sRegistry s) r \<and> (deleted = [] \<longrightarrow> r = v2sRegistry s)" by (rule delete_loop_run [OF d])
  moreover have "(\<lambda>a b. \<exists>k. v2_deletePool k a = Inr b)\<^sup>*\<^sup>* a b \<Longrightarrow> (v2_step meta)\<^sup>*\<^sup>* a b" for a b
    by (erule rtranclp_mono [THEN predicate2D, rotated]) (auto intro: v2step_delete)
  ultimately show ?thesis using assms False d
    by (auto simp: v2_deletePools_def v2s_updateCachedView_def Let_def split: if_splits)
qed

text \<open>The registration gives the identifier under which the pool is found afterwards, and its data is that of the chain.\<close>

definition init_world ::
  "(uint64 \<Rightarrow> uint64 \<times> uint64 \<times> uint8 \<times> uint16) \<Rightarrow> (address \<Rightarrow> uint64 option) \<Rightarrow> (address \<Rightarrow> uint64 option) \<Rightarrow>
   ((address \<times> init_item) \<times> uint64 \<times> string option) list \<Rightarrow> bool" where
  "init_world meta tokOf idOf regs \<longleftrightarrow> (\<forall>((addr, it), poolID, err) \<in> set regs. err = None \<longrightarrow> idOf addr = Some poolID \<and>
     (\<forall>t0 t1. tokOf (iiToken0 it) = Some t0 \<and> tokOf (iiToken1 it) = Some t1 \<longrightarrow> meta poolID = (t0, t1, iiPoolType it, iiFeeBps it)))"

lemma init_add_run:
  assumes "v2_inv r" and "init_world meta tokOf idOf regs" and "init_add tokOf idOf n regs r = (errs, r')"
  shows "v2_inv r' \<and> (v2_step meta)\<^sup>*\<^sup>* r r' \<and> (\<exists>added. length errs + length (init_registration_errors n regs) + added = length regs \<and> (added = 0 \<longrightarrow> r' = r))"
  using assms
proof (induction tokOf idOf n regs r arbitrary: errs r' rule: init_add.induct)
  case (2 tokOf idOf n addr it poolID regErr regs r)
  have w: "init_world meta tokOf idOf regs" using "2.prems"(2) by (simp add: init_world_def)
  show ?case
  proof (cases regErr)
    case (Some e)
    then show ?thesis using "2.IH"(1) [OF _ "2.prems"(1) w] "2.prems"(3) by fastforce
  next
    case None
    then have id: "idOf addr = Some poolID" and mt: "\<And>t0 t1. tokOf (iiToken0 it) = Some t0 \<Longrightarrow> tokOf (iiToken1 it) = Some t1 \<Longrightarrow> meta poolID = (t0, t1, iiPoolType it, iiFeeBps it)"
      using "2.prems"(2) by (auto simp: init_world_def)
    show ?thesis
    proof (cases "v2_addPool (iiToken0 it) (iiToken1 it) addr (iiPoolType it) (iiFeeBps it) tokOf idOf r")
      case (Inl err)
      then obtain es where d: "init_add tokOf idOf n regs r = (es, r')" "length errs = Suc (length es)"
        using "2.prems"(3) None by (auto split: prod.splits)
      show ?thesis using "2.IH"(2) [OF _ Inl "2.prems"(1) w d(1)] None d(2) by auto
    next
      case (Inr r1)
      show ?thesis
      proof (rule v2_addPool_spec [OF "2.prems"(1) Inr])
        fix i t0 t1 assume a: "idOf addr = Some i" "tokOf (iiToken0 it) = Some t0" "tokOf (iiToken1 it) = Some t1" "v2_inv r1"
          "v2_viewRegistry r1 = v2_viewRegistry r @ [v2_new_pool i t0 t1 (iiPoolType it) (iiFeeBps it)]"
        have st1: "v2_step meta r r1" by (rule v2step_add [where meta = meta, OF Inr id a(2,3) mt [OF a(2,3)]])
        have "v2_hasPool poolID r1" using a id by (simp add: hasPool_iff [OF a(4)] v2_new_pool_def keyed_None_iff)
        then obtain r2 where r2: "v2_updatePool (iiReserve0 it) (iiReserve1 it) poolID r1 = Inr r2" using updatePool_succeeds by blast
        have st2: "v2_step meta r1 r2" by (rule v2step_update [OF r2])
        have i2: "v2_inv r2" by (rule v2_updatePool_spec [OF a(4) r2])
        have d: "init_add tokOf idOf n regs r2 = (errs, r')" using "2.prems"(3) None Inr r2 by simp
        obtain added where ih: "v2_inv r'" "(v2_step meta)\<^sup>*\<^sup>* r2 r'" "length errs + length (init_registration_errors n regs) + added = length regs"
          using "2.IH"(4) [OF _ Inr r2 i2 w d] None by auto
        have "(v2_step meta)\<^sup>*\<^sup>* r r'" using st1 st2 ih(2) by (meson converse_rtranclp_into_rtranclp)
        moreover have "\<exists>added. length errs + length (init_registration_errors n (((addr, it), poolID, regErr) # regs)) + added = length (((addr, it), poolID, regErr) # regs) \<and> (added = 0 \<longrightarrow> r' = r)"
          using ih(3) None by (intro exI [of _ "Suc added"]) simp
        ultimately show ?thesis using ih(1) by blast
      qed
    qed
  qed
qed simp

lemma init_filter_length: "init_filter n pools = (errs, valid) \<Longrightarrow> length errs + length valid = length pools"
  by (induction n pools arbitrary: errs valid rule: init_filter.induct) (auto split: option.splits prod.splits)

lemma runInitializations_run:
  assumes inv: "v2_inv (v2sRegistry s)" and call: "v2_runInitializations tokOf idOf registerPools pools s = (errs, s')"
    and w: "\<And>es valid. init_filter 0 pools = (es, valid) \<Longrightarrow>
      length (registerPools valid) = length valid \<and> init_world meta tokOf idOf (zip valid (registerPools valid))"
  shows "(v2_step meta)\<^sup>*\<^sup>* (v2sRegistry s) (v2sRegistry s') \<and> v2_inv (v2sRegistry s') \<and>
     (v2sCachedView s = v2_viewRegistry (v2sRegistry s) \<longrightarrow> v2sCachedView s' = v2_viewRegistry (v2sRegistry s')) \<and>
     (v2sCachedView s' = v2sCachedView s \<or> v2sCachedView s' = v2_viewRegistry (v2sRegistry s'))"
proof -
  obtain es valid where f: "init_filter 0 pools = (es, valid)" by (cases "init_filter 0 pools")
  let ?regs = "zip valid (registerPools valid)"
  obtain as r where a: "init_add tokOf idOf 0 ?regs (v2sRegistry s) = (as, r)" by (cases "init_add tokOf idOf 0 ?regs (v2sRegistry s)")
  obtain added where run: "v2_inv r" "(v2_step meta)\<^sup>*\<^sup>* (v2sRegistry s) r"
      "length as + length (init_registration_errors 0 ?regs) + added = length ?regs" "added = 0 \<longrightarrow> r = v2sRegistry s"
    using init_add_run [OF inv conjunct2 [OF w [OF f]] a] by blast
  show ?thesis
  proof (cases "pools = [] \<or> valid = []")
    case True
    then have "v2_applyInitializations tokOf idOf registerPools 0 pools (v2sRegistry s) = (es, v2sRegistry s)"
      using f by (auto simp: v2_applyInitializations_def)
    moreover have "length pools = length es" using True init_filter_length [OF f] by auto
    ultimately show ?thesis using call inv by (auto simp: v2_runInitializations_def Let_def)
  next
    case False
    then have "v2_applyInitializations tokOf idOf registerPools 0 pools (v2sRegistry s) = (es @ init_registration_errors 0 ?regs @ as, r)"
      using f a by (simp add: v2_applyInitializations_def Let_def)
    moreover have "int (length pools) - int (length (es @ init_registration_errors 0 ?regs @ as)) = int added"
      using init_filter_length [OF f] conjunct1 [OF w [OF f]] run(3) by simp
    ultimately show ?thesis using call run
      by (auto simp: v2_runInitializations_def Let_def v2s_updateCachedView_def split: if_splits)
  qed
qed

section \<open>The goroutines\<close>

text \<open>
  The system with the variables of its goroutines: the block whose updates were fetched and wait for the lock, whether the
  block handler is between its store of the block number and its store of the view, and the pools whose initialization
  is under way.
\<close>

record V2Machine =
  v2mSys :: UniswapV2System
  v2mBlock :: "(uint64 \<times> (address \<times> int \<times> int) list) option"
  v2mPublishing :: bool
  v2mInFlight :: "address list option"

inductive v2m_step :: "(uint64 \<Rightarrow> uint64 \<times> uint64 \<times> uint8 \<times> uint16) \<Rightarrow> V2Machine \<Rightarrow> V2Machine \<Rightarrow> bool" for meta where
  v2m_skip: "v2mBlock m = None \<Longrightarrow> \<not> v2mPublishing m \<Longrightarrow>
     v2m_step meta m (m\<lparr>v2mSys := (v2mSys m)\<lparr>v2sLastUpdatedAtBlock := n\<rparr>\<rparr>)"
| v2m_fetch: "v2mBlock m = None \<Longrightarrow> \<not> v2mPublishing m \<Longrightarrow>
     v2m_step meta m (m\<lparr>v2mBlock := Some (n, v2_fetch addrOf getReserves (v2sCachedView (v2mSys m)))\<rparr>)"
| v2m_apply: "v2mBlock m = Some (n, us) \<Longrightarrow>
     v2m_step meta m (m\<lparr>v2mSys := v2_block_apply idOf n us (v2mSys m), v2mBlock := None, v2mPublishing := True\<rparr>)"
| v2m_publish: "v2mPublishing m \<Longrightarrow> v2m_step meta m (m\<lparr>v2mSys := v2s_updateCachedView (v2mSys m), v2mPublishing := False\<rparr>)"
| v2m_logs: "\<not> v2mPublishing m \<Longrightarrow> v2m_step meta m (m\<lparr>v2mSys := v2_apply_logs idOf t updated discovered (v2mSys m)\<rparr>)"
| v2m_drain: "\<not> v2mPublishing m \<Longrightarrow> v2mInFlight m = None \<Longrightarrow> v2_drainPending (v2mSys m) = (ps, s') \<Longrightarrow>
     v2m_step meta m (m\<lparr>v2mSys := s', v2mInFlight := Some ps\<rparr>)"
| v2m_init: "\<not> v2mPublishing m \<Longrightarrow> v2mInFlight m = Some (map fst pools) \<Longrightarrow>
     (\<And>es valid. init_filter 0 pools = (es, valid) \<Longrightarrow>
        length (registerPools valid) = length valid \<and> init_world meta tokOf idOf (zip valid (registerPools valid))) \<Longrightarrow>
     v2_runInitializations tokOf idOf registerPools pools (v2mSys m) = (errs, s') \<Longrightarrow>
     v2m_step meta m (m\<lparr>v2mSys := s', v2mInFlight := None\<rparr>)"
| v2m_prune: "\<not> v2mPublishing m \<Longrightarrow> v2_deletePools ids (v2mSys m) = (errs, cb, s') \<Longrightarrow> v2m_step meta m (m\<lparr>v2mSys := s'\<rparr>)"

definition v2_start :: V2Machine where
  "v2_start = \<lparr>v2mSys = NewUniswapV2System, v2mBlock = None, v2mPublishing = False, v2mInFlight = None\<rparr>"

definition view_ok :: "(uint64 \<Rightarrow> uint64 \<times> uint64 \<times> uint8 \<times> uint16) \<Rightarrow> V2PoolView list \<Rightarrow> bool" where
  "view_ok meta vs \<longleftrightarrow> distinct (map v2ID vs) \<and> (\<forall>v \<in> set vs. v2_static v = meta (v2ID v))"

lemma view_ok_registry: "v2_ok meta r \<Longrightarrow> view_ok meta (v2_viewRegistry r)"
  using v2pools.view_distinct [of r] keyed_Some_iff [of v2ID "v2_viewRegistry r"] by (auto simp: v2_ok_def view_ok_def)

definition v2m_inv :: "(uint64 \<Rightarrow> uint64 \<times> uint64 \<times> uint8 \<times> uint16) \<Rightarrow> V2Machine \<Rightarrow> bool" where
  "v2m_inv meta m \<longleftrightarrow> v2_ok meta (v2sRegistry (v2mSys m)) \<and> view_ok meta (v2sCachedView (v2mSys m)) \<and>
     (v2mPublishing m \<longrightarrow> v2mBlock m = None) \<and>
     (\<not> v2mPublishing m \<longrightarrow> v2sCachedView (v2mSys m) = v2_viewRegistry (v2sRegistry (v2mSys m)))"

lemma v2m_inv_start: "v2m_inv meta v2_start"
  by (simp add: v2m_inv_def v2_start_def NewUniswapV2System_def v2_ok_new view_ok_registry)

lemma v2m_step_inv: "v2m_step meta m m' \<Longrightarrow> v2m_inv meta m \<Longrightarrow> v2m_inv meta m'"
proof (induction rule: v2m_step.induct)
  case (v2m_apply m n us idOf)
  then have "v2_inv (v2sRegistry (v2mSys m))" by (simp add: v2m_inv_def v2_ok_def)
  from applyUpdates_spec [OF this, of idOf n us "fst (v2_applyUpdates idOf n us (v2sRegistry (v2mSys m)))" "snd (v2_applyUpdates idOf n us (v2sRegistry (v2mSys m)))" meta]
  have "v2_ok meta (snd (v2_applyUpdates idOf n us (v2sRegistry (v2mSys m))))" using v2_run_ok [of meta "v2sRegistry (v2mSys m)"] v2m_apply by (simp add: v2m_inv_def)
  then show ?case using v2m_apply by (auto simp: v2m_inv_def v2_block_apply_def)
next
  case (v2m_publish m)
  then show ?case by (simp add: v2m_inv_def v2s_updateCachedView_def view_ok_registry)
next
  case (v2m_logs m idOf t updated discovered)
  then have "v2_inv (v2sRegistry (v2mSys m))" by (simp add: v2m_inv_def v2_ok_def)
  from mark_updated_spec [OF this, of idOf t updated meta] v2m_logs show ?case
    by (auto simp: v2m_inv_def v2_apply_logs_def v2_ok_def)
next
  case (v2m_init m pools registerPools tokOf idOf errs s')
  then have ok: "v2_ok meta (v2sRegistry (v2mSys m))" and inv: "v2_inv (v2sRegistry (v2mSys m))" by (simp_all add: v2m_inv_def v2_ok_def)
  have run: "(v2_step meta)\<^sup>*\<^sup>* (v2sRegistry (v2mSys m)) (v2sRegistry s')" "v2sCachedView s' = v2_viewRegistry (v2sRegistry s')"
    using runInitializations_run [OF inv v2m_init(4) v2m_init(3)] v2m_init(1,5) by (auto simp: v2m_inv_def)
  have "v2_ok meta (v2sRegistry s')" by (rule v2_run_ok [OF run(1) ok])
  then show ?case using run(2) v2m_init(1) by (simp add: v2m_inv_def view_ok_registry)
next
  case (v2m_prune m ids errs cb s')
  then have ok: "v2_ok meta (v2sRegistry (v2mSys m))" and c: "v2sCachedView (v2mSys m) = v2_viewRegistry (v2sRegistry (v2mSys m))"
    by (simp_all add: v2m_inv_def)
  from deletePools_run [OF v2m_prune(2), of meta] c have run: "(v2_step meta)\<^sup>*\<^sup>* (v2sRegistry (v2mSys m)) (v2sRegistry s')"
    "v2sCachedView s' = v2_viewRegistry (v2sRegistry s')" by simp_all
  have "v2_ok meta (v2sRegistry s')" by (rule v2_run_ok [OF run(1) ok])
  then show ?case using run(2) v2m_prune(1) by (simp add: v2m_inv_def view_ok_registry)
qed (auto simp: v2m_inv_def v2_drainPending_def)

lemma v2m_run_inv: "(v2m_step meta)\<^sup>*\<^sup>* v2_start m \<Longrightarrow> v2m_inv meta m"
  by (induction rule: rtranclp_induct) (auto intro: v2m_inv_start v2m_step_inv)

section \<open>Properties\<close>

text \<open>An execution with one pool: it is discovered, initialised, and its reserves are fetched for block 10.\<close>

definition wit_item :: init_item where
  "wit_item = \<lparr>iiToken0 = [1], iiToken1 = [2], iiPoolType = 0, iiFeeBps = 30, iiReserve0 = 3, iiReserve1 = 4, iiErr = None\<rparr>"

definition wit_v2_sys :: "UniswapV2System" where
  "wit_v2_sys = \<lparr>v2sRegistry = one_pool\<lparr>u2Reserve0 := [3], u2Reserve1 := [4]\<rparr>, v2sCachedView = [wit_pool 7 3\<lparr>v2Reserve1 := 4\<rparr>],
     v2sLastUpdatedAtBlock = 0, v2sPendingInit = []\<rparr>"

definition wit_v2m :: V2Machine where
  "wit_v2m = \<lparr>v2mSys = wit_v2_sys, v2mBlock = Some (10, [([9], 5, 6)]), v2mPublishing = False, v2mInFlight = None\<rparr>"

definition wit_meta :: "uint64 \<Rightarrow> uint64 \<times> uint64 \<times> uint8 \<times> uint16" where
  "wit_meta k = (1, 2, 0, 30)"

lemma wit_v2m_reachable: "(v2m_step wit_meta)\<^sup>*\<^sup>* v2_start wit_v2m"
proof -
  let ?tok = "\<lambda>a. Some (if a = [1] then 1 else 2)" and ?id = "\<lambda>_. Some 7"
  let ?m1 = "v2_start\<lparr>v2mSys := v2_apply_logs (\<lambda>_. None) 0 [] [[9]] (v2mSys v2_start)\<rparr>"
  let ?m2 = "v2_start\<lparr>v2mInFlight := Some [[9]]\<rparr>"
  let ?m3 = "v2_start\<lparr>v2mSys := wit_v2_sys\<rparr>"
  have s1: "v2m_step wit_meta v2_start ?m1" by (rule v2m_logs) (simp add: v2_start_def)
  have "v2m_step wit_meta ?m1 (?m1\<lparr>v2mSys := NewUniswapV2System, v2mInFlight := Some [[9]]\<rparr>)"
    by (rule v2m_drain) (simp_all add: v2_start_def v2_drainPending_def v2_apply_logs_def queue_discovered_def NewUniswapV2System_def)
  then have s2: "v2m_step wit_meta ?m1 ?m2" by (simp add: v2_start_def)
  have "v2m_step wit_meta ?m2 (?m2\<lparr>v2mSys := wit_v2_sys, v2mInFlight := None\<rparr>)"
  proof (rule v2m_init [where pools = "[([9], wit_item)]" and tokOf = ?tok and idOf = ?id and registerPools = "\<lambda>_. [(7, None)]" and errs = "[]"])
    show "v2_runInitializations ?tok ?id (\<lambda>_. [(7, None)]) [([9], wit_item)] (v2mSys ?m2) = ([], wit_v2_sys)"
      by (simp add: v2_runInitializations_def v2_applyInitializations_def wit_item_def v2_start_def NewUniswapV2System_def v2_eval one_pool_def
          wit_v2_sys_def v2s_updateCachedView_def wit_pool_def)
  qed (auto simp: v2_start_def wit_item_def init_world_def wit_meta_def split: option.splits)
  then have s3: "v2m_step wit_meta ?m2 ?m3" by (simp add: v2_start_def)
  have "v2m_step wit_meta ?m3 (?m3\<lparr>v2mBlock := Some (10, v2_fetch (\<lambda>_. Some [9]) (\<lambda>_. [Inr (5, 6)]) (v2sCachedView (v2mSys ?m3)))\<rparr>)"
    by (rule v2m_fetch) (simp_all add: v2_start_def)
  then have s4: "v2m_step wit_meta ?m3 wit_v2m"
    by (simp add: v2_start_def wit_v2m_def v2_fetch_def wit_v2_sys_def List.map_filter_def)
  show ?thesis using s1 s2 s3 s4 by (meson converse_rtranclp_into_rtranclp rtranclp.rtrancl_refl)
qed

text \<open>
  C22: The Uniswap V2 system over all interleavings of its goroutines. The registry satisfies its invariant; the cached view shows every
  pool once, with the tokens, type and fee of the chain, and is the view of the registry except between the two stores of
  the block handler; and the views of any two moments are such that the differ misses nothing.
\<close>

theorem v2_system_consistent:
  assumes "(v2m_step meta)\<^sup>*\<^sup>* v2_start m" and "(v2m_step meta)\<^sup>*\<^sup>* v2_start m'"
  shows "v2_inv (v2sRegistry (v2mSys m)) \<and> distinct (map v2ID (v2s_View (v2mSys m))) \<and>
    (\<forall>v \<in> set (v2s_View (v2mSys m)). v2_static v = meta (v2ID v)) \<and>
    (\<not> v2mPublishing m \<longrightarrow> v2s_View (v2mSys m) = v2_viewRegistry (v2sRegistry (v2mSys m))) \<and>
    data_compat e UniswapV2ProtocolSchema (V2Data (v2s_View (v2mSys m))) (V2Data (v2s_View (v2mSys m')))"
proof -
  have inv: "v2m_inv meta m" "v2m_inv meta m'" using assms by (simp_all add: v2m_run_inv)
  then have ok: "view_ok meta (v2s_View (v2mSys m))" "view_ok meta (v2s_View (v2mSys m'))" by (simp_all add: v2m_inv_def v2s_View_def)
  have "view_compat v2ID (=) v2_changed (v2s_View (v2mSys m)) (v2s_View (v2mSys m'))"
  proof (rule view_compat_v2I)
    fix w v assume a: "w \<in> set (v2s_View (v2mSys m))" "v \<in> set (v2s_View (v2mSys m'))" "v2ID w = v2ID v" "\<not> v2_changed w v"
    then have "v2_static w = v2_static v" using ok by (simp add: view_ok_def)
    then show "w = v" using a(3,4) by (simp add: v2_static_def v2_changed_def)
  qed (use ok in \<open>simp_all add: view_ok_def\<close>)
  then show ?thesis using inv(1) ok(1) by (simp add: v2m_inv_def v2_ok_def view_ok_def v2s_View_def)
qed

theorem v2_system_consistent_witness:
  "distinct (map v2ID (v2s_View wit_v2_sys)) \<and> v2s_View wit_v2_sys = v2_viewRegistry (v2sRegistry wit_v2_sys)"
  using v2_system_consistent [OF wit_v2m_reachable wit_v2m_reachable] by (auto simp: wit_v2m_def)

text \<open>
  A block in the Uniswap V2 system. When the reserves fetched for a block have been applied and published, the view shows
  exactly the pools of the registry before, each with the reserves fetched last for an address that resolves to it and
  otherwise unchanged, and the system reports the block.
\<close>

theorem v2_block_published:
  assumes "(v2m_step meta)\<^sup>*\<^sup>* v2_start m" and "v2mBlock m = Some (n, us)"
  shows "let s = v2s_updateCachedView (v2_block_apply idOf n us (v2mSys m)) in
    v2s_LastUpdatedAtBlock s = n \<and> map v2ID (v2s_View s) = map v2ID (v2s_View (v2mSys m)) \<and>
    (\<forall>k. keyed v2ID (v2s_View s) k = map_option (with_reserves (latest_update idOf us k)) (keyed v2ID (v2s_View (v2mSys m)) k))"
proof -
  have inv: "v2m_inv meta m" by (rule v2m_run_inv [OF assms(1)])
  let ?r = "v2sRegistry (v2mSys m)"
  have "v2_inv ?r" and c: "v2s_View (v2mSys m) = v2_viewRegistry ?r"
    using inv assms(2) by (auto simp: v2m_inv_def v2_ok_def v2s_View_def)
  from applyUpdates_spec [OF this(1), of idOf n us "fst (v2_applyUpdates idOf n us ?r)" "snd (v2_applyUpdates idOf n us ?r)" meta] show ?thesis
    by (simp add: v2s_updateCachedView_def v2_block_apply_def v2s_LastUpdatedAtBlock_def c) (simp add: v2s_View_def v2_view_ids)
qed

theorem v2_block_published_witness:
  "keyed v2ID (v2s_View (v2s_updateCachedView (v2_block_apply (\<lambda>_. Some 7) 10 [([9], 5, 6)] wit_v2_sys))) 7 =
     Some \<lparr>v2ID = 7, v2Token0 = 1, v2Token1 = 2, v2Reserve0 = 5, v2Reserve1 = 6, v2Type = 0, v2FeeBps = 30\<rparr>"
  using v2_block_published [OF wit_v2m_reachable, of 10 "[([9], 5, 6)]" "\<lambda>_. Some 7"]
  by (simp add: wit_v2m_def Let_def) (simp add: wit_v2_sys_def v2s_View_def wit_pool_def with_reserves_def)

text \<open>
  The block number is stored before the view: in between, a reader that asks for the block and then for the view, as the
  engine does, gets the new block with the reserves of the old one.
\<close>

lemma v2_block_before_view:
  "\<exists>m. (v2m_step wit_meta)\<^sup>*\<^sup>* v2_start m \<and> v2s_LastUpdatedAtBlock (v2mSys m) = 10 \<and>
     v2s_View (v2mSys m) = v2s_View wit_v2_sys \<and> v2s_View (v2mSys m) \<noteq> v2_viewRegistry (v2sRegistry (v2mSys m))"
proof -
  let ?m = "wit_v2m\<lparr>v2mSys := v2_block_apply (\<lambda>_. Some 7) 10 [([9], 5, 6)] (v2mSys wit_v2m), v2mBlock := None, v2mPublishing := True\<rparr>"
  have "v2m_step wit_meta wit_v2m ?m" by (rule v2m_apply) (simp add: wit_v2m_def)
  then have "(v2m_step wit_meta)\<^sup>*\<^sup>* v2_start ?m" using wit_v2m_reachable by (rule rtranclp.rtrancl_into_rtrancl [rotated])
  moreover have "v2s_LastUpdatedAtBlock (v2mSys ?m) = 10 \<and> v2s_View (v2mSys ?m) = v2s_View wit_v2_sys \<and>
      v2s_View (v2mSys ?m) \<noteq> v2_viewRegistry (v2sRegistry (v2mSys ?m))"
    by (simp add: wit_v2m_def v2_block_apply_def v2s_LastUpdatedAtBlock_def v2s_View_def wit_v2_sys_def v2_hasPool_def one_pool_def v2_eval wit_pool_def)
  ultimately show ?thesis by blast
qed

end
