(* ===== verification/Tick_Math.thy ===== *)
theory Tick_Math
  imports Go_Prelude
begin

text \<open>
  Tick and price conversion of Uniswap V3, \<^verbatim>\<open>src/protocols/uniswap-v3/math/tickmath/tickmath.go\<close>. The
  fixed-width arithmetic of \<^verbatim>\<open>github.com/holiman/uint256\<close> is a parameter: a record of the operations
  the file calls, with the locale \<open>uint256_pkg\<close> for what the package documents of them. Ticks
  are \<^verbatim>\<open>int64\<close> values of the code that stay far inside that range, and are integers here.
\<close>

section \<open>The operations of the \<^verbatim>\<open>uint256\<close> package\<close>

record 'u uint256 =
  u_MustFromBig :: "int \<Rightarrow> 'u"
  u_IntoBig :: "'u \<Rightarrow> int"
  u_Mul :: "'u \<Rightarrow> 'u \<Rightarrow> 'u"
  u_Div :: "'u \<Rightarrow> 'u \<Rightarrow> 'u"
  u_Add :: "'u \<Rightarrow> 'u \<Rightarrow> 'u"
  u_And :: "'u \<Rightarrow> 'u \<Rightarrow> 'u"
  u_Rsh :: "'u \<Rightarrow> nat \<Rightarrow> 'u"
  u_Sign :: "'u \<Rightarrow> int"

text \<open>
  The documented behaviour: arithmetic wraps modulo \<open>2 ^ 256\<close>, \<^verbatim>\<open>Div\<close> by zero gives zero, \<^verbatim>\<open>Sign\<close> reads
  the value as a two's complement number.
\<close>

locale uint256_pkg =
  fixes U :: "'u uint256"
  assumes range: "0 \<le> u_IntoBig U a \<and> u_IntoBig U a < 2 ^ 256"
    and FromBig: "0 \<le> x \<Longrightarrow> x < 2 ^ 256 \<Longrightarrow> u_IntoBig U (u_MustFromBig U x) = x"
    and Mul: "u_IntoBig U (u_Mul U a b) = (u_IntoBig U a * u_IntoBig U b) mod 2 ^ 256"
    and Div: "u_IntoBig U (u_Div U a b) = (if u_IntoBig U b = 0 then 0 else u_IntoBig U a div u_IntoBig U b)"
    and Add: "u_IntoBig U (u_Add U a b) = (u_IntoBig U a + u_IntoBig U b) mod 2 ^ 256"
    and And: "u_IntoBig U (u_And U a b) = u_IntoBig U a AND u_IntoBig U b"
    and Rsh: "u_IntoBig U (u_Rsh U a n) = u_IntoBig U a div 2 ^ n"
    and Sign: "u_Sign U a = (if u_IntoBig U a = 0 then 0 else if u_IntoBig U a < 2 ^ 255 then 1 else - 1)"

section \<open>\<^verbatim>\<open>tickmath.go\<close>\<close>

definition MIN_TICK :: int where
  "MIN_TICK = - 887272"

definition MAX_TICK :: int where
  "MAX_TICK = 887272"

definition MIN_SQRT_RATIO :: int where
  "MIN_SQRT_RATIO = 4295128739"

definition MAX_SQRT_RATIO :: int where
  "MAX_SQRT_RATIO = 1461446703485210103287273052203988822378723970342"

datatype tick_error = ErrTickOutOfBounds | ErrSqrtPriceOutOfBounds

definition maxUint256 :: int where
  "maxUint256 = 2 ^ 256 - 1"

definition ratioConstants :: "int list" where
  "ratioConstants =
     [0xfffcb933bd6fad37aa2d162d1a594001,
      0x100000000000000000000000000000000,
      0xfff97272373d413259a46990580e213a,
      0xfff2e50f5f656932ef12357cf3c7fdcc,
      0xffe5caca7e10e4e61c3624eaa0941cd0,
      0xffcb9843d60f6159c9db58835c926644,
      0xff973b41fa98c081472e6896dfb254c0,
      0xff2ea16466c96a3843ec78b326b52861,
      0xfe5dee046a99a2a811c461f1969c3053,
      0xfcbe86c7900a88aedcffc83b479aa3a4,
      0xf987a7253ac413176f2b074cf7815e54,
      0xf3392b0822b70005940c7a398e4b70f3,
      0xe7159475a2c29b7443b29c7fa6e889d9,
      0xd097f3bdfd2022b8845ad8f792aa5825,
      0xa9f746462d870fdf8a65dc1f90e061e5,
      0x70d869a156d2a1b890bb3df62baf32f7,
      0x31be135f97d08fd981231505542fcfa6,
      0x9aa508b5b7a84e1c677de54f3e99bc9,
      0x5d6af8dedb81196699c329225ee604,
      0x2216e584f5fa1ea926041bedfe98,
      0x48a170391f7dc42444e8fa2,
      0xffffffff]"

definition GetSqrtRatioAtTick :: "'u uint256 \<Rightarrow> int \<Rightarrow> tick_error + int" where
  "GetSqrtRatioAtTick U tick =
     (if tick < MIN_TICK \<or> tick > MAX_TICK then Inl ErrTickOutOfBounds
      else let
        absTick = (if tick < 0 then - tick else tick);
        ratio = u_MustFromBig U (if absTick AND 0x1 \<noteq> 0 then ratioConstants ! 0 else ratioConstants ! 1);
        ratio = foldl (\<lambda>ratio i. if absTick AND push_bit (i - 1) 1 \<noteq> 0
                  then u_Rsh U (u_Mul U ratio (u_MustFromBig U (ratioConstants ! i))) 128 else ratio) ratio [2..<21];
        ratio = (if tick > 0 then u_Div U (u_MustFromBig U maxUint256) ratio else ratio);
        rem = u_And U ratio (u_MustFromBig U (ratioConstants ! 21));
        ratio = u_Rsh U ratio 32;
        ratio = (if u_Sign U rem > 0 then u_Add U ratio (u_MustFromBig U 1) else ratio)
      in Inr (u_IntoBig U ratio))"

text \<open>The binary search of \<^verbatim>\<open>GetTickAtSqrtRatio\<close>.\<close>

lemma go_quot_mid: "low \<le> high \<Longrightarrow> low \<le> go_quot (low + high) 2 \<and> go_quot (low + high) 2 \<le> high"
  by (auto simp: go_quot_def sgn_if split: if_splits)

function tick_search :: "'u uint256 \<Rightarrow> int \<Rightarrow> int \<Rightarrow> int \<Rightarrow> int \<Rightarrow> tick_error + int" where
  "tick_search U sqrtPriceX96 low high tick =
     (if low \<le> high then
        let mid = go_quot (low + high) 2 in
        case GetSqrtRatioAtTick U mid of
          Inl err \<Rightarrow> Inl err
        | Inr sqrtRatio \<Rightarrow>
            if sqrtRatio \<le> sqrtPriceX96 then tick_search U sqrtPriceX96 (mid + 1) high mid
            else tick_search U sqrtPriceX96 low (mid - 1) tick
      else Inr tick)"
  by auto
termination
  by (relation "measure (\<lambda>(U, p, low, high, tick). nat (high - low + 1))") (use go_quot_mid in \<open>fastforce+\<close>)

declare tick_search.simps [simp del]

definition GetTickAtSqrtRatio :: "'u uint256 \<Rightarrow> int \<Rightarrow> tick_error + int" where
  "GetTickAtSqrtRatio U sqrtPriceX96 =
     (if sqrtPriceX96 < MIN_SQRT_RATIO \<or> sqrtPriceX96 \<ge> MAX_SQRT_RATIO then Inl ErrSqrtPriceOutOfBounds
      else tick_search U sqrtPriceX96 MIN_TICK MAX_TICK 0)"

section \<open>The price of a tick on integers\<close>

text \<open>
  The loop of \<^verbatim>\<open>GetSqrtRatioAtTick\<close> over the bits of \<^verbatim>\<open>absTick\<close>, from the lowest, on unbounded integers.
\<close>

definition tick_consts :: "int list" where
  "tick_consts = ratioConstants ! 0 # map (\<lambda>i. ratioConstants ! i) [2..<21]"

primrec ratio_product :: "int list \<Rightarrow> int \<Rightarrow> int \<Rightarrow> int" where
  "ratio_product [] n x = x"
| "ratio_product (c # cs) n x = ratio_product cs (n div 2) (if odd n then x * c div 2 ^ 128 else x)"

definition raw_ratio :: "int \<Rightarrow> int" where
  "raw_ratio n = ratio_product tick_consts n (2 ^ 128)"

definition sqrt_ratio :: "int \<Rightarrow> int" where
  "sqrt_ratio t = ceil_div (if t > 0 then maxUint256 div raw_ratio t else raw_ratio (- t)) (2 ^ 32)"

text \<open>
  \<open>gaps x cs\<close>: the product of all constants before a position exceeds the constant at that position
  by a factor of at least \<open>1 + 52 / 2 ^ 20\<close> (one tick is a factor of about \<open>1 + 52.4 / 2 ^ 20\<close>).
\<close>

primrec gaps :: "int \<Rightarrow> int list \<Rightarrow> bool" where
  "gaps x [] = True"
| "gaps x (c # cs) = ((2 ^ 20 + 52) * c \<le> 2 ^ 20 * x \<and> gaps (x * c div 2 ^ 128) cs)"

lemma tick_consts_list:
  "tick_consts = [0xfffcb933bd6fad37aa2d162d1a594001, 0xfff97272373d413259a46990580e213a,
      0xfff2e50f5f656932ef12357cf3c7fdcc, 0xffe5caca7e10e4e61c3624eaa0941cd0, 0xffcb9843d60f6159c9db58835c926644,
      0xff973b41fa98c081472e6896dfb254c0, 0xff2ea16466c96a3843ec78b326b52861, 0xfe5dee046a99a2a811c461f1969c3053,
      0xfcbe86c7900a88aedcffc83b479aa3a4, 0xf987a7253ac413176f2b074cf7815e54, 0xf3392b0822b70005940c7a398e4b70f3,
      0xe7159475a2c29b7443b29c7fa6e889d9, 0xd097f3bdfd2022b8845ad8f792aa5825, 0xa9f746462d870fdf8a65dc1f90e061e5,
      0x70d869a156d2a1b890bb3df62baf32f7, 0x31be135f97d08fd981231505542fcfa6, 0x9aa508b5b7a84e1c677de54f3e99bc9,
      0x5d6af8dedb81196699c329225ee604, 0x2216e584f5fa1ea926041bedfe98, 0x48a170391f7dc42444e8fa2]"
  by (simp add: tick_consts_def ratioConstants_def upt_rec [of 2])

lemma tick_consts_gaps: "gaps (2 ^ 128) tick_consts"
  by (simp add: tick_consts_list)

lemma tick_consts_range: "c \<in> set tick_consts \<Longrightarrow> 0 \<le> c \<and> c < 2 ^ 128"
  by (auto simp: tick_consts_list)

lemma length_tick_consts: "length tick_consts = 20"
  by (simp add: tick_consts_list)

lemma ratio_all_ones: "ratio_product tick_consts (- 1) (2 ^ 128) = 5800441176149320"
  by (simp add: tick_consts_list)

lemma scaled_le:
  fixes x c :: int
  assumes "0 \<le> x" and "0 \<le> c" and "c \<le> 2 ^ 128"
  shows "0 \<le> x * c div 2 ^ 128" and "x * c div 2 ^ 128 \<le> x"
proof -
  have "x * c \<le> x * 2 ^ 128" using assms(1,3) by (rule mult_left_mono [rotated])
  then have "x * c div 2 ^ 128 \<le> x * 2 ^ 128 div 2 ^ 128" by (rule zdiv_mono1) simp
  then show "x * c div 2 ^ 128 \<le> x" by simp
  show "0 \<le> x * c div 2 ^ 128" using assms by (simp add: pos_imp_zdiv_nonneg_iff)
qed

lemma ratio_product_mono:
  assumes "\<forall>c \<in> set cs. 0 \<le> c" and "x \<le> y"
  shows "ratio_product cs n x \<le> ratio_product cs n y"
  using assms
proof (induction cs arbitrary: n x y)
  case (Cons c cs)
  have "x * c \<le> y * c" using Cons.prems by (simp add: mult_right_mono)
  then have "x * c div 2 ^ 128 \<le> y * c div 2 ^ 128" by (rule zdiv_mono1) simp
  then show ?case using Cons by (cases "odd n") simp_all
qed simp

lemma ratio_product_le:
  assumes "\<forall>c \<in> set cs. 0 \<le> c \<and> c < 2 ^ 128" and "0 \<le> x"
  shows "0 \<le> ratio_product cs n x \<and> ratio_product cs n x \<le> x"
  using assms
proof (induction cs arbitrary: n x)
  case (Cons c cs)
  have c: "0 \<le> x * c div 2 ^ 128" "x * c div 2 ^ 128 \<le> x" using scaled_le [of x c] Cons.prems by auto
  show ?case
  proof (cases "odd n")
    case True
    have "0 \<le> ratio_product cs (n div 2) (x * c div 2 ^ 128) \<and> ratio_product cs (n div 2) (x * c div 2 ^ 128) \<le> x * c div 2 ^ 128"
      by (rule Cons.IH) (use Cons.prems c in auto)
    then show ?thesis using True c by simp
  next
    case False
    then show ?thesis using Cons by simp
  qed
qed simp

lemma ratio_product_ge_ones:
  assumes "\<forall>c \<in> set cs. 0 \<le> c \<and> c < 2 ^ 128" and "0 \<le> x"
  shows "ratio_product cs (- 1) x \<le> ratio_product cs n x"
  using assms
proof (induction cs arbitrary: n x)
  case (Cons c cs)
  have c: "0 \<le> x * c div 2 ^ 128" "x * c div 2 ^ 128 \<le> x" using scaled_le [of x c] Cons.prems by auto
  have "ratio_product cs (- 1) (x * c div 2 ^ 128) \<le> ratio_product cs (n div 2) (x * c div 2 ^ 128)"
    by (rule Cons.IH) (use Cons.prems c in auto)
  also have "\<dots> \<le> ratio_product cs (n div 2) (if odd n then x * c div 2 ^ 128 else x)"
    by (rule ratio_product_mono) (use Cons.prems c in auto)
  finally show ?case by simp
qed simp

text \<open>A relative gap between two values survives the common factors, up to one unit per factor.\<close>

lemma gap_step:
  fixes x y c d E K M :: int
  assumes gap: "(K + d) * y \<le> K * x + E" and c: "0 \<le> c" "c \<le> M" and M: "0 < M" and K: "0 \<le> K" "0 \<le> d" "0 \<le> E"
  shows "(K + d) * (y * c div M) \<le> K * (x * c div M) + E + K"
proof -
  have x: "x * c \<le> M * (x * c div M) + M"
    using pos_mod_bound [OF M, of "x * c"] mult_div_mod_eq [of M "x * c"] by linarith
  have y: "M * (y * c div M) \<le> y * c"
    using pos_mod_sign [OF M, of "y * c"] mult_div_mod_eq [of M "y * c"] by linarith
  have "M * ((K + d) * (y * c div M)) = (K + d) * (M * (y * c div M))" by (simp add: mult.left_commute)
  also have "\<dots> \<le> (K + d) * (y * c)" using y K by (intro mult_left_mono) auto
  also have "\<dots> = ((K + d) * y) * c" by simp
  also have "\<dots> \<le> (K * x + E) * c" using gap c(1) by (rule mult_right_mono)
  also have "\<dots> = K * (x * c) + E * c" by (simp add: distrib_right)
  also have "\<dots> \<le> K * (M * (x * c div M) + M) + E * M" using x K c by (intro add_mono mult_left_mono) auto
  also have "\<dots> = M * (K * (x * c div M) + E + K)" by (simp add: algebra_simps)
  finally show ?thesis using M by simp
qed

lemma gap_keeps:
  fixes x y E :: int
  assumes "(2 ^ 20 + 52) * y \<le> 2 ^ 20 * x + E" and "0 \<le> E" and "\<forall>c \<in> set cs. 0 \<le> c \<and> c < 2 ^ 128"
  shows "(2 ^ 20 + 52) * ratio_product cs n y \<le> 2 ^ 20 * ratio_product cs n x + E + 2 ^ 20 * int (length cs)"
  using assms
proof (induction cs arbitrary: n x y E)
  case (Cons c cs)
  show ?case
  proof (cases "odd n")
    case True
    have "(2 ^ 20 + 52) * (y * c div 2 ^ 128) \<le> 2 ^ 20 * (x * c div 2 ^ 128) + E + 2 ^ 20"
      by (rule gap_step) (use Cons.prems in auto)
    then have "(2 ^ 20 + 52) * (y * c div 2 ^ 128) \<le> 2 ^ 20 * (x * c div 2 ^ 128) + (E + 2 ^ 20)" by simp
    from Cons.IH [OF this, of "n div 2"] True Cons.prems show ?thesis by simp
  next
    case False
    from Cons.IH [OF Cons.prems(1,2), of "n div 2"] False Cons.prems(3) show ?thesis by simp
  qed
qed simp

lemma carry_gap:
  assumes "gaps x cs" and "0 \<le> n" and "n + 1 < 2 ^ length cs" and "\<forall>c \<in> set cs. 0 \<le> c \<and> c < 2 ^ 128"
  shows "(2 ^ 20 + 52) * ratio_product cs (n + 1) (2 ^ 128) \<le> 2 ^ 20 * ratio_product cs n x + 2 ^ 20 * int (length cs)"
  using assms
proof (induction cs arbitrary: n x)
  case (Cons c cs)
  show ?case
  proof (cases "odd n")
    case True
    then have n: "(n + 1) div 2 = n div 2 + 1" "even (n + 1)" by presburger+
    have "(2 ^ 20 + 52) * ratio_product cs (n div 2 + 1) (2 ^ 128) \<le>
        2 ^ 20 * ratio_product cs (n div 2) (x * c div 2 ^ 128) + 2 ^ 20 * int (length cs)"
    proof (rule Cons.IH)
      show "gaps (x * c div 2 ^ 128) cs" "\<forall>c \<in> set cs. 0 \<le> c \<and> c < 2 ^ 128" using Cons.prems by simp_all
      show "0 \<le> n div 2" using Cons.prems(2) by simp
      have "n + 1 < 2 * 2 ^ length cs" using Cons.prems(3) by simp
      then show "n div 2 + 1 < 2 ^ length cs" using True by presburger
    qed
    then show ?thesis using True n by simp
  next
    case False
    then have n: "(n + 1) div 2 = n div 2" "odd (n + 1)" by presburger+
    have "2 ^ 128 * c div 2 ^ 128 = c" by simp
    moreover have "(2 ^ 20 + 52) * ratio_product cs (n div 2) c \<le> 2 ^ 20 * ratio_product cs (n div 2) x + 0 + 2 ^ 20 * int (length cs)"
      by (rule gap_keeps) (use Cons.prems in auto)
    ultimately show ?thesis using False n by simp
  qed
qed simp

lemma raw_ratio_range: "5800441176149320 \<le> raw_ratio n" "raw_ratio n \<le> 2 ^ 128"
proof -
  have c: "\<forall>c \<in> set tick_consts. 0 \<le> c \<and> c < 2 ^ 128" using tick_consts_range by blast
  show "5800441176149320 \<le> raw_ratio n"
    using ratio_product_ge_ones [OF c, of "2 ^ 128" n] unfolding raw_ratio_def ratio_all_ones by simp
  show "raw_ratio n \<le> 2 ^ 128" using ratio_product_le [OF c, of "2 ^ 128" n] unfolding raw_ratio_def by simp
qed

lemma raw_ratio_Suc:
  assumes "0 \<le> n" and "n < 2 ^ 20 - 1"
  shows "(2 ^ 20 + 51) * raw_ratio (n + 1) \<le> 2 ^ 20 * raw_ratio n"
proof -
  have c: "\<forall>c \<in> set tick_consts. 0 \<le> c \<and> c < 2 ^ 128" using tick_consts_range by blast
  have "(2 ^ 20 + 52) * raw_ratio (n + 1) \<le> 2 ^ 20 * raw_ratio n + 2 ^ 20 * 20"
    using carry_gap [OF tick_consts_gaps assms(1) _ c] assms(2) unfolding raw_ratio_def length_tick_consts by simp
  then show ?thesis using raw_ratio_range(1) [of "n + 1"] by simp
qed

text \<open>The rounded prices of successive ticks differ, on either side of tick 0.\<close>

lemma ceil_div_gap: "(0 :: int) < b \<Longrightarrow> x + b \<le> y \<Longrightarrow> ceil_div x b < ceil_div y b"
proof -
  assume b: "0 < b" and "x + b \<le> y"
  then have "ceil_div x b * b < ceil_div y b * b" using ceil_div_less [OF b, of x] ceil_div_ge [OF b, of y] by linarith
  then show "ceil_div x b < ceil_div y b" using b by simp
qed

lemma raw_ratio_step:
  assumes "0 \<le> n" and "n < 2 ^ 20 - 1"
  shows "raw_ratio (n + 1) + 2 ^ 32 \<le> raw_ratio n"
    and "maxUint256 div raw_ratio n + 2 ^ 32 \<le> maxUint256 div raw_ratio (n + 1)"
proof -
  let ?b = "raw_ratio n" and ?a = "raw_ratio (n + 1)"
  note gap = raw_ratio_Suc [OF assms]
  show "?a + 2 ^ 32 \<le> ?b" using gap raw_ratio_range(1) [of "n + 1"] by simp
  define q where "q = maxUint256 div ?b"
  have ab: "0 < ?a" "0 < ?b" "?b \<le> 2 ^ 128" using raw_ratio_range [of n] raw_ratio_range [of "n + 1"] by simp_all
  have "maxUint256 div 2 ^ 128 \<le> q" unfolding q_def
    by (rule zdiv_mono2) (use ab in \<open>simp_all add: maxUint256_def\<close>)
  then have q: "2 ^ 128 - 1 \<le> q" by (simp add: maxUint256_def)
  have "2 ^ 20 * ((q + 2 ^ 32) * ?a) = q * (2 ^ 20 * ?a) + 2 ^ 52 * ?a" by (simp add: algebra_simps)
  also have "\<dots> \<le> q * (2 ^ 20 * ?a) + (51 * q) * ?a" using q ab by (intro add_left_mono mult_right_mono) auto
  also have "\<dots> = q * ((2 ^ 20 + 51) * ?a)" by (simp add: algebra_simps)
  also have "\<dots> \<le> q * (2 ^ 20 * ?b)" using gap q by (intro mult_left_mono) auto
  also have "\<dots> = 2 ^ 20 * (q * ?b)" by simp
  finally have "(q + 2 ^ 32) * ?a \<le> q * ?b" by simp
  also have "\<dots> \<le> maxUint256" unfolding q_def using le_div_iff_mult [OF ab(2)] by blast
  finally show "q + 2 ^ 32 \<le> maxUint256 div ?a" using le_div_iff_mult [OF ab(1)] by blast
qed

lemma sqrt_ratio_step:
  assumes "MIN_TICK \<le> t" and "t < MAX_TICK"
  shows "sqrt_ratio t < sqrt_ratio (t + 1)"
proof -
  consider "t < 0" | "t = 0" | "0 < t" by linarith
  then show ?thesis
  proof cases
    case 1
    then have "raw_ratio (- t) + 2 ^ 32 \<le> raw_ratio (- (t + 1))"
      using raw_ratio_step(1) [of "- t - 1"] assms by (simp add: MIN_TICK_def)
    then have "ceil_div (raw_ratio (- t)) (2 ^ 32) < ceil_div (raw_ratio (- (t + 1))) (2 ^ 32)" by (intro ceil_div_gap) simp_all
    then show ?thesis using 1 by (simp add: sqrt_ratio_def)
  next
    case 2
    then show ?thesis by (simp add: sqrt_ratio_def raw_ratio_def tick_consts_list maxUint256_def ceil_div_def)
  next
    case 3
    then have "ceil_div (maxUint256 div raw_ratio t) (2 ^ 32) < ceil_div (maxUint256 div raw_ratio (t + 1)) (2 ^ 32)"
      using raw_ratio_step(2) [of t] assms by (intro ceil_div_gap) (simp_all add: MAX_TICK_def)
    then show ?thesis using 3 by (simp add: sqrt_ratio_def)
  qed
qed

lemma sqrt_ratio_less:
  assumes "MIN_TICK \<le> s" and "s < t" and "t \<le> MAX_TICK"
  shows "sqrt_ratio s < sqrt_ratio t"
  using assms(2,3)
proof (induction t rule: int_gr_induct)
  case base
  then show ?case using sqrt_ratio_step [of s] assms(1) by simp
next
  case (step i)
  then show ?case using sqrt_ratio_step [of i] assms(1) by simp
qed

lemma sqrt_ratio_ends: "sqrt_ratio MIN_TICK = MIN_SQRT_RATIO" "sqrt_ratio MAX_TICK = MAX_SQRT_RATIO"
  by (simp_all add: sqrt_ratio_def raw_ratio_def tick_consts_list maxUint256_def ceil_div_def MIN_TICK_def MAX_TICK_def
      MIN_SQRT_RATIO_def MAX_SQRT_RATIO_def)

lemma sqrt_ratio_mono: "MIN_TICK \<le> s \<Longrightarrow> s \<le> t \<Longrightarrow> t \<le> MAX_TICK \<Longrightarrow> sqrt_ratio s \<le> sqrt_ratio t"
  using sqrt_ratio_less [of s t] by (cases "s = t") auto

section \<open>The code computes these prices\<close>

lemma and_push_bit_iff: "n AND push_bit k 1 \<noteq> 0 \<longleftrightarrow> odd (n div 2 ^ k)" for n :: int
proof -
  have "n AND push_bit k 1 \<noteq> 0 \<longleftrightarrow> bit n k"
    by (simp add: push_bit_eq_mult and_exp_eq_0_iff_not_bit)
  then show ?thesis by (simp add: bit_iff_odd)
qed

lemma ratio_product_foldl:
  assumes "1 \<le> a"
  shows "foldl (\<lambda>x i. if odd (n div 2 ^ (i - 1)) then x * K i div 2 ^ 128 else x) x [a..<b] =
    ratio_product (map K [a..<b]) (n div 2 ^ (a - 1)) x" (is "foldl ?f x _ = _")
  using assms
proof (induction "b - a" arbitrary: a x)
  case (Suc d)
  then have l: "[a..<b] = a # [Suc a..<b]" by (simp add: upt_conv_Cons)
  have e: "(n div 2 ^ (a - 1)) div 2 = n div 2 ^ (Suc a - 1)"
    using Suc.prems by (cases a) (simp_all add: zdiv_zmult2_eq [symmetric] mult.commute)
  have "foldl ?f (?f x a) [Suc a..<b] = ratio_product (map K [Suc a..<b]) (n div 2 ^ (Suc a - 1)) (?f x a)"
    using Suc by (intro Suc.hyps(1)) auto
  then show ?case unfolding l list.map foldl_Cons ratio_product.simps e .
qed simp

lemma ratio_product_first:
  assumes "0 \<le> n"
  shows "raw_ratio n = foldl (\<lambda>x i. if odd (n div 2 ^ (i - 1)) then x * (ratioConstants ! i) div 2 ^ 128 else x)
    (if odd n then ratioConstants ! 0 else ratioConstants ! 1) [2..<21]"
proof -
  have "raw_ratio n = ratio_product (map (\<lambda>i. ratioConstants ! i) [2..<21]) (n div 2)
      (if odd n then ratioConstants ! 0 else ratioConstants ! 1)"
    unfolding raw_ratio_def tick_consts_def by (simp add: ratioConstants_def del: upt_rec_numeral)
  moreover have "n div 2 = n div 2 ^ (2 - 1)" by simp
  ultimately show ?thesis using ratio_product_foldl [of 2 n "\<lambda>i. ratioConstants ! i" _ 21] by (simp only:)
qed

lemma ratioConstants_range: "i \<in> {2..<21} \<Longrightarrow> 0 \<le> ratioConstants ! i \<and> ratioConstants ! i < 2 ^ 128"
proof -
  assume "i \<in> {2..<21}"
  then have "ratioConstants ! i \<in> set tick_consts" unfolding tick_consts_def by (auto simp del: upt_rec_numeral)
  then show ?thesis by (rule tick_consts_range)
qed

context uint256_pkg
begin

lemma Mul_Rsh:
  assumes "u_IntoBig U r \<le> 2 ^ 128" and "0 \<le> c" and "c < 2 ^ 128"
  shows "u_IntoBig U (u_Rsh U (u_Mul U r (u_MustFromBig U c)) 128) = u_IntoBig U r * c div 2 ^ 128"
proof -
  have "u_IntoBig U r * c \<le> 2 ^ 128 * c" using assms by (intro mult_right_mono) auto
  also have "\<dots> < 2 ^ 256" using assms by simp
  finally have "u_IntoBig U r * c < 2 ^ 256" .
  moreover have "0 \<le> u_IntoBig U r * c" using assms range by simp
  moreover have "u_IntoBig U (u_MustFromBig U c) = c" using assms by (intro FromBig) simp_all
  ultimately show ?thesis by (simp only: Rsh Mul mod_pos_pos_trivial)
qed

lemma ratio_loop:
  assumes "\<forall>i \<in> set is. 0 \<le> K i \<and> K i < 2 ^ 128" and "u_IntoBig U r \<le> 2 ^ 128"
  shows "u_IntoBig U (foldl (\<lambda>r i. if P i then u_Rsh U (u_Mul U r (u_MustFromBig U (K i))) 128 else r) r is) =
    foldl (\<lambda>x i. if P i then x * K i div 2 ^ 128 else x) (u_IntoBig U r) is"
  using assms
proof (induction "is" arbitrary: r)
  case (Cons i "is")
  show ?case
  proof (cases "P i")
    case True
    let ?r = "u_Rsh U (u_Mul U r (u_MustFromBig U (K i))) 128"
    have e: "u_IntoBig U ?r = u_IntoBig U r * K i div 2 ^ 128" by (rule Mul_Rsh) (use Cons.prems in auto)
    moreover have "u_IntoBig U r * K i div 2 ^ 128 \<le> u_IntoBig U r" by (rule scaled_le) (use Cons.prems range in auto)
    ultimately have "u_IntoBig U ?r \<le> 2 ^ 128" using Cons.prems by linarith
    from Cons.IH [OF _ this] Cons.prems True e show ?thesis by simp
  next
    case False
    then show ?thesis using Cons by simp
  qed
qed simp

lemma round_up:
  assumes "u_IntoBig U r < 2 ^ 256"
  shows "u_IntoBig U (if u_Sign U (u_And U r (u_MustFromBig U 0xffffffff)) > 0
      then u_Add U (u_Rsh U r 32) (u_MustFromBig U 1) else u_Rsh U r 32) = ceil_div (u_IntoBig U r) (2 ^ 32)"
proof -
  have "u_IntoBig U (u_And U r (u_MustFromBig U 0xffffffff)) = u_IntoBig U r AND mask 32"
    by (simp add: And FromBig mask_eq_exp_minus_1)
  then have m: "u_IntoBig U (u_And U r (u_MustFromBig U 0xffffffff)) = u_IntoBig U r mod 2 ^ 32"
    by (simp add: take_bit_eq_mask [symmetric] take_bit_eq_mod)
  have lt: "u_IntoBig U r mod 2 ^ 32 < 2 ^ 32" "0 \<le> u_IntoBig U r mod 2 ^ 32" by simp_all
  then have sg: "u_Sign U (u_And U r (u_MustFromBig U 0xffffffff)) > 0 \<longleftrightarrow> u_IntoBig U r mod 2 ^ 32 > 0"
    unfolding Sign m by (auto simp: less_le)
  have "u_IntoBig U r div 2 ^ 32 \<le> (2 ^ 256 - 1) div 2 ^ 32" using assms by (intro zdiv_mono1) simp_all
  moreover have "0 \<le> u_IntoBig U r div 2 ^ 32" using range by (simp add: pos_imp_zdiv_nonneg_iff)
  ultimately have "(u_IntoBig U r div 2 ^ 32 + 1) mod 2 ^ 256 = u_IntoBig U r div 2 ^ 32 + 1"
    by (intro mod_pos_pos_trivial) simp_all
  then show ?thesis using sg by (simp add: ceil_div_def Add Rsh FromBig)
qed

lemma GetSqrtRatioAtTick_eq:
  assumes "MIN_TICK \<le> t" and "t \<le> MAX_TICK"
  shows "GetSqrtRatioAtTick U t = Inr (sqrt_ratio t)"
proof -
  let ?n = "if t < 0 then - t else t"
  define r0 where "r0 = u_MustFromBig U (if ?n AND 0x1 \<noteq> 0 then ratioConstants ! 0 else ratioConstants ! 1)"
  define r1 where "r1 = foldl (\<lambda>ratio i. if ?n AND push_bit (i - 1) 1 \<noteq> 0
      then u_Rsh U (u_Mul U ratio (u_MustFromBig U (ratioConstants ! i))) 128 else ratio) r0 [2..<21]"
  define r2 where "r2 = (if t > 0 then u_Div U (u_MustFromBig U maxUint256) r1 else r1)"
  have n0: "0 \<le> ?n" by simp
  have c: "ratioConstants ! 0 = 0xfffcb933bd6fad37aa2d162d1a594001" "ratioConstants ! 1 = 2 ^ 128" "ratioConstants ! 21 = 0xffffffff"
    by (simp_all add: ratioConstants_def)
  have "?n AND 1 \<noteq> 0 \<longleftrightarrow> odd ?n" using and_push_bit_iff [of ?n 0] by simp
  then have r0: "u_IntoBig U r0 = (if odd ?n then ratioConstants ! 0 else ratioConstants ! 1)"
    unfolding r0_def c by (simp add: FromBig)
  have "u_IntoBig U r1 = foldl (\<lambda>x i. if ?n AND push_bit (i - 1) 1 \<noteq> 0 then x * (ratioConstants ! i) div 2 ^ 128 else x) (u_IntoBig U r0) [2..<21]"
    unfolding r1_def by (rule ratio_loop) (use ratioConstants_range in \<open>auto simp: r0 c simp del: upt_rec_numeral One_nat_def\<close>)
  then have r1: "u_IntoBig U r1 = raw_ratio ?n" unfolding and_push_bit_iff r0 ratio_product_first [OF n0] .
  have r2: "u_IntoBig U r2 = (if t > 0 then maxUint256 div raw_ratio t else raw_ratio (- t))"
    using raw_ratio_range(1) [of t] by (auto simp: r2_def Div r1 FromBig maxUint256_def)
  have "GetSqrtRatioAtTick U t = Inr (u_IntoBig U (if u_Sign U (u_And U r2 (u_MustFromBig U (ratioConstants ! 21))) > 0
      then u_Add U (u_Rsh U r2 32) (u_MustFromBig U 1) else u_Rsh U r2 32))"
    using assms unfolding GetSqrtRatioAtTick_def Let_def r2_def r1_def r0_def by simp
  also have "\<dots> = Inr (ceil_div (u_IntoBig U r2) (2 ^ 32))" unfolding c(3) using round_up range by blast
  finally show ?thesis unfolding r2 sqrt_ratio_def .
qed

lemma tick_search_correct:
  assumes "MIN_TICK \<le> low" and "high \<le> MAX_TICK" and "low \<le> high + 1"
    and "low = MIN_TICK \<or> tick = low - 1" and "MIN_TICK < low \<Longrightarrow> sqrt_ratio (low - 1) \<le> p"
    and "high < MAX_TICK \<Longrightarrow> p < sqrt_ratio (high + 1)" and "MIN_SQRT_RATIO \<le> p" and "p < MAX_SQRT_RATIO"
  shows "\<exists>t. tick_search U p low high tick = Inr t \<and> MIN_TICK \<le> t \<and> t < MAX_TICK \<and> sqrt_ratio t \<le> p \<and> p < sqrt_ratio (t + 1)"
  using assms
proof (induction "nat (high - low + 1)" arbitrary: low high tick rule: less_induct)
  case less
  show ?case
  proof (cases "low \<le> high")
    case False
    then have low: "low = high + 1" using less.prems(3) by simp
    have "low \<noteq> MIN_TICK"
    proof
      assume "low = MIN_TICK"
      moreover have "high < MAX_TICK" using calculation low by (simp add: MIN_TICK_def MAX_TICK_def)
      ultimately have "p < sqrt_ratio MIN_TICK" using less.prems(6) low by simp
      then show False using less.prems(7) by (simp add: sqrt_ratio_ends)
    qed
    then have t: "tick = high" "MIN_TICK \<le> high" "sqrt_ratio high \<le> p" using less.prems(1,4,5) low by auto
    then have "high \<noteq> MAX_TICK" using less.prems(8) sqrt_ratio_ends(2) by auto
    then have "high < MAX_TICK" using less.prems(2) by simp
    moreover have "tick_search U p low high tick = Inr high" using False by (simp add: t(1) tick_search.simps [of U p low high])
    ultimately show ?thesis using t less.prems(6) by blast
  next
    case True
    define mid where "mid = go_quot (low + high) 2"
    have mid: "low \<le> mid" "mid \<le> high" using go_quot_mid [OF True] by (simp_all add: mid_def)
    have e: "GetSqrtRatioAtTick U mid = Inr (sqrt_ratio mid)"
      using mid less.prems(1,2) by (intro GetSqrtRatioAtTick_eq) simp_all
    note unfold = tick_search.simps [of U p low high tick, folded mid_def, unfolded Let_def e sum.case]
    show ?thesis
    proof (cases "sqrt_ratio mid \<le> p")
      case le: True
      have "\<exists>t. tick_search U p (mid + 1) high mid = Inr t \<and> MIN_TICK \<le> t \<and> t < MAX_TICK \<and> sqrt_ratio t \<le> p \<and> p < sqrt_ratio (t + 1)"
        by (rule less.hyps) (use mid le less.prems in auto)
      then show ?thesis using True le unfold by simp
    next
      case gt: False
      have "\<exists>t. tick_search U p low (mid - 1) tick = Inr t \<and> MIN_TICK \<le> t \<and> t < MAX_TICK \<and> sqrt_ratio t \<le> p \<and> p < sqrt_ratio (t + 1)"
        by (rule less.hyps) (use mid gt less.prems in auto)
      then show ?thesis using True gt unfold by simp
    qed
  qed
qed

lemma GetTickAtSqrtRatio_correct:
  assumes "MIN_SQRT_RATIO \<le> p" and "p < MAX_SQRT_RATIO"
  shows "\<exists>t. GetTickAtSqrtRatio U p = Inr t \<and> MIN_TICK \<le> t \<and> t < MAX_TICK \<and> sqrt_ratio t \<le> p \<and> p < sqrt_ratio (t + 1)"
proof -
  have "\<exists>t. tick_search U p MIN_TICK MAX_TICK 0 = Inr t \<and> MIN_TICK \<le> t \<and> t < MAX_TICK \<and> sqrt_ratio t \<le> p \<and> p < sqrt_ratio (t + 1)"
    by (rule tick_search_correct) (use assms in \<open>simp_all add: MIN_TICK_def MAX_TICK_def\<close>)
  then show ?thesis using assms by (simp add: GetTickAtSqrtRatio_def)
qed

lemma GetTickAtSqrtRatio_iff:
  assumes "MIN_TICK \<le> t" and "t < MAX_TICK" and "sqrt_ratio t \<le> p" and "p < sqrt_ratio (t + 1)"
  shows "GetTickAtSqrtRatio U p = Inr t"
proof -
  have "MIN_SQRT_RATIO \<le> sqrt_ratio t" "sqrt_ratio (t + 1) \<le> MAX_SQRT_RATIO"
    using sqrt_ratio_mono [of MIN_TICK t] sqrt_ratio_mono [of "t + 1" MAX_TICK] assms by (simp_all add: sqrt_ratio_ends)
  then have "MIN_SQRT_RATIO \<le> p" "p < MAX_SQRT_RATIO" using assms by simp_all
  then obtain u where u: "GetTickAtSqrtRatio U p = Inr u" "MIN_TICK \<le> u" "u < MAX_TICK" "sqrt_ratio u \<le> p" "p < sqrt_ratio (u + 1)"
    using GetTickAtSqrtRatio_correct by blast
  have "\<not> t + 1 \<le> u" using sqrt_ratio_mono [of "t + 1" u] assms u by auto
  moreover have "\<not> u + 1 \<le> t" using sqrt_ratio_mono [of "u + 1" t] assms u by auto
  ultimately have "u = t" by simp
  then show ?thesis using u by simp
qed

end

text \<open>The package on 256-bit words.\<close>

definition word_uint256 :: "256 word uint256" where
  "word_uint256 = \<lparr>u_MustFromBig = word_of_int, u_IntoBig = uint, u_Mul = (*), u_Div = (div), u_Add = (+), u_And = (AND),
     u_Rsh = (\<lambda>a n. drop_bit n a), u_Sign = (\<lambda>a. if a = 0 then 0 else if uint a < 2 ^ 255 then 1 else - 1)\<rparr>"

interpretation w256: uint256_pkg word_uint256
proof unfold_locales
  fix a b :: "256 word" and x :: int and n :: nat
  show "0 \<le> u_IntoBig word_uint256 a \<and> u_IntoBig word_uint256 a < 2 ^ 256"
    using uint_lt2p [of a] by (simp add: word_uint256_def)
  show "0 \<le> x \<Longrightarrow> x < 2 ^ 256 \<Longrightarrow> u_IntoBig word_uint256 (u_MustFromBig word_uint256 x) = x"
    by (simp add: word_uint256_def uint_word_of_int)
  show "u_IntoBig word_uint256 (u_Mul word_uint256 a b) = (u_IntoBig word_uint256 a * u_IntoBig word_uint256 b) mod 2 ^ 256"
    by (simp add: word_uint256_def uint_word_ariths)
  show "u_IntoBig word_uint256 (u_Add word_uint256 a b) = (u_IntoBig word_uint256 a + u_IntoBig word_uint256 b) mod 2 ^ 256"
    by (simp add: word_uint256_def uint_word_ariths)
  show "u_IntoBig word_uint256 (u_Div word_uint256 a b) =
      (if u_IntoBig word_uint256 b = 0 then 0 else u_IntoBig word_uint256 a div u_IntoBig word_uint256 b)"
    by (simp add: word_uint256_def uint_div)
  show "u_IntoBig word_uint256 (u_And word_uint256 a b) = u_IntoBig word_uint256 a AND u_IntoBig word_uint256 b"
    by (simp add: word_uint256_def uint_and)
  show "u_IntoBig word_uint256 (u_Rsh word_uint256 a n) = u_IntoBig word_uint256 a div 2 ^ n"
    unfolding word_uint256_def using uint_lt2p [of a] by (simp add: unsigned_drop_bit_eq take_bit_int_eq_self flip: drop_bit_eq_div)
  show "u_Sign word_uint256 a = (if u_IntoBig word_uint256 a = 0 then 0 else if u_IntoBig word_uint256 a < 2 ^ 255 then 1 else - 1)"
    by (simp add: word_uint256_def unsigned_eq_0_iff)
qed

lemma GetSqrtRatioAtTick_out: "t < MIN_TICK \<or> MAX_TICK < t \<Longrightarrow> GetSqrtRatioAtTick U t = Inl ErrTickOutOfBounds"
  by (auto simp: GetSqrtRatioAtTick_def)

section \<open>Properties\<close>

text \<open>
  C17: \<^verbatim>\<open>GetSqrtRatioAtTick\<close> is defined exactly on \<^verbatim>\<open>[MIN_TICK, MAX_TICK]\<close>, strictly increasing there, and takes
  the values \<^verbatim>\<open>MIN_SQRT_RATIO\<close> and \<^verbatim>\<open>MAX_SQRT_RATIO\<close> at the ends, so no 256-bit product wraps and every
  price lies between these constants.
\<close>

theorem GetSqrtRatioAtTick_monotone:
  assumes "uint256_pkg U"
  shows "(\<forall>t. GetSqrtRatioAtTick U t = Inl ErrTickOutOfBounds \<longleftrightarrow> t < MIN_TICK \<or> MAX_TICK < t) \<and>
    (\<forall>s t. MIN_TICK \<le> s \<and> s < t \<and> t \<le> MAX_TICK \<longrightarrow>
      (\<exists>p q. GetSqrtRatioAtTick U s = Inr p \<and> GetSqrtRatioAtTick U t = Inr q \<and> p < q)) \<and>
    GetSqrtRatioAtTick U MIN_TICK = Inr MIN_SQRT_RATIO \<and> GetSqrtRatioAtTick U MAX_TICK = Inr MAX_SQRT_RATIO"
proof -
  note eq = uint256_pkg.GetSqrtRatioAtTick_eq [OF assms]
  have "GetSqrtRatioAtTick U t = Inl ErrTickOutOfBounds \<longleftrightarrow> t < MIN_TICK \<or> MAX_TICK < t" for t
    using eq [of t] GetSqrtRatioAtTick_out [of t U] by (cases "t < MIN_TICK \<or> MAX_TICK < t") auto
  moreover have "\<exists>p q. GetSqrtRatioAtTick U s = Inr p \<and> GetSqrtRatioAtTick U t = Inr q \<and> p < q"
    if "MIN_TICK \<le> s \<and> s < t \<and> t \<le> MAX_TICK" for s t
    using that eq [of s] eq [of t] sqrt_ratio_less [of s t] by simp
  moreover have "MIN_TICK \<le> MAX_TICK" by (simp add: MIN_TICK_def MAX_TICK_def)
  ultimately show ?thesis using eq [of MIN_TICK] eq [of MAX_TICK] sqrt_ratio_ends by simp
qed

theorem GetSqrtRatioAtTick_monotone_witness:
  "uint256_pkg word_uint256 \<and> GetSqrtRatioAtTick word_uint256 MIN_TICK = Inr 4295128739 \<and>
   (\<exists>p q. GetSqrtRatioAtTick word_uint256 (- 1) = Inr p \<and> GetSqrtRatioAtTick word_uint256 10 = Inr q \<and> p < q)"
  using GetSqrtRatioAtTick_monotone [OF w256.uint256_pkg_axioms] w256.uint256_pkg_axioms
  by (simp add: MIN_TICK_def MAX_TICK_def MIN_SQRT_RATIO_def)

text \<open>
  C9: The binary search of \<^verbatim>\<open>GetTickAtSqrtRatio\<close> ends and returns the greatest tick whose price is at most the
  given one, for every price in \<^verbatim>\<open>[MIN_SQRT_RATIO, MAX_SQRT_RATIO)\<close>; it inverts \<^verbatim>\<open>GetSqrtRatioAtTick\<close>, and
  every other price is refused.
\<close>

theorem GetTickAtSqrtRatio_greatest:
  assumes "uint256_pkg U"
  shows "(if MIN_SQRT_RATIO \<le> p \<and> p < MAX_SQRT_RATIO
      then \<exists>t q. GetTickAtSqrtRatio U p = Inr t \<and> MIN_TICK \<le> t \<and> t < MAX_TICK \<and> GetSqrtRatioAtTick U t = Inr q \<and> q \<le> p \<and>
        (\<forall>s r. t < s \<and> GetSqrtRatioAtTick U s = Inr r \<longrightarrow> p < r)
      else GetTickAtSqrtRatio U p = Inl ErrSqrtPriceOutOfBounds) \<and>
    (\<forall>t q. t < MAX_TICK \<and> GetSqrtRatioAtTick U t = Inr q \<longrightarrow> GetTickAtSqrtRatio U q = Inr t)"
proof -
  note eq = uint256_pkg.GetSqrtRatioAtTick_eq [OF assms]
  have valid: "MIN_TICK \<le> s \<and> s \<le> MAX_TICK \<and> r = sqrt_ratio s" if "GetSqrtRatioAtTick U s = Inr r" for s r
    using that eq [of s] GetSqrtRatioAtTick_out [of s U] by (cases "s < MIN_TICK \<or> MAX_TICK < s") auto
  have "\<exists>t q. GetTickAtSqrtRatio U p = Inr t \<and> MIN_TICK \<le> t \<and> t < MAX_TICK \<and> GetSqrtRatioAtTick U t = Inr q \<and> q \<le> p \<and>
        (\<forall>s r. t < s \<and> GetSqrtRatioAtTick U s = Inr r \<longrightarrow> p < r)" if pr: "MIN_SQRT_RATIO \<le> p \<and> p < MAX_SQRT_RATIO"
  proof -
    obtain t where t: "GetTickAtSqrtRatio U p = Inr t" "MIN_TICK \<le> t" "t < MAX_TICK" "sqrt_ratio t \<le> p" "p < sqrt_ratio (t + 1)"
      using uint256_pkg.GetTickAtSqrtRatio_correct [OF assms, of p] pr by blast
    have "p < r" if "t < s \<and> GetSqrtRatioAtTick U s = Inr r" for s r
      using sqrt_ratio_mono [of "t + 1" s] valid [of s r] that t by auto
    then show ?thesis using t eq [of t] by auto
  qed
  moreover have "GetTickAtSqrtRatio U q = Inr t" if "t < MAX_TICK \<and> GetSqrtRatioAtTick U t = Inr q" for t q
    using uint256_pkg.GetTickAtSqrtRatio_iff [OF assms, of t q] valid [of t q] that sqrt_ratio_step [of t] by auto
  ultimately show ?thesis by (auto simp: GetTickAtSqrtRatio_def)
qed

theorem GetTickAtSqrtRatio_greatest_witness:
  "GetSqrtRatioAtTick word_uint256 0 = Inr (2 ^ 96) \<and> GetTickAtSqrtRatio word_uint256 (2 ^ 96) = Inr 0"
proof -
  have "GetSqrtRatioAtTick word_uint256 0 = Inr (2 ^ 96)"
    using w256.GetSqrtRatioAtTick_eq [of 0]
    by (simp add: MIN_TICK_def MAX_TICK_def sqrt_ratio_def raw_ratio_def tick_consts_list ceil_div_def)
  then show ?thesis using GetTickAtSqrtRatio_greatest [OF w256.uint256_pkg_axioms, of 0] by (auto simp: MAX_TICK_def)
qed

end
