(* ===== verification/Swap_Math.thy ===== *)
theory Swap_Math
  imports Go_Prelude
begin

text \<open>
  The price and swap-step arithmetic of Uniswap V3 under \<^verbatim>\<open>src/protocols/uniswap-v3/math\<close>:
  \<^verbatim>\<open>liquiditymath\<close>, \<^verbatim>\<open>sqrtpricemath\<close> and \<^verbatim>\<open>swapmath\<close>. Amounts and prices are unbounded \<^verbatim>\<open>big.Int\<close> values. A function
  that writes into a destination returns the value it writes; the pooled temporaries hold nothing
  between calls. A division by zero, which panics in Go, is the error value \<open>PanicDivisionByZero\<close>.
\<close>

named_theorems price_defs \<open>definitions of the price arithmetic\<close>

section \<open>\<^verbatim>\<open>liquiditymath.go\<close>\<close>

datatype liquidity_error = ErrLiquidityOverflow | ErrLiquidityUnderflow

definition maxUint128 :: int where
  "maxUint128 = 2 ^ 128 - 1"

text \<open>The destination is written before the checks, so it is a result on every branch.\<close>

definition AddDelta :: "int \<Rightarrow> int \<Rightarrow> liquidity_error option \<times> int" where
  "AddDelta x y =
     (let dest = x + y in
      if dest < 0 then (Some ErrLiquidityUnderflow, dest)
      else if dest > maxUint128 then (Some ErrLiquidityOverflow, dest)
      else (None, dest))"

section \<open>\<^verbatim>\<open>sqrt_price_math.go\<close>\<close>

datatype price_error =
    ErrLiquidityZero
  | ErrSqrtPriceZero
  | ErrProductOverflow
  | ErrQuotientExceedsPrice
  | PanicDivisionByZero

definition Q96 :: int where
  "Q96 = 2 ^ 96"

definition Resolution :: nat where
  "Resolution = 96"

definition mulDiv :: "int \<Rightarrow> int \<Rightarrow> int \<Rightarrow> price_error + int" where
  "mulDiv a b c = (if c = 0 then Inl PanicDivisionByZero else let product = a * b in Inr (big_Div product c))"

definition mulDivRoundingUp :: "int \<Rightarrow> int \<Rightarrow> int \<Rightarrow> price_error + int" where
  "mulDivRoundingUp a b c =
     (if c = 0 then Inl PanicDivisionByZero
      else let product = a * b; dest = big_Div product c in Inr (if big_Rem product c > 0 then dest + 1 else dest))"

definition divRoundingUp :: "int \<Rightarrow> int \<Rightarrow> price_error + int" where
  "divRoundingUp a b =
     (if b = 0 then Inl PanicDivisionByZero
      else let dest = big_Div a b in Inr (if big_Rem a b > 0 then dest + 1 else dest))"

definition getNextSqrtPriceFromAmount0RoundingUp :: "int \<Rightarrow> int \<Rightarrow> int \<Rightarrow> bool \<Rightarrow> price_error + int" where
  "getNextSqrtPriceFromAmount0RoundingUp sqrtPX96 liquidity amount add =
     (if amount = 0 then Inr sqrtPX96
      else let numerator1 = liquidity * 2 ^ Resolution; product = amount * sqrtPX96 in
      if add then
        (if big_Div product amount = sqrtPX96 \<and> numerator1 + product \<ge> numerator1
         then mulDivRoundingUp numerator1 sqrtPX96 (numerator1 + product)
         else if sqrtPX96 = 0 then Inl PanicDivisionByZero
         else divRoundingUp numerator1 (big_Div numerator1 sqrtPX96 + amount))
      else
        (if big_Div product amount \<noteq> sqrtPX96 \<or> numerator1 \<le> product then Inl ErrProductOverflow
         else mulDivRoundingUp numerator1 sqrtPX96 (numerator1 - product)))"

definition getNextSqrtPriceFromAmount1RoundingDown :: "int \<Rightarrow> int \<Rightarrow> int \<Rightarrow> bool \<Rightarrow> price_error + int" where
  "getNextSqrtPriceFromAmount1RoundingDown sqrtPX96 liquidity amount add =
     (if add then bind_result (mulDiv amount Q96 liquidity) (\<lambda>quotient. Inr (sqrtPX96 + quotient))
      else bind_result (mulDivRoundingUp amount Q96 liquidity) (\<lambda>quotient.
        if sqrtPX96 \<le> quotient then Inl ErrQuotientExceedsPrice else Inr (sqrtPX96 - quotient)))"

definition GetNextSqrtPriceFromInput :: "int \<Rightarrow> int \<Rightarrow> int \<Rightarrow> bool \<Rightarrow> price_error + int" where
  "GetNextSqrtPriceFromInput sqrtPX96 liquidity amountIn zeroForOne =
     (if sqrtPX96 \<le> 0 then Inl ErrSqrtPriceZero
      else if liquidity \<le> 0 then Inl ErrLiquidityZero
      else if zeroForOne then getNextSqrtPriceFromAmount0RoundingUp sqrtPX96 liquidity amountIn True
      else getNextSqrtPriceFromAmount1RoundingDown sqrtPX96 liquidity amountIn True)"

definition GetNextSqrtPriceFromOutput :: "int \<Rightarrow> int \<Rightarrow> int \<Rightarrow> bool \<Rightarrow> price_error + int" where
  "GetNextSqrtPriceFromOutput sqrtPX96 liquidity amountOut zeroForOne =
     (if sqrtPX96 \<le> 0 then Inl ErrSqrtPriceZero
      else if liquidity \<le> 0 then Inl ErrLiquidityZero
      else if zeroForOne then getNextSqrtPriceFromAmount1RoundingDown sqrtPX96 liquidity amountOut False
      else getNextSqrtPriceFromAmount0RoundingUp sqrtPX96 liquidity amountOut False)"

definition getAmount0Delta :: "int \<Rightarrow> int \<Rightarrow> int \<Rightarrow> bool \<Rightarrow> price_error + int" where
  "getAmount0Delta ratioA ratioB liquidity roundUp =
     (let (sqrtRatioAX96, sqrtRatioBX96) = (if ratioA > ratioB then (ratioB, ratioA) else (ratioA, ratioB)) in
      if sqrtRatioAX96 \<le> 0 then Inl ErrSqrtPriceZero
      else let numerator1 = liquidity * 2 ^ Resolution; numerator2 = sqrtRatioBX96 - sqrtRatioAX96 in
      if roundUp
      then bind_result (mulDivRoundingUp numerator1 numerator2 sqrtRatioBX96) (\<lambda>term. divRoundingUp term sqrtRatioAX96)
      else bind_result (mulDiv numerator1 numerator2 sqrtRatioBX96) (\<lambda>term. Inr (big_Div term sqrtRatioAX96)))"

definition getAmount1Delta :: "int \<Rightarrow> int \<Rightarrow> int \<Rightarrow> bool \<Rightarrow> price_error + int" where
  "getAmount1Delta ratioA ratioB liquidity roundUp =
     (let (sqrtRatioAX96, sqrtRatioBX96) = (if ratioA > ratioB then (ratioB, ratioA) else (ratioA, ratioB));
          numerator1 = sqrtRatioBX96 - sqrtRatioAX96 in
      if roundUp then mulDivRoundingUp liquidity numerator1 Q96 else mulDiv liquidity numerator1 Q96)"

section \<open>\<^verbatim>\<open>swap_math.go\<close>\<close>

definition feeDenominator :: int where
  "feeDenominator = 1000000"

definition sm_mulDiv :: "int \<Rightarrow> int \<Rightarrow> int \<Rightarrow> price_error + int" where
  "sm_mulDiv a b c = (if c = 0 then Inl PanicDivisionByZero else let product = a * b in Inr (big_Div product c))"

definition sm_mulDivRoundingUp :: "int \<Rightarrow> int \<Rightarrow> int \<Rightarrow> price_error + int" where
  "sm_mulDivRoundingUp a b c =
     (if c = 0 then Inl PanicDivisionByZero
      else let product = a * b; dest = big_Div product c in Inr (if big_Rem product c > 0 then dest + 1 else dest))"

record SwapStep =
  ssSqrtRatioNextX96 :: int
  ssAmountIn :: int
  ssAmountOut :: int
  ssFeeAmount :: int

text \<open>
  \<^verbatim>\<open>computeSwapStep\<close>, in its four parts: the amount that reaches the target and the next price, for an
  exact input and an exact output; the amounts recomputed from the actual movement; the final
  adjustments. The first two return the next price with \<^verbatim>\<open>amountIn\<close> and \<^verbatim>\<open>amountOut\<close> as the code
  leaves them.
\<close>

definition step_exact_in :: "int \<Rightarrow> int \<Rightarrow> int \<Rightarrow> int \<Rightarrow> int \<Rightarrow> bool \<Rightarrow> price_error + (int \<times> int \<times> int)" where
  "step_exact_in current target liquidity amountRemaining feePips zeroForOne =
     bind_result (sm_mulDiv amountRemaining (feeDenominator - feePips) feeDenominator) (\<lambda>amountRemainingLessFee.
     bind_result (if zeroForOne then getAmount0Delta target current liquidity True
                  else getAmount1Delta current target liquidity True) (\<lambda>amountIn.
     bind_result (if amountRemainingLessFee \<ge> amountIn then Inr target
                  else GetNextSqrtPriceFromInput current liquidity amountRemainingLessFee zeroForOne) (\<lambda>next.
     Inr (next, amountIn, 0))))"

definition step_exact_out :: "int \<Rightarrow> int \<Rightarrow> int \<Rightarrow> int \<Rightarrow> bool \<Rightarrow> price_error + (int \<times> int \<times> int)" where
  "step_exact_out current target liquidity amountRemainingAbs zeroForOne =
     bind_result (if zeroForOne then getAmount1Delta target current liquidity False
                  else getAmount0Delta current target liquidity False) (\<lambda>amountOut.
     bind_result (if amountRemainingAbs \<ge> amountOut then Inr target
                  else GetNextSqrtPriceFromOutput current liquidity amountRemainingAbs zeroForOne) (\<lambda>next.
     Inr (next, 0, amountOut)))"

definition step_amounts :: "int \<Rightarrow> int \<Rightarrow> int \<Rightarrow> bool \<Rightarrow> bool \<Rightarrow> bool \<Rightarrow> int \<Rightarrow> int \<Rightarrow> price_error + (int \<times> int)" where
  "step_amounts current next liquidity zeroForOne exactIn reached amountIn amountOut =
     bind_result (if reached \<and> exactIn then Inr amountIn
                  else if zeroForOne then getAmount0Delta next current liquidity True
                  else getAmount1Delta current next liquidity True) (\<lambda>amountIn.
     bind_result (if reached \<and> \<not> exactIn then Inr amountOut
                  else if zeroForOne then getAmount1Delta next current liquidity False
                  else getAmount0Delta current next liquidity False) (\<lambda>amountOut.
     Inr (amountIn, amountOut)))"

definition computeSwapStep :: "int \<Rightarrow> int \<Rightarrow> int \<Rightarrow> int \<Rightarrow> int \<Rightarrow> price_error + SwapStep" where
  "computeSwapStep sqrtRatioCurrentX96 sqrtRatioTargetX96 liquidity amountRemaining feePips =
     (let zeroForOne = sqrtRatioCurrentX96 \<ge> sqrtRatioTargetX96;
          exactIn = amountRemaining \<ge> 0;
          amountRemainingAbs = - amountRemaining in
      bind_result (if exactIn then step_exact_in sqrtRatioCurrentX96 sqrtRatioTargetX96 liquidity amountRemaining feePips zeroForOne
                   else step_exact_out sqrtRatioCurrentX96 sqrtRatioTargetX96 liquidity amountRemainingAbs zeroForOne)
        (\<lambda>(next, amountIn, amountOut).
      bind_result (step_amounts sqrtRatioCurrentX96 next liquidity zeroForOne exactIn (sqrtRatioTargetX96 = next) amountIn amountOut)
        (\<lambda>(amountIn, amountOut).
      let amountOut = (if \<not> exactIn \<and> amountOut > amountRemainingAbs then amountRemainingAbs else amountOut) in
      bind_result (if exactIn \<and> next \<noteq> sqrtRatioTargetX96 then Inr (amountRemaining - amountIn)
                   else sm_mulDivRoundingUp amountIn feePips (feeDenominator - feePips)) (\<lambda>feeAmount.
      Inr \<lparr>ssSqrtRatioNextX96 = next, ssAmountIn = amountIn, ssAmountOut = amountOut, ssFeeAmount = feeAmount\<rparr>))))"

section \<open>Closed forms\<close>

lemma mulDivs_pos:
  assumes "0 < c"
  shows mulDiv_pos: "mulDiv a b c = Inr (a * b div c)"
    and sm_mulDiv_pos: "sm_mulDiv a b c = Inr (a * b div c)"
    and mulDivRoundingUp_pos: "0 \<le> a * b \<Longrightarrow> mulDivRoundingUp a b c = Inr (ceil_div (a * b) c)"
    and sm_mulDivRoundingUp_pos: "0 \<le> a * b \<Longrightarrow> sm_mulDivRoundingUp a b c = Inr (ceil_div (a * b) c)"
    and divRoundingUp_pos: "0 \<le> a \<Longrightarrow> divRoundingUp a c = Inr (ceil_div a c)"
  using assms by (simp_all add: mulDiv_def sm_mulDiv_def mulDivRoundingUp_def sm_mulDivRoundingUp_def divRoundingUp_def
      Let_def ceil_div_def)

text \<open>The amounts between two prices \<open>lo \<le> hi\<close>.\<close>

definition amount0 :: "bool \<Rightarrow> int \<Rightarrow> int \<Rightarrow> int \<Rightarrow> int" where
  "amount0 up lo hi L = (if up then ceil_div (ceil_div (L * 2 ^ 96 * (hi - lo)) hi) lo else (L * 2 ^ 96 * (hi - lo) div hi) div lo)"

definition amount1 :: "bool \<Rightarrow> int \<Rightarrow> int \<Rightarrow> int \<Rightarrow> int" where
  "amount1 up lo hi L = (if up then ceil_div (L * (hi - lo)) (2 ^ 96) else L * (hi - lo) div 2 ^ 96)"

lemma getAmount0Delta_eq:
  assumes "0 < lo" and "lo \<le> hi" and "0 \<le> L"
  shows "getAmount0Delta lo hi L up = Inr (amount0 up lo hi L)"
proof -
  have "0 \<le> L * 2 ^ 96 * (hi - lo)" "0 < hi" using assms by simp_all
  then show ?thesis using assms
    by (simp add: getAmount0Delta_def Let_def Resolution_def mulDivs_pos ceil_div_nonneg amount0_def)
qed

lemma getAmount1Delta_eq:
  assumes "lo \<le> hi" and "0 \<le> L"
  shows "getAmount1Delta lo hi L up = Inr (amount1 up lo hi L)"
  using assms by (simp add: getAmount1Delta_def Let_def Q96_def mulDivs_pos amount1_def)

lemma amount_nonneg: "0 < lo \<Longrightarrow> lo \<le> hi \<Longrightarrow> 0 \<le> L \<Longrightarrow> 0 \<le> amount0 up lo hi L"
    and amount1_nonneg: "lo \<le> hi \<Longrightarrow> 0 \<le> L \<Longrightarrow> 0 \<le> amount1 up lo hi L"
  by (auto simp: amount0_def amount1_def intro!: ceil_div_nonneg simp: pos_imp_zdiv_nonneg_iff)

text \<open>When an amount suffices for, or is paid by, a price movement.\<close>

lemma ceil_div_le_mult_iff: "0 < b \<Longrightarrow> 0 < c \<Longrightarrow> ceil_div (ceil_div a b) c \<le> d \<longleftrightarrow> a \<le> d * c * b"
  by (simp add: ceil_div_le_iff)

lemma amount0_up_le_iff:
  assumes "0 < lo" and "lo \<le> hi"
  shows "amount0 True lo hi L \<le> a \<longleftrightarrow> L * 2 ^ 96 * (hi - lo) \<le> a * lo * hi"
  using assms by (simp add: amount0_def ceil_div_le_mult_iff)

lemma amount0_down_ge_iff:
  assumes "0 < lo" and "lo \<le> hi"
  shows "a \<le> amount0 False lo hi L \<longleftrightarrow> a * lo * hi \<le> L * 2 ^ 96 * (hi - lo)"
  using assms by (simp add: amount0_def le_div_iff_mult)

lemma amount1_up_le_iff: "amount1 True lo hi L \<le> a \<longleftrightarrow> L * (hi - lo) \<le> a * 2 ^ 96"
  by (simp add: amount1_def ceil_div_le_iff)

lemma amount1_down_ge_iff: "a \<le> amount1 False lo hi L \<longleftrightarrow> a * 2 ^ 96 \<le> L * (hi - lo)"
  unfolding amount1_def by (simp add: le_div_iff_mult)

lemmas amount_iffs = amount0_up_le_iff amount0_down_ge_iff amount1_up_le_iff amount1_down_ge_iff

section \<open>The next price\<close>

lemma next_price_input0:
  assumes p: "0 < p" and L: "0 < L" and a: "0 \<le> a" and t: "0 < t" "t \<le> p" and lt: "a < amount0 True t p L"
  shows "\<exists>q. GetNextSqrtPriceFromInput p L a True = Inr q \<and> t \<le> q \<and> q \<le> p \<and> amount0 True q p L \<le> a"
proof -
  define N where "N = L * 2 ^ 96"
  define q where "q = ceil_div (N * p) (N + a * p)"
  have N: "0 < N" using L by (simp add: N_def)
  have d: "0 < N + a * p" using N a p by (simp add: add_pos_nonneg)
  have eq: "GetNextSqrtPriceFromInput p L a True = Inr q"
  proof (cases "a = 0")
    case True
    have "ceil_div (N * p) N = p" using N by (simp add: ceil_div_def)
    then show ?thesis using True p L by (simp add: GetNextSqrtPriceFromInput_def getNextSqrtPriceFromAmount0RoundingUp_def q_def)
  next
    case False
    then have "0 < a" using a by simp
    moreover have "mulDivRoundingUp N p (N + a * p) = Inr q" using N p unfolding q_def by (intro mulDivRoundingUp_pos [OF d]) simp
    ultimately show ?thesis using p L N d
      unfolding GetNextSqrtPriceFromInput_def getNextSqrtPriceFromAmount0RoundingUp_def Let_def Resolution_def N_def [symmetric] by simp
  qed
  have qN: "N * p \<le> q * (N + a * p)" using ceil_div_ge [OF d] by (simp add: q_def)
  have q0: "0 < q"
  proof (rule ccontr)
    assume "\<not> 0 < q"
    then have "q * (N + a * p) \<le> 0" using d by (simp add: mult_nonpos_nonneg)
    then show False using qN mult_pos_pos [OF N p] by linarith
  qed
  have qp: "q \<le> p" unfolding q_def ceil_div_le_iff [OF d] using a p by (simp add: distrib_left mult.commute)
  have am: "amount0 True q p L \<le> a" unfolding amount0_up_le_iff [OF q0 qp] N_def [symmetric] using qN by (simp add: algebra_simps)
  moreover have "t \<le> q"
  proof (rule ccontr)
    assume "\<not> t \<le> q"
    have "N * (p - q) \<le> a * q * p" using am unfolding amount0_up_le_iff [OF q0 qp] N_def .
    moreover have "N * (p - t) \<le> N * (p - q)" using N \<open>\<not> t \<le> q\<close> by (intro mult_left_mono) simp_all
    moreover have "a * q * p \<le> a * t * p" using a p \<open>\<not> t \<le> q\<close> by (intro mult_right_mono mult_left_mono) simp_all
    ultimately have "amount0 True t p L \<le> a" unfolding amount0_up_le_iff [OF t] N_def [symmetric] by linarith
    then show False using lt by simp
  qed
  ultimately show ?thesis using eq qp by blast
qed

lemma next_price_input1:
  assumes p: "0 < p" and L: "0 < L" and a: "0 \<le> a" and t: "p \<le> t" and lt: "a < amount1 True p t L"
  shows "\<exists>q. GetNextSqrtPriceFromInput p L a False = Inr q \<and> p \<le> q \<and> q \<le> t \<and> amount1 True p q L \<le> a"
proof -
  define d where "d = a * 2 ^ 96 div L"
  have eq: "GetNextSqrtPriceFromInput p L a False = Inr (p + d)" using p L
    by (simp add: GetNextSqrtPriceFromInput_def getNextSqrtPriceFromAmount1RoundingDown_def mulDivs_pos Q96_def d_def)
  have d0: "0 \<le> d" using a L by (simp add: d_def pos_imp_zdiv_nonneg_iff)
  have dL: "d * L \<le> a * 2 ^ 96" using le_div_iff_mult [OF L, of d "a * 2 ^ 96"] unfolding d_def by blast
  have "amount1 True p (p + d) L \<le> a" unfolding amount1_up_le_iff using dL by (simp add: mult.commute)
  moreover have "p + d \<le> t"
  proof (rule ccontr)
    assume "\<not> p + d \<le> t"
    then have "L * (t - p) \<le> L * d" using L by (intro mult_left_mono) simp_all
    then have "amount1 True p t L \<le> a" unfolding amount1_up_le_iff using dL by (simp add: mult.commute)
    then show False using lt by simp
  qed
  ultimately show ?thesis using eq d0 by auto
qed

lemma next_price_output1:
  assumes p: "0 < p" and L: "0 < L" and a: "0 \<le> a" and t: "0 < t" "t \<le> p" and lt: "a < amount1 False t p L"
  shows "\<exists>q. GetNextSqrtPriceFromOutput p L a True = Inr q \<and> t \<le> q \<and> q \<le> p \<and> a \<le> amount1 False q p L"
proof -
  define d where "d = ceil_div (a * 2 ^ 96) L"
  have "a * 2 ^ 96 \<le> L * (p - t)" using lt amount1_down_ge_iff [of a t p L] by simp
  then have dt: "d \<le> p - t" unfolding d_def ceil_div_le_iff [OF L] by (simp add: mult.commute)
  have "0 \<le> d" using a L by (simp add: d_def ceil_div_nonneg)
  moreover have "GetNextSqrtPriceFromOutput p L a True = Inr (p - d)" using p L a t dt
    by (simp add: GetNextSqrtPriceFromOutput_def getNextSqrtPriceFromAmount1RoundingDown_def mulDivs_pos Q96_def d_def)
  moreover have "a \<le> amount1 False (p - d) p L" unfolding amount1_down_ge_iff using ceil_div_ge [OF L, of "a * 2 ^ 96"]
    by (simp add: d_def mult.commute)
  ultimately show ?thesis using dt by auto
qed

lemma next_price_output0:
  assumes p: "0 < p" and L: "0 < L" and a: "0 \<le> a" and t: "p \<le> t" and lt: "a < amount0 False p t L"
  shows "\<exists>q. GetNextSqrtPriceFromOutput p L a False = Inr q \<and> p \<le> q \<and> q \<le> t \<and> a \<le> amount0 False p q L"
proof -
  define N where "N = L * 2 ^ 96"
  have N: "0 < N" using L by (simp add: N_def)
  have t0: "0 < t" using p t by simp
  have "a * p * t \<le> N * (t - p)" using lt amount0_down_ge_iff [OF p t, of a L] by (simp add: N_def)
  then have bt: "N * p \<le> t * (N - a * p)" by (simp add: algebra_simps)
  then have "0 < t * (N - a * p)" using mult_pos_pos [OF N p] by linarith
  then have d: "0 < N - a * p" using t0 by (simp add: zero_less_mult_iff)
  define q where "q = ceil_div (N * p) (N - a * p)"
  have eq: "GetNextSqrtPriceFromOutput p L a False = Inr q"
  proof (cases "a = 0")
    case True
    have "ceil_div (N * p) N = p" using N by (simp add: ceil_div_def)
    then show ?thesis using True p L by (simp add: GetNextSqrtPriceFromOutput_def getNextSqrtPriceFromAmount0RoundingUp_def q_def)
  next
    case False
    then have "0 < a" using a by simp
    moreover have "mulDivRoundingUp N p (N - a * p) = Inr q" using N p unfolding q_def by (intro mulDivRoundingUp_pos [OF d]) simp
    ultimately show ?thesis using p L N d
      unfolding GetNextSqrtPriceFromOutput_def getNextSqrtPriceFromAmount0RoundingUp_def Let_def Resolution_def N_def [symmetric] by simp
  qed
  have qN: "N * p \<le> q * (N - a * p)" using ceil_div_ge [OF d] by (simp add: q_def)
  have qt: "q \<le> t" unfolding q_def ceil_div_le_iff [OF d] using bt .
  have pq: "p \<le> q"
  proof (rule ccontr)
    assume "\<not> p \<le> q"
    then have "q * (N - a * p) < p * (N - a * p)" using d by simp
    moreover have "p * (N - a * p) \<le> p * N" using a p by (intro mult_left_mono) simp_all
    ultimately show False using qN by (simp add: mult.commute)
  qed
  have "a \<le> amount0 False p q L" unfolding amount0_down_ge_iff [OF p pq] N_def [symmetric] using qN by (simp add: algebra_simps)
  then show ?thesis using eq pq qt by blast
qed

section \<open>The swap step\<close>

definition between :: "bool \<Rightarrow> int \<Rightarrow> int \<Rightarrow> int \<Rightarrow> bool" where
  "between z p t q \<longleftrightarrow> (if z then t \<le> q \<and> q \<le> p else p \<le> q \<and> q \<le> t)"

definition in_amount :: "bool \<Rightarrow> int \<Rightarrow> int \<Rightarrow> int \<Rightarrow> int" where
  "in_amount z p q L = (if z then amount0 True q p L else amount1 True p q L)"

definition out_amount :: "bool \<Rightarrow> int \<Rightarrow> int \<Rightarrow> int \<Rightarrow> int" where
  "out_amount z p q L = (if z then amount1 False q p L else amount0 False p q L)"

lemma ceil_div_0 [simp]: "ceil_div 0 b = 0"
  by (simp add: ceil_div_def)

lemma in_out_zero [simp]: "in_amount z p q 0 = 0" "out_amount z p q 0 = 0"
  by (simp_all add: in_amount_def out_amount_def amount0_def amount1_def)

lemma delta_in:
  assumes "0 < p" and "0 < t" and "0 \<le> L" and "between z p t q"
  shows "(if z then getAmount0Delta q p L True else getAmount1Delta p q L True) = Inr (in_amount z p q L)"
    and "0 \<le> in_amount z p q L"
  using assms by (auto simp: between_def in_amount_def getAmount0Delta_eq getAmount1Delta_eq amount_nonneg amount1_nonneg split: if_splits)

lemma delta_out:
  assumes "0 < p" and "0 < t" and "0 \<le> L" and "between z p t q"
  shows "(if z then getAmount1Delta q p L False else getAmount0Delta p q L False) = Inr (out_amount z p q L)"
    and "0 \<le> out_amount z p q L"
  using assms by (auto simp: between_def out_amount_def getAmount0Delta_eq getAmount1Delta_eq amount_nonneg amount1_nonneg split: if_splits)

lemma between_target: "z = (p \<ge> t) \<Longrightarrow> between z p t t"
  by (auto simp: between_def)

lemma next_price_input:
  assumes "0 < p" and "0 < t" and "0 \<le> L" and "0 \<le> a" and "z = (p \<ge> t)" and "a < in_amount z p t L"
  shows "\<exists>q. GetNextSqrtPriceFromInput p L a z = Inr q \<and> between z p t q \<and> in_amount z p q L \<le> a"
proof -
  have "0 < L" using assms by (cases "L = 0") simp_all
  then show ?thesis using assms next_price_input0 [of p L a t] next_price_input1 [of p L a t]
    by (cases z) (auto simp: between_def in_amount_def)
qed

lemma next_price_output:
  assumes "0 < p" and "0 < t" and "0 \<le> L" and "0 \<le> a" and "z = (p \<ge> t)" and "a < out_amount z p t L"
  shows "\<exists>q. GetNextSqrtPriceFromOutput p L a z = Inr q \<and> between z p t q \<and> a \<le> out_amount z p q L"
proof -
  have "0 < L" using assms by (cases "L = 0") simp_all
  then show ?thesis using assms next_price_output0 [of p L a t] next_price_output1 [of p L a t]
    by (cases z) (auto simp: between_def out_amount_def)
qed

lemma step_exact_in_ok:
  assumes "0 < p" and "0 < t" and "0 \<le> L" and "0 \<le> a" and "0 \<le> f" "f < 1000000" and z: "z = (p \<ge> t)"
  shows "\<exists>q. step_exact_in p t L a f z = Inr (q, in_amount z p t L, 0) \<and> between z p t q \<and>
    in_amount z p q L \<le> a * (1000000 - f) div 1000000"
proof -
  let ?R = "a * (1000000 - f) div 1000000"
  have R: "0 \<le> ?R" using assms by (simp add: pos_imp_zdiv_nonneg_iff)
  note delta = delta_in(1) [OF assms(1-3) between_target [OF z]]
  have "\<exists>q. (if ?R \<ge> in_amount z p t L then Inr t else GetNextSqrtPriceFromInput p L ?R z) = Inr q \<and> between z p t q \<and> in_amount z p q L \<le> ?R"
    using next_price_input [OF assms(1-3) R z] between_target [OF z] by (cases "?R \<ge> in_amount z p t L") auto
  then obtain q where q: "(if ?R \<ge> in_amount z p t L then Inr t else GetNextSqrtPriceFromInput p L ?R z) = Inr q" "between z p t q"
      "in_amount z p q L \<le> ?R" by blast
  have m: "sm_mulDiv a (feeDenominator - f) feeDenominator = Inr ?R" by (simp add: feeDenominator_def mulDivs_pos)
  show ?thesis unfolding step_exact_in_def m bind_result_simps delta q(1) using q by blast
qed

lemma step_exact_out_ok:
  assumes "0 < p" and "0 < t" and "0 \<le> L" and "0 \<le> a" and z: "z = (p \<ge> t)"
  shows "\<exists>q. step_exact_out p t L a z = Inr (q, 0, out_amount z p t L) \<and> between z p t q \<and>
    (q \<noteq> t \<longrightarrow> a \<le> out_amount z p q L)"
proof -
  note delta = delta_out(1) [OF assms(1-3) between_target [OF z]]
  have "\<exists>q. (if a \<ge> out_amount z p t L then Inr t else GetNextSqrtPriceFromOutput p L a z) = Inr q \<and> between z p t q \<and> (q \<noteq> t \<longrightarrow> a \<le> out_amount z p q L)"
    using next_price_output [OF assms] between_target [OF z] by (cases "a \<ge> out_amount z p t L") auto
  then obtain q where q: "(if a \<ge> out_amount z p t L then Inr t else GetNextSqrtPriceFromOutput p L a z) = Inr q" "between z p t q"
      "q \<noteq> t \<longrightarrow> a \<le> out_amount z p q L" by blast
  show ?thesis unfolding step_exact_out_def delta bind_result_simps q(1) using q by blast
qed

lemma step_amounts_ok:
  assumes "0 < p" and "0 < t" and "0 \<le> L" and "between z p t q"
    and "reached \<Longrightarrow> exactIn \<Longrightarrow> A = in_amount z p q L" and "reached \<Longrightarrow> \<not> exactIn \<Longrightarrow> B = out_amount z p q L"
  shows "step_amounts p q L z exactIn reached A B = Inr (in_amount z p q L, out_amount z p q L)"
  using assms(5,6) unfolding step_amounts_def delta_in(1) [OF assms(1-4)] delta_out(1) [OF assms(1-4)]
  by (cases "reached \<and> exactIn"; cases "reached \<and> \<not> exactIn") simp_all

text \<open>The fee that the code takes, and the fee rate it must cover.\<close>

lemma fee_fits:
  fixes a f i :: int
  assumes "i \<le> a * (1000000 - f) div 1000000" and "0 \<le> f" and "f < 1000000"
  shows "i * f \<le> (a - i) * (1000000 - f)"
proof -
  have "i * 1000000 \<le> a * (1000000 - f)" using assms(1) by (simp add: le_div_iff_mult)
  then show ?thesis by (simp add: algebra_simps)
qed

definition step_ok :: "int \<Rightarrow> int \<Rightarrow> int \<Rightarrow> int \<Rightarrow> int \<Rightarrow> SwapStep \<Rightarrow> bool" where
  "step_ok p t L a f s \<longleftrightarrow>
     min p t \<le> ssSqrtRatioNextX96 s \<and> ssSqrtRatioNextX96 s \<le> max p t \<and>
     0 \<le> ssAmountIn s \<and> 0 \<le> ssAmountOut s \<and> ssAmountIn s * f \<le> ssFeeAmount s * (1000000 - f) \<and> 0 \<le> ssFeeAmount s \<and>
     ssAmountIn s = in_amount (p \<ge> t) p (ssSqrtRatioNextX96 s) L \<and> ssAmountOut s \<le> out_amount (p \<ge> t) p (ssSqrtRatioNextX96 s) L \<and>
     (if 0 \<le> a then ssAmountIn s + ssFeeAmount s \<le> a \<and> (ssSqrtRatioNextX96 s \<noteq> t \<longrightarrow> ssAmountIn s + ssFeeAmount s = a)
      else ssAmountOut s \<le> - a \<and> (ssSqrtRatioNextX96 s \<noteq> t \<longrightarrow> ssAmountOut s = - a))"

lemma computeSwapStep_in:
  assumes "0 < p" and "0 < t" and "0 \<le> L" and f: "0 \<le> f" "f < 1000000" and a: "0 \<le> a"
  shows "\<exists>s. computeSwapStep p t L a f = Inr s \<and> step_ok p t L a f s"
proof -
  define z where "z = (p \<ge> t)"
  obtain q where q: "step_exact_in p t L a f z = Inr (q, in_amount z p t L, 0)" "between z p t q"
      and le: "in_amount z p q L \<le> a * (1000000 - f) div 1000000"
    using step_exact_in_ok [OF assms(1-3) a f z_def] by blast
  have am: "step_amounts p q L z True (t = q) (in_amount z p t L) 0 = Inr (in_amount z p q L, out_amount z p q L)"
    by (rule step_amounts_ok [OF assms(1-3) q(2)]) auto
  note n = delta_in(2) [OF assms(1-3) q(2)] delta_out(2) [OF assms(1-3) q(2)]
  let ?i = "in_amount z p q L"
  let ?c = "ceil_div (?i * f) (1000000 - f)"
  note fee = fee_fits [OF le f]
  have c: "sm_mulDivRoundingUp ?i f (feeDenominator - f) = Inr ?c" "?c \<le> a - ?i" "?i * f \<le> ?c * (1000000 - f)" "0 \<le> ?c"
    using f n fee by (simp_all add: feeDenominator_def mulDivs_pos ceil_div_le_iff ceil_div_ge ceil_div_nonneg)
  have "0 \<le> a - ?i" using c by linarith
  then show ?thesis using q am n c fee a
    by (cases "q = t") (auto simp: computeSwapStep_def Let_def step_ok_def between_def simp flip: z_def split: if_splits)
qed

lemma computeSwapStep_out:
  assumes "0 < p" and "0 < t" and "0 \<le> L" and f: "0 \<le> f" "f < 1000000" and a: "a < 0"
  shows "\<exists>s. computeSwapStep p t L a f = Inr s \<and> step_ok p t L a f s"
proof -
  define z where "z = (p \<ge> t)"
  obtain q where q: "step_exact_out p t L (- a) z = Inr (q, 0, out_amount z p t L)" "between z p t q"
      and ge: "q \<noteq> t \<longrightarrow> - a \<le> out_amount z p q L"
    using step_exact_out_ok [OF assms(1-3) _ z_def, of "- a"] a by auto
  have am: "step_amounts p q L z False (t = q) 0 (out_amount z p t L) = Inr (in_amount z p q L, out_amount z p q L)"
    by (rule step_amounts_ok [OF assms(1-3) q(2)]) auto
  note n = delta_in(2) [OF assms(1-3) q(2)] delta_out(2) [OF assms(1-3) q(2)]
  let ?i = "in_amount z p q L"
  let ?c = "ceil_div (?i * f) (1000000 - f)"
  have c: "sm_mulDivRoundingUp ?i f (feeDenominator - f) = Inr ?c" "?i * f \<le> ?c * (1000000 - f)" "0 \<le> ?c"
    using f n by (simp_all add: feeDenominator_def mulDivs_pos ceil_div_ge ceil_div_nonneg)
  then show ?thesis using q am n c ge a
    by (cases "q = t") (auto simp: computeSwapStep_def Let_def step_ok_def between_def simp flip: z_def split: if_splits)
qed

lemma computeSwapStep_ok:
  assumes "0 < p" and "0 < t" and "0 \<le> L" and "0 \<le> f" and "f < 1000000"
  shows "\<exists>s. computeSwapStep p t L a f = Inr s \<and> step_ok p t L a f s"
  using computeSwapStep_in [OF assms] computeSwapStep_out [OF assms] by (cases "0 \<le> a") auto

section \<open>Properties\<close>

text \<open>
  C4: A swap step between positive prices, with non-negative liquidity and a fee below 100 per cent,
  always succeeds. The next price lies between the current price and the target; the input is what the
  price movement costs, rounded up, and the output is at most what it yields, rounded down; the fee covers
  the fee rate. An exact input is never overspent, and is spent entirely unless the target is reached;
  an exact output is never exceeded, and is delivered entirely unless the target is reached.
\<close>

theorem computeSwapStep_sound:
  assumes "0 < current" and "0 < target" and "0 \<le> liquidity" and "0 \<le> feePips" and "feePips < 1000000"
  shows "\<exists>s inp out. computeSwapStep current target liquidity remaining feePips = Inr s \<and>
    min current target \<le> ssSqrtRatioNextX96 s \<and> ssSqrtRatioNextX96 s \<le> max current target \<and>
    (if current \<ge> target
     then getAmount0Delta (ssSqrtRatioNextX96 s) current liquidity True = Inr inp \<and> getAmount1Delta (ssSqrtRatioNextX96 s) current liquidity False = Inr out
     else getAmount1Delta current (ssSqrtRatioNextX96 s) liquidity True = Inr inp \<and> getAmount0Delta current (ssSqrtRatioNextX96 s) liquidity False = Inr out) \<and>
    ssAmountIn s = inp \<and> 0 \<le> inp \<and> 0 \<le> ssAmountOut s \<and> ssAmountOut s \<le> out \<and>
    0 \<le> ssFeeAmount s \<and> ssAmountIn s * feePips \<le> ssFeeAmount s * (1000000 - feePips) \<and>
    (if 0 \<le> remaining
     then ssAmountIn s + ssFeeAmount s \<le> remaining \<and> (ssSqrtRatioNextX96 s \<noteq> target \<longrightarrow> ssAmountIn s + ssFeeAmount s = remaining)
     else ssAmountOut s \<le> - remaining \<and> (ssSqrtRatioNextX96 s \<noteq> target \<longrightarrow> ssAmountOut s = - remaining))"
proof -
  obtain s where s: "computeSwapStep current target liquidity remaining feePips = Inr s" "step_ok current target liquidity remaining feePips s"
    using computeSwapStep_ok [OF assms] by blast
  let ?z = "current \<ge> target" and ?q = "ssSqrtRatioNextX96 s"
  have b: "between ?z current target ?q" using s(2) by (auto simp: step_ok_def between_def)
  note d = delta_in(1) [OF assms(1-3) b] delta_out(1) [OF assms(1-3) b]
  have "(if ?z then getAmount0Delta ?q current liquidity True = Inr (in_amount ?z current ?q liquidity) \<and>
        getAmount1Delta ?q current liquidity False = Inr (out_amount ?z current ?q liquidity)
      else getAmount1Delta current ?q liquidity True = Inr (in_amount ?z current ?q liquidity) \<and>
        getAmount0Delta current ?q liquidity False = Inr (out_amount ?z current ?q liquidity))"
    using d by (auto split: if_splits)
  then show ?thesis using s unfolding step_ok_def by metis
qed

theorem computeSwapStep_sound_witness:
  "computeSwapStep (2 ^ 96) (2 ^ 95) (10 ^ 18) 1000 3000 =
     Inr \<lparr>ssSqrtRatioNextX96 = 79228162514264258603065923615, ssAmountIn = 997, ssAmountOut = 996, ssFeeAmount = 3\<rparr> \<and>
   (\<exists>s. computeSwapStep (2 ^ 96) (2 ^ 95) (10 ^ 18) 1000 3000 = Inr s \<and> ssAmountIn s + ssFeeAmount s \<le> 1000)"
proof
  show "computeSwapStep (2 ^ 96) (2 ^ 95) (10 ^ 18) 1000 3000 =
     Inr \<lparr>ssSqrtRatioNextX96 = 79228162514264258603065923615, ssAmountIn = 997, ssAmountOut = 996, ssFeeAmount = 3\<rparr>"
    by code_simp
  show "\<exists>s. computeSwapStep (2 ^ 96) (2 ^ 95) (10 ^ 18) 1000 3000 = Inr s \<and> ssAmountIn s + ssFeeAmount s \<le> 1000"
    using computeSwapStep_sound [of "2 ^ 96" "2 ^ 95" "10 ^ 18" 3000 1000] by auto
qed

end
