(* ===== verification/UniswapV3_Swap.thy ===== *)
theory UniswapV3_Swap
  imports UniswapV3_Registry Tick_Math Swap_Math
begin

text \<open>
  The Uniswap V3 swap simulation: the tick search of
  \<^verbatim>\<open>src/protocols/uniswap-v3/math/tickbitmap/tickbitmap.go\<close> and the swap loop and quotes of
  \<^verbatim>\<open>src/protocols/uniswap-v3/math/calculator.go\<close>. The loop has no static bound and is a
  \<open>partial_function (option)\<close>: \<open>None\<close> is a run that never returns, and the properties show that there is
  none. \<^verbatim>\<open>GetSpotPrice\<close> computes with \<^verbatim>\<open>big.Float\<close> and is not modelled.
\<close>

section \<open>\<^verbatim>\<open>tickbitmap.go\<close>\<close>

definition NextInitializedTickWithinOneWord :: "TickInfo list \<Rightarrow> int \<Rightarrow> bool \<Rightarrow> int \<times> bool" where
  "NextInitializedTickWithinOneWord ticks tick lte =
     (if length ticks = 0 then (0, False)
      else if lte then
        let index = sort_Search (length ticks) (\<lambda>i. tiIndex (ticks ! i) \<ge> tick) in
        if index < length ticks \<and> tiIndex (ticks ! index) = tick then (tick, True)
        else if index = 0 then (0, False)
        else (tiIndex (ticks ! (index - 1)), True)
      else
        let index = sort_Search (length ticks) (\<lambda>i. tiIndex (ticks ! i) > tick) in
        if index \<ge> length ticks then (0, False) else (tiIndex (ticks ! index), True))"

section \<open>\<^verbatim>\<open>calculator.go\<close>\<close>

datatype v3_math_error =
    V3ErrInvalidAmountIn
  | V3ErrAmountOutNotNegative
  | V3ErrTokenMismatch uint64 uint64
  | V3TickError tick_error
  | V3LiquidityError liquidity_error
  | V3Panic

record swapState =
  swRemaining :: int
  swCalculated :: int
  swSqrtPriceX96 :: int
  swTick :: int
  swLiquidity :: int

text \<open>How one iteration of the loop of \<^verbatim>\<open>_swap\<close> ends: \<^verbatim>\<open>return err\<close>, \<^verbatim>\<open>break\<close>, or the next iteration.\<close>

datatype swap_iter = Fail v3_math_error | Break swapState | Next swapState

definition swap_limit :: "int option \<Rightarrow> bool \<Rightarrow> int" where
  "swap_limit sqrtPriceLimitX96 zeroForOne =
     (case sqrtPriceLimitX96 of
        None \<Rightarrow> if zeroForOne then MIN_SQRT_RATIO else MAX_SQRT_RATIO
      | Some l \<Rightarrow> l)"

text \<open>Crossing the tick \<^verbatim>\<open>tickNext\<close>: the liquidity change and the new tick.\<close>

definition cross_tick :: "TickInfo list \<Rightarrow> int \<Rightarrow> bool \<Rightarrow> swapState \<Rightarrow> swap_iter" where
  "cross_tick ticks tickNext zeroForOne state =
     (let newTick = (if zeroForOne then tickNext - 1 else tickNext) in
      case List.find (\<lambda>t. tiIndex t = tickNext) ticks of
        None \<Rightarrow> Next (state\<lparr>swTick := newTick\<rparr>)
      | Some t \<Rightarrow>
          let liquidityNet = (if zeroForOne then - tiLiquidityNet t else tiLiquidityNet t);
              (err, liquidity) = AddDelta (swLiquidity state) liquidityNet
          in case err of
               Some ErrLiquidityUnderflow \<Rightarrow> Break (state\<lparr>swLiquidity := liquidity\<rparr>)
             | Some e \<Rightarrow> Fail (V3LiquidityError e)
             | None \<Rightarrow> Next (state\<lparr>swLiquidity := liquidity, swTick := newTick\<rparr>))"

definition clamp_tick :: "int \<Rightarrow> int" where
  "clamp_tick t = (if t < MIN_TICK then MIN_TICK else if t > MAX_TICK then MAX_TICK else t)"

definition swap_step ::
  "'u uint256 \<Rightarrow> V3PoolView \<Rightarrow> int \<Rightarrow> bool \<Rightarrow> bool \<Rightarrow> swapState \<Rightarrow> swap_iter" where
  "swap_step U pool limit zeroForOne exactInput state =
     (let (found, initialized) = NextInitializedTickWithinOneWord (v3Ticks pool) (swTick state) zeroForOne in
      if \<not> initialized then Break state
      else let tickNext = clamp_tick found in
      case GetSqrtRatioAtTick U tickNext of
        Inl err \<Rightarrow> Fail (V3TickError err)
      | Inr sqrtPriceNextX96 \<Rightarrow>
          let targetPrice = (if (zeroForOne \<and> sqrtPriceNextX96 < limit) \<or> (\<not> zeroForOne \<and> sqrtPriceNextX96 > limit)
                then limit else sqrtPriceNextX96) in
          case computeSwapStep (swSqrtPriceX96 state) targetPrice (swLiquidity state) (swRemaining state) (uint (v3Fee pool)) of
            Inl PanicDivisionByZero \<Rightarrow> Fail V3Panic
          | Inl err \<Rightarrow> Break state
          | Inr step \<Rightarrow>
              let sqrtPriceStartX96 = swSqrtPriceX96 state;
                  state = (if exactInput
                    then state\<lparr>swRemaining := swRemaining state - (ssAmountIn step + ssFeeAmount step),
                               swCalculated := swCalculated state + ssAmountOut step, swSqrtPriceX96 := ssSqrtRatioNextX96 step\<rparr>
                    else state\<lparr>swRemaining := swRemaining state + ssAmountOut step,
                               swCalculated := swCalculated state + (ssAmountIn step + ssFeeAmount step),
                               swSqrtPriceX96 := ssSqrtRatioNextX96 step\<rparr>)
              in if swSqrtPriceX96 state = sqrtPriceNextX96 then cross_tick (v3Ticks pool) tickNext zeroForOne state
                 else if swSqrtPriceX96 state \<noteq> sqrtPriceStartX96
                 then (case GetTickAtSqrtRatio U (swSqrtPriceX96 state) of
                         Inl err \<Rightarrow> Fail (V3TickError err)
                       | Inr tick \<Rightarrow> Next (state\<lparr>swTick := tick\<rparr>))
                 else Next state)"

partial_function (option) swap_loop ::
  "'u uint256 \<Rightarrow> V3PoolView \<Rightarrow> int \<Rightarrow> bool \<Rightarrow> bool \<Rightarrow> swapState \<Rightarrow> (v3_math_error + swapState) option" where
  "swap_loop U pool limit zeroForOne exactInput state =
     (if swRemaining state \<noteq> 0 \<and> swSqrtPriceX96 state \<noteq> limit
      then case swap_step U pool limit zeroForOne exactInput state of
             Fail err \<Rightarrow> Some (Inl err)
           | Break state' \<Rightarrow> Some (Inr state')
           | Next state' \<Rightarrow> swap_loop U pool limit zeroForOne exactInput state'
      else Some (Inr state))"

definition v3_swap :: "'u uint256 \<Rightarrow> swapState \<Rightarrow> V3PoolView \<Rightarrow> int option \<Rightarrow> bool \<Rightarrow> (v3_math_error + swapState) option" where
  "v3_swap U state pool sqrtPriceLimitX96 zeroForOne =
     (let limit = swap_limit sqrtPriceLimitX96 zeroForOne;
          exactInput = swRemaining state > 0
      in swap_loop U pool limit zeroForOne exactInput state)"

definition start_state :: "int \<Rightarrow> V3PoolView \<Rightarrow> swapState" where
  "start_state amount pool = \<lparr>swRemaining = amount, swCalculated = 0, swSqrtPriceX96 = v3SqrtPriceX96 pool,
     swTick = v3Tick pool, swLiquidity = v3Liquidity pool\<rparr>"

definition new_pool_state :: "V3PoolView \<Rightarrow> swapState \<Rightarrow> V3PoolView" where
  "new_pool_state pool state = pool\<lparr>v3SqrtPriceX96 := swSqrtPriceX96 state, v3Tick := swTick state, v3Liquidity := swLiquidity state\<rparr>"

definition SimulateExactInSwap ::
  "'u uint256 \<Rightarrow> int option \<Rightarrow> int option \<Rightarrow> uint64 \<Rightarrow> V3PoolView \<Rightarrow> (v3_math_error + (int \<times> V3PoolView)) option" where
  "SimulateExactInSwap U amountIn sqrtPriceLimitX96 tokenInID pool =
     (case amountIn of
        None \<Rightarrow> Some (Inl V3ErrInvalidAmountIn)
      | Some amount \<Rightarrow>
          if amount \<le> 0 then Some (Inl V3ErrInvalidAmountIn)
          else let zeroForOne = (tokenInID = v3Token0 pool) in
          if \<not> zeroForOne \<and> tokenInID \<noteq> v3Token1 pool then Some (Inl (V3ErrTokenMismatch tokenInID (v3ID pool)))
          else map_option (\<lambda>r. bind_result r (\<lambda>state. Inr (swCalculated state, new_pool_state pool state)))
            (v3_swap U (start_state amount pool) pool sqrtPriceLimitX96 zeroForOne))"

definition SimulateExactOutSwap ::
  "'u uint256 \<Rightarrow> int option \<Rightarrow> int option \<Rightarrow> uint64 \<Rightarrow> V3PoolView \<Rightarrow> (v3_math_error + (int \<times> V3PoolView)) option" where
  "SimulateExactOutSwap U amountOut sqrtPriceLimitX96 tokenInID pool =
     (case amountOut of
        None \<Rightarrow> Some (Inl V3ErrInvalidAmountIn)
      | Some amount \<Rightarrow>
          if amount \<ge> 0 then Some (Inl V3ErrInvalidAmountIn)
          else let zeroForOne = (tokenInID = v3Token0 pool) in
          if \<not> zeroForOne \<and> tokenInID \<noteq> v3Token1 pool then Some (Inl (V3ErrTokenMismatch tokenInID (v3ID pool)))
          else map_option (\<lambda>r. bind_result r (\<lambda>state. Inr (swCalculated state, new_pool_state pool state)))
            (v3_swap U (start_state amount pool) pool sqrtPriceLimitX96 zeroForOne))"

definition v3_GetAmountOut ::
  "'u uint256 \<Rightarrow> int option \<Rightarrow> int option \<Rightarrow> uint64 \<Rightarrow> V3PoolView \<Rightarrow> (v3_math_error + int) option" where
  "v3_GetAmountOut U amountIn sqrtPriceLimitX96 tokenInID pool =
     (case amountIn of
        None \<Rightarrow> Some (Inl V3ErrInvalidAmountIn)
      | Some amount \<Rightarrow>
          if amount \<le> 0 then Some (Inl V3ErrInvalidAmountIn)
          else let zeroForOne = (tokenInID = v3Token0 pool) in
          if \<not> zeroForOne \<and> tokenInID \<noteq> v3Token1 pool then Some (Inl (V3ErrTokenMismatch tokenInID (v3ID pool)))
          else map_option (\<lambda>r. bind_result r (\<lambda>state. Inr (swCalculated state)))
            (v3_swap U (start_state amount pool) pool sqrtPriceLimitX96 zeroForOne))"

definition v3_GetAmountIn ::
  "'u uint256 \<Rightarrow> int option \<Rightarrow> int option \<Rightarrow> uint64 \<Rightarrow> V3PoolView \<Rightarrow> (v3_math_error + int) option" where
  "v3_GetAmountIn U amountOut sqrtPriceLimitX96 tokenInID pool =
     (case amountOut of
        None \<Rightarrow> Some (Inl V3ErrAmountOutNotNegative)
      | Some amount \<Rightarrow>
          if amount \<ge> 0 then Some (Inl V3ErrAmountOutNotNegative)
          else let zeroForOne = (tokenInID = v3Token0 pool) in
          if \<not> zeroForOne \<and> tokenInID \<noteq> v3Token1 pool then Some (Inl (V3ErrTokenMismatch tokenInID (v3ID pool)))
          else map_option (\<lambda>r. bind_result r (\<lambda>state. Inr (swCalculated state)))
            (v3_swap U (start_state amount pool) pool sqrtPriceLimitX96 zeroForOne))"

definition GetVirtualReserves :: "uint64 \<Rightarrow> uint64 \<Rightarrow> V3PoolView \<Rightarrow> v3_math_error + (int \<times> int)" where
  "GetVirtualReserves tokenInID tokenOutID pool =
     (if \<not> ((tokenInID = v3Token0 pool \<and> tokenOutID = v3Token1 pool) \<or> (tokenInID = v3Token1 pool \<and> tokenOutID = v3Token0 pool))
      then Inl (V3ErrTokenMismatch tokenInID (v3ID pool))
      else if v3SqrtPriceX96 pool = 0 then Inl V3Panic
      else let reserve0 = big_Div (v3Liquidity pool * 2 ^ 96) (v3SqrtPriceX96 pool);
               reserve1 = big_Div (v3Liquidity pool * v3SqrtPriceX96 pool) Q96
           in if tokenInID = v3Token0 pool then Inr (reserve0, reserve1) else Inr (reserve1, reserve0))"

section \<open>The tick search\<close>

definition tick_indices :: "TickInfo list \<Rightarrow> int set" where
  "tick_indices ticks = tiIndex ` set ticks"

definition ticks_ok :: "TickInfo list \<Rightarrow> bool" where
  "ticks_ok ticks \<longleftrightarrow> sorted (map tiIndex ticks) \<and> distinct (map tiIndex ticks) \<and>
     (\<forall>t \<in> set ticks. MIN_TICK \<le> tiIndex t \<and> tiIndex t \<le> MAX_TICK)"

lemma sorted_index_le: "ticks_ok ticks \<Longrightarrow> i \<le> j \<Longrightarrow> j < length ticks \<Longrightarrow> tiIndex (ticks ! i) \<le> tiIndex (ticks ! j)"
  using sorted_nth_mono [of "map tiIndex ticks" i j] by (simp add: ticks_ok_def)

lemma tick_indices_nth: "m \<in> tick_indices ticks \<longleftrightarrow> (\<exists>i < length ticks. m = tiIndex (ticks ! i))"
  unfolding tick_indices_def image_iff Bex_def in_set_conv_nth by blast

lemma sort_Search_spec:
  assumes "\<forall>a b. a \<le> b \<and> b < n \<and> f a \<longrightarrow> f b"
  shows "sort_Search n f \<le> n" "\<forall>a < sort_Search n f. \<not> f a" "\<forall>a. sort_Search n f \<le> a \<and> a < n \<longrightarrow> f a"
  using sort_Search_correct [of n f] assms by blast+

lemma next_tick_lte:
  assumes ok: "ticks_ok ticks"
  shows "case NextInitializedTickWithinOneWord ticks tick True of (n, found) \<Rightarrow>
    (if found then n \<in> tick_indices ticks \<and> n \<le> tick \<and> (\<forall>m \<in> tick_indices ticks. m \<le> tick \<longrightarrow> m \<le> n)
     else \<forall>m \<in> tick_indices ticks. tick < m)"
proof -
  define k where "k = sort_Search (length ticks) (\<lambda>i. tiIndex (ticks ! i) \<ge> tick)"
  have mono: "\<forall>a b. a \<le> b \<and> b < length ticks \<and> tiIndex (ticks ! a) \<ge> tick \<longrightarrow> tiIndex (ticks ! b) \<ge> tick"
    using sorted_index_le [OF ok] by fastforce
  note s = sort_Search_spec [OF mono, folded k_def]
  have below: "tiIndex (ticks ! i) < tick" if "i < k" for i using s(2) that by (simp add: not_le not_less)
  have above: "tick \<le> tiIndex (ticks ! i)" if "k \<le> i" "i < length ticks" for i using s(3) that by blast
  show ?thesis
  proof (cases "k < length ticks \<and> tiIndex (ticks ! k) = tick")
    case True
    then show ?thesis
      by (auto simp: NextInitializedTickWithinOneWord_def Let_def tick_indices_nth simp flip: k_def)
  next
    case hit: False
    have gt: "tick < tiIndex (ticks ! i)" if "k \<le> i" "i < length ticks" for i
      using hit above [of k] sorted_index_le [OF ok that(1,2)] that by fastforce
    show ?thesis
    proof (cases "k = 0")
      case True
      then show ?thesis using gt hit
        by (auto simp: NextInitializedTickWithinOneWord_def Let_def tick_indices_nth simp flip: k_def)
    next
      case False
      then have k1: "k - 1 < length ticks" "k - 1 < k" using s(1) by simp_all
      have "m \<le> tiIndex (ticks ! (k - 1))" if m: "m \<in> tick_indices ticks" "m \<le> tick" for m
      proof -
        obtain i where i: "i < length ticks" "m = tiIndex (ticks ! i)" using m(1) by (auto simp: tick_indices_nth)
        have "i < k" using gt [of i] i m(2) by force
        then show ?thesis using sorted_index_le [OF ok, of i "k - 1"] k1 i by simp
      qed
      moreover have "tiIndex (ticks ! (k - 1)) \<in> tick_indices ticks" using k1 by (auto simp: tick_indices_nth)
      moreover have "NextInitializedTickWithinOneWord ticks tick True = (tiIndex (ticks ! (k - 1)), True)"
        using False hit k1 by (auto simp: NextInitializedTickWithinOneWord_def Let_def simp flip: k_def)
      ultimately show ?thesis using below [OF k1(2)] by simp
    qed
  qed
qed

lemma next_tick_gt:
  assumes ok: "ticks_ok ticks"
  shows "case NextInitializedTickWithinOneWord ticks tick False of (n, found) \<Rightarrow>
    (if found then n \<in> tick_indices ticks \<and> tick < n \<and> (\<forall>m \<in> tick_indices ticks. tick < m \<longrightarrow> n \<le> m)
     else \<forall>m \<in> tick_indices ticks. m \<le> tick)"
proof -
  define k where "k = sort_Search (length ticks) (\<lambda>i. tiIndex (ticks ! i) > tick)"
  have mono: "\<forall>a b. a \<le> b \<and> b < length ticks \<and> tiIndex (ticks ! a) > tick \<longrightarrow> tiIndex (ticks ! b) > tick"
    using sorted_index_le [OF ok] by fastforce
  note s = sort_Search_spec [OF mono, folded k_def]
  have below: "tiIndex (ticks ! i) \<le> tick" if "i < k" for i using s(2) that by (simp add: not_le not_less)
  show ?thesis
  proof (cases "k < length ticks")
    case True
    have "tiIndex (ticks ! k) \<le> m" if m: "m \<in> tick_indices ticks" "tick < m" for m
    proof -
      obtain i where i: "i < length ticks" "m = tiIndex (ticks ! i)" using m(1) by (auto simp: tick_indices_nth)
      have "k \<le> i" using below [of i] i m(2) by force
      then show ?thesis using sorted_index_le [OF ok, of k i] i by simp
    qed
    moreover have "tiIndex (ticks ! k) \<in> tick_indices ticks" using True by (auto simp: tick_indices_nth)
    moreover have "NextInitializedTickWithinOneWord ticks tick False = (tiIndex (ticks ! k), True)"
      using True by (auto simp: NextInitializedTickWithinOneWord_def Let_def simp flip: k_def)
    ultimately show ?thesis using s(3) True by simp
  next
    case False
    then have "NextInitializedTickWithinOneWord ticks tick False = (0, False)"
      by (auto simp: NextInitializedTickWithinOneWord_def Let_def simp flip: k_def)
    moreover have "m \<le> tick" if "m \<in> tick_indices ticks" for m
      using that below False by (auto simp: tick_indices_nth)
    ultimately show ?thesis by simp
  qed
qed

section \<open>One iteration\<close>

text \<open>What holds of the state before every iteration: the initialised ticks ahead are on the right side of the price.\<close>

definition sw_ok :: "bool \<Rightarrow> int \<Rightarrow> TickInfo list \<Rightarrow> swapState \<Rightarrow> bool" where
  "sw_ok z limit ticks st \<longleftrightarrow> 0 \<le> swLiquidity st \<and> 0 < limit \<and>
     MIN_SQRT_RATIO \<le> swSqrtPriceX96 st \<and> swSqrtPriceX96 st \<le> MAX_SQRT_RATIO \<and>
     (if z then limit \<le> swSqrtPriceX96 st \<and> (\<forall>m \<in> tick_indices ticks. m \<le> swTick st \<longrightarrow> sqrt_ratio m \<le> swSqrtPriceX96 st)
      else swSqrtPriceX96 st \<le> limit \<and> (\<forall>m \<in> tick_indices ticks. swTick st < m \<longrightarrow> swSqrtPriceX96 st \<le> sqrt_ratio m))"

definition progress :: "bool \<Rightarrow> int \<Rightarrow> swapState \<Rightarrow> swapState \<Rightarrow> bool" where
  "progress z limit st s \<longleftrightarrow> swCalculated st \<le> swCalculated s \<and>
     (if 0 \<le> swRemaining st then 0 \<le> swRemaining s \<and> swRemaining s \<le> swRemaining st
      else swRemaining st \<le> swRemaining s \<and> swRemaining s \<le> 0) \<and>
     (if z then limit \<le> swSqrtPriceX96 s \<and> swSqrtPriceX96 s \<le> swSqrtPriceX96 st
      else swSqrtPriceX96 st \<le> swSqrtPriceX96 s \<and> swSqrtPriceX96 s \<le> limit)"

definition ticks_ahead :: "bool \<Rightarrow> TickInfo list \<Rightarrow> swapState \<Rightarrow> int set" where
  "ticks_ahead z ticks st = {m \<in> tick_indices ticks. if z then m \<le> swTick st else swTick st < m}"

lemma progress_refl: "sw_ok z limit ticks st \<Longrightarrow> progress z limit st st"
  by (auto simp: sw_ok_def progress_def)

lemma progress_trans: "progress z limit a b \<Longrightarrow> progress z limit b c \<Longrightarrow> progress z limit a c"
  by (auto simp: progress_def split: if_splits)

lemma ticks_ok_range: "ticks_ok ticks \<Longrightarrow> m \<in> tick_indices ticks \<Longrightarrow> MIN_TICK \<le> m \<and> m \<le> MAX_TICK"
  by (auto simp: ticks_ok_def tick_indices_def)

lemma sqrt_ratio_range:
  "MIN_TICK \<le> m \<Longrightarrow> m \<le> MAX_TICK \<Longrightarrow> MIN_SQRT_RATIO \<le> sqrt_ratio m \<and> sqrt_ratio m \<le> MAX_SQRT_RATIO"
  using sqrt_ratio_mono [of MIN_TICK m] sqrt_ratio_mono [of m MAX_TICK] by (simp add: sqrt_ratio_ends)

text \<open>The next initialised tick is on the side of the price the swap moves to.\<close>

lemma next_tick_ahead:
  assumes ok: "ticks_ok ticks" and st: "sw_ok z limit ticks st"
    and n: "NextInitializedTickWithinOneWord ticks (swTick st) z = (n, True)"
  shows "n \<in> ticks_ahead z ticks st" and "MIN_TICK \<le> n \<and> n \<le> MAX_TICK"
    and "if z then sqrt_ratio n \<le> swSqrtPriceX96 st else swSqrtPriceX96 st \<le> sqrt_ratio n"
proof -
  show m: "n \<in> ticks_ahead z ticks st"
    using next_tick_lte [OF ok, of "swTick st"] next_tick_gt [OF ok, of "swTick st"] n by (cases z) (simp_all add: ticks_ahead_def)
  then show "MIN_TICK \<le> n \<and> n \<le> MAX_TICK" using ticks_ok_range [OF ok] by (simp add: ticks_ahead_def)
  show "if z then sqrt_ratio n \<le> swSqrtPriceX96 st else swSqrtPriceX96 st \<le> sqrt_ratio n"
    using m st by (cases z) (simp_all add: ticks_ahead_def sw_ok_def)
qed

lemma finite_ahead: "finite (ticks_ahead z ticks st)"
  by (simp add: ticks_ahead_def tick_indices_def)

text \<open>After a price is reached exactly at a tick, or inside a range, the ticks ahead stay ahead.\<close>

lemma sw_ok_cross:
  assumes ok: "ticks_ok ticks" and st: "sw_ok z limit ticks st" and n: "MIN_TICK \<le> n \<and> n \<le> MAX_TICK"
    and s: "swSqrtPriceX96 s = sqrt_ratio n" "swTick s = (if z then n - 1 else n)" "0 \<le> swLiquidity s"
    and lim: "if z then limit \<le> sqrt_ratio n else sqrt_ratio n \<le> limit"
  shows "sw_ok z limit ticks s"
proof -
  have "sqrt_ratio m \<le> sqrt_ratio n" if "m \<in> tick_indices ticks" "m \<le> n" for m
    using sqrt_ratio_mono [of m n] ticks_ok_range [OF ok that(1)] n that by simp
  moreover have "sqrt_ratio n \<le> sqrt_ratio m" if "m \<in> tick_indices ticks" "n \<le> m" for m
    using sqrt_ratio_mono [of n m] ticks_ok_range [OF ok that(1)] n that by simp
  ultimately show ?thesis using st s lim sqrt_ratio_range [of n] n by (cases z) (simp_all add: sw_ok_def)
qed

lemma sw_ok_inside:
  assumes ok: "ticks_ok ticks" and st: "sw_ok z limit ticks st"
    and t: "MIN_TICK \<le> t" "t < MAX_TICK" "sqrt_ratio t \<le> p" "p < sqrt_ratio (t + 1)"
    and s: "swSqrtPriceX96 s = p" "swTick s = t" "0 \<le> swLiquidity s"
    and lim: "if z then limit \<le> p else p \<le> limit"
  shows "sw_ok z limit ticks s"
proof -
  have "sqrt_ratio m \<le> p" if "m \<in> tick_indices ticks" "m \<le> t" for m
    using sqrt_ratio_mono [of m t] ticks_ok_range [OF ok that(1)] t that by simp
  moreover have "p \<le> sqrt_ratio m" if "m \<in> tick_indices ticks" "t < m" for m
    using sqrt_ratio_mono [of "t + 1" m] ticks_ok_range [OF ok that(1)] t that by simp
  moreover have "MIN_SQRT_RATIO \<le> p" "p \<le> MAX_SQRT_RATIO"
    using sqrt_ratio_range [of t] sqrt_ratio_range [of "t + 1"] t by simp_all
  ultimately show ?thesis using st s lim by (cases z) (simp_all add: sw_ok_def)
qed

lemma ahead_cross:
  assumes "n \<in> ticks_ahead z ticks st" and "swTick s = (if z then n - 1 else n)"
  shows "card (ticks_ahead z ticks s) < card (ticks_ahead z ticks st)"
proof (rule psubset_card_mono [OF finite_ahead])
  show "ticks_ahead z ticks s \<subset> ticks_ahead z ticks st" using assms by (cases z) (auto simp: ticks_ahead_def)
qed

text \<open>The specification of an iteration.\<close>

definition iter_ok :: "bool \<Rightarrow> int \<Rightarrow> TickInfo list \<Rightarrow> swapState \<Rightarrow> swap_iter \<Rightarrow> bool" where
  "iter_ok z limit ticks st r \<longleftrightarrow>
     (case r of
        Fail e \<Rightarrow> e = V3LiquidityError ErrLiquidityOverflow
      | Break s \<Rightarrow> progress z limit st s
      | Next s \<Rightarrow> progress z limit st s \<and> sw_ok z limit ticks s \<and>
          (swRemaining s = 0 \<or> swSqrtPriceX96 s = limit \<or> card (ticks_ahead z ticks s) < card (ticks_ahead z ticks st)))"

lemma cross_tick_ok:
  assumes ok: "ticks_ok ticks" and st: "sw_ok z limit ticks st" and n: "n \<in> ticks_ahead z ticks st"
    and s: "swSqrtPriceX96 s = sqrt_ratio n" "0 \<le> swLiquidity s" and pr: "progress z limit st s"
  shows "iter_ok z limit ticks st (cross_tick ticks n z s)"
proof -
  have r: "MIN_TICK \<le> n \<and> n \<le> MAX_TICK" using n ticks_ok_range [OF ok] by (simp add: ticks_ahead_def)
  have pr': "progress z limit st (s\<lparr>swLiquidity := l, swTick := t\<rparr>)" "progress z limit st (s\<lparr>swLiquidity := l\<rparr>)"
    "progress z limit st (s\<lparr>swTick := t\<rparr>)" for l t using pr by (simp_all add: progress_def)
  have lim: "if z then limit \<le> sqrt_ratio n else sqrt_ratio n \<le> limit" using pr s(1) by (auto simp: progress_def)
  let ?t = "if z then n - 1 else n"
  have next_ok: "iter_ok z limit ticks st (Next s')"
    if "swSqrtPriceX96 s' = sqrt_ratio n" "swTick s' = ?t" "0 \<le> swLiquidity s'" "progress z limit st s'" for s'
    using that sw_ok_cross [OF ok st r that(1-3) lim] ahead_cross [OF n that(2)] by (simp add: iter_ok_def)
  show ?thesis
  proof (cases "List.find (\<lambda>t. tiIndex t = n) ticks")
    case None
    then show ?thesis using next_ok [of "s\<lparr>swTick := ?t\<rparr>"] pr' s by (simp add: cross_tick_def)
  next
    case (Some t)
    let ?l = "swLiquidity s + (if z then - tiLiquidityNet t else tiLiquidityNet t)"
    consider "?l < 0" | "maxUint128 < ?l" "0 \<le> ?l" | "0 \<le> ?l" "?l \<le> maxUint128" by linarith
    then show ?thesis
    proof cases
      case 1
      then show ?thesis using Some pr' by (simp add: cross_tick_def AddDelta_def Let_def iter_ok_def)
    next
      case 2
      then show ?thesis using Some by (simp add: cross_tick_def AddDelta_def Let_def iter_ok_def)
    next
      case 3
      have "cross_tick ticks n z s = Next (s\<lparr>swLiquidity := ?l, swTick := ?t\<rparr>)"
        using Some 3 by (simp add: cross_tick_def AddDelta_def Let_def)
      then show ?thesis using next_ok [of "s\<lparr>swLiquidity := ?l, swTick := ?t\<rparr>"] pr' s 3 by simp
    qed
  qed
qed

lemma step_progress:
  assumes st: "sw_ok z limit ticks st" and rem: "swRemaining st \<noteq> 0" and e: "exactIn = (swRemaining st > 0)"
    and t: "if z then limit \<le> t \<and> t \<le> swSqrtPriceX96 st else swSqrtPriceX96 st \<le> t \<and> t \<le> limit"
    and s: "step_ok (swSqrtPriceX96 st) t (swLiquidity st) (swRemaining st) f x"
    and st': "st' = (if exactIn
       then st\<lparr>swRemaining := swRemaining st - (ssAmountIn x + ssFeeAmount x), swCalculated := swCalculated st + ssAmountOut x,
               swSqrtPriceX96 := ssSqrtRatioNextX96 x\<rparr>
       else st\<lparr>swRemaining := swRemaining st + ssAmountOut x, swCalculated := swCalculated st + (ssAmountIn x + ssFeeAmount x),
               swSqrtPriceX96 := ssSqrtRatioNextX96 x\<rparr>)"
  shows "progress z limit st st'" and "swSqrtPriceX96 st' = ssSqrtRatioNextX96 x" and "swLiquidity st' = swLiquidity st"
    and "swTick st' = swTick st" and "ssSqrtRatioNextX96 x \<noteq> t \<Longrightarrow> swRemaining st' = 0"
    and "if z then t \<le> ssSqrtRatioNextX96 x \<and> ssSqrtRatioNextX96 x \<le> swSqrtPriceX96 st
         else swSqrtPriceX96 st \<le> ssSqrtRatioNextX96 x \<and> ssSqrtRatioNextX96 x \<le> t"
  using st rem t s unfolding st' e by (auto simp: progress_def step_ok_def split: if_splits)

context uint256_pkg
begin

text \<open>
  The outcomes of an iteration: no initialised tick is left; the price reaches the next tick, which is crossed; the price stops inside the
  range; or the price does not move.
\<close>

lemma swap_step_form:
  assumes ok: "ticks_ok (v3Ticks pool)" and st: "sw_ok z limit (v3Ticks pool) st" and fee: "v3Fee pool < 1000000"
    and rem: "swRemaining st \<noteq> 0" and e: "exactIn = (swRemaining st > 0)"
  obtains (none) "swap_step U pool limit z exactIn st = Break st"
  | (cross) n st' where "NextInitializedTickWithinOneWord (v3Ticks pool) (swTick st) z = (n, True)" "n \<in> ticks_ahead z (v3Ticks pool) st"
      "progress z limit st st'" "swSqrtPriceX96 st' = sqrt_ratio n" "swLiquidity st' = swLiquidity st" "swTick st' = swTick st"
      "swap_step U pool limit z exactIn st = cross_tick (v3Ticks pool) n z st'"
  | (inside) n st' k where "NextInitializedTickWithinOneWord (v3Ticks pool) (swTick st) z = (n, True)" "n \<in> ticks_ahead z (v3Ticks pool) st"
      "progress z limit st st'" "swLiquidity st' = swLiquidity st" "swRemaining st' = 0 \<or> swSqrtPriceX96 st' = limit"
      "if z then sqrt_ratio n < swSqrtPriceX96 st' \<and> swSqrtPriceX96 st' < swSqrtPriceX96 st
       else swSqrtPriceX96 st < swSqrtPriceX96 st' \<and> swSqrtPriceX96 st' < sqrt_ratio n"
      "MIN_TICK \<le> k" "k < MAX_TICK" "sqrt_ratio k \<le> swSqrtPriceX96 st'" "swSqrtPriceX96 st' < sqrt_ratio (k + 1)"
      "swap_step U pool limit z exactIn st = Next (st'\<lparr>swTick := k\<rparr>)"
  | (stay) st' where "progress z limit st st'" "swSqrtPriceX96 st' = swSqrtPriceX96 st" "swLiquidity st' = swLiquidity st"
      "swTick st' = swTick st" "swRemaining st' = 0 \<or> swSqrtPriceX96 st' = limit" "swap_step U pool limit z exactIn st = Next st'"
proof -
  obtain n found where nf: "NextInitializedTickWithinOneWord (v3Ticks pool) (swTick st) z = (n, found)" by fastforce
  show thesis
  proof (cases found)
    case False
    then show thesis using nf none by (simp add: swap_step_def)
  next
    case True
    have nf': "NextInitializedTickWithinOneWord (v3Ticks pool) (swTick st) z = (n, True)" using nf True by simp
    note ahead = next_tick_ahead [OF ok st nf']
    let ?p = "swSqrtPriceX96 st" and ?q = "sqrt_ratio n"
    let ?t = "if (z \<and> ?q < limit) \<or> (\<not> z \<and> ?q > limit) then limit else ?q"
    have cl: "clamp_tick n = n" using ahead(2) by (simp add: clamp_tick_def)
    have q: "GetSqrtRatioAtTick U n = Inr ?q" using ahead(2) by (simp add: GetSqrtRatioAtTick_eq)
    have qr: "MIN_SQRT_RATIO \<le> ?q" "?q \<le> MAX_SQRT_RATIO" using sqrt_ratio_range ahead(2) by simp_all
    have t: "if z then limit \<le> ?t \<and> ?t \<le> ?p \<and> ?q \<le> ?t else ?p \<le> ?t \<and> ?t \<le> limit \<and> ?t \<le> ?q"
      using ahead(3) st by (auto simp: sw_ok_def split: if_splits)
    have pos: "0 < ?p" "0 < ?t" "0 \<le> swLiquidity st" using st qr by (auto simp: sw_ok_def MIN_SQRT_RATIO_def)
    have f: "0 \<le> uint (v3Fee pool)" "uint (v3Fee pool) < 1000000" using fee by (simp_all add: word_less_def)
    obtain x where x: "computeSwapStep ?p ?t (swLiquidity st) (swRemaining st) (uint (v3Fee pool)) = Inr x"
        "step_ok ?p ?t (swLiquidity st) (swRemaining st) (uint (v3Fee pool)) x"
      using computeSwapStep_ok [OF pos f] by blast
    define st' where "st' = (if exactIn
       then st\<lparr>swRemaining := swRemaining st - (ssAmountIn x + ssFeeAmount x), swCalculated := swCalculated st + ssAmountOut x,
               swSqrtPriceX96 := ssSqrtRatioNextX96 x\<rparr>
       else st\<lparr>swRemaining := swRemaining st + ssAmountOut x, swCalculated := swCalculated st + (ssAmountIn x + ssFeeAmount x),
               swSqrtPriceX96 := ssSqrtRatioNextX96 x\<rparr>)"
    have t': "if z then limit \<le> ?t \<and> ?t \<le> ?p else ?p \<le> ?t \<and> ?t \<le> limit" using t by (auto split: if_splits)
    note sp = step_progress [OF st rem e t' x(2) st'_def]
    let ?r = "ssSqrtRatioNextX96 x"
    have step: "swap_step U pool limit z exactIn st =
        (if ?r = ?q then cross_tick (v3Ticks pool) n z st'
         else if ?r \<noteq> ?p then (case GetTickAtSqrtRatio U ?r of Inl err \<Rightarrow> Fail (V3TickError err) | Inr tick \<Rightarrow> Next (st'\<lparr>swTick := tick\<rparr>))
         else Next st')"
      unfolding swap_step_def nf' prod.case cl q sum.case Let_def x(1) st'_def [symmetric] sp(2) by simp
    have fin: "swRemaining st' = 0 \<or> swSqrtPriceX96 st' = limit" if "?r \<noteq> ?q"
      using sp(2,5) that by (cases "?r = ?t") (auto split: if_splits)
    consider "?r = ?q" | "?r \<noteq> ?q" "?r \<noteq> ?p" | "?r \<noteq> ?q" "?r = ?p" by blast
    then show thesis
    proof cases
      case 1
      then show thesis using cross [OF nf' ahead(1) sp(1)] sp(2-4) step by simp
    next
      case 2
      have between: "if z then ?q < ?r \<and> ?r < ?p else ?p < ?r \<and> ?r < ?q" using 2 t sp(6) by (auto split: if_splits)
      then have "MIN_SQRT_RATIO \<le> ?r" "?r < MAX_SQRT_RATIO" using qr st by (auto simp: sw_ok_def split: if_splits)
      then obtain k where k: "GetTickAtSqrtRatio U ?r = Inr k" "MIN_TICK \<le> k" "k < MAX_TICK" "sqrt_ratio k \<le> ?r" "?r < sqrt_ratio (k + 1)"
        using GetTickAtSqrtRatio_correct by blast
      show thesis
        by (rule inside [OF nf' ahead(1) sp(1,3) fin [OF 2(1)], of k]) (use between k step 2 sp(2) in simp_all)
    next
      case 3
      then show thesis using stay [OF sp(1) _ sp(3,4) fin] sp(2) step by simp
    qed
  qed
qed

lemma swap_step_ok:
  assumes ok: "ticks_ok (v3Ticks pool)" and st: "sw_ok z limit (v3Ticks pool) st" and fee: "v3Fee pool < 1000000"
    and rem: "swRemaining st \<noteq> 0" and e: "exactIn = (swRemaining st > 0)"
  shows "iter_ok z limit (v3Ticks pool) st (swap_step U pool limit z exactIn st)"
proof (cases rule: swap_step_form [OF assms])
  case 1
  then show ?thesis using progress_refl [OF st] by (simp add: iter_ok_def)
next
  case (2 n st')
  have "iter_ok z limit (v3Ticks pool) st (cross_tick (v3Ticks pool) n z st')"
    by (rule cross_tick_ok [OF ok st 2(2) 2(4) _ 2(3)]) (use 2(5) st in \<open>simp add: sw_ok_def\<close>)
  then show ?thesis using 2(7) by simp
next
  case (3 n st' k)
  have "sw_ok z limit (v3Ticks pool) (st'\<lparr>swTick := k\<rparr>)"
    by (rule sw_ok_inside [OF ok st 3(7-10)]) (use 3(3,4) st in \<open>auto simp: progress_def sw_ok_def split: if_splits\<close>)
  moreover have "progress z limit st (st'\<lparr>swTick := k\<rparr>)" using 3(3) by (simp add: progress_def)
  ultimately show ?thesis using 3(5,11) by (auto simp: iter_ok_def)
next
  case (4 st')
  have "sw_ok z limit (v3Ticks pool) st'" using st 4(2-4) by (simp add: sw_ok_def)
  then show ?thesis using 4(1,5,6) by (auto simp: iter_ok_def)
qed

lemma swap_loop_ok:
  assumes ok: "ticks_ok (v3Ticks pool)" and fee: "v3Fee pool < 1000000"
    and st: "sw_ok z limit (v3Ticks pool) st" and e: "swRemaining st \<noteq> 0 \<Longrightarrow> exactIn = (swRemaining st > 0)"
  shows "\<exists>r. swap_loop U pool limit z exactIn st = Some r \<and>
    (case r of Inl err \<Rightarrow> err = V3LiquidityError ErrLiquidityOverflow | Inr s \<Rightarrow> progress z limit st s)"
  using st e
proof (induction "card (ticks_ahead z (v3Ticks pool) st)" arbitrary: st rule: less_induct)
  case less
  note unfold = swap_loop.simps [of U pool limit z exactIn st]
  show ?case
  proof (cases "swRemaining st \<noteq> 0 \<and> swSqrtPriceX96 st \<noteq> limit")
    case False
    have "swap_loop U pool limit z exactIn st = Some (Inr st)" unfolding unfold if_not_P [OF False] by (rule refl)
    then show ?thesis using progress_refl [OF less.prems(1)] by simp
  next
    case True
    have it: "iter_ok z limit (v3Ticks pool) st (swap_step U pool limit z exactIn st)"
      by (rule swap_step_ok [OF ok less.prems(1) fee]) (use True less.prems(2) in auto)
    show ?thesis
    proof (cases "swap_step U pool limit z exactIn st")
      case (Fail err)
      then have "swap_loop U pool limit z exactIn st = Some (Inl err)" using True by (simp add: unfold)
      then show ?thesis using it Fail by (simp add: iter_ok_def)
    next
      case (Break s)
      then have "swap_loop U pool limit z exactIn st = Some (Inr s)" using True by (simp add: unfold)
      then show ?thesis using it Break by (simp add: iter_ok_def)
    next
      case (Next s)
      then have l: "swap_loop U pool limit z exactIn st = swap_loop U pool limit z exactIn s"
        using True by (simp add: unfold)
      have s: "progress z limit st s" "sw_ok z limit (v3Ticks pool) s"
        "swRemaining s = 0 \<or> swSqrtPriceX96 s = limit \<or> card (ticks_ahead z (v3Ticks pool) s) < card (ticks_ahead z (v3Ticks pool) st)"
        using it Next by (simp_all add: iter_ok_def)
      have "\<exists>r. swap_loop U pool limit z exactIn s = Some r \<and>
          (case r of Inl err \<Rightarrow> err = V3LiquidityError ErrLiquidityOverflow | Inr s' \<Rightarrow> progress z limit s s')"
      proof (cases "swRemaining s \<noteq> 0 \<and> swSqrtPriceX96 s \<noteq> limit")
        case False
        have "swap_loop U pool limit z exactIn s = Some (Inr s)"
          unfolding swap_loop.simps [of U pool limit z exactIn s] if_not_P [OF False] by (rule refl)
        then show ?thesis using progress_refl [OF s(2)] by simp
      next
        case sr: True
        have "exactIn = (swRemaining s > 0)" using less.prems(2) True sr s(1) by (auto simp: progress_def split: if_splits)
        then show ?thesis using less.hyps [of s] s sr by simp
      qed
      then show ?thesis using l progress_trans [OF s(1)] by (auto split: sum.splits)
    qed
  qed
qed

end

section \<open>Properties\<close>

text \<open>
  A pool whose data is consistent: ticks sorted, distinct and in range, as the tick indexer keeps them; a
  fee below 100 per cent; and a price in the range of the current tick.
\<close>

definition v3_pool_ok :: "'u uint256 \<Rightarrow> V3PoolView \<Rightarrow> bool" where
  "v3_pool_ok U pool \<longleftrightarrow> ticks_ok (v3Ticks pool) \<and> v3Fee pool < 1000000 \<and> 0 \<le> v3Liquidity pool \<and>
     (\<exists>p q. GetSqrtRatioAtTick U (v3Tick pool) = Inr p \<and> GetSqrtRatioAtTick U (v3Tick pool + 1) = Inr q \<and>
       p \<le> v3SqrtPriceX96 pool \<and> v3SqrtPriceX96 pool \<le> q)"

definition limit_ok :: "int option \<Rightarrow> bool \<Rightarrow> V3PoolView \<Rightarrow> bool" where
  "limit_ok limit z pool \<longleftrightarrow>
     (case limit of None \<Rightarrow> True
      | Some l \<Rightarrow> 0 < l \<and> (if z then l \<le> v3SqrtPriceX96 pool else v3SqrtPriceX96 pool \<le> l))"

lemma GetSqrtRatioAtTick_Inr:
  assumes "uint256_pkg U" and "GetSqrtRatioAtTick U t = Inr p"
  shows "MIN_TICK \<le> t" "t \<le> MAX_TICK" "p = sqrt_ratio t"
  using assms(2) GetSqrtRatioAtTick_out [of t U] uint256_pkg.GetSqrtRatioAtTick_eq [OF assms(1), of t]
  by (cases "t < MIN_TICK \<or> MAX_TICK < t"; simp)+

lemma start_ok:
  assumes U: "uint256_pkg U" and ok: "v3_pool_ok U pool" and lim: "limit_ok limit z pool"
  shows "sw_ok z (swap_limit limit z) (v3Ticks pool) (start_state a pool)"
proof -
  obtain p q where "GetSqrtRatioAtTick U (v3Tick pool) = Inr p" "GetSqrtRatioAtTick U (v3Tick pool + 1) = Inr q"
    and pq: "p \<le> v3SqrtPriceX96 pool" "v3SqrtPriceX96 pool \<le> q" using ok by (auto simp: v3_pool_ok_def)
  note t = GetSqrtRatioAtTick_Inr [OF U this(1)] GetSqrtRatioAtTick_Inr [OF U this(2)]
  have ticks: "ticks_ok (v3Ticks pool)" using ok by (simp add: v3_pool_ok_def)
  have "sqrt_ratio m \<le> v3SqrtPriceX96 pool" if "m \<in> tick_indices (v3Ticks pool)" "m \<le> v3Tick pool" for m
    using sqrt_ratio_mono [of m "v3Tick pool"] ticks_ok_range [OF ticks that(1)] t pq that by simp
  moreover have "v3SqrtPriceX96 pool \<le> sqrt_ratio m" if "m \<in> tick_indices (v3Ticks pool)" "v3Tick pool < m" for m
    using sqrt_ratio_mono [of "v3Tick pool + 1" m] ticks_ok_range [OF ticks that(1)] t pq that by simp
  moreover have "MIN_SQRT_RATIO \<le> v3SqrtPriceX96 pool" "v3SqrtPriceX96 pool \<le> MAX_SQRT_RATIO"
    using sqrt_ratio_range [of "v3Tick pool"] sqrt_ratio_range [of "v3Tick pool + 1"] t pq by simp_all
  ultimately show ?thesis using ok lim
    by (auto simp: sw_ok_def start_state_def v3_pool_ok_def limit_ok_def swap_limit_def MIN_SQRT_RATIO_def MAX_SQRT_RATIO_def
        split: option.splits)
qed

text \<open>
  C2: On a consistent pool the swap loop always returns, whatever the amount and the direction, with or
  without a price limit. The only error is a liquidity above the range of \<^verbatim>\<open>uint128\<close>. Otherwise an exact
  input is never overspent and an exact output never exceeded, the amount on the other side is not
  negative, and the price moves in the direction of the swap and not past the limit.
\<close>

theorem v3_swap_returns:
  assumes "uint256_pkg U" and "v3_pool_ok U pool" and "limit_ok limit zeroForOne pool"
  shows "\<exists>r. v3_swap U (start_state amount pool) pool limit zeroForOne = Some r \<and>
    (case r of
       Inl err \<Rightarrow> err = V3LiquidityError ErrLiquidityOverflow
     | Inr s \<Rightarrow> 0 \<le> swCalculated s \<and>
         (if 0 \<le> amount then 0 \<le> swRemaining s \<and> swRemaining s \<le> amount else amount \<le> swRemaining s \<and> swRemaining s \<le> 0) \<and>
         (if zeroForOne
          then swap_limit limit True \<le> swSqrtPriceX96 s \<and> swSqrtPriceX96 s \<le> v3SqrtPriceX96 pool
          else v3SqrtPriceX96 pool \<le> swSqrtPriceX96 s \<and> swSqrtPriceX96 s \<le> swap_limit limit False))"
proof -
  have ok: "ticks_ok (v3Ticks pool)" "v3Fee pool < 1000000" using assms(2) by (simp_all add: v3_pool_ok_def)
  obtain r where r: "swap_loop U pool (swap_limit limit zeroForOne) zeroForOne (swRemaining (start_state amount pool) > 0) (start_state amount pool) = Some r"
    "case r of Inl err \<Rightarrow> err = V3LiquidityError ErrLiquidityOverflow
     | Inr s \<Rightarrow> progress zeroForOne (swap_limit limit zeroForOne) (start_state amount pool) s"
    using uint256_pkg.swap_loop_ok [OF assms(1) ok start_ok [OF assms]] by blast
  moreover have "v3_swap U (start_state amount pool) pool limit zeroForOne = Some r"
    using r(1) by (simp add: v3_swap_def Let_def)
  ultimately show ?thesis by (auto simp: progress_def start_state_def split: sum.splits)
qed

definition sample_v3 :: V3PoolView where
  "sample_v3 = \<lparr>v3ID = 1, v3Token0 = 10, v3Token1 = 20, v3Fee = 3000, v3TickSpacing = 60, v3Tick = 0, v3Liquidity = 10,
     v3SqrtPriceX96 = 2 ^ 96, v3Ticks = [\<lparr>tiIndex = 0, tiLiquidityGross = 20, tiLiquidityNet = 20\<rparr>]\<rparr>"

lemma sample_ratios:
  "GetSqrtRatioAtTick word_uint256 0 = Inr (2 ^ 96)" "GetSqrtRatioAtTick word_uint256 1 = Inr 79232123823359799118286999568"
  using w256.GetSqrtRatioAtTick_eq [of 0] w256.GetSqrtRatioAtTick_eq [of 1]
  by (simp_all add: MIN_TICK_def MAX_TICK_def sqrt_ratio_def raw_ratio_def tick_consts_list ceil_div_def maxUint256_def)

lemma sample_v3_ok: "v3_pool_ok word_uint256 sample_v3"
  by (simp add: v3_pool_ok_def sample_v3_def ticks_ok_def sample_ratios MIN_TICK_def MAX_TICK_def)

theorem v3_swap_returns_witness:
  "v3_pool_ok word_uint256 sample_v3 \<and> limit_ok None True sample_v3 \<and>
   (\<exists>r. v3_swap word_uint256 (start_state 1000 sample_v3) sample_v3 None True = Some r)"
proof -
  have "limit_ok None True sample_v3" by (simp add: limit_ok_def)
  then show ?thesis using v3_swap_returns [OF w256.uint256_pkg_axioms sample_v3_ok, of None True 1000] sample_v3_ok by blast
qed

text \<open>
  C18: The tick search on sorted ticks with distinct indices: to the left it returns the greatest
  initialised tick that is at most the given one, to the right the least that is greater, and it reports
  that there is none exactly when there is none.
\<close>

theorem NextInitializedTick_nearest:
  assumes "ticks_ok ticks"
  shows "case NextInitializedTickWithinOneWord ticks tick lte of (n, found) \<Rightarrow>
    (if lte
     then (if found then n \<in> tick_indices ticks \<and> n \<le> tick \<and> (\<forall>m \<in> tick_indices ticks. m \<le> tick \<longrightarrow> m \<le> n)
           else \<forall>m \<in> tick_indices ticks. tick < m)
     else (if found then n \<in> tick_indices ticks \<and> tick < n \<and> (\<forall>m \<in> tick_indices ticks. tick < m \<longrightarrow> n \<le> m)
           else \<forall>m \<in> tick_indices ticks. m \<le> tick))"
  using next_tick_lte [OF assms] next_tick_gt [OF assms] by (cases lte) simp_all

theorem NextInitializedTick_nearest_witness:
  "ticks_ok (v3Ticks sample_v3) \<and> (case NextInitializedTickWithinOneWord (v3Ticks sample_v3) 5 True of (n, found) \<Rightarrow>
     if found then n \<in> tick_indices (v3Ticks sample_v3) \<and> n \<le> 5 else \<forall>m \<in> tick_indices (v3Ticks sample_v3). 5 < m)"
proof -
  have ok: "ticks_ok (v3Ticks sample_v3)" using sample_v3_ok by (simp add: v3_pool_ok_def)
  then show ?thesis using NextInitializedTick_nearest [OF ok, where tick = 5 and lte = True] by (auto split: if_splits)
qed

text \<open>
  When a crossed tick takes away more liquidity than the pool has, \<^verbatim>\<open>AddDelta\<close> has already written the
  negative sum into the state before it reports the underflow, and the loop only breaks: the simulation
  returns without error a pool with negative liquidity.
\<close>

lemma underflow_returns_negative_liquidity:
  "\<exists>pool'. SimulateExactInSwap word_uint256 (Some 1000) None 10 sample_v3 = Some (Inr (0, pool')) \<and> v3Liquidity pool' = - 10"
proof -
  let ?s = "start_state 1000 sample_v3"
  have n: "NextInitializedTickWithinOneWord (v3Ticks sample_v3) 0 True = (0, True)"
    by (simp add: NextInitializedTickWithinOneWord_def sample_v3_def sort_Search_def search_loop.simps)
  have c: "computeSwapStep (2 ^ 96) (2 ^ 96) 10 1000 3000 = Inr \<lparr>ssSqrtRatioNextX96 = 2 ^ 96, ssAmountIn = 0, ssAmountOut = 0, ssFeeAmount = 0\<rparr>"
    by code_simp
  have "swap_step word_uint256 sample_v3 MIN_SQRT_RATIO True True ?s = Break (?s\<lparr>swLiquidity := - 10\<rparr>)"
    using n c sample_ratios(1)
    by (simp add: swap_step_def start_state_def sample_v3_def clamp_tick_def MIN_TICK_def MAX_TICK_def MIN_SQRT_RATIO_def Let_def
        cross_tick_def AddDelta_def)
  then have "swap_loop word_uint256 sample_v3 MIN_SQRT_RATIO True True ?s = Some (Inr (?s\<lparr>swLiquidity := - 10\<rparr>))"
    by (simp add: swap_loop.simps [of word_uint256 sample_v3 MIN_SQRT_RATIO True True ?s])
      (simp add: start_state_def sample_v3_def MIN_SQRT_RATIO_def)
  then have "v3_swap word_uint256 ?s sample_v3 None True = Some (Inr (?s\<lparr>swLiquidity := - 10\<rparr>))"
    by (simp add: v3_swap_def swap_limit_def start_state_def)
  moreover have "v3Token0 sample_v3 = 10" by (simp add: sample_v3_def)
  ultimately show ?thesis by (simp add: SimulateExactInSwap_def new_pool_state_def) (simp add: start_state_def)
qed

end
