(* ===== verification/State_Stream.thy ===== *)
theory State_Stream
  imports State_Sync
begin

text \<open>
  The state stream: one subscription of the JSON-RPC streamer (\<^verbatim>\<open>src/streams/jsonrpc/server/streamer.go\<close>), which decides for every
  state of the engine between a full state and a diff, the stream processor of the client
  (\<^verbatim>\<open>src/streams/jsonrpc/client\<close>), and the decoders of \<^verbatim>\<open>src/streams/jsonrpc/stateops\<close>. The JSON encoder and decoder are a
  record of functions, one per type they are used at, with their round trips as the predicate \<^verbatim>\<open>codec_ok\<close>. The last theorem
  composes the server loop, the codec and the processor.
\<close>

section \<open>Server\<close>

datatype payload = StatePayload EngineState | DiffPayload StateDiff

record SubscriptionEvent =
  evType :: string
  evPayload :: payload
  evSentAt :: int

definition EventTypeFull :: string where
  "EventTypeFull = ''full''"

definition EventTypeDiff :: string where
  "EventTypeDiff = ''diff''"

text \<open>The configuration: which dependencies are present, and the interval.\<close>

record StreamerConfig =
  scEngine :: bool
  scDiffer :: bool
  scLogger :: bool
  scFullStateInterval :: uint64

definition streamer_validate :: "StreamerConfig \<Rightarrow> string + unit" where
  "streamer_validate c =
     (if \<not> scEngine c then Inl ''config: Engine cannot be nil''
      else if \<not> scDiffer c then Inl ''config: Differ cannot be nil''
      else if \<not> scLogger c then Inl ''config: Logger cannot be nil''
      else if scFullStateInterval c < 2 then Inl ''config: FullStateInterval must be 2 or greater to enable diffing''
      else Inr ())"

text \<open>The variables of one subscriber's goroutine.\<close>

record StreamState =
  prevState :: "EngineState option"
  blocksSinceFullState :: uint64
  previousStateHadError :: bool

definition initStream :: "uint64 \<Rightarrow> StreamState" where
  "initStream fullStateInterval = \<lparr>prevState = None, blocksSinceFullState = fullStateInterval, previousStateHadError = False\<rparr>"

text \<open>
  One iteration of the loop on a received state: the event that is notified, if any. The differ is called with the time
  \<^verbatim>\<open>now\<close>, the event is stamped with \<^verbatim>\<open>sentAt\<close>.
\<close>

definition SubscribeStateStream_step ::
  "sync_env \<Rightarrow> uint64 \<Rightarrow> uint64 \<Rightarrow> int \<Rightarrow> EngineState \<Rightarrow> StreamState \<Rightarrow> StreamState \<times> SubscriptionEvent option" where
  "SubscribeStateStream_step e fullStateInterval now sentAt state sv =
     (let currentStateHasError = HasErrors state;
          full = (\<lparr>prevState = Some state, blocksSinceFullState = 1, previousStateHadError = currentStateHasError\<rparr>,
                  Some \<lparr>evType = EventTypeFull, evPayload = StatePayload state, evSentAt = sentAt\<rparr>) in
      case prevState sv of
        None \<Rightarrow> full
      | Some prev \<Rightarrow>
          if block_number (esBlock prev) + 1 \<noteq> block_number (esBlock state) \<or> fullStateInterval \<le> blocksSinceFullState sv \<or>
             currentStateHasError \<or> previousStateHadError sv
          then full
          else (case StateDiffer_Diff e now prev state of
                  Inl err \<Rightarrow> (sv, None)
                | Inr diff \<Rightarrow>
                    (\<lparr>prevState = Some state, blocksSinceFullState = blocksSinceFullState sv + 1, previousStateHadError = currentStateHasError\<rparr>,
                     Some \<lparr>evType = EventTypeDiff, evPayload = DiffPayload diff, evSentAt = sentAt\<rparr>)))"

section \<open>JSON\<close>

text \<open>\<^verbatim>\<open>clientState\<close> and \<^verbatim>\<open>clientStateDiff\<close>: the data of a protocol stays raw.\<close>

record 'raw clientProtocolState =
  cpMeta :: ProtocolMeta
  cpSyncedBlockNumber :: "uint64 option"
  cpSchema :: ProtocolSchema
  cpError :: string
  cpData :: 'raw

record 'raw clientState =
  csChainID :: uint64
  csTimestamp :: uint64
  csBlock :: BlockSummary
  csProtocols :: "(EngineProtocolID, 'raw clientProtocolState) gomap"

record 'raw clientStateDiff =
  cdFromBlock :: uint64
  cdToBlock :: BlockSummary
  cdTimestamp :: uint64
  cdProtocols :: "(EngineProtocolID, 'raw clientProtocolState) gomap"

record 'raw ClientEvent =
  ceType :: string
  cePayload :: 'raw
  ceSentAt :: int

text \<open>\<^verbatim>\<open>json.Marshal\<close> and \<^verbatim>\<open>json.Unmarshal\<close>, at the types at which the code calls them; an error is its text.\<close>

record 'raw codec =
  jmEvent :: "SubscriptionEvent \<Rightarrow> 'raw"
  jmPayload :: "payload \<Rightarrow> 'raw"
  jmData :: "protocol_data \<Rightarrow> 'raw"
  jmDiffData :: "protocol_diff \<Rightarrow> 'raw"
  juEvent :: "'raw \<Rightarrow> string + 'raw ClientEvent"
  juState :: "'raw \<Rightarrow> string + 'raw clientState"
  juStateDiff :: "'raw \<Rightarrow> string + 'raw clientStateDiff"
  juTokens :: "'raw \<Rightarrow> string + TokenView list"
  juPools :: "'raw \<Rightarrow> string + PoolRegistryView"
  juGraph :: "'raw \<Rightarrow> string + TokenPoolsRegistryView option"
  juV2 :: "'raw \<Rightarrow> string + V2PoolView list"
  juV3 :: "'raw \<Rightarrow> string + V3PoolView list"
  juTokensDiff :: "'raw \<Rightarrow> string + TokenSystemDiff"
  juPoolsDiff :: "'raw \<Rightarrow> string + PoolRegistryDiff"
  juGraphDiff :: "'raw \<Rightarrow> string + TokenPoolRegistryDiff"
  juV2Diff :: "'raw \<Rightarrow> string + UniswapV2SystemDiff"
  juV3Diff :: "'raw \<Rightarrow> string + UniswapV3SystemDiff"

definition map_result :: "('a \<Rightarrow> 'b) \<Rightarrow> 'e + 'a \<Rightarrow> 'e + 'b" where
  "map_result f r = bind_result r (\<lambda>x. Inr (f x))"

lemma map_result_simps [simp]: "map_result f (Inr x) = Inr (f x)" "map_result f (Inl e) = Inl e"
  by (simp_all add: map_result_def)

definition DecodeStateJSON :: "('raw, 'x) codec_scheme \<Rightarrow> ProtocolSchema \<Rightarrow> 'raw \<Rightarrow> string + protocol_data" where
  "DecodeStateJSON j schema data =
     (if schema = TokenProtocolSchema then map_result TokenData (juTokens j data)
      else if schema = PoolProtocolSchema then map_result PoolData (juPools j data)
      else if schema = TokenPoolProtocolSchema then map_result GraphData (juGraph j data)
      else if schema = UniswapV2ProtocolSchema then map_result V2Data (juV2 j data)
      else if schema = UniswapV3ProtocolSchema then map_result V3Data (juV3 j data)
      else Inl (''unknown schema: '' @ schema))"

definition DecodeStateDiffJSON :: "('raw, 'x) codec_scheme \<Rightarrow> ProtocolSchema \<Rightarrow> 'raw \<Rightarrow> string + protocol_diff" where
  "DecodeStateDiffJSON j schema data =
     (if schema = TokenProtocolSchema then map_result TokenDiff (juTokensDiff j data)
      else if schema = PoolProtocolSchema then map_result PoolDiff (juPoolsDiff j data)
      else if schema = TokenPoolProtocolSchema then map_result GraphDiff (juGraphDiff j data)
      else if schema = UniswapV2ProtocolSchema then map_result V2Diff (juV2Diff j data)
      else if schema = UniswapV3ProtocolSchema then map_result V3Diff (juV3Diff j data)
      else Inl (''unknown schema: '' @ schema))"

section \<open>Client\<close>

datatype client_error =
    ErrUnmarshal string
  | ErrUnknownEventType string
  | ErrProtocolErrored EngineProtocolID uint64 string
  | ErrDecode EngineProtocolID string
  | ErrDiffBeforeFull uint64
  | ErrPatch sync_error

text \<open>The processor, with the states it has sent on its channel, oldest first.\<close>

record StreamProcessor =
  lastState :: "EngineState option"
  stateCh :: "EngineState list"

definition NewStreamProcessor :: StreamProcessor where
  "NewStreamProcessor = \<lparr>lastState = None, stateCh = []\<rparr>"

fun decode_states ::
  "('raw, 'x) codec_scheme \<Rightarrow> uint64 \<Rightarrow> (EngineProtocolID \<times> 'raw clientProtocolState) list \<Rightarrow>
   (EngineProtocolID, ProtocolState) gomap \<Rightarrow> client_error + (EngineProtocolID, ProtocolState) gomap" where
  "decode_states j block [] acc = Inr acc"
| "decode_states j block ((pID, protocolState) # es) acc =
     (if cpError protocolState \<noteq> '''' then Inl (ErrProtocolErrored pID block (cpError protocolState))
      else (case DecodeStateJSON j (cpSchema protocolState) (cpData protocolState) of
              Inl err \<Rightarrow> Inl (ErrDecode pID err)
            | Inr typedData \<Rightarrow> decode_states j block es (AList.update pID
                \<lparr>stMeta = cpMeta protocolState, stSyncedBlockNumber = cpSyncedBlockNumber protocolState, stSchema = cpSchema protocolState,
                 stData = typedData, stError = cpError protocolState\<rparr> acc)))"

fun decode_diffs ::
  "('raw, 'x) codec_scheme \<Rightarrow> uint64 \<Rightarrow> (EngineProtocolID \<times> 'raw clientProtocolState) list \<Rightarrow>
   (EngineProtocolID, ProtocolDiff) gomap \<Rightarrow> client_error + (EngineProtocolID, ProtocolDiff) gomap" where
  "decode_diffs j block [] acc = Inr acc"
| "decode_diffs j block ((pID, protocolDiff) # es) acc =
     (if cpError protocolDiff \<noteq> '''' then Inl (ErrProtocolErrored pID block (cpError protocolDiff))
      else (case DecodeStateDiffJSON j (cpSchema protocolDiff) (cpData protocolDiff) of
              Inl err \<Rightarrow> Inl (ErrDecode pID err)
            | Inr typedData \<Rightarrow> decode_diffs j block es (AList.update pID
                \<lparr>pdfMeta = cpMeta protocolDiff, pdfSyncedBlockNumber = cpSyncedBlockNumber protocolDiff, pdfSchema = cpSchema protocolDiff,
                 pdfData = typedData, pdfError = cpError protocolDiff\<rparr> acc)))"

definition storeState :: "EngineState \<Rightarrow> StreamProcessor \<Rightarrow> StreamProcessor" where
  "storeState state sp = sp\<lparr>lastState := Some state\<rparr>"

definition send_state :: "EngineState \<Rightarrow> StreamProcessor \<Rightarrow> StreamProcessor" where
  "send_state state sp = sp\<lparr>stateCh := stateCh sp @ [state]\<rparr>"

text \<open>\<^verbatim>\<open>ord\<close> is the order in which the decoded map of protocols is ranged over.\<close>

definition handleFullState ::
  "('raw, 'x) codec_scheme \<Rightarrow> (EngineProtocolID, 'raw clientProtocolState) range_order \<Rightarrow> 'raw ClientEvent \<Rightarrow> StreamProcessor \<Rightarrow>
   (client_error + unit) \<times> StreamProcessor" where
  "handleFullState j ord event sp =
     (case juState j (cePayload event) of
        Inl err \<Rightarrow> (Inl (ErrUnmarshal err), sp)
      | Inr cState \<Rightarrow>
          (case decode_states j (block_number (csBlock cState)) (ord (csProtocols cState)) [] of
             Inl err \<Rightarrow> (Inl err, sp)
           | Inr protocols \<Rightarrow>
               (let state = \<lparr>esChainID = csChainID cState, esTimestamp = csTimestamp cState, esBlock = csBlock cState, esProtocols = protocols\<rparr> in
                (Inr (), send_state state (storeState state sp)))))"

definition handleDiff ::
  "('raw, 'x) codec_scheme \<Rightarrow> (EngineProtocolID, 'raw clientProtocolState) range_order \<Rightarrow> sync_env \<Rightarrow> 'raw ClientEvent \<Rightarrow> StreamProcessor \<Rightarrow>
   (client_error + unit) \<times> StreamProcessor" where
  "handleDiff j ord e event sp =
     (case juStateDiff j (cePayload event) of
        Inl err \<Rightarrow> (Inl (ErrUnmarshal err), sp)
      | Inr cDiff \<Rightarrow>
          (case lastState sp of
             None \<Rightarrow> (Inl (ErrDiffBeforeFull (cdFromBlock cDiff)), sp)
           | Some lst \<Rightarrow>
               (case decode_diffs j (block_number (cdToBlock cDiff)) (ord (cdProtocols cDiff)) [] of
                  Inl err \<Rightarrow> (Inl err, sp)
                | Inr protocols \<Rightarrow>
                    if cdFromBlock cDiff \<noteq> block_number (esBlock lst) then (Inr (), sp)
                    else (case StatePatcher_Patch e lst \<lparr>sdTimestamp = cdTimestamp cDiff, sdFromBlock = cdFromBlock cDiff,
                                sdToBlock = cdToBlock cDiff, sdProtocols = protocols\<rparr> of
                            Inl err \<Rightarrow> (Inl (ErrPatch err), sp)
                          | Inr newState \<Rightarrow>
                              (let newState' = newState\<lparr>esTimestamp := cdTimestamp cDiff\<rparr> in
                               (Inr (), send_state newState' (storeState newState' sp)))))))"

definition ProcessMessage ::
  "('raw, 'x) codec_scheme \<Rightarrow> (EngineProtocolID, 'raw clientProtocolState) range_order \<Rightarrow> sync_env \<Rightarrow> 'raw \<Rightarrow> StreamProcessor \<Rightarrow>
   (client_error + unit) \<times> StreamProcessor" where
  "ProcessMessage j ord e rawData sp =
     (case juEvent j rawData of
        Inl err \<Rightarrow> (Inl (ErrUnmarshal err), sp)
      | Inr event \<Rightarrow>
          if ceType event = ''full'' then handleFullState j ord event sp
          else if ceType event = ''diff'' then handleDiff j ord e event sp
          else (Inl (ErrUnknownEventType (ceType event)), sp))"

section \<open>Round trips of the codec\<close>

text \<open>JSON has no representation of the infinities and of NaN; \<^verbatim>\<open>json.Marshal\<close> refuses them.\<close>

definition float_is_finite :: "float64 \<Rightarrow> bool" where
  "float_is_finite x \<longleftrightarrow> take_bit 11 (drop_bit 52 x) \<noteq> 2047"

text \<open>
  JSON text is Unicode: \<^verbatim>\<open>json.Marshal\<close> documents that a string which is not valid UTF-8 is coerced, its invalid bytes
  replaced by U+FFFD. Only valid strings come back as they were sent. A string is the list of its bytes; this is
  \<^verbatim>\<open>utf8.ValidString\<close>.
\<close>

definition between :: "nat \<Rightarrow> nat \<Rightarrow> char \<Rightarrow> bool" where
  "between l u c \<longleftrightarrow> l \<le> of_char c \<and> of_char c \<le> u"

fun valid_utf8 :: "string \<Rightarrow> bool" where
  "valid_utf8 [] = True"
| "valid_utf8 (a # bs) =
     (if between 0 127 a then valid_utf8 bs
      else case bs of
        [] \<Rightarrow> False
      | b # cs \<Rightarrow>
          if between 194 223 a then between 128 191 b \<and> valid_utf8 cs
          else case cs of
            [] \<Rightarrow> False
          | c # ds \<Rightarrow>
              if between 224 239 a
              then between (if of_char a = (224 :: nat) then 160 else 128) (if of_char a = (237 :: nat) then 159 else 191) b \<and>
                between 128 191 c \<and> valid_utf8 ds
              else case ds of
                [] \<Rightarrow> False
              | d # rest \<Rightarrow> between 240 244 a \<and>
                  between (if of_char a = (240 :: nat) then 144 else 128) (if of_char a = (244 :: nat) then 143 else 191) b \<and>
                  between 128 191 c \<and> between 128 191 d \<and> valid_utf8 rest)"

lemma valid_utf8_examples:
  "valid_utf8 ''USD Coin''" "valid_utf8 (map char_of [226, 130, 172 :: nat])"
  "\<not> valid_utf8 (map char_of [255 :: nat])" "\<not> valid_utf8 (map char_of [77, 195 :: nat])" "\<not> valid_utf8 (map char_of [237, 160, 128 :: nat])"
  by (simp_all add: between_def)

definition tokens_encodable :: "TokenView list \<Rightarrow> bool" where
  "tokens_encodable ts \<longleftrightarrow>
     (\<forall>t \<in> set ts. float_is_finite (tvFeeOnTransferPercent t) \<and> valid_utf8 (tvName t) \<and> valid_utf8 (tvSymbol t))"

fun data_encodable :: "protocol_data \<Rightarrow> bool" where
  "data_encodable (TokenData ts) = tokens_encodable ts"
| "data_encodable (PoolData v) = (\<forall>(i, name) \<in> set (prvProtocols v). valid_utf8 name)"
| "data_encodable _ = True"

fun diff_encodable :: "protocol_diff \<Rightarrow> bool" where
  "diff_encodable (TokenDiff d) = (tokens_encodable (tdAdditions d) \<and> tokens_encodable (tdUpdates d))"
| "diff_encodable (PoolDiff d) = (\<forall>(i, name) \<in> set (pdProtocolAdditions d). valid_utf8 name)"
| "diff_encodable _ = True"

definition meta_encodable :: "ProtocolMeta \<Rightarrow> bool" where
  "meta_encodable m \<longleftrightarrow> valid_utf8 (pmName m) \<and> (\<forall>t \<in> set (pmTags m). valid_utf8 t)"

definition state_encodable :: "EngineState \<Rightarrow> bool" where
  "state_encodable s \<longleftrightarrow> (\<forall>(i, p) \<in> set (esProtocols s). valid_utf8 i \<and> meta_encodable (stMeta p) \<and> valid_utf8 (stSchema p) \<and>
     valid_utf8 (stError p) \<and> data_encodable (stData p))"

definition statediff_encodable :: "StateDiff \<Rightarrow> bool" where
  "statediff_encodable d \<longleftrightarrow> (\<forall>(i, p) \<in> set (sdProtocols d). valid_utf8 i \<and> meta_encodable (pdfMeta p) \<and> valid_utf8 (pdfSchema p) \<and>
     valid_utf8 (pdfError p) \<and> diff_encodable (pdfData p))"

definition raw_protocol :: "('raw, 'x) codec_scheme \<Rightarrow> ProtocolState \<Rightarrow> 'raw clientProtocolState" where
  "raw_protocol j p = \<lparr>cpMeta = stMeta p, cpSyncedBlockNumber = stSyncedBlockNumber p, cpSchema = stSchema p, cpError = stError p,
     cpData = jmData j (stData p)\<rparr>"

definition raw_protocol_diff :: "('raw, 'x) codec_scheme \<Rightarrow> ProtocolDiff \<Rightarrow> 'raw clientProtocolState" where
  "raw_protocol_diff j p = \<lparr>cpMeta = pdfMeta p, cpSyncedBlockNumber = pdfSyncedBlockNumber p, cpSchema = pdfSchema p, cpError = pdfError p,
     cpData = jmDiffData j (pdfData p)\<rparr>"

definition raw_state :: "('raw, 'x) codec_scheme \<Rightarrow> EngineState \<Rightarrow> 'raw clientState" where
  "raw_state j s = \<lparr>csChainID = esChainID s, csTimestamp = esTimestamp s, csBlock = esBlock s,
     csProtocols = map (\<lambda>(i, p). (i, raw_protocol j p)) (esProtocols s)\<rparr>"

definition raw_state_diff :: "('raw, 'x) codec_scheme \<Rightarrow> StateDiff \<Rightarrow> 'raw clientStateDiff" where
  "raw_state_diff j d = \<lparr>cdFromBlock = sdFromBlock d, cdToBlock = sdToBlock d, cdTimestamp = sdTimestamp d,
     cdProtocols = map (\<lambda>(i, p). (i, raw_protocol_diff j p)) (sdProtocols d)\<rparr>"

fun payload_encodable :: "payload \<Rightarrow> bool" where
  "payload_encodable (StatePayload s) = state_encodable s"
| "payload_encodable (DiffPayload d) = statediff_encodable d"

text \<open>
  Decoding what was encoded gives the value back, at each of the types (a map is the list of its entries), when its
  numbers are finite and its strings valid UTF-8.
\<close>

definition codec_ok :: "('raw, 'x) codec_scheme \<Rightarrow> bool" where
  "codec_ok j \<longleftrightarrow>
     (\<forall>ev. payload_encodable (evPayload ev) \<longrightarrow>
        juEvent j (jmEvent j ev) = Inr \<lparr>ceType = evType ev, cePayload = jmPayload j (evPayload ev), ceSentAt = evSentAt ev\<rparr>) \<and>
     (\<forall>s. state_encodable s \<longrightarrow> juState j (jmPayload j (StatePayload s)) = Inr (raw_state j s)) \<and>
     (\<forall>d. statediff_encodable d \<longrightarrow> juStateDiff j (jmPayload j (DiffPayload d)) = Inr (raw_state_diff j d)) \<and>
     (\<forall>x. tokens_encodable x \<longrightarrow> juTokens j (jmData j (TokenData x)) = Inr x) \<and>
     (\<forall>x. data_encodable (PoolData x) \<longrightarrow> juPools j (jmData j (PoolData x)) = Inr x) \<and> (\<forall>x. juGraph j (jmData j (GraphData x)) = Inr x) \<and>
     (\<forall>x. juV2 j (jmData j (V2Data x)) = Inr x) \<and> (\<forall>x. juV3 j (jmData j (V3Data x)) = Inr x) \<and>
     (\<forall>x. diff_encodable (TokenDiff x) \<longrightarrow> juTokensDiff j (jmDiffData j (TokenDiff x)) = Inr x) \<and>
     (\<forall>x. diff_encodable (PoolDiff x) \<longrightarrow> juPoolsDiff j (jmDiffData j (PoolDiff x)) = Inr x) \<and> (\<forall>x. juGraphDiff j (jmDiffData j (GraphDiff x)) = Inr x) \<and>
     (\<forall>x. juV2Diff j (jmDiffData j (V2Diff x)) = Inr x) \<and> (\<forall>x. juV3Diff j (jmDiffData j (V3Diff x)) = Inr x)"

lemma codec_okD:
  assumes "codec_ok j"
  shows "payload_encodable (evPayload ev) \<Longrightarrow>
      juEvent j (jmEvent j ev) = Inr \<lparr>ceType = evType ev, cePayload = jmPayload j (evPayload ev), ceSentAt = evSentAt ev\<rparr>"
    and "state_encodable s \<Longrightarrow> juState j (jmPayload j (StatePayload s)) = Inr (raw_state j s)"
    and "statediff_encodable d \<Longrightarrow> juStateDiff j (jmPayload j (DiffPayload d)) = Inr (raw_state_diff j d)"
  using assms by (simp_all add: codec_ok_def)

lemma data_compat_self: "data_compat e s x x \<Longrightarrow> data_eq x x"
  by (cases x) (simp_all add: view_compat_def view_eq_refl reflp_token_same)

lemma decode_data:
  assumes "codec_ok j" and "data_compat e s x x" and "data_encodable x"
  shows "DecodeStateJSON j s (jmData j x) = Inr x"
  using assms by (cases x) (simp_all add: codec_ok_def DecodeStateJSON_def schemas_distinct)

lemma diff_decode:
  assumes j: "codec_ok j" and e: "env_ok e" and c: "data_compat e s old new" and f: "data_encodable new"
    and df: "protocolDiffers e s = Some df" "df old new = Inr d"
  shows "diff_encodable d" "DecodeStateDiffJSON j s (jmDiffData j d) = Inr d"
proof -
  show fin: "diff_encodable d"
  proof (cases d)
    case (TokenDiff td)
    then obtain p q where pq: "old = TokenData p" "new = TokenData q" "s = TokenProtocolSchema"
      using c df by (cases old; cases new) (auto simp: protocolDiffers_def schemas_distinct)
    then have td: "td = token_Differ (ordToken e) (ordToken e) p q" using df TokenDiff by (auto simp: protocolDiffers_def)
    have o: "range_order (ordToken e)" using e by (simp add: env_ok_def)
    have d: "distinct (map tvID p)" "distinct (map tvID q)" using c pq by (simp_all add: view_compat_def)
    show ?thesis using f TokenDiff pq
      by (auto simp: td tokens_encodable_def token_diff.differ_additions [OF o o d] token_diff.differ_updates [OF o o d])
  next
    case (PoolDiff pd)
    then obtain p q where pq: "old = PoolData p" "new = PoolData q" "s = PoolProtocolSchema"
      using c df by (cases old; cases new) (auto simp: protocolDiffers_def schemas_distinct)
    then have pd: "pd = pool_Differ (ordPool e) (ordPool e) (ordProto e) (ordProto e) p q"
      using df PoolDiff by (auto simp: protocolDiffers_def schemas_distinct)
    have o: "range_order (ordProto e)" using e by (simp add: env_ok_def)
    show ?thesis using f PoolDiff pq by (auto simp: pd pool_Differ_def diffPools_def diffProtocols_def Let_def range_order_set [OF o])
  qed simp_all
  show "DecodeStateDiffJSON j s (jmDiffData j d) = Inr d"
    using c df fin j by (cases old; cases new) (auto simp: protocolDiffers_def codec_ok_def DecodeStateDiffJSON_def schemas_distinct)
qed

section \<open>The processor on the messages of the server\<close>

lemma update_fresh: "k \<notin> fst ` set m \<Longrightarrow> AList.update k v m = m @ [(k, v)]"
  by (induction m) auto

lemma perm_of_map:
  "mset ys = mset (map f xs) \<Longrightarrow> \<exists>xs'. ys = map f xs' \<and> mset xs' = mset xs"
proof (induction ys arbitrary: xs)
  case (Cons y ys)
  then have "y \<in> f ` set xs" by (metis list.set_intros(1) list.set_map mset_eq_setD)
  then obtain x where x: "x \<in> set xs" "y = f x" by blast
  then have "mset ys = mset (map f (remove1 x xs))" using Cons.prems by (simp add: image_mset_Diff) (metis add_mset_remove_trivial)
  from Cons.IH [OF this] obtain xs' where "ys = map f xs'" "mset xs' = mset (remove1 x xs)" by blast
  then show ?case using x by (intro exI [of _ "x # xs'"]) simp
qed simp

lemma range_order_map:
  assumes "range_order ord"
  shows "\<exists>xs'. ord (map f xs) = map f xs' \<and> mset xs' = mset xs"
  using assms perm_of_map [of "ord (map f xs)" f xs] by (simp add: range_order_def)

lemma decode_states_ok:
  assumes "distinct (map fst (acc @ es))"
    and "\<And>i p. (i, p) \<in> set es \<Longrightarrow> stError p = '''' \<and> DecodeStateJSON j (stSchema p) (jmData j (stData p)) = Inr (stData p)"
  shows "decode_states j b (map (\<lambda>(i, p). (i, raw_protocol j p)) es) acc = Inr (acc @ es)"
  using assms
proof (induction es arbitrary: acc)
  case (Cons x es)
  obtain i p where x: "x = (i, p)" by (cases x)
  have p: "stError p = ''''" "DecodeStateJSON j (stSchema p) (jmData j (stData p)) = Inr (stData p)" using Cons.prems(2) [of i p] x by simp_all
  have ih: "decode_states j b (map (\<lambda>(i, p). (i, raw_protocol j p)) es) (acc @ [(i, p)]) = Inr ((acc @ [(i, p)]) @ es)"
    by (rule Cons.IH) (use Cons.prems x in auto)
  have eta: "\<lparr>stMeta = stMeta p, stSyncedBlockNumber = stSyncedBlockNumber p, stSchema = stSchema p, stData = stData p, stError = []\<rparr> = p"
    using p(1) by (cases p) simp
  have "AList.update i \<lparr>stMeta = stMeta p, stSyncedBlockNumber = stSyncedBlockNumber p, stSchema = stSchema p, stData = stData p, stError = []\<rparr> acc = acc @ [(i, p)]"
    unfolding eta by (rule update_fresh) (use Cons.prems x in auto)
  then show ?case using p ih by (simp add: x raw_protocol_def)
qed simp

lemma decode_states_error:
  assumes "\<exists>(i, p) \<in> set es. stError p \<noteq> ''''"
  shows "\<exists>err. decode_states j b (map (\<lambda>(i, p). (i, raw_protocol j p)) es) acc = Inl err"
  using assms
proof (induction es arbitrary: acc)
  case (Cons x es)
  then show ?case by (cases x) (auto simp: raw_protocol_def split: sum.splits)
qed simp

lemma decode_diffs_ok:
  assumes "distinct (map fst (acc @ es))"
    and "\<And>i p. (i, p) \<in> set es \<Longrightarrow> pdfError p = '''' \<and> DecodeStateDiffJSON j (pdfSchema p) (jmDiffData j (pdfData p)) = Inr (pdfData p)"
  shows "decode_diffs j b (map (\<lambda>(i, p). (i, raw_protocol_diff j p)) es) acc = Inr (acc @ es)"
  using assms
proof (induction es arbitrary: acc)
  case (Cons x es)
  obtain i p where x: "x = (i, p)" by (cases x)
  have p: "pdfError p = ''''" "DecodeStateDiffJSON j (pdfSchema p) (jmDiffData j (pdfData p)) = Inr (pdfData p)" using Cons.prems(2) [of i p] x by simp_all
  have ih: "decode_diffs j b (map (\<lambda>(i, p). (i, raw_protocol_diff j p)) es) (acc @ [(i, p)]) = Inr ((acc @ [(i, p)]) @ es)"
    by (rule Cons.IH) (use Cons.prems x in auto)
  have eta: "\<lparr>pdfMeta = pdfMeta p, pdfSyncedBlockNumber = pdfSyncedBlockNumber p, pdfSchema = pdfSchema p, pdfData = pdfData p, pdfError = []\<rparr> = p"
    using p(1) by (cases p) simp
  have "AList.update i \<lparr>pdfMeta = pdfMeta p, pdfSyncedBlockNumber = pdfSyncedBlockNumber p, pdfSchema = pdfSchema p, pdfData = pdfData p, pdfError = []\<rparr> acc = acc @ [(i, p)]"
    unfolding eta by (rule update_fresh) (use Cons.prems x in auto)
  then show ?case using p ih by (simp add: x raw_protocol_diff_def)
qed simp

lemma map_of_perm: "mset xs = mset ys \<Longrightarrow> distinct (map fst ys) \<Longrightarrow> distinct (map fst xs) \<and> map_of xs = map_of ys"
  by (metis map_of_inject_set mset_eq_imp_distinct_iff mset_eq_setD mset_map)

definition full_event :: "EngineState \<Rightarrow> int \<Rightarrow> SubscriptionEvent" where
  "full_event s t = \<lparr>evType = EventTypeFull, evPayload = StatePayload s, evSentAt = t\<rparr>"

definition diff_event :: "StateDiff \<Rightarrow> int \<Rightarrow> SubscriptionEvent" where
  "diff_event d t = \<lparr>evType = EventTypeDiff, evPayload = DiffPayload d, evSentAt = t\<rparr>"

lemma state_compatD:
  assumes "state_compat e old new" and "(i, n) \<in> set (esProtocols new)" and "map_of (esProtocols old) i = Some m"
  shows "stSchema m = stSchema n \<and> data_compat e (stSchema n) (stData m) (stData n)"
  using assms by (auto simp: state_compat_def)

lemma process_full:
  assumes j: "codec_ok j" and o: "range_order ord" and f: "state_encodable s" and c: "\<not> HasErrors s \<Longrightarrow> state_compat e0 s s"
  shows "\<exists>r sp'. ProcessMessage j ord e (jmEvent j (full_event s t)) sp = (r, sp') \<and>
     (if HasErrors s then (\<exists>err. r = Inl err) \<and> sp' = sp
      else r = Inr () \<and> (\<exists>c. state_eq c s \<and> lastState sp' = Some c \<and> stateCh sp' = stateCh sp @ [c]))"
proof -
  let ?f = "\<lambda>(i, p). (i, raw_protocol j p)"
  obtain es where es: "ord (map ?f (esProtocols s)) = map ?f es" "mset es = mset (esProtocols s)"
    using range_order_map [OF o] by blast
  have set: "set es = set (esProtocols s)" using es(2) by (rule mset_eq_setD)
  have pm: "ProcessMessage j ord e (jmEvent j (full_event s t)) sp =
      (case decode_states j (block_number (esBlock s)) (map ?f es) [] of Inl err \<Rightarrow> (Inl err, sp)
       | Inr protocols \<Rightarrow> let state = \<lparr>esChainID = esChainID s, esTimestamp = esTimestamp s, esBlock = esBlock s, esProtocols = protocols\<rparr> in
           (Inr (), send_state state (storeState state sp)))"
    using codec_okD [OF j] f es(1) by (simp add: ProcessMessage_def full_event_def EventTypeFull_def handleFullState_def raw_state_def cong: sum.case_cong)
  show ?thesis
  proof (cases "HasErrors s")
    case True
    then have "\<exists>(i, p) \<in> set es. stError p \<noteq> ''''" by (auto simp: set HasErrors_def list_ex_iff)
    from decode_states_error [OF this, of j "block_number (esBlock s)" "[]"] show ?thesis using True pm by auto
  next
    case False
    note c = c [OF False]
    have d: "distinct (map fst (esProtocols s))" using c by (simp add: state_compat_def)
    from map_of_perm [OF es(2) d] have es': "distinct (map fst es)" "map_of es = map_of (esProtocols s)" by simp_all
    have dc: "data_compat e0 (stSchema p) (stData p) (stData p)" if "(i, p) \<in> set (esProtocols s)" for i p
      using state_compatD [OF c that] map_of_is_SomeI [OF d that] by blast
    have "decode_states j (block_number (esBlock s)) (map ?f es) [] = Inr ([] @ es)"
    proof (rule decode_states_ok)
      fix i p assume ip: "(i, p) \<in> set es"
      then have "data_encodable (stData p)" using f by (auto simp: set state_encodable_def)
      with decode_data [OF j dc] ip show "stError p = '''' \<and> DecodeStateJSON j (stSchema p) (jmData j (stData p)) = Inr (stData p)"
        using False by (auto simp: set HasErrors_def list_ex_iff)
    qed (use es'(1) in simp)
    moreover have "state_eq \<lparr>esChainID = esChainID s, esTimestamp = esTimestamp s, esBlock = esBlock s, esProtocols = es\<rparr> s"
      using state_eq_refl [of s] data_compat_self [OF dc] es'(2) by (auto simp: state_eq_def dest: map_of_SomeD)
    ultimately show ?thesis using False pm by (auto simp: send_state_def storeState_def Let_def)
  qed
qed

lemma process_diff:
  assumes j: "codec_ok j" and o: "range_order ord" and env: "env_ok e0" "env_ok e" and f: "state_encodable s"
    and c: "state_compat e0 prev s" and last: "lastState sp = Some c" "state_eq c prev"
  shows "\<exists>d sp' c'. StateDiffer_Diff e0 now prev s = Inr d \<and> ProcessMessage j ord e (jmEvent j (diff_event d t)) sp = (Inr (), sp') \<and>
     state_eq c' s \<and> lastState sp' = Some c' \<and> stateCh sp' = stateCh sp @ [c']"
proof -
  let ?d = "\<lambda>ds. \<lparr>sdTimestamp = now, sdFromBlock = block_number (esBlock prev), sdToBlock = esBlock s, sdProtocols = ds\<rparr>"
  obtain ds where ds: "StateDiffer_Diff e0 now prev s = Inr (?d ds)" "distinct (map fst ds)"
      "\<forall>(i, x) \<in> set ds. \<exists>m n df. map_of (esProtocols prev) i = Some m \<and> (i, n) \<in> set (esProtocols s) \<and> protocolDiffers e0 (stSchema n) = Some df \<and>
        df (stData m) (stData n) = Inr (pdfData x) \<and> x = entry_diff n (pdfData x)"
      "\<And>ds'. distinct (map fst ds') \<Longrightarrow> map_of ds' = map_of ds \<Longrightarrow> \<exists>c'. StatePatcher_Patch e c (?d ds') = Inr c' \<and> state_eq c' s"
    using state_patch_diff_gen [OF env c last(2), of now] by blast
  have dec: "valid_utf8 i \<and> meta_encodable (pdfMeta x) \<and> valid_utf8 (pdfSchema x) \<and> diff_encodable (pdfData x) \<and> pdfError x = '''' \<and> DecodeStateDiffJSON j (pdfSchema x) (jmDiffData j (pdfData x)) = Inr (pdfData x)"
    if ix: "(i, x) \<in> set ds" for i x
  proof -
    obtain m n df where m: "map_of (esProtocols prev) i = Some m" "(i, n) \<in> set (esProtocols s)" "protocolDiffers e0 (stSchema n) = Some df"
        "df (stData m) (stData n) = Inr (pdfData x)" "x = entry_diff n (pdfData x)"
      using ds(3) ix by blast
    have "data_compat e0 (stSchema n) (stData m) (stData n)" using state_compatD [OF c m(2,1)] by simp
    moreover have "data_encodable (stData n)" "valid_utf8 i" "meta_encodable (stMeta n)" "valid_utf8 (stSchema n)"
      using f m(2) by (auto simp: state_encodable_def)
    ultimately show ?thesis using diff_decode [OF j env(1) _ _ m(3,4)] arg_cong [OF m(5), of pdfError] arg_cong [OF m(5), of pdfSchema]
        arg_cong [OF m(5), of pdfMeta]
      by (simp add: entry_diff_def)
  qed
  then have fin: "statediff_encodable (?d ds)" by (fastforce simp: statediff_encodable_def)
  let ?f = "\<lambda>(i, p). (i, raw_protocol_diff j p)"
  obtain es where es: "ord (map ?f ds) = map ?f es" "mset es = mset ds" using range_order_map [OF o] by blast
  have es': "distinct (map fst es)" "map_of es = map_of ds" "set es = set ds"
    using map_of_perm [OF es(2) ds(2)] es(2) by (auto dest: mset_eq_setD)
  have "decode_diffs j (block_number (esBlock s)) (map ?f es) [] = Inr ([] @ es)"
    by (rule decode_diffs_ok) (use es' dec in auto)
  moreover obtain c' where c': "StatePatcher_Patch e c (?d es) = Inr c'" "state_eq c' s" using ds(4) [OF es'(1,2)] by blast
  moreover have "block_number (esBlock c) = block_number (esBlock prev)" using last(2) by (simp add: state_eq_def)
  ultimately have "ProcessMessage j ord e (jmEvent j (diff_event (?d ds) t)) sp =
      (Inr (), send_state (c'\<lparr>esTimestamp := now\<rparr>) (storeState (c'\<lparr>esTimestamp := now\<rparr>) sp))"
    using codec_okD(1) [OF j, of "diff_event (?d ds) t"] codec_okD(3) [OF j fin] fin es(1) last(1)
    by (simp add: ProcessMessage_def diff_event_def EventTypeDiff_def handleDiff_def raw_state_diff_def Let_def)
  moreover have "state_eq (c'\<lparr>esTimestamp := now\<rparr>) s" using c'(2) by (simp add: state_eq_def)
  ultimately show ?thesis using ds(1) by (auto simp: send_state_def storeState_def)
qed

section \<open>The stream\<close>

text \<open>
  One state on its way from the engine to the subscriber: the server's iteration, and the processor on the event
  that was notified. A state comes with the two clock readings of the iteration.
\<close>

definition stream_step ::
  "('raw, 'x) codec_scheme \<Rightarrow> (EngineProtocolID, 'raw clientProtocolState) range_order \<Rightarrow> sync_env \<Rightarrow> sync_env \<Rightarrow> uint64 \<Rightarrow>
   StreamState \<times> StreamProcessor \<Rightarrow> uint64 \<times> int \<times> EngineState \<Rightarrow> StreamState \<times> StreamProcessor" where
  "stream_step j ord e0 e fullStateInterval = (\<lambda>(sv, sp) (now, sentAt, state).
     case SubscribeStateStream_step e0 fullStateInterval now sentAt state sv of
       (sv', None) \<Rightarrow> (sv', sp)
     | (sv', Some ev) \<Rightarrow> (sv', snd (ProcessMessage j ord e (jmEvent j ev) sp)))"

definition stream_run where
  "stream_run j ord e0 e fullStateInterval = foldl (stream_step j ord e0 e fullStateInterval) (initStream fullStateInterval, NewStreamProcessor)"

text \<open>The states of one engine: any two without an error are compatible, and all can be encoded without loss.\<close>

definition engine_states :: "sync_env \<Rightarrow> EngineState list \<Rightarrow> bool" where
  "engine_states e ss \<longleftrightarrow> (\<forall>s \<in> set ss. state_encodable s) \<and>
     (\<forall>i j. i \<le> j \<and> j < length ss \<and> \<not> HasErrors (ss ! i) \<and> \<not> HasErrors (ss ! j) \<longrightarrow> state_compat e (ss ! i) (ss ! j))"

lemma engine_states_snoc:
  assumes "engine_states e (ss @ [s])"
  shows "engine_states e ss" "state_encodable s" "\<not> HasErrors s \<Longrightarrow> state_compat e s s"
    "ss \<noteq> [] \<Longrightarrow> \<not> HasErrors (last ss) \<Longrightarrow> \<not> HasErrors s \<Longrightarrow> state_compat e (last ss) s"
proof -
  have c: "state_compat e ((ss @ [s]) ! i) ((ss @ [s]) ! j)"
    if "i \<le> j" "j < Suc (length ss)" "\<not> HasErrors ((ss @ [s]) ! i)" "\<not> HasErrors ((ss @ [s]) ! j)" for i j
    using assms that by (simp add: engine_states_def)
  show "engine_states e ss" using assms c by (force simp: engine_states_def nth_append)
  show "state_encodable s" using assms by (simp add: engine_states_def)
  show "state_compat e s s" if "\<not> HasErrors s" using c [of "length ss" "length ss"] that by simp
  show "state_compat e (last ss) s" if "ss \<noteq> []" "\<not> HasErrors (last ss)" "\<not> HasErrors s"
    using c [of "length ss - 1" "length ss"] that by (simp add: nth_append last_conv_nth)
qed

text \<open>What the server and the client know after the states \<^verbatim>\<open>ss\<close>.\<close>

definition stream_inv :: "EngineState list \<Rightarrow> StreamState \<times> StreamProcessor \<Rightarrow> bool" where
  "stream_inv ss = (\<lambda>(sv, sp). list_all2 state_eq (stateCh sp) (filter (\<lambda>s. \<not> HasErrors s) ss) \<and>
     (if ss = [] then prevState sv = None
      else prevState sv = Some (last ss) \<and> previousStateHadError sv = HasErrors (last ss) \<and>
        (\<not> HasErrors (last ss) \<longrightarrow> (\<exists>c. lastState sp = Some c \<and> state_eq c (last ss)))))"

lemma stream_step_inv:
  assumes j: "codec_ok j" and o: "range_order ord" and env: "env_ok e0" "env_ok e" and s: "engine_states e0 (ss @ [s])"
    and inv: "stream_inv ss x"
  shows "stream_inv (ss @ [s]) (stream_step j ord e0 e fi x (now, t, s))"
proof -
  obtain sv sp where x: "x = (sv, sp)" by (cases x)
  note es = engine_states_snoc [OF s]
  have l2: "list_all2 state_eq (stateCh sp) (filter (\<lambda>s. \<not> HasErrors s) ss)" using inv x by (simp add: stream_inv_def)
  obtain r sp' where full: "ProcessMessage j ord e (jmEvent j (full_event s t)) sp = (r, sp')"
      "if HasErrors s then (\<exists>err. r = Inl err) \<and> sp' = sp
       else r = Inr () \<and> (\<exists>c. state_eq c s \<and> lastState sp' = Some c \<and> stateCh sp' = stateCh sp @ [c])"
    using process_full [OF j o es(2) es(3)] by blast
  show ?thesis
  proof (cases "SubscribeStateStream_step e0 fi now t s sv = (\<lparr>prevState = Some s, blocksSinceFullState = 1, previousStateHadError = HasErrors s\<rparr>, Some (full_event s t))")
    case True
    then show ?thesis using full l2 by (cases "HasErrors s") (auto simp: stream_step_def stream_inv_def x list_all2_appendI)
  next
    case False
    then obtain prev where prev: "prevState sv = Some prev" "\<not> HasErrors s" "\<not> previousStateHadError sv"
      by (cases "prevState sv") (auto simp: SubscribeStateStream_step_def full_event_def Let_def split: if_splits)
    then have ss: "ss \<noteq> []" "prev = last ss" "\<not> HasErrors (last ss)" using inv x by (auto simp: stream_inv_def split: if_splits)
    then obtain c where c: "lastState sp = Some c" "state_eq c prev" using inv x by (auto simp: stream_inv_def)
    obtain d sp' c' where d: "StateDiffer_Diff e0 now prev s = Inr d" "ProcessMessage j ord e (jmEvent j (diff_event d t)) sp = (Inr (), sp')"
        "state_eq c' s" "lastState sp' = Some c'" "stateCh sp' = stateCh sp @ [c']"
      using process_diff [OF j o env es(2) _ c, of now t] es(4) ss prev(2) by blast
    then have "SubscribeStateStream_step e0 fi now t s sv =
        (\<lparr>prevState = Some s, blocksSinceFullState = blocksSinceFullState sv + 1, previousStateHadError = HasErrors s\<rparr>, Some (diff_event d t))"
      using False prev by (auto simp: SubscribeStateStream_step_def full_event_def diff_event_def Let_def split: if_splits)
    then show ?thesis using d l2 prev(2) by (auto simp: stream_step_def stream_inv_def x list_all2_appendI)
  qed
qed

text \<open>
  C1: A subscriber of the state stream, when every string of the engine's states is valid UTF-8 and every number finite
  (JSON carries no others), any two states without an error are compatible, and the codec returns such values as they
  were sent. Whatever the interval of full states, the clocks and the iteration orders of the
  maps on both sides, after any sequence of engine states the client has emitted exactly one state for every state
  without an error, in order, each equal to the engine's; states with an error are never emitted. Whenever the last
  state has no error, the client's last state equals it.
\<close>

theorem stream_in_sync:
  assumes "codec_ok j" and "range_order ord" and "env_ok e0" "env_ok e" and "engine_states e0 (map (snd \<circ> snd) inputs)"
  shows "case stream_run j ord e0 e fullStateInterval inputs of (sv, sp) \<Rightarrow>
     list_all2 state_eq (stateCh sp) (filter (\<lambda>s. \<not> HasErrors s) (map (snd \<circ> snd) inputs)) \<and>
     (inputs \<noteq> [] \<and> \<not> HasErrors (snd (snd (last inputs))) \<longrightarrow> (\<exists>c. lastState sp = Some c \<and> state_eq c (snd (snd (last inputs)))))"
proof -
  have "stream_inv (map (snd \<circ> snd) inputs) (stream_run j ord e0 e fullStateInterval inputs)"
    using assms(5)
  proof (induction inputs rule: rev_induct)
    case Nil
    then show ?case by (simp add: stream_run_def stream_inv_def initStream_def NewStreamProcessor_def)
  next
    case (snoc x inputs)
    obtain now t s where x: "x = (now, t, s)" by (cases x)
    then show ?case using stream_step_inv [OF assms(1-4)] snoc engine_states_snoc(1) by (simp add: stream_run_def)
  qed
  then show ?thesis by (auto simp: stream_inv_def last_map split: prod.splits if_splits)
qed

text \<open>A concrete codec, whose raw messages are the values themselves.\<close>

datatype wit_raw = RawEvent SubscriptionEvent | RawPayload payload | RawData protocol_data | RawDiff protocol_diff

definition wit_codec0 :: "wit_raw codec" where
  "wit_codec0 = \<lparr>jmEvent = RawEvent, jmPayload = RawPayload, jmData = RawData, jmDiffData = RawDiff,
     juEvent = (\<lambda>r. case r of RawEvent ev \<Rightarrow> Inr \<lparr>ceType = evType ev, cePayload = RawPayload (evPayload ev), ceSentAt = evSentAt ev\<rparr> | _ \<Rightarrow> Inl ''event''),
     juState = (\<lambda>r. Inl ''state''), juStateDiff = (\<lambda>r. Inl ''diff''),
     juTokens = (\<lambda>r. case r of RawData (TokenData x) \<Rightarrow> Inr x | _ \<Rightarrow> Inl ''tokens''),
     juPools = (\<lambda>r. case r of RawData (PoolData x) \<Rightarrow> Inr x | _ \<Rightarrow> Inl ''pools''),
     juGraph = (\<lambda>r. case r of RawData (GraphData x) \<Rightarrow> Inr x | _ \<Rightarrow> Inl ''graph''),
     juV2 = (\<lambda>r. case r of RawData (V2Data x) \<Rightarrow> Inr x | _ \<Rightarrow> Inl ''v2''),
     juV3 = (\<lambda>r. case r of RawData (V3Data x) \<Rightarrow> Inr x | _ \<Rightarrow> Inl ''v3''),
     juTokensDiff = (\<lambda>r. case r of RawDiff (TokenDiff x) \<Rightarrow> Inr x | _ \<Rightarrow> Inl ''tokens''),
     juPoolsDiff = (\<lambda>r. case r of RawDiff (PoolDiff x) \<Rightarrow> Inr x | _ \<Rightarrow> Inl ''pools''),
     juGraphDiff = (\<lambda>r. case r of RawDiff (GraphDiff x) \<Rightarrow> Inr x | _ \<Rightarrow> Inl ''graph''),
     juV2Diff = (\<lambda>r. case r of RawDiff (V2Diff x) \<Rightarrow> Inr x | _ \<Rightarrow> Inl ''v2''),
     juV3Diff = (\<lambda>r. case r of RawDiff (V3Diff x) \<Rightarrow> Inr x | _ \<Rightarrow> Inl ''v3'')\<rparr>"

definition wit_codec :: "wit_raw codec" where
  "wit_codec = wit_codec0\<lparr>
     juState := (\<lambda>r. case r of RawPayload (StatePayload s) \<Rightarrow> Inr (raw_state wit_codec0 s) | _ \<Rightarrow> Inl ''state''),
     juStateDiff := (\<lambda>r. case r of RawPayload (DiffPayload d) \<Rightarrow> Inr (raw_state_diff wit_codec0 d) | _ \<Rightarrow> Inl ''diff'')\<rparr>"

lemma codec_ok_wit: "codec_ok wit_codec"
  by (simp add: codec_ok_def wit_codec_def wit_codec0_def raw_state_def raw_state_diff_def raw_protocol_def raw_protocol_diff_def)

definition wit_bad :: EngineState where
  "wit_bad = \<lparr>esChainID = 1, esTimestamp = 0, esBlock = wit_block 102, esProtocols =
     [(''u'', \<lparr>stMeta = \<lparr>pmName = ''univ2'', pmTags = []\<rparr>, stSyncedBlockNumber = Some 101, stSchema = UniswapV2ProtocolSchema, stData = NoData, stError = ''late''\<rparr>)]\<rparr>"

definition wit_states :: "EngineState list" where
  "wit_states = [wit_state 100 [wit_pool 4 10], wit_state 101 [wit_pool 5 3, wit_pool 4 20], wit_bad, wit_state 103 [wit_pool 5 8]]"

lemma HasErrors_wit: "\<not> HasErrors (wit_state n ps)" "HasErrors wit_bad"
  by (simp_all add: HasErrors_def wit_state_def wit_bad_def)

lemma state_compat_wit:
  assumes "view_compat v2ID (=) v2_changed p q"
  shows "state_compat e (wit_state n p) (wit_state m q)"
  using assms HasErrors_wit by (auto simp: state_compat_def wit_state_def)

lemma engine_states_wit: "engine_states wit_env wit_states"
proof -
  have v: "view_compat v2ID (=) v2_changed p q"
    if "p \<in> {[wit_pool 4 10], [wit_pool 5 3, wit_pool 4 20], [wit_pool 5 8]}" "q \<in> {[wit_pool 4 10], [wit_pool 5 3, wit_pool 4 20], [wit_pool 5 8]}" for p q
    using that by (intro view_compat_v2I) (auto simp: wit_pool_def v2_changed_def)
  have "state_compat wit_env (wit_states ! i) (wit_states ! j)"
    if "i < 4" "j < 4" "\<not> HasErrors (wit_states ! i)" "\<not> HasErrors (wit_states ! j)" for i j
    using that less_Suc_eq [of i 3] less_Suc_eq [of j 3]
    by (auto simp: wit_states_def HasErrors_wit numeral_eq_Suc less_Suc_eq intro!: state_compat_wit v)
  then show ?thesis unfolding engine_states_def
    by (auto simp: wit_states_def state_encodable_def wit_state_def wit_bad_def meta_encodable_def between_def schema_defs)
qed

theorem stream_in_sync_witness:
  "case stream_run wit_codec rev wit_env wit_env 5 (map (\<lambda>s. (7, 8, s)) wit_states) of (sv, sp) \<Rightarrow>
     list_all2 state_eq (stateCh sp) [wit_state 100 [wit_pool 4 10], wit_state 101 [wit_pool 5 3, wit_pool 4 20], wit_state 103 [wit_pool 5 8]] \<and>
     (\<exists>c. lastState sp = Some c \<and> state_eq c (wit_state 103 [wit_pool 5 8]))"
  using stream_in_sync [OF codec_ok_wit range_order_rev env_ok_wit env_ok_wit, of "map (\<lambda>s. (7, 8, s)) wit_states" 5]
    engine_states_wit HasErrors_wit by (simp add: comp_def wit_states_def)

section \<open>Safety of the processor\<close>

definition no_errors :: "(EngineProtocolID, ProtocolState) gomap \<Rightarrow> bool" where
  "no_errors ps \<longleftrightarrow> (\<forall>(i, p) \<in> set ps. stError p = '''')"

lemma HasErrors_iff: "HasErrors s \<longleftrightarrow> \<not> no_errors (esProtocols s)"
  by (auto simp: HasErrors_def no_errors_def list_ex_iff)

lemma set_update_subset: "set (AList.update k v m) \<subseteq> insert (k, v) (set m)"
  by (induction m) auto

lemma no_errors_update: "no_errors m \<Longrightarrow> stError p = '''' \<Longrightarrow> no_errors (AList.update i p m)"
  using set_update_subset [of i p m] by (fastforce simp: no_errors_def)

lemma decode_states_no_errors: "decode_states j b es acc = Inr ps \<Longrightarrow> no_errors acc \<Longrightarrow> no_errors ps"
  by (induction j b es acc rule: decode_states.induct) (auto simp: no_errors_update split: if_splits sum.splits)

definition no_diff_errors :: "(EngineProtocolID, ProtocolDiff) gomap \<Rightarrow> bool" where
  "no_diff_errors ds \<longleftrightarrow> (\<forall>(i, d) \<in> set ds. pdfError d = [])"

lemma no_diff_errors_update: "no_diff_errors m \<Longrightarrow> pdfError p = [] \<Longrightarrow> no_diff_errors (AList.update i p m)"
  using set_update_subset [of i p m] by (fastforce simp: no_diff_errors_def)

lemma decode_diffs_no_errors: "decode_diffs j b es acc = Inr ds \<Longrightarrow> no_diff_errors acc \<Longrightarrow> no_diff_errors ds"
  by (induction j b es acc rule: decode_diffs.induct) (auto simp: no_diff_errors_update split: if_splits sum.splits)

lemma patch_loop_no_errors:
  "patch_loop e old es acc = Inr ps \<Longrightarrow> no_diff_errors es \<Longrightarrow> no_errors acc \<Longrightarrow> no_errors ps"
  by (induction e old es acc rule: patch_loop.induct) (auto simp: result_simps no_errors_update no_diff_errors_def split: option.splits)

lemma patch_no_errors:
  assumes "StatePatcher_Patch e s d = Inr s'" and "range_order (ordDiffs e)" and "no_diff_errors (sdProtocols d)" and "\<not> HasErrors s"
  shows "\<not> HasErrors s'"
  using assms patch_loop_no_errors [of e "esProtocols s" "ordDiffs e (sdProtocols d)" "esProtocols s"]
  by (auto simp: StatePatcher_Patch_def HasErrors_iff no_diff_errors_def result_simps range_order_set split: if_splits)

definition processor_inv :: "StreamProcessor \<Rightarrow> bool" where
  "processor_inv sp \<longleftrightarrow> (\<forall>s \<in> set (stateCh sp). \<not> HasErrors s) \<and>
     (case lastState sp of None \<Rightarrow> stateCh sp = [] | Some s \<Rightarrow> stateCh sp \<noteq> [] \<and> last (stateCh sp) = s)"

lemma processor_inv_send: "processor_inv sp \<Longrightarrow> \<not> HasErrors s \<Longrightarrow> processor_inv (send_state s (storeState s sp))"
  by (auto simp: processor_inv_def send_state_def storeState_def)

text \<open>What one message does: nothing, or one new state without an error, stored and sent.\<close>

definition processor_effect :: "client_error + unit \<Rightarrow> StreamProcessor \<Rightarrow> StreamProcessor \<Rightarrow> bool" where
  "processor_effect r sp sp' \<longleftrightarrow> sp' = sp \<or> r = Inr () \<and> (\<exists>s. \<not> HasErrors s \<and> sp' = send_state s (storeState s sp))"

lemma handleFullState_effect: "handleFullState j ord ev sp = (r, sp') \<Longrightarrow> processor_effect r sp sp'"
  unfolding handleFullState_def processor_effect_def
  by (auto simp: Let_def HasErrors_iff no_errors_def [of "[]"] split: sum.splits dest!: decode_states_no_errors
      intro!: exI [of _ "\<lparr>esChainID = _, esTimestamp = _, esBlock = _, esProtocols = _\<rparr>"])

lemma handleDiff_effect:
  assumes h: "handleDiff j ord e ev sp = (r, sp')" and inv: "processor_inv sp" and o: "range_order (ordDiffs e)"
  shows "processor_effect r sp sp'"
proof -
  have key: "\<not> HasErrors (s\<lparr>esTimestamp := t\<rparr>)"
    if s: "lastState sp = Some lst" "decode_diffs j b es [] = Inr ps"
      "StatePatcher_Patch e lst \<lparr>sdTimestamp = t', sdFromBlock = f, sdToBlock = bl, sdProtocols = ps\<rparr> = Inr s" for lst b es ps t t' f bl s
  proof -
    have "\<not> HasErrors lst" using inv s(1) last_in_set [of "stateCh sp"] by (auto simp: processor_inv_def)
    then have "\<not> HasErrors s" using patch_no_errors [OF s(3) o] decode_diffs_no_errors [OF s(2)] by (simp add: no_diff_errors_def)
    then show ?thesis by (simp add: HasErrors_def)
  qed
  from h show ?thesis unfolding handleDiff_def processor_effect_def
    by (auto simp: Let_def split: sum.splits option.splits if_splits intro!: exI [of _ "_\<lparr>esTimestamp := _\<rparr>"] dest: key)
qed

lemma processor_effect_refl [simp]: "processor_effect r sp sp"
  by (simp add: processor_effect_def)

lemma ProcessMessage_effect:
  assumes "processor_inv sp" and "range_order (ordDiffs e)" and "ProcessMessage j ord e raw sp = (r, sp')"
  shows "processor_effect r sp sp' \<and> processor_inv sp'"
proof -
  have "processor_effect r sp sp'"
    using assms(3) unfolding ProcessMessage_def
    by (auto split: sum.splits if_splits intro: handleFullState_effect handleDiff_effect [OF _ assms(1,2)])
  then show ?thesis using assms(1) processor_inv_send by (auto simp: processor_effect_def)
qed

text \<open>
  C19: Whatever bytes arrive, in whatever order, and whatever the decoder makes of them, the client's processor never stores
  or emits a state in which a protocol carries an error, its last state is the last one it emitted, and a message that
  fails changes nothing.
\<close>

theorem processor_safe:
  assumes "range_order (ordDiffs e)"
  shows "processor_inv (foldl (\<lambda>sp raw. snd (ProcessMessage j ord e raw sp)) NewStreamProcessor msgs) \<and>
    (\<forall>raw err sp'. ProcessMessage j ord e raw (foldl (\<lambda>sp raw. snd (ProcessMessage j ord e raw sp)) NewStreamProcessor msgs) = (Inl err, sp') \<longrightarrow>
       sp' = foldl (\<lambda>sp raw. snd (ProcessMessage j ord e raw sp)) NewStreamProcessor msgs)"
proof -
  have inv: "processor_inv (foldl (\<lambda>sp raw. snd (ProcessMessage j ord e raw sp)) NewStreamProcessor msgs)"
  proof (induction msgs rule: rev_induct)
    case Nil
    then show ?case by (simp add: processor_inv_def NewStreamProcessor_def)
  next
    case (snoc raw msgs)
    show ?case using ProcessMessage_effect [OF snoc.IH assms prod.collapse [symmetric], THEN conjunct2] by simp
  qed
  moreover have "sp' = sp" if "processor_inv sp" "ProcessMessage j ord e raw sp = (Inl err, sp')" for raw err sp sp'
    using ProcessMessage_effect [OF that(1) assms that(2)] by (simp add: processor_effect_def)
  ultimately show ?thesis by blast
qed

theorem processor_safe_witness:
  "processor_inv (foldl (\<lambda>sp raw. snd (ProcessMessage wit_codec rev wit_env raw sp)) NewStreamProcessor
     [RawData NoData, RawEvent (full_event wit_bad 1), RawEvent (full_event (wit_state 100 []) 1)])"
  using env_ok_wit by (intro processor_safe [THEN conjunct1]) (simp add: env_ok_def)

section \<open>The interval of full states\<close>

definition server_run :: "sync_env \<Rightarrow> uint64 \<Rightarrow> (uint64 \<times> int \<times> EngineState) list \<Rightarrow> StreamState \<times> SubscriptionEvent list" where
  "server_run e fi = foldl (\<lambda>(sv, evs) (now, t, s).
     case SubscribeStateStream_step e fi now t s sv of (sv', None) \<Rightarrow> (sv', evs) | (sv', Some ev) \<Rightarrow> (sv', evs @ [ev])) (initStream fi, [])"

definition is_diff :: "SubscriptionEvent \<Rightarrow> bool" where
  "is_diff ev \<longleftrightarrow> evType ev = EventTypeDiff"

definition diff_runs_below :: "nat \<Rightarrow> SubscriptionEvent list \<Rightarrow> bool" where
  "diff_runs_below n evs \<longleftrightarrow> (\<forall>xs ys zs. evs = xs @ ys @ zs \<and> list_all is_diff ys \<longrightarrow> length ys < n)"

definition interval_inv :: "uint64 \<Rightarrow> StreamState \<Rightarrow> SubscriptionEvent list \<Rightarrow> bool" where
  "interval_inv fi sv evs \<longleftrightarrow> diff_runs_below (unat fi) evs \<and>
     (if evs = [] then prevState sv = None
      else unat (blocksSinceFullState sv) = Suc (length (takeWhile is_diff (rev evs))) \<and> blocksSinceFullState sv \<le> fi)"

lemma diff_runs_snoc:
  assumes "diff_runs_below n evs" and "0 < n" and "is_diff ev \<Longrightarrow> Suc (length (takeWhile is_diff (rev evs))) < n"
  shows "diff_runs_below n (evs @ [ev])"
  unfolding diff_runs_below_def
proof (intro allI impI, elim conjE)
  fix xs ys zs assume e: "evs @ [ev] = xs @ ys @ zs" and d: "list_all is_diff ys"
  show "length ys < n"
  proof (cases zs rule: rev_cases)
    case Nil
    show ?thesis
    proof (cases ys rule: rev_cases)
      case (snoc ys' y)
      then have ys: "evs = xs @ ys'" "is_diff ev" "list_all is_diff ys'" using e d Nil by auto
      have "takeWhile is_diff (rev evs) = rev ys' @ takeWhile is_diff (rev xs)"
        using ys by (simp add: list_all_iff takeWhile_append)
      then show ?thesis using assms(3) ys(2) snoc by simp
    qed (use assms(2) in simp)
  next
    case (snoc zs' z)
    then show ?thesis using assms(1) e d by (auto simp: diff_runs_below_def)
  qed
qed

lemma is_diff_events [simp]:
  "is_diff \<lparr>evType = EventTypeDiff, evPayload = p, evSentAt = t\<rparr>" "\<not> is_diff \<lparr>evType = EventTypeFull, evPayload = p, evSentAt = t\<rparr>"
  by (simp_all add: is_diff_def EventTypeDiff_def EventTypeFull_def)

lemma server_step_interval:
  assumes fi: "2 \<le> fi" and inv: "interval_inv fi sv evs" and st: "SubscribeStateStream_step e fi now t s sv = (sv', ev)"
  shows "interval_inv fi sv' (evs @ (case ev of None \<Rightarrow> [] | Some x \<Rightarrow> [x]))"
proof -
  have pos: "0 < unat fi" "(1::uint64) \<le> fi" using fi by (auto simp: unat_gt_0 word_le_nat_alt)
  consider (skip) "ev = None" "sv' = sv"
    | (full) "ev = Some \<lparr>evType = EventTypeFull, evPayload = StatePayload s, evSentAt = t\<rparr>" "prevState sv' = Some s" "blocksSinceFullState sv' = 1"
    | (diff) d where "ev = Some \<lparr>evType = EventTypeDiff, evPayload = DiffPayload d, evSentAt = t\<rparr>" "prevState sv' = Some s"
        "blocksSinceFullState sv' = blocksSinceFullState sv + 1" "blocksSinceFullState sv < fi" "prevState sv \<noteq> None"
    using st by (auto simp: SubscribeStateStream_step_def Let_def split: option.splits if_splits sum.splits)
  then show ?thesis
  proof cases
    case skip
    then show ?thesis using inv by simp
  next
    case full
    then show ?thesis using inv pos by (auto simp: interval_inv_def intro!: diff_runs_snoc)
  next
    case diff
    have ne: "evs \<noteq> []" using diff(5) inv by (auto simp: interval_inv_def)
    then have b: "unat (blocksSinceFullState sv) = Suc (length (takeWhile is_diff (rev evs)))" using inv by (simp add: interval_inv_def)
    have lt: "unat (blocksSinceFullState sv) < unat fi" using diff(4) by (simp add: word_less_nat_alt)
    have "blocksSinceFullState sv \<noteq> - 1" using diff(4) by (metis word_not_simps(3))
    then have "unat (blocksSinceFullState sv + 1) = Suc (unat (blocksSinceFullState sv))"
      using unatSuc [of "blocksSinceFullState sv"] by (metis add.commute add_eq_0_iff)
    then show ?thesis using inv pos b lt diff by (auto simp: interval_inv_def word_le_nat_alt intro!: diff_runs_snoc)
  qed
qed

text \<open>
  C20: With a configuration that validates, among any \<^verbatim>\<open>FullStateInterval\<close> consecutive events of a subscription at least one is
  a full state, so a client that lost its state recovers.
\<close>

theorem stream_full_interval:
  assumes "streamer_validate cfg = Inr ()"
  shows "diff_runs_below (unat (scFullStateInterval cfg)) (snd (server_run e (scFullStateInterval cfg) inputs))"
proof -
  let ?fi = "scFullStateInterval cfg"
  have fi: "2 \<le> ?fi" using assms by (auto simp: streamer_validate_def not_less split: if_splits)
  then have "0 < unat ?fi" by (auto simp: unat_gt_0)
  then have "case server_run e ?fi inputs of (sv, evs) \<Rightarrow> interval_inv ?fi sv evs"
  proof (induction inputs rule: rev_induct)
    case Nil
    then show ?case by (simp add: server_run_def interval_inv_def initStream_def diff_runs_below_def)
  next
    case (snoc x inputs)
    obtain now t s where x: "x = (now, t, s)" by (cases x)
    obtain sv evs where r: "server_run e ?fi inputs = (sv, evs)" by (cases "server_run e ?fi inputs")
    obtain sv' ev where st: "SubscribeStateStream_step e ?fi now t s sv = (sv', ev)" by (cases "SubscribeStateStream_step e ?fi now t s sv")
    have "server_run e ?fi (inputs @ [x]) = (sv', evs @ (case ev of None \<Rightarrow> [] | Some y \<Rightarrow> [y]))"
      using r st by (simp add: server_run_def x split: option.splits)
    then show ?case using server_step_interval [OF fi _ st] snoc r by simp
  qed
  then show ?thesis by (auto simp: interval_inv_def split: prod.splits)
qed

theorem stream_full_interval_witness:
  "diff_runs_below 3 (snd (server_run wit_env 3 [(1, 2, wit_state 7 []), (1, 2, wit_state 8 []), (1, 2, wit_state 9 [])]))"
  using stream_full_interval [of "\<lparr>scEngine = True, scDiffer = True, scLogger = True, scFullStateInterval = 3\<rparr>"]
  by (simp add: streamer_validate_def)

end
