(* ===== verification/Engine_Pipeline.thy ===== *)
theory Engine_Pipeline
  imports Engine "HOL-Library.Sublist"
begin

text \<open>
  The pipeline of the engine (\<^verbatim>\<open>src/engine/engine.go\<close>): subscriptions, the event loop that hands views to the broadcaster, the
  broadcaster, the goroutine that \<^verbatim>\<open>Subscribe\<close> starts for the initial view, and the consumers, as the steps of one relation: a section
  under \<^verbatim>\<open>subscribersMu\<close> is one step, a send or receive on a channel outside it is one step. Channels are numbers in the order of
  their creation. \<^verbatim>\<open>plViews\<close> and \<^verbatim>\<open>plSent\<close> record what was handed over and what was sent.
\<close>

section \<open>State and operations\<close>

datatype engine_panic = SendOnClosed_broadcast | SendOnClosed_initial | CloseOfClosed

record Pipeline =
  plSubscribers :: "nat list"
  plBuffer :: "nat \<Rightarrow> EngineState list"
  plClosed :: "nat list"
  plNext :: nat
  plLastView :: "EngineState option"
  plPending :: "(nat \<times> EngineState) list"
  plBroadcast :: "EngineState option"
  plStoring :: "EngineState option"
  plLastProcessedBlock :: uint64
  plDone :: bool
  plPanic :: "engine_panic option"
  plViews :: "EngineState list"
  plSent :: "nat \<Rightarrow> (bool \<times> EngineState) list"

definition initPipeline :: Pipeline where
  "initPipeline = \<lparr>plSubscribers = [], plBuffer = (\<lambda>_. []), plClosed = [], plNext = 0, plLastView = None, plPending = [], plBroadcast = None,
     plStoring = None, plLastProcessedBlock = 0, plDone = False, plPanic = None, plViews = [], plSent = (\<lambda>_. [])\<rparr>"

text \<open>A send in a select with a default: dropped when the buffer is full; on a closed channel it panics.\<close>

definition select_send :: "engine_panic \<Rightarrow> bool \<Rightarrow> EngineState \<Rightarrow> Pipeline \<Rightarrow> nat \<Rightarrow> Pipeline" where
  "select_send pan initial v s ch =
     (if plPanic s \<noteq> None then s
      else if ch \<in> set (plClosed s) then s\<lparr>plPanic := Some pan\<rparr>
      else if length (plBuffer s ch) < DefaultSubscriptionChanBuffer
      then s\<lparr>plBuffer := (plBuffer s)(ch := plBuffer s ch @ [v]), plSent := (plSent s)(ch := plSent s ch @ [(initial, v)])\<rparr>
      else s)"

definition Subscribe :: "Pipeline \<Rightarrow> Pipeline" where
  "Subscribe s = s\<lparr>plSubscribers := plSubscribers s @ [plNext s], plNext := plNext s + 1,
     plPending := (case plLastView s of None \<Rightarrow> plPending s | Some v \<Rightarrow> plPending s @ [(plNext s, v)])\<rparr>"

text \<open>The goroutine that sends the initial view; when the engine has shut down it may choose not to send.\<close>

definition initial_send :: "nat \<times> EngineState \<Rightarrow> Pipeline \<Rightarrow> Pipeline" where
  "initial_send p s = select_send SendOnClosed_initial True (snd p) (s\<lparr>plPending := remove1 p (plPending s)\<rparr>) (fst p)"

definition initial_abort :: "nat \<times> EngineState \<Rightarrow> Pipeline \<Rightarrow> Pipeline" where
  "initial_abort p s = s\<lparr>plPending := remove1 p (plPending s)\<rparr>"

text \<open>The closure \<^verbatim>\<open>unsubscribe\<close>: the first position of the channel, filled with the last element; then the channel is closed.\<close>

fun find_channel :: "nat \<Rightarrow> nat list \<Rightarrow> nat \<Rightarrow> nat option" where
  "find_channel ch [] i = None"
| "find_channel ch (c # cs) i = (if c = ch then Some i else find_channel ch cs (i + 1))"

definition unsubscribe :: "nat \<Rightarrow> Pipeline \<Rightarrow> Pipeline" where
  "unsubscribe ch s =
     (case find_channel ch (plSubscribers s) 0 of
        None \<Rightarrow> s
      | Some targetIndex \<Rightarrow>
          (let subs = plSubscribers s in
           if ch \<in> set (plClosed s) then s\<lparr>plPanic := Some CloseOfClosed\<rparr>
           else s\<lparr>plSubscribers := swap_pop targetIndex (length subs - 1) subs, plClosed := ch # plClosed s\<rparr>))"

text \<open>The event loop: the hand-over of a view on the unbuffered channel, and the stores after it.\<close>

definition emit_view :: "EngineState \<Rightarrow> Pipeline \<Rightarrow> Pipeline" where
  "emit_view v s = s\<lparr>plBroadcast := Some v, plStoring := Some v, plViews := plViews s @ [v]\<rparr>"

definition store_view :: "EngineState \<Rightarrow> Pipeline \<Rightarrow> Pipeline" where
  "store_view v s = s\<lparr>plLastView := Some v, plLastProcessedBlock := block_number (esBlock v), plStoring := None\<rparr>"

definition broadcast_view :: "EngineState \<Rightarrow> Pipeline \<Rightarrow> Pipeline" where
  "broadcast_view v s = foldl (select_send SendOnClosed_broadcast False v) (s\<lparr>plBroadcast := None\<rparr>) (plSubscribers s)"

definition consume :: "nat \<Rightarrow> Pipeline \<Rightarrow> Pipeline" where
  "consume ch s = s\<lparr>plBuffer := (plBuffer s)(ch := tl (plBuffer s ch))\<rparr>"

inductive pl_step :: "Pipeline \<Rightarrow> Pipeline \<Rightarrow> bool" where
  pl_subscribe: "plPanic s = None \<Longrightarrow> pl_step s (Subscribe s)"
| pl_initial: "plPanic s = None \<Longrightarrow> p \<in> set (plPending s) \<Longrightarrow> pl_step s (initial_send p s)"
| pl_abort: "plPanic s = None \<Longrightarrow> p \<in> set (plPending s) \<Longrightarrow> plDone s \<Longrightarrow> pl_step s (initial_abort p s)"
| pl_unsubscribe: "plPanic s = None \<Longrightarrow> pl_step s (unsubscribe ch s)"
| pl_emit: "plPanic s = None \<Longrightarrow> \<not> plDone s \<Longrightarrow> plBroadcast s = None \<Longrightarrow> plStoring s = None \<Longrightarrow> pl_step s (emit_view v s)"
| pl_store: "plPanic s = None \<Longrightarrow> plStoring s = Some v \<Longrightarrow> pl_step s (store_view v s)"
| pl_broadcast: "plPanic s = None \<Longrightarrow> plBroadcast s = Some v \<Longrightarrow> \<not> plDone s \<Longrightarrow> pl_step s (broadcast_view v s)"
| pl_consume: "plPanic s = None \<Longrightarrow> plBuffer s ch \<noteq> [] \<Longrightarrow> pl_step s (consume ch s)"
| pl_shutdown: "plPanic s = None \<Longrightarrow> plBroadcast s = None \<Longrightarrow> pl_step s (s\<lparr>plDone := True\<rparr>)"

section \<open>Invariant\<close>

definition broadcast_part :: "(bool \<times> EngineState) list \<Rightarrow> EngineState list" where
  "broadcast_part sent = map snd (filter (\<lambda>x. \<not> fst x) sent)"

definition initial_part :: "(bool \<times> EngineState) list \<Rightarrow> EngineState list" where
  "initial_part sent = map snd (filter fst sent)"

lemma parts_simps [simp]:
  "broadcast_part [] = []" "initial_part [] = []"
  "broadcast_part (xs @ [(True, v)]) = broadcast_part xs" "initial_part (xs @ [(False, v)]) = initial_part xs"
  "broadcast_part (xs @ [(False, v)]) = broadcast_part xs @ [v]" "initial_part (xs @ [(True, v)]) = initial_part xs @ [v]"
  by (simp_all add: broadcast_part_def initial_part_def)

definition subs_inv :: "Pipeline \<Rightarrow> bool" where
  "subs_inv s \<longleftrightarrow> distinct (plSubscribers s) \<and> set (plSubscribers s) \<inter> set (plClosed s) = {} \<and>
     (\<forall>ch \<in> set (plSubscribers s). ch < plNext s) \<and> (\<forall>ch \<in> set (plClosed s). ch < plNext s) \<and> (\<forall>p \<in> set (plPending s). fst p < plNext s)"

definition chan_inv :: "Pipeline \<Rightarrow> bool" where
  "chan_inv s \<longleftrightarrow> (\<forall>ch. plNext s \<le> ch \<longrightarrow> plSent s ch = []) \<and> (\<forall>ch. length (plBuffer s ch) \<le> DefaultSubscriptionChanBuffer)"

definition view_inv :: "Pipeline \<Rightarrow> bool" where
  "view_inv s \<longleftrightarrow> (\<forall>v. plBroadcast s = Some v \<or> plStoring s = Some v \<longrightarrow> plViews s \<noteq> [] \<and> last (plViews s) = v) \<and>
     (\<forall>v. plLastView s = Some v \<longrightarrow> v \<in> set (plViews s)) \<and> (\<forall>p \<in> set (plPending s). snd p \<in> set (plViews s))"

definition broadcast_views :: "EngineState option \<Rightarrow> EngineState list \<Rightarrow> EngineState list" where
  "broadcast_views b vs = (if b = None then vs else butlast vs)"

definition order_inv :: "Pipeline \<Rightarrow> bool" where
  "order_inv s \<longleftrightarrow> (\<forall>ch. subseq (broadcast_part (plSent s ch)) (broadcast_views (plBroadcast s) (plViews s))) \<and>
     (\<forall>ch. set (initial_part (plSent s ch)) \<subseteq> set (plViews s)) \<and>
     (\<forall>ch. length (initial_part (plSent s ch)) + length (filter (\<lambda>p. fst p = ch) (plPending s)) \<le> 1)"

definition pl_inv :: "Pipeline \<Rightarrow> bool" where
  "pl_inv s \<longleftrightarrow> subs_inv s \<and> chan_inv s \<and> view_inv s \<and> order_inv s \<and> plPanic s \<in> {None, Some SendOnClosed_initial}"

lemmas pl_defs = subs_inv_def chan_inv_def view_inv_def order_inv_def

lemma pl_inv_init: "pl_inv initPipeline"
  by (simp add: pl_inv_def initPipeline_def pl_defs broadcast_views_def)

lemma select_send_broadcast:
  assumes "plPanic s = None" and "distinct chs" and "set chs \<inter> set (plClosed s) = {}"
  shows "foldl (select_send pan ini v) s chs =
     s\<lparr>plBuffer := (\<lambda>ch. if ch \<in> set chs \<and> length (plBuffer s ch) < DefaultSubscriptionChanBuffer then plBuffer s ch @ [v] else plBuffer s ch),
       plSent := (\<lambda>ch. if ch \<in> set chs \<and> length (plBuffer s ch) < DefaultSubscriptionChanBuffer then plSent s ch @ [(ini, v)] else plSent s ch)\<rparr>"
  using assms
proof (induction chs arbitrary: s)
  case (Cons c chs)
  let ?s = "select_send pan ini v s c"
  have s: "?s = s\<lparr>plBuffer := (plBuffer s)(c := (if length (plBuffer s c) < DefaultSubscriptionChanBuffer then plBuffer s c @ [v] else plBuffer s c)),
      plSent := (plSent s)(c := (if length (plBuffer s c) < DefaultSubscriptionChanBuffer then plSent s c @ [(ini, v)] else plSent s c))\<rparr>"
    using Cons.prems by (simp add: select_send_def)
  have "foldl (select_send pan ini v) ?s chs =
     ?s\<lparr>plBuffer := (\<lambda>ch. if ch \<in> set chs \<and> length (plBuffer ?s ch) < DefaultSubscriptionChanBuffer then plBuffer ?s ch @ [v] else plBuffer ?s ch),
       plSent := (\<lambda>ch. if ch \<in> set chs \<and> length (plBuffer ?s ch) < DefaultSubscriptionChanBuffer then plSent ?s ch @ [(ini, v)] else plSent ?s ch)\<rparr>"
    by (rule Cons.IH) (use Cons.prems s in auto)
  then show ?case using Cons.prems(2) unfolding foldl.simps by (intro Pipeline.equality) (simp_all add: s fun_eq_iff)
qed simp

lemma find_channel_iff: "find_channel ch cs i = Some k \<Longrightarrow> i \<le> k \<and> k < i + length cs \<and> cs ! (k - i) = ch"
  by (induction ch cs i rule: find_channel.induct) (auto split: if_splits simp: nth_Cons' Suc_diff_le)

lemma find_channel_None: "find_channel ch cs i = None \<longleftrightarrow> ch \<notin> set cs"
  by (induction ch cs i rule: find_channel.induct) auto

lemma unsubscribe_subs:
  assumes "find_channel ch subs 0 = Some k" and "distinct subs"
  shows "set (swap_pop k (length subs - 1) subs) = set subs - {ch}" and "distinct (swap_pop k (length subs - 1) subs)"
proof -
  from find_channel_iff [OF assms(1)] have k: "k < length subs" "subs ! k = ch" by simp_all
  show "set (swap_pop k (length subs - 1) subs) = set subs - {ch}" using set_swap_pop [OF assms(2) k(1)] k(2) by simp
  then have "card (set (swap_pop k (length subs - 1) subs)) = length subs - 1"
    using k assms(2) by (metis card_Diff_singleton distinct_card nth_mem)
  then show "distinct (swap_pop k (length subs - 1) subs)" by (intro card_distinct) simp
qed

lemma inv_subscribe:
  assumes "pl_inv s" shows "pl_inv (Subscribe s)"
proof -
  have fresh: "filter (\<lambda>p. fst p = plNext s) (plPending s) = []" "plSent s (plNext s) = []"
    using assms by (fastforce simp: pl_inv_def pl_defs filter_empty_conv)+
  have "subs_inv (Subscribe s)" "chan_inv (Subscribe s)" "view_inv (Subscribe s)"
    using assms by (auto simp: pl_inv_def pl_defs Subscribe_def less_Suc_eq split: option.splits)
  moreover have "order_inv (Subscribe s)"
    using assms fresh by (simp add: pl_inv_def order_inv_def Subscribe_def split: option.splits)
  ultimately show ?thesis using assms by (simp add: pl_inv_def Subscribe_def)
qed

lemma inv_unsubscribe:
  assumes "pl_inv s" shows "pl_inv (unsubscribe ch s)"
proof (cases "find_channel ch (plSubscribers s) 0")
  case (Some k)
  have d: "distinct (plSubscribers s)" and ch: "ch \<in> set (plSubscribers s)"
    using assms find_channel_None [of ch "plSubscribers s" 0] Some by (auto simp: pl_inv_def subs_inv_def)
  then have "ch \<notin> set (plClosed s)" using assms by (auto simp: pl_inv_def subs_inv_def)
  then have u: "unsubscribe ch s = s\<lparr>plSubscribers := swap_pop k (length (plSubscribers s) - 1) (plSubscribers s), plClosed := ch # plClosed s\<rparr>"
    by (simp add: unsubscribe_def Some Let_def)
  have "subs_inv (unsubscribe ch s)" using assms ch unsubscribe_subs [OF Some d] by (auto simp: u pl_inv_def subs_inv_def)
  then show ?thesis using assms by (simp add: u pl_inv_def chan_inv_def view_inv_def order_inv_def)
qed (use assms in \<open>simp add: unsubscribe_def\<close>)

lemma inv_emit:
  assumes "pl_inv s" and "plBroadcast s = None" shows "pl_inv (emit_view v s)"
  using assms by (auto simp: pl_inv_def pl_defs emit_view_def broadcast_views_def)

lemma inv_store:
  assumes "pl_inv s" and "plStoring s = Some v" shows "pl_inv (store_view v s)"
  using assms by (auto simp: pl_inv_def pl_defs store_view_def)

lemma inv_consume:
  assumes "pl_inv s" shows "pl_inv (consume ch s)"
proof -
  have "length (plBuffer (consume ch s) c) \<le> length (plBuffer s c)" for c by (simp add: consume_def)
  from le_trans [OF this] have "chan_inv (consume ch s)" using assms by (simp add: pl_inv_def chan_inv_def) (simp add: consume_def)
  then show ?thesis using assms by (simp add: pl_inv_def consume_def subs_inv_def view_inv_def order_inv_def)
qed

lemma inv_done:
  assumes "pl_inv s" shows "pl_inv (s\<lparr>plDone := True\<rparr>)"
  using assms by (simp add: pl_inv_def pl_defs)

lemma inv_pending:
  assumes "pl_inv s" shows "pl_inv (s\<lparr>plPending := remove1 p (plPending s)\<rparr>)"
proof -
  have "length (initial_part (plSent s ch)) + length (filter (\<lambda>p. fst p = ch) (remove1 p (plPending s))) \<le> 1" for ch
  proof -
    have "length (filter (\<lambda>p. fst p = ch) (remove1 p (plPending s))) \<le> length (filter (\<lambda>p. fst p = ch) (plPending s))"
      by (simp add: filter_remove1 length_remove1)
    moreover have "length (initial_part (plSent s ch)) + length (filter (\<lambda>p. fst p = ch) (plPending s)) \<le> 1"
      using assms by (simp add: pl_inv_def order_inv_def)
    ultimately show ?thesis by linarith
  qed
  moreover have "\<forall>x \<in> set (remove1 p (plPending s)). x \<in> set (plPending s)" using set_remove1_subset by fast
  ultimately show ?thesis using assms by (simp add: pl_inv_def pl_defs)
qed

lemma inv_initial:
  assumes inv: "pl_inv s" and p: "p \<in> set (plPending s)" "plPanic s = None"
  shows "pl_inv (initial_send p s)"
proof -
  obtain ch v where pv: "p = (ch, v)" by (cases p)
  let ?s = "s\<lparr>plPending := remove1 p (plPending s)\<rparr>"
  have i: "pl_inv ?s" by (rule inv_pending [OF inv])
  have v: "v \<in> set (plViews s)" "ch < plNext s" using inv p pv by (auto simp: pl_inv_def view_inv_def subs_inv_def)
  have mem: "p \<in> set (filter (\<lambda>p. fst p = ch) (plPending s))" using p(1) pv by simp
  have "length (initial_part (plSent s ch)) + length (filter (\<lambda>p. fst p = ch) (plPending s)) \<le> 1"
    using inv by (simp add: pl_inv_def order_inv_def)
  with length_pos_if_in_set [OF mem] have "length (initial_part (plSent s ch)) = 0" "length (filter (\<lambda>p. fst p = ch) (plPending s)) = 1"
    by linarith+
  with mem have "initial_part (plSent s ch) = []" "filter (\<lambda>p. fst p = ch) (remove1 p (plPending s)) = []"
    by (simp_all add: filter_remove1 flip: length_0_conv add: length_remove1)
  then show ?thesis using i v p(2) by (auto simp: initial_send_def select_send_def pv pl_inv_def pl_defs)
qed

lemma inv_broadcast:
  assumes inv: "pl_inv s" and b: "plBroadcast s = Some v" "plPanic s = None"
  shows "pl_inv (broadcast_view v s)"
proof -
  have u: "broadcast_view v s = s\<lparr>plBroadcast := None,
      plBuffer := (\<lambda>ch. if ch \<in> set (plSubscribers s) \<and> length (plBuffer s ch) < DefaultSubscriptionChanBuffer then plBuffer s ch @ [v] else plBuffer s ch),
      plSent := (\<lambda>ch. if ch \<in> set (plSubscribers s) \<and> length (plBuffer s ch) < DefaultSubscriptionChanBuffer then plSent s ch @ [(False, v)] else plSent s ch)\<rparr>"
    using select_send_broadcast [of "s\<lparr>plBroadcast := None\<rparr>" "plSubscribers s"] inv b
    by (simp add: broadcast_view_def pl_inv_def subs_inv_def cong: if_cong)
  define ws where "ws = broadcast_views (plBroadcast s) (plViews s)"
  have vs: "plViews s = ws @ [v]"
    using inv b by (auto simp: ws_def pl_inv_def view_inv_def broadcast_views_def)
  have "subseq (broadcast_part (plSent s ch)) ws" for ch using inv by (simp add: ws_def pl_inv_def order_inv_def)
  then have sub: "subseq (broadcast_part (plSent s ch)) (plViews s)" "subseq (broadcast_part (plSent s ch) @ [v]) (plViews s)" for ch
    unfolding vs by (auto intro: list_emb_prefix list_emb_append_mono)
  have "broadcast_views None (plViews s) = plViews s" by (simp add: broadcast_views_def)
  then have "order_inv (broadcast_view v s)" using inv sub by (simp add: u pl_inv_def order_inv_def)
  moreover have "chan_inv (broadcast_view v s)" using inv by (auto simp: u pl_inv_def chan_inv_def subs_inv_def not_less)
  moreover have "subs_inv (broadcast_view v s)" "view_inv (broadcast_view v s)"
    using inv b by (simp_all add: u pl_inv_def subs_inv_def view_inv_def) blast?
  ultimately show ?thesis using b by (simp add: u pl_inv_def)
qed

lemma pl_step_inv: "pl_step s s' \<Longrightarrow> pl_inv s \<Longrightarrow> pl_inv s'"
  by (induction rule: pl_step.induct)
    (simp_all add: inv_subscribe inv_unsubscribe inv_emit inv_store inv_consume inv_done inv_initial inv_broadcast initial_abort_def inv_pending)


definition race_state :: Pipeline where
  "race_state = unsubscribe 0 (Subscribe (store_view (wit_state 1 []) (broadcast_view (wit_state 1 []) (emit_view (wit_state 1 []) initPipeline))))"

lemma race_reachable: "pl_step\<^sup>*\<^sup>* initPipeline race_state"
proof -
  let ?v = "wit_state 1 []"
  let ?s1 = "emit_view ?v initPipeline" and ?s2 = "broadcast_view ?v (emit_view ?v initPipeline)"
  have "pl_step initPipeline ?s1" by (rule pl_emit) (simp_all add: initPipeline_def)
  moreover have "pl_step ?s1 ?s2" by (rule pl_broadcast) (simp_all add: initPipeline_def emit_view_def)
  moreover have "pl_step ?s2 (store_view ?v ?s2)" by (rule pl_store) (simp_all add: initPipeline_def emit_view_def broadcast_view_def)
  moreover have "pl_step (store_view ?v ?s2) (Subscribe (store_view ?v ?s2))"
    by (rule pl_subscribe) (simp add: initPipeline_def emit_view_def broadcast_view_def store_view_def)
  moreover have "pl_step (Subscribe (store_view ?v ?s2)) race_state" unfolding race_state_def
    by (rule pl_unsubscribe) (simp add: initPipeline_def emit_view_def broadcast_view_def store_view_def Subscribe_def)
  ultimately show ?thesis by (meson converse_rtranclp_into_rtranclp rtranclp.rtrancl_refl)
qed


text \<open>
  The initial send races with \<^verbatim>\<open>unsubscribe\<close>: a consumer that subscribes after the first view and unsubscribes before the goroutine
  of the initial view has run makes that goroutine send on a closed channel, and the process panics.
\<close>

theorem initial_send_panics:
  "\<exists>s. pl_step\<^sup>*\<^sup>* initPipeline s \<and> plPanic s = Some SendOnClosed_initial"
proof -
  have e: "plPending race_state = [(0, wit_state 1 [])]" "plPanic race_state = None" "plClosed race_state = [0]"
    by (simp_all add: race_state_def initPipeline_def emit_view_def broadcast_view_def store_view_def Subscribe_def unsubscribe_def Let_def)
  have "pl_step race_state (initial_send (0, wit_state 1 []) race_state)" by (rule pl_initial) (simp_all add: e)
  moreover have "plPanic (initial_send (0, wit_state 1 []) race_state) = Some SendOnClosed_initial"
    by (simp add: initial_send_def select_send_def e)
  ultimately show ?thesis using race_reachable by (meson rtranclp.rtrancl_into_rtrancl)
qed

end
