(* ===== verification/Client_Index.thy ===== *)
theory Client_Index
  imports State_Sync
begin

text \<open>
  The client side of the state: the indexers of \<^verbatim>\<open>src/clients/indexers\<close>, the protocol resolver of \<^verbatim>\<open>src/clients/types.go\<close>, and the
  client of \<^verbatim>\<open>src/clients/chains/ethereum/client.go\<close>, which turns each engine state it receives into an indexed state. A Go map of
  the indexers is a partial function, since none of them is iterated. A token slice may be nil in Go, which the
  client tells apart from an empty one: \<open>isNil\<close> is that test. The panic of a failed type assertion is an error value.
\<close>

section \<open>The token and pool registry indexers\<close>

record IndexableTokenSystem =
  itByID :: "uint64 \<rightharpoonup> TokenView"
  itByAddress :: "address \<rightharpoonup> TokenView"
  itAll :: "TokenView list"

definition NewIndexableTokenSystem :: "TokenView list \<Rightarrow> IndexableTokenSystem" where
  "NewIndexableTokenSystem tokens =
     \<lparr>itByID = foldl (\<lambda>m t. m(tvID t \<mapsto> t)) Map.empty tokens,
      itByAddress = foldl (\<lambda>m t. m(tvAddress t \<mapsto> t)) Map.empty tokens, itAll = tokens\<rparr>"

definition it_GetByID :: "IndexableTokenSystem \<Rightarrow> uint64 \<Rightarrow> TokenView option" where
  "it_GetByID its k = itByID its k"

definition it_GetByAddress :: "IndexableTokenSystem \<Rightarrow> address \<Rightarrow> TokenView option" where
  "it_GetByAddress its a = itByAddress its a"

definition it_All :: "IndexableTokenSystem \<Rightarrow> TokenView list" where
  "it_All its = map (\<lambda>i. itAll its ! i) [0..<length (itAll its)]"

record IndexablePoolRegistry =
  irByID :: "uint64 \<rightharpoonup> PoolView"
  irByKey :: "PoolKey \<rightharpoonup> PoolView"
  irAll :: "PoolView list"
  irProtocols :: "uint16 \<rightharpoonup> ProtocolID"

definition NewIndexablePoolRegistry :: "PoolRegistryView \<Rightarrow> IndexablePoolRegistry" where
  "NewIndexablePoolRegistry view =
     \<lparr>irByID = foldl (\<lambda>m p. m(pvID p \<mapsto> p)) Map.empty (prvPools view),
      irByKey = foldl (\<lambda>m p. m(pvKey p \<mapsto> p)) Map.empty (prvPools view),
      irAll = prvPools view, irProtocols = map_of (prvProtocols view)\<rparr>"

definition ir_GetByID :: "IndexablePoolRegistry \<Rightarrow> uint64 \<Rightarrow> PoolView option" where
  "ir_GetByID ipr k = irByID ipr k"

definition ir_GetByPoolKey :: "IndexablePoolRegistry \<Rightarrow> PoolKey \<Rightarrow> PoolView option" where
  "ir_GetByPoolKey ipr key = irByKey ipr key"

definition ir_GetByAddress :: "IndexablePoolRegistry \<Rightarrow> address \<Rightarrow> PoolView option" where
  "ir_GetByAddress ipr a = irByKey ipr (AddressToPoolKey a)"

definition ir_All :: "IndexablePoolRegistry \<Rightarrow> PoolView list" where
  "ir_All ipr = map (\<lambda>i. irAll ipr ! i) [0..<length (irAll ipr)]"

definition ir_GetProtocols :: "IndexablePoolRegistry \<Rightarrow> uint16 \<rightharpoonup> ProtocolID" where
  "ir_GetProtocols ipr = irProtocols ipr"

section \<open>The pool indexers\<close>

datatype index_error =
    ErrPoolNotIndexed uint64
  | ErrInvalidPoolAddress uint64
  | ErrToken0NotIndexed uint64
  | ErrToken1NotIndexed uint64

record pool_ids =
  idsPool :: uint64
  idsToken0 :: uint64
  idsToken1 :: uint64

record V2Pool =
  p2Protocol :: string
  p2IDs :: pool_ids
  p2Address :: address
  p2Token0 :: address
  p2Token1 :: address
  p2Reserve0 :: int
  p2Reserve1 :: int
  p2FeeBps :: uint16

record V3Pool =
  p3Protocol :: string
  p3IDs :: pool_ids
  p3Address :: address
  p3Token0 :: address
  p3Token1 :: address
  p3Fee :: uint64
  p3TickSpacing :: uint64
  p3Liquidity :: int
  p3SqrtPriceX96 :: int
  p3Tick :: int
  p3Ticks :: "TickInfo list"

record 'p IndexablePools =
  ipPools :: "'p list"
  ipByAddress :: "address \<rightharpoonup> nat"
  ipByID :: "uint64 \<rightharpoonup> nat"

text \<open>The registry lookups of one iteration of the two constructors, which are the same in both.\<close>

definition pool_lookups :: "IndexableTokenSystem \<Rightarrow> IndexablePoolRegistry \<Rightarrow> uint64 \<Rightarrow> uint64 \<Rightarrow> uint64 \<Rightarrow> index_error + address \<times> address \<times> address" where
  "pool_lookups tokenRegistry poolRegistry pID t0 t1 =
     (case ir_GetByID poolRegistry pID of
        None \<Rightarrow> Inl (ErrPoolNotIndexed pID)
      | Some pr \<Rightarrow>
          (case PoolKey_ToAddress (pvKey pr) of
             Inl err \<Rightarrow> Inl (ErrInvalidPoolAddress pID)
           | Inr poolAddress \<Rightarrow>
               (case it_GetByID tokenRegistry t0 of
                  None \<Rightarrow> Inl (ErrToken0NotIndexed t0)
                | Some token0 \<Rightarrow>
                    (case it_GetByID tokenRegistry t1 of
                       None \<Rightarrow> Inl (ErrToken1NotIndexed t1)
                     | Some token1 \<Rightarrow> Inr (poolAddress, tvAddress token0, tvAddress token1)))))"

definition v2_build :: "EngineProtocolID \<Rightarrow> V2PoolView \<Rightarrow> address \<Rightarrow> address \<Rightarrow> address \<Rightarrow> V2Pool" where
  "v2_build protocolID p poolAddress token0 token1 =
     \<lparr>p2Protocol = protocolID, p2IDs = \<lparr>idsPool = v2ID p, idsToken0 = v2Token0 p, idsToken1 = v2Token1 p\<rparr>, p2Address = poolAddress,
      p2Token0 = token0, p2Token1 = token1, p2Reserve0 = v2Reserve0 p, p2Reserve1 = v2Reserve1 p, p2FeeBps = v2FeeBps p\<rparr>"

definition v3_build :: "EngineProtocolID \<Rightarrow> V3PoolView \<Rightarrow> address \<Rightarrow> address \<Rightarrow> address \<Rightarrow> V3Pool" where
  "v3_build protocolID p poolAddress token0 token1 =
     \<lparr>p3Protocol = protocolID, p3IDs = \<lparr>idsPool = v3ID p, idsToken0 = v3Token0 p, idsToken1 = v3Token1 p\<rparr>, p3Address = poolAddress,
      p3Token0 = token0, p3Token1 = token1, p3Fee = v3Fee p, p3TickSpacing = v3TickSpacing p, p3Liquidity = v3Liquidity p,
      p3SqrtPriceX96 = v3SqrtPriceX96 p, p3Tick = v3Tick p, p3Ticks = v3Ticks p\<rparr>"

text \<open>
  The loops of the constructors. The storage slice is written at ascending indexes, so that after \<open>i\<close> iterations its first \<open>i\<close> entries
  are the list built here.
\<close>

definition ip_put :: "uint64 \<Rightarrow> address \<Rightarrow> 'p \<Rightarrow> 'p IndexablePools \<Rightarrow> 'p IndexablePools" where
  "ip_put k a pool s =
     (let i = length (ipPools s) in
      \<lparr>ipPools = ipPools s @ [pool], ipByAddress = (ipByAddress s)(a \<mapsto> i), ipByID = (ipByID s)(k \<mapsto> i)\<rparr>)"

fun index_loop ::
  "('v \<Rightarrow> address \<Rightarrow> address \<Rightarrow> address \<Rightarrow> 'p) \<Rightarrow> ('v \<Rightarrow> uint64) \<Rightarrow> ('v \<Rightarrow> uint64) \<Rightarrow> ('v \<Rightarrow> uint64) \<Rightarrow> IndexableTokenSystem \<Rightarrow> IndexablePoolRegistry \<Rightarrow>
   'v list \<Rightarrow> 'p IndexablePools \<Rightarrow> index_error + 'p IndexablePools" where
  "index_loop build vid tok0 tok1 tokenRegistry poolRegistry [] s = Inr s"
| "index_loop build vid tok0 tok1 tokenRegistry poolRegistry (p # ps) s =
     (case pool_lookups tokenRegistry poolRegistry (vid p) (tok0 p) (tok1 p) of
        Inl err \<Rightarrow> Inl err
      | Inr (poolAddress, token0, token1) \<Rightarrow>
          index_loop build vid tok0 tok1 tokenRegistry poolRegistry ps (ip_put (vid p) poolAddress (build p poolAddress token0 token1) s))"

definition no_pools :: "'p IndexablePools" where
  "no_pools = \<lparr>ipPools = [], ipByAddress = Map.empty, ipByID = Map.empty\<rparr>"

definition NewIndexableUniswapV2System ::
  "EngineProtocolID \<Rightarrow> V2PoolView list \<Rightarrow> IndexableTokenSystem \<Rightarrow> IndexablePoolRegistry \<Rightarrow> index_error + V2Pool IndexablePools" where
  "NewIndexableUniswapV2System protocolID sourcePools tokenRegistry poolRegistry =
     index_loop (v2_build protocolID) v2ID v2Token0 v2Token1 tokenRegistry poolRegistry sourcePools no_pools"

definition NewIndexableUniswapV3System ::
  "EngineProtocolID \<Rightarrow> V3PoolView list \<Rightarrow> IndexableTokenSystem \<Rightarrow> IndexablePoolRegistry \<Rightarrow> index_error + V3Pool IndexablePools" where
  "NewIndexableUniswapV3System protocolID sourcePools tokenRegistry poolRegistry =
     index_loop (v3_build protocolID) v3ID v3Token0 v3Token1 tokenRegistry poolRegistry sourcePools no_pools"

definition ip_GetByID :: "'p IndexablePools \<Rightarrow> uint64 \<Rightarrow> 'p option" where
  "ip_GetByID ius k = (case ipByID ius k of None \<Rightarrow> None | Some idx \<Rightarrow> Some (ipPools ius ! idx))"

definition ip_GetByAddress :: "'p IndexablePools \<Rightarrow> address \<Rightarrow> 'p option" where
  "ip_GetByAddress ius a = (case ipByAddress ius a of None \<Rightarrow> None | Some idx \<Rightarrow> Some (ipPools ius ! idx))"

text \<open>
  \<^verbatim>\<open>All\<close> copies into a slice that was made before: of the length of the pools for Uniswap V3, of length 1 for Uniswap V2.
  \<open>None\<close> is the zero value of an element that the copy did not reach.
\<close>

definition copy_into :: "nat \<Rightarrow> 'p list \<Rightarrow> 'p option list" where
  "copy_into n src = map Some (take n src) @ replicate (n - length src) None"

definition v2i_All :: "V2Pool IndexablePools \<Rightarrow> V2Pool option list" where
  "v2i_All ius = copy_into 1 (ipPools ius)"

definition v3i_All :: "V3Pool IndexablePools \<Rightarrow> V3Pool option list" where
  "v3i_All ius = copy_into (length (ipPools ius)) (ipPools ius)"

section \<open>The protocol resolver\<close>

record ProtocolResolver =
  prsSchema :: "EngineProtocolID \<rightharpoonup> ProtocolSchema"
  prsRegistry :: IndexablePoolRegistry

definition NewProtocolResolver :: "(EngineProtocolID \<rightharpoonup> ProtocolSchema) \<Rightarrow> IndexablePoolRegistry \<Rightarrow> ProtocolResolver" where
  "NewProtocolResolver protocolIDToSchema registry = \<lparr>prsSchema = protocolIDToSchema, prsRegistry = registry\<rparr>"

definition ResolveSchema :: "ProtocolResolver \<Rightarrow> EngineProtocolID \<Rightarrow> ProtocolSchema option" where
  "ResolveSchema pr protocolID = prsSchema pr protocolID"

definition ResolveSchemaFromPoolID :: "ProtocolResolver \<Rightarrow> uint64 \<Rightarrow> ProtocolSchema option" where
  "ResolveSchemaFromPoolID pr poolID =
     (case ir_GetByID (prsRegistry pr) poolID of
        None \<Rightarrow> None
      | Some pool \<Rightarrow>
          (case ir_GetProtocols (prsRegistry pr) (pvProtocol pool) of
             None \<Rightarrow> None
           | Some protocolID \<Rightarrow> prsSchema pr protocolID))"

section \<open>The client\<close>

datatype client_error =
    ErrIncompleteFoundation int
  | ErrParallelIndexing index_error
  | ClientPanicTypeAssertion

record ClientState =
  csTokens :: IndexableTokenSystem
  csPools :: IndexablePoolRegistry
  csUniswapV2 :: "V2Pool IndexablePools"
  csUniswapV3 :: "V3Pool IndexablePools"
  csPancakeswapV3 :: "V3Pool IndexablePools"
  csProtocolResolver :: ProtocolResolver
  csGraph :: "TokenPoolsRegistryView option"
  csBlock :: BlockSummary
  csTimestamp :: uint64

definition UniswapV2ProtocolID :: EngineProtocolID where
  "UniswapV2ProtocolID = ''uniswap-v2-ethereum-mainnet''"

definition UniswapV3ProtocolID :: EngineProtocolID where
  "UniswapV3ProtocolID = ''uniswap-v3-ethereum-mainnet''"

definition PancakeswapV3ProtocolID :: EngineProtocolID where
  "PancakeswapV3ProtocolID = ''pancakeswap-v3-ethereum-mainnet''"

record dataBuckets =
  bkTokens :: "TokenView list option"
  bkPools :: "PoolRegistryView option"
  bkGraph :: "TokenPoolsRegistryView option"
  bkUniswapV2 :: "V2PoolView list"
  bkUniswapV3 :: "V3PoolView list"
  bkPancakeswapV3 :: "V3PoolView list"

definition bucket_step ::
  "(TokenView list \<Rightarrow> bool) \<Rightarrow> EngineProtocolID \<Rightarrow> ProtocolState \<Rightarrow> dataBuckets \<Rightarrow> client_error + dataBuckets" where
  "bucket_step isNil protocolID protocol b =
     (if stSchema protocol = TokenProtocolSchema then
        (case stData protocol of TokenData ts \<Rightarrow> Inr (b\<lparr>bkTokens := if isNil ts then None else Some ts\<rparr>) | _ \<Rightarrow> Inl ClientPanicTypeAssertion)
      else if stSchema protocol = PoolProtocolSchema then
        (case stData protocol of PoolData view \<Rightarrow> Inr (b\<lparr>bkPools := Some view\<rparr>) | _ \<Rightarrow> Inl ClientPanicTypeAssertion)
      else if stSchema protocol = TokenPoolProtocolSchema then
        (case stData protocol of GraphData g \<Rightarrow> Inr (b\<lparr>bkGraph := g\<rparr>) | _ \<Rightarrow> Inl ClientPanicTypeAssertion)
      else if stSchema protocol = UniswapV2ProtocolSchema then
        (if protocolID = UniswapV2ProtocolID then
           (case stData protocol of V2Data vs \<Rightarrow> Inr (b\<lparr>bkUniswapV2 := vs\<rparr>) | _ \<Rightarrow> Inl ClientPanicTypeAssertion)
         else Inr b)
      else if stSchema protocol = UniswapV3ProtocolSchema then
        (if protocolID = UniswapV3ProtocolID then
           (case stData protocol of V3Data vs \<Rightarrow> Inr (b\<lparr>bkUniswapV3 := vs\<rparr>) | _ \<Rightarrow> Inl ClientPanicTypeAssertion)
         else if protocolID = PancakeswapV3ProtocolID then
           (case stData protocol of V3Data vs \<Rightarrow> Inr (b\<lparr>bkPancakeswapV3 := vs\<rparr>) | _ \<Rightarrow> Inl ClientPanicTypeAssertion)
         else Inr b)
      else Inr b)"

fun bucket_loop :: "(TokenView list \<Rightarrow> bool) \<Rightarrow> (EngineProtocolID \<times> ProtocolState) list \<Rightarrow> dataBuckets \<Rightarrow> client_error + dataBuckets" where
  "bucket_loop isNil [] b = Inr b"
| "bucket_loop isNil ((protocolID, protocol) # ps) b =
     (case bucket_step isNil protocolID protocol b of Inl err \<Rightarrow> Inl err | Inr b' \<Rightarrow> bucket_loop isNil ps b')"

definition no_buckets :: dataBuckets where
  "no_buckets = \<lparr>bkTokens = None, bkPools = None, bkGraph = None, bkUniswapV2 = [], bkUniswapV3 = [], bkPancakeswapV3 = []\<rparr>"

definition extractBuckets ::
  "(TokenView list \<Rightarrow> bool) \<Rightarrow> (EngineProtocolID, ProtocolState) range_order \<Rightarrow> EngineState \<Rightarrow> client_error + dataBuckets" where
  "extractBuckets isNil ord rawState =
     (case bucket_loop isNil (ord (esProtocols rawState)) no_buckets of
        Inl err \<Rightarrow> Inl err
      | Inr b \<Rightarrow> if bkTokens b = None \<or> bkPools b = None \<or> bkGraph b = None then Inl (ErrIncompleteFoundation (bsNumber (esBlock rawState))) else Inr b)"

text \<open>
  The three indexers run in goroutines of an \<^verbatim>\<open>errgroup\<close>, which reports the error that occurs first: \<open>first\<close> chooses it among the
  errors. \<open>now\<close> is the time of the call.
\<close>

definition processState ::
  "(TokenView list \<Rightarrow> bool) \<Rightarrow> (EngineProtocolID, ProtocolState) range_order \<Rightarrow> (index_error list \<Rightarrow> index_error) \<Rightarrow> uint64 \<Rightarrow> EngineState \<Rightarrow>
   client_error + ClientState" where
  "processState isNil ord first now rawState =
     (case extractBuckets isNil ord rawState of
        Inl err \<Rightarrow> Inl err
      | Inr b \<Rightarrow>
          (let toks = NewIndexableTokenSystem (the (bkTokens b));
               regs = NewIndexablePoolRegistry (the (bkPools b));
               r2 = NewIndexableUniswapV2System UniswapV2ProtocolID (bkUniswapV2 b) toks regs;
               r3 = NewIndexableUniswapV3System UniswapV3ProtocolID (bkUniswapV3 b) toks regs;
               rp = NewIndexableUniswapV3System PancakeswapV3ProtocolID (bkPancakeswapV3 b) toks regs in
           case (r2, r3, rp) of
             (Inr v2, Inr v3, Inr pcs) \<Rightarrow>
               Inr \<lparr>csTokens = toks, csPools = regs, csUniswapV2 = v2, csUniswapV3 = v3, csPancakeswapV3 = pcs,
                    csProtocolResolver = NewProtocolResolver (\<lambda>k. map_option stSchema (map_of (esProtocols rawState) k)) regs,
                    csGraph = bkGraph b, csBlock = esBlock rawState, csTimestamp = now\<rparr>
           | _ \<Rightarrow> Inl (ErrParallelIndexing (first
                (case_sum (\<lambda>e. [e]) (\<lambda>_. []) r2 @ case_sum (\<lambda>e. [e]) (\<lambda>_. []) r3 @ case_sum (\<lambda>e. [e]) (\<lambda>_. []) rp)))))"

section \<open>The main loop\<close>

text \<open>
  The loop of the client: a state that cannot be processed is logged and dropped, the others are stored and passed to the
  handler, of which there is one at most. \<open>ccCalls\<close> lists the calls of the handler.
\<close>

record 'h ChainClient =
  ccLatestState :: "ClientState option"
  ccOnNewBlock :: "'h option"
  ccIsRegistered :: bool
  ccCalls :: "('h \<times> ClientState) list"

definition NewChainClient :: "'h ChainClient" where
  "NewChainClient = \<lparr>ccLatestState = None, ccOnNewBlock = None, ccIsRegistered = False, ccCalls = []\<rparr>"

definition cc_State :: "'h ChainClient \<Rightarrow> ClientState option" where
  "cc_State p = ccLatestState p"

definition cc_OnNewBlock :: "'h \<Rightarrow> 'h ChainClient \<Rightarrow> string + 'h ChainClient" where
  "cc_OnNewBlock handler p =
     (if ccIsRegistered p then Inl ''OnNewBlock handler is already registered'' else Inr (p\<lparr>ccOnNewBlock := Some handler, ccIsRegistered := True\<rparr>))"

definition cc_receive :: "client_error + ClientState \<Rightarrow> 'h ChainClient \<Rightarrow> 'h ChainClient" where
  "cc_receive processed p =
     (case processed of
        Inl err \<Rightarrow> p
      | Inr st \<Rightarrow> p\<lparr>ccLatestState := Some st, ccCalls := ccCalls p @ (case ccOnNewBlock p of None \<Rightarrow> [] | Some h \<Rightarrow> [(h, st)])\<rparr>)"

datatype 'h client_event = Register 'h | Receive "TokenView list \<Rightarrow> bool" "(EngineProtocolID, ProtocolState) range_order" "index_error list \<Rightarrow> index_error" uint64 EngineState

fun cc_event :: "'h ChainClient \<Rightarrow> 'h client_event \<Rightarrow> 'h ChainClient" where
  "cc_event p (Register h) = (case cc_OnNewBlock h p of Inl err \<Rightarrow> p | Inr p' \<Rightarrow> p')"
| "cc_event p (Receive isNil ord first now raw) = cc_receive (processState isNil ord first now raw) p"

section \<open>Lookups\<close>

lemma foldl_upd_keyed: "foldl (\<lambda>m v. m(vid v \<mapsto> v)) m vs = m ++ keyed vid (rev vs)"
proof (induction vs arbitrary: m)
  case (Cons v vs)
  have "keyed vid (rev vs @ [v]) = [vid v \<mapsto> v] ++ keyed vid (rev vs)" by (simp add: keyed_def)
  then have "(m(vid v \<mapsto> v)) ++ keyed vid (rev vs) = m ++ keyed vid (rev (v # vs))" by (simp add: map_add_assoc [symmetric])
  then show ?case using Cons.IH [of "m(vid v \<mapsto> v)"] by (simp only: foldl.simps)
qed simp

lemma it_GetByID_iff: "distinct (map tvID ts) \<Longrightarrow> it_GetByID (NewIndexableTokenSystem ts) k = Some t \<longleftrightarrow> t \<in> set ts \<and> tvID t = k"
  by (simp add: it_GetByID_def NewIndexableTokenSystem_def foldl_upd_keyed keyed_rev keyed_Some_iff)

lemma keyed_find: "keyed f xs k = find (\<lambda>x. f x = k) xs"
  by (induction xs) (auto simp: keyed_def)

lemma it_GetByAddress_find: "it_GetByAddress (NewIndexableTokenSystem ts) a = find (\<lambda>t. tvAddress t = a) (rev ts)"
  by (simp add: it_GetByAddress_def NewIndexableTokenSystem_def foldl_upd_keyed keyed_find)

lemma ir_GetByPoolKey_iff:
  "distinct (map pvKey (prvPools view)) \<Longrightarrow> ir_GetByPoolKey (NewIndexablePoolRegistry view) key = Some p \<longleftrightarrow> p \<in> set (prvPools view) \<and> pvKey p = key"
  by (simp add: ir_GetByPoolKey_def NewIndexablePoolRegistry_def foldl_upd_keyed keyed_rev keyed_Some_iff)

lemma indexer_all: "it_All (NewIndexableTokenSystem ts) = ts" "ir_All (NewIndexablePoolRegistry view) = prvPools view"
  by (simp_all add: it_All_def ir_All_def NewIndexableTokenSystem_def NewIndexablePoolRegistry_def map_nth)

lemma ir_GetByID_iff:
  "distinct (map pvID (prvPools view)) \<Longrightarrow> ir_GetByID (NewIndexablePoolRegistry view) k = Some p \<longleftrightarrow> p \<in> set (prvPools view) \<and> pvID p = k"
  by (simp add: ir_GetByID_def NewIndexablePoolRegistry_def foldl_upd_keyed keyed_rev keyed_Some_iff)

lemma pool_lookups_iff:
  "pool_lookups T R k t0 t1 = Inr (a, x, y) \<longleftrightarrow>
     (\<exists>pr. ir_GetByID R k = Some pr \<and> PoolKey_ToAddress (pvKey pr) = Inr a) \<and>
     (\<exists>t. it_GetByID T t0 = Some t \<and> tvAddress t = x) \<and> (\<exists>t. it_GetByID T t1 = Some t \<and> tvAddress t = y)"
  by (auto simp: pool_lookups_def split: option.splits sum.splits)

definition ip_bounded :: "'p IndexablePools \<Rightarrow> bool" where
  "ip_bounded s \<longleftrightarrow> (\<forall>k i. ipByID s k = Some i \<longrightarrow> i < length (ipPools s)) \<and> (\<forall>a i. ipByAddress s a = Some i \<longrightarrow> i < length (ipPools s))"

lemma ip_bounded_simps [simp]: "ip_bounded no_pools" "ip_bounded s \<Longrightarrow> ip_bounded (ip_put k a p s)"
  by (auto simp: ip_bounded_def no_pools_def ip_put_def Let_def less_Suc_eq)

lemma no_pools_lookups: "ip_GetByID no_pools = Map.empty" "ip_GetByAddress no_pools = Map.empty"
  by (simp_all add: fun_eq_iff no_pools_def ip_GetByID_def ip_GetByAddress_def)

lemma ip_put_lookups:
  assumes "ip_bounded s"
  shows "ip_GetByID (ip_put k a p s) = (ip_GetByID s)(k \<mapsto> p)" and "ip_GetByAddress (ip_put k a p s) = (ip_GetByAddress s)(a \<mapsto> p)"
  using assms by (auto simp: ip_put_def Let_def ip_bounded_def ip_GetByID_def ip_GetByAddress_def fun_eq_iff nth_append split: option.splits)

text \<open>
  The foundation of a state: its tokens and its pool registry. \<open>token_at\<close> and \<open>pool_at\<close> relate identifiers to addresses as a reader of the
  two lists would.
\<close>

definition token_at :: "TokenView list \<Rightarrow> uint64 \<Rightarrow> address \<Rightarrow> bool" where
  "token_at ts t a \<longleftrightarrow> (\<exists>tk \<in> set ts. tvID tk = t \<and> tvAddress tk = a)"

definition pool_at :: "PoolRegistryView \<Rightarrow> uint64 \<Rightarrow> address \<Rightarrow> bool" where
  "pool_at view k a \<longleftrightarrow> (\<exists>pr \<in> set (prvPools view). pvID pr = k \<and> PoolKey_ToAddress (pvKey pr) = Inr a)"

definition foundation_ok :: "TokenView list \<Rightarrow> PoolRegistryView \<Rightarrow> bool" where
  "foundation_ok ts view \<longleftrightarrow> distinct (map tvID ts) \<and> distinct (map pvID (prvPools view)) \<and> distinct (map pvKey (prvPools view)) \<and>
     (\<forall>pr \<in> set (prvPools view). is_key (pvKey pr))"

lemma lookups_foundation:
  "foundation_ok ts view \<Longrightarrow> pool_lookups (NewIndexableTokenSystem ts) (NewIndexablePoolRegistry view) k t0 t1 = Inr (a, x, y) \<longleftrightarrow>
     pool_at view k a \<and> token_at ts t0 x \<and> token_at ts t1 y"
  by (auto simp: foundation_ok_def pool_lookups_iff it_GetByID_iff ir_GetByID_iff pool_at_def token_at_def)

lemma ToAddress_inj: "is_key k \<Longrightarrow> is_key k' \<Longrightarrow> PoolKey_ToAddress k = Inr a \<Longrightarrow> PoolKey_ToAddress k' = Inr a \<Longrightarrow> k = k'"
proof -
  have z: "k = replicate 12 0 @ drop 12 k" if "is_key k" "PoolKey_ToAddress k = Inr a" for k
  proof -
    have "take 12 k = replicate 12 0"
      using that by (intro replicate_eqI) (auto simp: PoolKey_ToAddress_def is_key_def split: if_splits)
    then show ?thesis using append_take_drop_id [of 12 k] by simp
  qed
  show "k = k'" if "is_key k" "is_key k'" "PoolKey_ToAddress k = Inr a" "PoolKey_ToAddress k' = Inr a"
    using z [OF that(1,3)] z [OF that(2,4)] that(3,4) by (simp add: PoolKey_ToAddress_def split: if_splits)
qed

lemma pool_at_inj: "foundation_ok ts view \<Longrightarrow> pool_at view k a \<Longrightarrow> pool_at view k' a \<Longrightarrow> k = k'"
  unfolding pool_at_def foundation_ok_def by (metis ToAddress_inj distinct_map_eqD)

lemma at_fun:
  assumes "foundation_ok ts view"
  shows "pool_at view k a \<Longrightarrow> pool_at view k b \<Longrightarrow> a = b" and "token_at ts t a \<Longrightarrow> token_at ts t b \<Longrightarrow> a = b"
  using assms unfolding pool_at_def token_at_def foundation_ok_def by (metis Inr_inject distinct_map_eqD, metis distinct_map_eqD)

text \<open>
  A pool indexer: \<open>build\<close> makes the resolved pool from a view and the addresses found for it. What the lookups of an index return is
  shown once for both indexers.
\<close>

locale pool_indexer =
  fixes build :: "'v \<Rightarrow> address \<Rightarrow> address \<Rightarrow> address \<Rightarrow> 'p" and vid tok0 tok1 :: "'v \<Rightarrow> uint64" and pid :: "'p \<Rightarrow> uint64" and paddr :: "'p \<Rightarrow> address"
  assumes pid_build: "pid (build v a x y) = vid v" and paddr_build: "paddr (build v a x y) = a"
begin

abbreviation index where
  "index T R \<equiv> index_loop build vid tok0 tok1 T R"

lemma loop_succeeds:
  "(\<exists>s'. index T R vs s = Inr s') \<longleftrightarrow> (\<forall>v \<in> set vs. \<exists>r. pool_lookups T R (vid v) (tok0 v) (tok1 v) = Inr r)"
proof (induction vs arbitrary: s)
  case (Cons v vs)
  then show ?case by (cases "pool_lookups T R (vid v) (tok0 v) (tok1 v)") (auto simp: Let_def split: prod.splits)
qed simp

lemma loop_lookups:
  assumes "index T R vs s = Inr s'" and "ip_bounded s"
  shows "\<exists>ps. list_all2 (\<lambda>v p. \<exists>a x y. pool_lookups T R (vid v) (tok0 v) (tok1 v) = Inr (a, x, y) \<and> p = build v a x y) vs ps \<and>
    ipPools s' = ipPools s @ ps \<and> ip_GetByID s' = ip_GetByID s ++ keyed pid (rev ps) \<and> ip_GetByAddress s' = ip_GetByAddress s ++ keyed paddr (rev ps)"
  using assms
proof (induction vs arbitrary: s)
  case (Cons v vs)
  obtain a x y where l: "pool_lookups T R (vid v) (tok0 v) (tok1 v) = Inr (a, x, y)"
    using Cons.prems(1) by (auto split: sum.splits)
  let ?s = "ip_put (vid v) a (build v a x y) s"
  have step: "index T R vs ?s = Inr s'" using Cons.prems(1) l by simp
  obtain ps where ps: "list_all2 (\<lambda>v p. \<exists>a x y. pool_lookups T R (vid v) (tok0 v) (tok1 v) = Inr (a, x, y) \<and> p = build v a x y) vs ps"
    "ipPools s' = ipPools ?s @ ps" "ip_GetByID s' = ip_GetByID ?s ++ keyed pid (rev ps)" "ip_GetByAddress s' = ip_GetByAddress ?s ++ keyed paddr (rev ps)"
    using Cons.IH [OF step] Cons.prems(2) by auto
  have kc: "m(f q \<mapsto> q) ++ keyed f (rev ps) = m ++ keyed f (rev (q # ps))" for f :: "'p \<Rightarrow> 'k" and q m
    by (simp add: keyed_def map_add_assoc [symmetric])
  have "ip_GetByID s' = ip_GetByID s ++ keyed pid (rev (build v a x y # ps))"
    unfolding ps(3) ip_put_lookups [OF Cons.prems(2)] using kc [of "ip_GetByID s" pid "build v a x y"] pid_build by simp
  moreover have "ip_GetByAddress s' = ip_GetByAddress s ++ keyed paddr (rev (build v a x y # ps))"
    unfolding ps(4) ip_put_lookups [OF Cons.prems(2)] using kc [of "ip_GetByAddress s" paddr "build v a x y"] paddr_build by simp
  ultimately show ?case using ps(1,2) l by (intro exI [of _ "build v a x y # ps"]) (auto simp: ip_put_def Let_def)
qed simp

lemma index_exact:
  assumes f: "foundation_ok ts view" and d: "distinct (map vid vs)"
    and i: "index (NewIndexableTokenSystem ts) (NewIndexablePoolRegistry view) vs no_pools = Inr s"
  shows "ip_GetByID s k = Some p \<longleftrightarrow>
      (\<exists>v \<in> set vs. vid v = k \<and> (\<exists>a x y. p = build v a x y \<and> pool_at view k a \<and> token_at ts (tok0 v) x \<and> token_at ts (tok1 v) y))"
    and "ip_GetByAddress s b = Some p \<longleftrightarrow> ip_GetByID s (pid p) = Some p \<and> paddr p = b"
proof -
  obtain ps where ps: "list_all2 (\<lambda>v p. \<exists>a x y. p = build v a x y \<and> pool_at view (vid v) a \<and> token_at ts (tok0 v) x \<and> token_at ts (tok1 v) y) vs ps"
    "ip_GetByID s = keyed pid (rev ps)" "ip_GetByAddress s = keyed paddr (rev ps)"
    using loop_lookups [OF i ip_bounded_simps(1)] by (auto simp: lookups_foundation [OF f] no_pools_lookups conj_commute)
  let ?Q = "\<lambda>v p. \<exists>a x y. p = build v a x y \<and> pool_at view (vid v) a \<and> token_at ts (tok0 v) x \<and> token_at ts (tok1 v) y"
  have uniq: "p = q" if "?Q v p" "?Q v q" for v p q
    using that at_fun [OF f] by (elim exE conjE) (simp, blast)
  have ids: "map pid ps = map vid vs" using ps(1) by (induction rule: list_all2_induct) (auto simp: pid_build)
  have mem: "p \<in> set ps \<longleftrightarrow> (\<exists>v \<in> set vs. ?Q v p)" for p
  proof
    assume "p \<in> set ps"
    then obtain j where j: "j < length ps" "p = ps ! j" by (metis in_set_conv_nth)
    have "?Q (vs ! j) (ps ! j)" using list_all2_nthD2 [OF ps(1) j(1)] .
    then show "\<exists>v \<in> set vs. ?Q v p" using j list_all2_lengthD [OF ps(1)] by (metis nth_mem)
  next
    assume "\<exists>v \<in> set vs. ?Q v p"
    then obtain j where j: "j < length vs" "?Q (vs ! j) p" by (metis in_set_conv_nth)
    have "?Q (vs ! j) (ps ! j)" using ps(1) j(1) by (rule list_all2_nthD)
    then have "p = ps ! j" using uniq j(2) by blast
    then show "p \<in> set ps" using j(1) list_all2_lengthD [OF ps(1)] by simp
  qed
  have dp: "distinct (map pid ps)" using d ids by simp
  have da: "distinct (map paddr ps)" unfolding distinct_map
  proof (intro conjI inj_onI)
    show "distinct ps" using dp by (simp add: distinct_map)
    fix p q assume pq: "p \<in> set ps" "q \<in> set ps" "paddr p = paddr q"
    then have "pid p = pid q" using mem pool_at_inj [OF f] by (metis pid_build paddr_build)
    then show "p = q" using pq(1,2) dp by (meson distinct_map inj_onD)
  qed
  show "ip_GetByID s k = Some p \<longleftrightarrow>
      (\<exists>v \<in> set vs. vid v = k \<and> (\<exists>a x y. p = build v a x y \<and> pool_at view k a \<and> token_at ts (tok0 v) x \<and> token_at ts (tok1 v) y))"
    unfolding ps(2) keyed_rev [OF dp] keyed_Some_iff [OF dp] mem by (auto simp: pid_build) blast
  show "ip_GetByAddress s b = Some p \<longleftrightarrow> ip_GetByID s (pid p) = Some p \<and> paddr p = b"
    unfolding ps(2,3) keyed_rev [OF dp] keyed_rev [OF da] keyed_Some_iff [OF dp] keyed_Some_iff [OF da] by simp
qed

end

interpretation v2ix: pool_indexer "v2_build protocolID" v2ID v2Token0 v2Token1 "\<lambda>p. idsPool (p2IDs p)" p2Address for protocolID
  by unfold_locales (simp_all add: v2_build_def)

interpretation v3ix: pool_indexer "v3_build protocolID" v3ID v3Token0 v3Token1 "\<lambda>p. idsPool (p3IDs p)" p3Address for protocolID
  by unfold_locales (simp_all add: v3_build_def)

text \<open>
  What an index promises: by identifier it returns exactly the pools of the view with the addresses of the foundation, and by
  address the same pools.
\<close>

definition index_shows ::
  "('v \<Rightarrow> address \<Rightarrow> address \<Rightarrow> address \<Rightarrow> 'p) \<Rightarrow> ('v \<Rightarrow> uint64) \<Rightarrow> ('v \<Rightarrow> uint64) \<Rightarrow> ('v \<Rightarrow> uint64) \<Rightarrow> ('p \<Rightarrow> uint64) \<Rightarrow> ('p \<Rightarrow> address) \<Rightarrow>
   TokenView list \<Rightarrow> PoolRegistryView \<Rightarrow> 'v list \<Rightarrow> 'p IndexablePools \<Rightarrow> bool" where
  "index_shows build vid tok0 tok1 pid paddr ts view vs s \<longleftrightarrow>
     (\<forall>k p. ip_GetByID s k = Some p \<longleftrightarrow>
        (\<exists>v \<in> set vs. vid v = k \<and> (\<exists>a x y. p = build v a x y \<and> pool_at view k a \<and> token_at ts (tok0 v) x \<and> token_at ts (tok1 v) y))) \<and>
     (\<forall>b p. ip_GetByAddress s b = Some p \<longleftrightarrow> ip_GetByID s (pid p) = Some p \<and> paddr p = b)"

definition all_known :: "('v \<Rightarrow> uint64) \<Rightarrow> ('v \<Rightarrow> uint64) \<Rightarrow> ('v \<Rightarrow> uint64) \<Rightarrow> TokenView list \<Rightarrow> PoolRegistryView \<Rightarrow> 'v list \<Rightarrow> bool" where
  "all_known vid tok0 tok1 ts view vs \<longleftrightarrow>
     (\<forall>v \<in> set vs. (\<exists>a. pool_at view (vid v) a) \<and> (\<exists>x. token_at ts (tok0 v) x) \<and> (\<exists>y. token_at ts (tok1 v) y))"

lemma all_known_lookups:
  "foundation_ok ts view \<Longrightarrow> all_known vid tok0 tok1 ts view vs \<longleftrightarrow>
     (\<forall>v \<in> set vs. \<exists>r. pool_lookups (NewIndexableTokenSystem ts) (NewIndexablePoolRegistry view) (vid v) (tok0 v) (tok1 v) = Inr r)"
  by (simp add: all_known_def split_paired_Ex lookups_foundation)

section \<open>Buckets\<close>

text \<open>
  What an engine state offers the client: \<open>raw\<close> holds the token list \<open>ts\<close>, the registry \<open>view\<close> and the graph \<open>g\<close> under the schemas of the three, and
  the pools of the three protocols that the client knows, which are empty where the state does not have the protocol.
\<close>

definition entry_offers ::
  "TokenView list \<Rightarrow> PoolRegistryView \<Rightarrow> TokenPoolsRegistryView \<Rightarrow> V2PoolView list \<Rightarrow> V3PoolView list \<Rightarrow> V3PoolView list \<Rightarrow> EngineProtocolID \<times> ProtocolState \<Rightarrow> bool" where
  "entry_offers ts view g vs2 vs3 vsp e \<longleftrightarrow> (case e of (k, ps) \<Rightarrow>
     (stSchema ps = TokenProtocolSchema \<longrightarrow> stData ps = TokenData ts) \<and> (stSchema ps = PoolProtocolSchema \<longrightarrow> stData ps = PoolData view) \<and>
     (stSchema ps = TokenPoolProtocolSchema \<longrightarrow> stData ps = GraphData (Some g)) \<and>
     (stSchema ps = UniswapV2ProtocolSchema \<longrightarrow> k = UniswapV2ProtocolID \<longrightarrow> stData ps = V2Data vs2) \<and>
     (stSchema ps = UniswapV3ProtocolSchema \<longrightarrow> (k = UniswapV3ProtocolID \<longrightarrow> stData ps = V3Data vs3) \<and> (k = PancakeswapV3ProtocolID \<longrightarrow> stData ps = V3Data vsp)))"

definition offers :: "EngineState \<Rightarrow> TokenView list \<Rightarrow> PoolRegistryView \<Rightarrow> TokenPoolsRegistryView \<Rightarrow> V2PoolView list \<Rightarrow> V3PoolView list \<Rightarrow> V3PoolView list \<Rightarrow> bool" where
  "offers raw ts view g vs2 vs3 vsp \<longleftrightarrow> (let es = set (esProtocols raw) in
     (\<forall>e \<in> es. entry_offers ts view g vs2 vs3 vsp e) \<and>
     (\<exists>e \<in> es. stSchema (snd e) = TokenProtocolSchema) \<and> (\<exists>e \<in> es. stSchema (snd e) = PoolProtocolSchema) \<and> (\<exists>e \<in> es. stSchema (snd e) = TokenPoolProtocolSchema) \<and>
     (vs2 \<noteq> [] \<longrightarrow> (\<exists>e \<in> es. stSchema (snd e) = UniswapV2ProtocolSchema \<and> fst e = UniswapV2ProtocolID)) \<and>
     (vs3 \<noteq> [] \<longrightarrow> (\<exists>e \<in> es. stSchema (snd e) = UniswapV3ProtocolSchema \<and> fst e = UniswapV3ProtocolID)) \<and>
     (vsp \<noteq> [] \<longrightarrow> (\<exists>e \<in> es. stSchema (snd e) = UniswapV3ProtocolSchema \<and> fst e = PancakeswapV3ProtocolID)))"

lemma protocol_ids_distinct: "UniswapV3ProtocolID \<noteq> PancakeswapV3ProtocolID"
  by (simp add: UniswapV3ProtocolID_def PancakeswapV3ProtocolID_def)

text \<open>The buckets after the entries \<open>es\<close> have been read into \<open>b\<close>.\<close>

definition buckets_with ::
  "TokenView list \<Rightarrow> PoolRegistryView \<Rightarrow> TokenPoolsRegistryView \<Rightarrow> V2PoolView list \<Rightarrow> V3PoolView list \<Rightarrow> V3PoolView list \<Rightarrow>
   (EngineProtocolID \<times> ProtocolState) list \<Rightarrow> dataBuckets \<Rightarrow> dataBuckets" where
  "buckets_with ts view g vs2 vs3 vsp es b =
    \<lparr>bkTokens = if \<exists>e \<in> set es. stSchema (snd e) = TokenProtocolSchema then Some ts else bkTokens b,
     bkPools = if \<exists>e \<in> set es. stSchema (snd e) = PoolProtocolSchema then Some view else bkPools b,
     bkGraph = if \<exists>e \<in> set es. stSchema (snd e) = TokenPoolProtocolSchema then Some g else bkGraph b,
     bkUniswapV2 = if \<exists>e \<in> set es. stSchema (snd e) = UniswapV2ProtocolSchema \<and> fst e = UniswapV2ProtocolID then vs2 else bkUniswapV2 b,
     bkUniswapV3 = if \<exists>e \<in> set es. stSchema (snd e) = UniswapV3ProtocolSchema \<and> fst e = UniswapV3ProtocolID then vs3 else bkUniswapV3 b,
     bkPancakeswapV3 = if \<exists>e \<in> set es. stSchema (snd e) = UniswapV3ProtocolSchema \<and> fst e = PancakeswapV3ProtocolID then vsp else bkPancakeswapV3 b\<rparr>"

lemma if_ex_Cons: "(if \<exists>x \<in> set xs. P x then u else if \<exists>x \<in> set [a]. P x then u else v) = (if \<exists>x \<in> set (a # xs). P x then u else v)"
  by auto

lemma buckets_with_Cons:
  "buckets_with ts view g vs2 vs3 vsp es (buckets_with ts view g vs2 vs3 vsp [e] b) = buckets_with ts view g vs2 vs3 vsp (e # es) b"
  unfolding buckets_with_def dataBuckets.simps if_ex_Cons ..

lemma bucket_step_offers:
  assumes off: "entry_offers ts view g vs2 vs3 vsp (k, ps)" and "\<not> isNil ts"
  shows "bucket_step isNil k ps b = Inr (buckets_with ts view g vs2 vs3 vsp [(k, ps)] b)"
proof -
  consider "stSchema ps = TokenProtocolSchema" | "stSchema ps = PoolProtocolSchema" | "stSchema ps = TokenPoolProtocolSchema" |
    "stSchema ps = UniswapV2ProtocolSchema" | "stSchema ps = UniswapV3ProtocolSchema" |
    "stSchema ps \<notin> {TokenProtocolSchema, PoolProtocolSchema, TokenPoolProtocolSchema, UniswapV2ProtocolSchema, UniswapV3ProtocolSchema}" by blast
  then show ?thesis
    using off assms(2) protocol_ids_distinct
    by cases (auto simp: bucket_step_def entry_offers_def buckets_with_def schemas_distinct)
qed

lemma bucket_loop_offers:
  assumes "\<forall>e \<in> set es. entry_offers ts view g vs2 vs3 vsp e" and "\<not> isNil ts"
  shows "bucket_loop isNil es b = Inr (buckets_with ts view g vs2 vs3 vsp es b)"
  using assms(1)
proof (induction es arbitrary: b)
  case (Cons e es)
  obtain k ps where e: "e = (k, ps)" by (cases e)
  have "bucket_step isNil k ps b = Inr (buckets_with ts view g vs2 vs3 vsp [(k, ps)] b)"
    using Cons.prems e assms(2) by (intro bucket_step_offers) simp_all
  then show ?case using Cons by (simp add: e buckets_with_Cons)
qed (simp add: buckets_with_def)

lemma extractBuckets_offers:
  assumes "range_order ord" and "offers raw ts view g vs2 vs3 vsp" and "\<not> isNil ts"
  shows "extractBuckets isNil ord raw = Inr \<lparr>bkTokens = Some ts, bkPools = Some view, bkGraph = Some g, bkUniswapV2 = vs2, bkUniswapV3 = vs3, bkPancakeswapV3 = vsp\<rparr>"
proof -
  have es: "set (ord (esProtocols raw)) = set (esProtocols raw)" using assms(1) by (simp add: range_order_set)
  have "\<forall>e \<in> set (ord (esProtocols raw)). entry_offers ts view g vs2 vs3 vsp e" using assms(2) by (simp add: offers_def Let_def es)
  from bucket_loop_offers [where isNil = isNil, OF this assms(3)] show ?thesis
    using assms(2) by (auto simp: extractBuckets_def es no_buckets_def offers_def Let_def buckets_with_def)
qed

section \<open>The indexed state\<close>

lemma index_v2:
  assumes "foundation_ok ts view" and "distinct (map v2ID vs)"
  shows "case NewIndexableUniswapV2System protocolID vs (NewIndexableTokenSystem ts) (NewIndexablePoolRegistry view) of
      Inl err \<Rightarrow> \<not> all_known v2ID v2Token0 v2Token1 ts view vs
    | Inr s \<Rightarrow> all_known v2ID v2Token0 v2Token1 ts view vs \<and>
        index_shows (v2_build protocolID) v2ID v2Token0 v2Token1 (\<lambda>p. idsPool (p2IDs p)) p2Address ts view vs s"
  using v2ix.loop_succeeds [of protocolID "NewIndexableTokenSystem ts" "NewIndexablePoolRegistry view" vs no_pools] v2ix.index_exact [OF assms, of protocolID]
  by (auto simp: NewIndexableUniswapV2System_def all_known_lookups [OF assms(1)] index_shows_def split: sum.split)

lemma index_v3:
  assumes "foundation_ok ts view" and "distinct (map v3ID vs)"
  shows "case NewIndexableUniswapV3System protocolID vs (NewIndexableTokenSystem ts) (NewIndexablePoolRegistry view) of
      Inl err \<Rightarrow> \<not> all_known v3ID v3Token0 v3Token1 ts view vs
    | Inr s \<Rightarrow> all_known v3ID v3Token0 v3Token1 ts view vs \<and>
        index_shows (v3_build protocolID) v3ID v3Token0 v3Token1 (\<lambda>p. idsPool (p3IDs p)) p3Address ts view vs s"
  using v3ix.loop_succeeds [of protocolID "NewIndexableTokenSystem ts" "NewIndexablePoolRegistry view" vs no_pools] v3ix.index_exact [OF assms, of protocolID]
  by (auto simp: NewIndexableUniswapV3System_def all_known_lookups [OF assms(1)] index_shows_def split: sum.split)

lemma resolver_spec:
  assumes "foundation_ok ts view"
  shows "ResolveSchemaFromPoolID (NewProtocolResolver schemas (NewIndexablePoolRegistry view)) k = Some s \<longleftrightarrow>
    (\<exists>pr \<in> set (prvPools view). pvID pr = k \<and> (\<exists>i. map_of (prvProtocols view) (pvProtocol pr) = Some i \<and> schemas i = Some s))"
proof -
  have p: "ir_GetProtocols (NewIndexablePoolRegistry view) = map_of (prvProtocols view)"
    by (simp add: ir_GetProtocols_def NewIndexablePoolRegistry_def)
  have g: "ir_GetByID (NewIndexablePoolRegistry view) k = Some pr \<longleftrightarrow> pr \<in> set (prvPools view) \<and> pvID pr = k" for pr
    using assms by (simp add: foundation_ok_def ir_GetByID_iff)
  show ?thesis
  proof (cases "ir_GetByID (NewIndexablePoolRegistry view) k")
    case None
    then show ?thesis using g by (auto simp: ResolveSchemaFromPoolID_def NewProtocolResolver_def)
  next
    case (Some pr)
    have u: "q \<in> set (prvPools view) \<and> pvID q = k \<longleftrightarrow> q = pr" for q using Some g [of q] by auto
    have "ResolveSchemaFromPoolID (NewProtocolResolver schemas (NewIndexablePoolRegistry view)) k = Some s \<longleftrightarrow>
        (\<exists>i. map_of (prvProtocols view) (pvProtocol pr) = Some i \<and> schemas i = Some s)"
      using Some by (auto simp: ResolveSchemaFromPoolID_def NewProtocolResolver_def p split: option.splits)
    then show ?thesis by (simp add: Bex_def conj_assoc [symmetric] u)
  qed
qed

text \<open>
  The token and the pool registry indexers answer from the lists they were built from: tokens by identifier and by address
  (the last one of the list, should two share the address), pools by identifier, key and address.
\<close>

definition foundation_shows :: "TokenView list \<Rightarrow> PoolRegistryView \<Rightarrow> IndexableTokenSystem \<Rightarrow> IndexablePoolRegistry \<Rightarrow> bool" where
  "foundation_shows ts view T R \<longleftrightarrow>
     it_All T = ts \<and> (\<forall>k t. it_GetByID T k = Some t \<longleftrightarrow> t \<in> set ts \<and> tvID t = k) \<and>
     (\<forall>a. it_GetByAddress T a = find (\<lambda>t. tvAddress t = a) (rev ts)) \<and>
     ir_All R = prvPools view \<and> (\<forall>k p. ir_GetByID R k = Some p \<longleftrightarrow> p \<in> set (prvPools view) \<and> pvID p = k) \<and>
     (\<forall>key p. ir_GetByPoolKey R key = Some p \<longleftrightarrow> p \<in> set (prvPools view) \<and> pvKey p = key) \<and>
     (\<forall>a p. ir_GetByAddress R a = Some p \<longleftrightarrow> p \<in> set (prvPools view) \<and> pvKey p = AddressToPoolKey a) \<and>
     ir_GetProtocols R = map_of (prvProtocols view)"

lemma foundation_shows_new:
  assumes "foundation_ok ts view"
  shows "foundation_shows ts view (NewIndexableTokenSystem ts) (NewIndexablePoolRegistry view)"
proof -
  have "ir_GetByAddress R a = ir_GetByPoolKey R (AddressToPoolKey a)" for R a by (simp add: ir_GetByAddress_def ir_GetByPoolKey_def)
  then show ?thesis using assms
    by (simp add: foundation_shows_def foundation_ok_def it_GetByID_iff it_GetByAddress_find ir_GetByID_iff ir_GetByPoolKey_iff indexer_all)
      (simp add: ir_GetProtocols_def NewIndexablePoolRegistry_def)
qed

text \<open>
  C28: The indexed state of the client. From an engine state that has the token list, the pool registry (both without repeated
  identifiers or keys) and the graph, the client
  builds an indexed state exactly if every pool of the protocols it knows is in the pool registry under an address and has both
  its tokens in the token list; then it stores the state and calls its handler, if there is one, once with it. Otherwise processing reports an
  indexing error and leaves the client as it was. The indexed state has the block and the graph of the engine state, looks up
  tokens by identifier and address and registry entries by identifier, key and address in the lists of the state, each of
  its pool indexes returns by identifier exactly the pools of the view with the addresses that registry and
  token list give them, and by address the same pools, and the resolver finds for a pool exactly the schema of the protocol
  that the registry names for it, whatever order the map of protocols is read in.
\<close>

theorem client_index_exact:
  assumes "range_order ord" and "\<not> isNil ts" and "offers raw ts view g vs2 vs3 vsp" and f: "foundation_ok ts view"
    and d: "distinct (map v2ID vs2)" "distinct (map v3ID vs3)" "distinct (map v3ID vsp)"
  shows "if all_known v2ID v2Token0 v2Token1 ts view vs2 \<and> all_known v3ID v3Token0 v3Token1 ts view vs3 \<and> all_known v3ID v3Token0 v3Token1 ts view vsp
    then \<exists>st. processState isNil ord first now raw = Inr st \<and> csBlock st = esBlock raw \<and> csGraph st = Some g \<and>
      cc_event p (Receive isNil ord first now raw) = p\<lparr>ccLatestState := Some st, ccCalls := ccCalls p @ map (\<lambda>h. (h, st)) (case_option [] (\<lambda>h. [h]) (ccOnNewBlock p))\<rparr> \<and>
      foundation_shows ts view (csTokens st) (csPools st) \<and>
      index_shows (v2_build UniswapV2ProtocolID) v2ID v2Token0 v2Token1 (\<lambda>p. idsPool (p2IDs p)) p2Address ts view vs2 (csUniswapV2 st) \<and>
      index_shows (v3_build UniswapV3ProtocolID) v3ID v3Token0 v3Token1 (\<lambda>p. idsPool (p3IDs p)) p3Address ts view vs3 (csUniswapV3 st) \<and>
      index_shows (v3_build PancakeswapV3ProtocolID) v3ID v3Token0 v3Token1 (\<lambda>p. idsPool (p3IDs p)) p3Address ts view vsp (csPancakeswapV3 st) \<and>
      (\<forall>k s. ResolveSchemaFromPoolID (csProtocolResolver st) k = Some s \<longleftrightarrow>
        (\<exists>pr \<in> set (prvPools view). pvID pr = k \<and>
          (\<exists>i ps. map_of (prvProtocols view) (pvProtocol pr) = Some i \<and> map_of (esProtocols raw) i = Some ps \<and> stSchema ps = s)))
    else (\<exists>e. processState isNil ord first now raw = Inl (ErrParallelIndexing e)) \<and> cc_event p (Receive isNil ord first now raw) = p"
proof -
  let ?T = "NewIndexableTokenSystem ts" and ?R = "NewIndexablePoolRegistry view"
  have b: "extractBuckets isNil ord raw = Inr \<lparr>bkTokens = Some ts, bkPools = Some view, bkGraph = Some g, bkUniswapV2 = vs2, bkUniswapV3 = vs3, bkPancakeswapV3 = vsp\<rparr>"
    using assms(1,3,2) by (rule extractBuckets_offers)
  note i2 = index_v2 [OF f d(1), of UniswapV2ProtocolID] and i3 = index_v3 [OF f d(2), of UniswapV3ProtocolID]
    and ip = index_v3 [OF f d(3), of PancakeswapV3ProtocolID]
  have r: "ResolveSchemaFromPoolID (NewProtocolResolver (\<lambda>k. map_option stSchema (map_of (esProtocols raw) k)) ?R) k = Some s \<longleftrightarrow>
      (\<exists>pr \<in> set (prvPools view). pvID pr = k \<and>
        (\<exists>i ps. map_of (prvProtocols view) (pvProtocol pr) = Some i \<and> map_of (esProtocols raw) i = Some ps \<and> stSchema ps = s))" for k s
    by (simp add: resolver_spec [OF f])
  have c: "cc_receive (Inr st) p = p\<lparr>ccLatestState := Some st, ccCalls := ccCalls p @ map (\<lambda>h. (h, st)) (case_option [] (\<lambda>h. [h]) (ccOnNewBlock p))\<rparr>" for st
    by (simp add: cc_receive_def split: option.split)
  have e: "cc_receive (Inl err) p = p" for err by (simp add: cc_receive_def)
  show ?thesis
    using i2 i3 ip foundation_shows_new [OF f]
    by (cases "NewIndexableUniswapV2System UniswapV2ProtocolID vs2 ?T ?R"; cases "NewIndexableUniswapV3System UniswapV3ProtocolID vs3 ?T ?R";
        cases "NewIndexableUniswapV3System PancakeswapV3ProtocolID vsp ?T ?R")
      (simp_all add: processState_def b Let_def r c e)
qed

text \<open>A state with two tokens and one Uniswap V2 pool between them.\<close>

definition wit_tok :: "uint64 \<Rightarrow> TokenView" where
  "wit_tok k = \<lparr>tvID = k, tvAddress = replicate 20 (ucast k), tvName = ''t'', tvSymbol = ''T'', tvDecimals = 18, tvFeeOnTransferPercent = 0, tvGasForTransfer = 0\<rparr>"

definition wit_view :: PoolRegistryView where
  "wit_view = \<lparr>prvPools = [\<lparr>pvID = 7, pvKey = replicate 12 0 @ replicate 20 5, pvProtocol = 3\<rparr>], prvProtocols = [(3, UniswapV2ProtocolID)]\<rparr>"

definition wit_graph :: TokenPoolsRegistryView where
  "wit_graph = \<lparr>gvTokens = [], gvPools = [], gvAdjacency = [], gvEdgeTargets = [], gvEdgePools = []\<rparr>"

definition wit_proto :: "ProtocolSchema \<Rightarrow> protocol_data \<Rightarrow> ProtocolState" where
  "wit_proto sch d = \<lparr>stMeta = \<lparr>pmName = '''', pmTags = []\<rparr>, stSyncedBlockNumber = None, stSchema = sch, stData = d, stError = ''''\<rparr>"

definition wit_raw :: EngineState where
  "wit_raw = \<lparr>esChainID = 1, esTimestamp = 0, esBlock = wit_block 100, esProtocols =
     [(''tokens'', wit_proto TokenProtocolSchema (TokenData [wit_tok 1, wit_tok 2])), (''pools'', wit_proto PoolProtocolSchema (PoolData wit_view)),
      (''graph'', wit_proto TokenPoolProtocolSchema (GraphData (Some wit_graph))), (UniswapV2ProtocolID, wit_proto UniswapV2ProtocolSchema (V2Data [wit_pool 7 10]))]\<rparr>"

lemma wit_offers: "offers wit_raw [wit_tok 1, wit_tok 2] wit_view wit_graph [wit_pool 7 10] [] []"
  by (simp add: offers_def entry_offers_def wit_raw_def wit_proto_def schemas_distinct)

lemma wit_foundation: "foundation_ok [wit_tok 1, wit_tok 2] wit_view"
  by (simp add: foundation_ok_def wit_tok_def wit_view_def is_key_def)

lemma wit_at:
  "token_at [wit_tok 1, wit_tok 2] 1 (replicate 20 1)" "token_at [wit_tok 1, wit_tok 2] 2 (replicate 20 2)" "pool_at wit_view 7 (replicate 20 5)"
  by (simp_all add: token_at_def pool_at_def wit_tok_def wit_view_def PoolKey_ToAddress_def)

theorem client_index_exact_witness:
  "\<exists>st. processState (\<lambda>_. False) rev hd 5 wit_raw = Inr st \<and>
     ip_GetByAddress (csUniswapV2 st) (replicate 20 5) = Some (v2_build UniswapV2ProtocolID (wit_pool 7 10) (replicate 20 5) (replicate 20 1) (replicate 20 2))"
proof -
  have k: "all_known v2ID v2Token0 v2Token1 [wit_tok 1, wit_tok 2] wit_view [wit_pool 7 10]"
    using wit_at by (auto simp: all_known_def wit_pool_def)
  obtain st where st: "processState (\<lambda>_. False) rev hd 5 wit_raw = Inr st"
    "index_shows (v2_build UniswapV2ProtocolID) v2ID v2Token0 v2Token1 (\<lambda>p. idsPool (p2IDs p)) p2Address [wit_tok 1, wit_tok 2] wit_view [wit_pool 7 10] (csUniswapV2 st)"
    using client_index_exact [OF range_order_rev _ wit_offers wit_foundation, where isNil = "\<lambda>_. False" and first = hd and now = 5 and p = NewChainClient] k
    by (auto simp: all_known_def)
  let ?p = "v2_build UniswapV2ProtocolID (wit_pool 7 10) (replicate 20 5) (replicate 20 1) (replicate 20 2)"
  have "ip_GetByID (csUniswapV2 st) 7 = Some ?p"
    using st(2) wit_at unfolding index_shows_def by (auto simp: wit_pool_def)
  then have "ip_GetByAddress (csUniswapV2 st) (replicate 20 5) = Some ?p"
    using st(2) unfolding index_shows_def by (simp add: v2_build_def wit_pool_def)
  then show ?thesis using st(1) by blast
qed

text \<open>
  \<^verbatim>\<open>All\<close> of the Uniswap V2 index has one element whatever the index holds: further pools are cut off, and an empty index gives the
  zero pool. The one of Uniswap V3 has them all.
\<close>

lemma v2i_All_truncates: "length (v2i_All s) = 1" "v3i_All t = map Some (ipPools t)" "length (ipPools s) \<noteq> 1 \<Longrightarrow> v2i_All s \<noteq> map Some (ipPools s)"
proof -
  show l: "length (v2i_All s) = 1" by (simp add: v2i_All_def copy_into_def)
  show "v3i_All t = map Some (ipPools t)" by (simp add: v3i_All_def copy_into_def)
  show "length (ipPools s) \<noteq> 1 \<Longrightarrow> v2i_All s \<noteq> map Some (ipPools s)" using l by (metis length_map)
qed

text \<open>
  An execution of the client: it shows the state processed last, and the one handler it accepts is called for the states
  processed since it was registered, each once and in order.
\<close>

fun processed_states :: "'h client_event list \<Rightarrow> ClientState list" where
  "processed_states [] = []"
| "processed_states (Register h # es) = processed_states es"
| "processed_states (Receive isNil ord first now raw # es) =
     (case processState isNil ord first now raw of Inl err \<Rightarrow> processed_states es | Inr st \<Rightarrow> st # processed_states es)"

lemma processed_append: "processed_states (xs @ ys) = processed_states xs @ processed_states ys"
  by (induction xs rule: processed_states.induct) (auto split: sum.split)

lemma client_run:
  defines "run \<equiv> foldl cc_event NewChainClient"
  shows "cc_State (run es) = (if processed_states es = [] then None else Some (last (processed_states es)))"
    and "\<exists>n. case ccOnNewBlock (run es) of None \<Rightarrow> ccCalls (run es) = [] \<and> \<not> ccIsRegistered (run es)
      | Some h \<Rightarrow> n \<le> length (processed_states es) \<and> ccIsRegistered (run es) \<and> ccCalls (run es) = map (Pair h) (drop n (processed_states es))"
proof (induction es rule: rev_induct)
  case Nil
  show "cc_State (run []) = (if processed_states ([] :: 'a client_event list) = [] then None else Some (last (processed_states ([] :: 'a client_event list))))"
    by (simp add: run_def NewChainClient_def cc_State_def)
  show "\<exists>n. case ccOnNewBlock (run []) of None \<Rightarrow> ccCalls (run []) = [] \<and> \<not> ccIsRegistered (run [])
      | Some h \<Rightarrow> n \<le> length (processed_states ([] :: 'a client_event list)) \<and> ccIsRegistered (run []) \<and> ccCalls (run []) = map (Pair h) (drop n (processed_states ([] :: 'a client_event list)))"
    by (simp add: run_def NewChainClient_def)
next
  case (snoc e es)
  have r: "run (es @ [x]) = cc_event (run es) x" for x by (simp add: run_def)
  show "cc_State (run (es @ [e])) = (if processed_states (es @ [e]) = [] then None else Some (last (processed_states (es @ [e]))))"
    using snoc(1) by (cases e) (auto simp: r processed_append cc_OnNewBlock_def cc_receive_def cc_State_def split: sum.split)
  obtain n where n: "case ccOnNewBlock (run es) of None \<Rightarrow> ccCalls (run es) = [] \<and> \<not> ccIsRegistered (run es)
      | Some h \<Rightarrow> n \<le> length (processed_states es) \<and> ccIsRegistered (run es) \<and> ccCalls (run es) = map (Pair h) (drop n (processed_states es))"
    using snoc(2) by blast
  show "\<exists>n. case ccOnNewBlock (run (es @ [e])) of None \<Rightarrow> ccCalls (run (es @ [e])) = [] \<and> \<not> ccIsRegistered (run (es @ [e]))
      | Some h \<Rightarrow> n \<le> length (processed_states (es @ [e])) \<and> ccIsRegistered (run (es @ [e])) \<and> ccCalls (run (es @ [e])) = map (Pair h) (drop n (processed_states (es @ [e])))"
  proof (cases "ccOnNewBlock (run es)")
    case None
    then show ?thesis using n
      by (cases e) (auto simp: r processed_append cc_OnNewBlock_def cc_receive_def split: sum.split intro: exI [of _ "length (processed_states es)"])
  next
    case (Some h)
    then show ?thesis using n
      by (cases e) (auto simp: r processed_append cc_OnNewBlock_def cc_receive_def split: sum.split intro!: exI [of _ n])
  qed
qed

end
