(* ===== verification/Swap_Router.thy ===== *)
theory Swap_Router
  imports Client_Index Token_Pools_System UniswapV2_Math UniswapV3_Swap
begin

text \<open>
  The router of \<^verbatim>\<open>src/examples/celo-flow/server/app/router\<close>, which finds swap paths on the indexed state of a client: the bit sets, the router
  with its quote functions and their overrides, the quote of a path, and the search for the best path by relaxation. The layered
  search is in \<^verbatim>\<open>Router_TopK\<close> and the exchange rates are in \<^verbatim>\<open>Router_Rates\<close>. A quote is
  \<open>None\<close> where the code panics or does not return. \<^verbatim>\<open>big.Int\<close> objects that come from a pool are reset before use and
  returned after it, and are plain integers here. Indices that a view holds are in range (\<open>view_ok\<close>); the code panics on others.
\<close>

unbundle bit_operations_syntax

section \<open>Bit sets\<close>

type_synonym BitSet = "64 word list"

definition NewBitSet :: "nat \<Rightarrow> BitSet" where
  "NewBitSet len = replicate ((len + 63) div 64) 0"

definition bs_IsSet :: "BitSet \<Rightarrow> nat \<Rightarrow> bool" where
  "bs_IsSet b index = (let mask = push_bit (index mod 64) 1 in b ! (index div 64) AND mask \<noteq> 0)"

definition bs_Set :: "nat \<Rightarrow> BitSet \<Rightarrow> BitSet" where
  "bs_Set index b = (let mask = push_bit (index mod 64) 1 in b[index div 64 := b ! (index div 64) OR mask])"

definition bs_Unset :: "nat \<Rightarrow> BitSet \<Rightarrow> BitSet" where
  "bs_Unset index b = (let mask = push_bit (index mod 64) 1 in b[index div 64 := b ! (index div 64) AND NOT mask])"

definition bs_Clear :: "BitSet \<Rightarrow> BitSet" where
  "bs_Clear b = map (\<lambda>_. 0) b"

text \<open>\<^verbatim>\<open>SetFrom\<close> panics on sets of different size.\<close>

definition bs_SetFrom :: "BitSet \<Rightarrow> BitSet \<Rightarrow> BitSet option" where
  "bs_SetFrom other b = (if length b \<noteq> length other then None else Some other)"

section \<open>The router\<close>

datatype quote_error = QuoteErrV2 v2_math_error | QuoteErrV3 v3_math_error

type_synonym GetAmountOutFunc = "int \<Rightarrow> uint64 \<Rightarrow> uint64 \<Rightarrow> (quote_error + int) option"

type_synonym GetReservesFunc = "uint64 \<Rightarrow> uint64 \<Rightarrow> (quote_error + int \<times> int) option"

record TokenPoolPath =
  tpTokenInID :: uint64
  tpTokenOutID :: uint64
  tpPoolID :: uint64

text \<open>The parts of the client's state that the router and the platform read.\<close>

record CeloState =
  ceTokens :: IndexableTokenSystem
  cePools :: IndexablePoolRegistry
  ceUniswapV2 :: "V2Pool IndexablePools"
  ceUniswapV3 :: "V3Pool IndexablePools"
  ceAerodromeV3 :: "V3Pool IndexablePools"
  ceResolver :: ProtocolResolver
  ceGraph :: TokenPoolsRegistryView

record Router =
  rtGraph :: TokenPoolsRegistryView
  rtTokenToIndex :: "uint64 \<rightharpoonup> nat"
  rtPoolToIndex :: "uint64 \<rightharpoonup> nat"
  rtAmountOut :: "GetAmountOutFunc option list"
  rtReserves :: "GetReservesFunc option list"

definition v2_pool_view :: "V2Pool \<Rightarrow> V2PoolView" where
  "v2_pool_view pool = \<lparr>v2ID = idsPool (p2IDs pool), v2Token0 = idsToken0 (p2IDs pool), v2Token1 = idsToken1 (p2IDs pool),
     v2Reserve0 = p2Reserve0 pool, v2Reserve1 = p2Reserve1 pool, v2Type = 0, v2FeeBps = p2FeeBps pool\<rparr>"

definition v3_pool_view :: "V3Pool \<Rightarrow> V3PoolView" where
  "v3_pool_view pool = \<lparr>v3ID = idsPool (p3IDs pool), v3Token0 = idsToken0 (p3IDs pool), v3Token1 = idsToken1 (p3IDs pool),
     v3Fee = p3Fee pool, v3TickSpacing = p3TickSpacing pool, v3Tick = p3Tick pool, v3Liquidity = p3Liquidity pool,
     v3SqrtPriceX96 = p3SqrtPriceX96 pool, v3Ticks = p3Ticks pool\<rparr>"

definition v2_quote :: "V2PoolView \<Rightarrow> GetAmountOutFunc" where
  "v2_quote p amountIn tokenInID tokenOutID =
     (case v2_getAmountOut (Some amountIn) tokenInID tokenOutID p of Inl err \<Rightarrow> Some (Inl (QuoteErrV2 err)) | Inr out \<Rightarrow> Some (Inr out))"

definition v2_reserves :: "V2PoolView \<Rightarrow> GetReservesFunc" where
  "v2_reserves p tokenInID tokenOutID =
     (case v2_GetReserves tokenInID tokenOutID p of Inl err \<Rightarrow> Some (Inl (QuoteErrV2 err)) | Inr rs \<Rightarrow> Some (Inr rs))"

text \<open>The zero value of a Uniswap V2 pool has nil reserves: a quote between its tokens, both 0, panics.\<close>

definition zero_v2_quote :: GetAmountOutFunc where
  "zero_v2_quote amountIn tokenInID tokenOutID =
     (if amountIn < 0 then Some (Inl (QuoteErrV2 V2ErrInvalidAmount))
      else if tokenInID = 0 \<and> tokenOutID = 0 then None
      else Some (Inl (QuoteErrV2 (V2ErrTokenMismatch 0 tokenInID tokenOutID))))"

definition zero_v2_reserves :: GetReservesFunc where
  "zero_v2_reserves tokenInID tokenOutID =
     (if tokenInID = 0 \<and> tokenOutID = 0 then None else Some (Inl (QuoteErrV2 (V2ErrTokenMismatch 0 tokenInID tokenOutID))))"

definition v3_quote :: "'u uint256 \<Rightarrow> V3PoolView \<Rightarrow> GetAmountOutFunc" where
  "v3_quote U p amountIn tokenInID tokenOutID =
     (case v3_GetAmountOut U (Some amountIn) None tokenInID p of
        None \<Rightarrow> None
      | Some (Inl V3Panic) \<Rightarrow> None
      | Some (Inl err) \<Rightarrow> Some (Inl (QuoteErrV3 err))
      | Some (Inr out) \<Rightarrow> Some (Inr out))"

definition v3_reserves :: "'u uint256 \<Rightarrow> V3PoolView \<Rightarrow> GetReservesFunc" where
  "v3_reserves U p tokenInID tokenOutID =
     (case v3_quote U p (2 ^ 256 - 1) tokenInID tokenOutID of
        None \<Rightarrow> None
      | Some (Inl err) \<Rightarrow> Some (Inl err)
      | Some (Inr reserveTokenOut) \<Rightarrow>
          (case v3_quote U p (2 ^ 256 - 1) tokenOutID tokenInID of
             None \<Rightarrow> None
           | Some (Inl err) \<Rightarrow> Some (Inl err)
           | Some (Inr reserveTokenIn) \<Rightarrow> Some (Inr (reserveTokenIn, reserveTokenOut))))"

definition float_positive :: "float64 \<Rightarrow> bool" where
  "float_positive f \<longleftrightarrow> \<not> float_is_nan f \<and> \<not> float_is_zero f \<and> \<not> bit f 63"

definition fee_on_transfer :: "IndexableTokenSystem \<Rightarrow> uint64 \<Rightarrow> bool" where
  "fee_on_transfer tokens i = (case it_GetByID tokens i of None \<Rightarrow> False | Some t \<Rightarrow> float_positive (tvFeeOnTransferPercent t))"

text \<open>
  One pool: an identifier that the graph does not have is read as index 0. The write panics if there is no pool.
\<close>

definition install :: "IndexableTokenSystem \<Rightarrow> pool_ids \<Rightarrow> GetAmountOutFunc \<Rightarrow> GetReservesFunc \<Rightarrow> Router \<Rightarrow> Router option" where
  "install tokens ids quote reserves r =
     (let poolIndex = map_read (rtPoolToIndex r) (idsPool ids) in
      if fee_on_transfer tokens (idsToken0 ids) \<or> fee_on_transfer tokens (idsToken1 ids) then Some r
      else if poolIndex < length (rtAmountOut r)
      then Some (r\<lparr>rtAmountOut := (rtAmountOut r)[poolIndex := Some quote], rtReserves := (rtReserves r)[poolIndex := Some reserves]\<rparr>)
      else None)"

definition zero_ids :: pool_ids where
  "zero_ids = \<lparr>idsPool = 0, idsToken0 = 0, idsToken1 = 0\<rparr>"

fun install_v2 :: "IndexableTokenSystem \<Rightarrow> V2Pool option list \<Rightarrow> Router \<Rightarrow> Router option" where
  "install_v2 tokens [] r = Some r"
| "install_v2 tokens (None # ps) r =
     (case install tokens zero_ids zero_v2_quote zero_v2_reserves r of None \<Rightarrow> None | Some r' \<Rightarrow> install_v2 tokens ps r')"
| "install_v2 tokens (Some pool # ps) r =
     (case install tokens (p2IDs pool) (v2_quote (v2_pool_view pool)) (v2_reserves (v2_pool_view pool)) r of None \<Rightarrow> None | Some r' \<Rightarrow> install_v2 tokens ps r')"

fun install_v3 :: "'u uint256 \<Rightarrow> IndexableTokenSystem \<Rightarrow> V3Pool list \<Rightarrow> Router \<Rightarrow> Router option" where
  "install_v3 U tokens [] r = Some r"
| "install_v3 U tokens (pool # ps) r =
     (case install tokens (p3IDs pool) (v3_quote U (v3_pool_view pool)) (v3_reserves U (v3_pool_view pool)) r of None \<Rightarrow> None | Some r' \<Rightarrow> install_v3 U tokens ps r')"

definition NewRouter :: "'u uint256 \<Rightarrow> CeloState \<Rightarrow> Router option" where
  "NewRouter U state =
     (let g = ceGraph state;
          r = \<lparr>rtGraph = g, rtTokenToIndex = lookup_map (gvTokens g), rtPoolToIndex = lookup_map (gvPools g),
               rtAmountOut = replicate (length (gvPools g)) None, rtReserves = replicate (length (gvPools g)) None\<rparr>
      in case install_v2 (ceTokens state) (v2i_All (ceUniswapV2 state)) r of
           None \<Rightarrow> None
         | Some r' \<Rightarrow> install_v3 U (ceTokens state) (List.map_filter id (v3i_All (ceUniswapV3 state) @ v3i_All (ceAerodromeV3 state))) r')"

text \<open>\<^verbatim>\<open>GetPoolsForToken\<close> ranges over a map of the pools it has found.\<close>

definition rt_GetPoolsForToken :: "(uint64, unit) range_order \<Rightarrow> uint64 \<Rightarrow> Router \<Rightarrow> uint64 list" where
  "rt_GetPoolsForToken ord tokenID r =
     (case rtTokenToIndex r tokenID of
        None \<Rightarrow> []
      | Some tokenIndex \<Rightarrow>
          let g = rtGraph r;
              found = concat (map (\<lambda>edgeIndex. map (\<lambda>poolIndex. gvPools g ! poolIndex) (gvEdgePools g ! edgeIndex)) (gvAdjacency g ! tokenIndex))
          in map fst (ord (map (\<lambda>p. (p, ())) (remdups found))))"

section \<open>Overrides\<close>

text \<open>A nil \<^verbatim>\<open>PoolOverrides\<close> or map is an empty one. The Aerodrome overrides are copied over those of Uniswap V3.\<close>

record PoolOverrides =
  ovUniswapV2 :: "(uint64, V2Pool) gomap"
  ovUniswapV3 :: "(uint64, V3Pool) gomap"
  ovAerodromeV3 :: "(uint64, V3Pool) gomap"

definition patch_quote :: "(uint64 \<rightharpoonup> nat) \<Rightarrow> uint64 \<Rightarrow> GetAmountOutFunc \<Rightarrow> GetAmountOutFunc option list \<Rightarrow> GetAmountOutFunc option list" where
  "patch_quote poolToIndex i quote funcs =
     (case poolToIndex i of
        None \<Rightarrow> funcs
      | Some poolIndex \<Rightarrow> (case funcs ! poolIndex of None \<Rightarrow> funcs | Some _ \<Rightarrow> funcs[poolIndex := Some quote]))"

definition patched_quotes ::
  "'u uint256 \<Rightarrow> (uint64, V3Pool) range_order \<Rightarrow> (uint64, V2Pool) range_order \<Rightarrow> Router \<Rightarrow> PoolOverrides \<Rightarrow> GetAmountOutFunc option list" where
  "patched_quotes U ord3 ord2 r overrides =
     (let allUniswapOverridesV3 = foldl (\<lambda>m (k, pool). AList.update k pool m) [] (ovUniswapV3 overrides @ ovAerodromeV3 overrides);
          funcs = foldl (\<lambda>fs (k, pool). patch_quote (rtPoolToIndex r) (idsPool (p3IDs pool)) (v3_quote U (v3_pool_view pool)) fs)
            (rtAmountOut r) (ord3 allUniswapOverridesV3)
      in foldl (\<lambda>fs (k, pool). patch_quote (rtPoolToIndex r) (idsPool (p2IDs pool)) (v2_quote (v2_pool_view pool)) fs)
           funcs (ord2 (ovUniswapV2 overrides)))"

section \<open>The quote of a path\<close>

datatype router_error =
    ErrTokenNotInGraph uint64
  | ErrCycle
  | ErrNoPathFound
  | ErrInvalidRuns int
  | ErrReconstruction nat nat
  | ErrPredecessor nat nat
  | ErrPoolUnknown uint64
  | ErrNoQuote uint64
  | ErrQuote quote_error

fun quote_path :: "(uint64 \<rightharpoonup> nat) \<Rightarrow> GetAmountOutFunc option list \<Rightarrow> TokenPoolPath list \<Rightarrow> int \<Rightarrow> (router_error + int) option" where
  "quote_path poolToIndex funcs [] amountIn = Some (Inr amountIn)"
| "quote_path poolToIndex funcs (p # ps) amountIn =
     (case poolToIndex (tpPoolID p) of
        None \<Rightarrow> Some (Inl (ErrPoolUnknown (tpPoolID p)))
      | Some poolIndex \<Rightarrow>
          (case funcs ! poolIndex of
             None \<Rightarrow> Some (Inl (ErrNoQuote (tpPoolID p)))
           | Some getAmountOut \<Rightarrow>
               (case getAmountOut amountIn (tpTokenInID p) (tpTokenOutID p) of
                  None \<Rightarrow> None
                | Some (Inl err) \<Rightarrow> Some (Inl (ErrQuote err))
                | Some (Inr amountOut) \<Rightarrow> quote_path poolToIndex funcs ps amountOut)))"

definition rt_GetAmountOut ::
  "'u uint256 \<Rightarrow> (uint64, V3Pool) range_order \<Rightarrow> (uint64, V2Pool) range_order \<Rightarrow> Router \<Rightarrow> int \<Rightarrow> TokenPoolPath list \<Rightarrow> PoolOverrides \<Rightarrow>
   (router_error + int) option" where
  "rt_GetAmountOut U ord3 ord2 r amountIn path overrides =
     quote_path (rtPoolToIndex r) (patched_quotes U ord3 ord2 r overrides) path amountIn"

fun EqualTokenPoolPaths :: "TokenPoolPath list \<Rightarrow> TokenPoolPath list \<Rightarrow> bool" where
  "EqualTokenPoolPaths [] [] = True"
| "EqualTokenPoolPaths (a # as) (b # bs) =
     (\<not> (tpTokenInID a \<noteq> tpTokenInID b \<or> tpTokenOutID a \<noteq> tpTokenOutID b \<or> tpPoolID a \<noteq> tpPoolID b) \<and> EqualTokenPoolPaths as bs)"
| "EqualTokenPoolPaths _ _ = False"

section \<open>The search by relaxation\<close>

text \<open>A nil path is the empty list. Costs and bit sets are read through the pointers that the loop holds; the path is the one at its begin.\<close>

record search =
  scPaths :: "TokenPoolPath list list"
  scCosts :: "int list"
  scKnown :: "BitSet list"

fun best_pool ::
  "GetAmountOutFunc option list \<Rightarrow> int \<Rightarrow> uint64 \<Rightarrow> uint64 \<Rightarrow> nat list \<Rightarrow> nat option \<times> int \<Rightarrow> (nat option \<times> int) option" where
  "best_pool funcs cost tokenIn tokenOut [] best = Some best"
| "best_pool funcs cost tokenIn tokenOut (poolIndex # ps) best =
     (case funcs ! poolIndex of
        None \<Rightarrow> best_pool funcs cost tokenIn tokenOut ps best
      | Some getAmountOut \<Rightarrow>
          (case getAmountOut cost tokenIn tokenOut of
             None \<Rightarrow> None
           | Some (Inl err) \<Rightarrow> best_pool funcs cost tokenIn tokenOut ps best
           | Some (Inr amountOut) \<Rightarrow> best_pool funcs cost tokenIn tokenOut ps (if amountOut > snd best then (Some poolIndex, amountOut) else best)))"

text \<open>The writes for a better path to the target.\<close>

definition put_path :: "TokenPoolsRegistryView \<Rightarrow> nat \<Rightarrow> TokenPoolPath list \<Rightarrow> nat \<Rightarrow> nat \<Rightarrow> int \<Rightarrow> search \<Rightarrow> search option" where
  "put_path g currentIndex currentPath targetIndex poolIndex amountOut st =
     (case bs_SetFrom (scKnown st ! currentIndex) (scKnown st ! targetIndex) of
        None \<Rightarrow> None
      | Some known \<Rightarrow> Some
          \<lparr>scPaths = (scPaths st)[targetIndex := currentPath @
             [\<lparr>tpTokenInID = gvTokens g ! currentIndex, tpTokenOutID = gvTokens g ! targetIndex, tpPoolID = gvPools g ! poolIndex\<rparr>]],
           scCosts = (scCosts st)[targetIndex := amountOut],
           scKnown = (scKnown st)[targetIndex := bs_Set currentIndex known]\<rparr>)"

definition relax_edge ::
  "TokenPoolsRegistryView \<Rightarrow> GetAmountOutFunc option list \<Rightarrow> nat \<Rightarrow> nat \<Rightarrow> TokenPoolPath list \<Rightarrow> nat \<Rightarrow> search \<Rightarrow> search option" where
  "relax_edge g funcs start currentIndex currentPath edgeIndex st =
     (let targetIndex = gvEdgeTargets g ! edgeIndex in
      if targetIndex = start \<or> bs_IsSet (scKnown st ! currentIndex) targetIndex then Some st
      else case best_pool funcs (scCosts st ! currentIndex) (gvTokens g ! currentIndex) (gvTokens g ! targetIndex) (gvEdgePools g ! edgeIndex) (None, 0) of
             None \<Rightarrow> None
           | Some (None, _) \<Rightarrow> Some st
           | Some (Some bestPoolIndex, maxAmountOut) \<Rightarrow>
               if maxAmountOut > scCosts st ! targetIndex then put_path g currentIndex currentPath targetIndex bestPoolIndex maxAmountOut st
               else Some st)"

fun relax_edges ::
  "TokenPoolsRegistryView \<Rightarrow> GetAmountOutFunc option list \<Rightarrow> nat \<Rightarrow> nat \<Rightarrow> TokenPoolPath list \<Rightarrow> nat list \<Rightarrow> search \<Rightarrow> search option" where
  "relax_edges g funcs start currentIndex currentPath [] st = Some st"
| "relax_edges g funcs start currentIndex currentPath (e # es) st =
     (case relax_edge g funcs start currentIndex currentPath e st of
        None \<Rightarrow> None
      | Some st' \<Rightarrow> relax_edges g funcs start currentIndex currentPath es st')"

definition findSwapPath :: "TokenPoolsRegistryView \<Rightarrow> GetAmountOutFunc option list \<Rightarrow> nat \<Rightarrow> nat \<Rightarrow> search \<Rightarrow> (router_error + search) option" where
  "findSwapPath g funcs start currentIndex st =
     (if bs_IsSet (scKnown st ! currentIndex) currentIndex then Some (Inl ErrCycle)
      else map_option Inr (relax_edges g funcs start currentIndex (scPaths st ! currentIndex) (gvAdjacency g ! currentIndex) st))"

text \<open>The two loops: the tokens that have a cost, once in each run.\<close>

fun scan_tokens :: "(nat \<Rightarrow> 's \<Rightarrow> bool) \<Rightarrow> (nat \<Rightarrow> 's \<Rightarrow> (router_error + 's) option) \<Rightarrow> nat list \<Rightarrow> 's \<Rightarrow> (router_error + 's) option" where
  "scan_tokens active step [] st = Some (Inr st)"
| "scan_tokens active step (j # js) st =
     (if \<not> active j st then scan_tokens active step js st
      else case step j st of
             None \<Rightarrow> None
           | Some (Inl err) \<Rightarrow> Some (Inl err)
           | Some (Inr st') \<Rightarrow> scan_tokens active step js st')"

fun scan_runs :: "nat \<Rightarrow> ('s \<Rightarrow> (router_error + 's) option) \<Rightarrow> 's \<Rightarrow> (router_error + 's) option" where
  "scan_runs 0 scan st = Some (Inr st)"
| "scan_runs (Suc n) scan st =
     (case scan st of
        None \<Rightarrow> None
      | Some (Inl err) \<Rightarrow> Some (Inl err)
      | Some (Inr st') \<Rightarrow> scan_runs n scan st')"

definition start_search :: "nat \<Rightarrow> nat \<Rightarrow> int \<Rightarrow> search" where
  "start_search numTokens startIndex amountIn =
     \<lparr>scPaths = replicate numTokens [], scCosts = (replicate numTokens 0)[startIndex := amountIn], scKnown = replicate numTokens (NewBitSet numTokens)\<rparr>"

definition FindBestSwapPathGreedy ::
  "'u uint256 \<Rightarrow> (uint64, V3Pool) range_order \<Rightarrow> (uint64, V2Pool) range_order \<Rightarrow> Router \<Rightarrow> int \<Rightarrow> int \<Rightarrow> uint64 \<Rightarrow> uint64 \<Rightarrow> PoolOverrides \<Rightarrow>
   (router_error + TokenPoolPath list \<times> int) option" where
  "FindBestSwapPathGreedy U ord3 ord2 r runs amountIn tokenInID tokenOutID overrides =
     (let funcs = patched_quotes U ord3 ord2 r overrides; g = rtGraph r in
      case rtTokenToIndex r tokenInID of
        None \<Rightarrow> Some (Inl (ErrTokenNotInGraph tokenInID))
      | Some startIndex \<Rightarrow>
          (case rtTokenToIndex r tokenOutID of
             None \<Rightarrow> Some (Inl (ErrTokenNotInGraph tokenOutID))
           | Some endIndex \<Rightarrow>
               let numTokens = length (gvTokens g) in
               (case scan_runs (nat runs) (scan_tokens (\<lambda>j st. scCosts st ! j \<noteq> 0) (findSwapPath g funcs startIndex) [0..<numTokens])
                       (start_search numTokens startIndex amountIn) of
                  None \<Rightarrow> None
                | Some (Inl err) \<Rightarrow> Some (Inl err)
                | Some (Inr st) \<Rightarrow>
                    if scPaths st ! endIndex = [] then Some (Inl ErrNoPathFound)
                    else Some (Inr (scPaths st ! endIndex, scCosts st ! endIndex)))))"

section \<open>Bit sets as sets\<close>

lemma bs_IsSet_bit: "bs_IsSet b i \<longleftrightarrow> bit (b ! (i div 64)) (i mod 64)"
  by (simp add: bs_IsSet_def Let_def bit_iff_and_push_bit_not_eq_0)

lemma bs_IsSet_New: "i < n \<Longrightarrow> \<not> bs_IsSet (NewBitSet n) i"
  by (simp add: bs_IsSet_bit NewBitSet_def nth_replicate less_mult_imp_div_less)

lemma bs_IsSet_Set:
  assumes "i div 64 < length b"
  shows "bs_IsSet (bs_Set i b) j \<longleftrightarrow> j = i \<or> bs_IsSet b j"
proof -
  have "j = i \<longleftrightarrow> j div 64 = i div 64 \<and> j mod 64 = i mod 64"
    by (metis div_mult_mod_eq)
  then show ?thesis
    using assms by (auto simp: bs_IsSet_bit bs_Set_def Let_def nth_list_update bit_or_iff bit_exp_iff)
qed

lemma length_bs_Set [simp]: "length (bs_Set i b) = length b"
  by (simp add: bs_Set_def Let_def)

lemma length_NewBitSet [simp]: "length (NewBitSet n) = (n + 63) div 64"
  by (simp add: NewBitSet_def)

text \<open>The members below \<open>n\<close> of the set that a bit set stands for.\<close>

definition bits :: "nat \<Rightarrow> BitSet \<Rightarrow> nat set" where
  "bits n b = {i. i < n \<and> bs_IsSet b i}"

lemma bits_New [simp]: "bits n (NewBitSet n) = {}"
  by (auto simp: bits_def bs_IsSet_New)

lemma bits_Set: "i < n \<Longrightarrow> length b = (n + 63) div 64 \<Longrightarrow> bits n (bs_Set i b) = insert i (bits n b)"
  by (auto simp: bits_def bs_IsSet_Set)

section \<open>Routes\<close>

text \<open>
  A view as the router needs it: identifiers are listed once, indices are in range, and no edge that carries pools leads
  back to its own token.
\<close>

definition view_ok :: "TokenPoolsRegistryView \<Rightarrow> bool" where
  "view_ok g \<longleftrightarrow> distinct (gvTokens g) \<and> distinct (gvPools g) \<and> length (gvAdjacency g) = length (gvTokens g) \<and>
     (\<forall>i < length (gvTokens g). \<forall>e \<in> set (gvAdjacency g ! i). e < length (gvEdgeTargets g) \<and> e < length (gvEdgePools g) \<and>
        gvEdgeTargets g ! e < length (gvTokens g) \<and> set (gvEdgePools g ! e) \<subseteq> {..<length (gvPools g)} \<and>
        (gvEdgePools g ! e \<noteq> [] \<longrightarrow> gvEdgeTargets g ! e \<noteq> i))"

lemma view_okD:
  assumes "view_ok g" "i < length (gvTokens g)" "e \<in> set (gvAdjacency g ! i)"
  shows "gvEdgeTargets g ! e < length (gvTokens g)" "p \<in> set (gvEdgePools g ! e) \<Longrightarrow> p < length (gvPools g)"
    "p \<in> set (gvEdgePools g ! e) \<Longrightarrow> gvEdgeTargets g ! e \<noteq> i"
  using assms unfolding view_ok_def by (auto dest!: spec [of _ i] bspec [of _ _ e])

text \<open>The views of the graph system are such views if no pool was added with the same token twice.\<close>

lemma view_ok_graph:
  assumes inv: "graph_inv r" and loops: "\<forall>(a, b, p) \<in> graph_edges r. a \<noteq> b"
  shows "view_ok (graph_view r)"
proof -
  note lay = graph_layoutD [OF graph_invD(1) [OF inv]]
  have "e < length (tgEdgeTargets r) \<and> e < length (tgEdgePools r) \<and> tgEdgeTargets r ! e < length (tgTokens r) \<and>
      set (tgEdgePools r ! e) \<subseteq> {..<length (tgPools r)} \<and> (tgEdgePools r ! e \<noteq> [] \<longrightarrow> tgEdgeTargets r ! e \<noteq> i)"
    if i: "i < length (tgTokens r)" and e: "e \<in> set (tgAdjacency r ! i)" for i e
  proof -
    have el: "e < length (tgEdgeTargets r)"
      using graph_adjD(2) [OF graph_invD(2) [OF inv]] i e lay(3) by simp
    moreover have "tgEdgeTargets r ! e \<noteq> i" if "p \<in> set (tgEdgePools r ! e)" for p
    proof
      assume "tgEdgeTargets r ! e = i"
      then have "(i, i, p) \<in> index_edges r"
        using i e that lay(3) by (auto simp: index_edges_iff)
      then have "(tgTokens r ! i, tgTokens r ! i, tgPools r ! p) \<in> graph_edges r"
        unfolding graph_edges_def by force
      then show False
        using loops by auto
    qed
    moreover have "(tgEdgePools r ! e \<noteq> [] \<longrightarrow> tgEdgeTargets r ! e \<noteq> i)"
      using calculation(2) by (cases "tgEdgePools r ! e") auto
    ultimately show ?thesis
      using lay(4,5,7) by auto
  qed
  then show ?thesis
    using lay(1-3) index_inv_distinct by (auto simp: view_ok_def graph_view_def)
qed

definition hop :: "TokenPoolsRegistryView \<Rightarrow> nat \<Rightarrow> nat \<Rightarrow> nat \<Rightarrow> TokenPoolPath" where
  "hop g u v p = \<lparr>tpTokenInID = gvTokens g ! u, tpTokenOutID = gvTokens g ! v, tpPoolID = gvPools g ! p\<rparr>"

text \<open>\<open>route g funcs s x v path y K\<close>: \<open>path\<close> leads from \<open>s\<close> over the tokens of \<open>K\<close> to \<open>v\<close>, no token occurs twice, and it turns \<open>x\<close> into \<open>y\<close>.\<close>

inductive route :: "TokenPoolsRegistryView \<Rightarrow> GetAmountOutFunc option list \<Rightarrow> nat \<Rightarrow> int \<Rightarrow> nat \<Rightarrow> TokenPoolPath list \<Rightarrow> int \<Rightarrow> nat set \<Rightarrow> bool"
  for g funcs s x where
  route_start: "route g funcs s x s [] x {}"
| route_hop: "route g funcs s x u path y K \<Longrightarrow> u < length (gvTokens g) \<Longrightarrow> e \<in> set (gvAdjacency g ! u) \<Longrightarrow> gvEdgeTargets g ! e = v \<Longrightarrow>
    v \<notin> K \<Longrightarrow> v \<noteq> u \<Longrightarrow> p \<in> set (gvEdgePools g ! e) \<Longrightarrow> funcs ! p = Some f \<Longrightarrow>
    f y (gvTokens g ! u) (gvTokens g ! v) = Some (Inr z) \<Longrightarrow> 0 < z \<Longrightarrow> route g funcs s x v (path @ [hop g u v p]) z (insert u K)"

fun connects :: "TokenPoolPath list \<Rightarrow> uint64 \<Rightarrow> uint64 \<Rightarrow> bool" where
  "connects [] a b \<longleftrightarrow> a = b"
| "connects (h # hs) a b \<longleftrightarrow> tpTokenInID h = a \<and> connects hs (tpTokenOutID h) b"

lemma connects_snoc [simp]: "connects (hs @ [h]) a b \<longleftrightarrow> connects hs a (tpTokenInID h) \<and> tpTokenOutID h = b"
  by (induction hs arbitrary: a) auto

definition hop_edge :: "TokenPoolPath \<Rightarrow> uint64 \<times> uint64 \<times> uint64" where
  "hop_edge h = (tpTokenInID h, tpTokenOutID h, tpPoolID h)"

lemma quote_path_append:
  "quote_path m funcs (ps @ qs) x = (case quote_path m funcs ps x of Some (Inr y) \<Rightarrow> quote_path m funcs qs y | r \<Rightarrow> r)"
  by (induction m funcs ps x rule: quote_path.induct) (auto split: option.split sum.split)

lemma route_range:
  assumes ok: "view_ok g" and s: "s < length (gvTokens g)"
  shows "route g funcs s x v path y K \<Longrightarrow> v < length (gvTokens g) \<and> v \<notin> K \<and> K \<subseteq> {..<length (gvTokens g)}"
  by (induction rule: route.induct) (use s view_okD(1) [OF ok] in auto)

lemma route_empty: "route g funcs s x v path y K \<Longrightarrow> if path = [] then v = s \<and> y = x \<and> K = {} else s \<in> K \<and> 0 < y"
  by (induction rule: route.induct) (auto split: if_splits)

lemma route_connects:
  "route g funcs s x v path y K \<Longrightarrow> length (gvAdjacency g) = length (gvTokens g) \<Longrightarrow>
   connects path (gvTokens g ! s) (gvTokens g ! v) \<and> hop_edge ` set path \<subseteq> view_edges g"
proof (induction rule: route.induct)
  case (route_hop u path y K e v p f z)
  then have "hop_edge (hop g u v p) \<in> view_edges g"
    by (auto simp: view_edges_def hop_edge_def hop_def)
  then show ?case
    using route_hop by (auto simp: hop_def)
qed simp

lemma route_simple:
  assumes ok: "view_ok g" and s: "s < length (gvTokens g)"
  shows "route g funcs s x v path y K \<Longrightarrow> set (map tpTokenInID path) = (!) (gvTokens g) ` K \<and> distinct (map tpTokenInID path @ [gvTokens g ! v])"
proof (induction rule: route.induct)
  case (route_hop u path y K e v p f z)
  have d: "distinct (gvTokens g)"
    using ok by (simp add: view_ok_def)
  have r: "u < length (gvTokens g)" "K \<subseteq> {..<length (gvTokens g)}" "v < length (gvTokens g)"
    using route_range [OF ok s route_hop.hyps(1)] view_okD(1) [OF ok route_hop.hyps(2,3)] route_hop.hyps(4) by auto
  have "gvTokens g ! v \<noteq> gvTokens g ! u" "gvTokens g ! v \<notin> (!) (gvTokens g) ` K"
    using d r route_hop.hyps(5,6) by (auto simp: nth_eq_iff_index_eq)
  then show ?case
    using route_hop.IH by (auto simp: hop_def)
qed simp

lemma route_quote:
  assumes ok: "view_ok g" and pools: "index_inv (gvPools g) m"
  shows "route g funcs s x v path y K \<Longrightarrow> quote_path m funcs path x = Some (Inr y)"
proof (induction rule: route.induct)
  case (route_hop u path y K e v p f z)
  have "m (gvPools g ! p) = Some p"
    using pools view_okD(2) [OF ok route_hop.hyps(2,3,7)] by (simp add: index_inv_nth)
  then show ?case
    using route_hop by (simp add: quote_path_append hop_def)
qed simp

section \<open>The relaxation finds routes\<close>

definition quotes_return :: "GetAmountOutFunc option list \<Rightarrow> bool" where
  "quotes_return funcs \<longleftrightarrow> (\<forall>f. Some f \<in> set funcs \<longrightarrow> (\<forall>amount i out. f amount i out \<noteq> None))"

lemma best_pool_spec:
  assumes ret: "quotes_return funcs"
  shows "set ps \<subseteq> {..<length funcs} \<Longrightarrow> \<exists>bp mx. best_pool funcs c i out ps best = Some (bp, mx) \<and> snd best \<le> mx \<and>
    ((bp, mx) = best \<or> (\<exists>p f. bp = Some p \<and> p \<in> set ps \<and> funcs ! p = Some f \<and> f c i out = Some (Inr mx) \<and> snd best < mx)) \<and>
    (\<forall>p f b. p \<in> set ps \<and> funcs ! p = Some f \<and> f c i out = Some (Inr b) \<longrightarrow> b \<le> mx)"
proof (induction ps arbitrary: best)
  case Nil
  then show ?case
    by (cases best) simp
next
  case (Cons p ps)
  show ?case
  proof (cases "funcs ! p")
    case None
    then show ?thesis
      using Cons.IH [of best] Cons.prems by fastforce
  next
    case (Some f)
    have "Some f \<in> set funcs"
      using Some Cons.prems by (metis insert_subset lessThan_iff list.set(2) nth_mem)
    then obtain q where q: "f c i out = Some q"
      using ret unfolding quotes_return_def by blast
    show ?thesis
    proof (cases q)
      case (Inl err)
      then show ?thesis
        using Cons.IH [of best] Cons.prems Some q by fastforce
    next
      case (Inr a)
      let ?best = "if a > snd best then (Some p, a) else best"
      obtain bp mx where IH: "best_pool funcs c i out ps ?best = Some (bp, mx)" "snd ?best \<le> mx"
        "(bp, mx) = ?best \<or> (\<exists>p f. bp = Some p \<and> p \<in> set ps \<and> funcs ! p = Some f \<and> f c i out = Some (Inr mx) \<and> snd ?best < mx)"
        "\<forall>p f b. p \<in> set ps \<and> funcs ! p = Some f \<and> f c i out = Some (Inr b) \<longrightarrow> b \<le> mx"
        using Cons.IH [of ?best] Cons.prems by auto
      have "a \<le> mx" "snd best \<le> mx"
        using IH(2) by (auto split: if_splits)
      moreover have "(bp, mx) = best \<or> (\<exists>p' f. bp = Some p' \<and> p' \<in> set (p # ps) \<and> funcs ! p' = Some f \<and> f c i out = Some (Inr mx) \<and> snd best < mx)"
        using IH(3) Some q Inr by (auto split: if_splits)
      ultimately show ?thesis
        using IH(1,4) Some q Inr by auto
    qed
  qed
qed

definition search_inv :: "TokenPoolsRegistryView \<Rightarrow> GetAmountOutFunc option list \<Rightarrow> nat \<Rightarrow> int \<Rightarrow> search \<Rightarrow> bool" where
  "search_inv g funcs s x st \<longleftrightarrow> (let n = length (gvTokens g) in
     length (scPaths st) = n \<and> length (scCosts st) = n \<and> length (scKnown st) = n \<and>
     (\<forall>j < n. length (scKnown st ! j) = (n + 63) div 64) \<and> scCosts st ! s = x \<and>
     (\<forall>j < n. route g funcs s x j (scPaths st ! j) (scCosts st ! j) (bits n (scKnown st ! j)) \<or> scCosts st ! j = 0 \<and> scPaths st ! j = []))"

text \<open>The token that is being expanded has a route, which stays as it is.\<close>

definition expands :: "TokenPoolsRegistryView \<Rightarrow> GetAmountOutFunc option list \<Rightarrow> nat \<Rightarrow> int \<Rightarrow> nat \<Rightarrow> TokenPoolPath list \<Rightarrow> search \<Rightarrow> bool" where
  "expands g funcs s x u path st \<longleftrightarrow> u < length (gvTokens g) \<and> search_inv g funcs s x st \<and>
     route g funcs s x u path (scCosts st ! u) (bits (length (gvTokens g)) (scKnown st ! u))"

lemma search_invD:
  assumes "search_inv g funcs s x st"
  shows "length (scPaths st) = length (gvTokens g)" "length (scCosts st) = length (gvTokens g)" "length (scKnown st) = length (gvTokens g)"
    "j < length (gvTokens g) \<Longrightarrow> length (scKnown st ! j) = (length (gvTokens g) + 63) div 64" "scCosts st ! s = x"
    "j < length (gvTokens g) \<Longrightarrow> route g funcs s x j (scPaths st ! j) (scCosts st ! j) (bits (length (gvTokens g)) (scKnown st ! j)) \<or> scCosts st ! j = 0 \<and> scPaths st ! j = []"
  using assms unfolding search_inv_def Let_def by blast+

lemma cost_nonneg:
  assumes "search_inv g funcs s x st" "j < length (gvTokens g)" "j \<noteq> s"
  shows "0 \<le> scCosts st ! j"
  using search_invD(6) [OF assms(1,2)] route_empty assms(3) by (metis less_imp_le order_refl)

lemma put_path_expands:
  assumes ok: "view_ok g" and s: "s < length (gvTokens g)" and ex: "expands g funcs s x u path st"
    and e: "e \<in> set (gvAdjacency g ! u)" "gvEdgeTargets g ! e = v" "p \<in> set (gvEdgePools g ! e)" "v \<noteq> s"
    and fresh: "\<not> bs_IsSet (scKnown st ! u) v"
    and quote: "funcs ! p = Some f" "f (scCosts st ! u) (gvTokens g ! u) (gvTokens g ! v) = Some (Inr z)" "0 < z"
  shows "\<exists>st'. put_path g u path v p z st = Some st' \<and> expands g funcs s x u path st' \<and> scCosts st' = (scCosts st)[v := z] \<and>
    scKnown st' ! u = scKnown st ! u"
proof -
  let ?n = "length (gvTokens g)"
  have u: "u < ?n" and inv: "search_inv g funcs s x st" and r: "route g funcs s x u path (scCosts st ! u) (bits ?n (scKnown st ! u))"
    using ex by (simp_all add: expands_def)
  note D = search_invD [OF inv]
  have v: "v < ?n" "v \<noteq> u"
    using view_okD(1,3) [OF ok u e(1)] e(2,3) by auto
  let ?st = "\<lparr>scPaths = (scPaths st)[v := path @ [hop g u v p]], scCosts = (scCosts st)[v := z],
    scKnown = (scKnown st)[v := bs_Set u (scKnown st ! u)]\<rparr>"
  have put: "put_path g u path v p z st = Some ?st"
    using D(4) [OF u] D(4) [OF v(1)] by (simp add: put_path_def bs_SetFrom_def hop_def)
  have "v \<notin> bits ?n (scKnown st ! u)"
    using fresh by (simp add: bits_def)
  then have "route g funcs s x v (path @ [hop g u v p]) z (bits ?n (bs_Set u (scKnown st ! u)))"
    unfolding bits_Set [OF u D(4) [OF u]] using route_hop [OF r u e(1,2) _ v(2) e(3) quote] by blast
  then have "search_inv g funcs s x ?st"
    unfolding search_inv_def Let_def using D(1-5) D(6) u v e(4) s by (auto simp: nth_list_update)
  then show ?thesis
    using put u v(2) r by (simp add: expands_def)
qed

lemma relax_edge_expands:
  assumes ok: "view_ok g" and s: "s < length (gvTokens g)" and ret: "quotes_return funcs" and len: "length funcs = length (gvPools g)"
    and ex: "expands g funcs s x u path st" and e: "e \<in> set (gvAdjacency g ! u)"
  shows "\<exists>st'. relax_edge g funcs s u path e st = Some st' \<and> expands g funcs s x u path st' \<and> scKnown st' ! u = scKnown st ! u \<and>
    scCosts st' ! u = scCosts st ! u \<and> (\<forall>j < length (gvTokens g). scCosts st ! j \<le> scCosts st' ! j) \<and>
    (\<forall>p f b. gvEdgeTargets g ! e \<noteq> s \<and> \<not> bs_IsSet (scKnown st ! u) (gvEdgeTargets g ! e) \<and> p \<in> set (gvEdgePools g ! e) \<and> funcs ! p = Some f \<and>
       f (scCosts st ! u) (gvTokens g ! u) (gvTokens g ! (gvEdgeTargets g ! e)) = Some (Inr b) \<longrightarrow> b \<le> scCosts st' ! (gvEdgeTargets g ! e))"
proof (cases "gvEdgeTargets g ! e = s \<or> bs_IsSet (scKnown st ! u) (gvEdgeTargets g ! e)")
  case True
  then show ?thesis
    using ex by (auto simp: relax_edge_def Let_def)
next
  case False
  let ?v = "gvEdgeTargets g ! e"
  have u: "u < length (gvTokens g)" and inv: "search_inv g funcs s x st"
    using ex by (simp_all add: expands_def)
  have v: "?v < length (gvTokens g)"
    using view_okD(1) [OF ok u e] .
  have "set (gvEdgePools g ! e) \<subseteq> {..<length funcs}"
    using view_okD(2) [OF ok u e] len by auto
  from best_pool_spec [OF ret this, of "scCosts st ! u" "gvTokens g ! u" "gvTokens g ! ?v" "(None, 0)"] obtain bp mx
    where bp: "best_pool funcs (scCosts st ! u) (gvTokens g ! u) (gvTokens g ! ?v) (gvEdgePools g ! e) (None, 0) = Some (bp, mx)"
      and src: "bp = None \<and> mx = 0 \<or> (\<exists>p f. bp = Some p \<and> p \<in> set (gvEdgePools g ! e) \<and> funcs ! p = Some f \<and>
        f (scCosts st ! u) (gvTokens g ! u) (gvTokens g ! ?v) = Some (Inr mx) \<and> 0 < mx)"
      and max: "\<forall>p f b. p \<in> set (gvEdgePools g ! e) \<and> funcs ! p = Some f \<and> f (scCosts st ! u) (gvTokens g ! u) (gvTokens g ! ?v) = Some (Inr b) \<longrightarrow> b \<le> mx"
    by auto
  have pos: "0 \<le> scCosts st ! ?v"
    using cost_nonneg [OF inv v] False by simp
  show ?thesis
  proof (cases "bp \<noteq> None \<and> mx > scCosts st ! ?v")
    case better: True
    then obtain p f where p: "bp = Some p" "p \<in> set (gvEdgePools g ! e)" "funcs ! p = Some f"
      "f (scCosts st ! u) (gvTokens g ! u) (gvTokens g ! ?v) = Some (Inr mx)" "0 < mx"
      using src by auto
    have vu: "?v \<noteq> u"
      using view_okD(3) [OF ok u e p(2)] .
    obtain st' where st': "put_path g u path ?v p mx st = Some st'" "expands g funcs s x u path st'" "scCosts st' = (scCosts st)[?v := mx]"
      "scKnown st' ! u = scKnown st ! u"
      using put_path_expands [OF ok s ex e refl p(2) _ _ p(3,4,5)] False by auto
    have "relax_edge g funcs s u path e st = Some st'"
      using False bp p(1) better st'(1) by (simp add: relax_edge_def Let_def)
    then show ?thesis
      using st' max better vu v search_invD(2) [OF inv] by (auto simp: nth_list_update)
  next
    case worse: False
    then have "relax_edge g funcs s u path e st = Some st"
      using False bp by (auto simp: relax_edge_def Let_def split: option.split)
    moreover have "mx \<le> scCosts st ! ?v"
      using worse src pos by auto
    ultimately show ?thesis
      using ex max by (auto intro: order_trans)
  qed
qed

text \<open>\<open>at_least\<close>: the cost of every target is at least every quote of the listed edges for amount \<open>y\<close>.\<close>

definition at_least :: "TokenPoolsRegistryView \<Rightarrow> GetAmountOutFunc option list \<Rightarrow> nat \<Rightarrow> nat \<Rightarrow> BitSet \<Rightarrow> int \<Rightarrow> nat list \<Rightarrow> search \<Rightarrow> bool" where
  "at_least g funcs s u known y es st \<longleftrightarrow>
     (\<forall>e \<in> set es. \<forall>p f b. gvEdgeTargets g ! e \<noteq> s \<and> \<not> bs_IsSet known (gvEdgeTargets g ! e) \<and> p \<in> set (gvEdgePools g ! e) \<and> funcs ! p = Some f \<and>
       f y (gvTokens g ! u) (gvTokens g ! (gvEdgeTargets g ! e)) = Some (Inr b) \<longrightarrow> b \<le> scCosts st ! (gvEdgeTargets g ! e))"

definition costs_grow :: "TokenPoolsRegistryView \<Rightarrow> search \<Rightarrow> search \<Rightarrow> bool" where
  "costs_grow g st st' \<longleftrightarrow> (\<forall>j < length (gvTokens g). scCosts st ! j \<le> scCosts st' ! j)"

lemma costs_grow_refl [simp]: "costs_grow g st st"
  by (simp add: costs_grow_def)

lemma costs_grow_trans: "costs_grow g a b \<Longrightarrow> costs_grow g b c \<Longrightarrow> costs_grow g a c"
  by (auto simp: costs_grow_def intro: order_trans)

lemma at_least_grow:
  assumes "at_least g funcs s u known y es st" "costs_grow g st st'" "\<forall>e \<in> set es. gvEdgeTargets g ! e < length (gvTokens g)"
  shows "at_least g funcs s u known y es st'"
  using assms unfolding at_least_def costs_grow_def by (meson order_trans)

lemma relax_edges_expands:
  assumes ok: "view_ok g" and s: "s < length (gvTokens g)" and ret: "quotes_return funcs" and len: "length funcs = length (gvPools g)"
  shows "expands g funcs s x u path st \<Longrightarrow> set es \<subseteq> set (gvAdjacency g ! u) \<Longrightarrow>
    \<exists>st'. relax_edges g funcs s u path es st = Some st' \<and> expands g funcs s x u path st' \<and> costs_grow g st st' \<and>
      at_least g funcs s u (scKnown st ! u) (scCosts st ! u) es st'"
proof (induction es arbitrary: st)
  case Nil
  then show ?case
    by (simp add: at_least_def)
next
  case (Cons e es)
  have u: "u < length (gvTokens g)" and e: "e \<in> set (gvAdjacency g ! u)"
    using Cons.prems by (simp_all add: expands_def)
  obtain st1 where st1: "relax_edge g funcs s u path e st = Some st1" "expands g funcs s x u path st1" "scKnown st1 ! u = scKnown st ! u"
      "scCosts st1 ! u = scCosts st ! u" "costs_grow g st st1" "at_least g funcs s u (scKnown st ! u) (scCosts st ! u) [e] st1"
    using relax_edge_expands [OF ok s ret len Cons.prems(1) e] by (auto simp: costs_grow_def at_least_def)
  obtain st2 where st2: "relax_edges g funcs s u path es st1 = Some st2" "expands g funcs s x u path st2" "costs_grow g st1 st2"
      "at_least g funcs s u (scKnown st ! u) (scCosts st ! u) es st2"
    using Cons.IH [OF st1(2)] Cons.prems(2) st1(3,4) by auto
  have "at_least g funcs s u (scKnown st ! u) (scCosts st ! u) [e] st2"
    using at_least_grow [OF st1(6) st2(3)] view_okD(1) [OF ok u e] by simp
  then have "at_least g funcs s u (scKnown st ! u) (scCosts st ! u) (e # es) st2"
    using st2(4) by (simp add: at_least_def)
  then show ?case
    using st1(1) st2 costs_grow_trans [OF st1(5) st2(3)] by auto
qed

lemma findSwapPath_finds:
  assumes ok: "view_ok g" and s: "s < length (gvTokens g)" and ret: "quotes_return funcs" and len: "length funcs = length (gvPools g)"
    and inv: "search_inv g funcs s x st" and u: "u < length (gvTokens g)" "scCosts st ! u \<noteq> 0"
  shows "\<exists>st'. findSwapPath g funcs s u st = Some (Inr st') \<and> search_inv g funcs s x st' \<and> costs_grow g st st' \<and>
    at_least g funcs s u (scKnown st ! u) (scCosts st ! u) (gvAdjacency g ! u) st'"
proof -
  have r: "route g funcs s x u (scPaths st ! u) (scCosts st ! u) (bits (length (gvTokens g)) (scKnown st ! u))"
    using search_invD(6) [OF inv u(1)] u(2) by simp
  have "u \<notin> bits (length (gvTokens g)) (scKnown st ! u)"
    using route_range [OF ok s r] by simp
  then have no_cycle: "\<not> bs_IsSet (scKnown st ! u) u"
    using u(1) by (simp add: bits_def)
  have "expands g funcs s x u (scPaths st ! u) st"
    using inv u r by (simp add: expands_def)
  from relax_edges_expands [OF ok s ret len this subset_refl] no_cycle show ?thesis
    by (auto simp: findSwapPath_def expands_def)
qed

lemma scan_tokens_append:
  "scan_tokens active step (js @ ks) st =
     (case scan_tokens active step js st of Some (Inr st') \<Rightarrow> scan_tokens active step ks st' | r \<Rightarrow> r)"
  by (induction js arbitrary: st) (auto split: option.split sum.split)

text \<open>
  The two loops over a step that always succeeds: it keeps an invariant \<open>I\<close> and advances the state by a preorder \<open>R\<close>. What the step of one
  token reaches is reached by every positive number of runs.
\<close>

locale relaxation =
  fixes I :: "'s \<Rightarrow> bool"
    and R :: "'s \<Rightarrow> 's \<Rightarrow> bool"
    and active :: "nat \<Rightarrow> 's \<Rightarrow> bool"
    and step :: "nat \<Rightarrow> 's \<Rightarrow> (router_error + 's) option"
    and n :: nat
  assumes step: "I st \<Longrightarrow> j < n \<Longrightarrow> active j st \<Longrightarrow> \<exists>st'. step j st = Some (Inr st') \<and> I st' \<and> R st st'"
    and R_refl: "R st st"
    and R_trans: "R a b \<Longrightarrow> R b c \<Longrightarrow> R a c"
begin

abbreviation scan where
  "scan \<equiv> scan_tokens active step"

lemma scan_keeps: "I st \<Longrightarrow> \<forall>j \<in> set js. j < n \<Longrightarrow> \<exists>st'. scan js st = Some (Inr st') \<and> I st' \<and> R st st'"
proof (induction js arbitrary: st)
  case Nil
  then show ?case
    using R_refl by auto
next
  case (Cons j js)
  show ?case
  proof (cases "active j st")
    case True
    then obtain st1 where st1: "step j st = Some (Inr st1)" "I st1" "R st st1"
      using step [OF Cons.prems(1)] Cons.prems(2) by auto
    obtain st2 where "scan js st1 = Some (Inr st2)" "I st2" "R st1 st2"
      using Cons.IH [OF st1(2)] Cons.prems(2) by auto
    then show ?thesis
      using True st1 R_trans [OF st1(3)] by auto
  next
    case False
    then show ?thesis
      using Cons by auto
  qed
qed

lemma runs_keep: "I st \<Longrightarrow> \<exists>st'. scan_runs m (scan [0..<n]) st = Some (Inr st') \<and> I st' \<and> R st st'"
proof (induction m arbitrary: st)
  case 0
  then show ?case
    using R_refl by auto
next
  case (Suc m)
  obtain st1 where st1: "scan [0..<n] st = Some (Inr st1)" "I st1" "R st st1"
    using scan_keeps [OF Suc.prems, of "[0..<n]"] by auto
  from Suc.IH [OF st1(2)] st1 R_trans show ?case
    by force
qed

lemma runs_reach:
  assumes I: "I st" and m: "0 < m" and k: "k < n" and active: "\<And>st. I st \<Longrightarrow> active k st"
    and reach: "\<And>st st'. I st \<Longrightarrow> step k st = Some (Inr st') \<Longrightarrow> Q st'" and keep: "\<And>st st'. Q st \<Longrightarrow> R st st' \<Longrightarrow> Q st'"
    and run: "scan_runs m (scan [0..<n]) st = Some (Inr st')"
  shows "Q st'"
proof -
  have split: "[0..<n] = [0..<k] @ k # [Suc k..<n]"
    using upt_add_eq_append [of 0 k "n - k"] upt_conv_Cons [of k n] k by simp
  obtain st1 where st1: "scan [0..<k] st = Some (Inr st1)" "I st1"
    using scan_keeps [OF I, of "[0..<k]"] k by auto
  obtain st2 where st2: "step k st1 = Some (Inr st2)" "I st2"
    using step [OF st1(2) k active [OF st1(2)]] by auto
  obtain st3 where st3: "scan [Suc k..<n] st2 = Some (Inr st3)" "I st3" "R st2 st3"
    using scan_keeps [OF st2(2), of "[Suc k..<n]"] by auto
  have first: "scan [0..<n] st = Some (Inr st3)"
    unfolding split scan_tokens_append st1(1) using active [OF st1(2)] st2(1) st3(1) by simp
  obtain m' where "m = Suc m'"
    using m by (cases m) auto
  then have "R st3 st'"
    using runs_keep [OF st3(2), of m'] run first by auto
  then show ?thesis
    using reach [OF st1(2) st2(1)] keep st3(3) by blast
qed

end

definition searching :: "TokenPoolsRegistryView \<Rightarrow> GetAmountOutFunc option list \<Rightarrow> nat \<Rightarrow> int \<Rightarrow> search \<Rightarrow> bool" where
  "searching g funcs s x st \<longleftrightarrow> view_ok g \<and> s < length (gvTokens g) \<and> quotes_return funcs \<and> length funcs = length (gvPools g) \<and> search_inv g funcs s x st"

interpretation greedy: relaxation "searching g funcs s x" "costs_grow g" "\<lambda>j st. scCosts st ! j \<noteq> 0" "findSwapPath g funcs s" "length (gvTokens g)"
  for g funcs s x
proof unfold_locales
  show "\<exists>st'. findSwapPath g funcs s j st = Some (Inr st') \<and> searching g funcs s x st' \<and> costs_grow g st st'"
    if "searching g funcs s x st" "j < length (gvTokens g)" "scCosts st ! j \<noteq> 0" for st j
    using that findSwapPath_finds unfolding searching_def by blast
qed (auto intro: costs_grow_trans)

lemma start_searching:
  assumes "s < length (gvTokens g)"
  shows "search_inv g funcs s x (start_search (length (gvTokens g)) s x)"
  using assms route_start [of g funcs s x] by (auto simp: search_inv_def Let_def start_search_def nth_list_update)

section \<open>Overrides do not depend on the order of the maps\<close>

definition router_ok :: "Router \<Rightarrow> bool" where
  "router_ok r \<longleftrightarrow> view_ok (rtGraph r) \<and> index_inv (gvTokens (rtGraph r)) (rtTokenToIndex r) \<and> index_inv (gvPools (rtGraph r)) (rtPoolToIndex r) \<and>
     length (rtAmountOut r) = length (gvPools (rtGraph r)) \<and> length (rtReserves r) = length (gvPools (rtGraph r))"

text \<open>Override maps are keyed by the identifiers of their pools.\<close>

definition overrides_ok :: "PoolOverrides \<Rightarrow> bool" where
  "overrides_ok ov \<longleftrightarrow> distinct (map fst (ovUniswapV2 ov)) \<and> distinct (map fst (ovUniswapV3 ov)) \<and> distinct (map fst (ovAerodromeV3 ov)) \<and>
     (\<forall>(k, pool) \<in> set (ovUniswapV2 ov). idsPool (p2IDs pool) = k) \<and>
     (\<forall>(k, pool) \<in> set (ovUniswapV3 ov) \<union> set (ovAerodromeV3 ov). idsPool (p3IDs pool) = k)"

lemma install_keeps:
  "install tokens ids quote reserves r = Some r' \<Longrightarrow> router_ok r \<Longrightarrow> router_ok r' \<and> rtGraph r' = rtGraph r"
  by (auto simp: install_def router_ok_def Let_def split: if_splits)

lemma install_v2_keeps: "install_v2 tokens ps r = Some r' \<Longrightarrow> router_ok r \<Longrightarrow> router_ok r' \<and> rtGraph r' = rtGraph r"
  by (induction tokens ps r rule: install_v2.induct) (auto split: option.splits dest: install_keeps)

lemma install_v3_keeps: "install_v3 U tokens ps r = Some r' \<Longrightarrow> router_ok r \<Longrightarrow> router_ok r' \<and> rtGraph r' = rtGraph r"
  by (induction U tokens ps r rule: install_v3.induct) (auto split: option.splits dest: install_keeps)

lemma NewRouter_ok:
  assumes "view_ok (ceGraph state)" "NewRouter U state = Some r"
  shows "router_ok r \<and> rtGraph r = ceGraph state"
proof -
  let ?r = "\<lparr>rtGraph = ceGraph state, rtTokenToIndex = lookup_map (gvTokens (ceGraph state)), rtPoolToIndex = lookup_map (gvPools (ceGraph state)),
    rtAmountOut = replicate (length (gvPools (ceGraph state))) None, rtReserves = replicate (length (gvPools (ceGraph state))) None\<rparr>"
  have "router_ok ?r"
    using assms(1) by (simp add: router_ok_def view_ok_def lookup_map_inv)
  then show ?thesis
    using assms(2) by (auto simp: NewRouter_def Let_def split: option.splits dest!: install_v2_keeps install_v3_keeps)
qed

definition patch_all :: "(uint64 \<rightharpoonup> nat) \<Rightarrow> (uint64 \<times> GetAmountOutFunc) list \<Rightarrow> GetAmountOutFunc option list \<Rightarrow> GetAmountOutFunc option list" where
  "patch_all m items funcs = foldl (\<lambda>fs (i, quote). patch_quote m i quote fs) funcs items"

lemma length_patch_all [simp]: "length (patch_all m items funcs) = length funcs"
proof (induction items arbitrary: funcs)
  case (Cons item items)
  have "length (patch_quote m i quote fs) = length fs" for i quote fs
    by (simp add: patch_quote_def split: option.split)
  then show ?case
    using Cons by (cases item) (simp add: patch_all_def)
qed (simp add: patch_all_def)

lemma patch_all_nth:
  assumes m: "index_inv ids m" and len: "length funcs = length ids"
  shows "distinct (map fst items) \<Longrightarrow> k < length ids \<Longrightarrow>
    patch_all m items funcs ! k = map_option (\<lambda>f. case map_of items (ids ! k) of None \<Rightarrow> f | Some quote \<Rightarrow> quote) (funcs ! k)"
  using len
proof (induction items arbitrary: funcs)
  case Nil
  then show ?case
    by (simp add: patch_all_def option.map_ident)
next
  case (Cons item items)
  obtain i quote where item: "item = (i, quote)"
    by (cases item)
  let ?funcs = "patch_quote m i quote funcs"
  have len: "length ?funcs = length ids"
    using Cons.prems(3) by (simp add: patch_quote_def split: option.split)
  have "?funcs ! k = map_option (\<lambda>f. if ids ! k = i then quote else f) (funcs ! k)"
  proof (cases "m i")
    case None
    then have "ids ! k \<noteq> i"
      using index_inv_nth [OF m Cons.prems(2)] by auto
    then show ?thesis
      using None by (cases "funcs ! k") (simp_all add: patch_quote_def)
  next
    case (Some j)
    have j: "j < length ids" "ids ! j = i"
      using index_invD [OF m Some] by simp_all
    have kj: "ids ! k = i \<longleftrightarrow> k = j"
      using index_inv_distinct [OF m] j Cons.prems(2) by (auto simp: nth_eq_iff_index_eq)
    show ?thesis
      unfolding kj using Some j(1) Cons.prems(3) by (cases "funcs ! j"; cases "funcs ! k"; cases "k = j") (simp_all add: patch_quote_def)
  qed
  moreover have "patch_all m (item # items) funcs ! k = patch_all m items ?funcs ! k"
    by (simp add: patch_all_def item)
  moreover have "map_of items i = None"
    using Cons.prems(1) by (simp add: item map_of_eq_None_iff)
  ultimately show ?case
    using Cons.IH [OF _ Cons.prems(2) len] Cons.prems(1) by (cases "funcs ! k") (auto simp: item)
qed

lemma patched_items:
  fixes ov :: "(uint64, 'p) gomap"
  assumes "\<forall>(k, pool) \<in> set ov. pid pool = k"
  shows "foldl (\<lambda>fs (k, pool). patch_quote m (pid pool) (quote pool) fs) funcs ov = patch_all m (map (\<lambda>(k, pool). (k, quote pool)) ov) funcs"
  using assms by (induction ov arbitrary: funcs) (auto simp: patch_all_def)

definition all_v3_overrides :: "PoolOverrides \<Rightarrow> (uint64, V3Pool) gomap" where
  "all_v3_overrides ov = foldl (\<lambda>m (k, pool). AList.update k pool m) [] (ovUniswapV3 ov @ ovAerodromeV3 ov)"

lemma foldl_update_props:
  "distinct (map fst m) \<Longrightarrow> distinct (map fst (foldl (\<lambda>m (k, v). AList.update k v m) m xs)) \<and>
   set (foldl (\<lambda>m (k, v). AList.update k v m) m xs) \<subseteq> set m \<union> set xs"
proof (induction xs arbitrary: m)
  case (Cons x xs)
  obtain k v where x: "x = (k, v)"
    by (cases x)
  have "set (AList.update k v m) \<subseteq> insert (k, v) (set m)"
    by (induction m) auto
  then show ?case
    using Cons.IH [of "AList.update k v m"] Cons.prems by (auto simp: x distinct_update)
qed simp

lemma all_v3_overrides_props:
  assumes "overrides_ok ov"
  shows "distinct (map fst (all_v3_overrides ov))" "\<forall>(k, pool) \<in> set (all_v3_overrides ov). idsPool (p3IDs pool) = k"
proof -
  have "distinct (map fst (all_v3_overrides ov)) \<and> set (all_v3_overrides ov) \<subseteq> set (ovUniswapV3 ov) \<union> set (ovAerodromeV3 ov)"
    unfolding all_v3_overrides_def using foldl_update_props [of "[]" "ovUniswapV3 ov @ ovAerodromeV3 ov"] by simp
  then show "distinct (map fst (all_v3_overrides ov))" "\<forall>(k, pool) \<in> set (all_v3_overrides ov). idsPool (p3IDs pool) = k"
    using assms unfolding overrides_ok_def by blast+
qed

text \<open>What the patched slice holds: the quote of an override of Uniswap V2, else of one of the others, else the router's own.\<close>

lemma patched_quotes_nth:
  assumes ok: "router_ok r" and ov: "overrides_ok ov" and ord: "range_order ord3" "range_order ord2" and k: "k < length (gvPools (rtGraph r))"
  shows "patched_quotes U ord3 ord2 r ov ! k = map_option (\<lambda>f. case map_of (ovUniswapV2 ov) (gvPools (rtGraph r) ! k) of
      Some pool \<Rightarrow> v2_quote (v2_pool_view pool)
    | None \<Rightarrow> (case map_of (all_v3_overrides ov) (gvPools (rtGraph r) ! k) of Some pool \<Rightarrow> v3_quote U (v3_pool_view pool) | None \<Rightarrow> f)) (rtAmountOut r ! k)"
    and "length (patched_quotes U ord3 ord2 r ov) = length (rtAmountOut r)"
proof -
  let ?items3 = "map (\<lambda>(k, pool). (k, v3_quote U (v3_pool_view pool))) (ord3 (all_v3_overrides ov))"
  let ?items2 = "map (\<lambda>(k, pool). (k, v2_quote (v2_pool_view pool))) (ord2 (ovUniswapV2 ov))"
  note all3 = all_v3_overrides_props [OF ov]
  have keyed: "\<forall>(k, pool) \<in> set (ord3 (all_v3_overrides ov)). idsPool (p3IDs pool) = k"
    "\<forall>(k, pool) \<in> set (ord2 (ovUniswapV2 ov)). idsPool (p2IDs pool) = k"
    using all3(2) ov ord by (simp_all add: overrides_ok_def range_order_set)
  have patched: "patched_quotes U ord3 ord2 r ov = patch_all (rtPoolToIndex r) ?items2 (patch_all (rtPoolToIndex r) ?items3 (rtAmountOut r))"
    unfolding patched_quotes_def Let_def all_v3_overrides_def [symmetric]
    by (simp only: patched_items [OF keyed(1), of "rtPoolToIndex r" "\<lambda>pool. v3_quote U (v3_pool_view pool)"]
        patched_items [OF keyed(2), of "rtPoolToIndex r" "\<lambda>pool. v2_quote (v2_pool_view pool)"])
  then show "length (patched_quotes U ord3 ord2 r ov) = length (rtAmountOut r)"
    by simp
  have m: "index_inv (gvPools (rtGraph r)) (rtPoolToIndex r)" and len: "length (rtAmountOut r) = length (gvPools (rtGraph r))"
    using ok by (simp_all add: router_ok_def)
  have d2: "distinct (map fst ?items2)" and d3: "distinct (map fst ?items3)"
    using ov all3(1) ord by (simp_all add: range_order_distinct overrides_ok_def comp_def case_prod_unfold)
  have "map_of ?items3 = (\<lambda>k. map_option (\<lambda>pool. v3_quote U (v3_pool_view pool)) (map_of (all_v3_overrides ov) k))"
    "map_of ?items2 = (\<lambda>k. map_option (\<lambda>pool. v2_quote (v2_pool_view pool)) (map_of (ovUniswapV2 ov) k))"
    using range_order_map_of [OF ord(1) all3(1)] range_order_map_of [OF ord(2)] ov by (simp_all add: map_of_map overrides_ok_def comp_def)
  then show "patched_quotes U ord3 ord2 r ov ! k = map_option (\<lambda>f. case map_of (ovUniswapV2 ov) (gvPools (rtGraph r) ! k) of
      Some pool \<Rightarrow> v2_quote (v2_pool_view pool)
    | None \<Rightarrow> (case map_of (all_v3_overrides ov) (gvPools (rtGraph r) ! k) of Some pool \<Rightarrow> v3_quote U (v3_pool_view pool) | None \<Rightarrow> f)) (rtAmountOut r ! k)"
    unfolding patched using patch_all_nth [OF m _ d2 k] patch_all_nth [OF m len d3 k] len
    by (cases "rtAmountOut r ! k"; cases "map_of (ovUniswapV2 ov) (gvPools (rtGraph r) ! k)";
        cases "map_of (all_v3_overrides ov) (gvPools (rtGraph r) ! k)") simp_all
qed

lemma length_patch_loop:
  fixes xs :: "(uint64 \<times> 'p) list"
  shows "length (foldl (\<lambda>fs (k, pool). patch_quote m (pid pool) (q pool) fs) fs xs) = length fs"
proof (induction xs arbitrary: fs)
  case (Cons x xs)
  then show ?case
    by (cases x) (simp add: patch_quote_def split: option.split)
qed simp

lemma patched_quotes_length: "length (patched_quotes U ord3 ord2 r ov) = length (rtAmountOut r)"
  by (simp add: patched_quotes_def Let_def length_patch_loop)

lemma patched_quotes_order:
  assumes "router_ok r" "overrides_ok ov" "range_order a3" "range_order a2" "range_order b3" "range_order b2"
  shows "patched_quotes U a3 a2 r ov = patched_quotes U b3 b2 r ov"
proof (rule nth_equalityI)
  have len: "length (rtAmountOut r) = length (gvPools (rtGraph r))"
    using assms(1) by (simp add: router_ok_def)
  show "length (patched_quotes U a3 a2 r ov) = length (patched_quotes U b3 b2 r ov)"
    by (simp add: patched_quotes_length)
  show "patched_quotes U a3 a2 r ov ! k = patched_quotes U b3 b2 r ov ! k" if "k < length (patched_quotes U a3 a2 r ov)" for k
  proof -
    have k: "k < length (gvPools (rtGraph r))"
      using that len by (simp add: patched_quotes_length)
    show ?thesis
      unfolding patched_quotes_nth(1) [OF assms(1-4) k] patched_quotes_nth(1) [OF assms(1,2,5,6) k] ..
  qed
qed

section \<open>The best path by relaxation\<close>

text \<open>
  What the caller learns from a direct quote: the pool joins the two tokens in the graph, and \<^verbatim>\<open>GetAmountOut\<close> quotes the path that consists of it.
\<close>

definition direct_quote ::
  "'u uint256 \<Rightarrow> (uint64, V3Pool) range_order \<Rightarrow> (uint64, V2Pool) range_order \<Rightarrow> Router \<Rightarrow> PoolOverrides \<Rightarrow> int \<Rightarrow> uint64 \<Rightarrow> uint64 \<Rightarrow> uint64 \<Rightarrow> int \<Rightarrow> bool" where
  "direct_quote U ord3 ord2 r ov amountIn tokenIn tokenOut pool b \<longleftrightarrow> (tokenIn, tokenOut, pool) \<in> view_edges (rtGraph r) \<and>
     rt_GetAmountOut U ord3 ord2 r amountIn [\<lparr>tpTokenInID = tokenIn, tpTokenOutID = tokenOut, tpPoolID = pool\<rparr>] ov = Some (Inr b)"

text \<open>The edge and the quote function behind a direct quote.\<close>

lemma direct_quoteE:
  assumes "direct_quote U ord3 ord2 r ov x tokenIn tokenOut pool b" and ok: "router_ok r"
    and s: "rtTokenToIndex r tokenIn = Some s" and t: "rtTokenToIndex r tokenOut = Some t"
  obtains e p f where "s < length (gvTokens (rtGraph r))" "e \<in> set (gvAdjacency (rtGraph r) ! s)" "gvEdgeTargets (rtGraph r) ! e = t" "t \<noteq> s"
    "p \<in> set (gvEdgePools (rtGraph r) ! e)" "patched_quotes U ord3 ord2 r ov ! p = Some f"
    "f x (gvTokens (rtGraph r) ! s) (gvTokens (rtGraph r) ! t) = Some (Inr b)"
proof -
  let ?g = "rtGraph r"
  have ok': "view_ok ?g" "index_inv (gvTokens ?g) (rtTokenToIndex r)" "index_inv (gvPools ?g) (rtPoolToIndex r)"
    using ok by (simp_all add: router_ok_def)
  obtain i e p where e: "i < length (gvTokens ?g)" "e \<in> set (gvAdjacency ?g ! i)" "p \<in> set (gvEdgePools ?g ! e)"
      "tokenIn = gvTokens ?g ! i" "tokenOut = gvTokens ?g ! (gvEdgeTargets ?g ! e)" "pool = gvPools ?g ! p"
    using assms(1) ok'(1) by (auto simp: direct_quote_def view_edges_def view_ok_def)
  have "i = s" "gvEdgeTargets ?g ! e = t"
    using e s t index_inv_nth [OF ok'(2)] view_okD(1) [OF ok'(1) e(1,2)] by auto
  moreover have "rtPoolToIndex r pool = Some p"
    using index_inv_nth [OF ok'(3)] view_okD(2) [OF ok'(1) e(1,2,3)] e(6) by simp
  ultimately show thesis
    using that e assms(1) view_okD(3) [OF ok'(1) e(1,2,3)]
    by (auto simp: direct_quote_def rt_GetAmountOut_def split: option.splits sum.splits)
qed

lemma greedy_state:
  assumes ok: "router_ok r" and funcs: "funcs = patched_quotes U ord3 ord2 r ov" "quotes_return funcs"
    and s: "rtTokenToIndex r tokenIn = Some s" and x: "0 < x"
  shows "\<exists>st. scan_runs m (scan_tokens (\<lambda>j st. scCosts st ! j \<noteq> 0) (findSwapPath (rtGraph r) funcs s) [0..<length (gvTokens (rtGraph r))])
      (start_search (length (gvTokens (rtGraph r))) s x) = Some (Inr st) \<and> search_inv (rtGraph r) funcs s x st \<and>
    (0 < m \<longrightarrow> at_least (rtGraph r) funcs s s (NewBitSet (length (gvTokens (rtGraph r)))) x (gvAdjacency (rtGraph r) ! s) st)"
proof -
  let ?g = "rtGraph r" and ?n = "length (gvTokens (rtGraph r))"
  let ?at = "at_least ?g funcs s s (NewBitSet ?n) x (gvAdjacency ?g ! s)"
  have ok': "view_ok ?g" "index_inv (gvTokens ?g) (rtTokenToIndex r)" "length funcs = length (gvPools ?g)"
    using ok by (simp_all add: router_ok_def funcs(1) patched_quotes_length)
  have sn: "s < ?n"
    using index_invD [OF ok'(2) s] by simp
  have I: "searching ?g funcs s x (start_search ?n s x)"
    using ok' sn funcs(2) start_searching [OF sn] by (simp add: searching_def)
  obtain st where st: "scan_runs m (greedy.scan ?g funcs s [0..<?n]) (start_search ?n s x) = Some (Inr st)" "searching ?g funcs s x st"
    using greedy.runs_keep [OF I] by blast
  have "?at st" if m: "0 < m"
  proof (rule greedy.runs_reach [OF I m sn _ _ _ st(1), of ?at])
    show "scCosts st' ! s \<noteq> 0" if "searching ?g funcs s x st'" for st'
      using that x search_invD(5) by (auto simp: searching_def)
    show "?at st2" if st1: "searching ?g funcs s x st1" "findSwapPath ?g funcs s s st1 = Some (Inr st2)" for st1 st2
    proof -
      have inv: "search_inv ?g funcs s x st1"
        using st1(1) by (simp add: searching_def)
      note c = search_invD(5) [OF inv]
      have al: "at_least ?g funcs s s (scKnown st1 ! s) x (gvAdjacency ?g ! s) st2"
        using findSwapPath_finds [OF ok'(1) sn funcs(2) ok'(3) inv sn] c x st1(2) by auto
      have r: "route ?g funcs s x s (scPaths st1 ! s) x (bits ?n (scKnown st1 ! s))"
        using search_invD(6) [OF inv sn] c x by auto
      then have "bits ?n (scKnown st1 ! s) = {}"
        using route_empty [OF r] route_range [OF ok'(1) sn r] by (auto split: if_splits)
      then have "\<not> bs_IsSet (scKnown st1 ! s) j" if "j < ?n" for j
        using that by (auto simp: bits_def)
      then show ?thesis
        using al view_okD(1) [OF ok'(1) sn] unfolding at_least_def by blast
    qed
    show "?at b" if "?at a" "costs_grow ?g a b" for a b
      using at_least_grow [OF that] view_okD(1) [OF ok'(1) sn] by blast
  qed
  then show ?thesis
    using st by (auto simp: searching_def)
qed

text \<open>A path as the searches return it: it leads from one token to the other over edges of the graph, and \<^verbatim>\<open>GetAmountOut\<close> confirms its amount.\<close>

definition good_path ::
  "'u uint256 \<Rightarrow> (uint64, V3Pool) range_order \<Rightarrow> (uint64, V2Pool) range_order \<Rightarrow> Router \<Rightarrow> PoolOverrides \<Rightarrow> int \<Rightarrow> uint64 \<Rightarrow> uint64 \<Rightarrow> TokenPoolPath list \<Rightarrow> int \<Rightarrow> bool" where
  "good_path U ord3 ord2 r ov amountIn tokenIn tokenOut path amount \<longleftrightarrow> path \<noteq> [] \<and> connects path tokenIn tokenOut \<and>
     hop_edge ` set path \<subseteq> view_edges (rtGraph r) \<and> 0 < amount \<and> rt_GetAmountOut U ord3 ord2 r amountIn path ov = Some (Inr amount)"

lemma route_good:
  assumes ok: "router_ok r" and funcs: "funcs = patched_quotes U ord3 ord2 r ov" and s: "rtTokenToIndex r tokenIn = Some s" and t: "rtTokenToIndex r tokenOut = Some t"
    and route: "route (rtGraph r) funcs s x t path y K" and path: "path \<noteq> []"
  shows "good_path U ord3 ord2 r ov x tokenIn tokenOut path y \<and> distinct (map tpTokenInID path @ [tokenOut])"
proof -
  let ?g = "rtGraph r"
  have ok': "view_ok ?g" "index_inv (gvTokens ?g) (rtTokenToIndex r)" "index_inv (gvPools ?g) (rtPoolToIndex r)" "length (gvAdjacency ?g) = length (gvTokens ?g)"
    using ok by (simp_all add: router_ok_def view_ok_def)
  have toks: "s < length (gvTokens ?g)" "gvTokens ?g ! s = tokenIn" "gvTokens ?g ! t = tokenOut"
    using index_invD [OF ok'(2) s] index_invD [OF ok'(2) t] by simp_all
  show ?thesis
    using route_connects [OF route ok'(4)] route_empty [OF route] route_quote [OF ok'(1,3) route] route_simple [OF ok'(1) toks(1) route, THEN conjunct2] path toks
    by (simp add: good_path_def rt_GetAmountOut_def funcs)
qed

text \<open>
  C33: The search by relaxation. On the router of a consistent view, with quotes that return, it always returns and never reports a cycle. A path it
  reports leads from the one token to the other over pools of the graph and visits no token twice, and its amount is what \<^verbatim>\<open>GetAmountOut\<close>
  quotes for it with the same overrides, whatever the order in which the maps of the overrides are read. With at least one run the
  amount is not below any direct quote, and no path is reported only if no direct quote is positive.
\<close>

theorem greedy_path_sound:
  assumes ok: "router_ok r" and ov: "overrides_ok ov"
    and orders: "range_order ord3" "range_order ord2" "range_order ord3'" "range_order ord2'"
    and ret: "quotes_return (patched_quotes U ord3 ord2 r ov)" and x: "0 < amountIn"
  shows "case FindBestSwapPathGreedy U ord3 ord2 r runs amountIn tokenIn tokenOut ov of
      None \<Rightarrow> False
    | Some (Inr (path, amount)) \<Rightarrow> good_path U ord3' ord2' r ov amountIn tokenIn tokenOut path amount \<and> distinct (map tpTokenInID path @ [tokenOut]) \<and>
        (0 < runs \<longrightarrow> (\<forall>pool b. direct_quote U ord3' ord2' r ov amountIn tokenIn tokenOut pool b \<longrightarrow> b \<le> amount))
    | Some (Inl err) \<Rightarrow> (err = ErrTokenNotInGraph tokenIn \<and> tokenIn \<notin> set (gvTokens (rtGraph r))) \<or>
        (err = ErrTokenNotInGraph tokenOut \<and> tokenOut \<notin> set (gvTokens (rtGraph r))) \<or>
        (err = ErrNoPathFound \<and> (0 < runs \<longrightarrow> (\<forall>pool b. direct_quote U ord3' ord2' r ov amountIn tokenIn tokenOut pool b \<longrightarrow> b \<le> 0)))"
proof -
  let ?g = "rtGraph r" and ?funcs = "patched_quotes U ord3 ord2 r ov"
  have same: "patched_quotes U ord3' ord2' r ov = ?funcs"
    using patched_quotes_order [OF ok ov orders(3,4,1,2)] .
  have m: "index_inv (gvTokens ?g) (rtTokenToIndex r)" and vok: "view_ok ?g"
    using ok by (simp_all add: router_ok_def)
  show ?thesis
  proof (cases "rtTokenToIndex r tokenIn = None \<or> rtTokenToIndex r tokenOut = None")
    case True
    then consider "rtTokenToIndex r tokenIn = None" | s where "rtTokenToIndex r tokenIn = Some s" "rtTokenToIndex r tokenOut = None"
      by (cases "rtTokenToIndex r tokenIn") auto
    then show ?thesis
      by cases (simp_all add: FindBestSwapPathGreedy_def Let_def index_inv_None_iff [OF m, symmetric])
  next
    case False
    then obtain s t where s: "rtTokenToIndex r tokenIn = Some s" and t: "rtTokenToIndex r tokenOut = Some t"
      by auto
    have tn: "t < length (gvTokens ?g)"
      using index_invD [OF m t] by simp
    obtain st where st: "scan_runs (nat runs) (scan_tokens (\<lambda>j st. scCosts st ! j \<noteq> 0) (findSwapPath ?g ?funcs s) [0..<length (gvTokens ?g)])
        (start_search (length (gvTokens ?g)) s amountIn) = Some (Inr st)"
      and inv: "search_inv ?g ?funcs s amountIn st"
      and least: "0 < nat runs \<longrightarrow> at_least ?g ?funcs s s (NewBitSet (length (gvTokens ?g))) amountIn (gvAdjacency ?g ! s) st"
      using greedy_state [OF ok refl ret s x] by blast
    have direct: "b \<le> scCosts st ! t" if "0 < runs" "direct_quote U ord3' ord2' r ov amountIn tokenIn tokenOut pool b" for pool b
    proof -
      from direct_quoteE [OF that(2) ok s t, unfolded same] obtain e p f where e: "e \<in> set (gvAdjacency ?g ! s)" "gvEdgeTargets ?g ! e = t" "t \<noteq> s"
        "p \<in> set (gvEdgePools ?g ! e)" "?funcs ! p = Some f" "f amountIn (gvTokens ?g ! s) (gvTokens ?g ! t) = Some (Inr b)" .
      have "at_least ?g ?funcs s s (NewBitSet (length (gvTokens ?g))) amountIn (gvAdjacency ?g ! s) st"
        using least that(1) by simp
      then show ?thesis
        using e bs_IsSet_New [OF tn] unfolding at_least_def by blast
    qed
    have find: "FindBestSwapPathGreedy U ord3 ord2 r runs amountIn tokenIn tokenOut ov =
        (if scPaths st ! t = [] then Some (Inl ErrNoPathFound) else Some (Inr (scPaths st ! t, scCosts st ! t)))"
      using s t st by (simp add: FindBestSwapPathGreedy_def Let_def)
    show ?thesis
    proof (cases "scPaths st ! t = []")
      case True
      have "b \<le> 0" if "0 < runs" "direct_quote U ord3' ord2' r ov amountIn tokenIn tokenOut pool b" for pool b
      proof -
        have "t \<noteq> s"
          using direct_quoteE [OF that(2) ok s t] by metis
        then have "scCosts st ! t = 0"
          using search_invD(6) [OF inv tn] route_empty True by metis
        then show ?thesis
          using direct [OF that] by simp
      qed
      then show ?thesis
        using find True by auto
    next
      case False
      then have "route ?g ?funcs s amountIn t (scPaths st ! t) (scCosts st ! t) (bits (length (gvTokens ?g)) (scKnown st ! t))"
        using search_invD(6) [OF inv tn] by blast
      from route_good [OF ok same [symmetric] s t this False] show ?thesis
        using find False direct by simp
    qed
  qed
qed

definition wit_pair :: "uint64 \<Rightarrow> uint64 \<Rightarrow> uint64 \<Rightarrow> int \<Rightarrow> int \<Rightarrow> V2Pool" where
  "wit_pair i a b ra rb = \<lparr>p2Protocol = ''v2'', p2IDs = \<lparr>idsPool = i, idsToken0 = a, idsToken1 = b\<rparr>, p2Address = [], p2Token0 = [], p2Token1 = [],
     p2Reserve0 = ra, p2Reserve1 = rb, p2FeeBps = 30\<rparr>"

definition wit_router_view :: TokenPoolsRegistryView where
  "wit_router_view = \<lparr>gvTokens = [10, 20, 30], gvPools = [1, 2, 3], gvAdjacency = [[0, 1], [2, 3], [4, 5]],
     gvEdgeTargets = [1, 2, 0, 2, 0, 1], gvEdgePools = [[0], [2], [0], [1], [2], [1]]\<rparr>"

text \<open>Tokens 10, 20 and 30; the pool between 10 and 30 is small, so that the way over 20 is better.\<close>

definition wit_router :: Router where
  "wit_router = \<lparr>rtGraph = wit_router_view, rtTokenToIndex = lookup_map [10, 20, 30], rtPoolToIndex = lookup_map [1, 2, 3],
     rtAmountOut = map (\<lambda>p. Some (v2_quote (v2_pool_view p))) [wit_pair 1 10 20 1000000 1000000, wit_pair 2 20 30 1000000 1000000, wit_pair 3 10 30 1000 1000],
     rtReserves = [None, None, None]\<rparr>"

definition no_overrides :: PoolOverrides where
  "no_overrides = \<lparr>ovUniswapV2 = [], ovUniswapV3 = [], ovAerodromeV3 = []\<rparr>"

lemma wit_find: "FindBestSwapPathGreedy U rev rev wit_router 2 1000 10 30 no_overrides =
  Some (Inr ([\<lparr>tpTokenInID = 10, tpTokenOutID = 20, tpPoolID = 1\<rparr>, \<lparr>tpTokenInID = 20, tpTokenOutID = 30, tpPoolID = 2\<rparr>], 992))"
  by code_simp

lemma wit_router_ok: "router_ok wit_router"
proof -
  have "view_ok wit_router_view"
    by (auto simp: view_ok_def wit_router_view_def less_Suc_eq numeral_3_eq_3)
  then show ?thesis
    by (simp add: router_ok_def wit_router_def wit_router_view_def lookup_map_inv)
qed

lemma v2_quotes_return: "Some f \<in> set (map (\<lambda>p. Some (v2_quote (v2_pool_view p))) ps) \<Longrightarrow> f a i out \<noteq> None"
  by (auto simp: v2_quote_def split: sum.split)

lemma no_overrides_ok: "overrides_ok no_overrides" "patched_quotes U rev rev r no_overrides = rtAmountOut r"
  by (simp_all add: overrides_ok_def no_overrides_def patched_quotes_def)

lemma wit_quotes_return: "quotes_return (patched_quotes U rev rev wit_router no_overrides)"
  unfolding quotes_return_def no_overrides_ok(2) wit_router_def Router.simps by (intro allI impI) (rule v2_quotes_return)

theorem greedy_path_sound_witness:
  "FindBestSwapPathGreedy word_uint256 rev rev wit_router 2 1000 10 30 no_overrides =
     Some (Inr ([\<lparr>tpTokenInID = 10, tpTokenOutID = 20, tpPoolID = 1\<rparr>, \<lparr>tpTokenInID = 20, tpTokenOutID = 30, tpPoolID = 2\<rparr>], 992)) \<and>
   good_path word_uint256 (\<lambda>m. m) (\<lambda>m. m) wit_router no_overrides 1000 10 30
     [\<lparr>tpTokenInID = 10, tpTokenOutID = 20, tpPoolID = 1\<rparr>, \<lparr>tpTokenInID = 20, tpTokenOutID = 30, tpPoolID = 2\<rparr>] 992"
  using greedy_path_sound [OF wit_router_ok no_overrides_ok(1) range_order_rev range_order_rev range_order_id range_order_id wit_quotes_return,
      where amountIn = 1000 and runs = 2 and tokenIn = 10 and tokenOut = 30 and U = word_uint256] wit_find [of word_uint256]
  by simp

section \<open>The router of a state\<close>

text \<open>
  What the loops of \<^verbatim>\<open>NewRouter\<close> go through: identifiers and functions of one Uniswap V2 pool (the first of the index, or the zero pool if the index
  is empty: \<^verbatim>\<open>All\<close> returns a slice of length 1) and then of all pools of the two V3 indexes.
\<close>

type_synonym candidate = "pool_ids \<times> GetAmountOutFunc \<times> GetReservesFunc"

definition v2_candidate :: "V2Pool option \<Rightarrow> candidate" where
  "v2_candidate p = (case p of None \<Rightarrow> (zero_ids, zero_v2_quote, zero_v2_reserves)
     | Some pool \<Rightarrow> (p2IDs pool, v2_quote (v2_pool_view pool), v2_reserves (v2_pool_view pool)))"

definition v3_candidate :: "'u uint256 \<Rightarrow> V3Pool \<Rightarrow> candidate" where
  "v3_candidate U pool = (p3IDs pool, v3_quote U (v3_pool_view pool), v3_reserves U (v3_pool_view pool))"

definition candidates :: "'u uint256 \<Rightarrow> CeloState \<Rightarrow> candidate list" where
  "candidates U state = v2_candidate (case ipPools (ceUniswapV2 state) of [] \<Rightarrow> None | pool # _ \<Rightarrow> Some pool) #
     map (v3_candidate U) (ipPools (ceUniswapV3 state) @ ipPools (ceAerodromeV3 state))"

text \<open>
  A candidate serves the pool of an index if neither of its tokens takes a fee on transfer and it has the identifier of the pool, or if
  its identifier is not in the graph and the index is 0.
\<close>

definition serves :: "IndexableTokenSystem \<Rightarrow> uint64 list \<Rightarrow> nat \<Rightarrow> candidate \<Rightarrow> bool" where
  "serves tokens ps k = (\<lambda>(ids, _). \<not> fee_on_transfer tokens (idsToken0 ids) \<and> \<not> fee_on_transfer tokens (idsToken1 ids) \<and>
     (idsPool ids = ps ! k \<or> idsPool ids \<notin> set ps \<and> k = 0))"

fun install_all :: "IndexableTokenSystem \<Rightarrow> candidate list \<Rightarrow> Router \<Rightarrow> Router option" where
  "install_all tokens [] r = Some r"
| "install_all tokens ((ids, quote, reserves) # cs) r =
     (case install tokens ids quote reserves r of None \<Rightarrow> None | Some r' \<Rightarrow> install_all tokens cs r')"

lemma install_all_append: "install_all tokens (cs @ ds) r = (case install_all tokens cs r of None \<Rightarrow> None | Some r' \<Rightarrow> install_all tokens ds r')"
  by (induction tokens cs r rule: install_all.induct) (auto split: option.split)

lemma install_v2_all: "install_v2 tokens ps r = install_all tokens (map v2_candidate ps) r"
  by (induction tokens ps r rule: install_v2.induct) (auto simp: v2_candidate_def split: option.split)

lemma install_v3_all: "install_v3 U tokens ps r = install_all tokens (map (v3_candidate U) ps) r"
  by (induction U tokens ps r rule: install_v3.induct) (auto simp: v3_candidate_def split: option.split)

lemma v2i_All_first: "v2i_All s = [case ipPools s of [] \<Rightarrow> None | pool # _ \<Rightarrow> Some pool]"
  by (simp add: v2i_All_def copy_into_def split: list.split)

lemma NewRouter_install_all:
  "NewRouter U state = install_all (ceTokens state) (candidates U state)
     \<lparr>rtGraph = ceGraph state, rtTokenToIndex = lookup_map (gvTokens (ceGraph state)), rtPoolToIndex = lookup_map (gvPools (ceGraph state)),
      rtAmountOut = replicate (length (gvPools (ceGraph state))) None, rtReserves = replicate (length (gvPools (ceGraph state))) None\<rparr>"
proof -
  have "List.map_filter id (map Some ps) = ps" for ps :: "V3Pool list" by (simp add: map_filter_def comp_def)
  then have f: "List.map_filter id (v3i_All (ceUniswapV3 state) @ v3i_All (ceAerodromeV3 state)) = ipPools (ceUniswapV3 state) @ ipPools (ceAerodromeV3 state)"
    by (simp add: v2i_All_truncates(2) map_filter_def)
  have c: "candidates U state = map v2_candidate (v2i_All (ceUniswapV2 state)) @ map (v3_candidate U) (ipPools (ceUniswapV3 state) @ ipPools (ceAerodromeV3 state))"
    by (simp add: candidates_def v2i_All_first)
  show ?thesis unfolding NewRouter_def Let_def f install_v2_all install_v3_all c install_all_append ..
qed

lemma map_read_iff:
  assumes "index_inv ps m" and "ps \<noteq> []" and "k < length ps"
  shows "map_read m i = k \<longleftrightarrow> i = ps ! k \<or> i \<notin> set ps \<and> k = 0"
proof (cases "m i")
  case None
  then have "i \<notin> set ps" using assms(1) by (metis index_inv_def in_set_conv_nth option.distinct(1))
  then show ?thesis using None assms by (auto simp: map_read_def)
next
  case (Some j)
  then have j: "j < length ps" "ps ! j = i" using index_invD [OF assms(1)] by auto
  have "ps ! j = ps ! k \<longleftrightarrow> j = k" using index_inv_distinct [OF assms(1)] j(1) assms(3) by (rule nth_eq_iff_index_eq)
  then have "map_read m i = k \<longleftrightarrow> ps ! j = ps ! k" using Some by (simp add: map_read_def)
  then show ?thesis using j by auto
qed

lemma install_serves:
  assumes ok: "router_ok r" and pools: "gvPools (rtGraph r) \<noteq> []"
  shows "\<exists>r'. install tokens ids quote reserves r = Some r' \<and> router_ok r' \<and> rtGraph r' = rtGraph r \<and>
    (\<forall>k < length (gvPools (rtGraph r)). (rtAmountOut r' ! k, rtReserves r' ! k) =
       (if serves tokens (gvPools (rtGraph r)) k (ids, quote, reserves) then (Some quote, Some reserves) else (rtAmountOut r ! k, rtReserves r ! k)))"
proof -
  have m: "index_inv (gvPools (rtGraph r)) (rtPoolToIndex r)" and len: "length (rtAmountOut r) = length (gvPools (rtGraph r))"
    "length (rtReserves r) = length (gvPools (rtGraph r))"
    using ok by (simp_all add: router_ok_def)
  let ?k = "map_read (rtPoolToIndex r) (idsPool ids)"
  have k: "?k < length (gvPools (rtGraph r))"
    using pools index_invD [OF m, of "idsPool ids"] by (auto simp: map_read_def split: option.splits)
  then have "install tokens ids quote reserves r \<noteq> None" using len by (simp add: install_def Let_def)
  then obtain r' where r': "install tokens ids quote reserves r = Some r'" by blast
  have "(rtAmountOut r' ! j, rtReserves r' ! j) =
      (if serves tokens (gvPools (rtGraph r)) j (ids, quote, reserves) then (Some quote, Some reserves) else (rtAmountOut r ! j, rtReserves r ! j))"
    if j: "j < length (gvPools (rtGraph r))" for j
    using r' len k map_read_iff [OF m pools j, of "idsPool ids"] j
    by (auto simp: install_def serves_def Let_def nth_list_update split: if_splits)
  then show ?thesis using r' install_keeps [OF r' ok] by blast
qed

lemma find_append: "find P (xs @ ys) = (case find P xs of None \<Rightarrow> find P ys | Some x \<Rightarrow> Some x)"
  by (induction xs) auto

lemma install_all_serves:
  "router_ok r \<Longrightarrow> gvPools (rtGraph r) \<noteq> [] \<Longrightarrow>
   \<exists>r'. install_all tokens cs r = Some r' \<and> router_ok r' \<and> rtGraph r' = rtGraph r \<and>
    (\<forall>k < length (gvPools (rtGraph r)). (rtAmountOut r' ! k, rtReserves r' ! k) =
       (case find (serves tokens (gvPools (rtGraph r)) k) (rev cs) of
          None \<Rightarrow> (rtAmountOut r ! k, rtReserves r ! k) | Some (_, quote, reserves) \<Rightarrow> (Some quote, Some reserves)))"
proof (induction tokens cs r rule: install_all.induct)
  case (2 tokens ids quote reserves cs r)
  obtain r1 where r1: "install tokens ids quote reserves r = Some r1" "router_ok r1" "rtGraph r1 = rtGraph r"
    and f1: "\<forall>k < length (gvPools (rtGraph r)). (rtAmountOut r1 ! k, rtReserves r1 ! k) =
       (if serves tokens (gvPools (rtGraph r)) k (ids, quote, reserves) then (Some quote, Some reserves) else (rtAmountOut r ! k, rtReserves r ! k))"
    using install_serves [OF "2.prems", of tokens ids quote reserves] by blast
  obtain r2 where r2: "install_all tokens cs r1 = Some r2" "router_ok r2" "rtGraph r2 = rtGraph r"
    and f2: "\<forall>k < length (gvPools (rtGraph r)). (rtAmountOut r2 ! k, rtReserves r2 ! k) =
       (case find (serves tokens (gvPools (rtGraph r)) k) (rev cs) of
          None \<Rightarrow> (rtAmountOut r1 ! k, rtReserves r1 ! k) | Some (_, quote, reserves) \<Rightarrow> (Some quote, Some reserves))"
    using "2.IH" [OF r1(1,2)] "2.prems"(2) unfolding r1(3) by blast
  have "(rtAmountOut r2 ! k, rtReserves r2 ! k) =
       (case find (serves tokens (gvPools (rtGraph r)) k) (rev ((ids, quote, reserves) # cs)) of
          None \<Rightarrow> (rtAmountOut r ! k, rtReserves r ! k) | Some (_, quote, reserves) \<Rightarrow> (Some quote, Some reserves))"
    if "k < length (gvPools (rtGraph r))" for k
    using f1 f2 that by (cases "find (serves tokens (gvPools (rtGraph r)) k) (rev cs)") (auto simp: find_append)
  then show ?case using r1(1) r2 by (intro exI [of _ r2]) simp
qed simp

text \<open>
  C34: The router of a state. For a state whose graph is a view of the graph system in which no pool joins a token with itself, and which has
  at least one pool, \<^verbatim>\<open>NewRouter\<close> returns a well-formed router of that graph: both index maps list the tokens and the
  pools of the graph, both function lists have one entry per pool, and the searches may follow every index. The quote and reserve functions of
  each pool are those of the last candidate that serves it, and it has neither if none does. The candidates are the first
  Uniswap V2 pool (or a zero pool if there is none) followed by all pools of the two V3 indexes. One serves the pool with
  its identifier, if none of its two tokens takes a fee on transfer; one whose identifier the graph does not have serves the
  first pool.
\<close>

theorem NewRouter_well_formed:
  assumes run: "graph_step\<^sup>*\<^sup>* (NewTokenPoolSystem c) s" and loops: "\<forall>(a, b, p) \<in> view_edges (gs_View s). a \<noteq> b"
    and g: "ceGraph state = gs_View s" and pools: "gvPools (ceGraph state) \<noteq> []"
  shows "\<exists>r. NewRouter U state = Some r \<and> router_ok r \<and> rtGraph r = ceGraph state \<and>
    (\<forall>k < length (gvPools (ceGraph state)). (rtAmountOut r ! k, rtReserves r ! k) =
       (case find (serves (ceTokens state) (gvPools (ceGraph state)) k) (rev (candidates U state)) of
          None \<Rightarrow> (None, None) | Some (_, quote, reserves) \<Rightarrow> (Some quote, Some reserves)))"
proof -
  let ?r = "\<lparr>rtGraph = ceGraph state, rtTokenToIndex = lookup_map (gvTokens (ceGraph state)), rtPoolToIndex = lookup_map (gvPools (ceGraph state)),
    rtAmountOut = replicate (length (gvPools (ceGraph state))) None, rtReserves = replicate (length (gvPools (ceGraph state))) None\<rparr>"
  note inv = graph_run_inv [OF run]
  have "gs_View s = graph_view (gsRegistry s)" "graph_inv (gsRegistry s)"
    using inv by (simp_all add: graph_sys_inv_def gs_View_def)
  then have "view_ok (ceGraph state)"
    using view_ok_graph loops gs_View_edges [OF inv] g by metis
  then have "router_ok ?r"
    by (simp add: router_ok_def view_ok_def lookup_map_inv)
  from install_all_serves [OF this, of "ceTokens state" "candidates U state"] show ?thesis
    using pools unfolding NewRouter_install_all by (auto cong: option.case_cong)
qed

text \<open>The graph of two pools, one of which is a pool of the state.\<close>

definition wit_state :: CeloState where
  "wit_state = (let pools = NewIndexablePoolRegistry \<lparr>prvPools = [], prvProtocols = []\<rparr> in
     \<lparr>ceTokens = NewIndexableTokenSystem [], cePools = pools, ceUniswapV2 = no_pools\<lparr>ipPools := [wit_pair 20 2 3 1000 1000]\<rparr>, ceUniswapV3 = no_pools,
      ceAerodromeV3 = no_pools, ceResolver = NewProtocolResolver Map.empty pools, ceGraph = gs_View two_edges\<rparr>)"

lemma wit_graph: "gs_View two_edges = \<lparr>gvTokens = [1, 2, 3], gvPools = [10, 20], gvAdjacency = [[0], [1, 2], [3]], gvEdgeTargets = [1, 0, 2, 1],
    gvEdgePools = [[0], [0], [1], [1]]\<rparr>"
  by (simp add: two_edges_def graph_eval upt_rec)

theorem NewRouter_well_formed_witness:
  "\<exists>r. NewRouter word_uint256 wit_state = Some r \<and> router_ok r \<and> gvTokens (rtGraph r) = [1, 2, 3] \<and> length (rtAmountOut r) = 2 \<and>
     rtAmountOut r ! 0 = None \<and> rtAmountOut r ! 1 = Some (v2_quote (v2_pool_view (wit_pair 20 2 3 1000 1000)))"
proof -
  have "\<forall>(a, b, p) \<in> view_edges (gs_View two_edges). a \<noteq> b"
    by (auto simp: view_edges_def wit_graph less_Suc_eq numeral_3_eq_3)
  then obtain r where r: "NewRouter word_uint256 wit_state = Some r" "router_ok r" "rtGraph r = gs_View two_edges"
    and f: "\<forall>k < length (gvPools (ceGraph wit_state)). (rtAmountOut r ! k, rtReserves r ! k) =
       (case find (serves (ceTokens wit_state) (gvPools (ceGraph wit_state)) k) (rev (candidates word_uint256 wit_state)) of
          None \<Rightarrow> (None, None) | Some (_, quote, reserves) \<Rightarrow> (Some quote, Some reserves))"
    using NewRouter_well_formed [OF two_edges_run, of wit_state word_uint256] by (auto simp: wit_state_def wit_graph Let_def)
  have c: "candidates word_uint256 wit_state = [v2_candidate (Some (wit_pair 20 2 3 1000 1000))]"
    by (simp add: candidates_def wit_state_def no_pools_def Let_def)
  have "ceTokens wit_state = NewIndexableTokenSystem []" "gvPools (ceGraph wit_state) = [10, 20]"
    by (simp_all add: wit_state_def wit_graph Let_def)
  then show ?thesis
    using r f [rule_format, of 0] f [rule_format, of 1]
    by (auto simp: c wit_graph router_ok_def serves_def v2_candidate_def wit_pair_def fee_on_transfer_def it_GetByID_def NewIndexableTokenSystem_def)
qed

end
