(* ===== verification/Router_TopK.thy ===== *)
theory Router_TopK
  imports Swap_Router
begin

text \<open>
  The layered search of the router, \<^verbatim>\<open>FindBestSwapPathTopK\<close>: for every number of swaps and every token it keeps the three best ways to reach the
  token, each as a link to a candidate of the layer before, and finally follows the links back from the best candidate.
\<close>

section \<open>Definitions\<close>

definition topK :: nat where
  "topK = 3"

definition topPoolsPerEdge :: nat where
  "topPoolsPerEdge = 2"

text \<open>Every candidate that is made has an amount and is \<^verbatim>\<open>ok\<close>; the indices of the first one are -1.\<close>

record candidate =
  cdAmount :: int
  cdPrevToken :: int
  cdPrevCand :: int
  cdPool :: int

definition betterAmount :: "int \<Rightarrow> int \<Rightarrow> bool" where
  "betterAmount a b = (if a \<le> 0 then False else if b \<le> 0 then True else a > b)"

definition candidateLess :: "candidate \<Rightarrow> candidate \<Rightarrow> bool" where
  "candidateLess a b =
     (if betterAmount (cdAmount a) (cdAmount b) then True
      else if betterAmount (cdAmount b) (cdAmount a) then False
      else if cdPool a \<noteq> cdPool b then cdPool a < cdPool b
      else if cdPrevToken a \<noteq> cdPrevToken b then cdPrevToken a < cdPrevToken b
      else cdPrevCand a < cdPrevCand b)"

definition choiceLess :: "nat \<times> int \<Rightarrow> nat \<times> int \<Rightarrow> bool" where
  "choiceLess a b =
     (if betterAmount (snd a) (snd b) then True
      else if betterAmount (snd b) (snd a) then False
      else fst a < fst b)"

text \<open>\<^verbatim>\<open>sort.SliceStable\<close>: elements that are not ordered keep their order.\<close>

fun insort_by :: "('a \<Rightarrow> 'a \<Rightarrow> bool) \<Rightarrow> 'a \<Rightarrow> 'a list \<Rightarrow> 'a list" where
  "insort_by lt x [] = [x]"
| "insort_by lt x (y # ys) = (if lt y x then y # insort_by lt x ys else x # y # ys)"

definition SliceStable :: "('a \<Rightarrow> 'a \<Rightarrow> bool) \<Rightarrow> 'a list \<Rightarrow> 'a list" where
  "SliceStable lt xs = foldr (insort_by lt) xs []"

definition same_link :: "candidate \<Rightarrow> candidate \<Rightarrow> bool" where
  "same_link a b \<longleftrightarrow> cdPrevToken a = cdPrevToken b \<and> cdPrevCand a = cdPrevCand b \<and> cdPool a = cdPool b"

fun first_index :: "('a \<Rightarrow> bool) \<Rightarrow> nat \<Rightarrow> 'a list \<Rightarrow> nat option" where
  "first_index P i [] = None"
| "first_index P i (x # xs) = (if P x then Some i else first_index P (Suc i) xs)"

definition insertCandidate :: "candidate list \<Rightarrow> candidate \<Rightarrow> candidate list" where
  "insertCandidate xs cand =
     (if cdAmount cand \<le> 0 then xs
      else case first_index (\<lambda>c. same_link c cand) 0 xs of
             Some i \<Rightarrow> take topK (SliceStable candidateLess (if candidateLess cand (xs ! i) then xs[i := cand] else xs))
           | None \<Rightarrow> take topK (SliceStable candidateLess (xs @ [cand])))"

definition tryInsertPoolChoice :: "nat \<times> int \<Rightarrow> (nat \<times> int) list \<Rightarrow> (nat \<times> int) list" where
  "tryInsertPoolChoice choice bestChoices =
     (if snd choice \<le> 0 then bestChoices else take topPoolsPerEdge (SliceStable choiceLess (bestChoices @ [choice])))"

fun pool_choices ::
  "GetAmountOutFunc option list \<Rightarrow> int \<Rightarrow> uint64 \<Rightarrow> uint64 \<Rightarrow> nat list \<Rightarrow> (nat \<times> int) list \<Rightarrow> (nat \<times> int) list option" where
  "pool_choices funcs amount tokenIn tokenOut [] bestChoices = Some bestChoices"
| "pool_choices funcs amount tokenIn tokenOut (poolIndex # ps) bestChoices =
     (case funcs ! poolIndex of
        None \<Rightarrow> pool_choices funcs amount tokenIn tokenOut ps bestChoices
      | Some getAmountOut \<Rightarrow>
          (case getAmountOut amount tokenIn tokenOut of
             None \<Rightarrow> None
           | Some (Inl err) \<Rightarrow> pool_choices funcs amount tokenIn tokenOut ps bestChoices
           | Some (Inr amountOut) \<Rightarrow>
               if amountOut \<le> 0 then pool_choices funcs amount tokenIn tokenOut ps bestChoices
               else pool_choices funcs amount tokenIn tokenOut ps (tryInsertPoolChoice (poolIndex, amountOut) bestChoices)))"

definition link :: "nat \<Rightarrow> nat \<Rightarrow> nat \<times> int \<Rightarrow> candidate" where
  "link currentIndex candIdx choice =
     \<lparr>cdAmount = snd choice, cdPrevToken = int currentIndex, cdPrevCand = int candIdx, cdPool = int (fst choice)\<rparr>"

text \<open>The loop over the edges for one candidate; it writes the next layer.\<close>

fun extend_edges ::
  "TokenPoolsRegistryView \<Rightarrow> GetAmountOutFunc option list \<Rightarrow> nat \<Rightarrow> nat \<Rightarrow> candidate \<Rightarrow> nat list \<Rightarrow> candidate list list \<Rightarrow> candidate list list option" where
  "extend_edges g funcs currentIndex candIdx cand [] layer' = Some layer'"
| "extend_edges g funcs currentIndex candIdx cand (edgeIndex # es) layer' =
     (let targetIndex = gvEdgeTargets g ! edgeIndex in
      if cdPrevToken cand \<ge> 0 \<and> int targetIndex = cdPrevToken cand then extend_edges g funcs currentIndex candIdx cand es layer'
      else case pool_choices funcs (cdAmount cand) (gvTokens g ! currentIndex) (gvTokens g ! targetIndex) (gvEdgePools g ! edgeIndex) [] of
             None \<Rightarrow> None
           | Some bestChoices \<Rightarrow> extend_edges g funcs currentIndex candIdx cand es
               (layer'[targetIndex := foldl (\<lambda>xs choice. insertCandidate xs (link currentIndex candIdx choice)) (layer' ! targetIndex) bestChoices]))"

fun extend_token ::
  "TokenPoolsRegistryView \<Rightarrow> GetAmountOutFunc option list \<Rightarrow> nat \<Rightarrow> nat \<Rightarrow> candidate list \<Rightarrow> candidate list list \<Rightarrow> candidate list list option" where
  "extend_token g funcs currentIndex candIdx [] layer' = Some layer'"
| "extend_token g funcs currentIndex candIdx (cand # cands) layer' =
     (if cdAmount cand \<le> 0 then extend_token g funcs currentIndex (Suc candIdx) cands layer'
      else case extend_edges g funcs currentIndex candIdx cand (gvAdjacency g ! currentIndex) layer' of
             None \<Rightarrow> None
           | Some layer'' \<Rightarrow> extend_token g funcs currentIndex (Suc candIdx) cands layer'')"

fun extend_tokens ::
  "TokenPoolsRegistryView \<Rightarrow> GetAmountOutFunc option list \<Rightarrow> candidate list list \<Rightarrow> nat list \<Rightarrow> candidate list list \<Rightarrow> candidate list list option" where
  "extend_tokens g funcs layer [] layer' = Some layer'"
| "extend_tokens g funcs layer (currentIndex # js) layer' =
     (case extend_token g funcs currentIndex 0 (layer ! currentIndex) layer' of
        None \<Rightarrow> None
      | Some layer'' \<Rightarrow> extend_tokens g funcs layer js layer'')"

definition next_layer :: "TokenPoolsRegistryView \<Rightarrow> GetAmountOutFunc option list \<Rightarrow> candidate list list \<Rightarrow> candidate list list option" where
  "next_layer g funcs layer = (let n = length (gvTokens g) in extend_tokens g funcs layer [0..<n] (replicate n []))"

fun build_layers :: "TokenPoolsRegistryView \<Rightarrow> GetAmountOutFunc option list \<Rightarrow> nat \<Rightarrow> candidate list list \<Rightarrow> candidate list list list option" where
  "build_layers g funcs 0 layer = Some [layer]"
| "build_layers g funcs (Suc m) layer =
     (case next_layer g funcs layer of
        None \<Rightarrow> None
      | Some layer' \<Rightarrow> map_option ((#) layer) (build_layers g funcs m layer'))"

definition first_layer :: "nat \<Rightarrow> nat \<Rightarrow> int \<Rightarrow> candidate list list" where
  "first_layer numTokens startIndex amountIn =
     (replicate numTokens [])[startIndex := [\<lparr>cdAmount = amountIn, cdPrevToken = - 1, cdPrevCand = - 1, cdPool = - 1\<rparr>]]"

text \<open>The best candidate so far, with its number of swaps and its index.\<close>

definition better_end :: "(nat \<times> nat \<times> candidate) option \<Rightarrow> nat \<times> nat \<times> candidate \<Rightarrow> (nat \<times> nat \<times> candidate) option" where
  "better_end best entry = (case entry of (h, candIdx, cand) \<Rightarrow>
     if cdAmount cand \<le> 0 then best
     else case best of
            None \<Rightarrow> Some entry
          | Some (bestHop, bestCandIndex, bestCand) \<Rightarrow>
              if betterAmount (cdAmount cand) (cdAmount bestCand) then Some entry
              else if cdAmount cand = cdAmount bestCand \<and> (h < bestHop \<or> h = bestHop \<and> candidateLess cand bestCand) then Some entry
              else best)"

definition end_entries :: "candidate list list list \<Rightarrow> nat \<Rightarrow> nat \<Rightarrow> (nat \<times> nat \<times> candidate) list" where
  "end_entries layers runs endIndex =
     concat (map (\<lambda>h. map (\<lambda>k. (h, k, layers ! h ! endIndex ! k)) [0..<length (layers ! h ! endIndex)]) [1..<Suc runs])"

text \<open>The path is built from its end; the code reverses it afterwards.\<close>

fun reconstruct ::
  "TokenPoolsRegistryView \<Rightarrow> candidate list list list \<Rightarrow> nat \<Rightarrow> nat \<Rightarrow> int \<Rightarrow> TokenPoolPath list \<Rightarrow> router_error + TokenPoolPath list" where
  "reconstruct g layers 0 tokenIndex candIndex path = Inr path"
| "reconstruct g layers (Suc h) tokenIndex candIndex path =
     (let cands = layers ! Suc h ! tokenIndex in
      if candIndex < 0 \<or> candIndex \<ge> int (length cands) then Inl (ErrReconstruction (Suc h) tokenIndex)
      else let cand = cands ! nat candIndex in
        if cdPrevToken cand < 0 \<or> cdPool cand < 0 then Inl (ErrPredecessor (Suc h) tokenIndex)
        else reconstruct g layers h (nat (cdPrevToken cand)) (cdPrevCand cand)
          (\<lparr>tpTokenInID = gvTokens g ! nat (cdPrevToken cand), tpTokenOutID = gvTokens g ! tokenIndex, tpPoolID = gvPools g ! nat (cdPool cand)\<rparr> # path))"

definition FindBestSwapPathTopK ::
  "'u uint256 \<Rightarrow> (uint64, V3Pool) range_order \<Rightarrow> (uint64, V2Pool) range_order \<Rightarrow> Router \<Rightarrow> int \<Rightarrow> int \<Rightarrow> uint64 \<Rightarrow> uint64 \<Rightarrow> PoolOverrides \<Rightarrow>
   (router_error + TokenPoolPath list \<times> int) option" where
  "FindBestSwapPathTopK U ord3 ord2 r runs amountIn tokenInID tokenOutID overrides =
     (if runs \<le> 0 then Some (Inl (ErrInvalidRuns runs))
      else if amountIn \<le> 0 then Some (Inl ErrNoPathFound)
      else let funcs = patched_quotes U ord3 ord2 r overrides; g = rtGraph r in
      case rtTokenToIndex r tokenInID of
        None \<Rightarrow> Some (Inl (ErrTokenNotInGraph tokenInID))
      | Some startIndex \<Rightarrow>
          (case rtTokenToIndex r tokenOutID of
             None \<Rightarrow> Some (Inl (ErrTokenNotInGraph tokenOutID))
           | Some endIndex \<Rightarrow>
               (case build_layers g funcs (nat runs) (first_layer (length (gvTokens g)) startIndex amountIn) of
                  None \<Rightarrow> None
                | Some layers \<Rightarrow>
                    (case foldl better_end None (end_entries layers (nat runs) endIndex) of
                       None \<Rightarrow> Some (Inl ErrNoPathFound)
                     | Some (bestHop, bestCandIndex, bestCand) \<Rightarrow>
                         (case reconstruct g layers bestHop endIndex (int bestCandIndex) [] of
                            Inl err \<Rightarrow> Some (Inl err)
                          | Inr path \<Rightarrow> Some (Inr (path, cdAmount bestCand)))))))"

section \<open>Keeping the best\<close>

lemma set_insort_by: "set (insort_by lt x ys) = insert x (set ys)"
  by (induction ys) auto

lemma set_SliceStable [simp]: "set (SliceStable lt xs) = set xs"
  by (induction xs) (simp_all add: SliceStable_def set_insort_by)

text \<open>An order that puts larger amounts first: its sort has a largest one at its head, so that a cut keeps a largest one.\<close>

locale ranked =
  fixes lt :: "'a \<Rightarrow> 'a \<Rightarrow> bool"
    and amt :: "'a \<Rightarrow> int"
  assumes less_ge: "0 < amt a \<Longrightarrow> 0 < amt b \<Longrightarrow> lt a b \<Longrightarrow> amt b \<le> amt a"
    and not_less_le: "0 < amt a \<Longrightarrow> 0 < amt b \<Longrightarrow> \<not> lt a b \<Longrightarrow> amt a \<le> amt b"
begin

definition positive :: "'a list \<Rightarrow> bool" where
  "positive xs \<longleftrightarrow> (\<forall>x \<in> set xs. 0 < amt x)"

definition dominates :: "'a list \<Rightarrow> 'a list \<Rightarrow> bool" where
  "dominates ys xs \<longleftrightarrow> (\<forall>x \<in> set xs. \<exists>y \<in> set ys. amt x \<le> amt y)"

lemma dominates_refl: "dominates xs xs"
  by (auto simp: dominates_def)

lemma dominates_trans: "dominates zs ys \<Longrightarrow> dominates ys xs \<Longrightarrow> dominates zs xs"
  unfolding dominates_def by (meson order_trans)

lemma dominates_append: "dominates zs (xs @ ys) \<longleftrightarrow> dominates zs xs \<and> dominates zs ys"
  by (auto simp: dominates_def)

lemma insort_head:
  assumes "positive (x # ys)" "\<forall>y \<in> set ys. amt y \<le> amt (hd ys)"
  shows "\<forall>y \<in> set (x # ys). amt y \<le> amt (hd (insort_by lt x ys))"
proof (cases ys)
  case (Cons z zs)
  have pos: "0 < amt x" "0 < amt z"
    using assms(1) by (simp_all add: positive_def Cons)
  show ?thesis
  proof (cases "lt z x")
    case True
    then show ?thesis
      using assms(2) less_ge [OF pos(2,1)] by (auto simp: Cons)
  next
    case False
    then have "amt z \<le> amt x"
      using not_less_le [OF pos(2,1)] by simp
    then show ?thesis
      using assms(2) False by (auto simp: Cons intro: order_trans)
  qed
qed simp

lemma SliceStable_head: "positive xs \<Longrightarrow> \<forall>y \<in> set xs. amt y \<le> amt (hd (SliceStable lt xs))"
proof (induction xs)
  case (Cons x xs)
  have "positive (x # SliceStable lt xs)" "\<forall>y \<in> set (SliceStable lt xs). amt y \<le> amt (hd (SliceStable lt xs))"
    using Cons by (simp_all add: positive_def)
  from insort_head [OF this] show ?case
    by (simp add: SliceStable_def [of lt "x # xs"] SliceStable_def [of lt xs, symmetric])
qed simp

lemma cut_dominates:
  assumes "positive xs" "0 < k"
  shows "dominates (take k (SliceStable lt xs)) xs"
proof (cases "xs = []")
  case False
  then have "SliceStable lt xs \<noteq> []"
    by (metis set_SliceStable set_empty)
  then have "hd (SliceStable lt xs) \<in> set (take k (SliceStable lt xs))"
    using assms(2) by (cases "SliceStable lt xs"; cases k) auto
  then show ?thesis
    using SliceStable_head [OF assms(1)] by (auto simp: dominates_def)
qed (simp add: dominates_def)

end

interpretation cand: ranked candidateLess cdAmount
  by unfold_locales (auto simp: candidateLess_def betterAmount_def split: if_splits)

interpretation choice: ranked choiceLess snd
  by unfold_locales (auto simp: choiceLess_def betterAmount_def split: if_splits)

lemma set_cut: "set (take k (SliceStable lt xs)) \<subseteq> set xs"
  by (metis set_SliceStable set_take_subset)

lemma first_index_Some: "first_index P k xs = Some i \<Longrightarrow> k \<le> i \<and> i - k < length xs \<and> P (xs ! (i - k))"
  by (induction P k xs rule: first_index.induct) (auto split: if_splits simp: Suc_diff_le dest: Suc_leD)

text \<open>Inserting a candidate loses no amount and invents none.\<close>

lemma insertCandidate_keeps:
  assumes pos: "cand.positive xs"
  shows "set (insertCandidate xs c) \<subseteq> insert c (set xs)" "cand.dominates (insertCandidate xs c) xs"
    "0 < cdAmount c \<Longrightarrow> \<exists>y \<in> set (insertCandidate xs c). cdAmount c \<le> cdAmount y"
proof -
  have k: "0 < topK"
    by (simp add: topK_def)
  have "set (insertCandidate xs c) \<subseteq> insert c (set xs) \<and> cand.dominates (insertCandidate xs c) xs \<and>
    (0 < cdAmount c \<longrightarrow> (\<exists>y \<in> set (insertCandidate xs c). cdAmount c \<le> cdAmount y))"
  proof (cases "0 < cdAmount c")
    case False
    then show ?thesis
      by (auto simp: insertCandidate_def cand.dominates_refl)
  next
    case c: True
    show ?thesis
    proof (cases "first_index (\<lambda>d. same_link d c) 0 xs")
      case None
      have "cand.dominates (take topK (SliceStable candidateLess (xs @ [c]))) (xs @ [c])"
        using cand.cut_dominates [OF _ k] pos c by (auto simp: cand.positive_def)
      then show ?thesis
        using set_cut [of topK candidateLess "xs @ [c]"] None c by (auto simp: insertCandidate_def cand.dominates_def)
    next
      case (Some i)
      have i: "i < length xs" "same_link (xs ! i) c"
        using first_index_Some [OF Some] by simp_all
      have xi: "0 < cdAmount (xs ! i)"
        using pos i(1) by (simp add: cand.positive_def)
      let ?ys = "if candidateLess c (xs ! i) then xs[i := c] else xs"
      have "cand.positive ?ys"
        using pos c by (auto simp: cand.positive_def dest!: set_update_subset_insert [THEN subsetD])
      then have dom: "cand.dominates (take topK (SliceStable candidateLess ?ys)) ?ys"
        using cand.cut_dominates [OF _ k] by blast
      have better: "cdAmount (xs ! i) \<le> cdAmount c" if "candidateLess c (xs ! i)"
        using cand.less_ge [OF c xi that] .
      have "cand.dominates ?ys xs"
      proof (cases "candidateLess c (xs ! i)")
        case True
        have "\<exists>y \<in> set (xs[i := c]). cdAmount x \<le> cdAmount y" if x: "x \<in> set xs" for x
        proof -
          obtain j where j: "j < length xs" "xs ! j = x"
            using x by (auto simp: in_set_conv_nth)
          then have "cdAmount x \<le> cdAmount (xs[i := c] ! j)"
            using better True i(1) by (cases "j = i") auto
          then show ?thesis
            using j(1) by (metis length_list_update nth_mem)
        qed
        then show ?thesis
          using True by (simp add: cand.dominates_def)
      qed (simp add: cand.dominates_refl)
      moreover have "\<exists>y \<in> set ?ys. cdAmount c \<le> cdAmount y"
        using set_update_memI [OF i(1), of c] cand.not_less_le [OF c xi] nth_mem [OF i(1)] by (cases "candidateLess c (xs ! i)") auto
      moreover have "set (take topK (SliceStable candidateLess ?ys)) \<subseteq> insert c (set xs)"
        using set_cut [of topK candidateLess ?ys] set_update_subset_insert [of xs i c] by (auto split: if_splits)
      ultimately show ?thesis
        using dom cand.dominates_trans Some c unfolding insertCandidate_def cand.dominates_def by (simp split del: if_split) (meson order_trans)
    qed
  qed
  then show "set (insertCandidate xs c) \<subseteq> insert c (set xs)" "cand.dominates (insertCandidate xs c) xs"
    "0 < cdAmount c \<Longrightarrow> \<exists>y \<in> set (insertCandidate xs c). cdAmount c \<le> cdAmount y"
    by blast+
qed

lemma tryInsert_keeps:
  assumes pos: "choice.positive xs" and c: "0 < snd c"
  shows "set (tryInsertPoolChoice c xs) \<subseteq> insert c (set xs)" "choice.dominates (tryInsertPoolChoice c xs) (xs @ [c])"
proof -
  have "choice.positive (xs @ [c])"
    using pos c by (auto simp: choice.positive_def)
  then show "choice.dominates (tryInsertPoolChoice c xs) (xs @ [c])"
    using choice.cut_dominates [of "xs @ [c]" topPoolsPerEdge] c by (simp add: tryInsertPoolChoice_def topPoolsPerEdge_def)
  show "set (tryInsertPoolChoice c xs) \<subseteq> insert c (set xs)"
    using set_cut [of topPoolsPerEdge choiceLess "xs @ [c]"] c by (auto simp: tryInsertPoolChoice_def)
qed

section \<open>Layers\<close>

lemma pool_choices_spec:
  assumes ret: "quotes_return funcs"
  shows "\<forall>p \<in> set ps. p < length funcs \<Longrightarrow> choice.positive acc \<Longrightarrow>
    \<exists>cs. pool_choices funcs x i out ps acc = Some cs \<and> choice.positive cs \<and> choice.dominates cs acc \<and>
      (\<forall>(p, a) \<in> set cs. (p, a) \<in> set acc \<or> p \<in> set ps \<and> (\<exists>f. funcs ! p = Some f \<and> f x i out = Some (Inr a))) \<and>
      (\<forall>p f b. p \<in> set ps \<and> funcs ! p = Some f \<and> f x i out = Some (Inr b) \<and> 0 < b \<longrightarrow> (\<exists>c \<in> set cs. b \<le> snd c))"
proof (induction ps arbitrary: acc)
  case Nil
  then show ?case
    by (auto simp: choice.dominates_refl)
next
  case (Cons p ps)
  have ps: "\<forall>p \<in> set ps. p < length funcs"
    using Cons.prems(1) by simp
  show ?case
  proof (cases "\<exists>f a. funcs ! p = Some f \<and> f x i out = Some (Inr a) \<and> 0 < a")
    case True
    then obtain f a where f: "funcs ! p = Some f" "f x i out = Some (Inr a)" "0 < a"
      by blast
    let ?acc = "tryInsertPoolChoice (p, a) acc"
    have ins: "set ?acc \<subseteq> insert (p, a) (set acc)" "choice.dominates ?acc (acc @ [(p, a)])"
      using tryInsert_keeps [OF Cons.prems(2), of "(p, a)"] f(3) by simp_all
    have "choice.positive ?acc"
      using ins(1) Cons.prems(2) f(3) by (auto simp: choice.positive_def)
    from Cons.IH [OF ps this] obtain cs where cs: "pool_choices funcs x i out ps ?acc = Some cs" "choice.positive cs" "choice.dominates cs ?acc"
      "\<forall>(q, b) \<in> set cs. (q, b) \<in> set ?acc \<or> q \<in> set ps \<and> (\<exists>f. funcs ! q = Some f \<and> f x i out = Some (Inr b))"
      "\<forall>p f b. p \<in> set ps \<and> funcs ! p = Some f \<and> f x i out = Some (Inr b) \<and> 0 < b \<longrightarrow> (\<exists>c \<in> set cs. b \<le> snd c)"
      by blast
    have dom: "choice.dominates cs (acc @ [(p, a)])"
      using choice.dominates_trans [OF cs(3) ins(2)] .
    then have "choice.dominates cs acc" and a: "\<exists>c \<in> set cs. a \<le> snd c"
      by (simp_all add: choice.dominates_def)
    moreover have "\<exists>c \<in> set cs. b \<le> snd c"
      if q: "q \<in> set (p # ps) \<and> funcs ! q = Some f' \<and> f' x i out = Some (Inr b) \<and> 0 < b" for q f' b
    proof (cases "q = p")
      case True
      then have "b = a"
        using q f by simp
      then show ?thesis
        using a by simp
    next
      case False
      then show ?thesis
        using q cs(5) by auto
    qed
    moreover have "\<forall>(q, b) \<in> set cs. (q, b) \<in> set acc \<or> q \<in> set (p # ps) \<and> (\<exists>f. funcs ! q = Some f \<and> f x i out = Some (Inr b))"
      using cs(4) ins(1) f by fastforce
    moreover have "pool_choices funcs x i out (p # ps) acc = Some cs"
      using f cs(1) by simp
    ultimately show ?thesis
      using cs(2) by blast
  next
    case False
    have "pool_choices funcs x i out (p # ps) acc = pool_choices funcs x i out ps acc"
    proof (cases "funcs ! p")
      case (Some f)
      have "Some f \<in> set funcs"
        using Some Cons.prems(1) by (metis list.set_intros(1) nth_mem)
      then have "f x i out \<noteq> None"
        using ret by (simp add: quotes_return_def)
      then show ?thesis
        using Some False by (auto split: sum.split)
    qed simp
    moreover obtain cs where "pool_choices funcs x i out ps acc = Some cs" "choice.positive cs" "choice.dominates cs acc"
      "\<forall>(p, a) \<in> set cs. (p, a) \<in> set acc \<or> p \<in> set ps \<and> (\<exists>f. funcs ! p = Some f \<and> f x i out = Some (Inr a))"
      "\<forall>p f b. p \<in> set ps \<and> funcs ! p = Some f \<and> f x i out = Some (Inr b) \<and> 0 < b \<longrightarrow> (\<exists>c \<in> set cs. b \<le> snd c)"
      using Cons.IH [OF ps Cons.prems(2)] by blast
    ultimately show ?thesis
      using False by (intro exI [of _ cs]) auto
  qed
qed

lemma pool_choices_all:
  assumes ret: "quotes_return funcs" and ps: "\<forall>p \<in> set ps. p < length funcs"
  obtains cs where "pool_choices funcs x i out ps [] = Some cs" "choice.positive cs"
    "\<forall>(p, a) \<in> set cs. p \<in> set ps \<and> (\<exists>f. funcs ! p = Some f \<and> f x i out = Some (Inr a))"
    "\<forall>p f b. p \<in> set ps \<and> funcs ! p = Some f \<and> f x i out = Some (Inr b) \<and> 0 < b \<longrightarrow> (\<exists>c \<in> set cs. b \<le> snd c)"
proof -
  have "choice.positive []"
    by (simp add: choice.positive_def)
  from pool_choices_spec [OF ret ps this, of x i out] show thesis
    by (elim exE conjE) (rule that, simp_all)
qed

text \<open>A candidate for token \<open>v\<close> is linked to a candidate of the layer before by a pool whose quote is its amount.\<close>

definition linked :: "TokenPoolsRegistryView \<Rightarrow> GetAmountOutFunc option list \<Rightarrow> candidate list list \<Rightarrow> nat \<Rightarrow> candidate \<Rightarrow> bool" where
  "linked g funcs layer v c \<longleftrightarrow> 0 < cdAmount c \<and> (\<exists>u k e p f. u < length (gvTokens g) \<and> k < length (layer ! u) \<and>
     cdPrevToken c = int u \<and> cdPrevCand c = int k \<and> cdPool c = int p \<and> e \<in> set (gvAdjacency g ! u) \<and> gvEdgeTargets g ! e = v \<and>
     p \<in> set (gvEdgePools g ! e) \<and> funcs ! p = Some f \<and> f (cdAmount (layer ! u ! k)) (gvTokens g ! u) (gvTokens g ! v) = Some (Inr (cdAmount c)))"

definition layer_ok :: "TokenPoolsRegistryView \<Rightarrow> GetAmountOutFunc option list \<Rightarrow> candidate list list \<Rightarrow> candidate list list \<Rightarrow> bool" where
  "layer_ok g funcs layer layer' \<longleftrightarrow> length layer' = length (gvTokens g) \<and> (\<forall>v < length (gvTokens g). \<forall>c \<in> set (layer' ! v). linked g funcs layer v c)"

lemma layer_ok_positive: "layer_ok g funcs layer layer' \<Longrightarrow> v < length (gvTokens g) \<Longrightarrow> cand.positive (layer' ! v)"
  by (simp add: layer_ok_def cand.positive_def linked_def)

text \<open>Every quote for the candidate over one of the edges is matched in the layer.\<close>

definition covered :: "TokenPoolsRegistryView \<Rightarrow> GetAmountOutFunc option list \<Rightarrow> nat \<Rightarrow> candidate \<Rightarrow> nat list \<Rightarrow> candidate list list \<Rightarrow> bool" where
  "covered g funcs u c es layer' \<longleftrightarrow> (\<forall>e \<in> set es. \<forall>p f b. \<not> (0 \<le> cdPrevToken c \<and> int (gvEdgeTargets g ! e) = cdPrevToken c) \<and>
     p \<in> set (gvEdgePools g ! e) \<and> funcs ! p = Some f \<and> f (cdAmount c) (gvTokens g ! u) (gvTokens g ! (gvEdgeTargets g ! e)) = Some (Inr b) \<and> 0 < b \<longrightarrow>
     (\<exists>d \<in> set (layer' ! (gvEdgeTargets g ! e)). b \<le> cdAmount d))"

lemma covered_Cons: "covered g funcs u c (e # es) layer' \<longleftrightarrow> covered g funcs u c [e] layer' \<and> covered g funcs u c es layer'"
  by (simp add: covered_def)

definition layer_grows :: "TokenPoolsRegistryView \<Rightarrow> candidate list list \<Rightarrow> candidate list list \<Rightarrow> bool" where
  "layer_grows g a b \<longleftrightarrow> (\<forall>v < length (gvTokens g). cand.dominates (b ! v) (a ! v))"

lemma layer_grows_refl: "layer_grows g a a"
  by (simp add: layer_grows_def cand.dominates_refl)

lemma layer_grows_trans: "layer_grows g a b \<Longrightarrow> layer_grows g b c \<Longrightarrow> layer_grows g a c"
  unfolding layer_grows_def using cand.dominates_trans by blast

lemma covered_grows:
  assumes "covered g funcs u c es a" "layer_grows g a b" "\<forall>e \<in> set es. gvEdgeTargets g ! e < length (gvTokens g)"
  shows "covered g funcs u c es b"
  using assms unfolding covered_def layer_grows_def cand.dominates_def by (meson order_trans)

lemma insert_links:
  assumes "cand.positive xs" "\<forall>c \<in> set cs. 0 < snd c"
  shows "set (foldl (\<lambda>xs c. insertCandidate xs (link u k c)) xs cs) \<subseteq> set xs \<union> link u k ` set cs \<and>
    cand.dominates (foldl (\<lambda>xs c. insertCandidate xs (link u k c)) xs cs) (xs @ map (link u k) cs)"
  using assms
proof (induction cs arbitrary: xs)
  case (Cons c cs)
  let ?xs = "insertCandidate xs (link u k c)"
  have amt: "0 < cdAmount (link u k c)"
    using Cons.prems(2) by (simp add: link_def)
  note ins = insertCandidate_keeps [OF Cons.prems(1), of "link u k c"]
  have pos: "cand.positive ?xs"
    using ins(1) Cons.prems(1) amt by (auto simp: cand.positive_def)
  have "cand.dominates ?xs (xs @ [link u k c])"
    using ins(2,3) amt by (auto simp: cand.dominates_def)
  moreover have "cand.dominates (foldl (\<lambda>xs c. insertCandidate xs (link u k c)) ?xs cs) (?xs @ map (link u k) cs)"
    using Cons.IH [OF pos] Cons.prems(2) by simp
  ultimately have "cand.dominates (foldl (\<lambda>xs c. insertCandidate xs (link u k c)) ?xs cs) ((xs @ [link u k c]) @ map (link u k) cs)"
    unfolding cand.dominates_append using cand.dominates_trans by blast
  then show ?case
    using Cons.IH [OF pos] Cons.prems(2) ins(1) by auto
qed (simp add: cand.dominates_refl)

text \<open>What the loops of one layer need to know: the graph and the quotes, and the candidate they extend.\<close>

definition extends :: "TokenPoolsRegistryView \<Rightarrow> GetAmountOutFunc option list \<Rightarrow> candidate list list \<Rightarrow> candidate list list \<Rightarrow> bool" where
  "extends g funcs layer layer' \<longleftrightarrow> view_ok g \<and> quotes_return funcs \<and> length funcs = length (gvPools g) \<and> layer_ok g funcs layer layer'"

lemma extend_edges_covers:
  "extends g funcs layer layer' \<Longrightarrow> u < length (gvTokens g) \<Longrightarrow> k < length (layer ! u) \<Longrightarrow> set es \<subseteq> set (gvAdjacency g ! u) \<Longrightarrow>
   \<exists>layer''. extend_edges g funcs u k (layer ! u ! k) es layer' = Some layer'' \<and> extends g funcs layer layer'' \<and> layer_grows g layer' layer'' \<and>
     covered g funcs u (layer ! u ! k) es layer''"
proof (induction es arbitrary: layer')
  case Nil
  then show ?case
    by (simp add: layer_grows_refl covered_def)
next
  case (Cons e es)
  let ?c = "layer ! u ! k" and ?v = "gvEdgeTargets g ! e"
  have ok: "view_ok g" "quotes_return funcs" "length funcs = length (gvPools g)" "layer_ok g funcs layer layer'"
    using Cons.prems(1) by (simp_all add: extends_def)
  have e: "e \<in> set (gvAdjacency g ! u)" and es: "set es \<subseteq> set (gvAdjacency g ! u)"
    using Cons.prems(4) by simp_all
  have v: "?v < length (gvTokens g)"
    using view_okD(1) [OF ok(1) Cons.prems(2) e] .
  show ?case
  proof (cases "0 \<le> cdPrevToken ?c \<and> int ?v = cdPrevToken ?c")
    case True
    then show ?thesis
      using Cons.IH [OF Cons.prems(1-3) es] by (auto simp: Let_def covered_def)
  next
    case False
    have "\<forall>p \<in> set (gvEdgePools g ! e). p < length funcs"
      using view_okD(2) [OF ok(1) Cons.prems(2) e] ok(3) by simp
    from pool_choices_all [OF ok(2) this, of "cdAmount ?c" "gvTokens g ! u" "gvTokens g ! ?v"] obtain cs where cs: "pool_choices funcs (cdAmount ?c) (gvTokens g ! u) (gvTokens g ! ?v) (gvEdgePools g ! e) [] = Some cs" "choice.positive cs"
      "\<forall>(p, a) \<in> set cs. p \<in> set (gvEdgePools g ! e) \<and> (\<exists>f. funcs ! p = Some f \<and> f (cdAmount ?c) (gvTokens g ! u) (gvTokens g ! ?v) = Some (Inr a))"
      "\<forall>p f b. p \<in> set (gvEdgePools g ! e) \<and> funcs ! p = Some f \<and> f (cdAmount ?c) (gvTokens g ! u) (gvTokens g ! ?v) = Some (Inr b) \<and> 0 < b \<longrightarrow>
         (\<exists>c \<in> set cs. b \<le> snd c)" .
    let ?xs = "foldl (\<lambda>xs c. insertCandidate xs (link u k c)) (layer' ! ?v) cs"
    let ?layer = "layer'[?v := ?xs]"
    have ins: "set ?xs \<subseteq> set (layer' ! ?v) \<union> link u k ` set cs" "cand.dominates ?xs (layer' ! ?v @ map (link u k) cs)"
      using insert_links [OF layer_ok_positive [OF ok(4) v], of cs u k] cs(2) by (simp_all add: choice.positive_def)
    have "linked g funcs layer ?v (link u k c)" if "c \<in> set cs" for c
      using that cs(2,3) Cons.prems(2,3) e unfolding linked_def link_def choice.positive_def by fastforce
    then have ext: "extends g funcs layer ?layer"
      using ok ins(1) v unfolding extends_def layer_ok_def by (auto simp: nth_list_update)
    have grow: "layer_grows g layer' ?layer"
      using ins(2) ok(4) v by (auto simp: layer_grows_def nth_list_update cand.dominates_refl cand.dominates_append layer_ok_def)
    have "\<exists>d \<in> set ?xs. b \<le> cdAmount d" if "c \<in> set cs" "b \<le> snd c" for c b
      using ins(2) that unfolding cand.dominates_append cand.dominates_def by (force simp: link_def)
    then have cov: "covered g funcs u ?c [e] ?layer"
      using cs(4) v ok(4) unfolding covered_def layer_ok_def by simp blast
    obtain layer'' where l: "extend_edges g funcs u k ?c es ?layer = Some layer''" "extends g funcs layer layer''" "layer_grows g ?layer layer''"
      "covered g funcs u ?c es layer''"
      using Cons.IH [OF ext Cons.prems(2,3) es] by blast
    have "covered g funcs u ?c [e] layer''"
      using covered_grows [OF cov l(3)] v by simp
    then have "covered g funcs u ?c (e # es) layer''"
      using l(4) covered_Cons by blast
    moreover have "extend_edges g funcs u k ?c (e # es) layer' = Some layer''"
      using False cs(1) l(1) by (auto simp: Let_def)
    ultimately show ?thesis
      using l(2) layer_grows_trans [OF grow l(3)] by blast
  qed
qed

lemma extend_token_covers:
  "extends g funcs layer layer' \<Longrightarrow> u < length (gvTokens g) \<Longrightarrow> cands = drop k (layer ! u) \<Longrightarrow>
   \<exists>layer''. extend_token g funcs u k cands layer' = Some layer'' \<and> extends g funcs layer layer'' \<and> layer_grows g layer' layer'' \<and>
     (\<forall>c \<in> set cands. 0 < cdAmount c \<longrightarrow> covered g funcs u c (gvAdjacency g ! u) layer'')"
proof (induction cands arbitrary: k layer')
  case Nil
  then show ?case
    by (simp add: layer_grows_refl)
next
  case (Cons c cands)
  have k: "k < length (layer ! u)" "layer ! u ! k = c" "cands = drop (Suc k) (layer ! u)"
    using Cons.prems(3) by (metis drop_all list.distinct(1) not_less, metis nth_via_drop, metis drop_Suc list.sel(3) tl_drop)
  have in_range: "\<forall>e \<in> set (gvAdjacency g ! u). gvEdgeTargets g ! e < length (gvTokens g)"
    using view_okD(1) Cons.prems(1,2) unfolding extends_def by blast
  show ?case
  proof (cases "0 < cdAmount c")
    case True
    obtain l1 where l1: "extend_edges g funcs u k c (gvAdjacency g ! u) layer' = Some l1" "extends g funcs layer l1" "layer_grows g layer' l1"
      "covered g funcs u c (gvAdjacency g ! u) l1"
      using extend_edges_covers [OF Cons.prems(1,2) k(1) subset_refl] k(2) by auto
    obtain l2 where l2: "extend_token g funcs u (Suc k) cands l1 = Some l2" "extends g funcs layer l2" "layer_grows g l1 l2"
      "\<forall>c \<in> set cands. 0 < cdAmount c \<longrightarrow> covered g funcs u c (gvAdjacency g ! u) l2"
      using Cons.IH [OF l1(2) Cons.prems(2) k(3)] by blast
    show ?thesis
      using True l1(1) l2 layer_grows_trans [OF l1(3) l2(3)] covered_grows [OF l1(4) l2(3) in_range] by auto
  next
    case False
    then show ?thesis
      using Cons.IH [OF Cons.prems(1,2) k(3)] by auto
  qed
qed

lemma extend_tokens_covers:
  "extends g funcs layer layer' \<Longrightarrow> \<forall>u \<in> set js. u < length (gvTokens g) \<Longrightarrow>
   \<exists>layer''. extend_tokens g funcs layer js layer' = Some layer'' \<and> extends g funcs layer layer'' \<and> layer_grows g layer' layer'' \<and>
     (\<forall>u \<in> set js. \<forall>c \<in> set (layer ! u). 0 < cdAmount c \<longrightarrow> covered g funcs u c (gvAdjacency g ! u) layer'')"
proof (induction js arbitrary: layer')
  case Nil
  then show ?case
    by (simp add: layer_grows_refl)
next
  case (Cons u js)
  have u: "u < length (gvTokens g)"
    using Cons.prems(2) by simp
  have in_range: "\<forall>e \<in> set (gvAdjacency g ! u). gvEdgeTargets g ! e < length (gvTokens g)"
    using view_okD(1) Cons.prems(1) u unfolding extends_def by blast
  obtain l1 where l1: "extend_token g funcs u 0 (layer ! u) layer' = Some l1" "extends g funcs layer l1" "layer_grows g layer' l1"
    "\<forall>c \<in> set (layer ! u). 0 < cdAmount c \<longrightarrow> covered g funcs u c (gvAdjacency g ! u) l1"
    using extend_token_covers [OF Cons.prems(1) u, of "layer ! u" 0] by auto
  obtain l2 where l2: "extend_tokens g funcs layer js l1 = Some l2" "extends g funcs layer l2" "layer_grows g l1 l2"
    "\<forall>u \<in> set js. \<forall>c \<in> set (layer ! u). 0 < cdAmount c \<longrightarrow> covered g funcs u c (gvAdjacency g ! u) l2"
    using Cons.IH [OF l1(2)] Cons.prems(2) by auto
  have "\<forall>c \<in> set (layer ! u). 0 < cdAmount c \<longrightarrow> covered g funcs u c (gvAdjacency g ! u) l2"
    using l1(4) covered_grows [OF _ l2(3) in_range] by blast
  then show ?case
    using l1(1) l2 layer_grows_trans [OF l1(3) l2(3)] by auto
qed

section \<open>The layers and the way back\<close>

lemma next_layer_covers:
  assumes "view_ok g" "quotes_return funcs" "length funcs = length (gvPools g)"
  shows "\<exists>layer'. next_layer g funcs layer = Some layer' \<and> layer_ok g funcs layer layer' \<and>
    (\<forall>u < length (gvTokens g). \<forall>c \<in> set (layer ! u). 0 < cdAmount c \<longrightarrow> covered g funcs u c (gvAdjacency g ! u) layer')"
proof -
  have "extends g funcs layer (replicate (length (gvTokens g)) [])"
    using assms by (simp add: extends_def layer_ok_def)
  from extend_tokens_covers [OF this, of "[0..<length (gvTokens g)]"] show ?thesis
    by (auto simp: next_layer_def extends_def)
qed

lemma build_layers_ok:
  assumes "view_ok g" "quotes_return funcs" "length funcs = length (gvPools g)"
  shows "\<exists>layers. build_layers g funcs m layer = Some layers \<and> length layers = Suc m \<and> layers ! 0 = layer \<and>
    (\<forall>h < m. layer_ok g funcs (layers ! h) (layers ! Suc h)) \<and>
    (0 < m \<longrightarrow> (\<forall>u < length (gvTokens g). \<forall>c \<in> set (layer ! u). 0 < cdAmount c \<longrightarrow> covered g funcs u c (gvAdjacency g ! u) (layers ! 1)))"
proof (induction m arbitrary: layer)
  case (Suc m)
  obtain layer' where l: "next_layer g funcs layer = Some layer'" "layer_ok g funcs layer layer'"
    "\<forall>u < length (gvTokens g). \<forall>c \<in> set (layer ! u). 0 < cdAmount c \<longrightarrow> covered g funcs u c (gvAdjacency g ! u) layer'"
    using next_layer_covers [OF assms] by blast
  obtain layers where ls: "build_layers g funcs m layer' = Some layers" "length layers = Suc m" "layers ! 0 = layer'"
    "\<forall>h < m. layer_ok g funcs (layers ! h) (layers ! Suc h)"
    using Suc.IH by blast
  have "\<forall>h < Suc m. layer_ok g funcs ((layer # layers) ! h) ((layer # layers) ! Suc h)"
    using ls(3,4) l(2) by (auto simp: less_Suc_eq_0_disj)
  then show ?case
    using l ls by simp
qed simp

lemma first_layer_candidate:
  assumes "s < n" "v < n" "k < length (first_layer n s x ! v)"
  shows "v = s \<and> k = 0 \<and> cdAmount (first_layer n s x ! v ! k) = x"
  using assms by (auto simp: first_layer_def nth_list_update split: if_splits)

text \<open>Following the links back never fails, and gives a path that the quotes turn into the candidate's amount.\<close>

lemma reconstruct_path:
  assumes ok: "view_ok g" and m: "index_inv (gvPools g) poolToIndex" and s: "s < length (gvTokens g)"
    and first: "layers ! 0 = first_layer (length (gvTokens g)) s x" and links: "\<forall>h < r. layer_ok g funcs (layers ! h) (layers ! Suc h)"
  shows "h \<le> r \<Longrightarrow> v < length (gvTokens g) \<Longrightarrow> k < length (layers ! h ! v) \<Longrightarrow>
    \<exists>path. (\<forall>acc. reconstruct g layers h v (int k) acc = Inr (path @ acc)) \<and> length path = h \<and> connects path (gvTokens g ! s) (gvTokens g ! v) \<and>
      hop_edge ` set path \<subseteq> view_edges g \<and> quote_path poolToIndex funcs path x = Some (Inr (cdAmount (layers ! h ! v ! k)))"
proof (induction h arbitrary: v k)
  case 0
  then show ?case
    using first_layer_candidate [OF s, of v k x] by (auto simp: first)
next
  case (Suc h)
  let ?c = "layers ! Suc h ! v ! k"
  have "linked g funcs (layers ! h) v ?c"
    using links Suc.prems unfolding layer_ok_def by (meson Suc_le_eq nth_mem)
  then obtain u k' e p f where u: "u < length (gvTokens g)" "k' < length (layers ! h ! u)" "cdPrevToken ?c = int u" "cdPrevCand ?c = int k'" "cdPool ?c = int p"
    and e: "e \<in> set (gvAdjacency g ! u)" "gvEdgeTargets g ! e = v" "p \<in> set (gvEdgePools g ! e)"
    and f: "funcs ! p = Some f" "f (cdAmount (layers ! h ! u ! k')) (gvTokens g ! u) (gvTokens g ! v) = Some (Inr (cdAmount ?c))"
    unfolding linked_def by blast
  obtain path where path: "\<And>acc. reconstruct g layers h u (int k') acc = Inr (path @ acc)" "length path = h" "connects path (gvTokens g ! s) (gvTokens g ! u)"
    "hop_edge ` set path \<subseteq> view_edges g" "quote_path poolToIndex funcs path x = Some (Inr (cdAmount (layers ! h ! u ! k')))"
    using Suc.IH [OF _ u(1,2)] Suc.prems(1) by auto
  have idx: "poolToIndex (gvPools g ! p) = Some p"
    using index_inv_nth [OF m] view_okD(2) [OF ok u(1) e(1,3)] by simp
  have "(gvTokens g ! u, gvTokens g ! v, gvPools g ! p) \<in> view_edges g"
    using u(1) e ok by (auto simp: view_edges_def view_ok_def)
  then have "hop_edge ` set (path @ [hop g u v p]) \<subseteq> view_edges g"
    using path(4) by (simp add: hop_edge_def hop_def)
  moreover have "quote_path poolToIndex funcs (path @ [hop g u v p]) x = Some (Inr (cdAmount ?c))"
    using path(5) idx f by (simp add: quote_path_append hop_def)
  moreover have "\<forall>acc. reconstruct g layers (Suc h) v (int k) acc = Inr ((path @ [hop g u v p]) @ acc)"
    using u path(1) Suc.prems(3) by (simp add: Let_def hop_def)
  moreover have "length (path @ [hop g u v p]) = Suc h" "connects (path @ [hop g u v p]) (gvTokens g ! s) (gvTokens g ! v)"
    using path(2,3) by (simp_all add: hop_def)
  ultimately show ?case
    by blast
qed

text \<open>The amount of the best candidate so far.\<close>

definition best_amount :: "(nat \<times> nat \<times> candidate) option \<Rightarrow> int" where
  "best_amount best = (case best of None \<Rightarrow> 0 | Some (h, k, c) \<Rightarrow> cdAmount c)"

definition best_ok :: "(nat \<times> nat \<times> candidate) option \<Rightarrow> bool" where
  "best_ok best \<longleftrightarrow> best = None \<or> 0 < best_amount best"

lemma better_end_step:
  assumes "best_ok best"
  shows "best_ok (better_end best entry) \<and> best_amount best \<le> best_amount (better_end best entry) \<and> cdAmount (snd (snd entry)) \<le> best_amount (better_end best entry) \<and>
    (better_end best entry = best \<or> better_end best entry = Some entry)"
  using assms unfolding better_end_def best_ok_def best_amount_def betterAmount_def
  by (cases entry; cases best) (auto split: if_splits)

lemma better_end_fold:
  "best_ok best \<Longrightarrow> best_ok (foldl better_end best es) \<and> best_amount best \<le> best_amount (foldl better_end best es) \<and>
   (\<forall>entry \<in> set es. cdAmount (snd (snd entry)) \<le> best_amount (foldl better_end best es)) \<and>
   (foldl better_end best es = best \<or> foldl better_end best es \<in> Some ` set es)"
proof (induction es arbitrary: best)
  case (Cons entry es)
  note step = better_end_step [OF Cons.prems, of entry]
  note ih = Cons.IH [OF step [THEN conjunct1]]
  then show ?case
    using step by (auto intro: order_trans)
qed simp

lemma set_end_entries: "(h, k, c) \<in> set (end_entries layers runs v) \<longleftrightarrow> 1 \<le> h \<and> h \<le> runs \<and> k < length (layers ! h ! v) \<and> c = layers ! h ! v ! k"
  by (auto simp: end_entries_def)

section \<open>The best path by layers\<close>

text \<open>
  C35: The layered search. On the router of a consistent view, with quotes that return, it always returns, and the way back from the best candidate never
  fails. A path it reports has at most \<open>runs\<close> swaps, leads from the one token to the other over pools of the graph, and its amount is what
  \<^verbatim>\<open>GetAmountOut\<close> quotes for it with the same overrides; the amount is not below any direct quote, although only three
  candidates per token and two pools per edge are kept. Without a path, and with valid arguments, no direct quote is positive.
\<close>

theorem topk_path_sound:
  assumes ok: "router_ok r" and ov: "overrides_ok ov"
    and orders: "range_order ord3" "range_order ord2" "range_order ord3'" "range_order ord2'"
    and ret: "quotes_return (patched_quotes U ord3 ord2 r ov)"
  shows "case FindBestSwapPathTopK U ord3 ord2 r runs amountIn tokenIn tokenOut ov of
      None \<Rightarrow> False
    | Some (Inr (path, amount)) \<Rightarrow> good_path U ord3' ord2' r ov amountIn tokenIn tokenOut path amount \<and> int (length path) \<le> runs \<and>
        (\<forall>pool b. direct_quote U ord3' ord2' r ov amountIn tokenIn tokenOut pool b \<longrightarrow> b \<le> amount)
    | Some (Inl err) \<Rightarrow> (err = ErrInvalidRuns runs \<and> runs \<le> 0) \<or>
        (err = ErrTokenNotInGraph tokenIn \<and> tokenIn \<notin> set (gvTokens (rtGraph r))) \<or>
        (err = ErrTokenNotInGraph tokenOut \<and> tokenOut \<notin> set (gvTokens (rtGraph r))) \<or>
        (err = ErrNoPathFound \<and> (0 < amountIn \<longrightarrow> (\<forall>pool b. direct_quote U ord3' ord2' r ov amountIn tokenIn tokenOut pool b \<longrightarrow> b \<le> 0)))"
proof -
  let ?g = "rtGraph r" and ?funcs = "patched_quotes U ord3 ord2 r ov"
  let ?n = "length (gvTokens ?g)"
  have same: "patched_quotes U ord3' ord2' r ov = ?funcs"
    using patched_quotes_order [OF ok ov orders(3,4,1,2)] .
  have m: "index_inv (gvTokens ?g) (rtTokenToIndex r)" "index_inv (gvPools ?g) (rtPoolToIndex r)" and vok: "view_ok ?g"
    and len: "length ?funcs = length (gvPools ?g)"
    using ok by (simp_all add: router_ok_def patched_quotes_length)
  show ?thesis
  proof (cases "runs \<le> 0 \<or> amountIn \<le> 0 \<or> rtTokenToIndex r tokenIn = None \<or> rtTokenToIndex r tokenOut = None")
    case True
    then show ?thesis
      by (cases "rtTokenToIndex r tokenIn"; cases "rtTokenToIndex r tokenOut")
        (auto simp: FindBestSwapPathTopK_def Let_def index_inv_None_iff [OF m(1), symmetric])
  next
    case False
    then obtain s t where st: "rtTokenToIndex r tokenIn = Some s" "rtTokenToIndex r tokenOut = Some t" and pos: "0 < runs" "0 < amountIn"
      by auto
    have n: "s < ?n" "gvTokens ?g ! s = tokenIn" "t < ?n" "gvTokens ?g ! t = tokenOut"
      using index_invD [OF m(1) st(1)] index_invD [OF m(1) st(2)] by simp_all
    let ?first = "first_layer ?n s amountIn"
    obtain ls where ls: "build_layers ?g ?funcs (nat runs) ?first = Some ls" "ls ! 0 = ?first" "\<forall>h < nat runs. layer_ok ?g ?funcs (ls ! h) (ls ! Suc h)"
      "\<forall>u < ?n. \<forall>c \<in> set (?first ! u). 0 < cdAmount c \<longrightarrow> covered ?g ?funcs u c (gvAdjacency ?g ! u) (ls ! 1)"
      using build_layers_ok [OF vok ret len, of "nat runs" ?first] pos(1) by auto
    let ?best = "foldl better_end None (end_entries ls (nat runs) t)"
    note best = better_end_fold [of None "end_entries ls (nat runs) t"]
    have direct: "b \<le> best_amount ?best" if "direct_quote U ord3' ord2' r ov amountIn tokenIn tokenOut pool b" for pool b
    proof (cases "0 < b")
      case True
      from direct_quoteE [OF that ok st, unfolded same] obtain e p f where e: "e \<in> set (gvAdjacency ?g ! s)" "gvEdgeTargets ?g ! e = t"
        "p \<in> set (gvEdgePools ?g ! e)" "?funcs ! p = Some f" "f amountIn (gvTokens ?g ! s) (gvTokens ?g ! t) = Some (Inr b)" .
      let ?c = "\<lparr>cdAmount = amountIn, cdPrevToken = - 1, cdPrevCand = - 1, cdPool = - 1\<rparr>"
      have "covered ?g ?funcs s ?c (gvAdjacency ?g ! s) (ls ! 1)"
        using ls(4) n(1) pos(2) by (simp add: first_layer_def)
      then obtain d where d: "d \<in> set (ls ! 1 ! t)" "b \<le> cdAmount d"
        using e True unfolding covered_def by fastforce
      then obtain k where "k < length (ls ! 1 ! t)" "d = ls ! 1 ! t ! k"
        by (metis in_set_conv_nth)
      then have "(1, k, d) \<in> set (end_entries ls (nat runs) t)"
        using pos(1) by (simp add: set_end_entries)
      then show ?thesis
        using best d(2) by (force simp: best_ok_def)
    next
      case False
      then show ?thesis
        using best by (simp add: best_ok_def best_amount_def)
    qed
    have find: "FindBestSwapPathTopK U ord3 ord2 r runs amountIn tokenIn tokenOut ov =
        (case ?best of None \<Rightarrow> Some (Inl ErrNoPathFound)
         | Some (h, k, c) \<Rightarrow> (case reconstruct ?g ls h t (int k) [] of Inl err \<Rightarrow> Some (Inl err) | Inr path \<Rightarrow> Some (Inr (path, cdAmount c))))"
      using st ls(1) pos by (simp add: FindBestSwapPathTopK_def Let_def)
    show ?thesis
    proof (cases ?best)
      case None
      then show ?thesis
        using direct find by (simp add: best_amount_def)
    next
      case (Some b)
      obtain h k c where b: "b = (h, k, c)"
        by (cases b)
      have "(h, k, c) \<in> set (end_entries ls (nat runs) t)" and c: "0 < cdAmount c"
        using best Some b by (auto simp: best_ok_def best_amount_def)
      then have hk: "1 \<le> h" "h \<le> nat runs" "k < length (ls ! h ! t)" "c = ls ! h ! t ! k"
        by (simp_all add: set_end_entries)
      obtain path where "reconstruct ?g ls h t (int k) [] = Inr path" "length path = h" "connects path tokenIn tokenOut" "hop_edge ` set path \<subseteq> view_edges ?g"
        "quote_path (rtPoolToIndex r) ?funcs path amountIn = Some (Inr (cdAmount c))"
        using reconstruct_path [OF vok m(2) n(1) ls(2,3) hk(2) n(3) hk(3)] n(2,4) hk(4) by auto
      then show ?thesis
        using find Some b c hk(1,2) direct pos(1) by (auto simp: good_path_def rt_GetAmountOut_def same best_amount_def)
    qed
  qed
qed

lemma wit_topk: "FindBestSwapPathTopK U rev rev wit_router 2 1000 10 30 no_overrides =
  Some (Inr ([\<lparr>tpTokenInID = 10, tpTokenOutID = 20, tpPoolID = 1\<rparr>, \<lparr>tpTokenInID = 20, tpTokenOutID = 30, tpPoolID = 2\<rparr>], 992))"
  by code_simp

theorem topk_path_sound_witness:
  "FindBestSwapPathTopK word_uint256 rev rev wit_router 2 1000 10 30 no_overrides =
     Some (Inr ([\<lparr>tpTokenInID = 10, tpTokenOutID = 20, tpPoolID = 1\<rparr>, \<lparr>tpTokenInID = 20, tpTokenOutID = 30, tpPoolID = 2\<rparr>], 992)) \<and>
   good_path word_uint256 (\<lambda>m. m) (\<lambda>m. m) wit_router no_overrides 1000 10 30
     [\<lparr>tpTokenInID = 10, tpTokenOutID = 20, tpPoolID = 1\<rparr>, \<lparr>tpTokenInID = 20, tpTokenOutID = 30, tpPoolID = 2\<rparr>] 992"
  using topk_path_sound [OF wit_router_ok no_overrides_ok(1) range_order_rev range_order_rev range_order_id range_order_id wit_quotes_return,
      where amountIn = 1000 and runs = 2 and tokenIn = 10 and tokenOut = 30 and U = word_uint256] wit_topk [of word_uint256]
  by simp

end
