(* ===== verification/Router_Rates.thy ===== *)
theory Router_Rates
  imports Swap_Router
begin

text \<open>
  The exchange rates of the router, \<^verbatim>\<open>GetExchangeRates\<close>: the value of an amount of one token in every other token. It is the search by relaxation
  with another rule: an edge uses the pool with the largest reserve, which is looked up once, and a token keeps the
  path that came in over the largest reserve.
\<close>

section \<open>Definitions\<close>

text \<open>The paths, the costs and the bit sets are those of \<open>search\<close>; the best connection of an edge is -1 until it has one.\<close>

record findConversionPathState =
  rsSearch :: search
  rsReserves :: "int list"
  rsBest :: "int list"
  rsComputed :: BitSet
  rsBestReserve :: "int list"

fun best_reserve :: "GetReservesFunc option list \<Rightarrow> int \<Rightarrow> uint64 \<Rightarrow> uint64 \<Rightarrow> nat list \<Rightarrow> int \<times> int \<Rightarrow> (int \<times> int) option" where
  "best_reserve funcs currentCost tokenIn tokenOut [] best = Some best"
| "best_reserve funcs currentCost tokenIn tokenOut (poolIndex # ps) best =
     (case funcs ! poolIndex of
        None \<Rightarrow> best_reserve funcs currentCost tokenIn tokenOut ps best
      | Some getReserveFunc \<Rightarrow>
          (case getReserveFunc tokenIn tokenOut of
             None \<Rightarrow> None
           | Some (Inl err) \<Rightarrow> best_reserve funcs currentCost tokenIn tokenOut ps best
           | Some (Inr (reserveIn, reserveOut)) \<Rightarrow>
               if reserveIn < currentCost then best_reserve funcs currentCost tokenIn tokenOut ps best
               else best_reserve funcs currentCost tokenIn tokenOut ps (if reserveOut > snd best then (int poolIndex, reserveOut) else best)))"

definition connect :: "TokenPoolsRegistryView \<Rightarrow> GetReservesFunc option list \<Rightarrow> nat \<Rightarrow> nat \<Rightarrow> findConversionPathState \<Rightarrow> findConversionPathState option" where
  "connect g reserves currentIndex edgeIndex st =
     (if bs_IsSet (rsComputed st) edgeIndex then Some st
      else case best_reserve reserves (scCosts (rsSearch st) ! currentIndex) (gvTokens g ! currentIndex) (gvTokens g ! (gvEdgeTargets g ! edgeIndex))
                  (gvEdgePools g ! edgeIndex) (- 1, 0) of
             None \<Rightarrow> None
           | Some (bestConnection, bestReserve) \<Rightarrow> Some (if bestConnection \<noteq> - 1
               then st\<lparr>rsBest := (rsBest st)[edgeIndex := bestConnection], rsComputed := bs_Set edgeIndex (rsComputed st),
                       rsBestReserve := (rsBestReserve st)[edgeIndex := bestReserve]\<rparr>
               else st))"

definition follow ::
  "TokenPoolsRegistryView \<Rightarrow> GetAmountOutFunc option list \<Rightarrow> nat \<Rightarrow> TokenPoolPath list \<Rightarrow> nat \<Rightarrow> findConversionPathState \<Rightarrow> findConversionPathState option" where
  "follow g funcs currentIndex currentPath edgeIndex st =
     (let targetIndex = gvEdgeTargets g ! edgeIndex; reserve = rsBestReserve st ! edgeIndex in
      if rsBest st ! edgeIndex = - 1 \<or> \<not> rsReserves st ! targetIndex < reserve then Some st
      else let poolIndex = nat (rsBest st ! edgeIndex) in
        (case funcs ! poolIndex of
           None \<Rightarrow> Some st
         | Some getAmountOut \<Rightarrow>
             (case getAmountOut (scCosts (rsSearch st) ! currentIndex) (gvTokens g ! currentIndex) (gvTokens g ! targetIndex) of
                None \<Rightarrow> None
              | Some (Inl err) \<Rightarrow> Some st
              | Some (Inr amountOut) \<Rightarrow>
                  if amountOut \<le> 0 then Some st
                  else map_option (\<lambda>s. st\<lparr>rsSearch := s, rsReserves := (rsReserves st)[targetIndex := reserve]\<rparr>)
                         (put_path g currentIndex currentPath targetIndex poolIndex amountOut (rsSearch st)))))"

fun rate_edges :: "Router \<Rightarrow> nat \<Rightarrow> TokenPoolPath list \<Rightarrow> nat list \<Rightarrow> findConversionPathState \<Rightarrow> findConversionPathState option" where
  "rate_edges r currentIndex currentPath [] st = Some st"
| "rate_edges r currentIndex currentPath (edgeIndex # es) st =
     (if bs_IsSet (scKnown (rsSearch st) ! currentIndex) (gvEdgeTargets (rtGraph r) ! edgeIndex) then rate_edges r currentIndex currentPath es st
      else case connect (rtGraph r) (rtReserves r) currentIndex edgeIndex st of
             None \<Rightarrow> None
           | Some st' \<Rightarrow>
               (case follow (rtGraph r) (rtAmountOut r) currentIndex currentPath edgeIndex st' of
                  None \<Rightarrow> None
                | Some st'' \<Rightarrow> rate_edges r currentIndex currentPath es st''))"

definition getExchangeRatesUsingMaxReservePath :: "Router \<Rightarrow> nat \<Rightarrow> findConversionPathState \<Rightarrow> (router_error + findConversionPathState) option" where
  "getExchangeRatesUsingMaxReservePath r currentIndex st =
     (if bs_IsSet (scKnown (rsSearch st) ! currentIndex) currentIndex then Some (Inl ErrCycle)
      else map_option Inr (rate_edges r currentIndex (scPaths (rsSearch st) ! currentIndex) (gvAdjacency (rtGraph r) ! currentIndex) st))"

text \<open>A nil set of sources allows every token.\<close>

definition source_allowed :: "uint64 set option \<Rightarrow> uint64 \<Rightarrow> bool" where
  "source_allowed allowedSourceTokens t = (case allowedSourceTokens of None \<Rightarrow> True | Some ts \<Rightarrow> t \<in> ts)"

definition start_rates :: "TokenPoolsRegistryView \<Rightarrow> nat \<Rightarrow> int \<Rightarrow> findConversionPathState" where
  "start_rates g baseIndex baseAmountIn =
     (let numTokens = length (gvTokens g); numEdges = length (gvEdgePools g) in
      \<lparr>rsSearch = start_search numTokens baseIndex baseAmountIn, rsReserves = replicate numTokens 0, rsBest = replicate numEdges (- 1),
       rsComputed = NewBitSet numEdges, rsBestReserve = replicate numEdges 0\<rparr>)"

definition finalExchangeRates :: "uint64 list \<Rightarrow> int list \<Rightarrow> uint64 \<rightharpoonup> int" where
  "finalExchangeRates tokens costs = foldl (\<lambda>m (tokenID, cost). if cost \<noteq> 0 then m(tokenID \<mapsto> cost) else m) Map.empty (zip tokens costs)"

definition GetExchangeRates :: "Router \<Rightarrow> int \<Rightarrow> uint64 \<Rightarrow> int \<Rightarrow> uint64 set option \<Rightarrow> (router_error + (uint64 \<rightharpoonup> int)) option" where
  "GetExchangeRates r baseAmountIn baseTokenID runs allowedSourceTokens =
     (case rtTokenToIndex r baseTokenID of
        None \<Rightarrow> Some (Inl (ErrTokenNotInGraph baseTokenID))
      | Some baseIndex \<Rightarrow>
          let g = rtGraph r in
          (case scan_runs (nat runs) (scan_tokens (\<lambda>j st. scCosts (rsSearch st) ! j \<noteq> 0 \<and> source_allowed allowedSourceTokens (gvTokens g ! j))
                  (getExchangeRatesUsingMaxReservePath r) [0..<length (gvTokens g)]) (start_rates g baseIndex baseAmountIn) of
             None \<Rightarrow> None
           | Some (Inl err) \<Rightarrow> Some (Inl err)
           | Some (Inr st) \<Rightarrow> Some (Inr ((finalExchangeRates (gvTokens g) (scCosts (rsSearch st)))(baseTokenID \<mapsto> baseAmountIn)))))"

section \<open>The connections\<close>

definition reserves_return :: "GetReservesFunc option list \<Rightarrow> bool" where
  "reserves_return funcs \<longleftrightarrow> (\<forall>f. Some f \<in> set funcs \<longrightarrow> (\<forall>i out. f i out \<noteq> None))"

lemma best_reserve_spec:
  assumes ret: "reserves_return funcs"
  shows "set ps \<subseteq> {..<length funcs} \<Longrightarrow> \<exists>bc br. best_reserve funcs c i out ps best = Some (bc, br) \<and> snd best \<le> br \<and>
    ((bc, br) = best \<or> (\<exists>p. bc = int p \<and> p \<in> set ps \<and> funcs ! p \<noteq> None \<and> snd best < br)) \<and>
    (\<forall>p f a b. p \<in> set ps \<and> funcs ! p = Some f \<and> f i out = Some (Inr (a, b)) \<and> c \<le> a \<longrightarrow> b \<le> br)"
proof (induction ps arbitrary: best)
  case (Cons p ps)
  have ps: "set ps \<subseteq> {..<length funcs}"
    using Cons.prems by simp
  show ?case
  proof (cases "\<exists>f a b. funcs ! p = Some f \<and> f i out = Some (Inr (a, b)) \<and> c \<le> a")
    case True
    then obtain f a b where f: "funcs ! p = Some f" "f i out = Some (Inr (a, b))" "c \<le> a"
      by blast
    let ?best = "if b > snd best then (int p, b) else best"
    obtain bc br where IH: "best_reserve funcs c i out ps ?best = Some (bc, br)" "snd ?best \<le> br"
      "(bc, br) = ?best \<or> (\<exists>p. bc = int p \<and> p \<in> set ps \<and> funcs ! p \<noteq> None \<and> snd ?best < br)"
      "\<forall>p f a b. p \<in> set ps \<and> funcs ! p = Some f \<and> f i out = Some (Inr (a, b)) \<and> c \<le> a \<longrightarrow> b \<le> br"
      using Cons.IH [OF ps, of ?best] by blast
    have le: "b \<le> br" "snd best \<le> br"
      using IH(2) by (auto split: if_splits)
    have "(bc, br) = best \<or> (\<exists>q. bc = int q \<and> q \<in> set (p # ps) \<and> funcs ! q \<noteq> None \<and> snd best < br)"
      using IH(3) f(1) by (auto split: if_splits)
    moreover have "\<forall>q f' a' b'. q \<in> set (p # ps) \<and> funcs ! q = Some f' \<and> f' i out = Some (Inr (a', b')) \<and> c \<le> a' \<longrightarrow> b' \<le> br"
      using IH(4) le(1) f by auto
    moreover have "best_reserve funcs c i out (p # ps) best = Some (bc, br)"
      using IH(1) f by simp
    ultimately show ?thesis
      using le(2) by blast
  next
    case False
    have "best_reserve funcs c i out (p # ps) best = best_reserve funcs c i out ps best"
    proof (cases "funcs ! p")
      case (Some f)
      have "Some f \<in> set funcs"
        using Some Cons.prems by (metis lessThan_iff list.set_intros(1) nth_mem subsetD)
      then have "f i out \<noteq> None"
        using ret by (simp add: reserves_return_def)
      then show ?thesis
        using Some False by (auto split: sum.split)
    qed simp
    then show ?thesis
      using Cons.IH [OF ps, of best] False by fastforce
  qed
qed auto

text \<open>A connection that was found is a pool of its edge with a reserve; a token with a reserve has been reached over allowed sources.\<close>

definition connected :: "Router \<Rightarrow> int list \<Rightarrow> int list \<Rightarrow> nat \<Rightarrow> bool" where
  "connected r best bestReserve e \<longleftrightarrow>
     (\<exists>p. best ! e = int p \<and> p \<in> set (gvEdgePools (rtGraph r) ! e) \<and> rtReserves r ! p \<noteq> None \<and> 0 < bestReserve ! e)"

definition cache_ok :: "Router \<Rightarrow> findConversionPathState \<Rightarrow> bool" where
  "cache_ok r st \<longleftrightarrow> (let ne = length (gvEdgePools (rtGraph r)) in
     length (rsBest st) = ne \<and> length (rsBestReserve st) = ne \<and> length (rsComputed st) = (ne + 63) div 64 \<and>
     (\<forall>e < ne. if bs_IsSet (rsComputed st) e then connected r (rsBest st) (rsBestReserve st) e else rsBest st ! e = - 1))"

definition reached_ok :: "Router \<Rightarrow> uint64 set option \<Rightarrow> findConversionPathState \<Rightarrow> bool" where
  "reached_ok r allowed st \<longleftrightarrow> length (rsReserves st) = length (gvTokens (rtGraph r)) \<and>
     (\<forall>j < length (gvTokens (rtGraph r)). (0 < rsReserves st ! j \<longrightarrow> scCosts (rsSearch st) ! j \<noteq> 0) \<and>
        (\<forall>h \<in> set (scPaths (rsSearch st) ! j). source_allowed allowed (tpTokenInID h)))"

lemma connect_finds:
  assumes ok: "router_ok r" and ret: "reserves_return (rtReserves r)" and cache: "cache_ok r st"
    and u: "u < length (gvTokens (rtGraph r))" and e: "e \<in> set (gvAdjacency (rtGraph r) ! u)"
  shows "\<exists>st'. connect (rtGraph r) (rtReserves r) u e st = Some st' \<and> cache_ok r st' \<and> rsSearch st' = rsSearch st \<and> rsReserves st' = rsReserves st \<and>
    (\<forall>p f a b. p \<in> set (gvEdgePools (rtGraph r) ! e) \<and> rtReserves r ! p = Some f \<and> f (gvTokens (rtGraph r) ! u) (gvTokens (rtGraph r) ! (gvEdgeTargets (rtGraph r) ! e)) = Some (Inr (a, b)) \<and>
       scCosts (rsSearch st) ! u \<le> a \<and> 0 < b \<longrightarrow> rsBest st' ! e \<noteq> - 1)"
proof -
  let ?g = "rtGraph r"
  have vok: "view_ok ?g" and len: "length (rtReserves r) = length (gvPools ?g)"
    using ok by (simp_all add: router_ok_def)
  have ne: "e < length (gvEdgePools ?g)"
    using vok u e by (simp add: view_ok_def)
  show ?thesis
  proof (cases "bs_IsSet (rsComputed st) e")
    case True
    then have "connected r (rsBest st) (rsBestReserve st) e"
      using cache ne by (simp add: cache_ok_def Let_def)
    then show ?thesis
      using True cache by (auto simp: connect_def connected_def)
  next
    case False
    have "set (gvEdgePools ?g ! e) \<subseteq> {..<length (rtReserves r)}"
      using view_okD(2) [OF vok u e] len by auto
    from best_reserve_spec [OF ret this, of "scCosts (rsSearch st) ! u" "gvTokens ?g ! u" "gvTokens ?g ! (gvEdgeTargets ?g ! e)" "(- 1, 0)"]
    obtain bc br where bc: "best_reserve (rtReserves r) (scCosts (rsSearch st) ! u) (gvTokens ?g ! u) (gvTokens ?g ! (gvEdgeTargets ?g ! e)) (gvEdgePools ?g ! e) (- 1, 0) = Some (bc, br)"
      and src: "bc = - 1 \<and> br = 0 \<or> (\<exists>p. bc = int p \<and> p \<in> set (gvEdgePools ?g ! e) \<and> rtReserves r ! p \<noteq> None \<and> 0 < br)"
      and max: "\<forall>p f a b. p \<in> set (gvEdgePools ?g ! e) \<and> rtReserves r ! p = Some f \<and> f (gvTokens ?g ! u) (gvTokens ?g ! (gvEdgeTargets ?g ! e)) = Some (Inr (a, b)) \<and>
        scCosts (rsSearch st) ! u \<le> a \<longrightarrow> b \<le> br"
      by (elim exE conjE) (rule that, simp_all)
    show ?thesis
    proof (cases "bc = - 1")
      case True
      then have "br = 0"
        using src by auto
      then show ?thesis
        using False bc True max cache by (fastforce simp: connect_def)
    next
      case found: False
      let ?st = "st\<lparr>rsBest := (rsBest st)[e := bc], rsComputed := bs_Set e (rsComputed st), rsBestReserve := (rsBestReserve st)[e := br]\<rparr>"
      have "e div 64 < length (rsComputed st)"
        using cache ne by (auto simp: cache_ok_def Let_def)
      then have "cache_ok r ?st"
        using cache ne src found by (auto simp: cache_ok_def Let_def bs_IsSet_Set nth_list_update connected_def)
      moreover have "connect ?g (rtReserves r) u e st = Some ?st" "rsBest ?st ! e = bc"
        using False bc found cache ne by (simp_all add: connect_def cache_ok_def Let_def)
      ultimately show ?thesis
        using found by auto
    qed
  qed
qed

section \<open>The steps of the search\<close>

definition rating :: "Router \<Rightarrow> nat \<Rightarrow> int \<Rightarrow> uint64 set option \<Rightarrow> nat \<Rightarrow> TokenPoolPath list \<Rightarrow> findConversionPathState \<Rightarrow> bool" where
  "rating r s x allowed u path st \<longleftrightarrow> cache_ok r st \<and> reached_ok r allowed st \<and> expands (rtGraph r) (rtAmountOut r) s x u path (rsSearch st) \<and>
     source_allowed allowed (gvTokens (rtGraph r) ! u) \<and> (\<forall>h \<in> set path. source_allowed allowed (tpTokenInID h))"

definition reached_grow :: "Router \<Rightarrow> findConversionPathState \<Rightarrow> findConversionPathState \<Rightarrow> bool" where
  "reached_grow r st st' \<longleftrightarrow> (\<forall>j < length (gvTokens (rtGraph r)). scCosts (rsSearch st) ! j \<noteq> 0 \<longrightarrow> scCosts (rsSearch st') ! j \<noteq> 0)"

lemma reached_grow_refl [simp]: "reached_grow r st st"
  by (simp add: reached_grow_def)

lemma reached_grow_trans: "reached_grow r a b \<Longrightarrow> reached_grow r b c \<Longrightarrow> reached_grow r a c"
  by (simp add: reached_grow_def)

text \<open>Every pool of the edge that has reserves quotes a positive amount.\<close>

definition edge_quotes :: "Router \<Rightarrow> int \<Rightarrow> nat \<Rightarrow> nat \<Rightarrow> bool" where
  "edge_quotes r y u e \<longleftrightarrow> (\<forall>p \<in> set (gvEdgePools (rtGraph r) ! e). rtReserves r ! p \<noteq> None \<longrightarrow>
     (\<exists>q z. rtAmountOut r ! p = Some q \<and> q y (gvTokens (rtGraph r) ! u) (gvTokens (rtGraph r) ! (gvEdgeTargets (rtGraph r) ! e)) = Some (Inr z) \<and> 0 < z))"

definition kept :: "nat \<Rightarrow> findConversionPathState \<Rightarrow> findConversionPathState \<Rightarrow> bool" where
  "kept u st st' \<longleftrightarrow> scKnown (rsSearch st') ! u = scKnown (rsSearch st) ! u \<and> scCosts (rsSearch st') ! u = scCosts (rsSearch st) ! u"

lemma put_path_paths: "put_path g u path v p z st = Some st' \<Longrightarrow> scPaths st' = (scPaths st)[v := path @ [hop g u v p]]"
  by (auto simp: put_path_def hop_def split: option.splits)

lemma follow_rates:
  assumes ok: "router_ok r" and s: "s < length (gvTokens (rtGraph r))" and ret: "quotes_return (rtAmountOut r)"
    and rt: "rating r s x allowed u path st" and e: "e \<in> set (gvAdjacency (rtGraph r) ! u)"
    and fresh: "\<not> bs_IsSet (scKnown (rsSearch st) ! u) (gvEdgeTargets (rtGraph r) ! e)"
  shows "\<exists>st'. follow (rtGraph r) (rtAmountOut r) u path e st = Some st' \<and> rating r s x allowed u path st' \<and> kept u st st' \<and> reached_grow r st st' \<and>
    (rsBest st ! e \<noteq> - 1 \<and> edge_quotes r (scCosts (rsSearch st) ! u) u e \<longrightarrow> scCosts (rsSearch st') ! (gvEdgeTargets (rtGraph r) ! e) \<noteq> 0)"
proof -
  let ?g = "rtGraph r" and ?funcs = "rtAmountOut r" and ?v = "gvEdgeTargets (rtGraph r) ! e" and ?S = "rsSearch st"
  have vok: "view_ok ?g" and len: "length ?funcs = length (gvPools ?g)"
    using ok by (simp_all add: router_ok_def)
  have ex: "expands ?g ?funcs s x u path ?S" and cache: "cache_ok r st" and reached: "reached_ok r allowed st"
    and src: "source_allowed allowed (gvTokens ?g ! u)" "\<forall>h \<in> set path. source_allowed allowed (tpTokenInID h)"
    using rt by (simp_all add: rating_def)
  have u: "u < length (gvTokens ?g)" and inv: "search_inv ?g ?funcs s x ?S"
    and route: "route ?g ?funcs s x u path (scCosts ?S ! u) (bits (length (gvTokens ?g)) (scKnown ?S ! u))"
    using ex by (simp_all add: expands_def)
  have v: "?v < length (gvTokens ?g)" and ne: "e < length (gvEdgePools ?g)"
    using vok u e by (simp_all add: view_ok_def)
  show ?thesis
  proof (cases "rsBest st ! e = - 1")
    case True
    then show ?thesis
      using rt by (simp add: follow_def Let_def kept_def)
  next
    case False
    then obtain p where p: "rsBest st ! e = int p" "p \<in> set (gvEdgePools ?g ! e)" "rtReserves r ! p \<noteq> None" "0 < rsBestReserve st ! e"
      using cache ne by (auto simp: cache_ok_def Let_def connected_def split: if_splits)
    show ?thesis
    proof (cases "rsReserves st ! ?v < rsBestReserve st ! e \<and> (\<exists>f z. ?funcs ! p = Some f \<and> f (scCosts ?S ! u) (gvTokens ?g ! u) (gvTokens ?g ! ?v) = Some (Inr z) \<and> 0 < z)")
      case True
      then obtain f z where f: "rsReserves st ! ?v < rsBestReserve st ! e" "?funcs ! p = Some f"
        "f (scCosts ?S ! u) (gvTokens ?g ! u) (gvTokens ?g ! ?v) = Some (Inr z)" "0 < z"
        by blast
      have vu: "?v \<noteq> u"
        using view_okD(3) [OF vok u e p(2)] .
      have "?v \<noteq> s"
      proof
        assume "?v = s"
        then have "s \<in> bits (length (gvTokens ?g)) (scKnown ?S ! u)"
          using route_empty [OF route] vu by (auto split: if_splits)
        then show False
          using fresh \<open>?v = s\<close> by (simp add: bits_def)
      qed
      then obtain S' where S': "put_path ?g u path ?v p z ?S = Some S'" "expands ?g ?funcs s x u path S'" "scCosts S' = (scCosts ?S)[?v := z]"
        "scKnown S' ! u = scKnown ?S ! u"
        using put_path_expands [OF vok s ex e refl p(2) _ fresh f(2,3,4)] by blast
      let ?st = "st\<lparr>rsSearch := S', rsReserves := (rsReserves st)[?v := rsBestReserve st ! e]\<rparr>"
      have "follow ?g ?funcs u path e st = Some ?st"
        using p(1) f S'(1) by (simp add: follow_def Let_def)
      moreover have "reached_ok r allowed ?st"
        using reached src f(4) v search_invD(1,2) [OF inv] unfolding reached_ok_def
        by (auto simp: S'(3) put_path_paths [OF S'(1)] nth_list_update hop_def)
      moreover have "cache_ok r ?st"
        using cache by (simp add: cache_ok_def Let_def)
      moreover have "kept u st ?st" "reached_grow r st ?st" "scCosts S' ! ?v \<noteq> 0"
        using S'(3,4) vu f(4) v search_invD(2) [OF inv] by (auto simp: kept_def reached_grow_def nth_list_update)
      ultimately show ?thesis
        using S'(2) src by (auto simp: rating_def)
    next
      case idle: False
      have "follow ?g ?funcs u path e st = Some st"
      proof (cases "?funcs ! p")
        case (Some f)
        have "Some f \<in> set ?funcs"
          using Some view_okD(2) [OF vok u e p(2)] len by (metis nth_mem)
        then have "f (scCosts ?S ! u) (gvTokens ?g ! u) (gvTokens ?g ! ?v) \<noteq> None"
          using ret by (simp add: quotes_return_def)
        then show ?thesis
          using idle Some p(1) by (auto simp: follow_def Let_def split: sum.split)
      qed (simp add: follow_def Let_def p(1))
      moreover have "scCosts ?S ! ?v \<noteq> 0" if "edge_quotes r (scCosts ?S ! u) u e"
      proof -
        have "\<not> rsReserves st ! ?v < rsBestReserve st ! e"
          using idle that p(2,3) unfolding edge_quotes_def by blast
        then show ?thesis
          using reached v p(4) by (simp add: reached_ok_def)
      qed
      ultimately show ?thesis
        using rt by (simp add: kept_def)
    qed
  qed
qed

text \<open>The edge also has a pool that can take the amount and has a reserve of the other token.\<close>

definition funded_edge :: "Router \<Rightarrow> int \<Rightarrow> nat \<Rightarrow> nat \<Rightarrow> bool" where
  "funded_edge r y u e \<longleftrightarrow> edge_quotes r y u e \<and> (\<exists>p f a b. p \<in> set (gvEdgePools (rtGraph r) ! e) \<and> rtReserves r ! p = Some f \<and>
     f (gvTokens (rtGraph r) ! u) (gvTokens (rtGraph r) ! (gvEdgeTargets (rtGraph r) ! e)) = Some (Inr (a, b)) \<and> y \<le> a \<and> 0 < b)"

definition follows :: "Router \<Rightarrow> nat \<Rightarrow> int \<Rightarrow> BitSet \<Rightarrow> nat list \<Rightarrow> findConversionPathState \<Rightarrow> bool" where
  "follows r u y known es st \<longleftrightarrow> (\<forall>e \<in> set es. funded_edge r y u e \<and> \<not> bs_IsSet known (gvEdgeTargets (rtGraph r) ! e) \<longrightarrow>
     scCosts (rsSearch st) ! (gvEdgeTargets (rtGraph r) ! e) \<noteq> 0)"

lemma follows_grow:
  assumes "follows r u y known es st" "reached_grow r st st'" "\<forall>e \<in> set es. gvEdgeTargets (rtGraph r) ! e < length (gvTokens (rtGraph r))"
  shows "follows r u y known es st'"
  using assms unfolding follows_def reached_grow_def by blast

lemma rate_edge:
  assumes ok: "router_ok r" and s: "s < length (gvTokens (rtGraph r))" and ret: "quotes_return (rtAmountOut r)" "reserves_return (rtReserves r)"
    and rt: "rating r s x allowed u path st" and e: "e \<in> set (gvAdjacency (rtGraph r) ! u)"
  shows "\<exists>st'. rate_edges r u path [e] st = Some st' \<and> rating r s x allowed u path st' \<and> kept u st st' \<and> reached_grow r st st' \<and>
    follows r u (scCosts (rsSearch st) ! u) (scKnown (rsSearch st) ! u) [e] st' \<and> (\<forall>es. rate_edges r u path (e # es) st = rate_edges r u path es st')"
proof (cases "bs_IsSet (scKnown (rsSearch st) ! u) (gvEdgeTargets (rtGraph r) ! e)")
  case True
  then show ?thesis
    using rt by (simp add: kept_def follows_def)
next
  case False
  have u: "u < length (gvTokens (rtGraph r))" and cache: "cache_ok r st"
    using rt by (simp_all add: rating_def expands_def)
  obtain st1 where st1: "connect (rtGraph r) (rtReserves r) u e st = Some st1" "cache_ok r st1" "rsSearch st1 = rsSearch st" "rsReserves st1 = rsReserves st"
    and best: "funded_edge r (scCosts (rsSearch st) ! u) u e \<Longrightarrow> rsBest st1 ! e \<noteq> - 1"
    using connect_finds [OF ok ret(2) cache u e] unfolding funded_edge_def by blast
  have rt1: "rating r s x allowed u path st1"
    using rt st1 by (simp add: rating_def reached_ok_def)
  obtain st2 where st2: "follow (rtGraph r) (rtAmountOut r) u path e st1 = Some st2" "rating r s x allowed u path st2" "kept u st1 st2" "reached_grow r st1 st2"
    "rsBest st1 ! e \<noteq> - 1 \<and> edge_quotes r (scCosts (rsSearch st) ! u) u e \<longrightarrow> scCosts (rsSearch st2) ! (gvEdgeTargets (rtGraph r) ! e) \<noteq> 0"
    using follow_rates [OF ok s ret(1) rt1 e] False st1(3) by metis
  have "kept u st st2" "reached_grow r st st2"
    using st2(3,4) st1(3) by (simp_all add: kept_def reached_grow_def)
  moreover have "follows r u (scCosts (rsSearch st) ! u) (scKnown (rsSearch st) ! u) [e] st2"
    using st2(5) best by (simp add: follows_def funded_edge_def)
  ultimately show ?thesis
    using False st1(1) st2(1,2) by auto
qed

lemma rate_edges_rates:
  assumes ok: "router_ok r" and s: "s < length (gvTokens (rtGraph r))" and ret: "quotes_return (rtAmountOut r)" "reserves_return (rtReserves r)"
  shows "rating r s x allowed u path st \<Longrightarrow> set es \<subseteq> set (gvAdjacency (rtGraph r) ! u) \<Longrightarrow>
    \<exists>st'. rate_edges r u path es st = Some st' \<and> rating r s x allowed u path st' \<and> reached_grow r st st' \<and>
      follows r u (scCosts (rsSearch st) ! u) (scKnown (rsSearch st) ! u) es st'"
proof (induction es arbitrary: st)
  case Nil
  then show ?case
    by (simp add: follows_def)
next
  case (Cons e es)
  let ?y = "scCosts (rsSearch st) ! u" and ?known = "scKnown (rsSearch st) ! u"
  have e: "e \<in> set (gvAdjacency (rtGraph r) ! u)" and u: "u < length (gvTokens (rtGraph r))"
    using Cons.prems by (simp_all add: rating_def expands_def)
  obtain st1 where st1: "rating r s x allowed u path st1" "kept u st st1" "reached_grow r st st1" "follows r u ?y ?known [e] st1"
    "rate_edges r u path (e # es) st = rate_edges r u path es st1"
    using rate_edge [OF ok s ret Cons.prems(1) e] by blast
  obtain st2 where st2: "rate_edges r u path es st1 = Some st2" "rating r s x allowed u path st2" "reached_grow r st1 st2" "follows r u ?y ?known es st2"
    using Cons.IH [OF st1(1)] Cons.prems(2) st1(2) by (auto simp: kept_def)
  have "view_ok (rtGraph r)"
    using ok by (simp add: router_ok_def)
  then have "follows r u ?y ?known [e] st2"
    using follows_grow [OF st1(4) st2(3)] view_okD(1) [OF _ u e] by simp
  then have "follows r u ?y ?known (e # es) st2"
    using st2(4) by (simp add: follows_def)
  then show ?case
    using st1(5) st2 reached_grow_trans [OF st1(3) st2(3)] by auto
qed

definition rating_inv :: "Router \<Rightarrow> nat \<Rightarrow> int \<Rightarrow> uint64 set option \<Rightarrow> findConversionPathState \<Rightarrow> bool" where
  "rating_inv r s x allowed st \<longleftrightarrow> router_ok r \<and> s < length (gvTokens (rtGraph r)) \<and> quotes_return (rtAmountOut r) \<and> reserves_return (rtReserves r) \<and>
     cache_ok r st \<and> reached_ok r allowed st \<and> search_inv (rtGraph r) (rtAmountOut r) s x (rsSearch st)"

lemma rates_step:
  assumes inv: "rating_inv r s x allowed st" and u: "u < length (gvTokens (rtGraph r))" "scCosts (rsSearch st) ! u \<noteq> 0"
    "source_allowed allowed (gvTokens (rtGraph r) ! u)"
  shows "\<exists>st'. getExchangeRatesUsingMaxReservePath r u st = Some (Inr st') \<and> rating_inv r s x allowed st' \<and> reached_grow r st st' \<and>
    follows r u (scCosts (rsSearch st) ! u) (scKnown (rsSearch st) ! u) (gvAdjacency (rtGraph r) ! u) st'"
proof -
  let ?g = "rtGraph r" and ?path = "scPaths (rsSearch st) ! u"
  have ok: "router_ok r" "view_ok ?g" "s < length (gvTokens ?g)" "quotes_return (rtAmountOut r)" "reserves_return (rtReserves r)"
    and sinv: "search_inv ?g (rtAmountOut r) s x (rsSearch st)"
    using inv by (simp_all add: rating_inv_def router_ok_def)
  have route: "route ?g (rtAmountOut r) s x u ?path (scCosts (rsSearch st) ! u) (bits (length (gvTokens ?g)) (scKnown (rsSearch st) ! u))"
    using search_invD(6) [OF sinv u(1)] u(2) by simp
  have no_cycle: "\<not> bs_IsSet (scKnown (rsSearch st) ! u) u"
    using route_range [OF ok(2,3) route] u(1) by (simp add: bits_def)
  have "rating r s x allowed u ?path st"
    using inv u route by (simp add: rating_def rating_inv_def expands_def reached_ok_def)
  from rate_edges_rates [OF ok(1,3,4,5) this subset_refl] no_cycle inv show ?thesis
    by (auto simp: getExchangeRatesUsingMaxReservePath_def rating_def rating_inv_def expands_def)
qed

interpretation rates: relaxation "rating_inv r s x allowed" "reached_grow r"
  "\<lambda>j st. scCosts (rsSearch st) ! j \<noteq> 0 \<and> source_allowed allowed (gvTokens (rtGraph r) ! j)"
  "getExchangeRatesUsingMaxReservePath r" "length (gvTokens (rtGraph r))"
  for r s x allowed
proof unfold_locales
  show "\<exists>st'. getExchangeRatesUsingMaxReservePath r j st = Some (Inr st') \<and> rating_inv r s x allowed st' \<and> reached_grow r st st'"
    if "rating_inv r s x allowed st" "j < length (gvTokens (rtGraph r))" "scCosts (rsSearch st) ! j \<noteq> 0 \<and> source_allowed allowed (gvTokens (rtGraph r) ! j)" for st j
    using rates_step [OF that(1,2)] that(3) by blast
qed (auto intro: reached_grow_trans)

lemma start_rating:
  assumes "router_ok r" "s < length (gvTokens (rtGraph r))" "quotes_return (rtAmountOut r)" "reserves_return (rtReserves r)"
  shows "rating_inv r s x allowed (start_rates (rtGraph r) s x)"
proof -
  have "cache_ok r (start_rates (rtGraph r) s x)"
    by (auto simp: cache_ok_def Let_def start_rates_def bs_IsSet_New)
  moreover have "reached_ok r allowed (start_rates (rtGraph r) s x)"
    by (simp add: reached_ok_def Let_def start_rates_def start_search_def)
  ultimately show ?thesis
    using assms start_searching [OF assms(2)] by (simp add: rating_inv_def start_rates_def Let_def)
qed

section \<open>The exchange rates\<close>

lemma finalExchangeRates_zip:
  assumes "distinct tokens" "length costs = length tokens"
  shows "foldl (\<lambda>m (tokenID, cost). if cost \<noteq> 0 then m(tokenID \<mapsto> cost) else m) m (zip tokens costs) t =
    (case map_of (zip tokens costs) t of Some c \<Rightarrow> if c \<noteq> (0::int) then Some c else m t | None \<Rightarrow> m t)"
  using assms
proof (induction tokens arbitrary: costs m)
  case (Cons k ks)
  obtain c cs where cs: "costs = c # cs" "length cs = length ks"
    using Cons.prems(2) by (cases costs) auto
  have "map_of (zip ks cs) k = None"
    using Cons.prems(1) cs(2) by (auto simp: map_of_eq_None_iff dest: set_zip_leftD)
  then show ?case
    using Cons.IH [OF _ cs(2)] Cons.prems(1) by (auto simp: cs(1) split: option.split)
qed simp

lemma finalExchangeRates_nth:
  assumes "distinct tokens" "length costs = length tokens" "j < length tokens"
  shows "finalExchangeRates tokens costs (tokens ! j) = (if costs ! j \<noteq> 0 then Some (costs ! j) else None)"
  using map_of_zip_nth [of tokens costs j] assms by (simp add: finalExchangeRates_def finalExchangeRates_zip)

lemma finalExchangeRates_Some:
  assumes "distinct tokens" "length costs = length tokens" "finalExchangeRates tokens costs t = Some y"
  shows "\<exists>j < length tokens. t = tokens ! j \<and> y = costs ! j \<and> y \<noteq> 0"
proof -
  have "map_of (zip tokens costs) t = Some y" "y \<noteq> 0"
    using assms by (auto simp: finalExchangeRates_def finalExchangeRates_zip split: option.splits if_splits)
  then show ?thesis
    using map_of_SomeD [of "zip tokens costs" t y] by (auto simp: set_zip)
qed

lemma no_overrides_quotes:
  assumes "router_ok r" "range_order ord3" "range_order ord2"
  shows "patched_quotes U ord3 ord2 r no_overrides = rtAmountOut r"
  using patched_quotes_order [OF assms(1) no_overrides_ok(1) assms(2,3) range_order_rev range_order_rev] no_overrides_ok(2) by metis

text \<open>An edge from the base to the token has a pool that can take the amount and has a reserve, and its pools quote positive amounts.\<close>

definition funded :: "Router \<Rightarrow> int \<Rightarrow> uint64 \<Rightarrow> uint64 \<Rightarrow> bool" where
  "funded r x base t \<longleftrightarrow> (\<exists>u e. rtTokenToIndex r base = Some u \<and> e \<in> set (gvAdjacency (rtGraph r) ! u) \<and>
     t = gvTokens (rtGraph r) ! (gvEdgeTargets (rtGraph r) ! e) \<and> funded_edge r x u e)"

lemma rates_reach_funded:
  assumes inv: "rating_inv r s x allowed (start_rates (rtGraph r) s x)" and m: "0 < m" and x: "x \<noteq> 0"
    and src: "source_allowed allowed (gvTokens (rtGraph r) ! s)"
    and run: "scan_runs m (rates.scan allowed r [0..<length (gvTokens (rtGraph r))]) (start_rates (rtGraph r) s x) = Some (Inr st)"
  shows "follows r s x (NewBitSet (length (gvTokens (rtGraph r)))) (gvAdjacency (rtGraph r) ! s) st"
proof -
  let ?g = "rtGraph r"
  let ?n = "length (gvTokens ?g)"
  have vok: "view_ok ?g" and s: "s < ?n"
    using inv by (simp_all add: rating_inv_def router_ok_def)
  note targets = view_okD(1) [OF vok s]
  show ?thesis
  proof (rule rates.runs_reach [OF inv m s _ _ _ run])
    show "scCosts (rsSearch st') ! s \<noteq> 0 \<and> source_allowed allowed (gvTokens ?g ! s)" if "rating_inv r s x allowed st'" for st'
      using that x src search_invD(5) by (auto simp: rating_inv_def)
    show "follows r s x (NewBitSet ?n) (gvAdjacency ?g ! s) st2"
      if st1: "rating_inv r s x allowed st1" "getExchangeRatesUsingMaxReservePath r s st1 = Some (Inr st2)" for st1 st2
    proof -
      have sinv: "search_inv ?g (rtAmountOut r) s x (rsSearch st1)"
        using st1(1) by (simp add: rating_inv_def)
      note c = search_invD(5) [OF sinv]
      have fl: "follows r s x (scKnown (rsSearch st1) ! s) (gvAdjacency ?g ! s) st2"
        using rates_step [OF st1(1) s] c x src st1(2) by auto
      have route: "route ?g (rtAmountOut r) s x s (scPaths (rsSearch st1) ! s) x (bits ?n (scKnown (rsSearch st1) ! s))"
        using search_invD(6) [OF sinv s] c x by auto
      then have "bits ?n (scKnown (rsSearch st1) ! s) = {}"
        using route_empty [OF route] route_range [OF vok s route] by (auto split: if_splits)
      then have "\<not> bs_IsSet (scKnown (rsSearch st1) ! s) j" if "j < ?n" for j
        using that by (auto simp: bits_def)
      then show ?thesis
        using fl targets unfolding follows_def by blast
    qed
    show "follows r s x (NewBitSet ?n) (gvAdjacency ?g ! s) b" if "follows r s x (NewBitSet ?n) (gvAdjacency ?g ! s) a" "reached_grow r a b" for a b
      using follows_grow [OF that] targets by blast
  qed
qed

text \<open>
  C36: The exchange rates. On the router of a consistent view, with quotes and reserves that return, \<^verbatim>\<open>GetExchangeRates\<close> returns a rate table for
  every base token of the graph and never reports a cycle. The rate of the base is the amount itself. The rate of any other token
  is what \<^verbatim>\<open>GetAmountOut\<close> quotes for a path from the base to the token over pools of the graph that visits no token
  twice and swaps from allowed tokens only. If the base is allowed and there is at least one run, every token that is joined
  to the base by a funded edge has a rate.
\<close>

theorem exchange_rates_sound:
  assumes ok: "router_ok r" and ret: "quotes_return (rtAmountOut r)" "reserves_return (rtReserves r)"
    and orders: "range_order ord3" "range_order ord2"
  shows "case GetExchangeRates r x base runs allowed of
      None \<Rightarrow> False
    | Some (Inl err) \<Rightarrow> err = ErrTokenNotInGraph base \<and> base \<notin> set (gvTokens (rtGraph r))
    | Some (Inr exchangeRates) \<Rightarrow> exchangeRates base = Some x \<and>
        (\<forall>t y. exchangeRates t = Some y \<and> t \<noteq> base \<longrightarrow> (\<exists>path. good_path U ord3 ord2 r no_overrides x base t path y \<and>
           distinct (map tpTokenInID path @ [t]) \<and> (\<forall>h \<in> set path. source_allowed allowed (tpTokenInID h)))) \<and>
        (x \<noteq> 0 \<and> 0 < runs \<and> source_allowed allowed base \<longrightarrow> (\<forall>t. funded r x base t \<longrightarrow> exchangeRates t \<noteq> None))"
proof -
  let ?g = "rtGraph r"
  have m: "index_inv (gvTokens ?g) (rtTokenToIndex r)" and vok: "view_ok ?g" "distinct (gvTokens ?g)"
    using ok by (simp_all add: router_ok_def view_ok_def)
  show ?thesis
  proof (cases "rtTokenToIndex r base")
    case None
    then show ?thesis
      by (simp add: GetExchangeRates_def index_inv_None_iff [OF m, symmetric])
  next
    case (Some s)
    have s: "s < length (gvTokens ?g)" "gvTokens ?g ! s = base"
      using index_invD [OF m Some] by simp_all
    note start = start_rating [OF ok s(1) ret, of x allowed]
    obtain st where st: "scan_runs (nat runs) (rates.scan allowed r [0..<length (gvTokens ?g)]) (start_rates ?g s x) = Some (Inr st)"
      "rating_inv r s x allowed st"
      using rates.runs_keep [OF start, of "nat runs"] by blast
    let ?costs = "scCosts (rsSearch st)"
    have inv: "search_inv ?g (rtAmountOut r) s x (rsSearch st)" and reached: "reached_ok r allowed st"
      using st(2) by (simp_all add: rating_inv_def)
    note len = search_invD(2) [OF inv]
    have "\<exists>path. good_path U ord3 ord2 r no_overrides x base t path y \<and> distinct (map tpTokenInID path @ [t]) \<and>
        (\<forall>h \<in> set path. source_allowed allowed (tpTokenInID h))"
      if rate: "finalExchangeRates (gvTokens ?g) ?costs t = Some y" "t \<noteq> base" for t y
    proof -
      obtain j where j: "j < length (gvTokens ?g)" "t = gvTokens ?g ! j" "y = ?costs ! j" "y \<noteq> 0"
        using finalExchangeRates_Some [OF vok(2) len rate(1)] by blast
      have route: "route ?g (rtAmountOut r) s x j (scPaths (rsSearch st) ! j) y (bits (length (gvTokens ?g)) (scKnown (rsSearch st) ! j))"
        using search_invD(6) [OF inv j(1)] j(3,4) by auto
      have "scPaths (rsSearch st) ! j \<noteq> []"
        using route_empty [OF route] rate(2) s(2) j(2) by auto
      moreover have "rtTokenToIndex r t = Some j"
        using index_inv_nth [OF m j(1)] j(2) by simp
      ultimately have "good_path U ord3 ord2 r no_overrides x base t (scPaths (rsSearch st) ! j) y \<and> distinct (map tpTokenInID (scPaths (rsSearch st) ! j) @ [t])"
        using route_good [OF ok no_overrides_quotes [OF ok orders, symmetric] Some _ route] by blast
      moreover have "\<forall>h \<in> set (scPaths (rsSearch st) ! j). source_allowed allowed (tpTokenInID h)"
        using reached j(1) by (simp add: reached_ok_def)
      ultimately show ?thesis
        by blast
    qed
    moreover have "finalExchangeRates (gvTokens ?g) ?costs t \<noteq> None"
      if hyps: "x \<noteq> 0" "0 < runs" "source_allowed allowed base" and funded: "funded r x base t" for t
    proof -
      obtain e where e: "e \<in> set (gvAdjacency ?g ! s)" "t = gvTokens ?g ! (gvEdgeTargets ?g ! e)" "funded_edge r x s e"
        using funded Some by (auto simp: funded_def)
      have v: "gvEdgeTargets ?g ! e < length (gvTokens ?g)"
        using view_okD(1) [OF vok(1) s(1) e(1)] .
      have "?costs ! (gvEdgeTargets ?g ! e) \<noteq> 0"
        using rates_reach_funded [OF start _ hyps(1) _ st(1)] hyps(2,3) s(2) e bs_IsSet_New [OF v] by (auto simp: follows_def)
      then show ?thesis
        using finalExchangeRates_nth [OF vok(2) len v] e(2) by simp
    qed
    ultimately show ?thesis
      using Some st(1) by (auto simp: GetExchangeRates_def Let_def)
  qed
qed

text \<open>The router of the witness for the search, with the reserves of its pools.\<close>

definition wit_rates_router :: Router where
  "wit_rates_router = wit_router\<lparr>rtReserves := map (\<lambda>p. Some (v2_reserves (v2_pool_view p)))
     [wit_pair 1 10 20 1000000 1000000, wit_pair 2 20 30 1000000 1000000, wit_pair 3 10 30 1000 1000]\<rparr>"

lemma wit_rates: "map_option (map_sum id (\<lambda>m. map m [10, 20, 30, 40])) (GetExchangeRates wit_rates_router 1000 10 2 (Some {10, 20})) =
  Some (Inr [Some 1000, Some 996, Some 992, None])"
  by code_simp

lemma v2_reserves_return: "Some f \<in> set (map (\<lambda>p. Some (v2_reserves (v2_pool_view p))) ps) \<Longrightarrow> f i out \<noteq> None"
  by (auto simp: v2_reserves_def split: sum.split)

lemma wit_rates_ok: "router_ok wit_rates_router" "quotes_return (rtAmountOut wit_rates_router)" "reserves_return (rtReserves wit_rates_router)"
proof -
  show "router_ok wit_rates_router"
    using wit_router_ok by (simp add: router_ok_def wit_rates_router_def wit_router_def wit_router_view_def)
  show "quotes_return (rtAmountOut wit_rates_router)"
    using wit_quotes_return [of undefined] by (simp add: no_overrides_ok(2) wit_rates_router_def)
  show "reserves_return (rtReserves wit_rates_router)"
    unfolding reserves_return_def wit_rates_router_def wit_router_def Router.simps Router.update_convs by (intro allI impI) (rule v2_reserves_return)
qed

theorem exchange_rates_sound_witness:
  "\<exists>exchangeRates. GetExchangeRates wit_rates_router 1000 10 2 (Some {10, 20}) = Some (Inr exchangeRates) \<and> exchangeRates 30 = Some 992 \<and>
     (\<exists>path. good_path word_uint256 rev rev wit_rates_router no_overrides 1000 10 30 path 992)"
proof -
  obtain m where m: "GetExchangeRates wit_rates_router 1000 10 2 (Some {10, 20}) = Some (Inr m)" "m 30 = Some 992"
    using wit_rates by (cases "GetExchangeRates wit_rates_router 1000 10 2 (Some {10, 20})") (auto simp: map_sum_def split: sum.splits elim: sum.exhaust)
  have "\<forall>t y. m t = Some y \<and> t \<noteq> 10 \<longrightarrow> (\<exists>path. good_path word_uint256 rev rev wit_rates_router no_overrides 1000 10 t path y)"
    using exchange_rates_sound [OF wit_rates_ok range_order_rev range_order_rev, where x = 1000 and base = 10 and runs = 2 and allowed = "Some {10, 20}" and U = word_uint256] unfolding m(1) option.case sum.case by blast
  then show ?thesis
    using m by simp
qed

end
