(* ===== verification/Block_Feed.thy ===== *)
theory Block_Feed
  imports Go_Prelude "HOL-Library.Sublist"
begin

text \<open>
  How blocks reach the systems: the block subscriber (\<^verbatim>\<open>src/block/subscriber\<close>), which listens to the new heads of all healthy clients and
  passes on each block that is higher than the last one, the fan-out of \<^verbatim>\<open>src/block/fanout.go\<close>, which copies it into the channel of each consumer, and their
  composition in \<^verbatim>\<open>src/internal/helpers/block.go\<close>. The subscribers of Ethereum and of Arbitrum differ only in how a header becomes a block.
  A block is of any type, with its number as an argument; a client is of any type. A channel is its buffer with a capacity.
\<close>

section \<open>The subscriber\<close>

record ('c, 'b) BlockSubscriber =
  bsClientSet :: "'c list"
  bsGoroutines :: "'c list"
  bsNewBlockC :: "'b option list"
  bsLatestBlock :: "'b option"

definition NewBlockSubscriber :: "('c, 'b) BlockSubscriber" where
  "NewBlockSubscriber = \<lparr>bsClientSet = [], bsGoroutines = [], bsNewBlockC = [], bsLatestBlock = None\<rparr>"

record SubscriberConfig =
  scUpdateClientSetInterval :: int
  scBlockByNumberTimeout :: int
  scNewBlockBuffer :: int

text \<open>Durations are in nanoseconds.\<close>

definition subscriber_applyDefaults :: "SubscriberConfig \<Rightarrow> SubscriberConfig" where
  "subscriber_applyDefaults config =
     \<lparr>scUpdateClientSetInterval = if scUpdateClientSetInterval config = 0 then 60 * 10 ^ 9 else scUpdateClientSetInterval config,
      scBlockByNumberTimeout = if scBlockByNumberTimeout config = 0 then 10 * 10 ^ 9 else scBlockByNumberTimeout config,
      scNewBlockBuffer = if scNewBlockBuffer config = 0 then 100 else scNewBlockBuffer config\<rparr>"

definition isKnownClient :: "'c \<Rightarrow> ('c, 'b) BlockSubscriber \<Rightarrow> bool" where
  "isKnownClient client bs \<longleftrightarrow> client \<in> set (bsClientSet bs)"

definition addToClientSet :: "'c \<Rightarrow> ('c, 'b) BlockSubscriber \<Rightarrow> ('c, 'b) BlockSubscriber" where
  "addToClientSet client bs = bs\<lparr>bsClientSet := List.insert client (bsClientSet bs)\<rparr>"

definition deleteFromClientSet :: "'c \<Rightarrow> ('c, 'b) BlockSubscriber \<Rightarrow> ('c, 'b) BlockSubscriber" where
  "deleteFromClientSet client bs = bs\<lparr>bsClientSet := removeAll client (bsClientSet bs)\<rparr>"

text \<open>\<^verbatim>\<open>discoverAndSubscribe\<close> starts a goroutine for each healthy client that it does not know.\<close>

fun discoverAndSubscribe :: "'c list \<Rightarrow> ('c, 'b) BlockSubscriber \<Rightarrow> ('c, 'b) BlockSubscriber" where
  "discoverAndSubscribe [] bs = bs"
| "discoverAndSubscribe (client # cs) bs =
     discoverAndSubscribe cs
       (if \<not> isKnownClient client bs
        then (addToClientSet client bs)\<lparr>bsGoroutines := bsGoroutines bs @ [client]\<rparr>
        else bs)"

text \<open>
  A header received by the goroutine of a client: \<open>Some\<close> block is sent to \<^verbatim>\<open>newBlockC\<close>. Ethereum fetches the block, which may
  fail; Arbitrum makes it from the header. The goroutine ends with a failed or interrupted subscription or with the
  context, and then forgets the client.
\<close>

definition ethereum_header :: "('h \<Rightarrow> string + 'b option) \<Rightarrow> 'h option \<Rightarrow> 'b option option" where
  "ethereum_header blockByNumber header =
     (case header of None \<Rightarrow> None | Some h \<Rightarrow> (case blockByNumber h of Inl err \<Rightarrow> None | Inr block \<Rightarrow> Some block))"

definition arbitrum_header :: "('h \<Rightarrow> 'b) \<Rightarrow> 'h option \<Rightarrow> 'b option option" where
  "arbitrum_header newBlockWithHeader header = (case header of None \<Rightarrow> None | Some h \<Rightarrow> Some (Some (newBlockWithHeader h)))"

definition send_newBlock :: "'b option option \<Rightarrow> ('c, 'b) BlockSubscriber \<Rightarrow> ('c, 'b) BlockSubscriber" where
  "send_newBlock block bs = (case block of None \<Rightarrow> bs | Some b \<Rightarrow> bs\<lparr>bsNewBlockC := bsNewBlockC bs @ [b]\<rparr>)"

definition end_subscription :: "'c \<Rightarrow> ('c, 'b) BlockSubscriber \<Rightarrow> ('c, 'b) BlockSubscriber" where
  "end_subscription client bs = (deleteFromClientSet client bs)\<lparr>bsGoroutines := remove1 client (bsGoroutines bs)\<rparr>"

text \<open>
  \<^verbatim>\<open>processNewBlock\<close>: the block that is to be sent to the receiver, if any, and the new state. The send is a select with a
  default.
\<close>

definition processNewBlock :: "('b \<Rightarrow> uint64) \<Rightarrow> 'b option \<Rightarrow> ('c, 'b) BlockSubscriber \<Rightarrow> 'b option \<times> ('c, 'b) BlockSubscriber" where
  "processNewBlock NumberU64 newBlock bs =
     (case newBlock of
        None \<Rightarrow> (None, bs)
      | Some b \<Rightarrow>
          (if (case bsLatestBlock bs of None \<Rightarrow> True | Some prev \<Rightarrow> NumberU64 b > NumberU64 prev)
           then (Some b, bs\<lparr>bsLatestBlock := Some b\<rparr>)
           else (None, bs)))"

section \<open>The fan-out\<close>

datatype fanout_error = ErrInputNil | ErrNoOutputs | ErrTagsLength | ErrLoggerNil

definition fanout_Validate :: "bool \<Rightarrow> 'o list \<Rightarrow> string list \<Rightarrow> bool \<Rightarrow> fanout_error option" where
  "fanout_Validate inputNil outputs outputTags loggerNil =
     (if inputNil then Some ErrInputNil
      else if outputs = [] then Some ErrNoOutputs
      else if length outputs \<noteq> length outputTags then Some ErrTagsLength
      else if loggerNil then Some ErrLoggerNil
      else None)"

text \<open>
  \<^verbatim>\<open>fanHistory\<close> records what was sent to each output, \<^verbatim>\<open>fanTaken\<close> what was received. \<^verbatim>\<open>fanCurrent\<close> is the block being copied and the output that is
  next. When the goroutine ends the outputs are closed.
\<close>

record 'b FanOut =
  fanOutputs :: "'b list list"
  fanCaps :: "nat list"
  fanCurrent :: "('b \<times> nat) option"
  fanClosed :: bool
  fanTaken :: "'b list"
  fanHistory :: "'b list list"

definition DefaultNewBlockEventerBuffer :: nat where
  "DefaultNewBlockEventerBuffer = 100"

text \<open>The channels that the generator of \<^verbatim>\<open>MakeBlockSubscriberGenerator\<close> has made for \<open>n\<close> consumers.\<close>

definition start_fanout :: "nat \<Rightarrow> 'b FanOut" where
  "start_fanout n = \<lparr>fanOutputs = replicate n [], fanCaps = replicate n DefaultNewBlockEventerBuffer, fanCurrent = None, fanClosed = False,
     fanTaken = [], fanHistory = replicate n []\<rparr>"

definition fan_receive :: "'b \<Rightarrow> 'b FanOut \<Rightarrow> 'b FanOut" where
  "fan_receive block f = f\<lparr>fanCurrent := Some (block, 0), fanTaken := fanTaken f @ [block]\<rparr>"

definition fan_send :: "'b \<Rightarrow> nat \<Rightarrow> 'b FanOut \<Rightarrow> 'b FanOut" where
  "fan_send block i f =
     (let f' = f\<lparr>fanCurrent := if i + 1 < length (fanOutputs f) then Some (block, i + 1) else None\<rparr> in
      if length (fanOutputs f ! i) < fanCaps f ! i
      then f'\<lparr>fanOutputs := (fanOutputs f)[i := fanOutputs f ! i @ [block]], fanHistory := (fanHistory f)[i := fanHistory f ! i @ [block]]\<rparr>
      else f')"

definition fan_exit :: "'b FanOut \<Rightarrow> 'b FanOut" where
  "fan_exit f = f\<lparr>fanCurrent := None, fanClosed := True\<rparr>"

text \<open>A receive from an output: a closed channel that has been emptied yields nil.\<close>

definition fan_consume :: "nat \<Rightarrow> 'b FanOut \<Rightarrow> ('b option \<times> 'b FanOut) option" where
  "fan_consume i f =
     (case fanOutputs f ! i of
        b # rest \<Rightarrow> Some (Some b, f\<lparr>fanOutputs := (fanOutputs f)[i := rest]\<rparr>)
      | [] \<Rightarrow> if fanClosed f then Some (None, f) else None)"

section \<open>The feed\<close>

text \<open>
  Subscriber, fan-out and the channel between them. \<^verbatim>\<open>fdAccepted\<close> records the blocks the subscriber took for new, in order. The rules are the
  steps of the goroutines; \<^verbatim>\<open>fdDone\<close> is that the context has been cancelled, after which a select may choose to end or not to send.
\<close>

record ('c, 'b) Feed =
  fdSub :: "('c, 'b) BlockSubscriber"
  fdEventer :: "'b list"
  fdFan :: "'b FanOut"
  fdDone :: bool
  fdAccepted :: "'b list"

definition start_feed :: "nat \<Rightarrow> ('c, 'b) Feed" where
  "start_feed n = \<lparr>fdSub = NewBlockSubscriber, fdEventer = [], fdFan = start_fanout n, fdDone = False, fdAccepted = []\<rparr>"

inductive feed_step :: "('b \<Rightarrow> uint64) \<Rightarrow> nat \<Rightarrow> ('c, 'b) Feed \<Rightarrow> ('c, 'b) Feed \<Rightarrow> bool" for num cap where
  feed_cancel: "feed_step num cap s (s\<lparr>fdDone := True\<rparr>)"
| feed_discover: "feed_step num cap s (s\<lparr>fdSub := discoverAndSubscribe clients (fdSub s)\<rparr>)"
| feed_header: "client \<in> set (bsGoroutines (fdSub s)) \<Longrightarrow> length (bsNewBlockC (fdSub s)) < cap \<Longrightarrow>
     feed_step num cap s (s\<lparr>fdSub := send_newBlock block (fdSub s)\<rparr>)"
| feed_end: "client \<in> set (bsGoroutines (fdSub s)) \<Longrightarrow> feed_step num cap s (s\<lparr>fdSub := end_subscription client (fdSub s)\<rparr>)"
| feed_stale: "bsNewBlockC (fdSub s) = b # rest \<Longrightarrow> processNewBlock num b ((fdSub s)\<lparr>bsNewBlockC := rest\<rparr>) = (None, bs') \<Longrightarrow>
     feed_step num cap s (s\<lparr>fdSub := bs'\<rparr>)"
| feed_accept: "bsNewBlockC (fdSub s) = b # rest \<Longrightarrow> processNewBlock num b ((fdSub s)\<lparr>bsNewBlockC := rest\<rparr>) = (Some new, bs') \<Longrightarrow>
     length (fdEventer s) < DefaultNewBlockEventerBuffer \<Longrightarrow>
     feed_step num cap s (s\<lparr>fdSub := bs', fdEventer := fdEventer s @ [new], fdAccepted := fdAccepted s @ [new]\<rparr>)"
| feed_drop: "bsNewBlockC (fdSub s) = b # rest \<Longrightarrow> processNewBlock num b ((fdSub s)\<lparr>bsNewBlockC := rest\<rparr>) = (Some new, bs') \<Longrightarrow>
     length (fdEventer s) = DefaultNewBlockEventerBuffer \<or> fdDone s \<Longrightarrow>
     feed_step num cap s (s\<lparr>fdSub := bs', fdAccepted := fdAccepted s @ [new]\<rparr>)"
| feed_fan_receive: "fdEventer s = b # rest \<Longrightarrow> fanCurrent (fdFan s) = None \<Longrightarrow> \<not> fanClosed (fdFan s) \<Longrightarrow>
     feed_step num cap s (s\<lparr>fdEventer := rest, fdFan := fan_receive b (fdFan s)\<rparr>)"
| feed_fan_send: "fanCurrent (fdFan s) = Some (b, i) \<Longrightarrow> feed_step num cap s (s\<lparr>fdFan := fan_send b i (fdFan s)\<rparr>)"
| feed_fan_exit: "fdDone s \<Longrightarrow> \<not> fanClosed (fdFan s) \<Longrightarrow> feed_step num cap s (s\<lparr>fdFan := fan_exit (fdFan s)\<rparr>)"
| feed_consume: "i < length (fanOutputs (fdFan s)) \<Longrightarrow> fan_consume i (fdFan s) = Some (r, f') \<Longrightarrow> feed_step num cap s (s\<lparr>fdFan := f'\<rparr>)"

section \<open>Invariants\<close>

lemma subseq_sorted_wrt: "subseq xs ys \<Longrightarrow> sorted_wrt P ys \<Longrightarrow> sorted_wrt P xs"
  by (induction rule: list_emb.induct) (auto dest: list_emb_set)

lemma subseq_snoc: "subseq xs ys \<Longrightarrow> subseq (xs @ [x]) (ys @ [x])"
  by simp

lemma suffix_snoc_both: "suffix xs ys \<Longrightarrow> suffix (xs @ [x]) (ys @ [x])"
  by (auto simp: suffix_def)

text \<open>Each client has one goroutine, and it is the clients of the set that have one.\<close>

definition sub_inv :: "('c, 'b) BlockSubscriber \<Rightarrow> bool" where
  "sub_inv bs \<longleftrightarrow> distinct (bsGoroutines bs) \<and> set (bsGoroutines bs) = set (bsClientSet bs)"

lemma sub_inv_discover: "sub_inv bs \<Longrightarrow> sub_inv (discoverAndSubscribe cs bs)"
  by (induction cs bs rule: discoverAndSubscribe.induct) (auto simp: sub_inv_def isKnownClient_def addToClientSet_def)

lemma sub_inv_end: "sub_inv bs \<Longrightarrow> sub_inv (end_subscription client bs)"
  by (simp add: sub_inv_def end_subscription_def deleteFromClientSet_def)

lemma sub_inv_send: "sub_inv (send_newBlock b bs) = sub_inv bs"
  by (simp add: sub_inv_def send_newBlock_def split: option.split)

lemma discover_latest: "bsLatestBlock (discoverAndSubscribe cs bs) = bsLatestBlock bs"
  by (induction cs bs rule: discoverAndSubscribe.induct) (simp_all add: addToClientSet_def)

lemma latest_same:
  "bsLatestBlock (end_subscription c bs) = bsLatestBlock bs" "bsLatestBlock (send_newBlock b bs) = bsLatestBlock bs"
  by (simp_all add: end_subscription_def deleteFromClientSet_def send_newBlock_def split: option.split)

lemma process_None: "processNewBlock num b bs = (None, bs') \<Longrightarrow> bs' = bs"
  by (auto simp: processNewBlock_def split: option.splits if_splits)

lemma process_Some:
  "processNewBlock num b bs = (Some new, bs') \<Longrightarrow>
   bs' = bs\<lparr>bsLatestBlock := Some new\<rparr> \<and> (\<forall>prev. bsLatestBlock bs = Some prev \<longrightarrow> num prev < num new)"
  by (auto simp: processNewBlock_def split: option.splits if_splits)

text \<open>The accepted blocks ascend, and the latest block is the last of them.\<close>

definition accepted_inv :: "('b \<Rightarrow> uint64) \<Rightarrow> 'b list \<Rightarrow> 'b option \<Rightarrow> bool" where
  "accepted_inv num bs latest \<longleftrightarrow> sorted_wrt (\<lambda>x y. num x < num y) bs \<and> latest = (if bs = [] then None else Some (last bs))"

lemma accepted_snoc:
  assumes "accepted_inv num bs latest" and "\<And>prev. latest = Some prev \<Longrightarrow> num prev < num new"
  shows "accepted_inv num (bs @ [new]) (Some new)"
proof (cases bs rule: rev_cases)
  case (snoc ys y)
  have y: "num y < num new" using assms snoc by (simp add: accepted_inv_def)
  have "num x < num y" if "x \<in> set ys" for x using assms(1) snoc that by (simp add: accepted_inv_def sorted_wrt_append)
  then have "\<forall>x \<in> set bs. num x < num new" using y snoc by (auto intro: less_trans)
  then show ?thesis using assms(1) by (simp add: accepted_inv_def sorted_wrt_append)
qed (simp add: accepted_inv_def)

text \<open>
  What an output was sent is a part of what the fan-out took, without the current block if the output is not yet served. Its
  buffer is the end of what it was sent.
\<close>

definition fan_seen :: "'b FanOut \<Rightarrow> nat \<Rightarrow> 'b list" where
  "fan_seen f i = (case fanCurrent f of Some (b, j) \<Rightarrow> if j \<le> i then butlast (fanTaken f) else fanTaken f | None \<Rightarrow> fanTaken f)"

definition fan_inv :: "nat \<Rightarrow> 'b FanOut \<Rightarrow> bool" where
  "fan_inv n f \<longleftrightarrow> length (fanOutputs f) = n \<and> length (fanHistory f) = n \<and>
     (\<forall>b j. fanCurrent f = Some (b, j) \<longrightarrow> j < n \<and> \<not> fanClosed f \<and> (\<exists>ts. fanTaken f = ts @ [b])) \<and>
     (\<forall>i < n. subseq (fanHistory f ! i) (fan_seen f i) \<and> suffix (fanOutputs f ! i) (fanHistory f ! i))"

lemma fan_inv_start: "fan_inv n (start_fanout n)"
  by (simp add: fan_inv_def start_fanout_def fan_seen_def)

lemma fan_inv_receive:
  assumes "fan_inv n f" and "fanCurrent f = None" and "\<not> fanClosed f" and "0 < n"
  shows "fan_inv n (fan_receive b f)"
  using assms by (simp add: fan_inv_def fan_receive_def fan_seen_def)

lemma butlast_subseq: "subseq xs (butlast ys) \<Longrightarrow> subseq xs ys"
  by (metis append_butlast_last_id butlast.simps(1) subseq_rev_drop_many)

lemma fan_inv_send:
  assumes inv: "fan_inv n f" and c: "fanCurrent f = Some (b, j)"
  shows "fan_inv n (fan_send b j f)"
proof -
  obtain ts where ts: "fanTaken f = ts @ [b]" and j: "j < n" "\<not> fanClosed f" using inv c by (auto simp: fan_inv_def)
  have l: "length (fanOutputs f) = n" "length (fanHistory f) = n" using inv by (simp_all add: fan_inv_def)
  have h: "subseq (fanHistory f ! i) (if j \<le> i then ts else ts @ [b])" and o: "suffix (fanOutputs f ! i) (fanHistory f ! i)" if "i < n" for i
    using inv c ts that by (auto simp: fan_inv_def fan_seen_def split: if_splits)
  let ?f = "fan_send b j f"
  have seen: "fan_seen ?f i = (if j < i then ts else ts @ [b])" if "i < n" for i
    using that ts l by (auto simp: fan_seen_def fan_send_def Let_def)
  have hist: "fanHistory ?f ! i = (if i = j \<and> length (fanOutputs f ! j) < fanCaps f ! j then fanHistory f ! j @ [b] else fanHistory f ! i)"
    and out: "fanOutputs ?f ! i = (if i = j \<and> length (fanOutputs f ! j) < fanCaps f ! j then fanOutputs f ! j @ [b] else fanOutputs f ! i)" if "i < n" for i
    using that l by (simp_all add: fan_send_def Let_def)
  have "subseq (fanHistory ?f ! i) (fan_seen ?f i) \<and> suffix (fanOutputs ?f ! i) (fanHistory ?f ! i)" if "i < n" for i
  proof (cases "i = j \<and> length (fanOutputs f ! j) < fanCaps f ! j")
    case True
    then show ?thesis using h [OF j(1)] suffix_snoc_both [OF o [OF j(1)]] by (simp add: seen [OF j(1)] hist [OF j(1)] out [OF j(1)])
  next
    case False
    have "subseq (fanHistory f ! i) (if j < i then ts else ts @ [b])" using h [OF that] by (cases i j rule: linorder_cases) (simp_all add: subseq_rev_drop_many)
    then show ?thesis unfolding seen [OF that] hist [OF that] out [OF that] if_not_P [OF False] using o [OF that] by blast
  qed
  moreover have "length (fanOutputs ?f) = n" "length (fanHistory ?f) = n" "fanTaken ?f = ts @ [b]" "\<not> fanClosed ?f"
    "\<And>x k. fanCurrent ?f = Some (x, k) \<Longrightarrow> x = b \<and> k < n"
    using l j ts by (auto simp: fan_send_def Let_def split: if_splits)
  ultimately show ?thesis unfolding fan_inv_def by blast
qed

lemma seen_taken: "subseq xs (fan_seen f i) \<Longrightarrow> subseq xs (fanTaken f)"
  by (auto simp: fan_seen_def split: option.splits prod.splits if_splits dest: butlast_subseq)

lemma fan_inv_exit: "fan_inv n f \<Longrightarrow> fan_inv n (fan_exit f)"
proof -
  assume "fan_inv n f"
  moreover have "fan_seen (fan_exit f) i = fanTaken f" for i by (simp add: fan_seen_def fan_exit_def)
  ultimately show ?thesis by (auto simp: fan_inv_def fan_exit_def dest: seen_taken)
qed

lemma fan_inv_consume:
  assumes inv: "fan_inv n f" and c: "fan_consume i f = Some (r, f')" and i: "i < n"
  shows "fan_inv n f' \<and> fanTaken f' = fanTaken f"
proof (cases "fanOutputs f ! i")
  case Nil
  then show ?thesis using inv c by (auto simp: fan_consume_def split: if_splits)
next
  case (Cons b rest)
  then have f': "f' = f\<lparr>fanOutputs := (fanOutputs f)[i := rest]\<rparr>" using c by (simp add: fan_consume_def)
  have t: "fanTaken f' = fanTaken f" "fanCurrent f' = fanCurrent f" "fanHistory f' = fanHistory f" "fanClosed f' = fanClosed f"
    "length (fanOutputs f') = length (fanOutputs f)" by (simp_all add: f')
  have seen: "fan_seen f' k = fan_seen f k" for k by (simp add: fan_seen_def t split: option.split prod.split)
  have suf: "suffix (fanOutputs f' ! k) (fanHistory f ! k)" if "k < n" for k
  proof (cases "k = i")
    case True
    have "suffix (b # rest) (fanHistory f ! i)" using inv i Cons by (metis fan_inv_def)
    then have "suffix rest (fanHistory f ! i)" by (rule suffix_ConsD)
    then show ?thesis using True i inv by (simp add: f' fan_inv_def)
  next
    case False
    then show ?thesis using inv that by (simp add: f' fan_inv_def)
  qed
  have "subseq (fanHistory f ! k) (fan_seen f k)" if "k < n" for k using inv that by (simp add: fan_inv_def)
  then have "\<forall>k < n. subseq (fanHistory f' ! k) (fan_seen f' k) \<and> suffix (fanOutputs f' ! k) (fanHistory f' ! k)"
    using suf by (simp add: seen t)
  then show ?thesis using inv by (simp add: fan_inv_def t)
qed

lemma taken_same: "fanTaken (fan_send b j f) = fanTaken f" "fanTaken (fan_exit f) = fanTaken f" "fanTaken (fan_receive b f) = fanTaken f @ [b]"
  by (simp_all add: fan_send_def Let_def fan_exit_def fan_receive_def)

definition feed_inv :: "('b \<Rightarrow> uint64) \<Rightarrow> nat \<Rightarrow> ('c, 'b) Feed \<Rightarrow> bool" where
  "feed_inv num n s \<longleftrightarrow> sub_inv (fdSub s) \<and> accepted_inv num (fdAccepted s) (bsLatestBlock (fdSub s)) \<and>
     subseq (fanTaken (fdFan s) @ fdEventer s) (fdAccepted s) \<and> fan_inv n (fdFan s)"

lemma feed_inv_start: "feed_inv num n (start_feed n)"
  by (simp add: feed_inv_def start_feed_def NewBlockSubscriber_def sub_inv_def accepted_inv_def fan_inv_start) (simp add: start_fanout_def)

lemma feed_step_inv:
  assumes "feed_step num cap s s'" and "feed_inv num n s" and "0 < n"
  shows "feed_inv num n s'"
  using assms
proof (cases rule: feed_step.cases)
  case (feed_stale b rest bs')
  then show ?thesis using assms(2) by (auto simp: feed_inv_def sub_inv_def dest!: process_None)
next
  case (feed_accept b rest new bs')
  note p = process_Some [OF feed_accept(3)]
  have "accepted_inv num (fdAccepted s @ [new]) (Some new)"
    using assms(2) p by (intro accepted_snoc) (auto simp: feed_inv_def)
  then show ?thesis using assms(2) p feed_accept(1) subseq_snoc [of "fanTaken (fdFan s) @ fdEventer s"] by (simp add: feed_inv_def sub_inv_def)
next
  case (feed_drop b rest new bs')
  note p = process_Some [OF feed_drop(3)]
  have "accepted_inv num (fdAccepted s @ [new]) (Some new)"
    using assms(2) p by (intro accepted_snoc) (auto simp: feed_inv_def)
  then show ?thesis using assms(2) p feed_drop(1) by (simp add: feed_inv_def sub_inv_def subseq_rev_drop_many)
next
  case (feed_fan_receive b rest)
  then show ?thesis using assms(2,3) by (simp add: feed_inv_def fan_inv_receive taken_same)
next
  case (feed_fan_send b i)
  then show ?thesis using assms(2) by (simp add: feed_inv_def fan_inv_send taken_same)
next
  case (feed_consume i r f')
  have "i < n" using feed_consume(2) assms(2) by (simp add: feed_inv_def fan_inv_def)
  then have "fan_inv n f' \<and> fanTaken f' = fanTaken (fdFan s)" using assms(2) feed_consume(3) by (intro fan_inv_consume) (simp_all add: feed_inv_def)
  then show ?thesis using assms(2) feed_consume(1) by (simp add: feed_inv_def)
qed (simp_all add: feed_inv_def sub_inv_discover sub_inv_end sub_inv_send discover_latest latest_same fan_inv_exit taken_same)

lemma feed_run_inv: "(feed_step num cap)\<^sup>*\<^sup>* (start_feed n) s \<Longrightarrow> 0 < n \<Longrightarrow> feed_inv num n s"
  by (induction rule: rtranclp_induct) (auto simp: feed_inv_start intro: feed_step_inv)

text \<open>No channel holds more than its buffer, and the outputs are closed only after the context was cancelled.\<close>

definition room_inv :: "nat \<Rightarrow> nat \<Rightarrow> ('c, 'b) Feed \<Rightarrow> bool" where
  "room_inv cap n s \<longleftrightarrow> length (bsNewBlockC (fdSub s)) \<le> cap \<and> length (fdEventer s) \<le> DefaultNewBlockEventerBuffer \<and>
     fanCaps (fdFan s) = replicate n DefaultNewBlockEventerBuffer \<and> length (fanOutputs (fdFan s)) = n \<and>
     (\<forall>i < n. length (fanOutputs (fdFan s) ! i) \<le> DefaultNewBlockEventerBuffer) \<and>
     (\<forall>b i. fanCurrent (fdFan s) = Some (b, i) \<longrightarrow> i < n) \<and> (fanClosed (fdFan s) \<longrightarrow> fdDone s)"

lemma queue_same: "bsNewBlockC (discoverAndSubscribe cs bs) = bsNewBlockC bs" "bsNewBlockC (end_subscription c bs) = bsNewBlockC bs"
  by (induction cs bs rule: discoverAndSubscribe.induct) (simp_all add: addToClientSet_def end_subscription_def deleteFromClientSet_def)

lemma room_send:
  assumes "room_inv cap n s" and "fanCurrent (fdFan s) = Some (b, i)"
  shows "room_inv cap n (s\<lparr>fdFan := fan_send b i (fdFan s)\<rparr>)"
  using assms by (auto simp: room_inv_def fan_send_def Let_def nth_list_update split: if_splits)

lemma room_consume:
  assumes "room_inv cap n s" and "fan_consume i (fdFan s) = Some (r, f')" and "i < n"
  shows "room_inv cap n (s\<lparr>fdFan := f'\<rparr>)"
proof (cases "fanOutputs (fdFan s) ! i")
  case Nil
  then show ?thesis using assms by (auto simp: fan_consume_def split: if_splits)
next
  case (Cons b rest)
  moreover have "length (fanOutputs (fdFan s) ! i) \<le> DefaultNewBlockEventerBuffer" using assms by (simp add: room_inv_def)
  ultimately show ?thesis using assms by (auto simp: fan_consume_def room_inv_def nth_list_update)
qed

lemma room_step: "feed_step num cap s s' \<Longrightarrow> room_inv cap n s \<Longrightarrow> 0 < n \<Longrightarrow> room_inv cap n s'"
proof (induction rule: feed_step.induct)
  case (feed_header client s block)
  then show ?case by (auto simp: room_inv_def send_newBlock_def split: option.split)
next
  case (feed_stale s b rest bs')
  then show ?case by (auto simp: room_inv_def dest!: process_None)
next
  case (feed_accept s b rest new bs')
  then show ?case using process_Some [OF feed_accept(2)] by (simp add: room_inv_def)
next
  case (feed_drop s b rest new bs')
  then show ?case using process_Some [OF feed_drop(2)] by (simp add: room_inv_def)
next
  case (feed_fan_send s b i)
  then show ?case by (intro room_send)
next
  case (feed_consume i s r f')
  then show ?case by (intro room_consume) (simp_all add: room_inv_def)
qed (simp_all add: room_inv_def queue_same fan_receive_def fan_exit_def)

lemma feed_run_room: "(feed_step num cap)\<^sup>*\<^sup>* (start_feed n) s \<Longrightarrow> 0 < n \<Longrightarrow> room_inv cap n s"
proof (induction rule: rtranclp_induct)
  case base
  show ?case by (simp add: room_inv_def start_feed_def start_fanout_def NewBlockSubscriber_def)
qed (rule room_step)

lemma nil_consumed: "fan_consume i f = Some (None, f') \<Longrightarrow> fanClosed f \<and> fanOutputs f ! i = [] \<and> f' = f"
  by (auto simp: fan_consume_def split: list.splits if_splits)

section \<open>Results\<close>

text \<open>
  C29: The block feed, over all interleavings of the subscriber's goroutines, the fan-out and the consumers. There is exactly one
  subscription goroutine for each client of the client set. The blocks accepted as new ascend strictly in number, and the latest
  block is the last of them. What each consumer has been sent is a part of the accepted blocks in the same order, so
  its blocks ascend strictly and none comes twice; and what waits in its channel is the end of it, so they are received in this
  order. No channel ever holds more blocks than its buffer. A consumer receives nil only from an emptied channel after the
  fan-out has ended, and that only after the context was cancelled.
\<close>

theorem block_feed_ordered:
  assumes "(feed_step num cap)\<^sup>*\<^sup>* (start_feed n) s" and "0 < n"
  shows "distinct (bsGoroutines (fdSub s)) \<and> set (bsGoroutines (fdSub s)) = set (bsClientSet (fdSub s)) \<and>
    sorted_wrt (\<lambda>x y. num x < num y) (fdAccepted s) \<and>
    bsLatestBlock (fdSub s) = (if fdAccepted s = [] then None else Some (last (fdAccepted s))) \<and>
    length (fanHistory (fdFan s)) = n \<and>
    (\<forall>i < n. subseq (fanHistory (fdFan s) ! i) (fdAccepted s) \<and> sorted_wrt (\<lambda>x y. num x < num y) (fanHistory (fdFan s) ! i) \<and>
       suffix (fanOutputs (fdFan s) ! i) (fanHistory (fdFan s) ! i)) \<and>
    length (bsNewBlockC (fdSub s)) \<le> cap \<and> length (fdEventer s) \<le> DefaultNewBlockEventerBuffer \<and>
    (\<forall>i < n. length (fanOutputs (fdFan s) ! i) \<le> DefaultNewBlockEventerBuffer) \<and>
    (\<forall>i f'. fan_consume i (fdFan s) = Some (None, f') \<longrightarrow> fanOutputs (fdFan s) ! i = [] \<and> fanClosed (fdFan s) \<and> fdDone s)"
proof -
  have room: "room_inv cap n s" using assms by (rule feed_run_room)
  have inv: "feed_inv num n s" using assms by (rule feed_run_inv)
  then have acc: "sorted_wrt (\<lambda>x y. num x < num y) (fdAccepted s)" and sub: "subseq (fanTaken (fdFan s) @ fdEventer s) (fdAccepted s)"
    by (simp_all add: feed_inv_def accepted_inv_def)
  have t: "subseq (fanTaken (fdFan s)) (fdAccepted s)"
    using sub by (meson prefixI prefix_imp_subseq subseq_order.order_trans)
  have h: "subseq (fanHistory (fdFan s) ! i) (fdAccepted s)" if "i < n" for i
  proof -
    have "subseq (fanHistory (fdFan s) ! i) (fan_seen (fdFan s) i)" using inv that by (simp add: feed_inv_def fan_inv_def)
    then show ?thesis using t seen_taken subseq_order.order_trans by blast
  qed
  have nil: "fanOutputs (fdFan s) ! i = [] \<and> fanClosed (fdFan s) \<and> fdDone s" if "fan_consume i (fdFan s) = Some (None, f')" for i f'
    using nil_consumed [OF that] room by (simp add: room_inv_def)
  show ?thesis using inv acc h subseq_sorted_wrt [OF h acc] room nil
    by (simp add: feed_inv_def sub_inv_def accepted_inv_def fan_inv_def room_inv_def)
qed

text \<open>A feed with one client and two consumers: two blocks arrive, the second is older and is not passed on.\<close>

abbreviation wit_bs :: "nat option list \<Rightarrow> nat option \<Rightarrow> (char, nat) BlockSubscriber" where
  "wit_bs q l \<equiv> \<lparr>bsClientSet = [CHR ''c''], bsGoroutines = [CHR ''c''], bsNewBlockC = q, bsLatestBlock = l\<rparr>"

definition wit_fan :: "nat list list \<Rightarrow> (nat \<times> nat) option \<Rightarrow> nat FanOut" where
  "wit_fan h c = \<lparr>fanOutputs = h, fanCaps = [100, 100], fanCurrent = c, fanClosed = False, fanTaken = if c = None \<and> h = [[], []] then [] else [8], fanHistory = h\<rparr>"

definition wit_feed :: "(char, nat) Feed" where
  "wit_feed = \<lparr>fdSub = wit_bs [] (Some 8), fdEventer = [], fdFan = wit_fan [[8], [8]] None, fdDone = False, fdAccepted = [8]\<rparr>"

lemma wit_feed_reachable: "(feed_step of_nat 100)\<^sup>*\<^sup>* (start_feed 2) wit_feed"
proof -
  let ?st = "feed_step of_nat 100" and ?s0 = "start_feed 2 :: (char, nat) Feed"
  let ?s1 = "?s0\<lparr>fdSub := wit_bs [] None\<rparr>" let ?s2 = "?s0\<lparr>fdSub := wit_bs [Some 8] None\<rparr>" let ?s3 = "?s0\<lparr>fdSub := wit_bs [Some 8, Some 5] None\<rparr>"
  let ?s4 = "?s0\<lparr>fdSub := wit_bs [Some 5] (Some 8), fdEventer := [8], fdAccepted := [8]\<rparr>"
  let ?s5 = "?s0\<lparr>fdSub := wit_bs [] (Some 8), fdEventer := [8], fdAccepted := [8]\<rparr>"
  let ?s6 = "?s0\<lparr>fdSub := wit_bs [] (Some 8), fdAccepted := [8], fdFan := wit_fan [[], []] (Some (8, 0))\<rparr>"
  let ?s7 = "?s6\<lparr>fdFan := wit_fan [[8], []] (Some (8, 1))\<rparr>"
  have a1: "?st ?s0 ?s1" using feed_discover [of of_nat 100 ?s0 "[CHR ''c'']"]
    by (simp add: start_feed_def NewBlockSubscriber_def isKnownClient_def addToClientSet_def)
  have a2: "?st ?s1 ?s2" using feed_header [of "CHR ''c''" ?s1 100 of_nat "Some (Some 8)"] by (simp add: send_newBlock_def)
  have a3: "?st ?s2 ?s3" using feed_header [of "CHR ''c''" ?s2 100 of_nat "Some (Some 5)"] by (simp add: send_newBlock_def)
  have a4: "?st ?s3 ?s4" using feed_accept [of ?s3 "Some 8" "[Some 5]" of_nat 8 "wit_bs [Some 5] (Some 8)" 100]
    by (simp add: processNewBlock_def start_feed_def DefaultNewBlockEventerBuffer_def)
  have a5: "?st ?s4 ?s5" using feed_stale [of ?s4 "Some 5" "[]" of_nat "wit_bs [] (Some 8)" 100] by (simp add: processNewBlock_def start_feed_def)
  have a6: "?st ?s5 ?s6" using feed_fan_receive [of ?s5 8 "[]" of_nat 100]
    by (simp add: start_feed_def start_fanout_def fan_receive_def wit_fan_def DefaultNewBlockEventerBuffer_def numeral_2_eq_2)
  have a7: "?st ?s6 ?s7" using feed_fan_send [of ?s6 8 0 of_nat 100] by (simp add: wit_fan_def fan_send_def start_feed_def)
  have a8: "?st ?s7 wit_feed" using feed_fan_send [of ?s7 8 1 of_nat 100] by (simp add: wit_fan_def fan_send_def wit_feed_def start_feed_def)
  show ?thesis using a1 a2 a3 a4 a5 a6 a7 a8 by (meson converse_rtranclp_into_rtranclp rtranclp.rtrancl_refl)
qed

theorem block_feed_ordered_witness:
  "sorted_wrt (\<lambda>x y. (of_nat x :: uint64) < of_nat y) (fanHistory (fdFan wit_feed) ! 1) \<and> fanHistory (fdFan wit_feed) ! 1 = [8]"
  using block_feed_ordered [OF wit_feed_reachable] by (simp add: wit_feed_def wit_fan_def)

text \<open>
  After the context is cancelled the fan-out closes the outputs, and a consumer that receives from its channel without the second
  value, as the Uniswap systems and the tick indexer do, gets nil where it expects a block.
\<close>

lemma closed_output_yields_nil:
  "\<exists>s. (feed_step of_nat 100)\<^sup>*\<^sup>* (start_feed 1 :: (char, nat) Feed) s \<and> fan_consume 0 (fdFan s) = Some (None, fdFan s)"
proof -
  let ?s0 = "start_feed 1 :: (char, nat) Feed" let ?s1 = "?s0\<lparr>fdDone := True\<rparr>" let ?s2 = "?s1\<lparr>fdFan := fan_exit (fdFan ?s1)\<rparr>"
  have "feed_step of_nat 100 ?s0 ?s1" by (rule feed_cancel)
  moreover have "feed_step of_nat 100 ?s1 ?s2" by (rule feed_fan_exit) (simp_all add: start_feed_def start_fanout_def)
  ultimately have "(feed_step of_nat 100)\<^sup>*\<^sup>* ?s0 ?s2" by (meson converse_rtranclp_into_rtranclp rtranclp.rtrancl_refl)
  moreover have "fan_consume 0 (fdFan ?s2) = Some (None, fdFan ?s2)" by (simp add: fan_consume_def fan_exit_def start_feed_def start_fanout_def)
  ultimately show ?thesis by blast
qed

end
