(* ===== verification/Client_Manager.thy ===== *)
theory Client_Manager
  imports Go_Prelude "HOL-Library.Multiset"
begin

text \<open>
  The Ethereum clients and their manager (\<^verbatim>\<open>src/clients/eth-clients\<close>): health checks, the choice of a client by round robin or by latency,
  and the limit on concurrent calls. The connection is of any type. A latency is an element of a linear order: it is
  the length of a call in seconds, so never NaN; the product of a latency and the multiplier is an argument. Other goroutines may act
  between two steps of a call: what they do is an argument too.
\<close>

section \<open>A client\<close>

record ('e, 'f) Client =
  clETHClient :: 'e
  clHealthy :: bool
  clLatestBlockNumber :: uint64
  clLatency :: 'f
  clClosed :: bool

record ClientConfig =
  ccfMonitorHealthInterval :: int
  ccfHealthCheckRPCTimeout :: int
  ccfWaitHealthyPollInterval :: int
  ccfMaxConcurrentETHCalls :: int
  ccfDialTimeout :: int

definition client_applyDefaults :: "ClientConfig \<Rightarrow> ClientConfig" where
  "client_applyDefaults config =
     \<lparr>ccfMonitorHealthInterval = if ccfMonitorHealthInterval config \<le> 0 then 15 * 10 ^ 9 else ccfMonitorHealthInterval config,
      ccfHealthCheckRPCTimeout = if ccfHealthCheckRPCTimeout config \<le> 0 then 5 * 10 ^ 9 else ccfHealthCheckRPCTimeout config,
      ccfWaitHealthyPollInterval = if ccfWaitHealthyPollInterval config \<le> 0 then 10 ^ 9 else ccfWaitHealthyPollInterval config,
      ccfMaxConcurrentETHCalls = if ccfMaxConcurrentETHCalls config \<le> 0 then 10 else ccfMaxConcurrentETHCalls config,
      ccfDialTimeout = if ccfDialTimeout config \<le> 0 then 10 * 10 ^ 9 else ccfDialTimeout config\<rparr>"

text \<open>A health check with the answer of \<^verbatim>\<open>BlockNumber\<close> and the time it took.\<close>

definition performHealthCheck :: "string + uint64 \<Rightarrow> 'f \<Rightarrow> ('e, 'f) Client \<Rightarrow> ('e, 'f) Client" where
  "performHealthCheck answer duration c =
     (let c1 = c\<lparr>clLatency := duration\<rparr> in
      case answer of
        Inl err \<Rightarrow> c1\<lparr>clHealthy := False\<rparr>
      | Inr blockNumber \<Rightarrow> c1\<lparr>clLatestBlockNumber := blockNumber, clHealthy := True\<rparr>)"

text \<open>A new client makes its first health check before it is returned.\<close>

definition NewClientFromETHClient :: "'e \<Rightarrow> string + uint64 \<Rightarrow> 'f \<Rightarrow> 'f \<Rightarrow> ClientConfig \<Rightarrow> string + ('e, 'f) Client" where
  "NewClientFromETHClient ethClient answer duration zero config =
     (if ccfMaxConcurrentETHCalls (client_applyDefaults config) \<le> 0 then Inl ''max concurrent calls must be greater than 0''
      else Inr (performHealthCheck answer duration
        \<lparr>clETHClient = ethClient, clHealthy = False, clLatestBlockNumber = 0, clLatency = zero, clClosed = False\<rparr>))"

text \<open>\<^verbatim>\<open>WaitUntilHealthy\<close> over the events it selects: a tick of the poll with what \<^verbatim>\<open>Healthy\<close> returns, the timeout, the end of the context.\<close>

datatype wait_event = PollTick bool | WaitTimeout | WaitCancelled

datatype wait_error = ErrWaitTimeout | ErrWaitCancelled

fun wait_poll :: "wait_event list \<Rightarrow> wait_error option option" where
  "wait_poll [] = None"
| "wait_poll (PollTick h # es) = (if h then Some None else wait_poll es)"
| "wait_poll (WaitTimeout # es) = Some (Some ErrWaitTimeout)"
| "wait_poll (WaitCancelled # es) = Some (Some ErrWaitCancelled)"

definition WaitUntilHealthy :: "('e, 'f) Client \<Rightarrow> wait_event list \<Rightarrow> wait_error option option" where
  "WaitUntilHealthy c events = (if clHealthy c then Some None else wait_poll events)"

text \<open>\<^verbatim>\<open>Close\<close>: whether this call closes the connection.\<close>

definition client_Close :: "('e, 'f) Client \<Rightarrow> bool \<times> ('e, 'f) Client" where
  "client_Close c = (\<not> clClosed c, c\<lparr>clClosed := True\<rparr>)"

section \<open>The manager\<close>

record ('e, 'f) ClientManager =
  cmClients :: "('e, 'f) Client list"
  cmCounter :: nat
  cmMultiplier :: int
  cmClosed :: bool

definition NewClientManagerFromClients :: "('e, 'f) Client list \<Rightarrow> int \<Rightarrow> string + ('e, 'f) ClientManager" where
  "NewClientManagerFromClients clients multiplier =
     (if clients = [] then Inl ''no clients provided''
      else Inr \<lparr>cmClients = clients, cmCounter = 0, cmMultiplier = if multiplier = 0 then 3 else multiplier, cmClosed = False\<rparr>)"

text \<open>\<^verbatim>\<open>NewClientManager\<close> dials the endpoints in order and gives up at the first error.\<close>

fun dial_all :: "('ep \<Rightarrow> string + 'c) \<Rightarrow> 'ep list \<Rightarrow> ('ep \<times> string) + 'c list" where
  "dial_all dial [] = Inr []"
| "dial_all dial (ep # eps) =
     (case dial ep of
        Inl err \<Rightarrow> Inl (ep, err)
      | Inr c \<Rightarrow> (case dial_all dial eps of Inl e \<Rightarrow> Inl e | Inr cs \<Rightarrow> Inr (c # cs)))"

datatype 'ep manager_new_error = ErrNoEndpoints | ErrDial 'ep string

definition NewClientManager :: "('ep \<Rightarrow> string + ('e, 'f) Client) \<Rightarrow> 'ep list \<Rightarrow> int \<Rightarrow> 'ep manager_new_error + ('e, 'f) ClientManager" where
  "NewClientManager dial endpoints multiplier =
     (if endpoints = [] then Inl ErrNoEndpoints
      else case dial_all dial endpoints of
             Inl (ep, err) \<Rightarrow> Inl (ErrDial ep err)
           | Inr clients \<Rightarrow> Inr \<lparr>cmClients = clients, cmCounter = 0, cmMultiplier = if multiplier = 0 then 3 else multiplier, cmClosed = False\<rparr>)"

definition getClient :: "('e, 'f) ClientManager \<Rightarrow> ('e, 'f) Client \<times> ('e, 'f) ClientManager" where
  "getClient cm = (cmClients cm ! cmCounter cm, cm\<lparr>cmCounter := (cmCounter cm + 1) mod length (cmClients cm)\<rparr>)"

definition latest_known :: "('e, 'f) Client list \<Rightarrow> uint64" where
  "latest_known clients = foldl (\<lambda>latest c. if clLatestBlockNumber c > latest then clLatestBlockNumber c else latest) 0 clients"

text \<open>One of the loops of \<^verbatim>\<open>GetClient\<close>; \<open>env\<close> is what other goroutines do to the manager before each step.\<close>

fun pick_client ::
  "(('e, 'f) Client \<Rightarrow> bool) \<Rightarrow> (('e, 'f) ClientManager \<Rightarrow> ('e, 'f) ClientManager) list \<Rightarrow> ('e, 'f) ClientManager \<Rightarrow> ('e, 'f) Client option \<times> ('e, 'f) ClientManager" where
  "pick_client ok [] cm = (None, cm)"
| "pick_client ok (env # envs) cm =
     (let (client, cm') = getClient (env cm) in
      if ok client then (Some client, cm') else pick_client ok envs cm')"

definition GetClient ::
  "(('e, 'f) ClientManager \<Rightarrow> ('e, 'f) ClientManager) list \<Rightarrow> (('e, 'f) ClientManager \<Rightarrow> ('e, 'f) ClientManager) list \<Rightarrow> ('e, 'f) ClientManager \<Rightarrow>
   (string + 'e) \<times> ('e, 'f) ClientManager" where
  "GetClient envs1 envs2 cm =
     (let latestBlockNumber = latest_known (cmClients cm) in
      case pick_client (\<lambda>c. clHealthy c \<and> clLatestBlockNumber c \<ge> latestBlockNumber) envs1 cm of
        (Some c, cm') \<Rightarrow> (Inr (clETHClient c), cm')
      | (None, cm') \<Rightarrow>
          (case pick_client clHealthy envs2 cm' of
             (Some c, cm'') \<Rightarrow> (Inr (clETHClient c), cm'')
           | (None, cm'') \<Rightarrow> (Inl ''no healthy client'', cm'')))"

text \<open>A call that no other goroutine disturbs.\<close>

definition GetClient_alone :: "('e, 'f) ClientManager \<Rightarrow> (string + 'e) \<times> ('e, 'f) ClientManager" where
  "GetClient_alone cm = GetClient (replicate (length (cmClients cm)) (\<lambda>cm. cm)) (replicate (length (cmClients cm)) (\<lambda>cm. cm)) cm"

text \<open>
  \<^verbatim>\<open>GetPreferredClient\<close>: \<open>srt\<close> is \<^verbatim>\<open>sort.Slice\<close> by latency, \<open>scale\<close> the product of a latency and the multiplier, \<open>intn\<close> is \<^verbatim>\<open>rand.Intn\<close>.
\<close>

definition GetPreferredClient ::
  "(('e, 'f) Client list \<Rightarrow> ('e, 'f) Client list) \<Rightarrow> ('f \<Rightarrow> int \<Rightarrow> 'f) \<Rightarrow> (nat \<Rightarrow> nat) \<Rightarrow> ('e, 'f :: linorder) ClientManager \<Rightarrow>
   (string + 'e) \<times> ('e, 'f) ClientManager" where
  "GetPreferredClient srt scale intn cm =
     (let latestBlockNumber = latest_known (cmClients cm);
          healthyClients = filter (\<lambda>c. clHealthy c \<and> clLatestBlockNumber c \<ge> latestBlockNumber) (cmClients cm) in
      if healthyClients = [] then GetClient_alone cm
      else let byLatency = srt healthyClients;
               cutoff = scale (clLatency (byLatency ! 0)) (cmMultiplier cm);
               preferred = filter (\<lambda>c. clLatency c \<le> cutoff) byLatency;
               preferredClients = (if preferred = [] then byLatency else preferred)
           in (Inr (clETHClient (preferredClients ! intn (length preferredClients))), cm))"

definition GetClients :: "('e, 'f) ClientManager \<Rightarrow> 'e list" where
  "GetClients cm = map clETHClient (cmClients cm)"

definition manager_Close :: "('e, 'f) ClientManager \<Rightarrow> ('e, 'f) ClientManager" where
  "manager_Close cm =
     (if cmClosed cm then cm else cm\<lparr>cmClosed := True, cmClients := map (\<lambda>c. snd (client_Close c)) (cmClients cm)\<rparr>)"

section \<open>The limit on concurrent calls\<close>

text \<open>
  \<^verbatim>\<open>ETHClientWithMaxConcurrentCalls\<close>: each guarded method puts a token into the semaphore, calls the client and takes the token back, or
  returns the error of its context. \<^verbatim>\<open>SendTransaction\<close> is not guarded.
\<close>

record LimitedClient =
  lcMax :: nat
  lcSemaphore :: nat
  lcGuarded :: nat
  lcUnguarded :: nat

definition NewETHClientWithMaxConcurrentCalls :: "int \<Rightarrow> string + LimitedClient" where
  "NewETHClientWithMaxConcurrentCalls maxCalls =
     (if maxCalls \<le> 0 then Inl ''max concurrent calls must be greater than 0'' else Inr \<lparr>lcMax = nat maxCalls, lcSemaphore = 0, lcGuarded = 0, lcUnguarded = 0\<rparr>)"

inductive limited_step :: "LimitedClient \<Rightarrow> LimitedClient \<Rightarrow> bool" where
  limited_begin: "lcSemaphore c < lcMax c \<Longrightarrow> limited_step c (c\<lparr>lcSemaphore := lcSemaphore c + 1, lcGuarded := lcGuarded c + 1\<rparr>)"
| limited_end: "0 < lcGuarded c \<Longrightarrow> limited_step c (c\<lparr>lcGuarded := lcGuarded c - 1, lcSemaphore := lcSemaphore c - 1\<rparr>)"
| limited_cancelled: "limited_step c c"
| limited_send: "limited_step c (c\<lparr>lcUnguarded := lcUnguarded c + 1\<rparr>)"
| limited_sent: "0 < lcUnguarded c \<Longrightarrow> limited_step c (c\<lparr>lcUnguarded := lcUnguarded c - 1\<rparr>)"

section \<open>Round robin\<close>

definition cm_ok :: "('e, 'f) ClientManager \<Rightarrow> bool" where
  "cm_ok cm \<longleftrightarrow> cmCounter cm < length (cmClients cm)"

lemma latest_known_max:
  fixes cs :: "('e, 'f) Client list"
  shows "latest_known cs = Max (insert 0 (clLatestBlockNumber ` set cs))"
proof -
  have "foldl (\<lambda>l c. if clLatestBlockNumber c > l then clLatestBlockNumber c else l) m cs = Max (insert m (clLatestBlockNumber ` set cs))" for m
  proof (induction cs arbitrary: m)
    case (Cons c cs)
    have "Max (insert m (clLatestBlockNumber ` set (c # cs))) = Max (insert (max m (clLatestBlockNumber c)) (clLatestBlockNumber ` set cs))"
      by (cases "cs = []") (simp_all add: Max_insert max.assoc)
    moreover have "(if clLatestBlockNumber c > m then clLatestBlockNumber c else m) = max m (clLatestBlockNumber c)" by (auto simp: max_def)
    ultimately show ?case by (simp add: Cons.IH)
  qed simp
  from this [of 0] show ?thesis by (simp add: latest_known_def)
qed

text \<open>The client that an undisturbed loop visits in step \<open>i\<close>.\<close>

definition visited :: "('e, 'f) ClientManager \<Rightarrow> nat \<Rightarrow> ('e, 'f) Client" where
  "visited cm i = cmClients cm ! ((cmCounter cm + i) mod length (cmClients cm))"

lemma getClient_visited:
  "cm_ok cm \<Longrightarrow> fst (getClient cm) = visited cm 0" "cm_ok cm \<Longrightarrow> visited (snd (getClient cm)) i = visited cm (Suc i)"
  "cm_ok cm \<Longrightarrow> cm_ok (snd (getClient cm))"
  by (simp_all add: getClient_def visited_def cm_ok_def mod_simps mod_less_divisor [OF le_less_trans [OF le0]])

lemma mod_Suc_add: "Suc (Suc a mod n + k) mod n = Suc (Suc (a + k)) mod n" "(Suc a mod n + k) mod n = Suc (a + k) mod n" for n :: nat
  using mod_add_left_eq [of "Suc a" n "Suc k"] mod_add_left_eq [of "Suc a" n k] by simp_all

lemma pick_alone_Some:
  assumes "cm_ok cm" and "k < n" and "ok (visited cm k)" and "\<forall>i < k. \<not> ok (visited cm i)"
  shows "pick_client ok (replicate n (\<lambda>cm. cm)) cm = (Some (visited cm k), cm\<lparr>cmCounter := (cmCounter cm + k + 1) mod length (cmClients cm)\<rparr>)"
  using assms
proof (induction k arbitrary: cm n)
  case 0
  then obtain m where "n = Suc m" by (cases n) simp_all
  then show ?case using 0 getClient_visited(1) [OF 0(1)] by (simp add: getClient_def)
next
  case (Suc k)
  obtain m where m: "n = Suc m" "k < m" using Suc.prems(2) by (cases n) simp_all
  let ?cm = "snd (getClient cm)"
  note g = getClient_visited [OF Suc.prems(1)]
  have "pick_client ok (replicate m (\<lambda>cm. cm)) ?cm = (Some (visited ?cm k), ?cm\<lparr>cmCounter := (cmCounter ?cm + k + 1) mod length (cmClients ?cm)\<rparr>)"
  proof (rule Suc.IH [OF g(3) m(2)])
    show "ok (visited ?cm k)" using Suc.prems(3) g(2) by simp
    show "\<forall>i < k. \<not> ok (visited ?cm i)" using Suc.prems(4) g(2) by simp
  qed
  moreover have "\<not> ok (fst (getClient cm))" using Suc.prems(4) g(1) by simp
  ultimately show ?case using g(2) [of k] by (simp add: m(1) case_prod_beta Let_def) (simp add: getClient_def mod_Suc_add)
qed

lemma pick_alone_None:
  assumes "cm_ok cm" and "\<forall>i < n. \<not> ok (visited cm i)"
  shows "pick_client ok (replicate n (\<lambda>cm. cm)) cm = (None, cm\<lparr>cmCounter := (cmCounter cm + n) mod length (cmClients cm)\<rparr>)"
  using assms
proof (induction n arbitrary: cm)
  case 0
  then show ?case by (simp add: cm_ok_def)
next
  case (Suc n)
  let ?cm = "snd (getClient cm)"
  note g = getClient_visited [OF Suc.prems(1)]
  have "pick_client ok (replicate n (\<lambda>cm. cm)) ?cm = (None, ?cm\<lparr>cmCounter := (cmCounter ?cm + n) mod length (cmClients ?cm)\<rparr>)"
    using Suc.prems(2) g(2) by (intro Suc.IH [OF g(3)]) simp
  moreover have "\<not> ok (fst (getClient cm))" using Suc.prems(2) g(1) by simp
  ultimately show ?case by (simp add: case_prod_beta Let_def) (simp add: getClient_def mod_Suc_add)
qed

lemma visited_mem: "cm_ok cm \<Longrightarrow> visited cm i \<in> set (cmClients cm)"
  unfolding visited_def by (intro nth_mem mod_less_divisor) (auto simp: cm_ok_def)

lemma visited_all:
  assumes "cm_ok cm"
  shows "(\<exists>i < length (cmClients cm). P (visited cm i)) \<longleftrightarrow> (\<exists>c \<in> set (cmClients cm). P c)"
proof
  assume "\<exists>i < length (cmClients cm). P (visited cm i)"
  then show "\<exists>c \<in> set (cmClients cm). P c" using visited_mem [OF assms] by blast
next
  let ?n = "length (cmClients cm)"
  assume "\<exists>c \<in> set (cmClients cm). P c"
  then obtain j where j: "j < ?n" "P (cmClients cm ! j)" by (metis in_set_conv_nth)
  let ?i = "(j + (?n - cmCounter cm)) mod ?n"
  have "(cmCounter cm + ?i) mod ?n = (j + ?n) mod ?n" using assms by (simp add: mod_simps cm_ok_def)
  then have "visited cm ?i = cmClients cm ! j" using j(1) by (simp add: visited_def)
  moreover have "?i < ?n" using j(1) by (intro mod_less_divisor) linarith
  ultimately show "\<exists>i < ?n. P (visited cm i)" using j(2) by (intro exI [of _ ?i]) simp
qed

section \<open>Results\<close>

definition best_clients :: "('e, 'f) ClientManager \<Rightarrow> ('e, 'f) Client set" where
  "best_clients cm = {c \<in> set (cmClients cm). clHealthy c \<and> (\<forall>d \<in> set (cmClients cm). clLatestBlockNumber d \<le> clLatestBlockNumber c)}"

lemma best_iff:
  fixes cm :: "('e, 'f) ClientManager"
  assumes "c \<in> set (cmClients cm)"
  shows "c \<in> best_clients cm \<longleftrightarrow> clHealthy c \<and> clLatestBlockNumber c \<ge> latest_known (cmClients cm)"
  using assms by (simp add: best_clients_def latest_known_max)

text \<open>
  C30: The choice of a client. A call of \<^verbatim>\<open>GetClient\<close> that is not disturbed returns, if there are healthy clients at the highest known
  block, the first of them after the one chosen last; otherwise, if there are healthy clients, the first of these; and
  it reports an error exactly if no client is healthy. The counter then stands behind the chosen client, so that calls in a row go
  round; it never leaves its range.
\<close>

theorem GetClient_round_robin:
  fixes cm :: "('e, 'f) ClientManager"
  assumes "cm_ok cm"
  defines "good \<equiv> (if best_clients cm \<noteq> {} then best_clients cm else {c \<in> set (cmClients cm). clHealthy c})"
  shows "if \<exists>c \<in> set (cmClients cm). clHealthy c
    then \<exists>k < length (cmClients cm). visited cm k \<in> good \<and> (\<forall>i < k. visited cm i \<notin> good) \<and>
      GetClient_alone cm = (Inr (clETHClient (visited cm k)), cm\<lparr>cmCounter := (cmCounter cm + k + 1) mod length (cmClients cm)\<rparr>)
    else GetClient_alone cm = (Inl ''no healthy client'', cm)"
proof -
  let ?n = "length (cmClients cm)" and ?best = "\<lambda>c. clHealthy c \<and> clLatestBlockNumber c \<ge> latest_known (cmClients cm)"
  have mem: "visited cm i \<in> set (cmClients cm)" for i using assms(1) by (rule visited_mem)
  have best: "?best (visited cm i) \<longleftrightarrow> visited cm i \<in> best_clients cm" for i using best_iff [OF mem] by simp
  have first: "\<exists>k < ?n. P (visited cm k) \<and> (\<forall>i < k. \<not> P (visited cm i))" if ex: "\<exists>c \<in> set (cmClients cm). P c" for P
  proof -
    obtain i where "i < ?n" "P (visited cm i)" using ex visited_all [OF assms(1), of P] by blast
    then show ?thesis using exists_least_iff [of "\<lambda>i. i < ?n \<and> P (visited cm i)"] by (meson less_trans)
  qed
  have "(cmCounter cm + ?n) mod ?n = cmCounter cm" using assms(1) by (simp add: cm_ok_def)
  then have none: "pick_client P (replicate ?n (\<lambda>cm. cm)) cm = (None, cm)" if "\<not> (\<exists>c \<in> set (cmClients cm). P c)" for P
    using pick_alone_None [OF assms(1), of ?n P] that mem by auto
  show ?thesis
  proof (cases "best_clients cm = {}")
    case False
    then have ex: "\<exists>c \<in> set (cmClients cm). ?best c" by (metis (no_types, lifting) best_iff best_clients_def equals0I mem_Collect_eq)
    then obtain k where k: "k < ?n" "?best (visited cm k)" "\<forall>i < k. \<not> ?best (visited cm i)" using first [of ?best] by blast
    then have "GetClient_alone cm = (Inr (clETHClient (visited cm k)), cm\<lparr>cmCounter := (cmCounter cm + k + 1) mod ?n\<rparr>)"
      using pick_alone_Some [of cm k ?n ?best] assms(1) by (simp add: GetClient_alone_def GetClient_def Let_def)
    moreover have "visited cm k \<in> good" "\<forall>i < k. visited cm i \<notin> good" using k(2,3) False best by (auto simp: good_def)
    moreover have "\<exists>c \<in> set (cmClients cm). clHealthy c" using ex by blast
    ultimately show ?thesis using k(1) by auto
  next
    case True
    then have nb: "\<not> (\<exists>c \<in> set (cmClients cm). ?best c)" using best_iff by blast
    have alone: "GetClient_alone cm = (case pick_client clHealthy (replicate ?n (\<lambda>cm. cm)) cm of
        (Some c, cm') \<Rightarrow> (Inr (clETHClient c), cm') | (None, cm') \<Rightarrow> (Inl ''no healthy client'', cm'))"
      by (simp add: GetClient_alone_def GetClient_def Let_def none [OF nb])
    show ?thesis
    proof (cases "\<exists>c \<in> set (cmClients cm). clHealthy c")
      case h: True
      then obtain k where k: "k < ?n" "clHealthy (visited cm k)" "\<forall>i < k. \<not> clHealthy (visited cm i)" using first [of clHealthy] by blast
      then have "GetClient_alone cm = (Inr (clETHClient (visited cm k)), cm\<lparr>cmCounter := (cmCounter cm + k + 1) mod ?n\<rparr>)"
        using pick_alone_Some [of cm k ?n clHealthy] assms(1) by (simp add: alone)
      moreover have "visited cm k \<in> good" "\<forall>i < k. visited cm i \<notin> good" using k(2,3) True mem by (auto simp: good_def)
      ultimately show ?thesis using k(1) h by auto
    next
      case False
      then show ?thesis by (simp add: alone none [of clHealthy])
    qed
  qed
qed

text \<open>Three clients: the first is down, the second lags behind, the third is at the head.\<close>

definition wit_client :: "nat \<Rightarrow> bool \<Rightarrow> uint64 \<Rightarrow> (nat, int) Client" where
  "wit_client e h b = \<lparr>clETHClient = e, clHealthy = h, clLatestBlockNumber = b, clLatency = 1, clClosed = False\<rparr>"

definition wit_cm :: "(nat, int) ClientManager" where
  "wit_cm = \<lparr>cmClients = [wit_client 1 False 4, wit_client 2 True 3, wit_client 3 True 5], cmCounter = 0, cmMultiplier = 3, cmClosed = False\<rparr>"

theorem GetClient_round_robin_witness:
  "\<exists>k < 3. visited wit_cm k \<in> best_clients wit_cm \<and> fst (GetClient_alone wit_cm) = Inr (clETHClient (visited wit_cm k))"
proof -
  have "wit_client 3 True 5 \<in> best_clients wit_cm" by (simp add: best_clients_def wit_cm_def wit_client_def)
  moreover have "wit_client 3 True 5 \<in> set (cmClients wit_cm) \<and> clHealthy (wit_client 3 True 5)" "length (cmClients wit_cm) = 3" "cm_ok wit_cm"
    by (simp_all add: wit_cm_def wit_client_def cm_ok_def)
  ultimately show ?thesis using GetClient_round_robin [of wit_cm] by (auto split: if_splits)
qed

text \<open>
  \<^verbatim>\<open>GetPreferredClient\<close> returns a healthy client at the highest known block, if there is one, whose latency is within the multiple of
  the least one.
\<close>

lemma GetPreferredClient_fast:
  fixes cm :: "('e, 'f :: linorder) ClientManager"
  assumes srt: "\<And>cs. mset (srt cs) = mset cs" "\<And>cs. sorted (map clLatency (srt cs))" and scale: "\<And>x. x \<le> scale x (cmMultiplier cm)"
    and intn: "\<And>n. 0 < n \<Longrightarrow> intn n < n" and ne: "best_clients cm \<noteq> {}"
  shows "\<exists>c \<in> best_clients cm. \<exists>d \<in> best_clients cm. GetPreferredClient srt scale intn cm = (Inr (clETHClient c), cm) \<and>
    (\<forall>x \<in> best_clients cm. clLatency d \<le> clLatency x) \<and> clLatency c \<le> scale (clLatency d) (cmMultiplier cm)"
proof -
  let ?h = "filter (\<lambda>c. clHealthy c \<and> clLatestBlockNumber c \<ge> latest_known (cmClients cm)) (cmClients cm)"
  have set: "set (srt ?h) = best_clients cm" using best_iff [of _ cm] mset_eq_setD [OF srt(1) [of ?h]] by (auto simp: best_clients_def)
  then obtain d ds where d: "srt ?h = d # ds" using ne by (cases "srt ?h") auto
  have least: "\<forall>x \<in> best_clients cm. clLatency d \<le> clLatency x" using srt(2) [of ?h] unfolding set [symmetric] d by auto
  let ?p = "filter (\<lambda>c. clLatency c \<le> scale (clLatency d) (cmMultiplier cm)) (srt ?h)"
  have "d \<in> set ?p" using scale d by simp
  then have p: "?p \<noteq> []" by (metis list.set_cases neq_Nil_conv)
  then have "?p ! intn (length ?p) \<in> set ?p" using intn by (intro nth_mem) simp
  moreover have "?h \<noteq> []" using d srt(1) [of "[]"] by (metis list.distinct(1) mset_zero_iff_right mset.simps(1))
  then have "GetPreferredClient srt scale intn cm = (Inr (clETHClient (?p ! intn (length ?p))), cm)"
    using p unfolding GetPreferredClient_def Let_def d by (simp only: nth_Cons_0 if_False)
  moreover have "d \<in> best_clients cm" unfolding set [symmetric] d by simp
  ultimately show ?thesis using least set by (intro bexI [of _ "?p ! intn (length ?p)"] bexI [of _ d]) simp_all
qed

text \<open>
  Calls of other goroutines move the counter too. With two clients, one of them healthy all the time, a call can meet the other
  one in each of its steps and report that no client is healthy.
\<close>

definition two_clients :: "(nat, int) ClientManager" where
  "two_clients = \<lparr>cmClients = [wit_client 1 True 5, wit_client 2 False 5], cmCounter = 1, cmMultiplier = 3, cmClosed = False\<rparr>"

lemma GetClient_starves:
  "let other = (\<lambda>cm. snd (GetClient_alone cm)) in
   fst (GetClient [\<lambda>cm. cm, other] [other, other] two_clients) = Inl ''no healthy client'' \<and> fst (GetClient_alone two_clients) = Inr 1"
proof -
  let ?b = "two_clients\<lparr>cmCounter := 0\<rparr>"
  have a: "GetClient_alone ?b = (Inr 1, two_clients)" "GetClient_alone two_clients = (Inr 1, two_clients)"
    by (simp_all add: GetClient_alone_def GetClient_def two_clients_def wit_client_def latest_known_def getClient_def numeral_2_eq_2)
  have g: "getClient two_clients = (wit_client 2 False 5, ?b)" by (simp add: getClient_def two_clients_def)
  have "\<not> clHealthy (wit_client 2 False 5)" by (simp add: wit_client_def)
  then show ?thesis by (simp add: Let_def GetClient_def a g)
qed

text \<open>At most the maximum of guarded calls run at a time, and the semaphore counts them.\<close>

lemma limited_calls:
  assumes "NewETHClientWithMaxConcurrentCalls n = Inr c0" and "limited_step\<^sup>*\<^sup>* c0 c"
  shows "lcSemaphore c = lcGuarded c \<and> lcGuarded c \<le> nat n"
proof -
  have "lcSemaphore c = lcGuarded c \<and> lcGuarded c \<le> lcMax c \<and> lcMax c = nat n"
    using assms(2)
  proof (induction rule: rtranclp_induct)
    case base
    then show ?case using assms(1) by (auto simp: NewETHClientWithMaxConcurrentCalls_def split: if_splits)
  next
    case (step c c')
    from step(2) step(3) show ?case by cases auto
  qed
  then show ?thesis by simp
qed

text \<open>The manager keeps its counter in range whatever other goroutines that keep it do.\<close>

lemma GetClient_counter:
  assumes "cm_ok cm" and "\<And>env cm. env \<in> set (envs1 @ envs2) \<Longrightarrow> cm_ok cm \<Longrightarrow> cm_ok (env cm)"
  shows "cm_ok (snd (GetClient envs1 envs2 cm))"
proof -
  have pick: "cm_ok (snd (pick_client ok envs cm))" if "cm_ok cm" "\<And>env cm. env \<in> set envs \<Longrightarrow> cm_ok cm \<Longrightarrow> cm_ok (env cm)" for ok envs cm
    using that
  proof (induction envs arbitrary: cm)
    case (Cons env envs)
    have "cm_ok (snd (getClient (env cm)))" using Cons.prems by (intro getClient_visited(3)) simp
    then show ?case using Cons by (simp add: case_prod_beta Let_def)
  qed simp
  have "cm_ok (snd (pick_client P envs1 cm))" for P using assms by (intro pick) simp_all
  moreover have "cm_ok (snd (pick_client P envs2 cm'))" if "cm_ok cm'" for P cm' using that assms(2) by (intro pick) simp_all
  ultimately show ?thesis unfolding GetClient_def Let_def
    by (simp add: case_prod_beta split: option.split)
qed

end
