(* ===== verification/UniswapV2_Logs.thy ===== *)
theory UniswapV2_Logs
  imports Interfaces
begin

text \<open>
  Log processing of Uniswap V2, \<^verbatim>\<open>src/protocols/uniswap-v2/logs\<close>: the reserves that a block leaves in each
  pool (\<^verbatim>\<open>updated_pool.go\<close>) and the pools that traded in it (\<^verbatim>\<open>discover_pool.go\<close>). Event identifiers are
  hashes computed by the ABI package and are arguments.
\<close>

record Log =
  lgAddress :: address
  lgTopics :: "byte list list"
  lgData :: "byte list"

text \<open>\<^verbatim>\<open>big.Int.SetBytes\<close>: big-endian.\<close>

definition big_SetBytes :: "byte list \<Rightarrow> int" where
  "big_SetBytes bs = foldl (\<lambda>n b. n * 256 + uint b) 0 bs"

definition is_sync :: "byte list \<Rightarrow> Log \<Rightarrow> bool" where
  "is_sync syncEvent lg \<longleftrightarrow> length (lgTopics lg) = 1 \<and> lgTopics lg ! 0 = syncEvent \<and> length (lgData lg) = 64"

definition sync_data :: "Log \<Rightarrow> int \<times> int" where
  "sync_data lg = (big_SetBytes (take 32 (lgData lg)), big_SetBytes (drop 32 (lgData lg)))"

definition latest_syncs :: "byte list \<Rightarrow> Log list \<Rightarrow> (address, int \<times> int) gomap" where
  "latest_syncs syncEvent logs =
     foldl (\<lambda>m lg. if is_sync syncEvent lg then AList.update (lgAddress lg) (sync_data lg) m else m) [] logs"

definition UpdatedInBlock ::
  "byte list \<Rightarrow> (address, int \<times> int) range_order \<Rightarrow> Log list \<Rightarrow> address list \<times> int list \<times> int list" where
  "UpdatedInBlock syncEvent ord logs =
     (let latestSyncs = latest_syncs syncEvent logs in
      if length latestSyncs = 0 then ([], [], [])
      else let es = ord latestSyncs in (map fst es, map (fst \<circ> snd) es, map (snd \<circ> snd) es))"

definition DiscoverPools :: "byte list \<Rightarrow> (address, unit) range_order \<Rightarrow> Log list \<Rightarrow> address list" where
  "DiscoverPools swapEvent ord logs =
     map fst (ord (foldl (\<lambda>m lg. if length (lgTopics lg) > 0 \<and> lgTopics lg ! 0 = swapEvent
       then AList.update (lgAddress lg) () m else m) [] logs))"

text \<open>The last synchronisation of a pool in the block.\<close>

definition last_sync :: "byte list \<Rightarrow> Log list \<Rightarrow> address \<Rightarrow> (int \<times> int) option" where
  "last_sync syncEvent logs a = map_option sync_data (List.find (\<lambda>lg. is_sync syncEvent lg \<and> lgAddress lg = a) (rev logs))"

lemma latest_syncs_snoc:
  "latest_syncs e (logs @ [lg]) = (if is_sync e lg then AList.update (lgAddress lg) (sync_data lg) (latest_syncs e logs) else latest_syncs e logs)"
  by (simp add: latest_syncs_def)

lemma latest_syncs_spec:
  "distinct (map fst (latest_syncs e logs)) \<and> map_of (latest_syncs e logs) a = last_sync e logs a"
proof (induction logs rule: rev_induct)
  case Nil
  then show ?case by (simp add: latest_syncs_def last_sync_def)
next
  case (snoc lg logs)
  then show ?case by (auto simp: latest_syncs_snoc last_sync_def distinct_update update_conv')
qed

lemma big_SetBytes_bound: "0 \<le> big_SetBytes bs \<and> big_SetBytes bs < 256 ^ length bs"
proof (induction bs rule: rev_induct)
  case Nil
  then show ?case by (simp add: big_SetBytes_def)
next
  case (snoc b bs)
  have "uint b < 256" using uint_lt2p [of b] by simp
  then show ?case using snoc by (simp add: big_SetBytes_def)
qed

lemma big_SetBytes_padded [simp]: "big_SetBytes (replicate n 0 @ [x]) = uint x"
proof -
  have "foldl (\<lambda>n b. n * 256 + uint b) 0 (replicate n 0) = 0" by (induction n) simp_all
  then show ?thesis by (simp add: big_SetBytes_def)
qed

text \<open>
  \<^verbatim>\<open>UpdatedInBlock\<close> reports each pool that emitted a well-formed \<^verbatim>\<open>Sync\<close> event in the block exactly
  once, with the reserves of its last such event, as three aligned slices; reserves are unsigned
  256-bit values. Other logs have no influence.
\<close>

theorem UpdatedInBlock_last:
  assumes ord: "range_order ord"
  shows "case UpdatedInBlock e ord logs of (pools, r0s, r1s) \<Rightarrow>
     distinct pools \<and> length r0s = length pools \<and> length r1s = length pools \<and>
     set pools = {lgAddress lg | lg. lg \<in> set logs \<and> is_sync e lg} \<and>
     (\<forall>i < length pools. last_sync e logs (pools ! i) = Some (r0s ! i, r1s ! i) \<and>
        0 \<le> r0s ! i \<and> r0s ! i < 2 ^ 256 \<and> 0 \<le> r1s ! i \<and> r1s ! i < 2 ^ 256)"
proof -
  let ?m = "latest_syncs e logs"
  let ?es = "ord ?m"
  have d: "distinct (map fst ?m)" and l: "\<And>a. map_of ?m a = last_sync e logs a" using latest_syncs_spec by blast+
  have de: "distinct (map fst ?es)" using range_order_distinct [OF ord] d by blast
  have se: "set ?es = set ?m" by (rule range_order_set [OF ord])
  have u: "UpdatedInBlock e ord logs = (map fst ?es, map (fst \<circ> snd) ?es, map (snd \<circ> snd) ?es)"
    using se by (auto simp: UpdatedInBlock_def Let_def)
  have nth: "last_sync e logs (fst (?es ! i)) = Some (snd (?es ! i))" if "i < length ?es" for i
  proof -
    have "?es ! i \<in> set ?m" using that se nth_mem by blast
    then show ?thesis using map_of_is_SomeI [OF d] l by (metis prod.collapse)
  qed
  have bound: "0 \<le> fst p \<and> fst p < 2 ^ 256 \<and> 0 \<le> snd p \<and> snd p < 2 ^ 256" if "last_sync e logs a = Some p" for a p
  proof -
    have "\<exists>lg. List.find (\<lambda>lg. is_sync e lg \<and> lgAddress lg = a) (rev logs) = Some lg \<and> sync_data lg = p"
      using that unfolding last_sync_def map_option_eq_Some .
    then obtain lg where f: "List.find (\<lambda>lg. is_sync e lg \<and> lgAddress lg = a) (rev logs) = Some lg" and p: "sync_data lg = p"
      by blast
    have lg: "is_sync e lg" "p = sync_data lg" using f p by (auto simp only: find_Some_iff)
    then have "length (take 32 (lgData lg)) = 32" "length (drop 32 (lgData lg)) = 32" by (simp_all add: is_sync_def)
    then show ?thesis
      using big_SetBytes_bound [of "take 32 (lgData lg)"] big_SetBytes_bound [of "drop 32 (lgData lg)"] by (simp add: lg(2) sync_data_def)
  qed
  have "fst ` set ?m = dom (map_of ?m)" by (simp add: dom_map_of_conv_image_fst)
  also have "\<dots> = {a. last_sync e logs a \<noteq> None}" by (auto simp only: dom_def l)
  also have "\<dots> = {lgAddress lg | lg. lg \<in> set logs \<and> is_sync e lg}"
    by (auto simp: last_sync_def find_None_iff)
  finally have dom: "set (map fst ?es) = {lgAddress lg | lg. lg \<in> set logs \<and> is_sync e lg}" using se by simp
  have nb: "last_sync e logs (map fst ?es ! i) = Some (map (fst \<circ> snd) ?es ! i, map (snd \<circ> snd) ?es ! i) \<and>
      0 \<le> map (fst \<circ> snd) ?es ! i \<and> map (fst \<circ> snd) ?es ! i < 2 ^ 256 \<and>
      0 \<le> map (snd \<circ> snd) ?es ! i \<and> map (snd \<circ> snd) ?es ! i < 2 ^ 256" if "i < length ?es" for i
    using nth [OF that] bound [OF nth [OF that]] that by simp
  show ?thesis unfolding u prod.case using de dom nb by (simp only: length_map) blast
qed

theorem UpdatedInBlock_last_witness:
  "let e = replicate 32 1; d = (\<lambda>x :: byte. replicate 31 0 @ [x]);
       logs = [\<lparr>lgAddress = [9], lgTopics = [e], lgData = d 5 @ d 6\<rparr>, \<lparr>lgAddress = [9], lgTopics = [e], lgData = d 7 @ d 8\<rparr>,
               \<lparr>lgAddress = [3], lgTopics = [e], lgData = [1]\<rparr>]
   in UpdatedInBlock e (\<lambda>m. m) logs = ([[9]], [7], [8]) \<and> set (fst (UpdatedInBlock e (\<lambda>m. m) logs)) = {lgAddress lg | lg. lg \<in> set logs \<and> is_sync e lg}"
proof -
  let ?e = "replicate 32 1 :: byte list"
  let ?d = "\<lambda>x :: byte. replicate 31 0 @ [x]"
  let ?logs = "[\<lparr>lgAddress = [9], lgTopics = [?e], lgData = ?d 5 @ ?d 6\<rparr>, \<lparr>lgAddress = [9], lgTopics = [?e], lgData = ?d 7 @ ?d 8\<rparr>,
               \<lparr>lgAddress = [3], lgTopics = [?e], lgData = [1]\<rparr>]"
  have "UpdatedInBlock ?e (\<lambda>m. m) ?logs = ([[9]], [7], [8])"
    by (simp add: UpdatedInBlock_def latest_syncs_def is_sync_def sync_data_def big_SetBytes_padded)
  moreover have "set (fst (UpdatedInBlock ?e (\<lambda>m. m) ?logs)) = {lgAddress lg | lg. lg \<in> set ?logs \<and> is_sync ?e lg}"
    using UpdatedInBlock_last [OF range_order_id, where e = ?e and logs = ?logs] by (simp only: split_beta)
  ultimately show ?thesis unfolding Let_def by blast
qed

end
