(* ===== verification/Token_Analyzer.thy ===== *)
theory Token_Analyzer
  imports Token_System UniswapV2_Logs
begin

text \<open>
  The token analyzer (\<^verbatim>\<open>src/token-analyzer\<close>): the extraction of the most active holders of each token from the Transfer events of a block, the
  volume analyzer that keeps them, the initializer of new tokens, and the analyzer that measures fee and gas of
  the tokens and stores them in the token system. The identifier of the Transfer event and the unpacking of its data belong to the ABI
  package and are arguments, as are the answers of the contracts and of the fee and gas requester. The readings of the clock within
  one call are one value, in nanoseconds.
\<close>

section \<open>Transfer events\<close>

definition BytesToAddress :: "byte list \<Rightarrow> address" where
  "BytesToAddress b = (let b' = drop (length b - 20) b in replicate (20 - length b') 0 @ b')"

definition ParseERC20TransferEvent :: "byte list \<Rightarrow> (byte list \<Rightarrow> string + int) \<Rightarrow> Log \<Rightarrow> string + address \<times> address \<times> int" where
  "ParseERC20TransferEvent transferID unpack l =
     (if length (lgTopics l) \<noteq> 3 \<or> lgTopics l ! 0 \<noteq> transferID then Inl ''logger is not a valid ERC20 Transfer event''
      else case unpack (lgData l) of
             Inl err \<Rightarrow> Inl err
           | Inr value \<Rightarrow> Inr (BytesToAddress (lgTopics l ! 1), BytesToAddress (lgTopics l ! 2), value))"

definition FilterERC20TransferLogs :: "byte list \<Rightarrow> Log list \<Rightarrow> Log list" where
  "FilterERC20TransferLogs transferID logs = filter (\<lambda>l. length (lgTopics l) > 0 \<and> lgTopics l ! 0 = transferID) logs"

section \<open>Extractors\<close>

record MaxTransferRecord =
  mtAddress :: address
  mtAmount :: int
  mtTime :: int

type_synonym transfer_parser = "Log \<Rightarrow> string + address \<times> address \<times> int"

text \<open>The events that the loops do not skip, each with the token, the address looked at, and the value.\<close>

definition transfers_by :: "(address \<Rightarrow> address \<Rightarrow> address) \<Rightarrow> transfer_parser \<Rightarrow> (address \<Rightarrow> bool) \<Rightarrow> Log list \<Rightarrow> (address \<times> address \<times> int) list" where
  "transfers_by who parse isAllowedAddress logs =
     List.map_filter (\<lambda>l. case parse l of
         Inl err \<Rightarrow> None
       | Inr (from, to, value) \<Rightarrow> if isAllowedAddress (who from to) then Some (lgAddress l, who from to, value) else None) logs"

definition single_step :: "int \<Rightarrow> (address, MaxTransferRecord) gomap \<Rightarrow> address \<times> address \<times> int \<Rightarrow> (address, MaxTransferRecord) gomap" where
  "single_step now m t = (case t of (tokenAddress, a, value) \<Rightarrow>
     (case map_of m tokenAddress of
        None \<Rightarrow> AList.update tokenAddress \<lparr>mtAddress = a, mtAmount = value, mtTime = now\<rparr> m
      | Some currentMax \<Rightarrow>
          if value > mtAmount currentMax then AList.update tokenAddress \<lparr>mtAddress = a, mtAmount = value, mtTime = now\<rparr> m else m))"

definition ExtractMaxSingleTransfer :: "int \<Rightarrow> transfer_parser \<Rightarrow> (address \<Rightarrow> bool) \<Rightarrow> Log list \<Rightarrow> (address, MaxTransferRecord) gomap" where
  "ExtractMaxSingleTransfer now parse isAllowedAddress logs = foldl (single_step now) [] (transfers_by (\<lambda>from to. from) parse isAllowedAddress logs)"

definition ExtractMaxSingleReceiver :: "int \<Rightarrow> transfer_parser \<Rightarrow> (address \<Rightarrow> bool) \<Rightarrow> Log list \<Rightarrow> (address, MaxTransferRecord) gomap" where
  "ExtractMaxSingleReceiver now parse isAllowedAddress logs = foldl (single_step now) [] (transfers_by (\<lambda>from to. to) parse isAllowedAddress logs)"

definition total_step :: "(address, (address, int) gomap) gomap \<Rightarrow> address \<times> address \<times> int \<Rightarrow> (address, (address, int) gomap) gomap" where
  "total_step totals t = (case t of (tokenAddress, a, value) \<Rightarrow>
     (let inner = (case map_of totals tokenAddress of None \<Rightarrow> [] | Some i \<Rightarrow> i);
          sofar = (case map_of inner a of None \<Rightarrow> 0 | Some x \<Rightarrow> x) in
      AList.update tokenAddress (AList.update a (sofar + value) inner) totals))"

fun max_entry :: "(address \<times> int) list \<Rightarrow> (address \<times> int) option \<Rightarrow> (address \<times> int) option" where
  "max_entry [] currentMax = currentMax"
| "max_entry ((a, totalAmount) # es) currentMax =
     max_entry es (case currentMax of None \<Rightarrow> Some (a, totalAmount) | Some (b, amount) \<Rightarrow> if totalAmount > amount then Some (a, totalAmount) else currentMax)"

definition max_by_token ::
  "int \<Rightarrow> (address, (address, int) gomap) range_order \<Rightarrow> (address, int) range_order \<Rightarrow> (address, (address, int) gomap) gomap \<Rightarrow> (address, MaxTransferRecord) gomap" where
  "max_by_token now ord1 ord2 totals =
     foldl (\<lambda>m (token, inner). case max_entry (ord2 inner) None of
         None \<Rightarrow> m
       | Some (a, amount) \<Rightarrow> AList.update token \<lparr>mtAddress = a, mtAmount = amount, mtTime = now\<rparr> m) [] (ord1 totals)"

definition ExtractMaxTotalVolumeTransferrer ::
  "int \<Rightarrow> (address, (address, int) gomap) range_order \<Rightarrow> (address, int) range_order \<Rightarrow> transfer_parser \<Rightarrow> (address \<Rightarrow> bool) \<Rightarrow> Log list \<Rightarrow>
   (address, MaxTransferRecord) gomap" where
  "ExtractMaxTotalVolumeTransferrer now ord1 ord2 parse isAllowedAddress logs =
     max_by_token now ord1 ord2 (foldl total_step [] (transfers_by (\<lambda>from to. from) parse isAllowedAddress logs))"

definition ExtractMaxTotalVolumeReceiver ::
  "int \<Rightarrow> (address, (address, int) gomap) range_order \<Rightarrow> (address, int) range_order \<Rightarrow> transfer_parser \<Rightarrow> (address \<Rightarrow> bool) \<Rightarrow> Log list \<Rightarrow>
   (address, MaxTransferRecord) gomap" where
  "ExtractMaxTotalVolumeReceiver now ord1 ord2 parse isAllowedAddress logs =
     max_by_token now ord1 ord2 (foldl total_step [] (transfers_by (\<lambda>from to. to) parse isAllowedAddress logs))"

section \<open>The volume analyzer\<close>

definition merge_step :: "(address, MaxTransferRecord) gomap \<Rightarrow> address \<times> MaxTransferRecord \<Rightarrow> (address, MaxTransferRecord) gomap" where
  "merge_step merged e = (case e of (token, new) \<Rightarrow>
     (case map_of merged token of
        None \<Rightarrow> AList.update token new merged
      | Some existing \<Rightarrow> if mtAmount new > mtAmount existing then AList.update token new merged else merged))"

definition MergeMaxTransferRecords ::
  "(address, MaxTransferRecord) range_order \<Rightarrow> (address, MaxTransferRecord) gomap \<Rightarrow> (address, MaxTransferRecord) gomap \<Rightarrow> (address, MaxTransferRecord) gomap" where
  "MergeMaxTransferRecords ord old new = foldl merge_step old (ord new)"

definition ExpireMaxTransferRecords :: "int \<Rightarrow> int \<Rightarrow> (address, MaxTransferRecord) gomap \<Rightarrow> (address, MaxTransferRecord) gomap" where
  "ExpireMaxTransferRecords now staleAfter records = filter (\<lambda>(token, r). now - mtTime r < staleAfter) records"

record VolumeAnalyzer =
  vaRecords :: "(address, MaxTransferRecord) gomap"
  vaStaleDuration :: int
  vaIsAllowedAddress :: "address \<Rightarrow> bool"

definition NewVolumeAnalyzer :: "int \<Rightarrow> int \<Rightarrow> (address \<Rightarrow> bool) option \<Rightarrow> string + VolumeAnalyzer" where
  "NewVolumeAnalyzer expiryCheckFrequency recordStaleDuration isAllowedAddress =
     (if expiryCheckFrequency \<le> 0 then Inl ''ExpiryCheckFrequency cannot be <= 0''
      else if recordStaleDuration \<le> 0 then Inl ''RecordStaleDuration cannot be <= 0''
      else case isAllowedAddress of
             None \<Rightarrow> Inl ''IsAllowedAddress cannot be nil''
           | Some f \<Rightarrow> Inr \<lparr>vaRecords = [], vaStaleDuration = recordStaleDuration, vaIsAllowedAddress = f\<rparr>)"

record va_orders =
  voTotals :: "(address, (address, int) gomap) range_order"
  voAmounts :: "(address, int) range_order"
  voRecords :: "(address, MaxTransferRecord) range_order"

definition va_Update :: "va_orders \<Rightarrow> transfer_parser \<Rightarrow> int \<Rightarrow> Log list \<Rightarrow> VolumeAnalyzer \<Rightarrow> VolumeAnalyzer" where
  "va_Update o' parse now logs a =
     (if logs = [] then a
      else let newRecords = ExtractMaxTotalVolumeTransferrer now (voTotals o') (voAmounts o') parse (vaIsAllowedAddress a) logs in
        if newRecords = [] then a else a\<lparr>vaRecords := MergeMaxTransferRecords (voRecords o') (vaRecords a) newRecords\<rparr>)"

definition TokenByMaxKnownHolder :: "VolumeAnalyzer \<Rightarrow> (address, address) gomap" where
  "TokenByMaxKnownHolder a = map (\<lambda>(token, r). (token, mtAddress r)) (vaRecords a)"

definition RecordByToken :: "address \<Rightarrow> VolumeAnalyzer \<Rightarrow> MaxTransferRecord option" where
  "RecordByToken token a = map_of (vaRecords a) token"

definition resetStaleRecords :: "int \<Rightarrow> VolumeAnalyzer \<Rightarrow> VolumeAnalyzer" where
  "resetStaleRecords now a =
     a\<lparr>vaRecords := map (\<lambda>(token, r). (token, if now - mtTime r > vaStaleDuration a then \<lparr>mtAddress = mtAddress r, mtAmount = 0, mtTime = now\<rparr> else r)) (vaRecords a)\<rparr>"

section \<open>The analyzer\<close>

datatype analyzer_error =
    ErrFeeAndGas string
  | ErrRequest string
  | ErrGetClient string
  | ErrNilClient
  | ErrFetchName string
  | ErrFetchSymbol string
  | ErrFetchDecimals string
  | ErrAddToken token_error
  | ErrUpdateToken token_error

record FeeAndGasResult =
  fgFee :: float64
  fgGas :: uint64
  fgError :: "string option"

text \<open>The client, which may be nil, and the answers of the contract.\<close>

record token_rpc =
  rpGetClient :: "string + bool"
  rpName :: "address \<Rightarrow> string + string"
  rpSymbol :: "address \<Rightarrow> string + string"
  rpDecimals :: "address \<Rightarrow> string + uint8"

definition Initialize :: "token_rpc \<Rightarrow> address \<Rightarrow> TokenSystem \<Rightarrow> (analyzer_error + TokenView) \<times> TokenSystem" where
  "Initialize rpc tokenAddress store =
     (case rpGetClient rpc of
        Inl err \<Rightarrow> (Inl (ErrGetClient err), store)
      | Inr isNil \<Rightarrow>
          if isNil then (Inl ErrNilClient, store)
          else (case (rpName rpc tokenAddress, rpSymbol rpc tokenAddress, rpDecimals rpc tokenAddress) of
                  (Inl err, _, _) \<Rightarrow> (Inl (ErrFetchName err), store)
                | (Inr name, Inl err, _) \<Rightarrow> (Inl (ErrFetchSymbol err), store)
                | (Inr name, Inr symbol, Inl err) \<Rightarrow> (Inl (ErrFetchDecimals err), store)
                | (Inr name, Inr symbol, Inr decimals) \<Rightarrow>
                    (case ts_AddToken tokenAddress name symbol decimals store of
                       (Inl err, store') \<Rightarrow> (Inl (ErrAddToken err), store')
                     | (Inr i, store') \<Rightarrow>
                         (Inr \<lparr>tvID = i, tvAddress = tokenAddress, tvName = name, tvSymbol = symbol, tvDecimals = decimals,
                               tvFeeOnTransferPercent = 0, tvGasForTransfer = 0\<rparr>, store'))))"

record Analyzer =
  anTokenStore :: TokenSystem
  anLastFeeAndGasCheck :: "address \<rightharpoonup> int"

definition filterTokensRequiringUpdate :: "int \<Rightarrow> int \<Rightarrow> (address, address) gomap \<Rightarrow> Analyzer \<Rightarrow> (address, address) gomap" where
  "filterTokensRequiringUpdate now minTokenUpdateInterval knownHolders a =
     filter (\<lambda>(token, holder). case anLastFeeAndGasCheck a token of None \<Rightarrow> True | Some lastCheck \<Rightarrow> now - lastCheck > minTokenUpdateInterval) knownHolders"

definition update_one :: "token_rpc \<Rightarrow> int \<Rightarrow> address \<Rightarrow> FeeAndGasResult \<Rightarrow> Analyzer \<Rightarrow> analyzer_error list \<times> Analyzer" where
  "update_one rpc now tokenAddr result a =
     (case fgError result of
        Some err \<Rightarrow> ([ErrFeeAndGas err], a)
      | None \<Rightarrow>
          (let (tokenView, store) = (case ts_GetTokenByAddress tokenAddr (anTokenStore a) of
                 Inr v \<Rightarrow> (Inr v, anTokenStore a)
               | Inl err \<Rightarrow> Initialize rpc tokenAddr (anTokenStore a)) in
           case tokenView of
             Inl err \<Rightarrow> ([err], a\<lparr>anTokenStore := store\<rparr>)
           | Inr v \<Rightarrow>
               (case ts_UpdateToken (tvID v) (fgFee result) (fgGas result) store of
                  (Inl err, store') \<Rightarrow> ([ErrUpdateToken err], a\<lparr>anTokenStore := store'\<rparr>)
                | (Inr u, store') \<Rightarrow> ([], a\<lparr>anTokenStore := store', anLastFeeAndGasCheck := (anLastFeeAndGasCheck a)(tokenAddr \<mapsto> now)\<rparr>))))"

fun updateTokens :: "token_rpc \<Rightarrow> int \<Rightarrow> (address \<times> FeeAndGasResult) list \<Rightarrow> Analyzer \<Rightarrow> analyzer_error list \<times> Analyzer" where
  "updateTokens rpc now [] a = ([], a)"
| "updateTokens rpc now ((tokenAddr, result) # rs) a =
     (let (errs, a') = update_one rpc now tokenAddr result a; (errs', a'') = updateTokens rpc now rs a' in (errs @ errs', a''))"

definition performFeeAndGasUpdate ::
  "(address, FeeAndGasResult) range_order \<Rightarrow> token_rpc \<Rightarrow> ((address, address) gomap \<Rightarrow> string + (address, FeeAndGasResult) gomap) \<Rightarrow> int \<Rightarrow> int \<Rightarrow>
   VolumeAnalyzer \<Rightarrow> Analyzer \<Rightarrow> analyzer_error list \<times> Analyzer" where
  "performFeeAndGasUpdate ord rpc requestAll now minTokenUpdateInterval va a =
     (let tokensToRequest = filterTokensRequiringUpdate now minTokenUpdateInterval (TokenByMaxKnownHolder va) a in
      if tokensToRequest = [] then ([], a)
      else case requestAll tokensToRequest of
             Inl err \<Rightarrow> ([ErrRequest err], a)
           | Inr results \<Rightarrow> updateTokens rpc now (ord results) a)"

section \<open>The log extractor\<close>

text \<open>One round of \<^verbatim>\<open>LiveExtractor.Run\<close>: the error that is reported, if any, and the analyzer after \<^verbatim>\<open>blockLogsHandler\<close>.\<close>

definition extractor_round ::
  "('block \<Rightarrow> bool) \<Rightarrow> (string + ('block \<Rightarrow> string + Log list)) \<Rightarrow> (Log list \<Rightarrow> VolumeAnalyzer \<Rightarrow> VolumeAnalyzer) \<Rightarrow> 'block option \<Rightarrow> VolumeAnalyzer \<Rightarrow>
   string option \<times> VolumeAnalyzer" where
  "extractor_round testBloom getFilterer logsHandler block va =
     (case block of
        None \<Rightarrow> (Some ''received nil block from eventer channel'', va)
      | Some b \<Rightarrow>
          if \<not> testBloom b then (None, va)
          else (case getFilterer of
                  Inl err \<Rightarrow> (Some err, va)
                | Inr filterer \<Rightarrow> (case filterer b of Inl err \<Rightarrow> (Some err, va) | Inr logs \<Rightarrow> (None, logsHandler logs va))))"

section \<open>What the extractors find\<close>

text \<open>The addresses that move a token in a list of transfers, and what each of them moves.\<close>

definition active :: "(address \<times> address \<times> int) list \<Rightarrow> address \<Rightarrow> address set" where
  "active T token = {a. \<exists>v. (token, a, v) \<in> set T}"

definition volume :: "(address \<times> address \<times> int) list \<Rightarrow> address \<Rightarrow> address \<Rightarrow> int" where
  "volume T token a = sum_list (map (\<lambda>(t, b, v). if t = token \<and> b = a then v else 0) T)"

lemma active_snoc: "active (T @ [(t, a, v)]) token = (if token = t then insert a (active T token) else active T token)"
  by (auto simp: active_def)

lemma volume_snoc: "volume (T @ [(t, b, v)]) token a = volume T token a + (if t = token \<and> b = a then v else 0)"
  by (simp add: volume_def)

lemma volume_inactive: "a \<notin> active T token \<Longrightarrow> volume T token a = 0"
  unfolding volume_def active_def by (induction T) auto

definition totals_ok :: "(address \<times> address \<times> int) list \<Rightarrow> (address, (address, int) gomap) gomap \<Rightarrow> bool" where
  "totals_ok T m \<longleftrightarrow> distinct (map fst m) \<and> (\<forall>token. case map_of m token of
       None \<Rightarrow> active T token = {}
     | Some inner \<Rightarrow> active T token \<noteq> {} \<and> distinct (map fst inner) \<and>
         (\<forall>a. map_of inner a = (if a \<in> active T token then Some (volume T token a) else None)))"

lemma totals_ok_step:
  assumes "totals_ok T m"
  shows "totals_ok (T @ [(t, a, v)]) (total_step m (t, a, v))"
proof -
  define inner where "inner = (case map_of m t of None \<Rightarrow> [] | Some i \<Rightarrow> i)"
  define sofar where "sofar = (case map_of inner a of None \<Rightarrow> 0 | Some x \<Rightarrow> x)"
  have step: "total_step m (t, a, v) = AList.update t (AList.update a (sofar + v) inner) m"
    by (simp add: total_step_def inner_def sofar_def Let_def)
  have inner: "distinct (map fst inner)" "\<And>b. map_of inner b = (if b \<in> active T t then Some (volume T t b) else None)"
    using assms unfolding totals_ok_def inner_def by (auto dest: spec [of _ t] split: option.splits)
  have sofar: "sofar = volume T t a" unfolding sofar_def inner(2) by (simp add: volume_inactive)
  show ?thesis unfolding totals_ok_def step
  proof (intro conjI allI)
    show "distinct (map fst (AList.update t (AList.update a (sofar + v) inner) m))" using assms by (simp add: totals_ok_def distinct_update)
    fix token
    show "case map_of (AList.update t (AList.update a (sofar + v) inner) m) token of
        None \<Rightarrow> active (T @ [(t, a, v)]) token = {}
      | Some i \<Rightarrow> active (T @ [(t, a, v)]) token \<noteq> {} \<and> distinct (map fst i) \<and>
          (\<forall>b. map_of i b = (if b \<in> active (T @ [(t, a, v)]) token then Some (volume (T @ [(t, a, v)]) token b) else None))"
    proof (cases "token = t")
      case True
      then show ?thesis using inner by (simp add: update_conv active_snoc volume_snoc sofar distinct_update)
    next
      case False
      then have same: "active (T @ [(t, a, v)]) token = active T token" "volume (T @ [(t, a, v)]) token = volume T token"
        "map_of (AList.update t (AList.update a (sofar + v) inner) m) token = map_of m token"
        by (simp_all add: active_snoc volume_snoc fun_eq_iff update_conv)
      show ?thesis unfolding same using assms by (simp add: totals_ok_def)
    qed
  qed
qed

lemma totals_spec: "totals_ok T (foldl total_step [] T)"
proof (induction T rule: rev_induct)
  case (snoc x T)
  then show ?case using totals_ok_step [of T] by (cases x) simp
qed (simp add: totals_ok_def active_def)

lemma max_entry_Some:
  "\<exists>a x. max_entry es (Some (b, y)) = Some (a, x) \<and> (a, x) \<in> insert (b, y) (set es) \<and> (\<forall>(c, z) \<in> insert (b, y) (set es). z \<le> x)"
proof (induction es arbitrary: b y)
  case (Cons e es)
  obtain c z where e: "e = (c, z)" by (cases e)
  show ?case
  proof (cases "z > y")
    case True
    then show ?thesis using Cons.IH [of c z] by (auto simp: e)
  next
    case False
    then show ?thesis using Cons.IH [of b y] by (auto simp: e)
  qed
qed simp

lemma max_entry_None:
  assumes "es \<noteq> []"
  shows "\<exists>a x. max_entry es None = Some (a, x) \<and> (a, x) \<in> set es \<and> (\<forall>(c, z) \<in> set es. z \<le> x)"
  using assms max_entry_Some by (cases es) auto

lemma max_by_token_fold:
  assumes "distinct (map fst es)"
  shows "map_of (foldl (\<lambda>m (token, inner). case max_entry (ord2 inner) None of None \<Rightarrow> m
       | Some (a, amount) \<Rightarrow> AList.update token \<lparr>mtAddress = a, mtAmount = amount, mtTime = now\<rparr> m) m es) token =
     (case map_of es token of None \<Rightarrow> map_of m token | Some inner \<Rightarrow>
       (case max_entry (ord2 inner) None of None \<Rightarrow> map_of m token | Some (a, amount) \<Rightarrow> Some \<lparr>mtAddress = a, mtAmount = amount, mtTime = now\<rparr>))"
  using assms
proof (induction es arbitrary: m)
  case (Cons e es)
  have "map_of es (fst e) = None" using Cons.prems by (simp add: map_of_eq_None_iff)
  then show ?case using Cons by (cases e) (auto simp: update_conv split: option.split)
qed simp

lemma max_by_token_spec:
  assumes "range_order ord1" and "range_order ord2"
  shows "case map_of (max_by_token now ord1 ord2 (foldl total_step [] T)) token of
      None \<Rightarrow> active T token = {}
    | Some r \<Rightarrow> mtAddress r \<in> active T token \<and> mtAmount r = volume T token (mtAddress r) \<and> (\<forall>a \<in> active T token. volume T token a \<le> mtAmount r) \<and> mtTime r = now"
proof -
  let ?m = "foldl total_step [] T"
  have ok: "totals_ok T ?m" by (rule totals_spec)
  have d: "distinct (map fst (ord1 ?m))" using assms(1) ok by (simp add: totals_ok_def range_order_distinct)
  have mo: "map_of (ord1 ?m) = map_of ?m" using assms(1) ok by (simp add: totals_ok_def range_order_map_of)
  show ?thesis
  proof (cases "map_of ?m token")
    case None
    then have "active T token = {}" using ok by (auto simp: totals_ok_def dest: spec [of _ token] split: option.splits)
    then show ?thesis using None by (simp add: max_by_token_def max_by_token_fold [OF d] mo)
  next
    case (Some inner)
    then have i: "active T token \<noteq> {}" "distinct (map fst inner)" "\<And>a. map_of inner a = (if a \<in> active T token then Some (volume T token a) else None)"
      using ok by (auto simp: totals_ok_def dest: spec [of _ token] split: option.splits)
    have mem: "(a, x) \<in> set (ord2 inner) \<longleftrightarrow> a \<in> active T token \<and> x = volume T token a" for a x
      using i(2,3) assms(2) map_of_eq_Some_iff [OF i(2), of a x] by (auto simp: range_order_set split: if_splits)
    then have "ord2 inner \<noteq> []" using i(1) by force
    then obtain a x where x: "max_entry (ord2 inner) None = Some (a, x)" "(a, x) \<in> set (ord2 inner)" "\<forall>(c, z) \<in> set (ord2 inner). z \<le> x"
      using max_entry_None by blast
    have "\<forall>b \<in> active T token. volume T token b \<le> x" using x(3) mem by blast
    then show ?thesis using Some x(1,2) mem by (simp add: max_by_token_def max_by_token_fold [OF d] mo)
  qed
qed

definition single_ok :: "(address \<times> address \<times> int) list \<Rightarrow> int \<Rightarrow> (address, MaxTransferRecord) gomap \<Rightarrow> bool" where
  "single_ok T now m \<longleftrightarrow> (\<forall>token. case map_of m token of
       None \<Rightarrow> active T token = {}
     | Some r \<Rightarrow> (token, mtAddress r, mtAmount r) \<in> set T \<and> (\<forall>a v. (token, a, v) \<in> set T \<longrightarrow> v \<le> mtAmount r) \<and> mtTime r = now)"

lemma single_spec: "single_ok T now (foldl (single_step now) [] T)"
proof (induction T rule: rev_induct)
  case (snoc x T)
  obtain t a v where x: "x = (t, a, v)" by (cases x) auto
  let ?m = "foldl (single_step now) [] T"
  have ih: "case map_of ?m t of None \<Rightarrow> active T t = {}
     | Some r \<Rightarrow> (t, mtAddress r, mtAmount r) \<in> set T \<and> (\<forall>a v. (t, a, v) \<in> set T \<longrightarrow> v \<le> mtAmount r) \<and> mtTime r = now" for t
    using snoc by (simp add: single_ok_def)
  have "case map_of (single_step now ?m (t, a, v)) token of None \<Rightarrow> active (T @ [(t, a, v)]) token = {}
     | Some r \<Rightarrow> (token, mtAddress r, mtAmount r) \<in> set (T @ [(t, a, v)]) \<and> (\<forall>b w. (token, b, w) \<in> set (T @ [(t, a, v)]) \<longrightarrow> w \<le> mtAmount r) \<and> mtTime r = now" for token
  proof (cases "token = t")
    case True
    then show ?thesis using ih [of t]
      by (fastforce simp: single_step_def update_conv active_def split: option.splits)
  next
    case False
    then have "map_of (single_step now ?m (t, a, v)) token = map_of ?m token"
      by (auto simp: single_step_def update_conv split: option.splits)
    then show ?thesis using ih [of token] False by (auto simp: active_snoc split: option.splits)
  qed
  then show ?case by (simp add: single_ok_def x)
qed (simp add: single_ok_def active_def)

lemma in_map_filter: "y \<in> set (List.map_filter f xs) \<Longrightarrow> \<exists>x \<in> set xs. f x = Some y"
  by (induction xs) (auto simp: List.map_filter_simps split: option.splits)

lemma transfers_allowed: "a \<in> active (transfers_by who parse allowed logs) token \<Longrightarrow> allowed a"
  unfolding active_def transfers_by_def by (auto dest!: in_map_filter split: sum.splits if_splits)

text \<open>
  What the four extractors return. For every token that an allowed address has moved, and for no other, there is a record. Of a
  single-transfer extractor it is a transfer of the largest value among the allowed ones; of a total-volume extractor it is an
  allowed address with the sum of all its transfers, and no allowed address has a larger sum. This holds for any
  order in which the maps are read.
\<close>

theorem extractors_exact:
  fixes parse :: transfer_parser and allowed :: "address \<Rightarrow> bool" and logs :: "Log list"
  assumes "range_order ord1" and "range_order ord2"
  defines "sent \<equiv> transfers_by (\<lambda>from to. from) parse allowed logs" and "received \<equiv> transfers_by (\<lambda>from to. to) parse allowed logs"
  shows "single_ok sent now (ExtractMaxSingleTransfer now parse allowed logs) \<and> single_ok received now (ExtractMaxSingleReceiver now parse allowed logs) \<and>
    (\<forall>token. case map_of (ExtractMaxTotalVolumeTransferrer now ord1 ord2 parse allowed logs) token of
        None \<Rightarrow> active sent token = {}
      | Some r \<Rightarrow> mtAddress r \<in> active sent token \<and> allowed (mtAddress r) \<and> mtAmount r = volume sent token (mtAddress r) \<and>
          (\<forall>a \<in> active sent token. volume sent token a \<le> mtAmount r)) \<and>
    (\<forall>token. case map_of (ExtractMaxTotalVolumeReceiver now ord1 ord2 parse allowed logs) token of
        None \<Rightarrow> active received token = {}
      | Some r \<Rightarrow> mtAddress r \<in> active received token \<and> allowed (mtAddress r) \<and> mtAmount r = volume received token (mtAddress r) \<and>
          (\<forall>a \<in> active received token. volume received token a \<le> mtAmount r))"
proof -
  have al: "allowed a" if "a \<in> active (transfers_by who parse allowed logs) token" for a token who
    using that by (rule transfers_allowed)
  have vol: "case map_of (max_by_token now ord1 ord2 (foldl total_step [] T)) token of
        None \<Rightarrow> active T token = {}
      | Some r \<Rightarrow> mtAddress r \<in> active T token \<and> allowed (mtAddress r) \<and> mtAmount r = volume T token (mtAddress r) \<and>
          (\<forall>a \<in> active T token. volume T token a \<le> mtAmount r)" if "T = transfers_by who parse allowed logs" for T token who
    using max_by_token_spec [OF assms(1,2), where now = now and T = T and token = token] al that by (auto split: option.splits)
  show ?thesis unfolding ExtractMaxSingleTransfer_def ExtractMaxSingleReceiver_def ExtractMaxTotalVolumeTransferrer_def ExtractMaxTotalVolumeReceiver_def
      sent_def [symmetric] received_def [symmetric]
    using single_spec vol [of sent "\<lambda>from to. from"] vol [of received "\<lambda>from to. to"] by (simp add: sent_def received_def)
qed

text \<open>Two senders of a token: the second sends more in sum.\<close>

definition wit_parse :: transfer_parser where
  "wit_parse l = Inr (lgData l, [], int (length (lgData l)))"

definition wit_log :: "byte list \<Rightarrow> Log" where
  "wit_log d = \<lparr>lgAddress = [9], lgTopics = [], lgData = d\<rparr>"

lemma wit_transfers: "transfers_by (\<lambda>from to. from) wit_parse (\<lambda>_. True) [wit_log [1, 1], wit_log [2], wit_log [2], wit_log [2]] =
    [([9], [1, 1], 2), ([9], [2], 1), ([9], [2], 1), ([9], [2], 1)]"
  by (simp add: transfers_by_def wit_parse_def wit_log_def map_filter_def)

theorem extractors_exact_witness:
  "\<exists>r. map_of (ExtractMaxTotalVolumeTransferrer 5 (\<lambda>m. m) rev wit_parse (\<lambda>_. True) [wit_log [1, 1], wit_log [2], wit_log [2], wit_log [2]]) [9] = Some r \<and>
     mtAmount r = 3 \<and> mtAddress r = [2]"
proof -
  let ?T = "[([9], [1, 1], 2), ([9], [2], 1), ([9], [2], 1), ([9], [2], 1)] :: (address \<times> address \<times> int) list"
  have act: "active ?T [9] = {[1, 1], [2]}" by (auto simp: active_def)
  have vol: "volume ?T [9] [1, 1] = 2" "volume ?T [9] [2] = 3" by (simp_all add: volume_def)
  have "case map_of (ExtractMaxTotalVolumeTransferrer 5 (\<lambda>m. m) rev wit_parse (\<lambda>_. True) [wit_log [1, 1], wit_log [2], wit_log [2], wit_log [2]]) [9] of
      None \<Rightarrow> active ?T [9] = {}
    | Some r \<Rightarrow> mtAddress r \<in> active ?T [9] \<and> mtAmount r = volume ?T [9] (mtAddress r) \<and> (\<forall>a \<in> active ?T [9]. volume ?T [9] a \<le> mtAmount r)"
    using extractors_exact [OF range_order_id range_order_rev, where now = 5 and parse = wit_parse and allowed = "\<lambda>_. True" and
        logs = "[wit_log [1, 1], wit_log [2], wit_log [2], wit_log [2]]", THEN conjunct2, THEN conjunct2, THEN conjunct1, THEN spec [of _ "[9]"]]
    unfolding wit_transfers by (auto split: option.splits)
  then show ?thesis unfolding act by (auto simp: vol split: option.splits)
qed

section \<open>The holders that are kept\<close>

lemma distinct_max_by_token: "distinct (map fst (max_by_token now ord1 ord2 m))"
proof -
  have "distinct (map fst acc) \<Longrightarrow> distinct (map fst (foldl (\<lambda>m (token, inner). case max_entry (ord2 inner) None of None \<Rightarrow> m
       | Some (a, amount) \<Rightarrow> AList.update token \<lparr>mtAddress = a, mtAmount = amount, mtTime = now\<rparr> m) acc es))" for acc :: "(address, MaxTransferRecord) gomap" and es
    by (induction es arbitrary: acc) (auto simp: distinct_update split: option.split)
  then show ?thesis by (simp add: max_by_token_def)
qed

lemma merge_fold:
  assumes "distinct (map fst es)"
  shows "map_of (foldl merge_step m es) token = (case map_of es token of
      None \<Rightarrow> map_of m token
    | Some r \<Rightarrow> (case map_of m token of None \<Rightarrow> Some r | Some x \<Rightarrow> Some (if mtAmount r > mtAmount x then r else x)))"
  using assms
proof (induction es arbitrary: m)
  case (Cons e es)
  have "map_of es (fst e) = None" using Cons.prems by (simp add: map_of_eq_None_iff)
  then show ?case using Cons by (cases e) (auto simp: merge_step_def update_conv split: option.split)
qed simp

lemma holder_map: "map_of (TokenByMaxKnownHolder a) token = map_option mtAddress (map_of (vaRecords a) token)"
  by (simp add: TokenByMaxKnownHolder_def map_of_map)

lemma reset_holders: "TokenByMaxKnownHolder (resetStaleRecords now a) = TokenByMaxKnownHolder a"
  by (auto simp: TokenByMaxKnownHolder_def resetStaleRecords_def)

datatype va_input = Batch va_orders int "Log list" | Reset int

fun va_event :: "transfer_parser \<Rightarrow> VolumeAnalyzer \<Rightarrow> va_input \<Rightarrow> VolumeAnalyzer" where
  "va_event parse a (Batch o' now logs) = va_Update o' parse now logs a"
| "va_event parse a (Reset now) = resetStaleRecords now a"

text \<open>The addresses that have moved a token in the batches of an execution.\<close>

fun seen_holders :: "transfer_parser \<Rightarrow> (address \<Rightarrow> bool) \<Rightarrow> va_input list \<Rightarrow> address \<Rightarrow> address set" where
  "seen_holders parse allowed [] token = {}"
| "seen_holders parse allowed (Batch o' now logs # es) token = active (transfers_by (\<lambda>from to. from) parse allowed logs) token \<union> seen_holders parse allowed es token"
| "seen_holders parse allowed (Reset now # es) token = seen_holders parse allowed es token"

definition orders_ok :: "va_input \<Rightarrow> bool" where
  "orders_ok e \<longleftrightarrow> (case e of Batch o' now logs \<Rightarrow> range_order (voTotals o') \<and> range_order (voAmounts o') \<and> range_order (voRecords o') | Reset now \<Rightarrow> True)"

lemma update_holders:
  fixes parse :: transfer_parser and a :: VolumeAnalyzer and logs :: "Log list" and token :: address
  assumes "range_order (voTotals o')" and "range_order (voAmounts o')" and "range_order (voRecords o')"
  defines "T \<equiv> transfers_by (\<lambda>from to. from) parse (vaIsAllowedAddress a) logs" and "h \<equiv> map_of (TokenByMaxKnownHolder a) token"
  shows "case map_of (TokenByMaxKnownHolder (va_Update o' parse now logs a)) token of
      None \<Rightarrow> h = None \<and> active T token = {}
    | Some x \<Rightarrow> x \<in> active T token \<or> h = Some x"
proof -
  let ?new = "ExtractMaxTotalVolumeTransferrer now (voTotals o') (voAmounts o') parse (vaIsAllowedAddress a) logs"
  have new: "case map_of ?new token of None \<Rightarrow> active T token = {} | Some r \<Rightarrow> mtAddress r \<in> active T token"
    using max_by_token_spec [OF assms(1,2), where now = now and T = T and token = token]
    by (auto simp: ExtractMaxTotalVolumeTransferrer_def T_def split: option.splits)
  show ?thesis
  proof (cases "logs = [] \<or> ?new = []")
    case True
    then have u: "va_Update o' parse now logs a = a" by (auto simp: va_Update_def)
    have "active T token = {}" using True new by (auto simp: T_def transfers_by_def active_def List.map_filter_simps)
    then show ?thesis by (simp add: u h_def split: option.split)
  next
    case False
    have d: "distinct (map fst ?new)" by (simp add: ExtractMaxTotalVolumeTransferrer_def distinct_max_by_token)
    have "map_of (vaRecords (va_Update o' parse now logs a)) token = (case map_of ?new token of
        None \<Rightarrow> map_of (vaRecords a) token
      | Some r \<Rightarrow> (case map_of (vaRecords a) token of None \<Rightarrow> Some r | Some x \<Rightarrow> Some (if mtAmount r > mtAmount x then r else x)))"
      using False d assms(3) by (simp add: va_Update_def Let_def MergeMaxTransferRecords_def merge_fold range_order_distinct range_order_map_of)
    then show ?thesis using new unfolding holder_map h_def by (auto split: option.splits)
  qed
qed

lemma seen_Cons: "seen_holders parse allowed (e # es) token = seen_holders parse allowed [e] token \<union> seen_holders parse allowed es token"
  by (cases e) auto

lemma seen_snoc: "seen_holders parse allowed (xs @ [e]) token = seen_holders parse allowed xs token \<union> seen_holders parse allowed [e] token"
proof (induction xs)
  case (Cons x xs)
  then show ?case using seen_Cons [of parse allowed x "xs @ [e]" token] seen_Cons [of parse allowed x xs token] by auto
qed simp

lemma seen_allowed: "h \<in> seen_holders parse allowed xs token \<Longrightarrow> allowed h"
proof (induction xs)
  case (Cons e es)
  then show ?case by (cases e) (auto dest: transfers_allowed)
qed simp

text \<open>
  The volume analyzer over any sequence of batches of logs and of expiry ticks. It knows a holder for a token exactly if some batch
  had a transfer of the token by an allowed address, and the holder is such an address; so a token that once has a
  holder has one from then on, also when its record has gone stale.
\<close>

theorem volume_analyzer_holders:
  assumes "NewVolumeAnalyzer freq stale (Some allowed) = Inr a0" and "\<forall>e \<in> set es. orders_ok e"
  shows "case map_of (TokenByMaxKnownHolder (foldl (va_event parse) a0 es)) token of
      None \<Rightarrow> seen_holders parse allowed es token = {}
    | Some h \<Rightarrow> h \<in> seen_holders parse allowed es token \<and> allowed h"
proof -
  have "vaIsAllowedAddress (foldl (va_event parse) a0 es) = allowed \<and> (case map_of (TokenByMaxKnownHolder (foldl (va_event parse) a0 es)) token of
      None \<Rightarrow> seen_holders parse allowed es token = {} | Some h \<Rightarrow> h \<in> seen_holders parse allowed es token)"
    using assms(2)
  proof (induction es rule: rev_induct)
    case Nil
    then show ?case using assms(1) by (auto simp: NewVolumeAnalyzer_def TokenByMaxKnownHolder_def split: if_splits)
  next
    case (snoc e es)
    let ?a = "foldl (va_event parse) a0 es"
    have ih: "vaIsAllowedAddress ?a = allowed" "case map_of (TokenByMaxKnownHolder ?a) token of
        None \<Rightarrow> seen_holders parse allowed es token = {} | Some h \<Rightarrow> h \<in> seen_holders parse allowed es token"
      using snoc by auto
    show ?case
    proof (cases e)
      case (Reset now)
      then have "seen_holders parse allowed (es @ [e]) token = seen_holders parse allowed es token" by (simp add: seen_snoc)
      moreover have "vaIsAllowedAddress (resetStaleRecords now ?a) = vaIsAllowedAddress ?a" by (simp add: resetStaleRecords_def)
      ultimately show ?thesis using ih Reset by (auto simp: reset_holders split: option.splits)
    next
      case (Batch o' now logs)
      have o: "range_order (voTotals o')" "range_order (voAmounts o')" "range_order (voRecords o')" using snoc.prems Batch by (simp_all add: orders_ok_def)
      have "vaIsAllowedAddress (va_Update o' parse now logs ?a) = allowed" using ih(1) by (simp add: va_Update_def Let_def)
      then show ?thesis using update_holders [OF o, where a = ?a and token = token and parse = parse and now = now and logs = logs] ih by (auto simp: Batch seen_snoc split: option.splits)
    qed
  qed
  then show ?thesis by (auto split: option.splits dest: seen_allowed)
qed

definition wit_orders :: va_orders where
  "wit_orders = \<lparr>voTotals = \<lambda>m. m, voAmounts = rev, voRecords = rev\<rparr>"

theorem volume_analyzer_holders_witness:
  "map_of (TokenByMaxKnownHolder (foldl (va_event wit_parse) \<lparr>vaRecords = [], vaStaleDuration = 1, vaIsAllowedAddress = \<lambda>_. True\<rparr>
      [Batch wit_orders 5 [wit_log [1]], Reset 100])) [9] = Some [1]"
proof -
  have new: "NewVolumeAnalyzer 1 1 (Some (\<lambda>_. True)) = Inr \<lparr>vaRecords = [], vaStaleDuration = 1, vaIsAllowedAddress = \<lambda>_. True\<rparr>"
    by (simp add: NewVolumeAnalyzer_def)
  have ok: "\<forall>e \<in> set [Batch wit_orders 5 [wit_log [1]], Reset 100]. orders_ok e" by (simp add: orders_ok_def wit_orders_def)
  have "seen_holders wit_parse (\<lambda>_. True) [Batch wit_orders 5 [wit_log [1]], Reset 100] [9] = {[1]}"
    by (simp add: transfers_by_def wit_parse_def wit_log_def active_def List.map_filter_simps)
  then show ?thesis using volume_analyzer_holders [OF new ok, of wit_parse "[9]"] by (auto split: option.splits)
qed

section \<open>Fee and gas of the tokens\<close>

text \<open>The store seen by address, and the metadata of a token if all of it can be fetched.\<close>

definition store_at :: "Analyzer \<Rightarrow> address \<Rightarrow> TokenView option" where
  "store_at a = keyed tvAddress (ts_View (anTokenStore a))"

definition metadata :: "token_rpc \<Rightarrow> address \<Rightarrow> (string \<times> string \<times> uint8) option" where
  "metadata rpc addr = (case (rpGetClient rpc, rpName rpc addr, rpSymbol rpc addr, rpDecimals rpc addr) of
     (Inr False, Inr name, Inr symbol, Inr decimals) \<Rightarrow> Some (name, symbol, decimals) | _ \<Rightarrow> None)"

definition analyzer_inv :: "Analyzer \<Rightarrow> bool" where
  "analyzer_inv a \<longleftrightarrow> token_inv (tsRegistry (anTokenStore a))"

definition next_id :: "Analyzer \<Rightarrow> uint64" where
  "next_id a = trNextID (tsRegistry (anTokenStore a))"

lemma get_store: "analyzer_inv a \<Longrightarrow> ts_GetTokenByAddress addr (anTokenStore a) = option_result ErrTokenNotFound (store_at a addr)"
  by (simp add: ts_GetTokenByAddress_def token_get_address analyzer_inv_def store_at_def ts_View_def)

lemma initialize_known:
  "metadata rpc addr = None \<Longrightarrow> \<exists>e. Initialize rpc addr store = (Inl e, store)"
  by (auto simp: metadata_def Initialize_def split: sum.splits if_splits bool.splits)

lemma initialize_new:
  assumes "token_inv r" and "trAddressToID r addr = None" and "trNextID r + 1 \<noteq> 0" and "metadata rpc addr = Some (n, s, d)"
  defines "v \<equiv> \<lparr>tvID = trNextID r, tvAddress = addr, tvName = n, tvSymbol = s, tvDecimals = d, tvFeeOnTransferPercent = 0, tvGasForTransfer = 0\<rparr>"
  shows "\<exists>r'. Initialize rpc addr (ts\<lparr>tsRegistry := r\<rparr>) = (Inr v, ts\<lparr>tsRegistry := r'\<rparr>) \<and> token_inv r' \<and> token_viewRegistry r' = token_viewRegistry r @ [v] \<and>
    trNextID r' = trNextID r + 1"
proof -
  obtain r' where r': "addToken addr n s d r = Inr (trNextID r, r')" "token_inv r'" "token_viewRegistry r' = token_viewRegistry r @ [v]" "trNextID r' = trNextID r + 1"
    using addToken_spec [OF assms(1-3), of n s d] unfolding v_def by metis
  have "Initialize rpc addr (ts\<lparr>tsRegistry := r\<rparr>) = (Inr v, ts\<lparr>tsRegistry := r'\<rparr>)"
    using assms(4) r'(1) by (auto simp: metadata_def Initialize_def ts_AddToken_def v_def split: sum.splits bool.splits)
  then show ?thesis using r' by blast
qed

lemma address_unknown: "token_inv r \<Longrightarrow> keyed tvAddress (token_viewRegistry r) a = None \<Longrightarrow> trAddressToID r a = None"
  using token_get_address [of r a] by (auto simp: getTokenByAddress_def split: option.splits)

lemma store_update:
  assumes inv: "token_inv r" and v: "keyed tvAddress (token_viewRegistry r) addr = Some v"
  shows "\<exists>r'. ts_UpdateToken (tvID v) fee gas (ts\<lparr>tsRegistry := r\<rparr>) = (Inr (), ts\<lparr>tsRegistry := r'\<rparr>) \<and> token_inv r' \<and> trNextID r' = trNextID r \<and>
    keyed tvAddress (token_viewRegistry r') = (keyed tvAddress (token_viewRegistry r))(addr \<mapsto> v\<lparr>tvFeeOnTransferPercent := fee, tvGasForTransfer := gas\<rparr>)"
proof -
  note lay = token_inv_layout [OF inv]
  let ?vs = "token_viewRegistry r"
  obtain i where i: "i < length ?vs" "?vs ! i = v" and a: "tvAddress v = addr" using keyed_SomeD [OF v] by (metis in_set_conv_nth)
  have "trIdToIndex r (tvID v) = Some i"
    using index_inv_nth [OF token_view_index [OF lay], of i] i by simp
  then obtain r' where r': "updateToken (tvID v) fee gas r = Inr r'" "token_inv r'" "trNextID r' = trNextID r"
    "token_viewRegistry r' = ?vs[i := (?vs ! i)\<lparr>tvFeeOnTransferPercent := fee, tvGasForTransfer := gas\<rparr>]"
    using updateToken_spec [OF inv, of "tvID v" i fee gas] by metis
  have d: "distinct (map tvAddress ?vs)" using token_view_addresses [OF lay] token_address_distinct [OF lay] by simp
  let ?v = "v\<lparr>tvFeeOnTransferPercent := fee, tvGasForTransfer := gas\<rparr>"
  have "keyed tvAddress (?vs[i := ?v]) = (keyed tvAddress ?vs)(addr \<mapsto> ?v)"
  proof -
    have sp: "?vs = take i ?vs @ v # drop (Suc i) ?vs" "?vs[i := ?v] = take i ?vs @ ?v # drop (Suc i) ?vs"
      using i by (simp_all add: id_take_nth_drop [OF i(1), unfolded i(2), symmetric] upd_conv_take_nth_drop)
    have nin: "addr \<notin> tvAddress ` set (take i ?vs)" using d sp(1) a by (metis (no_types, lifting) distinct_append list.set_intros(1) list.simps(9) map_append not_distinct_conv_prefix set_map)
    have c: "keyed tvAddress (xs @ w # ys) k = (case keyed tvAddress xs k of Some x \<Rightarrow> Some x | None \<Rightarrow> if k = tvAddress w then Some w else keyed tvAddress ys k)" for xs w ys k
      by (induction xs) auto
    show ?thesis
    proof
      fix k
      have "keyed tvAddress (take i ?vs) addr = None" using nin by (simp add: keyed_None_iff)
      then show "keyed tvAddress (?vs[i := ?v]) k = ((keyed tvAddress ?vs)(addr \<mapsto> ?v)) k"
        unfolding sp(2) using c [of "take i ?vs" v "drop (Suc i) ?vs" k] sp(1) a by (auto simp: c split: option.splits)
    qed
  qed
  then show ?thesis using r' i(2) by (intro exI [of _ r']) (simp add: ts_UpdateToken_def)
qed

definition known_view :: "token_rpc \<Rightarrow> Analyzer \<Rightarrow> address \<Rightarrow> TokenView option" where
  "known_view rpc a addr = (case store_at a addr of
      Some v \<Rightarrow> Some v
    | None \<Rightarrow> map_option (\<lambda>(n, s, d). \<lparr>tvID = next_id a, tvAddress = addr, tvName = n, tvSymbol = s, tvDecimals = d, tvFeeOnTransferPercent = 0, tvGasForTransfer = 0\<rparr>)
        (metadata rpc addr))"

definition with_measure :: "FeeAndGasResult \<Rightarrow> TokenView \<Rightarrow> TokenView" where
  "with_measure result v = v\<lparr>tvFeeOnTransferPercent := fgFee result, tvGasForTransfer := fgGas result\<rparr>"

lemma update_one_spec:
  assumes inv: "analyzer_inv a" and cnt: "next_id a + 1 \<noteq> 0" and one: "update_one rpc now addr result a = (errs, a')"
  shows "analyzer_inv a' \<and> (next_id a' = next_id a \<or> next_id a' = next_id a + 1) \<and>
    (case (fgError result, known_view rpc a addr) of
       (None, Some v) \<Rightarrow> errs = [] \<and> store_at a' = (store_at a)(addr \<mapsto> with_measure result v) \<and> anLastFeeAndGasCheck a' = (anLastFeeAndGasCheck a)(addr \<mapsto> now)
     | _ \<Rightarrow> errs \<noteq> [] \<and> a' = a)"
proof -
  let ?r = "tsRegistry (anTokenStore a)"
  have r: "token_inv ?r" using inv by (simp add: analyzer_inv_def)
  have ts: "(anTokenStore a)\<lparr>tsRegistry := ?r\<rparr> = anTokenStore a" by simp
  have upd: "\<exists>r'. ts_UpdateToken (tvID v) (fgFee result) (fgGas result) ((anTokenStore a)\<lparr>tsRegistry := q\<rparr>) = (Inr (), (anTokenStore a)\<lparr>tsRegistry := r'\<rparr>) \<and>
      token_inv r' \<and> trNextID r' = trNextID q \<and> keyed tvAddress (token_viewRegistry r') = (keyed tvAddress (token_viewRegistry q))(addr \<mapsto> with_measure result v)"
    if "token_inv q" "keyed tvAddress (token_viewRegistry q) addr = Some v" for q v
    using store_update [OF that] by (simp add: with_measure_def)
  show ?thesis
  proof (cases "fgError result")
    case (Some e)
    then show ?thesis using one inv by (auto simp: update_one_def)
  next
    case ok: None
    show ?thesis
    proof (cases "store_at a addr")
      case (Some v)
      then have kv: "known_view rpc a addr = Some v" by (simp add: known_view_def)
      obtain r' where r': "ts_UpdateToken (tvID v) (fgFee result) (fgGas result) (anTokenStore a) = (Inr (), (anTokenStore a)\<lparr>tsRegistry := r'\<rparr>)" "token_inv r'"
        "trNextID r' = trNextID ?r" "keyed tvAddress (token_viewRegistry r') = (keyed tvAddress (token_viewRegistry ?r))(addr \<mapsto> with_measure result v)"
        using upd [OF r] Some ts by (auto simp: store_at_def ts_View_def)
      have "a' = a\<lparr>anTokenStore := (anTokenStore a)\<lparr>tsRegistry := r'\<rparr>, anLastFeeAndGasCheck := (anLastFeeAndGasCheck a)(addr \<mapsto> now)\<rparr>" "errs = []"
        using one ok Some r'(1) by (simp_all add: update_one_def get_store [OF inv] Let_def)
      then show ?thesis using ok kv r' by (simp add: analyzer_inv_def next_id_def store_at_def ts_View_def)
    next
      case new: None
      show ?thesis
      proof (cases "metadata rpc addr")
        case None
        then obtain e where "Initialize rpc addr (anTokenStore a) = (Inl e, anTokenStore a)" using initialize_known by blast
        then have "a' = a" "errs \<noteq> []" using one ok new by (auto simp: update_one_def get_store [OF inv] Let_def)
        then show ?thesis using inv ok new None by (simp add: known_view_def)
      next
        case (Some m)
        obtain n s d where m: "m = (n, s, d)" by (cases m)
        let ?v = "\<lparr>tvID = next_id a, tvAddress = addr, tvName = n, tvSymbol = s, tvDecimals = d, tvFeeOnTransferPercent = 0, tvGasForTransfer = 0\<rparr>"
        have fresh: "trAddressToID ?r addr = None" using address_unknown [OF r] new by (simp add: store_at_def ts_View_def)
        obtain q where q: "Initialize rpc addr (anTokenStore a) = (Inr ?v, (anTokenStore a)\<lparr>tsRegistry := q\<rparr>)" "token_inv q"
          "token_viewRegistry q = token_viewRegistry ?r @ [?v]" "trNextID q = trNextID ?r + 1"
          using initialize_new [OF r fresh _ Some [unfolded m], of "anTokenStore a"] cnt by (auto simp: next_id_def)
        have kq: "keyed tvAddress (token_viewRegistry q) = (keyed tvAddress (token_viewRegistry ?r))(addr \<mapsto> ?v)"
          using keyed_append_None [of tvAddress "token_viewRegistry ?r" ?v] new by (simp add: q(3) store_at_def ts_View_def)
        obtain r' where r': "ts_UpdateToken (tvID ?v) (fgFee result) (fgGas result) ((anTokenStore a)\<lparr>tsRegistry := q\<rparr>) = (Inr (), (anTokenStore a)\<lparr>tsRegistry := r'\<rparr>)"
          "token_inv r'" "trNextID r' = trNextID q" "keyed tvAddress (token_viewRegistry r') = (keyed tvAddress (token_viewRegistry q))(addr \<mapsto> with_measure result ?v)"
          using upd [OF q(2), of ?v] kq by auto
        have "a' = a\<lparr>anTokenStore := (anTokenStore a)\<lparr>tsRegistry := r'\<rparr>, anLastFeeAndGasCheck := (anLastFeeAndGasCheck a)(addr \<mapsto> now)\<rparr>" "errs = []"
          using one ok new q(1) r'(1) by (simp_all add: update_one_def get_store [OF inv] Let_def)
        then show ?thesis using ok new r' kq q(4) Some m by (simp add: analyzer_inv_def next_id_def store_at_def ts_View_def known_view_def)
      qed
    qed
  qed
qed

text \<open>What becomes of one address: \<open>a\<close> before, \<open>a'\<close> after, with the result for it, if there is one.\<close>

definition updated_as :: "token_rpc \<Rightarrow> int \<Rightarrow> Analyzer \<Rightarrow> Analyzer \<Rightarrow> address \<Rightarrow> FeeAndGasResult option \<Rightarrow> bool" where
  "updated_as rpc now a a' addr res \<longleftrightarrow>
     (if \<exists>result. res = Some result \<and> fgError result = None \<and> known_view rpc a addr \<noteq> None
      then anLastFeeAndGasCheck a' addr = Some now \<and>
        (\<exists>v i. known_view rpc a addr = Some v \<and> (store_at a addr \<noteq> None \<longrightarrow> i = tvID v) \<and> store_at a' addr = Some (with_measure (the res) (v\<lparr>tvID := i\<rparr>)))
      else store_at a' addr = store_at a addr \<and> anLastFeeAndGasCheck a' addr = anLastFeeAndGasCheck a addr)"

lemma known_view_same_store:
  "store_at a1 addr = store_at a addr \<Longrightarrow>
   known_view rpc a1 addr = (if store_at a addr = None then map_option (\<lambda>v. v\<lparr>tvID := next_id a1\<rparr>) (known_view rpc a addr) else known_view rpc a addr)"
  by (cases "metadata rpc addr") (auto simp: known_view_def split: option.splits)

lemma updated_as_later:
  assumes "store_at a1 addr = store_at a addr" and "anLastFeeAndGasCheck a1 addr = anLastFeeAndGasCheck a addr" and "updated_as rpc now a1 a' addr res"
  shows "updated_as rpc now a a' addr res"
proof (cases "\<exists>result. res = Some result \<and> fgError result = None \<and> known_view rpc a addr \<noteq> None")
  case True
  then obtain result v where r: "res = Some result" "fgError result = None" "known_view rpc a addr = Some v" by blast
  obtain w where w: "known_view rpc a1 addr = Some w" "w\<lparr>tvID := tvID v\<rparr> = v" "store_at a addr \<noteq> None \<Longrightarrow> w = v"
    using known_view_same_store [OF assms(1), of rpc] r(3) by (auto split: if_splits)
  obtain i where i: "store_at a addr \<noteq> None \<longrightarrow> i = tvID w" "store_at a' addr = Some (with_measure result (w\<lparr>tvID := i\<rparr>))" "anLastFeeAndGasCheck a' addr = Some now"
    using assms(1,3) r(1,2) w(1) by (auto simp: updated_as_def)
  have "w\<lparr>tvID := i\<rparr> = v\<lparr>tvID := i\<rparr>" by (subst w(2) [symmetric]) simp
  then show ?thesis using r i w(3) by (auto simp: updated_as_def)
next
  case False
  then have n: "\<not> (\<exists>result. res = Some result \<and> fgError result = None \<and> known_view rpc a1 addr \<noteq> None)"
    using known_view_same_store [OF assms(1), of rpc] by (auto split: if_splits)
  show ?thesis using assms(1,2) assms(3) [unfolded updated_as_def if_not_P [OF n]] unfolding updated_as_def if_not_P [OF False] by simp
qed

lemma unat_next_id:
  assumes "next_id a' = next_id a \<or> next_id a' = next_id a + 1" and "unat (next_id a) + Suc n < 2 ^ 64"
  shows "unat (next_id a') + n < 2 ^ 64" and "next_id a + 1 \<noteq> 0"
proof -
  have "unat (next_id a + 1) = unat (next_id a) + 1" using assms(2) by (subst unat_add_lem [THEN iffD1]) simp_all
  then show "unat (next_id a') + n < 2 ^ 64" "next_id a + 1 \<noteq> 0" using assms by auto
qed

text \<open>
  C31: A round of fee and gas measurements. The token store stays consistent. A token that was measured, and that the store knows or whose
  metadata could be fetched, is afterwards in the store with the measured fee and gas, with its other data as it was or
  as fetched, and the time of its check is recorded; every other token, in particular one whose measurement or
  initialization failed, is left as it was, and so is the time of its check, so that it is tried again.
\<close>

theorem analyzer_updates_tokens:
  assumes "analyzer_inv a" and "distinct (map fst rs)" and "unat (next_id a) + length rs < 2 ^ 64" and "updateTokens rpc now rs a = (errs, a')"
  shows "analyzer_inv a' \<and> (\<forall>addr. updated_as rpc now a a' addr (map_of rs addr))"
  using assms
proof (induction rs arbitrary: a errs)
  case Nil
  then show ?case by (simp add: updated_as_def)
next
  case (Cons e rs)
  obtain addr0 result where e: "e = (addr0, result)" by (cases e)
  obtain es a1 where one: "update_one rpc now addr0 result a = (es, a1)" by (cases "update_one rpc now addr0 result a")
  obtain es' where rest: "updateTokens rpc now rs a1 = (es', a')" using Cons.prems(4) one e by (auto simp: Let_def split: prod.splits)
  have cnt: "next_id a + 1 \<noteq> 0" using unat_next_id(2) [of a a "length rs"] Cons.prems(3) by simp
  note u = update_one_spec [OF Cons.prems(1) cnt one]
  have len: "unat (next_id a1) + length rs < 2 ^ 64" using unat_next_id(1) [of a1 a "length rs"] u Cons.prems(3) by simp
  have ih: "analyzer_inv a'" "\<And>addr. updated_as rpc now a1 a' addr (map_of rs addr)"
    using Cons.IH [OF _ _ len rest] u Cons.prems(2) by auto
  have "updated_as rpc now a a' addr (map_of (e # rs) addr)" for addr
  proof (cases "addr = addr0")
    case False
    then have "store_at a1 addr = store_at a addr" "anLastFeeAndGasCheck a1 addr = anLastFeeAndGasCheck a addr"
      using u by (auto split: option.splits)
    then show ?thesis using updated_as_later [OF _ _ ih(2)] False e by simp
  next
    case True
    have "map_of rs addr0 = None" using Cons.prems(2) e by (simp add: map_of_eq_None_iff)
    then have "store_at a' addr0 = store_at a1 addr0" "anLastFeeAndGasCheck a' addr0 = anLastFeeAndGasCheck a1 addr0"
      using ih(2) [of addr0] by (simp_all add: updated_as_def)
    then show ?thesis using u True e by (auto simp: updated_as_def split: option.splits intro!: exI)
  qed
  then show ?case using ih(1) by blast
qed

definition wit_rpc :: token_rpc where
  "wit_rpc = \<lparr>rpGetClient = Inr False, rpName = \<lambda>_. Inr ''n'', rpSymbol = \<lambda>_. Inr ''s'', rpDecimals = \<lambda>_. Inr 18\<rparr>"

definition wit_analyzer :: Analyzer where
  "wit_analyzer = \<lparr>anTokenStore = NewTokenSystem, anLastFeeAndGasCheck = Map.empty\<rparr>"

definition wit_result :: FeeAndGasResult where
  "wit_result = \<lparr>fgFee = 2, fgGas = 3, fgError = None\<rparr>"

theorem analyzer_updates_tokens_witness:
  "anLastFeeAndGasCheck (snd (updateTokens wit_rpc 50 [([9], wit_result)] wit_analyzer)) [9] = Some 50 \<and>
   (\<exists>v. store_at (snd (updateTokens wit_rpc 50 [([9], wit_result)] wit_analyzer)) [9] = Some v \<and> tvName v = ''n'' \<and> tvGasForTransfer v = 3)"
proof -
  have inv: "analyzer_inv wit_analyzer" by (simp add: analyzer_inv_def wit_analyzer_def token_inv_NewTokenSystem)
  have n: "next_id wit_analyzer = 1" "store_at wit_analyzer [9] = None"
    by (simp_all add: next_id_def wit_analyzer_def store_at_def NewTokenSystem_def NewTokenRegistry_def ts_View_def token_viewRegistry_def)
  have k: "known_view wit_rpc wit_analyzer [9] \<noteq> None" "\<And>v. known_view wit_rpc wit_analyzer [9] = Some v \<Longrightarrow> tvName v = ''n''"
    by (auto simp: known_view_def n metadata_def wit_rpc_def)
  have "updated_as wit_rpc 50 wit_analyzer (snd (updateTokens wit_rpc 50 [([9], wit_result)] wit_analyzer)) [9] (Some wit_result)"
    using analyzer_updates_tokens [OF inv _ _ surjective_pairing, of "[([9], wit_result)]" wit_rpc 50, THEN conjunct2, THEN spec [of _ "[9]"]]
    by (simp add: n)
  then show ?thesis using k by (auto simp: updated_as_def wit_result_def with_measure_def)
qed

end
