(* ===== verification/Float_Log.thy ===== *)
theory Float_Log
  imports Complex_Main
begin

text \<open>
  The \<^verbatim>\<open>float64\<close> arithmetic of the freshness window (\<^verbatim>\<open>src/protocols/uniswap-v3/ticks/freshness.go\<close>): a finite \<^verbatim>\<open>float64\<close> is the real number it
  stands for, each operation rounds its exact result, and \<^verbatim>\<open>math.Log\<close> is a function of the standard library. Both are arguments; \<open>float_ok\<close>
  states what is documented of them. The lemmas bound the error of the quotients of logarithms that the window rounds up.
\<close>

section \<open>Rounding and logarithm\<close>

record float_math =
  flRound :: "real \<Rightarrow> real"
  flLog :: "real \<Rightarrow> real"

text \<open>
  IEEE 754: rounding to nearest is monotone, keeps integers of up to 53 bits, and has a relative error of at most \<open>2\<^sup>-\<^sup>5\<^sup>3\<close>, but for an absolute
  one near 0. \<^verbatim>\<open>math.Log\<close>: the error is less than one unit in the last place. The ranges are far inside those of the format.
\<close>

definition float_ok :: "float_math \<Rightarrow> bool" where
  "float_ok F \<longleftrightarrow>
     (\<forall>x. \<bar>x\<bar> \<le> 2 ^ 200 \<longrightarrow> \<bar>flRound F x - x\<bar> \<le> \<bar>x\<bar> / 2 ^ 53 + 1 / 2 ^ 200) \<and>
     mono (flRound F) \<and> (\<forall>k. \<bar>k\<bar> \<le> 2 ^ 53 \<longrightarrow> flRound F (of_int k) = of_int k) \<and>
     (\<forall>x. 1 / 2 ^ 200 \<le> x \<and> x \<le> 2 ^ 200 \<longrightarrow> \<bar>flLog F x - ln x\<bar> \<le> \<bar>ln x\<bar> / 2 ^ 52)"

section \<open>Errors\<close>

lemma round_small:
  assumes "float_ok F" and "\<bar>x\<bar> \<le> 2 ^ 70"
  shows "\<bar>flRound F x - x\<bar> \<le> (\<bar>x\<bar> + 1) / 2 ^ 52"
proof -
  have "\<bar>x\<bar> \<le> 2 ^ 200" using assms(2) by (rule order_trans) simp
  then have "\<bar>flRound F x - x\<bar> \<le> \<bar>x\<bar> / 2 ^ 53 + 1 / 2 ^ 200" using assms(1) by (simp only: float_ok_def)
  moreover have "\<bar>x\<bar> / 2 ^ 53 \<le> \<bar>x\<bar> / 2 ^ 52" by simp
  moreover have "(1 :: real) / 2 ^ 200 \<le> 1 / 2 ^ 52" by (intro divide_left_mono power_increasing) simp_all
  ultimately show ?thesis by (simp only: add_divide_distrib)
qed

lemma round_near:
  assumes "float_ok F" and "1 / 2 ^ 20 \<le> x" "x \<le> 2 ^ 70"
  shows "\<bar>flRound F x - x\<bar> \<le> x / 2 ^ 52"
proof -
  have x: "0 < x" using assms(2) by (rule less_le_trans [rotated]) simp
  have "\<bar>x\<bar> \<le> 2 ^ 200" using assms(3) x by (simp add: order_trans [of x "2 ^ 70"])
  then have "\<bar>flRound F x - x\<bar> \<le> \<bar>x\<bar> / 2 ^ 53 + 1 / 2 ^ 200" using assms(1) by (simp only: float_ok_def)
  moreover have "(1 :: real) / 2 ^ 200 \<le> 1 / 2 ^ 73" by (intro divide_left_mono power_increasing) simp_all
  moreover have "(1 :: real) / 2 ^ 73 \<le> x / 2 ^ 53" using assms(2) by simp
  moreover have "x / 2 ^ 53 + x / 2 ^ 53 = x / 2 ^ 52" by simp
  ultimately show ?thesis using x by linarith
qed

lemma ln_near:
  fixes x X d :: real
  assumes "0 < x" and "\<bar>X - x\<bar> \<le> x * d" and "d \<le> 1 / 2"
  shows "0 < X \<and> \<bar>ln X - ln x\<bar> \<le> 2 * d"
proof -
  define e where "e = (X - x) / x"
  have e: "\<bar>e\<bar> \<le> d" using assms by (simp add: e_def abs_divide divide_le_eq mult.commute)
  have X: "X = x * (1 + e)" using assms(1) by (simp add: e_def field_simps)
  have pos: "0 < 1 + e" using e assms(3) by linarith
  have "\<bar>ln (1 + e) - e\<bar> \<le> 2 * e\<^sup>2" using e assms(3) by (intro abs_ln_one_plus_x_minus_x_bound) linarith
  moreover have "2 * e\<^sup>2 \<le> \<bar>e\<bar>" 
  proof -
    have "\<bar>e\<bar> * \<bar>e\<bar> \<le> 1 / 2 * \<bar>e\<bar>" using e assms(3) by (intro mult_right_mono) linarith+
    then show ?thesis by (simp add: power2_eq_square abs_mult_self_eq)
  qed
  moreover have "ln X = ln x + ln (1 + e)" using X pos assms(1) by (simp add: ln_mult)
  ultimately show ?thesis using X pos assms(1) e by simp
qed

text \<open>The price ratio of neighbouring ticks.\<close>

abbreviation tick_base :: real where "tick_base \<equiv> 1.0001"

lemma ln_base: "9999 / 100000000 \<le> ln tick_base" "ln tick_base \<le> 1 / 10000"
proof -
  have "(1 / 10 ^ 4 :: real) - (1 / 10 ^ 4)\<^sup>2 \<le> ln (1 + 1 / 10 ^ 4)" by (rule ln_one_plus_pos_lower_bound) simp_all
  then show "9999 / 100000000 \<le> ln tick_base" by (simp add: power2_eq_square)
  have "ln (1 + 1 / 10 ^ 4) \<le> (1 / 10 ^ 4 :: real)" by (rule ln_add_one_self_le_self) simp
  then show "ln tick_base \<le> 1 / 10000" by simp
qed

lemma log_near:
  assumes F: "float_ok F" and "1 / 2 ^ 100 \<le> X" "X \<le> 2 ^ 100"
  shows "\<bar>flLog F X - ln X\<bar> \<le> \<bar>ln X\<bar> / 2 ^ 52"
proof -
  have "(1 :: real) / 2 ^ 200 \<le> 1 / 2 ^ 100" "(2 :: real) ^ 100 \<le> 2 ^ 200" by (intro divide_left_mono power_increasing; simp)+
  then have "1 / 2 ^ 200 \<le> X \<and> X \<le> 2 ^ 200" using assms(2,3) by linarith
  then show ?thesis using F by (simp only: float_ok_def)
qed

lemma log_base_near:
  assumes F: "float_ok F"
  shows "\<bar>flLog F (flRound F tick_base) - ln tick_base\<bar> \<le> 3 / 2 ^ 52"
proof -
  let ?b = "flRound F tick_base"
  have r: "\<bar>?b - tick_base\<bar> \<le> tick_base * (1 / 2 ^ 52)" using round_near [OF F, of tick_base] by simp
  from ln_near [OF _ this] have b: "\<bar>ln ?b - ln tick_base\<bar> \<le> 2 / 2 ^ 52" by simp
  have "tick_base * (1 / 2 ^ 52) \<le> 1 / 2" by simp
  then have "\<bar>?b - tick_base\<bar> \<le> 1 / 2" using r by (rule order_trans [rotated])
  then have "?b - tick_base \<le> 1 / 2" "tick_base - ?b \<le> 1 / 2" by (simp_all only: abs_le_iff minus_diff_eq)
  then have "1 / 2 \<le> ?b" "?b \<le> 2" by simp_all
  then have l: "\<bar>flLog F ?b - ln ?b\<bar> \<le> \<bar>ln ?b\<bar> / 2 ^ 52"
    by (intro log_near [OF F]) (auto intro: order_trans [of _ "1 / 2"] order_trans [of _ 2])
  have "\<bar>ln ?b - ln tick_base\<bar> \<le> 1 / 2" using b by (rule order_trans) simp
  then have "\<bar>ln ?b\<bar> \<le> 1" using ln_base by linarith
  then have "\<bar>ln ?b\<bar> / 2 ^ 52 \<le> 1 / 2 ^ 52" by (rule divide_right_mono) simp
  with l b show ?thesis by linarith
qed

lemma log_base_bound:
  assumes "\<bar>ln x\<bar> \<le> 60"
  shows "\<bar>log tick_base x\<bar> \<le> 10 ^ 6"
proof -
  have "\<bar>ln x / ln tick_base\<bar> \<le> 60 / (9999 / 100000000)"
    unfolding abs_divide using assms ln_base by (intro frac_le) simp_all
  also have "\<dots> \<le> 10 ^ 6" by simp
  finally show ?thesis by (simp add: log_def)
qed

text \<open>The quotient of two logarithms.\<close>

lemma log_quotient:
  assumes F: "float_ok F" and x: "0 < x" "\<bar>X - x\<bar> \<le> x * (1 / 2 ^ 40)" and lx: "\<bar>ln x\<bar> \<le> 60"
  shows "\<bar>flRound F (flLog F X / flLog F (flRound F tick_base)) - log tick_base x\<bar> < 1"
    "\<bar>flRound F (- flLog F X / flLog F (flRound F tick_base)) - (- log tick_base x)\<bar> < 1"
proof -
  define B where "B = flLog F (flRound F tick_base)"
  define L where "L = flLog F X"
  define lb where "lb = ln tick_base"
  have lb: "9999 / 100000000 \<le> lb" "lb \<le> 1 / 10000" using ln_base by (simp_all only: lb_def)
  have B: "\<bar>B - lb\<bar> \<le> 3 / 2 ^ 52" unfolding B_def lb_def by (rule log_base_near [OF F])
  have X: "0 < X" "\<bar>ln X - ln x\<bar> \<le> 2 * (1 / 2 ^ 40)" using ln_near [OF x] by simp_all
  have "\<bar>ln X - ln x\<bar> \<le> 1" using X(2) by (rule order_trans) simp
  then have lX: "\<bar>ln X\<bar> \<le> 61" using lx by linarith
  have e: "exp (61 :: real) \<le> 2 ^ 100"
  proof -
    have "exp (61 :: real) = exp 1 ^ 61" by (simp flip: exp_of_nat_mult)
    also have "\<dots> \<le> 3 ^ 61" by (intro power_mono exp_le) simp
    finally show ?thesis by simp
  qed
  have "X \<le> exp 61" using lX X(1) by (metis abs_le_D1 exp_le_cancel_iff exp_ln)
  moreover have "exp (- 61) \<le> X" using lX X(1) by (metis abs_le_iff exp_le_cancel_iff exp_ln minus_le_iff)
  moreover have "1 / 2 ^ 100 \<le> exp (- 61 :: real)" using e by (simp add: exp_minus field_simps)
  ultimately have "\<bar>L - ln X\<bar> \<le> \<bar>ln X\<bar> / 2 ^ 52" unfolding L_def using e by (intro log_near [OF F]) linarith+
  also have "\<dots> \<le> 61 / 2 ^ 52" using lX by (rule divide_right_mono) simp
  finally have L1: "\<bar>L - ln X\<bar> \<le> 61 / 2 ^ 52" .
  have "61 / 2 ^ 52 + 2 * (1 / 2 ^ 40) \<le> (1 :: real) / 2 ^ 38" by simp
  then have L: "\<bar>L - ln x\<bar> \<le> 1 / 2 ^ 38" using L1 X(2) by linarith
  have "\<bar>B - lb\<bar> \<le> 1 / 1000000" using B by (rule order_trans) simp
  then have B0: "lb / 2 \<le> B" using lb by linarith
  have pos: "0 < lb" "0 < B" using lb B0 by linarith+
  have num: "\<bar>(L - ln x) * lb - ln x * (B - lb)\<bar> \<le> 1 / 10 ^ 12"
  proof -
    have "\<bar>(L - ln x) * lb\<bar> \<le> 1 / 2 ^ 38 * (1 / 10000)" unfolding abs_mult using L lb pos by (intro mult_mono) simp_all
    moreover have "\<bar>ln x * (B - lb)\<bar> \<le> 60 * (3 / 2 ^ 52)" unfolding abs_mult using B lx by (intro mult_mono) simp_all
    moreover have "1 / 2 ^ 38 * (1 / 10000) + 60 * (3 / 2 ^ 52) \<le> (1 :: real) / 10 ^ 12" by simp
    ultimately show ?thesis using abs_triangle_ineq4 [of "(L - ln x) * lb" "ln x * (B - lb)"] by linarith
  qed
  have den: "1 / (4 * 10 ^ 8) \<le> B * lb"
  proof -
    have "9999 / 100000000 / 2 * (9999 / 100000000) \<le> B * lb" using B0 lb pos by (intro mult_mono) simp_all
    then show ?thesis by simp
  qed
  have "L / B - ln x / lb = ((L - ln x) * lb - ln x * (B - lb)) / (B * lb)" using pos by (simp add: field_simps)
  then have "\<bar>L / B - ln x / lb\<bar> = \<bar>(L - ln x) * lb - ln x * (B - lb)\<bar> / (B * lb)" using pos by (simp add: abs_mult)
  also have "\<dots> \<le> (1 / 10 ^ 12) / (1 / (4 * 10 ^ 8))" using num den by (intro frac_le) simp_all
  finally have q: "\<bar>L / B - ln x / lb\<bar> \<le> 1 / 4" by simp
  have "\<bar>ln x / lb\<bar> \<le> 60 / (9999 / 100000000)" unfolding abs_divide using lx lb pos by (intro frac_le) simp_all
  also have "\<dots> \<le> 10 ^ 6" by simp
  finally have "\<bar>ln x / lb\<bar> \<le> 10 ^ 6" .
  then have y: "\<bar>L / B\<bar> \<le> 10 ^ 6 + 1" using q by linarith
  have r: "\<bar>flRound F z - z\<bar> \<le> 1 / 4" if "\<bar>z\<bar> = \<bar>L / B\<bar>" for z
  proof -
    have z: "\<bar>z\<bar> \<le> 10 ^ 6 + 1" using y that by simp
    then have "\<bar>flRound F z - z\<bar> \<le> (\<bar>z\<bar> + 1) / 2 ^ 52" by (intro round_small [OF F]) simp
    also have "\<dots> \<le> (10 ^ 6 + 1 + 1) / 2 ^ 52" using z by (intro divide_right_mono) simp_all
    also have "\<dots> \<le> 1 / 4" by simp
    finally show ?thesis .
  qed
  have "\<bar>flRound F (L / B) - ln x / lb\<bar> < 1" using q r [of "L / B"] by linarith
  then show "\<bar>flRound F (flLog F X / flLog F (flRound F tick_base)) - log tick_base x\<bar> < 1" by (simp only: L_def B_def lb_def log_def)
  have "\<bar>flRound F (- L / B) - (- (ln x / lb))\<bar> < 1" using q r [of "- L / B"] unfolding divide_minus_left by linarith
  then show "\<bar>flRound F (- flLog F X / flLog F (flRound F tick_base)) - (- log tick_base x)\<bar> < 1" by (simp only: L_def B_def lb_def log_def)
qed

text \<open>The percentage as a fraction, and the two arguments of the logarithm.\<close>

definition float_percent :: "float_math \<Rightarrow> int \<Rightarrow> real" where
  "float_percent F percent = flRound F (flRound F (of_int percent) / 100)"

lemma float_percent_near:
  assumes F: "float_ok F" and n: "1 \<le> n" "n \<le> 2 ^ 64"
  defines "p \<equiv> real_of_int n / 100"
  shows "\<bar>float_percent F n - p\<bar> \<le> p / 2 ^ 50" "1 \<le> float_percent F n \<longleftrightarrow> 100 \<le> n"
proof -
  let ?a = "real_of_int n"
  have a: "1 \<le> ?a" "?a \<le> 2 ^ 64" using n of_int_le_iff [of n "2 ^ 64", where 'a = real] by simp_all
  have "\<bar>flRound F ?a - ?a\<bar> \<le> ?a / 2 ^ 52" using a by (intro round_near [OF F]) simp_all
  then have "\<bar>flRound F ?a - ?a\<bar> / 100 \<le> ?a / 2 ^ 52 / 100" by (rule divide_right_mono) simp
  then have A: "\<bar>flRound F ?a / 100 - p\<bar> \<le> p / 2 ^ 52" unfolding p_def by (simp add: diff_divide_distrib [symmetric])
  have p: "1 / 100 \<le> p" "p \<le> 2 ^ 64 / 100" using a by (simp_all add: p_def)
  have p2: "p / 2 ^ 52 \<le> p / 2" using p(1) by simp
  then have "\<bar>flRound F ?a / 100 - p\<bar> \<le> p / 2" using A by (rule order_trans [rotated])
  then have A2: "p / 2 \<le> flRound F ?a / 100" "flRound F ?a / 100 \<le> 3 / 2 * p" by (simp_all only: abs_le_iff) linarith+
  have "\<bar>float_percent F n - flRound F ?a / 100\<bar> \<le> (flRound F ?a / 100) / 2 ^ 52"
    unfolding float_percent_def using A2 p by (intro round_near [OF F]) simp_all
  also have "\<dots> \<le> (3 / 2 * p) / 2 ^ 52" using A2(2) by (rule divide_right_mono) simp
  finally have "\<bar>float_percent F n - p\<bar> \<le> (3 / 2 * p) / 2 ^ 52 + p / 2 ^ 52" using A by linarith
  also have "\<dots> \<le> p / 2 ^ 50" using p(1) by simp
  finally show near: "\<bar>float_percent F n - p\<bar> \<le> p / 2 ^ 50" .
  show "1 \<le> float_percent F n \<longleftrightarrow> 100 \<le> n"
  proof (cases "100 \<le> n")
    case True
    have mono: "mono (flRound F)" and int: "\<And>k. \<bar>k\<bar> \<le> 2 ^ 53 \<Longrightarrow> flRound F (of_int k) = of_int k" using F unfolding float_ok_def by blast+
    have "real_of_int 100 \<le> ?a" using True by (simp only: of_int_le_iff)
    from monoD [OF mono this] have "100 \<le> flRound F ?a" using int [of 100] by simp
    then have "real_of_int 1 \<le> flRound F ?a / 100" by simp
    from monoD [OF mono this] show ?thesis using int [of 1] True by (simp add: float_percent_def)
  next
    case False
    then have p99: "p \<le> 99 / 100" using of_int_le_iff [of n 99, where 'a = real] by (simp add: p_def)
    have "p / 2 ^ 50 \<le> 1 / 1000" using p99 by simp
    then have "float_percent F n < 1" using near p99 by linarith
    then show ?thesis using False by simp
  qed
qed

text \<open>The two numbers of ticks before they are rounded up.\<close>

lemma upper_quotient:
  assumes F: "float_ok F" and n: "1 \<le> n" "n \<le> 2 ^ 64"
  shows "\<bar>flRound F (flLog F (flRound F (1 + float_percent F n)) / flLog F (flRound F tick_base)) - log tick_base (1 + of_int n / 100)\<bar> < 1"
    "\<bar>log tick_base (1 + of_int n / 100)\<bar> \<le> 10 ^ 6"
proof -
  define p where "p = real_of_int n / 100"
  have p: "1 / 100 \<le> p" "p \<le> 2 ^ 64 / 100" using n of_int_le_iff [of n "2 ^ 64", where 'a = real] by (simp_all add: p_def)
  note near = float_percent_near(1) [OF F n, folded p_def]
  define y where "y = 1 + float_percent F n"
  have "p / 2 ^ 50 \<le> p" using p(1) by simp
  then have y: "1 / 2 \<le> y" "y \<le> 1 + 2 * p" using near p(1) unfolding y_def by linarith+
  have "\<bar>flRound F y - y\<bar> \<le> y / 2 ^ 52" using y p by (intro round_near [OF F]) simp_all
  also have "\<dots> \<le> (1 + 2 * p) / 2 ^ 52" using y(2) by (rule divide_right_mono) simp
  finally have "\<bar>flRound F y - (1 + p)\<bar> \<le> (1 + 2 * p) / 2 ^ 52 + p / 2 ^ 50" using near unfolding y_def by linarith
  also have "\<dots> \<le> (1 + p) * (1 / 2 ^ 40)" using p(1) by (simp add: field_simps)
  finally have x: "\<bar>flRound F y - (1 + p)\<bar> \<le> (1 + p) * (1 / 2 ^ 40)" .
  have "1 + p \<le> 2 ^ 60" using p(2) by simp
  then have "ln (1 + p) \<le> ln (2 ^ 60)" using p(1) by (subst ln_le_cancel_iff) simp_all
  also have "\<dots> = 60 * ln 2" using ln_realpow [of 2 60] by simp
  also have "\<dots> \<le> 60" using ln_2_less_1 by simp
  finally have "\<bar>ln (1 + p)\<bar> \<le> 60" using p(1) by simp
  from log_base_bound [OF this] show "\<bar>log tick_base (1 + of_int n / 100)\<bar> \<le> 10 ^ 6" by (simp only: p_def)
  from log_quotient(1) [OF F _ x \<open>\<bar>ln (1 + p)\<bar> \<le> 60\<close>] p(1)
  show "\<bar>flRound F (flLog F (flRound F (1 + float_percent F n)) / flLog F (flRound F tick_base)) - log tick_base (1 + of_int n / 100)\<bar> < 1"
    by (simp add: y_def p_def)
qed

lemma lower_quotient:
  assumes F: "float_ok F" and n: "1 \<le> n" "n < 100"
  shows "\<bar>flRound F (- flLog F (flRound F (1 - float_percent F n)) / flLog F (flRound F tick_base)) - (- log tick_base (1 - of_int n / 100))\<bar> < 1"
    "\<bar>log tick_base (1 - of_int n / 100)\<bar> \<le> 10 ^ 6"
proof -
  define p where "p = real_of_int n / 100"
  have p: "1 / 100 \<le> p" "p \<le> 99 / 100" using n of_int_le_iff [of n 99, where 'a = real] by (simp_all add: p_def)
  have n64: "n \<le> 2 ^ 64" using n(2) by simp
  have "\<bar>float_percent F n - p\<bar> \<le> p / 2 ^ 50" by (rule float_percent_near(1) [OF F n(1) n64, folded p_def])
  also have "\<dots> \<le> 1 / 2 ^ 50" using p(2) by (intro divide_right_mono) simp_all
  finally have near: "\<bar>float_percent F n - p\<bar> \<le> 1 / 2 ^ 50" .
  define y where "y = 1 - float_percent F n"
  have "\<bar>float_percent F n - p\<bar> \<le> 1 / 1000" using near by (rule order_trans) simp
  then have y: "9 / 1000 \<le> y" "y \<le> 1" using p unfolding y_def by linarith+
  have "\<bar>flRound F y - y\<bar> \<le> y / 2 ^ 52" using y by (intro round_near [OF F]) simp_all
  also have "\<dots> \<le> 1 / 2 ^ 52" using y(2) by (rule divide_right_mono) simp
  finally have "\<bar>flRound F y - (1 - p)\<bar> \<le> 1 / 2 ^ 52 + 1 / 2 ^ 50" using near unfolding y_def by linarith
  also have "\<dots> \<le> (1 - p) * (1 / 2 ^ 40)" using p(2) by simp
  finally have x: "\<bar>flRound F y - (1 - p)\<bar> \<le> (1 - p) * (1 / 2 ^ 40)" .
  have "ln (1 / 2 ^ 7) \<le> ln (1 - p)" using p(2) by (subst ln_le_cancel_iff) simp_all
  moreover have "ln (1 / 2 ^ 7 :: real) = - (7 * ln 2)" using ln_realpow [of 2 7] by (simp add: ln_div)
  moreover have "ln (1 - p) \<le> 0" using p by simp
  ultimately have "\<bar>ln (1 - p)\<bar> \<le> 60" using ln_2_less_1 by linarith
  from log_base_bound [OF this] show "\<bar>log tick_base (1 - of_int n / 100)\<bar> \<le> 10 ^ 6" by (simp only: p_def)
  from log_quotient(2) [OF F _ x \<open>\<bar>ln (1 - p)\<bar> \<le> 60\<close>] p(2)
  show "\<bar>flRound F (- flLog F (flRound F (1 - float_percent F n)) / flLog F (flRound F tick_base)) - (- log tick_base (1 - of_int n / 100))\<bar> < 1"
    by (simp add: y_def p_def)
qed

text \<open>An instance: rounding down to multiples of \<open>2\<^sup>-\<^sup>2\<^sup>0\<^sup>0\<close>.\<close>

definition fixed_point :: float_math where
  "fixed_point = \<lparr>flRound = (\<lambda>x. of_int \<lfloor>x * 2 ^ 200\<rfloor> / 2 ^ 200), flLog = ln\<rparr>"

lemma float_ok_fixed_point: "float_ok fixed_point"
proof -
  define r where "r = (\<lambda>x :: real. of_int \<lfloor>x * 2 ^ 200\<rfloor> / (2 ^ 200 :: real))"
  have "\<bar>r x - x\<bar> \<le> 1 / 2 ^ 200" for x
  proof -
    have "\<bar>of_int \<lfloor>x * 2 ^ 200\<rfloor> - x * 2 ^ 200\<bar> \<le> (1 :: real)" by linarith
    then have "\<bar>of_int \<lfloor>x * 2 ^ 200\<rfloor> - x * 2 ^ 200\<bar> / 2 ^ 200 \<le> (1 :: real) / 2 ^ 200" by (rule divide_right_mono) simp
    moreover have "\<bar>r x - x\<bar> = \<bar>of_int \<lfloor>x * 2 ^ 200\<rfloor> - x * 2 ^ 200\<bar> / 2 ^ 200"
      unfolding r_def by (simp add: diff_divide_distrib)
    ultimately show ?thesis by simp
  qed
  then have "\<bar>r x - x\<bar> \<le> \<bar>x\<bar> / 2 ^ 53 + 1 / 2 ^ 200" for x by (rule order_trans) simp
  moreover have "mono r" unfolding r_def by (intro monoI divide_right_mono of_int_le_iff [THEN iffD2] floor_mono mult_right_mono) simp_all
  moreover have "r (of_int k) = of_int k" for k
  proof -
    have "\<lfloor>of_int k * 2 ^ 200 :: real\<rfloor> = k * 2 ^ 200" by (metis floor_of_int of_int_mult of_int_numeral of_int_power)
    then show ?thesis unfolding r_def by simp
  qed
  moreover have "flRound fixed_point = r" "flLog fixed_point = ln" by (simp_all only: fixed_point_def float_math.simps r_def)
  ultimately show ?thesis unfolding float_ok_def by simp
qed

end
