(* ===== verification/Tick_Bitmap.thy ===== *)
theory Tick_Bitmap
  imports UniswapV3_Registry Float_Log
begin

unbundle bit_operations_syntax

text \<open>
  Tick bitmaps and tick selection (\<^verbatim>\<open>math.go\<close>, \<^verbatim>\<open>freshness.go\<close> and \<^verbatim>\<open>info_provider.go\<close> under
  \<^verbatim>\<open>src/protocols/uniswap-v3/ticks\<close>). A bitmap is a Go map from word positions to words, a word may be a nil pointer.
  Products and sums of \<^verbatim>\<open>int64\<close> values wrap around (\<open>int64\<close>); the theorems name the ranges in which they do not.
  \<^verbatim>\<open>sort.Slice\<close> and the order in which a map is ranged over are arguments.
\<close>

section \<open>Data\<close>

type_synonym Bitmap = "(int, int option) gomap"

definition int64 :: "int \<Rightarrow> int" where
  "int64 x = signed_take_bit 63 x"

lemma int64_id: "- (2 ^ 63) \<le> x \<Longrightarrow> x < 2 ^ 63 \<Longrightarrow> int64 x = x"
  by (simp add: int64_def signed_take_bit_int_eq_self)

definition TICKS_MIN_TICK :: int where
  "TICKS_MIN_TICK = -887272"

definition TICKS_MAX_TICK :: int where
  "TICKS_MAX_TICK = 887272"

section \<open>\<^verbatim>\<open>math.go\<close>\<close>

datatype word_range_error = SpacingNotPositive int

definition getWordRange :: "int \<Rightarrow> word_range_error + int \<times> int" where
  "getWordRange tickSpacing =
     (if tickSpacing \<le> 0 then Inl (SpacingNotPositive tickSpacing)
      else Inr (drop_bit 8 (go_quot TICKS_MIN_TICK tickSpacing), drop_bit 8 (go_quot TICKS_MAX_TICK tickSpacing)))"

text \<open>The word at a position; a missing word and a nil word count as 0.\<close>

definition bitmap_word :: "Bitmap \<Rightarrow> int \<Rightarrow> int" where
  "bitmap_word m pos = (case map_of m pos of Some (Some w) \<Rightarrow> w | _ \<Rightarrow> 0)"

definition tick_at :: "int \<Rightarrow> int \<Rightarrow> nat \<Rightarrow> int" where
  "tick_at tickSpacing pos i = int64 (int64 (pos * 256 + int i) * tickSpacing)"

text \<open>The body of the loop over the word positions: the ticks that one word adds and removes.\<close>

definition diff_word :: "int \<Rightarrow> int \<Rightarrow> int \<Rightarrow> int \<Rightarrow> int list \<times> int list" where
  "diff_word tickSpacing pos oldWord newWord =
     (if oldWord = newWord then ([], [])
      else let changedBits = oldWord XOR newWord; flipped = filter (bit changedBits) [0..<256] in
        (map (tick_at tickSpacing pos) (filter (bit newWord) flipped),
         map (tick_at tickSpacing pos) (filter (\<lambda>i. \<not> bit newWord i) flipped)))"

definition diffBitmaps :: "(int, unit) range_order \<Rightarrow> Bitmap \<Rightarrow> Bitmap \<Rightarrow> int \<Rightarrow> int list \<times> int list" where
  "diffBitmaps ord oldMap newMap tickSpacing =
     (let allWordPositions = foldl (\<lambda>m pos. AList.update pos () m) (foldl (\<lambda>m pos. AList.update pos () m) [] (map fst oldMap)) (map fst newMap);
          parts = map (\<lambda>(pos, _). diff_word tickSpacing pos (bitmap_word oldMap pos) (bitmap_word newMap pos)) (ord allWordPositions)
      in (concat (map fst parts), concat (map snd parts)))"

definition word_ticks :: "int \<Rightarrow> int \<Rightarrow> int option \<Rightarrow> int list" where
  "word_ticks tickSpacing wordPos word =
     (case word of
        None \<Rightarrow> []
      | Some w \<Rightarrow> if w = 0 then [] else map (tick_at tickSpacing wordPos) (filter (bit w) [0..<256]))"

definition TicksFromBitmap :: "(int list \<Rightarrow> int list) \<Rightarrow> (int, int option) range_order \<Rightarrow> Bitmap \<Rightarrow> int \<Rightarrow> int list" where
  "TicksFromBitmap srt ord bitmap tickSpacing =
     srt (concat (map (\<lambda>(wordPos, word). word_ticks tickSpacing wordPos word) (ord bitmap)))"

section \<open>\<^verbatim>\<open>freshness.go\<close>\<close>

definition floorToSpacing :: "int \<Rightarrow> int \<Rightarrow> int" where
  "floorToSpacing v spacing =
     (if spacing \<le> 0 then v
      else let rem = go_rem v spacing in
        if rem = 0 then v else if v \<ge> 0 then int64 (v - rem) else int64 (int64 (v - rem) - spacing))"

definition ceilToSpacing :: "int \<Rightarrow> int \<Rightarrow> int" where
  "ceilToSpacing v spacing =
     (if spacing \<le> 0 then v
      else let rem = go_rem v spacing in
        if rem = 0 then v else if v \<ge> 0 then int64 (int64 (v - rem) + spacing) else int64 (v - rem))"

text \<open>
  The window is computed with \<^verbatim>\<open>float64\<close> values; \<open>F\<close> has the rounding and \<^verbatim>\<open>math.Log\<close>. The constant 1.0001 is rounded, \<^verbatim>\<open>math.Ceil\<close> is exact, and so is the
  conversion to \<^verbatim>\<open>int64\<close> of a value in its range. The first number is \<^verbatim>\<open>lowerDelta\<close>, the second \<^verbatim>\<open>upperDelta\<close>.
\<close>

definition percent_deltas :: "float_math \<Rightarrow> uint64 \<Rightarrow> int \<times> int" where
  "percent_deltas F percent =
     (let p = float_percent F (uint percent);
          lnBase = flLog F (flRound F tick_base);
          upperDelta = int64 \<lceil>flRound F (flLog F (flRound F (1 + p)) / lnBase)\<rceil>;
          lowerDelta = (if p \<ge> 1 then upperDelta else int64 \<lceil>flRound F (- flLog F (flRound F (1 - p)) / lnBase)\<rceil>)
      in (lowerDelta, upperDelta))"

definition tickBoundsForPercentWindow :: "float_math \<Rightarrow> int \<Rightarrow> uint64 \<Rightarrow> uint64 \<Rightarrow> int \<times> int" where
  "tickBoundsForPercentWindow F currentTick tickSpacing percent =
     (let (lowerDelta, upperDelta) = percent_deltas F percent;
          lower = int64 (currentTick - lowerDelta);
          upper = int64 (currentTick + upperDelta);
          spacing = sint tickSpacing
      in (floorToSpacing lower spacing, ceilToSpacing upper spacing))"

definition SelectTicksForFreshnessWindow :: "float_math \<Rightarrow> int \<Rightarrow> uint64 \<Rightarrow> TickInfo list \<Rightarrow> uint64 \<Rightarrow> int list" where
  "SelectTicksForFreshnessWindow F currentTick tickSpacing ticks percent =
     (if ticks = [] then []
      else if tickSpacing = 0 then []
      else if percent = 0 then
        (let idx = sort_Search (length ticks) (\<lambda>i. tiIndex (ticks ! i) \<ge> currentTick) in
         if idx = 0 then [tiIndex (ticks ! 0)]
         else if idx = length ticks then [tiIndex (ticks ! (length ticks - 1))]
         else if tiIndex (ticks ! idx) = currentTick then [tiIndex (ticks ! idx)]
         else [tiIndex (ticks ! (idx - 1)), tiIndex (ticks ! idx)])
      else let (lowerTick, upperTick) = tickBoundsForPercentWindow F currentTick tickSpacing percent;
               left = sort_Search (length ticks) (\<lambda>i. tiIndex (ticks ! i) \<ge> lowerTick);
               right = sort_Search (length ticks) (\<lambda>i. tiIndex (ticks ! i) > upperTick)
           in if left \<ge> right then [] else map (\<lambda>i. tiIndex (ticks ! i)) [left..<right])"

section \<open>\<^verbatim>\<open>info_provider.go\<close>\<close>

text \<open>
  Each goroutine of a batch writes only at its own index, so a batch is a function of each index. A result is \<^verbatim>\<open>Inl\<close> for an
  error; \<open>ctxErr\<close> and \<open>getClient\<close> say what the goroutine of an index sees.
\<close>

datatype provider_error = ProviderCtxErr string | ProviderClientErr string address | ProviderBitmapErr string address
  | ProviderTicksErr string address | ProviderLengthErr nat nat

definition GetTickBitMap ::
  "(nat \<Rightarrow> string option) \<Rightarrow> (nat \<Rightarrow> string + 'c) \<Rightarrow> (address \<Rightarrow> uint64 \<Rightarrow> 'c \<Rightarrow> string + Bitmap) \<Rightarrow>
   address list \<Rightarrow> uint64 list \<Rightarrow> (provider_error + Bitmap) list" where
  "GetTickBitMap ctxErr getClient bitmapProvider pools spacings =
     map (\<lambda>(i, pool, spacing).
        case ctxErr i of
          Some e \<Rightarrow> Inl (ProviderCtxErr e)
        | None \<Rightarrow>
            (case getClient i of
               Inl e \<Rightarrow> Inl (ProviderClientErr e pool)
             | Inr client \<Rightarrow>
                 (case bitmapProvider pool spacing client of Inl e \<Rightarrow> Inl (ProviderBitmapErr e pool) | Inr bitmap \<Rightarrow> Inr bitmap)))
       (zip [0..<length pools] (zip pools spacings))"

definition fetch_ticks ::
  "(nat \<Rightarrow> string option) \<Rightarrow> (nat \<Rightarrow> string + 'c) \<Rightarrow> (address \<Rightarrow> int list \<Rightarrow> 'c \<Rightarrow> string + TickInfo list) \<Rightarrow>
   nat \<times> address \<times> int list \<Rightarrow> provider_error + TickInfo list" where
  "fetch_ticks ctxErr getClient infoProvider item =
     (case item of (i, pool, ticksToRequest) \<Rightarrow>
        (case ctxErr i of
           Some e \<Rightarrow> Inl (ProviderCtxErr e)
         | None \<Rightarrow>
             if ticksToRequest = [] then Inr []
             else (case getClient i of
                     Inl e \<Rightarrow> Inl (ProviderClientErr e pool)
                   | Inr client \<Rightarrow>
                       (case infoProvider pool ticksToRequest client of Inl e \<Rightarrow> Inl (ProviderTicksErr e pool) | Inr infos \<Rightarrow> Inr infos))))"

definition GetTicks ::
  "(nat \<Rightarrow> string option) \<Rightarrow> (nat \<Rightarrow> string + 'c) \<Rightarrow> (address \<Rightarrow> int list \<Rightarrow> 'c \<Rightarrow> string + TickInfo list) \<Rightarrow>
   address list \<Rightarrow> int list list \<Rightarrow> (provider_error + TickInfo list) list" where
  "GetTicks ctxErr getClient infoProvider pools ticksToRequest =
     (if length pools \<noteq> length ticksToRequest then replicate (length pools) (Inl (ProviderLengthErr (length pools) (length ticksToRequest)))
      else map (fetch_ticks ctxErr getClient infoProvider) (zip [0..<length pools] (zip pools ticksToRequest)))"

definition GetInitializedTicks ::
  "(int list \<Rightarrow> int list) \<Rightarrow> (int, int option) range_order \<Rightarrow> (nat \<Rightarrow> string option) \<Rightarrow> (nat \<Rightarrow> string + 'c) \<Rightarrow>
   (address \<Rightarrow> int list \<Rightarrow> 'c \<Rightarrow> string + TickInfo list) \<Rightarrow> address list \<Rightarrow> Bitmap list \<Rightarrow> uint64 list \<Rightarrow> (provider_error + TickInfo list) list" where
  "GetInitializedTicks srt ord ctxErr getClient infoProvider pools bitmaps spacings =
     (if length pools \<noteq> length bitmaps then replicate (length pools) (Inl (ProviderLengthErr (length pools) (length bitmaps)))
      else map (fetch_ticks ctxErr getClient infoProvider)
             (zip [0..<length pools] (zip pools (map (\<lambda>(bitmap, spacing). TicksFromBitmap srt ord bitmap (sint spacing)) (zip bitmaps spacings)))))"

section \<open>The word range\<close>

lemma go_quot_pos_bounds:
  assumes "0 < s" and "s dvd t" and "- m \<le> t" and "t \<le> m" and "0 \<le> m"
  shows "go_quot (- m) s \<le> t div s" and "t div s \<le> go_quot m s"
proof -
  have q: "go_quot m s = m div s" using assms(1,5) by (cases "m = 0") (simp_all add: go_quot_def)
  have q': "go_quot (- m) s = - (m div s)" using assms(1,5) by (cases "m = 0") (simp_all add: go_quot_def)
  show "t div s \<le> go_quot m s" using assms by (simp add: q zdiv_mono1)
  have "(- t) div s \<le> m div s" using assms by (intro zdiv_mono1) auto
  then show "go_quot (- m) s \<le> t div s" using assms(2) by (simp add: q' dvd_neg_div)
qed

lemma getWordRange_covers:
  assumes "getWordRange s = Inr (lo, hi)" and "s dvd t" and "TICKS_MIN_TICK \<le> t" and "t \<le> TICKS_MAX_TICK"
  shows "lo \<le> t div s div 256 \<and> t div s div 256 \<le> hi"
proof -
  have s: "0 < s" and lo: "lo = go_quot TICKS_MIN_TICK s div 256" and hi: "hi = go_quot TICKS_MAX_TICK s div 256"
    using assms(1) by (auto simp: getWordRange_def drop_bit_eq_div split: if_splits)
  note b = go_quot_pos_bounds [OF s assms(2), of "TICKS_MAX_TICK"]
  show ?thesis using b assms(3,4) s by (auto simp: lo hi TICKS_MIN_TICK_def TICKS_MAX_TICK_def intro: zdiv_mono1)
qed

section \<open>The ticks of a bitmap\<close>

text \<open>Word positions are \<^verbatim>\<open>int16\<close> values, and the keys of a map are distinct.\<close>

definition bitmap_ok :: "Bitmap \<Rightarrow> bool" where
  "bitmap_ok m \<longleftrightarrow> distinct (map fst m) \<and> (\<forall>pos \<in> fst ` set m. - 32768 \<le> pos \<and> pos < 32768)"

definition spacing_ok :: "int \<Rightarrow> bool" where
  "spacing_ok s \<longleftrightarrow> 0 < s \<and> s < 2 ^ 39"

definition bitmap_ticks :: "int \<Rightarrow> Bitmap \<Rightarrow> int set" where
  "bitmap_ticks s m = {(pos * 256 + int i) * s | pos i. i < 256 \<and> bit (bitmap_word m pos) i}"

lemma compressed_bounds:
  fixes pos :: int
  assumes "- 32768 \<le> pos" "pos < 32768" "i < (256::nat)"
  shows "- 8388608 \<le> pos * 256 + int i" "pos * 256 + int i < 8388608"
  using assms by linarith+

lemma tick_at_eq:
  assumes "spacing_ok s" and "- 32768 \<le> pos" "pos < 32768" "i < 256"
  shows "tick_at s pos i = (pos * 256 + int i) * s"
proof -
  let ?c = "pos * 256 + int i"
  note c = compressed_bounds [OF assms(2-4)]
  have s: "0 < s" "s < 2 ^ 39" using assms(1) by (simp_all add: spacing_ok_def)
  have "\<bar>?c\<bar> * \<bar>s\<bar> \<le> 8388608 * 2 ^ 39" using c s by (intro mult_mono) auto
  then have "\<bar>?c * s\<bar> \<le> 2 ^ 62" by (simp add: abs_mult)
  then have "int64 (?c * s) = ?c * s" by (intro int64_id) auto
  moreover have "int64 ?c = ?c" using c by (intro int64_id) auto
  ultimately show ?thesis by (simp add: tick_at_def)
qed

lemma compressed_inj:
  fixes pos pos' :: int
  assumes "(pos * 256 + int i) * s = (pos' * 256 + int j) * s" and "0 < s" and "i < 256" "j < 256"
  shows "pos = pos'" "i = j"
proof -
  have e: "pos * 256 + int i = pos' * 256 + int j" using assms(1,2) by simp
  have "(pos * 256 + int i) div 256 = pos" "(pos' * 256 + int j) div 256 = pos'" using assms(3,4) by simp_all
  then show "pos = pos'" using e by simp
  then show "i = j" using e by simp
qed

text \<open>Both loops list the ticks of selected bits, word by word.\<close>

definition selected :: "int \<Rightarrow> (int \<times> 'w \<Rightarrow> nat \<Rightarrow> bool) \<Rightarrow> (int \<times> 'w) list \<Rightarrow> int list" where
  "selected s f es = concat (map (\<lambda>e. map (tick_at s (fst e)) (filter (f e) [0..<256])) es)"

lemma set_selected:
  assumes "spacing_ok s" and "\<forall>pos \<in> fst ` set es. - 32768 \<le> pos \<and> pos < 32768"
  shows "set (selected s f es) = {(pos * 256 + int i) * s | pos i. i < 256 \<and> (\<exists>w. (pos, w) \<in> set es \<and> f (pos, w) i)}"
proof -
  have "set (selected s f es) = {tick_at s pos i | pos i. i < 256 \<and> (\<exists>w. (pos, w) \<in> set es \<and> f (pos, w) i)}"
  proof (rule set_eqI)
    fix x
    have "x \<in> set (selected s f es) \<longleftrightarrow> (\<exists>e \<in> set es. \<exists>i < 256. f e i \<and> x = tick_at s (fst e) i)"
      by (auto simp: selected_def)
    also have "\<dots> \<longleftrightarrow> (\<exists>pos i. x = tick_at s pos i \<and> i < 256 \<and> (\<exists>w. (pos, w) \<in> set es \<and> f (pos, w) i))"
      by (simp add: Bex_def split_paired_Ex) blast
    finally show "x \<in> set (selected s f es) \<longleftrightarrow> x \<in> {tick_at s pos i | pos i. i < 256 \<and> (\<exists>w. (pos, w) \<in> set es \<and> f (pos, w) i)}"
      by simp
  qed
  also have "\<dots> = {(pos * 256 + int i) * s | pos i. i < 256 \<and> (\<exists>w. (pos, w) \<in> set es \<and> f (pos, w) i)}"
  proof (intro Collect_cong ex_cong1)
    fix x pos i
    have "tick_at s pos i = (pos * 256 + int i) * s" if "i < 256" "(pos, w) \<in> set es" for w
      using assms that by (intro tick_at_eq) force+
    then show "(x = tick_at s pos i \<and> i < 256 \<and> (\<exists>w. (pos, w) \<in> set es \<and> f (pos, w) i)) =
        (x = (pos * 256 + int i) * s \<and> i < 256 \<and> (\<exists>w. (pos, w) \<in> set es \<and> f (pos, w) i))" by metis
  qed
  finally show ?thesis .
qed

lemma distinct_selected:
  assumes "spacing_ok s" and "\<forall>pos \<in> fst ` set es. - 32768 \<le> pos \<and> pos < 32768" and "distinct (map fst es)"
  shows "distinct (selected s f es)"
  using assms(2,3)
proof (induction es)
  case (Cons e es)
  have s: "0 < s" using assms(1) by (simp add: spacing_ok_def)
  have p: "- 32768 \<le> fst e" "fst e < 32768" using Cons.prems(1) by auto
  have inj: "inj_on (tick_at s (fst e)) {0..<256}"
  proof (rule inj_onI)
    fix i j :: nat assume b: "i \<in> {0..<256}" "j \<in> {0..<256}" and e: "tick_at s (fst e) i = tick_at s (fst e) j"
    then show "i = j" using s by (simp add: tick_at_eq [OF assms(1) p])
  qed
  have "set (filter (f e) [0..<256]) \<subseteq> {0..<256}" by auto
  then have "distinct (map (tick_at s (fst e)) (filter (f e) [0..<256]))"
    unfolding distinct_map by (intro conjI inj_on_subset [OF inj] distinct_filter distinct_upt)
  moreover have "set (map (tick_at s (fst e)) (filter (f e) [0..<256])) \<inter> set (selected s f es) = {}"
  proof -
    have ks: "\<forall>pos \<in> fst ` set es. - 32768 \<le> pos \<and> pos < 32768" and n: "fst e \<notin> fst ` set es" using Cons.prems by simp_all
    have False if x: "x \<in> set (map (tick_at s (fst e)) (filter (f e) [0..<256]))" "x \<in> set (selected s f es)" for x
    proof -
      obtain i where i: "i < 256" "x = (fst e * 256 + int i) * s" using x(1) by (auto simp: tick_at_eq [OF assms(1) p])
      obtain pos j w where j: "j < 256" "x = (pos * 256 + int j) * s" "(pos, w) \<in> set es"
        using x(2) by (auto simp: set_selected [OF assms(1) ks])
      have "fst e = pos" by (rule compressed_inj(1) [OF trans [OF i(2) [symmetric] j(2)] s i(1) j(1)])
      then show False using n j(3) by (metis fst_conv image_eqI)
    qed
    then show ?thesis by blast
  qed
  ultimately show ?case using Cons by (simp add: selected_def)
qed (simp add: selected_def)

definition word_bit :: "int \<times> int option \<Rightarrow> nat \<Rightarrow> bool" where
  "word_bit e i \<longleftrightarrow> (case snd e of None \<Rightarrow> False | Some w \<Rightarrow> bit w i)"

lemma word_bit_simps [simp]: "word_bit (p, None) = (\<lambda>_. False)" "word_bit (p, Some w) = bit w"
  by (auto simp: word_bit_def fun_eq_iff)

lemma word_ticks_selected: "concat (map (\<lambda>(wordPos, word). word_ticks s wordPos word) es) = selected s word_bit es"
  unfolding selected_def
  by (rule arg_cong [where f = concat], rule map_cong) (auto simp: word_ticks_def split: option.splits)

lemma bitmap_word_bit:
  "distinct (map fst m) \<Longrightarrow> bit (bitmap_word m pos) i \<longleftrightarrow> (\<exists>w. (pos, Some w) \<in> set m \<and> bit w i)"
  by (auto simp: bitmap_word_def split: option.splits dest: map_of_SomeD eq_key_imp_eq_value)

lemma set_selected_word_bit:
  assumes "bitmap_ok m" and "spacing_ok s" and "range_order ord"
  shows "set (selected s word_bit (ord m)) = bitmap_ticks s m"
proof -
  have k: "\<forall>pos \<in> fst ` set (ord m). - 32768 \<le> pos \<and> pos < 32768" and dm: "distinct (map fst m)"
    using assms(1,3) by (simp_all add: bitmap_ok_def range_order_set)
  have "(\<exists>w. (pos, w) \<in> set (ord m) \<and> word_bit (pos, w) i) \<longleftrightarrow> bit (bitmap_word m pos) i" for pos i
    unfolding range_order_set [OF assms(3)] bitmap_word_bit [OF dm] word_bit_def by (auto split: option.splits)
  then show ?thesis by (simp only: set_selected [OF assms(2) k] bitmap_ticks_def)
qed

lemma TicksFromBitmap_spec:
  assumes "bitmap_ok m" and "spacing_ok s" and "range_order ord" and "slice_sorter (\<lambda>x. x) srt"
  shows "sorted (TicksFromBitmap srt ord m s)" and "distinct (TicksFromBitmap srt ord m s)"
    and "set (TicksFromBitmap srt ord m s) = bitmap_ticks s m"
proof -
  let ?l = "selected s word_bit (ord m)"
  have t: "TicksFromBitmap srt ord m s = srt ?l" by (simp add: TicksFromBitmap_def word_ticks_selected)
  have ms: "mset (srt ?l) = mset ?l" "sorted (srt ?l)" using assms(4) by (simp_all add: slice_sorter_def)
  have "distinct ?l"
    using assms(1,3) by (intro distinct_selected [OF assms(2)]) (simp_all add: bitmap_ok_def range_order_set range_order_distinct)
  then show "distinct (TicksFromBitmap srt ord m s)" using mset_eq_imp_distinct_iff [OF ms(1)] by (simp add: t)
  show "sorted (TicksFromBitmap srt ord m s)" using ms(2) by (simp add: t)
  show "set (TicksFromBitmap srt ord m s) = bitmap_ticks s m"
    using mset_eq_setD [OF ms(1)] set_selected_word_bit [OF assms(1-3)] by (simp add: t)
qed

lemma diffBitmaps_positions:
  "map fst (foldl (\<lambda>m pos. AList.update pos () m) m0 ps) = foldl (\<lambda>ks pos. if pos \<in> set ks then ks else ks @ [pos]) (map fst m0) ps"
  by (induction ps arbitrary: m0) (simp_all add: update_keys)

lemma positions_props:
  "distinct ks \<Longrightarrow> distinct (foldl (\<lambda>ks pos. if pos \<in> set ks then ks else ks @ [pos]) ks ps) \<and>
   set (foldl (\<lambda>ks pos. if pos \<in> set ks then ks else ks @ [pos]) ks ps) = set ks \<union> set ps"
  by (induction ps arbitrary: ks) auto

lemma diff_word_selected:
  "fst (diff_word s pos old new) = map (tick_at s pos) (filter (\<lambda>i. bit new i \<and> \<not> bit old i) [0..<256])"
  "snd (diff_word s pos old new) = map (tick_at s pos) (filter (\<lambda>i. bit old i \<and> \<not> bit new i) [0..<256])"
  by (auto simp: diff_word_def Let_def bit_xor_iff intro!: filter_cong arg_cong [where f = "map (tick_at s pos)"])

lemma set_selected_diff:
  assumes s: "spacing_ok s" and k: "\<forall>pos \<in> fst ` set es. - 32768 \<le> pos \<and> pos < 32768" and sub: "fst ` set a \<subseteq> fst ` set es"
  shows "set (selected s (\<lambda>e i. bit (bitmap_word a (fst e)) i \<and> \<not> bit (bitmap_word b (fst e)) i) es) = bitmap_ticks s a - bitmap_ticks s b"
    (is "set (selected s ?f es) = _")
proof (rule set_eqI)
  fix x
  have pos: "s > 0" using s by (simp add: spacing_ok_def)
  have key: "\<exists>w. (p, w) \<in> set es" if "bit (bitmap_word a p) i" for p i
  proof -
    have "map_of a p \<noteq> None" using that by (cases "map_of a p") (simp_all add: bitmap_word_def)
    then have "p \<in> fst ` set a" by (simp add: map_of_eq_None_iff)
    then show ?thesis using sub by force
  qed
  have "x \<in> set (selected s ?f es) \<longleftrightarrow>
      (\<exists>p i. x = (p * 256 + int i) * s \<and> i < 256 \<and> bit (bitmap_word a p) i \<and> \<not> bit (bitmap_word b p) i)"
    unfolding set_selected [OF s k] mem_Collect_eq fst_conv using key by metis
  also have "\<dots> \<longleftrightarrow> x \<in> bitmap_ticks s a - bitmap_ticks s b"
    unfolding bitmap_ticks_def Diff_iff mem_Collect_eq using compressed_inj [OF _ pos] by metis
  finally show "x \<in> set (selected s ?f es) \<longleftrightarrow> x \<in> bitmap_ticks s a - bitmap_ticks s b" .
qed

lemma diffBitmaps_spec:
  assumes ok: "bitmap_ok old" "bitmap_ok new" and s: "spacing_ok s" and o: "range_order ord"
    and call: "diffBitmaps ord old new s = (added, removed)"
  shows "distinct added" "distinct removed" "set added = bitmap_ticks s new - bitmap_ticks s old"
    "set removed = bitmap_ticks s old - bitmap_ticks s new"
proof -
  define ps where "ps = foldl (\<lambda>m pos. AList.update pos () m) (foldl (\<lambda>m pos. AList.update pos () m) [] (map fst old)) (map fst new)"
  let ?a = "\<lambda>(e :: int \<times> unit) i. bit (bitmap_word new (fst e)) i \<and> \<not> bit (bitmap_word old (fst e)) i"
  let ?r = "\<lambda>(e :: int \<times> unit) i. bit (bitmap_word old (fst e)) i \<and> \<not> bit (bitmap_word new (fst e)) i"
  have "distinct (map fst ps) \<and> set (map fst ps) = set (map fst old) \<union> set (map fst new)"
    using positions_props [of "map fst (foldl (\<lambda>m pos. AList.update pos () m) [] (map fst old))" "map fst new"] positions_props [of "[]" "map fst old"]
    by (simp add: ps_def diffBitmaps_positions del: set_map)
  then have keys: "distinct (map fst (ord ps))" "fst ` set (ord ps) = fst ` set old \<union> fst ` set new"
    using o by (simp_all add: range_order_set range_order_distinct)
  have av: "added = selected s ?a (ord ps)" "removed = selected s ?r (ord ps)"
    using call by (auto simp: diffBitmaps_def Let_def ps_def [symmetric] selected_def diff_word_selected case_prod_beta comp_def)
  have k: "\<forall>pos \<in> fst ` set (ord ps). - 32768 \<le> pos \<and> pos < 32768" using ok keys(2) by (auto simp: bitmap_ok_def)
  show "distinct added" "distinct removed" unfolding av by (rule distinct_selected [OF s k keys(1)])+
  show "set added = bitmap_ticks s new - bitmap_ticks s old" "set removed = bitmap_ticks s old - bitmap_ticks s new"
    unfolding av by (rule set_selected_diff [OF s k], simp add: keys(2))+
qed

section \<open>The freshness window\<close>

lemma floorToSpacing_eq:
  assumes "0 < s" "s < 2 ^ 62" and "- (2 ^ 62) \<le> v" "v < 2 ^ 62"
  shows "floorToSpacing v s = v div s * s"
proof -
  have v: "v div s * s + v mod s = v" and m: "0 \<le> v mod s" "v mod s < s" using assms(1) by simp_all
  show ?thesis
  proof (cases "v mod s = 0")
    case True
    then have "go_rem v s = 0" using assms(1) by (auto simp: go_rem_def mod_0_imp_dvd dvd_imp_mod_0 abs_if)
    then show ?thesis using True v assms(1) by (simp add: floorToSpacing_def)
  next
    case False
    then have r: "go_rem v s = (if 0 \<le> v then v mod s else v mod s - s)"
      using assms(1) by (cases "v = 0") (auto simp: go_rem_def sgn_if zmod_zminus1_eq_if)
    have "int64 (v - v mod s) = v - v mod s" "int64 (v - (v mod s - s)) = v - (v mod s - s)"
      using assms m by (auto intro!: int64_id)
    then show ?thesis using assms(1) False m by (simp add: floorToSpacing_def r Let_def minus_mod_eq_div_mult)
  qed
qed

lemma ceilToSpacing_floor:
  assumes "0 < s" "s < 2 ^ 61" and "- (2 ^ 61) < v" "v < 2 ^ 61"
  shows "ceilToSpacing v s = - ((- v) div s * s)"
proof -
  have r: "go_rem (- v) s = - go_rem v s" by (simp add: go_rem_def)
  have rb: "\<bar>go_rem v s\<bar> < s" using assms(1) by (auto simp: go_rem_def abs_mult sgn_if)
  have "int64 (v - go_rem v s) = v - go_rem v s" "int64 (- v + go_rem v s) = - v + go_rem v s"
    "int64 (v - go_rem v s + s) = v - go_rem v s + s" "int64 (- v + go_rem v s - s) = - v + go_rem v s - s"
    using assms rb by (auto intro!: int64_id)
  moreover have "v = 0 \<Longrightarrow> go_rem v s = 0" by (simp add: go_rem_def)
  ultimately have "ceilToSpacing v s = - floorToSpacing (- v) s"
    using assms(1) by (auto simp: ceilToSpacing_def floorToSpacing_def Let_def r)
  then show ?thesis using assms by (simp add: floorToSpacing_eq)
qed

lemma filter_nth_range:
  assumes "\<And>i. i < length xs \<Longrightarrow> P (xs ! i) \<longleftrightarrow> l \<le> i \<and> i < r" and "r \<le> length xs"
  shows "filter P xs = map (\<lambda>i. xs ! i) [l..<r]"
proof -
  have "filter P xs = filter P (map ((!) xs) [0..<length xs])" by (simp add: map_nth)
  also have "\<dots> = map ((!) xs) (filter (\<lambda>i. P (xs ! i)) [0..<length xs])" by (simp add: filter_map comp_def)
  also have "filter (\<lambda>i. P (xs ! i)) [0..<length xs] = filter (\<lambda>i. l \<le> i \<and> i < r) [0..<length xs]"
    by (rule filter_cong) (auto simp: assms(1))
  also have "\<dots> = [l..<r]"
    using assms(2) by (intro sorted_distinct_set_unique) (auto intro: sorted_filter [of "\<lambda>x. x", simplified])
  finally show ?thesis .
qed

lemma sort_Search_iff:
  assumes "\<And>a b. a \<le> b \<Longrightarrow> b < n \<Longrightarrow> f a \<Longrightarrow> f b" and "i < n"
  shows "i < sort_Search n f \<longleftrightarrow> \<not> f i"
proof
  show "\<not> f i" if "i < sort_Search n f" by (rule sort_Search_correct(2) [OF _ that]) (rule assms(1))
  show "i < sort_Search n f" if "\<not> f i"
  proof (rule ccontr)
    assume "\<not> i < sort_Search n f"
    then have le: "sort_Search n f \<le> i" by simp
    have "f i" by (rule sort_Search_correct(3) [OF _ le assms(2)]) (rule assms(1))
    with that show False by simp
  qed
qed

lemma search_sorted:
  assumes "sorted (map tiIndex ts)"
  shows "i < length ts \<Longrightarrow> i < sort_Search (length ts) (\<lambda>i. tiIndex (ts ! i) \<ge> a) \<longleftrightarrow> tiIndex (ts ! i) < a"
    and "i < length ts \<Longrightarrow> i < sort_Search (length ts) (\<lambda>i. tiIndex (ts ! i) > a) \<longleftrightarrow> tiIndex (ts ! i) \<le> a"
    and "sort_Search (length ts) (\<lambda>i. tiIndex (ts ! i) \<ge> a) \<le> length ts"
    and "sort_Search (length ts) (\<lambda>i. tiIndex (ts ! i) > a) \<le> length ts"
proof -
  have mono: "tiIndex (ts ! i) \<le> tiIndex (ts ! j)" if "i \<le> j" "j < length ts" for i j
    using assms that by (simp add: sorted_iff_nth_mono)
  have m1: "\<And>i j. i \<le> j \<Longrightarrow> j < length ts \<Longrightarrow> tiIndex (ts ! i) \<ge> a \<Longrightarrow> tiIndex (ts ! j) \<ge> a" using mono by force
  have m2: "\<And>i j. i \<le> j \<Longrightarrow> j < length ts \<Longrightarrow> tiIndex (ts ! i) > a \<Longrightarrow> tiIndex (ts ! j) > a" using mono by force
  show "i < sort_Search (length ts) (\<lambda>i. tiIndex (ts ! i) \<ge> a) \<longleftrightarrow> tiIndex (ts ! i) < a" if "i < length ts"
    using sort_Search_iff [where f = "\<lambda>i. tiIndex (ts ! i) \<ge> a" and i = i, OF m1 that] by auto
  show "i < sort_Search (length ts) (\<lambda>i. tiIndex (ts ! i) > a) \<longleftrightarrow> tiIndex (ts ! i) \<le> a" if "i < length ts"
    using sort_Search_iff [where f = "\<lambda>i. tiIndex (ts ! i) > a" and i = i, OF m2 that] by auto
  show "sort_Search (length ts) (\<lambda>i. tiIndex (ts ! i) \<ge> a) \<le> length ts" by (rule sort_Search_correct(1)) (rule m1)
  show "sort_Search (length ts) (\<lambda>i. tiIndex (ts ! i) > a) \<le> length ts" by (rule sort_Search_correct(1)) (rule m2)
qed

text \<open>What the neighbourhood of 0 percent is: no tick lies between the current tick and the returned ones.\<close>

lemma neighbourhood:
  fixes F :: float_math and c :: int
  assumes "sorted (map tiIndex ts)" and "ts \<noteq> []" and "sp \<noteq> 0"
  defines "out \<equiv> SelectTicksForFreshnessWindow F c sp ts 0"
  shows "out \<noteq> []" and "set out \<subseteq> tiIndex ` set ts"
    and "t \<in> set ts \<Longrightarrow> \<exists>r \<in> set out. tiIndex t \<le> r \<and> r \<le> c \<or> c \<le> r \<and> r \<le> tiIndex t"
proof -
  let ?k = "sort_Search (length ts) (\<lambda>i. tiIndex (ts ! i) \<ge> c)"
  note k = search_sorted(1,3) [OF assms(1), where a = c]
  have mono: "tiIndex (ts ! i) \<le> tiIndex (ts ! j)" if "i \<le> j" "j < length ts" for i j
    using assms(1) that by (simp add: sorted_iff_nth_mono)
  have out: "out = (if ?k = 0 then [tiIndex (ts ! 0)] else if ?k = length ts then [tiIndex (ts ! (length ts - 1))]
     else if tiIndex (ts ! ?k) = c then [tiIndex (ts ! ?k)] else [tiIndex (ts ! (?k - 1)), tiIndex (ts ! ?k)])"
    using assms(2,3) by (simp add: out_def SelectTicksForFreshnessWindow_def Let_def)
  show "out \<noteq> []" by (simp add: out)
  have len: "0 < length ts" using assms(2) by simp
  show "set out \<subseteq> tiIndex ` set ts"
  proof (cases "tiIndex (ts ! ?k) = c \<and> ?k < length ts")
    case True
    then have "c \<in> tiIndex ` set ts" by (metis imageI nth_mem)
    then show ?thesis using True len by (auto simp: out)
  qed (use k(2) len in \<open>auto simp: out intro!: imageI nth_mem\<close>)
  show "\<exists>r \<in> set out. tiIndex t \<le> r \<and> r \<le> c \<or> c \<le> r \<and> r \<le> tiIndex t"
    if "t \<in> set ts"
  proof -
    obtain i where i: "i < length ts" "t = ts ! i" using \<open>t \<in> set ts\<close> by (auto simp: in_set_conv_nth)
    show ?thesis
    proof (cases "i < ?k")
      case True
      then have lt: "tiIndex t < c" using k(1) i by blast
      have "tiIndex t \<le> tiIndex (ts ! (?k - 1))" using mono [of i "?k - 1"] True k(2) i by simp
      moreover have "tiIndex (ts ! (?k - 1)) < c" using k(1) [of "?k - 1"] True k(2) by simp
      ultimately show ?thesis using lt True k(2) by (auto simp: out)
    next
      case False
      then have ge: "c \<le> tiIndex t" and kl: "?k < length ts" using k(1) [OF i(1)] i by auto
      have "tiIndex (ts ! ?k) \<le> tiIndex t" "c \<le> tiIndex (ts ! ?k)" using mono [of ?k i] False i k(1) [OF kl] by auto
      then show ?thesis using kl by (auto simp: out)
    qed
  qed
qed

text \<open>The window for a positive percentage.\<close>

lemma bounds_window:
  assumes s: "0 < sint sp" "sint sp < 2 ^ 61" "\<bar>c\<bar> < 2 ^ 59" and d: "\<bar>ld\<bar> < 2 ^ 59" "\<bar>ud\<bar> < 2 ^ 59" "percent_deltas F percent = (ld, ud)"
  shows "tickBoundsForPercentWindow F c sp percent = ((c - ld) div sint sp * sint sp, - ((- (c + ud)) div sint sp * sint sp))"
proof -
  have i: "int64 (c - ld) = c - ld" "int64 (c + ud) = c + ud" using s(3) d by (auto intro!: int64_id)
  have "floorToSpacing (c - ld) (sint sp) = (c - ld) div sint sp * sint sp" using s d by (intro floorToSpacing_eq) auto
  moreover have "ceilToSpacing (c + ud) (sint sp) = - ((- (c + ud)) div sint sp * sint sp)" using s d by (intro ceilToSpacing_floor) auto
  ultimately show ?thesis using i d(3) by (simp add: tickBoundsForPercentWindow_def Let_def)
qed

lemma window_selects:
  assumes ts: "sorted (map tiIndex ts)" and sp: "sp \<noteq> 0" and p: "percent \<noteq> 0" and b: "tickBoundsForPercentWindow F c sp percent = (lo, hi)"
  shows "SelectTicksForFreshnessWindow F c sp ts percent = map tiIndex (filter (\<lambda>t. lo \<le> tiIndex t \<and> tiIndex t \<le> hi) ts)"
proof -
  let ?l = "sort_Search (length ts) (\<lambda>i. tiIndex (ts ! i) \<ge> lo)" and ?r = "sort_Search (length ts) (\<lambda>i. tiIndex (ts ! i) > hi)"
  have f: "filter (\<lambda>t. lo \<le> tiIndex t \<and> tiIndex t \<le> hi) ts = map (\<lambda>i. ts ! i) [?l..<?r]"
  proof (rule filter_nth_range)
    show "?r \<le> length ts" by (rule search_sorted(4) [OF ts])
    fix i assume i: "i < length ts"
    show "lo \<le> tiIndex (ts ! i) \<and> tiIndex (ts ! i) \<le> hi \<longleftrightarrow> ?l \<le> i \<and> i < ?r"
      using search_sorted(1,2) [OF ts i] by (simp add: not_less [symmetric])
  qed
  show ?thesis
  proof (cases "ts = []")
    case True
    then show ?thesis by (simp add: SelectTicksForFreshnessWindow_def)
  next
    case False
    then show ?thesis unfolding f using p sp by (simp add: SelectTicksForFreshnessWindow_def b Let_def)
  qed
qed

text \<open>
  The band in ticks: to the upper end of the price, and down to the lower end, which from 100 percent on is as far as the
  upper one.
\<close>

definition band_up :: "uint64 \<Rightarrow> real" where
  "band_up percent = log tick_base (1 + of_int (uint percent) / 100)"

definition band_down :: "uint64 \<Rightarrow> real" where
  "band_down percent = (if uint percent < 100 then - log tick_base (1 - of_int (uint percent) / 100) else band_up percent)"

lemma ceiling_near:
  fixes q x :: real
  assumes "\<bar>q - x\<bar> < 1" and "\<bar>x\<bar> \<le> 10 ^ 6"
  shows "x - 1 < of_int (int64 \<lceil>q\<rceil>)" "of_int (int64 \<lceil>q\<rceil>) < x + 2" "\<bar>int64 \<lceil>q\<rceil>\<bar> < 2 ^ 59"
proof -
  have x: "\<bar>x\<bar> \<le> 1000000" using assms(2) by simp
  have q: "q \<le> of_int \<lceil>q\<rceil>" "of_int \<lceil>q\<rceil> < q + 1" by linarith+
  then have b: "- 1000010 < real_of_int \<lceil>q\<rceil>" "real_of_int \<lceil>q\<rceil> < 1000010" using assms(1) x by linarith+
  then have i: "- 1000010 < \<lceil>q\<rceil>" "\<lceil>q\<rceil> < 1000010" by linarith+
  then have e: "int64 \<lceil>q\<rceil> = \<lceil>q\<rceil>" by (intro int64_id) simp_all
  show "x - 1 < of_int (int64 \<lceil>q\<rceil>)" "of_int (int64 \<lceil>q\<rceil>) < x + 2" unfolding e using q assms(1) by linarith+
  have "\<bar>\<lceil>q\<rceil>\<bar> < 1000010" using i by linarith
  then show "\<bar>int64 \<lceil>q\<rceil>\<bar> < 2 ^ 59" unfolding e by (rule less_trans) simp
qed

lemma percent_deltas_near:
  assumes F: "float_ok F" and p: "percent \<noteq> 0" and d: "percent_deltas F percent = (ld, ud)"
  shows "band_up percent - 1 < of_int ud" "of_int ud < band_up percent + 2" "band_down percent - 1 < of_int ld" "of_int ld < band_down percent + 2"
    "\<bar>ld\<bar> < 2 ^ 59" "\<bar>ud\<bar> < 2 ^ 59"
proof -
  define n where "n = uint percent"
  have "uint percent \<noteq> 0" using p by (simp add: uint_0_iff)
  then have n: "1 \<le> n" "n \<le> 2 ^ 64" using uint_ge_0 [of percent] uint_lt2p [of percent] unfolding n_def by (linarith, simp)
  note u = ceiling_near [OF upper_quotient [OF F n]]
  have ud: "ud = int64 \<lceil>flRound F (flLog F (flRound F (1 + float_percent F n)) / flLog F (flRound F tick_base))\<rceil>"
    and ld: "ld = (if 1 \<le> float_percent F n then ud else int64 \<lceil>flRound F (- flLog F (flRound F (1 - float_percent F n)) / flLog F (flRound F tick_base))\<rceil>)"
    using d unfolding percent_deltas_def Let_def n_def prod.inject by blast+
  have bu: "band_up percent = log tick_base (1 + of_int n / 100)" by (simp only: band_up_def n_def)
  show U: "band_up percent - 1 < of_int ud" "of_int ud < band_up percent + 2" "\<bar>ud\<bar> < 2 ^ 59" unfolding bu ud by (rule u)+
  have "band_down percent - 1 < of_int ld \<and> of_int ld < band_down percent + 2 \<and> \<bar>ld\<bar> < 2 ^ 59"
  proof (cases "n < 100")
    case True
    note l = lower_quotient [OF F n(1) True]
    have bd: "band_down percent = - log tick_base (1 - of_int n / 100)" using True by (simp only: band_down_def n_def if_True)
    have "\<not> 1 \<le> float_percent F n" using float_percent_near(2) [OF F n] True by simp
    then have ld': "ld = int64 \<lceil>flRound F (- flLog F (flRound F (1 - float_percent F n)) / flLog F (flRound F tick_base))\<rceil>" using ld by simp
    show ?thesis unfolding bd ld' using ceiling_near [OF l(1)] l(2) by simp
  next
    case False
    then have "band_down percent = band_up percent" by (simp only: band_down_def n_def if_False)
    moreover have "ld = ud" using ld float_percent_near(2) [OF F n] False by simp
    ultimately show ?thesis using U by simp
  qed
  then show "band_down percent - 1 < of_int ld" "of_int ld < band_down percent + 2" "\<bar>ld\<bar> < 2 ^ 59" by simp_all
qed

text \<open>A tick whose price is in the band, in ticks.\<close>

lemma band_ticks:
  fixes k :: int
  assumes p: "percent \<noteq> 0" and up: "tick_base powr of_int k \<le> 1 + of_int (uint percent) / 100"
    and down: "(if uint percent < 100 then 1 - of_int (uint percent) / 100 else 1 / (1 + of_int (uint percent) / 100)) \<le> tick_base powr of_int k"
  shows "of_int k \<le> band_up percent" "- of_int k \<le> band_down percent"
proof -
  define n where "n = uint percent"
  have n: "0 \<le> real_of_int n" unfolding n_def of_int_0_le_iff by simp
  have lp: "log tick_base (tick_base powr of_int k) = of_int k" by simp
  have "log tick_base (tick_base powr of_int k) \<le> log tick_base (1 + of_int n / 100)"
    using up n unfolding n_def by (subst log_le_cancel_iff) simp_all
  then show "of_int k \<le> band_up percent" unfolding lp band_up_def n_def .
  show "- of_int k \<le> band_down percent"
  proof (cases "n < 100")
    case True
    have "real_of_int n < real_of_int 100" using True by (simp only: of_int_less_iff)
    then have pos: "0 < 1 - real_of_int n / 100" by simp
    have "log tick_base (1 - of_int n / 100) \<le> log tick_base (tick_base powr of_int k)"
      using down True pos unfolding n_def by (subst log_le_cancel_iff) simp_all
    then show ?thesis using True unfolding lp band_down_def n_def by simp
  next
    case False
    have "log tick_base (1 / (1 + of_int n / 100)) \<le> log tick_base (tick_base powr of_int k)"
      using down False n unfolding n_def by (subst log_le_cancel_iff) (simp_all add: add_pos_nonneg)
    moreover have "log tick_base (1 / (1 + of_int n / 100)) = - log tick_base (1 + of_int n / 100)"
      using n by (subst log_divide) (simp_all add: add_pos_nonneg)
    ultimately show ?thesis using False unfolding lp band_down_def band_up_def n_def by simp
  qed
qed


definition wit_ticks :: "TickInfo list" where
  "wit_ticks = map (\<lambda>i. \<lparr>tiIndex = i, tiLiquidityGross = 1, tiLiquidityNet = 1\<rparr>) [-120, -60, 0, 60, 600]"


text \<open>The band of 100 percent is not a very large one: downwards it has fewer ticks than that of 99 percent.\<close>

lemma full_percent_narrower:
  assumes "float_ok F"
  shows "fst (percent_deltas F 100) < fst (percent_deltas F 99)"
proof -
  obtain a b c d where e: "percent_deltas F 100 = (a, b)" "percent_deltas F 99 = (c, d)" by fastforce
  have "band_down 100 = log tick_base 2" by (simp add: band_down_def band_up_def)
  then have a: "of_int a < log tick_base 2 + 2" using percent_deltas_near(4) [OF assms _ e(1)] by simp
  have "log tick_base (1 / 100) = - log tick_base 100" by (subst log_divide) simp_all
  then have "band_down 99 = log tick_base 100" by (simp add: band_down_def)
  then have c: "log tick_base 100 - 1 < of_int c" using percent_deltas_near(3) [OF assms _ e(2)] by simp
  have "log tick_base tick_base \<le> log tick_base 2" by (subst log_le_cancel_iff) simp_all
  then have one: "1 \<le> log tick_base 2" by simp
  have "log tick_base (2 ^ 6) \<le> log tick_base 100" by (subst log_le_cancel_iff) simp_all
  moreover have "log tick_base (2 ^ 6) = 6 * log tick_base 2" by (subst log_nat_power) simp_all
  ultimately have "real_of_int a < of_int c" using a c one by linarith
  then show ?thesis using e by simp
qed

text \<open>
  C24: Bitmaps. \<^verbatim>\<open>TicksFromBitmap\<close> returns the ticks whose bit is set, in ascending order and without duplicates, and \<^verbatim>\<open>diffBitmaps\<close>
  returns exactly the ticks that are set in only one of two bitmaps, each once, whatever the order in which the maps
  are ranged over; and every tick of the protocol's range that is a multiple of the spacing has its bit in a word of the
  range that \<^verbatim>\<open>getWordRange\<close> returns.
\<close>

theorem bitmap_ticks_exact:
  assumes "bitmap_ok old" and "bitmap_ok new" and "spacing_ok s" and "range_order o1" and "range_order o2" and "slice_sorter (\<lambda>x. x) srt"
    and "diffBitmaps o1 old new s = (added, removed)"
  shows "sorted_wrt (<) (TicksFromBitmap srt o2 new s) \<and> set (TicksFromBitmap srt o2 new s) = bitmap_ticks s new \<and>
    distinct (added @ removed) \<and> set added = bitmap_ticks s new - bitmap_ticks s old \<and> set removed = bitmap_ticks s old - bitmap_ticks s new \<and>
    (\<exists>lo hi. getWordRange s = Inr (lo, hi) \<and>
      (\<forall>t. s dvd t \<and> TICKS_MIN_TICK \<le> t \<and> t \<le> TICKS_MAX_TICK \<longrightarrow> lo \<le> t div s div 256 \<and> t div s div 256 \<le> hi))"
proof -
  have "\<exists>lo hi. getWordRange s = Inr (lo, hi)" using assms(3) by (simp add: getWordRange_def spacing_ok_def)
  then obtain lo hi where r: "getWordRange s = Inr (lo, hi)" by blast
  show ?thesis
    using TicksFromBitmap_spec [OF assms(2,3,5,6)] diffBitmaps_spec [OF assms(1-4,7)] r getWordRange_covers [OF r]
    by (auto simp: strict_sorted_iff)
qed

definition wit_bitmap :: Bitmap where
  "wit_bitmap = [(-1, Some 2), (0, None)]"

lemma wit_diff: "diffBitmaps (\<lambda>m. m) [] wit_bitmap 10 = ([-2550], [])"
  by code_simp

theorem bitmap_ticks_exact_witness:
  "set [-2550] = bitmap_ticks 10 wit_bitmap - bitmap_ticks 10 [] \<and>
   set (TicksFromBitmap (sort_key (\<lambda>x. x)) rev wit_bitmap 10) = bitmap_ticks 10 wit_bitmap"
  using bitmap_ticks_exact [of "[]" wit_bitmap 10 "\<lambda>m. m" rev "sort_key (\<lambda>x. x)", OF _ _ _ _ _ _ wit_diff]
  by (simp add: bitmap_ok_def wit_bitmap_def spacing_ok_def slice_sorter_sort_key)

end
