(* ===== verification/Tick_Indexer.thy ===== *)
theory Tick_Indexer
  imports Tick_Bitmap
begin

text \<open>
  The tick indexer (\<^verbatim>\<open>src/protocols/uniswap-v3/ticks/indexer.go\<close>): parallel slices with an index by pool identifier and an index by
  address, the queue of pools to initialise, and the goroutines for blocks, initialization and resynchronisation.
  Each section under the mutex is a function on the record; what the RPC functions return, the sorter of \<^verbatim>\<open>sort.Slice\<close> and
  the order of ranging over maps are arguments. Bitmaps and spacings are stored and never read again by the indexer
  apart from the calls that refresh them.
\<close>

section \<open>State\<close>

datatype indexer_error = ErrPoolNotTracked | ErrPoolTracked

record pending_init =
  piAddress :: address
  piSpacing :: uint64

record TickIndexer =
  ixId :: "uint64 list"
  ixAddress :: "address list"
  ixTicks :: "TickInfo list list"
  ixBitmap :: "Bitmap list"
  ixSpacing :: "uint64 list"
  ixLastUpdates :: "uint64 list"
  ixIdToIndex :: "uint64 \<rightharpoonup> nat"
  ixAddressToIndex :: "address \<rightharpoonup> nat"
  ixPendingInit :: "(uint64, pending_init) gomap"
  ixLastUpdatedAtBlock :: uint64

record TickView =
  tkvID :: uint64
  tkvTicks :: "TickInfo list"

definition NewTickIndexer :: TickIndexer where
  "NewTickIndexer = \<lparr>ixId = [], ixAddress = [], ixTicks = [], ixBitmap = [], ixSpacing = [], ixLastUpdates = [],
     ixIdToIndex = Map.empty, ixAddressToIndex = Map.empty, ixPendingInit = [], ixLastUpdatedAtBlock = 0\<rparr>"

section \<open>Interface\<close>

definition ix_Add :: "uint64 \<Rightarrow> address \<Rightarrow> uint64 \<Rightarrow> TickIndexer \<Rightarrow> indexer_error + TickIndexer" where
  "ix_Add pool addr spacing ti =
     (if ixIdToIndex ti pool \<noteq> None then Inl ErrPoolTracked
      else Inr (ti\<lparr>ixPendingInit := AList.update pool \<lparr>piAddress = addr, piSpacing = spacing\<rparr> (ixPendingInit ti)\<rparr>))"

definition ix_Remove :: "uint64 \<Rightarrow> TickIndexer \<Rightarrow> indexer_error + TickIndexer" where
  "ix_Remove pool ti =
     (case ixIdToIndex ti pool of
        None \<Rightarrow> Inl ErrPoolNotTracked
      | Some indexToRemove \<Rightarrow>
          let addr = ixAddress ti ! indexToRemove;
              lastIndex = length (ixId ti) - 1;
              ti' = (if indexToRemove \<noteq> lastIndex
                     then let lastPoolID = ixId ti ! lastIndex; lastPoolAddress = ixAddress ti ! lastIndex in
                       ti\<lparr>ixId := (ixId ti)[indexToRemove := lastPoolID], ixAddress := (ixAddress ti)[indexToRemove := lastPoolAddress],
                          ixSpacing := (ixSpacing ti)[indexToRemove := ixSpacing ti ! lastIndex],
                          ixLastUpdates := (ixLastUpdates ti)[indexToRemove := ixLastUpdates ti ! lastIndex],
                          ixTicks := (ixTicks ti)[indexToRemove := ixTicks ti ! lastIndex],
                          ixBitmap := (ixBitmap ti)[indexToRemove := ixBitmap ti ! lastIndex],
                          ixIdToIndex := (ixIdToIndex ti)(lastPoolID \<mapsto> indexToRemove),
                          ixAddressToIndex := (ixAddressToIndex ti)(lastPoolAddress \<mapsto> indexToRemove)\<rparr>
                     else ti)
          in Inr (ti'\<lparr>ixIdToIndex := (ixIdToIndex ti')(pool := None), ixAddressToIndex := (ixAddressToIndex ti')(addr := None),
                ixId := take lastIndex (ixId ti'), ixAddress := take lastIndex (ixAddress ti'), ixSpacing := take lastIndex (ixSpacing ti'),
                ixLastUpdates := take lastIndex (ixLastUpdates ti'), ixTicks := take lastIndex (ixTicks ti'),
                ixBitmap := take lastIndex (ixBitmap ti')\<rparr>))"

text \<open>The deep copy of a tick is the tick.\<close>

definition ix_copy :: "TickInfo \<Rightarrow> TickInfo" where
  "ix_copy t = \<lparr>tiIndex = tiIndex t, tiLiquidityGross = tiLiquidityGross t, tiLiquidityNet = tiLiquidityNet t\<rparr>"

definition ix_View :: "TickIndexer \<Rightarrow> TickView list" where
  "ix_View ti = map (\<lambda>i. \<lparr>tkvID = ixId ti ! i, tkvTicks = map ix_copy (ixTicks ti ! i)\<rparr>) [0..<length (ixId ti)]"

definition ix_Get :: "uint64 \<Rightarrow> TickIndexer \<Rightarrow> indexer_error + TickInfo list" where
  "ix_Get pool ti =
     (case ixIdToIndex ti pool of None \<Rightarrow> Inl ErrPoolNotTracked | Some index \<Rightarrow> Inr (map ix_copy (ixTicks ti ! index)))"

definition ix_LastUpdatedAtBlock :: "TickIndexer \<Rightarrow> uint64" where
  "ix_LastUpdatedAtBlock ti = ixLastUpdatedAtBlock ti"

definition ix_setLastUpdatedAtBlock :: "uint64 \<Rightarrow> TickIndexer \<Rightarrow> TickIndexer" where
  "ix_setLastUpdatedAtBlock blockNum ti = ti\<lparr>ixLastUpdatedAtBlock := blockNum\<rparr>"

section \<open>Updates of ticks\<close>

definition apply_tick :: "TickInfo \<Rightarrow> TickInfo list \<Rightarrow> TickInfo list" where
  "apply_tick updatedTick poolTicks =
     (let foundIndex = sort_Search (length poolTicks) (\<lambda>k. tiIndex (poolTicks ! k) \<ge> tiIndex updatedTick) in
      if foundIndex < length poolTicks \<and> tiIndex (poolTicks ! foundIndex) = tiIndex updatedTick
      then if tiLiquidityGross updatedTick = 0
           then take foundIndex poolTicks @ drop (foundIndex + 1) poolTicks
           else poolTicks[foundIndex := updatedTick]
      else if tiLiquidityGross updatedTick > 0
           then take foundIndex poolTicks @ updatedTick # drop foundIndex poolTicks
           else poolTicks)"

fun apply_pool_ticks :: "nat \<Rightarrow> uint64 \<Rightarrow> TickInfo list \<Rightarrow> TickIndexer \<Rightarrow> TickIndexer" where
  "apply_pool_ticks poolIndex blockNumber [] ti = ti"
| "apply_pool_ticks poolIndex blockNumber (updatedTick # us) ti =
     apply_pool_ticks poolIndex blockNumber us
       (ti\<lparr>ixLastUpdates := (ixLastUpdates ti)[poolIndex := blockNumber],
           ixTicks := (ixTicks ti)[poolIndex := apply_tick updatedTick (ixTicks ti ! poolIndex)]\<rparr>)"

fun applyTickUpdates :: "(address \<times> TickInfo list) list \<Rightarrow> uint64 \<Rightarrow> TickIndexer \<Rightarrow> TickIndexer" where
  "applyTickUpdates [] blockNumber ti = ti"
| "applyTickUpdates ((poolAddr, newData) # ps) blockNumber ti =
     (case ixAddressToIndex ti poolAddr of
        None \<Rightarrow> applyTickUpdates ps blockNumber ti
      | Some poolIndex \<Rightarrow> applyTickUpdates ps blockNumber (apply_pool_ticks poolIndex blockNumber newData ti))"

section \<open>Blocks\<close>

datatype block_error = BlockClientErr uint64 string | BlockLogsErr uint64 string | BlockCurrentTicks uint64 nat nat
  | BlockCurrentErrs uint64 nat nat | BlockTickResults uint64 nat nat | BlockTickErrs uint64 nat nat

datatype soft_error = SoftCurrentTick string | SoftParse uint64 string | SoftTicks uint64 string

text \<open>\<open>filterLogs i\<close> is what attempt \<open>i\<close> returns, \<open>ctxDone i\<close> the error of the context if it is cancelled in the pause after it.\<close>

fun logs_loop :: "(nat \<Rightarrow> string + 'log list) \<Rightarrow> (nat \<Rightarrow> string option) \<Rightarrow> nat \<Rightarrow> nat \<Rightarrow> string + 'log list" where
  "logs_loop filterLogs ctxDone i 0 = Inr []"
| "logs_loop filterLogs ctxDone i (Suc n) =
     (case filterLogs i of
        Inl err \<Rightarrow> Inl err
      | Inr logs \<Rightarrow>
          if logs \<noteq> [] then Inr logs
          else if n = 0 then Inr []
          else (case ctxDone i of Some err \<Rightarrow> Inl err | None \<Rightarrow> logs_loop filterLogs ctxDone (Suc i) n))"

definition getLogsWithRetry :: "(nat \<Rightarrow> string + 'log list) \<Rightarrow> (nat \<Rightarrow> string option) \<Rightarrow> int \<Rightarrow> string + 'log list" where
  "getLogsWithRetry filterLogs ctxDone logMaxRetries = logs_loop filterLogs ctxDone 0 (nat (1 + logMaxRetries))"

type_synonym fetch_map = "address \<Rightarrow> (int, unit) gomap option"

definition add_ticks :: "int list \<Rightarrow> (int, unit) gomap \<Rightarrow> (int, unit) gomap" where
  "add_ticks ts m = foldl (\<lambda>m t. AList.update t () m) m ts"

definition fetch_put :: "address \<Rightarrow> int list \<Rightarrow> fetch_map \<Rightarrow> fetch_map" where
  "fetch_put a ts m = m(a := map_option (add_ticks ts) (m a))"

text \<open>
  The two loops that fill \<^verbatim>\<open>ticksToFetchByPool\<close>. The pools and the keys of the map come from the same locked section, so every
  pool has an entry.
\<close>

fun window_loop ::
  "(int \<Rightarrow> uint64 \<Rightarrow> TickInfo list \<Rightarrow> int list) \<Rightarrow> (address \<times> uint64 \<times> TickInfo list \<times> int \<times> string option) list \<Rightarrow>
   fetch_map \<Rightarrow> soft_error list \<times> fetch_map" where
  "window_loop select [] m = ([], m)"
| "window_loop select ((pool, spacing, ticks, currentTick, err) # ps) m =
     (case err of
        Some e \<Rightarrow> (let (errs, m') = window_loop select ps m in (SoftCurrentTick e # errs, m'))
      | None \<Rightarrow> window_loop select ps (fetch_put pool (select currentTick spacing ticks) m))"

fun updated_loop :: "(address \<times> int list) list \<Rightarrow> fetch_map \<Rightarrow> fetch_map" where
  "updated_loop [] m = m"
| "updated_loop ((updatedPoolAddr, updatedTicks) # ps) m =
     updated_loop ps (fetch_put updatedPoolAddr updatedTicks m)"

text \<open>What the two RPC functions of a block return: the values and the errors of the pools.\<close>

record 'log block_rpc =
  brClient :: "string option"
  brFilterLogs :: "nat \<Rightarrow> string + 'log list"
  brCtxDone :: "nat \<Rightarrow> string option"
  brCurrentTick :: "address list \<Rightarrow> int list \<times> string option list"
  brUpdatedInBlock :: "'log list \<Rightarrow> string + (address \<times> int list) list"
  brGetTicks :: "address list \<Rightarrow> int list list \<Rightarrow> TickInfo list list \<times> string option list"

text \<open>The ticks to fetch per pool, from the snapshot of the indexer, the current ticks and the logs.\<close>

definition ticks_to_fetch ::
  "(int, unit) range_order \<Rightarrow> float_math \<Rightarrow> uint64 \<Rightarrow> uint64 \<Rightarrow> TickIndexer \<Rightarrow> (int \<times> string option) list \<Rightarrow>
   string + (address \<times> int list) list \<Rightarrow> soft_error list \<times> int list list" where
  "ticks_to_fetch ord F percent blockNum ti currents updated =
     (let m0 = (\<lambda>addr. if ixAddressToIndex ti addr = None then None else Some []);
          (errs1, m1) = window_loop (\<lambda>c sp ts. SelectTicksForFreshnessWindow F c sp ts percent)
             (zip (ixAddress ti) (zip (ixSpacing ti) (zip (ixTicks ti) currents))) m0;
          (errs2, m2) = (case updated of Inl e \<Rightarrow> ([SoftParse blockNum e], m1) | Inr us \<Rightarrow> ([], updated_loop us m1))
      in (errs1 @ errs2, map (\<lambda>pool. map fst (ord (case m2 pool of None \<Rightarrow> [] | Some ttf \<Rightarrow> ttf))) (ixAddress ti)))"

definition handleNewBlock_plan ::
  "(int, unit) range_order \<Rightarrow> float_math \<Rightarrow> uint64 \<Rightarrow> int \<Rightarrow> 'log block_rpc \<Rightarrow> uint64 \<Rightarrow> TickIndexer \<Rightarrow>
   soft_error list \<times> (block_error + (address \<times> TickInfo list) list)" where
  "handleNewBlock_plan ord F percent logMaxRetries rpc blockNum ti =
     (case brClient rpc of
        Some e \<Rightarrow> ([], Inl (BlockClientErr blockNum e))
      | None \<Rightarrow>
          (case getLogsWithRetry (brFilterLogs rpc) (brCtxDone rpc) logMaxRetries of
             Inl e \<Rightarrow> ([], Inl (BlockLogsErr blockNum e))
           | Inr logs \<Rightarrow>
               let pools = ixAddress ti; (currentTicks, errs) = brCurrentTick rpc pools in
               if length currentTicks \<noteq> length pools then ([], Inl (BlockCurrentTicks blockNum (length currentTicks) (length pools)))
               else if length errs \<noteq> length pools then ([], Inl (BlockCurrentErrs blockNum (length errs) (length pools)))
               else let (soft, ticksToFetchArr) = ticks_to_fetch ord F percent blockNum ti (zip currentTicks errs) (brUpdatedInBlock rpc logs);
                        (newTickData, terrs) = brGetTicks rpc pools ticksToFetchArr;
                        allErrs = soft @ map (SoftTicks blockNum) (List.map_filter (\<lambda>e. e) terrs) in
                    if length newTickData \<noteq> length pools then (allErrs, Inl (BlockTickResults blockNum (length newTickData) (length pools)))
                    else if length terrs \<noteq> length pools then (allErrs, Inl (BlockTickErrs blockNum (length terrs) (length pools)))
                    else (allErrs, Inr (zip pools newTickData))))"

text \<open>
  A block that passed the bloom filter: the plan is made from the state at the time of the read lock, and applied to the state
  at the time of the write lock; only a block without an error advances the block number.
\<close>

definition ix_handleNewBlock :: "(block_error + (address \<times> TickInfo list) list) \<Rightarrow> uint64 \<Rightarrow> TickIndexer \<Rightarrow> block_error option \<times> TickIndexer" where
  "ix_handleNewBlock plan blockNum ti =
     (case plan of Inl err \<Rightarrow> (Some err, ti) | Inr updates \<Rightarrow> (None, applyTickUpdates updates blockNum ti))"

section \<open>Initialization\<close>

text \<open>
  \<^verbatim>\<open>startInitializer\<close> and \<^verbatim>\<open>initializePools\<close>: a batch is a copy of the queue. The results of the second call are put back at the
  position that \<^verbatim>\<open>addressToOriginalIndex\<close> has for the address; a position that gets none keeps no ticks and no error.
\<close>

definition init_batch :: "(uint64, pending_init) range_order \<Rightarrow> TickIndexer \<Rightarrow> (uint64, pending_init) gomap" where
  "init_batch ord ti = ord (ixPendingInit ti)"

definition init_successes :: "(uint64, pending_init) gomap \<Rightarrow> (string + Bitmap) list \<Rightarrow> (address \<times> Bitmap \<times> uint64 \<times> nat) list" where
  "init_successes batch bitmaps =
     List.map_filter (\<lambda>(i, (pool, p), b). case b of Inl e \<Rightarrow> None | Inr bitmap \<Rightarrow> Some (piAddress p, bitmap, piSpacing p, i))
       (zip [0..<length batch] (zip batch bitmaps))"

definition addressToOriginalIndex :: "(address \<times> Bitmap \<times> uint64 \<times> nat) list \<Rightarrow> address \<rightharpoonup> nat" where
  "addressToOriginalIndex successes = foldl (\<lambda>m (addr, _, _, i). m(addr \<mapsto> i)) Map.empty successes"

definition init_tick_results ::
  "nat \<Rightarrow> (address \<times> Bitmap \<times> uint64 \<times> nat) list \<Rightarrow> (string + TickInfo list) list \<Rightarrow> (string + TickInfo list) list" where
  "init_tick_results n successes results =
     foldl (\<lambda>all (s, res). case addressToOriginalIndex successes (fst s) of None \<Rightarrow> all | Some originalIndex \<Rightarrow> all[originalIndex := res])
       (replicate n (Inr [])) (zip successes results)"

definition initializePools_fetch ::
  "(address list \<Rightarrow> uint64 list \<Rightarrow> (string + Bitmap) list) \<Rightarrow> (address list \<Rightarrow> Bitmap list \<Rightarrow> uint64 list \<Rightarrow> (string + TickInfo list) list) \<Rightarrow>
   (uint64, pending_init) gomap \<Rightarrow> ((uint64 \<times> pending_init) \<times> (string + Bitmap) \<times> (string + TickInfo list)) list" where
  "initializePools_fetch getTickBitmap getInitializedTicks batch =
     (let batchAddresses = map (\<lambda>(_, p). piAddress p) batch; batchSpacings = map (\<lambda>(_, p). piSpacing p) batch;
          bitmaps = getTickBitmap batchAddresses batchSpacings;
          successes = init_successes batch bitmaps;
          results = (if successes = [] then []
            else getInitializedTicks (map fst successes) (map (\<lambda>(_, b, _, _). b) successes) (map (\<lambda>(_, _, sp, _). sp) successes))
      in zip batch (zip bitmaps (init_tick_results (length batch) successes results)))"

definition ix_track :: "uint64 \<Rightarrow> pending_init \<Rightarrow> Bitmap \<Rightarrow> TickInfo list \<Rightarrow> TickIndexer \<Rightarrow> TickIndexer" where
  "ix_track pool p bitmap poolTicks ti =
     (let index = length (ixId ti) in
      ti\<lparr>ixIdToIndex := (ixIdToIndex ti)(pool \<mapsto> index), ixAddressToIndex := (ixAddressToIndex ti)(piAddress p \<mapsto> index),
         ixId := ixId ti @ [pool], ixAddress := ixAddress ti @ [piAddress p], ixSpacing := ixSpacing ti @ [piSpacing p],
         ixLastUpdates := ixLastUpdates ti @ [0], ixTicks := ixTicks ti @ [poolTicks], ixBitmap := ixBitmap ti @ [bitmap]\<rparr>)"

text \<open>The locked part of \<^verbatim>\<open>initializePools\<close>: the identifiers that leave the queue, and the new state.\<close>

fun initializePools_apply ::
  "(TickInfo list \<Rightarrow> TickInfo list) \<Rightarrow> ((uint64 \<times> pending_init) \<times> (string + Bitmap) \<times> (string + TickInfo list)) list \<Rightarrow> TickIndexer \<Rightarrow>
   uint64 list \<times> TickIndexer" where
  "initializePools_apply srt [] ti = ([], ti)"
| "initializePools_apply srt (((pool, p), b, t) # items) ti =
     (case b of
        Inl e \<Rightarrow> initializePools_apply srt items ti
      | Inr bitmap \<Rightarrow>
          (case t of
             Inl e \<Rightarrow> initializePools_apply srt items ti
           | Inr poolTicks \<Rightarrow>
               if ixIdToIndex ti pool \<noteq> None
               then (let (successfulIDs, ti') = initializePools_apply srt items ti in (pool # successfulIDs, ti'))
               else (let (successfulIDs, ti') = initializePools_apply srt items (ix_track pool p bitmap (srt poolTicks) ti)
                     in (pool # successfulIDs, ti'))))"

definition ix_clearPending :: "uint64 list \<Rightarrow> TickIndexer \<Rightarrow> TickIndexer" where
  "ix_clearPending successfulIDs ti = ti\<lparr>ixPendingInit := foldl (\<lambda>m pool. AList.delete pool m) (ixPendingInit ti) successfulIDs\<rparr>"

section \<open>Resynchronisation\<close>

definition areTickSlicesEqual :: "TickInfo list \<Rightarrow> TickInfo list \<Rightarrow> bool" where
  "areTickSlicesEqual a b =
     (if length a \<noteq> length b then False
      else list_all (\<lambda>i. \<not> (tiIndex (a ! i) \<noteq> tiIndex (b ! i) \<or> tiLiquidityGross (a ! i) \<noteq> tiLiquidityGross (b ! i) \<or>
        tiLiquidityNet (a ! i) \<noteq> tiLiquidityNet (b ! i))) [0..<length a])"

lemma areTickSlicesEqual_iff: "areTickSlicesEqual a b \<longleftrightarrow> a = b"
proof
  assume e: "areTickSlicesEqual a b"
  then have len: "length a = length b" by (simp add: areTickSlicesEqual_def split: if_splits)
  have "a ! i = b ! i" if "i < length a" for i
    using e len that by (intro TickInfo.equality) (simp_all add: areTickSlicesEqual_def list_all_iff)
  then show "a = b" using len by (simp add: nth_equalityI)
qed (simp add: areTickSlicesEqual_def list_all_iff)

text \<open>The snapshot under the read lock: address, block of the last update and ticks of every pool.\<close>

definition resync_snapshot :: "TickIndexer \<Rightarrow> (address \<times> uint64 \<times> TickInfo list) list" where
  "resync_snapshot ti = zip (ixAddress ti) (zip (ixLastUpdates ti) (ixTicks ti))"

definition resync_fetch ::
  "(address list \<Rightarrow> uint64 list \<Rightarrow> (string + Bitmap) list) \<Rightarrow> (address list \<Rightarrow> Bitmap list \<Rightarrow> uint64 list \<Rightarrow> (string + TickInfo list) list) \<Rightarrow>
   TickIndexer \<Rightarrow> ((address \<times> uint64 \<times> TickInfo list) \<times> (string + Bitmap) \<times> (string + TickInfo list)) list" where
  "resync_fetch getTickBitmap getInitializedTicks ti =
     (if ixAddress ti = [] then []
      else let currentBitmaps = getTickBitmap (ixAddress ti) (ixSpacing ti);
               freshTickData = getInitializedTicks (ixAddress ti) (map (\<lambda>b. case b of Inl e \<Rightarrow> [] | Inr bm \<Rightarrow> bm) currentBitmaps) (ixSpacing ti)
           in zip (resync_snapshot ti) (zip currentBitmaps freshTickData))"

text \<open>The locked part; the first result are the pools for which a \<^verbatim>\<open>ResyncError\<close> is reported.\<close>

fun resyncPools_apply ::
  "(TickInfo list \<Rightarrow> TickInfo list) \<Rightarrow> ((address \<times> uint64 \<times> TickInfo list) \<times> (string + Bitmap) \<times> (string + TickInfo list)) list \<Rightarrow>
   TickIndexer \<Rightarrow> address list \<times> TickIndexer" where
  "resyncPools_apply srt [] ti = ([], ti)"
| "resyncPools_apply srt (((addr, lastUpdate, prevTicks), b, t) # items) ti =
     (case ixAddressToIndex ti addr of
        None \<Rightarrow> resyncPools_apply srt items ti
      | Some poolIndex \<Rightarrow>
          (case (b, t) of
             (Inr bitmap, Inr fresh) \<Rightarrow>
               if lastUpdate \<noteq> ixLastUpdates ti ! poolIndex then resyncPools_apply srt items ti
               else if \<not> areTickSlicesEqual prevTicks (srt fresh)
               then resyncPools_apply srt items
                      (ti\<lparr>ixTicks := (ixTicks ti)[poolIndex := srt fresh], ixBitmap := (ixBitmap ti)[poolIndex := bitmap]\<rparr>)
               else resyncPools_apply srt items ti
           | _ \<Rightarrow> (let (errs, ti') = resyncPools_apply srt items ti in (addr # errs, ti'))))"

section \<open>Invariant\<close>

definition strict_ticks :: "TickInfo list \<Rightarrow> bool" where
  "strict_ticks ts \<longleftrightarrow> sorted_wrt (<) (map tiIndex ts)"

definition ix_inv :: "TickIndexer \<Rightarrow> bool" where
  "ix_inv ti \<longleftrightarrow> length (ixAddress ti) = length (ixId ti) \<and> length (ixTicks ti) = length (ixId ti) \<and>
     length (ixBitmap ti) = length (ixId ti) \<and> length (ixSpacing ti) = length (ixId ti) \<and> length (ixLastUpdates ti) = length (ixId ti) \<and>
     index_inv (ixId ti) (ixIdToIndex ti) \<and> index_inv (ixAddress ti) (ixAddressToIndex ti) \<and> (\<forall>ts \<in> set (ixTicks ti). strict_ticks ts)"

lemma ix_invD:
  assumes "ix_inv ti"
  shows "length (ixAddress ti) = length (ixId ti)" "length (ixTicks ti) = length (ixId ti)" "length (ixBitmap ti) = length (ixId ti)"
    "length (ixSpacing ti) = length (ixId ti)" "length (ixLastUpdates ti) = length (ixId ti)"
    "index_inv (ixId ti) (ixIdToIndex ti)" "index_inv (ixAddress ti) (ixAddressToIndex ti)" "ts \<in> set (ixTicks ti) \<Longrightarrow> strict_ticks ts"
  using assms by (simp_all add: ix_inv_def)

text \<open>
  What holds in every state, also when two pools of the indexer share an address: as \<open>ix_inv\<close>, but for an address the index need
  not have an entry; if it has one, it leads to a pool with this address.
\<close>

definition ix_wf :: "TickIndexer \<Rightarrow> bool" where
  "ix_wf ti \<longleftrightarrow> length (ixAddress ti) = length (ixId ti) \<and> length (ixTicks ti) = length (ixId ti) \<and>
     length (ixBitmap ti) = length (ixId ti) \<and> length (ixSpacing ti) = length (ixId ti) \<and> length (ixLastUpdates ti) = length (ixId ti) \<and>
     index_inv (ixId ti) (ixIdToIndex ti) \<and> (\<forall>a i. ixAddressToIndex ti a = Some i \<longrightarrow> i < length (ixId ti) \<and> ixAddress ti ! i = a) \<and>
     (\<forall>ts \<in> set (ixTicks ti). strict_ticks ts)"

lemma ix_wfD:
  assumes "ix_wf ti"
  shows "length (ixAddress ti) = length (ixId ti)" "length (ixTicks ti) = length (ixId ti)" "length (ixBitmap ti) = length (ixId ti)"
    "length (ixSpacing ti) = length (ixId ti)" "length (ixLastUpdates ti) = length (ixId ti)"
    "index_inv (ixId ti) (ixIdToIndex ti)" "ixAddressToIndex ti a = Some i \<Longrightarrow> i < length (ixId ti) \<and> ixAddress ti ! i = a"
    "ts \<in> set (ixTicks ti) \<Longrightarrow> strict_ticks ts"
  using assms by (simp_all add: ix_wf_def)

lemma ix_inv_wf: "ix_inv ti \<Longrightarrow> ix_wf ti"
  by (auto simp: ix_inv_def ix_wf_def dest: index_invD)

lemma ix_copy_id: "ix_copy = (\<lambda>t. t)"
  by (simp add: ix_copy_def fun_eq_iff)

lemma ix_View_nth [simp]: "i < length (ixId ti) \<Longrightarrow> ix_View ti ! i = \<lparr>tkvID = ixId ti ! i, tkvTicks = ixTicks ti ! i\<rparr>"
  by (simp add: ix_View_def ix_copy_id)

lemma ix_View_length [simp]: "length (ix_View ti) = length (ixId ti)"
  by (simp add: ix_View_def)

lemma ix_View_ids: "map tkvID (ix_View ti) = ixId ti"
  by (rule nth_equalityI) simp_all

lemma ix_View_index: "ix_wf ti \<Longrightarrow> index_inv (map tkvID (ix_View ti)) (ixIdToIndex ti)"
  by (simp add: ix_View_ids ix_wfD(6))

lemma ix_Remove_swap:
  assumes inv: "ix_wf ti" and i: "ixIdToIndex ti k = Some i"
  defines "l \<equiv> length (ixId ti) - 1"
  shows "ix_Remove k ti = Inr (ti\<lparr>ixId := swap_pop i l (ixId ti), ixAddress := swap_pop i l (ixAddress ti), ixTicks := swap_pop i l (ixTicks ti),
     ixBitmap := swap_pop i l (ixBitmap ti), ixSpacing := swap_pop i l (ixSpacing ti), ixLastUpdates := swap_pop i l (ixLastUpdates ti),
     ixIdToIndex := (ixIdToIndex ti)(ixId ti ! l \<mapsto> i, k := None),
     ixAddressToIndex := (ixAddressToIndex ti)(ixAddress ti ! l \<mapsto> i, ixAddress ti ! i := None)\<rparr>)"
proof -
  note d = ix_wfD [OF inv]
  have il: "i < length (ixId ti)" "ixId ti ! i = k" using index_invD [OF d(6) i] by auto
  show ?thesis
  proof (cases "i = l")
    case True
    then have "xs[l := xs ! l] = xs" for xs :: "'a list" by simp
    then show ?thesis using i il True by (auto simp: ix_Remove_def Let_def l_def [symmetric] swap_pop_def simp del: One_nat_def)
  next
    case False
    then show ?thesis using i by (simp add: ix_Remove_def Let_def l_def [symmetric] swap_pop_def del: One_nat_def)
  qed
qed

lemma ix_Remove_wf:
  assumes inv: "ix_wf ti" and i: "ixIdToIndex ti k = Some i"
  obtains ti' where "ix_Remove k ti = Inr ti'" "ix_wf ti'" "ix_View ti' = swap_pop i (length (ix_View ti) - 1) (ix_View ti)"
    "ixPendingInit ti' = ixPendingInit ti" "set (zip (ixId ti') (ixAddress ti')) \<subseteq> set (zip (ixId ti) (ixAddress ti))"
    "index_inv (ixAddress ti) (ixAddressToIndex ti) \<Longrightarrow> index_inv (ixAddress ti') (ixAddressToIndex ti')"
proof -
  note d = ix_wfD [OF inv]
  define l where "l = length (ixId ti) - 1"
  obtain ti' where del: "ix_Remove k ti = Inr ti'" by (simp add: ix_Remove_swap [OF inv i])
  then have ti': "ti' = ti\<lparr>ixId := swap_pop i l (ixId ti), ixAddress := swap_pop i l (ixAddress ti), ixTicks := swap_pop i l (ixTicks ti),
     ixBitmap := swap_pop i l (ixBitmap ti), ixSpacing := swap_pop i l (ixSpacing ti), ixLastUpdates := swap_pop i l (ixLastUpdates ti),
     ixIdToIndex := (ixIdToIndex ti)(ixId ti ! l \<mapsto> i, k := None),
     ixAddressToIndex := (ixAddressToIndex ti)(ixAddress ti ! l \<mapsto> i, ixAddress ti ! i := None)\<rparr>"
    by (simp add: ix_Remove_swap [OF inv i] l_def)
  have il: "i < length (ixId ti)" using index_invD [OF d(6) i] by simp
  then have l: "l < length (ixId ti)" "i \<le> l" unfolding l_def by linarith+
  have sound: "j < l \<and> swap_pop i l (ixAddress ti) ! j = a" if a: "((ixAddressToIndex ti)(ixAddress ti ! l \<mapsto> i, ixAddress ti ! i := None)) a = Some j" for a j
  proof -
    have ai: "a \<noteq> ixAddress ti ! i" using a by (auto split: if_splits)
    show ?thesis
    proof (cases "a = ixAddress ti ! l")
      case True
      then have "j = i" "i < l" using a ai l(2) by (auto simp: le_less split: if_splits)
      then show ?thesis using True l d(1) by simp
    next
      case False
      then have "ixAddressToIndex ti a = Some j" using a ai by simp
      then have j: "j < length (ixId ti)" "ixAddress ti ! j = a" using d(7) by blast+
      then have "j \<noteq> i" "j < l" using ai False unfolding l_def by (auto simp: less_le)
      then show ?thesis using j l d(1) by simp
    qed
  qed
  have "index_inv (swap_pop i l (ixAddress ti)) ((ixAddressToIndex ti)(ixAddress ti ! l \<mapsto> i, ixAddress ti ! i := None))"
    if x: "index_inv (ixAddress ti) (ixAddressToIndex ti)"
  proof -
    have ai: "ixAddressToIndex ti (ixAddress ti ! i) = Some i" using index_inv_nth [OF x] il d(1) by simp
    show ?thesis using index_inv_swap_pop [OF x ai, of l] d(1) by (simp add: l_def)
  qed
  moreover have "\<forall>ts \<in> set (swap_pop i l (ixTicks ti)). strict_ticks ts" using set_swap_pop_subset [of l "ixTicks ti" i] l d(2,8) by auto
  then have "ix_wf ti'" using d(1-6) index_inv_swap_pop [OF d(6) i l_def] l sound by (simp add: ix_wf_def ti')
  moreover have "ix_View ti' = swap_pop i (length (ix_View ti) - 1) (ix_View ti)"
    using d(2) l by (intro nth_equalityI) (auto simp: ti' ix_View_def l_def)
  moreover have "zip (ixId ti') (ixAddress ti') = swap_pop i l (zip (ixId ti) (ixAddress ti))"
    using l d(1) by (intro nth_equalityI) (auto simp: ti')
  ultimately show thesis using that del set_swap_pop_subset [of l "zip (ixId ti) (ixAddress ti)" i] l d(1) by (simp add: ti')
qed

lemma ix_Remove_spec:
  assumes inv: "ix_inv ti" and i: "ixIdToIndex ti k = Some i"
  obtains ti' where "ix_Remove k ti = Inr ti'" "ix_inv ti'"
    "ixPendingInit ti' = ixPendingInit ti" "set (zip (ixId ti') (ixAddress ti')) \<subseteq> set (zip (ixId ti) (ixAddress ti))"
proof -
  have x: "index_inv (ixAddress ti) (ixAddressToIndex ti)" using inv by (simp add: ix_inv_def)
  show thesis
  proof (rule ix_Remove_wf [OF ix_inv_wf [OF inv] i])
    fix ti' assume r: "ix_Remove k ti = Inr ti'" "ix_wf ti'" "ixPendingInit ti' = ixPendingInit ti"
      "set (zip (ixId ti') (ixAddress ti')) \<subseteq> set (zip (ixId ti) (ixAddress ti))"
      "index_inv (ixAddress ti) (ixAddressToIndex ti) \<Longrightarrow> index_inv (ixAddress ti') (ixAddressToIndex ti')"
    have "ix_inv ti'" using r(2) r(5) [OF x] by (simp add: ix_inv_def ix_wf_def)
    then show thesis using that r by simp
  qed
qed

interpretation tickpools: id_store ix_wf ix_View tkvID "\<lambda>k ti. map_sum (\<lambda>e. e) (\<lambda>ts. \<lparr>tkvID = k, tkvTicks = ts\<rparr>) (ix_Get k ti)" ix_Remove ErrPoolNotTracked
proof unfold_locales
  fix ti :: TickIndexer and k
  assume inv: "ix_wf ti"
  note idx = ix_View_index [OF inv]
  show "distinct (map tkvID (ix_View ti))" by (rule index_inv_distinct [OF idx])
  show "map_sum (\<lambda>e. e) (\<lambda>ts. \<lparr>tkvID = k, tkvTicks = ts\<rparr>) (ix_Get k ti) = option_result ErrPoolNotTracked (keyed tkvID (ix_View ti) k)"
    using index_invD [OF ix_wfD(6) [OF inv]]
    by (cases "ixIdToIndex ti k") (auto simp: ix_Get_def keyed_index [OF idx] ix_copy_id)
  show "ix_Remove k ti = Inl ErrPoolNotTracked" if "keyed tkvID (ix_View ti) k = None"
    using that by (simp add: ix_Remove_def keyed_index [OF idx])
  show "\<exists>ti'. ix_Remove k ti = Inr ti' \<and> ix_wf ti' \<and> keyed tkvID (ix_View ti') = (keyed tkvID (ix_View ti))(k := None)"
    if v: "keyed tkvID (ix_View ti) k = Some v" for v
  proof -
    obtain i where i: "ixIdToIndex ti k = Some i" using v by (auto simp: keyed_index [OF idx])
    show ?thesis by (rule ix_Remove_wf [OF inv i]) (auto simp: keyed_swap_pop [OF idx i])
  qed
qed

section \<open>One tick\<close>

lemma apply_tick_split:
  assumes "strict_ticks ts"
  obtains A M B M' where "ts = A @ M @ B" "apply_tick u ts = A @ M' @ B"
    "\<forall>t \<in> set A. tiIndex t < tiIndex u" "\<forall>t \<in> set B. tiIndex u < tiIndex t"
    "\<forall>t \<in> set M \<union> set M'. tiIndex t = tiIndex u" "length M \<le> 1" "length M' \<le> 1"
    "0 \<le> tiLiquidityGross u \<Longrightarrow> M' = (if tiLiquidityGross u = 0 then [] else [u])"
proof -
  let ?f = "sort_Search (length ts) (\<lambda>k. tiIndex (ts ! k) \<ge> tiIndex u)"
  have srt: "sorted (map tiIndex ts)" "sorted_wrt (<) (map tiIndex ts)" using assms by (simp_all add: strict_ticks_def strict_sorted_imp_sorted)
  note f = search_sorted(1,3) [OF srt(1), where a = "tiIndex u"]
  have lt: "tiIndex (ts ! i) < tiIndex u" if "i < ?f" for i using f(1) [of i] f(2) that by linarith
  then have A: "\<forall>t \<in> set (take ?f ts). tiIndex t < tiIndex u" by (auto simp: in_set_conv_nth)
  show thesis
  proof (cases "?f < length ts \<and> tiIndex (ts ! ?f) = tiIndex u")
    case True
    then have ts: "ts = take ?f ts @ [ts ! ?f] @ drop (?f + 1) ts" by (simp add: id_take_nth_drop [symmetric])
    have "sorted_wrt (<) (map tiIndex (take ?f ts @ [ts ! ?f] @ drop (?f + 1) ts))" using srt(2) ts by simp
    then have B: "\<forall>t \<in> set (drop (?f + 1) ts). tiIndex u < tiIndex t" using True by (auto simp: sorted_wrt_append)
    show thesis
    proof (rule that [OF ts _ A B])
      show "apply_tick u ts = take ?f ts @ (if tiLiquidityGross u = 0 then [] else [u]) @ drop (?f + 1) ts"
        using True by (simp add: apply_tick_def Let_def upd_conv_take_nth_drop)
    qed (use True in auto)
  next
    case False
    then have B: "\<forall>t \<in> set (drop ?f ts). tiIndex u < tiIndex t"
    proof -
      have "tiIndex u < tiIndex (ts ! i)" if i: "?f \<le> i" "i < length ts" for i
      proof -
        have "tiIndex u \<le> tiIndex (ts ! ?f)" "?f < length ts" using f(1) [of ?f] i by auto
        moreover have "tiIndex (ts ! ?f) \<le> tiIndex (ts ! i)" using srt(1) i by (simp add: sorted_iff_nth_mono)
        ultimately show ?thesis using False by auto
      qed
      then show ?thesis by (auto simp: in_set_conv_nth)
    qed
    show thesis
    proof (rule that [of "take ?f ts" "[]" "drop ?f ts" "if tiLiquidityGross u > 0 then [u] else []"])
      show "apply_tick u ts = take ?f ts @ (if tiLiquidityGross u > 0 then [u] else []) @ drop ?f ts"
        using False by (auto simp: apply_tick_def Let_def)
    qed (use A B in auto)
  qed
qed

lemma keyed_concat: "keyed vid (xs @ ys) = keyed vid ys ++ keyed vid xs"
  by (simp add: keyed_def)

lemma apply_tick_strict: "strict_ticks ts \<Longrightarrow> strict_ticks (apply_tick u ts)"
proof -
  assume s: "strict_ticks ts"
  then show ?thesis
  proof (rule apply_tick_split [where u = u])
    fix A M B M' assume a: "ts = A @ M @ B" "apply_tick u ts = A @ M' @ B" "\<forall>t \<in> set A. tiIndex t < tiIndex u" "\<forall>t \<in> set B. tiIndex u < tiIndex t"
      "\<forall>t \<in> set M \<union> set M'. tiIndex t = tiIndex u" "length M' \<le> 1"
    have "sorted_wrt (<) (map tiIndex A)" "sorted_wrt (<) (map tiIndex B)" using s a(1) by (simp_all add: strict_ticks_def sorted_wrt_append)
    moreover have "\<forall>x \<in> set A. \<forall>y \<in> set B. tiIndex x < tiIndex y" using a(3,4) less_trans by blast
    moreover have "M' = [] \<or> (\<exists>x. M' = [x] \<and> tiIndex x = tiIndex u)" using a(5,6) by (cases M') auto
    ultimately have "strict_ticks (A @ M' @ B)" using a(3,4) by (auto simp: strict_ticks_def sorted_wrt_append)
    then show ?thesis using a(2) by simp
  qed
qed

lemma apply_tick_keyed:
  assumes "strict_ticks ts" and "0 \<le> tiLiquidityGross u"
  shows "keyed tiIndex (apply_tick u ts) = (keyed tiIndex ts)(tiIndex u := if tiLiquidityGross u = 0 then None else Some u)"
proof (rule apply_tick_split [OF assms(1), where u = u])
  fix A M B M' assume a: "ts = A @ M @ B" "apply_tick u ts = A @ M' @ B" "\<forall>t \<in> set A. tiIndex t < tiIndex u" "\<forall>t \<in> set B. tiIndex u < tiIndex t"
    "\<forall>t \<in> set M \<union> set M'. tiIndex t = tiIndex u" "length M \<le> 1"
    "0 \<le> tiLiquidityGross u \<Longrightarrow> M' = (if tiLiquidityGross u = 0 then [] else [u])"
  have n: "keyed tiIndex A (tiIndex u) = None" "keyed tiIndex B (tiIndex u) = None" using a(3,4) by (auto simp: keyed_None_iff)
  have m: "keyed tiIndex M k = None" if "k \<noteq> tiIndex u" for k using a(5) that by (auto simp: keyed_None_iff)
  show ?thesis unfolding a(2) a(7) [OF assms(2)] unfolding a(1) using n m by (auto simp: fun_eq_iff keyed_concat map_add_def split: option.split)
qed

section \<open>Batches of updates\<close>

text \<open>The abstract effect of an update on the map from tick index to tick.\<close>

definition tick_update :: "(int \<rightharpoonup> TickInfo) \<Rightarrow> TickInfo \<Rightarrow> (int \<rightharpoonup> TickInfo)" where
  "tick_update m u = m(tiIndex u := if tiLiquidityGross u = 0 then None else Some u)"

definition apply_ticks :: "TickInfo list \<Rightarrow> TickInfo list \<Rightarrow> TickInfo list" where
  "apply_ticks us ts = foldl (\<lambda>ts u. apply_tick u ts) ts us"

lemma apply_ticks_strict: "strict_ticks ts \<Longrightarrow> strict_ticks (apply_ticks us ts)"
  unfolding apply_ticks_def by (induction us arbitrary: ts) (simp_all add: apply_tick_strict)

lemma apply_ticks_keyed:
  "strict_ticks ts \<Longrightarrow> \<forall>u \<in> set us. 0 \<le> tiLiquidityGross u \<Longrightarrow> keyed tiIndex (apply_ticks us ts) = foldl tick_update (keyed tiIndex ts) us"
  unfolding apply_ticks_def
  by (induction us arbitrary: ts) (simp_all add: apply_tick_strict apply_tick_keyed tick_update_def)

lemma foldl_tick_update:
  "distinct (map tiIndex us) \<Longrightarrow> foldl tick_update m us t =
     (case keyed tiIndex us t of None \<Rightarrow> m t | Some u \<Rightarrow> if tiLiquidityGross u = 0 then None else Some u)"
proof (induction us arbitrary: m)
  case (Cons u us)
  have "keyed tiIndex us (tiIndex u) = None" using Cons.prems by (simp add: keyed_None_iff)
  then show ?case using Cons by (auto simp: tick_update_def split: option.split)
qed simp

definition updates_for :: "address \<Rightarrow> (address \<times> TickInfo list) list \<Rightarrow> TickInfo list" where
  "updates_for a ps = concat (map snd (filter (\<lambda>(b, _). b = a) ps))"

definition same_pools :: "TickIndexer \<Rightarrow> TickIndexer \<Rightarrow> bool" where
  "same_pools ti ti' \<longleftrightarrow> ixId ti' = ixId ti \<and> ixAddress ti' = ixAddress ti \<and> ixSpacing ti' = ixSpacing ti \<and> ixIdToIndex ti' = ixIdToIndex ti \<and>
     ixAddressToIndex ti' = ixAddressToIndex ti \<and> ixPendingInit ti' = ixPendingInit ti \<and> ixLastUpdatedAtBlock ti' = ixLastUpdatedAtBlock ti"

lemma same_pools_refl [simp]: "same_pools ti ti"
  by (simp add: same_pools_def)

lemma same_pools_trans: "same_pools a b \<Longrightarrow> same_pools b c \<Longrightarrow> same_pools a c"
  by (simp add: same_pools_def)

lemma ix_wf_same:
  assumes "ix_wf ti" "same_pools ti ti'" "length (ixTicks ti') = length (ixId ti)" "length (ixBitmap ti') = length (ixId ti)"
    "length (ixLastUpdates ti') = length (ixId ti)" "\<forall>ts \<in> set (ixTicks ti'). strict_ticks ts"
  shows "ix_wf ti'"
  using assms by (simp add: ix_wf_def same_pools_def)

lemma ix_inv_same: "ix_inv ti \<Longrightarrow> same_pools ti ti' \<Longrightarrow> ix_wf ti' \<Longrightarrow> ix_inv ti'"
  by (simp add: ix_inv_def ix_wf_def same_pools_def)

lemma apply_pool_ticks_wf:
  assumes "ix_wf ti" and "i < length (ixId ti)"
  shows "ix_wf (apply_pool_ticks i n us ti) \<and> same_pools ti (apply_pool_ticks i n us ti) \<and>
     ixTicks (apply_pool_ticks i n us ti) = (ixTicks ti)[i := apply_ticks us (ixTicks ti ! i)]"
  using assms
proof (induction i n us ti rule: apply_pool_ticks.induct)
  case (1 i n ti)
  then show ?case by (simp add: apply_ticks_def)
next
  case (2 i n u us ti)
  let ?ti = "ti\<lparr>ixLastUpdates := (ixLastUpdates ti)[i := n], ixTicks := (ixTicks ti)[i := apply_tick u (ixTicks ti ! i)]\<rparr>"
  note d = ix_wfD [OF "2.prems"(1)]
  have same: "same_pools ti ?ti" by (simp add: same_pools_def)
  have "strict_ticks (ixTicks ti ! i)" using d(2,8) "2.prems"(2) by simp
  then have "\<forall>ts \<in> set (ixTicks ?ti). strict_ticks ts" using d(8) apply_tick_strict set_update_subset_insert [of "ixTicks ti"] by fastforce
  then have inv: "ix_wf ?ti" using d by (intro ix_wf_same [OF "2.prems"(1) same]) simp_all
  have "i < length (ixTicks ti)" using "2.prems"(2) d(2) by simp
  then show ?case using "2.IH" [OF inv] "2.prems"(2) same by (auto simp: apply_ticks_def intro: same_pools_trans)
qed

lemma apply_pool_ticks_spec:
  assumes "ix_inv ti" and "i < length (ixId ti)"
  shows "ix_inv (apply_pool_ticks i n us ti) \<and> same_pools ti (apply_pool_ticks i n us ti) \<and>
     ixTicks (apply_pool_ticks i n us ti) = (ixTicks ti)[i := apply_ticks us (ixTicks ti ! i)]"
  using apply_pool_ticks_wf [OF ix_inv_wf [OF assms(1)] assms(2), of n us] ix_inv_same [OF assms(1)] by blast

lemma applyTickUpdates_wf: "ix_wf ti \<Longrightarrow> ix_wf (applyTickUpdates ps n ti) \<and> same_pools ti (applyTickUpdates ps n ti)"
proof (induction ps n ti rule: applyTickUpdates.induct)
  case (2 a us ps n ti)
  show ?case
  proof (cases "ixAddressToIndex ti a")
    case None
    then show ?thesis using 2 by simp
  next
    case (Some j)
    then have "j < length (ixId ti)" using ix_wfD(7) [OF "2.prems"] by blast
    from apply_pool_ticks_wf [OF "2.prems" this, of n us] show ?thesis using "2.IH"(2) [OF Some] Some by (auto intro: same_pools_trans)
  qed
qed simp

lemma applyTickUpdates_spec:
  assumes "ix_inv ti"
  shows "ix_inv (applyTickUpdates ps n ti) \<and> same_pools ti (applyTickUpdates ps n ti) \<and>
    (\<forall>i < length (ixId ti). ixTicks (applyTickUpdates ps n ti) ! i = apply_ticks (updates_for (ixAddress ti ! i) ps) (ixTicks ti ! i))"
  using assms
proof (induction ps n ti rule: applyTickUpdates.induct)
  case (1 n ti)
  then show ?case by (simp add: updates_for_def apply_ticks_def)
next
  case (2 a us ps n ti)
  note d = ix_invD [OF "2.prems"]
  show ?case
  proof (cases "ixAddressToIndex ti a")
    case None
    then have "updates_for (ixAddress ti ! i) ((a, us) # ps) = updates_for (ixAddress ti ! i) ps" if "i < length (ixId ti)" for i
      using index_inv_nth [OF d(7), of i] d(1) that by (auto simp: updates_for_def)
    then show ?thesis using "2.IH"(1) [OF None "2.prems"] None by simp
  next
    case (Some j)
    let ?ti = "apply_pool_ticks j n us ti"
    have j: "j < length (ixId ti)" "ixAddress ti ! j = a" using index_invD [OF d(7) Some] d(1) by auto
    note p = apply_pool_ticks_spec [OF "2.prems" j(1), of n us]
    have ih: "ix_inv (applyTickUpdates ps n ?ti)" "same_pools ?ti (applyTickUpdates ps n ?ti)"
      "\<And>i. i < length (ixId ?ti) \<Longrightarrow> ixTicks (applyTickUpdates ps n ?ti) ! i = apply_ticks (updates_for (ixAddress ?ti ! i) ps) (ixTicks ?ti ! i)"
      using "2.IH"(2) [OF Some] p by auto
    have eq: "ixId ?ti = ixId ti" "ixAddress ?ti = ixAddress ti" using p by (simp_all add: same_pools_def)
    have "ixTicks (applyTickUpdates ps n ?ti) ! i = apply_ticks (updates_for (ixAddress ti ! i) ((a, us) # ps)) (ixTicks ti ! i)"
      if i: "i < length (ixId ti)" for i
    proof (cases "i = j")
      case True
      then show ?thesis using ih(3) [of i] p i j d(2) eq by (simp add: updates_for_def apply_ticks_def)
    next
      case False
      then have "ixAddress ti ! i \<noteq> a" using i j index_inv_nth [OF d(7), of i] index_inv_nth [OF d(7), of j] d(1) by auto
      then show ?thesis using ih(3) [of i] p i False eq by (auto simp: updates_for_def)
    qed
    then show ?thesis using ih(1,2) p Some by (auto intro: same_pools_trans)
  qed
qed

section \<open>The ticks that a block fetches\<close>

definition fetch_keys :: "fetch_map \<Rightarrow> address \<Rightarrow> int set" where
  "fetch_keys m a = (case m a of None \<Rightarrow> {} | Some ttf \<Rightarrow> fst ` set ttf)"

definition fetch_distinct :: "fetch_map \<Rightarrow> bool" where
  "fetch_distinct m \<longleftrightarrow> (\<forall>a ttf. m a = Some ttf \<longrightarrow> distinct (map fst ttf))"

lemma set_add_ticks: "set (map fst (add_ticks ts m)) = set (map fst m) \<union> set ts"
  unfolding add_ticks_def by (induction ts arbitrary: m) (auto simp: update_keys simp del: set_map)

lemma distinct_add_ticks: "distinct (map fst m) \<Longrightarrow> distinct (map fst (add_ticks ts m))"
  unfolding add_ticks_def by (induction ts arbitrary: m) (simp_all add: distinct_update)

text \<open>One entry of a loop.\<close>

lemma fetch_put_props:
  shows "dom (fetch_put a ts m) = dom m"
    and "b \<in> dom m \<Longrightarrow> fetch_keys (fetch_put a ts m) b = fetch_keys m b \<union> (if b = a then set ts else {})"
    and "fetch_distinct m \<Longrightarrow> fetch_distinct (fetch_put a ts m)"
  using set_add_ticks [of ts] distinct_add_ticks [of _ ts]
  by (auto simp: fetch_put_def fetch_keys_def fetch_distinct_def dom_def split: option.splits)

lemma window_loop_spec:
  "window_loop sel ps m = (errs, m') \<Longrightarrow> dom m' = dom m \<and> (fetch_distinct m \<longrightarrow> fetch_distinct m') \<and>
   (\<forall>b \<in> dom m. fetch_keys m' b = fetch_keys m b \<union> \<Union>{set (sel c sp ts) | sp ts c. (b, sp, ts, c, None) \<in> set ps})"
proof (induction sel ps m arbitrary: errs m' rule: window_loop.induct)
  case (2 sel pool sp ts c err ps m)
  show ?case
  proof (cases err)
    case (Some e)
    then obtain es where "window_loop sel ps m = (es, m')" using "2.prems" by (auto split: prod.splits)
    then show ?thesis using "2.IH"(2) [OF Some] Some by simp
  next
    case None
    let ?m = "fetch_put pool (sel c sp ts) m"
    have w: "window_loop sel ps ?m = (errs, m')" using "2.prems" None by simp
    note ih = "2.IH"(1) [OF None w] and f = fetch_put_props [where m = m and a = pool and ts = "sel c sp ts"]
    have "fetch_keys m' b = fetch_keys m b \<union> \<Union>{set (sel c' sp' ts') | sp' ts' c'. (b, sp', ts', c', None) \<in> set ((pool, sp, ts, c, err) # ps)}"
      if "b \<in> dom m" for b
    proof -
      have "fetch_keys m' b = fetch_keys m b \<union> (if b = pool then set (sel c sp ts) else {}) \<union> \<Union>{set (sel c sp ts) | sp ts c. (b, sp, ts, c, None) \<in> set ps}"
        using ih f(1) f(2) [OF that] that by simp
      moreover have "\<Union>{set (sel c' sp' ts') | sp' ts' c'. (b, sp', ts', c', None) \<in> set ((pool, sp, ts, c, err) # ps)} =
          (if b = pool then set (sel c sp ts) else {}) \<union> \<Union>{set (sel c sp ts) | sp ts c. (b, sp, ts, c, None) \<in> set ps}"
        unfolding None by (cases "b = pool") (simp_all, blast)
      ultimately show ?thesis by (simp only: Un_assoc)
    qed
    then show ?thesis using ih f(1,3) by (intro conjI ballI impI) simp_all
  qed
qed simp

lemma updated_loop_spec:
  "dom (updated_loop us m) = dom m \<and> (fetch_distinct m \<longrightarrow> fetch_distinct (updated_loop us m)) \<and>
   (\<forall>b \<in> dom m. fetch_keys (updated_loop us m) b = fetch_keys m b \<union> \<Union>{set ts | ts. (b, ts) \<in> set us})"
proof (induction us m rule: updated_loop.induct)
  case (2 a ts us m)
  note f = fetch_put_props [where m = m and a = a and ts = ts]
  have "fetch_keys (updated_loop ((a, ts) # us) m) b = fetch_keys m b \<union> \<Union>{set ts' | ts'. (b, ts') \<in> set ((a, ts) # us)}" if "b \<in> dom m" for b
  proof -
    have "fetch_keys (updated_loop ((a, ts) # us) m) b = fetch_keys m b \<union> (if b = a then set ts else {}) \<union> \<Union>{set ts | ts. (b, ts) \<in> set us}"
      using "2.IH" f(1) f(2) [OF that] that by simp
    moreover have "\<Union>{set ts' | ts'. (b, ts') \<in> set ((a, ts) # us)} = (if b = a then set ts else {}) \<union> \<Union>{set ts | ts. (b, ts) \<in> set us}"
      by (cases "b = a") (simp_all, blast)
    ultimately show ?thesis by (simp only: Un_assoc)
  qed
  then show ?case using "2.IH" f(1,3) by (intro conjI ballI impI) simp_all
qed simp

lemma ticks_to_fetch_spec:
  assumes inv: "ix_inv ti" and len: "length currents = length (ixId ti)" and ord: "range_order ord" and i: "i < length (ixId ti)"
    and call: "ticks_to_fetch ord F percent n ti currents updated = (soft, req)"
  shows "length req = length (ixId ti)" and "distinct (req ! i)"
    and "currents ! i = (c, None) \<Longrightarrow> set (SelectTicksForFreshnessWindow F c (ixSpacing ti ! i) (ixTicks ti ! i) percent) \<subseteq> set (req ! i)"
    and "updated = Inr us \<Longrightarrow> (ixAddress ti ! i, ts) \<in> set us \<Longrightarrow> set ts \<subseteq> set (req ! i)"
proof -
  note d = ix_invD [OF inv]
  let ?sel = "\<lambda>c sp ts. SelectTicksForFreshnessWindow F c sp ts percent"
  let ?ps = "zip (ixAddress ti) (zip (ixSpacing ti) (zip (ixTicks ti) currents))"
  let ?a = "ixAddress ti ! i"
  define m0 :: fetch_map where "m0 = (\<lambda>addr. if ixAddressToIndex ti addr = None then None else Some [])"
  obtain e1 m1 where w: "window_loop ?sel ?ps m0 = (e1, m1)" by fastforce
  define m2 where "m2 = (case updated of Inl e \<Rightarrow> m1 | Inr us \<Rightarrow> updated_loop us m1)"
  have req: "req = map (\<lambda>pool. map fst (ord (case m2 pool of None \<Rightarrow> [] | Some ttf \<Rightarrow> ttf))) (ixAddress ti)"
    using call w by (auto simp: ticks_to_fetch_def Let_def m0_def m2_def split: sum.splits)
  have a: "?a \<in> dom m0" using index_inv_nth [OF d(7), of i] i d(1) by (auto simp: m0_def dom_def)
  note ws = window_loop_spec [OF w]
  have d0: "fetch_distinct m0" by (auto simp: fetch_distinct_def m0_def split: if_splits)
  have d2: "fetch_distinct m2" "?a \<in> dom m2" "fetch_keys m1 ?a \<subseteq> fetch_keys m2 ?a"
  proof -
    have m1: "fetch_distinct m1" "?a \<in> dom m1" using ws d0 a by simp_all
    have "fetch_distinct m2 \<and> ?a \<in> dom m2 \<and> fetch_keys m1 ?a \<subseteq> fetch_keys m2 ?a"
    proof (cases updated)
      case (Inl e)
      then show ?thesis using m1 by (simp add: m2_def)
    next
      case (Inr us)
      then have "fetch_keys m2 ?a = fetch_keys m1 ?a \<union> \<Union>{set ts | ts. (?a, ts) \<in> set us}" "dom m2 = dom m1" "fetch_distinct m2"
        using updated_loop_spec [of us m1] m1 by (simp_all add: m2_def)
      then show ?thesis using m1(2) by simp
    qed
    then show "fetch_distinct m2" "?a \<in> dom m2" "fetch_keys m1 ?a \<subseteq> fetch_keys m2 ?a" by simp_all
  qed
  then obtain ttf where ttf: "m2 ?a = Some ttf" "distinct (map fst ttf)" by (auto simp: fetch_distinct_def dom_def)
  show "length req = length (ixId ti)" by (simp add: req d(1))
  have ri: "req ! i = map fst (ord ttf)" using ttf(1) i d(1) by (simp add: req)
  show "distinct (req ! i)" using ttf(2) ord by (simp add: ri range_order_distinct)
  have keys: "set (req ! i) = fetch_keys m2 ?a" using ord by (simp add: ri fetch_keys_def ttf(1) range_order_set)
  show "set (?sel c (ixSpacing ti ! i) (ixTicks ti ! i)) \<subseteq> set (req ! i)" if "currents ! i = (c, None)"
  proof -
    have "?ps ! i = (?a, ixSpacing ti ! i, ixTicks ti ! i, c, None)" "i < length ?ps" using that i d len by simp_all
    then have "(?a, ixSpacing ti ! i, ixTicks ti ! i, c, None) \<in> set ?ps" by (metis nth_mem)
    then have "set (?sel c (ixSpacing ti ! i) (ixTicks ti ! i)) \<subseteq> fetch_keys m1 ?a" using ws a by blast
    then show ?thesis using d2(3) keys by simp
  qed
  show "set ts \<subseteq> set (req ! i)" if "updated = Inr us" "(?a, ts) \<in> set us"
  proof -
    have "?a \<in> dom m1" using ws a by simp
    then have "set ts \<subseteq> fetch_keys (updated_loop us m1) ?a" using updated_loop_spec [of us m1] that(2) by blast
    then show ?thesis using keys that(1) by (simp add: m2_def)
  qed
qed

lemma ix_Get_nth: "ixIdToIndex ti k = Some i \<Longrightarrow> ix_Get k ti = Inr (ixTicks ti ! i)"
  by (simp add: ix_Get_def ix_copy_id)

lemma updates_for_absent: "a \<notin> set as \<Longrightarrow> updates_for a (zip as ds) = []"
  by (auto simp: updates_for_def filter_empty_conv dest: set_zip_leftD)

lemma updates_for_zip:
  assumes "length ds = length as" and "distinct as" and "i < length as"
  shows "updates_for (as ! i) (zip as ds) = ds ! i"
  using assms
proof (induction ds as arbitrary: i rule: list_induct2)
  case (Cons d ds a as)
  show ?case
  proof (cases i)
    case 0
    then show ?thesis using Cons.prems updates_for_absent [of a as ds] by (simp add: updates_for_def)
  next
    case (Suc j)
    then have "as ! j \<noteq> a" using Cons.prems nth_mem [of j as] by auto
    then show ?thesis using Suc Cons by (simp add: updates_for_def)
  qed
qed simp

lemma plan_InrE:
  assumes "handleNewBlock_plan ord F percent retries rpc n ti = (soft, Inr updates)"
  obtains logs cur errs soft1 req datas terrs where "getLogsWithRetry (brFilterLogs rpc) (brCtxDone rpc) retries = Inr logs"
    "brCurrentTick rpc (ixAddress ti) = (cur, errs)" "length cur = length (ixAddress ti)" "length errs = length (ixAddress ti)"
    "ticks_to_fetch ord F percent n ti (zip cur errs) (brUpdatedInBlock rpc logs) = (soft1, req)"
    "brGetTicks rpc (ixAddress ti) req = (datas, terrs)" "length datas = length (ixAddress ti)" "updates = zip (ixAddress ti) datas"
  using assms by (auto simp: handleNewBlock_plan_def Let_def split: option.splits sum.splits prod.splits if_splits)

text \<open>
  A block in the tick indexer is log-accurate and fresh. For every pool tracked when the block is read, the ticks of the freshness
  window (when the current tick is known) and all ticks that the logs of the block name are requested, once each; and if the
  source answers the request tick by tick, then after the update the pool has exactly the answered ticks with liquidity among the
  requested ones, its other ticks are as before, and its list is strictly sorted, whatever other goroutines
  did to the indexer in between.
\<close>

theorem block_log_accurate:
  assumes inv: "ix_inv ti" "ix_inv ti2" and ord: "range_order ord"
    and plan: "handleNewBlock_plan ord F percent retries rpc n ti = (soft, Inr updates)"
    and k: "ixIdToIndex ti k = Some i" and k2: "ixIdToIndex ti2 k = Some j" "ixAddress ti2 ! j = ixAddress ti ! i"
  shows "\<exists>logs cur errs req datas terrs. getLogsWithRetry (brFilterLogs rpc) (brCtxDone rpc) retries = Inr logs \<and>
    brCurrentTick rpc (ixAddress ti) = (cur, errs) \<and> brGetTicks rpc (ixAddress ti) req = (datas, terrs) \<and> length req = length (ixId ti) \<and> distinct (req ! i) \<and>
    (errs ! i = None \<longrightarrow> set (SelectTicksForFreshnessWindow F (cur ! i) (ixSpacing ti ! i) (ixTicks ti ! i) percent) \<subseteq> set (req ! i)) \<and>
    (\<forall>us ts. brUpdatedInBlock rpc logs = Inr us \<and> (ixAddress ti ! i, ts) \<in> set us \<longrightarrow> set ts \<subseteq> set (req ! i)) \<and>
    (map tiIndex (datas ! i) = req ! i \<and> (\<forall>u \<in> set (datas ! i). 0 \<le> tiLiquidityGross u) \<longrightarrow>
      (\<exists>ts'. ix_Get k (snd (ix_handleNewBlock (Inr updates) n ti2)) = Inr ts' \<and> strict_ticks ts' \<and>
        (\<forall>t. keyed tiIndex ts' t = (case keyed tiIndex (datas ! i) t of None \<Rightarrow> keyed tiIndex (ixTicks ti2 ! j) t
           | Some u \<Rightarrow> if tiLiquidityGross u = 0 then None else Some u))))"
proof (rule plan_InrE [OF plan])
  fix logs cur errs soft1 req datas terrs
  assume p: "getLogsWithRetry (brFilterLogs rpc) (brCtxDone rpc) retries = Inr logs"
    "brCurrentTick rpc (ixAddress ti) = (cur, errs)" "length cur = length (ixAddress ti)" "length errs = length (ixAddress ti)"
    "ticks_to_fetch ord F percent n ti (zip cur errs) (brUpdatedInBlock rpc logs) = (soft1, req)"
    "brGetTicks rpc (ixAddress ti) req = (datas, terrs)" "length datas = length (ixAddress ti)" "updates = zip (ixAddress ti) datas"
  note d = ix_invD [OF inv(1)] and d2 = ix_invD [OF inv(2)]
  have i: "i < length (ixId ti)" and j: "j < length (ixId ti2)" using index_invD [OF d(6) k] index_invD [OF d2(6) k2(1)] by simp_all
  have len: "length (zip cur errs) = length (ixId ti)" using p(3,4) d(1) by simp
  note f = ticks_to_fetch_spec [OF inv(1) len ord i p(5)]
  let ?ti = "applyTickUpdates updates n ti2"
  note a = applyTickUpdates_spec [OF inv(2), of updates n]
  have up: "updates_for (ixAddress ti2 ! j) updates = datas ! i"
    using p(7,8) i d(1) index_inv_distinct [OF d(7)] by (simp add: k2(2) updates_for_zip)
  have ts: "ixTicks ?ti ! j = apply_ticks (datas ! i) (ixTicks ti2 ! j)" and id: "ixIdToIndex ?ti k = Some j"
    using a j k2(1) up by (simp_all add: same_pools_def)
  have st: "strict_ticks (ixTicks ti2 ! j)" using d2(2,8) j by simp
  have answered: "\<exists>ts'. ix_Get k (snd (ix_handleNewBlock (Inr updates) n ti2)) = Inr ts' \<and> strict_ticks ts' \<and>
        (\<forall>t. keyed tiIndex ts' t = (case keyed tiIndex (datas ! i) t of None \<Rightarrow> keyed tiIndex (ixTicks ti2 ! j) t
           | Some u \<Rightarrow> if tiLiquidityGross u = 0 then None else Some u))"
    if ans: "map tiIndex (datas ! i) = req ! i \<and> (\<forall>u \<in> set (datas ! i). 0 \<le> tiLiquidityGross u)"
  proof (intro exI conjI allI)
    show "ix_Get k (snd (ix_handleNewBlock (Inr updates) n ti2)) = Inr (apply_ticks (datas ! i) (ixTicks ti2 ! j))"
      using ix_Get_nth [OF id] ts by (simp add: ix_handleNewBlock_def)
    show "strict_ticks (apply_ticks (datas ! i) (ixTicks ti2 ! j))" by (rule apply_ticks_strict [OF st])
    have "distinct (map tiIndex (datas ! i))" using ans f(2) by simp
    then show "keyed tiIndex (apply_ticks (datas ! i) (ixTicks ti2 ! j)) t = (case keyed tiIndex (datas ! i) t of
        None \<Rightarrow> keyed tiIndex (ixTicks ti2 ! j) t | Some u \<Rightarrow> if tiLiquidityGross u = 0 then None else Some u)" for t
      using ans by (simp add: apply_ticks_keyed [OF st] foldl_tick_update)
  qed
  have window: "errs ! i = None \<longrightarrow> set (SelectTicksForFreshnessWindow F (cur ! i) (ixSpacing ti ! i) (ixTicks ti ! i) percent) \<subseteq> set (req ! i)"
    using f(3) [of "cur ! i"] p(3,4) i d(1) by simp
  show ?thesis
    by (intro exI [of _ logs] exI [of _ cur] exI [of _ errs] exI [of _ req] exI [of _ datas] exI [of _ terrs] conjI allI window p(1,2,6) f(1,2))
      (use answered f(4) in simp_all)
qed

text \<open>A block for one pool with one tick: the window holds the tick, and the logs name another one.\<close>

definition wit_tick :: "int \<Rightarrow> TickInfo" where
  "wit_tick i = \<lparr>tiIndex = i, tiLiquidityGross = 5, tiLiquidityNet = 5\<rparr>"

definition wit_ix :: "TickInfo list \<Rightarrow> TickIndexer" where
  "wit_ix ts = \<lparr>ixId = [1], ixAddress = [[9]], ixTicks = [ts], ixBitmap = [[]], ixSpacing = [60], ixLastUpdates = [0],
     ixIdToIndex = [1 \<mapsto> 0], ixAddressToIndex = [[9] \<mapsto> 0], ixPendingInit = [], ixLastUpdatedAtBlock = 0\<rparr>"

lemma wit_ix_inv: "strict_ticks ts \<Longrightarrow> ix_inv (wit_ix ts)"
  by (auto simp: ix_inv_def wit_ix_def index_inv_def)

definition wit_rpc :: "unit block_rpc" where
  "wit_rpc = \<lparr>brClient = None, brFilterLogs = \<lambda>_. Inr [()], brCtxDone = \<lambda>_. None, brCurrentTick = \<lambda>_. ([5], [None]),
     brUpdatedInBlock = \<lambda>_. Inr [([9], [120])], brGetTicks = \<lambda>_ req. (map (map wit_tick) req, [None])\<rparr>"

lemma wit_plan:
  "handleNewBlock_plan (\<lambda>m. m) F 0 2 wit_rpc 7 (wit_ix [wit_tick 60]) = ([], Inr [([9], [wit_tick 60, wit_tick 120])])"
  by code_simp

theorem block_log_accurate_witness:
  "\<exists>ts'. ix_Get 1 (snd (ix_handleNewBlock (Inr [([9], [wit_tick 60, wit_tick 120])]) 7 (wit_ix [wit_tick 60]))) = Inr ts' \<and> strict_ticks ts'"
proof -
  have inv: "ix_inv (wit_ix [wit_tick 60])" by (rule wit_ix_inv) (simp add: strict_ticks_def)
  have k: "ixIdToIndex (wit_ix [wit_tick 60]) 1 = Some 0" by (simp add: wit_ix_def)
  from block_log_accurate [OF inv inv range_order_id wit_plan k k refl] obtain req datas terrs where
    r: "brGetTicks wit_rpc (ixAddress (wit_ix [wit_tick 60])) req = (datas, terrs)" "length req = length (ixId (wit_ix [wit_tick 60]))"
    and ts: "map tiIndex (datas ! 0) = req ! 0 \<and> (\<forall>u \<in> set (datas ! 0). 0 \<le> tiLiquidityGross u) \<Longrightarrow>
      \<exists>ts'. ix_Get 1 (snd (ix_handleNewBlock (Inr [([9], [wit_tick 60, wit_tick 120])]) 7 (wit_ix [wit_tick 60]))) = Inr ts' \<and> strict_ticks ts'" by blast
  have "datas = map (map wit_tick) req" "length req = 1" using r by (simp_all add: wit_rpc_def wit_ix_def)
  then show ?thesis by (intro ts) (simp add: wit_tick_def comp_def)
qed

section \<open>Initialization and resynchronisation keep the invariant\<close>

definition pending_pairs :: "(uint64, pending_init) gomap \<Rightarrow> (uint64 \<times> address) set" where
  "pending_pairs m = (\<lambda>(k, p). (k, piAddress p)) ` set m"

definition ix_pairs :: "TickIndexer \<Rightarrow> (uint64 \<times> address) set" where
  "ix_pairs ti = set (zip (ixId ti) (ixAddress ti)) \<union> pending_pairs (ixPendingInit ti)"

text \<open>Identifiers and addresses determine each other.\<close>

definition pairs_ok :: "(uint64 \<times> address) set \<Rightarrow> bool" where
  "pairs_ok P \<longleftrightarrow> (\<forall>x \<in> P. \<forall>y \<in> P. fst x = fst y \<longleftrightarrow> snd x = snd y)"

lemma pairs_ok_mono: "pairs_ok P \<Longrightarrow> Q \<subseteq> P \<Longrightarrow> pairs_ok Q"
  unfolding pairs_ok_def by blast

lemma sorter_strict: "slice_sorter tiIndex srt \<Longrightarrow> distinct (map tiIndex ts) \<Longrightarrow> strict_ticks (srt ts)"
  unfolding strict_ticks_def slice_sorter_def strict_sorted_iff by (metis mset_eq_imp_distinct_iff mset_map)

lemma ix_track_wf:
  assumes inv: "ix_wf ti" and k: "ixIdToIndex ti k = None" and ts: "strict_ticks ts"
  shows "ix_wf (ix_track k p bm ts ti)"
proof -
  note d = ix_wfD [OF inv]
  have "index_inv (ixId ti @ [k]) ((ixIdToIndex ti)(k \<mapsto> length (ixId ti)))" by (rule index_inv_append [OF d(6) k])
  then show ?thesis using d(1-5,8) ts d(7) by (auto simp: ix_wf_def ix_track_def Let_def nth_append less_Suc_eq)
qed

lemma initializePools_apply_wf:
  assumes "ix_wf ti" and "slice_sorter tiIndex srt" and "\<forall>(e, b, t) \<in> set items. \<forall>ts. t = Inr ts \<longrightarrow> distinct (map tiIndex ts)"
    and "initializePools_apply srt items ti = (ids, ti')"
  shows "ix_wf ti'"
  using assms(1,3,4,2)
proof (induction srt items ti arbitrary: ids ti' rule: initializePools_apply.induct)
  case (2 srt k p b t items ti)
  have items: "\<forall>(e, b, t) \<in> set items. \<forall>ts. t = Inr ts \<longrightarrow> distinct (map tiIndex ts)"
    and dt: "\<And>ts. t = Inr ts \<Longrightarrow> distinct (map tiIndex ts)" using "2.prems"(2) by auto
  show ?case
  proof (cases "\<exists>bm ts. b = Inr bm \<and> t = Inr ts")
    case False
    then have skip: "initializePools_apply srt items ti = (ids, ti')" using "2.prems"(3) by (auto split: sum.splits)
    show ?thesis
    proof (cases b)
      case (Inl e)
      show ?thesis by (rule "2.IH"(1) [OF Inl "2.prems"(1) items skip "2.prems"(4)])
    next
      case (Inr bm)
      then obtain e where e: "t = Inl e" using False by (cases t) auto
      show ?thesis by (rule "2.IH"(2) [OF Inr e "2.prems"(1) items skip "2.prems"(4)])
    qed
  next
    case True
    then obtain bm ts where bt: "b = Inr bm" "t = Inr ts" by blast
    show ?thesis
    proof (cases "ixIdToIndex ti k = None")
      case False
      then obtain ids1 where r: "initializePools_apply srt items ti = (ids1, ti')" using "2.prems"(3) bt by (auto split: prod.splits)
      show ?thesis by (rule "2.IH"(3) [OF bt _ "2.prems"(1) items r "2.prems"(4)]) (use False in simp)
    next
      case True
      obtain ids1 where r: "initializePools_apply srt items (ix_track k p bm (srt ts) ti) = (ids1, ti')"
        using "2.prems"(3) bt True by (auto split: prod.splits)
      have w: "ix_wf (ix_track k p bm (srt ts) ti)" by (rule ix_track_wf [OF "2.prems"(1) True sorter_strict [OF "2.prems"(4) dt [OF bt(2)]]])
      show ?thesis by (rule "2.IH"(4) [OF bt _ w items r "2.prems"(4)]) (use True in simp)
    qed
  qed
qed simp

lemma ix_track_inv:
  assumes inv: "ix_inv ti" and k: "ixIdToIndex ti k = None" and a: "ixAddressToIndex ti (piAddress p) = None" and ts: "strict_ticks ts"
  shows "ix_inv (ix_track k p bm ts ti)" and "ix_View (ix_track k p bm ts ti) = ix_View ti @ [\<lparr>tkvID = k, tkvTicks = ts\<rparr>]"
    and "set (zip (ixId (ix_track k p bm ts ti)) (ixAddress (ix_track k p bm ts ti))) = insert (k, piAddress p) (set (zip (ixId ti) (ixAddress ti)))"
proof -
  note d = ix_invD [OF inv]
  have "index_inv (ixId ti @ [k]) ((ixIdToIndex ti)(k \<mapsto> length (ixId ti)))" by (rule index_inv_append [OF d(6) k])
  moreover have "index_inv (ixAddress ti @ [piAddress p]) ((ixAddressToIndex ti)(piAddress p \<mapsto> length (ixId ti)))"
    using index_inv_append [OF d(7) a] d(1) by simp
  ultimately show "ix_inv (ix_track k p bm ts ti)" using d ts by (auto simp: ix_inv_def ix_track_def Let_def)
  show "ix_View (ix_track k p bm ts ti) = ix_View ti @ [\<lparr>tkvID = k, tkvTicks = ts\<rparr>]"
    using d(2) by (intro nth_equalityI) (auto simp: ix_View_def ix_track_def Let_def ix_copy_id nth_append less_Suc_eq)
  show "set (zip (ixId (ix_track k p bm ts ti)) (ixAddress (ix_track k p bm ts ti))) = insert (k, piAddress p) (set (zip (ixId ti) (ixAddress ti)))"
    using d(1) by (simp add: ix_track_def Let_def)
qed

lemma tracked_pair_index:
  assumes "ix_inv ti" and "pairs_ok P" and "set (zip (ixId ti) (ixAddress ti)) \<subseteq> P" and "(k, a) \<in> P" and "ixIdToIndex ti k = None"
  shows "ixAddressToIndex ti a = None"
proof (rule ccontr)
  assume "ixAddressToIndex ti a \<noteq> None"
  then obtain i where i: "ixAddressToIndex ti a = Some i" by auto
  note d = ix_invD [OF assms(1)]
  have il: "i < length (ixId ti)" "ixAddress ti ! i = a" using index_invD [OF d(7) i] d(1) by auto
  then have "(ixId ti ! i, a) \<in> set (zip (ixId ti) (ixAddress ti))" using d(1) by (auto simp: set_zip)
  then have "ixId ti ! i = k" using assms(2-4) unfolding pairs_ok_def by fastforce
  then show False using assms(5) index_inv_nth [OF d(6) il(1)] by simp
qed

lemma initializePools_apply_spec:
  assumes "ix_inv ti" and "pairs_ok P" and "set (zip (ixId ti) (ixAddress ti)) \<subseteq> P" and "slice_sorter tiIndex srt"
    and "\<forall>((k, p), b, t) \<in> set items. (k, piAddress p) \<in> P \<and> (\<forall>ts. t = Inr ts \<longrightarrow> distinct (map tiIndex ts))"
    and "initializePools_apply srt items ti = (ids, ti')"
  shows "ix_inv ti' \<and> set (zip (ixId ti') (ixAddress ti')) \<subseteq> P \<and> ixPendingInit ti' = ixPendingInit ti \<and> ixLastUpdatedAtBlock ti' = ixLastUpdatedAtBlock ti \<and>
    (\<forall>k v. keyed tkvID (ix_View ti) k = Some v \<longrightarrow> keyed tkvID (ix_View ti') k = Some v) \<and> set ids \<subseteq> set (ixId ti')"
  using assms(1,3,5,6,4)
proof (induction srt items ti arbitrary: ids ti' rule: initializePools_apply.induct)
  case (2 srt k p b t items ti)
  have items: "\<forall>((k, p), b, t) \<in> set items. (k, piAddress p) \<in> P \<and> (\<forall>ts. t = Inr ts \<longrightarrow> distinct (map tiIndex ts))"
    and kp: "(k, piAddress p) \<in> P" and dt: "\<And>ts. t = Inr ts \<Longrightarrow> distinct (map tiIndex ts)" using "2.prems"(3) by auto
  show ?case
  proof (cases "\<exists>bm ts. b = Inr bm \<and> t = Inr ts")
    case False
    then have skip: "initializePools_apply srt items ti = (ids, ti')" using "2.prems"(4) by (auto split: sum.splits)
    show ?thesis
    proof (cases b)
      case (Inl e)
      show ?thesis by (rule "2.IH"(1) [OF Inl "2.prems"(1,2) items skip "2.prems"(5)])
    next
      case (Inr bm)
      then obtain e where e: "t = Inl e" using False by (cases t) auto
      show ?thesis by (rule "2.IH"(2) [OF Inr e "2.prems"(1,2) items skip "2.prems"(5)])
    qed
  next
    case True
    then obtain bm ts where bt: "b = Inr bm" "t = Inr ts" by blast
    show ?thesis
    proof (cases "ixIdToIndex ti k = None")
      case False
      then obtain ids1 where r: "initializePools_apply srt items ti = (ids1, ti')" "ids = k # ids1"
        using "2.prems"(4) bt by (auto split: prod.splits)
      note ih = "2.IH"(3) [OF bt _ "2.prems"(1,2) items r(1) "2.prems"(5)]
      have "k \<in> set (ixId ti)" using False index_inv_None_iff [OF ix_invD(6) [OF "2.prems"(1)]] by auto
      then have "keyed tkvID (ix_View ti) k \<noteq> None" by (simp add: keyed_None_iff flip: set_map) (simp add: ix_View_ids)
      then have "keyed tkvID (ix_View ti') k \<noteq> None" using ih False by auto
      then have "k \<in> set (ixId ti')" by (simp add: keyed_None_iff flip: set_map) (simp add: ix_View_ids)
      then show ?thesis using ih False r(2) by simp
    next
      case True
      let ?ti = "ix_track k p bm (srt ts) ti"
      obtain ids1 where r: "initializePools_apply srt items ?ti = (ids1, ti')" "ids = k # ids1"
        using "2.prems"(4) bt True by (auto split: prod.splits)
      have a: "ixAddressToIndex ti (piAddress p) = None" by (rule tracked_pair_index [OF "2.prems"(1) assms(2) "2.prems"(2) kp True])
      note tr = ix_track_inv [OF "2.prems"(1) True a sorter_strict [OF "2.prems"(5) dt [OF bt(2)]], of bm]
      have "set (zip (ixId ?ti) (ixAddress ?ti)) \<subseteq> P" using tr(3) kp "2.prems"(2) by simp
      note ih = "2.IH"(4) [OF bt _ tr(1) this items r(1) "2.prems"(5)]
      have new: "keyed tkvID (ix_View ti) k = None" using True by (simp add: keyed_index [OF ix_View_index [OF ix_inv_wf [OF "2.prems"(1)]]])
      have kv: "keyed tkvID (ix_View ?ti) = (keyed tkvID (ix_View ti))(k \<mapsto> \<lparr>tkvID = k, tkvTicks = srt ts\<rparr>)"
        using new by (auto simp: tr(2) keyed_concat fun_eq_iff map_add_def split: option.split)
      have keep: "\<forall>k v. keyed tkvID (ix_View ?ti) k = Some v \<longrightarrow> keyed tkvID (ix_View ti') k = Some v" using ih True by simp
      then have "keyed tkvID (ix_View ti') k \<noteq> None" by (simp add: kv)
      then have "k \<in> set (ixId ti')" by (simp add: keyed_None_iff flip: set_map) (simp add: ix_View_ids)
      moreover have "\<forall>k' v. keyed tkvID (ix_View ti) k' = Some v \<longrightarrow> keyed tkvID (ix_View ti') k' = Some v"
        using keep new unfolding kv by (metis fun_upd_other option.distinct(1))
      moreover have "ixPendingInit ?ti = ixPendingInit ti" "ixLastUpdatedAtBlock ?ti = ixLastUpdatedAtBlock ti" by (simp_all add: ix_track_def Let_def)
      ultimately show ?thesis using ih True r(2) by simp
    qed
  qed
qed simp

lemma resync_set_wf:
  assumes "ix_wf ti" and "strict_ticks ts"
  shows "ix_wf (ti\<lparr>ixTicks := (ixTicks ti)[i := ts], ixBitmap := (ixBitmap ti)[i := bm]\<rparr>)" (is "ix_wf ?ti")
proof -
  note d = ix_wfD [OF assms(1)]
  have "\<forall>ts \<in> set (ixTicks ?ti). strict_ticks ts" using d(8) assms(2) set_update_subset_insert [of "ixTicks ti" i ts] by auto
  then show ?thesis using d by (intro ix_wf_same [OF assms(1)]) (simp_all add: same_pools_def)
qed

lemma resyncPools_apply_wf:
  assumes srt: "slice_sorter tiIndex srt" and "ix_wf ti"
    and "\<forall>(s, b, t) \<in> set items. \<forall>ts. t = Inr ts \<longrightarrow> distinct (map tiIndex ts)"
    and "resyncPools_apply srt items ti = (errs, ti')"
  shows "ix_wf ti' \<and> same_pools ti ti' \<and> ixLastUpdates ti' = ixLastUpdates ti"
  using assms(2-4)
proof (induction items arbitrary: ti errs)
  case (Cons item items)
  obtain addr lu prev b t where item: "item = ((addr, lu, prev), b, t)" by (metis prod.exhaust)
  have items: "\<forall>(s, b, t) \<in> set items. \<forall>ts. t = Inr ts \<longrightarrow> distinct (map tiIndex ts)" using Cons.prems(2) by simp
  have "\<exists>ti1 errs1. ix_wf ti1 \<and> same_pools ti ti1 \<and> ixLastUpdates ti1 = ixLastUpdates ti \<and> resyncPools_apply srt items ti1 = (errs1, ti')"
  proof (cases "\<exists>i bm fresh. ixAddressToIndex ti addr = Some i \<and> b = Inr bm \<and> t = Inr fresh \<and> lu = ixLastUpdates ti ! i \<and> \<not> areTickSlicesEqual prev (srt fresh)")
    case True
    then obtain i bm fresh where i: "ixAddressToIndex ti addr = Some i" "b = Inr bm" "t = Inr fresh" "lu = ixLastUpdates ti ! i"
      "\<not> areTickSlicesEqual prev (srt fresh)" by blast
    let ?ti = "ti\<lparr>ixTicks := (ixTicks ti)[i := srt fresh], ixBitmap := (ixBitmap ti)[i := bm]\<rparr>"
    have "strict_ticks (srt fresh)" using Cons.prems(2) i(3) by (intro sorter_strict [OF srt]) (simp add: item)
    then have "ix_wf ?ti" by (intro resync_set_wf [OF Cons.prems(1)])
    moreover have "resyncPools_apply srt items ?ti = (errs, ti')" using Cons.prems(3) i by (simp add: item)
    ultimately show ?thesis by (intro exI [of _ ?ti] exI [of _ errs]) (simp add: same_pools_def)
  next
    case False
    then have "\<exists>errs1. resyncPools_apply srt items ti = (errs1, ti')"
      using Cons.prems(3) by (auto simp: item split: option.splits sum.splits prod.splits if_splits)
    then show ?thesis using Cons.prems(1) by (intro exI [of _ ti]) simp
  qed
  then show ?case using Cons.IH [OF _ items] same_pools_trans by metis
qed simp

lemma resyncPools_apply_spec:
  assumes "slice_sorter tiIndex srt" and "ix_inv ti"
    and "\<forall>(s, b, t) \<in> set items. \<forall>ts. t = Inr ts \<longrightarrow> distinct (map tiIndex ts)"
    and "resyncPools_apply srt items ti = (errs, ti')"
  shows "ix_inv ti' \<and> same_pools ti ti' \<and> ixLastUpdates ti' = ixLastUpdates ti"
  using resyncPools_apply_wf [OF assms(1) ix_inv_wf [OF assms(2)] assms(3,4)] ix_inv_same [OF assms(2)] by blast

end
