(* ===== verification/Tick_Indexer_Run.thy ===== *)
theory Tick_Indexer_Run
  imports Tick_Indexer
begin

text \<open>
  The goroutines of the tick indexer (\<^verbatim>\<open>listenBlockEventer\<close>, \<^verbatim>\<open>startInitializer\<close>, \<^verbatim>\<open>startResyncer\<close> and the callers of \<^verbatim>\<open>Add\<close> and
  \<^verbatim>\<open>Remove\<close>, \<^verbatim>\<open>src/protocols/uniswap-v3/ticks/indexer.go\<close>) as a step relation over the locked sections of \<^verbatim>\<open>Tick_Indexer\<close>, the invariant of
  its reachable states, and what a resynchronisation achieves.
\<close>

section \<open>The goroutines\<close>

text \<open>
  The indexer with the variables of the initializer: the batch that is being fetched, and the identifiers that it has integrated
  and not yet taken from the queue. Blocks and resynchronisations are applied with arbitrary data.
\<close>

record IxMachine =
  ixmSys :: TickIndexer
  ixmBatch :: "(uint64, pending_init) gomap option"
  ixmDone :: "uint64 list option"

text \<open>The steps of the indexer's own goroutines, and with them the calls of its clients.\<close>

inductive ixm_own :: "IxMachine \<Rightarrow> IxMachine \<Rightarrow> bool" where
  ixm_skip: "ixm_own m (m\<lparr>ixmSys := ix_setLastUpdatedAtBlock n (ixmSys m)\<rparr>)"
| ixm_block: "ix_handleNewBlock plan n (ixmSys m) = (err, ti') \<Longrightarrow>
     ixm_own m (m\<lparr>ixmSys := if err = None then ix_setLastUpdatedAtBlock n ti' else ti'\<rparr>)"
| ixm_batch: "ixmBatch m = None \<Longrightarrow> ixmDone m = None \<Longrightarrow> range_order ord \<Longrightarrow> ixm_own m (m\<lparr>ixmBatch := Some (init_batch ord (ixmSys m))\<rparr>)"
| ixm_init: "ixmBatch m = Some batch \<Longrightarrow> slice_sorter tiIndex srt \<Longrightarrow>
     (\<And>as bs sps ts. Inr ts \<in> set (getInitializedTicks as bs sps) \<Longrightarrow> distinct (map tiIndex ts)) \<Longrightarrow>
     initializePools_apply srt (initializePools_fetch getTickBitmap getInitializedTicks batch) (ixmSys m) = (ids, ti') \<Longrightarrow>
     ixm_own m (m\<lparr>ixmSys := ti', ixmBatch := None, ixmDone := Some ids\<rparr>)"
| ixm_clear: "ixmDone m = Some ids \<Longrightarrow> ixm_own m (m\<lparr>ixmSys := ix_clearPending ids (ixmSys m), ixmDone := None\<rparr>)"
| ixm_resync: "slice_sorter tiIndex srt \<Longrightarrow> (\<forall>(s, b, t) \<in> set items. \<forall>ts. t = Inr ts \<longrightarrow> distinct (map tiIndex ts)) \<Longrightarrow>
     resyncPools_apply srt items (ixmSys m) = (errs, ti') \<Longrightarrow> ixm_own m (m\<lparr>ixmSys := ti'\<rparr>)"

inductive ixm_step :: "IxMachine \<Rightarrow> IxMachine \<Rightarrow> bool" where
  ixm_run: "ixm_own m m' \<Longrightarrow> ixm_step m m'"
| ixm_add: "ix_Add pool addr sp (ixmSys m) = Inr ti' \<Longrightarrow> ixm_step m (m\<lparr>ixmSys := ti'\<rparr>)"
| ixm_remove: "ix_Remove pool (ixmSys m) = Inr ti' \<Longrightarrow> ixm_step m (m\<lparr>ixmSys := ti'\<rparr>)"

text \<open>
  The executions in which the callers never give one address to two pools, or two addresses to one pool, that the indexer knows
  at the same time.
\<close>

definition add_ok :: "uint64 \<Rightarrow> address \<Rightarrow> TickIndexer \<Rightarrow> bool" where
  "add_ok pool addr ti \<longleftrightarrow> (\<forall>(k, a) \<in> ix_pairs ti. k = pool \<longleftrightarrow> a = addr)"

inductive ixm_careful :: "IxMachine \<Rightarrow> IxMachine \<Rightarrow> bool" where
  careful_run: "ixm_own m m' \<Longrightarrow> ixm_careful m m'"
| careful_add: "ix_Add pool addr sp (ixmSys m) = Inr ti' \<Longrightarrow> add_ok pool addr (ixmSys m) \<Longrightarrow> ixm_careful m (m\<lparr>ixmSys := ti'\<rparr>)"
| careful_remove: "ix_Remove pool (ixmSys m) = Inr ti' \<Longrightarrow> ixm_careful m (m\<lparr>ixmSys := ti'\<rparr>)"

definition ixm_start :: IxMachine where
  "ixm_start = \<lparr>ixmSys = NewTickIndexer, ixmBatch = None, ixmDone = None\<rparr>"

definition ixm_inv :: "IxMachine \<Rightarrow> bool" where
  "ixm_inv m \<longleftrightarrow> ix_inv (ixmSys m) \<and> pairs_ok (ix_pairs (ixmSys m)) \<and> distinct (map fst (ixPendingInit (ixmSys m))) \<and>
     (\<forall>batch. ixmBatch m = Some batch \<longrightarrow> ixmDone m = None \<and> pending_pairs batch \<subseteq> pending_pairs (ixPendingInit (ixmSys m)))"

lemma pending_pairs_simps [simp]:
  "pending_pairs [] = {}" "pending_pairs (e # m) = insert (fst e, piAddress (snd e)) (pending_pairs m)"
  by (auto simp: pending_pairs_def split: prod.split)

lemma pending_pairs_update:
  "pending_pairs (AList.update k p m) \<subseteq> insert (k, piAddress p) (pending_pairs m)"
  "(k, piAddress p) \<in> pending_pairs (AList.update k p m)"
  "x \<in> pending_pairs m \<Longrightarrow> fst x \<noteq> k \<Longrightarrow> x \<in> pending_pairs (AList.update k p m)"
  by (induction m) auto

lemma pending_pairs_delete: "pending_pairs (foldl (\<lambda>m k. AList.delete k m) m ks) \<subseteq> pending_pairs m"
proof (induction ks arbitrary: m)
  case (Cons k ks)
  have "pending_pairs (AList.delete k m) \<subseteq> pending_pairs m" by (induction m) (auto split: if_splits)
  then show ?case using Cons [of "AList.delete k m"] by simp
qed simp

lemma initializePools_fetch_items:
  assumes "((k, p), b, t) \<in> set (initializePools_fetch gb gt batch)"
  shows "(k, p) \<in> set batch \<and> (t = Inr [] \<or> (\<exists>as bs sps. t \<in> set (gt as bs sps)))"
proof -
  have upd: "set (foldl (\<lambda>all (s, res). case f s of None \<Rightarrow> all | Some i \<Rightarrow> all[i := res]) xs ys) \<subseteq> set xs \<union> snd ` set ys"
    for f :: "address \<times> Bitmap \<times> uint64 \<times> nat \<Rightarrow> nat option" and xs and ys :: "((address \<times> Bitmap \<times> uint64 \<times> nat) \<times> (string + TickInfo list)) list"
  proof (induction ys arbitrary: xs)
    case (Cons y ys)
    obtain s r where y: "y = (s, r)" by (cases y)
    show ?case
    proof (cases "f s")
      case None
      then show ?thesis using Cons [of xs] by (auto simp: y)
    next
      case (Some i)
      then show ?thesis using Cons [of "xs[i := r]"] set_update_subset_insert [of xs i r] by (auto simp: y)
    qed
  qed simp
  let ?bm = "gb (map (\<lambda>(_, p). piAddress p) batch) (map (\<lambda>(_, p). piSpacing p) batch)"
  define ss where "ss = init_successes batch ?bm"
  define rs where "rs = (if ss = [] then [] else gt (map fst ss) (map (\<lambda>(_, b, _, _). b) ss) (map (\<lambda>(_, _, sp, _). sp) ss))"
  have z: "((k, p), b, t) \<in> set (zip batch (zip ?bm (init_tick_results (length batch) ss rs)))"
    using assms by (simp only: initializePools_fetch_def Let_def ss_def rs_def)
  have rs: "rs = [] \<or> (\<exists>as bs sps. rs = gt as bs sps)" unfolding rs_def by auto
  have "t \<in> set (init_tick_results (length batch) ss rs)" using z by (auto dest!: set_zip_rightD)
  then have "t \<in> set (replicate (length batch) (Inr [])) \<union> snd ` set (zip ss rs)"
    using upd [of "\<lambda>s. addressToOriginalIndex ss (fst s)" "replicate (length batch) (Inr [])" "zip ss rs"]
    unfolding init_tick_results_def by blast
  moreover have "snd ` set (zip ss rs) \<subseteq> set rs" by (auto dest: set_zip_rightD)
  ultimately have "t = Inr [] \<or> t \<in> set rs" by (auto simp: set_replicate_conv_if split: if_splits)
  then show ?thesis using z rs by (auto dest: set_zip_leftD)
qed

lemma ix_Add_pairs:
  assumes "ix_Add k a sp ti = Inr ti'"
  shows "ti' = ti\<lparr>ixPendingInit := AList.update k \<lparr>piAddress = a, piSpacing = sp\<rparr> (ixPendingInit ti)\<rparr>" "ix_pairs ti' \<subseteq> insert (k, a) (ix_pairs ti)"
proof -
  show t: "ti' = ti\<lparr>ixPendingInit := AList.update k \<lparr>piAddress = a, piSpacing = sp\<rparr> (ixPendingInit ti)\<rparr>"
    using assms by (auto simp: ix_Add_def split: if_splits)
  show "ix_pairs ti' \<subseteq> insert (k, a) (ix_pairs ti)"
    using pending_pairs_update(1) [of k "\<lparr>piAddress = a, piSpacing = sp\<rparr>" "ixPendingInit ti"] by (auto simp: ix_pairs_def t)
qed

lemma ixm_inv_same:
  assumes "ixm_inv m" "ix_inv ti'" "same_pools (ixmSys m) ti'"
  shows "ixm_inv (m\<lparr>ixmSys := ti'\<rparr>)" and "ixm_inv (m\<lparr>ixmSys := ix_setLastUpdatedAtBlock n ti'\<rparr>)"
  using assms by (auto simp: ixm_inv_def same_pools_def ix_pairs_def ix_setLastUpdatedAtBlock_def ix_inv_def)

lemma ixm_add_inv:
  assumes ixm_add: "ix_Add k a sp (ixmSys m) = Inr ti'" "add_ok k a (ixmSys m)" "ixm_inv m"
  shows "ixm_inv (m\<lparr>ixmSys := ti'\<rparr>)"
proof -
  let ?ti = "ixmSys m"
  note t = ix_Add_pairs [OF ixm_add(1)]
  have inv: "ix_inv ?ti" "pairs_ok (ix_pairs ?ti)" "distinct (map fst (ixPendingInit ?ti))" using ixm_add(3) by (simp_all add: ixm_inv_def)
  have "ix_inv ti'" using inv(1) by (simp add: ix_inv_def t(1))
  moreover have "pairs_ok (insert (k, a) (ix_pairs ?ti))" using inv(2) ixm_add(2) unfolding pairs_ok_def add_ok_def by fastforce
  then have "pairs_ok (ix_pairs ti')" using t(2) by (rule pairs_ok_mono)
  moreover have "distinct (map fst (ixPendingInit ti'))" using inv(3) by (simp add: t(1) distinct_update)
  moreover have "pending_pairs batch \<subseteq> pending_pairs (ixPendingInit ti')" if b: "ixmBatch m = Some batch" for batch
  proof
    fix x assume "x \<in> pending_pairs batch"
    then have x: "x \<in> pending_pairs (ixPendingInit ?ti)" using b ixm_add(3) by (auto simp: ixm_inv_def)
    show "x \<in> pending_pairs (ixPendingInit ti')"
    proof (cases "fst x = k")
      case True
      then have "x = (k, a)" using x ixm_add(2) by (cases x) (auto simp: add_ok_def ix_pairs_def)
      then show ?thesis using pending_pairs_update(2) [of k "\<lparr>piAddress = a, piSpacing = sp\<rparr>"] by (simp add: t(1))
    qed (use x pending_pairs_update(3) in \<open>simp add: t(1)\<close>)
  qed
  ultimately show ?thesis using ixm_add(3) by (simp add: ixm_inv_def)
qed

lemma ixm_remove_inv:
  assumes ixm_remove: "ix_Remove k (ixmSys m) = Inr ti'" "ixm_inv m"
  shows "ixm_inv (m\<lparr>ixmSys := ti'\<rparr>)"
proof -
  have inv: "ix_inv (ixmSys m)" using ixm_remove(2) by (simp add: ixm_inv_def)
  obtain i where i: "ixIdToIndex (ixmSys m) k = Some i" using ixm_remove(1) by (auto simp: ix_Remove_def split: option.splits)
  show ?thesis
  proof (rule ix_Remove_spec [OF inv i])
    fix ti'' assume r: "ix_Remove k (ixmSys m) = Inr ti''" "ix_inv ti''" "ixPendingInit ti'' = ixPendingInit (ixmSys m)"
      "set (zip (ixId ti'') (ixAddress ti'')) \<subseteq> set (zip (ixId (ixmSys m)) (ixAddress (ixmSys m)))"
    then have "ti'' = ti'" "ix_pairs ti'' \<subseteq> ix_pairs (ixmSys m)" using ixm_remove(1) by (auto simp: ix_pairs_def)
    then show ?thesis using r ixm_remove(2) pairs_ok_mono by (auto simp: ixm_inv_def)
  qed
qed

lemma ixm_own_inv: "ixm_own m m' \<Longrightarrow> ixm_inv m \<Longrightarrow> ixm_inv m'"
proof (induction rule: ixm_own.induct)
  case (ixm_skip m n)
  then show ?case using ixm_inv_same(2) [of m "ixmSys m" n] by (simp add: ixm_inv_def)
next
  case (ixm_block plan n m err ti')
  have inv: "ix_inv (ixmSys m)" using ixm_block(2) by (simp add: ixm_inv_def)
  have "ix_inv ti' \<and> same_pools (ixmSys m) ti'"
    using ixm_block(1) inv applyTickUpdates_spec [OF inv] by (auto simp: ix_handleNewBlock_def split: sum.splits)
  then show ?case using ixm_inv_same [OF ixm_block(2)] by simp
next
  case (ixm_batch m ord)
  then show ?case by (auto simp: ixm_inv_def init_batch_def pending_pairs_def range_order_set)
next
  case (ixm_init m batch srt getInitializedTicks getTickBitmap ids ti')
  let ?P = "ix_pairs (ixmSys m)"
  have inv: "ix_inv (ixmSys m)" "pairs_ok ?P" and sub: "pending_pairs batch \<subseteq> ?P"
    using ixm_init(1,5) by (auto simp: ixm_inv_def ix_pairs_def)
  have items: "\<forall>((k, p), b, t) \<in> set (initializePools_fetch getTickBitmap getInitializedTicks batch).
      (k, piAddress p) \<in> ?P \<and> (\<forall>ts. t = Inr ts \<longrightarrow> distinct (map tiIndex ts))"
  proof (clarify, intro conjI allI impI)
    fix k p b t assume x: "((k, p), b, t) \<in> set (initializePools_fetch getTickBitmap getInitializedTicks batch)"
    note y = initializePools_fetch_items [OF x]
    show "(k, piAddress p) \<in> ?P" using y sub by (auto simp: pending_pairs_def)
    show "distinct (map tiIndex ts)" if "t = Inr ts" for ts using y that ixm_init(3) by auto
  qed
  have "set (zip (ixId (ixmSys m)) (ixAddress (ixmSys m))) \<subseteq> ?P" by (auto simp: ix_pairs_def)
  from initializePools_apply_spec [OF inv this ixm_init(2) items ixm_init(4)]
  have a: "ix_inv ti'" "set (zip (ixId ti') (ixAddress ti')) \<subseteq> ?P" "ixPendingInit ti' = ixPendingInit (ixmSys m)" by simp_all
  then have "ix_pairs ti' \<subseteq> ?P" by (auto simp: ix_pairs_def)
  then show ?case using a ixm_init(5) pairs_ok_mono [OF inv(2)] by (simp add: ixm_inv_def)
next
  case (ixm_clear m ids)
  let ?ti = "ix_clearPending ids (ixmSys m)"
  have "ix_pairs ?ti \<subseteq> ix_pairs (ixmSys m)"
    using pending_pairs_delete [of "ixPendingInit (ixmSys m)" ids] by (auto simp: ix_pairs_def ix_clearPending_def)
  then have "pairs_ok (ix_pairs ?ti)" using ixm_clear(2) pairs_ok_mono by (auto simp: ixm_inv_def)
  moreover have "ix_inv ?ti" using ixm_clear(2) by (simp add: ixm_inv_def ix_inv_def ix_clearPending_def)
  moreover have "distinct (map fst (ixPendingInit ?ti))" using ixm_clear(2) by (simp add: ixm_inv_def ix_clearPending_def distinct_foldl_delete)
  moreover have "ixmBatch m = None" using ixm_clear by (auto simp: ixm_inv_def)
  ultimately show ?case by (simp add: ixm_inv_def)
next
  case (ixm_resync srt items m errs ti')
  have "ix_inv (ixmSys m)" using ixm_resync(4) by (simp add: ixm_inv_def)
  from resyncPools_apply_spec [OF ixm_resync(1) this ixm_resync(2,3)] show ?case using ixm_inv_same(1) [OF ixm_resync(4)] by simp
qed

lemma ixm_careful_inv: "ixm_careful m m' \<Longrightarrow> ixm_inv m \<Longrightarrow> ixm_inv m'"
  by (induction rule: ixm_careful.induct) (auto intro: ixm_own_inv ixm_add_inv ixm_remove_inv)

lemma ixm_inv_start: "ixm_inv ixm_start"
  by (simp add: ixm_inv_def ixm_start_def NewTickIndexer_def ix_inv_def ix_pairs_def pairs_ok_def)

lemma ixm_careful_run_inv: "ixm_careful\<^sup>*\<^sup>* ixm_start m \<Longrightarrow> ixm_inv m"
  by (induction rule: rtranclp_induct) (auto intro: ixm_inv_start ixm_careful_inv)

text \<open>In all executions the weaker invariant holds.\<close>

lemma ix_wf_start: "ix_wf (ixmSys ixm_start)"
  by (rule ix_inv_wf) (use ixm_inv_start in \<open>simp add: ixm_inv_def\<close>)

lemma ix_wf_setLast: "ix_wf (ix_setLastUpdatedAtBlock n ti) = ix_wf ti"
  by (simp add: ix_wf_def ix_setLastUpdatedAtBlock_def)

lemma ix_wf_Add: "ix_Add k a sp ti = Inr ti' \<Longrightarrow> ix_wf ti \<Longrightarrow> ix_wf ti'"
  using ix_Add_pairs(1) [of k a sp ti ti'] by (simp add: ix_wf_def)

lemma ix_wf_Remove: "ix_Remove k ti = Inr ti' \<Longrightarrow> ix_wf ti \<Longrightarrow> ix_wf ti'"
proof -
  assume r: "ix_Remove k ti = Inr ti'" and w: "ix_wf ti"
  obtain i where i: "ixIdToIndex ti k = Some i" using r by (auto simp: ix_Remove_def split: option.splits)
  show ?thesis by (rule ix_Remove_wf [OF w i]) (use r in simp)
qed

lemma ix_wf_block: "ix_handleNewBlock plan n ti = (err, ti') \<Longrightarrow> ix_wf ti \<Longrightarrow> ix_wf ti'"
  using applyTickUpdates_wf [of ti] by (auto simp: ix_handleNewBlock_def split: sum.splits)

lemma ixm_own_wf: "ixm_own m m' \<Longrightarrow> ix_wf (ixmSys m) \<Longrightarrow> ix_wf (ixmSys m')"
proof (induction rule: ixm_own.induct)
  case (ixm_block plan n m err ti')
  then show ?case using ix_wf_block by (simp add: ix_wf_setLast)
next
  case (ixm_init m batch srt getInitializedTicks getTickBitmap ids ti')
  have "\<forall>(e, b, t) \<in> set (initializePools_fetch getTickBitmap getInitializedTicks batch). \<forall>ts. t = Inr ts \<longrightarrow> distinct (map tiIndex ts)"
  proof (clarify)
    fix k p b ts assume x: "((k, p), b, Inr ts) \<in> set (initializePools_fetch getTickBitmap getInitializedTicks batch)"
    show "distinct (map tiIndex ts)" using initializePools_fetch_items [OF x] ixm_init(3) by auto
  qed
  from initializePools_apply_wf [OF ixm_init(5,2) this ixm_init(4)] show ?case by simp
next
  case (ixm_resync srt items m errs ti')
  then show ?case using resyncPools_apply_wf [OF ixm_resync(1) _ ixm_resync(2,3)] by simp
qed (simp_all add: ix_wf_def ix_clearPending_def ix_setLastUpdatedAtBlock_def)

lemma ixm_own_run_wf: "ixm_own\<^sup>*\<^sup>* m m' \<Longrightarrow> ix_wf (ixmSys m) \<Longrightarrow> ix_wf (ixmSys m')"
  by (induction rule: rtranclp_induct) (auto intro: ixm_own_wf)

lemma ixm_step_wf: "ixm_step m m' \<Longrightarrow> ix_wf (ixmSys m) \<Longrightarrow> ix_wf (ixmSys m')"
  by (induction rule: ixm_step.induct) (auto intro: ixm_own_wf ix_wf_Add ix_wf_Remove)

lemma ixm_run_wf: "ixm_step\<^sup>*\<^sup>* ixm_start m \<Longrightarrow> ix_wf (ixmSys m)"
  by (induction rule: rtranclp_induct) (auto intro: ix_wf_start ixm_step_wf)

section \<open>What a resynchronisation achieves\<close>

text \<open>The effect of one item on the ticks of its pool.\<close>

definition resync_one ::
  "(TickInfo list \<Rightarrow> TickInfo list) \<Rightarrow> uint64 \<Rightarrow> TickInfo list \<Rightarrow> uint64 \<times> TickInfo list \<Rightarrow> string + Bitmap \<Rightarrow> string + TickInfo list \<Rightarrow> TickInfo list" where
  "resync_one srt lastUpdate ts snapshot b t =
     (case (b, t) of
        (Inr bitmap, Inr fresh) \<Rightarrow> if fst snapshot = lastUpdate \<and> snd snapshot \<noteq> srt fresh then srt fresh else ts
      | _ \<Rightarrow> ts)"

definition resync_step ::
  "(TickInfo list \<Rightarrow> TickInfo list) \<Rightarrow> (address \<times> uint64 \<times> TickInfo list) \<times> (string + Bitmap) \<times> (string + TickInfo list) \<Rightarrow> TickIndexer \<Rightarrow> TickIndexer" where
  "resync_step srt item ti = snd (resyncPools_apply srt [item] ti)"

lemma resync_step_eq:
  "resync_step srt ((a, sn), b, t) ti =
     (case ixAddressToIndex ti a of
        None \<Rightarrow> ti
      | Some j \<Rightarrow>
          (case (b, t) of
             (Inr bm, Inr fresh) \<Rightarrow>
               if fst sn = ixLastUpdates ti ! j \<and> snd sn \<noteq> srt fresh
               then ti\<lparr>ixTicks := (ixTicks ti)[j := srt fresh], ixBitmap := (ixBitmap ti)[j := bm]\<rparr> else ti
           | _ \<Rightarrow> ti))"
  by (cases sn) (simp add: resync_step_def areTickSlicesEqual_iff split: option.split sum.split)

lemma resyncPools_apply_Cons: "snd (resyncPools_apply srt (item # items) ti) = snd (resyncPools_apply srt items (resync_step srt item ti))"
proof -
  obtain a lu prev b t where "item = ((a, lu, prev), b, t)" by (metis prod.exhaust)
  then show ?thesis by (auto simp: resync_step_def split: option.split sum.split prod.split)
qed

lemma resync_step_nth:
  assumes inv: "ix_inv ti" and i: "i < length (ixId ti)"
  shows "ixTicks (resync_step srt ((a, sn), b, t) ti) ! i =
     (if ixAddress ti ! i = a then resync_one srt (ixLastUpdates ti ! i) (ixTicks ti ! i) sn b t else ixTicks ti ! i)"
proof (cases "ixAddressToIndex ti a")
  case None
  then have "ixAddress ti ! i \<noteq> a" using index_inv_nth [OF ix_invD(7) [OF inv], of i] i ix_invD(1) [OF inv] by auto
  then show ?thesis using None by (simp add: resync_step_eq)
next
  case (Some j)
  have "ixAddressToIndex ti (ixAddress ti ! i) = Some i" "ixAddress ti ! j = a"
    using index_inv_nth [OF ix_invD(7) [OF inv], of i] index_invD [OF ix_invD(7) [OF inv] Some] i ix_invD(1) [OF inv] by simp_all
  then have ij: "ixAddress ti ! i = a \<longleftrightarrow> j = i" using Some by (metis option.inject)
  show ?thesis
  proof (cases "j = i")
    case True
    then show ?thesis using Some ij i ix_invD(2) [OF inv] by (simp add: resync_step_eq resync_one_def split: sum.split) auto
  next
    case False
    then show ?thesis using Some ij by (simp add: resync_step_eq split: sum.split)
  qed
qed

lemma resync_step_spec:
  assumes "slice_sorter tiIndex srt" and "ix_inv ti" and "\<And>ts. snd (snd item) = Inr ts \<Longrightarrow> distinct (map tiIndex ts)"
  shows "ix_inv (resync_step srt item ti)" "same_pools ti (resync_step srt item ti)" "ixLastUpdates (resync_step srt item ti) = ixLastUpdates ti"
proof -
  obtain s b t where item: "item = (s, b, t)" by (cases item)
  have "resyncPools_apply srt [item] ti = (fst (resyncPools_apply srt [item] ti), resync_step srt item ti)" by (simp add: resync_step_def)
  then have "ix_inv (resync_step srt item ti) \<and> same_pools ti (resync_step srt item ti) \<and> ixLastUpdates (resync_step srt item ti) = ixLastUpdates ti"
    by (rule resyncPools_apply_spec [OF assms(1,2), rotated]) (use assms(3) in \<open>simp add: item\<close>)
  then show "ix_inv (resync_step srt item ti)" "same_pools ti (resync_step srt item ti)" "ixLastUpdates (resync_step srt item ti) = ixLastUpdates ti"
    by simp_all
qed

definition resync_item ::
  "((address \<times> uint64 \<times> TickInfo list) \<times> (string + Bitmap) \<times> (string + TickInfo list)) list \<Rightarrow> address \<Rightarrow>
   ((uint64 \<times> TickInfo list) \<times> (string + Bitmap) \<times> (string + TickInfo list)) option" where
  "resync_item items a = map_of (map (\<lambda>item. (fst (fst item), snd (fst item), snd item)) items) a"

lemma resync_item_simps [simp]:
  "resync_item [] a = None" "resync_item (((b, sn), r) # items) a = (if a = b then Some (sn, r) else resync_item items a)"
  "resync_item items a = None \<longleftrightarrow> a \<notin> set (map (\<lambda>item. fst (fst item)) items)"
  by (auto simp: resync_item_def map_of_eq_None_iff image_image)

lemma resyncPools_apply_nth:
  assumes srt: "slice_sorter tiIndex srt" and "ix_inv ti" and "\<forall>(s, b, t) \<in> set items. \<forall>ts. t = Inr ts \<longrightarrow> distinct (map tiIndex ts)"
    and "distinct (map (\<lambda>item. fst (fst item)) items)" and "i < length (ixId ti)"
  shows "ixTicks (snd (resyncPools_apply srt items ti)) ! i =
     (case resync_item items (ixAddress ti ! i) of
        None \<Rightarrow> ixTicks ti ! i | Some (sn, b, t) \<Rightarrow> resync_one srt (ixLastUpdates ti ! i) (ixTicks ti ! i) sn b t)"
  using assms(2-5)
proof (induction items arbitrary: ti)
  case (Cons item items)
  obtain a sn b t where item: "item = ((a, sn), b, t)" by (metis prod.exhaust)
  let ?ti = "resync_step srt item ti"
  have st: "ix_inv ?ti" "same_pools ti ?ti" "ixLastUpdates ?ti = ixLastUpdates ti"
    using resync_step_spec [OF srt Cons.prems(1), of item] Cons.prems(2) by (auto simp: item)
  have same: "ixAddress ?ti = ixAddress ti" "ixId ?ti = ixId ti" using st(2) by (simp_all add: same_pools_def)
  have m: "resync_item items a = None" and d: "distinct (map (\<lambda>item. fst (fst item)) items)" using Cons.prems(3) by (simp_all add: item)
  have items: "\<forall>(s, b, t) \<in> set items. \<forall>ts. t = Inr ts \<longrightarrow> distinct (map tiIndex ts)" using Cons.prems(2) by simp
  have ih: "ixTicks (snd (resyncPools_apply srt items ?ti)) ! i = (case resync_item items (ixAddress ti ! i) of
      None \<Rightarrow> ixTicks ?ti ! i | Some (sn, b, t) \<Rightarrow> resync_one srt (ixLastUpdates ti ! i) (ixTicks ?ti ! i) sn b t)"
    using Cons.IH [OF st(1) items d] Cons.prems(4) unfolding same st(3) .
  have one: "ixTicks ?ti ! i = (if ixAddress ti ! i = a then resync_one srt (ixLastUpdates ti ! i) (ixTicks ti ! i) sn b t else ixTicks ti ! i)"
    unfolding item by (rule resync_step_nth [OF Cons.prems(1,4)])
  show ?case
  proof (cases "ixAddress ti ! i = a")
    case True
    then show ?thesis unfolding resyncPools_apply_Cons ih using one m by (simp add: item del: resync_item_simps(3))
  next
    case False
    then have "ixTicks ?ti ! i = ixTicks ti ! i" using one by simp
    then show ?thesis unfolding resyncPools_apply_Cons ih using False by (simp add: item del: resync_item_simps(3) split: option.split)
  qed
qed simp

lemma resync_item_snapshot:
  assumes "ix_inv ti" and "length bms = length (ixId ti)" and "length data = length (ixId ti)"
  defines "items \<equiv> zip (resync_snapshot ti) (zip bms data)"
  shows "distinct (map (\<lambda>item. fst (fst item)) items)"
    and "i < length (ixId ti) \<Longrightarrow> resync_item items (ixAddress ti ! i) = Some ((ixLastUpdates ti ! i, ixTicks ti ! i), bms ! i, data ! i)"
proof -
  note d = ix_invD [OF assms(1)]
  have as: "map (\<lambda>item. fst (fst item)) items = ixAddress ti"
    using d assms(2,3) by (intro nth_equalityI) (simp_all add: items_def resync_snapshot_def)
  show "distinct (map (\<lambda>item. fst (fst item)) items)" unfolding as by (rule index_inv_distinct [OF d(7)])
  have "map (\<lambda>item. (fst (fst item), snd (fst item), snd item)) items = zip (ixAddress ti) (zip (zip (ixLastUpdates ti) (ixTicks ti)) (zip bms data))"
    using d assms(2,3) by (intro nth_equalityI) (simp_all add: items_def resync_snapshot_def)
  then show "resync_item items (ixAddress ti ! i) = Some ((ixLastUpdates ti ! i, ixTicks ti ! i), bms ! i, data ! i)" if "i < length (ixId ti)"
    using that d assms(2,3) index_inv_distinct [OF d(7)] by (simp add: resync_item_def map_of_zip_nth)
qed

section \<open>Properties\<close>

text \<open>A run with one pool: it is added, and its two ticks are fetched out of order.\<close>

definition wit_pend :: "(uint64, pending_init) gomap" where
  "wit_pend = [(1, \<lparr>piAddress = [9], piSpacing = 60\<rparr>)]"

lemma wit_init_apply:
  "initializePools_apply (sort_key tiIndex) (initializePools_fetch (\<lambda>_ _. [Inr []]) (\<lambda>_ _ _. [Inr [wit_tick 60, wit_tick (-60)]]) wit_pend)
     (NewTickIndexer\<lparr>ixPendingInit := wit_pend\<rparr>) = ([1], (wit_ix [wit_tick (-60), wit_tick 60])\<lparr>ixPendingInit := wit_pend\<rparr>)"
  by (simp add: initializePools_fetch_def wit_pend_def init_successes_def List.map_filter_def init_tick_results_def addressToOriginalIndex_def
      NewTickIndexer_def ix_track_def wit_ix_def wit_tick_def)

lemma wit_ix_reachable: "ixm_step\<^sup>*\<^sup>* ixm_start \<lparr>ixmSys = wit_ix [wit_tick (-60), wit_tick 60], ixmBatch = None, ixmDone = None\<rparr>"
proof -
  let ?s1 = "ixm_start\<lparr>ixmSys := NewTickIndexer\<lparr>ixPendingInit := wit_pend\<rparr>\<rparr>"
  let ?s2 = "?s1\<lparr>ixmBatch := Some wit_pend\<rparr>"
  let ?t3 = "(wit_ix [wit_tick (-60), wit_tick 60])\<lparr>ixPendingInit := wit_pend\<rparr>"
  let ?s3 = "?s2\<lparr>ixmSys := ?t3, ixmBatch := None, ixmDone := Some [1]\<rparr>"
  have s1: "ixm_step ixm_start ?s1"
    by (rule ixm_add [where pool = 1 and addr = "[9]" and sp = 60])
      (simp_all add: ixm_start_def ix_Add_def NewTickIndexer_def wit_pend_def)
  have s2: "ixm_step ?s1 ?s2" using ixm_run [OF ixm_batch [of ?s1 "\<lambda>m. m"]] by (simp add: ixm_start_def init_batch_def)
  have s3: "ixm_step ?s2 ?s3"
  proof (rule ixm_run, rule ixm_init [where srt = "sort_key tiIndex" and getTickBitmap = "\<lambda>_ _. [Inr []]" and
          getInitializedTicks = "\<lambda>_ _ _. [Inr [wit_tick 60, wit_tick (-60)]]"])
    show "distinct (map tiIndex ts)" if "Inr ts \<in> set [Inr [wit_tick 60, wit_tick (-60)]]" for ts using that by (auto simp: wit_tick_def)
    show "initializePools_apply (sort_key tiIndex) (initializePools_fetch (\<lambda>_ _. [Inr []]) (\<lambda>_ _ _. [Inr [wit_tick 60, wit_tick (-60)]]) wit_pend) (ixmSys ?s2) =
        ([1], ?t3)" using wit_init_apply by (simp add: ixm_start_def)
  qed (simp_all add: slice_sorter_sort_key)
  have "ixm_step ?s3 (?s3\<lparr>ixmSys := ix_clearPending [1] (ixmSys ?s3), ixmDone := None\<rparr>)" by (rule ixm_run, rule ixm_clear) simp
  then have "ixm_step ?s3 \<lparr>ixmSys = wit_ix [wit_tick (-60), wit_tick 60], ixmBatch = None, ixmDone = None\<rparr>"
    by (simp add: ixm_start_def ix_clearPending_def wit_pend_def wit_ix_def)
  then show ?thesis using s1 s2 s3 by (meson converse_rtranclp_into_rtranclp rtranclp.rtrancl_refl)
qed



text \<open>
  C26: A resynchronisation. If between its snapshot and its write lock a pool was not updated by a block, the pool has afterwards exactly the
  ticks that were fetched, sorted; if it was updated, its ticks are left alone, so fetched data never overwrites the data of
  a block that came later.
\<close>

theorem resync_corrects:
  assumes "ix_inv ti" and "ix_inv ti2" and "slice_sorter tiIndex srt"
    and "resync_fetch gb gt ti = zip (resync_snapshot ti) (zip bms data)" and "length bms = length (ixId ti)" and "length data = length (ixId ti)"
    and "\<forall>ts. Inr ts \<in> set data \<longrightarrow> distinct (map tiIndex ts)"
    and "ixIdToIndex ti k = Some i" and "ixIdToIndex ti2 k = Some j" and "ixAddress ti2 ! j = ixAddress ti ! i"
    and "bms ! i = Inr bm" and "data ! i = Inr fresh"
  shows "let ti' = snd (resyncPools_apply srt (resync_fetch gb gt ti) ti2) in
    (if ixLastUpdates ti2 ! j \<noteq> ixLastUpdates ti ! i then ix_Get k ti' = ix_Get k ti2
     else ix_Get k ti2 = ix_Get k ti \<longrightarrow> ix_Get k ti' = Inr (srt fresh))"
proof -
  let ?items = "zip (resync_snapshot ti) (zip bms data)"
  let ?ti = "snd (resyncPools_apply srt ?items ti2)"
  note it = resync_item_snapshot [OF assms(1,5,6)]
  have i: "i < length (ixId ti)" and j: "j < length (ixId ti2)"
    using index_invD [OF ix_invD(6) [OF assms(1)] assms(8)] index_invD [OF ix_invD(6) [OF assms(2)] assms(9)] by simp_all
  have items: "\<forall>(s, b, t) \<in> set ?items. \<forall>ts. t = Inr ts \<longrightarrow> distinct (map tiIndex ts)"
    using assms(7) by (auto dest!: set_zip_rightD)
  have same: "same_pools ti2 ?ti" using resyncPools_apply_spec [OF assms(3,2) items] by (metis prod.collapse)
  have "ixTicks ?ti ! j = resync_one srt (ixLastUpdates ti2 ! j) (ixTicks ti2 ! j) (ixLastUpdates ti ! i, ixTicks ti ! i) (Inr bm) (Inr fresh)"
    using resyncPools_apply_nth [OF assms(3,2) items it(1) j] it(2) [OF i] assms(10-12) by simp
  moreover have "ix_Get k ?ti = Inr (ixTicks ?ti ! j)" using same assms(9) by (simp add: ix_Get_nth same_pools_def)
  ultimately show ?thesis using ix_Get_nth [OF assms(8)] ix_Get_nth [OF assms(9)]
    by (simp add: assms(4) Let_def resync_one_def)
qed

theorem resync_corrects_witness:
  "ix_Get 1 (snd (resyncPools_apply (sort_key tiIndex)
     (resync_fetch (\<lambda>_ _. [Inr []]) (\<lambda>_ _ _. [Inr [wit_tick 60, wit_tick 0]]) (wit_ix [wit_tick 60])) (wit_ix [wit_tick 60]))) = Inr [wit_tick 0, wit_tick 60]"
proof -
  have inv: "ix_inv (wit_ix [wit_tick 60])" by (rule wit_ix_inv) (simp add: strict_ticks_def)
  have "resync_fetch (\<lambda>_ _. [Inr []]) (\<lambda>_ _ _. [Inr [wit_tick 60, wit_tick 0]]) (wit_ix [wit_tick 60]) =
      zip (resync_snapshot (wit_ix [wit_tick 60])) (zip [Inr []] [Inr [wit_tick 60, wit_tick 0]])"
    by (simp add: resync_fetch_def wit_ix_def)
  from resync_corrects [OF inv inv slice_sorter_sort_key this, of 1 0 0 "[]" "[wit_tick 60, wit_tick 0]"] show ?thesis
    by (simp add: wit_ix_def) (simp add: wit_tick_def)
qed

text \<open>
  \<^verbatim>\<open>Remove\<close> looks only at the tracked pools. A pool that is removed while it still waits for its initialization stays in the queue and is
  tracked later; when its address is registered again under a new identifier, the two entries share the
  address, the ticks fetched for the new pool are lost, and later updates reach only the removed pool.
\<close>

definition pending_pair :: TickIndexer where
  "pending_pair = NewTickIndexer\<lparr>ixPendingInit := [(1, \<lparr>piAddress = [9], piSpacing = 60\<rparr>), (2, \<lparr>piAddress = [9], piSpacing = 60\<rparr>)]\<rparr>"

definition shadowed :: TickIndexer where
  "shadowed = snd (initializePools_apply (sort_key tiIndex)
     (initializePools_fetch (\<lambda>as _. map (\<lambda>_. Inr []) as) (\<lambda>as _ _. map (\<lambda>_. Inr [wit_tick 60]) as) (init_batch rev pending_pair)) pending_pair)"

lemma removed_pending_pool_shadows:
  "\<exists>t1. ix_Add 1 [9] 60 NewTickIndexer = Inr t1 \<and> ix_Remove 1 t1 = Inl ErrPoolNotTracked \<and> ix_Add 2 [9] 60 t1 = Inr pending_pair"
  "ix_Get 1 shadowed = Inr [wit_tick 60]" "ix_Get 2 shadowed = Inr []"
  "ix_Get 2 (applyTickUpdates [([9], [wit_tick 120])] 7 shadowed) = Inr []"
proof -
  show "\<exists>t1. ix_Add 1 [9] 60 NewTickIndexer = Inr t1 \<and> ix_Remove 1 t1 = Inl ErrPoolNotTracked \<and> ix_Add 2 [9] 60 t1 = Inr pending_pair"
    by (simp add: ix_Add_def ix_Remove_def NewTickIndexer_def pending_pair_def)
  have s: "shadowed = pending_pair\<lparr>ixId := [2, 1], ixAddress := [[9], [9]], ixTicks := [[], [wit_tick 60]], ixBitmap := [[], []], ixSpacing := [60, 60],
      ixLastUpdates := [0, 0], ixIdToIndex := [2 \<mapsto> 0, 1 \<mapsto> 1], ixAddressToIndex := [[9] \<mapsto> 1]\<rparr>"
    by (simp add: shadowed_def pending_pair_def init_batch_def initializePools_fetch_def init_successes_def List.map_filter_def init_tick_results_def
        addressToOriginalIndex_def NewTickIndexer_def ix_track_def)
  show "ix_Get 1 shadowed = Inr [wit_tick 60]" "ix_Get 2 shadowed = Inr []" by (simp_all add: s ix_Get_def ix_copy_id)
  show "ix_Get 2 (applyTickUpdates [([9], [wit_tick 120])] 7 shadowed) = Inr []" by (simp add: s ix_Get_def)
qed

end
