(* ===== verification/UniswapV3_System.thy ===== *)
theory UniswapV3_System
  imports Tick_Indexer_Run Pool_Upkeep Engine
begin

text \<open>
  The Uniswap V3 system (\<^verbatim>\<open>src/protocols/uniswap-v3/system.go\<close>, \<^verbatim>\<open>protocol.go\<close>): a registry behind a mutex with a cached view that is enriched with
  the ticks of the tick indexer, and the goroutines that work on it. The sections under the mutex are functions on the
  system and on the indexer they call; the step relation at the end interleaves them with the goroutines of the
  indexer. As in the Uniswap V2 system, parallel slices of the dependencies are lists of records, and the resolution of addresses,
  the RPC calls and the registration of pools are arguments. A section calls the indexer several times while the goroutines of the indexer
  go on: \<open>go k\<close> is what they do before the \<open>k\<close>-th call from the end of a loop.
\<close>

section \<open>State\<close>

datatype v3_sys_error =
    V3InitializationError uint64 string address
  | V3InitAddError uint64 v3_error address
  | V3InitStateError uint64 v3_error address
  | V3RegistrationError uint64 string address address address
  | V3TickIndexingAdd indexer_error address uint64
  | V3TickIndexingGet indexer_error uint64
  | V3DataConsistency0 address address
  | V3DataConsistency1 address address
  | V3UpdateError uint64 v3_error address uint64 int int int

datatype v3_delete_error = V3DeleteErr v3_error | V3DeleteTickErr uint64 indexer_error

record UniswapV3System =
  v3sRegistry :: UniswapV3Registry
  v3sCachedView :: "V3PoolView list"
  v3sLastUpdatedAtBlock :: uint64
  v3sPendingInit :: "address list"

definition NewUniswapV3System :: UniswapV3System where
  "NewUniswapV3System = \<lparr>v3sRegistry = NewUniswapV3Registry, v3sCachedView = [], v3sLastUpdatedAtBlock = 0, v3sPendingInit = []\<rparr>"

text \<open>
  \<^verbatim>\<open>updateCachedView\<close>: \<open>get\<close> is what the calls of \<^verbatim>\<open>tickIndexer.Get\<close> return; a pool without ticks gets none and its error is handed to the error
  handler.
\<close>

definition v3_enrich :: "(uint64 \<Rightarrow> indexer_error + TickInfo list) \<Rightarrow> PoolViewMinimal \<Rightarrow> V3PoolView" where
  "v3_enrich get minimalView =
     PoolViewMinimal.extend minimalView \<lparr>v3Ticks = (case get (v3ID minimalView) of Inl err \<Rightarrow> [] | Inr tickInfo \<Rightarrow> tickInfo)\<rparr>"

definition v3s_updateCachedView :: "(uint64 \<Rightarrow> indexer_error + TickInfo list) \<Rightarrow> UniswapV3System \<Rightarrow> v3_sys_error list \<times> UniswapV3System" where
  "v3s_updateCachedView get s =
     (let minimalViews = v3_viewRegistry (v3sRegistry s) in
      (List.map_filter (\<lambda>mv. case get (v3ID mv) of Inl err \<Rightarrow> Some (V3TickIndexingGet err (v3ID mv)) | Inr _ \<Rightarrow> None) minimalViews,
       s\<lparr>v3sCachedView := map (v3_enrich get) minimalViews\<rparr>))"

definition v3s_View :: "UniswapV3System \<Rightarrow> V3PoolView list" where
  "v3s_View s = (if v3sCachedView s = [] then [] else map v3_deepCopyPool (v3sCachedView s))"

definition v3s_LastUpdatedAtBlock :: "UniswapV3System \<Rightarrow> uint64" where
  "v3s_LastUpdatedAtBlock s = v3sLastUpdatedAtBlock s"

definition v3s_setLastUpdatedAtBlock :: "uint64 \<Rightarrow> UniswapV3System \<Rightarrow> UniswapV3System" where
  "v3s_setLastUpdatedAtBlock blockNum s = s\<lparr>v3sLastUpdatedAtBlock := blockNum\<rparr>"

definition v3_protocol :: "string \<Rightarrow> UniswapV3System \<Rightarrow> protocol_obs" where
  "v3_protocol systemName s = \<lparr>obMeta = \<lparr>pmName = systemName, pmTags = []\<rparr>, obView = Inr (V3Data (v3s_View s), UniswapV3ProtocolSchema),
     obSchema = UniswapV3ProtocolSchema, obLastUpdatedAtBlock = v3s_LastUpdatedAtBlock s\<rparr>"

section \<open>Updates\<close>

record pool_info =
  inTick :: int
  inLiquidity :: int
  inSqrtPriceX96 :: int
  inFee :: uint64

fun v3_updatePools ::
  "(address \<Rightarrow> uint64 option) \<Rightarrow> uint64 \<Rightarrow> (address \<times> pool_info) list \<Rightarrow> UniswapV3Registry \<Rightarrow> v3_sys_error list \<times> UniswapV3Registry" where
  "v3_updatePools poolAddressToID blockNumber [] r = ([], r)"
| "v3_updatePools poolAddressToID blockNumber ((poolAddr, info) # us) r =
     (case poolAddressToID poolAddr of
        None \<Rightarrow> v3_updatePools poolAddressToID blockNumber us r
      | Some poolID \<Rightarrow>
          if \<not> v3_hasPool poolID r then v3_updatePools poolAddressToID blockNumber us r
          else (case v3_updatePool poolID (inFee info) (inTick info) (inLiquidity info) (inSqrtPriceX96 info) r of
                  Inl err \<Rightarrow> (let (errs, r') = v3_updatePools poolAddressToID blockNumber us r in
                     (V3UpdateError blockNumber err poolAddr poolID (inTick info) (inLiquidity info) (inSqrtPriceX96 info) # errs, r'))
                | Inr r' \<Rightarrow> v3_updatePools poolAddressToID blockNumber us r'))"

text \<open>The part of \<^verbatim>\<open>handleNewBlock\<close> before the lock; \<^verbatim>\<open>poolsToFetch\<close> is a map, so an address is fetched once.\<close>

definition v3_fetch ::
  "(address, uint64) range_order \<Rightarrow> (uint64 \<Rightarrow> address option) \<Rightarrow> (address list \<Rightarrow> (string + pool_info) list) \<Rightarrow> V3PoolView list \<Rightarrow>
   string list \<times> (address \<times> pool_info) list" where
  "v3_fetch ord poolIDToAddress getPoolInfo prevView =
     (let poolsToFetch = foldl (\<lambda>m pool. case poolIDToAddress (v3ID pool) of None \<Rightarrow> m | Some addr \<Rightarrow> AList.update addr (v3ID pool) m) [] prevView in
      if poolsToFetch = [] then ([], [])
      else let addrsToFetch = map fst (ord poolsToFetch); res = zip addrsToFetch (getPoolInfo addrsToFetch) in
        (List.map_filter (\<lambda>(addr, r). case r of Inl err \<Rightarrow> Some err | Inr _ \<Rightarrow> None) res,
         List.map_filter (\<lambda>(addr, r). case r of Inl err \<Rightarrow> None | Inr info \<Rightarrow> Some (addr, info)) res))"

definition v3_block_apply :: "(address \<Rightarrow> uint64 option) \<Rightarrow> uint64 \<Rightarrow> (address \<times> pool_info) list \<Rightarrow> UniswapV3System \<Rightarrow> UniswapV3System" where
  "v3_block_apply poolAddressToID blockNum us s =
     v3s_setLastUpdatedAtBlock blockNum (s\<lparr>v3sRegistry := snd (v3_updatePools poolAddressToID blockNum us (v3sRegistry s))\<rparr>)"

section \<open>Logs\<close>

fun v3_mark_updated :: "(address \<Rightarrow> uint64 option) \<Rightarrow> uint64 \<Rightarrow> address list \<Rightarrow> UniswapV3Registry \<Rightarrow> UniswapV3Registry" where
  "v3_mark_updated poolAddressToID blockTime [] r = r"
| "v3_mark_updated poolAddressToID blockTime (poolAddr # as) r =
     (case poolAddressToID poolAddr of
        None \<Rightarrow> v3_mark_updated poolAddressToID blockTime as r
      | Some poolID \<Rightarrow>
          if \<not> v3_hasPool poolID r then v3_mark_updated poolAddressToID blockTime as r
          else v3_mark_updated poolAddressToID blockTime as
                 (case v3_setLastUpdatedAt poolID blockTime r of Inl err \<Rightarrow> r | Inr r' \<Rightarrow> r'))"

definition v3_apply_logs :: "(address \<Rightarrow> uint64 option) \<Rightarrow> uint64 \<Rightarrow> address list \<Rightarrow> address list \<Rightarrow> UniswapV3System \<Rightarrow> UniswapV3System" where
  "v3_apply_logs poolAddressToID blockTime updatedInBlock discovered s =
     s\<lparr>v3sRegistry := v3_mark_updated poolAddressToID blockTime updatedInBlock (v3sRegistry s),
       v3sPendingInit := queue_discovered poolAddressToID discovered (v3sPendingInit s)\<rparr>"

definition v3_handleBlockLogs ::
  "(address, unit) range_order \<Rightarrow> (string + 'client) \<Rightarrow> ('client \<Rightarrow> string + 'log list) \<Rightarrow> ('log list \<Rightarrow> string + address list) \<Rightarrow>
   ('log list \<Rightarrow> address list) \<Rightarrow> ('log list \<Rightarrow> string + address list) \<Rightarrow> (address \<Rightarrow> uint64 option) \<Rightarrow> uint64 \<Rightarrow> UniswapV3System \<Rightarrow>
   string option \<times> UniswapV3System" where
  "v3_handleBlockLogs ord getClient getLogs swapsInBlock mintsAndBurnsInBlock discoverPools poolAddressToID blockTime s =
     (case getClient of
        Inl err \<Rightarrow> (Some err, s)
      | Inr client \<Rightarrow>
          (case getLogs client of
             Inl err \<Rightarrow> (Some err, s)
           | Inr logs \<Rightarrow>
               (case swapsInBlock logs of
                  Inl err \<Rightarrow> (Some err, s)
                | Inr addrs \<Rightarrow>
                    (case discoverPools logs of
                       Inl err \<Rightarrow> (Some err, s)
                     | Inr discovered \<Rightarrow>
                         (let updatedInBlock = foldl (\<lambda>m addr. AList.update addr () m) [] (addrs @ mintsAndBurnsInBlock logs)
                          in (None, v3_apply_logs poolAddressToID blockTime (map fst (ord updatedInBlock)) discovered s))))))"

lemma v3_handleBlockLogs_cases:
  "v3_handleBlockLogs ord getClient getLogs swaps mints discoverPools idOf t s = (err, s') \<Longrightarrow>
   (if err = None then \<exists>updated discovered. s' = v3_apply_logs idOf t updated discovered s else s' = s)"
  by (auto simp: v3_handleBlockLogs_def Let_def split: sum.splits)

section \<open>Initialization\<close>

record v3_init_item =
  v3iToken0 :: address
  v3iToken1 :: address
  v3iFee :: uint64
  v3iTickSpacing :: uint64
  v3iTick :: int
  v3iLiquidity :: int
  v3iSqrtPriceX96 :: int
  v3iErr :: "string option"

fun v3_init_filter :: "uint64 \<Rightarrow> (address \<times> v3_init_item) list \<Rightarrow> v3_sys_error list \<times> (address \<times> v3_init_item) list" where
  "v3_init_filter blockNumber [] = ([], [])"
| "v3_init_filter blockNumber ((poolAddr, it) # ps) =
     (let (errs, valid) = v3_init_filter blockNumber ps in
      case v3iErr it of
        Some err \<Rightarrow> (V3InitializationError blockNumber err poolAddr # errs, valid)
      | None \<Rightarrow> (errs, (poolAddr, it) # valid))"

fun v3_init_registration_errors :: "uint64 \<Rightarrow> ((address \<times> v3_init_item) \<times> uint64 \<times> string option) list \<Rightarrow> v3_sys_error list" where
  "v3_init_registration_errors blockNumber [] = []"
| "v3_init_registration_errors blockNumber (((poolAddr, it), poolID, regErr) # ps) =
     (case regErr of
        Some err \<Rightarrow> V3RegistrationError blockNumber err poolAddr (v3iToken0 it) (v3iToken1 it) # v3_init_registration_errors blockNumber ps
      | None \<Rightarrow> v3_init_registration_errors blockNumber ps)"

text \<open>
  One registered pool: it is queued in the tick indexer, its tokens are resolved, it is added and its state set. The error,
  if any, ends the work on this pool only; what was done before it stays.
\<close>

definition v3_init_one ::
  "(address \<Rightarrow> uint64 option) \<Rightarrow> uint64 \<Rightarrow> address \<Rightarrow> v3_init_item \<Rightarrow> uint64 \<Rightarrow> UniswapV3Registry \<times> TickIndexer \<Rightarrow>
   v3_sys_error option \<times> UniswapV3Registry \<times> TickIndexer" where
  "v3_init_one tokenAddressToID blockNumber poolAddr it poolID st =
     (case st of (r, ti) \<Rightarrow>
        (case ix_Add poolID poolAddr (v3iTickSpacing it) ti of
           Inl err \<Rightarrow> (Some (V3TickIndexingAdd err poolAddr poolID), r, ti)
         | Inr ti1 \<Rightarrow>
             (case tokenAddressToID (v3iToken0 it) of
                None \<Rightarrow> (Some (V3DataConsistency0 poolAddr (v3iToken0 it)), r, ti1)
              | Some token0ID \<Rightarrow>
                  (case tokenAddressToID (v3iToken1 it) of
                     None \<Rightarrow> (Some (V3DataConsistency1 poolAddr (v3iToken1 it)), r, ti1)
                   | Some token1ID \<Rightarrow>
                       (case v3_addPool poolID token0ID token1ID (v3iFee it) (v3iTickSpacing it) r of
                          Inl err \<Rightarrow> (Some (V3InitAddError blockNumber err poolAddr), r, ti1)
                        | Inr r1 \<Rightarrow>
                            (case v3_updatePool poolID (v3iFee it) (v3iTick it) (v3iLiquidity it) (v3iSqrtPriceX96 it) r1 of
                               Inl err \<Rightarrow> (Some (V3InitStateError blockNumber err poolAddr), r1, ti1)
                             | Inr r2 \<Rightarrow> (None, r2, ti1)))))))"

fun v3_init_add ::
  "(nat \<Rightarrow> IxMachine \<Rightarrow> IxMachine) \<Rightarrow> (address \<Rightarrow> uint64 option) \<Rightarrow> uint64 \<Rightarrow> ((address \<times> v3_init_item) \<times> uint64 \<times> string option) list \<Rightarrow>
   UniswapV3Registry \<times> IxMachine \<Rightarrow> v3_sys_error list \<times> UniswapV3Registry \<times> IxMachine" where
  "v3_init_add go tokenAddressToID blockNumber [] st = ([], st)"
| "v3_init_add go tokenAddressToID blockNumber (((poolAddr, it), poolID, regErr) # ps) (r, M) =
     (if regErr \<noteq> None then v3_init_add go tokenAddressToID blockNumber ps (r, M)
      else let M0 = go (length ps) M;
               (err, r1, ti1) = v3_init_one tokenAddressToID blockNumber poolAddr it poolID (r, ixmSys M0);
               (errs, st2) = v3_init_add go tokenAddressToID blockNumber ps (r1, M0\<lparr>ixmSys := ti1\<rparr>) in
           (case err of None \<Rightarrow> errs | Some e \<Rightarrow> e # errs, st2))"

definition v3_applyInitializations ::
  "(nat \<Rightarrow> IxMachine \<Rightarrow> IxMachine) \<Rightarrow> (address \<Rightarrow> uint64 option) \<Rightarrow> ((address \<times> v3_init_item) list \<Rightarrow> (uint64 \<times> string option) list) \<Rightarrow> uint64 \<Rightarrow>
   (address \<times> v3_init_item) list \<Rightarrow> UniswapV3Registry \<times> IxMachine \<Rightarrow> v3_sys_error list \<times> UniswapV3Registry \<times> IxMachine" where
  "v3_applyInitializations go tokenAddressToID registerPools blockNumber pools st =
     (if pools = [] then ([], st)
      else let (errs, valid) = v3_init_filter blockNumber pools in
        if valid = [] then (errs, st)
        else let regs = zip valid (registerPools valid);
                 (addErrs, st') = v3_init_add go tokenAddressToID blockNumber regs st
             in (errs @ v3_init_registration_errors blockNumber regs @ addErrs, st'))"

definition v3_drainPending :: "UniswapV3System \<Rightarrow> address list \<times> UniswapV3System" where
  "v3_drainPending s = (v3sPendingInit s, s\<lparr>v3sPendingInit := []\<rparr>)"

definition v3_runInitializations ::
  "(nat \<Rightarrow> IxMachine \<Rightarrow> IxMachine) \<Rightarrow> (address \<Rightarrow> uint64 option) \<Rightarrow> ((address \<times> v3_init_item) list \<Rightarrow> (uint64 \<times> string option) list) \<Rightarrow>
   (IxMachine \<Rightarrow> uint64 \<Rightarrow> indexer_error + TickInfo list) \<Rightarrow>
   (address \<times> v3_init_item) list \<Rightarrow> UniswapV3System \<times> IxMachine \<Rightarrow> v3_sys_error list \<times> UniswapV3System \<times> IxMachine" where
  "v3_runInitializations go tokenAddressToID registerPools get pools st =
     (case st of (s, M) \<Rightarrow>
        let (initErrors, r, M') = v3_applyInitializations go tokenAddressToID registerPools 0 pools (v3sRegistry s, M);
            s' = s\<lparr>v3sRegistry := r\<rparr>;
            successfulInits = int (length pools) - int (length initErrors) in
        (initErrors, if successfulInits > 0 then snd (v3s_updateCachedView (get M') s') else s', M'))"

section \<open>Pruning\<close>

definition v3_poolsToDelete :: "(uint64, uint64) range_order \<Rightarrow> int \<Rightarrow> int \<Rightarrow> UniswapV3Registry \<Rightarrow> uint64 list" where
  "v3_poolsToDelete ord now maxInactive r = prune_selection ord now maxInactive (v3_getLastUpdatedAtMap r)"

fun v3_delete_loop ::
  "(nat \<Rightarrow> IxMachine \<Rightarrow> IxMachine) \<Rightarrow> uint64 list \<Rightarrow> UniswapV3Registry \<times> IxMachine \<Rightarrow>
   v3_delete_error option list \<times> uint64 list \<times> UniswapV3Registry \<times> IxMachine" where
  "v3_delete_loop go [] st = ([], [], st)"
| "v3_delete_loop go (poolID # ids) (r, M) =
     (case v3_deletePool poolID r of
        Inl err \<Rightarrow> (let (errs, deleted, st') = v3_delete_loop go ids (r, M) in (Some (V3DeleteErr err) # errs, deleted, st'))
      | Inr r1 \<Rightarrow>
          (let M0 = go (length ids) M in
           case ix_Remove poolID (ixmSys M0) of
             Inl err \<Rightarrow> (let (errs, deleted, st') = v3_delete_loop go ids (r1, M0) in (Some (V3DeleteTickErr poolID err) # errs, poolID # deleted, st'))
           | Inr ti1 \<Rightarrow> (let (errs, deleted, st') = v3_delete_loop go ids (r1, M0\<lparr>ixmSys := ti1\<rparr>) in (None # errs, poolID # deleted, st'))))"

definition v3_deletePools ::
  "(nat \<Rightarrow> IxMachine \<Rightarrow> IxMachine) \<Rightarrow> (IxMachine \<Rightarrow> uint64 \<Rightarrow> indexer_error + TickInfo list) \<Rightarrow> uint64 list \<Rightarrow> UniswapV3System \<times> IxMachine \<Rightarrow>
   v3_delete_error option list \<times> uint64 list option \<times> UniswapV3System \<times> IxMachine" where
  "v3_deletePools go get poolIDs st =
     (case st of (s, M) \<Rightarrow>
        let (errs, successfullyDeleted, r, M') = v3_delete_loop go poolIDs (v3sRegistry s, M);
            s' = s\<lparr>v3sRegistry := r\<rparr>;
            s'' = (if successfullyDeleted \<noteq> [] then snd (v3s_updateCachedView (get M') s') else s') in
        (if list_ex (\<lambda>e. e \<noteq> None) errs then errs else [],
         if successfullyDeleted \<noteq> [] then Some successfullyDeleted else None, s'', M'))"

section \<open>The registry\<close>

definition v3_ok :: "(uint64 \<Rightarrow> uint64 \<times> uint64 \<times> uint64) \<Rightarrow> UniswapV3Registry \<Rightarrow> bool" where
  "v3_ok meta r \<longleftrightarrow> v3_inv r \<and> (\<forall>k v. keyed v3ID (v3_viewRegistry r) k = Some v \<longrightarrow> v3_static v = meta k)"

lemma v3_ok_new: "v3_ok meta NewUniswapV3Registry"
  by (simp add: v3_ok_def v3_inv_new)

lemma v3_okD: "v3_ok meta r \<Longrightarrow> v3_inv r"
  by (simp add: v3_ok_def)

definition with_info :: "pool_info option \<Rightarrow> PoolViewMinimal \<Rightarrow> PoolViewMinimal" where
  "with_info i v = (case i of None \<Rightarrow> v | Some x \<Rightarrow>
     v\<lparr>v3Fee := inFee x, v3Tick := inTick x, v3Liquidity := inLiquidity x, v3SqrtPriceX96 := inSqrtPriceX96 x\<rparr>)"

lemma with_info_None [simp]: "with_info None v = v" "map_option (with_info None) x = x"
  by (cases x; simp add: with_info_def)+

lemma with_info_same: "v3ID (with_info i v) = v3ID v" "v3_static (with_info i v) = v3_static v"
  by (simp_all add: with_info_def v3_static_def split: option.split)

lemma with_info_twice: "with_info (Some x) (with_info i v) = with_info (Some x) v"
  by (simp add: with_info_def split: option.split)

text \<open>The last update in a batch for a pool identifier.\<close>

fun latest_info :: "(address \<Rightarrow> uint64 option) \<Rightarrow> (address \<times> pool_info) list \<Rightarrow> uint64 \<Rightarrow> pool_info option" where
  "latest_info idOf [] k = None"
| "latest_info idOf ((a, i) # us) k =
     (case latest_info idOf us k of Some x \<Rightarrow> Some x | None \<Rightarrow> if idOf a = Some k then Some i else None)"

lemma v3_hasPool_keyed: "v3_inv r \<Longrightarrow> v3_hasPool k r \<longleftrightarrow> keyed v3ID (v3_viewRegistry r) k \<noteq> None"
  by (simp add: v3_hasPool_iff keyed_None_iff)

lemma v3_updatePool_succeeds: "v3_hasPool k r \<Longrightarrow> \<exists>r'. v3_updatePool k f t l p r = Inr r'"
  by (auto simp: v3_hasPool_def v3_updatePool_def)

lemma v3_updatePools_spec:
  assumes "v3_inv r" and "v3_updatePools idOf n us r = (errs, r')"
  shows "errs = [] \<and> v3_inv r' \<and> u3ID r' = u3ID r \<and>
     (\<forall>k. keyed v3ID (v3_viewRegistry r') k = map_option (with_info (latest_info idOf us k)) (keyed v3ID (v3_viewRegistry r) k))"
  using assms
proof (induction idOf n us r arbitrary: errs r' rule: v3_updatePools.induct)
  case (1 idOf n r)
  then show ?case by (auto simp: option.map_ident)
next
  case (2 idOf n a i us r)
  show ?case
  proof (cases "\<exists>k. idOf a = Some k \<and> v3_hasPool k r")
    case False
    then have skip: "v3_updatePools idOf n us r = (errs, r')" using "2.prems"(2) by (cases "idOf a") auto
    have same: "map_option (with_info (latest_info idOf ((a, i) # us) k)) (keyed v3ID (v3_viewRegistry r) k) =
        map_option (with_info (latest_info idOf us k)) (keyed v3ID (v3_viewRegistry r) k)" for k
    proof (cases "keyed v3ID (v3_viewRegistry r) k")
      case (Some v)
      then have "idOf a \<noteq> Some k" using False v3_hasPool_keyed [OF "2.prems"(1), of k] by auto
      then show ?thesis by (simp split: option.split)
    qed simp
    have "errs = [] \<and> v3_inv r' \<and> u3ID r' = u3ID r \<and>
        (\<forall>k. keyed v3ID (v3_viewRegistry r') k = map_option (with_info (latest_info idOf us k)) (keyed v3ID (v3_viewRegistry r) k))"
      using "2.IH"(1) [OF _ "2.prems"(1) skip] "2.IH"(2) [OF _ _ "2.prems"(1) skip] False by (cases "idOf a") auto
    then show ?thesis by (simp only: same simp_thms)
  next
    case True
    then obtain j where j: "idOf a = Some j" "v3_hasPool j r" by blast
    obtain r1 where r1: "v3_updatePool j (inFee i) (inTick i) (inLiquidity i) (inSqrtPriceX96 i) r = Inr r1" using v3_updatePool_succeeds [OF j(2)] by blast
    have rest: "v3_updatePools idOf n us r1 = (errs, r')" using "2.prems"(2) j r1 by simp
    show ?thesis
    proof (rule v3_updatePool_spec [OF "2.prems"(1) r1])
      fix v assume v: "keyed v3ID (v3_viewRegistry r) j = Some v" "v3_inv r1"
        "keyed v3ID (v3_viewRegistry r1) = (keyed v3ID (v3_viewRegistry r))
           (j \<mapsto> v\<lparr>v3Fee := inFee i, v3Tick := inTick i, v3Liquidity := inLiquidity i, v3SqrtPriceX96 := inSqrtPriceX96 i\<rparr>)" "u3ID r1 = u3ID r"
      have ih: "errs = [] \<and> v3_inv r' \<and> u3ID r' = u3ID r1 \<and>
          (\<forall>k. keyed v3ID (v3_viewRegistry r') k = map_option (with_info (latest_info idOf us k)) (keyed v3ID (v3_viewRegistry r1) k))"
        using "2.IH"(4) [OF j(1) _ r1 v(2) rest] j(2) by simp
      have "map_option (with_info (latest_info idOf us k)) (keyed v3ID (v3_viewRegistry r1) k) =
          map_option (with_info (latest_info idOf ((a, i) # us) k)) (keyed v3ID (v3_viewRegistry r) k)" for k
        using v(1) j(1) by (auto simp: v(3) with_info_def split: option.split)
      then show ?thesis using ih v(4) by simp
    qed
  qed
qed

lemma v3_updatePools_ok: "v3_ok meta r \<Longrightarrow> v3_ok meta (snd (v3_updatePools idOf n us r))"
  using v3_updatePools_spec [of r idOf n us "fst (v3_updatePools idOf n us r)" "snd (v3_updatePools idOf n us r)"]
  by (auto simp: v3_ok_def with_info_same)

lemma v3_mark_updated_spec:
  "v3_inv r \<Longrightarrow> v3_inv (v3_mark_updated idOf t as r) \<and> v3_viewRegistry (v3_mark_updated idOf t as r) = v3_viewRegistry r"
proof (induction as arbitrary: r)
  case (Cons a as)
  define r1 where "r1 = (case idOf a of None \<Rightarrow> r | Some k \<Rightarrow> if v3_hasPool k r then (case v3_setLastUpdatedAt k t r of Inl err \<Rightarrow> r | Inr r' \<Rightarrow> r') else r)"
  have eq: "v3_mark_updated idOf t (a # as) r = v3_mark_updated idOf t as r1" by (simp add: r1_def split: option.split)
  have "v3_inv r1 \<and> v3_viewRegistry r1 = v3_viewRegistry r"
    using Cons.prems v3_setLastUpdatedAt_spec(1,2) by (auto simp: r1_def split: option.splits sum.splits)
  then show ?case using Cons.IH [of r1] unfolding eq by simp
qed simp

section \<open>Initialization and deletion with the tick indexer\<close>

lemma v3_init_one_spec:
  assumes r: "v3_ok meta r" and ix: "ix_wf ti"
    and mt: "\<And>t0 t1. tokOf (v3iToken0 it) = Some t0 \<Longrightarrow> tokOf (v3iToken1 it) = Some t1 \<Longrightarrow> meta poolID = (t0, t1, v3iTickSpacing it)"
    and call: "v3_init_one tokOf n addr it poolID (r, ti) = (err, r', ti')"
  shows "v3_ok meta r' \<and> ix_wf ti' \<and> (err \<noteq> None \<longrightarrow> r' = r)"
proof (cases "ix_Add poolID addr (v3iTickSpacing it) ti")
  case (Inl e)
  then show ?thesis using call r ix by (auto simp: v3_init_one_def)
next
  case (Inr ti1)
  have ix1: "ix_wf ti1" by (rule ix_wf_Add [OF Inr ix])
  show ?thesis
  proof (cases "\<exists>t0 t1 r1. tokOf (v3iToken0 it) = Some t0 \<and> tokOf (v3iToken1 it) = Some t1 \<and> v3_addPool poolID t0 t1 (v3iFee it) (v3iTickSpacing it) r = Inr r1")
    case False
    then have "r' = r" "ti' = ti1" using call Inr by (auto simp: v3_init_one_def split: option.splits sum.splits)
    then show ?thesis using r ix1 by simp
  next
    case True
    then obtain t0 t1 r1 where t: "tokOf (v3iToken0 it) = Some t0" "tokOf (v3iToken1 it) = Some t1"
      "v3_addPool poolID t0 t1 (v3iFee it) (v3iTickSpacing it) r = Inr r1" by blast
    note a = v3_addPool_spec [OF v3_okD [OF r] t(3)]
    have k1: "keyed v3ID (v3_viewRegistry r1) = (keyed v3ID (v3_viewRegistry r))(poolID \<mapsto> v3_new_pool poolID t0 t1 (v3iFee it) (v3iTickSpacing it))"
      using a(1) by (auto simp: a(3) keyed_concat v3_new_pool_def fun_eq_iff map_add_def split: option.split)
    have ok1: "v3_ok meta r1" using r mt [OF t(1,2)] a(2) by (auto simp: v3_ok_def k1 v3_new_pool_def v3_static_def)
    have "v3_hasPool poolID r1" by (simp add: v3_hasPool_keyed [OF a(2)] k1)
    then obtain r2 where r2: "v3_updatePool poolID (v3iFee it) (v3iTick it) (v3iLiquidity it) (v3iSqrtPriceX96 it) r1 = Inr r2"
      using v3_updatePool_succeeds by blast
    have ok2: "v3_ok meta r2"
      by (rule v3_updatePool_spec [OF a(2) r2]) (use ok1 in \<open>auto simp: v3_ok_def v3_static_def split: if_splits\<close>)
    have "err = None" "r' = r2" "ti' = ti1" using call Inr t r2 by (simp_all add: v3_init_one_def)
    then show ?thesis using ok2 ix1 by simp
  qed
qed

text \<open>What the registration of a batch promises: an identifier stands for the tokens and the spacing that the chain has for its pool.\<close>

definition v3_init_world ::
  "(uint64 \<Rightarrow> uint64 \<times> uint64 \<times> uint64) \<Rightarrow> (address \<Rightarrow> uint64 option) \<Rightarrow> ((address \<times> v3_init_item) \<times> uint64 \<times> string option) list \<Rightarrow> bool" where
  "v3_init_world meta tokOf regs \<longleftrightarrow> (\<forall>((addr, it), poolID, err) \<in> set regs. err = None \<longrightarrow>
     (\<forall>t0 t1. tokOf (v3iToken0 it) = Some t0 \<and> tokOf (v3iToken1 it) = Some t1 \<longrightarrow> meta poolID = (t0, t1, v3iTickSpacing it)))"

text \<open>What the goroutines of the indexer do between the calls of a section.\<close>

definition goes :: "(nat \<Rightarrow> IxMachine \<Rightarrow> IxMachine) \<Rightarrow> bool" where
  "goes go \<longleftrightarrow> (\<forall>k M. ixm_own\<^sup>*\<^sup>* M (go k M))"

lemma goes_wf: "goes go \<Longrightarrow> ix_wf (ixmSys M) \<Longrightarrow> ix_wf (ixmSys (go k M))"
  using ixm_own_run_wf by (auto simp: goes_def)

lemma v3_init_add_spec:
  assumes "v3_ok meta r" and "ix_wf (ixmSys M)" and go: "goes go"
    and "v3_init_world meta tokOf regs" and "v3_init_add go tokOf n regs (r, M) = (errs, r', M')"
  shows "v3_ok meta r' \<and> ix_wf (ixmSys M') \<and>
    (\<exists>added. length errs + length (v3_init_registration_errors n regs) + added = length regs \<and> (added = 0 \<longrightarrow> r' = r))"
  using assms(1,2,4,5)
proof (induction regs arbitrary: r M errs)
  case (Cons reg regs)
  obtain addr it poolID regErr where reg: "reg = ((addr, it), poolID, regErr)" by (metis prod.exhaust)
  have w: "v3_init_world meta tokOf regs" using Cons.prems(3) by (simp add: v3_init_world_def)
  show ?case
  proof (cases regErr)
    case (Some e)
    then have "v3_init_add go tokOf n regs (r, M) = (errs, r', M')" using Cons.prems(4) by (simp add: reg)
    from Cons.IH [OF Cons.prems(1,2) w this] show ?thesis using Some by (auto simp: reg)
  next
    case None
    let ?M = "go (length regs) M"
    obtain err r1 ti1 where one: "v3_init_one tokOf n addr it poolID (r, ixmSys ?M) = (err, r1, ti1)" by (metis prod.exhaust)
    obtain es where rest: "v3_init_add go tokOf n regs (r1, ?M\<lparr>ixmSys := ti1\<rparr>) = (es, r', M')" "errs = (case err of None \<Rightarrow> es | Some e \<Rightarrow> e # es)"
      using Cons.prems(4) one None by (auto simp: reg Let_def split: prod.splits)
    have mt: "\<And>t0 t1. tokOf (v3iToken0 it) = Some t0 \<Longrightarrow> tokOf (v3iToken1 it) = Some t1 \<Longrightarrow> meta poolID = (t0, t1, v3iTickSpacing it)"
      using Cons.prems(3) None by (simp add: v3_init_world_def reg)
    have o: "v3_ok meta r1" "ix_wf (ixmSys (?M\<lparr>ixmSys := ti1\<rparr>))" "err \<noteq> None \<longrightarrow> r1 = r"
      using v3_init_one_spec [OF Cons.prems(1) goes_wf [OF go Cons.prems(2)] mt one] by simp_all
    from Cons.IH [OF o(1,2) w rest(1)] obtain added where ih: "v3_ok meta r'" "ix_wf (ixmSys M')"
      "length es + length (v3_init_registration_errors n regs) + added = length regs" "added = 0 \<longrightarrow> r' = r1" by blast
    have "\<exists>added. length errs + length (v3_init_registration_errors n (reg # regs)) + added = length (reg # regs) \<and> (added = 0 \<longrightarrow> r' = r)"
    proof (cases err)
      case None
      then show ?thesis using ih(3) rest(2) \<open>regErr = None\<close> by (intro exI [of _ "Suc added"]) (simp add: reg)
    next
      case (Some e)
      then show ?thesis using ih(3,4) rest(2) o(3) \<open>regErr = None\<close> by (intro exI [of _ added]) (simp add: reg)
    qed
    then show ?thesis using ih(1,2) by blast
  qed
qed simp

lemma v3_init_filter_length: "v3_init_filter n pools = (errs, valid) \<Longrightarrow> length errs + length valid = length pools"
  by (induction n pools arbitrary: errs valid rule: v3_init_filter.induct) (auto split: option.splits prod.splits)

definition v3_minimal :: "V3PoolView list \<Rightarrow> PoolViewMinimal list" where
  "v3_minimal vs = map PoolViewMinimal.truncate vs"

lemma v3_enrich_minimal [simp]: "v3_minimal (map (v3_enrich get) vs) = vs"
  unfolding v3_minimal_def map_map by (rule map_idI) (simp add: v3_enrich_def PoolViewMinimal.defs)

definition ticks_ok :: "V3PoolView list \<Rightarrow> bool" where
  "ticks_ok vs \<longleftrightarrow> (\<forall>v \<in> set vs. strict_ticks (v3Ticks v))"

definition get_ok :: "(uint64 \<Rightarrow> indexer_error + TickInfo list) \<Rightarrow> bool" where
  "get_ok get \<longleftrightarrow> (\<forall>k ts. get k = Inr ts \<longrightarrow> strict_ticks ts)"

lemma ticks_ok_enrich: "get_ok get \<Longrightarrow> ticks_ok (map (v3_enrich get) vs)"
  by (auto simp: ticks_ok_def get_ok_def v3_enrich_def PoolViewMinimal.defs strict_ticks_def split: sum.splits)

lemma updateCachedView_simps [simp]:
  "v3sRegistry (snd (v3s_updateCachedView get s)) = v3sRegistry s"
  "v3sCachedView (snd (v3s_updateCachedView get s)) = map (v3_enrich get) (v3_viewRegistry (v3sRegistry s))"
  "v3sLastUpdatedAtBlock (snd (v3s_updateCachedView get s)) = v3sLastUpdatedAtBlock s"
  "v3sPendingInit (snd (v3s_updateCachedView get s)) = v3sPendingInit s"
  by (simp_all add: v3s_updateCachedView_def Let_def)

definition cache_ok :: "UniswapV3System \<Rightarrow> bool" where
  "cache_ok s \<longleftrightarrow> ticks_ok (v3sCachedView s) \<and> v3_minimal (v3sCachedView s) = v3_viewRegistry (v3sRegistry s)"

lemma cache_ok_update: "get_ok get \<Longrightarrow> cache_ok (snd (v3s_updateCachedView get s))"
  by (simp add: cache_ok_def ticks_ok_enrich)

lemma v3_runInitializations_spec:
  assumes ok: "v3_ok meta (v3sRegistry s)" and ix: "ix_wf (ixmSys M)" and c: "cache_ok s" and go: "goes go"
    and call: "v3_runInitializations go tokOf registerPools get pools (s, M) = (errs, s', M')"
    and w: "\<And>es valid. v3_init_filter 0 pools = (es, valid) \<Longrightarrow> length (registerPools valid) = length valid \<and>
      v3_init_world meta tokOf (zip valid (registerPools valid))"
  shows "v3_ok meta (v3sRegistry s') \<and> ix_wf (ixmSys M') \<and> (get_ok (get M') \<longrightarrow> cache_ok s')"
proof -
  obtain es valid where f: "v3_init_filter 0 pools = (es, valid)" by (cases "v3_init_filter 0 pools")
  let ?regs = "zip valid (registerPools valid)"
  obtain as r1 M1 where a: "v3_init_add go tokOf 0 ?regs (v3sRegistry s, M) = (as, r1, M1)" by (metis prod.exhaust)
  have ww: "v3_init_world meta tokOf ?regs" "length (registerPools valid) = length valid" using w [OF f] by simp_all
  obtain added where run: "v3_ok meta r1" "ix_wf (ixmSys M1)"
      "length as + length (v3_init_registration_errors 0 ?regs) + added = length ?regs" "added = 0 \<longrightarrow> r1 = v3sRegistry s"
    using v3_init_add_spec [OF ok ix go ww(1) a] by auto
  show ?thesis
  proof (cases "pools = [] \<or> valid = []")
    case True
    then have "v3_applyInitializations go tokOf registerPools 0 pools (v3sRegistry s, M) = (es, v3sRegistry s, M)"
      using f by (auto simp: v3_applyInitializations_def)
    moreover have "length pools = length es" using True v3_init_filter_length [OF f] by auto
    ultimately show ?thesis using call ok ix c by (auto simp: v3_runInitializations_def Let_def)
  next
    case False
    then have ap: "v3_applyInitializations go tokOf registerPools 0 pools (v3sRegistry s, M) = (es @ v3_init_registration_errors 0 ?regs @ as, r1, M1)"
      using f a by (simp add: v3_applyInitializations_def Let_def)
    have n: "int (length pools) - int (length (es @ v3_init_registration_errors 0 ?regs @ as)) = int added"
      using v3_init_filter_length [OF f] ww(2) run(3) by simp
    have st: "M' = M1" "s' = (if added = 0 then s\<lparr>v3sRegistry := r1\<rparr> else snd (v3s_updateCachedView (get M1) (s\<lparr>v3sRegistry := r1\<rparr>)))"
      using call n by (auto simp: v3_runInitializations_def ap Let_def split: if_splits)
    show ?thesis
    proof (cases "added = 0")
      case True
      then show ?thesis using run st c by (simp add: cache_ok_def)
    next
      case False
      then show ?thesis using run(1,2) st by (simp add: cache_ok_update)
    qed
  qed
qed

lemma v3_delete_loop_spec:
  assumes "v3_ok meta r" and "ix_wf (ixmSys M)" and go: "goes go" and "v3_delete_loop go ids (r, M) = (errs, deleted, r', M')"
  shows "v3_ok meta r' \<and> ix_wf (ixmSys M') \<and> (deleted = [] \<longrightarrow> r' = r) \<and> length errs = length ids \<and>
    (\<forall>k. keyed v3ID (v3_viewRegistry r') k = (if k \<in> set ids then None else keyed v3ID (v3_viewRegistry r) k)) \<and>
    set deleted = {k \<in> set ids. keyed v3ID (v3_viewRegistry r) k \<noteq> None}"
  using assms(1,2,4)
proof (induction ids arbitrary: r M errs deleted)
  case (Cons k ids)
  have r: "v3_inv r" using Cons.prems(1) by (simp add: v3_ok_def)
  show ?case
  proof (cases "v3_deletePool k r")
    case (Inl e)
    then obtain es where rest: "v3_delete_loop go ids (r, M) = (es, deleted, r', M')" "errs = Some (V3DeleteErr e) # es"
      using Cons.prems(3) by (auto split: prod.splits)
    have "keyed v3ID (v3_viewRegistry r) k = None" using v3pools.del_present [OF r, of k] Inl by (cases "keyed v3ID (v3_viewRegistry r) k") auto
    then show ?thesis using Cons.IH [OF Cons.prems(1,2) rest(1)] rest(2) by auto
  next
    case (Inr r1)
    note d = v3pools.del_InrD [OF r Inr]
    have ok1: "v3_ok meta r1" using Cons.prems(1) d(1,2) by (simp add: v3_ok_def)
    let ?M = "go (length ids) M"
    have w: "ix_wf (ixmSys ?M)" by (rule goes_wf [OF go Cons.prems(2)])
    obtain M1 e es ds where rest: "v3_delete_loop go ids (r1, M1) = (es, ds, r', M')" "errs = e # es" "deleted = k # ds"
      and M1: "(\<exists>ti1. ix_Remove k (ixmSys ?M) = Inr ti1 \<and> M1 = ?M\<lparr>ixmSys := ti1\<rparr>) \<or> M1 = ?M"
      using Cons.prems(3) Inr by (cases "ix_Remove k (ixmSys ?M)") (auto simp: Let_def split: prod.splits)
    have w1: "ix_wf (ixmSys M1)" using M1 w ix_wf_Remove by auto
    note ih = Cons.IH [OF ok1 w1 rest(1)]
    show ?thesis using ih d(2,3) rest(2,3) by auto
  qed
qed simp

lemma v3_deletePools_spec:
  assumes ok: "v3_ok meta (v3sRegistry s)" and ix: "ix_wf (ixmSys M)" and c: "cache_ok s" and go: "goes go"
    and call: "v3_deletePools go get ids (s, M) = (errs, cb, s', M')"
  shows "v3_ok meta (v3sRegistry s') \<and> ix_wf (ixmSys M') \<and> (get_ok (get M') \<longrightarrow> cache_ok s')"
proof -
  obtain es deleted r M1 where d: "v3_delete_loop go ids (v3sRegistry s, M) = (es, deleted, r, M1)" by (metis prod.exhaust)
  note sp = v3_delete_loop_spec [OF ok ix go d]
  have st: "M' = M1" "s' = (if deleted = [] then s\<lparr>v3sRegistry := r\<rparr> else snd (v3s_updateCachedView (get M1) (s\<lparr>v3sRegistry := r\<rparr>)))"
    using call by (auto simp: v3_deletePools_def d Let_def split: if_splits)
  show ?thesis
  proof (cases "deleted = []")
    case True
    then show ?thesis using sp st c by (auto simp: cache_ok_def)
  next
    case False
    then show ?thesis using sp st by (simp add: cache_ok_update)
  qed
qed

section \<open>The goroutines\<close>

text \<open>
  The system with its tick indexer and the variables of its goroutines. The calls of \<^verbatim>\<open>tickIndexer.Get\<close> in \<^verbatim>\<open>updateCachedView\<close> are made one
  after the other while the goroutines of the indexer go on: each returns what the indexer holds for its pool at
  some state that these goroutines reach. Likewise they go on between the calls of \<^verbatim>\<open>Add\<close> and \<^verbatim>\<open>Remove\<close> of a section.
\<close>

record V3Machine =
  v3mSys :: UniswapV3System
  v3mIx :: IxMachine
  v3mBlock :: "(uint64 \<times> (address \<times> pool_info) list) option"
  v3mPublishing :: bool
  v3mInFlight :: "address list option"

definition reads :: "IxMachine \<Rightarrow> (uint64 \<Rightarrow> indexer_error + TickInfo list) \<Rightarrow> bool" where
  "reads M get \<longleftrightarrow> (\<forall>k. \<exists>M'. ixm_own\<^sup>*\<^sup>* M M' \<and> get k = ix_Get k (ixmSys M'))"

inductive v3m_step :: "(uint64 \<Rightarrow> uint64 \<times> uint64 \<times> uint64) \<Rightarrow> V3Machine \<Rightarrow> V3Machine \<Rightarrow> bool" for meta where
  v3m_indexer: "ixm_own (v3mIx m) M' \<Longrightarrow> v3m_step meta m (m\<lparr>v3mIx := M'\<rparr>)"
| v3m_skip: "v3mBlock m = None \<Longrightarrow> \<not> v3mPublishing m \<Longrightarrow>
     v3m_step meta m (m\<lparr>v3mSys := v3s_setLastUpdatedAtBlock n (v3mSys m)\<rparr>)"
| v3m_fetch: "v3mBlock m = None \<Longrightarrow> \<not> v3mPublishing m \<Longrightarrow> v3_fetch ord addrOf getPoolInfo (v3sCachedView (v3mSys m)) = (errs, us) \<Longrightarrow>
     v3m_step meta m (m\<lparr>v3mBlock := Some (n, us)\<rparr>)"
| v3m_apply: "v3mBlock m = Some (n, us) \<Longrightarrow>
     v3m_step meta m (m\<lparr>v3mSys := v3_block_apply idOf n us (v3mSys m), v3mBlock := None, v3mPublishing := True\<rparr>)"
| v3m_publish: "v3mPublishing m \<Longrightarrow> reads (v3mIx m) get \<Longrightarrow>
     v3m_step meta m (m\<lparr>v3mSys := snd (v3s_updateCachedView get (v3mSys m)), v3mPublishing := False\<rparr>)"
| v3m_logs: "\<not> v3mPublishing m \<Longrightarrow> v3m_step meta m (m\<lparr>v3mSys := v3_apply_logs idOf t updated discovered (v3mSys m)\<rparr>)"
| v3m_drain: "\<not> v3mPublishing m \<Longrightarrow> v3mInFlight m = None \<Longrightarrow> v3_drainPending (v3mSys m) = (ps, s') \<Longrightarrow>
     v3m_step meta m (m\<lparr>v3mSys := s', v3mInFlight := Some ps\<rparr>)"
| v3m_init: "\<not> v3mPublishing m \<Longrightarrow> v3mInFlight m = Some (map fst pools) \<Longrightarrow>
     (\<And>es valid. v3_init_filter 0 pools = (es, valid) \<Longrightarrow> length (registerPools valid) = length valid \<and>
        v3_init_world meta tokOf (zip valid (registerPools valid))) \<Longrightarrow> goes go \<Longrightarrow>
     v3_runInitializations go tokOf registerPools get pools (v3mSys m, v3mIx m) = (errs, s', M') \<Longrightarrow> reads M' (get M') \<Longrightarrow>
     v3m_step meta m (m\<lparr>v3mSys := s', v3mIx := M', v3mInFlight := None\<rparr>)"
| v3m_prune: "\<not> v3mPublishing m \<Longrightarrow> goes go \<Longrightarrow> v3_deletePools go get ids (v3mSys m, v3mIx m) = (errs, cb, s', M') \<Longrightarrow> reads M' (get M') \<Longrightarrow>
     v3m_step meta m (m\<lparr>v3mSys := s', v3mIx := M'\<rparr>)"

definition v3_start :: V3Machine where
  "v3_start = \<lparr>v3mSys = NewUniswapV3System, v3mIx = ixm_start, v3mBlock = None, v3mPublishing = False, v3mInFlight = None\<rparr>"

lemma reads_get_ok: "reads M get \<Longrightarrow> ix_wf (ixmSys M) \<Longrightarrow> get_ok get"
  unfolding get_ok_def
proof (intro allI impI)
  fix k ts assume r: "reads M get" and i: "ix_wf (ixmSys M)" and g: "get k = Inr ts"
  obtain M' where M': "ixm_own\<^sup>*\<^sup>* M M'" "get k = ix_Get k (ixmSys M')" using r unfolding reads_def by blast
  have inv: "ix_wf (ixmSys M')" by (rule ixm_own_run_wf [OF M'(1) i])
  have "ix_Get k (ixmSys M') = Inr ts" using g M'(2) by simp
  then obtain j where j: "ixIdToIndex (ixmSys M') k = Some j" "ts = ixTicks (ixmSys M') ! j" by (auto simp: ix_Get_def ix_copy_id split: option.splits)
  then show "strict_ticks ts" using ix_wfD(2,8) [OF inv] index_invD [OF ix_wfD(6) [OF inv] j(1)] by simp
qed

text \<open>What the view shows at any time: pools once, with the data of the chain and sorted ticks.\<close>

definition v3_view_ok :: "(uint64 \<Rightarrow> uint64 \<times> uint64 \<times> uint64) \<Rightarrow> V3PoolView list \<Rightarrow> bool" where
  "v3_view_ok meta vs \<longleftrightarrow> ticks_ok vs \<and> distinct (map v3ID vs) \<and> (\<forall>v \<in> set vs. v3_static v = meta (v3ID v))"

lemma v3_view_ok_cache:
  assumes "v3_ok meta (v3sRegistry s)" and "cache_ok s"
  shows "v3_view_ok meta (v3sCachedView s)"
proof -
  let ?vs = "v3sCachedView s" and ?ms = "v3_viewRegistry (v3sRegistry s)"
  have m: "map PoolViewMinimal.truncate ?vs = ?ms" and t: "ticks_ok ?vs" using assms(2) by (simp_all add: cache_ok_def v3_minimal_def)
  have tr: "v3ID (PoolViewMinimal.truncate v) = v3ID v" "v3_static (PoolViewMinimal.truncate v) = v3_static v" for v :: V3PoolView
    by (simp_all add: PoolViewMinimal.defs v3_static_def)
  have "map v3ID ?vs = map v3ID ?ms" unfolding m [symmetric] by (simp add: tr)
  then have d: "distinct (map v3ID ?vs)" using v3pools.view_distinct [OF v3_okD [OF assms(1)]] by simp
  have "v3_static v = meta (v3ID v)" if "v \<in> set ?vs" for v
  proof -
    have "PoolViewMinimal.truncate v \<in> set ?ms" using that unfolding m [symmetric] by simp
    then have "keyed v3ID ?ms (v3ID v) = Some (PoolViewMinimal.truncate v)"
      using v3pools.view_distinct [OF v3_okD [OF assms(1)]] by (simp add: keyed_Some_iff tr)
    then show ?thesis using assms(1) tr(2) [of v] by (simp add: v3_ok_def)
  qed
  then show ?thesis using t d by (simp add: v3_view_ok_def)
qed

definition v3m_inv :: "(uint64 \<Rightarrow> uint64 \<times> uint64 \<times> uint64) \<Rightarrow> V3Machine \<Rightarrow> bool" where
  "v3m_inv meta m \<longleftrightarrow> ix_wf (ixmSys (v3mIx m)) \<and> v3_ok meta (v3sRegistry (v3mSys m)) \<and> v3_view_ok meta (v3sCachedView (v3mSys m)) \<and>
     (if v3mPublishing m then v3mBlock m = None else cache_ok (v3mSys m))"

lemma v3m_inv_start: "v3m_inv meta v3_start"
  by (simp add: v3m_inv_def v3_start_def NewUniswapV3System_def v3_ok_new ix_wf_start v3_view_ok_def cache_ok_def ticks_ok_def v3_minimal_def)

lemma v3m_step_inv: "v3m_step meta m m' \<Longrightarrow> v3m_inv meta m \<Longrightarrow> v3m_inv meta m'"
proof (induction rule: v3m_step.induct)
  case (v3m_indexer m M')
  then show ?case by (simp add: v3m_inv_def ixm_own_wf)
next
  case (v3m_apply m n us idOf)
  then show ?case using v3_updatePools_ok [of meta "v3sRegistry (v3mSys m)" idOf n us]
    by (auto simp: v3m_inv_def v3_block_apply_def v3s_setLastUpdatedAtBlock_def)
next
  case (v3m_publish m get)
  then have "get_ok get" by (intro reads_get_ok [of "v3mIx m"]) (simp_all add: v3m_inv_def)
  then have "cache_ok (snd (v3s_updateCachedView get (v3mSys m)))" by (rule cache_ok_update)
  then show ?case using v3m_publish v3_view_ok_cache [of meta "snd (v3s_updateCachedView get (v3mSys m))"] by (simp add: v3m_inv_def)
next
  case (v3m_logs m idOf t updated discovered)
  then show ?case using v3_mark_updated_spec [OF v3_okD [of meta "v3sRegistry (v3mSys m)"], of idOf t updated]
    by (auto simp: v3m_inv_def v3_apply_logs_def v3_ok_def cache_ok_def)
next
  case (v3m_init m pools registerPools tokOf go get errs s' M')
  have i: "v3_ok meta (v3sRegistry (v3mSys m))" "ix_wf (ixmSys (v3mIx m))" "cache_ok (v3mSys m)"
    using v3m_init(1,7) by (simp_all add: v3m_inv_def)
  have sp: "v3_ok meta (v3sRegistry s')" "ix_wf (ixmSys M')" "get_ok (get M') \<longrightarrow> cache_ok s'"
    using v3_runInitializations_spec [OF i v3m_init(4,5) v3m_init(3)] by simp_all
  then have "cache_ok s'" using reads_get_ok [OF v3m_init(6)] by simp
  then show ?case using sp(1,2) v3m_init(1) by (simp add: v3m_inv_def v3_view_ok_cache)
next
  case (v3m_prune m go get ids errs cb s' M')
  have i: "v3_ok meta (v3sRegistry (v3mSys m))" "ix_wf (ixmSys (v3mIx m))" "cache_ok (v3mSys m)"
    using v3m_prune(1,5) by (simp_all add: v3m_inv_def)
  note sp = v3_deletePools_spec [OF i v3m_prune(2,3)]
  then have "cache_ok s'" using reads_get_ok [OF v3m_prune(4)] by simp
  then show ?case using sp v3m_prune(1) by (simp add: v3m_inv_def v3_view_ok_cache)
qed (auto simp: v3m_inv_def v3_drainPending_def cache_ok_def v3s_setLastUpdatedAtBlock_def)

lemma v3m_run_inv: "(v3m_step meta)\<^sup>*\<^sup>* v3_start m \<Longrightarrow> v3m_inv meta m"
  by (induction rule: rtranclp_induct) (auto intro: v3m_inv_start v3m_step_inv)

lemma v3s_View_cached: "v3s_View s = v3sCachedView s"
  by (simp add: v3s_View_def v3_deepCopyPool_id)

lemma keyed_map: "(\<And>v. vid (f v) = vid' v) \<Longrightarrow> keyed vid (map f vs) k = map_option f (keyed vid' vs k)"
  by (induction vs) auto

section \<open>Properties\<close>

text \<open>An execution with one pool: it is discovered and initialised, and its state is fetched for block 10.\<close>

definition wit_v3_item :: v3_init_item where
  "wit_v3_item = \<lparr>v3iToken0 = [1], v3iToken1 = [2], v3iFee = 500, v3iTickSpacing = 60, v3iTick = 3, v3iLiquidity = 4, v3iSqrtPriceX96 = 5, v3iErr = None\<rparr>"

definition wit_v3_min :: PoolViewMinimal where
  "wit_v3_min = \<lparr>v3ID = 7, v3Token0 = 1, v3Token1 = 2, v3Fee = 500, v3TickSpacing = 60, v3Tick = 3, v3Liquidity = 4, v3SqrtPriceX96 = 5\<rparr>"

definition wit_v3_sys :: UniswapV3System where
  "wit_v3_sys = \<lparr>v3sRegistry = \<lparr>u3ID = [7], u3Token0 = [1], u3Token1 = [2], u3Fee = [500], u3TickSpacing = [60], u3Tick = [3], u3Liquidity = [4],
     u3SqrtPriceX96 = [5], u3LastUpdatedAt = [0], u3IdToIndex = [7 \<mapsto> 0]\<rparr>,
     v3sCachedView = [PoolViewMinimal.extend wit_v3_min \<lparr>v3Ticks = []\<rparr>], v3sLastUpdatedAtBlock = 0, v3sPendingInit = []\<rparr>"

definition wit_v3_ix :: IxMachine where
  "wit_v3_ix = \<lparr>ixmSys = NewTickIndexer\<lparr>ixPendingInit := [(7, \<lparr>piAddress = [9], piSpacing = 60\<rparr>)]\<rparr>, ixmBatch = None, ixmDone = None\<rparr>"

definition wit_info :: pool_info where
  "wit_info = \<lparr>inTick = 30, inLiquidity = 40, inSqrtPriceX96 = 50, inFee = 500\<rparr>"

definition wit_v3m :: V3Machine where
  "wit_v3m = \<lparr>v3mSys = wit_v3_sys, v3mIx = wit_v3_ix, v3mBlock = Some (10, [([9], wit_info)]), v3mPublishing = False, v3mInFlight = None\<rparr>"

lemma wit_v3_init:
  "v3_runInitializations (\<lambda>_ M. M) (\<lambda>a. Some (if a = [1] then 1 else 2)) (\<lambda>_. [(7, None)]) (\<lambda>M k. ix_Get k (ixmSys M)) [([9], wit_v3_item)]
     (NewUniswapV3System, ixm_start) = ([], wit_v3_sys, wit_v3_ix)"
  by (simp add: v3_runInitializations_def v3_applyInitializations_def wit_v3_item_def v3_init_one_def ix_Add_def NewTickIndexer_def NewUniswapV3System_def
      NewUniswapV3Registry_def v3_addPool_def v3_updatePool_def v3s_updateCachedView_def v3_viewRegistry_def v3ViewAt_def v3_enrich_def ix_Get_def
      wit_v3_sys_def wit_v3_ix_def wit_v3_min_def ixm_start_def Let_def)

lemma wit_v3m_reachable: "(v3m_step (\<lambda>_. (1, 2, 60)))\<^sup>*\<^sup>* v3_start wit_v3m"
proof -
  let ?step = "v3m_step (\<lambda>_. (1, 2, 60))"
  let ?m1 = "v3_start\<lparr>v3mSys := v3_apply_logs (\<lambda>_. None) 0 [] [[9]] (v3mSys v3_start)\<rparr>"
  let ?m2 = "v3_start\<lparr>v3mInFlight := Some [[9]]\<rparr>"
  let ?m3 = "v3_start\<lparr>v3mSys := wit_v3_sys, v3mIx := wit_v3_ix\<rparr>"
  have s1: "?step v3_start ?m1" by (rule v3m_logs) (simp add: v3_start_def)
  have "?step ?m1 (?m1\<lparr>v3mSys := NewUniswapV3System, v3mInFlight := Some [[9]]\<rparr>)"
    by (rule v3m_drain) (simp_all add: v3_start_def v3_drainPending_def v3_apply_logs_def queue_discovered_def NewUniswapV3System_def)
  then have s2: "?step ?m1 ?m2" by (simp add: v3_start_def)
  have "?step ?m2 (?m2\<lparr>v3mSys := wit_v3_sys, v3mIx := wit_v3_ix, v3mInFlight := None\<rparr>)"
  proof (rule v3m_init [where pools = "[([9], wit_v3_item)]" and go = "\<lambda>_ M. M" and tokOf = "\<lambda>a. Some (if a = [1] then 1 else 2)"
        and registerPools = "\<lambda>_. [(7, None)]" and get = "\<lambda>M k. ix_Get k (ixmSys M)" and errs = "[]"])
    show "v3_runInitializations (\<lambda>_ M. M) (\<lambda>a. Some (if a = [1] then 1 else 2)) (\<lambda>_. [(7, None)]) (\<lambda>M k. ix_Get k (ixmSys M)) [([9], wit_v3_item)]
        (v3mSys ?m2, v3mIx ?m2) = ([], wit_v3_sys, wit_v3_ix)"
      using wit_v3_init by (simp add: v3_start_def)
    show "reads wit_v3_ix (\<lambda>k. ix_Get k (ixmSys wit_v3_ix))" unfolding reads_def by blast
  qed (auto simp: goes_def v3_start_def wit_v3_item_def v3_init_world_def split: option.splits)
  then have s3: "?step ?m2 ?m3" by (simp add: v3_start_def ixm_start_def wit_v3_ix_def)
  have "?step ?m3 (?m3\<lparr>v3mBlock := Some (10, [([9], wit_info)])\<rparr>)"
    by (rule v3m_fetch [where ord = "\<lambda>m. m" and addrOf = "\<lambda>_. Some [9]" and getPoolInfo = "\<lambda>_. [Inr wit_info]" and errs = "[]"])
      (simp_all add: v3_start_def v3_fetch_def wit_v3_sys_def List.map_filter_def)
  then have s4: "?step ?m3 wit_v3m" by (simp add: v3_start_def wit_v3m_def)
  show ?thesis using s1 s2 s3 s4 by (meson converse_rtranclp_into_rtranclp rtranclp.rtrancl_refl)
qed

text \<open>
  C27: The Uniswap V3 system with its tick indexer, over all interleavings of the goroutines of both. The indexer may do anything between two calls of a
  section, and pools that share an address are not excluded. Given that an identifier is registered for one pool of the chain only, registry and
  indexer satisfy their invariants (the indexer the one that needs no assumption on addresses); the view shows every pool once, with the tokens and spacing of the chain and strictly ascending ticks, and but for
  the ticks it is the view of the registry except between the two stores of the block handler; and the views of any two moments
  are such that the differ misses nothing, not even a tick.
\<close>

theorem v3_system_consistent:
  assumes "(v3m_step meta)\<^sup>*\<^sup>* v3_start m" and "(v3m_step meta)\<^sup>*\<^sup>* v3_start m'" and "slice_sorter tiIndex (srtTicks e)"
  shows "v3_inv (v3sRegistry (v3mSys m)) \<and> ix_wf (ixmSys (v3mIx m)) \<and> distinct (map v3ID (v3s_View (v3mSys m))) \<and>
    (\<forall>v \<in> set (v3s_View (v3mSys m)). v3_static v = meta (v3ID v) \<and> sorted_wrt (<) (map tiIndex (v3Ticks v))) \<and>
    (\<not> v3mPublishing m \<longrightarrow> map PoolViewMinimal.truncate (v3s_View (v3mSys m)) = v3_viewRegistry (v3sRegistry (v3mSys m))) \<and>
    data_compat e UniswapV3ProtocolSchema (V3Data (v3s_View (v3mSys m))) (V3Data (v3s_View (v3mSys m')))"
proof -
  have inv: "v3m_inv meta m" "v3m_inv meta m'" using assms(1,2) by (simp_all add: v3m_run_inv)
  then have ok: "v3_view_ok meta (v3s_View (v3mSys m))" "v3_view_ok meta (v3s_View (v3mSys m'))" by (simp_all add: v3m_inv_def v3s_View_cached)
  have srt: "sorted_ticks v" if "v3_view_ok meta vs" "v \<in> set vs" for v vs
    using that by (auto simp: v3_view_ok_def ticks_ok_def strict_ticks_def sorted_ticks_def strict_sorted_iff)
  have "view_compat v3ID (=) (poolChanged (srtTicks e)) (v3s_View (v3mSys m)) (v3s_View (v3mSys m'))"
    unfolding view_compat_def
  proof (intro conjI ballI impI)
    show "distinct (map v3ID (v3s_View (v3mSys m)))" "distinct (map v3ID (v3s_View (v3mSys m')))" using ok by (simp_all add: v3_view_ok_def)
    fix w v assume a: "w \<in> set (v3s_View (v3mSys m))" "v \<in> set (v3s_View (v3mSys m'))" "v3ID w = v3ID v \<and> \<not> poolChanged (srtTicks e) w v"
    then have "v3_static w = v3_static v" using ok by (simp add: v3_view_ok_def)
    then show "w = v" using poolChanged_eq [OF _ assms(3) srt [OF ok(1) a(1)] srt [OF ok(2) a(2)]] a(3) by blast
  qed
  then show ?thesis using inv(1) ok(1)
    by (auto simp: v3m_inv_def v3_ok_def v3_view_ok_def ticks_ok_def strict_ticks_def cache_ok_def v3_minimal_def v3s_View_cached)
qed

theorem v3_system_consistent_witness:
  "map PoolViewMinimal.truncate (v3s_View wit_v3_sys) = v3_viewRegistry (v3sRegistry wit_v3_sys) \<and> ix_wf (ixmSys wit_v3_ix)"
  using v3_system_consistent [OF wit_v3m_reachable wit_v3m_reachable, of wit_env] by (simp add: wit_v3m_def wit_env_def slice_sorter_sort_key)

text \<open>
  A block in the Uniswap V3 system. When the states fetched for a block have been applied and published, the view shows exactly the pools of the
  registry, each with the state fetched last for an address that resolves to it and otherwise unchanged, and with the ticks
  that the indexer returned for it or none if it returned an error; and the system reports the block.
\<close>

theorem v3_block_published:
  assumes "(v3m_step meta)\<^sup>*\<^sup>* v3_start m" and "v3mBlock m = Some (n, us)"
  shows "let s = snd (v3s_updateCachedView get (v3_block_apply idOf n us (v3mSys m))) in
    v3s_LastUpdatedAtBlock s = n \<and> map v3ID (v3s_View s) = map v3ID (v3s_View (v3mSys m)) \<and>
    (\<forall>k. keyed v3ID (v3s_View s) k = map_option (\<lambda>v. PoolViewMinimal.extend (with_info (latest_info idOf us k) v)
        \<lparr>v3Ticks = (case get k of Inl err \<Rightarrow> [] | Inr ts \<Rightarrow> ts)\<rparr>) (keyed v3ID (v3_viewRegistry (v3sRegistry (v3mSys m))) k))"
proof -
  let ?r = "v3sRegistry (v3mSys m)" and ?r' = "snd (v3_updatePools idOf n us (v3sRegistry (v3mSys m)))"
  have inv: "v3m_inv meta m" by (rule v3m_run_inv [OF assms(1)])
  then have r: "v3_inv ?r" and c: "cache_ok (v3mSys m)" using assms(2) by (auto simp: v3m_inv_def v3_ok_def split: if_splits)
  have up: "u3ID ?r' = u3ID ?r" "\<And>k. keyed v3ID (v3_viewRegistry ?r') k = map_option (with_info (latest_info idOf us k)) (keyed v3ID (v3_viewRegistry ?r) k)"
    using v3_updatePools_spec [OF r, of idOf n us "fst (v3_updatePools idOf n us ?r)" ?r'] by simp_all
  have eid: "v3ID (v3_enrich get v) = v3ID v" for v by (simp add: v3_enrich_def PoolViewMinimal.defs)
  have km: "keyed v3ID (map (v3_enrich get) vs) k = map_option (v3_enrich get) (keyed v3ID vs k)" for vs k
    by (rule keyed_map) (rule eid)
  have "map v3ID (v3sCachedView (v3mSys m)) = map v3ID (v3_minimal (v3sCachedView (v3mSys m)))"
    by (simp add: v3_minimal_def PoolViewMinimal.defs)
  then have ids: "map v3ID (v3s_View (v3mSys m)) = u3ID ?r" using c by (simp add: cache_ok_def v3s_View_cached v3_view_ids)
  have key: "keyed v3ID (map (v3_enrich get) (v3_viewRegistry ?r')) k = map_option (\<lambda>v. PoolViewMinimal.extend (with_info (latest_info idOf us k) v)
        \<lparr>v3Ticks = (case get k of Inl err \<Rightarrow> [] | Inr ts \<Rightarrow> ts)\<rparr>) (keyed v3ID (v3_viewRegistry ?r) k)" for k
  proof (cases "keyed v3ID (v3_viewRegistry ?r) k")
    case (Some v)
    then have "v3ID v = k" using keyed_SomeD by fastforce
    then show ?thesis using Some by (simp add: km up(2) v3_enrich_def with_info_same)
  qed (simp add: km up(2))
  have vids: "map v3ID (map (v3_enrich get) (v3_viewRegistry ?r')) = u3ID ?r" using up(1) by (simp add: comp_def eid v3_view_ids)
  show ?thesis unfolding Let_def
    using key vids ids by (simp add: v3s_View_cached v3s_LastUpdatedAtBlock_def v3_block_apply_def v3s_setLastUpdatedAtBlock_def)
qed

theorem v3_block_published_witness:
  "keyed v3ID (v3s_View (snd (v3s_updateCachedView (\<lambda>_. Inr [wit_tick 60]) (v3_block_apply (\<lambda>_. Some 7) 10 [([9], wit_info)] wit_v3_sys)))) 7 =
     Some (PoolViewMinimal.extend (wit_v3_min\<lparr>v3Tick := 30, v3Liquidity := 40, v3SqrtPriceX96 := 50\<rparr>) \<lparr>v3Ticks = [wit_tick 60]\<rparr>)"
proof -
  have k: "keyed v3ID (v3_viewRegistry (v3sRegistry wit_v3_sys)) 7 = Some wit_v3_min"
    by (simp add: wit_v3_sys_def v3_viewRegistry_def v3ViewAt_def wit_v3_min_def)
  show ?thesis
    using v3_block_published [OF wit_v3m_reachable, of 10 "[([9], wit_info)]" "\<lambda>_. Inr [wit_tick 60]" "\<lambda>_. Some 7"] k
    by (simp add: wit_v3m_def Let_def with_info_def wit_info_def wit_v3_min_def)
qed

text \<open>
  As in the Uniswap V2 system the block number is stored before the view: a reader that asks for the block and then for the
  view in between gets the new block with the pools as they were.
\<close>

lemma v3_block_before_view:
  "\<exists>m. (v3m_step (\<lambda>_. (1, 2, 60)))\<^sup>*\<^sup>* v3_start m \<and> v3s_LastUpdatedAtBlock (v3mSys m) = 10 \<and>
     v3s_View (v3mSys m) = v3s_View wit_v3_sys \<and> map PoolViewMinimal.truncate (v3s_View (v3mSys m)) \<noteq> v3_viewRegistry (v3sRegistry (v3mSys m))"
proof -
  let ?m = "wit_v3m\<lparr>v3mSys := v3_block_apply (\<lambda>_. Some 7) 10 [([9], wit_info)] (v3mSys wit_v3m), v3mBlock := None, v3mPublishing := True\<rparr>"
  have "v3m_step (\<lambda>_. (1, 2, 60)) wit_v3m ?m" by (rule v3m_apply) (simp add: wit_v3m_def)
  then have "(v3m_step (\<lambda>_. (1, 2, 60)))\<^sup>*\<^sup>* v3_start ?m" using wit_v3m_reachable by (rule rtranclp.rtrancl_into_rtrancl [rotated])
  moreover have "v3s_LastUpdatedAtBlock (v3mSys ?m) = 10 \<and> v3s_View (v3mSys ?m) = v3s_View wit_v3_sys \<and>
      map PoolViewMinimal.truncate (v3s_View (v3mSys ?m)) \<noteq> v3_viewRegistry (v3sRegistry (v3mSys ?m))"
    by (simp add: wit_v3m_def v3_block_apply_def v3s_setLastUpdatedAtBlock_def v3s_LastUpdatedAtBlock_def v3s_View_cached wit_v3_sys_def v3_hasPool_def
        v3_updatePool_def v3_viewRegistry_def v3ViewAt_def wit_v3_min_def wit_info_def PoolViewMinimal.defs)
  ultimately show ?thesis by blast
qed

text \<open>
  A registered pool whose token cannot be resolved is reported, but it stays queued in the tick indexer and never enters the
  registry; since its address resolves from then on, a later discovery does not queue it again.
\<close>

lemma v3_failed_init_stays_in_indexer:
  assumes "tokOf (v3iToken0 it) = None" and "poolAddressToID poolAddr = Some poolID"
  shows "v3_init_one tokOf n poolAddr it poolID (r, NewTickIndexer) = (Some (V3DataConsistency0 poolAddr (v3iToken0 it)), r,
      NewTickIndexer\<lparr>ixPendingInit := [(poolID, \<lparr>piAddress = poolAddr, piSpacing = v3iTickSpacing it\<rparr>)]\<rparr>) \<and>
    queue_discovered poolAddressToID [poolAddr] [] = []"
  using assms by (simp add: v3_init_one_def ix_Add_def NewTickIndexer_def queue_discovered_def)

end
