(* ===== verification/Batch_Fetch.thy ===== *)
theory Batch_Fetch
  imports UniswapV2_Logs UniswapV3_System
begin

text \<open>
  The functions behind the RPC arguments of the Uniswap systems: the reserves of Uniswap V2 pools (\<^verbatim>\<open>src/protocols/uniswap-v2/reserves\<close>) and the
  state of Uniswap V3 pools (\<^verbatim>\<open>src/protocols/uniswap-v3/poolinfo\<close>), which are fetched in chunks by concurrent goroutines, the
  initializer of Uniswap V2 pools (\<^verbatim>\<open>src/protocols/uniswap-v2/initializer\<close>), and the log functions of \<^verbatim>\<open>src/protocols/uniswap-v3/logs\<close>. Calls of
  contracts are arguments. The goroutines of different chunks write disjoint ranges of the result slices, so an execution is the
  order in which the chunks are done.
\<close>

section \<open>Chunks\<close>

text \<open>
  The loop \<^verbatim>\<open>for i := 0; i < n; i += chunkSize\<close>. With a chunk size of 0 it does not end: \<open>None\<close>.
\<close>

partial_function (option) chunk_loop :: "nat \<Rightarrow> nat \<Rightarrow> nat \<Rightarrow> (nat \<times> nat) list \<Rightarrow> (nat \<times> nat) list option" where
  "chunk_loop chunkSize n i acc =
     (if i < n then chunk_loop chunkSize n (i + chunkSize) (acc @ [(i, if i + chunkSize > n then n else i + chunkSize)]) else Some acc)"

section \<open>Reserves of Uniswap V2\<close>

datatype fetch_error = ErrChunk string | ErrRevert address | ErrBadLen nat

record reserves_out =
  roReserve0s :: "int option list"
  roReserve1s :: "int option list"
  roErrs :: "fetch_error option list"

fun markChunkError :: "fetch_error \<Rightarrow> nat list \<Rightarrow> fetch_error option list \<Rightarrow> fetch_error option list" where
  "markChunkError err [] errs = errs"
| "markChunkError err (i # is) errs = markChunkError err is (errs[i := Some err])"

definition put_reserves :: "address list \<Rightarrow> nat \<Rightarrow> bool \<times> byte list \<Rightarrow> reserves_out \<Rightarrow> reserves_out" where
  "put_reserves pools idx res st = (case res of (success, returnData) \<Rightarrow>
     (if \<not> success then st\<lparr>roErrs := (roErrs st)[idx := Some (ErrRevert (pools ! idx))]\<rparr>
      else if length returnData < 64 then st\<lparr>roErrs := (roErrs st)[idx := Some (ErrBadLen (length returnData))]\<rparr>
      else st\<lparr>roReserve0s := (roReserve0s st)[idx := Some (big_SetBytes (take 32 returnData))],
              roReserve1s := (roReserve1s st)[idx := Some (big_SetBytes (take 32 (drop 32 returnData)))]\<rparr>))"

text \<open>
  \<^verbatim>\<open>processChunk\<close>: \<open>call\<close> is what the context, the client, the packing, the multicall and the unpacking give for the addresses of the chunk. A result
  beyond the slices is an index error, which panics.
\<close>

fun put_results :: "address list \<Rightarrow> nat \<Rightarrow> (bool \<times> byte list) list \<Rightarrow> reserves_out \<Rightarrow> reserves_out option" where
  "put_results pools idx [] st = Some st"
| "put_results pools idx (res # rs) st = (if idx < length pools then put_results pools (Suc idx) rs (put_reserves pools idx res st) else None)"

definition processChunk ::
  "(address list \<Rightarrow> string + (bool \<times> byte list) list) \<Rightarrow> address list \<Rightarrow> nat \<times> nat \<Rightarrow> reserves_out \<Rightarrow> reserves_out option" where
  "processChunk call pools chunk st = (case chunk of (start, end') \<Rightarrow>
     (case call (take (end' - start) (drop start pools)) of
        Inl err \<Rightarrow> Some (st\<lparr>roErrs := markChunkError (ErrChunk err) [start..<end'] (roErrs st)\<rparr>)
      | Inr results \<Rightarrow> put_results pools start results st))"

text \<open>
  \<open>order\<close> is the order in which the chunks are done. \<open>call\<close> depends on the chunk, since the state of the context, the client and the node may change
  between the calls. Without a limit above 0 the first send to the semaphore blocks for ever (or its creation panics), and a
  negative chunk size panics in the first goroutine: \<open>None\<close>.
\<close>

fun run_chunks :: "(nat \<times> nat \<Rightarrow> 's \<Rightarrow> 's option) \<Rightarrow> (nat \<times> nat) list \<Rightarrow> 's \<Rightarrow> 's option" where
  "run_chunks f [] st = Some st"
| "run_chunks f (c # cs) st = (case f c st of None \<Rightarrow> None | Some st' \<Rightarrow> run_chunks f cs st')"

definition new_reserves :: "nat \<Rightarrow> reserves_out" where
  "new_reserves n = \<lparr>roReserve0s = replicate n None, roReserve1s = replicate n None, roErrs = replicate n None\<rparr>"

definition GetReserves ::
  "int \<Rightarrow> int \<Rightarrow> ((nat \<times> nat) list \<Rightarrow> (nat \<times> nat) list) \<Rightarrow> (nat \<times> nat \<Rightarrow> address list \<Rightarrow> string + (bool \<times> byte list) list) \<Rightarrow> address list \<Rightarrow>
   reserves_out option" where
  "GetReserves maxConcurrentCalls chunkSize order call poolAddrs =
     (if poolAddrs = [] then Some (new_reserves 0)
      else if maxConcurrentCalls \<le> 0 \<or> chunkSize < 0 then None
      else case chunk_loop (nat chunkSize) (length poolAddrs) 0 [] of
             None \<Rightarrow> None
           | Some chunks \<Rightarrow> run_chunks (\<lambda>c. processChunk (call c) poolAddrs c) (order chunks) (new_reserves (length poolAddrs)))"

section \<open>State of Uniswap V3 pools\<close>

record info_out =
  ioInfos :: "pool_info option list"
  ioErrs :: "string option list"

definition put_info :: "nat \<Rightarrow> string + pool_info \<Rightarrow> info_out \<Rightarrow> info_out" where
  "put_info idx item st = (case item of
     Inl err \<Rightarrow> st\<lparr>ioErrs := (ioErrs st)[idx := Some err]\<rparr>
   | Inr info \<Rightarrow> st\<lparr>ioInfos := (ioInfos st)[idx := Some info]\<rparr>)"

fun put_infos :: "nat \<Rightarrow> (string + pool_info) list \<Rightarrow> info_out \<Rightarrow> info_out" where
  "put_infos idx [] st = st"
| "put_infos idx (item # items) st = put_infos (Suc idx) items (put_info idx item st)"

text \<open>
  One chunk: the error of a cancelled context for the whole range, or the answers of the provider, one for each pool. \<open>None\<close> stands for the
  zero values of an entry that is not written.
\<close>

definition info_chunk :: "(address list \<Rightarrow> string + (string + pool_info) list) \<Rightarrow> address list \<Rightarrow> nat \<times> nat \<Rightarrow> info_out \<Rightarrow> info_out option" where
  "info_chunk provider pools chunk st = (case chunk of (startIdx, endIdx) \<Rightarrow>
     let chunkPools = take (endIdx - startIdx) (drop startIdx pools) in
     (case provider chunkPools of
        Inl err \<Rightarrow> Some (put_infos startIdx (map (\<lambda>_. Inl err) chunkPools) st)
      | Inr items \<Rightarrow> if length items < length chunkPools then None else Some (put_infos startIdx (take (length chunkPools) items) st)))"

definition NewPoolInfoFunc ::
  "int \<Rightarrow> int \<Rightarrow> string + (((nat \<times> nat) list \<Rightarrow> (nat \<times> nat) list) \<Rightarrow> (nat \<times> nat \<Rightarrow> address list \<Rightarrow> string + (string + pool_info) list) \<Rightarrow> address list \<Rightarrow> info_out option)" where
  "NewPoolInfoFunc maxConcurrentCalls chunkSize =
     (if maxConcurrentCalls \<le> 0 then Inl ''maxConcurrentCalls must be positive''
      else if chunkSize \<le> 0 then Inl ''chunkSize must be positive''
      else Inr (\<lambda>order provider poolAddrs.
        if poolAddrs = [] then Some \<lparr>ioInfos = [], ioErrs = []\<rparr>
        else case chunk_loop (nat chunkSize) (length poolAddrs) 0 [] of
               None \<Rightarrow> None
             | Some chunks \<Rightarrow> run_chunks (\<lambda>c. info_chunk (provider c) poolAddrs c) (order chunks)
                 \<lparr>ioInfos = replicate (length poolAddrs) None, ioErrs = replicate (length poolAddrs) None\<rparr>))"

section \<open>Initialization of Uniswap V2 pools\<close>

record KnownFactory =
  kfAddress :: address
  kfProtocolName :: string
  kfFeeBps :: uint16

definition NewPoolInitializer :: "KnownFactory list \<Rightarrow> int \<Rightarrow> string + (address \<rightharpoonup> KnownFactory)" where
  "NewPoolInitializer knownFactories maxConcurrentCalls =
     (if maxConcurrentCalls \<le> 0 then Inl ''maxConcurrentCalls must be a positive number''
      else Inr (foldl (\<lambda>m f. m(kfAddress f \<mapsto> f)) Map.empty knownFactories))"

datatype pool_init_error =
    ErrContext string
  | ErrFactory string
  | ErrUnknownFactory address
  | ErrTokens string
  | ErrCanonicalCheck string
  | ErrCanonicalMismatch address
  | ErrReserves string

record pool_calls =
  pcContext :: "string option"
  pcFactory :: "string + byte list"
  pcToken0 :: "string + byte list"
  pcToken1 :: "string + byte list"
  pcGetPair :: "address \<Rightarrow> address \<Rightarrow> address \<Rightarrow> string + byte list"
  pcReserves :: "string + byte list"

record pool_data =
  pdToken0 :: address
  pdToken1 :: address
  pdType :: uint8
  pdFeeBps :: uint16
  pdReserve0 :: int
  pdReserve1 :: int

definition word_address :: "byte list \<Rightarrow> address" where
  "word_address bs = drop (length bs - 20) bs"

definition checked :: "nat \<Rightarrow> string + byte list \<Rightarrow> string + byte list" where
  "checked n answer = (case answer of Inl err \<Rightarrow> Inl err | Inr out \<Rightarrow> if length out \<noteq> n then Inl ''invalid response length'' else Inr out)"

definition getTokens :: "pool_calls \<Rightarrow> string + address \<times> address" where
  "getTokens c =
     (case checked 32 (pcToken0 c) of
        Inl err \<Rightarrow> Inl err
      | Inr o0 \<Rightarrow> (case checked 32 (pcToken1 c) of Inl err \<Rightarrow> Inl err | Inr o1 \<Rightarrow> Inr (word_address o0, word_address o1)))"

definition initialize_pool :: "(address \<rightharpoonup> KnownFactory) \<Rightarrow> pool_calls \<Rightarrow> address \<Rightarrow> pool_init_error + pool_data" where
  "initialize_pool factoryMap c poolAddr =
     (case pcContext c of
        Some err \<Rightarrow> Inl (ErrContext err)
      | None \<Rightarrow>
         (case checked 32 (pcFactory c) of
            Inl err \<Rightarrow> Inl (ErrFactory err)
          | Inr fo \<Rightarrow>
             (let factoryAddr = word_address fo in
              case factoryMap factoryAddr of
                None \<Rightarrow> Inl (ErrUnknownFactory factoryAddr)
              | Some factoryConfig \<Rightarrow>
                 (case getTokens c of
                    Inl err \<Rightarrow> Inl (ErrTokens err)
                  | Inr (t0, t1) \<Rightarrow>
                     (case checked 32 (pcGetPair c factoryAddr t0 t1) of
                        Inl err \<Rightarrow> Inl (ErrCanonicalCheck err)
                      | Inr po \<Rightarrow>
                         (if word_address po \<noteq> poolAddr then Inl (ErrCanonicalMismatch (word_address po))
                          else (case checked 96 (pcReserves c) of
                                  Inl err \<Rightarrow> Inl (ErrReserves err)
                                | Inr ro \<Rightarrow>
                                    Inr \<lparr>pdToken0 = t0, pdToken1 = t1, pdType = 0, pdFeeBps = kfFeeBps factoryConfig,
                                         pdReserve0 = big_SetBytes (take 32 ro), pdReserve1 = big_SetBytes (take 32 (drop 32 ro))\<rparr>)))))))"

text \<open>\<^verbatim>\<open>Initialize\<close>: one goroutine for each pool, each writing its own index.\<close>

definition InitializePools :: "(address \<rightharpoonup> KnownFactory) \<Rightarrow> (nat \<Rightarrow> pool_calls) \<Rightarrow> address list \<Rightarrow> (pool_init_error + pool_data) list" where
  "InitializePools factoryMap calls poolAddrs = map (\<lambda>i. initialize_pool factoryMap (calls i) (poolAddrs ! i)) [0..<length poolAddrs]"

section \<open>Logs of Uniswap V3\<close>

text \<open>The unpacked fields of a Swap event are the price, the liquidity and the tick, which is an int64 after the conversion.\<close>

fun ExtractSwapsFromLogs ::
  "byte list \<Rightarrow> (byte list \<Rightarrow> string + int \<times> int \<times> int) \<Rightarrow> Log list \<Rightarrow> string + (address \<times> int \<times> int \<times> int) list" where
  "ExtractSwapsFromLogs swapEventID unpack [] = Inr []"
| "ExtractSwapsFromLogs swapEventID unpack (vLog # logs) =
     (if length (lgTopics vLog) > 0 \<and> lgTopics vLog ! 0 = swapEventID
      then case unpack (lgData vLog) of
             Inl err \<Rightarrow> Inl err
           | Inr (sqrtPrice, liquidity, tick) \<Rightarrow>
               (case ExtractSwapsFromLogs swapEventID unpack logs of
                  Inl err \<Rightarrow> Inl err
                | Inr rest \<Rightarrow> Inr ((lgAddress vLog, int64 tick, liquidity, sqrtPrice) # rest))
      else ExtractSwapsFromLogs swapEventID unpack logs)"

fun mints_loop :: "byte list \<Rightarrow> byte list \<Rightarrow> Log list \<Rightarrow> address list \<Rightarrow> address list" where
  "mints_loop mintEventID burnEventID [] pools = pools"
| "mints_loop mintEventID burnEventID (vLog # logs) pools =
     mints_loop mintEventID burnEventID logs
       (if length (lgTopics vLog) > 0 \<and> (lgTopics vLog ! 0 = mintEventID \<or> lgTopics vLog ! 0 = burnEventID) \<and> lgAddress vLog \<notin> set pools
        then pools @ [lgAddress vLog] else pools)"

definition ExtractMintsAndBurnsFromLogs :: "byte list \<Rightarrow> byte list \<Rightarrow> Log list \<Rightarrow> address list" where
  "ExtractMintsAndBurnsFromLogs mintEventID burnEventID logs = mints_loop mintEventID burnEventID logs []"

definition v3_DiscoverPools :: "byte list \<Rightarrow> (address, unit) range_order \<Rightarrow> Log list \<Rightarrow> address list" where
  "v3_DiscoverPools swapEventID ord logs =
     map fst (ord (foldl (\<lambda>m vLog. if length (lgTopics vLog) > 0 \<and> lgTopics vLog ! 0 = swapEventID then AList.update (lgAddress vLog) () m else m) [] logs))"

section \<open>Chunked fetching is exact\<close>

text \<open>The chunk that holds index \<open>i\<close>, and the chunks of a slice of \<open>n\<close> elements.\<close>

definition chunk_at :: "nat \<Rightarrow> nat \<Rightarrow> nat \<Rightarrow> nat \<times> nat" where
  "chunk_at c n k = (k * c, min n (Suc k * c))"

lemma chunk_loop_from:
  assumes c: "0 < c"
  shows "k + m = (n + c - 1) div c \<Longrightarrow> chunk_loop c n (k * c) acc = Some (acc @ map (chunk_at c n) [k..<k + m])"
proof (induction m arbitrary: k acc)
  case 0
  then have "n + c - 1 < Suc k * c"
    using c by (metis add.right_neutral dividend_less_div_times mult.commute add.commute mult_Suc)
  then have "\<not> k * c < n"
    by simp
  then show ?case
    by (simp add: chunk_loop.simps)
next
  case (Suc m)
  have "Suc k \<le> (n + c - 1) div c"
    using Suc.prems by simp
  then have "Suc k * c \<le> n + c - 1"
    using c by (simp only: less_eq_div_iff_mult_less_eq)
  then have lt: "k * c < n"
    using c by simp
  have step: "chunk_loop c n (k * c) acc = chunk_loop c n (Suc k * c) (acc @ [chunk_at c n k])"
    using lt by (subst chunk_loop.simps) (simp add: chunk_at_def min_def algebra_simps)
  show ?case
    using Suc.IH [of "Suc k" "acc @ [chunk_at c n k]"] Suc.prems by (simp add: step upt_conv_Cons del: upt_Suc)
qed

lemma chunk_loop_chunks:
  "0 < c \<Longrightarrow> chunk_loop c n 0 [] = Some (map (chunk_at c n) [0..<(n + c - 1) div c])"
  using chunk_loop_from [of c 0 "(n + c - 1) div c" n "[]"] by simp

lemma in_chunk_at:
  assumes "0 < c" "i < n"
  shows "fst (chunk_at c n k) \<le> i \<and> i < snd (chunk_at c n k) \<longleftrightarrow> k = i div c"
proof -
  have "k * c \<le> i \<and> i < Suc k * c \<longleftrightarrow> k = i div c"
    using assms(1) by (metis div_nat_eqI div_times_less_eq_dividend dividend_less_div_times mult.commute add.commute mult_Suc)
  then show ?thesis
    using assms(2) by (simp add: chunk_at_def)
qed

lemma chunk_of_index:
  fixes i c n :: nat
  assumes "0 < c" "i < n"
  shows "i div c < (n + c - 1) div c"
proof -
  have "i div c + 1 = (i + c) div c"
    using assms(1) by (simp add: div_add_self2)
  also have "\<dots> \<le> (n + c - 1) div c"
    using assms by (intro div_le_mono) simp
  finally show ?thesis
    by simp
qed

text \<open>
  A goroutine that fills the entries of its own range: \<open>fill\<close> runs on a well-formed state, its entries are as \<open>expected\<close> where they were
  blank before, and the others stay as they are.
\<close>

locale chunk_filler =
  fixes fill :: "nat \<times> nat \<Rightarrow> 's \<Rightarrow> 's option"
    and entry :: "'s \<Rightarrow> nat \<Rightarrow> 'e"
    and wf :: "'s \<Rightarrow> bool"
    and n :: nat
    and blank :: 'e
    and ok :: "nat \<times> nat \<Rightarrow> bool"
    and expected :: "nat \<times> nat \<Rightarrow> nat \<Rightarrow> 'e"
  assumes fill: "ok (s, e) \<Longrightarrow> s \<le> e \<Longrightarrow> e \<le> n \<Longrightarrow> wf st \<Longrightarrow> \<forall>i. s \<le> i \<and> i < e \<longrightarrow> entry st i = blank \<Longrightarrow>
    \<exists>st'. fill (s, e) st = Some st' \<and> wf st' \<and> (\<forall>i. entry st' i = (if s \<le> i \<and> i < e then expected (s, e) i else entry st i))"
begin

lemma fill_chunks:
  assumes c: "0 < c" and wf: "wf st" and ks: "distinct ks" "\<forall>k \<in> set ks. k < (n + c - 1) div c" "\<forall>k \<in> set ks. ok (chunk_at c n k)"
    and blank: "\<forall>i<n. i div c \<in> set ks \<longrightarrow> entry st i = blank"
  shows "\<exists>st'. run_chunks fill (map (chunk_at c n) ks) st = Some st' \<and> wf st' \<and>
    (\<forall>i<n. entry st' i = (if i div c \<in> set ks then expected (chunk_at c n (i div c)) i else entry st i))"
  using wf ks blank
proof (induction ks arbitrary: st)
  case Nil
  then show ?case
    by simp
next
  case (Cons k ks)
  let ?s = "fst (chunk_at c n k)" and ?e = "snd (chunk_at c n k)"
  have "Suc k \<le> (n + c - 1) div c"
    using Cons.prems(3) by (simp add: Suc_le_eq)
  then have "Suc k * c \<le> n + c - 1"
    using c by (simp only: less_eq_div_iff_mult_less_eq)
  then have se: "?s \<le> ?e" "?e \<le> n"
    using c by (simp_all add: chunk_at_def)
  have here: "?s \<le> i \<and> i < ?e \<longleftrightarrow> k = i div c" if "i < n" for i
    using in_chunk_at [OF c that] .
  have ok: "ok (?s, ?e)"
    using Cons.prems(4) by simp
  have "\<forall>i. ?s \<le> i \<and> i < ?e \<longrightarrow> entry st i = blank"
    using here se(2) Cons.prems(5) by (metis list.set_intros(1) order_less_le_trans)
  from fill [OF ok se Cons.prems(1) this] obtain st1
    where st1: "fill (chunk_at c n k) st = Some st1" "wf st1"
      and ent: "\<forall>i. entry st1 i = (if ?s \<le> i \<and> i < ?e then expected (chunk_at c n k) i else entry st i)"
    by (auto simp: prod_eq_iff)
  have ent: "entry st1 i = (if k = i div c then expected (chunk_at c n k) i else entry st i)" if "i < n" for i
    using ent here [OF that] by simp
  have "\<forall>i<n. i div c \<in> set ks \<longrightarrow> entry st1 i = blank"
    using ent Cons.prems(2,5) by auto
  from Cons.IH [OF st1(2) _ _ _ this] Cons.prems(2-4) obtain st2
    where "run_chunks fill (map (chunk_at c n) ks) st1 = Some st2" "wf st2"
      and "\<forall>i<n. entry st2 i = (if i div c \<in> set ks then expected (chunk_at c n (i div c)) i else entry st1 i)"
    by auto
  then show ?case
    using st1(1) ent Cons.prems(2) by auto
qed

lemma fill_all:
  assumes c: "0 < c" and wf: "wf st" and blank: "\<forall>i<n. entry st i = blank"
    and ok: "\<forall>k < (n + c - 1) div c. ok (chunk_at c n k)"
    and order: "mset (order (map (chunk_at c n) [0..<(n + c - 1) div c])) = mset (map (chunk_at c n) [0..<(n + c - 1) div c])"
  shows "\<exists>chunks st'. chunk_loop c n 0 [] = Some chunks \<and> run_chunks fill (order chunks) st = Some st' \<and> wf st' \<and>
    (\<forall>i<n. entry st' i = expected (chunk_at c n (i div c)) i)"
proof -
  let ?all = "[0..<(n + c - 1) div c]"
  let ?done = "order (map (chunk_at c n) ?all)"
  let ?ks = "map (\<lambda>ch. fst ch div c) ?done"
  have inv: "fst (chunk_at c n k) div c = k" for k
    using c by (simp add: chunk_at_def)
  have ks: "mset ?ks = mset ?all"
    unfolding mset_map order by (simp add: inv image_mset.compositionality comp_def flip: mset_map)
  have "set ?done = set (map (chunk_at c n) ?all)"
    using order by (rule mset_eq_setD)
  then have same: "map (chunk_at c n) ?ks = ?done"
    by (auto intro!: map_idI) (metis fst_conv inv)
  have "distinct ?ks" "set ?ks = set ?all"
    using mset_eq_imp_distinct_iff [OF ks] mset_eq_setD [OF ks] by simp_all
  then have "\<exists>st'. run_chunks fill (map (chunk_at c n) ?ks) st = Some st' \<and> wf st' \<and>
    (\<forall>i<n. entry st' i = (if i div c \<in> set ?ks then expected (chunk_at c n (i div c)) i else entry st i))"
    using blank ok by (intro fill_chunks [OF c wf]) auto
  then show ?thesis
    unfolding same chunk_loop_chunks [OF c] using chunk_of_index [OF c] \<open>set ?ks = set ?all\<close> by auto
qed

end

definition reserve_entry :: "reserves_out \<Rightarrow> nat \<Rightarrow> int option \<times> int option \<times> fetch_error option" where
  "reserve_entry st i = (roReserve0s st ! i, roReserve1s st ! i, roErrs st ! i)"

definition reserves_wf :: "nat \<Rightarrow> reserves_out \<Rightarrow> bool" where
  "reserves_wf n st \<longleftrightarrow> length (roReserve0s st) = n \<and> length (roReserve1s st) = n \<and> length (roErrs st) = n"

text \<open>What the answer of one pool means: an error, or the two reserves of the first two words.\<close>

definition decode_reserves :: "address \<Rightarrow> bool \<times> byte list \<Rightarrow> int option \<times> int option \<times> fetch_error option" where
  "decode_reserves pool res =
     (if \<not> fst res then (None, None, Some (ErrRevert pool))
      else if length (snd res) < 64 then (None, None, Some (ErrBadLen (length (snd res))))
      else (Some (big_SetBytes (take 32 (snd res))), Some (big_SetBytes (take 32 (drop 32 (snd res)))), None))"

abbreviation chunk_pools :: "address list \<Rightarrow> nat \<times> nat \<Rightarrow> address list" where
  "chunk_pools pools chunk \<equiv> take (snd chunk - fst chunk) (drop (fst chunk) pools)"

definition expected_reserves ::
  "(nat \<times> nat \<Rightarrow> address list \<Rightarrow> string + (bool \<times> byte list) list) \<Rightarrow> address list \<Rightarrow> nat \<times> nat \<Rightarrow> nat \<Rightarrow> int option \<times> int option \<times> fetch_error option" where
  "expected_reserves call pools chunk i = (case call chunk (chunk_pools pools chunk) of
     Inl err \<Rightarrow> (None, None, Some (ErrChunk err))
   | Inr results \<Rightarrow> decode_reserves (pools ! i) (results ! (i - fst chunk)))"

lemma markChunkError_set:
  "\<forall>i \<in> set is. i < length errs \<Longrightarrow>
   length (markChunkError err is errs) = length errs \<and> (\<forall>i. markChunkError err is errs ! i = (if i \<in> set is then Some err else errs ! i))"
  by (induction "is" arbitrary: errs) (auto simp: nth_list_update)

lemma put_reserves_entry:
  assumes "reserves_wf n st" "idx < n" "reserve_entry st idx = (None, None, None)"
  shows "reserves_wf n (put_reserves pools idx res st) \<and>
    reserve_entry (put_reserves pools idx res st) i = (if i = idx then decode_reserves (pools ! idx) res else reserve_entry st i)"
  using assms by (cases res) (auto simp: put_reserves_def reserves_wf_def reserve_entry_def decode_reserves_def nth_list_update)

lemma put_results_entries:
  "reserves_wf (length pools) st \<Longrightarrow> idx + length rs \<le> length pools \<Longrightarrow>
   \<forall>i. idx \<le> i \<and> i < idx + length rs \<longrightarrow> reserve_entry st i = (None, None, None) \<Longrightarrow>
   \<exists>st'. put_results pools idx rs st = Some st' \<and> reserves_wf (length pools) st' \<and>
     (\<forall>i. reserve_entry st' i = (if idx \<le> i \<and> i < idx + length rs then decode_reserves (pools ! i) (rs ! (i - idx)) else reserve_entry st i))"
proof (induction rs arbitrary: idx st)
  case Nil
  then show ?case
    by auto
next
  case (Cons res rs)
  let ?st = "put_reserves pools idx res st"
  have put: "reserves_wf (length pools) ?st"
    "reserve_entry ?st i = (if i = idx then decode_reserves (pools ! idx) res else reserve_entry st i)" for i
    using put_reserves_entry [OF Cons.prems(1), of idx] Cons.prems(2,3) by simp_all
  have "\<forall>i. Suc idx \<le> i \<and> i < Suc idx + length rs \<longrightarrow> reserve_entry ?st i = (None, None, None)"
    using put(2) Cons.prems(3) by simp
  from Cons.IH [OF put(1) _ this] Cons.prems(2) obtain st' where st': "put_results pools (Suc idx) rs ?st = Some st'" "reserves_wf (length pools) st'"
    "\<forall>i. reserve_entry st' i = (if Suc idx \<le> i \<and> i < Suc idx + length rs then decode_reserves (pools ! i) (rs ! (i - Suc idx)) else reserve_entry ?st i)"
    by auto
  have "put_results pools idx (res # rs) st = Some st'"
    using Cons.prems(2) st'(1) by simp
  moreover have "reserve_entry st' i =
      (if idx \<le> i \<and> i < idx + length (res # rs) then decode_reserves (pools ! i) ((res # rs) ! (i - idx)) else reserve_entry st i)" for i
    using st'(3) put(2) by (cases "i = idx") (auto simp: nth_Cons' )
  ultimately show ?case
    using st'(2) by blast
qed

lemma chunk_pools_at: "chunk_pools pools (chunk_at c (length pools) k) = take c (drop (k * c) pools)"
proof -
  have "min (length pools) (Suc k * c) - k * c = min c (length (drop (k * c) pools))"
    by (auto simp: min_def)
  then show ?thesis
    by (simp add: chunk_at_def min_def)
qed

lemma chunk_offset: "i - fst (chunk_at c n (i div c)) = i mod c"
  by (simp add: chunk_at_def minus_div_mult_eq_mod)

lemma chunk_nth:
  assumes "0 < c" "i < length pools"
  shows "i mod c < length (take c (drop (i div c * c) pools))" "take c (drop (i div c * c) pools) ! (i mod c) = pools ! i"
proof -
  have *: "i div c * c + i mod c = i" "i mod c < c"
    using assms(1) by simp_all
  then show "i mod c < length (take c (drop (i div c * c) pools))"
    using assms(2) by (simp add: less_diff_conv add.commute)
  have "i div c * c \<le> length pools"
    using div_times_less_eq_dividend [of i c] assms(2) by linarith
  then have "drop (i div c * c) pools ! (i mod c) = pools ! i"
    by (simp only: nth_drop *(1))
  then show "take c (drop (i div c * c) pools) ! (i mod c) = pools ! i"
    using *(2) by simp
qed

text \<open>The client answers with an error or with one result for each call of the batch.\<close>

definition answered :: "(nat \<times> nat \<Rightarrow> address list \<Rightarrow> 'err + 'r list) \<Rightarrow> address list \<Rightarrow> nat \<times> nat \<Rightarrow> bool" where
  "answered call pools chunk = (case call chunk (chunk_pools pools chunk) of
     Inl err \<Rightarrow> True
   | Inr results \<Rightarrow> length results = length (chunk_pools pools chunk))"

interpretation rs: chunk_filler "\<lambda>c. processChunk (call c) pools c" reserve_entry "reserves_wf (length pools)" "length pools"
    "(None, None, None)" "answered call pools" "expected_reserves call pools" for call pools
proof unfold_locales
  fix s e st
  assume ok: "answered call pools (s, e)" and
    *: "s \<le> e" "e \<le> length pools" "reserves_wf (length pools) st" "\<forall>i. s \<le> i \<and> i < e \<longrightarrow> reserve_entry st i = (None, None, None)"
  show "\<exists>st'. processChunk (call (s, e)) pools (s, e) st = Some st' \<and> reserves_wf (length pools) st' \<and>
    (\<forall>i. reserve_entry st' i = (if s \<le> i \<and> i < e then expected_reserves call pools (s, e) i else reserve_entry st i))"
  proof (cases "call (s, e) (take (e - s) (drop s pools))")
    case (Inl err)
    have "\<forall>i \<in> set [s..<e]. i < length (roErrs st)"
      using *(2,3) by (auto simp: reserves_wf_def)
    from markChunkError_set [OF this, of "ErrChunk err"] Inl *(3,4) show ?thesis
      by (auto simp: processChunk_def expected_reserves_def reserves_wf_def reserve_entry_def)
  next
    case (Inr results)
    have len: "s + length results = e"
      using ok *(1,2) by (simp add: answered_def Inr)
    have "\<exists>st'. put_results pools s results st = Some st' \<and> reserves_wf (length pools) st' \<and>
      (\<forall>i. reserve_entry st' i = (if s \<le> i \<and> i < s + length results then decode_reserves (pools ! i) (results ! (i - s)) else reserve_entry st i))"
      using * len by (intro put_results_entries) simp_all
    then show ?thesis
      by (simp add: processChunk_def expected_reserves_def Inr len cong: if_cong)
  qed
qed

lemma new_reserves_blank:
  "reserves_wf n (new_reserves n)" "i < n \<Longrightarrow> reserve_entry (new_reserves n) i = (None, None, None)"
  by (simp_all add: new_reserves_def reserves_wf_def reserve_entry_def)

definition info_entry :: "info_out \<Rightarrow> nat \<Rightarrow> pool_info option \<times> string option" where
  "info_entry st i = (ioInfos st ! i, ioErrs st ! i)"

definition infos_wf :: "nat \<Rightarrow> info_out \<Rightarrow> bool" where
  "infos_wf n st \<longleftrightarrow> length (ioInfos st) = n \<and> length (ioErrs st) = n"

definition decode_info :: "string + pool_info \<Rightarrow> pool_info option \<times> string option" where
  "decode_info item = (case item of Inl err \<Rightarrow> (None, Some err) | Inr info \<Rightarrow> (Some info, None))"

definition expected_info ::
  "(nat \<times> nat \<Rightarrow> address list \<Rightarrow> string + (string + pool_info) list) \<Rightarrow> address list \<Rightarrow> nat \<times> nat \<Rightarrow> nat \<Rightarrow> pool_info option \<times> string option" where
  "expected_info provider pools chunk i = (case provider chunk (chunk_pools pools chunk) of
     Inl err \<Rightarrow> (None, Some err)
   | Inr items \<Rightarrow> decode_info (items ! (i - fst chunk)))"

lemma put_infos_entries:
  "infos_wf n st \<Longrightarrow> idx + length items \<le> n \<Longrightarrow> \<forall>i. idx \<le> i \<and> i < idx + length items \<longrightarrow> info_entry st i = (None, None) \<Longrightarrow>
   infos_wf n (put_infos idx items st) \<and>
   (\<forall>i. info_entry (put_infos idx items st) i = (if idx \<le> i \<and> i < idx + length items then decode_info (items ! (i - idx)) else info_entry st i))"
proof (induction items arbitrary: idx st)
  case Nil
  then show ?case
    by auto
next
  case (Cons item items)
  let ?st = "put_info idx item st"
  have put: "infos_wf n ?st" "info_entry ?st i = (if i = idx then decode_info item else info_entry st i)" for i
    using Cons.prems by (auto simp: put_info_def infos_wf_def info_entry_def decode_info_def nth_list_update split: sum.split)
  have "\<forall>i. Suc idx \<le> i \<and> i < Suc idx + length items \<longrightarrow> info_entry ?st i = (None, None)"
    using put(2) Cons.prems(3) by simp
  from Cons.IH [OF put(1) _ this] Cons.prems(2) have
    "infos_wf n (put_infos (Suc idx) items ?st)"
    "\<forall>i. info_entry (put_infos (Suc idx) items ?st) i =
       (if Suc idx \<le> i \<and> i < Suc idx + length items then decode_info (items ! (i - Suc idx)) else info_entry ?st i)"
    by simp_all
  then show ?case
    using put(2) by (auto simp: nth_Cons')
qed

text \<open>The provider answers with at least one item for each pool of the chunk.\<close>

definition provided :: "(nat \<times> nat \<Rightarrow> address list \<Rightarrow> 'err + 'r list) \<Rightarrow> address list \<Rightarrow> nat \<times> nat \<Rightarrow> bool" where
  "provided call pools chunk = (case call chunk (chunk_pools pools chunk) of
     Inl err \<Rightarrow> True
   | Inr results \<Rightarrow> length (chunk_pools pools chunk) \<le> length results)"

interpretation info: chunk_filler "\<lambda>c. info_chunk (provider c) pools c" info_entry "infos_wf (length pools)" "length pools"
    "(None, None)" "provided provider pools" "expected_info provider pools" for provider pools
proof unfold_locales
  fix s e st
  assume ok: "provided provider pools (s, e)" and
    *: "s \<le> e" "e \<le> length pools" "infos_wf (length pools) st" "\<forall>i. s \<le> i \<and> i < e \<longrightarrow> info_entry st i = (None, None)"
  let ?chunk = "take (e - s) (drop s pools)"
  let ?items = "case provider (s, e) ?chunk of Inl err \<Rightarrow> map (\<lambda>_. Inl err) ?chunk | Inr items \<Rightarrow> take (length ?chunk) items"
  have len: "s + length ?items = e"
    using ok * by (auto simp: provided_def split: sum.split)
  have chunk: "info_chunk (provider (s, e)) pools (s, e) st = Some (put_infos s ?items st)"
    using ok by (auto simp: info_chunk_def provided_def Let_def split: sum.split)
  have nth: "decode_info (?items ! (i - s)) = expected_info provider pools (s, e) i" if "s \<le> i \<and> i < e" for i
    using that ok * by (auto simp: expected_info_def provided_def decode_info_def split: sum.split)
  have "infos_wf (length pools) (put_infos s ?items st) \<and>
    (\<forall>i. info_entry (put_infos s ?items st) i = (if s \<le> i \<and> i < s + length ?items then decode_info (?items ! (i - s)) else info_entry st i))"
    by (intro put_infos_entries) (use * len in simp_all)
  then show "\<exists>st'. info_chunk (provider (s, e)) pools (s, e) st = Some st' \<and> infos_wf (length pools) st' \<and>
    (\<forall>i. info_entry st' i = (if s \<le> i \<and> i < e then expected_info provider pools (s, e) i else info_entry st i))"
    unfolding chunk len by (auto simp: nth)
qed

text \<open>
  C32: \<^verbatim>\<open>NewGetReserves\<close> with a positive chunk size and limit returns, for every order in which the goroutines of the chunks finish and provided that a batch call fails
  or answers every pool, three lists of the length of the request: each pool has the error of the call of its chunk, or the
  meaning of its own answer. Once the calls answer pool by pool, the result depends on neither the chunk size nor the order.
\<close>

theorem reserves_batch_exact:
  fixes chunkSize :: nat
  assumes calls: "0 < maxConcurrentCalls" and size: "0 < chunkSize" and order: "\<forall>chunks. mset (order chunks) = mset chunks"
    and answers: "\<forall>chunk pools results. call chunk pools = Inr results \<longrightarrow> length results = length pools"
  shows "\<exists>out. GetReserves maxConcurrentCalls (int chunkSize) order call poolAddrs = Some out \<and>
    length (roReserve0s out) = length poolAddrs \<and> length (roReserve1s out) = length poolAddrs \<and> length (roErrs out) = length poolAddrs \<and>
    (\<forall>i < length poolAddrs. (roReserve0s out ! i, roReserve1s out ! i, roErrs out ! i) =
       (case call (chunk_at chunkSize (length poolAddrs) (i div chunkSize)) (take chunkSize (drop (i div chunkSize * chunkSize) poolAddrs)) of
          Inl err \<Rightarrow> (None, None, Some (ErrChunk err))
        | Inr results \<Rightarrow> decode_reserves (poolAddrs ! i) (results ! (i mod chunkSize)))) \<and>
    ((\<forall>chunk pools. call chunk pools = Inr (map answer pools)) \<longrightarrow>
       (\<forall>i < length poolAddrs. (roReserve0s out ! i, roReserve1s out ! i, roErrs out ! i) = decode_reserves (poolAddrs ! i) (answer (poolAddrs ! i))))"
proof -
  let ?n = "length poolAddrs"
  have ok: "answered call poolAddrs c" for c
    unfolding answered_def using answers by (auto split: sum.split simp del: length_take length_drop split_paired_All)
  have "\<exists>chunks out. chunk_loop chunkSize ?n 0 [] = Some chunks \<and>
      run_chunks (\<lambda>c. processChunk (call c) poolAddrs c) (order chunks) (new_reserves ?n) = Some out \<and> reserves_wf ?n out \<and>
      (\<forall>i<?n. reserve_entry out i = expected_reserves call poolAddrs (chunk_at chunkSize ?n (i div chunkSize)) i)"
    using order ok by (intro rs.fill_all size) (simp_all add: new_reserves_blank)
  then obtain chunks out where out: "chunk_loop chunkSize ?n 0 [] = Some chunks"
      "run_chunks (\<lambda>c. processChunk (call c) poolAddrs c) (order chunks) (new_reserves ?n) = Some out" "reserves_wf ?n out"
    and entries: "\<forall>i<?n. reserve_entry out i = expected_reserves call poolAddrs (chunk_at chunkSize ?n (i div chunkSize)) i"
    by blast
  have empty: "order [] = []"
    using order by (metis mset.simps(1) mset_zero_iff)
  have "GetReserves maxConcurrentCalls (int chunkSize) order call poolAddrs = Some out"
    using out(1,2) chunk_loop_chunks [OF size, of 0] empty size calls by (cases "poolAddrs = []") (auto simp: GetReserves_def)
  moreover have "length (roReserve0s out) = ?n" "length (roReserve1s out) = ?n" "length (roErrs out) = ?n"
    using out(3) by (simp_all add: reserves_wf_def)
  moreover have entry: "(roReserve0s out ! i, roReserve1s out ! i, roErrs out ! i) =
       (case call (chunk_at chunkSize ?n (i div chunkSize)) (take chunkSize (drop (i div chunkSize * chunkSize) poolAddrs)) of
          Inl err \<Rightarrow> (None, None, Some (ErrChunk err))
        | Inr results \<Rightarrow> decode_reserves (poolAddrs ! i) (results ! (i mod chunkSize)))" if "i < ?n" for i
    using entries that unfolding reserve_entry_def expected_reserves_def chunk_pools_at chunk_offset
    by simp
  moreover have "(roReserve0s out ! i, roReserve1s out ! i, roErrs out ! i) = decode_reserves (poolAddrs ! i) (answer (poolAddrs ! i))"
    if "\<forall>chunk pools. call chunk pools = Inr (map answer pools)" "i < ?n" for i
    using entry [OF that(2)] that chunk_nth [OF size that(2)] by simp
  ultimately show ?thesis
    by blast
qed

text \<open>Five pools in chunks of two, the last chunk first: the middle call fails, the fourth pool is in it, and the fifth pool reverts.\<close>

lemma reserves_batch_exact_witness:
  "(\<exists>out. GetReserves 4 2 rev
       (\<lambda>chunk pools. if fst chunk = 2 then Inl ''timeout'' else Inr (map (\<lambda>p. (p \<noteq> [5], replicate 31 0 @ p @ replicate 32 0)) pools))
       [[1], [2], [3], [4], [5]] = Some out \<and>
     (roReserve0s out ! 1, roReserve1s out ! 1, roErrs out ! 1) = (Some 2, Some 0, None) \<and>
     (roReserve0s out ! 3, roReserve1s out ! 3, roErrs out ! 3) = (None, None, Some (ErrChunk ''timeout'')) \<and>
     (roReserve0s out ! 4, roReserve1s out ! 4, roErrs out ! 4) = (None, None, Some (ErrRevert [5])))"
proof -
  let ?call = "\<lambda>chunk :: nat \<times> nat. \<lambda>pools :: address list.
    if fst chunk = 2 then Inl ''timeout'' else Inr (map (\<lambda>p. (p \<noteq> [5], replicate 31 0 @ p @ replicate 32 0)) pools)"
  have "\<forall>chunk pools results. ?call chunk pools = Inr results \<longrightarrow> length results = length pools"
    by auto
  note * = reserves_batch_exact [where maxConcurrentCalls = 4 and chunkSize = 2 and order = rev and call = ?call and poolAddrs = "[[1], [2], [3], [4], [5]]"
    and answer = "\<lambda>_. (True, [])", OF _ _ _ this]
  obtain out where out: "GetReserves 4 2 rev ?call [[1], [2], [3], [4], [5]] = Some out"
    and entries: "\<forall>i < length [[1], [2], [3], [4], [5 :: byte]]. (roReserve0s out ! i, roReserve1s out ! i, roErrs out ! i) =
       (case ?call (chunk_at 2 (length [[1], [2], [3], [4], [5 :: byte]]) (i div 2)) (take 2 (drop (i div 2 * 2) [[1], [2], [3], [4], [5]])) of
          Inl err \<Rightarrow> (None, None, Some (ErrChunk err))
        | Inr results \<Rightarrow> decode_reserves ([[1], [2], [3], [4], [5]] ! i) (results ! (i mod 2)))"
    by (rule exE [OF *]) (simp, simp, simp, auto)
  have zeros: "foldl (\<lambda>n b. n * 256 + uint b) 0 (replicate k (0 :: byte)) = 0" for k
    by (induction k) simp_all
  have "(roReserve0s out ! 1, roReserve1s out ! 1, roErrs out ! 1) = (Some 2, Some 0, None)"
    using entries [rule_format, of 1] by (simp add: chunk_at_def decode_reserves_def big_SetBytes_def zeros)
  moreover have "(roReserve0s out ! 3, roReserve1s out ! 3, roErrs out ! 3) = (None, None, Some (ErrChunk ''timeout''))"
    using entries [rule_format, of 3] by (simp add: chunk_at_def)
  moreover have "(roReserve0s out ! 4, roReserve1s out ! 4, roErrs out ! 4) = (None, None, Some (ErrRevert [5]))"
    using entries [rule_format, of 4] by (simp add: chunk_at_def decode_reserves_def)
  ultimately show ?thesis
    using out by blast
qed

text \<open>The pool state of Uniswap V3, fetched in the same way: every pool has the error of its chunk or its own answer.\<close>

theorem infos_batch_exact:
  assumes calls: "0 < maxConcurrentCalls" and size: "0 < chunkSize" and order: "\<forall>chunks. mset (order chunks) = mset chunks"
    and answers: "\<forall>chunk pools items. provider chunk pools = Inr items \<longrightarrow> length pools \<le> length items"
  shows "\<exists>f out. NewPoolInfoFunc maxConcurrentCalls chunkSize = Inr f \<and> f order provider poolAddrs = Some out \<and>
    length (ioInfos out) = length poolAddrs \<and> length (ioErrs out) = length poolAddrs \<and>
    (\<forall>i < length poolAddrs. (ioInfos out ! i, ioErrs out ! i) =
       (case provider (chunk_at (nat chunkSize) (length poolAddrs) (i div nat chunkSize)) (take (nat chunkSize) (drop (i div nat chunkSize * nat chunkSize) poolAddrs)) of
          Inl err \<Rightarrow> (None, Some err)
        | Inr items \<Rightarrow> decode_info (items ! (i mod nat chunkSize))))"
proof -
  let ?n = "length poolAddrs" and ?c = "nat chunkSize"
  let ?new = "\<lparr>ioInfos = replicate ?n None, ioErrs = replicate ?n None\<rparr>"
  have c: "0 < ?c"
    using size by simp
  have ok: "provided provider poolAddrs ch" for ch
    unfolding provided_def using answers by (auto split: sum.split simp del: length_take length_drop split_paired_All)
  have "\<exists>chunks out. chunk_loop ?c ?n 0 [] = Some chunks \<and>
      run_chunks (\<lambda>c. info_chunk (provider c) poolAddrs c) (order chunks) ?new = Some out \<and> infos_wf ?n out \<and>
      (\<forall>i<?n. info_entry out i = expected_info provider poolAddrs (chunk_at ?c ?n (i div ?c)) i)"
    using order ok by (intro info.fill_all c) (simp_all add: infos_wf_def info_entry_def)
  then obtain chunks out where out: "chunk_loop ?c ?n 0 [] = Some chunks"
      "run_chunks (\<lambda>c. info_chunk (provider c) poolAddrs c) (order chunks) ?new = Some out" "infos_wf ?n out"
    and entries: "\<forall>i<?n. info_entry out i = expected_info provider poolAddrs (chunk_at ?c ?n (i div ?c)) i"
    by blast
  have empty: "order [] = []"
    using order by (metis mset.simps(1) mset_zero_iff)
  have "\<exists>f. NewPoolInfoFunc maxConcurrentCalls chunkSize = Inr f \<and> f order provider poolAddrs = Some out"
    using calls size out(1,2) chunk_loop_chunks [OF c, of 0] empty c by (cases "poolAddrs = []") (auto simp: NewPoolInfoFunc_def)
  moreover have "length (ioInfos out) = ?n" "length (ioErrs out) = ?n"
    using out(3) by (simp_all add: infos_wf_def)
  moreover have "(ioInfos out ! i, ioErrs out ! i) =
       (case provider (chunk_at ?c ?n (i div ?c)) (take ?c (drop (i div ?c * ?c) poolAddrs)) of
          Inl err \<Rightarrow> (None, Some err) | Inr items \<Rightarrow> decode_info (items ! (i mod ?c)))" if "i < ?n" for i
    using entries that unfolding info_entry_def expected_info_def chunk_pools_at chunk_offset by simp
  ultimately show ?thesis
    by blast
qed

text \<open>
  \<^verbatim>\<open>NewGetReserves\<close> does not check its chunk size as \<^verbatim>\<open>NewPoolInfoFunc\<close> does: with 0 the loop never ends.
\<close>

lemma chunk_loop_zero:
  assumes "0 < n"
  shows "chunk_loop 0 n 0 acc = None"
proof -
  have "i = 0 \<longrightarrow> c = 0 \<longrightarrow> \<not> 0 < m" if "chunk_loop c m i acc = Some r" for c m i acc r
    using that by (rule chunk_loop.raw_induct [where P = "\<lambda>c m i acc r. i = 0 \<longrightarrow> c = 0 \<longrightarrow> \<not> 0 < m", rotated]) (auto split: if_splits)
  then show ?thesis
    using assms by (metis option.exhaust)
qed

theorem GetReserves_zero_chunk: "poolAddrs \<noteq> [] \<Longrightarrow> GetReserves maxConcurrentCalls 0 order call poolAddrs = None"
  by (simp add: GetReserves_def chunk_loop_zero)

section \<open>Initializer and logs\<close>

text \<open>
  A pool is initialized only when it comes from a known factory that has it as the canonical pair of its two tokens; it gets the fee of
  that factory and the reserves of the pool.
\<close>

lemma checked_Inr: "checked n answer = Inr out \<longleftrightarrow> answer = Inr out \<and> length out = n"
  by (auto simp: checked_def split: sum.split)

theorem initialize_pool_canonical:
  assumes "initialize_pool factoryMap c poolAddr = Inr d"
  shows "\<exists>fo f po ro. pcContext c = None \<and> pcFactory c = Inr fo \<and> factoryMap (word_address fo) = Some f \<and>
    getTokens c = Inr (pdToken0 d, pdToken1 d) \<and> pcGetPair c (word_address fo) (pdToken0 d) (pdToken1 d) = Inr po \<and> word_address po = poolAddr \<and>
    pdFeeBps d = kfFeeBps f \<and> pcReserves c = Inr ro \<and> length ro = 96 \<and>
    pdReserve0 d = big_SetBytes (take 32 ro) \<and> pdReserve1 d = big_SetBytes (take 32 (drop 32 ro))"
  using assms by (auto simp: initialize_pool_def Let_def checked_Inr split: option.splits sum.splits prod.splits if_splits)

lemma NewPoolInitializer_last:
  "NewPoolInitializer fs m = Inr factoryMap \<Longrightarrow> factoryMap a = map_of (rev (map (\<lambda>f. (kfAddress f, f)) fs)) a"
proof -
  have "foldl (\<lambda>m f. m(kfAddress f \<mapsto> f)) Map.empty fs = map_of (rev (map (\<lambda>f. (kfAddress f, f)) fs))"
    by (induction fs rule: rev_induct) simp_all
  then show "NewPoolInitializer fs m = Inr factoryMap \<Longrightarrow> factoryMap a = map_of (rev (map (\<lambda>f. (kfAddress f, f)) fs)) a"
    by (auto simp: NewPoolInitializer_def split: if_splits)
qed

lemma mints_loop_set:
  "distinct pools \<Longrightarrow> distinct (mints_loop mint burn logs pools) \<and>
   set (mints_loop mint burn logs pools) =
     set pools \<union> {lgAddress l | l. l \<in> set logs \<and> lgTopics l \<noteq> [] \<and> (lgTopics l ! 0 = mint \<or> lgTopics l ! 0 = burn)}"
  by (induction mint burn logs pools rule: mints_loop.induct) auto

lemma ExtractMintsAndBurns_exact:
  "distinct (ExtractMintsAndBurnsFromLogs mint burn logs)"
  "set (ExtractMintsAndBurnsFromLogs mint burn logs) =
     {lgAddress l | l. l \<in> set logs \<and> lgTopics l \<noteq> [] \<and> (lgTopics l ! 0 = mint \<or> lgTopics l ! 0 = burn)}"
  using mints_loop_set [of "[]" mint burn logs] by (simp_all add: ExtractMintsAndBurnsFromLogs_def)

text \<open>The swaps of a block come in the order of its logs; one log that does not unpack fails the whole block.\<close>

lemma ExtractSwaps_exact:
  "ExtractSwapsFromLogs swapEventID unpack logs =
     (let swaps = filter (\<lambda>l. lgTopics l \<noteq> [] \<and> lgTopics l ! 0 = swapEventID) logs in
      case List.find (\<lambda>l. isl (unpack (lgData l))) swaps of
        Some l \<Rightarrow> Inl (projl (unpack (lgData l)))
      | None \<Rightarrow> Inr (map (\<lambda>l. case projr (unpack (lgData l)) of (sqrtPrice, liquidity, tick) \<Rightarrow> (lgAddress l, int64 tick, liquidity, sqrtPrice)) swaps))"
  by (induction swapEventID unpack logs rule: ExtractSwapsFromLogs.induct) (auto simp: Let_def split: sum.splits option.splits)

end
