(* ===== verification/Contract_Calls.thy ===== *)
theory Contract_Calls
  imports Batch_Fetch
begin

text \<open>
  The functions that read Uniswap V3 contracts (\<^verbatim>\<open>src/protocols/uniswap-v3/contracts\<close>): tick bitmaps and ticks, which are fetched in batches by an
  error group, the state of a batch of pools, and the data of a new pool; the initializer of Uniswap V3 pools with its factory
  check, the ticks that the logs of a block touch, and the bit positions of \<^verbatim>\<open>bitmath\<close>. The ABI packages and the calls of
  a node are arguments. The forks of the contracts have the same functions with another ABI.
\<close>

unbundle bit_operations_syntax

section \<open>Multicalls\<close>

text \<open>
  The ABI functions and the node as one goroutine meets them: packing of one call, packing of the calls, the call itself, and unpacking of its results.
\<close>

record 'a multicall =
  mcPackCall :: "'a \<Rightarrow> string + byte list"
  mcPack :: "(address \<times> byte list) list \<Rightarrow> string + byte list"
  mcCall :: "byte list \<Rightarrow> string + byte list"
  mcUnpack :: "byte list \<Rightarrow> string + (bool \<times> byte list) list"

datatype call_error = ErrPackCall string | ErrPackMulticall string | ErrMulticallRPC string | ErrUnpackMulticall string | ErrUnpackReturn string

fun pack_calls :: "('a \<Rightarrow> string + byte list) \<Rightarrow> address \<Rightarrow> 'a list \<Rightarrow> string + (address \<times> byte list) list" where
  "pack_calls pack pool [] = Inr []"
| "pack_calls pack pool (x # xs) =
     (case pack x of
        Inl err \<Rightarrow> Inl err
      | Inr callData \<Rightarrow> (case pack_calls pack pool xs of Inl err \<Rightarrow> Inl err | Inr calls \<Rightarrow> Inr ((pool, callData) # calls)))"

text \<open>An empty answer of the node counts as an answer without results.\<close>

definition fetch_batch :: "'a multicall \<Rightarrow> address \<Rightarrow> 'a list \<Rightarrow> call_error + (bool \<times> byte list) list" where
  "fetch_batch mc pool batch =
     (case pack_calls (mcPackCall mc) pool batch of
        Inl err \<Rightarrow> Inl (ErrPackCall err)
      | Inr calls \<Rightarrow>
          (case mcPack mc calls of
             Inl err \<Rightarrow> Inl (ErrPackMulticall err)
           | Inr multicallInput \<Rightarrow>
               (case mcCall mc multicallInput of
                  Inl err \<Rightarrow> Inl (ErrMulticallRPC err)
                | Inr returnData \<Rightarrow>
                    if returnData = [] then Inr []
                    else (case mcUnpack mc returnData of Inl err \<Rightarrow> Inl (ErrUnpackMulticall err) | Inr results \<Rightarrow> Inr results))))"

definition fetchBitMapBatch :: "int multicall \<Rightarrow> address \<Rightarrow> int list \<Rightarrow> call_error + (bool \<times> byte list) list" where
  "fetchBitMapBatch mc pool batch = fetch_batch mc pool batch"

definition fetchTickInfoBatch :: "int multicall \<Rightarrow> address \<Rightarrow> int list \<Rightarrow> call_error + (bool \<times> byte list) list" where
  "fetchTickInfoBatch mc pool batch = fetch_batch mc pool batch"

text \<open>
  An error group: the goroutines write to a shared value under a mutex, and \<^verbatim>\<open>Wait\<close> returns the first error. \<open>work\<close> is what the goroutine of a
  batch does to the value, with an error if it ends with one, or \<open>None\<close> if it panics.
\<close>

definition group_step :: "(nat \<times> nat \<Rightarrow> 's \<Rightarrow> (call_error option \<times> 's) option) \<Rightarrow> nat \<times> nat \<Rightarrow> call_error option \<times> 's \<Rightarrow> (call_error option \<times> 's) option" where
  "group_step work chunk st =
     (case work chunk (snd st) of
        None \<Rightarrow> None
      | Some (err, s) \<Rightarrow> Some (case fst st of Some first \<Rightarrow> Some first | None \<Rightarrow> err, s))"

text \<open>
  The batches of \<open>n\<close> items, done in \<open>order\<close>. Without items nothing is started. A limit of 0 lets no goroutine start, so that the first \<^verbatim>\<open>Go\<close> blocks for
  ever; a batch size that is not positive gives an endless loop or a panic.
\<close>

definition run_group ::
  "int \<Rightarrow> int \<Rightarrow> ((nat \<times> nat) list \<Rightarrow> (nat \<times> nat) list) \<Rightarrow> (nat \<times> nat \<Rightarrow> 's \<Rightarrow> (call_error option \<times> 's) option) \<Rightarrow> nat \<Rightarrow> 's \<Rightarrow>
   (call_error + 's) option" where
  "run_group batchSize maxConcurrency order work n s =
     (if n = 0 then Some (Inr s)
      else if maxConcurrency = 0 \<or> batchSize < 0 then None
      else case chunk_loop (nat batchSize) n 0 [] of
             None \<Rightarrow> None
           | Some chunks \<Rightarrow>
               (case run_chunks (group_step work) (order chunks) (None, s) of
                  None \<Rightarrow> None
                | Some (Some err, _) \<Rightarrow> Some (Inl err)
                | Some (None, s') \<Rightarrow> Some (Inr s')))"

section \<open>Tick bitmaps\<close>

definition int16 :: "int \<Rightarrow> int" where
  "int16 x = signed_take_bit 15 x"

text \<open>
  The word positions of a tick spacing. A spacing of 0 is a division by zero, and a spacing above the range of int64 gives a negative length: \<open>None\<close>.
\<close>

definition word_positions :: "uint64 \<Rightarrow> int list option" where
  "word_positions tickSpacing =
     (if tickSpacing = 0 then None
      else let minWordPos = int16 (drop_bit 8 (go_quot TICKS_MIN_TICK (sint tickSpacing)));
               maxWordPos = int16 (drop_bit 8 (go_quot TICKS_MAX_TICK (sint tickSpacing)));
               totalWords = int16 (int16 (maxWordPos - minWordPos) + 1)
           in if totalWords < 0 then None else Some (map (\<lambda>i. int16 (minWordPos + int16 (int i))) [0..<nat totalWords]))"

text \<open>The results of one batch; a result beyond the batch is an index error, which panics.\<close>

fun put_words :: "(byte list \<Rightarrow> string + int list) \<Rightarrow> int list \<Rightarrow> (bool \<times> byte list) list \<Rightarrow> Bitmap \<Rightarrow> (call_error option \<times> Bitmap) option" where
  "put_words unpack batch [] bitmap = Some (None, bitmap)"
| "put_words unpack batch ((success, returnData) # results) bitmap =
     (if success \<and> length returnData > 0
      then case unpack returnData of
             Inl err \<Rightarrow> Some (Some (ErrUnpackReturn err), bitmap)
           | Inr [] \<Rightarrow> put_words unpack (tl batch) results bitmap
           | Inr (wordValue # _) \<Rightarrow>
               if wordValue > 0
               then (case batch of [] \<Rightarrow> None | wordPos # _ \<Rightarrow> put_words unpack (tl batch) results (AList.update wordPos (Some wordValue) bitmap))
               else put_words unpack (tl batch) results bitmap
      else put_words unpack (tl batch) results bitmap)"

definition batch_of :: "'a list \<Rightarrow> nat \<times> nat \<Rightarrow> 'a list" where
  "batch_of xs chunk = take (snd chunk - fst chunk) (drop (fst chunk) xs)"

definition bitmap_work ::
  "(nat \<times> nat \<Rightarrow> int multicall) \<Rightarrow> (byte list \<Rightarrow> string + int list) \<Rightarrow> address \<Rightarrow> int list \<Rightarrow> nat \<times> nat \<Rightarrow> Bitmap \<Rightarrow> (call_error option \<times> Bitmap) option" where
  "bitmap_work mc unpack pool wordPositions chunk bitmap =
     (case fetchBitMapBatch (mc chunk) pool (batch_of wordPositions chunk) of
        Inl err \<Rightarrow> Some (Some err, bitmap)
      | Inr results \<Rightarrow> put_words unpack (batch_of wordPositions chunk) results bitmap)"

definition NewBitMapProvider ::
  "int \<Rightarrow> int \<Rightarrow> ((nat \<times> nat) list \<Rightarrow> (nat \<times> nat) list) \<Rightarrow> (nat \<times> nat \<Rightarrow> int multicall) \<Rightarrow> (byte list \<Rightarrow> string + int list) \<Rightarrow> address \<Rightarrow> uint64 \<Rightarrow>
   (call_error + Bitmap) option" where
  "NewBitMapProvider batchSize maxConcurrency order mc unpack pool tickSpacing =
     (case word_positions tickSpacing of
        None \<Rightarrow> None
      | Some wordPositions \<Rightarrow> run_group batchSize maxConcurrency order (bitmap_work mc unpack pool wordPositions) (length wordPositions) [])"

section \<open>Ticks\<close>

text \<open>The fields of an unpacked tick that the code reads: gross and net liquidity, and whether it is initialized.\<close>

fun put_ticks ::
  "(byte list \<Rightarrow> string + int \<times> int \<times> bool) \<Rightarrow> int list \<Rightarrow> (bool \<times> byte list) list \<Rightarrow> TickInfo list \<Rightarrow> (call_error option \<times> TickInfo list) option" where
  "put_ticks unpack batch [] tickInfos = Some (None, tickInfos)"
| "put_ticks unpack batch ((success, returnData) # results) tickInfos =
     (if success \<and> length returnData > 0
      then case unpack returnData of
             Inl err \<Rightarrow> Some (Some (ErrUnpackReturn err), tickInfos)
           | Inr (gross, net, initialized) \<Rightarrow>
               if initialized
               then (case batch of
                       [] \<Rightarrow> None
                     | tick # _ \<Rightarrow> put_ticks unpack (tl batch) results (tickInfos @ [\<lparr>tiIndex = tick, tiLiquidityGross = gross, tiLiquidityNet = net\<rparr>]))
               else put_ticks unpack (tl batch) results tickInfos
      else put_ticks unpack (tl batch) results tickInfos)"

definition ticks_work ::
  "(nat \<times> nat \<Rightarrow> int multicall) \<Rightarrow> (byte list \<Rightarrow> string + int \<times> int \<times> bool) \<Rightarrow> address \<Rightarrow> int list \<Rightarrow> nat \<times> nat \<Rightarrow> TickInfo list \<Rightarrow>
   (call_error option \<times> TickInfo list) option" where
  "ticks_work mc unpack pool ticksToRequest chunk tickInfos =
     (case fetchTickInfoBatch (mc chunk) pool (batch_of ticksToRequest chunk) of
        Inl err \<Rightarrow> Some (Some err, tickInfos)
      | Inr results \<Rightarrow> put_ticks unpack (batch_of ticksToRequest chunk) results tickInfos)"

definition NewTickInfoProvider ::
  "int \<Rightarrow> int \<Rightarrow> ((nat \<times> nat) list \<Rightarrow> (nat \<times> nat) list) \<Rightarrow> (nat \<times> nat \<Rightarrow> int multicall) \<Rightarrow> (byte list \<Rightarrow> string + int \<times> int \<times> bool) \<Rightarrow> address \<Rightarrow> int list \<Rightarrow>
   (call_error + TickInfo list) option" where
  "NewTickInfoProvider batchSize maxConcurrency order mc unpack pool ticksToRequest =
     run_group batchSize maxConcurrency order (ticks_work mc unpack pool ticksToRequest) (length ticksToRequest) []"

section \<open>The state of a batch of pools\<close>

datatype info_error = InfoClient string | InfoPack string | InfoRPC string | InfoUnpack string | InfoReverted | InfoSlot0Length

record pool_slices =
  psTicks :: "int list"
  psLiquidities :: "int option list"
  psSqrtPriceX96s :: "int option list"
  psFees :: "uint64 list"
  psErrs :: "info_error option list"

definition new_slices :: "nat \<Rightarrow> pool_slices" where
  "new_slices n = \<lparr>psTicks = replicate n 0, psLiquidities = replicate n None, psSqrtPriceX96s = replicate n None, psFees = replicate n 0, psErrs = replicate n None\<rparr>"

definition markAllErrors :: "info_error \<Rightarrow> pool_slices \<Rightarrow> pool_slices" where
  "markAllErrors err st = st\<lparr>psErrs := map (\<lambda>_. Some err) (psErrs st)\<rparr>"

text \<open>\<^verbatim>\<open>big.Int.Int64\<close> and \<^verbatim>\<open>Uint64\<close> take the lowest 64 bits.\<close>

definition decode_triplet :: "nat \<Rightarrow> bool \<times> byte list \<Rightarrow> bool \<times> byte list \<Rightarrow> bool \<times> byte list \<Rightarrow> pool_slices \<Rightarrow> pool_slices" where
  "decode_triplet i resS0 resLiq resFee st =
     (if \<not> fst resS0 \<or> \<not> fst resLiq \<or> \<not> fst resFee then st\<lparr>psErrs := (psErrs st)[i := Some InfoReverted]\<rparr>
      else let st1 = (if length (snd resS0) \<ge> 64
                      then st\<lparr>psSqrtPriceX96s := (psSqrtPriceX96s st)[i := Some (big_SetBytes (take 32 (snd resS0)))],
                              psTicks := (psTicks st)[i := int64 (big_SetBytes (take 32 (drop 32 (snd resS0))))]\<rparr>
                      else st\<lparr>psErrs := (psErrs st)[i := Some InfoSlot0Length]\<rparr>);
               st2 = (if length (snd resLiq) \<ge> 32 then st1\<lparr>psLiquidities := (psLiquidities st1)[i := Some (big_SetBytes (snd resLiq))]\<rparr> else st1)
           in if length (snd resFee) \<ge> 32 then st2\<lparr>psFees := (psFees st2)[i := word_of_int (big_SetBytes (snd resFee))]\<rparr> else st2)"

text \<open>Missing results are an index error, which panics.\<close>

fun decode_triplets :: "nat list \<Rightarrow> (bool \<times> byte list) list \<Rightarrow> pool_slices \<Rightarrow> pool_slices option" where
  "decode_triplets [] results st = Some st"
| "decode_triplets (i # is) results st =
     (if i * 3 + 2 < length results
      then decode_triplets is results (decode_triplet i (results ! (i * 3)) (results ! (i * 3 + 1)) (results ! (i * 3 + 2)) st)
      else None)"

definition triplet_calls :: "byte list \<Rightarrow> byte list \<Rightarrow> byte list \<Rightarrow> address list \<Rightarrow> (address \<times> byte list) list" where
  "triplet_calls slot0Sig liquiditySig feeSig poolAddrs = concat (map (\<lambda>addr. [(addr, slot0Sig), (addr, liquiditySig), (addr, feeSig)]) poolAddrs)"

definition NewBatchPoolInfoProvider :: "byte list \<Rightarrow> byte list \<Rightarrow> byte list \<Rightarrow> string + 'a multicall \<Rightarrow> address list \<Rightarrow> pool_slices option" where
  "NewBatchPoolInfoProvider slot0Sig liquiditySig feeSig client poolAddrs =
     (let numPools = length poolAddrs; st = new_slices numPools in
      if numPools = 0 then Some (new_slices 0)
      else case client of
             Inl err \<Rightarrow> Some ((new_slices 0)\<lparr>psErrs := replicate numPools (Some (InfoClient err))\<rparr>)
           | Inr mc \<Rightarrow>
               (case mcPack mc (triplet_calls slot0Sig liquiditySig feeSig poolAddrs) of
                  Inl err \<Rightarrow> Some (markAllErrors (InfoPack err) st)
                | Inr callData \<Rightarrow>
                    (case mcCall mc callData of
                       Inl err \<Rightarrow> Some (markAllErrors (InfoRPC err) st)
                     | Inr resp \<Rightarrow>
                         (case mcUnpack mc resp of
                            Inl err \<Rightarrow> Some (markAllErrors (InfoUnpack err) st)
                          | Inr results \<Rightarrow> decode_triplets [0..<numPools] results st))))"

section \<open>The data of a new pool\<close>

record pool_init =
  niToken0 :: address
  niToken1 :: address
  niFee :: uint64
  niTickSpacing :: uint64
  niTick :: int
  niLiquidity :: int
  niSqrtPriceX96 :: int

datatype init_call_error =
    InitPackCall string
  | InitPackMulti string
  | InitMulticall string
  | InitNoData
  | InitUnpackMulti string
  | InitResultCount nat
  | InitCallFailed string
  | InitUnpackReturn string string

record init_abi =
  iaAddress :: "byte list \<Rightarrow> string + address"
  iaUint :: "byte list \<Rightarrow> string + int"
  iaSlot0 :: "byte list \<Rightarrow> string + int \<times> int"

definition callNames :: "string list" where
  "callNames = [''token0'', ''token1'', ''fee'', ''tickSpacing'', ''slot0'', ''liquidity'']"

definition sub_call :: "(bool \<times> byte list) list \<Rightarrow> nat \<Rightarrow> (byte list \<Rightarrow> string + 'v) \<Rightarrow> init_call_error + 'v" where
  "sub_call results i unpack =
     (if \<not> fst (results ! i) then Inl (InitCallFailed (callNames ! i))
      else case unpack (snd (results ! i)) of Inl err \<Rightarrow> Inl (InitUnpackReturn (callNames ! i) err) | Inr v \<Rightarrow> Inr v)"

definition unpack_pool :: "init_abi \<Rightarrow> (bool \<times> byte list) list \<Rightarrow> init_call_error + pool_init" where
  "unpack_pool abi results =
     (case sub_call results 0 (iaAddress abi) of Inl err \<Rightarrow> Inl err | Inr token0 \<Rightarrow>
     (case sub_call results 1 (iaAddress abi) of Inl err \<Rightarrow> Inl err | Inr token1 \<Rightarrow>
     (case sub_call results 2 (iaUint abi) of Inl err \<Rightarrow> Inl err | Inr feeBig \<Rightarrow>
     (case sub_call results 3 (iaUint abi) of Inl err \<Rightarrow> Inl err | Inr tickSpacingBig \<Rightarrow>
     (case sub_call results 4 (iaSlot0 abi) of Inl err \<Rightarrow> Inl err | Inr (sqrtPriceX96, tick) \<Rightarrow>
     (case sub_call results 5 (iaUint abi) of Inl err \<Rightarrow> Inl err | Inr liquidity \<Rightarrow>
        Inr \<lparr>niToken0 = token0, niToken1 = token1, niFee = word_of_int feeBig, niTickSpacing = word_of_int tickSpacingBig, niTick = int64 tick,
             niLiquidity = liquidity, niSqrtPriceX96 = sqrtPriceX96\<rparr>))))))"

definition contracts_NewPoolInitializer :: "init_abi \<Rightarrow> string multicall \<Rightarrow> address \<Rightarrow> init_call_error + pool_init" where
  "contracts_NewPoolInitializer abi mc poolAddress =
     (case pack_calls (mcPackCall mc) poolAddress callNames of
        Inl err \<Rightarrow> Inl (InitPackCall err)
      | Inr calls \<Rightarrow>
          (case mcPack mc calls of
             Inl err \<Rightarrow> Inl (InitPackMulti err)
           | Inr multicallInput \<Rightarrow>
               (case mcCall mc multicallInput of
                  Inl err \<Rightarrow> Inl (InitMulticall err)
                | Inr returnData \<Rightarrow>
                    if returnData = [] then Inl InitNoData
                    else (case mcUnpack mc returnData of
                            Inl err \<Rightarrow> Inl (InitUnpackMulti err)
                          | Inr results \<Rightarrow>
                              if length results \<noteq> length callNames then Inl (InitResultCount (length results))
                              else unpack_pool abi results))))"

section \<open>Initialization of Uniswap V3 pools\<close>

datatype v3_init_error =
    V3InitContext string
  | V3InitClient string
  | V3InitFactory string
  | V3InitUnknownFactory address
  | V3InitProvider init_call_error
  | V3InitGetPool string
  | V3InitMismatch address address

text \<open>The answers that one goroutine gets: the context, the client, the factory, the provider, the packed arguments and the pool of the factory.\<close>

record v3_init_calls =
  vcContext :: "string option"
  vcClient :: "string option"
  vcFactory :: "address \<Rightarrow> string + byte list"
  vcInfo :: "address \<Rightarrow> init_call_error + pool_init"
  vcPackGetPool :: "address \<Rightarrow> address \<Rightarrow> int \<Rightarrow> string + byte list"
  vcGetPool :: "address \<Rightarrow> byte list \<Rightarrow> string + byte list"

definition v3_getFactory :: "v3_init_calls \<Rightarrow> address \<Rightarrow> string + address" where
  "v3_getFactory c poolAddr = (case checked 32 (vcFactory c poolAddr) of Inl err \<Rightarrow> Inl err | Inr factoryCallData \<Rightarrow> Inr (word_address factoryCallData))"

definition getPoolFromFactory :: "byte list \<Rightarrow> v3_init_calls \<Rightarrow> address \<Rightarrow> address \<Rightarrow> address \<Rightarrow> uint64 \<Rightarrow> string + address" where
  "getPoolFromFactory getPoolSig c factoryAddr token0 token1 fee =
     (case vcPackGetPool c token0 token1 (sint fee) of
        Inl err \<Rightarrow> Inl err
      | Inr args \<Rightarrow> (case checked 32 (vcGetPool c factoryAddr (getPoolSig @ args)) of Inl err \<Rightarrow> Inl err | Inr resp \<Rightarrow> Inr (word_address resp)))"

definition initialize_v3_pool :: "byte list \<Rightarrow> address set \<Rightarrow> v3_init_calls \<Rightarrow> address \<Rightarrow> v3_init_error + pool_init" where
  "initialize_v3_pool getPoolSig knownFactories c address =
     (case vcContext c of
        Some err \<Rightarrow> Inl (V3InitContext err)
      | None \<Rightarrow>
          (case vcClient c of
             Some err \<Rightarrow> Inl (V3InitClient err)
           | None \<Rightarrow>
               (case v3_getFactory c address of
                  Inl err \<Rightarrow> Inl (V3InitFactory err)
                | Inr factoryAddr \<Rightarrow>
                    if factoryAddr \<notin> knownFactories then Inl (V3InitUnknownFactory factoryAddr)
                    else (case vcInfo c address of
                            Inl err \<Rightarrow> Inl (V3InitProvider err)
                          | Inr info \<Rightarrow>
                              (case getPoolFromFactory getPoolSig c factoryAddr (niToken0 info) (niToken1 info) (niFee info) of
                                 Inl err \<Rightarrow> Inl (V3InitGetPool err)
                               | Inr factoryPoolAddr \<Rightarrow>
                                   if factoryPoolAddr \<noteq> address then Inl (V3InitMismatch factoryAddr factoryPoolAddr)
                                   else Inr info)))))"

text \<open>One goroutine for each pool, each writing its own index.\<close>

definition NewPoolInitializerFunc ::
  "byte list \<Rightarrow> int \<Rightarrow> address list \<Rightarrow> string + ((nat \<Rightarrow> v3_init_calls) \<Rightarrow> address list \<Rightarrow> (v3_init_error + pool_init) list)" where
  "NewPoolInitializerFunc getPoolSig maxConcurrentCalls knownFactories =
     (if maxConcurrentCalls \<le> 0 then Inl ''maxConcurrentCalls must be a positive number''
      else Inr (\<lambda>calls poolAddrs. map (\<lambda>i. initialize_v3_pool getPoolSig (set knownFactories) (calls i) (poolAddrs ! i)) [0..<length poolAddrs]))"

section \<open>Ticks in the logs of a block\<close>

definition touch_ticks :: "byte list \<Rightarrow> byte list \<Rightarrow> (address, (int, unit) gomap) gomap \<Rightarrow> Log \<Rightarrow> (address, (int, unit) gomap) gomap" where
  "touch_ticks mintEventID burnEventID updatesByPool logger =
     (if length (lgTopics logger) < 4 then updatesByPool
      else if lgTopics logger ! 0 = mintEventID \<or> lgTopics logger ! 0 = burnEventID
      then let tickLower = int64 (big_SetBytes (lgTopics logger ! 2)); tickUpper = int64 (big_SetBytes (lgTopics logger ! 3));
               ticksSet = (case map_of updatesByPool (lgAddress logger) of None \<Rightarrow> [] | Some s \<Rightarrow> s)
           in AList.update (lgAddress logger) (AList.update tickUpper () (AList.update tickLower () ticksSet)) updatesByPool
      else updatesByPool)"

definition UniswapV3PoolsUpdatedInBlock ::
  "byte list \<Rightarrow> byte list \<Rightarrow> (address, (int, unit) gomap) range_order \<Rightarrow> (address \<Rightarrow> (int, unit) range_order) \<Rightarrow> Log list \<Rightarrow> address list \<times> int list list" where
  "UniswapV3PoolsUpdatedInBlock mintEventID burnEventID ord ordTicks logs =
     (let updatesByPool = ord (foldl (touch_ticks mintEventID burnEventID) [] logs)
      in (map fst updatesByPool, map (\<lambda>(pool, ticksSet). map fst (ordTicks pool ticksSet)) updatesByPool))"

section \<open>Bit positions\<close>

datatype bitmath_error = ErrInputIsZero | ErrInputIsNil

text \<open>\<^verbatim>\<open>big.Int.BitLen\<close> and \<^verbatim>\<open>Bits\<close> (the digits to the base \<open>2 ^ 64\<close>, lowest first) and \<^verbatim>\<open>bits.TrailingZeros64\<close> of a number that is not 0.\<close>

fun BitLen :: "nat \<Rightarrow> nat" where
  "BitLen n = (if n = 0 then 0 else Suc (BitLen (n div 2)))"

fun big_Bits :: "nat \<Rightarrow> nat list" where
  "big_Bits n = (if n = 0 then [] else (n mod 2 ^ 64) # big_Bits (n div 2 ^ 64))"

fun TrailingZeros :: "nat \<Rightarrow> nat" where
  "TrailingZeros n = (if n = 0 \<or> odd n then 0 else Suc (TrailingZeros (n div 2)))"

declare BitLen.simps [simp del] big_Bits.simps [simp del] TrailingZeros.simps [simp del]

definition MostSignificantBit :: "int option \<Rightarrow> bitmath_error + 8 word" where
  "MostSignificantBit x =
     (case x of None \<Rightarrow> Inl ErrInputIsNil
      | Some x \<Rightarrow> if x \<le> 0 then Inl ErrInputIsZero else Inr (word_of_nat (BitLen (nat x) - 1)))"

fun lsb_loop :: "nat \<Rightarrow> nat list \<Rightarrow> bitmath_error + 8 word" where
  "lsb_loop i [] = Inl ErrInputIsZero"
| "lsb_loop i (word # words) = (if word > 0 then Inr (word_of_nat (i * 64 + TrailingZeros word)) else lsb_loop (Suc i) words)"

definition LeastSignificantBit :: "int option \<Rightarrow> bitmath_error + 8 word" where
  "LeastSignificantBit x =
     (case x of None \<Rightarrow> Inl ErrInputIsNil
      | Some x \<Rightarrow> if x \<le> 0 then Inl ErrInputIsZero else lsb_loop 0 (big_Bits (nat x)))"

section \<open>Error groups\<close>

text \<open>
  The workers of an error group: \<open>answer\<close> is what a batch fetches, an error or results, of which \<open>faithful\<close> ones have the effect \<open>put\<close> on the shared
  value. Whatever the order of the batches, the group ends with the error of some batch, or with the effects of all of them.
\<close>

locale error_group =
  fixes work :: "nat \<times> nat \<Rightarrow> 's \<Rightarrow> (call_error option \<times> 's) option"
    and answer :: "nat \<times> nat \<Rightarrow> call_error + 'r"
    and faithful :: "nat \<times> nat \<Rightarrow> 'r \<Rightarrow> bool"
    and put :: "nat \<times> nat \<Rightarrow> 's \<Rightarrow> 's"
  assumes work_error: "answer c = Inl err \<Longrightarrow> work c s = Some (Some err, s)"
    and work_put: "answer c = Inr r \<Longrightarrow> faithful c r \<Longrightarrow> work c s = Some (None, put c s)"
begin

definition trusted :: "(nat \<times> nat) list \<Rightarrow> bool" where
  "trusted cs \<longleftrightarrow> (\<forall>c \<in> set cs. \<forall>r. answer c = Inr r \<longrightarrow> faithful c r)"

lemma group_run:
  "trusted cs \<Longrightarrow> \<exists>e' s'. run_chunks (group_step work) cs (e, s) = Some (e', s') \<and>
     (case e' of None \<Rightarrow> e = None \<and> s' = foldl (\<lambda>s c. put c s) s cs | Some err \<Rightarrow> e = Some err \<or> (\<exists>c \<in> set cs. answer c = Inl err))"
proof (induction cs arbitrary: e s)
  case Nil
  then show ?case
    by (cases e) auto
next
  case (Cons c cs)
  have t: "trusted cs"
    using Cons.prems by (simp add: trusted_def)
  show ?case
  proof (cases "answer c")
    case (Inl err)
    let ?e = "case e of Some first \<Rightarrow> Some first | None \<Rightarrow> Some err"
    have "group_step work c (e, s) = Some (?e, s)"
      by (simp add: group_step_def work_error [OF Inl])
    moreover obtain e' s' where "run_chunks (group_step work) cs (?e, s) = Some (e', s')"
      "case e' of None \<Rightarrow> ?e = None \<and> s' = foldl (\<lambda>s c. put c s) s cs | Some err \<Rightarrow> ?e = Some err \<or> (\<exists>c \<in> set cs. answer c = Inl err)"
      using Cons.IH [OF t, of ?e s] by blast
    ultimately show ?thesis
      using Inl by (intro exI [of _ e'] exI [of _ s']) (auto split: option.splits)
  next
    case (Inr r)
    then have "work c s = Some (None, put c s)"
      using work_put Cons.prems by (simp add: trusted_def)
    then have "group_step work c (e, s) = Some (e, put c s)"
      by (cases e) (simp_all add: group_step_def)
    moreover obtain e' s' where "run_chunks (group_step work) cs (e, put c s) = Some (e', s')"
      "case e' of None \<Rightarrow> e = None \<and> s' = foldl (\<lambda>s c. put c s) (put c s) cs | Some err \<Rightarrow> e = Some err \<or> (\<exists>c \<in> set cs. answer c = Inl err)"
      using Cons.IH [OF t, of e "put c s"] by blast
    ultimately show ?thesis
      by (intro exI [of _ e'] exI [of _ s']) (auto split: option.splits)
  qed
qed

lemma group_result:
  assumes "trusted (map (chunk_at (nat b) n) [0..<(n + nat b - 1) div nat b])" "0 < b" "m \<noteq> 0" "\<And>cs. mset (order cs) = mset cs"
  shows "\<exists>cs. set cs = set (map (chunk_at (nat b) n) [0..<(n + nat b - 1) div nat b]) \<and> mset cs = mset (map (chunk_at (nat b) n) [0..<(n + nat b - 1) div nat b]) \<and>
    (case run_group b m order work n s of
       None \<Rightarrow> False
     | Some (Inl err) \<Rightarrow> \<exists>c \<in> set cs. answer c = Inl err
     | Some (Inr s') \<Rightarrow> s' = foldl (\<lambda>s c. put c s) s cs)"
proof (cases "n = 0")
  case True
  have "(nat b - 1) div nat b = 0"
    using assms(2) by simp
  then show ?thesis
    using True by (simp add: run_group_def)
next
  case False
  let ?all = "map (chunk_at (nat b) n) [0..<(n + nat b - 1) div nat b]"
  have same: "mset (order ?all) = mset ?all" "set (order ?all) = set ?all"
    using assms(4) mset_eq_setD by blast+
  then have "trusted (order ?all)"
    using assms(1) by (simp add: trusted_def)
  from group_run [OF this, of None s] obtain e' s' where run: "run_chunks (group_step work) (order ?all) (None, s) = Some (e', s')"
    "case e' of None \<Rightarrow> s' = foldl (\<lambda>s c. put c s) s (order ?all) | Some err \<Rightarrow> \<exists>c \<in> set (order ?all). answer c = Inl err"
    by (auto split: option.splits)
  have "chunk_loop (nat b) n 0 [] = Some ?all"
    using chunk_loop_chunks [of "nat b" n] assms(2) by simp
  then have "run_group b m order work n s = Some (case e' of None \<Rightarrow> Inr s' | Some err \<Rightarrow> Inl err)"
    using False assms(2,3) run(1) by (simp add: run_group_def split: option.split)
  then show ?thesis
    using same run(2) by (intro exI [of _ "order ?all"]) (auto split: option.splits)
qed

end

text \<open>The batches together are the whole list.\<close>

lemma batches_cover:
  assumes "0 < c"
  shows "\<Union> ((\<lambda>ch. set (batch_of xs ch)) ` set (map (chunk_at c (length xs)) [0..<(length xs + c - 1) div c])) = set xs"
proof
  show "\<Union> ((\<lambda>ch. set (batch_of xs ch)) ` set (map (chunk_at c (length xs)) [0..<(length xs + c - 1) div c])) \<subseteq> set xs"
    by (auto simp: batch_of_def dest!: in_set_takeD in_set_dropD)
  show "set xs \<subseteq> \<Union> ((\<lambda>ch. set (batch_of xs ch)) ` set (map (chunk_at c (length xs)) [0..<(length xs + c - 1) div c]))"
  proof
    fix x
    assume "x \<in> set xs"
    then obtain i where i: "i < length xs" "x = xs ! i"
      by (metis in_set_conv_nth)
    have "batch_of xs (chunk_at c (length xs) (i div c)) = take c (drop (i div c * c) xs)"
      unfolding batch_of_def chunk_at_def by (auto simp: min_def)
    then have "x \<in> set (batch_of xs (chunk_at c (length xs) (i div c)))"
      using chunk_nth [OF assms, of i xs] i by (metis nth_mem)
    then show "x \<in> \<Union> ((\<lambda>ch. set (batch_of xs ch)) ` set (map (chunk_at c (length xs)) [0..<(length xs + c - 1) div c]))"
      using chunk_of_index [OF assms i(1)] by auto
  qed
qed

section \<open>Bitmaps of a contract\<close>

text \<open>The contract answers a call for a word with the word.\<close>

definition answers_word :: "(byte list \<Rightarrow> string + int list) \<Rightarrow> (int \<Rightarrow> 256 word) \<Rightarrow> int \<Rightarrow> bool \<times> byte list \<Rightarrow> bool" where
  "answers_word unpack w pos res \<longleftrightarrow> fst res \<and> snd res \<noteq> [] \<and> unpack (snd res) = Inr [uint (w pos)]"

definition put_word :: "(int \<Rightarrow> 256 word) \<Rightarrow> Bitmap \<Rightarrow> int \<Rightarrow> Bitmap" where
  "put_word w bitmap pos = (if 0 < uint (w pos) then AList.update pos (Some (uint (w pos))) bitmap else bitmap)"

lemma put_words_all:
  "list_all2 (answers_word unpack w) batch results \<Longrightarrow> put_words unpack batch results bitmap = Some (None, foldl (put_word w) bitmap batch)"
proof (induction batch results arbitrary: bitmap rule: list_all2_induct)
  case (Cons pos batch res results)
  then show ?case
    by (cases res) (simp add: answers_word_def put_word_def)
qed simp

interpretation bits: error_group "bitmap_work mc unpack pool wordPositions" "\<lambda>c. fetchBitMapBatch (mc c) pool (batch_of wordPositions c)"
  "\<lambda>c results. list_all2 (answers_word unpack w) (batch_of wordPositions c) results" "\<lambda>c bitmap. foldl (put_word w) bitmap (batch_of wordPositions c)"
  for mc unpack pool wordPositions w
  by unfold_locales (simp_all add: bitmap_work_def put_words_all)

lemma foldl_batches: "foldl (\<lambda>s c. foldl f s (g c)) s cs = foldl f s (concat (map g cs))"
  by (induction cs arbitrary: s) simp_all

lemma put_words_map:
  "map_of (foldl (put_word w) bitmap ps) pos = (if pos \<in> set ps \<and> w pos \<noteq> 0 then Some (Some (uint (w pos))) else map_of bitmap pos) \<and>
   (distinct (map fst bitmap) \<longrightarrow> distinct (map fst (foldl (put_word w) bitmap ps)))"
proof (induction ps arbitrary: bitmap)
  case (Cons p ps)
  have "0 < uint (w p) \<longleftrightarrow> w p \<noteq> 0"
    using uint_ge_0 [of "w p"] uint_0_iff [of "w p"] by linarith
  then have "map_of (put_word w bitmap p) pos = (if pos = p \<and> w p \<noteq> 0 then Some (Some (uint (w p))) else map_of bitmap pos)"
    "distinct (map fst bitmap) \<longrightarrow> distinct (map fst (put_word w bitmap p))"
    by (auto simp: put_word_def update_conv' distinct_update)
  then show ?case
    using Cons.IH [of "put_word w bitmap p"] by auto
qed simp

lemma word_positions_range:
  assumes "getWordRange (sint tickSpacing) = Inr (lo, hi)"
  shows "\<exists>ps. word_positions tickSpacing = Some ps \<and> set ps = {lo..hi} \<and> - 32768 \<le> lo \<and> hi < 32768"
proof -
  let ?s = "sint tickSpacing"
  have s: "0 < ?s" and lo: "lo = drop_bit 8 (go_quot TICKS_MIN_TICK ?s)" and hi: "hi = drop_bit 8 (go_quot TICKS_MAX_TICK ?s)"
    using assms by (auto simp: getWordRange_def split: if_splits)
  have q: "0 \<le> 887272 div ?s" "887272 div ?s \<le> 887272"
    using s zdiv_mono2 [of 887272 1 ?s] by (simp_all add: pos_imp_zdiv_nonneg_iff)
  have quot: "go_quot TICKS_MIN_TICK ?s = - (887272 div ?s)" "go_quot TICKS_MAX_TICK ?s = 887272 div ?s"
    using s by (simp_all add: go_quot_def TICKS_MIN_TICK_def TICKS_MAX_TICK_def)
  have bounds: "- 3466 \<le> lo" "lo \<le> 0" "0 \<le> hi" "hi \<le> 3465"
    using q zdiv_mono1 [of "- 887272" "- (887272 div ?s)" 256] zdiv_mono1 [of "- (887272 div ?s)" 0 256]
      zdiv_mono1 [of "887272 div ?s" 887272 256] by (simp_all add: lo hi quot drop_bit_eq_div)
  have id: "int16 x = x" if "- 32768 \<le> x" "x < 32768" for x
    using that by (simp add: int16_def signed_take_bit_int_eq_self)
  let ?ps = "map (\<lambda>i. int16 (lo + int16 (int i))) [0..<nat (hi - lo + 1)]"
  have "tickSpacing \<noteq> 0"
    using s by auto
  then have "word_positions tickSpacing = Some ?ps"
    using bounds by (simp add: word_positions_def Let_def lo [symmetric] hi [symmetric] id)
  moreover have "int16 (lo + int16 (int i)) = lo + int i" if "i < nat (hi - lo + 1)" for i
    using that bounds by (simp add: id)
  then have "?ps = map (\<lambda>i. lo + int i) [0..<nat (hi - lo + 1)]"
    by simp
  moreover have "set (map (\<lambda>i. lo + int i) [0..<nat (hi - lo + 1)]) = {lo..hi}"
  proof -
    have "x \<in> (\<lambda>i. lo + int i) ` {0..<nat (hi - lo + 1)}" if "lo \<le> x" "x \<le> hi" for x
      using that by (intro image_eqI [of _ _ "nat (x - lo)"]) auto
    then show ?thesis
      by auto
  qed
  ultimately show ?thesis
    using bounds by auto
qed

text \<open>The words of a contract whose initialized ticks are \<open>T\<close>, which are multiples of the spacing between the two ends of the range.\<close>

definition contract_words :: "int \<Rightarrow> int set \<Rightarrow> (int \<Rightarrow> 256 word) \<Rightarrow> bool" where
  "contract_words s T w \<longleftrightarrow> (\<forall>t \<in> T. s dvd t \<and> TICKS_MIN_TICK \<le> t \<and> t \<le> TICKS_MAX_TICK) \<and>
     (\<forall>pos i. i < 256 \<longrightarrow> (bit (w pos) i \<longleftrightarrow> (pos * 256 + int i) * s \<in> T))"

lemma contract_words_range:
  assumes w: "contract_words s T w" and range: "getWordRange s = Inr (lo, hi)" and pos: "w pos \<noteq> 0"
  shows "lo \<le> pos \<and> pos \<le> hi"
proof -
  have s: "0 < s"
    using range by (auto simp: getWordRange_def split: if_splits)
  obtain i where i: "i < 256" "bit (w pos) i"
    using pos bit_word_eqI [of "w pos" 0] by auto
  then have t: "(pos * 256 + int i) * s \<in> T"
    using w by (simp add: contract_words_def)
  have "(pos * 256 + int i) * s div s div 256 = pos"
    using s i(1) by simp
  then show ?thesis
    using getWordRange_covers [OF range, of "(pos * 256 + int i) * s"] t w by (auto simp: contract_words_def)
qed

lemma put_words_exact:
  assumes w: "contract_words s T w" and range: "getWordRange s = Inr (lo, hi)" "- 32768 \<le> lo" "hi < 32768" and ps: "set ps = {lo..hi}"
  shows "bitmap_ok (foldl (put_word w) [] ps) \<and> bitmap_ticks s (foldl (put_word w) [] ps) = T"
proof -
  let ?m = "foldl (put_word w) [] ps"
  have m: "map_of ?m pos = (if pos \<in> set ps \<and> w pos \<noteq> 0 then Some (Some (uint (w pos))) else None)" for pos
    using put_words_map [of w "[]" ps pos] by simp
  have word: "bitmap_word ?m pos = uint (w pos)" for pos
    using contract_words_range [OF w range(1), of pos] ps by (cases "w pos = 0") (auto simp: bitmap_word_def m)
  have "pos \<in> set ps" if "pos \<in> fst ` set ?m" for pos
    using that m [of pos] by (metis map_of_eq_None_iff)
  then have "bitmap_ok ?m"
    using put_words_map [of w "[]" ps] ps range(2,3) by (fastforce simp: bitmap_ok_def)
  moreover have "bitmap_ticks s ?m = T"
  proof
    show "bitmap_ticks s ?m \<subseteq> T"
      using w by (auto simp: bitmap_ticks_def word contract_words_def bit_uint_iff)
    show "T \<subseteq> bitmap_ticks s ?m"
    proof
      fix t
      assume t: "t \<in> T"
      then have "s dvd t"
        using w by (simp add: contract_words_def)
      then obtain c where c: "t = c * s"
        by (metis dvd_def mult.commute)
      let ?i = "nat (c mod 256)"
      have "c = c div 256 * 256 + int ?i" "?i < 256"
        by (simp_all add: nat_less_iff)
      then show "t \<in> bitmap_ticks s ?m"
        using t w c unfolding bitmap_ticks_def contract_words_def word by (auto simp: bit_uint_iff intro!: exI [of _ "c div 256"] exI [of _ ?i])
    qed
  qed
  ultimately show ?thesis
    by simp
qed

text \<open>Every batch gets an error, or the contract's answers to its calls; this is what \<^verbatim>\<open>tryAggregate\<close> of the multicall contract returns.\<close>

definition words_answered ::
  "(nat \<times> nat \<Rightarrow> int multicall) \<Rightarrow> (byte list \<Rightarrow> string + int list) \<Rightarrow> address \<Rightarrow> (int \<Rightarrow> 256 word) \<Rightarrow> bool" where
  "words_answered mc unpack pool w \<longleftrightarrow> (\<forall>chunk batch results. fetchBitMapBatch (mc chunk) pool batch = Inr results \<longrightarrow>
     list_all2 (answers_word unpack w) batch results)"

text \<open>
  The bitmap of a pool. For every positive tick spacing, every positive batch size and every order in which the batches are done, the bitmap
  provider returns the error of a batch, or a bitmap that lists exactly the ticks that are initialized in the contract: no word
  is missed at the ends of the range or at the borders of the batches, and no conversion to int16 wraps.
\<close>

theorem bitmap_provider_exact:
  assumes answers: "words_answered mc unpack pool w" and w: "contract_words (sint tickSpacing) T w" and s: "0 < sint tickSpacing"
    and size: "0 < batchSize" "maxConcurrency \<noteq> 0" and order: "\<And>cs. mset (order cs) = mset cs"
  shows "case NewBitMapProvider batchSize maxConcurrency order mc unpack pool tickSpacing of
      None \<Rightarrow> False
    | Some (Inl err) \<Rightarrow> \<exists>chunk batch. fetchBitMapBatch (mc chunk) pool batch = Inl err
    | Some (Inr bitmap) \<Rightarrow> bitmap_ok bitmap \<and> bitmap_ticks (sint tickSpacing) bitmap = T"
proof -
  obtain lo hi where range: "getWordRange (sint tickSpacing) = Inr (lo, hi)"
    using s by (simp add: getWordRange_def)
  obtain ps where ps: "word_positions tickSpacing = Some ps" "set ps = {lo..hi}" "- 32768 \<le> lo" "hi < 32768"
    using word_positions_range [OF range] by blast
  let ?all = "map (chunk_at (nat batchSize) (length ps)) [0..<(length ps + nat batchSize - 1) div nat batchSize]"
  have "bits.trusted mc pool ps unpack w ?all"
    using answers unfolding bits.trusted_def words_answered_def by blast
  from bits.group_result [OF this size order, of "[]"] obtain cs where cs: "set cs = set ?all"
    and res: "case run_group batchSize maxConcurrency order (bitmap_work mc unpack pool ps) (length ps) [] of
       None \<Rightarrow> False
     | Some (Inl err) \<Rightarrow> \<exists>c \<in> set cs. fetchBitMapBatch (mc c) pool (batch_of ps c) = Inl err
     | Some (Inr s') \<Rightarrow> s' = foldl (\<lambda>bitmap c. foldl (put_word w) bitmap (batch_of ps c)) [] cs"
    by blast
  have "set (concat (map (batch_of ps) cs)) = {lo..hi}"
    using batches_cover [of "nat batchSize" ps] size(1) cs ps(2) by simp
  note exact = put_words_exact [OF w range ps(3,4) this]
  show ?thesis
    using res exact ps(1) by (auto simp: NewBitMapProvider_def foldl_batches split: option.splits sum.splits)
qed

lemma pack_calls_map: "(\<And>x. pack x = Inr (d x)) \<Longrightarrow> pack_calls pack pool xs = Inr (map (\<lambda>x. (pool, d x)) xs)"
  by (induction xs) simp_all

text \<open>A node that echoes: a call for a word is packed as the word itself, and the answer has one byte for each call. Tick 0 is initialized.\<close>

definition echo :: "('a \<Rightarrow> byte) \<Rightarrow> 'a multicall" where
  "echo f = \<lparr>mcPackCall = (\<lambda>x. Inr [f x]), mcPack = (\<lambda>calls. Inr (0 # map (\<lambda>(_, d). hd d) calls)), mcCall = Inr,
     mcUnpack = (\<lambda>bs. Inr (map (\<lambda>b. (True, [b])) (tl bs)))\<rparr>"

lemma fetch_echo: "fetch_batch (echo f) pool xs = Inr (map (\<lambda>x. (True, [f x])) xs)"
  by (simp add: fetch_batch_def echo_def pack_calls_map comp_def)

definition wit_word :: "int \<Rightarrow> 256 word" where
  "wit_word pos = (if pos = 0 then 1 else 0)"

lemma wit_words: "contract_words (sint (887272 :: uint64)) {0} wit_word"
proof -
  have "sint (887272 :: uint64) = 887272"
    by simp
  moreover have "(pos * 256 + int i) * 887272 = 0 \<longleftrightarrow> pos = 0 \<and> i = 0" if "i < 256" for pos :: int and i :: nat
  proof -
    have "(pos * 256 + int i) div 256 = pos" "(pos * 256 + int i) mod 256 = int i"
      using that by simp_all
    then have "pos = 0 \<and> i = 0" if "pos * 256 + int i = 0"
      using that by simp
    then show ?thesis
      by auto
  qed
  ultimately show ?thesis
    by (auto simp: contract_words_def wit_word_def TICKS_MIN_TICK_def TICKS_MAX_TICK_def bit_1_iff)
qed

theorem bitmap_provider_exact_witness:
  "\<exists>bitmap. NewBitMapProvider 1 2 rev (\<lambda>_. echo (\<lambda>pos. if pos = 0 then 1 else 0)) (\<lambda>bs. Inr [uint (hd bs)]) [] 887272 = Some (Inr bitmap) \<and>
     bitmap_ticks (sint (887272 :: uint64)) bitmap = {0}"
proof -
  let ?mc = "\<lambda>_ :: nat \<times> nat. echo (\<lambda>pos :: int. if pos = 0 then 1 else 0)" and ?unpack = "\<lambda>bs. Inr [uint (hd bs)]"
  have fetch: "fetchBitMapBatch (?mc chunk) pool batch = Inr (map (\<lambda>pos. (True, [if pos = 0 then 1 else 0])) batch)" for chunk pool batch
    by (simp add: fetchBitMapBatch_def fetch_echo)
  have "words_answered ?mc ?unpack [] wit_word"
    by (auto simp: words_answered_def fetch list_all2_map2 answers_word_def wit_word_def intro: list.rel_refl)
  from bitmap_provider_exact [OF this wit_words, of 1 2 rev] show ?thesis
    by (auto simp: fetch split: option.splits sum.splits)
qed

section \<open>Ticks of a contract\<close>

definition answers_tick :: "(byte list \<Rightarrow> string + int \<times> int \<times> bool) \<Rightarrow> (int \<Rightarrow> int \<times> int \<times> bool) \<Rightarrow> int \<Rightarrow> bool \<times> byte list \<Rightarrow> bool" where
  "answers_tick unpack info t res \<longleftrightarrow> fst res \<and> snd res \<noteq> [] \<and> unpack (snd res) = Inr (info t)"

text \<open>The infos of the initialized ones of the given ticks.\<close>

definition tick_infos :: "(int \<Rightarrow> int \<times> int \<times> bool) \<Rightarrow> int list \<Rightarrow> TickInfo list" where
  "tick_infos info ts = map (\<lambda>t. \<lparr>tiIndex = t, tiLiquidityGross = fst (info t), tiLiquidityNet = fst (snd (info t))\<rparr>) (filter (\<lambda>t. snd (snd (info t))) ts)"

lemma tick_infos_append [simp]: "tick_infos info (xs @ ys) = tick_infos info xs @ tick_infos info ys"
  by (simp add: tick_infos_def)

lemma put_ticks_all:
  "list_all2 (answers_tick unpack info) batch results \<Longrightarrow> put_ticks unpack batch results infos = Some (None, infos @ tick_infos info batch)"
proof (induction batch results arbitrary: infos rule: list_all2_induct)
  case (Cons t batch res results)
  obtain gross net init where "info t = (gross, net, init)"
    by (cases "info t")
  then show ?case
    using Cons by (cases res) (simp add: answers_tick_def tick_infos_def)
qed (simp add: tick_infos_def)

interpretation tks: error_group "ticks_work mc unpack pool ts" "\<lambda>c. fetchTickInfoBatch (mc c) pool (batch_of ts c)"
  "\<lambda>c results. list_all2 (answers_tick unpack info) (batch_of ts c) results" "\<lambda>c infos. infos @ tick_infos info (batch_of ts c)"
  for mc unpack pool ts info
  by unfold_locales (simp_all add: ticks_work_def put_ticks_all)

lemma batch_at: "batch_of xs (chunk_at c (length xs) k) = take c (drop (k * c) xs)"
  unfolding batch_of_def chunk_at_def by (auto simp: min_def)

lemma take_batches: "concat (map (\<lambda>k. take c (drop (k * c) xs)) [0..<m]) = take (m * c) xs"
  by (induction m) (simp_all add: take_add [symmetric] add.commute)

lemma concat_batches:
  assumes "0 < c"
  shows "concat (map (batch_of xs) (map (chunk_at c (length xs)) [0..<(length xs + c - 1) div c])) = xs"
proof -
  have "length xs \<le> (length xs + c - 1) div c * c"
    using assms div_mult_mod_eq [of "length xs + c - 1" c] mod_less_divisor [OF assms, of "length xs + c - 1"] by linarith
  then show ?thesis
    using take_batches [of c xs "(length xs + c - 1) div c"] by (simp add: batch_at comp_def)
qed

lemma tick_infos_batches: "foldl (\<lambda>infos c. infos @ tick_infos info (batch_of ts c)) acc cs = acc @ tick_infos info (concat (map (batch_of ts) cs))"
  by (induction cs arbitrary: acc) (simp_all add: tick_infos_def)

lemma mset_concat_map: "mset cs = mset ds \<Longrightarrow> mset (concat (map f cs)) = mset (concat (map f ds))"
  unfolding mset_concat map_map comp_def sum_mset_sum_list [symmetric] mset_map by simp

lemma mset_tick_infos: "mset xs = mset ys \<Longrightarrow> mset (tick_infos info xs) = mset (tick_infos info ys)"
  by (simp add: tick_infos_def)

definition ticks_answered ::
  "(nat \<times> nat \<Rightarrow> int multicall) \<Rightarrow> (byte list \<Rightarrow> string + int \<times> int \<times> bool) \<Rightarrow> address \<Rightarrow> (int \<Rightarrow> int \<times> int \<times> bool) \<Rightarrow> bool" where
  "ticks_answered mc unpack pool info \<longleftrightarrow> (\<forall>chunk batch results. fetchTickInfoBatch (mc chunk) pool batch = Inr results \<longrightarrow>
     list_all2 (answers_tick unpack info) batch results)"

text \<open>
  The infos of ticks: the error of a batch, or the infos of exactly the requested ticks that are initialized, in an order that
  depends on the order of the batches.
\<close>

theorem tick_info_provider_exact:
  assumes answers: "ticks_answered mc unpack pool info" and size: "0 < batchSize" "maxConcurrency \<noteq> 0" and order: "\<And>cs. mset (order cs) = mset cs"
  shows "case NewTickInfoProvider batchSize maxConcurrency order mc unpack pool ts of
      None \<Rightarrow> False
    | Some (Inl err) \<Rightarrow> \<exists>chunk batch. fetchTickInfoBatch (mc chunk) pool batch = Inl err
    | Some (Inr infos) \<Rightarrow> mset infos = mset (tick_infos info ts)"
proof -
  let ?all = "map (chunk_at (nat batchSize) (length ts)) [0..<(length ts + nat batchSize - 1) div nat batchSize]"
  have "tks.trusted mc pool ts unpack info ?all"
    using answers unfolding tks.trusted_def ticks_answered_def by blast
  from tks.group_result [OF this size order, of "[]"] obtain cs where cs: "mset cs = mset ?all"
    and res: "case run_group batchSize maxConcurrency order (ticks_work mc unpack pool ts) (length ts) [] of
       None \<Rightarrow> False
     | Some (Inl err) \<Rightarrow> \<exists>c \<in> set cs. fetchTickInfoBatch (mc c) pool (batch_of ts c) = Inl err
     | Some (Inr s') \<Rightarrow> s' = foldl (\<lambda>infos c. infos @ tick_infos info (batch_of ts c)) [] cs"
    by blast
  have "mset (concat (map (batch_of ts) cs)) = mset (concat (map (batch_of ts) ?all))"
    using mset_concat_map [OF cs] .
  also have "\<dots> = mset ts"
    using concat_batches [of "nat batchSize" ts] size(1) by simp
  finally have "mset (tick_infos info (concat (map (batch_of ts) cs))) = mset (tick_infos info ts)"
    by (rule mset_tick_infos)
  then show ?thesis
    using res by (auto simp: NewTickInfoProvider_def tick_infos_batches split: option.splits sum.splits)
qed

section \<open>The state of pools\<close>

text \<open>The big-endian encoding of a number, in two's complement if it is negative.\<close>

definition be_bytes :: "nat \<Rightarrow> int \<Rightarrow> byte list" where
  "be_bytes n x = map (\<lambda>i. word_of_int (drop_bit (8 * i) x)) (rev [0..<n])"

lemma length_be_bytes [simp]: "length (be_bytes n x) = n"
  by (simp add: be_bytes_def)

lemma SetBytes_Cons: "big_SetBytes (b # bs) = uint b * 256 ^ length bs + big_SetBytes bs"
proof -
  have gen: "foldl (\<lambda>n b. n * 256 + uint b) acc bs = acc * 256 ^ length bs + foldl (\<lambda>n b. n * 256 + uint b) 0 bs" for acc
  proof (induction bs arbitrary: acc)
    case (Cons a bs)
    show ?case
      using Cons.IH [of "acc * 256 + uint a"] Cons.IH [of "uint a"] by (simp add: algebra_simps)
  qed simp
  show ?thesis
    using gen [of "uint b"] by (simp add: big_SetBytes_def)
qed

lemma SetBytes_be_bytes: "big_SetBytes (be_bytes n x) = take_bit (8 * n) x"
proof (induction n)
  case 0
  then show ?case
    by (simp add: be_bytes_def big_SetBytes_def)
next
  case (Suc n)
  have "be_bytes (Suc n) x = word_of_int (drop_bit (8 * n) x) # be_bytes n x"
    by (simp add: be_bytes_def)
  moreover have "take_bit (8 * Suc n) x = take_bit 8 (drop_bit (8 * n) x) * 256 ^ n + take_bit (8 * n) x"
  proof -
    have p: "(2 :: int) ^ (8 * Suc n) = 256 ^ n * 256" "(2 :: int) ^ (8 * n) = 256 ^ n"
      by (simp_all add: power_mult power_add)
    have "x mod (256 ^ n * 256) = 256 ^ n * (x div 256 ^ n mod 256) + x mod 256 ^ n"
      by (rule zmod_zmult2_eq) simp
    then show ?thesis
      unfolding take_bit_eq_mod drop_bit_eq_div p by simp
  qed
  ultimately show ?case
    using Suc by (simp add: SetBytes_Cons uint_word_of_int take_bit_eq_mod)
qed

lemma int64_take_bit: "- (2 ^ 63) \<le> t \<Longrightarrow> t < 2 ^ 63 \<Longrightarrow> int64 (take_bit 256 t) = t"
  by (simp add: int64_def signed_take_bit_take_bit signed_take_bit_int_eq_self)

text \<open>The state of a pool in its contract, within the ranges of the contract's types, and its answers to the three calls.\<close>

record pool_state =
  oSqrt :: int
  oTick :: int
  oLiquidity :: int
  oFee :: uint64
  oRest :: "byte list"

definition state_ok :: "pool_state \<Rightarrow> bool" where
  "state_ok p \<longleftrightarrow> 0 \<le> oSqrt p \<and> oSqrt p < 2 ^ 256 \<and> - (2 ^ 63) \<le> oTick p \<and> oTick p < 2 ^ 63 \<and> 0 \<le> oLiquidity p \<and> oLiquidity p < 2 ^ 256"

definition triplet :: "pool_state \<Rightarrow> (bool \<times> byte list) list" where
  "triplet p = [(True, be_bytes 32 (oSqrt p) @ be_bytes 32 (oTick p) @ oRest p), (True, be_bytes 32 (oLiquidity p)), (True, be_bytes 32 (uint (oFee p)))]"

lemma triplet_nth:
  assumes "i < length ps"
  shows "concat (map triplet ps) ! (i * 3) = triplet (ps ! i) ! 0" "concat (map triplet ps) ! (i * 3 + 1) = triplet (ps ! i) ! 1"
    "concat (map triplet ps) ! (i * 3 + 2) = triplet (ps ! i) ! 2" "i * 3 + 2 < length (concat (map triplet ps))"
proof -
  have three: "Suc j * 3 = Suc (Suc (Suc (j * 3)))" for j
    by simp
  have "concat (map triplet ps) ! (i * 3) = triplet (ps ! i) ! 0 \<and> concat (map triplet ps) ! Suc (i * 3) = triplet (ps ! i) ! 1 \<and>
    concat (map triplet ps) ! Suc (Suc (i * 3)) = triplet (ps ! i) ! 2 \<and> Suc (Suc (i * 3)) < length (concat (map triplet ps))"
    using assms
  proof (induction ps arbitrary: i)
    case (Cons p ps)
    obtain a b c where t: "triplet p = [a, b, c]"
      by (simp add: triplet_def)
    show ?case
    proof (cases i)
      case 0
      then show ?thesis
        by (simp add: t numeral_2_eq_2)
    next
      case (Suc j)
      then show ?thesis
        using Cons.IH [of j] Cons.prems by (simp only: three) (simp add: t)
    qed
  qed simp
  then show "concat (map triplet ps) ! (i * 3) = triplet (ps ! i) ! 0" "concat (map triplet ps) ! (i * 3 + 1) = triplet (ps ! i) ! 1"
    "concat (map triplet ps) ! (i * 3 + 2) = triplet (ps ! i) ! 2" "i * 3 + 2 < length (concat (map triplet ps))"
    by simp_all
qed

lemma decode_triplet_ok:
  assumes "state_ok p"
  shows "decode_triplet i (triplet p ! 0) (triplet p ! 1) (triplet p ! 2) st =
    st\<lparr>psTicks := (psTicks st)[i := oTick p], psLiquidities := (psLiquidities st)[i := Some (oLiquidity p)],
       psSqrtPriceX96s := (psSqrtPriceX96s st)[i := Some (oSqrt p)], psFees := (psFees st)[i := oFee p]\<rparr>"
proof -
  have w: "big_SetBytes (be_bytes 32 x) = x" if "0 \<le> x" "x < 2 ^ 256" for x
    using that by (simp add: SetBytes_be_bytes take_bit_int_eq_self)
  have "int64 (big_SetBytes (be_bytes 32 (oTick p))) = oTick p"
    using assms int64_take_bit [of "oTick p"] by (simp add: SetBytes_be_bytes state_ok_def)
  moreover have "big_SetBytes (be_bytes 32 (uint (oFee p))) = uint (oFee p)"
    using uint_lt2p [of "oFee p"] by (intro w) (simp_all add: order_less_trans)
  ultimately show ?thesis
    using assms w [of "oSqrt p"] w [of "oLiquidity p"] by (simp add: decode_triplet_def triplet_def state_ok_def Let_def)
qed

text \<open>The entries of one pool, and that all slices have the length of the batch.\<close>

definition slot :: "pool_slices \<Rightarrow> nat \<Rightarrow> int \<times> int option \<times> int option \<times> uint64 \<times> info_error option" where
  "slot st i = (psTicks st ! i, psLiquidities st ! i, psSqrtPriceX96s st ! i, psFees st ! i, psErrs st ! i)"

definition slices_len :: "nat \<Rightarrow> pool_slices \<Rightarrow> bool" where
  "slices_len n st \<longleftrightarrow> length (psTicks st) = n \<and> length (psLiquidities st) = n \<and> length (psSqrtPriceX96s st) = n \<and> length (psFees st) = n \<and>
     length (psErrs st) = n"

lemma slices_len_decode: "slices_len n st \<Longrightarrow> slices_len n (decode_triplet j a b c st)"
  by (simp add: slices_len_def decode_triplet_def Let_def)

lemma slot_other: "i \<noteq> j \<Longrightarrow> slot (decode_triplet j a b c st) i = slot st i"
  by (simp add: slot_def decode_triplet_def Let_def)

lemma slot_same:
  assumes "slot st i = slot st' i" "slices_len n st" "slices_len n st'" "i < n"
  shows "slot (decode_triplet i a b c st) i = slot (decode_triplet i a b c st') i"
  using assms by (simp add: slot_def decode_triplet_def slices_len_def Let_def)

text \<open>Each pool is decoded from its own three results, whatever the others are; too few results panic.\<close>

lemma decode_triplets_slots:
  assumes "slices_len n st" and "distinct is" and "set is \<subseteq> {..<n}"
  shows "case decode_triplets is results st of
      None \<Rightarrow> \<exists>i \<in> set is. length results \<le> i * 3 + 2
    | Some out \<Rightarrow> (\<forall>i \<in> set is. i * 3 + 2 < length results) \<and> slices_len n out \<and>
        (\<forall>i < n. slot out i = (if i \<in> set is then slot (decode_triplet i (results ! (i * 3)) (results ! (i * 3 + 1)) (results ! (i * 3 + 2)) st) i else slot st i))"
  using assms
proof (induction "is" results st rule: decode_triplets.induct)
  case (2 j js results st)
  let ?st = "decode_triplet j (results ! (j * 3)) (results ! (j * 3 + 1)) (results ! (j * 3 + 2)) st"
  have len: "slices_len n ?st" using 2(2) by (rule slices_len_decode)
  have same: "slot (decode_triplet i a b c ?st) i = slot (decode_triplet i a b c st) i" if "i < n" "i \<noteq> j" for i a b c
    using that slot_other [of i j] len 2(2) by (intro slot_same [where n = n]) simp_all
  show ?case
  proof (cases "j * 3 + 2 < length results")
    case True
    have ih: "case decode_triplets js results ?st of
        None \<Rightarrow> \<exists>i \<in> set js. length results \<le> i * 3 + 2
      | Some out \<Rightarrow> (\<forall>i \<in> set js. i * 3 + 2 < length results) \<and> slices_len n out \<and>
          (\<forall>i < n. slot out i = (if i \<in> set js then slot (decode_triplet i (results ! (i * 3)) (results ! (i * 3 + 1)) (results ! (i * 3 + 2)) ?st) i else slot ?st i))"
      using 2(1) [OF True len] 2(3,4) by simp
    have js: "j \<notin> set js" using 2(3) by simp
    show ?thesis
    proof (cases "decode_triplets js results ?st")
      case None
      then show ?thesis using ih True by simp
    next
      case (Some out)
      then have out: "\<forall>i \<in> set js. i * 3 + 2 < length results" "slices_len n out"
        "\<And>i. i < n \<Longrightarrow> slot out i = (if i \<in> set js then slot (decode_triplet i (results ! (i * 3)) (results ! (i * 3 + 1)) (results ! (i * 3 + 2)) ?st) i else slot ?st i)"
        using ih by simp_all
      have "slot out i = (if i \<in> set (j # js) then slot (decode_triplet i (results ! (i * 3)) (results ! (i * 3 + 1)) (results ! (i * 3 + 2)) st) i else slot st i)"
        if "i < n" for i
        using out(3) [OF that] same [OF that] slot_other [of i j] js by (cases "i = j") auto
      then show ?thesis using Some True out(1,2) by simp
    qed
  qed (simp add: not_less)
qed simp

text \<open>
  What a pool is given for its three results: nothing but an error if one of the calls has reverted; the encoded state of the pool if the
  contract has returned it. An answer that is too short leaves the zero value, with an error only for \<^verbatim>\<open>slot0\<close>.
\<close>

definition info_shows :: "bool \<times> byte list \<Rightarrow> bool \<times> byte list \<Rightarrow> bool \<times> byte list \<Rightarrow>
    int \<times> int option \<times> int option \<times> uint64 \<times> info_error option \<Rightarrow> bool" where
  "info_shows s0 liq fee = (\<lambda>(tick, liquidity, sqrtPriceX96, feeOut, err).
     (if fst s0 \<and> fst liq \<and> fst fee
      then (\<forall>p. state_ok p \<and> [s0, liq, fee] = triplet p \<longrightarrow> tick = oTick p \<and> liquidity = Some (oLiquidity p) \<and> sqrtPriceX96 = Some (oSqrt p) \<and> feeOut = oFee p) \<and>
        err = (if length (snd s0) < 64 then Some InfoSlot0Length else None) \<and>
        (length (snd s0) < 64 \<longrightarrow> tick = 0 \<and> sqrtPriceX96 = None) \<and> (length (snd liq) < 32 \<longrightarrow> liquidity = None) \<and> (length (snd fee) < 32 \<longrightarrow> feeOut = 0)
      else tick = 0 \<and> liquidity = None \<and> sqrtPriceX96 = None \<and> feeOut = 0 \<and> err = Some InfoReverted))"

lemma info_shows_decode:
  assumes "i < n"
  shows "info_shows s0 liq fee (slot (decode_triplet i s0 liq fee (new_slices n)) i)"
proof -
  have "slot (decode_triplet i s0 liq fee (new_slices n)) i = (oTick p, Some (oLiquidity p), Some (oSqrt p), oFee p, None)"
    if "state_ok p" "[s0, liq, fee] = triplet p" for p
  proof -
    have r: "s0 = triplet p ! 0" "liq = triplet p ! 1" "fee = triplet p ! 2" using that(2) by (metis nth_Cons_0 nth_Cons_Suc One_nat_def numeral_2_eq_2)+
    show ?thesis unfolding r decode_triplet_ok [OF that(1)] using assms by (simp add: slot_def new_slices_def)
  qed
  moreover have "slot (new_slices n) i = (0, None, None, 0, None)" using assms by (simp add: slot_def new_slices_def)
  ultimately show ?thesis using assms
    by (auto simp: info_shows_def) (auto simp: slot_def decode_triplet_def new_slices_def Let_def)
qed


definition wit_pool_state :: pool_state where
  "wit_pool_state = \<lparr>oSqrt = 2 ^ 96, oTick = - 5, oLiquidity = 1000, oFee = 3000, oRest = []\<rparr>"

definition wit_node :: "int multicall" where
  "wit_node = \<lparr>mcPackCall = (\<lambda>_. Inr []), mcPack = (\<lambda>_. Inr [0]), mcCall = Inr, mcUnpack = (\<lambda>_. Inr (triplet wit_pool_state @ [(True, []), (False, []), (True, [])]))\<rparr>"


section \<open>Canonical pools\<close>

text \<open>A pool is accepted only if its factory is known and returns this pool for its tokens and its fee.\<close>

lemma v3_initializer_canonical:
  assumes "NewPoolInitializerFunc getPoolSig m knownFactories = Inr initialize" "i < length poolAddrs" "initialize calls poolAddrs ! i = Inr info"
  shows "\<exists>factory. factory \<in> set knownFactories \<and> v3_getFactory (calls i) (poolAddrs ! i) = Inr factory \<and>
    vcInfo (calls i) (poolAddrs ! i) = Inr info \<and>
    getPoolFromFactory getPoolSig (calls i) factory (niToken0 info) (niToken1 info) (niFee info) = Inr (poolAddrs ! i)"
proof -
  have init: "initialize = (\<lambda>calls poolAddrs. map (\<lambda>i. initialize_v3_pool getPoolSig (set knownFactories) (calls i) (poolAddrs ! i)) [0..<length poolAddrs])"
    using assms(1) by (auto simp: NewPoolInitializerFunc_def split: if_splits)
  have "initialize_v3_pool getPoolSig (set knownFactories) (calls i) (poolAddrs ! i) = Inr info"
    using assms(2,3) by (simp add: init)
  then show ?thesis
    by (auto simp: initialize_v3_pool_def split: option.splits sum.splits if_splits)
qed

section \<open>Touched ticks\<close>

definition is_tick_log :: "byte list \<Rightarrow> byte list \<Rightarrow> Log \<Rightarrow> bool" where
  "is_tick_log mint burn lg \<longleftrightarrow> 4 \<le> length (lgTopics lg) \<and> (lgTopics lg ! 0 = mint \<or> lgTopics lg ! 0 = burn)"

definition touched :: "byte list \<Rightarrow> byte list \<Rightarrow> Log list \<Rightarrow> address \<Rightarrow> int set" where
  "touched mint burn logs a = {int64 (big_SetBytes (lgTopics lg ! k)) | lg k. lg \<in> set logs \<and> is_tick_log mint burn lg \<and> lgAddress lg = a \<and> k \<in> {2, 3}}"

definition updates_ok :: "byte list \<Rightarrow> byte list \<Rightarrow> Log list \<Rightarrow> (address, (int, unit) gomap) gomap \<Rightarrow> bool" where
  "updates_ok mint burn logs m \<longleftrightarrow> distinct (map fst m) \<and>
     (\<forall>a. case map_of m a of None \<Rightarrow> touched mint burn logs a = {} | Some s \<Rightarrow> touched mint burn logs a \<noteq> {} \<and> distinct (map fst s) \<and> fst ` set s = touched mint burn logs a)"

lemma updates_okD:
  assumes "updates_ok mint burn logs m"
  shows "case map_of m a of None \<Rightarrow> touched mint burn logs a = {} | Some s \<Rightarrow> touched mint burn logs a \<noteq> {} \<and> distinct (map fst s) \<and> fst ` set s = touched mint burn logs a"
  using assms by (simp add: updates_ok_def)

lemma touched_snoc:
  "touched mint burn (logs @ [lg]) a = touched mint burn logs a \<union>
     (if is_tick_log mint burn lg \<and> lgAddress lg = a then {int64 (big_SetBytes (lgTopics lg ! 2)), int64 (big_SetBytes (lgTopics lg ! 3))} else {})"
  by (auto simp: touched_def)

lemma touch_ticks_ok: "updates_ok mint burn logs (foldl (touch_ticks mint burn) [] logs)"
proof (induction logs rule: rev_induct)
  case Nil
  then show ?case
    by (simp add: updates_ok_def touched_def)
next
  case (snoc lg logs)
  let ?m = "foldl (touch_ticks mint burn) [] logs"
  show ?case
  proof (cases "is_tick_log mint burn lg")
    case True
    let ?s = "case map_of ?m (lgAddress lg) of None \<Rightarrow> [] | Some s \<Rightarrow> s"
    let ?lo = "int64 (big_SetBytes (lgTopics lg ! 2))" and ?hi = "int64 (big_SetBytes (lgTopics lg ! 3))"
    let ?s' = "AList.update ?hi () (AList.update ?lo () ?s)"
    have s: "distinct (map fst ?s)" "fst ` set ?s = touched mint burn logs (lgAddress lg)"
      using updates_okD [OF snoc, of "lgAddress lg"] by (cases "map_of ?m (lgAddress lg)"; simp)+
    then have s': "distinct (map fst ?s')" "fst ` set ?s' = insert ?hi (insert ?lo (touched mint burn logs (lgAddress lg)))"
      by (simp_all add: distinct_update update_keys image_insert flip: dom_map_of_conv_image_fst add: update_conv' dom_map_of_conv_image_fst)
    have "touch_ticks mint burn ?m lg = AList.update (lgAddress lg) ?s' ?m"
      using True by (simp add: touch_ticks_def is_tick_log_def Let_def)
    then have fold: "foldl (touch_ticks mint burn) [] (logs @ [lg]) = AList.update (lgAddress lg) ?s' ?m"
      by simp
    have "case map_of (AList.update (lgAddress lg) ?s' ?m) a of
        None \<Rightarrow> touched mint burn (logs @ [lg]) a = {}
      | Some s \<Rightarrow> touched mint burn (logs @ [lg]) a \<noteq> {} \<and> distinct (map fst s) \<and> fst ` set s = touched mint burn (logs @ [lg]) a" for a
    proof (cases "a = lgAddress lg")
      case here: True
      then show ?thesis
        using s' True by (simp add: update_conv' touched_snoc insert_commute)
    next
      case other: False
      then have "touched mint burn (logs @ [lg]) a = touched mint burn logs a" "map_of (AList.update (lgAddress lg) ?s' ?m) a = map_of ?m a"
        by (simp_all add: update_conv' touched_snoc)
      then show ?thesis
        using updates_okD [OF snoc, of a] by (simp only:)
    qed
    moreover have "distinct (map fst (AList.update (lgAddress lg) ?s' ?m))"
      using snoc by (simp add: updates_ok_def distinct_update)
    ultimately show ?thesis
      unfolding fold updates_ok_def by blast
  next
    case False
    then have same: "touch_ticks mint burn ?m lg = ?m"
      by (auto simp: touch_ticks_def is_tick_log_def)
    have "touched mint burn (logs @ [lg]) = touched mint burn logs"
      using False by (simp add: touched_snoc fun_eq_iff)
    then show ?thesis
      using snoc unfolding updates_ok_def by (simp only: foldl_append foldl_Cons foldl_Nil same) simp
  qed
qed

text \<open>The log function lists every pool with a mint or burn once, each with exactly the ticks of its logs, whatever the orders of the maps.\<close>

lemma ticks_in_logs_exact:
  assumes "range_order ord" "\<And>a. range_order (ordTicks a)" and res: "UniswapV3PoolsUpdatedInBlock mint burn ord ordTicks logs = (pools, tickss)"
  shows "distinct pools \<and> set pools = {lgAddress lg | lg. lg \<in> set logs \<and> is_tick_log mint burn lg} \<and> length tickss = length pools \<and>
    (\<forall>i < length pools. distinct (tickss ! i) \<and> set (tickss ! i) = touched mint burn logs (pools ! i))"
proof -
  let ?m = "foldl (touch_ticks mint burn) [] logs"
  have ok: "updates_ok mint burn logs ?m"
    by (rule touch_ticks_ok)
  have d: "distinct (map fst (ord ?m))" "set (ord ?m) = set ?m"
    using ok assms(1) by (simp_all add: updates_ok_def range_order_distinct range_order_set)
  have pools: "pools = map fst (ord ?m)" and tickss: "tickss = map (\<lambda>(pool, s). map fst (ordTicks pool s)) (ord ?m)"
    using res by (simp_all add: UniswapV3PoolsUpdatedInBlock_def Let_def)
  have mem: "a \<in> set pools \<longleftrightarrow> touched mint burn logs a \<noteq> {}" for a
  proof -
    have "a \<in> set pools \<longleftrightarrow> map_of ?m a \<noteq> None"
      by (simp add: pools d(2) map_of_eq_None_iff)
    then show ?thesis
      using ok unfolding updates_ok_def by (auto split: option.splits)
  qed
  have some: "touched mint burn logs a \<noteq> {} \<longleftrightarrow> (\<exists>lg \<in> set logs. is_tick_log mint burn lg \<and> lgAddress lg = a)" for a
    by (auto simp: touched_def)
  have "set pools = {lgAddress lg | lg. lg \<in> set logs \<and> is_tick_log mint burn lg}"
    by (rule set_eqI) (auto simp only: mem some mem_Collect_eq)
  moreover have "distinct (tickss ! i) \<and> set (tickss ! i) = touched mint burn logs (pools ! i)" if i: "i < length pools" for i
  proof -
    obtain a s where as: "ord ?m ! i = (a, s)"
      by fastforce
    have "(a, s) \<in> set ?m"
      using i as d(2) by (metis length_map nth_mem pools)
    then have "map_of ?m a = Some s"
      using ok by (simp add: updates_ok_def)
    then have "distinct (map fst s)" "fst ` set s = touched mint burn logs a"
      using ok by (auto simp: updates_ok_def split: option.splits)
    then show ?thesis
      using i as assms(2) by (simp add: pools tickss range_order_distinct range_order_set)
  qed
  moreover have "distinct pools" "length tickss = length pools"
    using d(1) by (simp_all add: pools tickss)
  ultimately show ?thesis
    by blast
qed

section \<open>Positions of bits\<close>

lemma BitLen_bounds: "0 < n \<Longrightarrow> 2 ^ (BitLen n - 1) \<le> n \<and> n < 2 ^ BitLen n \<and> 0 < BitLen n"
proof (induction n rule: BitLen.induct)
  case (1 n)
  show ?case
  proof (cases "n div 2 = 0")
    case True
    then have "n = 1"
      using "1.prems" by simp
    then show ?thesis
      by (simp add: BitLen.simps)
  next
    case False
    then have IH: "2 ^ (BitLen (n div 2) - 1) \<le> n div 2" "n div 2 < 2 ^ BitLen (n div 2)" "0 < BitLen (n div 2)"
      using "1.IH" "1.prems" by auto
    have len: "BitLen n = Suc (BitLen (n div 2))"
      using "1.prems" by (simp add: BitLen.simps [of n])
    have pow: "(2 :: nat) ^ BitLen (n div 2) = 2 * 2 ^ (BitLen (n div 2) - 1)"
      using IH(3) by (cases "BitLen (n div 2)") simp_all
    have "2 ^ BitLen (n div 2) \<le> n"
      unfolding pow using IH(1) by linarith
    moreover have "n < 2 * 2 ^ BitLen (n div 2)"
      using IH(2) by linarith
    ultimately show ?thesis
      by (simp add: len)
  qed
qed

lemma TrailingZeros_bits: "0 < n \<Longrightarrow> bit n (TrailingZeros n) \<and> (\<forall>i < TrailingZeros n. \<not> bit n i)"
proof (induction n rule: TrailingZeros.induct)
  case (1 n)
  show ?case
  proof (cases "odd n")
    case True
    then show ?thesis
      by (simp add: TrailingZeros.simps bit_0)
  next
    case False
    then have "0 < n div 2"
      using "1.prems" by (auto elim: evenE)
    then have IH: "bit (n div 2) (TrailingZeros (n div 2))" "\<forall>i < TrailingZeros (n div 2). \<not> bit (n div 2) i"
      using "1.IH" False "1.prems" by auto
    have len: "TrailingZeros n = Suc (TrailingZeros (n div 2))"
      using False "1.prems" by (simp add: TrailingZeros.simps [of n])
    show ?thesis
      using IH False by (auto simp: len bit_Suc bit_0 less_Suc_eq_0_disj)
  qed
qed

text \<open>The digits hold the bits of the number, 64 each.\<close>

lemma lsb_loop_bits:
  "0 < n \<Longrightarrow> \<exists>k. lsb_loop i (big_Bits n) = Inr (word_of_nat (i * 64 + k)) \<and> bit n k \<and> (\<forall>j < k. \<not> bit n j)"
proof (induction n arbitrary: i rule: big_Bits.induct)
  case (1 n)
  have digits: "big_Bits n = n mod 2 ^ 64 # big_Bits (n div 2 ^ 64)"
    using "1.prems" by (simp add: big_Bits.simps [of n])
  show ?case
  proof (cases "n mod 2 ^ 64 > 0")
    case True
    let ?k = "TrailingZeros (n mod 2 ^ 64)"
    have k: "bit (take_bit 64 n) ?k" "\<forall>j < ?k. \<not> bit (take_bit 64 n) j"
      using TrailingZeros_bits [OF True] by (simp_all add: take_bit_eq_mod)
    then have "bit n ?k \<and> (\<forall>j < ?k. \<not> bit n j)"
      by (auto simp: bit_take_bit_iff)
    then show ?thesis
      using True by (auto simp: digits)
  next
    case False
    then have "0 < n div 2 ^ 64"
      using "1.prems" by (metis div_eq_0_iff gr0I mod_less zero_less_numeral zero_less_power)
    then obtain k where k: "lsb_loop (Suc i) (big_Bits (n div 2 ^ 64)) = Inr (word_of_nat (Suc i * 64 + k))" "bit (n div 2 ^ 64) k"
      "\<forall>j < k. \<not> bit (n div 2 ^ 64) j"
      using "1.IH" "1.prems" by blast
    have low: "\<not> bit n j" if "j < 64" for j
      using False that by (metis bit_take_bit_iff bit_0_eq bot_apply bot_bool_def gr0I take_bit_eq_mod)
    have shift: "bit (n div 2 ^ 64) j \<longleftrightarrow> bit n (64 + j)" for j
      by (metis bit_drop_bit_eq comp_def drop_bit_eq_div)
    have "\<not> bit n j" if "j < 64 + k" for j
      using low [of j] k(3) shift [of "j - 64"] that by (cases "j < 64") auto
    then show ?thesis
      using False k(1,2) shift [of k] by (intro exI [of _ "64 + k"]) (simp add: digits algebra_simps)
  qed
qed

text \<open>
  For every positive number of at most 256 bits the two functions return the positions of its highest and its lowest bit. A larger number
  makes the conversion to a byte wrap.
\<close>

theorem bit_positions_exact:
  assumes x: "0 < x" "x < 2 ^ 256"
  shows "\<exists>hi lo. MostSignificantBit (Some x) = Inr hi \<and> LeastSignificantBit (Some x) = Inr lo \<and> 2 ^ unat hi \<le> x \<and> x < 2 ^ (unat hi + 1) \<and>
    bit x (unat lo) \<and> (\<forall>i < unat lo. \<not> bit x i)"
proof -
  define n where "n = nat x"
  have n: "0 < n" "n < 2 ^ 256" "x = int n"
    using x by (simp_all add: n_def nat_less_iff)
  have len: "2 ^ (BitLen n - 1) \<le> n" "n < 2 ^ BitLen n" "0 < BitLen n"
    using BitLen_bounds [OF n(1)] by simp_all
  have "(2 :: nat) ^ (BitLen n - 1) < 2 ^ 256"
    using len(1) n(2) by simp
  then have hi: "BitLen n - 1 < 256"
    by (rule power_less_imp_less_exp [rotated]) simp
  obtain k where k: "lsb_loop 0 (big_Bits n) = Inr (word_of_nat k)" "bit n k" "\<forall>j < k. \<not> bit n j"
    using lsb_loop_bits [OF n(1), of 0] by auto
  have "\<not> bit n j" if "256 \<le> j" for j
  proof -
    have "n < 2 ^ j"
      using n(2) power_increasing [OF that, of "2 :: nat"] by linarith
    then show ?thesis
      by (simp add: bit_iff_odd)
  qed
  then have lo: "k < 256"
    using k(2) linorder_not_less by blast
  have "unat (word_of_nat (BitLen n - 1) :: 8 word) = BitLen n - 1" "unat (word_of_nat k :: 8 word) = k"
    using hi lo by (simp_all add: unat_of_nat)
  moreover have "MostSignificantBit (Some x) = Inr (word_of_nat (BitLen n - 1))" "LeastSignificantBit (Some x) = Inr (word_of_nat k)"
    using x(1) k(1) by (simp_all add: MostSignificantBit_def LeastSignificantBit_def n_def)
  moreover have "2 ^ (BitLen n - 1) \<le> x" "x < 2 ^ (BitLen n - 1 + 1)"
    using len unfolding n(3) by (simp_all flip: of_nat_power add: of_nat_le_iff)
  moreover have "bit x k" "\<forall>i < k. \<not> bit x i"
    using k(2,3) by (simp_all add: n(3) bit_of_nat_iff_bit)
  ultimately show ?thesis
    by auto
qed

end
