(* ===== verification/UniswapV3_Balance.thy ===== *)
theory UniswapV3_Balance
  imports UniswapV3_Swap
begin

text \<open>
  Pools of Uniswap V3 whose liquidity is the sum of the liquidity that their ticks add: the invariant of the contracts. On
  these pools the swap loop of \<^verbatim>\<open>protocols/uniswapv3/calculator.go\<close> never underflows or overflows the liquidity, so that a
  simulation only ends with an error for wrong arguments, and the pool it returns is of the same kind again: quotes can be
  repeated on the pools that earlier quotes leave behind.
\<close>

section \<open>The liquidity of a tick\<close>

text \<open>The liquidity at a tick is what the initialised ticks up to it add.\<close>

definition liquidity_at :: "TickInfo list \<Rightarrow> int \<Rightarrow> int" where
  "liquidity_at ticks t = sum_list (map tiLiquidityNet (filter (\<lambda>i. tiIndex i \<le> t) ticks))"

definition liquidity_ok :: "TickInfo list \<Rightarrow> bool" where
  "liquidity_ok ticks \<longleftrightarrow> (\<forall>t. 0 \<le> liquidity_at ticks t \<and> liquidity_at ticks t \<le> maxUint128)"

lemma liquidity_at_same:
  assumes "\<forall>m \<in> tick_indices ticks. m \<le> t \<longleftrightarrow> m \<le> t'"
  shows "liquidity_at ticks t = liquidity_at ticks t'"
proof -
  have "filter (\<lambda>i. tiIndex i \<le> t) ticks = filter (\<lambda>i. tiIndex i \<le> t') ticks"
    using assms by (intro filter_cong refl) (simp add: tick_indices_def)
  then show ?thesis by (simp add: liquidity_at_def)
qed

lemma find_tick:
  assumes "n \<in> tick_indices ticks"
  obtains t where "List.find (\<lambda>t. tiIndex t = n) ticks = Some t" "t \<in> set ticks" "tiIndex t = n"
  using assms find_None_iff [of "\<lambda>t. tiIndex t = n" ticks]
  by (cases "List.find (\<lambda>t. tiIndex t = n) ticks") (auto simp: tick_indices_def find_Some_iff)

lemma liquidity_at_tick:
  assumes "distinct (map tiIndex ticks)" and "t \<in> set ticks"
  shows "liquidity_at ticks (tiIndex t) = liquidity_at ticks (tiIndex t - 1) + tiLiquidityNet t"
  using assms
proof (induction ticks)
  case (Cons x ticks)
  show ?case
  proof (cases "x = t")
    case True
    have "tiIndex y \<noteq> tiIndex t" if "y \<in> set ticks" for y
      using Cons.prems(1) imageI [OF that, of tiIndex] True by auto
    then have "liquidity_at ticks (tiIndex t) = liquidity_at ticks (tiIndex t - 1)"
      by (intro liquidity_at_same) (force simp: tick_indices_def)
    then show ?thesis using True by (simp add: liquidity_at_def)
  next
    case False
    then have t: "t \<in> set ticks" "tiIndex x \<noteq> tiIndex t" using Cons.prems by auto
    then have "tiIndex x \<le> tiIndex t \<longleftrightarrow> tiIndex x \<le> tiIndex t - 1" by linarith
    then show ?thesis using Cons.IH Cons.prems(1) t(1) by (auto simp: liquidity_at_def)
  qed
qed simp

section \<open>The swap keeps the balance\<close>

text \<open>The liquidity is that of the current tick, and the price lies between the ticks around it.\<close>

definition balanced :: "TickInfo list \<Rightarrow> swapState \<Rightarrow> bool" where
  "balanced ticks st \<longleftrightarrow> swLiquidity st = liquidity_at ticks (swTick st) \<and>
     MIN_SQRT_RATIO \<le> swSqrtPriceX96 st \<and> swSqrtPriceX96 st \<le> MAX_SQRT_RATIO \<and>
     (\<forall>m \<in> tick_indices ticks. if m \<le> swTick st then sqrt_ratio m \<le> swSqrtPriceX96 st else swSqrtPriceX96 st \<le> sqrt_ratio m)"

lemma balanced_crossed:
  assumes ok: "ticks_ok ticks" and n: "n \<in> tick_indices ticks" and s: "swSqrtPriceX96 s = sqrt_ratio n"
    "swTick s = n \<or> swTick s = n - 1" "swLiquidity s = liquidity_at ticks (swTick s)"
  shows "balanced ticks s"
proof -
  note r = ticks_ok_range [OF ok]
  have "sqrt_ratio m \<le> sqrt_ratio n" if "m \<in> tick_indices ticks" "m \<le> n" for m
    using sqrt_ratio_mono [of m n] r [OF that(1)] r [OF n] that by simp
  moreover have "sqrt_ratio n \<le> sqrt_ratio m" if "m \<in> tick_indices ticks" "n \<le> m" for m
    using sqrt_ratio_mono [of n m] r [OF that(1)] r [OF n] that by simp
  ultimately show ?thesis
    using s sqrt_ratio_range [of n] r [OF n] by (auto simp: balanced_def)
qed

lemma cross_tick_balanced:
  assumes ok: "ticks_ok ticks" and liq: "liquidity_ok ticks" and bal: "balanced ticks st"
    and nx: "NextInitializedTickWithinOneWord ticks (swTick st) z = (n, True)"
    and s: "swSqrtPriceX96 s = sqrt_ratio n" "swLiquidity s = swLiquidity st"
  shows "\<exists>s'. cross_tick ticks n z s = Next s' \<and> balanced ticks s'"
proof -
  have n: "n \<in> tick_indices ticks" and near: "if z then n \<le> swTick st \<and> (\<forall>m \<in> tick_indices ticks. m \<le> swTick st \<longrightarrow> m \<le> n)
      else swTick st < n \<and> (\<forall>m \<in> tick_indices ticks. swTick st < m \<longrightarrow> n \<le> m)"
    using next_tick_lte [OF ok, of "swTick st"] next_tick_gt [OF ok, of "swTick st"] nx by (cases z; simp)+
  obtain t where t: "List.find (\<lambda>t. tiIndex t = n) ticks = Some t" "t \<in> set ticks" "tiIndex t = n"
    using find_tick [OF n] .
  have net: "liquidity_at ticks n = liquidity_at ticks (n - 1) + tiLiquidityNet t"
    using liquidity_at_tick [of ticks t] ok t by (simp add: ticks_ok_def)
  have "liquidity_at ticks (swTick st) = liquidity_at ticks (if z then n else n - 1)"
    by (rule liquidity_at_same) (use near in \<open>cases z; force\<close>)
  then have l: "swLiquidity s + (if z then - tiLiquidityNet t else tiLiquidityNet t) = liquidity_at ticks (if z then n - 1 else n)"
    using bal s(2) net by (simp add: balanced_def)
  define s' where "s' = s\<lparr>swLiquidity := liquidity_at ticks (if z then n - 1 else n), swTick := (if z then n - 1 else n)\<rparr>"
  have "cross_tick ticks n z s = Next s'"
    using t(1) l liq by (simp add: cross_tick_def AddDelta_def Let_def liquidity_ok_def s'_def not_less)
  moreover have "balanced ticks s'"
    by (rule balanced_crossed [OF ok n]) (simp_all add: s'_def s(1))
  ultimately show ?thesis by blast
qed

lemma inside_balanced:
  assumes ok: "ticks_ok ticks" and bal: "balanced ticks st"
    and nx: "NextInitializedTickWithinOneWord ticks (swTick st) z = (n, True)" and s: "swLiquidity s = swLiquidity st"
    and p: "if z then sqrt_ratio n < swSqrtPriceX96 s \<and> swSqrtPriceX96 s < swSqrtPriceX96 st
       else swSqrtPriceX96 st < swSqrtPriceX96 s \<and> swSqrtPriceX96 s < sqrt_ratio n"
    and k: "MIN_TICK \<le> k" "k < MAX_TICK" "sqrt_ratio k \<le> swSqrtPriceX96 s" "swSqrtPriceX96 s < sqrt_ratio (k + 1)"
  shows "balanced ticks (s\<lparr>swTick := k\<rparr>)"
proof -
  note r = ticks_ok_range [OF ok]
  have side: "if m \<le> k then sqrt_ratio m \<le> swSqrtPriceX96 s else swSqrtPriceX96 s < sqrt_ratio m" if m: "m \<in> tick_indices ticks" for m
    using sqrt_ratio_mono [of m k] sqrt_ratio_mono [of "k + 1" m] r [OF m] k by auto
  have n: "n \<in> tick_indices ticks" and near: "\<forall>m \<in> tick_indices ticks. if z then m \<le> swTick st \<longrightarrow> m \<le> n else swTick st < m \<longrightarrow> n \<le> m"
    using next_tick_lte [OF ok, of "swTick st"] next_tick_gt [OF ok, of "swTick st"] nx by (cases z; simp)+
  have "m \<le> swTick st \<longleftrightarrow> m \<le> k" if m: "m \<in> tick_indices ticks" for m
  proof (cases z)
    case True
    have "n \<le> k" using side [OF n] p True by (auto split: if_splits)
    moreover have "swTick st < m \<Longrightarrow> swSqrtPriceX96 st \<le> sqrt_ratio m" using bal m by (auto simp: balanced_def)
    ultimately show ?thesis using near side [OF m] m p True by (force split: if_splits)
  next
    case False
    have "k < n" using side [OF n] p False by (auto split: if_splits)
    moreover have "m \<le> swTick st \<Longrightarrow> sqrt_ratio m \<le> swSqrtPriceX96 st" using bal m by (auto simp: balanced_def)
    ultimately show ?thesis using near side [OF m] m p False by (force split: if_splits)
  qed
  then have "liquidity_at ticks (swTick st) = liquidity_at ticks k" by (intro liquidity_at_same) blast
  moreover have "MIN_SQRT_RATIO \<le> swSqrtPriceX96 s" "swSqrtPriceX96 s \<le> MAX_SQRT_RATIO"
    using sqrt_ratio_range [of k] sqrt_ratio_range [of "k + 1"] k by simp_all
  ultimately show ?thesis using bal s side by (fastforce simp: balanced_def split: if_splits)
qed

context uint256_pkg
begin

lemma swap_step_balanced:
  assumes "ticks_ok (v3Ticks pool)" "sw_ok z limit (v3Ticks pool) st" "v3Fee pool < 1000000" "swRemaining st \<noteq> 0" "exactIn = (swRemaining st > 0)"
    and liq: "liquidity_ok (v3Ticks pool)" and bal: "balanced (v3Ticks pool) st"
  shows "\<exists>s. (swap_step U pool limit z exactIn st = Break s \<or> swap_step U pool limit z exactIn st = Next s) \<and> balanced (v3Ticks pool) s"
proof (cases rule: swap_step_form [OF assms(1-5)])
  case 1
  then show ?thesis using bal by blast
next
  case (2 n st')
  then show ?thesis using cross_tick_balanced [OF assms(1) liq bal 2(1,4,5)] by auto
next
  case (3 n st' k)
  then show ?thesis using inside_balanced [OF assms(1) bal 3(1,4,6-10)] by auto
next
  case (4 st')
  then have "balanced (v3Ticks pool) st'" using bal by (simp add: balanced_def)
  then show ?thesis using 4(6) by blast
qed

lemma swap_loop_balanced:
  assumes ok: "ticks_ok (v3Ticks pool)" and fee: "v3Fee pool < 1000000" and liq: "liquidity_ok (v3Ticks pool)"
    and st: "sw_ok z limit (v3Ticks pool) st" and e: "swRemaining st \<noteq> 0 \<Longrightarrow> exactIn = (swRemaining st > 0)" and bal: "balanced (v3Ticks pool) st"
  shows "\<exists>s. swap_loop U pool limit z exactIn st = Some (Inr s) \<and> balanced (v3Ticks pool) s"
  using st e bal
proof (induction "card (ticks_ahead z (v3Ticks pool) st)" arbitrary: st rule: less_induct)
  case less
  note unfold = swap_loop.simps [of U pool limit z exactIn st]
  show ?case
  proof (cases "swRemaining st \<noteq> 0 \<and> swSqrtPriceX96 st \<noteq> limit")
    case False
    then show ?thesis using less.prems(3) unfolding unfold if_not_P [OF False] by blast
  next
    case go: True
    have e: "exactIn = (swRemaining st > 0)" using less.prems(2) go by blast
    have rem: "swRemaining st \<noteq> 0" using go by blast
    obtain s where s: "swap_step U pool limit z exactIn st = Break s \<or> swap_step U pool limit z exactIn st = Next s" "balanced (v3Ticks pool) s"
      using swap_step_balanced [OF ok less.prems(1) fee rem e liq less.prems(3)] by blast
    show ?thesis
    proof (cases "swap_step U pool limit z exactIn st = Break s")
      case True
      then have "swap_loop U pool limit z exactIn st = Some (Inr s)" using go by (simp add: unfold)
      then show ?thesis using s(2) by blast
    next
      case False
      then have nxt: "swap_step U pool limit z exactIn st = Next s" using s(1) by blast
      then have l: "swap_loop U pool limit z exactIn st = swap_loop U pool limit z exactIn s" using go by (simp add: unfold)
      have it: "progress z limit st s" "sw_ok z limit (v3Ticks pool) s"
        "swRemaining s = 0 \<or> swSqrtPriceX96 s = limit \<or> card (ticks_ahead z (v3Ticks pool) s) < card (ticks_ahead z (v3Ticks pool) st)"
        using swap_step_ok [OF ok less.prems(1) fee rem e] nxt by (simp_all add: iter_ok_def)
      show ?thesis
      proof (cases "swRemaining s \<noteq> 0 \<and> swSqrtPriceX96 s \<noteq> limit")
        case False
        then show ?thesis using s(2) unfolding l swap_loop.simps [of U pool limit z exactIn s] if_not_P [OF False] by blast
      next
        case sr: True
        have "exactIn = (swRemaining s > 0)" using e sr it(1) rem by (auto simp: progress_def split: if_splits)
        then show ?thesis using less.hyps [of s] it sr s(2) l by simp
      qed
    qed
  qed
qed

end

section \<open>Balanced pools\<close>

definition v3_balanced :: "V3PoolView \<Rightarrow> bool" where
  "v3_balanced pool \<longleftrightarrow> ticks_ok (v3Ticks pool) \<and> v3Fee pool < 1000000 \<and> liquidity_ok (v3Ticks pool) \<and> balanced (v3Ticks pool) (start_state 0 pool)"

lemma balanced_start: "balanced ticks (start_state a pool) \<longleftrightarrow> balanced ticks (start_state 0 pool)"
  by (simp add: balanced_def start_state_def)

lemma start_sw_ok:
  assumes "v3_balanced pool"
  shows "sw_ok z (swap_limit None z) (v3Ticks pool) (start_state a pool)"
  using assms by (auto simp: v3_balanced_def balanced_def liquidity_ok_def sw_ok_def start_state_def swap_limit_def MIN_SQRT_RATIO_def MAX_SQRT_RATIO_def
      split: if_splits)

lemma v3_swap_balanced:
  assumes "uint256_pkg U" and "v3_balanced pool"
  shows "\<exists>s. v3_swap U (start_state a pool) pool None z = Some (Inr s) \<and> v3_balanced (new_pool_state pool s)"
proof -
  have p: "ticks_ok (v3Ticks pool)" "v3Fee pool < 1000000" "liquidity_ok (v3Ticks pool)" "balanced (v3Ticks pool) (start_state a pool)"
    using assms(2) balanced_start [of "v3Ticks pool" a pool] by (simp_all add: v3_balanced_def)
  from uint256_pkg.swap_loop_balanced [OF assms(1) p(1-3) start_sw_ok [OF assms(2)] refl p(4)] obtain s where
    "v3_swap U (start_state a pool) pool None z = Some (Inr s)" "balanced (v3Ticks pool) s"
    by (auto simp: v3_swap_def)
  moreover have "v3_balanced (new_pool_state pool s)"
    using p calculation(2) by (simp add: v3_balanced_def new_pool_state_def balanced_def start_state_def)
  ultimately show ?thesis by blast
qed

end
