(* ===== verification/Trade_Platform.thy ===== *)
theory Trade_Platform
  imports Router_Rates UniswapV3_Balance
begin

text \<open>
  The trading platform of \<^verbatim>\<open>src/examples/celo-flow/server/app\<close>: prices, the split of a trade into fragments that are routed one after the other on the
  pools as the fragments before leave them, the quote, and the transactions of a swap with their encoded swap data. The
  floating-point arithmetic of prices, the ABI package and the node are arguments. \<^verbatim>\<open>state\<close> and \<^verbatim>\<open>router\<close> are two atomic pointers;
  an operation gets the values it has loaded, which are one state and one router unless \<^verbatim>\<open>SetState\<close> runs while it does. A result is \<open>None\<close> where the code panics or a quote does not return.
\<close>

section \<open>The platform\<close>

datatype platform_error =
    PErrStateUnavailable
  | PErrTokenNotFound address
  | PErrRouter router_error
  | PErrPricesUnavailable
  | PErrPriceUnavailable address
  | PErrInvalidAmount
  | PErrInvalidMaxFragments int
  | PErrInvalidMaxQuoteValue
  | PErrPoolNotFound uint64
  | PErrProtocolNotFound uint16
  | PErrSimulateV2 v2_math_error
  | PErrSimulateV3 v3_math_error
  | PErrInvalidSlippage
  | PErrInvalidQuote
  | PErrRPC string
  | PErrEncodeApprove
  | PErrEncode string
  | PErrSchemaNotFound uint64
  | PErrPoolKey key_error
  | PErrUnsupportedProtocol
  | PErrNoSwapData
  | PErrQuoteValue
  | PPanic

record Platform =
  plState :: "CeloState option"
  plRouter :: "Router option"
  plPrices :: "(address, float64) gomap"
  plQuoteToken :: address
  plQuoteTokenAmount :: int
  plSwapAddress :: address
  plMaxQuoteValuePerFragment :: "int option"
  plMaxFragments :: int

definition NewPlatform :: "int \<Rightarrow> address \<Rightarrow> address \<Rightarrow> int option \<Rightarrow> int \<Rightarrow> Platform" where
  "NewPlatform quoteTokenAmount quoteToken swapAddress maxQuoteValuePerFragment maxFragments =
     \<lparr>plState = None, plRouter = None, plPrices = [], plQuoteToken = quoteToken, plQuoteTokenAmount = quoteTokenAmount, plSwapAddress = swapAddress,
      plMaxQuoteValuePerFragment = maxQuoteValuePerFragment, plMaxFragments = maxFragments\<rparr>"

definition SetState :: "'u uint256 \<Rightarrow> CeloState \<Rightarrow> Platform \<Rightarrow> Platform option" where
  "SetState U state p = map_option (\<lambda>router. p\<lparr>plState := Some state, plRouter := Some router\<rparr>) (NewRouter U state)"

text \<open>
  \<open>price\<close> is \<^verbatim>\<open>1 / (normalizedRate / 10^decimals)\<close> in floating-point numbers, and \<open>ids\<close> lists the keys of the rates in the order of the range loop.
\<close>

fun price_loop ::
  "(int \<Rightarrow> uint8 \<Rightarrow> float64) \<Rightarrow> CeloState \<Rightarrow> int \<Rightarrow> int \<Rightarrow> (uint64 \<rightharpoonup> int) \<Rightarrow> uint64 list \<Rightarrow> (address, float64) gomap \<Rightarrow> (address, float64) gomap option" where
  "price_loop price state oneQuoteToken quoteTokenAmount rates [] prices = Some prices"
| "price_loop price state oneQuoteToken quoteTokenAmount rates (tokenId # ids) prices =
     (case it_GetByID (ceTokens state) tokenId of
        None \<Rightarrow> price_loop price state oneQuoteToken quoteTokenAmount rates ids prices
      | Some token \<Rightarrow>
          if quoteTokenAmount = 0 then None
          else let normalizedRate = big_Div (the (rates tokenId) * oneQuoteToken) quoteTokenAmount in
            price_loop price state oneQuoteToken quoteTokenAmount rates ids (AList.update (tvAddress token) (price normalizedRate (tvDecimals token)) prices))"

definition updatePrices ::
  "(int \<Rightarrow> uint8 \<Rightarrow> float64) \<Rightarrow> ((uint64 \<rightharpoonup> int) \<Rightarrow> uint64 list) \<Rightarrow> Platform \<Rightarrow> (platform_error option \<times> Platform) option" where
  "updatePrices price ids p =
     (case (plState p, plRouter p) of
        (Some state, Some rt) \<Rightarrow>
          (case it_GetByAddress (ceTokens state) (plQuoteToken p) of
             None \<Rightarrow> Some (Some (PErrTokenNotFound (plQuoteToken p)), p)
           | Some quoteToken \<Rightarrow>
               (case GetExchangeRates rt (plQuoteTokenAmount p) (tvID quoteToken) 4 None of
                  None \<Rightarrow> None
                | Some (Inl err) \<Rightarrow> Some (Some (PErrRouter err), p)
                | Some (Inr rates) \<Rightarrow>
                    map_option (\<lambda>prices. (None, p\<lparr>plPrices := prices\<rparr>))
                      (price_loop price state (10 ^ unat (tvDecimals quoteToken)) (plQuoteTokenAmount p) rates (ids rates) [])))
      | _ \<Rightarrow> Some (Some PErrStateUnavailable, p))"

definition Tokens :: "Platform \<Rightarrow> platform_error + TokenView list" where
  "Tokens p =
     (case plState p of
        None \<Rightarrow> Inl PErrStateUnavailable
      | Some state \<Rightarrow> Inr (filter (\<lambda>t. tvID t \<in> set (gvTokens (ceGraph state))) (it_All (ceTokens state))))"

definition Prices :: "Platform \<Rightarrow> platform_error + (address, float64) gomap \<times> address" where
  "Prices p = (if plPrices p = [] then Inl PErrPricesUnavailable else Inr (plPrices p, plQuoteToken p))"

text \<open>What \<^verbatim>\<open>WaitForPrices\<close> polls for.\<close>

definition prices_ready :: "address list \<Rightarrow> Platform \<Rightarrow> bool" where
  "prices_ready requiredTokens p =
     (case Prices p of Inl err \<Rightarrow> False | Inr (prices, _) \<Rightarrow> list_all (\<lambda>token. map_of prices token \<noteq> None) requiredTokens)"

section \<open>Fragments\<close>

text \<open>
  \<open>quoteValue\<close> is the value of an amount at a price in \<^verbatim>\<open>big.Float\<close> numbers, truncated to an integer, or \<open>None\<close> if it is infinite.
  \<^verbatim>\<open>big.NewFloat\<close> panics for a NaN.
\<close>

definition float_nonpositive :: "float64 \<Rightarrow> bool" where
  "float_nonpositive f \<longleftrightarrow> \<not> float_is_nan f \<and> (float_is_zero f \<or> bit f 63)"

definition getFragments ::
  "(int \<Rightarrow> float64 \<Rightarrow> uint8 \<Rightarrow> uint8 \<Rightarrow> int option) \<Rightarrow> int option \<Rightarrow> address \<Rightarrow> Platform \<Rightarrow> platform_error + int" where
  "getFragments quoteValue amount tokenAddress p =
     (case amount of
        None \<Rightarrow> Inl PErrInvalidAmount
      | Some amount \<Rightarrow>
          if amount \<le> 0 then Inl PErrInvalidAmount
          else if plMaxFragments p \<le> 0 then Inl (PErrInvalidMaxFragments (plMaxFragments p))
          else (case plMaxQuoteValuePerFragment p of
             None \<Rightarrow> Inl PErrInvalidMaxQuoteValue
           | Some maxValue \<Rightarrow>
               if maxValue \<le> 0 then Inl PErrInvalidMaxQuoteValue
               else (case plState p of
                  None \<Rightarrow> Inl PErrStateUnavailable
                | Some state \<Rightarrow>
                    (case it_GetByAddress (ceTokens state) tokenAddress of
                       None \<Rightarrow> Inl (PErrTokenNotFound tokenAddress)
                     | Some tokenIn \<Rightarrow>
                         (case it_GetByAddress (ceTokens state) (plQuoteToken p) of
                            None \<Rightarrow> Inl (PErrTokenNotFound (plQuoteToken p))
                          | Some quoteToken \<Rightarrow>
                              bind_result
                                (if tokenAddress = plQuoteToken p then Inr amount
                                 else bind_result (Prices p) (\<lambda>(prices, _).
                                   case map_of prices tokenAddress of
                                     None \<Rightarrow> Inl (PErrPriceUnavailable tokenAddress)
                                   | Some price \<Rightarrow>
                                       if float_nonpositive price then Inl (PErrPriceUnavailable tokenAddress)
                                       else if float_is_nan price then Inl PPanic
                                       else (case quoteValue amount price (tvDecimals tokenIn) (tvDecimals quoteToken) of
                                          None \<Rightarrow> Inl PErrQuoteValue
                                        | Some value \<Rightarrow> Inr value)))
                                (\<lambda>quoteValueRaw.
                                   let fragments = big_Div (quoteValueRaw + (maxValue - 1)) maxValue in
                                   if \<not> (- (2 ^ 63) \<le> fragments \<and> fragments < 2 ^ 63) then Inr (plMaxFragments p)
                                   else let n = (if fragments < 1 then 1 else fragments) in
                                     Inr (if n > plMaxFragments p then plMaxFragments p else n)))))))"

text \<open>The amounts that the trade is split into; \<^verbatim>\<open>Mod\<close> of \<^verbatim>\<open>big.Int\<close> is never negative.\<close>

definition fragment_amounts :: "int \<Rightarrow> int \<Rightarrow> int list" where
  "fragment_amounts amountIn maxFragments =
     (let amountInPerFragment = big_Div amountIn maxFragments;
          amountInRemainder = amountIn - maxFragments * big_Div amountIn maxFragments;
          fragmentAmounts = (if amountInPerFragment > 0 then replicate (nat maxFragments) amountInPerFragment else [])
      in if amountInRemainder > 0
         then let threshold = big_Div amountInPerFragment 4 in
           if amountInRemainder \<ge> threshold then fragmentAmounts @ [amountInRemainder]
           else if fragmentAmounts \<noteq> [] then butlast fragmentAmounts @ [last fragmentAmounts + amountInRemainder]
           else fragmentAmounts
         else fragmentAmounts)"

section \<open>Overrides\<close>

definition celo_UniswapV2ProtocolID :: EngineProtocolID where
  "celo_UniswapV2ProtocolID = ''uniswap-v2-celo-mainnet''"

definition celo_UniswapV3ProtocolID :: EngineProtocolID where
  "celo_UniswapV3ProtocolID = ''uniswap-v3-celo-mainnet''"

definition celo_AerodromeV3ProtocolID :: EngineProtocolID where
  "celo_AerodromeV3ProtocolID = ''aerodrome-v3-celo-mainnet''"

definition copy_v2 :: "V2Pool \<Rightarrow> V2Pool" where
  "copy_v2 pool = \<lparr>p2Protocol = p2Protocol pool, p2IDs = p2IDs pool, p2Address = p2Address pool, p2Token0 = p2Token0 pool, p2Token1 = p2Token1 pool,
     p2Reserve0 = p2Reserve0 pool, p2Reserve1 = p2Reserve1 pool, p2FeeBps = p2FeeBps pool\<rparr>"

definition copy_v3 :: "V3Pool \<Rightarrow> V3Pool" where
  "copy_v3 pool = \<lparr>p3Protocol = p3Protocol pool, p3IDs = p3IDs pool, p3Address = p3Address pool, p3Token0 = p3Token0 pool, p3Token1 = p3Token1 pool,
     p3Fee = p3Fee pool, p3TickSpacing = p3TickSpacing pool, p3Liquidity = p3Liquidity pool, p3SqrtPriceX96 = p3SqrtPriceX96 pool, p3Tick = p3Tick pool,
     p3Ticks = p3Ticks pool\<rparr>"

definition copyOverrides :: "PoolOverrides \<Rightarrow> PoolOverrides" where
  "copyOverrides old = \<lparr>ovUniswapV2 = map (\<lambda>(k, pool). (k, copy_v2 pool)) (ovUniswapV2 old), ovUniswapV3 = map (\<lambda>(k, pool). (k, copy_v3 pool)) (ovUniswapV3 old),
     ovAerodromeV3 = map (\<lambda>(k, pool). (k, copy_v3 pool)) (ovAerodromeV3 old)\<rparr>"

text \<open>The pool as the overrides have it, else as the state has it.\<close>

definition current_pool :: "(uint64, 'p) gomap \<Rightarrow> 'p IndexablePools \<Rightarrow> uint64 \<Rightarrow> 'p option" where
  "current_pool overrides pools poolID = (case map_of overrides poolID of Some pool \<Rightarrow> Some pool | None \<Rightarrow> ip_GetByID pools poolID)"

definition override_v2 ::
  "int \<Rightarrow> TokenPoolPath \<Rightarrow> V2Pool IndexablePools \<Rightarrow> (uint64, V2Pool) gomap \<Rightarrow> platform_error + int \<times> (uint64, V2Pool) gomap" where
  "override_v2 amountIn h pools overrides =
     (case current_pool overrides pools (tpPoolID h) of
        None \<Rightarrow> Inl (PErrPoolNotFound (tpPoolID h))
      | Some pool \<Rightarrow>
          (case v2_simulateSwap (Some amountIn) (tpTokenInID h) (tpTokenOutID h) (v2_pool_view pool) of
             Inl err \<Rightarrow> Inl (PErrSimulateV2 err)
           | Inr (amountOut, u) \<Rightarrow>
               Inr (amountOut, AList.update (idsPool (p2IDs pool)) (pool\<lparr>p2Reserve0 := v2Reserve0 u, p2Reserve1 := v2Reserve1 u\<rparr>) overrides)))"

definition override_v3 ::
  "'u uint256 \<Rightarrow> int \<Rightarrow> TokenPoolPath \<Rightarrow> V3Pool IndexablePools \<Rightarrow> (uint64, V3Pool) gomap \<Rightarrow> (platform_error + int \<times> (uint64, V3Pool) gomap) option" where
  "override_v3 U amountIn h pools overrides =
     (case current_pool overrides pools (tpPoolID h) of
        None \<Rightarrow> Some (Inl (PErrPoolNotFound (tpPoolID h)))
      | Some pool \<Rightarrow>
          (case SimulateExactInSwap U (Some amountIn) None (tpTokenInID h) (v3_pool_view pool) of
             None \<Rightarrow> None
           | Some (Inl V3Panic) \<Rightarrow> None
           | Some (Inl err) \<Rightarrow> Some (Inl (PErrSimulateV3 err))
           | Some (Inr (amountOut, u)) \<Rightarrow>
               Some (Inr (amountOut, AList.update (idsPool (p3IDs pool))
                 (pool\<lparr>p3Tick := v3Tick u, p3Liquidity := v3Liquidity u, p3SqrtPriceX96 := v3SqrtPriceX96 u, p3Ticks := v3Ticks u\<rparr>) overrides))))"

text \<open>One hop; a pool of another protocol changes neither the amount nor the overrides.\<close>

definition override_hop ::
  "'u uint256 \<Rightarrow> CeloState \<Rightarrow> TokenPoolPath \<Rightarrow> int \<times> PoolOverrides \<Rightarrow> (platform_error + int \<times> PoolOverrides) option" where
  "override_hop U state h st = (case st of (amountIn, ov) \<Rightarrow>
     (case ir_GetByID (cePools state) (tpPoolID h) of
        None \<Rightarrow> Some (Inl (PErrPoolNotFound (tpPoolID h)))
      | Some p \<Rightarrow>
          (case ir_GetProtocols (cePools state) (pvProtocol p) of
             None \<Rightarrow> Some (Inl (PErrProtocolNotFound (pvProtocol p)))
           | Some protocolID \<Rightarrow>
               if protocolID = celo_UniswapV2ProtocolID
               then Some (map_sum id (\<lambda>(a, m). (a, ov\<lparr>ovUniswapV2 := m\<rparr>)) (override_v2 amountIn h (ceUniswapV2 state) (ovUniswapV2 ov)))
               else if protocolID = celo_UniswapV3ProtocolID
               then map_option (map_sum id (\<lambda>(a, m). (a, ov\<lparr>ovUniswapV3 := m\<rparr>))) (override_v3 U amountIn h (ceUniswapV3 state) (ovUniswapV3 ov))
               else if protocolID = celo_AerodromeV3ProtocolID
               then map_option (map_sum id (\<lambda>(a, m). (a, ov\<lparr>ovAerodromeV3 := m\<rparr>))) (override_v3 U amountIn h (ceAerodromeV3 state) (ovAerodromeV3 ov))
               else Some (Inr (amountIn, ov)))))"

fun override_path ::
  "'u uint256 \<Rightarrow> CeloState \<Rightarrow> TokenPoolPath list \<Rightarrow> int \<times> PoolOverrides \<Rightarrow> (platform_error + int \<times> PoolOverrides) option" where
  "override_path U state [] st = Some (Inr st)"
| "override_path U state (h # hs) st =
     (case override_hop U state h st of
        None \<Rightarrow> None
      | Some (Inl err) \<Rightarrow> Some (Inl err)
      | Some (Inr st') \<Rightarrow> override_path U state hs st')"

definition getOverrides :: "'u uint256 \<Rightarrow> int \<Rightarrow> TokenPoolPath list \<Rightarrow> PoolOverrides \<Rightarrow> CeloState \<Rightarrow> (platform_error + PoolOverrides) option" where
  "getOverrides U amountIn path prevOverrides state = map_option (map_sum id snd) (override_path U state path (amountIn, copyOverrides prevOverrides))"

section \<open>The quote\<close>

text \<open>The split so far: paths with the amounts that go in and come out. A path that was used before gets the new amounts added.\<close>

type_synonym split = "(TokenPoolPath list \<times> int \<times> int) list"

fun add_fragment :: "TokenPoolPath list \<Rightarrow> int \<Rightarrow> int \<Rightarrow> split \<Rightarrow> split" where
  "add_fragment pathFragment fragment amountOutFragment [] = [(pathFragment, fragment, amountOutFragment)]"
| "add_fragment pathFragment fragment amountOutFragment ((prevPath, amountIn, amountOut) # rest) =
     (if EqualTokenPoolPaths prevPath pathFragment then (prevPath, amountIn + fragment, amountOut + amountOutFragment) # rest
      else (prevPath, amountIn, amountOut) # add_fragment pathFragment fragment amountOutFragment rest)"

definition DefaultFindBestSwapPathRuns :: int where
  "DefaultFindBestSwapPathRuns = 4"

fun route_fragments ::
  "'u uint256 \<Rightarrow> (uint64, V3Pool) range_order \<Rightarrow> (uint64, V2Pool) range_order \<Rightarrow> CeloState \<Rightarrow> Router \<Rightarrow> uint64 \<Rightarrow> uint64 \<Rightarrow> int list \<Rightarrow> PoolOverrides \<Rightarrow> split \<Rightarrow>
   (platform_error + split) option" where
  "route_fragments U ord3 ord2 state rt tIn tOut [] overrides acc = Some (Inr acc)"
| "route_fragments U ord3 ord2 state rt tIn tOut (fragment # fragments) overrides acc =
     (case FindBestSwapPathGreedy U ord3 ord2 rt DefaultFindBestSwapPathRuns fragment tIn tOut overrides of
        None \<Rightarrow> None
      | Some (Inl err) \<Rightarrow> Some (Inl (PErrRouter err))
      | Some (Inr (pathFragment, amountOutFragment)) \<Rightarrow>
          (case getOverrides U fragment pathFragment overrides state of
             None \<Rightarrow> None
           | Some (Inl err) \<Rightarrow> Some (Inl err)
           | Some (Inr overrides') \<Rightarrow>
               route_fragments U ord3 ord2 state rt tIn tOut fragments overrides' (add_fragment pathFragment fragment amountOutFragment acc)))"

definition QuoteAlgorithm ::
  "'u uint256 \<Rightarrow> (uint64, V3Pool) range_order \<Rightarrow> (uint64, V2Pool) range_order \<Rightarrow> Platform \<Rightarrow> address \<Rightarrow> address \<Rightarrow> int \<Rightarrow> int \<Rightarrow> (platform_error + split) option" where
  "QuoteAlgorithm U ord3 ord2 p tokenIn tokenOut amountIn maxFragments =
     (if maxFragments \<le> 0 then Some (Inl (PErrInvalidMaxFragments maxFragments))
      else case (plState p, plRouter p) of
        (Some state, Some rt) \<Rightarrow>
          (case it_GetByAddress (ceTokens state) tokenIn of
             None \<Rightarrow> Some (Inl (PErrTokenNotFound tokenIn))
           | Some tIn \<Rightarrow>
               (case it_GetByAddress (ceTokens state) tokenOut of
                  None \<Rightarrow> Some (Inl (PErrTokenNotFound tokenOut))
                | Some tOut \<Rightarrow>
                    route_fragments U ord3 ord2 state rt (tvID tIn) (tvID tOut) (fragment_amounts amountIn maxFragments)
                      \<lparr>ovUniswapV2 = [], ovUniswapV3 = [], ovAerodromeV3 = []\<rparr> []))
      | _ \<Rightarrow> Some (Inl PErrStateUnavailable))"

definition Quote ::
  "'u uint256 \<Rightarrow> (uint64, V3Pool) range_order \<Rightarrow> (uint64, V2Pool) range_order \<Rightarrow> (int \<Rightarrow> float64 \<Rightarrow> uint8 \<Rightarrow> uint8 \<Rightarrow> int option) \<Rightarrow> Platform \<Rightarrow> address \<Rightarrow> address \<Rightarrow> int option \<Rightarrow>
   (platform_error + int) option" where
  "Quote U ord3 ord2 quoteValue p tokenIn tokenOut amountIn =
     (case getFragments quoteValue amountIn tokenIn p of
        Inl PPanic \<Rightarrow> None
      | Inl err \<Rightarrow> Some (Inl err)
      | Inr fragments \<Rightarrow>
          map_option (map_sum id (\<lambda>parts. foldl (\<lambda>amountOut (path, i, b). amountOut + b) 0 parts))
            (QuoteAlgorithm U ord3 ord2 p tokenIn tokenOut (the amountIn) fragments))"

section \<open>Swap data\<close>

definition willTransferTokenIn :: "ProtocolSchema \<Rightarrow> bool" where
  "willTransferTokenIn schema = (if schema = UniswapV2ProtocolSchema then True else if schema = UniswapV3ProtocolSchema then True else False)"

definition requiresTransferTokenOut :: "ProtocolSchema \<Rightarrow> bool" where
  "requiresTransferTokenOut schema = (if schema = UniswapV2ProtocolSchema then True else if schema = UniswapV3ProtocolSchema then False else False)"

definition flag :: "bool \<Rightarrow> byte" where
  "flag b = (if b then 1 else 0)"

definition zero_address :: address where
  "zero_address = replicate 20 0"

definition next_pool :: "bool \<Rightarrow> address \<Rightarrow> address \<Rightarrow> bool \<times> address" where
  "next_pool nextPoolRequiresTransferTokenOut swapCaller nextPoolAddress =
     (if nextPoolAddress = zero_address then (True, swapCaller)
      else if nextPoolRequiresTransferTokenOut then (True, nextPoolAddress)
      else (False, zero_address))"

text \<open>The swap type, the length as two bytes, and the data.\<close>

definition segment :: "byte \<Rightarrow> byte list \<Rightarrow> byte list" where
  "segment swapType data = swapType # word_of_nat (length data div 256) # word_of_nat (length data) # data"

definition generateUniswapV2SwapDataAndGas ::
  "nat \<Rightarrow> TokenView \<Rightarrow> TokenView \<Rightarrow> bool \<Rightarrow> bool \<Rightarrow> address \<Rightarrow> address \<Rightarrow> V2Pool \<Rightarrow> byte list \<times> int" where
  "generateUniswapV2SwapDataAndGas pathIndex tokenIn tokenOut previousPoolWillTransferTokenIn nextPoolRequiresTransferTokenOut swapCaller nextPoolAddress pool =
     (let tokensHaveFee = True;
          doTransferIn = (pathIndex = 0 \<or> pathIndex > 0 \<and> \<not> previousPoolWillTransferTokenIn);
          (doTransferToNextPool, nextPool) = next_pool nextPoolRequiresTransferTokenOut swapCaller nextPoolAddress;
          data = p2Address pool @ nextPool @ tvAddress tokenIn @ tvAddress tokenOut @
            [flag (tvID tokenIn = idsToken0 (p2IDs pool)), 0, flag tokensHaveFee, flag doTransferIn, flag doTransferToNextPool]
      in (segment 5 data, sint (10000 + tvGasForTransfer tokenOut + (if doTransferIn then tvGasForTransfer tokenIn else 0))))"

definition generateUniswapV3SwapDataAndGas ::
  "nat \<Rightarrow> TokenView \<Rightarrow> TokenView \<Rightarrow> bool \<Rightarrow> bool \<Rightarrow> address \<Rightarrow> address \<Rightarrow> V3Pool \<Rightarrow> byte list \<times> int" where
  "generateUniswapV3SwapDataAndGas pathIndex tokenIn tokenOut previousPoolWillTransferTokenIn nextPoolRequiresTransferTokenOut swapCaller nextPoolAddress pool =
     (let tokensHaveFee = (float_positive (tvFeeOnTransferPercent tokenIn) \<or> float_positive (tvFeeOnTransferPercent tokenOut));
          (doTransferToNextPool, nextPool) = next_pool nextPoolRequiresTransferTokenOut swapCaller nextPoolAddress;
          data = p3Address pool @ nextPool @ tvAddress tokenIn @ tvAddress tokenOut @
            [flag (tvID tokenIn = idsToken0 (p3IDs pool)), flag tokensHaveFee, flag doTransferToNextPool]
      in (segment 6 data, sint (10000 + tvGasForTransfer tokenIn + tvGasForTransfer tokenOut)))"

definition mergeSwapData :: "byte list list \<Rightarrow> byte list" where
  "mergeSwapData allData = word_of_nat (length (filter (\<lambda>d. length d > 0) allData)) # concat (filter (\<lambda>d. length d > 0) allData)"

text \<open>Lookups that ignore the second result get a zero value.\<close>

definition zero_token :: TokenView where
  "zero_token = \<lparr>tvID = 0, tvAddress = zero_address, tvName = [], tvSymbol = [], tvDecimals = 0, tvFeeOnTransferPercent = 0, tvGasForTransfer = 0\<rparr>"

definition zero_pool :: PoolView where
  "zero_pool = \<lparr>pvID = 0, pvKey = replicate 32 0, pvProtocol = 0\<rparr>"

definition found :: "'a \<Rightarrow> 'a option \<Rightarrow> 'a" where
  "found zero x = (case x of None \<Rightarrow> zero | Some v \<Rightarrow> v)"

definition prev_transfers :: "CeloState \<Rightarrow> TokenPoolPath list \<Rightarrow> nat \<Rightarrow> platform_error + bool" where
  "prev_transfers state path i =
     (if i > 0
      then let prevPoolInfo = found zero_pool (ir_GetByID (cePools state) (tpPoolID (path ! (i - 1)))) in
        (case ResolveSchemaFromPoolID (ceResolver state) (pvID prevPoolInfo) of
           None \<Rightarrow> Inl (PErrSchemaNotFound (pvID prevPoolInfo))
         | Some schema \<Rightarrow> Inr (willTransferTokenIn schema))
      else Inr False)"

definition look_ahead :: "CeloState \<Rightarrow> TokenPoolPath list \<Rightarrow> nat \<Rightarrow> platform_error + bool \<times> address" where
  "look_ahead state path i =
     (if i < length path - 1
      then (case ir_GetByID (cePools state) (tpPoolID (path ! (i + 1))) of
              None \<Rightarrow> Inl (PErrPoolNotFound (tpPoolID (path ! (i + 1))))
            | Some nextPoolInfo \<Rightarrow>
                (case ResolveSchemaFromPoolID (ceResolver state) (pvID nextPoolInfo) of
                   None \<Rightarrow> Inl (PErrSchemaNotFound (pvID nextPoolInfo))
                 | Some schema \<Rightarrow>
                     (case PoolKey_ToAddress (pvKey nextPoolInfo) of
                        Inl err \<Rightarrow> Inl (PErrPoolKey err)
                      | Inr nextPoolAddress \<Rightarrow> Inr (requiresTransferTokenOut schema, nextPoolAddress))))
      else Inr (False, zero_address))"

definition swap_step_data :: "CeloState \<Rightarrow> address \<Rightarrow> TokenPoolPath list \<Rightarrow> nat \<Rightarrow> platform_error + byte list \<times> int" where
  "swap_step_data state receiver path i =
     (let step = path ! i;
          tIn = found zero_token (it_GetByID (ceTokens state) (tpTokenInID step));
          tOut = found zero_token (it_GetByID (ceTokens state) (tpTokenOutID step));
          poolInfo = found zero_pool (ir_GetByID (cePools state) (tpPoolID step)) in
      bind_result (prev_transfers state path i) (\<lambda>prevPoolWillTransfer.
      bind_result (look_ahead state path i) (\<lambda>(nextPoolRequiresTransfer, nextPoolAddress).
        let protocolID = found [] (ir_GetProtocols (cePools state) (pvProtocol poolInfo));
            v2 = generateUniswapV2SwapDataAndGas i tIn tOut prevPoolWillTransfer nextPoolRequiresTransfer receiver nextPoolAddress;
            v3 = generateUniswapV3SwapDataAndGas i tIn tOut prevPoolWillTransfer nextPoolRequiresTransfer receiver nextPoolAddress in
        if protocolID = celo_UniswapV2ProtocolID
        then (case ip_GetByID (ceUniswapV2 state) (tpPoolID step) of None \<Rightarrow> Inl (PErrPoolNotFound (tpPoolID step)) | Some pool \<Rightarrow> Inr (v2 pool))
        else if protocolID = celo_UniswapV3ProtocolID
        then (case ip_GetByID (ceUniswapV3 state) (tpPoolID step) of None \<Rightarrow> Inl (PErrPoolNotFound (tpPoolID step)) | Some pool \<Rightarrow> Inr (v3 pool))
        else if protocolID = celo_AerodromeV3ProtocolID
        then (case ip_GetByID (ceAerodromeV3 state) (tpPoolID step) of None \<Rightarrow> Inl (PErrPoolNotFound (tpPoolID step)) | Some pool \<Rightarrow> Inr (v3 pool))
        else Inl PErrUnsupportedProtocol)))"

fun swap_data_loop :: "CeloState \<Rightarrow> address \<Rightarrow> TokenPoolPath list \<Rightarrow> nat list \<Rightarrow> platform_error + (byte list \<times> int) list" where
  "swap_data_loop state receiver path [] = Inr []"
| "swap_data_loop state receiver path (i # is) =
     bind_result (swap_step_data state receiver path i) (\<lambda>d. bind_result (swap_data_loop state receiver path is) (\<lambda>ds. Inr (d # ds)))"

definition generateSwapData :: "CeloState option \<Rightarrow> TokenPoolPath list \<Rightarrow> address \<Rightarrow> platform_error + byte list \<times> int" where
  "generateSwapData loaded path receiver =
     (case loaded of
        None \<Rightarrow> Inl PErrStateUnavailable
      | Some state \<Rightarrow>
          bind_result (swap_data_loop state receiver path [0..<length path]) (\<lambda>parts.
            if parts = [] then Inl PErrNoSwapData
            else Inr (mergeSwapData (map fst parts), sum_list (map snd parts))))"

section \<open>The transactions\<close>

record Transaction =
  txTo :: address
  txData :: "byte list"
  txGas :: int
  txValue :: int

record swap_calls =
  scAllowance :: "address \<Rightarrow> address \<Rightarrow> address \<Rightarrow> string + int"
  scApproveData :: "address \<Rightarrow> int \<Rightarrow> string + byte list"
  scSwapBatch :: "int \<Rightarrow> int list \<Rightarrow> int \<Rightarrow> address \<Rightarrow> address \<Rightarrow> address \<Rightarrow> byte list list \<Rightarrow> string + byte list"

fun all_swap_data :: "CeloState option \<Rightarrow> address \<Rightarrow> TokenPoolPath list list \<Rightarrow> platform_error + (byte list \<times> int) list" where
  "all_swap_data loaded receiver [] = Inr []"
| "all_swap_data loaded receiver (path # paths) =
     bind_result (generateSwapData loaded path receiver) (\<lambda>d. bind_result (all_swap_data loaded receiver paths) (\<lambda>ds. Inr (d # ds)))"

definition min_out :: "int \<Rightarrow> uint64 \<Rightarrow> int" where
  "min_out amountOut slippageBps = (if slippageBps > 0 then big_Div (amountOut * sint (10000 - slippageBps)) 10000 else amountOut)"

text \<open>The part of \<^verbatim>\<open>Swap\<close> after the quote.\<close>

definition swap_transactions ::
  "swap_calls \<Rightarrow> Platform \<Rightarrow> address \<Rightarrow> address \<Rightarrow> address \<Rightarrow> address \<Rightarrow> int \<Rightarrow> uint64 \<Rightarrow> split \<Rightarrow> platform_error + Transaction list" where
  "swap_transactions calls p user receiver tokenIn tokenOut amountIn slippageBps parts =
     (let amountOut = foldl (\<lambda>amountOut (path, i, b). amountOut + b) 0 parts in
      if amountOut \<le> 0 then Inl PErrInvalidQuote
      else case scAllowance calls user (plSwapAddress p) tokenIn of
        Inl err \<Rightarrow> Inl (PErrRPC err)
      | Inr allowance \<Rightarrow>
          bind_result
            (if allowance < amountIn
             then (case scApproveData calls (plSwapAddress p) amountIn of
                     Inl err \<Rightarrow> Inl PErrEncodeApprove
                   | Inr data \<Rightarrow> Inr [\<lparr>txTo = tokenIn, txData = data, txGas = 100000, txValue = 0\<rparr>])
             else Inr []) (\<lambda>txs.
          bind_result (all_swap_data (plState p) receiver (map fst parts)) (\<lambda>swapData.
            case scSwapBatch calls amountIn (map (\<lambda>(path, i, b). i) parts) (min_out amountOut slippageBps) tokenIn tokenOut receiver (map fst swapData) of
              Inl err \<Rightarrow> Inl (PErrEncode err)
            | Inr data \<Rightarrow> Inr (txs @ [\<lparr>txTo = plSwapAddress p, txData = data, txGas = sum_list (map snd swapData), txValue = 0\<rparr>]))))"

definition Swap ::
  "'u uint256 \<Rightarrow> (uint64, V3Pool) range_order \<Rightarrow> (uint64, V2Pool) range_order \<Rightarrow> (int \<Rightarrow> float64 \<Rightarrow> uint8 \<Rightarrow> uint8 \<Rightarrow> int option) \<Rightarrow> swap_calls \<Rightarrow> Platform \<Rightarrow>
   address \<Rightarrow> address \<Rightarrow> address \<Rightarrow> address \<Rightarrow> int option \<Rightarrow> uint64 \<Rightarrow> (platform_error + Transaction list) option" where
  "Swap U ord3 ord2 quoteValue calls p user receiver tokenIn tokenOut amountIn slippageBps =
     (case amountIn of
        None \<Rightarrow> Some (Inl PErrInvalidAmount)
      | Some amount \<Rightarrow>
          if amount \<le> 0 then Some (Inl PErrInvalidAmount)
          else if slippageBps > 10000 then Some (Inl PErrInvalidSlippage)
          else case getFragments quoteValue amountIn tokenIn p of
            Inl PPanic \<Rightarrow> None
          | Inl err \<Rightarrow> Some (Inl err)
          | Inr fragments \<Rightarrow>
              (case QuoteAlgorithm U ord3 ord2 p tokenIn tokenOut amount fragments of
                 None \<Rightarrow> None
               | Some (Inl err) \<Rightarrow> Some (Inl err)
               | Some (Inr parts) \<Rightarrow> Some (swap_transactions calls p user receiver tokenIn tokenOut amount slippageBps parts)))"

section \<open>The fragments of a trade\<close>

lemma fragment_amounts_split:
  assumes "0 < amountIn" "0 < maxFragments"
  shows "sum_list (fragment_amounts amountIn maxFragments) = amountIn" "\<forall>a \<in> set (fragment_amounts amountIn maxFragments). 0 < a"
    "int (length (fragment_amounts amountIn maxFragments)) \<le> maxFragments + 1"
proof -
  let ?per = "amountIn div maxFragments" and ?rem = "amountIn mod maxFragments" and ?n = "nat maxFragments"
  have d: "big_Div amountIn maxFragments = ?per" "amountIn - maxFragments * ?per = ?rem" "0 \<le> ?per" "0 \<le> ?rem"
    using assms by (simp_all add: big_Div_def minus_mult_div_eq_mod pos_imp_zdiv_nonneg_iff)
  have s: "maxFragments * ?per + ?rem = amountIn"
    by simp
  define m where "m = nat (maxFragments - 1)"
  have m: "?n = Suc m" "maxFragments = 1 + int m"
    using assms(2) by (simp_all add: m_def)
  have "x + (y + int m * x) = z" if "maxFragments * x + y = z" for x y z
    using that unfolding m(2) by (simp add: algebra_simps)
  note total = this [OF s, unfolded m(2)]
  have snoc: "replicate ?n ?per = replicate m ?per @ [?per]"
    unfolding m(1) by (simp add: replicate_append_same)
  consider "?per = 0" "fragment_amounts amountIn maxFragments = [amountIn]"
    | "0 < ?per" "?rem = 0" "fragment_amounts amountIn maxFragments = replicate ?n ?per"
    | "0 < ?per" "0 < ?rem" "fragment_amounts amountIn maxFragments = replicate ?n ?per @ [?rem]"
    | "0 < ?per" "0 < ?rem" "fragment_amounts amountIn maxFragments = replicate m ?per @ [?per + ?rem]"
  proof (cases "?per = 0")
    case True
    then have "?rem = amountIn"
      using s by simp
    then show thesis
      using that(1) True assms(1) unfolding fragment_amounts_def d(1,2) Let_def by (simp add: big_Div_def)
  next
    case False
    then show thesis
      using that(2-4) d(3,4) unfolding fragment_amounts_def d(1,2) Let_def snoc by (cases "?rem = 0"; cases "?rem \<ge> big_Div ?per 4") simp_all
  qed
  then have "sum_list (fragment_amounts amountIn maxFragments) = amountIn \<and> (\<forall>a \<in> set (fragment_amounts amountIn maxFragments). 0 < a) \<and>
    int (length (fragment_amounts amountIn maxFragments)) \<le> maxFragments + 1"
    using total assms by cases (simp_all add: sum_list_replicate m(1), simp_all add: m(2) algebra_simps)
  then show "sum_list (fragment_amounts amountIn maxFragments) = amountIn" "\<forall>a \<in> set (fragment_amounts amountIn maxFragments). 0 < a"
    "int (length (fragment_amounts amountIn maxFragments)) \<le> maxFragments + 1"
    by simp_all
qed

lemma EqualTokenPoolPaths_eq: "EqualTokenPoolPaths a b \<longleftrightarrow> a = b"
  by (induction a b rule: EqualTokenPoolPaths.induct) auto

text \<open>The split keeps a path once; the amounts that go in and come out add up.\<close>

definition split_in :: "split \<Rightarrow> int" where
  "split_in parts = sum_list (map (\<lambda>(path, i, b). i) parts)"

definition split_out :: "split \<Rightarrow> int" where
  "split_out parts = sum_list (map (\<lambda>(path, i, b). b) parts)"

definition split_ok :: "(TokenPoolPath list \<Rightarrow> bool) \<Rightarrow> split \<Rightarrow> bool" where
  "split_ok Q parts \<longleftrightarrow> distinct (map fst parts) \<and> (\<forall>(path, i, b) \<in> set parts. Q path \<and> 0 < i \<and> 0 < b)"

lemma add_fragment_sums:
  "split_in (add_fragment path i b parts) = split_in parts + i" "split_out (add_fragment path i b parts) = split_out parts + b"
  by (induction path i b parts rule: add_fragment.induct) (simp_all add: split_in_def split_out_def)

lemma add_fragment_paths: "set (map fst (add_fragment path i b parts)) = insert path (set (map fst parts))"
  by (induction path i b parts rule: add_fragment.induct) (auto simp: EqualTokenPoolPaths_eq)

lemma add_fragment_ok:
  assumes "Q path" "0 < i" "0 < b"
  shows "split_ok Q parts \<Longrightarrow> split_ok Q (add_fragment path i b parts)"
proof (induction parts)
  case Nil
  then show ?case
    using assms by (simp add: split_ok_def)
next
  case (Cons part parts)
  obtain p a c where part: "part = (p, a, c)"
    by (cases part)
  show ?case
  proof (cases "p = path")
    case True
    then show ?thesis
      using Cons.prems assms by (auto simp: split_ok_def part EqualTokenPoolPaths_eq)
  next
    case False
    then show ?thesis
      using Cons add_fragment_paths [of path i b parts] by (auto simp: split_ok_def part EqualTokenPoolPaths_eq)
  qed
qed

lemma split_out_foldl: "foldl (\<lambda>amountOut (path, i, b). amountOut + b) x parts = x + split_out parts"
  by (induction parts arbitrary: x) (auto simp: split_out_def)

section \<open>Overrides stay well-formed\<close>

lemma copies [simp]: "copy_v2 pool2 = pool2" "copy_v3 pool3 = pool3"
  by (cases pool2; cases pool3; simp add: copy_v2_def copy_v3_def)+

lemma copyOverrides_id [simp]: "copyOverrides ov = ov"
  by (simp add: copyOverrides_def)

text \<open>The pool indexes of a state return a pool under its own identifier.\<close>

definition keyed_state :: "CeloState \<Rightarrow> bool" where
  "keyed_state state \<longleftrightarrow> (\<forall>i pool. ip_GetByID (ceUniswapV2 state) i = Some pool \<longrightarrow> idsPool (p2IDs pool) = i) \<and>
     (\<forall>i pool. ip_GetByID (ceUniswapV3 state) i = Some pool \<or> ip_GetByID (ceAerodromeV3 state) i = Some pool \<longrightarrow> idsPool (p3IDs pool) = i)"

definition v3_after :: "V3PoolView \<Rightarrow> V3Pool \<Rightarrow> V3Pool" where
  "v3_after u pool = pool\<lparr>p3Tick := v3Tick u, p3Liquidity := v3Liquidity u, p3SqrtPriceX96 := v3SqrtPriceX96 u, p3Ticks := v3Ticks u\<rparr>"

text \<open>A class of Uniswap V3 pools on which quotes return and which no swap leaves.\<close>

definition swaps_return :: "'u uint256 \<Rightarrow> (V3Pool \<Rightarrow> bool) \<Rightarrow> bool" where
  "swaps_return U P \<longleftrightarrow> (\<forall>pool. P pool \<longrightarrow> (\<forall>a i out. v3_quote U (v3_pool_view pool) a i out \<noteq> None) \<and>
     (\<forall>a i out u. SimulateExactInSwap U (Some a) None i (v3_pool_view pool) = Some (Inr (out, u)) \<longrightarrow> P (v3_after u pool)))"

definition overrides_in :: "(V3Pool \<Rightarrow> bool) \<Rightarrow> PoolOverrides \<Rightarrow> bool" where
  "overrides_in P ov \<longleftrightarrow> overrides_ok ov \<and> (\<forall>pool \<in> snd ` (set (ovUniswapV3 ov) \<union> set (ovAerodromeV3 ov)). P pool)"

lemma v3_GetAmountOut_simulates: "v3_GetAmountOut U x limit t p = map_option (map_sum id fst) (SimulateExactInSwap U x limit t p)"
  by (simp add: v3_GetAmountOut_def SimulateExactInSwap_def Let_def option.map_comp comp_def bind_result_def split: option.split sum.split)
    (auto simp: bind_result_def split: sum.split intro!: option.map_cong)

lemma simulate_returns:
  assumes "v3_quote U p a i out \<noteq> None"
  shows "\<exists>r. SimulateExactInSwap U (Some a) None i p = Some r \<and> r \<noteq> Inl V3Panic"
  using assms by (auto simp: v3_quote_def v3_GetAmountOut_simulates split: option.splits sum.splits)

text \<open>The balanced pools are such a class: a swap on one of them returns, and the pool that it leaves is balanced.\<close>

abbreviation balanced_pool :: "V3Pool \<Rightarrow> bool" where
  "balanced_pool pool \<equiv> v3_balanced (v3_pool_view pool)"

lemma simulated_state:
  assumes "SimulateExactInSwap U x None i p = Some (Inr (out, u))"
  shows "\<exists>a z s. v3_swap U (start_state a p) p None z = Some (Inr s) \<and> u = new_pool_state p s"
proof -
  obtain a z r where "v3_swap U (start_state a p) p None z = Some r" "bind_result r (\<lambda>s. Inr (swCalculated s, new_pool_state p s)) = Inr (out, u)"
    using assms by (auto simp: SimulateExactInSwap_def Let_def split: option.splits if_splits)
  then show ?thesis
    by (cases r) (auto simp: bind_result_def)
qed

lemma v3_after_view: "v3_pool_view (v3_after (new_pool_state (v3_pool_view pool) s) pool) = new_pool_state (v3_pool_view pool) s"
  by (simp add: new_pool_state_def v3_pool_view_def v3_after_def)

lemma balanced_swaps_return:
  assumes "uint256_pkg U"
  shows "swaps_return U balanced_pool"
proof -
  note swap = v3_swap_balanced [OF assms]
  have "v3_quote U p a i out \<noteq> None" if "v3_balanced p" for p a i out
    using swap [OF that, of a "i = v3Token0 p"] by (auto simp: v3_quote_def v3_GetAmountOut_def Let_def bind_result_def)
  moreover have "balanced_pool (v3_after u pool)"
    if "balanced_pool pool" "SimulateExactInSwap U (Some a) None i (v3_pool_view pool) = Some (Inr (out, u))" for pool a i out u
  proof -
    from simulated_state [OF that(2)] obtain a z s where
      s: "v3_swap U (start_state a (v3_pool_view pool)) (v3_pool_view pool) None z = Some (Inr s)" "u = new_pool_state (v3_pool_view pool) s"
      by blast
    have "v3_balanced u"
      using swap [OF that(1), of a z] unfolding s by auto
    then show ?thesis
      unfolding s(2) v3_after_view .
  qed
  ultimately show ?thesis
    unfolding swaps_return_def by blast
qed

text \<open>One map of overrides: keyed by the identifiers of its pools, which are in a class.\<close>

definition keyed_in :: "('p \<Rightarrow> uint64) \<Rightarrow> ('p \<Rightarrow> bool) \<Rightarrow> (uint64, 'p) gomap \<Rightarrow> bool" where
  "keyed_in pid P m \<longleftrightarrow> distinct (map fst m) \<and> (\<forall>(k, pool) \<in> set m. pid pool = k \<and> P pool)"

lemma keyed_in_update:
  assumes "keyed_in pid P m" "pid pool = k" "P pool"
  shows "keyed_in pid P (AList.update k pool m)"
proof -
  have "set (AList.update k pool m) \<subseteq> insert (k, pool) (set m)"
    by (induction m) auto
  then show ?thesis
    using assms by (auto simp: keyed_in_def distinct_update)
qed

lemma current_pool_in:
  assumes "keyed_in pid P m" "\<forall>i pool. ip_GetByID pools i = Some pool \<longrightarrow> pid pool = i \<and> P pool" "current_pool m pools i = Some pool"
  shows "pid pool = i \<and> P pool"
  using assms by (auto simp: current_pool_def keyed_in_def dest!: map_of_SomeD split: option.splits)

lemma overrides_in_iff:
  "overrides_in P ov \<longleftrightarrow> keyed_in (\<lambda>p. idsPool (p2IDs p)) (\<lambda>_. True) (ovUniswapV2 ov) \<and> keyed_in (\<lambda>p. idsPool (p3IDs p)) P (ovUniswapV3 ov) \<and>
     keyed_in (\<lambda>p. idsPool (p3IDs p)) P (ovAerodromeV3 ov)"
  unfolding overrides_in_def overrides_ok_def keyed_in_def by (simp add: case_prod_beta ball_conj_distrib ball_Un) blast

lemma override_v2_keeps:
  assumes "keyed_in (\<lambda>p. idsPool (p2IDs p)) (\<lambda>_. True) m" "\<forall>i pool. ip_GetByID pools i = Some pool \<longrightarrow> idsPool (p2IDs pool) = i"
    and "override_v2 a h pools m = Inr (b, m')"
  shows "keyed_in (\<lambda>p. idsPool (p2IDs p)) (\<lambda>_. True) m'"
  using assms by (auto simp: override_v2_def split: option.splits sum.splits intro!: keyed_in_update)

lemma override_v3_keeps:
  assumes P: "swaps_return U P" and m: "keyed_in (\<lambda>p. idsPool (p3IDs p)) P m"
    and pools: "\<forall>i pool. ip_GetByID pools i = Some pool \<longrightarrow> idsPool (p3IDs pool) = i \<and> P pool"
  shows "\<exists>r. override_v3 U a h pools m = Some r \<and> (\<forall>b m'. r = Inr (b, m') \<longrightarrow> keyed_in (\<lambda>p. idsPool (p3IDs p)) P m')"
proof (cases "current_pool m pools (tpPoolID h)")
  case None
  then show ?thesis
    by (simp add: override_v3_def)
next
  case (Some pool)
  note pool = current_pool_in [OF m pools Some]
  have "v3_quote U (v3_pool_view pool) a (tpTokenInID h) 0 \<noteq> None"
    using P pool unfolding swaps_return_def by blast
  then obtain r where r: "SimulateExactInSwap U (Some a) None (tpTokenInID h) (v3_pool_view pool) = Some r" "r \<noteq> Inl V3Panic"
    using simulate_returns by blast
  show ?thesis
  proof (cases r)
    case (Inl err)
    then show ?thesis
      using r Some by (cases err) (simp_all add: override_v3_def)
  next
    case (Inr res)
    obtain b u where res: "res = (b, u)"
      by (cases res)
    have "P (v3_after u pool)"
      using P pool r(1) unfolding swaps_return_def Inr res by blast
    then have "keyed_in (\<lambda>p. idsPool (p3IDs p)) P (AList.update (idsPool (p3IDs pool)) (v3_after u pool) m)"
      by (intro keyed_in_update m) (simp_all add: v3_after_def)
    then show ?thesis
      using r Some by (simp add: override_v3_def Inr res v3_after_def)
  qed
qed

definition state_in :: "(V3Pool \<Rightarrow> bool) \<Rightarrow> CeloState \<Rightarrow> bool" where
  "state_in P state \<longleftrightarrow> keyed_state state \<and>
     (\<forall>i pool. ip_GetByID (ceUniswapV3 state) i = Some pool \<or> ip_GetByID (ceAerodromeV3 state) i = Some pool \<longrightarrow> P pool)"

lemma map_sum_Inr: "map_sum id f x = Inr y \<longleftrightarrow> (\<exists>z. x = Inr z \<and> f z = y)"
  by (cases x) auto

lemma override_hop_keeps:
  assumes P: "swaps_return U P" and state: "state_in P state" and ov: "overrides_in P ov"
  shows "\<exists>r. override_hop U state h (a, ov) = Some r \<and> (\<forall>b ov'. r = Inr (b, ov') \<longrightarrow> overrides_in P ov')"
proof -
  have pools: "\<forall>i pool. ip_GetByID (ceUniswapV2 state) i = Some pool \<longrightarrow> idsPool (p2IDs pool) = i"
    "\<forall>i pool. ip_GetByID (ceUniswapV3 state) i = Some pool \<longrightarrow> idsPool (p3IDs pool) = i \<and> P pool"
    "\<forall>i pool. ip_GetByID (ceAerodromeV3 state) i = Some pool \<longrightarrow> idsPool (p3IDs pool) = i \<and> P pool"
    using state by (simp_all add: state_in_def keyed_state_def)
  have maps: "keyed_in (\<lambda>p. idsPool (p2IDs p)) (\<lambda>_. True) (ovUniswapV2 ov)" "keyed_in (\<lambda>p. idsPool (p3IDs p)) P (ovUniswapV3 ov)"
    "keyed_in (\<lambda>p. idsPool (p3IDs p)) P (ovAerodromeV3 ov)"
    using ov by (simp_all add: overrides_in_iff)
  obtain r3 where r3: "override_v3 U a h (ceUniswapV3 state) (ovUniswapV3 ov) = Some r3" "\<forall>b m'. r3 = Inr (b, m') \<longrightarrow> keyed_in (\<lambda>p. idsPool (p3IDs p)) P m'"
    using override_v3_keeps [OF P maps(2) pools(2)] by blast
  obtain ra where ra: "override_v3 U a h (ceAerodromeV3 state) (ovAerodromeV3 ov) = Some ra" "\<forall>b m'. ra = Inr (b, m') \<longrightarrow> keyed_in (\<lambda>p. idsPool (p3IDs p)) P m'"
    using override_v3_keeps [OF P maps(3) pools(3)] by blast
  have "override_hop U state h (a, ov) \<noteq> None"
    using r3(1) ra(1) by (simp add: override_hop_def split: option.split)
  then obtain r where r: "override_hop U state h (a, ov) = Some r"
    by blast
  have "overrides_in P ov'" if res: "r = Inr (b, ov')" for b ov'
  proof -
    from r obtain p protocolID where l: "ir_GetByID (cePools state) (tpPoolID h) = Some p" "ir_GetProtocols (cePools state) (pvProtocol p) = Some protocolID"
      unfolding res by (cases "ir_GetByID (cePools state) (tpPoolID h)") (auto simp: override_hop_def split: option.splits)
    note h = r [unfolded res override_hop_def prod.case l option.case]
    consider "protocolID = celo_UniswapV2ProtocolID" | "protocolID \<noteq> celo_UniswapV2ProtocolID" "protocolID = celo_UniswapV3ProtocolID"
      | "protocolID \<noteq> celo_UniswapV2ProtocolID" "protocolID \<noteq> celo_UniswapV3ProtocolID" "protocolID = celo_AerodromeV3ProtocolID"
      | "protocolID \<noteq> celo_UniswapV2ProtocolID" "protocolID \<noteq> celo_UniswapV3ProtocolID" "protocolID \<noteq> celo_AerodromeV3ProtocolID"
      by blast
    then show ?thesis
    proof cases
      case 1
      then obtain m where "override_v2 a h (ceUniswapV2 state) (ovUniswapV2 ov) = Inr (b, m)" "ov' = ov\<lparr>ovUniswapV2 := m\<rparr>"
        using h by (auto simp: map_sum_Inr)
      then show ?thesis
        using maps override_v2_keeps [OF maps(1) pools(1)] by (simp add: overrides_in_iff)
    next
      case 2
      then obtain m where "r3 = Inr (b, m)" "ov' = ov\<lparr>ovUniswapV3 := m\<rparr>"
        using h r3(1) by (auto simp: map_sum_Inr)
      then show ?thesis
        using maps r3(2) by (simp add: overrides_in_iff)
    next
      case 3
      then obtain m where "ra = Inr (b, m)" "ov' = ov\<lparr>ovAerodromeV3 := m\<rparr>"
        using h ra(1) by (auto simp: map_sum_Inr)
      then show ?thesis
        using maps ra(2) by (simp add: overrides_in_iff)
    next
      case 4
      then show ?thesis
        using h ov by simp
    qed
  qed
  then show ?thesis
    using r by blast
qed

lemma override_path_keeps:
  assumes P: "swaps_return U P" and state: "state_in P state"
  shows "overrides_in P ov \<Longrightarrow> \<exists>r. override_path U state hs (a, ov) = Some r \<and> (\<forall>b ov'. r = Inr (b, ov') \<longrightarrow> overrides_in P ov')"
proof (induction hs arbitrary: a ov)
  case (Cons h hs)
  obtain r where r: "override_hop U state h (a, ov) = Some r" "\<forall>b ov'. r = Inr (b, ov') \<longrightarrow> overrides_in P ov'"
    using override_hop_keeps [OF P state Cons.prems] by blast
  show ?case
  proof (cases r)
    case (Inr st)
    obtain b ov' where st: "st = (b, ov')"
      by (cases st)
    show ?thesis
      using Cons.IH [of ov' b] r unfolding Inr st by simp
  qed (use r in simp)
qed simp

lemma getOverrides_keeps:
  assumes "swaps_return U P" "state_in P state" "overrides_in P ov"
  shows "\<exists>r. getOverrides U a path ov state = Some r \<and> (\<forall>ov'. r = Inr ov' \<longrightarrow> overrides_in P ov')"
proof -
  obtain r where r: "override_path U state path (a, ov) = Some r" "\<forall>b ov'. r = Inr (b, ov') \<longrightarrow> overrides_in P ov'"
    using override_path_keeps [OF assms] by blast
  then show ?thesis
    by (cases r) (auto simp: getOverrides_def)
qed

lemma patched_quotes_return:
  assumes P: "swaps_return U P" and ok: "router_ok rt" and ret: "quotes_return (rtAmountOut rt)" and ov: "overrides_in P ov"
    and ord: "range_order ord3" "range_order ord2"
  shows "quotes_return (patched_quotes U ord3 ord2 rt ov)"
  unfolding quotes_return_def
proof (intro allI impI)
  fix f amount i out
  assume "Some f \<in> set (patched_quotes U ord3 ord2 rt ov)"
  have ovok: "overrides_ok ov"
    using ov by (simp add: overrides_in_def)
  have len: "length (rtAmountOut rt) = length (gvPools (rtGraph rt))"
    using ok by (simp add: router_ok_def)
  from \<open>Some f \<in> _\<close> obtain k where k: "k < length (gvPools (rtGraph rt))" "patched_quotes U ord3 ord2 rt ov ! k = Some f"
    using len by (metis in_set_conv_nth patched_quotes_length)
  have own: "q amount i out \<noteq> None" if "rtAmountOut rt ! k = Some q" for q
    using ret that k(1) len unfolding quotes_return_def by (metis nth_mem)
  have "set (all_v3_overrides ov) \<subseteq> set (ovUniswapV3 ov) \<union> set (ovAerodromeV3 ov)"
    unfolding all_v3_overrides_def using foldl_update_props [of "[]" "ovUniswapV3 ov @ ovAerodromeV3 ov"] by simp
  then have "P pool" if "map_of (all_v3_overrides ov) j = Some pool" for pool j
    using map_of_SomeD [OF that] ov unfolding overrides_in_def by force
  then have v3: "v3_quote U (v3_pool_view pool) amount i out \<noteq> None" if "map_of (all_v3_overrides ov) j = Some pool" for pool j
    using that P unfolding swaps_return_def by blast
  have v2: "v2_quote p amount i out \<noteq> None" for p
    by (simp add: v2_quote_def split: sum.split)
  show "f amount i out \<noteq> None"
    using k(2) own v2 v3 unfolding patched_quotes_nth(1) [OF ok ovok ord k(1)] by (auto split: option.splits)
qed

section \<open>The split of a trade\<close>

text \<open>A path of the graph from one token to the other that visits no token twice.\<close>

definition simple_path :: "TokenPoolsRegistryView \<Rightarrow> uint64 \<Rightarrow> uint64 \<Rightarrow> TokenPoolPath list \<Rightarrow> bool" where
  "simple_path g tokenIn tokenOut path \<longleftrightarrow> path \<noteq> [] \<and> connects path tokenIn tokenOut \<and> hop_edge ` set path \<subseteq> view_edges g \<and>
     distinct (map tpTokenInID path @ [tokenOut])"

lemma greedy_simple:
  assumes ok: "router_ok r" and ret: "quotes_return (patched_quotes U ord3 ord2 r ov)" and x: "0 < x"
  shows "\<exists>res. FindBestSwapPathGreedy U ord3 ord2 r runs x tokenIn tokenOut ov = Some res \<and>
    (\<forall>path y. res = Inr (path, y) \<longrightarrow> simple_path (rtGraph r) tokenIn tokenOut path \<and> 0 < y)"
proof (cases "rtTokenToIndex r tokenIn = None \<or> rtTokenToIndex r tokenOut = None")
  case True
  then show ?thesis
    by (cases "rtTokenToIndex r tokenIn") (auto simp: FindBestSwapPathGreedy_def Let_def)
next
  case False
  let ?g = "rtGraph r" and ?funcs = "patched_quotes U ord3 ord2 r ov"
  obtain s t where s: "rtTokenToIndex r tokenIn = Some s" and t: "rtTokenToIndex r tokenOut = Some t"
    using False by auto
  have tn: "t < length (gvTokens ?g)"
    using index_invD t ok unfolding router_ok_def by metis
  obtain st where st: "scan_runs (nat runs) (scan_tokens (\<lambda>j st. scCosts st ! j \<noteq> 0) (findSwapPath ?g ?funcs s) [0..<length (gvTokens ?g)])
      (start_search (length (gvTokens ?g)) s x) = Some (Inr st)" and inv: "search_inv ?g ?funcs s x st"
    using greedy_state [OF ok refl ret s x] by blast
  have "simple_path ?g tokenIn tokenOut (scPaths st ! t) \<and> 0 < scCosts st ! t" if path: "scPaths st ! t \<noteq> []"
  proof -
    have "route ?g ?funcs s x t (scPaths st ! t) (scCosts st ! t) (bits (length (gvTokens ?g)) (scKnown st ! t))"
      using search_invD(6) [OF inv tn] path by blast
    from route_good [OF ok refl s t this path] show ?thesis
      by (simp add: good_path_def simple_path_def)
  qed
  then show ?thesis
    using s t st by (simp add: FindBestSwapPathGreedy_def Let_def)
qed

lemma route_fragments_splits:
  assumes P: "swaps_return U P" and state: "state_in P state" and ok: "router_ok rt" and ret: "quotes_return (rtAmountOut rt)"
    and ord: "range_order ord3" "range_order ord2"
  shows "overrides_in P ov \<Longrightarrow> split_ok (simple_path (rtGraph rt) tIn tOut) acc \<Longrightarrow> \<forall>a \<in> set as. 0 < a \<Longrightarrow>
    \<exists>r. route_fragments U ord3 ord2 state rt tIn tOut as ov acc = Some r \<and>
      (\<forall>parts. r = Inr parts \<longrightarrow> split_in parts = split_in acc + sum_list as \<and> split_ok (simple_path (rtGraph rt) tIn tOut) parts \<and>
         length parts \<le> length acc + length as)"
proof (induction as arbitrary: ov acc)
  case (Cons a as)
  have a: "0 < a"
    using Cons.prems(3) by simp
  obtain res where res: "FindBestSwapPathGreedy U ord3 ord2 rt DefaultFindBestSwapPathRuns a tIn tOut ov = Some res"
    "\<forall>path y. res = Inr (path, y) \<longrightarrow> simple_path (rtGraph rt) tIn tOut path \<and> 0 < y"
    using greedy_simple [OF ok patched_quotes_return [OF P ok ret Cons.prems(1) ord] a] by blast
  show ?case
  proof (cases res)
    case (Inl err)
    then show ?thesis
      using res(1) by simp
  next
    case (Inr py)
    obtain path y where py: "py = (path, y)"
      by (cases py)
    have good: "simple_path (rtGraph rt) tIn tOut path" "0 < y"
      using res(2) unfolding Inr py by blast+
    obtain ro where ro: "getOverrides U a path ov state = Some ro" "\<forall>ov'. ro = Inr ov' \<longrightarrow> overrides_in P ov'"
      using getOverrides_keeps [OF P state Cons.prems(1)] by blast
    show ?thesis
    proof (cases ro)
      case inl: (Inl err)
      then show ?thesis
        using res(1) ro(1) unfolding Inr py by simp
    next
      case inr: (Inr ov')
      note acc = add_fragment_ok [where Q = "simple_path (rtGraph rt) tIn tOut", OF good(1) a good(2) Cons.prems(2)]
      have len: "length (add_fragment path a y acc) \<le> Suc (length acc)"
        by (induction path a y acc rule: add_fragment.induct) simp_all
      show ?thesis
        using Cons.IH [OF _ acc, of ov'] Cons.prems(3) ro res(1) len unfolding Inr py inr by (fastforce simp: add_fragment_sums)
    qed
  qed
qed simp

text \<open>
  The quote, on a platform whose router is well-formed and returns, and whose Uniswap V3 pools are in a class on which quotes
  return and which swaps do not leave.
\<close>

lemma quote_splits_exactly:
  assumes loaded: "plState p = Some state" "plRouter p = Some rt" and P: "swaps_return U P" and state: "state_in P state"
    and rt: "router_ok rt" "quotes_return (rtAmountOut rt)" and ord: "range_order ord3" "range_order ord2" and amount: "0 < amountIn"
  shows "case QuoteAlgorithm U ord3 ord2 p tokenIn tokenOut amountIn maxFragments of
      None \<Rightarrow> False
    | Some (Inl err) \<Rightarrow> True
    | Some (Inr parts) \<Rightarrow> sum_list (map (\<lambda>(path, i, b). i) parts) = amountIn \<and> int (length parts) \<le> maxFragments + 1 \<and> distinct (map fst parts) \<and>
        (\<exists>tIn tOut. it_GetByAddress (ceTokens state) tokenIn = Some tIn \<and> it_GetByAddress (ceTokens state) tokenOut = Some tOut \<and>
           (\<forall>(path, i, b) \<in> set parts. 0 < i \<and> 0 < b \<and> simple_path (rtGraph rt) (tvID tIn) (tvID tOut) path))"
proof (cases "maxFragments \<le> 0 \<or> it_GetByAddress (ceTokens state) tokenIn = None \<or> it_GetByAddress (ceTokens state) tokenOut = None")
  case True
  then show ?thesis
    using loaded by (cases "it_GetByAddress (ceTokens state) tokenIn") (auto simp: QuoteAlgorithm_def)
next
  case False
  then obtain tIn tOut where t: "it_GetByAddress (ceTokens state) tokenIn = Some tIn" "it_GetByAddress (ceTokens state) tokenOut = Some tOut"
    and m: "0 < maxFragments"
    by auto
  let ?ov = "\<lparr>ovUniswapV2 = [], ovUniswapV3 = [], ovAerodromeV3 = []\<rparr>"
  have "overrides_in P ?ov" "split_ok (simple_path (rtGraph rt) (tvID tIn) (tvID tOut)) []"
    by (simp_all add: overrides_in_def overrides_ok_def split_ok_def)
  from route_fragments_splits [OF P state rt ord this fragment_amounts_split(2) [OF amount m]] obtain r
    where r: "route_fragments U ord3 ord2 state rt (tvID tIn) (tvID tOut) (fragment_amounts amountIn maxFragments) ?ov [] = Some r"
      "\<forall>parts. r = Inr parts \<longrightarrow> split_in parts = split_in [] + sum_list (fragment_amounts amountIn maxFragments) \<and>
         split_ok (simple_path (rtGraph rt) (tvID tIn) (tvID tOut)) parts \<and> length parts \<le> length ([] :: split) + length (fragment_amounts amountIn maxFragments)"
    by blast
  have q: "QuoteAlgorithm U ord3 ord2 p tokenIn tokenOut amountIn maxFragments = Some r"
    using loaded t m r(1) by (simp add: QuoteAlgorithm_def)
  show ?thesis
  proof (cases r)
    case (Inr parts)
    have "split_in parts = amountIn" "split_ok (simple_path (rtGraph rt) (tvID tIn) (tvID tOut)) parts" "int (length parts) \<le> maxFragments + 1"
      using r(2) fragment_amounts_split(1,3) [OF amount m] unfolding Inr by (auto simp: split_in_def)
    then show ?thesis
      using t unfolding q Inr by (auto simp: split_in_def split_ok_def)
  qed (simp add: q)
qed

definition wit_token :: "uint64 \<Rightarrow> TokenView" where
  "wit_token i = zero_token\<lparr>tvID := i, tvAddress := replicate 20 (ucast i), tvDecimals := 18, tvGasForTransfer := 50000\<rparr>"

definition wit_pairs :: "V2Pool list" where
  "wit_pairs = [(wit_pair 1 10 20 10000 10000)\<lparr>p2Address := replicate 20 1\<rparr>, (wit_pair 2 20 30 10000 10000)\<lparr>p2Address := replicate 20 2\<rparr>,
     (wit_pair 3 10 30 10000 10000)\<lparr>p2Address := replicate 20 3\<rparr>]"

definition wit_trade_state :: CeloState where
  "wit_trade_state = (let reg = NewIndexablePoolRegistry \<lparr>prvPools = map (\<lambda>i. \<lparr>pvID = i, pvKey = replicate 12 0 @ replicate 20 (ucast i), pvProtocol = 7\<rparr>) [1, 2, 3],
       prvProtocols = [(7, celo_UniswapV2ProtocolID)]\<rparr> in
     \<lparr>ceTokens = NewIndexableTokenSystem (map wit_token [10, 20, 30]), cePools = reg,
      ceUniswapV2 = fold (\<lambda>pool. ip_put (idsPool (p2IDs pool)) (p2Address pool) pool) wit_pairs no_pools,
      ceUniswapV3 = no_pools, ceAerodromeV3 = no_pools,
      ceResolver = NewProtocolResolver [celo_UniswapV2ProtocolID \<mapsto> UniswapV2ProtocolSchema] reg, ceGraph = wit_router_view\<rparr>)"

definition wit_trade_router :: Router where
  "wit_trade_router = wit_router\<lparr>rtAmountOut := map (\<lambda>p. Some (v2_quote (v2_pool_view p))) wit_pairs\<rparr>"

definition wit_platform :: Platform where
  "wit_platform = (NewPlatform 1000 (replicate 20 10) (replicate 20 255) (Some 500) 4)\<lparr>plState := Some wit_trade_state, plRouter := Some wit_trade_router\<rparr>"

lemma wit_quote: "QuoteAlgorithm U rev rev wit_platform (replicate 20 10) (replicate 20 30) 2003 4 =
  Some (Inr [([\<lparr>tpTokenInID = 10, tpTokenOutID = 30, tpPoolID = 3\<rparr>], 1503, 1301),
    ([\<lparr>tpTokenInID = 10, tpTokenOutID = 20, tpPoolID = 1\<rparr>, \<lparr>tpTokenInID = 20, tpTokenOutID = 30, tpPoolID = 2\<rparr>], 500, 451)])"
  by code_simp

lemma wit_state_in: "state_in (\<lambda>_. False) wit_trade_state"
  by (simp add: state_in_def keyed_state_def wit_trade_state_def Let_def wit_pairs_def wit_pair_def ip_put_lookups no_pools_lookups)

lemma wit_trade_router_ok: "router_ok wit_trade_router" "quotes_return (rtAmountOut wit_trade_router)"
proof -
  show "router_ok wit_trade_router"
    using wit_router_ok by (simp add: router_ok_def wit_trade_router_def wit_pairs_def wit_router_def)
  show "quotes_return (rtAmountOut wit_trade_router)"
    using v2_quotes_return [of _ wit_pairs] by (simp add: quotes_return_def wit_trade_router_def)
qed

lemma quote_splits_example:
  "QuoteAlgorithm word_uint256 rev rev wit_platform (replicate 20 10) (replicate 20 30) 2003 4 =
     Some (Inr [([\<lparr>tpTokenInID = 10, tpTokenOutID = 30, tpPoolID = 3\<rparr>], 1503, 1301),
       ([\<lparr>tpTokenInID = 10, tpTokenOutID = 20, tpPoolID = 1\<rparr>, \<lparr>tpTokenInID = 20, tpTokenOutID = 30, tpPoolID = 2\<rparr>], 500, 451)]) \<and>
   (\<exists>a b. simple_path wit_router_view a b [\<lparr>tpTokenInID = 10, tpTokenOutID = 20, tpPoolID = 1\<rparr>, \<lparr>tpTokenInID = 20, tpTokenOutID = 30, tpPoolID = 2\<rparr>])"
proof -
  have "plState wit_platform = Some wit_trade_state" "plRouter wit_platform = Some wit_trade_router" "swaps_return word_uint256 (\<lambda>_. False)"
    "rtGraph wit_trade_router = wit_router_view"
    by (simp_all add: wit_platform_def swaps_return_def wit_trade_router_def wit_router_def)
  then show ?thesis
    using quote_splits_exactly [OF _ _ _ wit_state_in wit_trade_router_ok range_order_rev range_order_rev, where p = wit_platform and U = word_uint256 and
        amountIn = 2003 and tokenIn = "replicate 20 10" and tokenOut = "replicate 20 30" and maxFragments = 4] wit_quote [of word_uint256] by auto
qed

section \<open>Swap data\<close>

text \<open>How a reader takes merged swap data apart: a count, then for each swap its type, the length in two bytes and the data.\<close>

fun read_segments :: "nat \<Rightarrow> byte list \<Rightarrow> (byte \<times> byte list) list option" where
  "read_segments 0 bs = (if bs = [] then Some [] else None)"
| "read_segments (Suc n) (t # hi # lo # bs) =
     (let len = unat hi * 256 + unat lo in
      if length bs < len then None else map_option (Cons (t, take len bs)) (read_segments n (drop len bs)))"
| "read_segments (Suc n) bs = None"

fun read_swaps :: "byte list \<Rightarrow> (byte \<times> byte list) list option" where
  "read_swaps [] = None"
| "read_swaps (n # bs) = read_segments (unat n) bs"

lemma read_segment:
  assumes "length data < 65536"
  shows "read_segments (Suc n) (segment t data @ rest) = map_option (Cons (t, data)) (read_segments n rest)"
proof -
  have "unat (word_of_nat (length data div 256) :: byte) * 256 + unat (word_of_nat (length data) :: byte) = length data"
    using assms by (simp add: unat_of_nat take_bit_eq_mod mod_less less_mult_imp_div_less)
  then show ?thesis
    by (simp add: segment_def)
qed

lemma read_segments_concat:
  "\<forall>(t, data) \<in> set segs. length data < 65536 \<Longrightarrow> read_segments (length segs) (concat (map (\<lambda>(t, data). segment t data) segs)) = Some segs"
proof (induction segs)
  case (Cons s segs)
  obtain t data where s: "s = (t, data)"
    by (cases s)
  then show ?case
    using Cons read_segment [of data "length segs" t "concat (map (\<lambda>(t, data). segment t data) segs)"] by simp
qed simp

lemma read_swaps_merge:
  assumes "\<forall>(t, data) \<in> set segs. length data < 65536" "length segs < 256"
  shows "read_swaps (mergeSwapData (map (\<lambda>(t, data). segment t data) segs)) = Some segs"
proof -
  have f: "filter (\<lambda>d. length d > 0) (map (\<lambda>(t, data). segment t data) segs) = map (\<lambda>(t, data). segment t data) segs"
    by (simp add: filter_id_conv segment_def case_prod_beta)
  have "unat (word_of_nat (length segs) :: byte) = length segs"
    using assms(2) by (simp add: unat_of_nat take_bit_eq_mod)
  then show ?thesis
    using read_segments_concat [OF assms(1)] unfolding mergeSwapData_def f by simp
qed

text \<open>Addresses in the state have 20 bytes and no pool of the registry has the address zero.\<close>

definition addresses_ok :: "CeloState \<Rightarrow> bool" where
  "addresses_ok state \<longleftrightarrow> (\<forall>i t. it_GetByID (ceTokens state) i = Some t \<longrightarrow> is_address (tvAddress t)) \<and>
     (\<forall>i p. ir_GetByID (cePools state) i = Some p \<longrightarrow> is_key (pvKey p) \<and> PoolKey_ToAddress (pvKey p) \<noteq> Inr zero_address) \<and>
     (\<forall>i p. ip_GetByID (ceUniswapV2 state) i = Some p \<longrightarrow> is_address (p2Address p)) \<and>
     (\<forall>i p. ip_GetByID (ceUniswapV3 state) i = Some p \<or> ip_GetByID (ceAerodromeV3 state) i = Some p \<longrightarrow> is_address (p3Address p))"

text \<open>Where the tokens of a swap go: to the receiver after the last one, to a next pool that has to hold them before its swap, else to nobody.\<close>

definition recipient :: "CeloState \<Rightarrow> address \<Rightarrow> TokenPoolPath list \<Rightarrow> nat \<Rightarrow> address" where
  "recipient state receiver path i =
     (if Suc i = length path then receiver
      else case ir_GetByID (cePools state) (tpPoolID (path ! Suc i)) of
        None \<Rightarrow> zero_address
      | Some p \<Rightarrow> if ResolveSchemaFromPoolID (ceResolver state) (pvID p) = Some UniswapV2ProtocolSchema then drop 12 (pvKey p) else zero_address)"

text \<open>What the segment of a hop says.\<close>

definition hop_data :: "CeloState \<Rightarrow> address \<Rightarrow> TokenPoolPath list \<Rightarrow> nat \<Rightarrow> byte \<times> byte list \<Rightarrow> bool" where
  "hop_data state receiver path i seg \<longleftrightarrow> (\<exists>kind pool flags.
     seg = (kind, pool @ recipient state receiver path i @ tvAddress (found zero_token (it_GetByID (ceTokens state) (tpTokenInID (path ! i)))) @
       tvAddress (found zero_token (it_GetByID (ceTokens state) (tpTokenOutID (path ! i)))) @ flags) \<and>
     (kind = 5 \<and> length (snd seg) = 85 \<and> (\<exists>p. ip_GetByID (ceUniswapV2 state) (tpPoolID (path ! i)) = Some p \<and> pool = p2Address p \<and>
         hd flags = flag (tvID (found zero_token (it_GetByID (ceTokens state) (tpTokenInID (path ! i)))) = idsToken0 (p2IDs p))) \<or>
      kind = 6 \<and> length (snd seg) = 83 \<and> (\<exists>p. (ip_GetByID (ceUniswapV3 state) (tpPoolID (path ! i)) = Some p \<or> ip_GetByID (ceAerodromeV3 state) (tpPoolID (path ! i)) = Some p) \<and>
         pool = p3Address p \<and> hd flags = flag (tvID (found zero_token (it_GetByID (ceTokens state) (tpTokenInID (path ! i)))) = idsToken0 (p3IDs p)))))"

lemma is_address_simps [simp]: "is_address zero_address" "length (tvAddress zero_token) = 20"
  by (simp_all add: is_address_def zero_address_def zero_token_def)

lemma recipient_address:
  assumes "addresses_ok state" "is_address receiver"
  shows "length (recipient state receiver path i) = 20"
  using assms by (auto simp: recipient_def addresses_ok_def is_key_def is_address_def zero_address_def split: option.split)

lemma token_address: "addresses_ok state \<Longrightarrow> length (tvAddress (found zero_token (it_GetByID (ceTokens state) i))) = 20"
  by (auto simp: found_def addresses_ok_def is_address_def split: option.split)

lemma look_ahead_recipient:
  assumes ok: "addresses_ok state" and i: "i < length path" and l: "look_ahead state path i = Inr (req, nextA)"
  shows "snd (next_pool req receiver nextA) = recipient state receiver path i"
proof (cases "i < length path - 1")
  case True
  then obtain p schema where p: "ir_GetByID (cePools state) (tpPoolID (path ! Suc i)) = Some p"
      "ResolveSchemaFromPoolID (ceResolver state) (pvID p) = Some schema" "PoolKey_ToAddress (pvKey p) = Inr nextA" "req = requiresTransferTokenOut schema"
    using l by (auto simp: look_ahead_def split: option.splits sum.splits)
  have "PoolKey_ToAddress (pvKey p) \<noteq> Inr zero_address"
    using ok p(1) unfolding addresses_ok_def by blast
  then have "nextA \<noteq> zero_address" "nextA = drop 12 (pvKey p)"
    using p(3) by (auto simp: PoolKey_ToAddress_def split: if_splits)
  then show ?thesis
    using True p by (auto simp: next_pool_def recipient_def requiresTransferTokenOut_def)
next
  case False
  then have "Suc i = length path" "nextA = zero_address"
    using i l by (auto simp: look_ahead_def)
  then show ?thesis
    by (simp add: next_pool_def recipient_def)
qed

lemma swap_step_segment:
  assumes ok: "addresses_ok state" "is_address receiver" and i: "i < length path" and r: "swap_step_data state receiver path i = Inr (bytes, gas)"
  shows "\<exists>seg. bytes = segment (fst seg) (snd seg) \<and> hop_data state receiver path i seg"
proof -
  let ?in = "found zero_token (it_GetByID (ceTokens state) (tpTokenInID (path ! i)))"
  let ?out = "found zero_token (it_GetByID (ceTokens state) (tpTokenOutID (path ! i)))"
  obtain prev req nextA where prev: "prev_transfers state path i = Inr prev" and l: "look_ahead state path i = Inr (req, nextA)"
    using r by (auto simp: swap_step_data_def Let_def bind_result_Inr)
  note h = r [unfolded swap_step_data_def Let_def prev l bind_result_simps prod.case]
  have cases: "(\<exists>p. ip_GetByID (ceUniswapV2 state) (tpPoolID (path ! i)) = Some p \<and>
        (bytes, gas) = generateUniswapV2SwapDataAndGas i ?in ?out prev req receiver nextA p) \<or>
      (\<exists>p. (ip_GetByID (ceUniswapV3 state) (tpPoolID (path ! i)) = Some p \<or> ip_GetByID (ceAerodromeV3 state) (tpPoolID (path ! i)) = Some p) \<and>
        (bytes, gas) = generateUniswapV3SwapDataAndGas i ?in ?out prev req receiver nextA p)"
    using h by (simp split: option.splits if_splits) metis+
  note len = recipient_address [OF ok] token_address [OF ok(1)] and nx = look_ahead_recipient [OF ok(1) i l, of receiver]
  from cases show ?thesis
  proof
    assume "\<exists>p. ip_GetByID (ceUniswapV2 state) (tpPoolID (path ! i)) = Some p \<and>
        (bytes, gas) = generateUniswapV2SwapDataAndGas i ?in ?out prev req receiver nextA p"
    then obtain p where p: "ip_GetByID (ceUniswapV2 state) (tpPoolID (path ! i)) = Some p" "(bytes, gas) = generateUniswapV2SwapDataAndGas i ?in ?out prev req receiver nextA p"
      by blast
    have "length (p2Address p) = 20"
      using ok(1) p(1) by (simp add: addresses_ok_def is_address_def)
    moreover obtain f where "bytes = segment 5 (p2Address p @ recipient state receiver path i @ tvAddress ?in @ tvAddress ?out @ f)"
      "length f = 5" "hd f = flag (tvID ?in = idsToken0 (p2IDs p))"
      using p(2) nx by (auto simp: generateUniswapV2SwapDataAndGas_def Let_def case_prod_beta)
    ultimately show ?thesis
      using p(1) len by (intro exI [of _ "(5, p2Address p @ recipient state receiver path i @ tvAddress ?in @ tvAddress ?out @ f)"]) (auto simp: hop_data_def)
  next
    assume "\<exists>p. (ip_GetByID (ceUniswapV3 state) (tpPoolID (path ! i)) = Some p \<or> ip_GetByID (ceAerodromeV3 state) (tpPoolID (path ! i)) = Some p) \<and>
        (bytes, gas) = generateUniswapV3SwapDataAndGas i ?in ?out prev req receiver nextA p"
    then obtain p where p: "ip_GetByID (ceUniswapV3 state) (tpPoolID (path ! i)) = Some p \<or> ip_GetByID (ceAerodromeV3 state) (tpPoolID (path ! i)) = Some p"
      "(bytes, gas) = generateUniswapV3SwapDataAndGas i ?in ?out prev req receiver nextA p"
      by blast
    have "length (p3Address p) = 20"
      using ok(1) p(1) by (auto simp: addresses_ok_def is_address_def)
    moreover obtain f where "bytes = segment 6 (p3Address p @ recipient state receiver path i @ tvAddress ?in @ tvAddress ?out @ f)"
      "length f = 3" "hd f = flag (tvID ?in = idsToken0 (p3IDs p))"
      using p(2) nx by (auto simp: generateUniswapV3SwapDataAndGas_def Let_def case_prod_beta)
    ultimately show ?thesis
      using p(1) len by (intro exI [of _ "(6, p3Address p @ recipient state receiver path i @ tvAddress ?in @ tvAddress ?out @ f)"]) (auto simp: hop_data_def)
  qed
qed

lemma swap_data_loop_nth:
  "swap_data_loop state receiver path is = Inr ds \<Longrightarrow>
   length ds = length is \<and> (\<forall>k < length is. swap_step_data state receiver path (is ! k) = Inr (ds ! k))"
  by (induction state receiver path "is" arbitrary: ds rule: swap_data_loop.induct) (auto simp: bind_result_Inr nth_Cons split: nat.split)

text \<open>
  C39: Swap data can be read back. If the data of a path of fewer than 256 hops is generated, over a state whose addresses have 20 bytes and in
  whose registry no pool has the address zero, then a reader finds one segment per hop, in order. The segment of a hop names the
  indexed pool of the hop, the tokens in the order of the path with the direction in the pool, and where the tokens go: to the next
  pool exactly if that is a Uniswap V2 pool, and to the receiver after the last hop. A segment has 85 bytes for a Uniswap V2 pool and 83 for the others.
\<close>

theorem swap_data_decodes:
  assumes ok: "addresses_ok state" "is_address receiver" and len: "length path < 256" and r: "generateSwapData (Some state) path receiver = Inr (data, gas)"
  shows "\<exists>segs. read_swaps data = Some segs \<and> length segs = length path \<and> (\<forall>i < length path. hop_data state receiver path i (segs ! i))"
proof -
  obtain ds where ds: "swap_data_loop state receiver path [0..<length path] = Inr ds" "data = mergeSwapData (map fst ds)"
    using r by (auto simp: generateSwapData_def bind_result_Inr split: if_splits)
  note loop = swap_data_loop_nth [OF ds(1)]
  have "\<exists>seg. fst (ds ! i) = segment (fst seg) (snd seg) \<and> hop_data state receiver path i seg" if "i < length path" for i
    using swap_step_segment [OF ok that, of "fst (ds ! i)" "snd (ds ! i)"] loop that by simp
  then obtain seg where seg: "\<forall>i < length path. fst (ds ! i) = segment (fst (seg i)) (snd (seg i)) \<and> hop_data state receiver path i (seg i)"
    by metis
  let ?segs = "map seg [0..<length path]"
  have "map fst ds = map (\<lambda>(t, d). segment t d) ?segs"
    using seg loop by (intro nth_equalityI) (simp_all add: case_prod_beta)
  moreover have "\<forall>(t, d) \<in> set ?segs. length d < 65536"
  proof (intro ballI, clarify)
    fix t d
    assume "(t, d) \<in> set ?segs"
    then obtain i where "i < length path" "seg i = (t, d)"
      by auto
    then have "hop_data state receiver path i (t, d)"
      using seg by metis
    then show "length d < 65536"
      by (auto simp: hop_data_def)
  qed
  ultimately have "read_swaps data = Some ?segs"
    using read_swaps_merge [of ?segs] len ds(2) by simp
  then show ?thesis
    using seg by auto
qed

definition wit_path :: "TokenPoolPath list" where
  "wit_path = [\<lparr>tpTokenInID = 10, tpTokenOutID = 20, tpPoolID = 1\<rparr>, \<lparr>tpTokenInID = 20, tpTokenOutID = 30, tpPoolID = 2\<rparr>]"

lemma wit_addresses_ok: "addresses_ok wit_trade_state"
  by (auto simp: addresses_ok_def wit_trade_state_def Let_def wit_pairs_def wit_pair_def ip_put_lookups no_pools_lookups it_GetByID_def ir_GetByID_def
      NewIndexableTokenSystem_def NewIndexablePoolRegistry_def wit_token_def is_address_def is_key_def PoolKey_ToAddress_def zero_address_def replicate_eq_replicate
      split: if_splits)

lemma wit_swap_data: "case generateSwapData (Some wit_trade_state) wit_path (replicate 20 255) of Inl err \<Rightarrow> False | Inr (data, gas) \<Rightarrow> gas = 170000"
  by code_simp

theorem swap_data_decodes_witness:
  "\<exists>data segs. generateSwapData (Some wit_trade_state) wit_path (replicate 20 255) = Inr (data, 170000) \<and> read_swaps data = Some segs \<and> length segs = 2 \<and>
     hop_data wit_trade_state (replicate 20 255) wit_path 0 (segs ! 0) \<and> hop_data wit_trade_state (replicate 20 255) wit_path 1 (segs ! 1)"
proof -
  obtain data where d: "generateSwapData (Some wit_trade_state) wit_path (replicate 20 255) = Inr (data, 170000)"
    using wit_swap_data by (auto split: sum.splits)
  have "is_address (replicate 20 255)" "length wit_path = 2"
    by (simp_all add: is_address_def wit_path_def)
  then show ?thesis
    using swap_data_decodes [OF wit_addresses_ok _ _ d] d by fastforce
qed

section \<open>Limits\<close>

lemma getFragments_bounds: "getFragments quoteValue amount token p = Inr n \<Longrightarrow> 1 \<le> n \<and> n \<le> plMaxFragments p"
  by (auto simp: getFragments_def Let_def bind_result_Inr split: option.splits if_splits)

text \<open>The least amount that a swap accepts is within the slippage of the quoted amount, rounded down.\<close>

lemma min_out_bounds:
  assumes "0 < amountOut" "slippageBps \<le> 10000"
  shows "0 \<le> min_out amountOut slippageBps" "min_out amountOut slippageBps \<le> amountOut"
    "amountOut * (10000 - uint slippageBps) - 10000 < 10000 * min_out amountOut slippageBps"
proof -
  have le: "uint slippageBps \<le> 10000"
    using assms(2) by (simp add: word_le_def)
  have "uint (10000 - slippageBps) = 10000 - uint slippageBps"
    using assms(2) by (simp add: uint_minus_simple_alt [THEN iffD1])
  then have s: "sint (10000 - slippageBps) = 10000 - uint slippageBps"
    using le by (simp add: sint_uint signed_take_bit_int_eq_self_iff) (rule le_less_trans [of _ 0], simp_all)
  let ?q = "amountOut * (10000 - uint slippageBps)"
  have "?q \<le> amountOut * 10000" "0 \<le> ?q"
    using assms(1) le by (simp_all add: mult_left_mono)
  moreover have "min_out amountOut slippageBps = ?q div 10000"
    by (cases "slippageBps = 0") (simp_all add: min_out_def s word_gt_0)
  ultimately show "0 \<le> min_out amountOut slippageBps" "min_out amountOut slippageBps \<le> amountOut"
    "amountOut * (10000 - uint slippageBps) - 10000 < 10000 * min_out amountOut slippageBps"
    by linarith+
qed

section \<open>The platform of a state\<close>

lemma quotes_return_update: "quotes_return fs \<Longrightarrow> \<forall>amount i out. q amount i out \<noteq> None \<Longrightarrow> quotes_return (fs[k := Some q])"
  using set_update_subset_insert [of fs k "Some q"] unfolding quotes_return_def by blast

lemma install_returns:
  assumes "install tokens ids q reserves r = Some r'" "quotes_return (rtAmountOut r)" "\<forall>amount i out. q amount i out \<noteq> None"
  shows "quotes_return (rtAmountOut r')"
  using assms quotes_return_update by (auto simp: install_def Let_def split: if_splits)

lemma install_v2_returns:
  "install_v2 tokens ps r = Some r' \<Longrightarrow> None \<notin> set ps \<Longrightarrow> quotes_return (rtAmountOut r) \<Longrightarrow> quotes_return (rtAmountOut r')"
proof (induction tokens ps r rule: install_v2.induct)
  case (3 tokens pool ps r)
  obtain r1 where r1: "install tokens (p2IDs pool) (v2_quote (v2_pool_view pool)) (v2_reserves (v2_pool_view pool)) r = Some r1" "install_v2 tokens ps r1 = Some r'"
    using "3.prems"(1) by (auto split: option.splits)
  have "quotes_return (rtAmountOut r1)"
    using install_returns [OF r1(1) "3.prems"(3)] by (simp add: v2_quote_def split: sum.split)
  then show ?case
    using "3.IH" [OF r1(1,2)] "3.prems"(2) by simp
qed simp_all

lemma install_v3_returns:
  assumes P: "swaps_return U P"
  shows "install_v3 U tokens ps r = Some r' \<Longrightarrow> \<forall>pool \<in> set ps. P pool \<Longrightarrow> quotes_return (rtAmountOut r) \<Longrightarrow> quotes_return (rtAmountOut r')"
proof (induction ps arbitrary: r)
  case (Cons pool ps)
  obtain r1 where r1: "install tokens (p3IDs pool) (v3_quote U (v3_pool_view pool)) (v3_reserves U (v3_pool_view pool)) r = Some r1" "install_v3 U tokens ps r1 = Some r'"
    using Cons.prems(1) by (auto split: option.splits)
  have "\<forall>amount i out. v3_quote U (v3_pool_view pool) amount i out \<noteq> None"
    using P Cons.prems(2) unfolding swaps_return_def by simp
  then show ?case
    using Cons.IH [OF r1(2)] install_returns [OF r1(1) Cons.prems(3)] Cons.prems(2) by simp
qed simp

lemma NewRouter_returns:
  assumes "swaps_return U P" "NewRouter U state = Some r" "ipPools (ceUniswapV2 state) \<noteq> []"
    and "\<forall>pool \<in> set (ipPools (ceUniswapV3 state)) \<union> set (ipPools (ceAerodromeV3 state)). P pool"
  shows "quotes_return (rtAmountOut r)"
proof -
  let ?r = "\<lparr>rtGraph = ceGraph state, rtTokenToIndex = lookup_map (gvTokens (ceGraph state)), rtPoolToIndex = lookup_map (gvPools (ceGraph state)),
    rtAmountOut = replicate (length (gvPools (ceGraph state))) None, rtReserves = replicate (length (gvPools (ceGraph state))) None\<rparr>"
  let ?ps = "List.map_filter id (v3i_All (ceUniswapV3 state) @ v3i_All (ceAerodromeV3 state))"
  obtain r1 where r1: "install_v2 (ceTokens state) (v2i_All (ceUniswapV2 state)) ?r = Some r1" "install_v3 U (ceTokens state) ?ps r1 = Some r"
    using assms(2) by (auto simp: NewRouter_def Let_def split: option.splits)
  have "None \<notin> set (v2i_All (ceUniswapV2 state))" "quotes_return (rtAmountOut ?r)"
    using assms(3) by (cases "ipPools (ceUniswapV2 state)"; auto simp: v2i_All_def copy_into_def quotes_return_def)+
  then have "quotes_return (rtAmountOut r1)"
    using install_v2_returns [OF r1(1)] by blast
  moreover have "\<forall>pool \<in> set ?ps. P pool"
    using assms(4) by (auto simp: v2i_All_truncates(2) map_filter_def)
  ultimately show ?thesis
    using install_v3_returns [OF assms(1) r1(2)] by blast
qed

end
