(* ===== verification/Fork_Measure.thy ===== *)
theory Fork_Measure
  imports Token_Analyzer
begin

text \<open>
  How fees and gas are measured: the forked node of \<^verbatim>\<open>src/fork/anvil-forker\<close>, on which three transfers of a token are executed, the pool of such
  nodes, and the requester of \<^verbatim>\<open>src/token-analyzer/fork\<close>, which sends one request per token. The node is a process outside of the program:
  its state is of any type and its answers are arguments. \<^verbatim>\<open>uint\<close> has 64 bits. \<open>None\<close> is a panic.
\<close>

section \<open>Fees\<close>

definition calcFee :: "int option \<Rightarrow> int option \<Rightarrow> uint64" where
  "calcFee sent received =
     (case (sent, received) of
        (Some s, Some r) \<Rightarrow> if s = 0 \<or> s \<le> r then 0 else word_of_int (big_Div ((s - r) * 100) s)
      | _ \<Rightarrow> 0)"

definition fork_max :: "uint64 \<Rightarrow> uint64 \<Rightarrow> uint64" where
  "fork_max a b = (if a > b then a else b)"

section \<open>The node\<close>

datatype receipt_poll = PollTimeout | PollNotFound | PollFailed string | PollReceipt uint64

record 'n anvil =
  avBalance :: "address \<Rightarrow> address \<Rightarrow> 'n \<Rightarrow> string + int"
  avSend :: "address \<Rightarrow> address \<Rightarrow> byte list \<Rightarrow> 'n \<Rightarrow> (string + byte list) \<times> 'n"
  avPolls :: "byte list \<Rightarrow> 'n \<Rightarrow> receipt_poll list"
  avSetBalance :: "address \<Rightarrow> 'n \<Rightarrow> string option \<times> 'n"

datatype fork_error =
    FErrNotRunning
  | FErrReceiver
  | FErrRandom string
  | FErrSetup string
  | FErrHop nat fork_error
  | FErrZeroBalance address
  | FErrRPC string
  | FErrReceiptTimeout

fun waitForReceipt :: "receipt_poll list \<Rightarrow> fork_error + uint64" where
  "waitForReceipt [] = Inl FErrReceiptTimeout"
| "waitForReceipt (PollTimeout # ps) = Inl FErrReceiptTimeout"
| "waitForReceipt (PollNotFound # ps) = waitForReceipt ps"
| "waitForReceipt (PollFailed err # ps) = Inl (FErrRPC err)"
| "waitForReceipt (PollReceipt gas # ps) = Inr gas"

definition LeftPadBytes :: "byte list \<Rightarrow> nat \<Rightarrow> byte list" where
  "LeftPadBytes bs l = (if l \<le> length bs then bs else replicate (l - length bs) 0 @ bs)"

text \<open>\<^verbatim>\<open>big.Int.Bytes\<close>: big-endian without leading zeros.\<close>

function big_Bytes :: "int \<Rightarrow> byte list" where
  "big_Bytes n = (if n \<le> 0 then [] else big_Bytes (n div 256) @ [word_of_int n])"
  by pat_completeness auto
termination
  by (relation "measure nat") auto

declare big_Bytes.simps [simp del]

definition transfer_data :: "address \<Rightarrow> int \<Rightarrow> byte list" where
  "transfer_data to fromBal = [0xa9, 0x05, 0x9c, 0xbb] @ LeftPadBytes to 32 @ LeftPadBytes (big_Bytes fromBal) 32"

definition transferToken :: "'n anvil \<Rightarrow> address \<Rightarrow> address \<Rightarrow> address \<Rightarrow> 'n \<Rightarrow> (fork_error + int \<times> int \<times> uint64) \<times> 'n" where
  "transferToken A token from to n =
     (case avBalance A token from n of
        Inl err \<Rightarrow> (Inl (FErrRPC err), n)
      | Inr fromBal \<Rightarrow>
          if fromBal = 0 then (Inl (FErrZeroBalance from), n)
          else (case avBalance A token to n of
             Inl err \<Rightarrow> (Inl (FErrRPC err), n)
           | Inr toBal \<Rightarrow>
               (case avSend A from token (transfer_data to fromBal) n of
                  (Inl err, n') \<Rightarrow> (Inl (FErrRPC err), n')
                | (Inr txHash, n') \<Rightarrow>
                    (case waitForReceipt (avPolls A txHash n') of
                       Inl err \<Rightarrow> (Inl err, n')
                     | Inr gasUsed \<Rightarrow>
                         (case avBalance A token to n' of
                            Inl err \<Rightarrow> (Inl (FErrRPC err), n')
                          | Inr toBalAfter \<Rightarrow> (Inr (fromBal, toBalAfter - toBal, gasUsed), n'))))))"

fun setBalances :: "'n anvil \<Rightarrow> address list \<Rightarrow> 'n \<Rightarrow> fork_error option \<times> 'n" where
  "setBalances A [] n = (None, n)"
| "setBalances A (addr # addrs) n =
     (case avSetBalance A addr n of (Some err, n') \<Rightarrow> (Some (FErrSetup err), n') | (None, n') \<Rightarrow> setBalances A addrs n')"

record FeeGasOverride =
  foGas :: uint64
  foFee :: uint64

record SimulateResponse =
  srGas :: uint64
  srFee :: uint64
  srToken :: address
  srError :: "fork_error option"

definition failed_response :: "fork_error \<Rightarrow> SimulateResponse" where
  "failed_response err = \<lparr>srGas = 0, srFee = 0, srToken = replicate 20 0, srError = Some err\<rparr>"

definition three_hops :: "'n anvil \<Rightarrow> address \<Rightarrow> address list \<Rightarrow> 'n \<Rightarrow> SimulateResponse \<times> 'n" where
  "three_hops A token addrs n =
     (case transferToken A token (addrs ! 0) (addrs ! 1) n of
        (Inl err, n1) \<Rightarrow> (failed_response (FErrHop 1 err), n1)
      | (Inr (s1, r1, g1), n1) \<Rightarrow>
          (case transferToken A token (addrs ! 1) (addrs ! 2) n1 of
             (Inl err, n2) \<Rightarrow> (failed_response (FErrHop 2 err), n2)
           | (Inr (s2, r2, g2), n2) \<Rightarrow>
               (case transferToken A token (addrs ! 2) (addrs ! 0) n2 of
                  (Inl err, n3) \<Rightarrow> (failed_response (FErrHop 3 err), n3)
                | (Inr (s3, r3, g3), n3) \<Rightarrow>
                    (\<lparr>srGas = fork_max g1 (fork_max g2 g3),
                      srFee = fork_max (calcFee (Some s1) (Some r1)) (fork_max (calcFee (Some s2) (Some r2)) (calcFee (Some s3) (Some r3))),
                      srToken = token, srError = None\<rparr>, n3))))"

text \<open>The section of a simulation under the mutex; \<open>random\<close> is the second receiver. The client is nil after \<^verbatim>\<open>stopAnvil\<close>.\<close>

definition simulate_locked ::
  "'n anvil \<Rightarrow> bool \<Rightarrow> string + address \<Rightarrow> address \<Rightarrow> address \<Rightarrow> address \<Rightarrow> 'n \<Rightarrow> (SimulateResponse \<times> 'n) option" where
  "simulate_locked A client random token holder receiver n =
     (case random of
        Inl err \<Rightarrow> Some (failed_response (FErrRandom err), n)
      | Inr receiver2 \<Rightarrow>
          (case setBalances A [holder, receiver, receiver2] n of
             (Some err, n') \<Rightarrow> Some (failed_response err, n')
           | (None, n') \<Rightarrow> if client then Some (three_hops A token [holder, receiver, receiver2] n') else None))"

text \<open>The checks before the mutex is taken: a response, or to go on.\<close>

definition simulate_checks :: "(address \<rightharpoonup> FeeGasOverride) \<Rightarrow> bool \<Rightarrow> address \<Rightarrow> address \<Rightarrow> SimulateResponse option" where
  "simulate_checks tokenOverrides running token receiver =
     (case tokenOverrides token of
        Some override \<Rightarrow> Some \<lparr>srGas = foGas override, srFee = foFee override, srToken = token, srError = None\<rparr>
      | None \<Rightarrow>
          if \<not> running then Some (failed_response FErrNotRunning)
          else if receiver = replicate 20 0 then Some (failed_response FErrReceiver)
          else None)"

definition SimulateTokenTransfer ::
  "(address \<rightharpoonup> FeeGasOverride) \<Rightarrow> bool \<Rightarrow> 'n anvil \<Rightarrow> bool \<Rightarrow> string + address \<Rightarrow> address \<Rightarrow> address \<Rightarrow> address \<Rightarrow> 'n \<Rightarrow> (SimulateResponse \<times> 'n) option" where
  "SimulateTokenTransfer tokenOverrides running A client random token holder receiver n =
     (case simulate_checks tokenOverrides running token receiver of
        Some resp \<Rightarrow> Some (resp, n)
      | None \<Rightarrow> simulate_locked A client random token holder receiver n)"

section \<open>The pool of forks\<close>

record 'f ForkPool =
  fpForks :: "'f list"
  fpNextIndex :: "32 word"

definition NewForkPool :: "'f list \<Rightarrow> string + 'f ForkPool" where
  "NewForkPool forks = (if length forks = 0 then Inl ''fork pool size must be greater than zero'' else Inr \<lparr>fpForks = forks, fpNextIndex = 0\<rparr>)"

definition fp_Get :: "'f ForkPool \<Rightarrow> 'f \<times> 'f ForkPool" where
  "fp_Get p = (let idx = fpNextIndex p + 1 in (fpForks p ! unat (idx mod word_of_nat (length (fpForks p))), p\<lparr>fpNextIndex := idx\<rparr>))"

definition pool_simulate :: "('f \<Rightarrow> 'r) \<Rightarrow> 'f ForkPool \<Rightarrow> 'r \<times> 'f ForkPool" where
  "pool_simulate simulate p = (case fp_Get p of (fork, p') \<Rightarrow> (simulate fork, p'))"

section \<open>The life of a fork\<close>

text \<open>\<open>fkClient\<close>: the client is not nil. \<open>fkCmd\<close>: the process of the command, if there is a command with a process.\<close>

record Fork =
  fkRunning :: bool
  fkClient :: bool
  fkCmd :: "nat option"

definition NewFork :: Fork where
  "NewFork = \<lparr>fkRunning = False, fkClient = False, fkCmd = None\<rparr>"

datatype start_outcome = StartFails | NotReady | DialFails | Started

text \<open>What starting leaves behind, for the process \<open>pid\<close> that it starts.\<close>

definition startAnvilProcess :: "nat \<Rightarrow> start_outcome \<Rightarrow> Fork \<Rightarrow> Fork" where
  "startAnvilProcess pid outcome f =
     (case outcome of
        StartFails \<Rightarrow> f\<lparr>fkCmd := None\<rparr>
      | NotReady \<Rightarrow> f\<lparr>fkCmd := Some pid\<rparr>
      | DialFails \<Rightarrow> f\<lparr>fkCmd := Some pid\<rparr>
      | Started \<Rightarrow> f\<lparr>fkCmd := Some pid, fkClient := True, fkRunning := True\<rparr>)"

text \<open>\<^verbatim>\<open>resetState\<close> starts the process only if it is not running, else it resets the node; \<open>url\<close> says whether there is a URL.\<close>

definition resetState :: "bool \<Rightarrow> nat \<Rightarrow> start_outcome \<Rightarrow> Fork \<Rightarrow> Fork" where
  "resetState url pid outcome f = (if \<not> url then f else if \<not> fkRunning f then startAnvilProcess pid outcome f else f)"

definition fork_target :: "uint64 \<Rightarrow> uint64 \<Rightarrow> uint64" where
  "fork_target number blocksBehind = number - blocksBehind"

definition stop_flag :: "Fork \<Rightarrow> Fork" where
  "stop_flag f = f\<lparr>fkRunning := False\<rparr>"

definition stop_locked :: "Fork \<Rightarrow> Fork" where
  "stop_locked f = f\<lparr>fkClient := False, fkCmd := None\<rparr>"

datatype fork_phase = Looping | Stopping | Stopped

text \<open>
  A fork with its goroutines: the loop, and simulations that are between their checks and the mutex. \<open>fmLive\<close> are the processes
  that were started and not stopped; \<open>fmPanic\<close>: a simulation has used a nil client.
\<close>

record ForkMachine =
  fmFork :: Fork
  fmPhase :: fork_phase
  fmWaiting :: nat
  fmLive :: "nat set"
  fmNextPid :: nat
  fmPanic :: bool

definition start_machine :: ForkMachine where
  "start_machine = \<lparr>fmFork = NewFork, fmPhase = Looping, fmWaiting = 0, fmLive = {}, fmNextPid = 0, fmPanic = False\<rparr>"

inductive fork_step :: "ForkMachine \<Rightarrow> ForkMachine \<Rightarrow> bool" where
  fork_reset: "fmPhase m = Looping \<Longrightarrow>
    fork_step m (m\<lparr>fmFork := resetState url (fmNextPid m) outcome (fmFork m), fmNextPid := Suc (fmNextPid m),
      fmLive := (if url \<and> \<not> fkRunning (fmFork m) \<and> outcome \<noteq> StartFails then insert (fmNextPid m) (fmLive m) else fmLive m)\<rparr>)"
| fork_stop: "fmPhase m = Looping \<Longrightarrow> fork_step m (m\<lparr>fmFork := stop_flag (fmFork m), fmPhase := Stopping\<rparr>)"
| fork_stopped: "fmPhase m = Stopping \<Longrightarrow>
    fork_step m (m\<lparr>fmFork := stop_locked (fmFork m), fmPhase := Stopped, fmLive := fmLive m - set_option (fkCmd (fmFork m))\<rparr>)"
| sim_checked: "fkRunning (fmFork m) \<Longrightarrow> fork_step m (m\<lparr>fmWaiting := Suc (fmWaiting m)\<rparr>)"
| sim_runs: "fmWaiting m = Suc k \<Longrightarrow> fork_step m (m\<lparr>fmWaiting := k, fmPanic := (fmPanic m \<or> \<not> fkClient (fmFork m))\<rparr>)"

section \<open>The requester\<close>

text \<open>One request: \<open>random\<close> is the receiver and \<open>call\<close> what the service answers, gas, fee and error text.\<close>

definition requestOne ::
  "(uint64 \<Rightarrow> float64) \<Rightarrow> string + address \<Rightarrow> (address \<Rightarrow> string + uint64 \<times> uint64 \<times> string) \<Rightarrow> string + FeeAndGasResult" where
  "requestOne to_float random call =
     (case random of
        Inl err \<Rightarrow> Inl err
      | Inr receiver \<Rightarrow>
          (case call receiver of
             Inl err \<Rightarrow> Inl err
           | Inr (gas, fee, errText) \<Rightarrow>
               if errText \<noteq> [] then Inl errText else Inr \<lparr>fgFee = to_float fee, fgGas = gas, fgError = None\<rparr>))"

definition failed_result :: "string \<Rightarrow> FeeAndGasResult" where
  "failed_result err = \<lparr>fgFee = 0, fgGas = 0, fgError = Some err\<rparr>"

text \<open>A goroutine: it sees a cancelled context, or it makes its request.\<close>

definition request_job :: "(address \<Rightarrow> string option) \<Rightarrow> (address \<Rightarrow> address \<Rightarrow> string + FeeAndGasResult) \<Rightarrow> address \<Rightarrow> address \<Rightarrow> FeeAndGasResult" where
  "request_job seen request token holder =
     (case seen token of
        Some err \<Rightarrow> failed_result err
      | None \<Rightarrow> (case request token holder of Inl err \<Rightarrow> failed_result err | Inr result \<Rightarrow> result))"

text \<open>
  \<open>started\<close> is the number of goroutines that the loop starts before it finds the context cancelled, \<open>finish\<close> the order in which they
  write their results, \<open>ctxErr\<close> the error of the context when all have ended.
\<close>

definition RequestAll ::
  "string option \<Rightarrow> (address, address) range_order \<Rightarrow> (address, address) range_order \<Rightarrow> nat \<Rightarrow> (address, address) range_order \<Rightarrow> (address \<Rightarrow> string option) \<Rightarrow>
   (address \<Rightarrow> address \<Rightarrow> string + FeeAndGasResult) \<Rightarrow> string option \<Rightarrow> (address, address) gomap \<Rightarrow> string + (address, FeeAndGasResult) gomap" where
  "RequestAll before ord ord' started finish seen request ctxErr tokensByHolder =
     (case before of
        Some err \<Rightarrow> Inl err
      | None \<Rightarrow>
          let results = foldl (\<lambda>r (token, holder). AList.update token (request_job seen request token holder) r) [] (finish (take started (ord tokensByHolder))) in
          Inr (case ctxErr of
                 None \<Rightarrow> results
               | Some err \<Rightarrow> foldl (\<lambda>r (token, holder). if map_of r token = None then AList.update token (failed_result err) r else r) results (ord' tokensByHolder)))"

section \<open>What is measured\<close>

lemma uint_fork_max: "uint (fork_max a b) = max (uint a) (uint b)"
  by (simp add: fork_max_def word_less_def)

lemma uint_calcFee:
  assumes "0 < s" "0 \<le> t" "t \<le> s"
  shows "uint (calcFee (Some s) (Some (s - t))) = 100 * t div s"
proof (cases "t = 0")
  case False
  have "0 \<le> t * 100 div s"
    using assms by (simp add: pos_imp_zdiv_nonneg_iff)
  moreover have "t * 100 div s \<le> s * 100 div s"
    using assms by (intro zdiv_mono1) simp_all
  ultimately have "uint (word_of_int (t * 100 div s) :: uint64) = t * 100 div s"
    using assms by (simp add: uint_word_of_int_eq take_bit_int_eq_self)
  then show ?thesis
    using False assms by (simp add: calcFee_def mult.commute)
qed (simp add: calcFee_def)

text \<open>
  A token as the node executes it: balances are answered truly, a transfer moves the amount less a tax to the receiver, and giving native
  coins to an account leaves the balances of the token alone. Tax and gas depend on the sender, the receiver and the amount, the gas also on the
  state of the node.
\<close>

definition taxed_token ::
  "'n anvil \<Rightarrow> address \<Rightarrow> ('n \<Rightarrow> address \<Rightarrow> int) \<Rightarrow> (address \<Rightarrow> address \<Rightarrow> int \<Rightarrow> int) \<Rightarrow> (address \<Rightarrow> address \<Rightarrow> int \<Rightarrow> 'n \<Rightarrow> uint64) \<Rightarrow> bool" where
  "taxed_token A token bal tax gas \<longleftrightarrow>
     (\<forall>a n. avBalance A token a n = Inr (bal n a)) \<and>
     (\<forall>a n. \<exists>n'. avSetBalance A a n = (None, n') \<and> bal n' = bal n) \<and>
     (\<forall>from to x n. length from = 20 \<longrightarrow> length to = 20 \<longrightarrow> from \<noteq> to \<longrightarrow> 0 < x \<longrightarrow> x \<le> bal n from \<longrightarrow>
        (\<exists>h n'. avSend A from token (transfer_data to x) n = (Inr h, n') \<and> waitForReceipt (avPolls A h n') = Inr (gas from to x n) \<and>
           bal n' = (bal n)(from := bal n from - x, to := bal n to + (x - tax from to x))))"

lemma setBalances_taxed:
  assumes "taxed_token A token bal tax gas"
  shows "\<exists>n'. setBalances A addrs n = (None, n') \<and> bal n' = bal n"
proof (induction addrs arbitrary: n)
  case (Cons a addrs)
  obtain n1 where n1: "avSetBalance A a n = (None, n1)" "bal n1 = bal n"
    using assms unfolding taxed_token_def by blast
  then show ?case
    using Cons.IH [of n1] by simp
qed simp

lemma transferToken_taxed:
  assumes "taxed_token A token bal tax gas" "from \<noteq> to" "bal n from = x" "0 < x" "length from = 20" "length to = 20"
  shows "\<exists>n'. transferToken A token from to n = (Inr (x, x - tax from to x, gas from to x n), n') \<and>
    bal n' = (bal n)(from := 0, to := bal n to + (x - tax from to x))"
proof -
  have b: "avBalance A token a k = Inr (bal k a)" for a k
    using assms(1) by (simp add: taxed_token_def)
  obtain h n' where h: "avSend A from token (transfer_data to x) n = (Inr h, n')" "waitForReceipt (avPolls A h n') = Inr (gas from to x n)"
    "bal n' = (bal n)(from := bal n from - x, to := bal n to + (x - tax from to x))"
    using assms unfolding taxed_token_def by (metis order_refl)
  have "transferToken A token from to n = (Inr (x, x - tax from to x, gas from to x n), n')"
    using h(1,2) assms(3,4) by (simp add: transferToken_def b) (simp add: h(3))
  then show ?thesis
    using h(3) assms(3) by auto
qed

lemma uint_fork_max_three: "uint (fork_max a (fork_max b c)) = max (uint a) (max (uint b) (uint c))"
  by (simp add: uint_fork_max)

text \<open>
  C40: The measurement of a token. On a running fork whose node executes a token with a tax on transfers, for three different accounts of which only the
  holder has tokens, the simulation returns without an error the largest gas of its three transfers, from the holder to the receiver, on to
  the second receiver and back, and the largest of the percentages that they lose, each rounded down to a whole percent. So a
  token that loses less than one percent in each of them is measured as free of fees, and only such a token.
\<close>

theorem measured_fee_exact:
  assumes token: "taxed_token A token bal tax gas" and tax: "\<forall>a b x. 0 \<le> x \<longrightarrow> 0 \<le> tax a b x \<and> tax a b x \<le> x"
    and req: "overrides token = None" "receiver \<noteq> replicate 20 0" "distinct [holder, receiver, receiver2]"
    and addr: "length holder = 20" "length receiver = 20" "length receiver2 = 20"
    and bal: "bal n holder = x1" "bal n receiver = 0" "bal n receiver2 = 0"
    and t: "t1 = tax holder receiver x1" "t2 = tax receiver receiver2 x2" "t3 = tax receiver2 holder x3"
    and x: "0 < x1" "x2 = x1 - t1" "0 < x2" "x3 = x2 - t2" "0 < x3"
    and states: "n0 = snd (setBalances A [holder, receiver, receiver2] n)" "n1 = snd (transferToken A token holder receiver n0)"
      "n2 = snd (transferToken A token receiver receiver2 n1)"
  shows "\<exists>resp n'. SimulateTokenTransfer overrides True A True (Inr receiver2) token holder receiver n = Some (resp, n') \<and> srError resp = None \<and>
    uint (srGas resp) = max (uint (gas holder receiver x1 n0)) (max (uint (gas receiver receiver2 x2 n1)) (uint (gas receiver2 holder x3 n2))) \<and>
    uint (srFee resp) = max (100 * t1 div x1) (max (100 * t2 div x2) (100 * t3 div x3)) \<and>
    (srFee resp = 0 \<longleftrightarrow> 100 * t1 < x1 \<and> 100 * t2 < x2 \<and> 100 * t3 < x3)"
proof -
  have b0: "setBalances A [holder, receiver, receiver2] n = (None, n0)" "bal n0 = bal n"
    using setBalances_taxed [OF token, of "[holder, receiver, receiver2]" n] states(1) by auto
  have b1: "transferToken A token holder receiver n0 = (Inr (x1, x1 - t1, gas holder receiver x1 n0), n1)" "bal n1 = (bal n0)(holder := 0, receiver := bal n0 receiver + x2)"
    using transferToken_taxed [OF token, of holder receiver n0 x1] req(3) addr bal(1) b0(2) x t states(2) by auto
  have b2: "transferToken A token receiver receiver2 n1 = (Inr (x2, x2 - t2, gas receiver receiver2 x2 n1), n2)" "bal n2 = (bal n1)(receiver := 0, receiver2 := bal n1 receiver2 + x3)"
    using transferToken_taxed [OF token, of receiver receiver2 n1 x2] req(3) addr bal(2) b0(2) b1(2) x t states(3) by auto
  obtain n3 where n3: "transferToken A token receiver2 holder n2 = (Inr (x3, x3 - t3, gas receiver2 holder x3 n2), n3)"
    using transferToken_taxed [OF token, of receiver2 holder n2 x3] req(3) addr bal(3) b0(2) b1(2) b2(2) x t by auto
  let ?fee = "\<lambda>y u. calcFee (Some y) (Some (y - u))"
  have fee: "uint (?fee y u) = 100 * u div y" if "0 < y" "0 \<le> u" "u \<le> y" for y u
    using uint_calcFee [OF that(1)] that by simp
  have zero: "?fee y u = 0 \<longleftrightarrow> 100 * u < y" if "0 < y" "0 \<le> u" "u \<le> y" for y u
  proof -
    have "?fee y u = 0 \<longleftrightarrow> 100 * u div y = 0"
      using fee [OF that] by (metis uint_0_iff)
    also have "\<dots> \<longleftrightarrow> 100 * u < y"
      using that by (simp add: zdiv_eq_0_iff) linarith
    finally show ?thesis .
  qed
  have u: "0 \<le> t1" "t1 \<le> x1" "0 \<le> t2" "t2 \<le> x2" "0 \<le> t3" "t3 \<le> x3"
    using tax t x by (simp_all add: less_imp_le)
  let ?resp = "\<lparr>srGas = fork_max (gas holder receiver x1 n0) (fork_max (gas receiver receiver2 x2 n1) (gas receiver2 holder x3 n2)),
    srFee = fork_max (?fee x1 t1) (fork_max (?fee x2 t2) (?fee x3 t3)), srToken = token, srError = None\<rparr>"
  have "SimulateTokenTransfer overrides True A True (Inr receiver2) token holder receiver n = Some (?resp, n3)"
    using req(1,2) b0(1) b1(1) b2(1) n3 by (simp add: SimulateTokenTransfer_def simulate_checks_def simulate_locked_def three_hops_def)
  moreover have "srFee ?resp = 0 \<longleftrightarrow> ?fee x1 t1 = 0 \<and> ?fee x2 t2 = 0 \<and> ?fee x3 t3 = 0"
    by (auto simp: fork_max_def word_gt_0)
  ultimately show ?thesis
    using zero [OF x(1) u(1,2)] zero [OF x(3) u(3,4)] zero [OF x(5) u(5,6)]
    by (intro exI [of _ ?resp] exI [of _ n3] conjI) (simp_all only: SimulateResponse.simps uint_fork_max_three fee [OF x(1) u(1,2)] fee [OF x(3) u(3,4)] fee [OF x(5) u(5,6)])
qed

text \<open>A node that reads the receiver and the amount from the data of the call; the token takes two percent, and the gas depends on the receiver.\<close>

lemma big_SetBytes_Bytes: "0 \<le> x \<Longrightarrow> big_SetBytes (big_Bytes x) = x"
proof (induction x rule: big_Bytes.induct)
  case (1 x)
  show ?case
  proof (cases "x = 0")
    case False
    then have "big_SetBytes (big_Bytes (x div 256)) = x div 256"
      using 1 by (simp add: pos_imp_zdiv_nonneg_iff)
    moreover have "uint (word_of_int x :: byte) = x mod 256"
      by (simp add: uint_word_of_int)
    ultimately show ?thesis
      using False "1.prems" by (subst big_Bytes.simps) (simp add: big_SetBytes_def div_mult_mod_eq)
  qed (simp add: big_SetBytes_def big_Bytes.simps)
qed

lemma big_SetBytes_LeftPad: "big_SetBytes (LeftPadBytes bs l) = big_SetBytes bs"
proof -
  have "foldl (\<lambda>n b. n * 256 + uint (b :: byte)) 0 (replicate k 0) = 0" for k
    by (induction k) simp_all
  then show ?thesis
    by (simp add: LeftPadBytes_def big_SetBytes_def)
qed

definition call_receiver :: "byte list \<Rightarrow> address" where
  "call_receiver data = take 20 (drop 16 data)"

definition call_amount :: "byte list \<Rightarrow> int" where
  "call_amount data = big_SetBytes (drop 36 data)"

lemma transfer_data_read: "length to = 20 \<Longrightarrow> 0 \<le> x \<Longrightarrow> call_receiver (transfer_data to x) = to \<and> call_amount (transfer_data to x) = x"
  by (simp add: call_receiver_def call_amount_def transfer_data_def LeftPadBytes_def [of to] big_SetBytes_LeftPad big_SetBytes_Bytes)

definition wit_anvil :: "(address \<Rightarrow> int) anvil" where
  "wit_anvil = \<lparr>avBalance = (\<lambda>token a n. Inr (n a)),
     avSend = (\<lambda>from token data n. let to = call_receiver data; x = call_amount data in (Inr to, n(from := n from - x, to := n to + (x - x div 50)))),
     avPolls = (\<lambda>h n. [PollNotFound, PollReceipt (50000 + 1000 * ucast (hd h))]), avSetBalance = (\<lambda>a n. (None, n))\<rparr>"

lemma wit_taxed: "taxed_token wit_anvil token (\<lambda>n. n) (\<lambda>_ _ x. x div 50) (\<lambda>_ to _ _. 50000 + 1000 * ucast (hd to))"
  by (auto simp: taxed_token_def wit_anvil_def transfer_data_read Let_def)

definition wit_balances :: "address \<Rightarrow> int" where
  "wit_balances = (\<lambda>_. 0)(replicate 20 1 := 1000)"

theorem measured_fee_exact_witness:
  "\<exists>resp n'. SimulateTokenTransfer Map.empty True wit_anvil True (Inr (replicate 20 3)) (replicate 20 9) (replicate 20 1) (replicate 20 2) wit_balances = Some (resp, n') \<and>
     srError resp = None \<and> srGas resp = 53000 \<and> uint (srFee resp) = 2"
proof -
  have tax: "\<forall>a b (x :: int). 0 \<le> x \<longrightarrow> 0 \<le> x div 50 \<and> x div 50 \<le> x"
    by presburger
  have "\<exists>resp n'. SimulateTokenTransfer Map.empty True wit_anvil True (Inr (replicate 20 3)) (replicate 20 9) (replicate 20 1) (replicate 20 2) wit_balances = Some (resp, n') \<and>
     srError resp = None \<and> uint (srGas resp) = 53000 \<and> uint (srFee resp) = 2"
    using measured_fee_exact [OF wit_taxed tax, of Map.empty "replicate 20 9" "replicate 20 2" "replicate 20 1" "replicate 20 3" wit_balances 1000, OF _ _ _ _ _ _ _ _ _ refl refl refl _ refl _ refl _ refl refl refl]
    by (auto simp: wit_balances_def replicate_eq_replicate)
  then obtain resp n' where r: "SimulateTokenTransfer Map.empty True wit_anvil True (Inr (replicate 20 3)) (replicate 20 9) (replicate 20 1) (replicate 20 2) wit_balances = Some (resp, n')"
      "srError resp = None" "uint (srGas resp) = 53000" "uint (srFee resp) = 2"
    by blast
  then have "srGas resp = 53000" by (simp add: word_uint_eq_iff)
  then show ?thesis using r by blast
qed

section \<open>The life of a fork is safe until it stops\<close>

definition fork_inv :: "ForkMachine \<Rightarrow> bool" where
  "fork_inv m \<longleftrightarrow> (fkRunning (fmFork m) \<longrightarrow> fkClient (fmFork m) \<and> fmPhase m = Looping) \<and> (0 < fmWaiting m \<longrightarrow> fkClient (fmFork m) \<or> fmPhase m = Stopped) \<and>
     (fmPanic m \<longrightarrow> fmPhase m = Stopped)"

lemma fork_step_inv: "fork_step m m' \<Longrightarrow> fork_inv m \<Longrightarrow> fork_inv m'"
  by (induction rule: fork_step.induct)
    (auto simp: fork_inv_def resetState_def startAnvilProcess_def stop_flag_def stop_locked_def split: start_outcome.splits)

lemma fork_run_inv: "fork_step\<^sup>*\<^sup>* start_machine m \<Longrightarrow> fork_inv m"
  by (induction rule: rtranclp_induct) (auto simp: fork_inv_def start_machine_def NewFork_def dest: fork_step_inv)

text \<open>
  Over all interleavings a fork that reports to run has a client, and no simulation uses a nil client before the fork is stopped.
\<close>

theorem fork_safe_until_stopped:
  assumes "fork_step\<^sup>*\<^sup>* start_machine m"
  shows "(fkRunning (fmFork m) \<longrightarrow> fkClient (fmFork m)) \<and> (fmPanic m \<longrightarrow> fmPhase m = Stopped)"
  using fork_run_inv [OF assms] by (simp add: fork_inv_def)

text \<open>A simulation that has checked the flag and waits for the mutex while the fork stops uses a nil client.\<close>

theorem simulation_panics_after_stop: "\<exists>m. fork_step\<^sup>*\<^sup>* start_machine m \<and> fmPanic m"
proof -
  let ?f = "\<lparr>fkRunning = True, fkClient = True, fkCmd = Some 0\<rparr>"
  let ?m = "\<lambda>f ph w live panic. \<lparr>fmFork = f, fmPhase = ph, fmWaiting = w, fmLive = live, fmNextPid = 1, fmPanic = panic\<rparr>"
  have s1: "fork_step start_machine (?m ?f Looping 0 {0} False)"
    using fork_reset [of start_machine True Started] by (simp add: start_machine_def resetState_def startAnvilProcess_def NewFork_def)
  have s2: "fork_step (?m ?f Looping 0 {0} False) (?m ?f Looping 1 {0} False)"
    using sim_checked [of "?m ?f Looping 0 {0} False"] by simp
  have s3: "fork_step (?m ?f Looping 1 {0} False) (?m (stop_flag ?f) Stopping 1 {0} False)"
    using fork_stop [of "?m ?f Looping 1 {0} False"] by simp
  have s4: "fork_step (?m (stop_flag ?f) Stopping 1 {0} False) (?m (stop_locked (stop_flag ?f)) Stopped 1 {} False)"
    using fork_stopped [of "?m (stop_flag ?f) Stopping 1 {0} False"] by (simp add: stop_flag_def)
  have s5: "fork_step (?m (stop_locked (stop_flag ?f)) Stopped 1 {} False) (?m (stop_locked (stop_flag ?f)) Stopped 0 {} True)"
    using sim_runs [of "?m (stop_locked (stop_flag ?f)) Stopped 1 {} False" 0] by (simp add: stop_locked_def)
  have "fork_step\<^sup>*\<^sup>* start_machine (?m (stop_locked (stop_flag ?f)) Stopped 0 {} True)"
    using s1 s2 s3 s4 s5 by (meson rtranclp.rtrancl_into_rtrancl rtranclp.rtrancl_refl)
  then show ?thesis
    by (intro exI conjI, assumption) simp_all
qed

text \<open>A process that does not get ready is forgotten at the next block, and stopping the fork does not end it.\<close>

theorem failed_start_leaks: "\<exists>m. fork_step\<^sup>*\<^sup>* start_machine m \<and> fmPhase m = Stopped \<and> fmLive m \<noteq> {}"
proof -
  let ?f = "\<lambda>pid. \<lparr>fkRunning = False, fkClient = False, fkCmd = Some pid\<rparr>"
  let ?m = "\<lambda>f ph live k. \<lparr>fmFork = f, fmPhase = ph, fmWaiting = 0, fmLive = live, fmNextPid = k, fmPanic = False\<rparr>"
  have s1: "fork_step start_machine (?m (?f 0) Looping {0} 1)"
    using fork_reset [of start_machine True NotReady] by (simp add: start_machine_def resetState_def startAnvilProcess_def NewFork_def)
  have s2: "fork_step (?m (?f 0) Looping {0} 1) (?m (?f 1) Looping {1, 0} 2)"
    using fork_reset [of "?m (?f 0) Looping {0} 1" True NotReady] by (simp add: resetState_def startAnvilProcess_def numeral_2_eq_2)
  have s3: "fork_step (?m (?f 1) Looping {1, 0} 2) (?m (stop_flag (?f 1)) Stopping {1, 0} 2)"
    using fork_stop [of "?m (?f 1) Looping {1, 0} 2"] by simp
  have s4: "fork_step (?m (stop_flag (?f 1)) Stopping {1, 0} 2) (?m (stop_locked (stop_flag (?f 1))) Stopped {0} 2)"
    using fork_stopped [of "?m (stop_flag (?f 1)) Stopping {1, 0} 2"] by (simp add: stop_flag_def insert_Diff_if)
  have "fork_step\<^sup>*\<^sup>* start_machine (?m (stop_locked (stop_flag (?f 1))) Stopped {0} 2)"
    using s1 s2 s3 s4 by (meson rtranclp.rtrancl_into_rtrancl rtranclp.rtrancl_refl)
  then show ?thesis
    by (intro exI conjI, assumption) simp_all
qed

section \<open>Requests\<close>

lemma results_loop:
  "distinct (map fst m) \<Longrightarrow> fst ` set m \<inter> fst ` set r = {} \<Longrightarrow>
   map_of (foldl (\<lambda>r (token, holder). AList.update token (f token holder) r) r m) = map_of r ++ (\<lambda>t. map_option (f t) (map_of m t))"
proof (induction m arbitrary: r)
  case (Cons p m)
  obtain t h where p: "p = (t, h)"
    by (cases p)
  have d: "distinct (map fst m)" "fst ` set m \<inter> fst ` set (AList.update t (f t h) r) = {}"
    using Cons.prems by (auto simp: p dom_update)
  have "map_of m t = None"
    using Cons.prems by (simp add: p map_of_eq_None_iff)
  then show ?case
    using Cons.IH [OF d] by (auto simp: p update_conv' fun_eq_iff map_add_def split: option.split)
qed (simp add: map_add_def fun_eq_iff)

lemma fill_loop:
  "map_of (foldl (\<lambda>r (token, holder). if map_of r token = None then AList.update token e r else r) r m) t =
   (case map_of r t of Some x \<Rightarrow> Some x | None \<Rightarrow> if t \<in> fst ` set m then Some e else None)"
proof (induction m arbitrary: r t)
  case (Cons p m)
  obtain k h where p: "p = (k, h)"
    by (cases p)
  show ?case
    unfolding p by (cases "map_of r k"; cases "t = k") (simp_all add: Cons.IH update_conv' split: option.split)
qed (simp split: option.split)

text \<open>
  The requests for a set of tokens. Unless the context is cancelled before, every token gets exactly one result, whatever the order of the map and of the
  goroutines: the outcome of its own request if that was started, else the error of the context.
\<close>

theorem requests_complete:
  assumes d: "distinct (map fst m)" and ord: "range_order ord" "range_order ord'" "range_order finish" and cut: "started < length m \<longrightarrow> ctxErr \<noteq> None"
  shows "\<exists>results. RequestAll None ord ord' started finish seen request ctxErr m = Inr results \<and>
    (\<forall>t. map_of results t = (case map_of m t of None \<Rightarrow> None
       | Some h \<Rightarrow> Some (if t \<in> fst ` set (take started (ord m)) then request_job seen request t h else failed_result (the ctxErr))))"
proof -
  let ?s = "take started (ord m)"
  let ?r = "foldl (\<lambda>r (token, holder). AList.update token (request_job seen request token holder) r) [] (finish ?s)"
  have dm: "distinct (map fst (ord m))" "map_of (ord m) = map_of m" "set (ord m) = set m" "length (ord m) = length m"
    using d ord(1) by (simp_all add: range_order_distinct range_order_map_of range_order_set range_order_length)
  have ds: "distinct (map fst ?s)"
    using dm(1) by (metis distinct_take take_map)
  then have df: "distinct (map fst (finish ?s))" "map_of (finish ?s) = map_of ?s"
    using ord(3) by (simp_all add: range_order_distinct range_order_map_of)
  have s: "map_of ?s t = (if t \<in> fst ` set ?s then map_of m t else None)" for t
  proof (cases "t \<in> fst ` set ?s")
    case True
    then obtain h where h: "(t, h) \<in> set ?s"
      by auto
    then have "map_of ?s t = Some h" "map_of m t = Some h"
      using ds dm(1,2) in_set_takeD [OF h] by (metis map_of_is_SomeI)+
    then show ?thesis
      using True by simp
  qed (simp add: map_of_eq_None_iff)
  have r: "map_of ?r t = (if t \<in> fst ` set ?s then map_option (request_job seen request t) (map_of m t) else None)" for t
    using results_loop [OF df(1), of "[]" "request_job seen request"] by (simp add: df(2) s map_add_def)
  show ?thesis
  proof (cases ctxErr)
    case None
    then have "?s = ord m"
      using cut dm(4) by simp
    then have "map_of ?r t = (case map_of m t of None \<Rightarrow> None
       | Some h \<Rightarrow> Some (if t \<in> fst ` set ?s then request_job seen request t h else failed_result (the ctxErr)))" for t
      using r [of t] dm(3) map_of_eq_None_iff [of m t] by (cases "map_of m t") simp_all
    then show ?thesis
      using None by (simp add: RequestAll_def)
  next
    case (Some err)
    let ?all = "foldl (\<lambda>r (token, holder). if map_of r token = None then AList.update token (failed_result err) r else r) ?r (ord' m)"
    have "map_of ?all t = (case map_of m t of None \<Rightarrow> None
       | Some h \<Rightarrow> Some (if t \<in> fst ` set ?s then request_job seen request t h else failed_result (the ctxErr)))" for t
      using map_of_eq_None_iff [of m t] ord(2) unfolding fill_loop r Some by (auto simp: range_order_set split: option.split)
    then show ?thesis
      by (simp add: RequestAll_def Some)
  qed
qed

section \<open>Every fork has its turn\<close>

lemma fp_Get_fork:
  assumes "NewForkPool forks = Inr p\<^sub>0" "fpForks p = fpForks p\<^sub>0" "length forks < 2 ^ 32" "fp_Get p = (fork, p')"
  shows "fork \<in> set forks \<and> fpForks p' = forks \<and> fpNextIndex p' = fpNextIndex p + 1"
proof -
  have f: "forks \<noteq> []" "fpForks p = forks"
    using assms(1,2) by (auto simp: NewForkPool_def split: if_splits)
  have "unat (word_of_nat (length forks) :: 32 word) = length forks"
    using assms(3) by (simp add: unat_of_nat take_bit_eq_mod)
  then have "unat (k mod word_of_nat (length forks) :: 32 word) < length forks" for k
    using f(1) by (simp add: unat_mod_distrib)
  then show ?thesis
    using assms(4) f by (auto simp: fp_Get_def Let_def)
qed

end
