(* ===== verification/Spec2Isabelle.thy ===== *)
theory Spec2Isabelle
  imports Registry_Manager UniswapV2_Math UniswapV2_System UniswapV3_Swap State_Stream Engine_Pipeline
    Client_Index Swap_Router Router_TopK Router_Rates Block_Feed Client_Manager Token_Analyzer Batch_Fetch Contract_Calls Trade_Platform Fork_Measure
begin

text \<open>
  A verification development for DefiState, a service that follows the pools of decentralised exchanges block by block, keeps an
  indexed state of tokens, pools and prices, streams it to clients as full states and differences, and a set of client libraries and examples
  that route trades on it. All paths below are under \<^verbatim>\<open>src/\<close>.

  \<^bold>\<open>The program and how its parts interact.\<close> Block subscribers (\<^verbatim>\<open>block\<close>) listen to the healthy nodes of a client manager
  (\<^verbatim>\<open>clients/eth-clients\<close>) and fan new blocks out to the Uniswap V2 and V3 systems (\<^verbatim>\<open>protocols/uniswap-v2\<close>, \<^verbatim>\<open>protocols/uniswap-v3\<close>). Each
  system reads the logs of the block, fetches what changed, and keeps a registry with a cached view; the V3 system also
  runs a tick indexer. New pools are registered through the registry manager (\<^verbatim>\<open>protocols/pool-registry\<close>) in the pool system and in the graph of tokens and
  pools; tokens are in the token system (\<^verbatim>\<open>protocols/erc20-token-system\<close>), which the token analyzer (\<^verbatim>\<open>token-analyzer\<close>) fills. For every block
  the engine (\<^verbatim>\<open>engine\<close>) waits for the systems, builds a state of all their views and sends it to its subscribers. The stream server
  (\<^verbatim>\<open>streams/jsonrpc/server\<close>) sends a subscriber a full state or the difference to the last one (\<^verbatim>\<open>differ\<close>); the client (\<^verbatim>\<open>streams/jsonrpc/client\<close>) patches
  its copy (\<^verbatim>\<open>patcher\<close>), and \<^verbatim>\<open>clients/chains\<close> turns each copy into an indexed state. The router and the trading platform of
  \<^verbatim>\<open>examples/celo-flow/server/app\<close> find paths on that state, split trades over them and encode the transactions.

  \<^bold>\<open>Theories and the code they model.\<close>
  \<^item> \<^verbatim>\<open>Go_Prelude\<close>: Go's integers as words, results as sums, maps that are ranged over as association lists with an arbitrary iteration
    order, \<^verbatim>\<open>sort.Search\<close>, \<^verbatim>\<open>math/big\<close> division; the collections of lemmas the other theories use.
  \<^item> \<^verbatim>\<open>Interfaces\<close>: the contracts \<^verbatim>\<open>id_store\<close> (a registry with permanent identifiers), \<^verbatim>\<open>diff_patch\<close> (a differ and its patcher) and \<^verbatim>\<open>edge_graph\<close>
    as locales, with what clients derive from them. They are interpreted by the registries, the differs and the graph below.
  \<^item> \<^verbatim>\<open>Token_Registry\<close>, \<^verbatim>\<open>Token_System\<close>: \<^verbatim>\<open>protocols/erc20-token-system\<close>. \<^verbatim>\<open>Pool_Registry\<close>, \<^verbatim>\<open>Pool_System\<close>: \<^verbatim>\<open>pool_key.go\<close>,
    \<^verbatim>\<open>pool_registry.go\<close>, \<^verbatim>\<open>pool_system.go\<close> and the differ and patcher. \<^verbatim>\<open>Token_Pools_Graph\<close>, \<^verbatim>\<open>Token_Pools_System\<close>: \<^verbatim>\<open>token_pools_registry.go\<close> with its
    compaction and \<^verbatim>\<open>token_pools_system.go\<close>. \<^verbatim>\<open>Registry_Manager\<close>: \<^verbatim>\<open>registry_manager.go\<close>. The slices of a struct of arrays are lists
    with their index maps; a method under the mutex is a function on the record, and a concurrent execution is a sequence of them.
  \<^item> \<^verbatim>\<open>UniswapV2_Registry\<close>, \<^verbatim>\<open>UniswapV2_Math\<close>, \<^verbatim>\<open>UniswapV2_Logs\<close>, \<^verbatim>\<open>UniswapV2_System\<close>: \<^verbatim>\<open>protocols/uniswap-v2\<close> with its calculator.
    \<^verbatim>\<open>Pool_Upkeep\<close> has what the V2 and V3 systems share.
  \<^item> \<^verbatim>\<open>Tick_Math\<close>, \<^verbatim>\<open>Swap_Math\<close>, \<^verbatim>\<open>UniswapV3_Swap\<close>: \<^verbatim>\<open>protocols/uniswap-v3/math\<close>, up to the swap loop. \<^verbatim>\<open>UniswapV3_Registry\<close>,
    \<^verbatim>\<open>Tick_Bitmap\<close>, \<^verbatim>\<open>Tick_Indexer\<close>, \<^verbatim>\<open>Tick_Indexer_Run\<close>, \<^verbatim>\<open>UniswapV3_System\<close>: registry, ticks and system of \<^verbatim>\<open>protocols/uniswap-v3\<close>.
    \<^verbatim>\<open>Batch_Fetch\<close> and \<^verbatim>\<open>Contract_Calls\<close>: the batched RPC functions, the pool initializers, the logs and \<^verbatim>\<open>bitmath\<close>.
  \<^item> \<^verbatim>\<open>State_Sync\<close>: \<^verbatim>\<open>engine/types.go\<close>, \<^verbatim>\<open>differ\<close>, \<^verbatim>\<open>patcher\<close> and the tables of \<^verbatim>\<open>streams/jsonrpc/stateops\<close>. \<^verbatim>\<open>State_Stream\<close>: the server and
    the client of the stream. \<^verbatim>\<open>Engine\<close>, \<^verbatim>\<open>Engine_Pipeline\<close>: \<^verbatim>\<open>engine/engine.go\<close>.
  \<^item> \<^verbatim>\<open>Block_Feed\<close>: \<^verbatim>\<open>block\<close> and \<^verbatim>\<open>internal/helpers/block.go\<close>. \<^verbatim>\<open>Client_Manager\<close>: \<^verbatim>\<open>clients/eth-clients\<close>. \<^verbatim>\<open>Token_Analyzer\<close>: \<^verbatim>\<open>token-analyzer\<close>.
    \<^verbatim>\<open>Fork_Measure\<close>: \<^verbatim>\<open>fork/anvil-forker\<close> and \<^verbatim>\<open>token-analyzer/fork\<close>, which measure the fees and the gas of tokens.
  \<^item> \<^verbatim>\<open>Client_Index\<close>: \<^verbatim>\<open>clients/indexers\<close>, \<^verbatim>\<open>clients/types.go\<close> and \<^verbatim>\<open>clients/chains/ethereum\<close>. \<^verbatim>\<open>Swap_Router\<close>, \<^verbatim>\<open>Router_TopK\<close>, \<^verbatim>\<open>Router_Rates\<close>:
    \<^verbatim>\<open>router/router.go\<close> and its bit sets. \<^verbatim>\<open>Trade_Platform\<close>: \<^verbatim>\<open>app.go\<close> and \<^verbatim>\<open>helpers.go\<close>.

  \<^bold>\<open>What the theorems show.\<close>
  \<^item> Invariants over all interleavings: the token, pool and graph systems, both Uniswap systems and the tick indexer keep their slices and
    indexes consistent and their cached views equal to the registry outside of a publication; the fan-outs of blocks and states never send
    on a closed channel and keep the order of what they deliver.
  \<^item> Refinement: the graph system implements the abstract graph of token pairs with their pools, also across compaction; a client of
    the stream has exactly the states of the engine.
  \<^item> Round trips: patching a state with a difference yields the new state; snapshots restore registries; contract answers and swap data
    can be read back.
  \<^item> Arithmetic: exactness and rounding directions of the V2 calculator, the constant product, no profit from a round trip; monotonicity and
    bounds of the tick-price map; soundness of a V3 swap step.
  \<^item> Termination and liveness: the V3 swap loop returns, the binary search finds the greatest tick, the engine builds a state once the
    systems are in time, the stream sends a full state at least once in its interval.
  \<^item> Routing: paths that the three searches return are simple paths of the graph with the quoted amount; a trade is split exactly;
    swap data names the right pools and recipients. The fee measured for a token is exact to a whole percent.

  \<^bold>\<open>Loops.\<close> A loop over a slice or map is structural recursion or a fold. The V3 swap loop and the loop over chunks have no static bound
  and are \<^verbatim>\<open>partial_function (option)\<close>; \<open>None\<close> is a run that does not return, and theorems state when the result is not \<open>None\<close>. No model uses fuel: retries,
  runs of a search and bits of a word are bounded by the code itself and the bound is the recursion argument.

  \<^bold>\<open>Parameters.\<close> The package \<^verbatim>\<open>uint256\<close> is a record of operations with the locale \<^verbatim>\<open>uint256_pkg\<close>, interpreted on 256-bit words; the
  sorter of \<^verbatim>\<open>sort.Slice\<close>, the iteration order of maps, the JSON codec, ABI packing, floating-point functions, the clock and the answers of nodes
  and contracts are arguments. What a property needs of them is a hypothesis of its statement, and its witness instantiates them.

  \<^bold>\<open>Not modelled.\<close> The command and its configuration; the wiring of \<^verbatim>\<open>internal/chains\<close> and \<^verbatim>\<open>internal/protocols\<close>, which only connects the
  modelled functions; loggers, metrics, tickers and dialling; the HTTP services; the JSON text of ABIs and the contract
  calls, logs and bloom filters of the forks of Uniswap V3, which are copies of the modelled ones with another ABI; the clients and tables of the
  chains other than Ethereum and Celo, which have the same text; the platform for Katana, an earlier copy of the modelled one.
\<close>

section \<open>From the graph to the quote\<close>


text \<open>The graph of two pools: pool 20 joins the tokens 2 and 3. A trade of 1003 in two fragments; the remainder joins the last one.\<close>

definition wit_swap_state :: CeloState where
  "wit_swap_state = (let reg = NewIndexablePoolRegistry \<lparr>prvPools = [\<lparr>pvID = 20, pvKey = replicate 12 0 @ replicate 20 9, pvProtocol = 7\<rparr>],
       prvProtocols = [(7, celo_UniswapV2ProtocolID)]\<rparr> in
     \<lparr>ceTokens = NewIndexableTokenSystem (map wit_token [1, 2, 3]), cePools = reg, ceUniswapV2 = ip_put 20 (replicate 20 9) (wit_pair 20 2 3 10000 10000) no_pools,
      ceUniswapV3 = no_pools, ceAerodromeV3 = no_pools, ceResolver = NewProtocolResolver [celo_UniswapV2ProtocolID \<mapsto> UniswapV2ProtocolSchema] reg,
      ceGraph = \<lparr>gvTokens = [1, 2, 3], gvPools = [10, 20], gvAdjacency = [[0], [1, 2], [3]], gvEdgeTargets = [1, 0, 2, 1],
        gvEdgePools = [[0], [0], [1], [1]]\<rparr>\<rparr>)"

definition wit_empty_platform :: Platform where
  "wit_empty_platform = NewPlatform 1000 (replicate 20 2) (replicate 20 255) (Some 500) 2"

lemma wit_set_quote:
  "case SetState U wit_swap_state wit_empty_platform of
     None \<Rightarrow> False
   | Some p \<Rightarrow> QuoteAlgorithm U rev rev p (replicate 20 2) (replicate 20 3) 1003 2 = Some (Inr [([\<lparr>tpTokenInID = 2, tpTokenOutID = 3, tpPoolID = 20\<rparr>], 1003, 908)])"
  by code_simp


end
